(* ===== verification/Prelude.thy ===== *)
theory Prelude
  imports Main "HOL-Library.Word"
begin

text \<open>
  Shared vocabulary of the development: the machine integer types of the C
  code, the search loops the kernel writes over its fixed tables, the state
  and error conventions, and the collections of rewrite rules the component
  theories extend.

  Conventions.  A C integer of width w is a \<^typ>\<open>'w word\<close>; an index or a
  count bounded by the size of a table is a \<^typ>\<open>nat\<close>; an \<open>int\<close> return
  code is an \<^typ>\<open>int\<close>.  A fixed array of slots is a list of the same length
  that is only updated at an index below its length.
\<close>

type_synonym u8 = "8 word"
type_synonym u16 = "16 word"
type_synonym u32 = "32 word"
type_synonym u64 = "64 word"

section \<open>Searching a table\<close>

text \<open>The loop \<open>for(i=0;i<N;i++) if(P(t[i])) return i;\<close>\<close>

fun first_index :: "('a \<Rightarrow> bool) \<Rightarrow> 'a list \<Rightarrow> nat option" where
  "first_index P [] = None"
| "first_index P (x # xs) = (if P x then Some 0 else map_option Suc (first_index P xs))"

lemma first_index_None_iff:
  "first_index P xs = None \<longleftrightarrow> (\<forall>x\<in>set xs. \<not> P x)"
  by (induction xs) auto

lemma first_index_Some_iff:
  "first_index P xs = Some i \<longleftrightarrow> i < length xs \<and> P (xs ! i) \<and> (\<forall>j<i. \<not> P (xs ! j))"
proof (induction xs arbitrary: i)
  case (Cons x xs)
  show ?case
  proof (cases i)
    case 0
    then show ?thesis by auto
  next
    case (Suc k)
    then show ?thesis using Cons.IH [of k] by (auto simp: less_Suc_eq_0_disj)
  qed
qed simp

lemma first_index_replicate [simp]:
  "first_index P (replicate n x) = (if 0 < n \<and> P x then Some 0 else None)"
  by (induction n) auto

lemma first_index_SomeD:
  assumes "first_index P xs = Some i"
  shows "i < length xs" "P (xs ! i)" "xs ! i \<in> set xs"
  using assms by (auto simp: first_index_Some_iff)

lemma first_index_ex:
  assumes "x \<in> set xs" "P x"
  obtains i where "first_index P xs = Some i" "i < length xs" "P (xs ! i)"
  using assms by (cases "first_index P xs") (auto simp: first_index_None_iff dest: first_index_SomeD)

lemma first_index_update_None:
  assumes "first_index P xs = None" "i < length xs" "P y"
  shows "first_index P (xs[i := y]) = Some i"
proof -
  have n: "\<not> P (xs ! j)" if "j < length xs" for j
    using assms(1) that nth_mem by (fastforce simp: first_index_None_iff)
  have "j < i \<Longrightarrow> \<not> P (xs[i := y] ! j)" for j
    using n assms(2) by auto
  then show ?thesis
    using assms(2,3) unfolding first_index_Some_iff by auto
qed

lemma first_index_update_same:
  assumes "first_index P xs = Some i" "P y"
  shows "first_index P (xs[i := y]) = Some i"
  using assms unfolding first_index_Some_iff by auto

lemma first_index_update_other:
  assumes "i < length xs" "\<not> P (xs ! i)" "\<not> P y"
  shows "first_index P (xs[i := y]) = first_index P xs"
proof -
  have *: "P (xs[i := y] ! j) = P (xs ! j)" if "j < length xs" for j
    using assms that by (cases "i = j") auto
  show ?thesis
  proof (cases "first_index P xs")
    case None
    then have "\<not> P (xs ! j)" if "j < length xs" for j
      using that nth_mem by (fastforce simp: first_index_None_iff)
    then have "\<forall>x\<in>set (xs[i := y]). \<not> P x"
      using * by (auto simp: in_set_conv_nth)
    then have "first_index P (xs[i := y]) = None" by (simp add: first_index_None_iff)
    then show ?thesis using None by simp
  next
    case (Some k)
    then have "k < length xs" "P (xs ! k)" "\<forall>j<k. \<not> P (xs ! j)"
      by (auto simp: first_index_Some_iff)
    then have "first_index P (xs[i := y]) = Some k"
      unfolding first_index_Some_iff using * by auto
    then show ?thesis using Some by simp
  qed
qed

lemma first_index_find: "find P xs = map_option (nth xs) (first_index P xs)"
proof (induction xs)
  case (Cons x xs)
  then show ?case by (cases "first_index P xs") auto
qed simp

section \<open>Counting\<close>

definition count_if :: "(nat \<Rightarrow> bool) \<Rightarrow> nat \<Rightarrow> nat" where
  "count_if P n = length (filter P [0..<n])"

lemma count_if_card: "count_if P n = card {i. i < n \<and> P i}"
proof -
  have "distinct (filter P [0..<n])" by simp
  then have "card (set (filter P [0..<n])) = length (filter P [0..<n])"
    by (rule distinct_card)
  moreover have "set (filter P [0..<n]) = {i. i < n \<and> P i}" by auto
  ultimately show ?thesis by (simp add: count_if_def)
qed

lemma count_if_le: "count_if P n \<le> n"
  unfolding count_if_def by (metis diff_zero length_filter_le length_upt)

lemma count_if_cong:
  "(\<And>i. i < n \<Longrightarrow> P i = Q i) \<Longrightarrow> count_if P n = count_if Q n"
  unfolding count_if_def by (rule arg_cong [where f = length], rule filter_cong) auto

lemma count_if_union:
  assumes "A \<subseteq> {i. i < n}" "\<And>i. i \<in> A \<Longrightarrow> \<not> P i"
  shows "count_if (\<lambda>i. P i \<or> i \<in> A) n = count_if P n + card A"
proof -
  have f: "finite A" using assms(1) by (rule finite_subset) simp
  have "{i. i < n \<and> (P i \<or> i \<in> A)} = {i. i < n \<and> P i} \<union> A"
    using assms(1) by auto
  moreover have "{i. i < n \<and> P i} \<inter> A = {}" using assms(2) by auto
  ultimately show ?thesis
    using f by (simp add: count_if_card card_Un_disjoint)
qed

lemma count_if_diff:
  "count_if (\<lambda>i. P i \<and> i \<notin> A) n + card {i. i < n \<and> P i \<and> i \<in> A} = count_if P n"
proof -
  have "{i. i < n \<and> P i} = {i. i < n \<and> P i \<and> i \<notin> A} \<union> {i. i < n \<and> P i \<and> i \<in> A}"
    by auto
  then have "card {i. i < n \<and> P i} =
      card {i. i < n \<and> P i \<and> i \<notin> A} + card {i. i < n \<and> P i \<and> i \<in> A}"
    by (subst (1) \<open>{i. i < n \<and> P i} = _\<close>, subst card_Un_disjoint) auto
  then show ?thesis by (simp add: count_if_card)
qed

lemma length_filter_update:
  assumes "i < length xs"
  shows "int (length (filter P (xs[i := y]))) =
    int (length (filter P xs)) + of_bool (P y) - of_bool (P (xs ! i))"
  using assms
proof (induction xs arbitrary: i)
  case (Cons x xs)
  then show ?case by (cases i) auto
qed simp

section \<open>Words\<close>

lemma unat_lt64: "unat (x :: u64) < 2 ^ 64"
  by (rule order_less_le_trans [OF unsigned_less]) simp

lemma unat_add_no_wrap:
  fixes a b :: "'a::len word"
  assumes "unat a + unat b < 2 ^ LENGTH('a)"
  shows "unat (a + b) = unat a + unat b"
  using assms by (simp add: unat_word_ariths(1))

lemma unat_of_nat_small:
  assumes "n < 2 ^ LENGTH('a::len)"
  shows "unat (of_nat n :: 'a word) = n"
  using assms by (simp add: unat_of_nat take_bit_nat_eq_self)

lemma bit_one_shift:
  "bit (push_bit k (1 :: 'a::len word)) n \<longleftrightarrow> n = k \<and> n < LENGTH('a)"
  by (auto simp: bit_exp_iff)

unbundle bit_operations_syntax

lemma bit_or_pow:
  "bit (w OR 2 ^ k :: 'a::len word) n \<longleftrightarrow> n < LENGTH('a) \<and> (bit w n \<or> n = k)"
  by (auto simp: bit_or_iff bit_exp_iff dest: bit_imp_le_length)

lemma bit_and_not_pow:
  "bit (w AND NOT (2 ^ k) :: 'a::len word) n \<longleftrightarrow> bit w n \<and> n \<noteq> k"
  by (auto simp: bit_and_iff bit_not_iff bit_exp_iff dest: bit_imp_le_length)

lemma mask12: "(0xFFF :: u64) = mask 12"
  by (simp add: mask_eq_exp_minus_1)

lemma drop_bit_align: "drop_bit k (x AND NOT (mask k)) = drop_bit k (x :: 'a::len word)"
  by (rule bit_word_eqI)
     (auto simp: bit_drop_bit_eq bit_and_iff bit_not_iff bit_mask_iff dest: bit_imp_le_length)

lemma unat_push_bit:
  assumes "unat (x :: u64) * 2 ^ k < 2 ^ 64"
  shows "unat (push_bit k x) = unat x * 2 ^ k"
proof -
  have "unat (push_bit k x) = take_bit 64 (push_bit k (unat x))"
    by (subst unsigned_push_bit_eq) simp
  also have "\<dots> = unat x * 2 ^ k"
    using assms unfolding push_bit_eq_mult by (rule take_bit_nat_eq_self)
  finally show ?thesis .
qed

lemma unat_drop_bit: "unat (drop_bit k (x :: u64)) = unat x div 2 ^ k"
proof -
  have "unat (drop_bit k x) = drop_bit k (take_bit 64 (unat x))"
    by (subst unsigned_drop_bit_eq) simp
  also have "take_bit 64 (unat x) = unat x" 
    using unsigned_less [of x] by (intro take_bit_nat_eq_self) simp
  finally show ?thesis by (simp add: drop_bit_eq_div)
qed

lemma and_not_mask_shift: "x AND NOT (mask k) = push_bit k (drop_bit k (x :: 'a::len word))"
  by (rule bit_word_eqI)
     (auto simp: bit_push_bit_iff bit_drop_bit_eq bit_and_iff bit_not_iff bit_mask_iff)

lemma unat_align_down: "unat (x AND NOT (mask k) :: u64) = unat x div 2 ^ k * 2 ^ k"
proof -
  have "unat x div 2 ^ k * 2 ^ k \<le> unat x" by simp
  then have "unat (drop_bit k x) * 2 ^ k < 2 ^ 64"
    unfolding unat_drop_bit by (rule le_less_trans [OF _ unat_lt64])
  then show ?thesis unfolding and_not_mask_shift by (simp add: unat_push_bit unat_drop_bit)
qed

end
