(* ===== verification/Crypto.thy ===== *)
theory Crypto
  imports Prelude
begin

unbundle bit_operations_syntax

text \<open>
  SHA-256, HMAC and PBKDF2 (src/kernel/crypto.c).

  \<open>sh_buf\<close> holds the \<open>buflen\<close> bytes buffered so far; what lies behind them in
  the array is never read.  The incremental code is shown equal to the padded
  block chain of the standard; HMAC is proved over the interface of an
  incremental hash.
\<close>

definition SHA256_BLOCK :: nat where "SHA256_BLOCK = 64"
definition SHA256_STATE :: nat where "SHA256_STATE = 32"

record sha256_ctx =
  sh_h :: "u32 list"
  sh_len :: u64
  sh_buf :: "u8 list"

definition K :: "u32 list" where
  "K = [0x428a2f98, 0x71374491, 0xb5c0fbcf, 0xe9b5dba5, 0x3956c25b, 0x59f111f1, 0x923f82a4, 0xab1c5ed5] @
     [0xd807aa98, 0x12835b01, 0x243185be, 0x550c7dc3, 0x72be5d74, 0x80deb1fe, 0x9bdc06a7, 0xc19bf174] @
     [0xe49b69c1, 0xefbe4786, 0x0fc19dc6, 0x240ca1cc, 0x2de92c6f, 0x4a7484aa, 0x5cb0a9dc, 0x76f988da] @
     [0x983e5152, 0xa831c66d, 0xb00327c8, 0xbf597fc7, 0xc6e00bf3, 0xd5a79147, 0x06ca6351, 0x14292967] @
     [0x27b70a85, 0x2e1b2138, 0x4d2c6dfc, 0x53380d13, 0x650a7354, 0x766a0abb, 0x81c2c92e, 0x92722c85] @
     [0xa2bfe8a1, 0xa81a664b, 0xc24b8b70, 0xc76c51a3, 0xd192e819, 0xd6990624, 0xf40e3585, 0x106aa070] @
     [0x19a4c116, 0x1e376c08, 0x2748774c, 0x34b0bcb5, 0x391c0cb3, 0x4ed8aa4a, 0x5b9cca4f, 0x682e6ff3] @
     [0x748f82ee, 0x78a5636f, 0x84c87814, 0x8cc70208, 0x90befffa, 0xa4506ceb, 0xbef9a3f7, 0xc67178f2]"

definition rotr32 :: "u32 \<Rightarrow> nat \<Rightarrow> u32" where
  "rotr32 x n = drop_bit n x OR push_bit (32 - n) x"

definition be32 :: "u8 list \<Rightarrow> u32" where
  "be32 p = push_bit 24 (ucast (p ! 0)) OR push_bit 16 (ucast (p ! 1)) OR
     push_bit 8 (ucast (p ! 2)) OR ucast (p ! 3)"

definition put_be32 :: "u32 \<Rightarrow> u8 list" where
  "put_be32 v = [ucast (drop_bit 24 v), ucast (drop_bit 16 v), ucast (drop_bit 8 v), ucast v]"

text \<open>The message schedule: \<open>n\<close> more words.\<close>

fun sha256_extend :: "nat \<Rightarrow> u32 list \<Rightarrow> u32 list" where
  "sha256_extend 0 w = w"
| "sha256_extend (Suc n) w =
    (let i = length w;
         x = w ! (i - 15); y = w ! (i - 2);
         s0 = rotr32 x 7 XOR rotr32 x 18 XOR drop_bit 3 x;
         s1 = rotr32 y 17 XOR rotr32 y 19 XOR drop_bit 10 y
     in sha256_extend n (w @ [w ! (i - 16) + s0 + w ! (i - 7) + s1]))"

fun sha256_round :: "u32 \<times> u32 \<Rightarrow> u32 list \<Rightarrow> u32 list" where
  "sha256_round (k, w) [a, b, c, d, e, f, g, h] =
    (let S1 = rotr32 e 6 XOR rotr32 e 11 XOR rotr32 e 25;
         ch = (e AND f) XOR (NOT e AND g);
         t1 = h + S1 + ch + k + w;
         S0 = rotr32 a 2 XOR rotr32 a 13 XOR rotr32 a 22;
         maj = (a AND b) XOR (a AND c) XOR (b AND c);
         t2 = S0 + maj
     in [t1 + t2, a, b, c, d + t1, e, f, g])"
| "sha256_round kw h = h"

definition sha256_compress :: "u32 list \<Rightarrow> u8 list \<Rightarrow> u32 list" where
  "sha256_compress h block =
    (let w = sha256_extend 48 (map (\<lambda>i. be32 (drop (i * 4) block)) [0..<16])
     in map2 (+) h (fold sha256_round (zip K w) h))"

definition sha256_h0 :: "u32 list" where
  "sha256_h0 = [0x6a09e667, 0xbb67ae85, 0x3c6ef372, 0xa54ff53a,
     0x510e527f, 0x9b05688c, 0x1f83d9ab, 0x5be0cd19]"

definition sha256_init :: sha256_ctx where
  "sha256_init = \<lparr>sh_h = sha256_h0, sh_len = 0, sh_buf = []\<rparr>"

text \<open>The loop of \<open>sha256_update\<close>.  On entry \<open>buflen\<close> is below 64 (with 64 bytes
  buffered the C loop would not advance; no operation leaves that state).\<close>

function update_loop :: "u32 list \<Rightarrow> u8 list \<Rightarrow> u8 list \<Rightarrow> u32 list \<times> u8 list" where
  "update_loop h buf d =
    (if d = [] \<or> SHA256_BLOCK \<le> length buf then (h, buf)
     else
       let n = min (SHA256_BLOCK - length buf) (length d);
           buf' = buf @ take n d
       in if length buf' = SHA256_BLOCK then update_loop (sha256_compress h buf') [] (drop n d)
          else update_loop h buf' (drop n d))"
  by pat_completeness auto
termination
  by (relation "measure (\<lambda>(h, buf, d). length d)") (auto simp: SHA256_BLOCK_def Let_def)

declare update_loop.simps [simp del]

definition sha256_update :: "sha256_ctx \<Rightarrow> u8 list \<Rightarrow> sha256_ctx" where
  "sha256_update c d =
    (case update_loop (sh_h c) (sh_buf c) d of (h, buf) \<Rightarrow>
      \<lparr>sh_h = h, sh_len = sh_len c + of_nat (length d), sh_buf = buf\<rparr>)"

definition zeros_to :: "nat \<Rightarrow> u8 list \<Rightarrow> u8 list" where
  "zeros_to n b = b @ replicate (n - length b) 0"

definition sha256_final :: "sha256_ctx \<Rightarrow> u8 list" where
  "sha256_final c =
    (let bits = sh_len c * 8;
         buf = sh_buf c @ [0x80];
         (h, buf) = (if 56 < length buf
                     then (sha256_compress (sh_h c) (zeros_to SHA256_BLOCK buf), [])
                     else (sh_h c, buf));
         buf = zeros_to 56 buf @ put_be32 (ucast (drop_bit 32 bits)) @ put_be32 (ucast bits)
     in concat (map put_be32 (sha256_compress h buf)))"

definition hmac_sha256 :: "u8 list \<Rightarrow> u8 list \<Rightarrow> u8 list" where
  "hmac_sha256 key data =
    (let k = zeros_to SHA256_BLOCK
               (if SHA256_BLOCK < length key then sha256_final (sha256_update sha256_init key) else key);
         ipad = map (\<lambda>b. b XOR 0x36) k;
         opad = map (\<lambda>b. b XOR 0x5c) k;
         out = sha256_final (sha256_update (sha256_update sha256_init ipad) data)
     in sha256_final (sha256_update (sha256_update sha256_init opad) out))"

definition xor_bytes :: "u8 list \<Rightarrow> u8 list \<Rightarrow> u8 list" where
  "xor_bytes = map2 (XOR)"

text \<open>The inner loop: \<open>u\<close> and \<open>t\<close> after \<open>n\<close> more iterations.\<close>

fun pbkdf2_iter :: "nat \<Rightarrow> u8 list \<Rightarrow> u8 list \<Rightarrow> u8 list \<Rightarrow> u8 list" where
  "pbkdf2_iter 0 pw u t = t"
| "pbkdf2_iter (Suc n) pw u t =
    (let u = hmac_sha256 pw u in pbkdf2_iter n pw u (xor_bytes t u))"

definition pbkdf2_block :: "u8 list \<Rightarrow> u8 list \<Rightarrow> nat \<Rightarrow> u32 \<Rightarrow> u8 list" where
  "pbkdf2_block pw salt iters i =
    (let u = hmac_sha256 pw (take 128 salt @ put_be32 i) in pbkdf2_iter (iters - 1) pw u u)"

section \<open>The incremental hash is the block chain\<close>

function absorb :: "u32 list \<Rightarrow> u8 list \<Rightarrow> u32 list \<times> u8 list" where
  "absorb h m =
    (if length m < 64 then (h, m) else absorb (sha256_compress h (take 64 m)) (drop 64 m))"
  by pat_completeness auto
termination by (relation "measure (\<lambda>(h, m). length m)") auto

declare absorb.simps [simp del]

lemma absorb_short: "length m < 64 \<Longrightarrow> absorb h m = (h, m)"
  by (subst absorb.simps) simp

lemma absorb_rest: "length (snd (absorb h m)) < 64"
proof (induction h m rule: absorb.induct)
  case (1 h m)
  then show ?case by (cases "length m < 64") (subst absorb.simps, simp)+
qed

lemma absorb_block: "length b = 64 \<Longrightarrow> absorb h (b @ m) = absorb (sha256_compress h b) m"
  by (subst absorb.simps) simp

lemma absorb_append: "absorb h (a @ b) = (case absorb h a of (h', r) \<Rightarrow> absorb h' (r @ b))"
proof (induction h a rule: absorb.induct)
  case (1 h a)
  show ?case
  proof (cases "length a < 64")
    case True
    then show ?thesis by (simp add: absorb_short)
  next
    case False
    have "absorb h (a @ b) = absorb (sha256_compress h (take 64 a)) (drop 64 a @ b)"
      using False absorb_block [of "take 64 a" h "drop 64 a @ b"] by (simp flip: append_assoc)
    moreover have "absorb h a = absorb (sha256_compress h (take 64 a)) (drop 64 a)"
      using False by (subst absorb.simps) simp
    ultimately show ?thesis using 1 [OF False] by simp
  qed
qed

lemma update_loop_absorb: "length buf < 64 \<Longrightarrow> update_loop h buf d = absorb h (buf @ d)"
proof (induction h buf d rule: update_loop.induct)
  case (1 h buf d)
  let ?n = "min (SHA256_BLOCK - length buf) (length d)"
  let ?b = "buf @ take ?n d"
  show ?case
  proof (cases "d = []")
    case True
    then show ?thesis using 1 by (subst update_loop.simps) (simp add: absorb_short)
  next
    case False
    then have g: "\<not> (d = [] \<or> SHA256_BLOCK \<le> length buf)" using 1(3) by (simp add: SHA256_BLOCK_def)
    have e: "buf @ d = ?b @ drop ?n d" by simp
    show ?thesis
    proof (cases "length ?b = SHA256_BLOCK")
      case True
      then have "update_loop h buf d = update_loop (sha256_compress h ?b) [] (drop ?n d)"
        using g by (subst update_loop.simps) (simp add: Let_def)
      also have "\<dots> = absorb (sha256_compress h ?b) (drop ?n d)"
        using 1(1) [OF g refl refl True] by simp
      also have "\<dots> = absorb h (buf @ d)"
        unfolding e by (rule absorb_block [symmetric]) (use True in \<open>simp add: SHA256_BLOCK_def\<close>)
      finally show ?thesis .
    next
      case no: False
      then have n: "?n = length d" "length ?b < 64" using 1(3) by (auto simp: SHA256_BLOCK_def)
      have "update_loop h buf d = update_loop h ?b (drop ?n d)"
        using g no by (subst update_loop.simps) (simp add: Let_def)
      also have "\<dots> = absorb h (?b @ drop ?n d)" using 1(2) [OF g refl refl no n(2)] .
      finally show ?thesis unfolding e .
    qed
  qed
qed

definition sha_ok :: "sha256_ctx \<Rightarrow> bool" where
  "sha_ok c \<longleftrightarrow> length (sh_buf c) < 64"

lemma sha_ok_init: "sha_ok sha256_init" by (simp add: sha_ok_def sha256_init_def)

lemma sha256_update_eq:
  "sha_ok c \<Longrightarrow> sha256_update c d =
    \<lparr>sh_h = fst (absorb (sh_h c) (sh_buf c @ d)), sh_len = sh_len c + of_nat (length d),
     sh_buf = snd (absorb (sh_h c) (sh_buf c @ d))\<rparr>"
  by (simp add: sha256_update_def sha_ok_def update_loop_absorb split: prod.split)

lemma sha_ok_update: "sha_ok c \<Longrightarrow> sha_ok (sha256_update c d)"
  by (simp add: sha256_update_eq) (simp add: sha_ok_def absorb_rest)

lemma sha256_update_append:
  assumes "sha_ok c"
  shows "sha256_update (sha256_update c a) b = sha256_update c (a @ b)"
proof -
  have "absorb (sh_h c) (sh_buf c @ a @ b) =
      (case absorb (sh_h c) (sh_buf c @ a) of (h', r) \<Rightarrow> absorb h' (r @ b))"
    using absorb_append [of "sh_h c" "sh_buf c @ a" b] by simp
  then show ?thesis
    using assms sha_ok_update [OF assms, of a]
    by (simp add: sha256_update_eq [OF assms] sha256_update_eq split: prod.split)
qed

text \<open>The padding of the standard: a one bit, zeros, and the bit length in 64 bits.\<close>

definition sha_pad :: "u8 list \<Rightarrow> u8 list" where
  "sha_pad m =
    (let bits = of_nat (length m) * 8 :: u64
     in m @ 0x80 # replicate ((119 - length m mod 64) mod 64) 0 @
          put_be32 (ucast (drop_bit 32 bits)) @ put_be32 (ucast bits))"

definition sha256 :: "u8 list \<Rightarrow> u8 list" where
  "sha256 m = concat (map put_be32 (fst (absorb sha256_h0 (sha_pad m))))"

lemma length_put_be32 [simp]: "length (put_be32 v) = 4"
  by (simp add: put_be32_def)

lemma sha_pad_blocks: "length (sha_pad m) mod 64 = 0"
proof -
  define q r where "q = length m div 64" and "r = length m mod 64"
  have m: "length m = q * 64 + r" "r < 64" by (simp_all add: q_def r_def)
  have "(q * 64 + r + 9 + (119 - r) mod 64) mod 64 = 0"
  proof (cases "r \<le> 55")
    case True
    have e: "119 - r = 64 + (55 - r)" using True by simp
    have "(119 - r) mod 64 = 55 - r" unfolding e by simp
    then have "q * 64 + r + 9 + (119 - r) mod 64 = (q + 1) * 64" using True by simp
    then show ?thesis by (simp only: mod_mult_self2_is_0)
  next
    case False
    then have "q * 64 + r + 9 + (119 - r) mod 64 = (q + 2) * 64" using m(2) by simp
    then show ?thesis by (simp only: mod_mult_self2_is_0)
  qed
  then have "(length m + 9 + (119 - length m mod 64) mod 64) mod 64 = 0"
    using m by simp
  then show ?thesis by (simp add: sha_pad_def Let_def ac_simps)
qed

lemma sha256_final_eq:
  assumes "length r < 64" "absorb sha256_h0 m = (h, r)" "length m mod 64 = length r"
  shows "sha256_final \<lparr>sh_h = h, sh_len = of_nat (length m), sh_buf = r\<rparr> = sha256 m"
proof -
  let ?bits = "of_nat (length m) * 8 :: u64"
  let ?l = "put_be32 (ucast (drop_bit 32 ?bits)) @ put_be32 (ucast ?bits)"
  have p: "sha_pad m = m @ ([0x80] @ replicate ((119 - length r) mod 64) 0 @ ?l)"
    using assms(3) by (simp add: sha_pad_def Let_def)
  have a: "absorb sha256_h0 (sha_pad m) =
      absorb h (r @ [0x80] @ replicate ((119 - length r) mod 64) 0 @ ?l)"
    unfolding p absorb_append [of _ m] assms(2) by simp
  show ?thesis
  proof (cases "56 < length r + 1")
    case True
    let ?b = "zeros_to 64 (r @ [0x80])"
    have n: "(119 - length r) mod 64 = 63 - length r + 56"
      using True assms(1) by simp
    have s: "r @ [0x80] @ replicate ((119 - length r) mod 64) 0 @ ?l =
        ?b @ (replicate 56 0 @ ?l)"
      unfolding n replicate_add by (simp add: zeros_to_def)
    have "absorb h (?b @ (replicate 56 0 @ ?l)) = absorb (sha256_compress h ?b) (replicate 56 0 @ ?l)"
      using assms(1) by (intro absorb_block) (simp add: zeros_to_def)
    also have "\<dots> = (sha256_compress (sha256_compress h ?b) (replicate 56 0 @ ?l), [])"
      using absorb_block [of "replicate 56 0 @ ?l" _ "[]"] by (simp add: absorb_short)
    finally show ?thesis
      using True a s by (simp add: sha256_def sha256_final_def SHA256_BLOCK_def Let_def zeros_to_def)
  next
    case False
    have n: "(119 - length r) mod 64 = 55 - length r" using False by (simp add: mod_if)
    have "absorb h ((r @ [0x80] @ replicate (55 - length r) 0 @ ?l) @ []) =
        (sha256_compress h (r @ [0x80] @ replicate (55 - length r) 0 @ ?l), [])"
      using False by (subst absorb_block) (simp_all add: absorb_short)
    then show ?thesis
      using False a n by (simp add: sha256_def sha256_final_def SHA256_BLOCK_def Let_def zeros_to_def)
  qed
qed

lemma absorb_length: "length (snd (absorb h m)) = length m mod 64"
proof (induction h m rule: absorb.induct)
  case (1 h m)
  then show ?case
    by (cases "length m < 64") (subst absorb.simps, simp add: le_mod_geq)+
qed

lemma sha256_stream: "sha256_final (sha256_update sha256_init m) = sha256 m"
proof -
  obtain h r where a: "absorb sha256_h0 m = (h, r)" by fastforce
  have "sha256_update sha256_init m = \<lparr>sh_h = h, sh_len = of_nat (length m), sh_buf = r\<rparr>"
    using a unfolding sha256_update_eq [OF sha_ok_init] by (simp add: sha256_init_def)
  then show ?thesis
    using sha256_final_eq [of r m h] a absorb_rest [of sha256_h0 m] absorb_length [of sha256_h0 m] by simp
qed

section \<open>HMAC over an incremental hash\<close>

locale stream_hash =
  fixes ok :: "'c \<Rightarrow> bool" and init :: 'c and update :: "'c \<Rightarrow> u8 list \<Rightarrow> 'c"
    and final :: "'c \<Rightarrow> u8 list" and H :: "u8 list \<Rightarrow> u8 list"
  assumes ok_init: "ok init" and ok_update: "ok c \<Longrightarrow> ok (update c d)"
    and update_append: "ok c \<Longrightarrow> update (update c a) b = update c (a @ b)"
    and final_update: "final (update init m) = H m"
begin

lemma two_parts: "final (update (update init a) b) = H (a @ b)"
  using update_append [OF ok_init] final_update by simp

lemma many_parts: "ps \<noteq> [] \<Longrightarrow> final (fold (\<lambda>p c. update c p) ps init) = H (concat ps)"
proof -
  have "ps \<noteq> [] \<Longrightarrow> ok c \<Longrightarrow> fold (\<lambda>p c. update c p) ps c = update c (concat ps)" for c
  proof (induction ps arbitrary: c)
    case (Cons p ps)
    show ?case
    proof (cases "ps = []")
      case False
      then show ?thesis
        using Cons.IH [OF False ok_update [OF Cons.prems(2)]] update_append [OF Cons.prems(2)] by simp
    qed simp
  qed simp
  then show "ps \<noteq> [] \<Longrightarrow> final (fold (\<lambda>p c. update c p) ps init) = H (concat ps)"
    using ok_init final_update by simp
qed

end

interpretation sha: stream_hash sha_ok sha256_init sha256_update sha256_final sha256
  by unfold_locales (simp_all add: sha_ok_init sha_ok_update sha256_update_append sha256_stream)

definition hmac_key :: "u8 list \<Rightarrow> u8 list" where
  "hmac_key key = zeros_to 64 (if 64 < length key then sha256 key else key)"

lemma hmac_sha256_eq:
  "hmac_sha256 key data =
    sha256 (map (\<lambda>b. b XOR 0x5c) (hmac_key key) @ sha256 (map (\<lambda>b. b XOR 0x36) (hmac_key key) @ data))"
  by (simp add: hmac_sha256_def Let_def sha.two_parts sha.final_update hmac_key_def SHA256_BLOCK_def)

section \<open>Lengths\<close>

lemma length_round: "length h = 8 \<Longrightarrow> length (sha256_round kw h) = 8"
  by (cases "(kw, h)" rule: sha256_round.cases) (auto simp: Let_def)

lemma length_compress: "length h = 8 \<Longrightarrow> length (sha256_compress h b) = 8"
proof -
  have "length h = 8 \<Longrightarrow> length (fold sha256_round kws h) = 8" for kws
    by (induction kws arbitrary: h) (simp_all add: length_round)
  then show "length h = 8 \<Longrightarrow> length (sha256_compress h b) = 8" by (simp add: sha256_compress_def Let_def)
qed

lemma length_absorb: "length h = 8 \<Longrightarrow> length (fst (absorb h m)) = 8"
proof (induction h m rule: absorb.induct)
  case (1 h m)
  then show ?case by (cases "length m < 64") (subst absorb.simps, simp add: length_compress)+
qed

lemma length_sha256: "length (sha256 m) = 32"
proof -
  have "length (fst (absorb sha256_h0 (sha_pad m))) = 8"
    by (rule length_absorb) (simp add: sha256_h0_def)
  then show ?thesis by (simp add: sha256_def length_concat comp_def sum_list_triv)
qed

lemma length_hmac: "length (hmac_sha256 k d) = 32"
  by (simp add: hmac_sha256_eq length_sha256)

text \<open>A block of PBKDF2 as the standard writes it: the exclusive or of the iterates.\<close>

fun pbkdf2_U :: "u8 list \<Rightarrow> u8 list \<Rightarrow> nat \<Rightarrow> u8 list" where
  "pbkdf2_U pw u 0 = u"
| "pbkdf2_U pw u (Suc j) = hmac_sha256 pw (pbkdf2_U pw u j)"

lemma pbkdf2_U_shift: "pbkdf2_U pw (hmac_sha256 pw u) j = pbkdf2_U pw u (Suc j)"
  by (induction j) simp_all

lemma pbkdf2_iter_eq:
  "pbkdf2_iter n pw u t = fold (\<lambda>j t. xor_bytes t (pbkdf2_U pw u (Suc j))) [0..<n] t"
proof (induction n arbitrary: u t)
  case (Suc n)
  have "[0..<Suc n] = 0 # map Suc [0..<n]" by (simp add: map_Suc_upt upt_conv_Cons del: upt_Suc)
  then show ?case using Suc by (simp add: Let_def fold_map comp_def pbkdf2_U_shift del: upt_Suc)
qed simp

lemma length_pbkdf2_iter: "length t = 32 \<Longrightarrow> length (pbkdf2_iter n pw u t) = 32"
  by (induction n arbitrary: u t) (simp_all add: Let_def xor_bytes_def length_hmac)

lemma length_pbkdf2_block: "length (pbkdf2_block pw salt c i) = 32"
  by (simp add: pbkdf2_block_def Let_def length_pbkdf2_iter length_hmac)

text \<open>The outer loop: one block at a time until \<open>outlen\<close> bytes are written.\<close>

function pbkdf2_loop :: "u8 list \<Rightarrow> u8 list \<Rightarrow> nat \<Rightarrow> nat \<Rightarrow> u32 \<Rightarrow> u8 list \<Rightarrow> u8 list" where
  "pbkdf2_loop pw salt iters outlen i out =
    (if length out < outlen
     then pbkdf2_loop pw salt iters outlen (i + 1)
            (out @ take (outlen - length out) (pbkdf2_block pw salt iters i))
     else out)"
  by pat_completeness auto
termination
  by (relation "measure (\<lambda>(pw, salt, iters, outlen, i, out). outlen - length out)")
     (auto simp: length_pbkdf2_block)

declare pbkdf2_loop.simps [simp del]

text \<open>\<open>iters\<close> is below 2^32 - 1, the last value of the 32-bit loop counter (the
  kernel passes 100000).\<close>

definition pbkdf2_hmac_sha256 :: "u8 list \<Rightarrow> u8 list \<Rightarrow> nat \<Rightarrow> nat \<Rightarrow> u8 list" where
  "pbkdf2_hmac_sha256 pw salt iters outlen = pbkdf2_loop pw salt iters outlen 1 []"

lemma pbkdf2_loop_eq:
  "length out \<le> n \<Longrightarrow> \<exists>m. pbkdf2_loop pw salt c n i out =
    take n (out @ concat (map (\<lambda>k. pbkdf2_block pw salt c (i + of_nat k)) [0..<m])) \<and>
    n \<le> length out + 32 * m"
proof (induction pw salt c n i out rule: pbkdf2_loop.induct)
  case (1 pw salt c n i out)
  show ?case
  proof (cases "length out < n")
    case True
    let ?b = "pbkdf2_block pw salt c i"
    let ?o = "out @ take (n - length out) ?b"
    have e: "pbkdf2_loop pw salt c n i out = pbkdf2_loop pw salt c n (i + 1) ?o"
      using True by (subst pbkdf2_loop.simps) simp
    have o: "length ?o \<le> n" using True by simp
    obtain m where m: "pbkdf2_loop pw salt c n (i + 1) ?o =
        take n (?o @ concat (map (\<lambda>k. pbkdf2_block pw salt c (i + 1 + of_nat k)) [0..<m]))"
        "n \<le> length ?o + 32 * m"
      using 1(1) [OF True o] by blast
    let ?r = "concat (map (\<lambda>k. pbkdf2_block pw salt c (i + 1 + of_nat k)) [0..<m])"
    have u: "[0..<Suc m] = 0 # map Suc [0..<m]" by (simp add: map_Suc_upt upt_conv_Cons del: upt_Suc)
    have c: "concat (map (\<lambda>k. pbkdf2_block pw salt c (i + of_nat k)) [0..<Suc m]) = ?b @ ?r"
      unfolding u by (simp add: comp_def add.assoc)
    have t: "take n (?o @ ?r) = take n (out @ ?b @ ?r)"
    proof (cases "n - length out \<le> length ?b")
      case True
      then have "length ?o = n" using \<open>length out < n\<close> by simp
      then show ?thesis using True by simp
    qed simp
    have "n \<le> length out + 32 * Suc m" using m(2) length_pbkdf2_block [of pw salt c i] by simp
    then show ?thesis using e m(1) c t by (intro exI [of _ "Suc m"]) (simp del: upt_Suc)
  next
    case False
    then show ?thesis using 1(2) by (subst pbkdf2_loop.simps) (intro exI [of _ 0], simp)
  qed
qed

lemma length_pbkdf2: "length (pbkdf2_hmac_sha256 pw salt c n) = n"
proof -
  obtain m where m: "pbkdf2_hmac_sha256 pw salt c n =
      take n (concat (map (\<lambda>k. pbkdf2_block pw salt c (1 + of_nat k)) [0..<m]))" "n \<le> 32 * m"
    using pbkdf2_loop_eq [of "[]" n pw salt c 1] unfolding pbkdf2_hmac_sha256_def by auto
  have "length (concat (map (\<lambda>k. pbkdf2_block pw salt c (1 + of_nat k)) [0..<m])) = 32 * m"
    by (simp add: length_concat comp_def length_pbkdf2_block sum_list_triv)
  then show ?thesis using m by simp
qed

section \<open>Properties\<close>

text \<open>C22. The incremental SHA-256, fed a message in pieces of any lengths, computes the hash of the
  message: the padded message absorbed block by block.\<close>

theorem sha256_pieces:
  "sha256_final (fold (\<lambda>p c. sha256_update c p) ps sha256_init) = sha256 (concat ps)"
proof -
  have "sha_ok c \<Longrightarrow> fold (\<lambda>p c. sha256_update c p) ps c = sha256_update c (concat ps)" for c
  proof (induction ps arbitrary: c)
    case Nil
    then show ?case by (simp add: sha256_update_def sha_ok_def update_loop.simps)
  next
    case (Cons p ps)
    then show ?case using sha_ok_update sha256_update_append by simp
  qed
  then show ?thesis using sha_ok_init sha256_stream by simp
qed

text \<open>HMAC is the two nested hashes of RFC 2104, the key padded to a block, or hashed first when it
  is longer.\<close>

theorem hmac_nested:
  "hmac_sha256 key data =
    (let k = (if SHA256_BLOCK < length key then sha256 key else key);
         pad = \<lambda>x. map (\<lambda>b. b XOR x) (k @ replicate (SHA256_BLOCK - length k) 0)
     in sha256 (pad 0x5c @ sha256 (pad 0x36 @ data)))"
  unfolding hmac_sha256_eq by (simp add: hmac_key_def zeros_to_def Let_def SHA256_BLOCK_def)

text \<open>The block function F of PBKDF2 (RFC 8018): the exclusive or of the iterates.\<close>

definition pbkdf2_F :: "u8 list \<Rightarrow> u8 list \<Rightarrow> nat \<Rightarrow> u32 \<Rightarrow> u8 list" where
  "pbkdf2_F pw salt c i =
    (let u = hmac_sha256 pw (salt @ put_be32 i)
     in fold (\<lambda>j t. xor_bytes t (pbkdf2_U pw u j)) [1..<c] u)"

lemma pbkdf2_block_F:
  assumes "length salt \<le> 128"
  shows "pbkdf2_block pw salt c i = pbkdf2_F pw salt c i"
proof -
  have "[1..<c] = map Suc [0..<c - 1]" by (cases c) (simp_all add: map_Suc_upt)
  then show ?thesis
    using assms by (simp add: pbkdf2_block_def pbkdf2_F_def Let_def pbkdf2_iter_eq fold_map comp_def)
qed

lemma take_blocks:
  assumes "\<And>k. length (f k) = 32" "n \<le> 32 * a" "a \<le> b"
  shows "take n (concat (map f [0..<b])) = take n (concat (map f [0..<a]))"
proof -
  have l: "length (concat (map f [0..<a])) = 32 * a"
    using assms(1) by (simp add: length_concat comp_def sum_list_triv)
  have "[0..<b] = [0..<a] @ [a..<b]" using assms(3) by (metis le_add_diff_inverse upt_add_eq_append zero_le)
  then show ?thesis using assms(2) l by simp
qed

text \<open>C23. The password hash is PBKDF2 with HMAC-SHA-256: as many bytes as asked for, the blocks F of the
  standard one after the other, for a salt of at most 128 bytes.\<close>

theorem pbkdf2_standard:
  assumes "length salt \<le> 128"
  shows "pbkdf2_hmac_sha256 pw salt c n =
    take n (concat (map (\<lambda>k. pbkdf2_F pw salt c (of_nat (k + 1))) [0..<(n + 31) div 32])) \<and>
    length (pbkdf2_hmac_sha256 pw salt c n) = n"
proof -
  let ?f = "\<lambda>k. pbkdf2_block pw salt c (1 + of_nat k)"
  obtain m where m: "pbkdf2_hmac_sha256 pw salt c n = take n (concat (map ?f [0..<m]))" "n \<le> 32 * m"
    using pbkdf2_loop_eq [of "[]" n pw salt c 1] unfolding pbkdf2_hmac_sha256_def by auto
  have k: "n \<le> 32 * ((n + 31) div 32)" by linarith
  have "take n (concat (map ?f [0..<m])) = take n (concat (map ?f [0..<(n + 31) div 32]))"
    using take_blocks [of ?f n m "(n + 31) div 32"] take_blocks [of ?f n "(n + 31) div 32" m] m(2) k
      length_pbkdf2_block by (metis nle_le)
  then have "pbkdf2_hmac_sha256 pw salt c n = take n (concat (map ?f [0..<(n + 31) div 32]))" using m(1) by simp
  moreover have "?f k = pbkdf2_F pw salt c (of_nat (k + 1))" for k
    by (simp add: pbkdf2_block_F [OF assms])
  ultimately have "pbkdf2_hmac_sha256 pw salt c n =
    take n (concat (map (\<lambda>k. pbkdf2_F pw salt c (of_nat (k + 1))) [0..<(n + 31) div 32]))" by simp
  then show ?thesis using length_pbkdf2 by blast
qed

lemma pbkdf2_standard_witness: "length (pbkdf2_hmac_sha256 [1, 2] [3] 100000 32) = 32"
  using pbkdf2_standard [of "[3]" "[1, 2]" 100000 32, THEN conjunct2] by simp

end
