(* ===== verification/Pmm.thy ===== *)
theory Pmm
  imports Prelude
begin

unbundle bit_operations_syntax

text \<open>
  The physical page allocator (src/kernel/util.c, lines 71-175).

  The bitmap is the code's array of 64-bit words, one bit per 4 KiB page, as a
  function of the word index; a set bit is a page in use.  \<open>pmm_base\<close> is
  always 0 and is left out.  Page indices and counts are naturals: the total is
  at most \<open>PMM_BITMAP_SIZE * 8\<close> (\<open>pmm_ok\<close>), so they never wrap.  Addresses and
  sizes are 64-bit words.
\<close>

section \<open>State and bit operations\<close>

record pmm =
  bitmap :: "nat \<Rightarrow> u64"
  total :: nat
  used :: nat

definition bm_test :: "(nat \<Rightarrow> u64) \<Rightarrow> nat \<Rightarrow> bool" where
  "bm_test bm i \<longleftrightarrow> bm (i div 64) AND push_bit (i mod 64) 1 \<noteq> 0"

definition bm_set :: "(nat \<Rightarrow> u64) \<Rightarrow> nat \<Rightarrow> nat \<Rightarrow> u64" where
  "bm_set bm i = bm(i div 64 := bm (i div 64) OR push_bit (i mod 64) 1)"

definition bm_clear :: "(nat \<Rightarrow> u64) \<Rightarrow> nat \<Rightarrow> nat \<Rightarrow> u64" where
  "bm_clear bm i = bm(i div 64 := bm (i div 64) AND NOT (push_bit (i mod 64) 1))"

lemma bm_test_bit: "bm_test bm i = bit (bm (i div 64)) (i mod 64)"
proof -
  let ?w = "bm (i div 64) AND push_bit (i mod 64) 1"
  have b: "bit ?w n \<longleftrightarrow> bit (bm (i div 64)) n \<and> n = i mod 64" for n
    unfolding bit_and_iff bit_one_shift using mod_less_divisor [of 64 i]
    by (auto simp del: mod_less_divisor)
  have "?w \<noteq> 0 \<longleftrightarrow> (\<exists>n. bit ?w n)"
    by (metis bit_0_eq bot_apply bot_bool_def bit_eqI)
  then show ?thesis unfolding bm_test_def b by blast
qed

lemma div_mod_64_eq: "i div 64 = j div 64 \<Longrightarrow> i mod 64 = j mod 64 \<Longrightarrow> i = (j :: nat)"
  by (metis div_mult_mod_eq)

lemma bm_test_set [simp]: "bm_test (bm_set bm i) j = (j = i \<or> bm_test bm j)"
  by (auto simp: bm_test_bit bm_set_def bit_or_pow dest: div_mod_64_eq)

lemma bm_test_clear [simp]: "bm_test (bm_clear bm i) j = (j \<noteq> i \<and> bm_test bm j)"
  by (auto simp: bm_test_bit bm_clear_def bit_and_not_pow dest: div_mod_64_eq)

section \<open>Operations\<close>

definition page_align_up :: "u64 \<Rightarrow> u64" where
  "page_align_up a = (a + 0xFFF) AND NOT 0xFFF"

definition reserve_page :: "nat \<Rightarrow> pmm \<Rightarrow> pmm" where
  "reserve_page i p =
    (if total p \<le> i then p
     else if bm_test (bitmap p) i then p
     else p\<lparr>bitmap := bm_set (bitmap p) i, used := used p + 1\<rparr>)"

definition pmm_reserve :: "u64 \<Rightarrow> u64 \<Rightarrow> pmm \<Rightarrow> pmm" where
  "pmm_reserve base sz p =
    (if sz = 0 then p
     else let start = base AND NOT 0xFFF; stop = page_align_up (base + sz)
          in fold reserve_page [unat (drop_bit 12 start)..<unat (drop_bit 12 stop)] p)"

text \<open>\<open>memmap_count\<close> entries of the boot information (base, length, type), the
  kernel image, the frame buffer and the address and size of the boot
  information itself.\<close>

record boot_info =
  memmap :: "(u64 \<times> u64 \<times> u32) list"
  kernel_phys :: u64
  kernel_size :: u64
  fb_addr :: u64
  fb_width :: u64
  fb_height :: u64
  fb_bpp :: u64
  bi_addr :: u64
  bi_size :: u64

definition PMM_PAGES :: nat where "PMM_PAGES = 64 * 1024 * 8"

definition mem_top :: "boot_info \<Rightarrow> u64" where
  "mem_top bi =
    (let top = fold (\<lambda>(b, l, t) top. if top < b + l then b + l else top) (memmap bi) 0
     in if top = 0 then 0x40000000 else top)"

definition pages_total :: "boot_info \<Rightarrow> nat" where
  "pages_total bi = min (unat (drop_bit 12 (mem_top bi) + 1)) PMM_PAGES"

definition release_region :: "nat \<Rightarrow> u64 \<times> u64 \<times> u32 \<Rightarrow> (nat \<Rightarrow> u64) \<Rightarrow> nat \<Rightarrow> u64" where
  "release_region tot r bm =
    (case r of (start, len, typ) \<Rightarrow>
      if typ \<noteq> 1 then bm
      else let first = unat (drop_bit 12 (page_align_up start))
           in fold (\<lambda>i bm. bm_clear bm i)
                [first..<min (first + unat (drop_bit 12 len)) tot] bm)"

definition low_used :: "boot_info \<Rightarrow> u64" where
  "low_used bi =
    (let l = (case find (\<lambda>(b, l, t). t = 1) (memmap bi) of None \<Rightarrow> 0 | Some (b, l, t) \<Rightarrow> b)
     in if l = 0 \<or> 0x100000 < l then 0x100000 else l)"

definition recount :: "pmm \<Rightarrow> pmm" where
  "recount p = p\<lparr>used := count_if (bm_test (bitmap p)) (total p)\<rparr>"

definition pmm_init :: "boot_info \<Rightarrow> pmm \<Rightarrow> pmm" where
  "pmm_init bi p =
    (let tot = pages_total bi;
         p1 = p\<lparr>total := tot, bitmap := fold (release_region tot) (memmap bi) (\<lambda>_. - 1)\<rparr>;
         p2 = (if kernel_phys bi \<noteq> 0 \<and> kernel_size bi \<noteq> 0
               then pmm_reserve (kernel_phys bi) (kernel_size bi) p1 else p1);
         p3 = (if fb_addr bi \<noteq> 0 \<and> fb_width bi \<noteq> 0 \<and> fb_height bi \<noteq> 0
               then pmm_reserve (fb_addr bi)
                      (fb_width bi * fb_height bi * (fb_bpp bi div 8)) p2 else p2);
         p4 = pmm_reserve (bi_addr bi) (bi_size bi) p3
     in recount (pmm_reserve 0 (low_used bi) p4))"

definition run_free :: "pmm \<Rightarrow> nat \<Rightarrow> nat \<Rightarrow> bool" where
  "run_free p i n \<longleftrightarrow>
    list_all (\<lambda>b. \<not> (total p \<le> i + b \<or> bm_test (bitmap p) (i + b))) [0..<n]"

definition page_addr :: "nat \<Rightarrow> u64" where
  "page_addr i = push_bit 12 (of_nat i)"

definition addr_page :: "u64 \<Rightarrow> nat" where
  "addr_page a = unat (drop_bit 12 a)"

text \<open>\<open>pmm_alloc\<close> returns a page index here; \<open>pmm_alloc_addr\<close> is the address the
  code returns, with the C null pointer for a failure.\<close>

definition pmm_alloc :: "nat \<Rightarrow> pmm \<Rightarrow> nat option \<times> pmm" where
  "pmm_alloc pages p =
    (if pages = 0 then (None, p)
     else case find (\<lambda>i. run_free p i pages) [0..<total p] of
            None \<Rightarrow> (None, p)
          | Some i \<Rightarrow>
              (Some i, p\<lparr>bitmap := fold (\<lambda>b bm. bm_set bm (i + b)) [0..<pages] (bitmap p),
                         used := used p + pages\<rparr>))"

definition pmm_alloc_addr :: "nat \<Rightarrow> pmm \<Rightarrow> u64 \<times> pmm" where
  "pmm_alloc_addr pages p =
    (case pmm_alloc pages p of (None, p') \<Rightarrow> (0, p') | (Some i, p') \<Rightarrow> (page_addr i, p'))"

definition free_page :: "nat \<Rightarrow> pmm \<times> nat \<Rightarrow> pmm \<times> nat" where
  "free_page idx pf =
    (case pf of (p, freed) \<Rightarrow>
      if total p \<le> idx then (p, freed)
      else (p\<lparr>bitmap := bm_clear (bitmap p) idx\<rparr>,
            if bm_test (bitmap p) idx then freed + 1 else freed))"

definition pmm_free :: "u64 \<Rightarrow> nat \<Rightarrow> pmm \<Rightarrow> pmm" where
  "pmm_free addr pages p =
    (if addr = 0 \<or> pages = 0 then p
     else let base = addr_page addr;
              (p', freed) = fold free_page [base..<base + pages] (p, 0)
          in if used p' < freed then p'\<lparr>used := 0\<rparr> else p'\<lparr>used := used p' - freed\<rparr>)"

definition pmm_range_free :: "u64 \<Rightarrow> nat \<Rightarrow> pmm \<Rightarrow> bool" where
  "pmm_range_free base pages p = run_free p (addr_page base) pages"

definition pmm_total_mem :: "pmm \<Rightarrow> u64" where
  "pmm_total_mem p = push_bit 12 (of_nat (total p))"

definition pmm_free_mem :: "pmm \<Rightarrow> u64" where
  "pmm_free_mem p = push_bit 12 (of_nat (total p) - of_nat (used p))"

section \<open>Well-formedness and the abstract view\<close>

definition page_avail :: "pmm \<Rightarrow> nat \<Rightarrow> bool" where
  "page_avail p i \<longleftrightarrow> i < total p \<and> \<not> bm_test (bitmap p) i"

definition pmm_ok :: "pmm \<Rightarrow> bool" where
  "pmm_ok p \<longleftrightarrow> total p \<le> PMM_PAGES \<and> used p = count_if (bm_test (bitmap p)) (total p)"

lemma run_free_iff: "run_free p i n \<longleftrightarrow> (\<forall>j. i \<le> j \<and> j < i + n \<longrightarrow> page_avail p j)"
proof -
  have "run_free p i n \<longleftrightarrow> (\<forall>b<n. page_avail p (i + b))"
    by (auto simp: run_free_def list_all_iff page_avail_def not_le)
  also have "\<dots> \<longleftrightarrow> (\<forall>j. i \<le> j \<and> j < i + n \<longrightarrow> page_avail p j)"
    by (metis add_less_cancel_left le_add1 le_Suc_ex)
  finally show ?thesis .
qed

lemma bm_test_fold_set:
  "bm_test (fold (\<lambda>b bm. bm_set bm (i + b)) [0..<n] bm) j \<longleftrightarrow>
    bm_test bm j \<or> i \<le> j \<and> j < i + n"
  by (induction n) (auto simp: less_Suc_eq)

lemma bm_test_fold_clear:
  "bm_test (fold (\<lambda>i bm. bm_clear bm i) xs bm) j \<longleftrightarrow> bm_test bm j \<and> j \<notin> set xs"
  by (induction xs arbitrary: bm) auto

section \<open>Allocation\<close>

lemma pmm_alloc_SomeD:
  assumes "pmm_alloc n p = (Some i, p')"
  shows "0 < n" "run_free p i n" "i < total p"
    "total p' = total p" "used p' = used p + n"
    "bm_test (bitmap p') j \<longleftrightarrow> bm_test (bitmap p) j \<or> i \<le> j \<and> j < i + n"
    "k < i \<Longrightarrow> \<not> run_free p k n"
proof -
  from assms have n: "0 < n" and f: "find (\<lambda>i. run_free p i n) [0..<total p] = Some i"
    and p': "p' = p\<lparr>bitmap := fold (\<lambda>b bm. bm_set bm (i + b)) [0..<n] (bitmap p),
                    used := used p + n\<rparr>"
    by (auto simp: pmm_alloc_def split: if_splits option.splits)
  show "0 < n" by (rule n)
  from f obtain m where m: "m < total p" "run_free p ([0..<total p] ! m) n"
      "i = [0..<total p] ! m" "\<forall>j<m. \<not> run_free p ([0..<total p] ! j) n"
    unfolding find_Some_iff by (auto simp del: nth_upt)
  then have "i = m" by simp
  then show "run_free p i n" "i < total p" using m by auto
  show "k < i \<Longrightarrow> \<not> run_free p k n" using m \<open>i = m\<close> by auto
  show "total p' = total p" "used p' = used p + n" by (simp_all add: p')
  show "bm_test (bitmap p') j \<longleftrightarrow> bm_test (bitmap p) j \<or> i \<le> j \<and> j < i + n"
    by (simp add: p' bm_test_fold_set)
qed

lemma pmm_alloc_NoneD:
  assumes "pmm_alloc n p = (None, p')"
  shows "p' = p" "0 < n \<Longrightarrow> \<not> run_free p i n"
proof -
  show "p' = p" using assms by (auto simp: pmm_alloc_def split: if_splits option.splits)
  assume n: "0 < n"
  with assms have "find (\<lambda>i. run_free p i n) [0..<total p] = None"
    by (auto simp: pmm_alloc_def split: option.splits)
  then have a: "\<not> run_free p k n" if "k < total p" for k
    using that by (simp add: find_None_iff)
  moreover have "\<not> run_free p i n" if "\<not> i < total p"
    using that n by (auto simp: run_free_iff page_avail_def)
  ultimately show "\<not> run_free p i n" by blast
qed

lemma pmm_alloc_avail:
  assumes "pmm_alloc n p = (Some i, p')"
  shows "page_avail p' j \<longleftrightarrow> page_avail p j \<and> \<not> (i \<le> j \<and> j < i + n)"
  using pmm_alloc_SomeD(4,6) [OF assms] by (auto simp: page_avail_def)

lemma pmm_ok_alloc:
  assumes ok: "pmm_ok p" and a: "pmm_alloc n p = (r, p')"
  shows "pmm_ok p'"
proof (cases r)
  case None
  then have "p' = p" using a pmm_alloc_NoneD(1) by blast
  then show ?thesis using ok by simp
next
  case (Some i)
  note al = pmm_alloc_SomeD [OF a [unfolded Some]]
  have fr: "\<And>j. i \<le> j \<Longrightarrow> j < i + n \<Longrightarrow> j < total p \<and> \<not> bm_test (bitmap p) j"
    using al(2) by (auto simp: run_free_iff page_avail_def)
  have "count_if (\<lambda>j. bm_test (bitmap p) j \<or> j \<in> {i..<i + n}) (total p)
      = count_if (bm_test (bitmap p)) (total p) + card {i..<i + n}"
    by (rule count_if_union) (use fr in auto)
  moreover have "bm_test (bitmap p') = (\<lambda>j. bm_test (bitmap p) j \<or> j \<in> {i..<i + n})"
    using al(6) by auto
  ultimately have "count_if (bm_test (bitmap p')) (total p) = used p + n"
    using ok by (simp add: pmm_ok_def)
  then show ?thesis using ok al(4,5) by (simp add: pmm_ok_def)
qed

lemma pmm_alloc_bound:
  assumes "pmm_ok p" "pmm_alloc n p = (Some i, p')"
  shows "i + n \<le> total p" "total p \<le> PMM_PAGES"
proof -
  note al = pmm_alloc_SomeD [OF assms(2)]
  have "page_avail p (i + n - 1)" using al(1,2) by (auto simp: run_free_iff)
  then have "i + n - 1 < total p" by (simp add: page_avail_def)
  then show "i + n \<le> total p" using al(1) by linarith
  show "total p \<le> PMM_PAGES" using assms(1) by (simp add: pmm_ok_def)
qed

lemma addr_page_addr:
  assumes "i < 2 ^ 52"
  shows "addr_page (page_addr i) = i"
  using assms
  by (simp add: addr_page_def page_addr_def unat_drop_bit unat_push_bit unat_of_nat_small
      del: push_bit_of_nat)

section \<open>Release\<close>

lemma fold_free_page:
  "distinct xs \<Longrightarrow> fold free_page xs (p, f) =
    (p\<lparr>bitmap := fold (\<lambda>i bm. bm_clear bm i) (filter (\<lambda>i. i < total p) xs) (bitmap p)\<rparr>,
     f + length (filter (\<lambda>i. i < total p \<and> bm_test (bitmap p) i) xs))"
proof (induction xs arbitrary: p f)
  case (Cons x xs)
  have "filter (\<lambda>i. i < total p \<and> bm_test (bm_clear (bitmap p) x) i) xs =
      filter (\<lambda>i. i < total p \<and> bm_test (bitmap p) i) xs"
    using Cons.prems by (intro filter_cong) auto
  then show ?case using Cons by (simp add: free_page_def)
qed simp

lemma pmm_free_char:
  assumes ok: "pmm_ok p" and a: "a \<noteq> 0" and n: "n \<noteq> 0"
  defines "A \<equiv> {addr_page a..<addr_page a + n}"
  shows "total (pmm_free a n p) = total p"
    "bm_test (bitmap (pmm_free a n p)) j \<longleftrightarrow> bm_test (bitmap p) j \<and> \<not> (j < total p \<and> j \<in> A)"
    "used (pmm_free a n p) + card {j. j < total p \<and> bm_test (bitmap p) j \<and> j \<in> A} = used p"
proof -
  let ?xs = "[addr_page a..<addr_page a + n]"
  let ?bm = "fold (\<lambda>i bm. bm_clear bm i) (filter (\<lambda>i. i < total p) ?xs) (bitmap p)"
  let ?f = "length (filter (\<lambda>i. i < total p \<and> bm_test (bitmap p) i) ?xs)"
  let ?D = "{j. j < total p \<and> bm_test (bitmap p) j \<and> j \<in> A}"
  have f: "?f = card ?D"
  proof -
    have "?f = card (set (filter (\<lambda>i. i < total p \<and> bm_test (bitmap p) i) ?xs))"
      by (subst distinct_card) auto
    also have "set (filter (\<lambda>i. i < total p \<and> bm_test (bitmap p) i) ?xs) = ?D"
      by (auto simp: A_def)
    finally show ?thesis .
  qed
  have "card ?D \<le> count_if (bm_test (bitmap p)) (total p)"
    unfolding count_if_card by (rule card_mono) auto
  then have le: "?f \<le> used p" using ok f by (simp add: pmm_ok_def)
  have e: "pmm_free a n p = p\<lparr>bitmap := ?bm, used := used p - ?f\<rparr>"
    using a n le by (simp add: pmm_free_def Let_def fold_free_page del: upt_Suc)
  show "total (pmm_free a n p) = total p" by (simp add: e)
  show "bm_test (bitmap (pmm_free a n p)) j \<longleftrightarrow>
      bm_test (bitmap p) j \<and> \<not> (j < total p \<and> j \<in> A)"
    by (auto simp: e bm_test_fold_clear A_def)
  show "used (pmm_free a n p) + card ?D = used p"
    using le f by (simp add: e)
qed

lemma pmm_free_avail:
  assumes "pmm_ok p" "a \<noteq> 0" "n \<noteq> 0"
  shows "page_avail (pmm_free a n p) j \<longleftrightarrow>
    page_avail p j \<or> j < total p \<and> addr_page a \<le> j \<and> j < addr_page a + n"
  using pmm_free_char(1) [OF assms] pmm_free_char(2) [OF assms, of j] by (auto simp: page_avail_def)

lemma pmm_ok_free:
  assumes ok: "pmm_ok p"
  shows "pmm_ok (pmm_free a n p)"
proof (cases "a = 0 \<or> n = 0")
  case True
  then show ?thesis using ok by (auto simp: pmm_free_def)
next
  case False
  then have an: "a \<noteq> 0" "n \<noteq> 0" by auto
  note c = pmm_free_char [OF ok an]
  let ?A = "{addr_page a..<addr_page a + n}"
  have "count_if (bm_test (bitmap (pmm_free a n p))) (total p) =
      count_if (\<lambda>j. bm_test (bitmap p) j \<and> j \<notin> ?A) (total p)"
    by (rule count_if_cong) (use c(2) in auto)
  then show ?thesis
    using ok c(1,3) count_if_diff [of "bm_test (bitmap p)" ?A "total p"]
    by (simp add: pmm_ok_def)
qed

section \<open>Reservation and boot\<close>

lemma reserve_page_total [simp]: "total (reserve_page i p) = total p"
  by (simp add: reserve_page_def)

lemma reserve_page_test:
  "bm_test (bitmap (reserve_page i p)) j \<longleftrightarrow> bm_test (bitmap p) j \<or> j = i \<and> i < total p"
  by (auto simp: reserve_page_def)

lemma fold_reserve_total [simp]: "total (fold reserve_page xs p) = total p"
  by (induction xs arbitrary: p) simp_all

lemma fold_reserve_page:
  "bm_test (bitmap (fold reserve_page xs p)) j \<longleftrightarrow>
    bm_test (bitmap p) j \<or> j < total p \<and> j \<in> set xs"
  by (induction xs arbitrary: p) (auto simp: reserve_page_test)

lemma pmm_ok_reserve_page:
  assumes "pmm_ok p"
  shows "pmm_ok (reserve_page i p)"
proof (cases "total p \<le> i \<or> bm_test (bitmap p) i")
  case True
  then show ?thesis using assms by (auto simp: reserve_page_def)
next
  case False
  then have "count_if (\<lambda>j. bm_test (bitmap p) j \<or> j \<in> {i}) (total p) =
      count_if (bm_test (bitmap p)) (total p) + card {i}"
    by (intro count_if_union) auto
  moreover have "bm_test (bm_set (bitmap p) i) = (\<lambda>j. bm_test (bitmap p) j \<or> j \<in> {i})"
    by auto
  ultimately show ?thesis
    using assms False by (simp add: reserve_page_def pmm_ok_def)
qed

lemma pmm_ok_reserve: "pmm_ok p \<Longrightarrow> pmm_ok (pmm_reserve b n p)"
proof -
  have "pmm_ok p \<Longrightarrow> pmm_ok (fold reserve_page xs p)" for xs
    by (induction xs arbitrary: p) (auto simp: pmm_ok_reserve_page)
  then show "pmm_ok p \<Longrightarrow> pmm_ok (pmm_reserve b n p)"
    by (auto simp: pmm_reserve_def Let_def)
qed

lemma pmm_reserve_total [simp]: "total (pmm_reserve b n p) = total p"
  by (simp add: pmm_reserve_def Let_def fold_reserve_page)

lemma pmm_reserve_mono:
  "bm_test (bitmap p) j \<Longrightarrow> bm_test (bitmap (pmm_reserve b n p)) j"
  by (simp add: pmm_reserve_def Let_def fold_reserve_page)

lemma pmm_reserve_covers:
  assumes "n \<noteq> 0" "unat b + unat n + 0xFFF < 2 ^ 64" "j < total p"
    "addr_page b \<le> j" "j * 0x1000 < unat b + unat n"
  shows "bm_test (bitmap (pmm_reserve b n p)) j"
proof -
  have s: "unat (b + n) = unat b + unat n"
    using assms(2) by (intro unat_add_no_wrap) simp
  have s2: "unat (b + n + 0xFFF) = unat b + unat n + 0xFFF"
    using assms(2) s by (subst unat_add_no_wrap) simp_all
  have d: "drop_bit 12 (x AND NOT 0xFFF :: u64) = drop_bit 12 x" for x
    unfolding mask12 by (rule drop_bit_align)
  have "j < unat (drop_bit 12 (page_align_up (b + n)))"
    using assms(5) unfolding page_align_up_def d unat_drop_bit s2 by simp
  moreover have "unat (drop_bit 12 (b AND NOT 0xFFF)) \<le> j"
    using assms(4) by (simp only: d addr_page_def)
  ultimately show ?thesis
    using assms(1,3) by (simp add: pmm_reserve_def Let_def fold_reserve_page)
qed

section \<open>The interface the kernel's subsystems rely on\<close>

text \<open>What paging, the process table, the ELF loader and the kernel heap use of
  the allocator: \<open>alloc\<close> gives a run of pages nobody had, \<open>release\<close> gives a run
  back.  A state is \<open>ok\<close> when its accounting is right.\<close>

fun alloc_seq :: "(nat \<Rightarrow> 's \<Rightarrow> nat option \<times> 's) \<Rightarrow> nat list \<Rightarrow> 's \<Rightarrow> (nat \<times> nat) list option \<times> 's" where
  "alloc_seq al [] s = (Some [], s)"
| "alloc_seq al (n # ns) s =
    (case al n s of
       (None, s') \<Rightarrow> (None, s')
     | (Some i, s') \<Rightarrow>
        (case alloc_seq al ns s' of
           (None, s'') \<Rightarrow> (None, s'')
         | (Some rs, s'') \<Rightarrow> (Some ((i, n) # rs), s'')))"

definition run_set :: "nat \<times> nat \<Rightarrow> nat set" where
  "run_set r = {fst r..<fst r + snd r}"

locale page_pool =
  fixes alloc :: "nat \<Rightarrow> 's \<Rightarrow> nat option \<times> 's"
    and release :: "nat \<Rightarrow> nat \<Rightarrow> 's \<Rightarrow> 's"
    and avail :: "'s \<Rightarrow> nat \<Rightarrow> bool"
    and managed :: "'s \<Rightarrow> nat \<Rightarrow> bool"
    and ok :: "'s \<Rightarrow> bool"
  assumes alloc_ok: "ok s \<Longrightarrow> alloc n s = (r, s') \<Longrightarrow> ok s'"
    and alloc_was: "alloc n s = (Some i, s') \<Longrightarrow> j \<in> run_set (i, n) \<Longrightarrow> avail s j"
    and alloc_upd: "alloc n s = (Some i, s') \<Longrightarrow>
          avail s' j \<longleftrightarrow> avail s j \<and> j \<notin> run_set (i, n)"
    and alloc_pos: "alloc n s = (Some i, s') \<Longrightarrow> 0 < n"
    and alloc_fail: "alloc n s = (None, s') \<Longrightarrow> s' = s"
    and alloc_managed: "alloc n s = (r, s') \<Longrightarrow> managed s' j = managed s j"
    and release_ok: "ok s \<Longrightarrow> ok (release i n s)"
    and release_upd: "ok s \<Longrightarrow> 0 < i \<Longrightarrow> i < 2 ^ 52 \<Longrightarrow> 0 < n \<Longrightarrow>
          avail (release i n s) j \<longleftrightarrow> avail s j \<or> managed s j \<and> j \<in> run_set (i, n)"
    and avail_managed: "avail s j \<Longrightarrow> managed s j"
begin

lemma seq_ok: "ok s \<Longrightarrow> alloc_seq alloc ns s = (r, s') \<Longrightarrow> ok s'"
proof (induction ns arbitrary: s r)
  case (Cons n ns)
  then show ?case by (auto dest: alloc_ok split: prod.splits option.splits)
qed simp

lemma seq_avail:
  assumes "alloc_seq alloc ns s = (Some rs, s')"
  shows "avail s' j \<longleftrightarrow> avail s j \<and> j \<notin> \<Union> (run_set ` set rs)"
  using assms
proof (induction ns arbitrary: s rs)
  case (Cons n ns)
  then obtain i t rs' where a: "alloc n s = (Some i, t)"
    and r: "alloc_seq alloc ns t = (Some rs', s')" and rs: "rs = (i, n) # rs'"
    by (auto split: prod.splits option.splits)
  show ?case using Cons.IH [OF r] alloc_upd [OF a] rs by auto
qed simp

lemma seq_was:
  assumes "alloc_seq alloc ns s = (Some rs, s')" "r \<in> set rs" "j \<in> run_set r"
  shows "avail s j"
  using assms
proof (induction ns arbitrary: s rs)
  case (Cons n ns)
  then obtain i t rs' where a: "alloc n s = (Some i, t)"
    and r: "alloc_seq alloc ns t = (Some rs', s')" and rs: "rs = (i, n) # rs'"
    by (auto split: prod.splits option.splits)
  show ?case
    using Cons.IH [OF r] Cons.prems(2,3) alloc_was [OF a] alloc_upd [OF a, of j] rs by auto
qed simp

text \<open>Blocks handed out one after the other never share a page.\<close>

lemma seq_disjoint:
  assumes "alloc_seq alloc ns s = (Some rs, s')" "a < b" "b < length rs"
  shows "run_set (rs ! a) \<inter> run_set (rs ! b) = {}"
  using assms
proof (induction ns arbitrary: s rs a b)
  case (Cons n ns)
  then obtain i t rs' where a: "alloc n s = (Some i, t)"
    and r: "alloc_seq alloc ns t = (Some rs', s')" and rs: "rs = (i, n) # rs'"
    by (auto split: prod.splits option.splits)
  obtain b' where b: "b = Suc b'" using Cons.prems(2) by (cases b) auto
  show ?case
  proof (cases a)
    case 0
    have m: "rs' ! b' \<in> set rs'" using Cons.prems(3) b rs by simp
    have "j \<notin> run_set (i, n)" if "j \<in> run_set (rs' ! b')" for j
      using seq_was [OF r m that] alloc_upd [OF a] by blast
    then show ?thesis using 0 b rs by auto
  next
    case (Suc a')
    then show ?thesis using Cons.IH [OF r, of a' b'] Cons.prems(2,3) b rs by simp
  qed
qed simp

lemma alloc_release:
  assumes "ok s" "alloc n s = (Some i, s')" "0 < i" "i < 2 ^ 52"
  shows "avail (release i n s') j = avail s j"
proof -
  have "avail (release i n s') j \<longleftrightarrow> avail s' j \<or> managed s' j \<and> j \<in> run_set (i, n)"
    using assms alloc_ok alloc_pos by (intro release_upd) auto
  then show ?thesis
    using alloc_upd [OF assms(2), of j] alloc_was [OF assms(2), of j]
      alloc_managed [OF assms(2), of j] avail_managed by blast
qed

end

interpretation pool: page_pool
  pmm_alloc "\<lambda>i n. pmm_free (page_addr i) n" page_avail "\<lambda>p i. i < total p" pmm_ok
proof (unfold_locales, goal_cases)
  case (1 s n r s')
  then show ?case by (rule pmm_ok_alloc)
next
  case (2 n s i s' j)
  then show ?case using pmm_alloc_SomeD(2) [OF 2(1)] by (auto simp: run_free_iff run_set_def)
next
  case (3 n s i s' j)
  then show ?case using pmm_alloc_avail [OF 3] by (auto simp: run_set_def)
next
  case (4 n s i s')
  then show ?case by (rule pmm_alloc_SomeD(1))
next
  case (5 n s s')
  then show ?case by (rule pmm_alloc_NoneD(1))
next
  case (6 n s r s' j)
  then show ?case by (cases r) (auto dest: pmm_alloc_SomeD(4) pmm_alloc_NoneD(1))
next
  case (7 s i n)
  then show ?case by (rule pmm_ok_free)
next
  case (8 s i n j)
  have "page_addr i \<noteq> 0" using 8(2) addr_page_addr [OF 8(3)] by (auto simp: addr_page_def)
  then show ?case
    using 8 pmm_free_avail [of s "page_addr i" n j] addr_page_addr [OF 8(3)]
    by (auto simp: run_set_def)
next
  case (9 s j)
  then show ?case by (simp add: page_avail_def)
qed

section \<open>The state after boot\<close>

lemma pages_total_le: "pages_total bi \<le> PMM_PAGES"
  by (simp add: pages_total_def)

lemma pmm_ok_recount: "total p \<le> PMM_PAGES \<Longrightarrow> pmm_ok (recount p)"
  by (simp add: recount_def pmm_ok_def)

lemma recount_simps [simp]: "total (recount p) = total p" "bitmap (recount p) = bitmap p"
  by (simp_all add: recount_def)

lemma pmm_init_total [simp]: "total (pmm_init bi p) = pages_total bi"
  by (simp add: pmm_init_def Let_def)

lemma low_used_bounds: "low_used bi \<noteq> 0" "low_used bi \<le> 0x100000"
  by (auto simp: low_used_def Let_def split: option.splits)

definition in_region :: "u64 \<times> u64 \<times> u32 \<Rightarrow> nat \<Rightarrow> bool" where
  "in_region r j \<longleftrightarrow>
    (case r of (start, len, typ) \<Rightarrow>
      typ = 1 \<and> unat (drop_bit 12 (page_align_up start)) \<le> j \<and>
      j < unat (drop_bit 12 (page_align_up start)) + unat (drop_bit 12 len))"

lemma release_region_test:
  "bm_test (release_region tot r bm) j \<longleftrightarrow> bm_test bm j \<and> \<not> (in_region r j \<and> j < tot)"
  by (cases r) (auto simp: release_region_def in_region_def bm_test_fold_clear Let_def)

lemma fold_release_region:
  "bm_test (fold (release_region tot) rs bm) j \<longleftrightarrow>
    bm_test bm j \<and> \<not> (j < tot \<and> (\<exists>r\<in>set rs. in_region r j))"
  by (induction rs arbitrary: bm) (auto simp: release_region_test)

lemma bm_test_all_ones: "bm_test (\<lambda>_. - 1) j"
  by (simp add: bm_test_bit)

lemma pmm_init_avail:
  assumes "page_avail (pmm_init bi p) j"
  shows "\<exists>r\<in>set (memmap bi). in_region r j"
proof -
  let ?tot = "pages_total bi"
  let ?p1 = "p\<lparr>total := ?tot, bitmap := fold (release_region ?tot) (memmap bi) (\<lambda>_. - 1)\<rparr>"
  have j: "j < ?tot" "\<not> bm_test (bitmap (pmm_init bi p)) j"
    using assms by (simp_all add: page_avail_def)
  have "bm_test (bitmap ?p1) j \<Longrightarrow> bm_test (bitmap (pmm_init bi p)) j"
    unfolding pmm_init_def Let_def
    by (simp add: pmm_reserve_mono)
  then have "\<not> bm_test (bitmap ?p1) j" using j(2) by blast
  then show ?thesis by (simp add: fold_release_region bm_test_all_ones)
qed

lemma pmm_init_low:
  assumes "j * 0x1000 < unat (low_used bi)"
  shows "\<not> page_avail (pmm_init bi p) j"
proof
  assume a: "page_avail (pmm_init bi p) j"
  obtain q where q: "pmm_init bi p = recount (pmm_reserve 0 (low_used bi) q)"
    by (simp add: pmm_init_def Let_def)
  have "unat (low_used bi) \<le> 0x100000"
    using low_used_bounds(2) [of bi] by (simp add: word_le_nat_alt)
  then have "bm_test (bitmap (pmm_reserve 0 (low_used bi) q)) j"
    using assms a low_used_bounds(1) q
    by (intro pmm_reserve_covers) (auto simp: page_avail_def addr_page_def)
  then show False using a by (simp add: q page_avail_def)
qed

section \<open>Properties\<close>

text \<open>A pool of sixteen pages, the first four in use.\<close>

definition small_pool :: pmm where
  "small_pool = \<lparr>bitmap = (\<lambda>_. 0xF), total = 16, used = 4\<rparr>"

lemma small_pool_test: "i < 64 \<Longrightarrow> bm_test (bitmap small_pool) i \<longleftrightarrow> i < 4"
proof -
  have m: "(0xF :: u64) = mask 4" by (simp add: mask_eq_exp_minus_1)
  show "i < 64 \<Longrightarrow> ?thesis"
    unfolding small_pool_def bm_test_bit pmm.select_convs m by (simp add: bit_mask_iff del: mask_numeral)
qed

lemma small_pool_avail: "page_avail small_pool j \<longleftrightarrow> j < 16 \<and> 4 \<le> j"
proof (cases "j < 16")
  case True
  then have "bm_test (bitmap small_pool) j \<longleftrightarrow> j < 4" by (intro small_pool_test) linarith
  then show ?thesis using True unfolding page_avail_def not_less [symmetric] by (simp add: small_pool_def)
qed (simp add: page_avail_def small_pool_def)

lemma small_pool_ok: "pmm_ok small_pool"
proof -
  have "count_if (bm_test (bitmap small_pool)) 16 = count_if (\<lambda>i. i < 4) 16"
    by (rule count_if_cong, rule small_pool_test) linarith
  also have "\<dots> = 4" by (simp add: count_if_def upt_rec)
  finally show ?thesis by (simp add: pmm_ok_def small_pool_def PMM_PAGES_def)
qed

text \<open>The first run that is free is the one handed out.\<close>

lemma pmm_alloc_first:
  assumes "0 < n" "run_free p i n" "\<And>k. k < i \<Longrightarrow> \<not> run_free p k n"
  shows "fst (pmm_alloc n p) = Some i"
proof -
  have "i < total p" using assms(1,2) unfolding run_free_iff page_avail_def by auto
  then have "find (\<lambda>i. run_free p i n) [0..<total p] = Some i"
    using assms(2,3) unfolding find_Some_iff by (intro exI [of _ i]) auto
  then show ?thesis using assms(1) by (simp add: pmm_alloc_def)
qed

lemma small_pool_alloc: "0 < n \<Longrightarrow> n \<le> 12 \<Longrightarrow> fst (pmm_alloc n small_pool) = Some 4"
proof (rule pmm_alloc_first)
  assume n: "0 < n" "n \<le> 12"
  show "run_free small_pool 4 n" using n unfolding run_free_iff small_pool_avail by simp
  show "\<not> run_free small_pool k n" if "k < 4" for k
    using n that unfolding run_free_iff small_pool_avail by (metis less_add_same_cancel1 not_le order_refl)
qed

text \<open>C15. The page frames handed out by a sequence of allocations are distinct, were free
  before, and are exactly the frames that stopped being free.\<close>

theorem pmm_alloc_distinct:
  assumes "alloc_seq pmm_alloc ns p = (Some rs, p')"
  shows "(\<forall>a b. a < b \<longrightarrow> b < length rs \<longrightarrow> run_set (rs ! a) \<inter> run_set (rs ! b) = {}) \<and>
    (\<forall>r\<in>set rs. \<forall>j\<in>run_set r. page_avail p j) \<and>
    (\<forall>j. page_avail p' j \<longleftrightarrow> page_avail p j \<and> j \<notin> \<Union> (run_set ` set rs))"
  using pool.seq_disjoint [OF assms] pool.seq_avail [OF assms] pool.seq_was [OF assms] by blast

lemma pmm_alloc_distinct_witness:
  "run_set (4 :: nat, 2 :: nat) \<inter> run_set (6, 1) = {}"
proof -
  obtain p1 where 1: "pmm_alloc 2 small_pool = (Some 4, p1)"
    using small_pool_alloc [of 2] by (cases "pmm_alloc 2 small_pool") simp
  have a: "page_avail p1 j \<longleftrightarrow> 6 \<le> j \<and> j < 16" for j
    unfolding pmm_alloc_avail [OF 1] small_pool_avail by linarith
  have "run_free p1 6 1" unfolding run_free_iff a by simp
  moreover have "\<not> run_free p1 k 1" if "k < 6" for k
    unfolding run_free_iff a using that by (auto intro!: exI [of _ k])
  ultimately have "fst (pmm_alloc 1 p1) = Some 6" by (intro pmm_alloc_first) simp_all
  then obtain p2 where "pmm_alloc 1 p1 = (Some 6, p2)" by (cases "pmm_alloc 1 p1") simp
  then have "alloc_seq pmm_alloc [2, 1] small_pool = (Some [(4, 2), (6, 1)], p2)" using 1 by simp
  from pmm_alloc_distinct [OF this, THEN conjunct1, rule_format, of 0 1] show ?thesis by simp
qed

text \<open>Releasing the frames of an allocation restores the set of free frames and the count.\<close>

theorem pmm_alloc_free:
  assumes "pmm_ok p" "pmm_alloc n p = (Some i, p')" "0 < i"
  shows "(\<forall>j. page_avail (pmm_free (page_addr i) n p') j \<longleftrightarrow> page_avail p j) \<and>
    used (pmm_free (page_addr i) n p') = used p"
proof -
  let ?q = "pmm_free (page_addr i) n p'"
  have ok': "pmm_ok p'" by (rule pmm_ok_alloc [OF assms(1,2)])
  have i: "i < total p" using pmm_alloc_SomeD(3) [OF assms(2)] .
  then have "i < 2 ^ 52" using assms(1) by (simp add: pmm_ok_def PMM_PAGES_def)
  then have av: "page_avail ?q j \<longleftrightarrow> page_avail p j" for j
    using pool.alloc_release [OF assms(1,2,3)] by simp
  have t: "total ?q = total p"
    using pool.alloc_managed [OF assms(2)] pmm_alloc_SomeD(4) [OF assms(2)] by (simp add: pmm_free_def Let_def fold_free_page split: prod.split)
  have "count_if (bm_test (bitmap ?q)) (total p) = count_if (bm_test (bitmap p)) (total p)"
    by (rule count_if_cong) (use av t in \<open>auto simp: page_avail_def\<close>)
  then have "used ?q = used p"
    using pmm_ok_free [OF ok'] assms(1) t by (simp add: pmm_ok_def)
  then show ?thesis using av by blast
qed

lemma pmm_alloc_free_witness:
  "used (pmm_free (page_addr 4) 3 (snd (pmm_alloc 3 small_pool))) = 4"
proof -
  have "pmm_alloc 3 small_pool = (Some 4, snd (pmm_alloc 3 small_pool))"
    using small_pool_alloc [of 3] by (simp add: prod_eq_iff)
  from pmm_alloc_free [OF small_pool_ok this] show ?thesis by (simp add: small_pool_def)
qed

text \<open>An example: one region from 1 MiB to 2 MiB, the kernel at 1 MiB; the page at
  0x180 can be handed out.\<close>

definition small_boot :: boot_info where
  "small_boot = \<lparr>memmap = [(0x100000, 0x100000, 1)], kernel_phys = 0x100000, kernel_size = 0x1000,
     fb_addr = 0, fb_width = 0, fb_height = 0, fb_bpp = 0, bi_addr = 0x1000, bi_size = 0x1000\<rparr>"

lemma small_boot_avail: "page_avail (pmm_init small_boot p) 0x180"
proof -
  have r: "pmm_reserve b n q = fold reserve_page [unat (drop_bit 12 (b AND NOT 0xFFF))..<unat (drop_bit 12 (page_align_up (b + n)))] q"
    if "n \<noteq> 0" for b n q using that by (simp add: pmm_reserve_def Let_def)
  show ?thesis
    by (simp add: page_avail_def pmm_init_def small_boot_def Let_def r pages_total_def mem_top_def low_used_def
        page_align_up_def PMM_PAGES_def fold_reserve_page reserve_page_test release_region_test
        bm_test_all_ones in_region_def)
qed

text \<open>After the initialisation only pages of a region the boot loader marked available can
  be handed out, never those below the first such region, nor those of the kernel image.\<close>

theorem pmm_init_pool:
  assumes "page_avail (pmm_init bi p) j"
  shows "pmm_ok (pmm_init bi p) \<and> (\<exists>r\<in>set (memmap bi). in_region r j) \<and>
    unat (low_used bi) \<le> j * 0x1000 \<and>
    (kernel_phys bi \<noteq> 0 \<and> kernel_size bi \<noteq> 0 \<and> unat (kernel_phys bi) + unat (kernel_size bi) + 0xFFF < 2 ^ 64 \<longrightarrow>
      \<not> (addr_page (kernel_phys bi) \<le> j \<and> j * 0x1000 < unat (kernel_phys bi) + unat (kernel_size bi)))"
proof (intro conjI impI)
  have t: "total (pmm_init bi p) \<le> PMM_PAGES" by (simp add: pages_total_le)
  show "pmm_ok (pmm_init bi p)"
    using pmm_ok_recount t unfolding pmm_init_def Let_def by (metis recount_simps(1))
  show "\<exists>r\<in>set (memmap bi). in_region r j" by (rule pmm_init_avail [OF assms])
  show "unat (low_used bi) \<le> j * 0x1000" using pmm_init_low [of j bi p] assms by (meson not_le)
  assume k: "kernel_phys bi \<noteq> 0 \<and> kernel_size bi \<noteq> 0 \<and> unat (kernel_phys bi) + unat (kernel_size bi) + 0xFFF < 2 ^ 64"
  show "\<not> (addr_page (kernel_phys bi) \<le> j \<and> j * 0x1000 < unat (kernel_phys bi) + unat (kernel_size bi))"
  proof
    assume r: "addr_page (kernel_phys bi) \<le> j \<and> j * 0x1000 < unat (kernel_phys bi) + unat (kernel_size bi)"
    let ?p1 = "p\<lparr>total := pages_total bi, bitmap := fold (release_region (pages_total bi)) (memmap bi) (\<lambda>_. - 1)\<rparr>"
    have "bm_test (bitmap (pmm_reserve (kernel_phys bi) (kernel_size bi) ?p1)) j"
      by (rule pmm_reserve_covers) (use k r assms in \<open>auto simp: page_avail_def\<close>)
    then have "bm_test (bitmap (pmm_init bi p)) j"
      using k by (simp add: pmm_init_def Let_def pmm_reserve_mono)
    then show False using assms by (simp add: page_avail_def)
  qed
qed


lemma pmm_init_pool_witness: "pmm_ok (pmm_init small_boot small_pool)"
  using pmm_init_pool [OF small_boot_avail [of small_pool]] by blast

end
