(* ===== verification/KHeap.thy ===== *)
theory KHeap
  imports Pmm
begin

unbundle bit_operations_syntax

text \<open>
  The kernel heap \<open>oikos\<close> (src/kernel/util.c, lines 177-254).

  The heap is the chain of \<open>heap_node_t\<close> headers from \<open>heap_head\<close>, in the order
  of their \<open>next\<close> pointers; a node is its address, its payload size and its
  free flag.  Each header takes \<open>sizeof(heap_node_t)\<close> = 32 bytes in front of its
  payload.  \<open>kmalloc\<close> checks the magic number of every header it walks over and stops
  the machine at the first one that is wrong; that is the flag \<open>halted\<close>.
\<close>

record hnode =
  h_magic :: u32
  h_addr :: u64
  h_size :: u64
  h_free :: bool

record heap =
  nodes :: "hnode list"
  ready :: bool
  halted :: bool

definition HEAP_MAGIC :: u32 where "HEAP_MAGIC = 0x7A15"
definition HDR :: u64 where "HDR = 32"

definition heap_init :: "heap \<Rightarrow> pmm \<Rightarrow> heap \<times> pmm" where
  "heap_init h p =
    (case pmm_alloc 1024 p of
       (None, p') \<Rightarrow> (h, p')
     | (Some i, p') \<Rightarrow>
         (h\<lparr>nodes := [\<lparr>h_magic = HEAP_MAGIC, h_addr = page_addr i, h_size = push_bit 12 1024 - HDR,
             h_free = True\<rparr>], ready := True\<rparr>, p'))"

text \<open>The walk over the chain: the first free node that is large enough, split
  when the rest has room for a header and 32 bytes.\<close>

fun first_fit :: "u64 \<Rightarrow> hnode list \<Rightarrow> (u64 \<times> hnode list) option" where
  "first_fit sz [] = None"
| "first_fit sz (n # ns) =
    (if h_free n \<and> sz \<le> h_size n then
       (if sz + HDR + 32 \<le> h_size n
        then Some (h_addr n + HDR,
               n\<lparr>h_size := sz, h_free := False\<rparr> #
               \<lparr>h_magic = HEAP_MAGIC, h_addr = h_addr n + HDR + sz, h_size = h_size n - sz - HDR, h_free = True\<rparr> # ns)
        else Some (h_addr n + HDR, n\<lparr>h_free := False\<rparr> # ns))
     else map_option (\<lambda>(a, ns'). (a, n # ns')) (first_fit sz ns))"

text \<open>Whether that walk meets a header without the magic number: it looks at each header before
  its size, up to the one it takes.\<close>

fun walk_bad :: "u64 \<Rightarrow> hnode list \<Rightarrow> bool" where
  "walk_bad sz [] = False"
| "walk_bad sz (n # ns) =
    (if h_magic n \<noteq> HEAP_MAGIC then True
     else if h_free n \<and> sz \<le> h_size n then False else walk_bad sz ns)"

definition round16 :: "u64 \<Rightarrow> u64" where
  "round16 sz = (sz + 15) AND NOT 15"

definition avail_count :: "pmm \<Rightarrow> nat" where
  "avail_count p = count_if (\<lambda>i. \<not> bm_test (bitmap p) i) (total p)"

lemma avail_count_alloc:
  assumes "pmm_alloc n p = (Some i, p')"
  shows "avail_count p' < avail_count p"
proof -
  note al = pmm_alloc_SomeD [OF assms]
  let ?A = "\<lambda>p. {j. j < total p \<and> \<not> bm_test (bitmap p) j}"
  have "page_avail p i" using al(1,2) by (simp add: run_free_iff)
  then have "i \<in> ?A p" by (simp add: page_avail_def)
  moreover have "i \<notin> ?A p'" using al(1,6) by simp
  moreover have "?A p' \<subseteq> ?A p" using al(4,6) by auto
  ultimately have "?A p' \<subset> ?A p" by blast
  then show ?thesis
    unfolding avail_count_def count_if_card by (rule psubset_card_mono [rotated]) simp
qed

function kmalloc :: "u64 \<Rightarrow> heap \<Rightarrow> pmm \<Rightarrow> u64 \<times> heap \<times> pmm" where
  "kmalloc sz h p =
    (if \<not> ready h \<or> sz = 0 then (0, h, p)
     else if walk_bad (round16 sz) (nodes h) then (0, h\<lparr>halted := True\<rparr>, p)
     else case first_fit (round16 sz) (nodes h) of
       Some (a, ns) \<Rightarrow> (a, h\<lparr>nodes := ns\<rparr>, p)
     | None \<Rightarrow>
        (case pmm_alloc 256 p of
           (None, p') \<Rightarrow> (0, h, p')
         | (Some i, p') \<Rightarrow>
            kmalloc (round16 sz)
              (h\<lparr>nodes := nodes h @
                 [\<lparr>h_magic = HEAP_MAGIC, h_addr = page_addr i, h_size = push_bit 12 256 - HDR, h_free = True\<rparr>]\<rparr>) p'))"
  by pat_completeness auto
termination
proof (relation "measure (\<lambda>(sz, h, p). avail_count p)", goal_cases)
  case (2 sz h p r p' i)
  then have "pmm_alloc 256 p = (Some i, p')" by simp
  then show ?case by (simp add: avail_count_alloc)
qed simp

declare kmalloc.simps [simp del]

text \<open>\<open>kfree\<close>: mark the node, then one pass that merges every free node with
  the free nodes that follow it in the chain.\<close>

function coalesce :: "hnode list \<Rightarrow> hnode list" where
  "coalesce [] = []"
| "coalesce [n] = [n]"
| "coalesce (n # m # ns) =
    (if h_free n \<and> h_free m then coalesce (n\<lparr>h_size := h_size n + (HDR + h_size m)\<rparr> # ns)
     else n # coalesce (m # ns))"
  by pat_completeness auto
termination by (relation "measure length") auto

definition is_block :: "u64 \<Rightarrow> hnode \<Rightarrow> bool" where
  "is_block ptr n \<longleftrightarrow> h_addr n + HDR = ptr"

definition kfree :: "u64 \<Rightarrow> heap \<Rightarrow> heap" where
  "kfree ptr h =
    (if ptr = 0 then h
     else case first_index (is_block ptr) (nodes h) of
            None \<Rightarrow> h
          | Some i \<Rightarrow> h\<lparr>nodes := coalesce ((nodes h)[i := (nodes h ! i)\<lparr>h_free := True\<rparr>])\<rparr>)"

section \<open>Arenas\<close>

text \<open>A chain tiles the memory from \<open>a\<close> to \<open>b\<close>: each node starts where the one
  before it ends.\<close>

fun arena :: "nat \<Rightarrow> hnode list \<Rightarrow> nat \<Rightarrow> bool" where
  "arena a [] b \<longleftrightarrow> a = b"
| "arena a (n # ns) b \<longleftrightarrow>
    unat (h_addr n) = a \<and> arena (a + 32 + unat (h_size n)) ns b"

definition allocated :: "hnode list \<Rightarrow> (u64 \<times> u64) list" where
  "allocated ns = map (\<lambda>n. (h_addr n + HDR, h_size n)) (filter (\<lambda>n. \<not> h_free n) ns)"

lemma arena_le: "arena a ns b \<Longrightarrow> a \<le> b"
  by (induction ns arbitrary: a) force+

lemma arena_append:
  "arena a (xs @ ys) b \<longleftrightarrow> (\<exists>c. arena a xs c \<and> arena c ys b)"
  by (induction xs arbitrary: a) auto

lemma first_fit_arena:
  assumes "first_fit sz ns = Some (p, ns')" "arena a ns b" "b < 2 ^ 64"
    "unat sz + 64 < 2 ^ 64"
  shows "arena a ns' b"
  using assms
proof (induction ns arbitrary: a ns')
  case (Cons n ns)
  show ?case
  proof (cases "h_free n \<and> sz \<le> h_size n")
    case False
    then show ?thesis using Cons by (auto split: prod.splits)
  next
    case True
    show ?thesis
    proof (cases "sz + HDR + 32 \<le> h_size n")
      case False
      then show ?thesis using Cons True by auto
    next
      case split: True
      have b: "unat (h_addr n) + 32 + unat (h_size n) < 2 ^ 64"
        using Cons.prems(2,3) arena_le by fastforce
      have s1: "unat (sz + HDR + 32) = unat sz + 64"
        using Cons.prems(4) by (subst unat_add_no_wrap, subst unat_add_no_wrap)
          (simp_all add: HDR_def unat_add_no_wrap)
      then have le: "unat sz + 64 \<le> unat (h_size n)"
        using split by (simp add: word_le_nat_alt)
      have s2: "unat (h_addr n + HDR + sz) = unat (h_addr n) + 32 + unat sz"
        using b le by (subst unat_add_no_wrap, subst unat_add_no_wrap)
          (simp_all add: HDR_def unat_add_no_wrap)
      have s3: "unat (h_size n - sz - HDR) = unat (h_size n) - unat sz - 32"
        using le by (simp add: HDR_def unat_sub_if')
      show ?thesis using Cons.prems True split le s2 s3 by (auto simp: algebra_simps)
    qed
  qed
qed simp

lemma first_fit_allocated:
  assumes "first_fit sz ns = Some (p, ns')"
  shows "\<exists>pre s post. allocated ns = pre @ post \<and> allocated ns' = pre @ (p, s) # post \<and> sz \<le> s"
  using assms
proof (induction ns arbitrary: ns')
  case (Cons n ns)
  show ?case
  proof (cases "h_free n \<and> sz \<le> h_size n")
    case True
    then have "\<exists>s. allocated ns' = (p, s) # allocated ns \<and> sz \<le> s"
      using Cons.prems by (auto simp: allocated_def split: if_splits)
    moreover have "allocated (n # ns) = allocated ns" using True by (simp add: allocated_def)
    ultimately show ?thesis by (metis append_Nil)
  next
    case False
    then obtain ns1 where r: "first_fit sz ns = Some (p, ns1)" "ns' = n # ns1"
      using Cons.prems by (auto split: prod.splits)
    then obtain pre s post where "allocated ns = pre @ post"
        "allocated ns1 = pre @ (p, s) # post" "sz \<le> s"
      using Cons.IH by blast
    moreover have "allocated (n # xs) =
        (if h_free n then [] else [(h_addr n + HDR, h_size n)]) @ allocated xs" for xs
      by (simp add: allocated_def)
    ultimately show ?thesis using r(2) by (metis append.assoc)
  qed
qed simp

lemma first_fit_append:
  "first_fit sz (xs @ ys) =
    (case first_fit sz xs of
       Some (p, xs') \<Rightarrow> Some (p, xs' @ ys)
     | None \<Rightarrow> map_option (\<lambda>(p, ys'). (p, xs @ ys')) (first_fit sz ys))"
proof (induction xs)
  case Nil
  show ?case by (cases "first_fit sz ys") auto
next
  case (Cons x xs)
  show ?case
  proof (cases "first_fit sz xs")
    case None
    then show ?thesis using Cons by (cases "first_fit sz ys") auto
  next
    case (Some r)
    then show ?thesis using Cons by (cases r) auto
  qed
qed

section \<open>Merging free neighbours\<close>

lemma coalesce_arena:
  assumes "arena a ns b" "b < 2 ^ 64"
  shows "arena a (coalesce ns) b"
  using assms
proof (induction ns arbitrary: a rule: coalesce.induct)
  case (3 n m ns)
  show ?case
  proof (cases "h_free n \<and> h_free m")
    case True
    have "unat (h_addr n) + 32 + unat (h_size n) + 32 + unat (h_size m) \<le> b"
      using 3(3) arena_le by auto
    then have "unat (h_size n + (HDR + h_size m)) = unat (h_size n) + (32 + unat (h_size m))"
      using 3(4) by (simp add: HDR_def unat_add_no_wrap)
    then have "arena a (n\<lparr>h_size := h_size n + (HDR + h_size m)\<rparr> # ns) b"
      using 3(3) by (simp add: algebra_simps)
    then show ?thesis using 3(1,4) True by simp
  next
    case False
    then show ?thesis using 3 by auto
  qed
qed auto

lemma allocated_Cons:
  "allocated (n # ns) = (if h_free n then allocated ns else (h_addr n + HDR, h_size n) # allocated ns)"
  by (simp add: allocated_def)

lemma allocated_append: "allocated (xs @ ys) = allocated xs @ allocated ys"
  by (simp add: allocated_def)

lemma allocated_Nil [simp]: "allocated [] = []"
  by (simp add: allocated_def)

lemma allocated_coalesce [simp]: "allocated (coalesce ns) = allocated ns"
  by (induction ns rule: coalesce.induct) (auto simp: allocated_Cons)

fun no_adjacent_free :: "hnode list \<Rightarrow> bool" where
  "no_adjacent_free (n # m # ns) \<longleftrightarrow> \<not> (h_free n \<and> h_free m) \<and> no_adjacent_free (m # ns)"
| "no_adjacent_free _ \<longleftrightarrow> True"

lemma coalesce_hd: "ns \<noteq> [] \<Longrightarrow>
    coalesce ns \<noteq> [] \<and> h_free (hd (coalesce ns)) = h_free (hd ns)"
  by (induction ns rule: coalesce.induct) auto

lemma coalesce_no_adjacent_free: "no_adjacent_free (coalesce ns)"
proof (induction ns rule: coalesce.induct)
  case (3 n m ns)
  show ?case
  proof (cases "h_free n \<and> h_free m")
    case False
    obtain k ks where k: "coalesce (m # ns) = k # ks"
      using coalesce_hd [of "m # ns"] by (cases "coalesce (m # ns)") auto
    then have "h_free k = h_free m" using coalesce_hd [of "m # ns"] by simp
    then show ?thesis using 3 False k by auto
  qed (use 3 in auto)
qed auto

lemma coalesce_all_free:
  assumes "\<forall>n\<in>set ns. h_free n" "ns \<noteq> []"
  shows "length (coalesce ns) = 1"
  using assms by (induction ns rule: coalesce.induct) auto

section \<open>Addresses are distinct in an arena\<close>

lemma arena_addr_ge: "arena a ns b \<Longrightarrow> n \<in> set ns \<Longrightarrow> a \<le> unat (h_addr n)"
  by (induction ns arbitrary: a) force+

lemma arena_distinct: "arena a ns b \<Longrightarrow> distinct (map h_addr ns)"
proof (induction ns arbitrary: a)
  case (Cons n ns)
  have "h_addr n \<noteq> h_addr m" if "m \<in> set ns" for m
    using Cons.prems that arena_addr_ge by fastforce
  then show ?case using Cons by auto
qed simp

lemma arena_update_free:
  assumes "arena a ns b" "i < length ns"
  shows "arena a (ns[i := (ns ! i)\<lparr>h_free := f\<rparr>]) b"
  using assms
proof (induction ns arbitrary: a i)
  case (Cons n ns)
  then show ?case by (cases i) auto
qed simp

lemma allocated_update:
  assumes "distinct (map h_addr ns)" "i < length ns"
  shows "allocated (ns[i := (ns ! i)\<lparr>h_free := True\<rparr>]) =
    filter (\<lambda>x. fst x \<noteq> h_addr (ns ! i) + HDR) (allocated ns)"
  using assms
proof (induction ns arbitrary: i)
  case (Cons n ns)
  show ?case
  proof (cases i)
    case 0
    have "filter (\<lambda>x. fst x \<noteq> h_addr n + HDR) (allocated ns) = allocated ns"
      using Cons.prems(1) by (intro filter_True) (force simp: allocated_def)
    then show ?thesis using 0 by (simp add: allocated_Cons)
  next
    case (Suc k)
    then have "h_addr n \<noteq> h_addr (ns ! k)" using Cons.prems by auto
    then show ?thesis using Cons Suc by (simp add: allocated_Cons)
  qed
qed simp

section \<open>What kmalloc and kfree do\<close>

lemma round16_unat:
  assumes "unat sz + 15 < 2 ^ 64"
  shows "unat (round16 sz) = (unat sz + 15) div 16 * 16"
proof -
  have m: "(15 :: u64) = mask 4" by (simp add: mask_eq_exp_minus_1)
  have s: "unat (sz + 15) = unat sz + 15"
    using assms by (subst unat_add_no_wrap) simp_all
  have "unat ((sz + 15) AND NOT (mask 4)) = unat (sz + 15) div 2 ^ 4 * 2 ^ 4"
    by (rule unat_align_down)
  then show ?thesis unfolding round16_def m [symmetric] s by simp
qed

lemma round16_bounds:
  assumes "unat sz + 128 \<le> 2 ^ 64"
  shows "sz \<le> round16 sz" "unat (round16 sz) + 128 \<le> 2 ^ 64" "round16 (round16 sz) = round16 sz"
proof -
  have e: "unat (round16 sz) = (unat sz + 15) div 16 * 16"
    using assms by (intro round16_unat) simp
  show "sz \<le> round16 sz" unfolding word_le_nat_alt e by presburger
  have "(unat sz + 15) div 16 \<le> (2 ^ 64 - 113) div 16"
    using assms by (intro div_le_mono) simp
  then show le: "unat (round16 sz) + 128 \<le> 2 ^ 64" using e by simp
  have "unat (round16 (round16 sz)) = (unat (round16 sz) + 15) div 16 * 16"
    using le by (intro round16_unat) simp
  also have "\<dots> = unat (round16 sz)" unfolding e by presburger
  finally show "round16 (round16 sz) = round16 sz" by (simp add: word_unat_eq_iff)
qed

text \<open>The heap against the pages it owns: one extent per block obtained from the
  page allocator, each tiled by its own chain, pairwise disjoint and made of
  pages the allocator does not give to anybody else.\<close>

definition extents :: "(nat \<times> nat) list \<Rightarrow> heap \<Rightarrow> bool" where
  "extents es h \<longleftrightarrow>
    (\<exists>nss. nodes h = concat nss \<and> list_all2 (\<lambda>e ns. arena (fst e) ns (snd e)) es nss)"

definition owned :: "pmm \<Rightarrow> (nat \<times> nat) list \<Rightarrow> bool" where
  "owned p es \<longleftrightarrow>
    (\<forall>e\<in>set es. snd e < 2 ^ 64 \<and>
       (\<forall>x. fst e \<le> x \<and> x < snd e \<longrightarrow> \<not> page_avail p (x div 4096))) \<and>
    sorted_wrt (\<lambda>e f. {fst e..<snd e} \<inter> {fst f..<snd f} = {}) es"

definition heap_inv :: "pmm \<Rightarrow> (nat \<times> nat) list \<Rightarrow> heap \<Rightarrow> bool" where
  "heap_inv p es h \<longleftrightarrow> extents es h \<and> owned p es"

lemma first_fit_concat:
  assumes "first_fit sz (concat nss) = Some (p, ns')"
    "list_all2 (\<lambda>e ns. arena (fst e) ns (snd e)) es nss"
    "\<forall>e\<in>set es. snd e < 2 ^ 64" "unat sz + 64 < 2 ^ 64"
  shows "\<exists>nss'. ns' = concat nss' \<and> list_all2 (\<lambda>e ns. arena (fst e) ns (snd e)) es nss'"
  using assms(1,2,3)
proof (induction nss arbitrary: ns' es)
  case (Cons ns nss)
  then obtain e es' where es: "es = e # es'" "arena (fst e) ns (snd e)"
      "list_all2 (\<lambda>e ns. arena (fst e) ns (snd e)) es' nss"
    by (auto simp: list_all2_Cons2)
  show ?case
  proof (cases "first_fit sz ns")
    case None
    then obtain r where r: "first_fit sz (concat nss) = Some (p, r)" "ns' = ns @ r"
      using Cons.prems by (auto simp: first_fit_append)
    then obtain nss' where "r = concat nss'"
        "list_all2 (\<lambda>e ns. arena (fst e) ns (snd e)) es' nss'"
      using Cons.IH [OF r(1) es(3)] Cons.prems(3) es(1) by auto
    then show ?thesis using r es by (intro exI [of _ "ns # nss'"]) auto
  next
    case (Some q)
    then obtain r where r: "first_fit sz ns = Some (p, r)" "ns' = r @ concat nss"
      using Cons.prems by (auto simp: first_fit_append split: prod.splits)
    then have "arena (fst e) r (snd e)"
      using first_fit_arena [OF r(1) es(2)] Cons.prems(3) assms(4) es(1) by auto
    then show ?thesis using r es by (intro exI [of _ "r # nss"]) auto
  qed
qed simp

lemma fresh_arena:
  assumes "i + n \<le> PMM_PAGES" "0 < n"
  shows "arena (i * 4096)
    [\<lparr>h_magic = HEAP_MAGIC, h_addr = page_addr i, h_size = push_bit 12 (of_nat n) - HDR, h_free = True\<rparr>]
    (i * 4096 + n * 4096)"
proof -
  have n: "unat (of_nat n :: u64) = n" "unat (of_nat i :: u64) = i"
    using assms by (simp_all add: unat_of_nat_small PMM_PAGES_def)
  have "unat (push_bit 12 (of_nat n :: u64)) = n * 2 ^ 12"
    using assms n by (subst unat_push_bit) (simp_all add: PMM_PAGES_def del: push_bit_of_nat)
  moreover have "unat (push_bit 12 (of_nat i :: u64)) = i * 2 ^ 12"
    using assms n by (subst unat_push_bit) (simp_all add: PMM_PAGES_def del: push_bit_of_nat)
  ultimately show ?thesis
    using assms unfolding page_addr_def
    by (simp add: HDR_def unat_sub_if' PMM_PAGES_def del: push_bit_of_nat)
qed

lemma heap_inv_grow:
  assumes inv: "heap_inv p es h" and ok: "pmm_ok p" and al: "pmm_alloc n p = (Some i, p')"
  shows "heap_inv p' (es @ [(i * 4096, i * 4096 + n * 4096)])
    (h\<lparr>nodes := nodes h @
       [\<lparr>h_magic = HEAP_MAGIC, h_addr = page_addr i, h_size = push_bit 12 (of_nat n) - HDR, h_free = True\<rparr>]\<rparr>)"
    (is "heap_inv p' (es @ [?e]) ?h")
proof -
  have n: "0 < n" using pmm_alloc_SomeD(1) al by blast
  have b: "i + n \<le> PMM_PAGES" using pmm_alloc_bound [OF ok al] by linarith
  have pg: "i \<le> x div 4096 \<and> x div 4096 < i + n"
    if "i * 4096 \<le> x" "x < i * 4096 + n * 4096" for x
  proof -
    have "x < (i + n) * 4096" using that(2) by (simp add: algebra_simps)
    then show ?thesis using that(1) by (simp add: less_mult_imp_div_less less_eq_div_iff_mult_less_eq)
  qed
  have old: "\<not> page_avail p' (x div 4096)" "x \<notin> {fst ?e..<snd ?e}"
    if "e \<in> set es" "fst e \<le> x" "x < snd e" for e x
  proof -
    have na: "\<not> page_avail p (x div 4096)" using inv that by (auto simp: heap_inv_def owned_def)
    then show "\<not> page_avail p' (x div 4096)" using pmm_alloc_avail [OF al] by blast
    show "x \<notin> {fst ?e..<snd ?e}"
      using pg na pmm_alloc_SomeD(2) [OF al] by (auto simp: run_free_iff)
  qed
  from inv obtain nss where nss: "nodes h = concat nss"
      "list_all2 (\<lambda>e ns. arena (fst e) ns (snd e)) es nss"
    by (auto simp: heap_inv_def extents_def)
  have "extents (es @ [?e]) ?h"
    unfolding extents_def using nss fresh_arena [OF b n]
    by (intro exI [of _ "nss @ [[\<lparr>h_magic = HEAP_MAGIC, h_addr = page_addr i, h_size = push_bit 12 (of_nat n) - HDR,
          h_free = True\<rparr>]]"]) (simp add: list_all2_appendI)
  moreover have "owned p' (es @ [?e])"
  proof -
    have "\<not> page_avail p' (x div 4096)" if "fst ?e \<le> x" "x < snd ?e" for x
      using pg [of x] that pmm_alloc_avail [OF al, of "x div 4096"] by simp
    moreover have "snd ?e < 2 ^ 64" using b by (simp add: PMM_PAGES_def)
    moreover have "{fst e..<snd e} \<inter> {fst ?e..<snd ?e} = {}" if "e \<in> set es" for e
      using old(2) [OF that] by fastforce
    ultimately show ?thesis
      using inv old(1) unfolding heap_inv_def owned_def sorted_wrt_append by auto
  qed
  ultimately show ?thesis by (simp add: heap_inv_def)
qed

lemma heap_inv_fit:
  assumes "heap_inv p es h" "first_fit sz (nodes h) = Some (a, ns)" "unat sz + 128 \<le> 2 ^ 64"
  shows "heap_inv p es (h\<lparr>nodes := ns\<rparr>)"
proof -
  from assms(1) obtain nss where nss: "nodes h = concat nss"
      "list_all2 (\<lambda>e ns. arena (fst e) ns (snd e)) es nss" and o: "owned p es"
    by (auto simp: heap_inv_def extents_def)
  have "\<exists>nss'. ns = concat nss' \<and> list_all2 (\<lambda>e ns. arena (fst e) ns (snd e)) es nss'"
    using assms(2,3) nss o by (intro first_fit_concat) (auto simp: owned_def)
  then show ?thesis using o by (auto simp: heap_inv_def extents_def)
qed

text \<open>Induction along a run of \<open>kmalloc\<close>: it refuses, finds a node, fails to
  grow, or grows and starts again.\<close>

definition grown :: "heap \<Rightarrow> nat \<Rightarrow> heap" where
  "grown h i = h\<lparr>nodes := nodes h @
     [\<lparr>h_magic = HEAP_MAGIC, h_addr = page_addr i, h_size = push_bit 12 (of_nat 256) - HDR, h_free = True\<rparr>]\<rparr>"

lemma kmalloc_run [consumes 1, case_names idle stop fit full grow]:
  assumes "kmalloc sz h p = (a, h', p')"
    and idle: "\<And>sz h p. \<not> ready h \<or> sz = 0 \<Longrightarrow> Q sz h p 0 h p"
    and stop: "\<And>sz h p. ready h \<Longrightarrow> sz \<noteq> 0 \<Longrightarrow> walk_bad (round16 sz) (nodes h) \<Longrightarrow>
        Q sz h p 0 (h\<lparr>halted := True\<rparr>) p"
    and fit: "\<And>sz h p a ns. ready h \<Longrightarrow> sz \<noteq> 0 \<Longrightarrow>
        first_fit (round16 sz) (nodes h) = Some (a, ns) \<Longrightarrow> Q sz h p a (h\<lparr>nodes := ns\<rparr>) p"
    and full: "\<And>sz h p. ready h \<Longrightarrow> sz \<noteq> 0 \<Longrightarrow> first_fit (round16 sz) (nodes h) = None \<Longrightarrow>
        pmm_alloc 256 p = (None, p) \<Longrightarrow> Q sz h p 0 h p"
    and grow: "\<And>sz h p i p1 a h' p'. ready h \<Longrightarrow> sz \<noteq> 0 \<Longrightarrow>
        first_fit (round16 sz) (nodes h) = None \<Longrightarrow> pmm_alloc 256 p = (Some i, p1) \<Longrightarrow>
        Q (round16 sz) (grown h i) p1 a h' p' \<Longrightarrow> Q sz h p a h' p'"
  shows "Q sz h p a h' p'"
  using assms(1)
proof (induction sz h p rule: kmalloc.induct)
  case (1 sz h p)
  show ?case
  proof (cases "\<not> ready h \<or> sz = 0")
    case True
    then show ?thesis using 1(2) idle by (subst (asm) kmalloc.simps) auto
  next
    case rdy: False
    show ?thesis
    proof (cases "walk_bad (round16 sz) (nodes h)")
      case True
      then show ?thesis using 1(2) rdy stop by (subst (asm) kmalloc.simps) auto
    next
      case good: False
    show ?thesis
    proof (cases "first_fit (round16 sz) (nodes h)")
      case (Some r)
      then show ?thesis
        using 1(2) rdy good fit by (cases r) (subst (asm) kmalloc.simps, auto)
    next
      case nofit: None
      obtain r p1 where al: "pmm_alloc 256 p = (r, p1)" by (cases "pmm_alloc 256 p")
      show ?thesis
      proof (cases r)
        case None
        then have "p1 = p" using al pmm_alloc_NoneD(1) by blast
        then show ?thesis
          using 1(2) al nofit rdy good full None by (subst (asm) kmalloc.simps) auto
      next
        case (Some i)
        have "kmalloc (round16 sz) (grown h i) p1 = (a, h', p')"
          using 1(2) al nofit rdy good Some by (subst (asm) kmalloc.simps) (simp add: grown_def)
        then have "Q (round16 sz) (grown h i) p1 a h' p'"
          using 1(1) [OF rdy good nofit al [symmetric] Some] by (simp add: grown_def)
        then show ?thesis using rdy nofit al Some grow by blast
      qed
    qed
    qed
  qed
qed

text \<open>Every header has the magic number: the check of \<open>kmalloc\<close> never stops the machine.\<close>

definition magic_ok :: "heap \<Rightarrow> bool" where
  "magic_ok h \<longleftrightarrow> (\<forall>n\<in>set (nodes h). h_magic n = HEAP_MAGIC)"

lemma walk_good: "magic_ok h \<Longrightarrow> \<not> walk_bad sz (nodes h)"
proof -
  have "\<forall>n\<in>set ns. h_magic n = HEAP_MAGIC \<Longrightarrow> \<not> walk_bad sz ns" for ns
    by (induction ns) auto
  then show "magic_ok h \<Longrightarrow> ?thesis" by (simp add: magic_ok_def)
qed

lemma magic_fit: "first_fit sz ns = Some (a, ns') \<Longrightarrow> \<forall>n\<in>set ns. h_magic n = HEAP_MAGIC \<Longrightarrow>
    \<forall>n\<in>set ns'. h_magic n = HEAP_MAGIC"
  by (induction ns arbitrary: ns') (auto split: if_splits)

lemma magic_grown: "magic_ok h \<Longrightarrow> magic_ok (grown h i)"
  by (auto simp: magic_ok_def grown_def)

lemma kmalloc_magic:
  assumes "kmalloc sz h p = (a, h', p')" "magic_ok h"
  shows "magic_ok h' \<and> halted h' = halted h"
  using assms
proof (induction rule: kmalloc_run)
  case (stop sz h p)
  then show ?case using walk_good by blast
next
  case (fit sz h p a ns)
  then show ?case using magic_fit [OF fit(3)] by (simp add: magic_ok_def)
next
  case (grow sz h p i p1 a h' p')
  then show ?case using magic_grown [of h i] by (simp add: grown_def)
qed simp_all

abbreviation magic :: "hnode \<Rightarrow> bool" where "magic n \<equiv> h_magic n = HEAP_MAGIC"

lemma coalesce_magic: "list_all magic ns \<Longrightarrow> list_all magic (coalesce ns)"
proof (induction ns rule: coalesce.induct)
  case (3 n m ns)
  then show ?case by (cases "h_free n \<and> h_free m") auto
qed simp_all

lemma kfree_magic:
  assumes "magic_ok h"
  shows "magic_ok (kfree ptr h) \<and> halted (kfree ptr h) = halted h"
proof (cases "ptr = 0 \<or> first_index (is_block ptr) (nodes h) = None")
  case False
  then obtain i where i: "ptr \<noteq> 0" "first_index (is_block ptr) (nodes h) = Some i" by blast
  have "magic (nodes h ! i)" using assms first_index_SomeD(1) [OF i(2)] by (simp add: magic_ok_def)
  then have "\<forall>n\<in>set ((nodes h)[i := (nodes h ! i)\<lparr>h_free := True\<rparr>]). magic n"
    using assms set_update_subset_insert unfolding magic_ok_def by fastforce
  then show ?thesis using coalesce_magic i by (simp add: kfree_def magic_ok_def list_all_iff)
qed (use assms in \<open>auto simp: kfree_def\<close>)

lemma allocated_grown [simp]: "allocated (nodes (grown h i)) = allocated (nodes h)"
  by (simp add: grown_def allocated_append allocated_Cons)

lemma kmalloc_inv:
  assumes "kmalloc sz h p = (a, h', p')" "heap_inv p es h" "pmm_ok p" "unat sz + 128 \<le> 2 ^ 64"
  shows "pmm_ok p' \<and> (\<exists>es'. heap_inv p' (es @ es') h')"
  using assms
proof (induction arbitrary: es rule: kmalloc_run)
  case (idle sz h p)
  then show ?case by (auto intro: exI [of _ "[]"])
next
  case (stop sz h p)
  then show ?case by (intro conjI exI [of _ "[]"]) (simp_all add: heap_inv_def extents_def)
next
  case (fit sz h p a ns)
  then have "heap_inv p es (h\<lparr>nodes := ns\<rparr>)"
    using round16_bounds(2) by (intro heap_inv_fit [OF _ fit(3)]) auto
  then show ?case using fit by (auto intro: exI [of _ "[]"])
next
  case (full sz h p)
  then show ?case by (auto intro: exI [of _ "[]"])
next
  case (grow sz h p i p1 a h' p')
  let ?e = "(i * 4096, i * 4096 + 256 * 4096)"
  have "heap_inv p1 (es @ [?e]) (grown h i)"
    using heap_inv_grow [OF grow(6,7,4)] by (simp add: grown_def)
  then have "pmm_ok p' \<and> (\<exists>es'. heap_inv p' ((es @ [?e]) @ es') h')"
    using grow pmm_ok_alloc round16_bounds(2) by blast
  then show ?case by auto
qed

lemma kmalloc_allocated:
  assumes "kmalloc sz h p = (a, h', p')" "unat sz + 128 \<le> 2 ^ 64"
  shows "a = 0 \<and> allocated (nodes h') = allocated (nodes h) \<or>
    (\<exists>pre s post. allocated (nodes h) = pre @ post \<and>
       allocated (nodes h') = pre @ (a, s) # post \<and> sz \<le> s)"
  using assms
proof (induction rule: kmalloc_run)
  case (fit sz h p a ns)
  then show ?case
    using first_fit_allocated [OF fit(3)] round16_bounds(1) order_trans by fastforce
next
  case (grow sz h p i p1 a h' p')
  then show ?case using round16_bounds(1,2) order_trans by fastforce
qed auto

text \<open>When no node fits and a 256-page block is too small for the request, the
  recursion takes every 256-page run of the machine and still fails.\<close>

lemma kmalloc_drains:
  assumes "kmalloc sz h p = (a, h', p')" "ready h" "sz \<noteq> 0" "unat sz + 128 \<le> 2 ^ 64"
    "first_fit (round16 sz) (nodes h) = None" "push_bit 12 256 - HDR < sz" "magic_ok h"
  shows "a = 0 \<and> \<not> run_free p' i 256"
  using assms
proof (induction rule: kmalloc_run)
  case (stop sz h p)
  then show ?case using walk_good by blast
next
  case (full sz h p)
  then show ?case using pmm_alloc_NoneD(2) [of 256 p p] by simp
next
  case (grow sz h p k p1 a h' p')
  note r = round16_bounds [OF grow(8)]
  have "push_bit 12 256 - HDR < round16 sz" using grow(10) r(1) by (rule less_le_trans)
  moreover have "first_fit (round16 (round16 sz)) (nodes (grown h k)) = None"
    using grow(9) calculation unfolding r(3) grown_def by (simp add: first_fit_append)
  moreover have "round16 sz \<noteq> 0" using r(1) grow(7) by (auto simp: word_le_nat_alt unat_eq_0)
  moreover have "ready (grown h k)" using grow(6) by (simp add: grown_def)
  moreover have "magic_ok (grown h k)" using grow(11) by (rule magic_grown)
  ultimately show ?case using grow(5) r(2) by blast
qed auto

section \<open>Blocks never overlap\<close>

definition span :: "hnode \<Rightarrow> nat set" where
  "span n = {unat (h_addr n)..<unat (h_addr n) + 32 + unat (h_size n)}"

lemma arena_span: "arena a ns b \<Longrightarrow> n \<in> set ns \<Longrightarrow> span n \<subseteq> {a..<b}"
proof (induction ns arbitrary: a)
  case (Cons m ns)
  show ?case
  proof (cases "n = m")
    case True
    then show ?thesis using Cons.prems(1) arena_le by (auto simp: span_def)
  next
    case False
    then have "span n \<subseteq> {a + 32 + unat (h_size m)..<b}" using Cons by auto
    then show ?thesis by auto
  qed
qed simp

lemma arena_disjoint: "arena a ns b \<Longrightarrow> sorted_wrt (\<lambda>n m. span n \<inter> span m = {}) ns"
proof (induction ns arbitrary: a)
  case (Cons n ns)
  have "span n \<inter> span m = {}" if "m \<in> set ns" for m
    using Cons.prems arena_span [of _ ns b m] that by (fastforce simp: span_def)
  then show ?case using Cons by auto
qed simp

lemma heap_inv_disjoint:
  assumes "heap_inv p es h"
  shows "sorted_wrt (\<lambda>n m. span n \<inter> span m = {}) (nodes h) \<and>
    (\<forall>n\<in>set (nodes h). \<forall>x\<in>span n. \<not> page_avail p (x div 4096))"
proof -
  from assms obtain nss where nss: "nodes h = concat nss"
      "list_all2 (\<lambda>e ns. arena (fst e) ns (snd e)) es nss" and o: "owned p es"
    by (auto simp: heap_inv_def extents_def)
  have in_ext: "\<exists>e\<in>set es. span n \<subseteq> {fst e..<snd e}"
    if "list_all2 (\<lambda>e ns. arena (fst e) ns (snd e)) es nss" "n \<in> set (concat nss)" for n es nss
    using that by (induction rule: list_all2_induct) (auto dest: arena_span)
  have "sorted_wrt (\<lambda>n m. span n \<inter> span m = {}) (concat nss)"
    using nss(2) o
  proof (induction rule: list_all2_induct)
    case (Cons e es ns nss)
    have "span m \<inter> span n = {}" if m: "m \<in> set ns" and n: "n \<in> set (concat nss)" for m n
    proof -
      have "span m \<subseteq> {fst e..<snd e}" using Cons(1) m by (rule arena_span)
      moreover obtain f where "f \<in> set es" "span n \<subseteq> {fst f..<snd f}"
        using in_ext [OF Cons(2) n] by blast
      moreover have "{fst e..<snd e} \<inter> {fst f..<snd f} = {}"
        using Cons(4) \<open>f \<in> set es\<close> by (auto simp: owned_def)
      ultimately show ?thesis by blast
    qed
    moreover have "owned p es" using Cons(4) by (auto simp: owned_def)
    ultimately show ?case
      using Cons(3) arena_disjoint [OF Cons(1)] by (auto simp: sorted_wrt_append)
  qed simp
  moreover have "\<not> page_avail p (x div 4096)" if "n \<in> set (concat nss)" "x \<in> span n" for n x
    using in_ext [OF nss(2) that(1)] that(2) o by (fastforce simp: owned_def)
  ultimately show ?thesis using nss(1) by simp
qed

section \<open>kfree\<close>

lemma kfree_allocated:
  assumes "distinct (map h_addr (nodes h))" "ptr \<noteq> 0"
  shows "allocated (nodes (kfree ptr h)) = filter (\<lambda>x. fst x \<noteq> ptr) (allocated (nodes h))"
proof (cases "first_index (is_block ptr) (nodes h)")
  case None
  then have "\<forall>n\<in>set (nodes h). h_addr n + HDR \<noteq> ptr" by (simp add: first_index_None_iff is_block_def)
  then have "filter (\<lambda>x. fst x \<noteq> ptr) (allocated (nodes h)) = allocated (nodes h)"
    by (intro filter_True) (auto simp: allocated_def)
  then show ?thesis using None assms(2) by (simp add: kfree_def)
next
  case (Some i)
  then have "i < length (nodes h)" "h_addr (nodes h ! i) + HDR = ptr"
    by (auto simp: first_index_Some_iff is_block_def)
  then show ?thesis
    using Some allocated_update [OF assms(1)] assms(2) by (simp add: kfree_def)
qed

lemma span_distinct_addr:
  assumes "sorted_wrt (\<lambda>n m. span n \<inter> span m = {}) ns"
  shows "distinct (map h_addr ns)"
  using assms
proof (induction ns)
  case (Cons n ns)
  have "h_addr n \<noteq> h_addr m" if "m \<in> set ns" for m
  proof
    assume "h_addr n = h_addr m"
    then have "unat (h_addr n) \<in> span n \<inter> span m" by (simp add: span_def)
    then show False using Cons.prems that by auto
  qed
  then show ?case using Cons by auto
qed simp

lemma heap_inv_distinct: "heap_inv p es h \<Longrightarrow> distinct (map h_addr (nodes h))"
  using heap_inv_disjoint span_distinct_addr by blast

lemma kfree_inv:
  assumes "heap_inv p [e] h"
  shows "heap_inv p [e] (kfree ptr h)"
proof -
  have ar: "arena (fst e) (nodes h) (snd e)" and o: "owned p [e]"
    using assms by (auto simp: heap_inv_def extents_def list_all2_Cons1)
  have "arena (fst e) (nodes (kfree ptr h)) (snd e)"
    using ar o first_index_SomeD(1) [of "is_block ptr" "nodes h"]
    by (auto simp: kfree_def owned_def split: option.splits
        intro!: coalesce_arena arena_update_free)
  then show ?thesis
    using o unfolding heap_inv_def extents_def
    by (auto intro: exI [of _ "[nodes (kfree ptr h)]"])
qed

text \<open>Every block comes back: releasing what \<open>kmalloc\<close> just returned leaves the
  blocks that were allocated before.\<close>

lemma kmalloc_kfree_allocated:
  assumes "heap_inv p es h" "pmm_ok p" "unat sz + 128 \<le> 2 ^ 64" "kmalloc sz h p = (a, h', p')" "a \<noteq> 0"
  shows "allocated (nodes (kfree a h')) = allocated (nodes h)"
proof -
  have d: "distinct (map h_addr (nodes h'))"
    using kmalloc_inv [OF assms(4,1,2,3)] heap_inv_distinct by blast
  from kmalloc_allocated [OF assms(4,3)] assms(5) obtain pre s post where
    al: "allocated (nodes h) = pre @ post" "allocated (nodes h') = pre @ (a, s) # post"
    by auto
  have "distinct (map fst (allocated ns))" if "distinct (map h_addr ns)" for ns
    using that by (induction ns) (auto simp: allocated_Cons allocated_def)
  then have "distinct (map fst (pre @ (a, s) # post))" using d al(2) by metis
  then have "a \<notin> fst ` set pre" "a \<notin> fst ` set post" by auto
  then have "filter (\<lambda>x. fst x \<noteq> a) pre = pre" "filter (\<lambda>x. fst x \<noteq> a) post = post"
    by (force intro: filter_True)+
  then have "filter (\<lambda>x. fst x \<noteq> a) (pre @ (a, s) # post) = pre @ post" by simp
  then show ?thesis using kfree_allocated [OF d assms(5)] al by simp
qed

text \<open>Merging follows the chain, not the addresses: after the heap has grown, the
  last free node of one extent and the first of the next become one block, whose
  payload then contains memory between the two that the heap does not own.\<close>

definition two_extents :: heap where
  "two_extents = \<lparr>nodes =
     [\<lparr>h_magic = HEAP_MAGIC, h_addr = 0x100000, h_size = 0x1000 - 32, h_free = True\<rparr>,
      \<lparr>h_magic = HEAP_MAGIC, h_addr = 0x200000, h_size = 0x1000 - 32, h_free = False\<rparr>], ready = True, halted = False\<rparr>"

lemma kfree_merges_across_extents:
  "nodes (kfree 0x200020 two_extents) =
    [\<lparr>h_magic = HEAP_MAGIC, h_addr = 0x100000, h_size = 0x2000 - 32, h_free = True\<rparr>]"
  by (simp add: kfree_def two_extents_def is_block_def HDR_def)

section \<open>Properties\<close>

text \<open>A heap of one free block of a page, over a pool with nothing left.\<close>

definition one_block :: heap where
  "one_block = \<lparr>nodes = [\<lparr>h_magic = HEAP_MAGIC, h_addr = 0x100000, h_size = 0xFE0, h_free = True\<rparr>], ready = True, halted = False\<rparr>"

definition full_pool :: pmm where
  "full_pool = \<lparr>bitmap = (\<lambda>_. - 1), total = 0x200, used = 0x200\<rparr>"

lemma full_pool_none: "\<not> page_avail full_pool j"
  by (simp add: page_avail_def full_pool_def bm_test_all_ones)

lemma full_pool_ok: "pmm_ok full_pool"
proof -
  have "bm_test (\<lambda>_. - 1) = (\<lambda>_. True)" by (rule ext) (simp add: bm_test_all_ones)
  then show ?thesis by (simp add: pmm_ok_def full_pool_def count_if_def PMM_PAGES_def)
qed

lemma one_block_inv: "heap_inv full_pool [(0x100000, 0x101000)] one_block"
proof -
  have "extents [(0x100000, 0x101000)] one_block"
    unfolding extents_def by (rule exI [of _ "[nodes one_block]"]) (simp add: one_block_def)
  then show ?thesis by (simp add: heap_inv_def owned_def full_pool_none)
qed

lemma one_block_magic: "magic_ok one_block"
  by (simp add: one_block_def magic_ok_def)

text \<open>C14. An allocation of at most 2^64 - 128 bytes keeps the heap well formed: its blocks tile ranges of
  memory the page pool no longer gives out and do not overlap, every header has the magic number, and
  the machine is not stopped.  It returns null and allocates nothing, or adds one block at least as
  large as asked and leaves the others.\<close>

theorem kmalloc_block:
  assumes "kmalloc sz h p = (a, h', p')" "heap_inv p es h" "magic_ok h" "pmm_ok p" "unat sz + 128 \<le> 2 ^ 64"
  shows "pmm_ok p' \<and> (\<exists>es'. heap_inv p' (es @ es') h') \<and> magic_ok h' \<and> halted h' = halted h \<and>
    sorted_wrt (\<lambda>n m. span n \<inter> span m = {}) (nodes h') \<and>
    (\<forall>n\<in>set (nodes h'). \<forall>x\<in>span n. \<not> page_avail p' (x div 4096)) \<and>
    (a = 0 \<and> allocated (nodes h') = allocated (nodes h) \<or>
     (\<exists>s pre post. sz \<le> s \<and> allocated (nodes h) = pre @ post \<and> allocated (nodes h') = pre @ (a, s) # post))"
proof -
  obtain es' where inv: "pmm_ok p'" "heap_inv p' (es @ es') h'"
    using kmalloc_inv [OF assms(1,2,4,5)] by blast
  show ?thesis
    using inv heap_inv_disjoint [OF inv(2)] kmalloc_allocated [OF assms(1,5)] kmalloc_magic [OF assms(1,3)] by blast
qed

lemma kmalloc_block_witness:
  "\<exists>es'. heap_inv (snd (snd (kmalloc 100 one_block full_pool))) ([(0x100000, 0x101000)] @ es')
    (fst (snd (kmalloc 100 one_block full_pool)))"
proof -
  have "kmalloc 100 one_block full_pool = (fst (kmalloc 100 one_block full_pool),
      fst (snd (kmalloc 100 one_block full_pool)), snd (snd (kmalloc 100 one_block full_pool)))"
    by simp
  from kmalloc_block [OF this one_block_inv one_block_magic full_pool_ok] show ?thesis by simp
qed

text \<open>The bound is needed: the rounding of a size above 2^64 - 16 wraps to 0, and the first free
  block is returned, cut to length 0 when it can be split.\<close>

lemma round16_wraps:
  assumes "2 ^ 64 - 16 < unat sz"
  shows "round16 sz = 0"
proof -
  have "unat (sz + 15) = (unat sz + 15) mod 2 ^ 64" by (simp add: unat_word_ariths)
  moreover have "(unat sz + 15) mod 2 ^ 64 = unat sz + 15 - 2 ^ 64"
    using assms unsigned_less [of sz, where ?'a = nat] by (subst le_mod_geq) simp_all
  ultimately have "unat (sz + 15) < 2 ^ 4" using unsigned_less [of sz, where ?'a = nat] by simp
  then have "unat ((sz + 15) AND NOT (mask 4)) = 0" by (subst unat_align_down) simp
  then show ?thesis by (simp add: round16_def unat_eq_0 mask_eq_exp_minus_1)
qed

theorem kmalloc_wraps:
  assumes "2 ^ 64 - 16 < unat sz" "ready h" "nodes h = n # ns" "h_free n" "h_magic n = HEAP_MAGIC" "64 \<le> h_size n"
  shows "\<exists>h'. kmalloc sz h p = (h_addr n + HDR, h', p) \<and> hd (nodes h') = n\<lparr>h_size := 0, h_free := False\<rparr>"
proof -
  have "sz \<noteq> 0" using assms(1) by auto
  then show ?thesis
    using assms round16_wraps [OF assms(1)] by (subst kmalloc.simps) (simp add: HDR_def)
qed

lemma kmalloc_wraps_witness:
  "\<exists>h'. kmalloc 0xFFFFFFFFFFFFFFFF one_block full_pool = (0x100020, h', full_pool)"
proof -
  have "2 ^ 64 - 16 < unat (0xFFFFFFFFFFFFFFFF :: u64)" by simp
  from kmalloc_wraps [OF this, of one_block "hd (nodes one_block)" "[]" full_pool] show ?thesis
    by (auto simp: one_block_def HDR_def)
qed

text \<open>Freeing the block that was just allocated leaves the allocated blocks, with their
  addresses and sizes, as they were.\<close>

theorem kmalloc_kfree:
  assumes "heap_inv p es h" "pmm_ok p" "unat sz + 128 \<le> 2 ^ 64" "kmalloc sz h p = (a, h', p')" "a \<noteq> 0"
  shows "allocated (nodes (kfree a h')) = allocated (nodes h)"
  by (rule kmalloc_kfree_allocated [OF assms])

lemma one_block_alloc: "kmalloc 100 one_block p = (0x100020, \<lparr>nodes =
    [\<lparr>h_magic = HEAP_MAGIC, h_addr = 0x100000, h_size = 112, h_free = False\<rparr>,
     \<lparr>h_magic = HEAP_MAGIC, h_addr = 0x100090, h_size = 0xF50, h_free = True\<rparr>], ready = True, halted = False\<rparr>, p)"
  by (subst kmalloc.simps) (simp add: one_block_def round16_def HDR_def)

lemma kmalloc_kfree_witness:
  "allocated (nodes (kfree 0x100020 \<lparr>nodes =
    [\<lparr>h_magic = HEAP_MAGIC, h_addr = 0x100000, h_size = 112, h_free = False\<rparr>,
     \<lparr>h_magic = HEAP_MAGIC, h_addr = 0x100090, h_size = 0xF50, h_free = True\<rparr>], ready = True, halted = False\<rparr>)) = []"
  using kmalloc_kfree [OF one_block_inv full_pool_ok _ one_block_alloc]
  by (simp add: allocated_def one_block_def)

text \<open>\<open>kfree\<close> joins neighbours of the list, not of memory: with two ranges of pages,
  freeing the block of the second makes one free block that starts in the first
  range and claims bytes beyond its end.\<close>

theorem kfree_joins_ranges:
  "h_size (hd (nodes (kfree 0x200020 two_extents))) = 0x2000 - 32 \<and>
   arena 0x100000 (take 1 (nodes two_extents)) 0x101000 \<and> length (nodes (kfree 0x200020 two_extents)) = 1"
  by (simp add: kfree_merges_across_extents) (simp add: two_extents_def)

text \<open>A request larger than a 256-page extent that no block satisfies ends with a null
  pointer and with no run of 256 free pages left: every one was added to the heap.\<close>

theorem kmalloc_drains_pool:
  assumes "kmalloc sz h p = (a, h', p')" "ready h" "sz \<noteq> 0" "unat sz + 128 \<le> 2 ^ 64"
    "first_fit (round16 sz) (nodes h) = None" "push_bit 12 256 - HDR < sz" "magic_ok h"
  shows "a = 0 \<and> (\<forall>i. \<not> run_free p' i 256)"
  using kmalloc_drains [OF assms] by blast

lemma kmalloc_drains_pool_witness:
  "fst (kmalloc 0x200000 one_block full_pool) = 0 \<and>
   (\<forall>i. \<not> run_free (snd (snd (kmalloc 0x200000 one_block full_pool))) i 256)"
proof -
  have e: "kmalloc 0x200000 one_block full_pool = (fst (kmalloc 0x200000 one_block full_pool),
      fst (snd (kmalloc 0x200000 one_block full_pool)), snd (snd (kmalloc 0x200000 one_block full_pool)))"
    by simp
  show ?thesis
    by (rule kmalloc_drains_pool [OF e]) (simp_all add: one_block_def round16_def HDR_def magic_ok_def)
qed

end
