(* ===== verification/Paging.thy ===== *)
theory Paging
  imports Pmm
begin

unbundle bit_operations_syntax

text \<open>
  Virtual memory (src/kernel/paging.c): four-level page tables, one root per
  process, the kernel's top-level entries shared by all of them.

  Page-table memory is a function from the physical address of a table to its
  512 entries; frames come from the page allocator of \<open>Pmm\<close>.  The hardware
  side (reading and writing CR3 and EFER, \<open>invlpg\<close>) has no state here beyond
  the root \<open>saved_cr3\<close> captured at boot.
\<close>

section \<open>Tables and entries\<close>

type_synonym ptmem = "u64 \<Rightarrow> nat \<Rightarrow> u64"

record vm =
  ptes :: ptmem
  saved_cr3 :: u64
  frames :: pmm

definition PTE_ADDR :: u64 where "PTE_ADDR = 0x000FFFFFFFFFF000"
definition PTE_AVAIL_MMIO :: u64 where "PTE_AVAIL_MMIO = 0x800"
definition PTE_NX :: u64 where "PTE_NX = 0x8000000000000000"

abbreviation present :: "u64 \<Rightarrow> bool" where "present e \<equiv> e AND 1 \<noteq> 0"
abbreviation huge :: "u64 \<Rightarrow> bool" where "huge e \<equiv> e AND 0x80 \<noteq> 0"

definition pt_index :: "nat \<Rightarrow> u64 \<Rightarrow> nat" where
  "pt_index sh v = unat (drop_bit sh v AND 0x1FF)"

abbreviation idx_l4 :: "u64 \<Rightarrow> nat" where "idx_l4 \<equiv> pt_index 39"
abbreviation idx_l3 :: "u64 \<Rightarrow> nat" where "idx_l3 \<equiv> pt_index 30"
abbreviation idx_l2 :: "u64 \<Rightarrow> nat" where "idx_l2 \<equiv> pt_index 21"
abbreviation idx_l1 :: "u64 \<Rightarrow> nat" where "idx_l1 \<equiv> pt_index 12"

definition pt_write :: "u64 \<Rightarrow> nat \<Rightarrow> u64 \<Rightarrow> ptmem \<Rightarrow> ptmem" where
  "pt_write t i e pt = pt(t := (pt t)(i := e))"

lemma pt_write_apply:
  "pt_write t i e pt t' j = (if t' = t \<and> j = i then e else pt t' j)"
  by (simp add: pt_write_def)

lemma pt_write_same [simp]: "pt_write t i e pt t i = e"
  by (simp add: pt_write_def)

lemma pt_write_other: "\<not> (t' = t \<and> j = i) \<Longrightarrow> pt_write t i e pt t' j = pt t' j"
  by (auto simp: pt_write_def)

text \<open>The indices of the 512 entries of a table.\<close>

definition entries :: "nat list" where "entries = [0..<512]"

lemma set_entries [simp]: "set entries = {i. i < 512}"
  unfolding entries_def set_upt by auto

section \<open>Operations\<close>

definition vm_alloc1 :: "vm \<Rightarrow> u64 \<times> vm" where
  "vm_alloc1 s = (case pmm_alloc_addr 1 (frames s) of (a, p) \<Rightarrow> (a, s\<lparr>frames := p\<rparr>))"

definition paging_new_address_space :: "vm \<Rightarrow> u64 \<times> vm" where
  "paging_new_address_space s =
    (case vm_alloc1 s of (a, s') \<Rightarrow>
      if a = 0 then (0, s')
      else (a, s'\<lparr>ptes := (ptes s')(a := ptes s' (saved_cr3 s'))\<rparr>))"

definition paging_ensure_table :: "u64 \<Rightarrow> nat \<Rightarrow> bool \<Rightarrow> vm \<Rightarrow> u64 \<times> vm" where
  "paging_ensure_table t i user s =
    (let e = ptes s t i in
     if present e then (if huge e then (0, s) else (e AND PTE_ADDR, s))
     else case vm_alloc1 s of (a, s') \<Rightarrow>
       if a = 0 then (0, s')
       else (a, s'\<lparr>ptes := pt_write t i ((a AND PTE_ADDR) OR (0x3 OR (if user then 0x4 else 0)))
                            ((ptes s')(a := \<lambda>_. 0))\<rparr>))"

definition paging_map_user :: "u64 \<Rightarrow> u64 \<Rightarrow> u64 \<Rightarrow> u64 \<Rightarrow> vm \<Rightarrow> bool \<times> vm" where
  "paging_map_user pml4 virt phys flags s =
    (if pml4 = 0 \<or> virt AND 0xFFF \<noteq> 0 \<or> phys AND 0xFFF \<noteq> 0 then (False, s)
     else case paging_ensure_table pml4 (idx_l4 virt) True s of (l3, s) \<Rightarrow>
       if l3 = 0 then (False, s)
       else case paging_ensure_table l3 (idx_l3 virt) True s of (l2, s) \<Rightarrow>
         if l2 = 0 then (False, s)
         else case paging_ensure_table l2 (idx_l2 virt) True s of (l1, s) \<Rightarrow>
           if l1 = 0 then (False, s)
           else (True, s\<lparr>ptes := pt_write l1 (idx_l1 virt) ((phys AND PTE_ADDR) OR flags)
                                   (ptes s)\<rparr>))"

definition paging_unmap_user :: "u64 \<Rightarrow> u64 \<Rightarrow> vm \<Rightarrow> u64 \<times> vm" where
  "paging_unmap_user pml4 virt s =
    (if pml4 = 0 \<or> virt AND 0xFFF \<noteq> 0 then (0, s)
     else let e4 = ptes s pml4 (idx_l4 virt) in if \<not> present e4 then (0, s)
     else let e3 = ptes s (e4 AND PTE_ADDR) (idx_l3 virt) in if \<not> present e3 then (0, s)
     else let e2 = ptes s (e3 AND PTE_ADDR) (idx_l2 virt) in if \<not> present e2 then (0, s)
     else if huge e2 then (0, s)
     else let l1 = e2 AND PTE_ADDR; e1 = ptes s l1 (idx_l1 virt) in if \<not> present e1 then (0, s)
     else (e1 AND PTE_ADDR, s\<lparr>ptes := pt_write l1 (idx_l1 virt) 0 (ptes s)\<rparr>))"

text \<open>The result also carries the flag stored through \<open>is_mmio\<close>.\<close>

definition paging_phys_of_user :: "u64 \<Rightarrow> u64 \<Rightarrow> vm \<Rightarrow> (u64 \<times> bool) option" where
  "paging_phys_of_user pml4 virt s =
    (if pml4 = 0 \<or> 0x00007fffffffffff < virt then None
     else let e4 = ptes s pml4 (idx_l4 virt) in if \<not> present e4 then None
     else let e3 = ptes s (e4 AND PTE_ADDR) (idx_l3 virt) in if \<not> present e3 then None
     else let e2 = ptes s (e3 AND PTE_ADDR) (idx_l2 virt) in if \<not> present e2 then None
     else if huge e2 then None
     else let e1 = ptes s (e2 AND PTE_ADDR) (idx_l1 virt) in if \<not> present e1 then None
     else Some ((e1 AND PTE_ADDR) + (virt AND 0xFFF), e1 AND PTE_AVAIL_MMIO \<noteq> 0))"

fun paging_free_subtree :: "ptmem \<Rightarrow> nat \<Rightarrow> u64 \<Rightarrow> pmm \<Rightarrow> pmm" where
  "paging_free_subtree pt 0 table p = p"
| "paging_free_subtree pt (Suc l) table p =
    pmm_free table 1
      (fold (\<lambda>i p.
         let ent = pt table i in
         if \<not> present ent then p
         else if huge ent then p
         else if 0 < l then paging_free_subtree pt l (ent AND PTE_ADDR) p
         else if ent AND PTE_AVAIL_MMIO = 0 then pmm_free (ent AND PTE_ADDR) 1 p
         else p) entries p)"

definition paging_free_address_space :: "u64 \<Rightarrow> vm \<Rightarrow> vm" where
  "paging_free_address_space pml4 s =
    (if pml4 = 0 \<or> pml4 = saved_cr3 s then s
     else s\<lparr>frames := pmm_free pml4 1
       (fold (\<lambda>i p.
          let ent = ptes s pml4 i in
          if \<not> present ent then p
          else if ent = ptes s (saved_cr3 s) i then p
          else paging_free_subtree (ptes s) 3 (ent AND PTE_ADDR) p) entries (frames s))\<rparr>)"

text \<open>The intermediate tables of a device mapping: present and writable, for the
  kernel only.  The flag is False when a table could not be allocated.\<close>

definition device_table :: "u64 \<Rightarrow> nat \<Rightarrow> vm \<Rightarrow> bool \<times> vm" where
  "device_table t i s =
    (if present (ptes s t i) then (True, s)
     else case vm_alloc1 s of (a, s') \<Rightarrow>
       if a = 0 then (False, s')
       else (True, s'\<lparr>ptes := pt_write t i ((a AND PTE_ADDR) OR 0x3) ((ptes s')(a := \<lambda>_. 0))\<rparr>))"

definition pml4_map_device :: "u64 \<Rightarrow> u64 \<Rightarrow> vm \<Rightarrow> vm" where
  "pml4_map_device pml4 phys s =
    (case device_table pml4 (idx_l4 phys) s of (ok, s) \<Rightarrow>
      if \<not> ok then s
      else let l3 = ptes s pml4 (idx_l4 phys) AND PTE_ADDR in
        case device_table l3 (idx_l3 phys) s of (ok, s) \<Rightarrow>
          if \<not> ok then s
          else let l2 = ptes s l3 (idx_l3 phys) AND PTE_ADDR in
            s\<lparr>ptes := pt_write l2 (idx_l2 phys) ((phys AND PTE_ADDR) OR 0x3 OR 0x80) (ptes s)\<rparr>)"

text \<open>\<open>roots\<close> are the CR3 values of the processes present, in table order.\<close>

definition paging_map_device_identity :: "u64 \<Rightarrow> u64 \<Rightarrow> u64 list \<Rightarrow> vm \<Rightarrow> vm" where
  "paging_map_device_identity phys bytes roots s =
    (let start = phys AND NOT 0x1FFFFF;
         stop = (phys + bytes + 0x1FFFFF) AND NOT 0x1FFFFF
     in fold (\<lambda>n s.
          let a = push_bit 21 (of_nat n) in
          fold (\<lambda>r s. if r = 0 \<or> r = saved_cr3 s then s else pml4_map_device r a s) roots
            (pml4_map_device (saved_cr3 s) a s))
        [unat (drop_bit 21 start)..<unat (drop_bit 21 stop)] s)"

section \<open>The tree of user tables\<close>

text \<open>A path is the list of indices from the leaf side up to the top-level index;
  \<open>tbl_at\<close> follows it.  \<open>U\<close> is the set of top-level slots that belong to user
  space, that is, those not shared with the kernel.\<close>

fun tbl_at :: "ptmem \<Rightarrow> u64 \<Rightarrow> nat list \<Rightarrow> u64 option" where
  "tbl_at pt root [] = Some root"
| "tbl_at pt root (i # ps) =
    (case tbl_at pt root ps of
       None \<Rightarrow> None
     | Some t \<Rightarrow> if present (pt t i) then Some (pt t i AND PTE_ADDR) else None)"

definition upath :: "nat set \<Rightarrow> nat list \<Rightarrow> bool" where
  "upath U ps \<longleftrightarrow> length ps \<le> 3 \<and> (ps \<noteq> [] \<longrightarrow> last ps \<in> U)"

definition table_ok :: "pmm \<Rightarrow> u64 \<Rightarrow> bool" where
  "table_ok p t \<longleftrightarrow> t \<noteq> 0 \<and> t AND PTE_ADDR = t \<and> \<not> page_avail p (addr_page t)"

definition pt_inv :: "nat set \<Rightarrow> u64 \<Rightarrow> vm \<Rightarrow> bool" where
  "pt_inv U root s \<longleftrightarrow> pmm_ok (frames s) \<and>
    (\<forall>ps qs t. upath U ps \<and> upath U qs \<and>
       tbl_at (ptes s) root ps = Some t \<and> tbl_at (ptes s) root qs = Some t \<longrightarrow> ps = qs) \<and>
    (\<forall>ps t. upath U ps \<and> tbl_at (ptes s) root ps = Some t \<longrightarrow> table_ok (frames s) t) \<and>
    (\<forall>ps t i. upath U (i # ps) \<and> tbl_at (ptes s) root ps = Some t \<and> present (ptes s t i)
       \<longrightarrow> \<not> huge (ptes s t i))"

lemma upath_ConsD: "upath U (i # ps) \<Longrightarrow> upath U ps"
  by (auto simp: upath_def split: if_splits)

lemma pt_inv_inj:
  assumes "pt_inv U root s" "upath U ps" "upath U qs"
    "tbl_at (ptes s) root ps = Some t" "tbl_at (ptes s) root qs = Some t"
  shows "ps = qs"
  using assms unfolding pt_inv_def by blast

lemma pt_invI:
  assumes "pmm_ok (frames s)"
    and "\<And>ps qs t. upath U ps \<Longrightarrow> upath U qs \<Longrightarrow> tbl_at (ptes s) root ps = Some t \<Longrightarrow>
      tbl_at (ptes s) root qs = Some t \<Longrightarrow> ps = qs"
    and "\<And>ps t. upath U ps \<Longrightarrow> tbl_at (ptes s) root ps = Some t \<Longrightarrow> table_ok (frames s) t"
    and "\<And>ps t i. upath U (i # ps) \<Longrightarrow> tbl_at (ptes s) root ps = Some t \<Longrightarrow>
      present (ptes s t i) \<Longrightarrow> \<not> huge (ptes s t i)"
  shows "pt_inv U root s"
  using assms unfolding pt_inv_def by blast

lemma pt_inv_ok: "pt_inv U root s \<Longrightarrow> pmm_ok (frames s)"
  unfolding pt_inv_def by blast

lemma pt_inv_table:
  "pt_inv U root s \<Longrightarrow> upath U ps \<Longrightarrow> tbl_at (ptes s) root ps = Some t \<Longrightarrow> table_ok (frames s) t"
  unfolding pt_inv_def by blast

lemma pt_inv_small:
  "pt_inv U root s \<Longrightarrow> upath U (i # ps) \<Longrightarrow> tbl_at (ptes s) root ps = Some t \<Longrightarrow>
    present (ptes s t i) \<Longrightarrow> \<not> huge (ptes s t i)"
  unfolding pt_inv_def by blast

text \<open>A write to one entry changes only the paths that go through it.\<close>

lemma tbl_at_write:
  assumes inv: "pt_inv U root s" and p0: "upath U p0" "tbl_at (ptes s) root p0 = Some t0"
    and "upath U qs" "\<nexists>xs. qs = xs @ i0 # p0"
  shows "tbl_at (pt_write t0 i0 e (ptes s)) root qs = tbl_at (ptes s) root qs"
  using assms(4,5)
proof (induction qs)
  case (Cons i ps)
  have ps: "upath U ps" using Cons.prems(1) by (rule upath_ConsD)
  have IH: "tbl_at (pt_write t0 i0 e (ptes s)) root ps = tbl_at (ptes s) root ps"
    using Cons.IH [OF ps] Cons.prems(2) by (metis append_Cons)
  show ?case
  proof (cases "tbl_at (ptes s) root ps")
    case (Some t)
    have "\<not> (t = t0 \<and> i = i0)"
      using pt_inv_inj [OF inv ps p0(1)] Some p0(2) Cons.prems(2) by (metis append_Nil)
    then show ?thesis using IH Some by (simp add: pt_write_other)
  qed (use IH in simp)
qed simp

lemma tbl_at_new_table:
  assumes "\<And>ps t. upath U ps \<Longrightarrow> tbl_at pt root ps = Some t \<Longrightarrow> t \<noteq> a" "upath U qs"
  shows "tbl_at (pt(a := f)) root qs = tbl_at pt root qs"
  using assms(2)
proof (induction qs)
  case (Cons i ps)
  have ps: "upath U ps" using Cons.prems by (rule upath_ConsD)
  then show ?case using Cons.IH assms(1) by (auto split: option.splits)
qed simp

lemma pte_addr_mask: "PTE_ADDR = push_bit 12 (mask 40)"
  by (simp add: PTE_ADDR_def mask_eq_exp_minus_1)

lemma and_PTE_addr_0: "a AND PTE_ADDR = a \<Longrightarrow> PTE_ADDR AND m = 0 \<Longrightarrow> a AND m = 0"
  by (metis and.assoc and_zero_eq)

lemma page_addr_PTE:
  assumes "i < 2 ^ 40"
  shows "page_addr i AND PTE_ADDR = page_addr i"
proof -
  have "take_bit 40 (of_nat i :: u64) = of_nat i"
    using assms by (simp add: take_bit_of_nat take_bit_nat_eq_self)
  then have "of_nat i AND mask 40 = (of_nat i :: u64)" by (simp add: take_bit_eq_mask)
  then show ?thesis
    unfolding page_addr_def pte_addr_mask push_bit_and [symmetric] by (rule arg_cong)
qed

lemma PTE_consts:
  "PTE_ADDR AND 1 = 0" "PTE_ADDR AND 0x80 = 0" "PTE_ADDR AND 0x800 = 0" "PTE_ADDR AND 0xFFF = 0"
  "7 AND PTE_ADDR = 0" "3 AND PTE_ADDR = 0"
  by (simp_all add: PTE_ADDR_def)

lemma table_entry:
  assumes "a AND PTE_ADDR = a"
  shows "present ((a AND PTE_ADDR) OR 7)" "\<not> huge ((a AND PTE_ADDR) OR 7)"
    "((a AND PTE_ADDR) OR 7) AND PTE_ADDR = a"
proof -
  note z = and_PTE_addr_0 [OF assms]
  have "(a OR 7) AND 1 = (a AND 1) OR (7 AND 1)" "(a OR 7) AND 0x80 = (a AND 0x80) OR (7 AND 0x80)"
    by (rule bit.conj_disj_distrib2)+
  then show "present ((a AND PTE_ADDR) OR 7)" "\<not> huge ((a AND PTE_ADDR) OR 7)"
    using z [of 1] z [of "0x80"] PTE_consts assms by simp_all
  show "((a AND PTE_ADDR) OR 7) AND PTE_ADDR = a"
    using assms PTE_consts(5) by (simp add: bit.conj_disj_distrib2)
qed

lemma vm_alloc1_SomeD:
  assumes "vm_alloc1 s = (a, s')" "a \<noteq> 0" "pmm_ok (frames s)"
  obtains i where "pmm_alloc 1 (frames s) = (Some i, frames s')" "a = page_addr i"
    "i < PMM_PAGES" "page_avail (frames s) i" "s' = s\<lparr>frames := frames s'\<rparr>"
proof -
  from assms(1,2) obtain i p where al: "pmm_alloc 1 (frames s) = (Some i, p)"
      and a: "a = page_addr i" "s' = s\<lparr>frames := p\<rparr>"
    by (auto simp: vm_alloc1_def pmm_alloc_addr_def split: prod.splits option.splits)
  have "i < PMM_PAGES" using pmm_alloc_bound [OF assms(3) al] by simp
  moreover have "page_avail (frames s) i"
    using pmm_alloc_SomeD(2) [OF al] by (simp add: run_free_iff)
  ultimately show thesis using that al a by simp
qed

lemma vm_alloc1_mono:
  assumes "vm_alloc1 s = (a, s')" "pmm_ok (frames s)"
  shows "pmm_ok (frames s') \<and> (page_avail (frames s') j \<longrightarrow> page_avail (frames s) j) \<and>
    ptes s' = ptes s \<and> saved_cr3 s' = saved_cr3 s"
proof -
  obtain r p where al: "pmm_alloc 1 (frames s) = (r, p)" by (cases "pmm_alloc 1 (frames s)")
  then have "s' = s\<lparr>frames := p\<rparr>" "pmm_ok p"
    using assms pmm_ok_alloc by (auto simp: vm_alloc1_def pmm_alloc_addr_def split: option.splits)
  moreover have "page_avail p j \<longrightarrow> page_avail (frames s) j"
    using al pmm_alloc_avail pmm_alloc_NoneD(1) by (cases r) fastforce+
  ultimately show ?thesis by simp
qed

lemma table_ok_mono:
  "table_ok p t \<Longrightarrow> (\<And>j. page_avail q j \<Longrightarrow> page_avail p j) \<Longrightarrow> table_ok q t"
  unfolding table_ok_def by blast

lemma pt_inv_frames:
  assumes inv: "pt_inv U root s" and p: "pmm_ok p" "\<And>j. page_avail p j \<Longrightarrow> page_avail (frames s) j"
  shows "pt_inv U root (s\<lparr>frames := p\<rparr>)"
proof -
  have "table_ok p t" if "upath U ps" "tbl_at (ptes s) root ps = Some t" for ps t
    using pt_inv_table [OF inv that] p(2) by (rule table_ok_mono)
  then show ?thesis
    using p(1) pt_inv_inj [OF inv] pt_inv_small [OF inv] unfolding pt_inv_def by auto
qed

text \<open>Installing an empty table at an entry that was not present adds exactly the
  path of that table.\<close>

lemma tbl_at_install:
  assumes inv: "pt_inv U root s" and p0: "upath U (i0 # p0)" "tbl_at (ptes s) root p0 = Some t0"
    and np: "\<not> present (ptes s t0 i0)"
    and a: "a AND PTE_ADDR = a" "\<And>ps t. upath U ps \<Longrightarrow> tbl_at (ptes s) root ps = Some t \<Longrightarrow> t \<noteq> a"
    and qs: "upath U qs"
  defines "pt' \<equiv> pt_write t0 i0 ((a AND PTE_ADDR) OR 7) ((ptes s)(a := \<lambda>_. 0))"
  shows "tbl_at pt' root qs =
    (if qs = i0 # p0 then Some a else if \<exists>xs. qs = xs @ i0 # p0 then None
     else tbl_at (ptes s) root qs)"
proof -
  let ?pt1 = "(ptes s)(a := \<lambda>_. 0)"
  let ?s1 = "s\<lparr>ptes := ?pt1\<rparr>"
  have new: "tbl_at ?pt1 root ps = tbl_at (ptes s) root ps" if "upath U ps" for ps
    using a(2) that by (rule tbl_at_new_table)
  have ne: "t \<noteq> a" if "upath U ps" "tbl_at ?pt1 root ps = Some t" for ps t
    using that a(2) new by metis
  have inv1: "pt_inv U root ?s1"
  proof (rule pt_invI)
    show "pmm_ok (frames ?s1)" using pt_inv_ok [OF inv] by simp
    show "ps = qs" if "upath U ps" "upath U qs" "tbl_at (ptes ?s1) root ps = Some t"
      "tbl_at (ptes ?s1) root qs = Some t" for ps qs t
      using pt_inv_inj [OF inv that(1,2)] that new by simp
    show "table_ok (frames ?s1) t" if "upath U ps" "tbl_at (ptes ?s1) root ps = Some t" for ps t
      using pt_inv_table [OF inv that(1)] that new by simp
    show "\<not> huge (ptes ?s1 t i)" if "upath U (i # ps)" "tbl_at (ptes ?s1) root ps = Some t"
      "present (ptes ?s1 t i)" for ps t i
      using pt_inv_small [OF inv that(1)] that new [of ps] ne [of ps t] upath_ConsD [OF that(1)]
      by simp
  qed
  have u0: "upath U p0" using p0(1) by (rule upath_ConsD)
  have off: "tbl_at pt' root ps = tbl_at (ptes s) root ps"
    if "upath U ps" "\<nexists>xs. ps = xs @ i0 # p0" for ps
    using tbl_at_write [OF inv1 u0, of t0 ps i0] that new u0 p0(2) unfolding pt'_def by simp
  have at0: "tbl_at pt' root p0 = Some t0" using off [OF u0] p0(2) by simp
  have at1: "tbl_at pt' root (i0 # p0) = Some a"
    using at0 table_entry [OF a(1)] by (simp add: pt'_def)
  have t0: "t0 \<noteq> a" using a(2) u0 p0(2) by blast
  have zero: "pt' a j = 0" for j using t0 by (simp add: pt'_def pt_write_def)
  have tail: "tbl_at pt' root (xs @ i0 # p0) = None" if "xs \<noteq> []" for xs
    using that
  proof (induction xs)
    case (Cons x xs)
    then show ?case using at1 zero by (cases xs) auto
  qed simp
  show ?thesis
  proof (cases "\<exists>xs. qs = xs @ i0 # p0")
    case True
    then obtain xs where "qs = xs @ i0 # p0" by blast
    then show ?thesis using at1 tail [of xs] by (cases "xs = []") (auto simp del: tbl_at.simps)
  next
    case False
    then have "qs \<noteq> i0 # p0" by (metis append_Nil)
    then show ?thesis using off [OF qs False] False by simp
  qed
qed

text \<open>\<open>paging_ensure_table\<close> gives the table of the next level, keeps the tree,
  and touches no entry of a table that was there except the one it fills.\<close>

lemma ensure_table_spec:
  assumes inv: "pt_inv U root s" and p0: "upath U (i0 # p0)" "tbl_at (ptes s) root p0 = Some t0"
    and r: "paging_ensure_table t0 i0 True s = (t', s')" "t' \<noteq> 0"
  shows "pt_inv U root s'" "tbl_at (ptes s') root (i0 # p0) = Some t'"
    "upath U qs \<Longrightarrow> tbl_at (ptes s) root qs = Some t \<Longrightarrow> tbl_at (ptes s') root qs = Some t"
    "upath U qs \<Longrightarrow> tbl_at (ptes s) root qs = Some t \<Longrightarrow> qs \<noteq> p0 \<or> j \<noteq> i0 \<Longrightarrow>
       ptes s' t j = ptes s t j"
    "upath U qs \<Longrightarrow> tbl_at (ptes s) root qs = None \<Longrightarrow> tbl_at (ptes s') root qs = Some t \<Longrightarrow>
       ptes s' t j = 0"
    "saved_cr3 s' = saved_cr3 s"
proof -
  have "pt_inv U root s' \<and> tbl_at (ptes s') root (i0 # p0) = Some t' \<and>
    (\<forall>qs t. upath U qs \<longrightarrow> tbl_at (ptes s) root qs = Some t \<longrightarrow> tbl_at (ptes s') root qs = Some t) \<and>
    (\<forall>qs t j. upath U qs \<longrightarrow> tbl_at (ptes s) root qs = Some t \<longrightarrow> qs \<noteq> p0 \<or> j \<noteq> i0 \<longrightarrow>
       ptes s' t j = ptes s t j) \<and>
    (\<forall>qs t j. upath U qs \<longrightarrow> tbl_at (ptes s) root qs = None \<longrightarrow>
       tbl_at (ptes s') root qs = Some t \<longrightarrow> ptes s' t j = 0) \<and> saved_cr3 s' = saved_cr3 s"
    (is "?inv \<and> ?tbl \<and> ?keep \<and> ?entries \<and> ?new \<and> ?cr3")
  proof (cases "present (ptes s t0 i0)")
    case True
    then have "s' = s" "t' = ptes s t0 i0 AND PTE_ADDR"
      using r by (auto simp: paging_ensure_table_def Let_def split: if_splits)
    then show ?thesis using inv p0 True by simp
  next
    case np: False
    obtain a s1 where al: "vm_alloc1 s = (a, s1)" by (cases "vm_alloc1 s")
    have a0: "a \<noteq> 0" using r np al by (auto simp: paging_ensure_table_def Let_def split: if_splits)
    let ?pt' = "pt_write t0 i0 ((a AND PTE_ADDR) OR 7) ((ptes s1)(a := \<lambda>_. 0))"
    have s': "s' = s1\<lparr>ptes := ?pt'\<rparr>" "t' = a"
      using r np al a0 by (auto simp: paging_ensure_table_def Let_def)
    obtain i where i: "pmm_alloc 1 (frames s) = (Some i, frames s1)" "a = page_addr i"
        "i < PMM_PAGES" "page_avail (frames s) i" "s1 = s\<lparr>frames := frames s1\<rparr>"
      using vm_alloc1_SomeD [OF al a0 pt_inv_ok [OF inv]] by blast
    have i40: "i < 2 ^ 40" "i < 2 ^ 52" using i(3) by (simp_all add: PMM_PAGES_def)
    have aP: "a AND PTE_ADDR = a" using page_addr_PTE i(2) i40 by simp
    have pa: "addr_page a = i" using addr_page_addr i(2) i40 by simp
    have mono: "page_avail (frames s1) j \<Longrightarrow> page_avail (frames s) j" for j
      using vm_alloc1_mono [OF al pt_inv_ok [OF inv]] by blast
    have ok1: "pmm_ok (frames s1)" using vm_alloc1_mono [OF al pt_inv_ok [OF inv]] by blast
    have inv1: "pt_inv U root s1"
      using pt_inv_frames [OF inv ok1 mono] i(5) by metis
    have pt1: "ptes s1 = ptes s" using i(5) by (metis ext_inject select_convs(1) surjective update_convs(3))
    have fresh: "t \<noteq> a" if "upath U ps" "tbl_at (ptes s1) root ps = Some t" for ps t
      using pt_inv_table [OF inv that(1)] that(2) pt1 i(4) pa by (auto simp: table_ok_def)
    have na: "\<not> page_avail (frames s1) i" using pmm_alloc_avail [OF i(1), of i] by simp
    have tb: "tbl_at ?pt' root qs =
      (if qs = i0 # p0 then Some a else if \<exists>xs. qs = xs @ i0 # p0 then None
       else tbl_at (ptes s1) root qs)" if "upath U qs" for qs
      using tbl_at_install [OF inv1 p0(1) _ _ aP fresh that] p0(2) np pt1 by simp
    have none: "tbl_at (ptes s1) root (xs @ i0 # p0) = None" for xs
      using p0(2) np pt1 by (induction xs) auto
    have keep: "tbl_at ?pt' root qs = Some t" if "upath U qs" "tbl_at (ptes s1) root qs = Some t" for qs t
      using tb [OF that(1)] that(2) none by (metis append_Nil option.distinct(1))
    have cases: "t = a \<and> qs = i0 # p0 \<or> tbl_at (ptes s1) root qs = Some t \<and> t \<noteq> a"
      if "upath U qs" "tbl_at ?pt' root qs = Some t" for qs t
      using tb [OF that(1)] that fresh by (auto split: if_splits)
    have u0: "upath U p0" using p0(1) by (rule upath_ConsD)
    have ent: "?pt' t j = ptes s t j"
      if "upath U qs" "tbl_at (ptes s1) root qs = Some t" "qs \<noteq> p0 \<or> j \<noteq> i0" for qs t j
    proof -
      have "\<not> (t = t0 \<and> j = i0)" using pt_inv_inj [OF inv that(1) u0] that p0(2) pt1 by auto
      then show ?thesis using fresh [OF that(1,2)] pt1 by (simp add: pt_write_other)
    qed
    have zero: "?pt' a j = 0" for j
      using fresh [OF u0] p0(2) pt1 by (simp add: pt_write_other)
    have inv': "pt_inv U root (s1\<lparr>ptes := ?pt'\<rparr>)"
    proof (rule pt_invI)
      show "pmm_ok (frames (s1\<lparr>ptes := ?pt'\<rparr>))" using ok1 by simp
    next
      fix ps qs t
      assume "upath U ps" "upath U qs" "tbl_at (ptes (s1\<lparr>ptes := ?pt'\<rparr>)) root ps = Some t"
        "tbl_at (ptes (s1\<lparr>ptes := ?pt'\<rparr>)) root qs = Some t"
      then show "ps = qs" using cases [of ps t] cases [of qs t] pt_inv_inj [OF inv1, of ps qs t] by auto
    next
      fix ps t
      assume "upath U ps" "tbl_at (ptes (s1\<lparr>ptes := ?pt'\<rparr>)) root ps = Some t"
      then show "table_ok (frames (s1\<lparr>ptes := ?pt'\<rparr>)) t"
        using cases [of ps t] pt_inv_table [OF inv1, of ps t] a0 aP na pa
        by (auto simp: table_ok_def)
    next
      fix ps t i
      assume u: "upath U (i # ps)" and t: "tbl_at (ptes (s1\<lparr>ptes := ?pt'\<rparr>)) root ps = Some t"
        and p: "present (ptes (s1\<lparr>ptes := ?pt'\<rparr>) t i)"
      have "tbl_at (ptes s1) root ps = Some t"
        using cases [OF upath_ConsD [OF u]] t p zero by auto
      then show "\<not> huge (ptes (s1\<lparr>ptes := ?pt'\<rparr>) t i)"
        using ent [OF upath_ConsD [OF u], of t i] pt_inv_small [OF inv u, of t] p pt1
          table_entry(2) [OF aP] p0(2)
        by (cases "ps = p0 \<and> i = i0") auto
    qed
    have tbl': "tbl_at ?pt' root (i0 # p0) = Some a" using tb [OF p0(1)] by simp
    have cr: "saved_cr3 s1 = saved_cr3 s" using vm_alloc1_mono [OF al pt_inv_ok [OF inv]] by blast
    have zero': "?pt' t j = 0" if "upath U qs" "tbl_at (ptes s) root qs = None"
      "tbl_at ?pt' root qs = Some t" for qs t j
      using cases [OF that(1,3)] that(2) zero pt1 by auto
    have e: "ptes (s1\<lparr>ptes := ?pt'\<rparr>) = ?pt'" "saved_cr3 (s1\<lparr>ptes := ?pt'\<rparr>) = saved_cr3 s"
      using cr by simp_all
    show ?thesis unfolding s' unfolding e unfolding pt1
      apply (intro conjI allI impI inv' [unfolded pt1] tbl' [unfolded pt1] keep [unfolded pt1] refl)
      using ent [unfolded pt1] zero' [unfolded pt1] by blast+
  qed
  then show "pt_inv U root s'" "tbl_at (ptes s') root (i0 # p0) = Some t'"
    "upath U qs \<Longrightarrow> tbl_at (ptes s) root qs = Some t \<Longrightarrow> tbl_at (ptes s') root qs = Some t"
    "upath U qs \<Longrightarrow> tbl_at (ptes s) root qs = Some t \<Longrightarrow> qs \<noteq> p0 \<or> j \<noteq> i0 \<Longrightarrow>
       ptes s' t j = ptes s t j"
    "upath U qs \<Longrightarrow> tbl_at (ptes s) root qs = None \<Longrightarrow> tbl_at (ptes s') root qs = Some t \<Longrightarrow>
       ptes s' t j = 0"
    "saved_cr3 s' = saved_cr3 s"
    by blast+
qed

section \<open>Mapping and translating\<close>

definition leaf_path :: "u64 \<Rightarrow> nat list" where
  "leaf_path v = [idx_l2 v, idx_l3 v, idx_l4 v]"

definition leaf_entry :: "vm \<Rightarrow> u64 \<Rightarrow> u64 \<Rightarrow> u64 option" where
  "leaf_entry s root v =
    (case tbl_at (ptes s) root (leaf_path v) of
       None \<Rightarrow> None
     | Some l1 \<Rightarrow> let e = ptes s l1 (idx_l1 v) in if present e then Some e else None)"

lemma upath_leaf: "idx_l4 v \<in> U \<Longrightarrow> upath U (leaf_path v)"
  "idx_l4 v \<in> U \<Longrightarrow> upath U [idx_l3 v, idx_l4 v]" "idx_l4 v \<in> U \<Longrightarrow> upath U [idx_l4 v]" "upath U []"
  by (simp_all add: upath_def leaf_path_def)

lemma phys_of_user_leaf:
  assumes inv: "pt_inv U root s" and u: "idx_l4 v \<in> U" and v: "v \<le> 0x00007fffffffffff"
  shows "paging_phys_of_user root v s =
    map_option (\<lambda>e. ((e AND PTE_ADDR) + (v AND 0xFFF), e AND PTE_AVAIL_MMIO \<noteq> 0))
      (leaf_entry s root v)"
proof -
  have r: "root \<noteq> 0" using pt_inv_table [OF inv upath_leaf(4)] by (simp add: table_ok_def)
  have small: "\<not> huge (ptes s t (idx_l2 v))"
    if "tbl_at (ptes s) root [idx_l3 v, idx_l4 v] = Some t" "present (ptes s t (idx_l2 v))" for t
    using pt_inv_small [OF inv, of "idx_l2 v" "[idx_l3 v, idx_l4 v]"] that upath_leaf(1) [OF u]
    unfolding leaf_path_def by blast
  show ?thesis
    using r v small
    by (auto simp: paging_phys_of_user_def leaf_entry_def leaf_path_def Let_def
        split: option.splits if_splits)
qed

lemma tbl_at_leaf_write:
  assumes "pt_inv U root s" "upath U p0" "length p0 = 3" "tbl_at (ptes s) root p0 = Some t0"
    "upath U qs"
  shows "tbl_at (pt_write t0 i0 e (ptes s)) root qs = tbl_at (ptes s) root qs"
  using assms by (intro tbl_at_write) (auto simp: upath_def)

lemma pt_inv_leaf_write:
  assumes inv: "pt_inv U root s" and p0: "upath U p0" "length p0 = 3"
    "tbl_at (ptes s) root p0 = Some t0"
  shows "pt_inv U root (s\<lparr>ptes := pt_write t0 i0 e (ptes s)\<rparr>)"
proof (rule pt_invI)
  note same = tbl_at_leaf_write [OF inv p0]
  let ?s' = "s\<lparr>ptes := pt_write t0 i0 e (ptes s)\<rparr>"
  show "pmm_ok (frames ?s')" using pt_inv_ok [OF inv] by simp
  show "ps = qs" if "upath U ps" "upath U qs" "tbl_at (ptes ?s') root ps = Some t"
    "tbl_at (ptes ?s') root qs = Some t" for ps qs t
    using pt_inv_inj [OF inv that(1,2)] that same by simp
  show "table_ok (frames ?s') t" if "upath U ps" "tbl_at (ptes ?s') root ps = Some t" for ps t
    using pt_inv_table [OF inv that(1)] that same by simp
  show "\<not> huge (ptes ?s' t i)" if u: "upath U (i # ps)" and t: "tbl_at (ptes ?s') root ps = Some t"
    and p: "present (ptes ?s' t i)" for ps t i
  proof -
    have t': "tbl_at (ptes s) root ps = Some t" using t same [OF upath_ConsD [OF u]] by simp
    have "ps \<noteq> p0" using u p0(2) by (auto simp: upath_def)
    then have "t \<noteq> t0" using pt_inv_inj [OF inv upath_ConsD [OF u] p0(1)] t' p0(3) by auto
    then show ?thesis using pt_inv_small [OF inv u t'] p by (simp add: pt_write_other)
  qed
qed

text \<open>The three table walks of \<open>paging_map_user\<close> end in the leaf table of the
  address, in a tree that kept every entry of the leaf tables there were.\<close>

text \<open>Making a table reachable, or failing to, moves no leaf entry.\<close>

lemma ensure_table_leaf:
  assumes inv: "pt_inv U root s" and p0: "upath U (i0 # p0)" "length p0 < 3"
      "tbl_at (ptes s) root p0 = Some t0"
    and r: "paging_ensure_table t0 i0 True s = (t', s')" "t' \<noteq> 0" and w: "idx_l4 w \<in> U"
  shows "leaf_entry s' root w = leaf_entry s root w"
proof -
  note E = ensure_table_spec [OF inv p0(1,3) r]
  have ne: "leaf_path w \<noteq> p0" using p0(2) by (auto simp: leaf_path_def)
  show ?thesis
  proof (cases "tbl_at (ptes s) root (leaf_path w)")
    case None
    then show ?thesis
      using E(5) [OF upath_leaf(1) [OF w] None]
      by (cases "tbl_at (ptes s') root (leaf_path w)") (simp_all add: leaf_entry_def)
  next
    case (Some t)
    have "ptes s' t (idx_l1 w) = ptes s t (idx_l1 w)"
      using E(4) [OF upath_leaf(1) [OF w] Some] ne by simp
    then show ?thesis
      using E(3) [OF upath_leaf(1) [OF w] Some] Some by (simp add: leaf_entry_def)
  qed
qed

lemma leaf_entry_cong: "ptes s' = ptes s \<Longrightarrow> leaf_entry s' root w = leaf_entry s root w"
  by (simp only: leaf_entry_def)

lemma ensure_table_fails:
  assumes inv: "pt_inv U root s" and r: "paging_ensure_table t0 i0 True s = (0, s')"
  shows "pt_inv U root s'" "leaf_entry s' root w = leaf_entry s root w"
proof -
  obtain a s1 where a: "vm_alloc1 s = (a, s1)" by (cases "vm_alloc1 s")
  note M = vm_alloc1_mono [OF a pt_inv_ok [OF inv]]
  have "s' = s \<or> s' = s1" using r by (auto simp: paging_ensure_table_def a Let_def split: if_splits)
  moreover have "pt_inv U root s1"
  proof -
    have "s1 = s\<lparr>frames := frames s1\<rparr>" using a by (auto simp: vm_alloc1_def split: prod.splits)
    moreover have "pt_inv U root (s\<lparr>frames := frames s1\<rparr>)" by (rule pt_inv_frames [OF inv]) (use M in auto)
    ultimately show ?thesis by (rule ssubst)
  qed
  ultimately show "pt_inv U root s'" "leaf_entry s' root w = leaf_entry s root w"
    using inv M by (auto intro: leaf_entry_cong)
qed

lemma map_user_walk:
  assumes inv: "pt_inv U root s" and u: "idx_l4 v \<in> U"
    and e3: "paging_ensure_table root (idx_l4 v) True s = (l3, s1)" "l3 \<noteq> 0"
    and e2: "paging_ensure_table l3 (idx_l3 v) True s1 = (l2, s2)" "l2 \<noteq> 0"
    and e1: "paging_ensure_table l2 (idx_l2 v) True s2 = (l1, s3)" "l1 \<noteq> 0"
  shows "pt_inv U root s3" "tbl_at (ptes s3) root (leaf_path v) = Some l1"
    "idx_l4 w \<in> U \<Longrightarrow> leaf_entry s3 root w = leaf_entry s root w"
proof -
  note uv = upath_leaf(1,2,3) [OF u, unfolded leaf_path_def]
  have t0: "tbl_at (ptes s) root [] = Some root" by simp
  note A = ensure_table_spec [OF inv uv(3) t0 e3]
  note B = ensure_table_spec [OF A(1) uv(2) A(2) e2]
  note C = ensure_table_spec [OF B(1) uv(1) B(2) e1]
  show "pt_inv U root s3" by (rule C(1))
  show "tbl_at (ptes s3) root (leaf_path v) = Some l1" using C(2) by (simp only: leaf_path_def)
  show "leaf_entry s3 root w = leaf_entry s root w" if w: "idx_l4 w \<in> U"
    using ensure_table_leaf [OF inv uv(3) _ t0 e3 w] ensure_table_leaf [OF A(1) uv(2) _ A(2) e2 w]
      ensure_table_leaf [OF B(1) uv(1) _ B(2) e1 w] by simp
qed

lemma map_user_spec:
  assumes inv: "pt_inv U root s" and u: "idx_l4 v \<in> U"
    and m: "paging_map_user root v phys flags s = (True, s')"
  defines "e \<equiv> (phys AND PTE_ADDR) OR flags"
  shows "pt_inv U root s'"
    "leaf_entry s' root v = (if present e then Some e else None)"
    "idx_l4 w \<in> U \<Longrightarrow> (leaf_path w, idx_l1 w) \<noteq> (leaf_path v, idx_l1 v) \<Longrightarrow>
       leaf_entry s' root w = leaf_entry s root w"
proof -
  from m obtain l3 s1 l2 s2 l1 s3 where
    e3: "paging_ensure_table root (idx_l4 v) True s = (l3, s1)" "l3 \<noteq> 0"
    and e2: "paging_ensure_table l3 (idx_l3 v) True s1 = (l2, s2)" "l2 \<noteq> 0"
    and e1: "paging_ensure_table l2 (idx_l2 v) True s2 = (l1, s3)" "l1 \<noteq> 0"
    and s': "s' = s3\<lparr>ptes := pt_write l1 (idx_l1 v) e (ptes s3)\<rparr>"
    by (auto simp: paging_map_user_def e_def split: prod.splits if_splits)
  note W = map_user_walk [OF inv u e3 e2 e1]
  have l: "length (leaf_path v) = 3" by (simp add: leaf_path_def)
  show "pt_inv U root s'"
    unfolding s' by (rule pt_inv_leaf_write [OF W(1) upath_leaf(1) [OF u] l W(2)])
  have tb: "tbl_at (ptes s') root (leaf_path w) = tbl_at (ptes s3) root (leaf_path w)"
    if "idx_l4 w \<in> U" for w
    using tbl_at_leaf_write [OF W(1) upath_leaf(1) [OF u] l W(2) upath_leaf(1) [OF that]]
    by (simp add: s')
  show "leaf_entry s' root v = (if present e then Some e else None)"
    using tb [OF u] W(2) by (simp add: leaf_entry_def s')
  assume w: "idx_l4 w \<in> U" and ne: "(leaf_path w, idx_l1 w) \<noteq> (leaf_path v, idx_l1 v)"
  have "\<not> (t = l1 \<and> idx_l1 w = idx_l1 v)" if "tbl_at (ptes s3) root (leaf_path w) = Some t" for t
    using pt_inv_inj [OF W(1) upath_leaf(1) [OF w] upath_leaf(1) [OF u]] that W(2) ne by auto
  then have "leaf_entry s' root w = leaf_entry s3 root w"
    using tb [OF w]
    by (cases "tbl_at (ptes s3) root (leaf_path w)")
      (simp_all add: leaf_entry_def s' pt_write_other)
  then show "leaf_entry s' root w = leaf_entry s root w" using W(3) [OF w] by simp
qed

text \<open>A mapping that fails half way leaves the tables it made and no new leaf.\<close>

lemma map_user_fails:
  assumes inv: "pt_inv U root s" and u: "idx_l4 v \<in> U" and w: "idx_l4 w \<in> U"
    and m: "paging_map_user root v phys flags s = (False, s')"
  shows "pt_inv U root s' \<and> leaf_entry s' root w = leaf_entry s root w"
proof -
  note uv = upath_leaf(1,2,3) [OF u, unfolded leaf_path_def]
  have t0: "tbl_at (ptes s) root [] = Some root" by simp
  obtain l3 s1 where e3: "paging_ensure_table root (idx_l4 v) True s = (l3, s1)" by fastforce
  obtain l2 s2 where e2: "paging_ensure_table l3 (idx_l3 v) True s1 = (l2, s2)" by fastforce
  obtain l1 s3 where e1: "paging_ensure_table l2 (idx_l2 v) True s2 = (l1, s3)" by fastforce
  consider "s' = s" | "l3 = 0" "s' = s1" | "l3 \<noteq> 0" "l2 = 0" "s' = s2" | "l3 \<noteq> 0" "l2 \<noteq> 0" "l1 = 0" "s' = s3"
    using m by (auto simp: paging_map_user_def e3 e2 e1 split: if_splits)
  then show ?thesis
  proof cases
    case 1
    then show ?thesis using inv by simp
  next
    case 2
    then show ?thesis using ensure_table_fails [OF inv] e3 by blast
  next
    case 3
    note A = ensure_table_spec [OF inv uv(3) t0 e3 3(1)]
    show ?thesis
      using ensure_table_fails [OF A(1)] e2 3 ensure_table_leaf [OF inv uv(3) _ t0 e3 3(1) w] by simp
  next
    case 4
    note A = ensure_table_spec [OF inv uv(3) t0 e3 4(1)]
    note B = ensure_table_spec [OF A(1) uv(2) A(2) e2 4(2)]
    show ?thesis
      using ensure_table_fails [OF B(1)] e1 4 ensure_table_leaf [OF inv uv(3) _ t0 e3 4(1) w]
        ensure_table_leaf [OF A(1) uv(2) _ A(2) e2 4(2) w] by simp
  qed
qed

text \<open>Either way, a leaf entry afterwards is an old one or the new one.\<close>

lemma map_user_leaves:
  assumes inv: "pt_inv U root s" and u: "idx_l4 v \<in> U" and w: "idx_l4 w \<in> U"
    and m: "paging_map_user root v phys flags s = (r, s')"
  shows "pt_inv U root s'"
    "leaf_entry s' root w = leaf_entry s root w \<or> leaf_entry s' root w \<in> {None, Some ((phys AND PTE_ADDR) OR flags)}"
proof -
  have "pt_inv U root s' \<and> (leaf_entry s' root w = leaf_entry s root w \<or>
      leaf_entry s' root w \<in> {None, Some ((phys AND PTE_ADDR) OR flags)})"
  proof (cases r)
    case False
    then show ?thesis using map_user_fails [OF inv u w, of phys flags s'] m by simp
  next
    case True
    then have t: "paging_map_user root v phys flags s = (True, s')" using m by simp
    note M = map_user_spec [OF inv u t]
    show ?thesis
    proof (cases "(leaf_path w, idx_l1 w) = (leaf_path v, idx_l1 v)")
      case True
      then have "leaf_entry s' root w = leaf_entry s' root v" by (simp only: leaf_entry_def prod.inject)
      then show ?thesis using M(1,2) by auto
    next
      case False
      then show ?thesis using M(1) M(3) [OF w] by blast
    qed
  qed
  then show "pt_inv U root s'"
    "leaf_entry s' root w = leaf_entry s root w \<or> leaf_entry s' root w \<in> {None, Some ((phys AND PTE_ADDR) OR flags)}"
    by blast+
qed

lemma pt_index_bits:
  assumes "pt_index sh v = pt_index sh w" "k < 9"
  shows "bit v (sh + k) = bit w (sh + k)"
proof -
  have m: "(0x1FF :: u64) = mask 9" by (simp add: mask_eq_exp_minus_1)
  have "drop_bit sh v AND mask 9 = drop_bit sh w AND mask 9"
    using assms(1) unfolding pt_index_def m by (simp add: word_unat_eq_iff)
  then have "bit (drop_bit sh v AND mask 9) k = bit (drop_bit sh w AND mask 9) k" by simp
  then show ?thesis
    using assms(2) by (simp add: bit_and_iff bit_mask_iff bit_drop_bit_eq)
qed

lemma user_high_bits:
  assumes "v \<le> 0x00007fffffffffff" "47 \<le> n"
  shows "\<not> bit (v :: u64) n"
proof -
  have "unat v < 2 ^ 47" using assms(1) by (simp add: word_le_nat_alt)
  also have "(2 :: nat) ^ 47 \<le> 2 ^ n" using assms(2) by (rule power_increasing) simp
  finally have "unat v < 2 ^ n" .
  then have "take_bit n (unat v) = unat v" by (rule take_bit_nat_eq_self)
  then have "\<not> bit (unat v) n" by (metis bit_take_bit_iff less_irrefl)
  then show ?thesis by (simp add: bit_unsigned_iff)
qed

text \<open>Two user addresses with the same four indices lie in the same page.\<close>

lemma same_indices:
  assumes "v \<le> 0x00007fffffffffff" "w \<le> 0x00007fffffffffff"
    "leaf_path v = leaf_path w" "idx_l1 v = idx_l1 w"
  shows "drop_bit 12 v = drop_bit 12 w"
proof (rule bit_word_eqI)
  fix n
  assume "n < LENGTH(64)"
  have i: "pt_index sh v = pt_index sh w" if "sh \<in> {12, 21, 30, 39}" for sh
    using that assms(3,4) by (auto simp: leaf_path_def)
  have b: "bit v (sh + k) = bit w (sh + k)" if "sh \<in> {12, 21, 30, 39}" "k < 9" for sh k
    using pt_index_bits [OF i [OF that(1)] that(2)] .
  show "bit (drop_bit 12 v) n = bit (drop_bit 12 w) n"
  proof (cases "n < 36")
    case False
    then show ?thesis using user_high_bits [of v "12 + n"] user_high_bits [of w "12 + n"] assms(1,2)
      by (simp add: bit_drop_bit_eq)
  next
    case True
    then have "n div 9 < 4" by (simp add: less_mult_imp_div_less)
    then have "n div 9 = 0 \<or> n div 9 = 1 \<or> n div 9 = 2 \<or> n div 9 = 3" by linarith
    then have "12 + n div 9 * 9 \<in> {12, 21, 30, 39}" by auto
    then have "bit v (12 + n div 9 * 9 + n mod 9) = bit w (12 + n div 9 * 9 + n mod 9)"
      by (rule b) simp
    moreover have "12 + n div 9 * 9 + n mod 9 = 12 + n" by simp
    ultimately show ?thesis by (simp only: bit_drop_bit_eq o_apply)
  qed
qed

text \<open>The entry \<open>paging_map_user\<close> writes, as the processor reads it.\<close>

lemma pte_fields:
  assumes "phys AND PTE_ADDR = phys" "flags AND PTE_ADDR = 0" "PTE_ADDR AND m = 0"
  shows "((phys AND PTE_ADDR) OR flags) AND PTE_ADDR = phys"
    "((phys AND PTE_ADDR) OR flags) AND m = flags AND m"
  using assms and_PTE_addr_0 [OF assms(1,3)] by (simp_all add: bit.conj_disj_distrib2)

lemma map_user_translate:
  assumes inv: "pt_inv U root s" and u: "idx_l4 v \<in> U" "v \<le> 0x00007fffffffffff"
    and ph: "phys AND PTE_ADDR = phys" and fl: "flags AND PTE_ADDR = 0" "flags AND 1 \<noteq> 0"
    and m: "paging_map_user root v phys flags s = (True, s')"
  shows "paging_phys_of_user root v s' = Some (phys, flags AND PTE_AVAIL_MMIO \<noteq> 0)"
    "w \<le> 0x00007fffffffffff \<Longrightarrow> idx_l4 w \<in> U \<Longrightarrow> drop_bit 12 w \<noteq> drop_bit 12 v \<Longrightarrow>
       paging_phys_of_user root w s' = paging_phys_of_user root w s"
proof -
  note M = map_user_spec [OF inv u(1) m]
  note f = pte_fields [OF ph fl(1)]
  have P: "PTE_ADDR AND PTE_AVAIL_MMIO = 0" by (simp add: PTE_ADDR_def PTE_AVAIL_MMIO_def)
  have al: "v AND 0xFFF = 0" using m by (auto simp: paging_map_user_def split: if_splits)
  have "present ((phys AND PTE_ADDR) OR flags)"
    using f(2) [OF PTE_consts(1)] fl(2) by simp
  then have "leaf_entry s' root v = Some ((phys AND PTE_ADDR) OR flags)" using M(2) by simp
  then show "paging_phys_of_user root v s' = Some (phys, flags AND PTE_AVAIL_MMIO \<noteq> 0)"
    using phys_of_user_leaf [OF M(1) u] f(1) [OF PTE_consts(1)] f(2) [OF P] al by simp
  assume w: "w \<le> 0x00007fffffffffff" "idx_l4 w \<in> U" "drop_bit 12 w \<noteq> drop_bit 12 v"
  then have "(leaf_path w, idx_l1 w) \<noteq> (leaf_path v, idx_l1 v)"
    using same_indices [OF w(1) u(2)] by auto
  then show "paging_phys_of_user root w s' = paging_phys_of_user root w s"
    using phys_of_user_leaf [OF M(1) w(2,1)] phys_of_user_leaf [OF inv w(2,1)] M(3) [OF w(2)]
    by simp
qed

section \<open>Unmapping\<close>

lemma unmap_user_spec:
  assumes inv: "pt_inv U root s" and u: "idx_l4 v \<in> U" "v \<le> 0x00007fffffffffff"
    and m: "paging_unmap_user root v s = (f, s')" and al: "v AND 0xFFF = 0"
  shows "pt_inv U root s'"
    "f = (case leaf_entry s root v of None \<Rightarrow> 0 | Some e \<Rightarrow> e AND PTE_ADDR)"
    "leaf_entry s' root v = None" "frames s' = frames s"
proof -
  note uv = upath_leaf(1) [OF u(1)]
  have r: "root \<noteq> 0" using pt_inv_table [OF inv upath_leaf(4)] by (simp add: table_ok_def)
  have small: "\<not> huge (ptes s t (idx_l2 v))"
    if "tbl_at (ptes s) root [idx_l3 v, idx_l4 v] = Some t" "present (ptes s t (idx_l2 v))" for t
    using pt_inv_small [OF inv, of "idx_l2 v" "[idx_l3 v, idx_l4 v]"] that uv
    unfolding leaf_path_def by blast
  show "frames s' = frames s"
    using m by (auto simp: paging_unmap_user_def Let_def split: if_splits)
  show f: "f = (case leaf_entry s root v of None \<Rightarrow> 0 | Some e \<Rightarrow> e AND PTE_ADDR)"
    using m r al small
    by (auto simp: paging_unmap_user_def leaf_entry_def leaf_path_def Let_def
        split: option.splits if_splits)
  have s': "s' = (case tbl_at (ptes s) root (leaf_path v) of
      None \<Rightarrow> s
    | Some l1 \<Rightarrow> if present (ptes s l1 (idx_l1 v))
        then s\<lparr>ptes := pt_write l1 (idx_l1 v) 0 (ptes s)\<rparr> else s)"
    using m r al small
    by (auto simp: paging_unmap_user_def leaf_path_def Let_def split: option.splits if_splits)
  show "pt_inv U root s'"
    using s' inv pt_inv_leaf_write [OF inv uv]
    by (auto simp: leaf_path_def split: option.splits if_splits)
  show "leaf_entry s' root v = None"
  proof (cases "tbl_at (ptes s) root (leaf_path v)")
    case (Some l1)
    then have "tbl_at (pt_write l1 (idx_l1 v) 0 (ptes s)) root (leaf_path v) = Some l1"
      using tbl_at_leaf_write [OF inv uv _ Some uv] by (simp add: leaf_path_def)
    then show ?thesis using s' Some by (simp add: leaf_entry_def)
  qed (use s' in \<open>simp add: leaf_entry_def\<close>)
qed

section \<open>Teardown frees what the process created\<close>

fun subtree_pages :: "ptmem \<Rightarrow> nat \<Rightarrow> u64 \<Rightarrow> nat set" where
  "subtree_pages pt 0 t = {}"
| "subtree_pages pt (Suc l) t = insert (addr_page t)
    (\<Union>i\<in>{i. i < 512 \<and> present (pt t i) \<and> \<not> huge (pt t i)}.
       if 0 < l then subtree_pages pt l (pt t i AND PTE_ADDR)
       else if pt t i AND PTE_AVAIL_MMIO = 0 then {addr_page (pt t i AND PTE_ADDR)} else {})"

lemma pmm_free1_avail:
  assumes "pmm_ok p" "page_avail (pmm_free a 1 p) j"
  shows "page_avail p j \<or> j = addr_page a"
proof (cases "a = 0")
  case False
  then show ?thesis using pmm_free_avail [OF assms(1) False, of 1 j] assms(2) by auto
qed (use assms in \<open>simp add: pmm_free_def\<close>)

lemma fold_frees:
  assumes "\<And>i p. i \<in> set xs \<Longrightarrow> pmm_ok p \<Longrightarrow>
      pmm_ok (f i p) \<and> (\<forall>j. page_avail (f i p) j \<longrightarrow> page_avail p j \<or> j \<in> A i)"
    "pmm_ok p"
  shows "pmm_ok (fold f xs p) \<and>
    (\<forall>j. page_avail (fold f xs p) j \<longrightarrow> page_avail p j \<or> (\<exists>i\<in>set xs. j \<in> A i))"
  using assms
proof (induction xs arbitrary: p)
  case (Cons x xs)
  have "pmm_ok (f x p) \<and> (\<forall>j. page_avail (f x p) j \<longrightarrow> page_avail p j \<or> j \<in> A x)"
    using Cons.prems by simp
  moreover have "pmm_ok (fold f xs (f x p)) \<and> (\<forall>j. page_avail (fold f xs (f x p)) j \<longrightarrow>
      page_avail (f x p) j \<or> (\<exists>i\<in>set xs. j \<in> A i))"
    using Cons.prems calculation by (intro Cons.IH) auto
  ultimately show ?case by auto
qed simp

lemma free_subtree_avail:
  "pmm_ok p \<Longrightarrow> pmm_ok (paging_free_subtree pt l t p) \<and>
    (\<forall>j. page_avail (paging_free_subtree pt l t p) j \<longrightarrow> page_avail p j \<or> j \<in> subtree_pages pt l t)"
proof (induction l arbitrary: t p)
  case (Suc l)
  let ?f = "\<lambda>i p. let ent = pt t i in
         if \<not> present ent then p
         else if huge ent then p
         else if 0 < l then paging_free_subtree pt l (ent AND PTE_ADDR) p
         else if ent AND PTE_AVAIL_MMIO = 0 then pmm_free (ent AND PTE_ADDR) 1 p
         else p"
  let ?A = "\<lambda>i. if present (pt t i) \<and> \<not> huge (pt t i) then
       (if 0 < l then subtree_pages pt l (pt t i AND PTE_ADDR)
       else if pt t i AND PTE_AVAIL_MMIO = 0 then {addr_page (pt t i AND PTE_ADDR)} else {})
      else {}"
  have step: "pmm_ok (?f i p) \<and> (\<forall>j. page_avail (?f i p) j \<longrightarrow> page_avail p j \<or> j \<in> ?A i)"
    if "pmm_ok p" for i p
    using that Suc.IH [OF that] pmm_free1_avail [OF that] pmm_ok_free [OF that]
    by (auto simp: Let_def)
  have F: "pmm_ok (fold ?f entries p) \<and> (\<forall>j. page_avail (fold ?f entries p) j \<longrightarrow>
      page_avail p j \<or> (\<exists>i\<in>set entries. j \<in> ?A i))"
    by (rule fold_frees) (use step Suc.prems in \<open>blast+\<close>)
  let ?X = "fold ?f entries p"
  have e: "paging_free_subtree pt (Suc l) t p = pmm_free t 1 ?X"
    by (simp only: paging_free_subtree.simps)
  have A: "?A i \<subseteq> subtree_pages pt (Suc l) t" if "i \<in> set entries" for i
    using that by auto
  have X: "pmm_ok ?X" using F by blast
  have "page_avail p j \<or> j \<in> subtree_pages pt (Suc l) t" if "page_avail (pmm_free t 1 ?X) j" for j
    using pmm_free1_avail [OF X that]
  proof
    assume "page_avail ?X j"
    then show ?thesis using F A by blast
  qed simp
  then show ?case unfolding e using pmm_ok_free [OF X] by blast
qed simp

text \<open>Nothing else becomes free: the pages the teardown gives back are the root,
  and the tables and frames under the root's entries that differ from the
  kernel's.  An entry shared with the kernel is never followed.\<close>

lemma free_address_space_avail:
  assumes "pmm_ok (frames s)" "page_avail (frames (paging_free_address_space pml4 s)) j"
  shows "page_avail (frames s) j \<or> j = addr_page pml4 \<or>
    (\<exists>i<512. present (ptes s pml4 i) \<and> ptes s pml4 i \<noteq> ptes s (saved_cr3 s) i \<and>
       j \<in> subtree_pages (ptes s) 3 (ptes s pml4 i AND PTE_ADDR))"
proof (cases "pml4 = 0 \<or> pml4 = saved_cr3 s")
  case True
  then show ?thesis using assms(2) by (auto simp: paging_free_address_space_def)
next
  case False
  let ?f = "\<lambda>i p. let ent = ptes s pml4 i in
          if \<not> present ent then p
          else if ent = ptes s (saved_cr3 s) i then p
          else paging_free_subtree (ptes s) 3 (ent AND PTE_ADDR) p"
  let ?A = "\<lambda>i. if present (ptes s pml4 i) \<and> ptes s pml4 i \<noteq> ptes s (saved_cr3 s) i
      then subtree_pages (ptes s) 3 (ptes s pml4 i AND PTE_ADDR) else {}"
  let ?X = "fold ?f entries (frames s)"
  have step: "pmm_ok (?f i p) \<and> (\<forall>j. page_avail (?f i p) j \<longrightarrow> page_avail p j \<or> j \<in> ?A i)"
    if "pmm_ok p" for i p
    using that free_subtree_avail [OF that, of "ptes s" 3 "ptes s pml4 i AND PTE_ADDR"]
    unfolding Let_def by (simp del: paging_free_subtree.simps subtree_pages.simps)
  have F: "pmm_ok ?X \<and> (\<forall>j. page_avail ?X j \<longrightarrow>
      page_avail (frames s) j \<or> (\<exists>i\<in>set entries. j \<in> ?A i))"
    by (rule fold_frees) (use step assms(1) in \<open>blast+\<close>)
  have e: "frames (paging_free_address_space pml4 s) = pmm_free pml4 1 ?X"
    using False by (simp add: paging_free_address_space_def)
  have X: "pmm_ok ?X" using F by blast
  show ?thesis
    using pmm_free1_avail [OF X assms(2) [unfolded e]]
  proof
    assume "page_avail ?X j"
    then have "page_avail (frames s) j \<or> (\<exists>i\<in>set entries. j \<in> ?A i)" using F by blast
    then show ?thesis by (auto simp del: subtree_pages.simps split: if_splits)
  qed simp
qed

lemma new_address_space_shares:
  assumes "paging_new_address_space s = (a, s')" "a \<noteq> 0"
  shows "ptes s' a = ptes s (saved_cr3 s)" "t \<noteq> a \<Longrightarrow> ptes s' t = ptes s t"
    "saved_cr3 s' = saved_cr3 s"
  using assms
  by (auto simp: paging_new_address_space_def vm_alloc1_def pmm_alloc_addr_def
      split: prod.splits option.splits if_splits)

section \<open>Properties\<close>

text \<open>A machine whose page tables are all empty, over the small pool, with the root
  table at 0x1000.\<close>

definition fresh_vm :: vm where
  "fresh_vm = \<lparr>ptes = (\<lambda>_ _. 0), saved_cr3 = 0, frames = small_pool\<rparr>"

lemma fresh_tbl: "tbl_at (ptes fresh_vm) root ps = (if ps = [] then Some root else None)"
  by (induction ps) (auto simp: fresh_vm_def split: option.split)

lemma fresh_inv: "pt_inv U 0x1000 fresh_vm"
proof (rule pt_invI)
  show "pmm_ok (frames fresh_vm)" by (simp add: fresh_vm_def small_pool_ok)
  show "table_ok (frames fresh_vm) t" if "tbl_at (ptes fresh_vm) 0x1000 ps = Some t" for ps t
  proof -
    have "t = 0x1000" using that by (simp add: fresh_tbl split: if_splits)
    then show ?thesis by (simp add: table_ok_def PTE_ADDR_def fresh_vm_def small_pool_avail addr_page_def)
  qed
qed (auto simp: fresh_tbl split: if_splits, simp_all add: fresh_vm_def)

text \<open>While the free frames are those from k up to the end of the small pool, a table that is
  not there yet is allocated at frame k.\<close>

lemma fresh_alloc:
  assumes "\<forall>j. page_avail (frames s) j \<longleftrightarrow> k \<le> j \<and> j < 16" "0 < k" "k < 16" "ptes s t i = 0"
  shows "\<exists>s' e. paging_ensure_table t i True s = (page_addr k, s') \<and>
    (\<forall>j. page_avail (frames s') j \<longleftrightarrow> Suc k \<le> j \<and> j < 16) \<and>
    ptes s' = pt_write t i e ((ptes s)(page_addr k := \<lambda>_. 0))"
proof -
  have f: "run_free (frames s) k 1" using assms(1,3) by (simp add: run_free_iff)
  have g: "\<not> run_free (frames s) l 1" if "l < k" for l
    using assms(1) that by (auto simp: run_free_iff intro!: exI [of _ l])
  have "fst (pmm_alloc 1 (frames s)) = Some k" by (rule pmm_alloc_first) (use f g in simp_all)
  then obtain p where p: "pmm_alloc 1 (frames s) = (Some k, p)" by (cases "pmm_alloc 1 (frames s)") simp
  have a: "page_avail p j \<longleftrightarrow> Suc k \<le> j \<and> j < 16" for j
    unfolding pmm_alloc_avail [OF p] assms(1) [rule_format] by linarith
  have nz: "page_addr k \<noteq> 0"
    using addr_page_addr [of k] assms(2,3) by (auto simp: addr_page_def)
  have "vm_alloc1 s = (page_addr k, s\<lparr>frames := p\<rparr>)" by (simp only: vm_alloc1_def pmm_alloc_addr_def p prod.case option.case)
  then show ?thesis using a assms(4) nz by (simp add: paging_ensure_table_def) blast
qed

lemma fresh_map: "fst (paging_map_user 0x1000 0x200000000000 0x9000 7 fresh_vm)"
proof -
  have n: "(0x1000 :: u64) \<noteq> page_addr 4" "page_addr 4 \<noteq> 0" "page_addr 5 \<noteq> 0" "page_addr 6 \<noteq> 0"
     "page_addr 5 \<noteq> page_addr 4"
    by (simp_all add: page_addr_def)
  have a: "\<forall>j. page_avail (frames fresh_vm) j \<longleftrightarrow> 4 \<le> j \<and> j < 16"
    by (auto simp: fresh_vm_def small_pool_avail)
  have z: "ptes fresh_vm (0x1000) (idx_l4 0x200000000000) = 0" by (simp add: fresh_vm_def)
  obtain s1 e1 where 1: "paging_ensure_table 0x1000 (idx_l4 0x200000000000) True fresh_vm = (page_addr 4, s1)"
      "\<forall>j. page_avail (frames s1) j \<longleftrightarrow> 5 \<le> j \<and> j < 16"
      "ptes s1 = pt_write 0x1000 (idx_l4 0x200000000000) e1 ((ptes fresh_vm)(page_addr 4 := \<lambda>_. 0))"
    using fresh_alloc [OF a, of "0x1000" "idx_l4 0x200000000000"] z by auto
  then have "ptes s1 (page_addr 4) (idx_l3 0x200000000000) = 0"
    using n by (simp add: pt_write_apply)
  then obtain s2 e2 where 2: "paging_ensure_table (page_addr 4) (idx_l3 0x200000000000) True s1 = (page_addr 5, s2)"
      "\<forall>j. page_avail (frames s2) j \<longleftrightarrow> 6 \<le> j \<and> j < 16"
      "ptes s2 = pt_write (page_addr 4) (idx_l3 0x200000000000) e2 ((ptes s1)(page_addr 5 := \<lambda>_. 0))"
    using fresh_alloc [OF 1(2)] by (simp del: ex_simps) blast
  then have "ptes s2 (page_addr 5) (idx_l2 0x200000000000) = 0"
    using n by (simp add: pt_write_apply)
  then obtain s3 where 3: "paging_ensure_table (page_addr 5) (idx_l2 0x200000000000) True s2 = (page_addr 6, s3)"
    using fresh_alloc [OF 2(2)] by (simp del: ex_simps) blast
  show ?thesis using n by (simp add: paging_map_user_def 1(1) 2(1) 3)
qed

text \<open>C11. A mapping that succeeds is what the lookup finds for the page, and no other user page
  changes its translation.\<close>

theorem map_user_lookup:
  assumes "pt_inv U root s" "idx_l4 v \<in> U" "v \<le> 0x00007fffffffffff"
    "phys AND PTE_ADDR = phys" "flags AND PTE_ADDR = 0" "flags AND 1 \<noteq> 0"
    "paging_map_user root v phys flags s = (True, s')"
  shows "pt_inv U root s' \<and>
    paging_phys_of_user root v s' = Some (phys, flags AND PTE_AVAIL_MMIO \<noteq> 0) \<and>
    (\<forall>w. w \<le> 0x00007fffffffffff \<longrightarrow> idx_l4 w \<in> U \<longrightarrow> drop_bit 12 w \<noteq> drop_bit 12 v \<longrightarrow>
       paging_phys_of_user root w s' = paging_phys_of_user root w s)"
  using map_user_spec(1) [OF assms(1,2,7)] map_user_translate [OF assms] by blast

lemma map_user_lookup_witness:
  "paging_phys_of_user 0x1000 0x200000000000
     (snd (paging_map_user 0x1000 0x200000000000 0x9000 7 fresh_vm)) = Some (0x9000, False)"
proof -
  let ?r = "paging_map_user 0x1000 0x200000000000 0x9000 7 fresh_vm"
  have "?r = (True, snd ?r)" using fresh_map by (simp add: prod_eq_iff)
  from map_user_lookup [OF fresh_inv [of UNIV] _ _ _ _ _ this] show ?thesis
    by (simp add: PTE_ADDR_def PTE_AVAIL_MMIO_def)
qed

text \<open>Unmapping a page gives back the frame it was mapped to, or null, and leaves the page
  unmapped, the invariant and the frame pool as they were.\<close>

theorem unmap_user_frame:
  assumes "pt_inv U root s" "idx_l4 v \<in> U" "v \<le> 0x00007fffffffffff" "v AND 0xFFF = 0"
    "paging_unmap_user root v s = (f, s')"
  shows "pt_inv U root s' \<and> leaf_entry s' root v = None \<and> frames s' = frames s \<and>
    f = (case leaf_entry s root v of None \<Rightarrow> 0 | Some e \<Rightarrow> e AND PTE_ADDR)"
  using unmap_user_spec [OF assms(1,2,3,5,4)] by blast

lemma unmap_user_frame_witness: "fst (paging_unmap_user 0x1000 0x200000000000 fresh_vm) = 0"
proof -
  have e: "paging_unmap_user 0x1000 0x200000000000 fresh_vm =
      (fst (paging_unmap_user 0x1000 0x200000000000 fresh_vm), snd (paging_unmap_user 0x1000 0x200000000000 fresh_vm))"
    by simp
  have "leaf_entry fresh_vm 0x1000 0x200000000000 = None"
    by (simp add: leaf_entry_def fresh_tbl leaf_path_def fresh_vm_def)
  with unmap_user_frame [OF fresh_inv [of UNIV] _ _ _ e] show ?thesis by simp
qed

text \<open>The frames that become free when an address space is destroyed are its root and the
  frames reached through the entries it does not share with the kernel.\<close>

theorem free_space_own_frames:
  assumes "pmm_ok (frames s)" "page_avail (frames (paging_free_address_space pml4 s)) j"
  shows "page_avail (frames s) j \<or> j = addr_page pml4 \<or>
    (\<exists>i<512. present (ptes s pml4 i) \<and> ptes s pml4 i \<noteq> ptes s (saved_cr3 s) i \<and>
       j \<in> subtree_pages (ptes s) 3 (ptes s pml4 i AND PTE_ADDR))"
  by (rule free_address_space_avail [OF assms])

lemma free_space_own_frames_witness:
  "\<not> page_avail (frames (paging_free_address_space 0x1000 fresh_vm)) 2"
  using free_space_own_frames [of fresh_vm "0x1000" 2]
  by (auto simp: fresh_vm_def small_pool_ok small_pool_avail addr_page_def)

end
