(* ===== verification/CStrings.thy ===== *)
theory CStrings
  imports Prelude
begin

text \<open>
  The C string library of the kernel (src/kernel/util.c, lines 5-16) and its
  \<open>snprintf\<close> (lines 34-69).

  A C string is a \<^typ>\<open>string\<close> whose end plays the terminator; a buffer that
  holds more than the string is cut at its first NUL by \<open>cstr\<close>, and every
  function below stops at a NUL as the code does.
\<close>

section \<open>NUL-terminated strings\<close>

abbreviation NUL :: char where "NUL \<equiv> CHR 0x00"

abbreviation ord8 :: "char \<Rightarrow> nat" where "ord8 c \<equiv> of_char c"

definition cstr :: "string \<Rightarrow> string" where
  "cstr s = takeWhile (\<lambda>c. c \<noteq> NUL) s"

definition clip :: "nat \<Rightarrow> string \<Rightarrow> string" where
  "clip n s = take n (cstr s)"

lemma cstr_Nil [simp]: "cstr [] = []"
  by (simp add: cstr_def)

lemma cstr_Cons [simp]: "cstr (c # s) = (if c = NUL then [] else c # cstr s)"
  by (simp add: cstr_def)

lemma NUL_notin_cstr [simp]: "NUL \<notin> set (cstr s)"
  unfolding cstr_def using set_takeWhileD by fastforce

lemma cstr_id: "NUL \<notin> set s \<Longrightarrow> cstr s = s"
  unfolding cstr_def by (simp add: takeWhile_eq_all_conv, metis)

lemma cstr_idem [simp]: "cstr (cstr s) = cstr s"
  by (rule cstr_id) simp

lemma cstr_take [simp]: "cstr (take n (cstr s)) = take n (cstr s)"
  by (rule cstr_id) (meson NUL_notin_cstr in_set_takeD)

lemma cstr_append: "NUL \<notin> set a \<Longrightarrow> cstr (a @ b) = a @ cstr b"
  by (induction a) auto

lemma length_cstr_le: "length (cstr s) \<le> length s"
  unfolding cstr_def by (rule length_takeWhile_le)

lemma cstr_clip [simp]: "cstr (clip n s) = clip n s"
  by (simp add: clip_def)

lemma NUL_notin_clip [simp]: "NUL \<notin> set (clip n s)"
  by (metis NUL_notin_cstr cstr_clip)

lemma length_clip [simp]: "length (clip n s) \<le> n"
  by (simp add: clip_def)

lemma clip_id: "length (cstr s) \<le> n \<Longrightarrow> clip n s = cstr s"
  by (simp add: clip_def)

fun strlen :: "string \<Rightarrow> nat" where
  "strlen [] = 0"
| "strlen (c # s) = (if c = NUL then 0 else Suc (strlen s))"

fun strcmp :: "string \<Rightarrow> string \<Rightarrow> int" where
  "strcmp [] [] = 0"
| "strcmp (a # as) [] = of_char a"
| "strcmp [] (b # bs) = - of_char b"
| "strcmp (a # as) (b # bs) =
    (if a \<noteq> NUL \<and> a = b then strcmp as bs else of_char a - of_char b)"

fun strncmp :: "string \<Rightarrow> string \<Rightarrow> nat \<Rightarrow> int" where
  "strncmp a b 0 = 0"
| "strncmp [] [] (Suc n) = 0"
| "strncmp (a # as) [] (Suc n) = of_char a"
| "strncmp [] (b # bs) (Suc n) = - of_char b"
| "strncmp (a # as) (b # bs) (Suc n) =
    (if a \<noteq> NUL \<and> a = b then strncmp as bs n else of_char a - of_char b)"

text \<open>The \<open>n\<close> bytes \<open>strncpy\<close> stores at its destination.\<close>

fun strncpy :: "string \<Rightarrow> nat \<Rightarrow> string" where
  "strncpy s 0 = []"
| "strncpy [] (Suc n) = NUL # strncpy [] n"
| "strncpy (c # s) (Suc n) =
    (if c = NUL then NUL # strncpy [] n else c # strncpy s n)"

text \<open>\<open>strchr\<close> and \<open>strrchr\<close> return the index of the character in the string.
  \<open>strchr\<close> of the code never finds the terminator, \<open>strrchr\<close> does.\<close>

fun strchr :: "string \<Rightarrow> char \<Rightarrow> nat option" where
  "strchr [] c = None"
| "strchr (x # s) c =
    (if x = NUL then None else if x = c then Some 0 else map_option Suc (strchr s c))"

fun strrchr_loop :: "string \<Rightarrow> char \<Rightarrow> nat \<Rightarrow> nat option \<Rightarrow> nat option" where
  "strrchr_loop [] c i lst = (if c = NUL then Some i else lst)"
| "strrchr_loop (x # s) c i lst =
    (if x = NUL then (if c = NUL then Some i else lst)
     else strrchr_loop s c (Suc i) (if x = c then Some i else lst))"

definition strrchr :: "string \<Rightarrow> char \<Rightarrow> nat option" where
  "strrchr s c = strrchr_loop s c 0 None"

abbreviation streq :: "string \<Rightarrow> string \<Rightarrow> bool" where
  "streq a b \<equiv> strcmp a b = 0"

lemma strlen_cstr: "strlen s = length (cstr s)"
  by (induction s) auto

lemma of_char_eq_0_iff: "(of_char c :: int) = 0 \<longleftrightarrow> c = NUL"
proof -
  have "(of_char c :: int) = 0 \<longleftrightarrow> of_char c = (of_char NUL :: int)" by simp
  also have "\<dots> \<longleftrightarrow> c = NUL" by (rule of_char_eq_iff)
  finally show ?thesis .
qed

lemma of_char_diff_iff: "(of_char a :: int) - of_char b = 0 \<longleftrightarrow> a = b"
  by (metis eq_iff_diff_eq_0 of_char_eq_iff)

lemma streq_iff [simp]: "strcmp a b = 0 \<longleftrightarrow> cstr a = cstr b"
proof (induction a b rule: strcmp.induct)
  case (4 a as b bs)
  then show ?case
    using of_char_diff_iff [of a b] by (auto simp: of_char_eq_0_iff)
qed (auto simp: of_char_eq_0_iff)

lemma strncmp_iff: "strncmp a b n = 0 \<longleftrightarrow> take n (cstr a) = take n (cstr b)"
proof (induction a b n rule: strncmp.induct)
  case (5 a as b bs n)
  then show ?case
    using of_char_diff_iff [of a b] by (auto simp: of_char_eq_0_iff)
qed (auto simp: of_char_eq_0_iff)

lemma strncmp_prefix:
  "length (cstr b) = n \<Longrightarrow> strncmp a b n = 0 \<longleftrightarrow> take n (cstr a) = cstr b"
  by (simp add: strncmp_iff)

lemma strncpy_Nil: "strncpy [] n = replicate n NUL"
  by (induction n) auto

lemma strncpy_eq: "strncpy s n = clip n s @ replicate (n - length (cstr s)) NUL"
proof (induction s n rule: strncpy.induct)
  case (3 c s n)
  then show ?case by (simp add: clip_def strncpy_Nil)
qed (auto simp: clip_def strncpy_Nil)

lemma cstr_replicate_NUL [simp]: "cstr (replicate n NUL) = []"
  by (cases n) auto

lemma cstr_strncpy: "cstr (strncpy s n) = clip n s"
  by (simp add: strncpy_eq cstr_append)

lemma strchr_Some_iff:
  "strchr s c = Some i \<longleftrightarrow> i < length (cstr s) \<and> cstr s ! i = c \<and> (\<forall>j<i. cstr s ! j \<noteq> c)"
proof (induction s arbitrary: i)
  case (Cons x s)
  show ?case
  proof (cases i)
    case 0
    then show ?thesis by auto
  next
    case (Suc k)
    then show ?thesis using Cons.IH [of k] by (auto simp: less_Suc_eq_0_disj)
  qed
qed simp

lemma strrchr_loop_Some_iff:
  assumes "c \<noteq> NUL"
  shows "strrchr_loop s c i lst = Some k \<longleftrightarrow>
    (\<exists>m<length (cstr s). k = i + m \<and> cstr s ! m = c \<and>
        (\<forall>j<length (cstr s). m < j \<longrightarrow> cstr s ! j \<noteq> c)) \<or>
    lst = Some k \<and> c \<notin> set (cstr s)"
  using assms
proof (induction s arbitrary: i lst)
  case (Cons x s)
  show ?case
  proof (cases "x = NUL")
    case False
    then show ?thesis
      using Cons.IH [OF Cons.prems, of "Suc i" "if x = c then Some i else lst"] Cons.prems
      by (auto simp: Ex_less_Suc2 All_less_Suc2 in_set_conv_nth)
  qed (use Cons.prems in simp)
qed simp

lemma strrchr_Some_iff:
  assumes "c \<noteq> NUL"
  shows "strrchr s c = Some i \<longleftrightarrow> i < length (cstr s) \<and> cstr s ! i = c \<and>
    (\<forall>j<length (cstr s). i < j \<longrightarrow> cstr s ! j \<noteq> c)"
  using strrchr_loop_Some_iff [OF assms, of s 0 None i] by (auto simp: strrchr_def)

lemma strrchr_None_iff:
  assumes "c \<noteq> NUL"
  shows "strrchr s c = None \<longleftrightarrow> c \<notin> set (cstr s)"
proof -
  have "strrchr_loop s c i lst = None \<longleftrightarrow> lst = None \<and> c \<notin> set (cstr s)" for i lst
    using assms by (induction s arbitrary: i lst) auto
  then show ?thesis by (simp add: strrchr_def)
qed

end
