(* ===== verification/Format.thy ===== *)
theory Format
  imports CStrings
begin

unbundle bit_operations_syntax

text \<open>
  \<open>snprintf\<close> and the pseudo-random generator of src/kernel/util.c.

  The buffer is the string written so far; \<open>pos\<close> of the code is its length,
  and the result of the code is that length.  The variadic arguments are an
  explicit list.  Reading an argument of another type than the one passed, or
  past the last one, and walking over the terminator of the format are
  undefined in C; there the model gives \<^const>\<open>None\<close>.
\<close>

datatype fmt_arg = AStr "string option" | AInt u32 | ALong u64

fun put_chars :: "nat \<Rightarrow> string \<Rightarrow> string \<Rightarrow> string" where
  "put_chars n out [] = out"
| "put_chars n out (c # s) =
    (if length out + 1 < n then put_chars n (out @ [c]) s else out)"

text \<open>The digits in the order of \<open>tmp\<close>, least significant first.  \<open>sg\<close> is -1
  for a negative \<open>int\<close> printed with \<open>%u\<close>, whose remainders are negative.\<close>

fun dec_rev :: "int \<Rightarrow> nat \<Rightarrow> string" where
  "dec_rev sg v = char_of (nat (48 + sg * int (v mod 10))) #
     (if v div 10 = 0 then [] else dec_rev sg (v div 10))"

fun hex_rev :: "nat \<Rightarrow> string" where
  "hex_rev v = (let d = v mod 16 in
     char_of (if d < 10 then 48 + d else 97 + d - 10) #
     (if v div 16 = 0 then [] else hex_rev (v div 16)))"

declare dec_rev.simps [simp del] hex_rev.simps [simp del]

lemma length_hex_rev: "v < 16 ^ Suc k \<Longrightarrow> length (hex_rev v) \<le> Suc k"
proof (induction k arbitrary: v)
  case 0
  then show ?case by (subst hex_rev.simps) (simp add: Let_def)
next
  case (Suc k)
  then have "v div 16 < 16 ^ Suc k" by (simp add: less_mult_imp_div_less)
  then show ?case using Suc.IH [of "v div 16"] by (subst hex_rev.simps) (simp add: Let_def)
qed

definition put_num :: "nat \<Rightarrow> bool \<Rightarrow> nat \<Rightarrow> bool \<Rightarrow> string \<Rightarrow> string \<Rightarrow> string" where
  "put_num n zp width neg tmp out =
    (let out1 = (if neg then put_chars n out ''-'' else out);
         pad = width - length tmp - (if neg then 1 else 0);
         out2 = put_chars n out1 (replicate pad (if zp then CHR ''0'' else CHR '' ''))
     in put_chars n out2 (rev tmp))"

fun fmt_width :: "nat \<Rightarrow> string \<Rightarrow> nat \<times> string" where
  "fmt_width w [] = (w, [])"
| "fmt_width w (c # p) =
    (if 48 \<le> ord8 c \<and> ord8 c \<le> 57
     then fmt_width (w * 10 + (of_char c - 48)) p else (w, c # p))"

definition conv_dec :: "nat \<Rightarrow> bool \<Rightarrow> nat \<Rightarrow> bool \<Rightarrow> u32 \<Rightarrow> string \<Rightarrow> string option" where
  "conv_dec n zp width is_d v out =
    (if sint v < 0 \<and> is_d then
       (if sint v = - (2 ^ 31) then None
        else Some (put_num n zp width True (dec_rev 1 (nat (- sint v))) out))
     else if sint v < 0 then Some (put_num n zp width False (dec_rev (- 1) (nat (- sint v))) out)
     else Some (put_num n zp width False (dec_rev 1 (unat v)) out))"

definition conv_ldec :: "nat \<Rightarrow> bool \<Rightarrow> nat \<Rightarrow> bool \<Rightarrow> u64 \<Rightarrow> string \<Rightarrow> string" where
  "conv_ldec n zp width is_d v out =
    (let neg = (sint v < 0 \<and> is_d)
     in put_num n zp width neg (dec_rev 1 (unat (if neg then - v else v))) out)"

text \<open>One directive, from its conversion character on: the new buffer, the
  rest of the format and the arguments left.\<close>

definition emit ::
  "nat \<Rightarrow> bool \<Rightarrow> nat \<Rightarrow> string \<Rightarrow> string \<Rightarrow> fmt_arg list
     \<Rightarrow> (string \<times> string \<times> fmt_arg list) option" where
  "emit n zp width out p args =
    (case p of
       [] \<Rightarrow> None
     | c # r \<Rightarrow>
        if c = CHR ''s'' then
          (case args of AStr s # as \<Rightarrow>
             Some (put_chars n out (cstr (case s of None \<Rightarrow> ''(null)'' | Some x \<Rightarrow> x)), r, as)
           | _ \<Rightarrow> None)
        else if c = CHR ''c'' then
          (case args of AInt v # as \<Rightarrow> Some (put_chars n out [char_of (unat v)], r, as) | _ \<Rightarrow> None)
        else if c = CHR ''d'' \<or> c = CHR ''u'' then
          (case args of AInt v # as \<Rightarrow>
             map_option (\<lambda>out'. (out', r, as)) (conv_dec n zp width (c = CHR ''d'') v out)
           | _ \<Rightarrow> None)
        else if c = CHR ''x'' \<or> c = CHR ''X'' then
          (case args of AInt v # as \<Rightarrow>
             Some (put_num n zp width False (hex_rev (unat v)) out, r, as) | _ \<Rightarrow> None)
        else if c = CHR ''l'' \<and> r \<noteq> [] \<and> hd r = CHR ''l'' then
          (case tl r of
             [] \<Rightarrow> None
           | c2 # r2 \<Rightarrow>
              if c2 = CHR ''x'' \<or> c2 = CHR ''X'' then
                (case args of ALong v # as \<Rightarrow>
                   Some (put_num n zp width False (hex_rev (unat v)) out, r2, as) | _ \<Rightarrow> None)
              else if c2 = CHR ''u'' \<or> c2 = CHR ''d'' then
                (case args of ALong v # as \<Rightarrow>
                   Some (conv_ldec n zp width (c2 = CHR ''d'') v out, r2, as) | _ \<Rightarrow> None)
              else Some (put_chars n out [c2], r2, args))
        else Some (put_chars n out [c], r, args))"

lemma fmt_width_length: "length (snd (fmt_width w p)) \<le> length p"
  by (induction w p rule: fmt_width.induct) auto

lemma length_tl_Cons: "tl xs = y # ys \<Longrightarrow> length ys < Suc (length xs)"
  by (cases xs) auto

lemma emit_shorter: "emit n zp w out p args = Some (out', r, as) \<Longrightarrow> length r < length p"
  by (auto simp: emit_def Let_def length_tl_Cons split: list.splits fmt_arg.splits if_splits)

definition directive ::
  "nat \<Rightarrow> string \<Rightarrow> string \<Rightarrow> fmt_arg list \<Rightarrow> (string \<times> string \<times> fmt_arg list) option" where
  "directive n out p args =
    (let zp = (p \<noteq> [] \<and> hd p = CHR ''0'');
         (width, q) = fmt_width 0 (if zp then tl p else p)
     in emit n zp width out q args)"

lemma directive_shorter:
  assumes "directive n out p args = Some (out', r, as)"
  shows "length r < length p"
proof -
  let ?p = "if p \<noteq> [] \<and> hd p = CHR ''0'' then tl p else p"
  have "length r < length (snd (fmt_width 0 ?p))"
    using assms unfolding directive_def Let_def
    by (auto split: prod.splits dest: emit_shorter)
  also have "\<dots> \<le> length ?p" by (rule fmt_width_length)
  also have "\<dots> \<le> length p" by simp
  finally show ?thesis .
qed

function snprintf_loop :: "nat \<Rightarrow> string \<Rightarrow> fmt_arg list \<Rightarrow> string \<Rightarrow> string option" where
  "snprintf_loop n [] args out = Some out"
| "snprintf_loop n (c # p) args out =
    (if \<not> length out + 1 < n then Some out
     else if c = CHR ''%'' \<and> p \<noteq> [] then
       (case directive n out p args of
          None \<Rightarrow> None
        | Some (out', r, as) \<Rightarrow> snprintf_loop n r as out')
     else snprintf_loop n p args (out @ [c]))"
  by pat_completeness auto
termination
  by (relation "measure (\<lambda>(n, p, args, out). length p)")
     (auto dest: directive_shorter)

definition snprintf :: "nat \<Rightarrow> string \<Rightarrow> fmt_arg list \<Rightarrow> string option" where
  "snprintf n fmt args = snprintf_loop n (cstr fmt) args []"

text \<open>For the formats whose directives match their arguments.\<close>

definition sformat :: "nat \<Rightarrow> string \<Rightarrow> fmt_arg list \<Rightarrow> string" where
  "sformat n fmt args = (case snprintf n fmt args of None \<Rightarrow> [] | Some s \<Rightarrow> s)"

definition rand64 :: "u64 \<Rightarrow> u64" where
  "rand64 s = (let a = s XOR push_bit 13 s; b = a XOR drop_bit 7 a in b XOR push_bit 17 b)"

section \<open>The buffer is never overrun\<close>

lemma put_chars_eq: "put_chars n out s = out @ take (n - 1 - length out) s"
proof (induction n out s rule: put_chars.induct)
  case (2 n out c s)
  show ?case
  proof (cases "length out + 1 < n")
    case True
    then have "n - 1 - length out = Suc (n - 1 - length (out @ [c]))" by simp
    then show ?thesis using 2 True by simp
  qed simp
qed simp

lemma length_put_chars: "length out < n \<Longrightarrow> length (put_chars n out s) < n"
  by (simp add: put_chars_eq)

lemma length_put_num: "length out < n \<Longrightarrow> length (put_num n zp w neg tmp out) < n"
  by (auto simp: put_num_def Let_def intro!: length_put_chars)

lemma emit_bound:
  assumes "emit n zp w out p args = Some (out', r, as)" "length out < n"
  shows "length out' < n"
  using assms
  by (auto simp: emit_def conv_dec_def conv_ldec_def Let_def
        split: list.splits fmt_arg.splits if_splits
        intro!: length_put_chars length_put_num)

lemma directive_bound:
  assumes "directive n out p args = Some (out', r, as)" "length out < n"
  shows "length out' < n"
  using assms by (auto simp: directive_def Let_def split: prod.splits dest: emit_bound)

lemma snprintf_loop_bound:
  assumes "snprintf_loop n p args out = Some s" "length out < n"
  shows "length s < n"
  using assms
proof (induction n p args out rule: snprintf_loop.induct)
  case (2 n c p args out)
  show ?case
  proof (cases "directive n out p args")
    case None
    then show ?thesis using 2 by (auto split: if_splits)
  next
    case (Some a)
    then show ?thesis using 2 directive_bound
      by (cases a) (auto split: if_splits)
  qed
qed simp

section \<open>What the directives print\<close>

lemma put_chars_fits: "length out + length s < n \<Longrightarrow> put_chars n out s = out @ s"
  by (simp add: put_chars_eq)

lemma snprintf_loop_s:
  assumes "length out + 1 < n" "p = CHR ''%'' # CHR ''s'' # r"
  shows "snprintf_loop n p (AStr (Some s) # as) out =
    snprintf_loop n r as (put_chars n out (cstr s))"
  using assms by (simp add: directive_def emit_def)

lemma snprintf_loop_lit:
  assumes "length out + 1 < n" "c \<noteq> CHR ''%''"
  shows "snprintf_loop n (c # p) as out = snprintf_loop n p as (out @ [c])"
  using assms by simp

section \<open>Numbers print in their usual notation\<close>

fun read_num :: "nat \<Rightarrow> (char \<Rightarrow> nat) \<Rightarrow> string \<Rightarrow> nat" where
  "read_num b dig [] = 0"
| "read_num b dig (c # s) = dig c + b * read_num b dig s"

definition dec_val :: "char \<Rightarrow> nat" where "dec_val c = of_char c - 48"

definition hex_val :: "char \<Rightarrow> nat" where
  "hex_val c = (if ord8 c \<le> 57 then of_char c - 48 else of_char c - 87)"

lemma of_char_char_of_small: "n < 256 \<Longrightarrow> (of_char (char_of (n :: nat)) :: nat) = n"
  by (simp add: of_char_of)

lemma read_dec_rev: "read_num 10 dec_val (dec_rev 1 v) = v"
proof (induction v rule: less_induct)
  case (less v)
  have "nat (48 + int (v mod 10)) = 48 + v mod 10" by (simp add: nat_add_distrib)
  then have d: "dec_val (char_of (nat (48 + int (v mod 10)))) = v mod 10"
    using of_char_char_of_small [of "48 + v mod 10"] by (simp add: dec_val_def)
  show ?case
  proof (cases "v div 10 = 0")
    case True
    then show ?thesis using d by (subst dec_rev.simps) simp
  next
    case False
    then have "v div 10 < v" by (cases v) auto
    then have "read_num 10 dec_val (dec_rev 1 (v div 10)) = v div 10"
      by (rule less.IH)
    then show ?thesis using d False by (subst dec_rev.simps) simp
  qed
qed

lemma length_dec_rev: "v < 10 ^ Suc k \<Longrightarrow> length (dec_rev sg v) \<le> Suc k"
proof (induction k arbitrary: v)
  case 0
  then show ?case by (subst dec_rev.simps) simp
next
  case (Suc k)
  then have "v div 10 < 10 ^ Suc k" by (simp add: less_mult_imp_div_less)
  then show ?case using Suc.IH [of "v div 10"] by (subst dec_rev.simps) simp
qed

lemma read_hex_rev: "read_num 16 hex_val (hex_rev v) = v"
proof (induction v rule: less_induct)
  case (less v)
  let ?d = "v mod 16"
  have "?d < 16" by simp
  then have d: "hex_val (char_of (if ?d < 10 then 48 + ?d else 97 + ?d - 10)) = ?d"
    by (auto simp: hex_val_def of_char_char_of_small)
  show ?case
  proof (cases "v div 16 = 0")
    case True
    then show ?thesis using d by (subst hex_rev.simps) (simp add: Let_def del: char_of_mod_256 split: if_splits)
  next
    case False
    then have "v div 16 < v" by (cases v) auto
    then have "read_num 16 hex_val (hex_rev (v div 16)) = v div 16"
      by (rule less.IH)
    then show ?thesis using d False by (subst hex_rev.simps) (simp add: Let_def)
  qed
qed

section \<open>The generator never gets stuck at zero\<close>

lemma xor_push_bit_eq_0:
  fixes s :: u64
  assumes "s XOR push_bit k s = 0" "0 < k"
  shows "s = 0"
proof -
  have e: "bit s n \<longleftrightarrow> bit (push_bit k s) n" for n
  proof -
    have "bit (s XOR push_bit k s) n = bit (0 :: u64) n" using assms(1) by simp
    then show ?thesis by (simp only: bit_xor_iff bit_0_eq bot_apply) auto
  qed
  have "\<not> bit s n" for n
  proof (induction n rule: less_induct)
    case (less n)
    show ?case
    proof
      assume "bit s n"
      then have "bit (push_bit k s) n" using e by simp
      then have "k \<le> n" "bit s (n - k)" by (auto simp: bit_push_bit_iff)
      then show False using less.IH [of "n - k"] assms(2) by simp
    qed
  qed
  then show ?thesis by (simp add: bit_eq_iff)
qed

lemma xor_drop_bit_eq_0:
  fixes s :: u64
  assumes "s XOR drop_bit k s = 0" "0 < k"
  shows "s = 0"
proof -
  have e: "bit s n \<longleftrightarrow> bit (drop_bit k s) n" for n
  proof -
    have "bit (s XOR drop_bit k s) n = bit (0 :: u64) n" using assms(1) by simp
    then show ?thesis by (simp only: bit_xor_iff bit_0_eq bot_apply) auto
  qed
  have low: "m \<le> 64 \<Longrightarrow> \<not> bit s (64 - m)" for m
  proof (induction m rule: less_induct)
    case (less m)
    show ?case
    proof
      assume b: "bit s (64 - m)"
      have "bit (drop_bit k s) (64 - m)" using b e by (rule iffD1 [rotated])
      then have b2: "bit s (64 - m + k)" by (simp add: bit_drop_bit_eq add.commute)
      then have "64 - m + k < 64" using bit_imp_le_length [OF b2] by simp
      then have "64 - (m - k) = 64 - m + k" "m - k < m"
        using assms(2) less.prems by linarith+
      then show False using less.IH [of "m - k"] less.prems b2 by simp
    qed
  qed
  have "\<not> bit s n" if "n \<le> 64" for n
    using low [of "64 - n"] that by simp
  moreover have "\<not> bit s n" if "\<not> n \<le> 64" for n
    using that bit_imp_le_length [of s n] by auto
  ultimately have "\<not> bit s n" for n by blast
  then show ?thesis by (simp add: bit_eq_iff)
qed

lemma rand64_eq_0: "rand64 s = 0 \<longleftrightarrow> s = 0"
proof
  assume "rand64 s = 0"
  then have "(s XOR push_bit 13 s) XOR drop_bit 7 (s XOR push_bit 13 s) = 0"
    unfolding rand64_def Let_def by (rule xor_push_bit_eq_0) simp
  then have "s XOR push_bit 13 s = 0" by (rule xor_drop_bit_eq_0) simp
  then show "s = 0" by (rule xor_push_bit_eq_0) simp
qed (simp add: rand64_def)

section \<open>Properties\<close>

text \<open>\<open>snprintf\<close> never writes past its buffer: with room for n bytes the text has fewer than n, the
  terminator included, whatever the format and the arguments.\<close>

theorem snprintf_fits:
  assumes "snprintf n fmt args = Some s" "0 < n"
  shows "length s < n"
  using snprintf_loop_bound [of n "cstr fmt" args "[]" s] assms by (simp add: snprintf_def)

lemma snprintf_fits_witness: "length (the (snprintf 4 ''%s!'' [AStr (Some ''abcdef'')])) < 4"
proof -
  have "snprintf 4 ''%s!'' [AStr (Some ''abcdef'')] = Some ''abc''"
    by (simp add: snprintf_def cstr_def snprintf_loop.simps directive_def emit_def fmt_width.simps put_chars_eq)
  from snprintf_fits [OF this] show ?thesis
    by (simp add: snprintf_def cstr_def snprintf_loop.simps directive_def emit_def fmt_width.simps put_chars_eq)
qed

text \<open>The digits \<open>snprintf\<close> prints for a number, decimal and hexadecimal, read back as the number.\<close>

theorem digits_read_back:
  "read_num 10 dec_val (dec_rev 1 v) = v \<and> read_num 16 hex_val (hex_rev v) = v"
  using read_dec_rev read_hex_rev by blast

end
