(* ===== verification/Process.thy ===== *)
theory Process
  imports KHeap Paging Format
begin

unbundle bit_operations_syntax

text \<open>
  The process table and the scheduler (src/kernel/proc.c), with the processor
  side of a switch (arch/x86_64/ctxswitch.asm) reduced to the register it
  changes that the C code looks at, CR3.

  \<open>procs\<close> is the fixed table of 64 slots, \<open>cur\<close> the slot \<open>current_proc\<close> points
  to.  A function that never returns because the machine halts gives
  \<^const>\<open>None\<close>.  What the code copies into the new process's pages (program
  bytes) is not part of the state; the layout of the arguments it builds on the
  stacks is (\<open>kargs\<close> and \<open>uargs\<close>).
\<close>

section \<open>State\<close>

datatype pstate = Created | Ready | Running | Blocked | Terminated

text \<open>What the first \<open>ret\<close> of a context enters: the entry of a kernel process, or
  \<open>user_trampoline\<close> followed by the \<open>iretq\<close> frame (RIP, CS, RFLAGS, RSP, SS) built
  below the top of the kernel stack.\<close>

datatype start = KEntry u64 | UFrame u64 "u64 list"

record cpu =
  c_start :: start
  c_rsp :: u64
  c_cr3 :: u64
  c_arg1 :: u64
  c_arg2 :: u64
  c_ran :: bool
  c_style :: u8
  c_hw_rsp :: u64

record pcb =
  p_present :: bool
  p_pid :: u32
  p_name :: string
  p_rights :: u64
  p_state :: pstate
  p_stack :: u64
  p_ctx :: cpu
  p_parent :: u32
  p_blocked_on :: u32
  p_exit :: u32
  p_user :: bool
  p_kstack_top :: u64
  p_umap :: "(u64 \<times> u64) list"
  p_elf :: "(u64 \<times> nat) list"
  p_wait_pid :: u32
  p_wait_code :: u32
  p_heap :: "nat option"
  p_devio_base :: u64
  p_devio_used :: u64

record sys =
  procs :: "pcb list"
  next_pid :: u32
  cur_index :: nat
  sched_running :: bool
  cur :: "nat option"
  hw_cr3 :: u64
  vmem :: vm
  kheap :: heap

definition MAX_PROCS :: nat where "MAX_PROCS = 64"
definition PROC_STACK_SIZE :: nat where "PROC_STACK_SIZE = 16 * 1024"
definition USER_STACK_SIZE :: nat where "USER_STACK_SIZE = 64 * 1024"
definition USER_VADDR_BASE :: u64 where "USER_VADDR_BASE = 0x200000000000"

definition proc_init :: "sys \<Rightarrow> sys" where
  "proc_init s = s\<lparr>procs := map (\<lambda>p. p\<lparr>p_present := False\<rparr>) (procs s), next_pid := 1,
     cur_index := 0, sched_running := False, cur := None\<rparr>"

definition upd :: "nat \<Rightarrow> (pcb \<Rightarrow> pcb) \<Rightarrow> sys \<Rightarrow> sys" where
  "upd i f s = s\<lparr>procs := (procs s)[i := f (procs s ! i)]\<rparr>"

definition set_state :: "pstate \<Rightarrow> nat \<Rightarrow> sys \<Rightarrow> sys" where
  "set_state st i s = upd i (\<lambda>p. p\<lparr>p_state := st\<rparr>) s"

section \<open>Lookup\<close>

definition find_free :: "sys \<Rightarrow> nat option" where
  "find_free s = first_index (\<lambda>p. \<not> p_present p \<or> p_state p = Terminated) (procs s)"

definition proc_get :: "sys \<Rightarrow> u32 \<Rightarrow> nat option" where
  "proc_get s pid = first_index (\<lambda>p. p_present p \<and> p_pid p = pid) (procs s)"

definition proc_at :: "sys \<Rightarrow> int \<Rightarrow> pcb option" where
  "proc_at s idx = (if idx < 0 \<or> int MAX_PROCS \<le> idx then None else Some (procs s ! nat idx))"

definition cur_pid :: "sys \<Rightarrow> u32" where
  "cur_pid s = (case cur s of None \<Rightarrow> 0 | Some i \<Rightarrow> p_pid (procs s ! i))"

section \<open>Creation\<close>

text \<open>The kernel heap and the page tables take their pages from the same
  allocator, the one in \<open>vmem\<close>.\<close>

definition sys_kmalloc :: "u64 \<Rightarrow> sys \<Rightarrow> u64 \<times> sys" where
  "sys_kmalloc n s =
    (case kmalloc n (kheap s) (frames (vmem s)) of
      (a, h, p) \<Rightarrow> (a, s\<lparr>kheap := h, vmem := (vmem s)\<lparr>frames := p\<rparr>\<rparr>))"

definition sys_kfree :: "u64 \<Rightarrow> sys \<Rightarrow> sys" where
  "sys_kfree a s = s\<lparr>kheap := kfree a (kheap s)\<rparr>"

definition sys_pmm_alloc :: "nat \<Rightarrow> sys \<Rightarrow> u64 \<times> sys" where
  "sys_pmm_alloc n s =
    (case pmm_alloc_addr n (frames (vmem s)) of
      (a, p) \<Rightarrow> (a, s\<lparr>vmem := (vmem s)\<lparr>frames := p\<rparr>\<rparr>))"

definition sys_new_space :: "sys \<Rightarrow> u64 \<times> sys" where
  "sys_new_space s = (case paging_new_address_space (vmem s) of (a, v) \<Rightarrow> (a, s\<lparr>vmem := v\<rparr>))"

definition sys_free_space :: "u64 \<Rightarrow> sys \<Rightarrow> sys" where
  "sys_free_space a s = s\<lparr>vmem := paging_free_address_space a (vmem s)\<rparr>"

text \<open>A run of pages mapped one by one; the code ignores the result of each
  \<open>paging_map_user\<close>.\<close>

definition map_range :: "u64 \<Rightarrow> u64 \<Rightarrow> u64 \<Rightarrow> nat \<Rightarrow> u64 \<Rightarrow> vm \<Rightarrow> vm" where
  "map_range pm va pa n flags v =
    fold (\<lambda>i v. snd (paging_map_user pm (va + of_nat i * 0x1000) (pa + of_nat i * 0x1000) flags v))
      [0..<n] v"

definition sys_map_range :: "u64 \<Rightarrow> u64 \<Rightarrow> u64 \<Rightarrow> nat \<Rightarrow> u64 \<Rightarrow> sys \<Rightarrow> sys" where
  "sys_map_range pm va pa n flags s = s\<lparr>vmem := map_range pm va pa n flags (vmem s)\<rparr>"

text \<open>\<open>proc_setup_stack\<close>: the arguments copied to the bottom of the kernel stack.
  The result lists the address and the text of each argument that fits below
  the limit.\<close>

fun kargs :: "u64 \<Rightarrow> u64 \<Rightarrow> string option list \<Rightarrow> (u64 \<times> string) list" where
  "kargs strp lmt [] = []"
| "kargs strp lmt (a # as) =
    (let t = clip 511 (case a of None \<Rightarrow> '''' | Some x \<Rightarrow> x); l = of_nat (length t) in
     if lmt < strp + l + 1 then [] else (strp, t) # kargs (strp + l + 1) lmt as)"

definition setup_args :: "u64 \<Rightarrow> string option list \<Rightarrow> (u64 \<times> string) list" where
  "setup_args stack args =
    (let as = take 64 args
     in kargs (stack + of_nat ((length as + 1) * 8)) (stack + of_nat PROC_STACK_SIZE - 4096) as)"

definition proc_setup_stack :: "nat \<Rightarrow> u64 \<Rightarrow> string option list \<Rightarrow> sys \<Rightarrow> sys" where
  "proc_setup_stack i entry args s =
    (case sys_kmalloc (of_nat PROC_STACK_SIZE) s of (stack, s) \<Rightarrow>
      if stack = 0 then upd i (\<lambda>p. p\<lparr>p_stack := 0, p_present := False\<rparr>) s
      else
        let top = ((stack + 15) AND NOT 15) + of_nat PROC_STACK_SIZE - 16 AND NOT 15;
            as = setup_args stack args
        in case sys_new_space s of (cr3, s) \<Rightarrow>
          upd i (\<lambda>p. p\<lparr>p_stack := stack,
            p_ctx := \<lparr>c_start = KEntry entry, c_rsp = top, c_cr3 = cr3,
              c_arg1 = (if args = [] then 0 else of_nat (length as)),
              c_arg2 = (if args = [] then 0 else stack),
              c_ran = False, c_style = 0, c_hw_rsp = 0\<rparr>\<rparr>) s)"

definition proc_name :: "string option \<Rightarrow> string" where
  "proc_name name = clip 63 (case name of None \<Rightarrow> ''anomimo'' | Some n \<Rightarrow> n)"

text \<open>\<open>entry\<close> is the address of the entry function, that of \<open>proc_crash_dummy\<close>
  when the caller gives none.\<close>

definition proc_create_argv ::
  "string option \<Rightarrow> u64 \<Rightarrow> string option list \<Rightarrow> u64 \<Rightarrow> sys \<Rightarrow> int \<times> sys" where
  "proc_create_argv name rights args entry s =
    (case find_free s of
       None \<Rightarrow> (-1, s)
     | Some i \<Rightarrow>
        let pid = next_pid s;
            s = upd i (\<lambda>p. p\<lparr>p_present := True, p_pid := pid, p_name := proc_name name,
                  p_rights := rights, p_state := Ready, p_parent := 0, p_blocked_on := 0,
                  p_exit := 0, p_user := False, p_kstack_top := 0, p_umap := [], p_heap := None,
                  p_elf := [], p_wait_pid := 0, p_wait_code := 0\<rparr>) (s\<lparr>next_pid := pid + 1\<rparr>);
            s = proc_setup_stack i entry args s
        in if p_stack (procs s ! i) = 0
           then (-2, upd i (\<lambda>p. p\<lparr>p_present := False\<rparr>) s) else (sint pid, s))"

abbreviation proc_create :: "string option \<Rightarrow> u64 \<Rightarrow> u64 \<Rightarrow> sys \<Rightarrow> int \<times> sys" where
  "proc_create name rights entry s \<equiv> proc_create_argv name rights [] entry s"

subsection \<open>Ring 3\<close>

text \<open>The argument strings of a user process, from the last argument down: the
  virtual address given to each one, \<^const>\<open>None\<close> where \<open>a_va\<close> keeps whatever the
  stack held (a null argument, or the arguments left when the zone is full).\<close>

fun uargs :: "u64 \<Rightarrow> u64 \<Rightarrow> string option list \<Rightarrow> (u64 \<times> string) option list" where
  "uargs floor ps [] = []"
| "uargs floor ps (None # as) = None # uargs floor ps as"
| "uargs floor ps (Some t # as) =
    (let len = of_nat (strlen t + 1) in
     if ps - len < floor then replicate (Suc (length as)) None
     else Some (ps - len, cstr t) # uargs floor (ps - len) as)"

record arg_layout =
  al_array :: u64
  al_args :: "(u64 \<times> string) option list"
  al_rsp :: u64

definition user_layout :: "u64 \<Rightarrow> string option list \<Rightarrow> arg_layout" where
  "user_layout base args =
    (let top = base + of_nat USER_STACK_SIZE in
     if args = [] then \<lparr>al_array = 0, al_args = [], al_rsp = top\<rparr>
     else let as = take 16 args; zone = top - 0x1000;
              arr = top - of_nat ((length as + 1) * 8)
          in \<lparr>al_array = arr, al_args = rev (uargs zone arr (rev as)), al_rsp = zone\<rparr>)"

definition user_stack_base :: "(u64 \<times> u64) list \<Rightarrow> u64" where
  "user_stack_base rs =
    ((fold (\<lambda>(b, l) m. if m < b + l then b + l else m) rs 0 + 0xFFF) AND NOT 0xFFF) + 0x10000"

definition proc_enter_user ::
  "nat \<Rightarrow> u64 \<Rightarrow> u64 \<Rightarrow> (u64 \<times> u64) list \<Rightarrow> string option list \<Rightarrow> sys \<Rightarrow> int \<times> sys" where
  "proc_enter_user i pm entry rs args s =
    (case sys_pmm_alloc (USER_STACK_SIZE div 0x1000) s of (ustack, s) \<Rightarrow>
      if ustack = 0 then (-5, s)
      else
        let base = user_stack_base rs;
            s = sys_map_range pm base ustack (USER_STACK_SIZE div 0x1000) (0x7 OR PTE_NX) s;
            lay = user_layout base args;
            kst = (p_stack (procs s ! i) + 15) AND NOT 15;
            kend = (kst + of_nat PROC_STACK_SIZE) AND NOT 15;
            fb = (kend - 40) AND NOT 7;
            argc = of_nat (length (al_args lay))
        in (0, upd i (\<lambda>p. p\<lparr>
              p_ctx := (p_ctx p)\<lparr>c_start := UFrame fb [entry, 0x1B, 0x202, al_rsp lay, 0x23],
                c_rsp := fb - 8, c_arg1 := argc, c_arg2 := al_array lay,
                c_style := 0, c_hw_rsp := 0, c_ran := False\<rparr>,
              p_user := True, p_kstack_top := kend,
              p_umap := rs @ [(base, of_nat USER_STACK_SIZE)],
              p_heap := None, p_elf := []\<rparr>) s))"

definition fresh_user :: "string option \<Rightarrow> u64 \<Rightarrow> nat \<Rightarrow> sys \<Rightarrow> sys" where
  "fresh_user name rights i s =
    upd i (\<lambda>p. p\<lparr>p_present := True, p_pid := next_pid s, p_name := proc_name name,
      p_rights := rights, p_state := Ready, p_parent := cur_pid s, p_blocked_on := 0,
      p_exit := 0, p_wait_pid := 0, p_wait_code := 0\<rparr>) (s\<lparr>next_pid := next_pid s + 1\<rparr>)"

definition absent :: "nat \<Rightarrow> sys \<Rightarrow> sys" where
  "absent i s = upd i (\<lambda>p. p\<lparr>p_present := False\<rparr>) s"

definition proc_create_user_args ::
  "string option \<Rightarrow> u64 \<Rightarrow> u64 \<Rightarrow> nat \<Rightarrow> string option list \<Rightarrow> sys \<Rightarrow> int \<times> sys" where
  "proc_create_user_args name rights entry user_size args s =
    (case find_free s of
       None \<Rightarrow> (-1, s)
     | Some i \<Rightarrow>
        let pid = next_pid s; s = fresh_user name rights i s in
        case sys_kmalloc (of_nat PROC_STACK_SIZE) s of (stack, s) \<Rightarrow>
        let s = upd i (\<lambda>p. p\<lparr>p_stack := stack\<rparr>) s in
        if stack = 0 then (-2, absent i s)
        else case sys_new_space s of (pm, s) \<Rightarrow>
        if pm = 0 then (-3, absent i (sys_kfree stack s))
        else
          let s = upd i (\<lambda>p. p\<lparr>p_ctx := (p_ctx p)\<lparr>c_cr3 := pm\<rparr>\<rparr>) s;
              n = (user_size + 0xFFF) div 0x1000;
              n = (if n = 0 \<or> 512 < n then 512 else n)
          in case sys_pmm_alloc n s of (cphys, s) \<Rightarrow>
          if cphys = 0 then (-4, absent i (sys_kfree stack s))
          else
            let s = sys_map_range pm USER_VADDR_BASE cphys n 0x5 s in
            case proc_enter_user i pm entry [(USER_VADDR_BASE, of_nat n * 0x1000)] args s of (r, s) \<Rightarrow>
            if r < 0 then (r, absent i (sys_kfree stack s)) else (sint pid, s))"

text \<open>What the pages hold is not modelled.  The C code copies all \<open>user_size\<close> bytes into them also when
  there are more than 512 pages, of which it allocates 512.\<close>

abbreviation proc_create_user ::
  "string option \<Rightarrow> u64 \<Rightarrow> u64 \<Rightarrow> nat \<Rightarrow> sys \<Rightarrow> int \<times> sys" where
  "proc_create_user name rights entry user_size s \<equiv>
    proc_create_user_args name rights entry user_size [] s"

record ureg =
  r_vaddr :: u64
  r_fileSz :: u64
  r_memSz :: u64
  r_flags :: u64

definition wx_flags :: "u64 \<Rightarrow> u64" where
  "wx_flags f = (if f AND 0x1 \<noteq> 0 then 0x5
     else if f AND 0x2 \<noteq> 0 then 0x7 OR PTE_NX else 0x1 OR PTE_NX)"

definition region_pages :: "ureg \<Rightarrow> nat" where
  "region_pages r =
    (let base = r_vaddr r AND NOT 0xFFF;
         n = unat (drop_bit 12 ((r_vaddr r - base) + r_memSz r + 0xFFF))
     in if n = 0 then 1 else n)"

fun map_regions :: "u64 \<Rightarrow> ureg list \<Rightarrow> (u64 \<times> u64) list \<Rightarrow> sys \<Rightarrow> int \<times> (u64 \<times> u64) list \<times> sys" where
  "map_regions pm [] acc s = (0, acc, s)"
| "map_regions pm (r # rs) acc s =
    (let base = r_vaddr r AND NOT 0xFFF; n = region_pages r in
     if base < USER_VADDR_BASE then (-10, acc, s)
     else case sys_pmm_alloc n s of (phys, s) \<Rightarrow>
       if phys = 0 then (-11, acc, s)
       else map_regions pm rs (acc @ [(base, of_nat n * 0x1000)])
              (sys_map_range pm base phys n (wx_flags (r_flags r)) s))"

definition proc_create_user_regions ::
  "string option \<Rightarrow> u64 \<Rightarrow> u64 \<Rightarrow> ureg list \<Rightarrow> string option list \<Rightarrow> sys \<Rightarrow> int \<times> sys" where
  "proc_create_user_regions name rights entry regs args s =
    (if regs = [] \<or> 7 < length regs then (-9, s)
     else case find_free s of
       None \<Rightarrow> (-1, s)
     | Some i \<Rightarrow>
        let pid = next_pid s; s = fresh_user name rights i s in
        case sys_kmalloc (of_nat PROC_STACK_SIZE) s of (stack, s) \<Rightarrow>
        let s = upd i (\<lambda>p. p\<lparr>p_stack := stack\<rparr>) s in
        if stack = 0 then (-2, absent i s)
        else case sys_new_space s of (pm, s) \<Rightarrow>
        if pm = 0 then (-3, absent i (sys_kfree stack s))
        else
          let s = upd i (\<lambda>p. p\<lparr>p_ctx := (p_ctx p)\<lparr>c_cr3 := pm\<rparr>\<rparr>) s in
          case map_regions pm regs [] s of (e, us, s) \<Rightarrow>
          if e < 0 then (e, sys_kfree stack (sys_free_space pm (absent i s)))
          else case proc_enter_user i pm entry us args s of (r, s) \<Rightarrow>
          if r < 0 then (r, sys_kfree stack (absent i s)) else (sint pid, s))"

section \<open>The scheduler\<close>

definition ring :: "nat \<Rightarrow> nat list" where
  "ring start = map (\<lambda>c. (start + c) mod MAX_PROCS) [0..<MAX_PROCS]"

definition runnable :: "sys \<Rightarrow> nat \<Rightarrow> bool" where
  "runnable s i \<longleftrightarrow> p_present (procs s ! i) \<and> p_state (procs s ! i) = Ready"

definition next_ready_from :: "sys \<Rightarrow> nat \<Rightarrow> nat option" where
  "next_ready_from s start = find (runnable s) (ring start)"

definition sched_init :: "sys \<Rightarrow> sys" where
  "sched_init s = s\<lparr>sched_running := False\<rparr>"

definition sched_add :: "nat option \<Rightarrow> sys \<Rightarrow> sys" where
  "sched_add p s = (case p of None \<Rightarrow> s | Some i \<Rightarrow> set_state Ready i s)"

definition load_cr3 :: "u64 \<Rightarrow> sys \<Rightarrow> sys" where
  "load_cr3 c s = (if c = 0 then s else s\<lparr>hw_cr3 := c\<rparr>)"

text \<open>Entering slot \<open>to\<close>: the context switch loads its CR3 and marks a context
  that had not run yet.\<close>

definition enter :: "nat \<Rightarrow> sys \<Rightarrow> sys" where
  "enter to s =
    load_cr3 (c_cr3 (p_ctx (procs s ! to)))
      (upd to (\<lambda>p. p\<lparr>p_ctx := (p_ctx p)\<lparr>c_ran := True\<rparr>\<rparr>) s)"

definition dispatch :: "nat \<Rightarrow> sys \<Rightarrow> sys" where
  "dispatch to s = (set_state Running to s)\<lparr>cur_index := to, cur := Some to\<rparr>"

definition sched_switch :: "nat \<Rightarrow> nat \<Rightarrow> sys \<Rightarrow> sys" where
  "sched_switch fr to s =
    enter to
      (upd fr (\<lambda>p. p\<lparr>p_ctx := (p_ctx p)\<lparr>c_style := 0, c_cr3 := hw_cr3 s\<rparr>\<rparr>) (dispatch to s))"

subsection \<open>Collecting dead processes\<close>

definition free_elf :: "(u64 \<times> nat) list \<Rightarrow> pmm \<Rightarrow> pmm" where
  "free_elf rs p = fold (\<lambda>(b, n) p. if n = 0 then p else pmm_free b n p) rs p"

definition gc_slot :: "nat \<Rightarrow> sys \<Rightarrow> sys" where
  "gc_slot i s =
    (let p = procs s ! i in
     if \<not> p_present p \<or> p_state p \<noteq> Terminated then s
     else
       let s = (if p_stack p \<noteq> 0
                then upd i (\<lambda>p. p\<lparr>p_stack := 0\<rparr>) (sys_kfree (p_stack p) s) else s);
           c = c_cr3 (p_ctx p);
           s = (if c \<noteq> 0 \<and> c \<noteq> hw_cr3 s
                then upd i (\<lambda>p. p\<lparr>p_ctx := (p_ctx p)\<lparr>c_cr3 := 0\<rparr>\<rparr>) (sys_free_space c s) else s);
           s = s\<lparr>vmem := (vmem s)\<lparr>frames := free_elf (p_elf p) (frames (vmem s))\<rparr>\<rparr>
       in upd i (\<lambda>p. p\<lparr>p_elf := [], p_present := False\<rparr>) s)"

definition proc_gc_run :: "sys \<Rightarrow> sys" where
  "proc_gc_run s = fold gc_slot [0..<MAX_PROCS] s"

subsection \<open>Switching\<close>

definition demote :: "sys \<Rightarrow> sys" where
  "demote s =
    (case cur s of None \<Rightarrow> s
     | Some i \<Rightarrow> if p_state (procs s ! i) = Running then set_state Ready i s else s)"

definition sched_yield :: "sys \<Rightarrow> sys" where
  "sched_yield s0 =
    (let s = proc_gc_run s0 in
     if \<not> sched_running s then s
     else let s = demote s in
       case next_ready_from s (cur_index s + 1) of
         None \<Rightarrow> (case cur s of None \<Rightarrow> s | Some i \<Rightarrow> set_state Running i s)
       | Some n \<Rightarrow>
           (case cur s of
              None \<Rightarrow> enter n (dispatch n s)
            | Some i \<Rightarrow> if i = n then set_state Running i s
                        else sched_switch i n (set_state Ready i s)))"

text \<open>The timer's choice: the result is the slot the interrupt stub resumes, and
  the slot it parks.\<close>

definition sched_preempt_pick :: "sys \<Rightarrow> (nat \<times> nat) option \<times> sys" where
  "sched_preempt_pick s0 =
    (let s = proc_gc_run s0 in
     case cur s of
       None \<Rightarrow> (None, s)
     | Some i \<Rightarrow>
        if \<not> sched_running s \<or> p_state (procs s ! i) \<noteq> Running then (None, s)
        else let s = set_state Ready i s in
          case next_ready_from s (cur_index s + 1) of
            None \<Rightarrow> (None, set_state Running i s)
          | Some n \<Rightarrow>
             if n = cur_index s then (None, set_state Running i s)
             else (Some (n, i), dispatch n s))"

definition sched_block :: "sys \<Rightarrow> sys" where
  "sched_block s =
    (case cur s of
       None \<Rightarrow> s
     | Some i \<Rightarrow>
        let s = set_state Blocked i s in
        case next_ready_from s (cur_index s + 1) of
          None \<Rightarrow> set_state Running i s
        | Some n \<Rightarrow> sched_switch i n s)"

definition sched_wakeup :: "u32 \<Rightarrow> sys \<Rightarrow> sys" where
  "sched_wakeup pid s =
    (case proc_get s pid of
       None \<Rightarrow> s
     | Some i \<Rightarrow>
        if p_state (procs s ! i) = Blocked
        then upd i (\<lambda>p. p\<lparr>p_state := Ready, p_blocked_on := 0\<rparr>) s else s)"

definition sched_tick :: "sys \<Rightarrow> sys" where
  "sched_tick s =
    (case cur s of
       None \<Rightarrow> s
     | Some i \<Rightarrow>
        if sched_running s \<and> p_state (procs s ! i) = Running then
          let s = set_state Ready i s in
          (case next_ready_from s (cur_index s + 1) of
             None \<Rightarrow> s
           | Some n \<Rightarrow> if n = cur_index s then s else sched_switch i n s)
        else s)"

definition sched_run_first :: "sys \<Rightarrow> sys" where
  "sched_run_first s0 =
    (let s = s0\<lparr>sched_running := True\<rparr> in
     case next_ready_from s 0 of
       None \<Rightarrow> s
     | Some i \<Rightarrow> enter i (dispatch i s))"

subsection \<open>Exit and wait\<close>

definition proc_exit :: "u32 \<Rightarrow> sys \<Rightarrow> sys option" where
  "proc_exit code s =
    (case cur s of
       None \<Rightarrow> None
     | Some i \<Rightarrow>
        let me = procs s ! i;
            s = (case proc_get s (p_parent me) of
                   None \<Rightarrow> s
                 | Some j \<Rightarrow> sched_wakeup (p_parent me)
                     (upd j (\<lambda>p. p\<lparr>p_wait_pid := p_pid me, p_wait_code := code\<rparr>) s));
            s = upd i (\<lambda>p. p\<lparr>p_exit := code, p_state := Terminated\<rparr>) s
        in case next_ready_from s (cur_index s + 1) of
             None \<Rightarrow> None
           | Some n \<Rightarrow> Some (enter n (dispatch n s)))"

text \<open>One turn of the loop of \<open>proc_waitpid\<close>: it returns a code, blocks, or
  follows the null pointer \<open>kid\<close> that \<open>proc_get\<close> gave after the collection of
  the child.\<close>

datatype wait_result = WDone int | WBlock | WFault

definition wait_turn :: "u32 \<Rightarrow> nat \<Rightarrow> nat option \<Rightarrow> sys \<Rightarrow> wait_result \<times> sys" where
  "wait_turn pid parent kid s =
    (if p_wait_pid (procs s ! parent) = pid
     then (WDone (sint (p_wait_code (procs s ! parent))),
           upd parent (\<lambda>p. p\<lparr>p_wait_pid := 0\<rparr>) s)
     else case kid of
       None \<Rightarrow> (WFault, s)
     | Some k \<Rightarrow>
        if \<not> p_present (procs s ! k) \<or> p_state (procs s ! k) = Terminated then (WDone (-1), s)
        else (WBlock, sched_block s))"

definition proc_waitpid :: "u32 \<Rightarrow> sys \<Rightarrow> wait_result \<times> sys" where
  "proc_waitpid pid s =
    (case cur s of
       None \<Rightarrow> (WDone (-1), s)
     | Some parent \<Rightarrow>
        (case proc_get s pid of
           None \<Rightarrow> (WDone (-1), s)
         | Some k \<Rightarrow>
            if p_parent (procs s ! k) \<noteq> p_pid (procs s ! parent) then (WDone (-1), s)
            else wait_turn pid parent (Some k) s))"

text \<open>The turn after \<open>sched_block\<close> returned, the parent running again.\<close>

definition waitpid_resume :: "u32 \<Rightarrow> nat \<Rightarrow> sys \<Rightarrow> wait_result \<times> sys" where
  "waitpid_resume pid parent s = wait_turn pid parent (proc_get s pid) s"

subsection \<open>The process listing\<close>

definition state_name :: "pstate \<Rightarrow> string" where
  "state_name st = (case st of Created \<Rightarrow> ''CRIADO'' | Ready \<Rightarrow> ''PRONTO''
     | Running \<Rightarrow> ''RODANDO'' | Blocked \<Rightarrow> ''BLOQUEADO'' | Terminated \<Rightarrow> ''TERMINADO'')"

definition proc_line :: "pcb \<Rightarrow> string option" where
  "proc_line p = snprintf 96 (''  pid %u %-14s [%s] caps=%llx'' @ [CHR 0x0A])
     [AInt (p_pid p), AStr (Some (p_name p)), AStr (Some (state_name (p_state p))),
      ALong (p_rights p)]"

definition proc_list_print :: "sys \<Rightarrow> string option list" where
  "proc_list_print s =
    map proc_line (filter (\<lambda>p. p_present p \<and> p_state p \<noteq> Terminated) (procs s))"

section \<open>Zeroed statics\<close>

definition zero_cpu :: cpu where
  "zero_cpu = \<lparr>c_start = KEntry 0, c_rsp = 0, c_cr3 = 0, c_arg1 = 0, c_arg2 = 0, c_ran = False,
     c_style = 0, c_hw_rsp = 0\<rparr>"

definition zero_pcb :: pcb where
  "zero_pcb = \<lparr>p_present = False, p_pid = 0, p_name = '''', p_rights = 0, p_state = Created,
     p_stack = 0, p_ctx = zero_cpu, p_parent = 0, p_blocked_on = 0, p_exit = 0, p_user = False,
     p_kstack_top = 0, p_umap = [], p_elf = [], p_wait_pid = 0, p_wait_code = 0, p_heap = None,
     p_devio_base = 0, p_devio_used = 0\<rparr>"

definition zero_sys :: sys where
  "zero_sys = \<lparr>procs = replicate MAX_PROCS zero_pcb, next_pid = 0, cur_index = 0, sched_running = False,
     cur = None, hw_cr3 = 0,
     vmem = \<lparr>ptes = (\<lambda>_ _. 0), saved_cr3 = 0, frames = \<lparr>bitmap = (\<lambda>_. 0), total = 0, used = 0\<rparr>\<rparr>,
     kheap = \<lparr>nodes = [], ready = False, halted = False\<rparr>\<rparr>"

section \<open>The parts of the state an operation leaves alone\<close>

lemma upd_simps [simp]:
  "length (procs (upd i f s)) = length (procs s)"
  "next_pid (upd i f s) = next_pid s" "cur_index (upd i f s) = cur_index s"
  "sched_running (upd i f s) = sched_running s" "cur (upd i f s) = cur s"
  "hw_cr3 (upd i f s) = hw_cr3 s" "vmem (upd i f s) = vmem s" "kheap (upd i f s) = kheap s"
  by (simp_all add: upd_def)

lemma procs_upd: "i < length (procs s) \<Longrightarrow>
    procs (upd i f s) ! j = (if j = i then f (procs s ! i) else procs s ! j)"
  by (simp add: upd_def nth_list_update)

lemma procs_upd_any: "procs (upd i f s) ! j =
    (if j = i \<and> i < length (procs s) then f (procs s ! i) else procs s ! j)"
  by (cases "i < length (procs s)") (auto simp: upd_def nth_list_update list_update_beyond)

lemma procs_upd_other [simp]: "j \<noteq> i \<Longrightarrow> procs (upd i f s) ! j = procs s ! j"
  by (simp add: upd_def)

lemma set_state_simps [simp]:
  "length (procs (set_state st i s)) = length (procs s)"
  "next_pid (set_state st i s) = next_pid s" "cur_index (set_state st i s) = cur_index s"
  "sched_running (set_state st i s) = sched_running s" "cur (set_state st i s) = cur s"
  "hw_cr3 (set_state st i s) = hw_cr3 s" "vmem (set_state st i s) = vmem s"
  "kheap (set_state st i s) = kheap s"
  by (simp_all add: set_state_def)

lemma load_cr3_simps [simp]:
  "procs (load_cr3 c s) = procs s" "cur (load_cr3 c s) = cur s"
  "cur_index (load_cr3 c s) = cur_index s" "sched_running (load_cr3 c s) = sched_running s"
  "next_pid (load_cr3 c s) = next_pid s"
  by (simp_all add: load_cr3_def)

lemma sys_service_simps [simp]:
  "procs (sys_kfree a s) = procs s" "procs (sys_free_space a s) = procs s"
  "cur (sys_kfree a s) = cur s" "cur (sys_free_space a s) = cur s"
  "cur_index (sys_kfree a s) = cur_index s" "cur_index (sys_free_space a s) = cur_index s"
  "sched_running (sys_kfree a s) = sched_running s"
  "sched_running (sys_free_space a s) = sched_running s"
  "hw_cr3 (sys_kfree a s) = hw_cr3 s" "hw_cr3 (sys_free_space a s) = hw_cr3 s"
  "next_pid (sys_kfree a s) = next_pid s" "next_pid (sys_free_space a s) = next_pid s"
  by (simp_all add: sys_kfree_def sys_free_space_def)

lemma enter_simps [simp]:
  "length (procs (enter n s)) = length (procs s)" "cur (enter n s) = cur s"
  "cur_index (enter n s) = cur_index s" "sched_running (enter n s) = sched_running s"
  by (simp_all add: enter_def)

lemma dispatch_simps [simp]:
  "length (procs (dispatch n s)) = length (procs s)" "cur (dispatch n s) = Some n"
  "cur_index (dispatch n s) = n" "sched_running (dispatch n s) = sched_running s"
  by (simp_all add: dispatch_def)

text \<open>What the scheduler looks at in a slot: presence, state and pid.\<close>

definition view :: "sys \<Rightarrow> nat \<Rightarrow> bool \<times> pstate \<times> u32" where
  "view s i = (p_present (procs s ! i), p_state (procs s ! i), p_pid (procs s ! i))"

lemma view_enter [simp]: "view (enter n s) i = view s i"
  by (simp add: view_def enter_def procs_upd_any)

lemma view_set_state:
  "i < length (procs s) \<Longrightarrow>
    view (set_state st i s) j =
      (if j = i then (p_present (procs s ! i), st, p_pid (procs s ! i)) else view s j)"
  by (simp add: view_def set_state_def procs_upd)

lemma view_dispatch:
  "i < length (procs s) \<Longrightarrow>
    view (dispatch i s) j =
      (if j = i then (p_present (procs s ! i), Running, p_pid (procs s ! i)) else view s j)"
  using view_set_state [of i s Running j] by (simp add: dispatch_def view_def)

lemma view_switch:
  "n < length (procs s) \<Longrightarrow> view (sched_switch i n s) j = view (dispatch n s) j"
  unfolding sched_switch_def view_enter by (simp add: view_def procs_upd_any)

lemma switch_simps [simp]:
  "length (procs (sched_switch i n s)) = length (procs s)" "cur (sched_switch i n s) = Some n"
  "cur_index (sched_switch i n s) = n" "sched_running (sched_switch i n s) = sched_running s"
  by (simp_all add: sched_switch_def)

lemma runnable_view: "runnable s i \<longleftrightarrow> fst (view s i) \<and> fst (snd (view s i)) = Ready"
  by (simp add: runnable_def view_def)

section \<open>One process runs at a time\<close>

text \<open>The table has its 64 slots, \<open>current_proc\<close> and \<open>current_index\<close> name the same
  slot, and no other slot that is present is in the running state.\<close>

definition sched_inv :: "sys \<Rightarrow> bool" where
  "sched_inv s \<longleftrightarrow> length (procs s) = MAX_PROCS \<and>
    (\<forall>i. cur s = Some i \<longrightarrow> i < MAX_PROCS \<and> cur_index s = i \<and> p_present (procs s ! i)) \<and>
    (\<forall>i<MAX_PROCS. p_present (procs s ! i) \<and> p_state (procs s ! i) = Running \<longrightarrow> cur s = Some i)"

text \<open>The running process is marked as such.\<close>

definition cur_running :: "sys \<Rightarrow> bool" where
  "cur_running s \<longleftrightarrow> (\<forall>i. cur s = Some i \<longrightarrow> p_state (procs s ! i) = Running)"

lemma sched_inv_view:
  "sched_inv s \<longleftrightarrow> length (procs s) = MAX_PROCS \<and>
    (\<forall>i. cur s = Some i \<longrightarrow> i < MAX_PROCS \<and> cur_index s = i \<and> fst (view s i)) \<and>
    (\<forall>i<MAX_PROCS. fst (view s i) \<and> fst (snd (view s i)) = Running \<longrightarrow> cur s = Some i)"
  by (simp add: sched_inv_def view_def)

lemma cur_running_view:
  "cur_running s \<longleftrightarrow> (\<forall>i. cur s = Some i \<longrightarrow> fst (snd (view s i)) = Running)"
  by (simp add: cur_running_def view_def)

lemma sched_invI:
  assumes "length (procs s) = MAX_PROCS"
    and "\<And>i. cur s = Some i \<Longrightarrow> i < MAX_PROCS \<and> cur_index s = i \<and> fst (view s i)"
    and "\<And>i. i < MAX_PROCS \<Longrightarrow> fst (view s i) \<Longrightarrow> fst (snd (view s i)) = Running \<Longrightarrow>
      cur s = Some i"
  shows "sched_inv s"
  using assms unfolding sched_inv_view by blast

lemma sched_invD:
  assumes "sched_inv s"
  shows "length (procs s) = MAX_PROCS"
    "cur s = Some i \<Longrightarrow> i < MAX_PROCS" "cur s = Some i \<Longrightarrow> cur_index s = i"
    "cur s = Some i \<Longrightarrow> fst (view s i)"
    "i < MAX_PROCS \<Longrightarrow> fst (view s i) \<Longrightarrow> fst (snd (view s i)) = Running \<Longrightarrow> cur s = Some i"
  using assms unfolding sched_inv_view by blast+

lemma sched_inv_cong:
  assumes "length (procs s') = length (procs s)" "cur s' = cur s" "cur_index s' = cur_index s"
    "\<And>i. i < length (procs s) \<Longrightarrow> view s' i = view s i" "sched_inv s"
  shows "sched_inv s'"
proof (rule sched_invI)
  note D = sched_invD [OF assms(5)]
  have v: "view s' i = view s i" if "i < MAX_PROCS" for i using assms(4) D(1) that by simp
  show "length (procs s') = MAX_PROCS" using assms(1) D(1) by simp
  show "i < MAX_PROCS \<and> cur_index s' = i \<and> fst (view s' i)" if "cur s' = Some i" for i
    using that D(2,3,4) [of i] assms(2,3) v by simp
  show "cur s' = Some i" if "i < MAX_PROCS" "fst (view s' i)" "fst (snd (view s' i)) = Running" for i
    using that D(5) [of i] assms(2) v by simp
qed

lemma MAX_PROCS_pos [simp]: "0 < MAX_PROCS"
  by (simp add: MAX_PROCS_def)

lemma ring_bound: "i \<in> set (ring st) \<Longrightarrow> i < MAX_PROCS"
  by (auto simp: ring_def)

lemma ring_all:
  assumes i: "i < MAX_PROCS"
  shows "i \<in> set (ring st)"
proof -
  let ?c = "(i + MAX_PROCS - st mod MAX_PROCS) mod MAX_PROCS"
  have le: "st mod MAX_PROCS \<le> MAX_PROCS" by (simp add: less_imp_le)
  have "(st + ?c) mod MAX_PROCS =
      (st mod MAX_PROCS + (i + MAX_PROCS - st mod MAX_PROCS)) mod MAX_PROCS"
    by (simp add: mod_simps)
  also have "st mod MAX_PROCS + (i + MAX_PROCS - st mod MAX_PROCS) = i + MAX_PROCS"
    using le by linarith
  finally have "i = (st + ?c) mod MAX_PROCS" using i by simp
  moreover have "?c \<in> set [0..<MAX_PROCS]" by simp
  ultimately show ?thesis unfolding ring_def set_map by (rule image_eqI)
qed

lemma next_ready_SomeD:
  assumes "next_ready_from s st = Some n"
  shows "n < MAX_PROCS" "runnable s n"
  using assms ring_bound unfolding next_ready_from_def find_Some_iff by (metis nth_mem)+

lemma next_ready_NoneD:
  assumes "next_ready_from s st = None" "i < MAX_PROCS"
  shows "\<not> runnable s i"
  using assms ring_all [of i st] by (auto simp: next_ready_from_def find_None_iff)

text \<open>Handing the processor to a ready slot, once nothing else is running.\<close>

lemma sched_inv_dispatch:
  assumes l: "length (procs s) = MAX_PROCS" and n: "n < MAX_PROCS" "p_present (procs s ! n)"
    and none: "\<And>i. i < MAX_PROCS \<Longrightarrow> p_present (procs s ! i) \<Longrightarrow> p_state (procs s ! i) \<noteq> Running"
  shows "sched_inv (dispatch n s)" "cur_running (dispatch n s)"
proof -
  have v: "view (dispatch n s) j =
      (if j = n then (p_present (procs s ! n), Running, p_pid (procs s ! n)) else view s j)" for j
    using view_dispatch l n(1) by simp
  show "sched_inv (dispatch n s)"
  proof (rule sched_invI)
    show "length (procs (dispatch n s)) = MAX_PROCS" using l by simp
  next
    fix i
    assume "cur (dispatch n s) = Some i"
    then show "i < MAX_PROCS \<and> cur_index (dispatch n s) = i \<and> fst (view (dispatch n s) i)"
      using n v by simp
  next
    fix i
    assume "i < MAX_PROCS" "fst (view (dispatch n s) i)"
      "fst (snd (view (dispatch n s) i)) = Running"
    then show "cur (dispatch n s) = Some i"
      using none [of i] unfolding v by (cases "i = n") (simp_all add: view_def)
  qed
  show "cur_running (dispatch n s)" unfolding cur_running_view by (simp add: v)
qed

lemma sched_inv_enter [simp]: "sched_inv (enter n s) = sched_inv s"
  "cur_running (enter n s) = cur_running s"
  unfolding sched_inv_view cur_running_view by simp_all

lemma sched_inv_switch:
  assumes "n < length (procs s)"
  shows "sched_inv (sched_switch i n s) = sched_inv (dispatch n s)"
    "cur_running (sched_switch i n s) = cur_running (dispatch n s)"
  using assms unfolding sched_inv_view cur_running_view by (simp_all add: view_switch)

text \<open>Once the current process is demoted to a state that is not running, nobody runs.\<close>

lemma none_running:
  assumes inv: "sched_inv s" and c: "cur s = Some i" and st: "st \<noteq> Running"
    and j: "j < MAX_PROCS" "p_present (procs (set_state st i s) ! j)"
  shows "p_state (procs (set_state st i s) ! j) \<noteq> Running"
proof (cases "j = i")
  case True
  then show ?thesis
    using sched_invD(1) [OF inv] sched_invD(2) [OF inv, of i] c st
    by (simp add: set_state_def procs_upd)
next
  case False
  then show ?thesis
    using sched_invD(5) [OF inv j(1)] j(2) c by (auto simp: set_state_def view_def)
qed

lemma sched_inv_set_cur:
  assumes inv: "sched_inv s" and c: "cur s = Some i"
  shows "sched_inv (set_state st i s)" "cur_running (set_state Running i s)"
proof -
  have i: "i < length (procs s)" using sched_invD(1,2) [OF inv] c by simp
  show "sched_inv (set_state st i s)"
  proof (rule sched_invI)
    show "length (procs (set_state st i s)) = MAX_PROCS" using sched_invD(1) [OF inv] by simp
  next
    fix j
    assume "cur (set_state st i s) = Some j"
    then show "j < MAX_PROCS \<and> cur_index (set_state st i s) = j \<and> fst (view (set_state st i s) j)"
      using sched_invD(2,3,4) [OF inv, of j] c view_set_state [OF i] by (simp add: view_def)
  next
    fix j
    assume "j < MAX_PROCS" "fst (view (set_state st i s) j)"
      "fst (snd (view (set_state st i s) j)) = Running"
    then show "cur (set_state st i s) = Some j"
      using sched_invD(5) [OF inv, of j] c view_set_state [OF i, of st j] by (cases "j = i") simp_all
  qed
  show "cur_running (set_state Running i s)"
    using view_set_state [OF i] c by (simp add: cur_running_view)
qed

section \<open>Collection only removes dead processes\<close>

lemma gc_slot_simps [simp]:
  "length (procs (gc_slot i s)) = length (procs s)" "cur (gc_slot i s) = cur s"
  "cur_index (gc_slot i s) = cur_index s" "sched_running (gc_slot i s) = sched_running s"
  "hw_cr3 (gc_slot i s) = hw_cr3 s" "next_pid (gc_slot i s) = next_pid s"
  by (simp_all add: gc_slot_def Let_def)

definition dead :: "sys \<Rightarrow> nat \<Rightarrow> bool" where
  "dead s i \<longleftrightarrow> p_present (procs s ! i) \<and> p_state (procs s ! i) = Terminated"

lemma gc_slot_other: "j \<noteq> i \<Longrightarrow> procs (gc_slot i s) ! j = procs s ! j"
  by (simp add: gc_slot_def Let_def)

lemma gc_slot_alive: "\<not> dead s i \<Longrightarrow> gc_slot i s = s"
  by (auto simp: gc_slot_def dead_def)

lemma gc_slot_dead:
  "dead s i \<Longrightarrow> i < length (procs s) \<Longrightarrow>
    \<not> p_present (procs (gc_slot i s) ! i) \<and> p_state (procs (gc_slot i s) ! i) = Terminated"
  by (simp add: gc_slot_def dead_def Let_def procs_upd)

lemma dead_gc_other: "j \<noteq> i \<Longrightarrow> dead (gc_slot i s) j = dead s j"
  by (simp add: dead_def gc_slot_other)

lemma gc_fold:
  assumes "distinct xs" "\<forall>i\<in>set xs. i < length (procs s)"
  shows "length (procs (fold gc_slot xs s)) = length (procs s) \<and> cur (fold gc_slot xs s) = cur s \<and>
    cur_index (fold gc_slot xs s) = cur_index s \<and>
    sched_running (fold gc_slot xs s) = sched_running s \<and>
    hw_cr3 (fold gc_slot xs s) = hw_cr3 s \<and>
    (\<not> (j \<in> set xs \<and> dead s j) \<longrightarrow> procs (fold gc_slot xs s) ! j = procs s ! j) \<and>
    (j \<in> set xs \<and> dead s j \<longrightarrow> \<not> p_present (procs (fold gc_slot xs s) ! j) \<and>
       p_state (procs (fold gc_slot xs s) ! j) = Terminated)"
  using assms
proof (induction xs arbitrary: s)
  case (Cons x xs)
  note IH = Cons.IH [of "gc_slot x s"]
  have p: "distinct xs" "\<forall>i\<in>set xs. i < length (procs (gc_slot x s))" "x < length (procs s)"
    using Cons.prems by auto
  show ?case
  proof (cases "j = x")
    case True
    then have "j \<notin> set xs" using Cons.prems by auto
    then show ?thesis
      using IH [OF p(1,2)] True gc_slot_dead [of s x] gc_slot_alive [of s x] p(3) by fastforce
  next
    case False
    then show ?thesis
      using IH [OF p(1,2)] gc_slot_other [OF False] dead_gc_other [OF False] by auto
  qed
qed simp

lemma gc_run:
  assumes "length (procs s) = MAX_PROCS"
  shows "length (procs (proc_gc_run s)) = MAX_PROCS" "cur (proc_gc_run s) = cur s"
    "cur_index (proc_gc_run s) = cur_index s" "sched_running (proc_gc_run s) = sched_running s"
    "hw_cr3 (proc_gc_run s) = hw_cr3 s"
    "j < MAX_PROCS \<Longrightarrow> \<not> dead s j \<Longrightarrow> procs (proc_gc_run s) ! j = procs s ! j"
    "j < MAX_PROCS \<Longrightarrow> dead s j \<Longrightarrow> \<not> p_present (procs (proc_gc_run s) ! j)"
    "j < MAX_PROCS \<Longrightarrow> \<not> dead (proc_gc_run s) j"
proof -
  have G: "length (procs (proc_gc_run s)) = MAX_PROCS \<and> cur (proc_gc_run s) = cur s \<and>
    cur_index (proc_gc_run s) = cur_index s \<and> sched_running (proc_gc_run s) = sched_running s \<and>
    hw_cr3 (proc_gc_run s) = hw_cr3 s \<and>
    (\<not> (j < MAX_PROCS \<and> dead s j) \<longrightarrow> procs (proc_gc_run s) ! j = procs s ! j) \<and>
    (j < MAX_PROCS \<and> dead s j \<longrightarrow> \<not> p_present (procs (proc_gc_run s) ! j) \<and>
       p_state (procs (proc_gc_run s) ! j) = Terminated)" for j
    unfolding proc_gc_run_def using gc_fold [of "[0..<MAX_PROCS]" s j] assms by simp
  show "length (procs (proc_gc_run s)) = MAX_PROCS" "cur (proc_gc_run s) = cur s"
    "cur_index (proc_gc_run s) = cur_index s" "sched_running (proc_gc_run s) = sched_running s"
    "hw_cr3 (proc_gc_run s) = hw_cr3 s"
    using G by blast+
  show "j < MAX_PROCS \<Longrightarrow> \<not> dead s j \<Longrightarrow> procs (proc_gc_run s) ! j = procs s ! j"
    "j < MAX_PROCS \<Longrightarrow> dead s j \<Longrightarrow> \<not> p_present (procs (proc_gc_run s) ! j)"
    using G by blast+
  show "j < MAX_PROCS \<Longrightarrow> \<not> dead (proc_gc_run s) j"
    using G [of j] by (cases "dead s j") (auto simp: dead_def)
qed

lemma gc_inv:
  assumes inv: "sched_inv s" and run: "cur_running s"
  shows "sched_inv (proc_gc_run s)" "cur_running (proc_gc_run s)"
proof -
  note l = sched_invD(1) [OF inv]
  note g = gc_run [OF l]
  have nd: "\<not> dead s i" if "cur s = Some i" for i
    using run that by (simp add: cur_running_def dead_def)
  have keep: "procs (proc_gc_run s) ! i = procs s ! i" if "cur s = Some i" for i
    using g(6) [of i] nd that sched_invD(2) [OF inv that] by simp
  show "cur_running (proc_gc_run s)" using run keep g(2) by (simp add: cur_running_def)
  show "sched_inv (proc_gc_run s)"
  proof (rule sched_invI)
    show "length (procs (proc_gc_run s)) = MAX_PROCS" by (rule g(1))
  next
    fix i
    assume c: "cur (proc_gc_run s) = Some i"
    then have c: "cur s = Some i" using g(2) by simp
    show "i < MAX_PROCS \<and> cur_index (proc_gc_run s) = i \<and> fst (view (proc_gc_run s) i)"
      using sched_invD(2,3,4) [OF inv c] keep [OF c] g(3) by (simp add: view_def)
  next
    fix i
    assume i: "i < MAX_PROCS" "fst (view (proc_gc_run s) i)"
      "fst (snd (view (proc_gc_run s) i)) = Running"
    then have "\<not> dead s i" using g(7) [of i] by (auto simp: view_def)
    then have "procs (proc_gc_run s) ! i = procs s ! i" using g(6) i(1) by blast
    then show "cur (proc_gc_run s) = Some i"
      using sched_invD(5) [OF inv i(1)] i(2,3) g(2) by (simp add: view_def)
  qed
qed

section \<open>Every scheduling step keeps the invariant\<close>

lemma set_state_twice [simp]: "set_state a i (set_state b i s) = set_state a i s"
  by (cases "i < length (procs s)")
     (simp_all add: set_state_def upd_def list_update_beyond)

lemma dispatch_after:
  assumes inv: "sched_inv s" and c: "cur s = Some i" and st: "st \<noteq> Running"
    and n: "next_ready_from (set_state st i s) k = Some n"
  shows "sched_inv (dispatch n (set_state st i s))" "cur_running (dispatch n (set_state st i s))"
    "n < length (procs (set_state st i s))"
proof -
  note N = next_ready_SomeD [OF n]
  have l: "length (procs (set_state st i s)) = MAX_PROCS" using sched_invD(1) [OF inv] by simp
  have p: "p_present (procs (set_state st i s) ! n)" using N(2) by (simp add: runnable_def)
  show "sched_inv (dispatch n (set_state st i s))" "cur_running (dispatch n (set_state st i s))"
    by (rule sched_inv_dispatch [OF l N(1) p none_running [OF inv c st]]; assumption)+
  show "n < length (procs (set_state st i s))" using N(1) l by simp
qed

lemma dispatch_idle:
  assumes inv: "sched_inv s" and c: "cur s = None" and n: "next_ready_from s k = Some n"
  shows "sched_inv (dispatch n s)" "cur_running (dispatch n s)"
proof -
  note N = next_ready_SomeD [OF n]
  have "p_state (procs s ! j) \<noteq> Running" if "j < MAX_PROCS" "p_present (procs s ! j)" for j
    using sched_invD(5) [OF inv that(1)] that(2) c by (auto simp: view_def)
  then show "sched_inv (dispatch n s)" "cur_running (dispatch n s)"
    using sched_inv_dispatch [OF sched_invD(1) [OF inv] N(1)] N(2) by (simp_all add: runnable_def)
qed

lemma demote_eq:
  assumes "cur_running s"
  shows "demote s = (case cur s of None \<Rightarrow> s | Some i \<Rightarrow> set_state Ready i s)"
  using assms by (simp add: demote_def cur_running_def split: option.split)

lemma sched_yield_inv:
  assumes "sched_inv s" "cur_running s"
  shows "sched_inv (sched_yield s)" "cur_running (sched_yield s)"
proof -
  let ?g = "proc_gc_run s"
  note g = gc_inv [OF assms]
  have "sched_inv (sched_yield s) \<and> cur_running (sched_yield s)"
  proof (cases "sched_running ?g")
    case False
    then show ?thesis using g by (simp add: sched_yield_def)
  next
    case on: True
    show ?thesis
    proof (cases "cur ?g")
      case None
      then show ?thesis
        using on g dispatch_idle [OF g(1) None]
        by (auto simp: sched_yield_def Let_def demote_eq [OF g(2)] split: option.splits)
    next
      case (Some i)
      show ?thesis
      proof (cases "next_ready_from (set_state Ready i ?g) (Suc (cur_index ?g))")
        case None
        then show ?thesis
          using on Some sched_inv_set_cur [OF g(1) Some]
          by (simp add: sched_yield_def Let_def demote_eq [OF g(2)])
      next
        case (Some n)
        note D = dispatch_after [OF g(1) \<open>cur ?g = Some i\<close> _ Some]
        show ?thesis
          using on Some \<open>cur ?g = Some i\<close> D sched_inv_set_cur [OF g(1) \<open>cur ?g = Some i\<close>]
            sched_inv_switch [of n "set_state Ready i ?g" i]
          by (auto simp: sched_yield_def Let_def demote_eq [OF g(2)])
      qed
    qed
  qed
  then show "sched_inv (sched_yield s)" "cur_running (sched_yield s)" by blast+
qed

lemma sched_preempt_inv:
  assumes "sched_inv s" "cur_running s" "sched_preempt_pick s = (r, s')"
  shows "sched_inv s' \<and> cur_running s'"
proof -
  let ?g = "proc_gc_run s"
  note g = gc_inv [OF assms(1,2)]
  show ?thesis
  proof (cases "cur ?g")
    case None
    then show ?thesis using g assms(3) by (simp add: sched_preempt_pick_def)
  next
    case c: (Some i)
    show ?thesis
    proof (cases "\<not> sched_running ?g \<or> p_state (procs ?g ! i) \<noteq> Running")
      case True
      then show ?thesis using g assms(3) c by (auto simp: sched_preempt_pick_def)
    next
      case False
      then show ?thesis
        using assms(3) c sched_inv_set_cur [OF g(1) c] dispatch_after [OF g(1) c, of Ready]
        by (auto simp: sched_preempt_pick_def Let_def split: option.splits if_splits)
    qed
  qed
qed

lemma sched_block_inv:
  assumes "sched_inv s" "cur_running s"
  shows "sched_inv (sched_block s) \<and> cur_running (sched_block s)"
proof (cases "cur s")
  case None
  then show ?thesis using assms by (simp add: sched_block_def)
next
  case c: (Some i)
  show ?thesis
    using c sched_inv_set_cur [OF assms(1) c] dispatch_after [OF assms(1) c, of Blocked]
      sched_inv_switch [of _ "set_state Blocked i s" i]
    by (auto simp: sched_block_def Let_def split: option.splits)
qed

lemma proc_get_SomeD:
  assumes "proc_get s pid = Some i"
  shows "i < length (procs s)" "p_present (procs s ! i)" "p_pid (procs s ! i) = pid"
  using first_index_SomeD [OF assms [unfolded proc_get_def]] by auto

lemma sched_wakeup_view:
  "view (sched_wakeup pid s) j =
    (if proc_get s pid = Some j \<and> p_state (procs s ! j) = Blocked
     then (True, Ready, pid) else view s j)"
  using proc_get_SomeD [of s pid]
  by (auto simp: sched_wakeup_def view_def procs_upd split: option.splits)

lemma sched_wakeup_simps [simp]:
  "length (procs (sched_wakeup pid s)) = length (procs s)" "cur (sched_wakeup pid s) = cur s"
  "cur_index (sched_wakeup pid s) = cur_index s"
  "sched_running (sched_wakeup pid s) = sched_running s"
  by (simp_all add: sched_wakeup_def split: option.split)

lemma sched_wakeup_inv:
  assumes inv: "sched_inv s" and run: "cur_running s"
  shows "sched_inv (sched_wakeup pid s) \<and> cur_running (sched_wakeup pid s)"
proof
  note D = sched_invD [OF inv]
  have nb: "p_state (procs s ! i) = Running" if "cur s = Some i" for i
    using run that by (simp add: cur_running_def)
  show "sched_inv (sched_wakeup pid s)"
  proof (rule sched_invI)
    show "length (procs (sched_wakeup pid s)) = MAX_PROCS" using D(1) by simp
  next
    fix i
    assume "cur (sched_wakeup pid s) = Some i"
    then show "i < MAX_PROCS \<and> cur_index (sched_wakeup pid s) = i \<and> fst (view (sched_wakeup pid s) i)"
      using D(2,3,4) [of i] by (simp add: sched_wakeup_view)
  next
    fix i
    assume "i < MAX_PROCS" "fst (view (sched_wakeup pid s) i)"
      "fst (snd (view (sched_wakeup pid s) i)) = Running"
    then show "cur (sched_wakeup pid s) = Some i"
      using D(5) [of i] by (simp add: sched_wakeup_view split: if_splits)
  qed
  show "cur_running (sched_wakeup pid s)"
    using nb by (auto simp: cur_running_view sched_wakeup_view) (simp add: view_def)
qed

lemma sched_tick_inv:
  assumes inv: "sched_inv s" and run: "cur_running s"
  shows "sched_inv (sched_tick s)"
proof (cases "cur s")
  case None
  then show ?thesis using inv by (simp add: sched_tick_def)
next
  case c: (Some i)
  then show ?thesis
    using inv sched_inv_set_cur [OF inv c] dispatch_after [OF inv c, of Ready]
      sched_inv_switch [of _ "set_state Ready i s" i]
    by (auto simp: sched_tick_def Let_def split: option.splits)
qed

lemma proc_exit_inv:
  assumes inv: "sched_inv s" and run: "cur_running s" and e: "proc_exit code s = Some s'"
  shows "sched_inv s' \<and> cur_running s'"
proof -
  obtain i where c: "cur s = Some i" using e by (cases "cur s") (auto simp: proc_exit_def)
  define s1 where "s1 = (case proc_get s (p_parent (procs s ! i)) of None \<Rightarrow> s
      | Some j \<Rightarrow> sched_wakeup (p_parent (procs s ! i))
          (upd j (\<lambda>p. p\<lparr>p_wait_pid := p_pid (procs s ! i), p_wait_code := code\<rparr>) s))"
  define s2 where "s2 = upd i (\<lambda>p. p\<lparr>p_exit := code, p_state := Terminated\<rparr>) s1"
  obtain n where n: "next_ready_from s2 (cur_index s2 + 1) = Some n" "s' = enter n (dispatch n s2)"
    using e c by (auto simp: proc_exit_def s1_def s2_def Let_def split: option.splits)
  have l1: "length (procs s1) = MAX_PROCS"
    using sched_invD(1) [OF inv] by (auto simp: s1_def split: option.split)
  have v1: "view s1 j = view s j \<or> fst (snd (view s1 j)) = Ready" for j
    by (auto simp: s1_def sched_wakeup_view split: option.split) (auto simp: view_def procs_upd_any)
  have "p_state (procs s2 ! j) \<noteq> Running" if j: "j < MAX_PROCS" "p_present (procs s2 ! j)" for j
  proof (cases "j = i")
    case True
    then show ?thesis using l1 j(1) by (simp add: s2_def procs_upd)
  next
    case False
    then have "view s2 j = view s1 j" by (simp add: view_def s2_def)
    then show ?thesis
      using v1 [of j] sched_invD(5) [OF inv j(1)] c False j(2) by (auto simp: view_def)
  qed
  moreover have "length (procs s2) = MAX_PROCS" using l1 by (simp add: s2_def)
  ultimately show ?thesis
    using sched_inv_dispatch [of s2 n] next_ready_SomeD [OF n(1)] n(2) by (simp add: runnable_def)
qed

section \<open>Round robin: a ready process is reached within one turn of the table\<close>

definition ahead :: "sys \<Rightarrow> nat \<Rightarrow> nat \<Rightarrow> bool" where
  "ahead s j c \<longleftrightarrow> c < MAX_PROCS \<and> j = (cur_index s + 1 + c) mod MAX_PROCS"

lemma ahead_ex:
  assumes "j < MAX_PROCS"
  shows "\<exists>c. ahead s j c"
proof -
  have "j \<in> set (ring (cur_index s + 1))" using assms by (rule ring_all)
  then show ?thesis by (auto simp: ring_def ahead_def)
qed

lemma next_ready_first:
  assumes "runnable s j" "ahead s j c"
  obtains k where "k \<le> c" "next_ready_from s (cur_index s + 1) = Some ((cur_index s + 1 + k) mod MAX_PROCS)"
proof -
  let ?st = "cur_index s + 1"
  have nth: "ring ?st ! k = (?st + k) mod MAX_PROCS" if "k < MAX_PROCS" for k
    using that by (simp add: ring_def)
  have len: "length (ring ?st) = MAX_PROCS" by (simp add: ring_def)
  have c: "c < MAX_PROCS" "ring ?st ! c = j" using assms(2) nth by (simp_all add: ahead_def)
  then have "j \<in> set (ring ?st)" using len by (metis nth_mem)
  then obtain n where n: "find (runnable s) (ring ?st) = Some n"
    using assms(1) by (cases "find (runnable s) (ring ?st)") (auto simp: find_None_iff)
  then obtain k where k: "k < length (ring ?st)" "runnable s (ring ?st ! k)" "n = ring ?st ! k"
      "\<forall>m<k. \<not> runnable s (ring ?st ! m)"
    by (auto simp: find_Some_iff)
  have "k \<le> c" using k(4) c assms(1) by (metis not_le)
  moreover have "n = (?st + k) mod MAX_PROCS" using k(1,3) nth len by simp
  ultimately show thesis using n that by (simp add: next_ready_from_def)
qed

text \<open>A yield either runs \<open>j\<close> or leaves it ready and strictly closer.\<close>

lemma yield_progress:
  assumes inv: "sched_inv s" and run: "cur_running s" and on: "sched_running s"
    and j: "j < MAX_PROCS" "runnable s j" and a: "ahead s j c"
  shows "cur (sched_yield s) = Some j \<or>
    (\<exists>c'<c. ahead (sched_yield s) j c') \<and> runnable (sched_yield s) j"
    "sched_running (sched_yield s)"
proof -
  let ?g = "proc_gc_run s"
  note l = sched_invD(1) [OF inv]
  note g = gc_run [OF l]
  note gi = gc_inv [OF inv run]
  have nj: "cur s \<noteq> Some j" using j(2) run by (auto simp: cur_running_def runnable_def)
  define d where "d = demote ?g"
  have d: "d = (case cur ?g of None \<Rightarrow> ?g | Some i \<Rightarrow> set_state Ready i ?g)"
    unfolding d_def by (rule demote_eq [OF gi(2)])
  have ds [simp]: "cur d = cur s" "cur_index d = cur_index s" "sched_running d = sched_running s"
      "length (procs d) = MAX_PROCS"
    using g by (auto simp: d split: option.split)
  have "\<not> dead s j" using j(2) by (simp add: runnable_def dead_def)
  then have "procs ?g ! j = procs s ! j" using g(6) j(1) by blast
  moreover have "procs d ! j = procs ?g ! j"
    using nj g(2) by (auto simp: d set_state_def split: option.split)
  ultimately have rd: "runnable d j" using j(2) by (simp add: runnable_def)
  have "ahead d j c" using a by (simp add: ahead_def)
  then obtain k where k: "k \<le> c"
      "next_ready_from d (cur_index d + 1) = Some ((cur_index d + 1 + k) mod MAX_PROCS)"
    using next_ready_first [OF rd] by blast
  define n where "n = (cur_index s + 1 + k) mod MAX_PROCS"
  have nn: "next_ready_from d (cur_index s + 1) = Some n" using k(2) by (simp add: n_def)
  have nl: "n < MAX_PROCS" by (simp add: n_def)
  have y: "sched_yield s = (case cur s of
      None \<Rightarrow> enter n (dispatch n d)
    | Some i \<Rightarrow> if i = n then set_state Running i d else sched_switch i n (set_state Ready i d))"
    using on g(2,3,4) nn by (simp add: sched_yield_def Let_def flip: d_def)
  have vj: "view (sched_yield s) j = view d j" if "j \<noteq> n"
    using that nj nl
    by (auto simp: y view_set_state view_dispatch view_switch sched_invD(2) [OF inv] split: option.split)
  have ci: "cur_index (sched_yield s) = n" "cur (sched_yield s) = Some n"
    using sched_invD(3) [OF inv] by (auto simp: y split: option.split)
  show "sched_running (sched_yield s)" using on by (auto simp: y split: option.split)
  show "cur (sched_yield s) = Some j \<or>
    (\<exists>c'<c. ahead (sched_yield s) j c') \<and> runnable (sched_yield s) j"
  proof (cases "j = n")
    case True
    then show ?thesis using ci by simp
  next
    case False
    have c: "c < MAX_PROCS" "j = (cur_index s + 1 + c) mod MAX_PROCS" using a by (simp_all add: ahead_def)
    then have "k \<noteq> c" using False by (auto simp: n_def)
    then have kc: "k < c" using k(1) by simp
    have "(n + 1 + (c - k - 1)) mod MAX_PROCS = (cur_index s + 1 + k + (c - k)) mod MAX_PROCS"
    proof -
      have "n + 1 + (c - k - 1) = n + (c - k)" using kc by linarith
      then have "(n + 1 + (c - k - 1)) mod MAX_PROCS = (n + (c - k)) mod MAX_PROCS"
        by (simp only:)
      also have "\<dots> = (cur_index s + 1 + k + (c - k)) mod MAX_PROCS"
        unfolding n_def by (rule mod_add_left_eq)
      finally show ?thesis .
    qed
    also have "\<dots> = j" using kc c(2) by simp
    finally have "ahead (sched_yield s) j (c - k - 1)"
      using c(1) kc ci by (simp add: ahead_def)
    moreover have "c - k - 1 < c" using kc by simp
    moreover have "runnable (sched_yield s) j" using vj [OF False] rd by (simp add: runnable_view)
    ultimately show ?thesis by blast
  qed
qed

lemma yield_reaches:
  assumes "sched_inv s" "cur_running s" "sched_running s" "j < MAX_PROCS" "runnable s j" "ahead s j c"
  shows "\<exists>n\<le>c + 1. 0 < n \<and> cur ((sched_yield ^^ n) s) = Some j"
  using assms
proof (induction c arbitrary: s rule: less_induct)
  case (less c)
  let ?s = "sched_yield s"
  note P = yield_progress [OF less.prems]
  from P(1) show ?case
  proof
    assume "cur ?s = Some j"
    then show ?thesis by (intro exI [of _ 1]) simp
  next
    assume "(\<exists>c'<c. ahead ?s j c') \<and> runnable ?s j"
    then obtain c' where c': "c' < c" "ahead ?s j c'" "runnable ?s j" by blast
    have "\<exists>n\<le>c' + 1. 0 < n \<and> cur ((sched_yield ^^ n) ?s) = Some j"
      using less.IH [OF c'(1)] sched_yield_inv [OF less.prems(1,2)] P(2) less.prems(4) c'(2,3)
      by blast
    then obtain n where "n \<le> c' + 1" "cur ((sched_yield ^^ n) ?s) = Some j" by blast
    then show ?thesis using c'(1) by (intro exI [of _ "Suc n"]) (simp add: funpow_swap1)
  qed
qed

section \<open>Creating a process touches one free slot\<close>

definition only_slot :: "nat \<Rightarrow> sys \<Rightarrow> sys \<Rightarrow> bool" where
  "only_slot i s s' \<longleftrightarrow> length (procs s') = length (procs s) \<and> cur s' = cur s \<and>
    cur_index s' = cur_index s \<and> sched_running s' = sched_running s \<and> hw_cr3 s' = hw_cr3 s \<and>
    (\<forall>j. j \<noteq> i \<longrightarrow> procs s' ! j = procs s ! j)"

named_theorems slot_intros

lemma only_slot_refl [slot_intros]: "only_slot i s s"
  by (simp add: only_slot_def)

lemma only_slot_trans: "only_slot i s s' \<Longrightarrow> only_slot i s' s'' \<Longrightarrow> only_slot i s s''"
  by (simp add: only_slot_def)

lemma only_slot_upd [slot_intros]: "only_slot i s s' \<Longrightarrow> only_slot i s (upd i f s')"
  by (simp add: only_slot_def)

lemma only_slot_services [slot_intros]:
  "only_slot i s s' \<Longrightarrow> only_slot i s (sys_kfree a s')"
  "only_slot i s s' \<Longrightarrow> only_slot i s (sys_free_space a s')"
  "only_slot i s s' \<Longrightarrow> only_slot i s (sys_map_range pm va pa n fl s')"
  "only_slot i s s' \<Longrightarrow> only_slot i s (absent i s')"
  "only_slot i s s' \<Longrightarrow> only_slot i s (fresh_user name r i s')"
  by (simp_all add: only_slot_def sys_map_range_def absent_def fresh_user_def upd_def)

lemma only_slot_kmalloc:
  "sys_kmalloc n s' = (a, s'') \<Longrightarrow> only_slot i s s' \<Longrightarrow> only_slot i s s''"
  by (auto simp: sys_kmalloc_def only_slot_def split: prod.splits)

lemma only_slot_pmm: "sys_pmm_alloc n s' = (a, s'') \<Longrightarrow> only_slot i s s' \<Longrightarrow> only_slot i s s''"
  by (auto simp: sys_pmm_alloc_def only_slot_def split: prod.splits)

lemma only_slot_space: "sys_new_space s' = (a, s'') \<Longrightarrow> only_slot i s s' \<Longrightarrow> only_slot i s s''"
  by (auto simp: sys_new_space_def only_slot_def split: prod.splits)

lemma only_slot_regions:
  "map_regions pm rs acc s' = (e, us, s'') \<Longrightarrow> only_slot i s s' \<Longrightarrow> only_slot i s s''"
proof (induction rs arbitrary: acc s')
  case (Cons r rs)
  obtain a t where a: "sys_pmm_alloc (region_pages r) s' = (a, t)"
    by (cases "sys_pmm_alloc (region_pages r) s'")
  then have "only_slot i s t" using only_slot_pmm Cons.prems(2) by blast
  note t = this only_slot_services(3) [OF this]
  show ?case
  proof (cases "r_vaddr r AND NOT 0xFFF < USER_VADDR_BASE")
    case True
    then have "s'' = s'" using Cons.prems(1) by (simp add: Let_def)
    then show ?thesis using Cons.prems(2) by simp
  next
    case hi: False
    show ?thesis
    proof (cases "a = 0")
      case True
      then have "s'' = t" using Cons.prems(1) a hi by (simp add: Let_def)
      then show ?thesis using t(1) by simp
    next
      case False
      then show ?thesis
        using Cons.prems(1) a hi by (intro Cons.IH [OF _ t(2)]) (simp add: Let_def)
    qed
  qed
qed simp

lemma only_slot_enter_user:
  assumes e: "proc_enter_user i pm e rs args s' = (r, s'')" and o: "only_slot i s s'"
  shows "only_slot i s s''"
proof -
  obtain a t where a: "sys_pmm_alloc (USER_STACK_SIZE div 0x1000) s' = (a, t)"
    by (cases "sys_pmm_alloc (USER_STACK_SIZE div 0x1000) s'")
  have t: "only_slot i s t" by (rule only_slot_pmm [OF a o])
  have "s'' = t \<or> (\<exists>va n fl f. s'' = upd i f (sys_map_range pm va a n fl t))"
    using e a unfolding proc_enter_user_def Let_def by (simp split: if_splits) blast
  then show ?thesis using t slot_intros by metis
qed

lemma only_slot_stack:
  assumes o: "only_slot i s s'"
  shows "only_slot i s (proc_setup_stack i e args s')"
proof -
  obtain a t where a: "sys_kmalloc (of_nat PROC_STACK_SIZE) s' = (a, t)"
    by (cases "sys_kmalloc (of_nat PROC_STACK_SIZE) s'")
  obtain c u where c: "sys_new_space t = (c, u)" by (cases "sys_new_space t")
  have t: "only_slot i s t" by (rule only_slot_kmalloc [OF a o])
  then have "only_slot i s u" by (rule only_slot_space [OF c])
  moreover have "(\<exists>f. proc_setup_stack i e args s' = upd i f t) \<or>
      (\<exists>f. proc_setup_stack i e args s' = upd i f u)"
    using a c unfolding proc_setup_stack_def Let_def by (simp split: if_splits) blast
  ultimately show ?thesis using t only_slot_upd by metis
qed

lemma sched_inv_only_slot:
  assumes o: "only_slot i s s'" and inv: "sched_inv s" and run: "cur_running s"
    and c: "cur s \<noteq> Some i"
    and st: "p_present (procs s' ! i) \<Longrightarrow> p_state (procs s' ! i) \<noteq> Running"
  shows "sched_inv s'" "cur_running s'"
proof -
  have v: "view s' j = view s j" if "j \<noteq> i" for j using o that by (simp add: only_slot_def view_def)
  have e: "cur s' = cur s" "cur_index s' = cur_index s" "length (procs s') = length (procs s)"
    using o by (simp_all add: only_slot_def)
  show "sched_inv s'"
  proof (rule sched_invI)
    show "length (procs s') = MAX_PROCS" using e sched_invD(1) [OF inv] by simp
  next
    fix j
    assume "cur s' = Some j"
    then show "j < MAX_PROCS \<and> cur_index s' = j \<and> fst (view s' j)"
      using c e sched_invD(2,3,4) [OF inv, of j] v [of j] by (cases "j = i") auto
  next
    fix j
    assume "j < MAX_PROCS" "fst (view s' j)" "fst (snd (view s' j)) = Running"
    then show "cur s' = Some j"
      using st e sched_invD(5) [OF inv, of j] v [of j] by (cases "j = i") (auto simp: view_def)
  qed
  show "cur_running s'" using run c e v unfolding cur_running_view by metis
qed

lemma find_free_not_cur:
  assumes "sched_inv s" "cur_running s" "find_free s = Some i"
  shows "cur s \<noteq> Some i" "i < length (procs s)"
proof -
  have "\<not> p_present (procs s ! i) \<or> p_state (procs s ! i) = Terminated"
    using first_index_SomeD(2) [OF assms(3) [unfolded find_free_def]] .
  moreover have "p_present (procs s ! i) \<and> p_state (procs s ! i) = Running" if "cur s = Some i"
    using sched_invD(4) [OF assms(1) that] assms(2) that by (simp add: view_def cur_running_def)
  ultimately show "cur s \<noteq> Some i" by auto
  show "i < length (procs s)" using first_index_SomeD(1) [OF assms(3) [unfolded find_free_def]] .
qed

text \<open>The three ways of creating a process: whatever the result, the invariant
  holds; a pid is returned only for a present, ready slot that carries it.\<close>

definition created :: "nat \<Rightarrow> u32 \<Rightarrow> u64 \<Rightarrow> int \<Rightarrow> sys \<Rightarrow> bool" where
  "created i pid rights r s \<longleftrightarrow>
    (r < 0 \<and> \<not> p_present (procs s ! i)) \<or>
    (r = sint pid \<and> p_present (procs s ! i) \<and> p_state (procs s ! i) = Ready \<and>
     p_pid (procs s ! i) = pid \<and> p_rights (procs s ! i) = rights)"

definition slot_is :: "nat \<Rightarrow> u32 \<Rightarrow> u64 \<Rightarrow> sys \<Rightarrow> bool" where
  "slot_is i pid rights s \<longleftrightarrow> i < length (procs s) \<and> p_present (procs s ! i) \<and>
    p_state (procs s ! i) = Ready \<and> p_pid (procs s ! i) = pid \<and> p_rights (procs s ! i) = rights"

lemma slot_is_cong:
  assumes "procs s' = procs s" "slot_is i pid r s"
  shows "slot_is i pid r s'"
  using assms by (simp add: slot_is_def)

lemma sys_service_procs:
  "sys_kmalloc n s = (a, s') \<Longrightarrow> procs s' = procs s"
  "sys_pmm_alloc k s = (a, s') \<Longrightarrow> procs s' = procs s"
  "sys_new_space s = (a, s') \<Longrightarrow> procs s' = procs s"
  "procs (sys_map_range pm va pa k fl s) = procs s"
  by (auto simp: sys_kmalloc_def sys_pmm_alloc_def sys_new_space_def sys_map_range_def
      split: prod.splits)

lemma map_regions_procs:
  "map_regions pm rs acc s = (e, us, s') \<Longrightarrow> procs s' = procs s \<and> e \<le> 0"
proof (induction rs arbitrary: acc s)
  case (Cons r rs)
  obtain a t where a: "sys_pmm_alloc (region_pages r) s = (a, t)"
    by (cases "sys_pmm_alloc (region_pages r) s")
  show ?case
    using Cons.prems Cons.IH sys_service_procs(2) [OF a] a sys_service_procs(4)
    by (simp add: Let_def split: if_splits)
qed simp

lemma enter_user_slot:
  assumes "proc_enter_user i pm e rs args s = (r, s')" "slot_is i pid rights s"
  shows "slot_is i pid rights s' \<and> (r = 0 \<or> r < 0)"
proof -
  obtain a t where a: "sys_pmm_alloc (USER_STACK_SIZE div 0x1000) s = (a, t)"
    by (cases "sys_pmm_alloc (USER_STACK_SIZE div 0x1000) s")
  have t: "slot_is i pid rights t" using slot_is_cong [OF sys_service_procs(2) [OF a] assms(2)] .
  have u: "slot_is i pid rights (sys_map_range pm va pa k fl t)" for va pa k fl
    using slot_is_cong [OF sys_service_procs(4) t] .
  show ?thesis
    using assms(1) a t u unfolding proc_enter_user_def Let_def
    by (auto simp: slot_is_def procs_upd split: if_splits)
qed

lemma pid_not_negative: "r < 0 \<Longrightarrow> \<not> p_present (procs s ! i) \<Longrightarrow> created i pid rights r s"
  by (simp add: created_def)

lemma slot_is_created: "slot_is i pid rights s \<Longrightarrow> created i pid rights (sint pid) s"
  by (simp add: created_def slot_is_def)

lemma absent_slot [simp]: "i < length (procs s) \<Longrightarrow> \<not> p_present (procs (absent i s) ! i)"
  by (simp add: absent_def procs_upd)

lemma absent_services [simp]:
  "procs (absent i (sys_kfree a s)) = procs (absent i s)"
  "procs (sys_kfree a (absent i s)) = procs (absent i s)"
  by (simp_all add: absent_def upd_def)

lemma fresh_slot_is:
  "i < length (procs s) \<Longrightarrow> slot_is i (next_pid s) r (fresh_user name r i s)"
  by (simp add: slot_is_def fresh_user_def upd_def)

lemma slot_is_upd:
  "slot_is i pid r s \<Longrightarrow> (\<And>p. p_present (f p) = p_present p \<and> p_state (f p) = p_state p \<and>
    p_pid (f p) = p_pid p \<and> p_rights (f p) = p_rights p) \<Longrightarrow> slot_is i pid r (upd i f s)"
  by (simp add: slot_is_def procs_upd)

lemma created_only:
  assumes "only_slot i s s'" "created i pid rights r s'" "sched_inv s" "cur_running s" "find_free s = Some i"
  shows "sched_inv s' \<and> cur_running s'"
  using sched_inv_only_slot [OF assms(1,3,4) find_free_not_cur(1) [OF assms(3,4,5)]] assms(2)
  by (auto simp: created_def)

lemma create_argv_spec:
  assumes r: "proc_create_argv name rights args entry s = (r, s')" and i: "find_free s = Some i"
    and l: "i < length (procs s)"
  shows "only_slot i s s' \<and> created i (next_pid s) rights r s'"
proof -
  define s1 where "s1 = upd i (\<lambda>p. p\<lparr>p_present := True, p_pid := next_pid s, p_name := proc_name name,
                  p_rights := rights, p_state := Ready, p_parent := 0, p_blocked_on := 0,
                  p_exit := 0, p_user := False, p_kstack_top := 0, p_umap := [], p_heap := None,
                  p_elf := [], p_wait_pid := 0, p_wait_code := 0\<rparr>) (s\<lparr>next_pid := next_pid s + 1\<rparr>)"
  define s2 where "s2 = proc_setup_stack i entry args s1"
  have s': "(if p_stack (procs s2 ! i) = 0
     then (-2, upd i (\<lambda>p. p\<lparr>p_present := False\<rparr>) s2) else (sint (next_pid s), s2)) = (r, s')"
    using r i
    by (simp only: proc_create_argv_def Let_def s1_def [symmetric] s2_def [symmetric] option.case)
  have o1: "only_slot i s s1" by (simp add: only_slot_def s1_def upd_def)
  have o2: "only_slot i s s2" unfolding s2_def by (rule only_slot_stack [OF o1])
  have l2: "i < length (procs s2)" using o2 l by (simp add: only_slot_def)
  have k1: "slot_is i (next_pid s) rights s1" using l by (simp add: slot_is_def s1_def upd_def)
  obtain a t where a: "sys_kmalloc (of_nat PROC_STACK_SIZE) s1 = (a, t)"
    by (cases "sys_kmalloc (of_nat PROC_STACK_SIZE) s1")
  obtain c u where c: "sys_new_space t = (c, u)" by (cases "sys_new_space t")
  have k: "slot_is i (next_pid s) rights u"
    using slot_is_cong [OF _ k1] sys_service_procs(1) [OF a] sys_service_procs(3) [OF c] by simp
  have "slot_is i (next_pid s) rights s2" if "p_stack (procs s2 ! i) \<noteq> 0"
  proof -
    have lt: "i < length (procs t)" using k1 sys_service_procs(1) [OF a] by (simp add: slot_is_def)
    have "a \<noteq> 0"
      using that lt a by (auto simp: s2_def proc_setup_stack_def procs_upd)
    then show ?thesis
      using k a c unfolding s2_def proc_setup_stack_def Let_def by (simp add: slot_is_upd)
  qed
  then show ?thesis
    using s' o2 l2
    by (auto simp: only_slot_upd slot_is_created procs_upd intro: pid_not_negative split: if_splits)
qed

lemma create_regions_spec:
  assumes r: "proc_create_user_regions name rights entry regs args s = (r, s')"
    and i: "find_free s = Some i" and l: "i < length (procs s)" and regs: "regs \<noteq> []" "length regs \<le> 7"
  shows "only_slot i s s' \<and> created i (next_pid s) rights r s'"
proof -
  define s1 where "s1 = fresh_user name rights i s"
  obtain st t1 where a: "sys_kmalloc (of_nat PROC_STACK_SIZE) s1 = (st, t1)"
    by (cases "sys_kmalloc (of_nat PROC_STACK_SIZE) s1")
  define s2 where "s2 = upd i (\<lambda>p. p\<lparr>p_stack := st\<rparr>) t1"
  obtain pm t2 where b: "sys_new_space s2 = (pm, t2)" by (cases "sys_new_space s2")
  define s3 where "s3 = upd i (\<lambda>p. p\<lparr>p_ctx := (p_ctx p)\<lparr>c_cr3 := pm\<rparr>\<rparr>) t2"
  obtain e us s4 where c: "map_regions pm regs [] s3 = (e, us, s4)"
    by (cases "map_regions pm regs [] s3")
  obtain q s5 where d: "proc_enter_user i pm entry us args s4 = (q, s5)"
    by (cases "proc_enter_user i pm entry us args s4")
  have res: "(if st = 0 then (-2, absent i s2)
      else if pm = 0 then (-3, absent i (sys_kfree st t2))
      else if e < 0 then (e, sys_kfree st (sys_free_space pm (absent i s4)))
      else if q < 0 then (q, sys_kfree st (absent i s5)) else (sint (next_pid s), s5)) = (r, s')"
  proof -
    have f: "(regs = [] \<or> 7 < length regs) = False" using regs by simp
    show ?thesis
      using r i a b c d
      by (simp only: proc_create_user_regions_def f if_False Let_def s1_def [symmetric]
          s2_def [symmetric] s3_def [symmetric] option.case prod.case)
  qed
  have k1: "slot_is i (next_pid s) rights s1" using l by (simp add: s1_def fresh_slot_is)
  have k2: "slot_is i (next_pid s) rights s2"
    unfolding s2_def using slot_is_cong [OF sys_service_procs(1) [OF a] k1] by (simp add: slot_is_upd)
  have kt: "slot_is i (next_pid s) rights t2" using slot_is_cong [OF sys_service_procs(3) [OF b] k2] .
  then have k3: "slot_is i (next_pid s) rights s3" unfolding s3_def by (simp add: slot_is_upd)
  have k4: "slot_is i (next_pid s) rights s4"
    using slot_is_cong [OF _ k3] map_regions_procs [OF c] by blast
  have k5: "slot_is i (next_pid s) rights s5" "q = 0 \<or> q < 0"
    using enter_user_slot [OF d k4] by auto
  have o1: "only_slot i s s1" unfolding s1_def by (intro slot_intros)
  have o2: "only_slot i s s2" unfolding s2_def by (intro slot_intros only_slot_kmalloc [OF a o1])
  have ot: "only_slot i s t2" by (rule only_slot_space [OF b o2])
  then have o3: "only_slot i s s3" unfolding s3_def by (intro slot_intros)
  have o4: "only_slot i s s4" by (rule only_slot_regions [OF c o3])
  have o5: "only_slot i s s5" by (rule only_slot_enter_user [OF d o4])
  have len: "i < length (procs s2)" "i < length (procs t2)" "i < length (procs s4)" "i < length (procs s5)"
    using o2 ot o4 o5 l by (simp_all add: only_slot_def)
  show ?thesis
    using res k5 o2 ot o4 o5 len
    by (auto simp: slot_is_created pid_not_negative slot_intros split: if_splits)
qed

lemma create_user_spec:
  assumes r: "proc_create_user_args name rights entry sz args s = (r, s')"
    and i: "find_free s = Some i" and l: "i < length (procs s)"
  shows "only_slot i s s' \<and> created i (next_pid s) rights r s'"
proof -
  define s1 where "s1 = fresh_user name rights i s"
  define n where "n = (if (sz + 0xFFF) div 0x1000 = 0 \<or> 512 < (sz + 0xFFF) div 0x1000
    then 512 else (sz + 0xFFF) div 0x1000)"
  obtain st t1 where a: "sys_kmalloc (of_nat PROC_STACK_SIZE) s1 = (st, t1)"
    by (cases "sys_kmalloc (of_nat PROC_STACK_SIZE) s1")
  define s2 where "s2 = upd i (\<lambda>p. p\<lparr>p_stack := st\<rparr>) t1"
  obtain pm t2 where b: "sys_new_space s2 = (pm, t2)" by (cases "sys_new_space s2")
  define s3 where "s3 = upd i (\<lambda>p. p\<lparr>p_ctx := (p_ctx p)\<lparr>c_cr3 := pm\<rparr>\<rparr>) t2"
  obtain ph t4 where c: "sys_pmm_alloc n s3 = (ph, t4)" by (cases "sys_pmm_alloc n s3")
  define s4 where "s4 = sys_map_range pm USER_VADDR_BASE ph n 0x5 t4"
  obtain q s5 where
    d: "proc_enter_user i pm entry [(USER_VADDR_BASE, of_nat n * 0x1000)] args s4 = (q, s5)"
    by (cases "proc_enter_user i pm entry [(USER_VADDR_BASE, of_nat n * 0x1000)] args s4")
  have res: "(if st = 0 then (-2, absent i s2)
      else if pm = 0 then (-3, absent i (sys_kfree st t2))
      else if ph = 0 then (-4, absent i (sys_kfree st t4))
      else if q < 0 then (q, absent i (sys_kfree st s5)) else (sint (next_pid s), s5)) = (r, s')"
    using r i a b c d
    by (simp only: proc_create_user_args_def Let_def s1_def [symmetric] s2_def [symmetric]
        s3_def [symmetric] n_def [symmetric] s4_def [symmetric] option.case prod.case)
  have k1: "slot_is i (next_pid s) rights s1" using l by (simp add: s1_def fresh_slot_is)
  have k2: "slot_is i (next_pid s) rights s2"
    unfolding s2_def using slot_is_cong [OF sys_service_procs(1) [OF a] k1] by (simp add: slot_is_upd)
  have kt: "slot_is i (next_pid s) rights t2" using slot_is_cong [OF sys_service_procs(3) [OF b] k2] .
  then have k3: "slot_is i (next_pid s) rights s3" unfolding s3_def by (simp add: slot_is_upd)
  have k4: "slot_is i (next_pid s) rights s4"
    unfolding s4_def using slot_is_cong [OF sys_service_procs(2) [OF c] k3] sys_service_procs(4)
    by (metis slot_is_cong)
  have k5: "slot_is i (next_pid s) rights s5" "q = 0 \<or> q < 0"
    using enter_user_slot [OF d k4] by auto
  have o1: "only_slot i s s1" unfolding s1_def by (intro slot_intros)
  have o2: "only_slot i s s2" unfolding s2_def by (intro slot_intros only_slot_kmalloc [OF a o1])
  have ot: "only_slot i s t2" by (rule only_slot_space [OF b o2])
  then have o3: "only_slot i s s3" unfolding s3_def by (intro slot_intros)
  have ot4: "only_slot i s t4" by (rule only_slot_pmm [OF c o3])
  then have o4: "only_slot i s s4" unfolding s4_def by (intro slot_intros)
  have o5: "only_slot i s s5" by (rule only_slot_enter_user [OF d o4])
  have len: "i < length (procs s2)" "i < length (procs t2)" "i < length (procs t4)" "i < length (procs s5)"
    using o2 ot ot4 o5 l by (simp_all add: only_slot_def)
  show ?thesis
    using res k5 o2 ot ot4 o5 len
    by (auto simp: slot_is_created pid_not_negative slot_intros split: if_splits)
qed

section \<open>The exit code reaches the parent\<close>

text \<open>Whoever exits, its parent's slot holds the pid and the code afterwards, and a
  blocked parent is ready again.\<close>

lemma proc_exit_delivers:
  assumes inv: "sched_inv s" and c: "cur s = Some i" and par: "proc_get s (p_parent (procs s ! i)) = Some j"
    and ij: "j \<noteq> i" and e: "proc_exit code s = Some s'"
  shows "p_wait_pid (procs s' ! j) = p_pid (procs s ! i)" "p_wait_code (procs s' ! j) = code"
    "p_state (procs s' ! j) \<noteq> Blocked" "p_present (procs s' ! j)" "p_state (procs s' ! i) = Terminated"
    "p_state (procs s ! j) = Blocked \<or> p_state (procs s ! j) = Ready \<Longrightarrow>
      p_state (procs s' ! j) = Ready \<or> p_state (procs s' ! j) = Running" "p_pid (procs s' ! j) = p_parent (procs s ! i)"
proof -
  let ?me = "procs s ! i"
  define s1 where "s1 = sched_wakeup (p_parent ?me)
     (upd j (\<lambda>p. p\<lparr>p_wait_pid := p_pid ?me, p_wait_code := code\<rparr>) s)"
  define s2 where "s2 = upd i (\<lambda>p. p\<lparr>p_exit := code, p_state := Terminated\<rparr>) s1"
  obtain n where n: "next_ready_from s2 (cur_index s2 + 1) = Some n" "s' = enter n (dispatch n s2)"
    using e c par by (auto simp: proc_exit_def s1_def s2_def Let_def split: option.splits)
  note P = proc_get_SomeD [OF par]
  let ?u = "upd j (\<lambda>p. p\<lparr>p_wait_pid := p_pid ?me, p_wait_code := code\<rparr>) s"
  have m: "map (\<lambda>p. p_present p \<and> p_pid p = p_parent ?me) (procs ?u) =
      map (\<lambda>p. p_present p \<and> p_pid p = p_parent ?me) (procs s)"
    by (rule nth_equalityI) (auto simp: procs_upd_any)
  have mp: "first_index P xs = first_index id (map P xs)" for P and xs :: "pcb list"
    by (induction xs) auto
  have "proc_get ?u (p_parent ?me) = proc_get s (p_parent ?me)"
    unfolding proc_get_def mp m ..
  then have g: "proc_get ?u (p_parent ?me) = Some j" using par by simp
  have w: "p_wait_pid (procs s1 ! j) = p_pid ?me \<and> p_wait_code (procs s1 ! j) = code \<and>
      p_state (procs s1 ! j) \<noteq> Blocked \<and> p_present (procs s1 ! j) \<and> p_pid (procs s1 ! j) = p_pid (procs s ! j) \<and>
      p_state (procs s1 ! j) = (if p_state (procs s ! j) = Blocked then Ready else p_state (procs s ! j))"
    using g P(1,2) by (auto simp: s1_def sched_wakeup_def procs_upd_any)
  have l: "length (procs s2) = length (procs s)" by (simp add: s2_def s1_def)
  have i: "i < length (procs s)" using sched_invD(1) [OF inv] sched_invD(2) [OF inv c] by simp
  have nn: "n \<noteq> i"
    using next_ready_SomeD(2) [OF n(1)] i l by (auto simp: runnable_def s2_def procs_upd_any s1_def)
  have f: "p_wait_pid (procs s' ! k) = p_wait_pid (procs s2 ! k) \<and>
      p_wait_code (procs s' ! k) = p_wait_code (procs s2 ! k) \<and>
      p_present (procs s' ! k) = p_present (procs s2 ! k) \<and> p_pid (procs s' ! k) = p_pid (procs s2 ! k) \<and>
      p_state (procs s' ! k) = (if k = n then Running else p_state (procs s2 ! k))"
    if "k < length (procs s)" for k
    using that l
    by (simp add: n(2) enter_def dispatch_def set_state_def procs_upd_any)
  have s2j: "procs s2 ! j = procs s1 ! j" using ij by (simp add: s2_def)
  show "p_wait_pid (procs s' ! j) = p_pid (procs s ! i)" "p_wait_code (procs s' ! j) = code"
    "p_state (procs s' ! j) \<noteq> Blocked" "p_present (procs s' ! j)"
    "p_pid (procs s' ! j) = p_parent ?me"
    using f [OF P(1)] w s2j P by auto
  show "p_state (procs s' ! j) = Ready \<or> p_state (procs s' ! j) = Running"
    if "p_state (procs s ! j) = Blocked \<or> p_state (procs s ! j) = Ready"
    using f [OF P(1)] w s2j that by auto
  show "p_state (procs s' ! i) = Terminated"
    using f [OF i] nn i l by (simp add: s2_def procs_upd_any s1_def)
qed



definition wslot :: "sys \<Rightarrow> nat \<Rightarrow> u32 \<times> u32 \<times> u32" where
  "wslot s j = (p_pid (procs s ! j), p_wait_pid (procs s ! j), p_wait_code (procs s ! j))"

lemma wslot_upd:
  "(\<And>p. p_pid (f p) = p_pid p \<and> p_wait_pid (f p) = p_wait_pid p \<and> p_wait_code (f p) = p_wait_code p) \<Longrightarrow>
    wslot (upd i f s) j = wslot s j"
  by (auto simp: wslot_def procs_upd_any)

lemma wslot_procs: "procs s' = procs s \<Longrightarrow> wslot s' j = wslot s j"
  by (simp add: wslot_def)

lemma wslot_basic [simp]:
  "wslot (set_state st i s) j = wslot s j" "wslot (load_cr3 c s) j = wslot s j"
  "wslot (s\<lparr>cur_index := n, cur := m\<rparr>) j = wslot s j"
  by (simp add: set_state_def wslot_upd) (rule wslot_procs, simp)+

lemma wslot_switch [simp]:
  "wslot (enter n s) j = wslot s j" "wslot (dispatch n s) j = wslot s j" "wslot (sched_switch a n s) j = wslot s j"
  "wslot (demote s) j = wslot s j" "wslot (sched_wakeup q s) j = wslot s j"
  by (simp_all add: enter_def dispatch_def sched_switch_def demote_def sched_wakeup_def wslot_upd split: option.split)

lemma wslot_gc [simp]: "wslot (proc_gc_run s) j = wslot s j"
proof -
  have "wslot (gc_slot i t) j = wslot t j" for i t
    by (auto simp: wslot_def gc_slot_def Let_def procs_upd_any)
  then have "wslot (fold gc_slot is t) j = wslot t j" for "is" t by (induction "is" arbitrary: t) simp_all
  then show ?thesis by (simp add: proc_gc_run_def)
qed

lemma wslot_sched [simp]:
  "wslot (sched_yield s) j = wslot s j" "wslot (sched_block s) j = wslot s j" "wslot (sched_tick s) j = wslot s j"
  "wslot (snd (sched_preempt_pick s)) j = wslot s j"
  by (auto simp: sched_yield_def sched_block_def sched_tick_def sched_preempt_pick_def Let_def split: option.split)



text \<open>A wait that starts after the collection finds no such process.\<close>

lemma waitpid_after_gc:
  assumes "cur s = Some j" "proc_get s pid = None"
  shows "proc_waitpid pid s = (WDone (-1), s)"
  using assms by (simp add: proc_waitpid_def)

section \<open>Properties\<close>

text \<open>An example: process 1 runs in slot 0, its child, process 2, is ready in slot 1.\<close>

definition two_procs :: sys where
  "two_procs = zero_sys\<lparr>next_pid := 3, sched_running := True, cur := Some 0,
     procs := [zero_pcb\<lparr>p_present := True, p_pid := 1, p_state := Running\<rparr>,
       zero_pcb\<lparr>p_present := True, p_pid := 2, p_state := Ready, p_parent := 1\<rparr>] @
       replicate 62 zero_pcb\<rparr>"

lemma two_procs_nth:
  "procs two_procs ! 0 = zero_pcb\<lparr>p_present := True, p_pid := 1, p_state := Running\<rparr>"
  "procs two_procs ! 1 = zero_pcb\<lparr>p_present := True, p_pid := 2, p_state := Ready, p_parent := 1\<rparr>"
  "1 < i \<Longrightarrow> i < MAX_PROCS \<Longrightarrow> procs two_procs ! i = zero_pcb"
  by (simp_all add: two_procs_def MAX_PROCS_def nth_append nth_Cons' )

lemma two_procs_inv: "sched_inv two_procs" "cur_running two_procs"
proof -
  have l: "length (procs two_procs) = MAX_PROCS" by (simp add: two_procs_def MAX_PROCS_def)
  have r: "i = 0" if "i < MAX_PROCS" "p_state (procs two_procs ! i) = Running" for i
  proof -
    consider "i = 0" | "i = 1" | "1 < i" by linarith
    then show ?thesis using that two_procs_nth(2) two_procs_nth(3) [of i] by cases (simp_all add: zero_pcb_def)
  qed
  show "sched_inv two_procs"
    unfolding sched_inv_def using l r two_procs_nth(1) by (auto simp: two_procs_def zero_sys_def)
  show "cur_running two_procs"
    unfolding cur_running_def using two_procs_nth(1) by (simp add: two_procs_def)
qed

text \<open>C12. The scheduler is fair: a process that is ready runs after at most 64 yields,
  whatever the other processes are.\<close>

theorem yield_fair:
  assumes "sched_inv s" "cur_running s" "sched_running s" "j < MAX_PROCS" "runnable s j"
  shows "\<exists>n\<le>MAX_PROCS. 0 < n \<and> cur ((sched_yield ^^ n) s) = Some j"
proof -
  obtain c where c: "ahead s j c" using ahead_ex [OF assms(4)] by blast
  have "c + 1 \<le> MAX_PROCS" using c by (simp add: ahead_def)
  then show ?thesis using yield_reaches [OF assms c] by (meson le_trans)
qed

lemma yield_fair_witness: "\<exists>n\<le>MAX_PROCS. 0 < n \<and> cur ((sched_yield ^^ n) two_procs) = Some 1"
  using yield_fair [OF two_procs_inv, of 1] two_procs_nth(2)
  by (simp add: two_procs_def runnable_def MAX_PROCS_def)


definition child_runs :: sys where
  "child_runs = two_procs\<lparr>cur := Some 1, cur_index := 1,
     procs := [zero_pcb\<lparr>p_present := True, p_pid := 1, p_state := Blocked\<rparr>,
       zero_pcb\<lparr>p_present := True, p_pid := 2, p_state := Running, p_parent := 1\<rparr>] @
       replicate 62 zero_pcb\<rparr>"

lemma child_runs_nth:
  "procs child_runs ! 0 = zero_pcb\<lparr>p_present := True, p_pid := 1, p_state := Blocked\<rparr>"
  "procs child_runs ! 1 = zero_pcb\<lparr>p_present := True, p_pid := 2, p_state := Running, p_parent := 1\<rparr>"
  "1 < i \<Longrightarrow> i < MAX_PROCS \<Longrightarrow> procs child_runs ! i = zero_pcb"
  by (simp_all add: child_runs_def MAX_PROCS_def nth_append nth_Cons')

lemma child_runs_inv: "sched_inv child_runs" "cur child_runs = Some 1"
  "proc_get child_runs 1 = Some 0" "length (procs child_runs) = MAX_PROCS"
proof -
  show l: "length (procs child_runs) = MAX_PROCS" by (simp add: child_runs_def MAX_PROCS_def)
  have r: "i = 1" if "i < MAX_PROCS" "p_state (procs child_runs ! i) = Running" for i
  proof -
    consider "i = 0" | "i = 1" | "1 < i" by linarith
    then show ?thesis using that child_runs_nth(1) child_runs_nth(3) [of i] by cases (simp_all add: zero_pcb_def)
  qed
  show "sched_inv child_runs"
    unfolding sched_inv_def using l r child_runs_nth(2) by (auto simp: child_runs_def MAX_PROCS_def)
  show "cur child_runs = Some 1" by (simp add: child_runs_def)
  show "proc_get child_runs 1 = Some 0" by (simp add: proc_get_def child_runs_def)
qed

lemma child_exits: "proc_exit code child_runs \<noteq> None"
proof
  assume n: "proc_exit code child_runs = None"
  let ?s1 = "upd 0 (\<lambda>p. p\<lparr>p_wait_pid := 2, p_wait_code := code\<rparr>) child_runs"
  let ?s2 = "upd 1 (\<lambda>p. p\<lparr>p_exit := code, p_state := Terminated\<rparr>) (sched_wakeup 1 ?s1)"
  note I = child_runs_inv
  have n0: "procs ?s1 ! 0 = (procs child_runs ! 0)\<lparr>p_wait_pid := 2, p_wait_code := code\<rparr>"
    using I(4) by (simp add: procs_upd)
  have "proc_get ?s1 1 = Some 0" using n0 child_runs_nth(1)
    by (simp add: proc_get_def upd_def child_runs_def)
  then have "sched_wakeup 1 ?s1 = upd 0 (\<lambda>p. p\<lparr>p_state := Ready, p_blocked_on := 0\<rparr>) ?s1"
    using n0 child_runs_nth(1) by (simp add: sched_wakeup_def)
  then have "runnable ?s2 0" using n0 I(4) child_runs_nth(1) by (simp add: runnable_def procs_upd)
  then have "next_ready_from ?s2 (cur_index ?s2 + 1) \<noteq> None" using next_ready_NoneD by fastforce
  then show False using n I(2,3) child_runs_nth(2) by (simp add: proc_exit_def Let_def split: option.splits)
qed


text \<open>The exit of another child takes the slot: the wait for the first one then ends with -1, or follows
  the null pointer when the first one has been collected.\<close>

theorem sibling_takes_slot:
  assumes "sched_inv s" "cur s = Some i" "proc_get s (p_parent (procs s ! i)) = Some j" "j \<noteq> i"
    "proc_exit code s = Some s'" "pid \<noteq> p_pid (procs s ! i)"
    "\<forall>k. proc_get s' pid = Some k \<longrightarrow> p_state (procs s' ! k) = Terminated"
  shows "fst (waitpid_resume pid j s') = (if proc_get s' pid = None then WFault else WDone (- 1))"
  using proc_exit_delivers(1) [OF assms(1-5)] assms(6,7)
  by (auto simp: waitpid_resume_def wait_turn_def split: option.split)

lemma sibling_takes_slot_witness:
  "\<exists>s'. proc_exit 7 child_runs = Some s' \<and> (proc_get s' 3 = None \<longrightarrow> fst (waitpid_resume 3 0 s') = WFault)"
proof -
  obtain s' where s': "proc_exit 7 child_runs = Some s'" using child_exits by fastforce
  from sibling_takes_slot [OF child_runs_inv(1,2) _ _ s', of 0 3] child_runs_nth(2) child_runs_inv(3) s'
  show ?thesis by auto
qed

text \<open>The collector removes the processes that terminated and no other: every other slot is as it was.\<close>

theorem gc_reaps_dead:
  assumes "length (procs s) = MAX_PROCS" "j < MAX_PROCS"
  shows "(p_present (procs (proc_gc_run s) ! j) \<longleftrightarrow> p_present (procs s ! j) \<and> p_state (procs s ! j) \<noteq> Terminated) \<and>
    (\<not> dead s j \<longrightarrow> procs (proc_gc_run s) ! j = procs s ! j) \<and> cur (proc_gc_run s) = cur s"
proof (cases "dead s j")
  case True
  then show ?thesis using gc_run(2,7) [OF assms(1)] assms(2) by (simp add: dead_def)
next
  case False
  then show ?thesis using gc_run(2,6) [OF assms(1)] assms(2) by (auto simp: dead_def)
qed

lemma gc_reaps_dead_witness: "p_present (procs (proc_gc_run two_procs) ! 1)"
proof -
  have "length (procs two_procs) = MAX_PROCS" "1 < MAX_PROCS" by (simp_all add: two_procs_def MAX_PROCS_def)
  from gc_reaps_dead [OF this] show ?thesis unfolding two_procs_nth(2) by simp
qed

text \<open>Starting a program from its segments touches one free slot.  If it succeeds that slot holds a
  ready process with the next pid and the rights asked for; if it fails the slot is free; in both cases
  every other slot and the running process stay as they are, and the scheduler's invariant holds.\<close>

theorem create_one_slot:
  assumes "sched_inv s" "cur_running s" "find_free s = Some i" "regs \<noteq> []" "length regs \<le> 7"
    "proc_create_user_regions name rights entry regs args s = (r, s')"
  shows "created i (next_pid s) rights r s' \<and> (\<forall>j. j \<noteq> i \<longrightarrow> procs s' ! j = procs s ! j) \<and>
    cur s' = cur s \<and> sched_inv s' \<and> cur_running s'"
proof -
  have l: "i < length (procs s)" using find_free_not_cur(2) [OF assms(1,2,3)] .
  note C = create_regions_spec [OF assms(6,3) l assms(4,5)]
  show ?thesis
    using C created_only [OF C [THEN conjunct1] C [THEN conjunct2] assms(1,2,3)] by (simp add: only_slot_def)
qed

lemma create_one_slot_witness:
  "sched_inv (snd (proc_create_user_regions None 0 0x200000000000 [\<lparr>r_vaddr = 0x200000000000, r_fileSz = 0,
     r_memSz = 0x1000, r_flags = 2\<rparr>] [] two_procs))"
proof -
  have "find_free two_procs = Some 2"
  proof -
    have "first_index (\<lambda>p. \<not> p_present p \<or> p_state p = Terminated) (replicate (Suc n) zero_pcb) = Some 0" for n
      by (simp add: zero_pcb_def)
    from this [of 61] show ?thesis by (simp add: find_free_def two_procs_def)
  qed
  from create_one_slot [OF two_procs_inv this _ _ surjective_pairing] show ?thesis by simp
qed

end
