(* ===== verification/RamFs.thy ===== *)
theory RamFs
  imports Process
begin

text \<open>
  The in-memory file system (src/kernel/fs.c): 128 nodes, each a full path, a
  type and a buffer of the kernel heap, and the manifest of the embedded
  modules.

  The buffer of a node is its heap address, its capacity and the bytes it
  holds; the heap is the one of the process table's state.  \<open>owner\<close> is the value
  of \<open>auth_user_index_current()\<close>, an argument here.
\<close>

section \<open>Manifest flags\<close>

definition mod_sep :: "char \<Rightarrow> bool" where
  "mod_sep c \<longleftrightarrow> c = CHR '' '' \<or> c = CHR ''='' \<or> c = CHR '':'' \<or> c = CHR 0x09"

definition mod_value :: "string \<Rightarrow> bool" where
  "mod_value v \<longleftrightarrow> v \<noteq> [] \<and>
    (strncmp v ''sim'' 3 = 0 \<or> strncmp v ''yes'' 3 = 0 \<or> strncmp v ''true'' 4 = 0 \<or>
     strncmp v ''1'' 1 = 0)"

function mod_flag :: "string \<Rightarrow> string \<Rightarrow> bool" where
  "mod_flag cfg key =
    (if cfg = [] then False
     else
       let line = takeWhile (\<lambda>c. c \<noteq> CHR 0x0A) cfg;
           ls = dropWhile (\<lambda>c. c = CHR '' '' \<or> c = CHR 0x09) line;
           cl = strlen key
       in if cl \<le> length ls \<and> strncmp ls key cl = 0 \<and> (length ls = cl \<or> mod_sep (ls ! cl))
          then mod_value (dropWhile mod_sep (drop cl ls))
          else mod_flag (drop (length line + 1) cfg) key)"
  by pat_completeness auto
termination by (relation "measure (\<lambda>(cfg, key). length cfg)") (auto simp: Let_def)

declare mod_flag.simps [simp del]

definition mod_is_kormi :: "string \<Rightarrow> bool" where
  "mod_is_kormi cfg = mod_flag cfg ''kormi''"

text \<open>The table of embedded modules is generated by the build; it is an argument.\<close>

record mod_rec =
  md_name :: string
  md_elf :: string
  md_cfg :: string

definition fs_mod_name :: "mod_rec list \<Rightarrow> nat \<Rightarrow> string option" where
  "fs_mod_name mods i = (if i < length mods then Some (md_name (mods ! i)) else None)"

definition fs_mod_elf :: "mod_rec list \<Rightarrow> nat \<Rightarrow> string option" where
  "fs_mod_elf mods i = (if i < length mods then Some (md_elf (mods ! i)) else None)"

definition fs_mod_cfg :: "mod_rec list \<Rightarrow> nat \<Rightarrow> string option" where
  "fs_mod_cfg mods i = (if i < length mods then Some (md_cfg (mods ! i)) else None)"

definition fs_mod_is_kormi :: "mod_rec list \<Rightarrow> nat \<Rightarrow> bool" where
  "fs_mod_is_kormi mods i = (if i < length mods then mod_flag (md_cfg (mods ! i)) ''kormi'' else False)"

section \<open>Nodes\<close>

datatype fs_type = TFile | TDir | TSymlink

record fs_node =
  f_path :: string
  f_ptr :: u64
  f_data :: string
  f_cap :: nat
  f_type :: fs_type
  f_used :: bool
  f_owner :: u8
  f_world_read :: bool
  f_world_write :: bool

record fs =
  fs_nodes :: "fs_node list"
  fs_count :: nat

definition FS_MAX_FILES :: nat where "FS_MAX_FILES = 128"
definition FS_MAX_DATA :: nat where "FS_MAX_DATA = 4 * 1024 * 1024"

definition fs_init :: fs where
  "fs_init = \<lparr>fs_nodes = replicate FS_MAX_FILES \<lparr>f_path = '''', f_ptr = 0, f_data = [], f_cap = 0,
     f_type = TFile, f_used = False, f_owner = 0xFF, f_world_read = True, f_world_write = True\<rparr>,
     fs_count = 0\<rparr>"

definition fs_get :: "string \<Rightarrow> fs \<Rightarrow> nat option" where
  "fs_get path f = first_index (\<lambda>n. f_used n \<and> streq (f_path n) path) (fs_nodes f)"

definition fs_exists :: "string \<Rightarrow> fs \<Rightarrow> bool" where
  "fs_exists path f \<longleftrightarrow> streq path ''/'' \<or> fs_get path f \<noteq> None"

definition fs_is_dir :: "string \<Rightarrow> fs \<Rightarrow> bool" where
  "fs_is_dir path f \<longleftrightarrow> streq path ''/'' \<or>
    (case fs_get path f of None \<Rightarrow> False | Some i \<Rightarrow> f_type (fs_nodes f ! i) = TDir)"

text \<open>The character of a C string at an index no further than its terminator.\<close>

definition at :: "string \<Rightarrow> nat \<Rightarrow> char" where
  "at s i = (if i < length s then s ! i else NUL)"

definition fs_has_children :: "string \<Rightarrow> fs \<Rightarrow> bool" where
  "fs_has_children path f =
    list_ex (\<lambda>n. f_used n \<and> strncmp (f_path n) path (strlen path) = 0 \<and>
      at (f_path n) (strlen path) = CHR ''/'') (fs_nodes f)"

definition fs_upd :: "nat \<Rightarrow> fs_node \<Rightarrow> fs \<Rightarrow> fs" where
  "fs_upd i n f = f\<lparr>fs_nodes := (fs_nodes f)[i := n]\<rparr>"

text \<open>The parent test of \<open>fs_create\<close>: the prefix up to the last slash is a
  directory.\<close>

definition parent_ok :: "string \<Rightarrow> fs \<Rightarrow> bool" where
  "parent_ok path f =
    (case strrchr path (CHR ''/'') of
       None \<Rightarrow> True
     | Some k \<Rightarrow> if k = 0 then strlen path \<noteq> 1 else k < 256 \<and> fs_is_dir (take k path) f)"

definition fs_create :: "u8 \<Rightarrow> string \<Rightarrow> fs_type \<Rightarrow> fs \<Rightarrow> int \<times> fs" where
  "fs_create owner path type f =
    (if streq path ''/'' then (-1, f)
     else if fs_get path f \<noteq> None then (-1, f)
     else case first_index (\<lambda>n. \<not> f_used n) (fs_nodes f) of
       None \<Rightarrow> (-1, f)
     | Some i \<Rightarrow>
        if \<not> parent_ok path f then (-1, f)
        else (0, (fs_upd i \<lparr>f_path = clip 255 path, f_ptr = 0, f_data = [], f_cap = 0,
            f_type = type, f_used = True, f_owner = owner, f_world_read = (owner = 0xFF),
            f_world_write = False\<rparr> f)\<lparr>fs_count := fs_count f + 1\<rparr>))"

function grow_cap :: "nat \<Rightarrow> nat \<Rightarrow> nat" where
  "grow_cap c n = (if 0 < c \<and> c < n then grow_cap (c * 2) n else c)"
  by pat_completeness auto
termination by (relation "measure (\<lambda>(c, n). n - c)") auto

declare grow_cap.simps [simp del]

definition fs_write :: "string \<Rightarrow> string \<Rightarrow> fs \<Rightarrow> sys \<Rightarrow> int \<times> fs \<times> sys" where
  "fs_write path data f s =
    (if FS_MAX_DATA < length data then (-1, f, s)
     else case fs_get path f of
       None \<Rightarrow> (-1, f, s)
     | Some i \<Rightarrow>
        let n = fs_nodes f ! i in
        if f_type n = TDir then (-1, f, s)
        else if f_cap n < length data then
          let cap = grow_cap (if f_cap n \<noteq> 0 then f_cap n * 2 else 256) (length data) in
          case sys_kmalloc (of_nat cap) s of (nd, s) \<Rightarrow>
            if nd = 0 then (-1, f, s)
            else (0, fs_upd i (n\<lparr>f_ptr := nd, f_cap := cap, f_data := data\<rparr>) f,
                  if f_ptr n \<noteq> 0 then sys_kfree (f_ptr n) s else s)
        else (0, fs_upd i (n\<lparr>f_data := data\<rparr>) f, s))"

definition fs_read :: "string \<Rightarrow> nat \<Rightarrow> fs \<Rightarrow> string option" where
  "fs_read path mx f =
    (case fs_get path f of
       None \<Rightarrow> None
     | Some i \<Rightarrow> if f_type (fs_nodes f ! i) = TDir then None
                 else Some (take mx (f_data (fs_nodes f ! i))))"

definition fs_remove :: "string \<Rightarrow> fs \<Rightarrow> sys \<Rightarrow> int \<times> fs \<times> sys" where
  "fs_remove path f s =
    (if streq path ''/'' then (-1, f, s)
     else case fs_get path f of
       None \<Rightarrow> (-1, f, s)
     | Some i \<Rightarrow>
        let n = fs_nodes f ! i in
        if f_type n = TDir \<and> fs_has_children path f then (-1, f, s)
        else (0, (fs_upd i (n\<lparr>f_used := False, f_ptr := 0, f_data := [], f_cap := 0\<rparr>) f)
                   \<lparr>fs_count := fs_count f - 1\<rparr>,
              if f_ptr n \<noteq> 0 then sys_kfree (f_ptr n) s else s))"

definition fs_copy :: "u8 \<Rightarrow> string \<Rightarrow> string \<Rightarrow> fs \<Rightarrow> sys \<Rightarrow> int \<times> fs \<times> sys" where
  "fs_copy owner src dst f s =
    (case fs_get src f of
       None \<Rightarrow> (-1, f, s)
     | Some i \<Rightarrow>
        if f_type (fs_nodes f ! i) = TDir \<or> fs_get dst f \<noteq> None then (-1, f, s)
        else case fs_create owner dst TFile f of (r, f') \<Rightarrow>
          if r \<noteq> 0 then (-1, f', s) else fs_write dst (f_data (fs_nodes f ! i)) f' s)"

definition fs_move :: "u8 \<Rightarrow> string \<Rightarrow> string \<Rightarrow> fs \<Rightarrow> sys \<Rightarrow> int \<times> fs \<times> sys" where
  "fs_move owner src dst f s =
    (case fs_copy owner src dst f s of (r, f, s) \<Rightarrow>
      if r \<noteq> 0 then (r, f, s) else fs_remove src f s)"

text \<open>Whether \<open>fs_list\<close> shows a node under \<open>dir\<close>, and the name it prints.\<close>

definition list_name :: "string \<Rightarrow> fs_node \<Rightarrow> string option" where
  "list_name dir n =
    (let p = f_path n; dl = strlen dir in
     if \<not> f_used n \<or> streq p dir then None
     else if streq dir ''/'' then
       (if at p 0 \<noteq> CHR ''/'' then None
        else if cstr (drop 1 p) = [] \<or> strchr (drop 1 p) (CHR ''/'') \<noteq> None then None
        else Some (drop 1 p))
     else if strncmp p dir dl \<noteq> 0 \<or> at p dl \<noteq> CHR ''/'' \<or>
             strchr (drop (dl + 1) p) (CHR ''/'') \<noteq> None then None
     else Some (drop (dl + 1) p))"

fun list_loop :: "string \<Rightarrow> nat \<Rightarrow> fs_node list \<Rightarrow> string \<Rightarrow> bool \<Rightarrow> string \<times> bool" where
  "list_loop dir mx [] out any = (out, any)"
| "list_loop dir mx (n # ns) out any =
    (case list_name dir n of
       None \<Rightarrow> list_loop dir mx ns out any
     | Some name \<Rightarrow>
        let t = sformat (mx - length out) (''  %s   %s'' @ [CHR 0x0A])
              [AStr (Some (if f_type n = TDir then ''<DIR>'' else ''<ARQ>'')), AStr (Some name)]
        in if mx \<le> length out + length t then (out, True)
           else list_loop dir mx ns (out @ t) True)"

definition fs_list :: "string \<Rightarrow> nat \<Rightarrow> fs \<Rightarrow> string" where
  "fs_list dir mx f =
    (case list_loop dir mx (fs_nodes f) [] False of (out, any) \<Rightarrow>
      if any then out
      else let t = sformat (mx - length out) (''  (vazio)'' @ [CHR 0x0A]) [] in
        if t \<noteq> [] \<and> length out + length t < mx then out @ t else out)"

section \<open>The initial tree\<close>

definition put_file :: "u8 \<Rightarrow> string \<Rightarrow> string \<Rightarrow> fs \<times> sys \<Rightarrow> fs \<times> sys" where
  "put_file owner path data st =
    (case st of (f, s) \<Rightarrow>
      case fs_write path data (snd (fs_create owner path TFile f)) s of (_, f, s) \<Rightarrow> (f, s))"

definition copy_file :: "u8 \<Rightarrow> string \<Rightarrow> string \<Rightarrow> fs \<times> sys \<Rightarrow> fs \<times> sys" where
  "copy_file owner src dst st =
    (case st of (f, s) \<Rightarrow> case fs_copy owner src dst f s of (_, f, s) \<Rightarrow> (f, s))"

abbreviation LF :: char where "LF \<equiv> CHR 0x0A"

definition default_dirs :: "string list" where
  "default_dirs = [''/'', ''/bin'', ''/kormi'', ''/praxis'', ''/idios'', ''/idios/thais'', ''/oikos'',
     ''/synallagma'', ''/aisthesis'', ''/kinesis'', ''/nomos'', ''/paradosis'']"

definition idios_pacto :: string where
  "idios_pacto = ''[titulo]'' @ [LF] @ ''nome = \"Acesso ao lar do individuo\"'' @ [LF, LF] @
     ''caminho = \"/idios\"'' @ [LF] @ ''leitura = true'' @ [LF] @ ''escrita = true'' @ [LF] @
     ''execucao = false'' @ [LF] @ ''voluntario = true'' @ [LF] @ ''revogavel = true'' @ [LF]"

definition fs_init_defaults :: "mod_rec list \<Rightarrow> u8 \<Rightarrow> fs \<times> sys \<Rightarrow> fs \<times> sys" where
  "fs_init_defaults mods owner st0 =
    (let st = (fold (\<lambda>d f. snd (fs_create owner d TDir f)) default_dirs (fst st0), snd st0);
         st = put_file owner ''/idios/thais/boas_vindas.txt''
           (''Siath OS - Made with love by Thais (op3n/op3ny)'' @ [LF] @
            ''Sistema de arquivos voluntario (ramfs), sem root.'' @ [LF] @
            ''Tente: horasis, metabasis, ktisis, graphe'' @ [LF]) st;
         st = put_file owner ''/nomos/manifesto.txt''
           (''Praxeologia: toda acao e praxis. Sem coercente central, ordem emerge de contratos.''
            @ [LF]) st;
         st = put_file owner ''/paradosis/exemplo.txt''
           (take 32 (''exemplo de arquivo em /paradosis'' @ [LF])) st;
         st = put_file owner ''/synallagma/idios.pacto'' idios_pacto st;
         st = fold (\<lambda>m st.
           put_file owner (sformat 256 ''/bin/%s.cfg'' [AStr (Some (md_name m))]) (md_cfg m)
             (put_file owner (sformat 256 ''/bin/%s'' [AStr (Some (md_name m))]) (md_elf m) st)) mods st;
         st = copy_file owner ''/bin/spoudazo'' ''/praxis/spoudazo'' st;
         st = copy_file owner ''/bin/praxia'' ''/praxis/praxia'' st
     in fold (\<lambda>m st. if mod_flag (md_cfg m) ''kormi''
           then copy_file owner (sformat 256 ''/bin/%s'' [AStr (Some (md_name m))])
                  (sformat 256 ''/kormi/%s'' [AStr (Some (md_name m))]) st
           else st) mods st)"

section \<open>Lookup after each operation\<close>

definition node_at :: "string \<Rightarrow> fs \<Rightarrow> fs_node option" where
  "node_at p f = map_option (nth (fs_nodes f)) (fs_get p f)"

definition used_paths :: "fs \<Rightarrow> string list" where
  "used_paths f = map (\<lambda>n. cstr (f_path n)) (filter f_used (fs_nodes f))"

definition fs_ok :: "fs \<Rightarrow> bool" where
  "fs_ok f \<longleftrightarrow> length (fs_nodes f) = FS_MAX_FILES \<and>
    (\<forall>i j. i < FS_MAX_FILES \<longrightarrow> j < FS_MAX_FILES \<longrightarrow> f_used (fs_nodes f ! i) \<longrightarrow>
       f_used (fs_nodes f ! j) \<longrightarrow> cstr (f_path (fs_nodes f ! i)) = cstr (f_path (fs_nodes f ! j)) \<longrightarrow>
       i = j) \<and>
    fs_count f = length (filter f_used (fs_nodes f))"

abbreviation is_at :: "string \<Rightarrow> fs_node \<Rightarrow> bool" where
  "is_at p n \<equiv> f_used n \<and> strcmp (f_path n) p = 0"

lemma fs_get_SomeD:
  assumes "fs_get p f = Some i"
  shows "i < length (fs_nodes f)" "f_used (fs_nodes f ! i)" "cstr (f_path (fs_nodes f ! i)) = cstr p"
  using first_index_SomeD [OF assms [unfolded fs_get_def]] by auto

lemma fs_get_cong: "cstr p = cstr q \<Longrightarrow> fs_get p f = fs_get q f"
  by (simp add: fs_get_def)

text \<open>In a well-formed table the node found is the only one of that path.\<close>

lemma fs_get_unique:
  assumes "fs_ok f" "i < FS_MAX_FILES" "f_used (fs_nodes f ! i)" "cstr (f_path (fs_nodes f ! i)) = cstr p"
  shows "fs_get p f = Some i"
proof -
  have "fs_nodes f ! i \<in> set (fs_nodes f)" using assms(1,2) by (simp add: fs_ok_def)
  then obtain k where k: "fs_get p f = Some k"
    using first_index_ex [of "fs_nodes f ! i" "fs_nodes f" "is_at p"] assms(3,4)
    unfolding fs_get_def by auto
  note K = fs_get_SomeD [OF k]
  have "k = i" using assms K by (auto simp: fs_ok_def)
  then show ?thesis using k by simp
qed

lemma fs_ok_unused:
  assumes ok: "fs_ok f" and i: "i < FS_MAX_FILES" "\<not> f_used (fs_nodes f ! i)"
    and n: "f_used n" "fs_get (f_path n) f = None"
  shows "fs_ok ((fs_upd i n f)\<lparr>fs_count := fs_count f + 1\<rparr>)"
proof -
  have l: "length (fs_nodes f) = FS_MAX_FILES" using ok by (simp add: fs_ok_def)
  have no: "cstr (f_path (fs_nodes f ! j)) \<noteq> cstr (f_path n)" if "j < FS_MAX_FILES" "f_used (fs_nodes f ! j)" for j
    using fs_get_unique [OF ok that] n(2) by auto
  have "int (length (filter f_used ((fs_nodes f)[i := n]))) =
      int (length (filter f_used (fs_nodes f))) + 1"
    using length_filter_update [of i "fs_nodes f" f_used n] i n(1) l by simp
  then show ?thesis
    using ok i n(1) no no [THEN not_sym] l unfolding fs_ok_def fs_upd_def
    by (simp add: nth_list_update)
qed

lemma node_at_update:
  assumes ok: "fs_ok f" and i: "i < FS_MAX_FILES" and u: "f_used n" "f_used (fs_nodes f ! i)"
    and p: "cstr (f_path n) = cstr (f_path (fs_nodes f ! i))"
  shows "fs_ok (fs_upd i n f)"
    "node_at q (fs_upd i n f) = (if cstr q = cstr (f_path n) then Some n else node_at q f)"
proof -
  have l: "length (fs_nodes f) = FS_MAX_FILES" using ok by (simp add: fs_ok_def)
  have "int (length (filter f_used ((fs_nodes f)[i := n]))) = int (length (filter f_used (fs_nodes f)))"
    using length_filter_update [of i "fs_nodes f" f_used n] i u l by simp
  then show ok': "fs_ok (fs_upd i n f)"
    using ok i u p l unfolding fs_ok_def fs_upd_def
    by (simp add: nth_list_update) metis
  show "node_at q (fs_upd i n f) = (if cstr q = cstr (f_path n) then Some n else node_at q f)"
  proof (cases "cstr q = cstr (f_path n)")
    case True
    have "fs_get q (fs_upd i n f) = Some i"
      by (rule fs_get_unique [OF ok' i]) (use i l u True in \<open>simp_all add: fs_upd_def\<close>)
    then show ?thesis using True i l by (simp add: node_at_def fs_upd_def)
  next
    case False
    have e: "fs_get q (fs_upd i n f) = fs_get q f"
      unfolding fs_get_def fs_upd_def using i l False p
      by (simp, intro first_index_update_other) auto
    have "k \<noteq> i" if "fs_get q f = Some k" for k
      using fs_get_SomeD(3) [OF that] False p by auto
    then show ?thesis using False e by (cases "fs_get q f") (auto simp: node_at_def fs_upd_def)
  qed
qed

definition new_node :: "u8 \<Rightarrow> string \<Rightarrow> fs_type \<Rightarrow> fs_node" where
  "new_node owner path type = \<lparr>f_path = clip 255 path, f_ptr = 0, f_data = [], f_cap = 0,
     f_type = type, f_used = True, f_owner = owner, f_world_read = (owner = 0xFF),
     f_world_write = False\<rparr>"

lemma fs_create_spec:
  assumes ok: "fs_ok f" and l: "length (cstr path) \<le> 255" and r: "fs_create owner path type f = (r, f')"
  shows "r = 0 \<or> r = -1 \<and> f' = f"
    "r = 0 \<Longrightarrow> fs_ok f' \<and> node_at path f = None \<and> parent_ok path f \<and>
       node_at q f' = (if cstr q = cstr path then Some (new_node owner path type) else node_at q f)"
proof -
  show "r = 0 \<or> r = -1 \<and> f' = f"
    using r by (auto simp: fs_create_def split: if_splits option.splits)
  assume r0: "r = 0"
  let ?n = "new_node owner path type"
  from r r0 obtain i where g: "fs_get path f = None" "first_index (\<lambda>n. \<not> f_used n) (fs_nodes f) = Some i"
      "parent_ok path f" and f': "f' = (fs_upd i ?n f)\<lparr>fs_count := fs_count f + 1\<rparr>"
    by (auto simp: fs_create_def new_node_def split: if_splits option.splits)
  note I = first_index_SomeD [OF g(2)]
  have len: "length (fs_nodes f) = FS_MAX_FILES" using ok by (simp add: fs_ok_def)
  have i: "i < FS_MAX_FILES" using I(1) len by simp
  have c: "cstr (f_path ?n) = cstr path" using l by (simp add: new_node_def clip_id)
  have u: "f_used ?n" by (simp add: new_node_def)
  have ok': "fs_ok f'"
    unfolding f' using fs_ok_unused [OF ok i I(2) u] g(1) fs_get_cong [OF c] by simp
  have "node_at q f' = (if cstr q = cstr path then Some ?n else node_at q f)"
  proof (cases "cstr q = cstr path")
    case True
    have "fs_get q f' = Some i"
      by (rule fs_get_unique [OF ok' i]) (use i len u c True in \<open>simp_all add: f' fs_upd_def\<close>)
    then show ?thesis using True i len by (simp add: node_at_def f' fs_upd_def)
  next
    case False
    have e: "fs_get q f' = fs_get q f"
      unfolding fs_get_def f' fs_upd_def using i len I(2) False c
      by (simp, intro first_index_update_other) auto
    have "k \<noteq> i" if "fs_get q f = Some k" for k using fs_get_SomeD(2) [OF that] I(2) by auto
    then show ?thesis using False e by (cases "fs_get q f") (auto simp: node_at_def f' fs_upd_def)
  qed
  then show "fs_ok f' \<and> node_at path f = None \<and> parent_ok path f \<and>
       node_at q f' = (if cstr q = cstr path then Some ?n else node_at q f)"
    using ok' g by (simp add: node_at_def)
qed

lemma fs_write_spec:
  assumes ok: "fs_ok f" and r: "fs_write path data f s = (r, f', s')"
  shows "r = 0 \<or> r = -1 \<and> f' = f"
    "r = 0 \<Longrightarrow> fs_ok f' \<and> (\<exists>n n'. node_at path f = Some n \<and> f_type n \<noteq> TDir \<and>
       f_data n' = data \<and> f_type n' = f_type n \<and> f_path n' = f_path n \<and>
       (\<forall>q. node_at q f' = (if cstr q = cstr path then Some n' else node_at q f)))"
proof -
  show "r = 0 \<or> r = -1 \<and> f' = f"
    using r by (auto simp: fs_write_def Let_def split: if_splits option.splits prod.splits)
  assume r0: "r = 0"
  from r r0 obtain i n' where g: "fs_get path f = Some i" "f_type (fs_nodes f ! i) \<noteq> TDir"
      and f': "f' = fs_upd i n' f" and n': "f_data n' = data" "f_type n' = f_type (fs_nodes f ! i)"
      "f_path n' = f_path (fs_nodes f ! i)" "f_used n' = f_used (fs_nodes f ! i)"
    by (auto simp: fs_write_def Let_def split: if_splits option.splits prod.splits)
  note G = fs_get_SomeD [OF g(1)]
  have i: "i < FS_MAX_FILES" using G(1) ok by (simp add: fs_ok_def)
  have "cstr (f_path n') = cstr (f_path (fs_nodes f ! i))" using n'(3) by simp
  note U = node_at_update [OF ok i _ G(2) this]
  have "node_at q f' = (if cstr q = cstr path then Some n' else node_at q f)" for q
    unfolding f' using U(2) n'(3,4) G(2,3) by simp
  moreover have "fs_ok f'" unfolding f' using U(1) n'(4) G(2) by simp
  ultimately show "fs_ok f' \<and> (\<exists>n n'. node_at path f = Some n \<and> f_type n \<noteq> TDir \<and>
       f_data n' = data \<and> f_type n' = f_type n \<and> f_path n' = f_path n \<and>
       (\<forall>q. node_at q f' = (if cstr q = cstr path then Some n' else node_at q f)))"
    using g n' by (auto simp: node_at_def)
qed

lemma fs_remove_spec:
  assumes ok: "fs_ok f" and r: "fs_remove path f s = (r, f', s')"
  shows "r = 0 \<or> r = -1 \<and> f' = f"
    "r = 0 \<Longrightarrow> fs_ok f' \<and> node_at q f' = (if cstr q = cstr path then None else node_at q f)"
    "r = 0 \<Longrightarrow> \<exists>n. node_at path f = Some n \<and> (f_type n = TDir \<longrightarrow> \<not> fs_has_children path f)"
proof -
  show "r = 0 \<or> r = -1 \<and> f' = f"
    using r by (auto simp: fs_remove_def Let_def split: if_splits option.splits)
  assume r0: "r = 0"
  let ?n = "\<lambda>i. (fs_nodes f ! i)\<lparr>f_used := False, f_ptr := 0, f_data := [], f_cap := 0\<rparr>"
  from r r0 obtain i where g: "fs_get path f = Some i"
      "f_type (fs_nodes f ! i) = TDir \<longrightarrow> \<not> fs_has_children path f"
      and f': "f' = (fs_upd i (?n i) f)\<lparr>fs_count := fs_count f - 1\<rparr>"
    by (auto simp: fs_remove_def Let_def split: if_splits option.splits)
  note G = fs_get_SomeD [OF g(1)]
  have len: "length (fs_nodes f) = FS_MAX_FILES" using ok by (simp add: fs_ok_def)
  have i: "i < FS_MAX_FILES" using G(1) len by simp
  have "int (length (filter f_used ((fs_nodes f)[i := ?n i]))) =
      int (length (filter f_used (fs_nodes f))) - 1"
    using length_filter_update [OF G(1), of f_used "?n i"] G(2) by simp
  then have ok': "fs_ok f'"
    using ok i len by (auto simp: fs_ok_def f' fs_upd_def nth_list_update)
  show "\<exists>n. node_at path f = Some n \<and> (f_type n = TDir \<longrightarrow> \<not> fs_has_children path f)"
    using g by (simp add: node_at_def)
  have "node_at q f' = (if cstr q = cstr path then None else node_at q f)"
  proof (cases "cstr q = cstr path")
    case True
    have "fs_get q f' = None"
    proof (rule ccontr)
      assume "fs_get q f' \<noteq> None"
      then obtain k where k: "fs_get q f' = Some k" by blast
      note K = fs_get_SomeD [OF k]
      have "k \<noteq> i" using K(2) i len by (auto simp: f' fs_upd_def)
      then have "fs_get path f = Some k"
        using K i len True by (intro fs_get_unique [OF ok]) (auto simp: f' fs_upd_def)
      then show False using g(1) \<open>k \<noteq> i\<close> by simp
    qed
    then show ?thesis using True by (simp add: node_at_def)
  next
    case False
    have e: "fs_get q f' = fs_get q f"
      unfolding fs_get_def f' fs_upd_def using G False
      by (simp, intro first_index_update_other) auto
    have "k \<noteq> i" if "fs_get q f = Some k" for k using fs_get_SomeD(3) [OF that] G(3) False by auto
    then show ?thesis using False e by (cases "fs_get q f") (auto simp: node_at_def f' fs_upd_def)
  qed
  then show "fs_ok f' \<and> node_at q f' = (if cstr q = cstr path then None else node_at q f)"
    using ok' by blast
qed

section \<open>Every node has its directory\<close>

definition tree_ok :: "fs \<Rightarrow> bool" where
  "tree_ok f \<longleftrightarrow> fs_ok f \<and> (\<forall>n\<in>set (fs_nodes f). f_used n \<longrightarrow> parent_ok (f_path n) f)"

lemma fs_is_dir_node:
  "fs_is_dir p f \<longleftrightarrow> streq p ''/'' \<or> (\<exists>n. node_at p f = Some n \<and> f_type n = TDir)"
  by (auto simp: fs_is_dir_def node_at_def split: option.splits)

lemma node_at_cong: "cstr p = cstr q \<Longrightarrow> node_at p f = node_at q f"
  unfolding node_at_def by (drule fs_get_cong [of p q f]) simp

lemma cstr_take_lt: "k \<le> length (cstr p) \<Longrightarrow> cstr (take k p) = take k (cstr p)"
proof (induction p arbitrary: k)
  case (Cons c p)
  show ?case
  proof (cases k)
    case (Suc j)
    then show ?thesis using Cons.prems Cons.IH [of j] by (cases "c = NUL") simp_all
  qed simp
qed simp

lemma strrchr_cstr: "c \<noteq> NUL \<Longrightarrow> cstr p = cstr q \<Longrightarrow> strrchr p c = strrchr q c"
proof -
  assume c: "c \<noteq> NUL" and e: "cstr p = cstr q"
  have "strrchr p c = Some i \<longleftrightarrow> strrchr q c = Some i" for i
    by (simp only: strrchr_Some_iff [OF c] e)
  then show ?thesis by (metis option.exhaust)
qed

lemma parent_ok_iff:
  "parent_ok path f \<longleftrightarrow> (\<forall>k. strrchr path (CHR ''/'') = Some k \<longrightarrow>
     (if k = 0 then length (cstr path) \<noteq> 1 else k < 256 \<and> fs_is_dir (take k (cstr path)) f))"
proof -
  have "fs_is_dir (take k path) f = fs_is_dir (take k (cstr path)) f"
    if "strrchr path (CHR ''/'') = Some k" for k
  proof -
    have "cstr (take k path) = cstr (take k (cstr path))"
      using that strrchr_Some_iff [of "CHR ''/''" path k] by (simp add: cstr_take_lt)
    then show ?thesis
      using node_at_cong [of "take k path" "take k (cstr path)" f] by (simp add: fs_is_dir_node)
  qed
  then show ?thesis by (auto simp: parent_ok_def strlen_cstr split: option.split)
qed

lemma parent_ok_mono:
  assumes "parent_ok path f" "cstr path' = cstr path"
    "\<And>k. k \<noteq> 0 \<Longrightarrow> strrchr path (CHR ''/'') = Some k \<Longrightarrow> fs_is_dir (take k (cstr path)) f \<Longrightarrow>
      fs_is_dir (take k (cstr path)) f'"
  shows "parent_ok path' f'"
proof -
  have e: "strrchr path' (CHR ''/'') = strrchr path (CHR ''/'')"
    by (rule strrchr_cstr) (simp_all add: assms(2))
  show ?thesis
    unfolding parent_ok_iff e assms(2)
  proof (intro allI impI)
    fix k
    assume k: "strrchr path (CHR ''/'') = Some k"
    with assms(1) have "if k = 0 then length (cstr path) \<noteq> 1
        else k < 256 \<and> fs_is_dir (take k (cstr path)) f"
      unfolding parent_ok_iff by blast
    then show "if k = 0 then length (cstr path) \<noteq> 1
        else k < 256 \<and> fs_is_dir (take k (cstr path)) f'"
      using assms(3) [OF _ k] by (cases "k = 0") simp_all
  qed
qed

lemma tree_ok_via_lookup:
  assumes "fs_ok f'" and "\<And>p n. node_at p f' = Some n \<Longrightarrow> parent_ok (f_path n) f'"
  shows "tree_ok f'"
  unfolding tree_ok_def
proof (intro conjI ballI impI)
  fix n
  assume n: "n \<in> set (fs_nodes f')" "f_used n"
  then obtain i where i: "i < FS_MAX_FILES" "fs_nodes f' ! i = n"
    using assms(1) by (auto simp: in_set_conv_nth fs_ok_def)
  have "fs_get (f_path n) f' = Some i" by (rule fs_get_unique [OF assms(1) i(1)]) (use i n in auto)
  then show "parent_ok (f_path n) f'" using assms(2) [of "f_path n" n] i(2) by (simp add: node_at_def)
qed (rule assms(1))

lemma tree_ok_lookup:
  assumes "tree_ok f" "node_at p f = Some n"
  shows "parent_ok (f_path n) f" "cstr (f_path n) = cstr p"
proof -
  obtain i where i: "fs_get p f = Some i" "n = fs_nodes f ! i" using assms(2) by (auto simp: node_at_def)
  note G = fs_get_SomeD [OF i(1)]
  show "cstr (f_path n) = cstr p" using G(3) i(2) by simp
  show "parent_ok (f_path n) f" using assms(1) G i(2) by (simp add: tree_ok_def)
qed

lemma tree_ok_create:
  assumes t: "tree_ok f" and l: "length (cstr path) \<le> 255" and r: "fs_create owner path type f = (r, f')"
  shows "tree_ok f'"
proof -
  have ok: "fs_ok f" using t by (simp add: tree_ok_def)
  note C = fs_create_spec [OF ok l r]
  show ?thesis
  proof (cases "r = 0")
    case False
    then show ?thesis using C(1) t by auto
  next
    case True
    note D = C(2) [OF True]
    let ?n = "new_node owner path type"
    have mono: "fs_is_dir q f \<Longrightarrow> fs_is_dir q f'" for q
      using D [of q] D [of path] node_at_cong [of q path f] by (auto simp: fs_is_dir_node)
    have c: "cstr (f_path ?n) = cstr path" using l by (simp add: new_node_def clip_id)
    show ?thesis
    proof (rule tree_ok_via_lookup)
      show "fs_ok f'" using D by blast
      fix p n
      assume p: "node_at p f' = Some n"
      show "parent_ok (f_path n) f'"
      proof (cases "cstr p = cstr path")
        case True
        then have "n = ?n" using D [of p] p by simp
        then show ?thesis using parent_ok_mono [OF _ c, of f f'] D [of path] mono by simp
      next
        case False
        then have "node_at p f = Some n" using D [of p] p by simp
        then show ?thesis using tree_ok_lookup [OF t] parent_ok_mono [OF _ refl] mono by blast
      qed
    qed
  qed
qed

lemma tree_ok_write:
  assumes t: "tree_ok f" and r: "fs_write path data f s = (r, f', s')"
  shows "tree_ok f'"
proof -
  have ok: "fs_ok f" using t by (simp add: tree_ok_def)
  note W = fs_write_spec [OF ok r]
  show ?thesis
  proof (cases "r = 0")
    case False
    then show ?thesis using W(1) t by auto
  next
    case True
    from W(2) [OF True] obtain n n' where D: "fs_ok f'" "node_at path f = Some n" "f_type n' = f_type n"
        "f_path n' = f_path n" "\<And>q. node_at q f' = (if cstr q = cstr path then Some n' else node_at q f)"
      by blast
    have mono: "fs_is_dir q f \<Longrightarrow> fs_is_dir q f'" for q
      using D(2,3,5) node_at_cong [of q path f] by (auto simp: fs_is_dir_node)
    show ?thesis
    proof (rule tree_ok_via_lookup [OF D(1)])
      fix p m
      assume p: "node_at p f' = Some m"
      then obtain k where "node_at p f = Some k" "f_path k = f_path m"
        using D(2,4,5) node_at_cong [of p path f] by (auto split: if_splits)
      then show "parent_ok (f_path m) f'"
        using tree_ok_lookup(1) [OF t] parent_ok_mono [OF _ refl] mono by metis
    qed
  qed
qed

lemma tree_ok_remove:
  assumes t: "tree_ok f" and r: "fs_remove path f s = (r, f', s')"
  shows "tree_ok f'"
proof -
  have ok: "fs_ok f" using t by (simp add: tree_ok_def)
  note R = fs_remove_spec [OF ok r]
  show ?thesis
  proof (cases "r = 0")
    case False
    then show ?thesis using R(1) t by auto
  next
    case True
    note D = R(2) [OF True]
    show ?thesis
    proof (rule tree_ok_via_lookup)
      show "fs_ok f'" using D by blast
      fix p n
      assume p: "node_at p f' = Some n"
      have p': "node_at p f = Some n" "cstr p \<noteq> cstr path" using D [of p] p by (auto split: if_splits)
      have dir: "fs_is_dir (take k (cstr (f_path n))) f'"
        if k: "k \<noteq> 0" "strrchr (f_path n) (CHR ''/'') = Some k" "fs_is_dir (take k (cstr (f_path n))) f" for k
      proof (cases "take k (cstr (f_path n)) = cstr path")
        case False
        then show ?thesis
          using k(3) D [of "take k (cstr (f_path n))"] by (auto simp: fs_is_dir_node)
      next
        case e: True
        have kk: "k < length (cstr (f_path n))" "cstr (f_path n) ! k = CHR ''/''"
          using k(2) strrchr_Some_iff [of "CHR ''/''" "f_path n" k] by simp_all
        have len: "length (cstr path) = k" using e kk(1) by (metis length_take min.absorb2 less_imp_le)
        have "f_path n ! k = cstr (f_path n) ! k" "k < length (f_path n)"
          using kk(1) length_cstr_le [of "f_path n"] takeWhile_nth [of k _ "f_path n"]
          by (auto simp: cstr_def)
        then have "at (f_path n) k = CHR ''/''" using kk(2) by (simp add: at_def)
        moreover have "strncmp (f_path n) path k = 0" using e len by (simp add: strncmp_iff)
        moreover obtain i where "fs_get p f = Some i" "n = fs_nodes f ! i"
          using p'(1) by (auto simp: node_at_def)
        ultimately have "fs_has_children path f"
          using fs_get_SomeD [of p f i] len unfolding fs_has_children_def list_ex_iff strlen_cstr
          by (metis nth_mem)
        moreover obtain m where m: "node_at path f = Some m" "f_type m = TDir \<longrightarrow> \<not> fs_has_children path f"
          using R(3) [OF True] by blast
        moreover have "fs_is_dir path f"
          using k(3) e node_at_cong [of path "take k (cstr (f_path n))" f]
          by (metis cstr_idem fs_is_dir_node streq_iff)
        moreover have "\<not> streq path ''/''" using r True by (auto simp: fs_remove_def)
        ultimately show ?thesis by (auto simp: fs_is_dir_node)
      qed
      show "parent_ok (f_path n) f'"
        using parent_ok_mono [OF tree_ok_lookup(1) [OF t p'(1)] refl dir] .
    qed
  qed
qed

section \<open>Copying and moving over a store of files\<close>

text \<open>
  What \<open>fs_copy\<close> and \<open>fs_move\<close> rely on: a lookup after \<open>fs_create\<close>, \<open>fs_write\<close> and
  \<open>fs_remove\<close>, and that a refused call leaves the state's files alone.  A result
  is the C return value with the new state.
\<close>

locale file_store =
  fixes ok :: "'s \<Rightarrow> bool"
    and look :: "'s \<Rightarrow> string \<Rightarrow> (fs_type \<times> string) option"
    and mk :: "string \<Rightarrow> fs_type \<Rightarrow> 's \<Rightarrow> int \<times> 's"
    and wr :: "string \<Rightarrow> string \<Rightarrow> 's \<Rightarrow> int \<times> 's"
    and rm :: "string \<Rightarrow> 's \<Rightarrow> int \<times> 's"
  assumes look_cong: "cstr p = cstr q \<Longrightarrow> look s p = look s q"
    and mk_fail: "mk p t s = (r, s') \<Longrightarrow> r \<noteq> 0 \<Longrightarrow> s' = s"
    and mk_ok: "ok s \<Longrightarrow> length (cstr p) \<le> 255 \<Longrightarrow> mk p t s = (0, s') \<Longrightarrow> ok s' \<and> look s p = None"
    and mk_look: "ok s \<Longrightarrow> length (cstr p) \<le> 255 \<Longrightarrow> mk p t s = (0, s') \<Longrightarrow>
      look s' q = (if cstr q = cstr p then Some (t, []) else look s q)"
    and wr_fail: "ok s \<Longrightarrow> wr p d s = (r, s') \<Longrightarrow> r \<noteq> 0 \<Longrightarrow> ok s' \<and> look s' q = look s q"
    and wr_ok: "ok s \<Longrightarrow> wr p d s = (0, s') \<Longrightarrow>
      ok s' \<and> look s' q = (if cstr q = cstr p then Some (fst (the (look s p)), d) else look s q)"
    and rm_fail: "ok s \<Longrightarrow> rm p s = (r, s') \<Longrightarrow> r \<noteq> 0 \<Longrightarrow> ok s' \<and> look s' q = look s q"
    and rm_ok: "ok s \<Longrightarrow> rm p s = (0, s') \<Longrightarrow>
      ok s' \<and> look s' q = (if cstr q = cstr p then None else look s q)"
begin

definition copy :: "string \<Rightarrow> string \<Rightarrow> 's \<Rightarrow> int \<times> 's" where
  "copy src dst s =
    (case look s src of
       None \<Rightarrow> (-1, s)
     | Some (t, d) \<Rightarrow>
        if t = TDir \<or> look s dst \<noteq> None then (-1, s)
        else case mk dst TFile s of (r, s1) \<Rightarrow> if r \<noteq> 0 then (-1, s1) else wr dst d s1)"

definition move :: "string \<Rightarrow> string \<Rightarrow> 's \<Rightarrow> int \<times> 's" where
  "move src dst s = (case copy src dst s of (r, s1) \<Rightarrow> if r \<noteq> 0 then (r, s1) else rm src s1)"

lemma copy_ok:
  assumes "ok s" "length (cstr dst) \<le> 255" "copy src dst s = (0, s')"
  shows "\<exists>t d. t \<noteq> TDir \<and> look s src = Some (t, d) \<and> look s dst = None \<and> ok s' \<and>
    (\<forall>q. look s' q = (if cstr q = cstr dst then Some (TFile, d) else look s q))"
proof -
  from assms(3) obtain t d s1 where l: "look s src = Some (t, d)" "t \<noteq> TDir" "look s dst = None"
      and c: "mk dst TFile s = (0, s1)" "wr dst d s1 = (0, s')"
    by (cases "look s dst") (auto simp: copy_def split: option.splits if_splits prod.splits)
  note M = mk_ok [OF assms(1,2) c(1)] mk_look [OF assms(1,2) c(1)]
  have "ok s'" using wr_ok [OF _ c(2)] M(1) by blast
  moreover have "look s' q = (if cstr q = cstr dst then Some (TFile, d) else look s q)" for q
    using wr_ok [OF _ c(2), of q] M(1) M(2) [of q] M(2) [of dst] by simp
  ultimately show ?thesis using l by blast
qed

text \<open>Whatever the outcome, every other path keeps its file, the source too.\<close>

lemma copy_frame:
  assumes "ok s" "length (cstr dst) \<le> 255" "copy src dst s = (r, s')" "cstr q \<noteq> cstr dst"
  shows "ok s'" "look s' q = look s q"
proof -
  have "ok s' \<and> look s' q = look s q"
  proof (cases "\<exists>t d s1. look s src = Some (t, d) \<and> mk dst TFile s = (0, s1) \<and> wr dst d s1 = (r, s')")
    case True
    then obtain t d s1 where c: "mk dst TFile s = (0, s1)" "wr dst d s1 = (r, s')" by blast
    note M = mk_ok [OF assms(1,2) c(1)] mk_look [OF assms(1,2) c(1), of q]
    show ?thesis
      using wr_ok [of s1 dst d s' q] wr_fail [of s1 dst d r s' q] M c(2) assms(4) by (cases "r = 0") auto
  next
    case False
    then have "s' = s"
      using assms(3) mk_fail [of dst TFile s]
      by (auto simp: copy_def split: option.splits if_splits prod.splits)
    then show ?thesis using assms(1) by simp
  qed
  then show "ok s'" "look s' q = look s q" by blast+
qed

lemma move_ok:
  assumes "ok s" "length (cstr dst) \<le> 255" "move src dst s = (0, s')"
  shows "\<exists>t d. t \<noteq> TDir \<and> look s src = Some (t, d) \<and> look s dst = None \<and> ok s' \<and>
    (\<forall>q. look s' q = (if cstr q = cstr src then None
                      else if cstr q = cstr dst then Some (TFile, d) else look s q))"
proof -
  from assms(3) obtain s1 where c: "copy src dst s = (0, s1)" "rm src s1 = (0, s')"
    by (auto simp: move_def split: if_splits prod.splits)
  from copy_ok [OF assms(1,2) c(1)] obtain t d where
    K: "t \<noteq> TDir" "look s src = Some (t, d)" "look s dst = None" "ok s1"
       "\<And>q. look s1 q = (if cstr q = cstr dst then Some (TFile, d) else look s q)"
    by blast
  have "ok s'" "\<And>q. look s' q = (if cstr q = cstr src then None else look s1 q)"
    using rm_ok [OF K(4) c(2)] by blast+
  then show ?thesis using K by auto
qed

text \<open>No outcome loses the bytes: they are at the source or at the destination.\<close>

lemma move_keeps_data:
  assumes "ok s" "length (cstr dst) \<le> 255" "move src dst s = (r, s')" "look s src = Some (t, d)"
  shows "look s' src = Some (t, d) \<or> look s' dst = Some (TFile, d)"
proof (cases "r = 0")
  case True
  then have m: "move src dst s = (0, s')" using assms(3) by simp
  from move_ok [OF assms(1,2) m] assms(4) have
    K: "look s dst = None" "look s' dst = (if cstr dst = cstr src then None else Some (TFile, d))"
    by auto
  have "cstr dst \<noteq> cstr src" using look_cong [of dst src s] K(1) assms(4) by auto
  then show ?thesis using K(2) by simp
next
  case False
  obtain r1 s1 where c: "copy src dst s = (r1, s1)" by fastforce
  show ?thesis
  proof (cases "cstr src = cstr dst")
    case True
    then have "look s dst = Some (t, d)" using look_cong [OF True, of s] assms(4) by simp
    then have "s' = s" using assms(3,4) by (simp add: move_def copy_def)
    then show ?thesis using assms(4) by simp
  next
    case ne: False
    note F = copy_frame [OF assms(1,2) c ne]
    have "look s' src = look s1 src"
      using assms(3) c rm_fail [OF F(1)] False by (auto simp: move_def split: if_splits)
    then show ?thesis using F(2) assms(4) by simp
  qed
qed

end

definition fs_look :: "fs \<times> sys \<Rightarrow> string \<Rightarrow> (fs_type \<times> string) option" where
  "fs_look st p = map_option (\<lambda>n. (f_type n, f_data n)) (node_at p (fst st))"

definition lift_fs :: "int \<times> fs \<Rightarrow> sys \<Rightarrow> int \<times> fs \<times> sys" where
  "lift_fs rf s = (fst rf, snd rf, s)"

interpretation files: file_store
  "\<lambda>st. tree_ok (fst st)" fs_look
  "\<lambda>p t st. lift_fs (fs_create owner p t (fst st)) (snd st)"
  "\<lambda>p d st. fs_write p d (fst st) (snd st)"
  "\<lambda>p st. fs_remove p (fst st) (snd st)"
  for owner
proof (unfold_locales, goal_cases)
  case (1 p q s)
  then show ?case by (simp add: fs_look_def node_at_cong [of p q])
next
  case (2 p t s r s')
  then show ?case
    by (cases s) (auto simp: lift_fs_def fs_create_def split: if_splits option.splits)
next
  case (3 s p t s')
  obtain f' where c: "fs_create owner p t (fst s) = (0, f')" "s' = (f', snd s)"
    using 3(3) by (cases "fs_create owner p t (fst s)") (auto simp: lift_fs_def)
  show ?case
    using tree_ok_create [OF 3(1,2) c(1)] fs_create_spec(2) [OF _ 3(2) c(1)] 3(1) c(2)
    by (simp add: fs_look_def tree_ok_def)
next
  case (4 s p t s' q)
  obtain f' where c: "fs_create owner p t (fst s) = (0, f')" "s' = (f', snd s)"
    using 4(3) by (cases "fs_create owner p t (fst s)") (auto simp: lift_fs_def)
  show ?case
    using fs_create_spec(2) [OF _ 4(2) c(1), of q] 4(1) c(2)
    by (auto simp: fs_look_def tree_ok_def new_node_def)
next
  case (5 s p d r s' q)
  obtain f1 s1 where s': "s' = (f1, s1)" by fastforce
  show ?case
    using tree_ok_write [OF 5(1) 5(2) [unfolded s']] fs_write_spec(1) [OF _ 5(2) [unfolded s']] 5(1,3) s'
    by (auto simp: fs_look_def tree_ok_def)
next
  case (6 s p d s' q)
  obtain f1 s1 where s': "s' = (f1, s1)" by fastforce
  note W = 6(2) [unfolded s']
  have "fs_ok (fst s)" using 6(1) by (simp add: tree_ok_def)
  then obtain n n' where "node_at p (fst s) = Some n" "f_data n' = d" "f_type n' = f_type n"
      "node_at q f1 = (if cstr q = cstr p then Some n' else node_at q (fst s))"
    using fs_write_spec(2) [OF _ W] by blast
  then show ?case using tree_ok_write [OF 6(1) W] s' by (simp add: fs_look_def)
next
  case (7 s p r s' q)
  obtain f1 s1 where s': "s' = (f1, s1)" by fastforce
  show ?case
    using tree_ok_remove [OF 7(1) 7(2) [unfolded s']] fs_remove_spec(1) [OF _ 7(2) [unfolded s']] 7(1,3) s'
    by (auto simp: fs_look_def tree_ok_def)
next
  case (8 s p s' q)
  obtain f1 s1 where s': "s' = (f1, s1)" by fastforce
  note R = 8(2) [unfolded s']
  have "fs_ok (fst s)" using 8(1) by (simp add: tree_ok_def)
  then show ?case using fs_remove_spec(2) [OF _ R, of q] tree_ok_remove [OF 8(1) R] s'
    by (simp add: fs_look_def)
qed

lemma fs_copy_files: "fs_copy owner src dst f s = files.copy owner src dst (f, s)"
  unfolding files.copy_def
  by (auto simp: fs_copy_def fs_look_def node_at_def lift_fs_def split: option.splits prod.splits)

lemma fs_move_files: "fs_move owner src dst f s = files.move owner src dst (f, s)"
  unfolding files.move_def by (simp add: fs_move_def fs_copy_files split: prod.splits)

section \<open>Properties\<close>

lemma fs_read_look: "fs_read p mx f = (case node_at p f of None \<Rightarrow> None
    | Some n \<Rightarrow> if f_type n = TDir then None else Some (take mx (f_data n)))"
  by (simp add: fs_read_def node_at_def split: option.split)

text \<open>An example: one file of two bytes, \<open>/a\<close>, and a kernel heap with one free block.\<close>

definition one_file :: fs where
  "one_file = \<lparr>fs_nodes = \<lparr>f_path = ''/a'', f_ptr = 0x1000, f_data = ''hi'', f_cap = 256, f_type = TFile,
     f_used = True, f_owner = 0, f_world_read = False, f_world_write = False\<rparr> #
     replicate 127 \<lparr>f_path = '''', f_ptr = 0, f_data = [], f_cap = 0,
       f_type = TFile, f_used = False, f_owner = 0xFF, f_world_read = True, f_world_write = True\<rparr>,
     fs_count = 1\<rparr>"

definition heap_sys :: sys where
  "heap_sys = zero_sys\<lparr>kheap := one_block\<rparr>"

lemma one_file_look: "node_at p one_file =
    (if cstr p = ''/a'' then Some (hd (fs_nodes one_file)) else None)"
  by (auto simp: node_at_def fs_get_def one_file_def cstr_def)

lemma one_file_hd: "f_data (hd (fs_nodes one_file)) = ''hi''" "f_type (hd (fs_nodes one_file)) = TFile"
  by (simp_all add: one_file_def)

lemma one_file_ok: "tree_ok one_file"
proof (rule tree_ok_via_lookup)
  have u: "i = 0" if "i < 128" "f_used (fs_nodes one_file ! i)" for i
    using that by (cases i) (simp_all add: one_file_def)
  have l: "length (filter f_used (fs_nodes one_file)) = 1"
    by (simp add: one_file_def)
  show "fs_ok one_file"
    unfolding fs_ok_def l using u by (auto simp: FS_MAX_FILES_def one_file_def)
  show "parent_ok (f_path n) one_file" if "node_at p one_file = Some n" for p n
    using that unfolding one_file_look by (auto simp: one_file_def parent_ok_iff strrchr_Some_iff cstr_def split: if_splits)
qed

text \<open>C18. A file reads back as the bytes last written to it, and the write changes no other path.\<close>

theorem fs_write_then_read:
  assumes "tree_ok f" "fs_write path data f s = (0, f', s')"
  shows "fs_read path mx f' = Some (take mx data) \<and>
    (\<forall>q. cstr q \<noteq> cstr path \<longrightarrow> node_at q f' = node_at q f) \<and> tree_ok f'"
proof -
  have ok: "fs_ok f" using assms(1) by (simp add: tree_ok_def)
  from fs_write_spec(2) [OF ok assms(2) refl] obtain n n' where
    "node_at path f = Some n" "f_type n \<noteq> TDir" "f_data n' = data" "f_type n' = f_type n"
    "\<And>q. node_at q f' = (if cstr q = cstr path then Some n' else node_at q f)"
    by blast
  then show ?thesis using tree_ok_write [OF assms] by (simp add: fs_read_look)
qed

lemma fs_write_then_read_witness:
  "fs_read ''/a'' 2 (fst (snd (fs_write ''/a'' ''yes'' one_file zero_sys))) = Some ''ye''"
proof -
  have "fst (fs_write ''/a'' ''yes'' one_file zero_sys) = 0"
    by (simp add: fs_write_def fs_get_def one_file_def cstr_def FS_MAX_DATA_def)
  then obtain f' s' where e: "fs_write ''/a'' ''yes'' one_file zero_sys = (0, f', s')"
    by (cases "fs_write ''/a'' ''yes'' one_file zero_sys") auto
  from fs_write_then_read [OF one_file_ok e, of 2] e show ?thesis by simp
qed

text \<open>C17. The tree stays closed upwards: whatever is created, written or removed, and whatever the
  result, every file and directory that is left still has its parent directory.  A directory
  that is not empty is not removed.\<close>

theorem tree_stays_closed:
  assumes "tree_ok f" "length (cstr path) \<le> 255"
  shows "tree_ok (snd (fs_create owner path type f)) \<and>
    tree_ok (fst (snd (fs_write path data f s))) \<and> tree_ok (fst (snd (fs_remove path f s))) \<and>
    (fst (fs_remove path f s) = 0 \<longrightarrow> (\<exists>n. node_at path f = Some n \<and> (f_type n = TDir \<longrightarrow> \<not> fs_has_children path f)))"
proof -
  have ok: "fs_ok f" using assms(1) by (simp add: tree_ok_def)
  obtain r f1 where c: "fs_create owner path type f = (r, f1)" by fastforce
  obtain r2 f2 s2 where w: "fs_write path data f s = (r2, f2, s2)" by (metis prod_cases3)
  obtain r3 f3 s3 where d: "fs_remove path f s = (r3, f3, s3)" by (metis prod_cases3)
  show ?thesis
    using tree_ok_create [OF assms c] tree_ok_write [OF assms(1) w] tree_ok_remove [OF assms(1) d]
      fs_remove_spec(3) [OF ok d] c w d by simp
qed

lemma tree_stays_closed_witness: "tree_ok (snd (fs_create 0 ''/a/b'' TFile one_file))"
proof -
  have "length (cstr ''/a/b'') \<le> 255" by (simp add: cstr_def)
  from tree_stays_closed [OF one_file_ok this] show ?thesis by blast
qed

text \<open>A copy that succeeds gives a new file with the bytes of the source, and changes nothing else.\<close>

theorem fs_copy_result:
  assumes "tree_ok f" "length (cstr dst) \<le> 255" "fs_copy owner src dst f s = (0, f', s')"
  shows "\<exists>n m. node_at src f = Some n \<and> f_type n \<noteq> TDir \<and> node_at dst f = None \<and>
    node_at dst f' = Some m \<and> f_type m = TFile \<and> f_data m = f_data n \<and> tree_ok f' \<and>
    (\<forall>q. cstr q \<noteq> cstr dst \<longrightarrow> fs_look (f', s') q = fs_look (f, s) q)"
proof -
  from files.copy_ok [OF _ assms(2) assms(3) [unfolded fs_copy_files]] assms(1) obtain t d where
    K: "t \<noteq> TDir" "fs_look (f, s) src = Some (t, d)" "fs_look (f, s) dst = None" "tree_ok f'"
      "\<forall>q. fs_look (f', s') q = (if cstr q = cstr dst then Some (TFile, d) else fs_look (f, s) q)"
    by auto
  then show ?thesis by (auto simp: fs_look_def split: if_splits dest: spec [of _ dst])
qed

text \<open>Whatever a move returns, the bytes of the file are at the source or at the destination
  afterwards, and every other path is as it was.\<close>

theorem fs_move_keeps_bytes:
  assumes "tree_ok f" "length (cstr dst) \<le> 255" "fs_move owner src dst f s = (r, f', s')"
    "node_at src f = Some n"
  shows "(\<exists>m. (node_at src f' = Some m \<or> node_at dst f' = Some m) \<and> f_data m = f_data n)"
proof -
  have l: "fs_look (f, s) src = Some (f_type n, f_data n)" using assms(4) by (simp add: fs_look_def)
  from files.move_keeps_data [OF _ assms(2) assms(3) [unfolded fs_move_files] l] assms(1)
  show ?thesis by (auto simp: fs_look_def)
qed

lemma copy_hi: "\<exists>f s. fs_copy owner ''/a'' ''/b'' one_file heap_sys = (0, f, s)"
proof -
  have k: "\<exists>h q. kmalloc 256 one_block p = (0x100020, h, q)" for p
    by (subst kmalloc.simps) (simp add: one_block_def round16_def HDR_def)
  have g: "grow_cap 256 (Suc (Suc 0)) = 256" by (subst grow_cap.simps) simp
  let ?f1 = "(fs_upd 1 \<lparr>f_path = ''/b'', f_ptr = 0, f_data = [], f_cap = 0, f_type = TFile, f_used = True,
     f_owner = owner, f_world_read = (owner = 0xFF), f_world_write = False\<rparr> one_file)\<lparr>fs_count := 2\<rparr>"
  have a: "fs_get ''/a'' one_file = Some 0" "fs_get ''/b'' one_file = None"
    by (simp_all add: fs_get_def one_file_def cstr_def)
  have "parent_ok ''/b'' one_file" by (auto simp: parent_ok_iff strrchr_Some_iff cstr_def less_Suc_eq nth_Cons')
  then have c: "fs_create owner ''/b'' TFile one_file = (0, ?f1)"
    using a by (simp add: fs_create_def cstr_def) (simp add: one_file_def clip_def cstr_def)
  have n: "fs_get ''/b'' ?f1 = Some 1" "fs_nodes ?f1 ! 1 = \<lparr>f_path = ''/b'', f_ptr = 0, f_data = [], f_cap = 0,
      f_type = TFile, f_used = True, f_owner = owner, f_world_read = (owner = 0xFF), f_world_write = False\<rparr>"
    using first_index_update_None [OF a(2) [unfolded fs_get_def], of 1]
    by (simp_all add: fs_get_def fs_upd_def cstr_def) (simp_all add: one_file_def)
  obtain h q where "kmalloc 256 one_block (frames (vmem heap_sys)) = (0x100020, h, q)" using k by blast
  moreover have "kheap heap_sys = one_block" by (simp add: heap_sys_def)
  ultimately obtain s2 where m: "sys_kmalloc 256 heap_sys = (0x100020, s2)"
    by (simp add: sys_kmalloc_def)
  have "\<exists>f s. fs_write ''/b'' ''hi'' ?f1 heap_sys = (0, f, s)"
    unfolding fs_write_def n(1) option.case Let_def n(2) by (simp add: FS_MAX_DATA_def g m)
  moreover have "fs_nodes one_file ! 0 = hd (fs_nodes one_file)" by (simp add: one_file_def)
  ultimately show ?thesis
    unfolding fs_copy_def a(1) option.case c prod.case using a(2) by (simp add: one_file_def)
qed

lemma fs_copy_result_witness:
  "fs_look (snd (fs_copy 0 ''/a'' ''/b'' one_file heap_sys)) ''/b'' = Some (TFile, ''hi'')"
proof -
  obtain f s where e: "fs_copy 0 ''/a'' ''/b'' one_file heap_sys = (0, f, s)" using copy_hi by blast
  have "length (cstr ''/b'') \<le> 255" by (simp add: cstr_def)
  from fs_copy_result [OF one_file_ok this e] e show ?thesis
    by (auto simp: fs_look_def one_file_look one_file_hd cstr_def)
qed

lemma fs_move_keeps_bytes_witness:
  "\<exists>m. (node_at ''/a'' (fst (snd (fs_move 0 ''/a'' ''/b'' one_file heap_sys))) = Some m \<or>
     node_at ''/b'' (fst (snd (fs_move 0 ''/a'' ''/b'' one_file heap_sys))) = Some m) \<and> f_data m = ''hi''"
proof -
  obtain r f s where e: "fs_move 0 ''/a'' ''/b'' one_file heap_sys = (r, f, s)" by (metis prod_cases3)
  have "length (cstr ''/b'') \<le> 255" "node_at ''/a'' one_file = Some (hd (fs_nodes one_file))"
    by (simp_all add: cstr_def one_file_look)
  from fs_move_keeps_bytes [OF one_file_ok this(1) e this(2)] show ?thesis
    unfolding e by (simp add: one_file_def)
qed

end
