(* ===== verification/Synallagma.thy ===== *)
theory Synallagma
  imports RamFs "HOL-Library.Sublist"
begin

text \<open>
  Contracts over folders and the consent to them (src/kernel/synallagma.c).

  \<open>ct_list\<close> holds the first \<open>contract_count\<close> entries of the table, \<open>ct_consented\<close>
  the 32 flags.  \<open>ct_nome\<close> is the 64-byte buffer as it lies in memory: the code
  fills it with \<open>strncpy\<close>, so a long name has no terminator and is read on into
  \<open>ct_caminho\<close> (\<open>contract_name\<close>).  What the user types is a list of lines.
\<close>

definition MAX_CONTRACTS :: nat where "MAX_CONTRACTS = 32"

record contract =
  ct_nome :: string
  ct_caminho :: string
  ct_leitura :: bool
  ct_escrita :: bool
  ct_execucao :: bool
  ct_voluntario :: bool
  ct_revogavel :: bool
  ct_ativo :: bool
  ct_caps_req :: u64

record pact =
  ct_list :: "contract list"
  ct_consented :: "bool list"

definition synallagma_init :: pact where
  "synallagma_init = \<lparr>ct_list = [], ct_consented = replicate MAX_CONTRACTS False\<rparr>"

definition clear_contract :: contract where
  "clear_contract = \<lparr>ct_nome = replicate 64 NUL, ct_caminho = '''', ct_leitura = False,
     ct_escrita = False, ct_execucao = False, ct_voluntario = True, ct_revogavel = True,
     ct_ativo = False, ct_caps_req = 0\<rparr>"

definition contract_name :: "contract \<Rightarrow> string" where
  "contract_name c = cstr (ct_nome c @ ct_caminho c)"

section \<open>Reading a contract\<close>

abbreviation blank :: "char \<Rightarrow> bool" where "blank c \<equiv> c = CHR '' '' \<or> c = CHR 0x09"

definition yes_flag :: "string \<Rightarrow> bool" where
  "yes_flag v \<longleftrightarrow> at v 0 = CHR ''t'' \<or> at v 0 = CHR ''1'' \<or> at v 0 = CHR ''s'' \<or> at v 0 = CHR ''S''"

definition split_line :: "string \<Rightarrow> string \<times> string" where
  "split_line line =
    (let p = dropWhile blank (cstr line);
         key = rev (dropWhile blank (rev (take 255 (takeWhile (\<lambda>c. c \<noteq> CHR ''='') p))));
         q = dropWhile blank (tl (dropWhile (\<lambda>c. c \<noteq> CHR ''='') p));
         val = (if at q 0 = CHR 0x22 then takeWhile (\<lambda>c. c \<noteq> CHR 0x22) (tl q)
                else takeWhile (\<lambda>c. c \<noteq> CHR 0x0A \<and> c \<noteq> CHR 0x0D) q)
     in (key, take 255 val))"

definition parse_line :: "contract \<Rightarrow> string \<Rightarrow> contract" where
  "parse_line c line =
    (case split_line line of (key, val) \<Rightarrow>
       if streq key ''caminho'' \<or> streq key ''pasta'' \<or> streq key ''path'' then c\<lparr>ct_caminho := val\<rparr>
       else if streq key ''nome'' \<or> streq key ''titulo'' then c\<lparr>ct_nome := strncpy val 64\<rparr>
       else if streq key ''leitura'' \<or> streq key ''read'' then c\<lparr>ct_leitura := yes_flag val\<rparr>
       else if streq key ''escrita'' \<or> streq key ''write'' then c\<lparr>ct_escrita := yes_flag val\<rparr>
       else if streq key ''execucao'' \<or> streq key ''exec'' then c\<lparr>ct_execucao := yes_flag val\<rparr>
       else if streq key ''voluntario'' then c\<lparr>ct_voluntario := yes_flag val\<rparr>
       else if streq key ''revogavel'' then c\<lparr>ct_revogavel := yes_flag val\<rparr>
       else c)"

text \<open>The pieces between line feeds, the last one included.\<close>

fun split_lf :: "string \<Rightarrow> string list" where
  "split_lf [] = [[]]"
| "split_lf (c # s) =
    (if c = LF then [] # split_lf s
     else case split_lf s of [] \<Rightarrow> [[c]] | l # ls \<Rightarrow> (c # l) # ls)"

definition parse_contract :: "string \<Rightarrow> contract \<Rightarrow> contract" where
  "parse_contract content c =
    fold (\<lambda>l c. if l \<noteq> [] \<and> hd l \<noteq> CHR ''#'' \<and> hd l \<noteq> CHR ''['' then parse_line c l else c)
      (split_lf (cstr content)) c"

definition load_contract :: "fs \<Rightarrow> string \<Rightarrow> contract" where
  "load_contract f name =
    (let c = clear_contract\<lparr>ct_nome := strncpy name 64\<rparr>;
         path = sformat 256 ''/synallagma/%s'' [AStr (Some name)];
         c = (case fs_read path 2047 f of None \<Rightarrow> c | Some d \<Rightarrow> parse_contract d c);
         c = (if ct_caminho c = [] then c\<lparr>ct_caminho := clip 255 name\<rparr> else c)
     in c\<lparr>ct_ativo := True\<rparr>)"

text \<open>The name of the contract file a line of the listing shows.\<close>

definition pacto_name :: "string \<Rightarrow> string option" where
  "pacto_name line =
    (let p = dropWhile (\<lambda>c. c = CHR '' '') line in
     if strncmp p ''<ARQ>'' 5 \<noteq> 0 then None
     else let n = dropWhile (\<lambda>c. c = CHR '' '') (drop 5 p) in
       if 6 < strlen n \<and> streq (drop (strlen n - 6) n) ''.pacto'' then Some n else None)"

fun scan_loop :: "fs \<Rightarrow> string list \<Rightarrow> contract list \<Rightarrow> contract list" where
  "scan_loop f [] acc = acc"
| "scan_loop f (l # ls) acc =
    (case pacto_name l of
       None \<Rightarrow> scan_loop f ls acc
     | Some n \<Rightarrow> scan_loop f ls (if length acc < MAX_CONTRACTS then acc @ [load_contract f n] else acc))"

definition synallagma_scan_contracts :: "fs \<Rightarrow> pact" where
  "synallagma_scan_contracts f =
    \<lparr>ct_list = scan_loop f (split_lf (cstr (fs_list ''/synallagma'' 4096 f))) [],
     ct_consented = replicate MAX_CONTRACTS False\<rparr>"

definition bit_arg :: "bool \<Rightarrow> fmt_arg" where "bit_arg b = AInt (if b then 1 else 0)"

definition synallagma_load_contracts :: "fs \<Rightarrow> pact \<times> string list" where
  "synallagma_load_contracts f =
    (let t = synallagma_scan_contracts f in
     (t, sformat 80 (''[synallagma] %d contrato(s) carregado(s)'' @ [LF])
           [AInt (of_nat (length (ct_list t)))] #
         map (\<lambda>c. sformat 192 (''  - '' @ [CHR 0x27] @ ''%s'' @ [CHR 0x27] @ '' protege '' @
             [CHR 0x27] @ ''%s'' @ [CHR 0x27] @ '' (r=%d w=%d x=%d)'' @ [LF])
             [AStr (Some (contract_name c)), AStr (Some (ct_caminho c)), bit_arg (ct_leitura c),
              bit_arg (ct_escrita c), bit_arg (ct_execucao c)]) (ct_list t)))"

section \<open>Lookup and consent\<close>

definition synallagma_count :: "pact \<Rightarrow> nat" where "synallagma_count t = length (ct_list t)"

definition synallagma_contract_at :: "int \<Rightarrow> pact \<Rightarrow> contract option" where
  "synallagma_contract_at idx t =
    (if idx < 0 \<or> int (length (ct_list t)) \<le> idx then None else Some (ct_list t ! nat idx))"

text \<open>The test of the loop of \<open>synallagma_contract_for\<close>: the contract is on the
  path or on one of its ancestors.\<close>

definition guards :: "string \<Rightarrow> contract \<Rightarrow> bool" where
  "guards path c \<longleftrightarrow>
    (let cp = ct_caminho c; cl = strlen cp in
     ct_ativo c \<and> cl \<noteq> 0 \<and> strncmp path cp cl = 0 \<and>
     (at path cl = CHR ''/'' \<or> at path cl = NUL \<or> at cp (cl - 1) = CHR ''/''))"

fun best_contract :: "string \<Rightarrow> contract list \<Rightarrow> nat \<Rightarrow> nat option \<Rightarrow> nat \<Rightarrow> nat option" where
  "best_contract path [] i best bestlen = best"
| "best_contract path (c # cs) i best bestlen =
    (if guards path c \<and> bestlen < strlen (ct_caminho c)
     then best_contract path cs (Suc i) (Some i) (strlen (ct_caminho c))
     else best_contract path cs (Suc i) best bestlen)"

definition synallagma_contract_for :: "string \<Rightarrow> pact \<Rightarrow> nat option" where
  "synallagma_contract_for path t = best_contract path (ct_list t) 0 None 0"

definition synallagma_guards_folder :: "string \<Rightarrow> pact \<Rightarrow> bool" where
  "synallagma_guards_folder path t =
    list_ex (\<lambda>c. ct_ativo c \<and> streq (ct_caminho c) path) (ct_list t)"

definition consent_grant :: "int \<Rightarrow> pact \<Rightarrow> pact" where
  "consent_grant idx t =
    (if 0 \<le> idx \<and> idx < int MAX_CONTRACTS
     then t\<lparr>ct_consented := (ct_consented t)[nat idx := True]\<rparr> else t)"

definition consent_get :: "int \<Rightarrow> pact \<Rightarrow> bool" where
  "consent_get idx t =
    (if 0 \<le> idx \<and> idx < int MAX_CONTRACTS then ct_consented t ! nat idx else False)"

definition synallagma_consented :: "string \<Rightarrow> pact \<Rightarrow> bool" where
  "synallagma_consented caminho t =
    (case first_index (\<lambda>c. ct_ativo c \<and> streq (ct_caminho c) caminho) (ct_list t) of
       None \<Rightarrow> True | Some i \<Rightarrow> consent_get (int i) t)"

definition synallagma_list_console :: "pact \<Rightarrow> string list" where
  "synallagma_list_console t =
    map (\<lambda>(i, c). sformat 192 (''  %s -> %s (r=%d w=%d x=%d)%s'' @ [LF])
        [AStr (Some (contract_name c)), AStr (Some (ct_caminho c)), bit_arg (ct_leitura c),
         bit_arg (ct_escrita c), bit_arg (ct_execucao c),
         AStr (Some (if consent_get (int i) t then '' [aceito]'' else ''''))])
      (zip [0..<length (ct_list t)] (ct_list t))"

definition print_contract :: "contract \<Rightarrow> string list" where
  "print_contract c =
    (let onoff = (\<lambda>b. if b then ''permitida'' else ''negada'') in
     [sformat 320 ([LF] @ ''=== Contrato: %s ==='' @ [LF])
        [AStr (Some (if at (ct_nome c) 0 \<noteq> NUL then contract_name c else ''(sem nome)''))],
      sformat 320 (''  Pasta protegida: %s'' @ [LF]) [AStr (Some (ct_caminho c))],
      sformat 320 (''  Leitura : %s'' @ [LF]) [AStr (Some (onoff (ct_leitura c)))],
      sformat 320 (''  Escrita : %s'' @ [LF]) [AStr (Some (onoff (ct_escrita c)))],
      sformat 320 (''  Execucao: %s'' @ [LF]) [AStr (Some (onoff (ct_execucao c)))]])"

text \<open>One question: the answers up to a yes or a no.  \<^const>\<open>None\<close>: the code is
  still waiting for a line.\<close>

fun ask :: "string list \<Rightarrow> (bool \<times> string list) option" where
  "ask [] = None"
| "ask (a # as) =
    (if at a 0 = CHR ''S'' \<or> at a 0 = CHR ''s'' \<or> at a 0 = CHR ''Y'' \<or> at a 0 = CHR ''y''
     then Some (True, as)
     else if at a 0 = CHR ''N'' \<or> at a 0 = CHR ''n'' then Some (False, as)
     else ask as)"

fun prompt_loop :: "nat list \<Rightarrow> pact \<Rightarrow> string list \<Rightarrow> (bool \<times> pact \<times> string list) option" where
  "prompt_loop [] t ins = Some (True, t, ins)"
| "prompt_loop (i # is) t ins =
    (if \<not> ct_ativo (ct_list t ! i) \<or> consent_get (int i) t then prompt_loop is t ins
     else case ask ins of
       None \<Rightarrow> None
     | Some (True, ins) \<Rightarrow> prompt_loop is (consent_grant (int i) t) ins
     | Some (False, ins) \<Rightarrow> Some (False, t, ins))"

definition consent_prompt_contracts :: "pact \<Rightarrow> string list \<Rightarrow> (bool \<times> pact \<times> string list) option" where
  "consent_prompt_contracts t ins = prompt_loop [0..<length (ct_list t)] t ins"

section \<open>The most specific contract\<close>

lemma best_contract_char:
  "best_contract path cs i best b = r \<Longrightarrow>
    (r = best \<and> (\<forall>c\<in>set cs. guards path c \<longrightarrow> strlen (ct_caminho c) \<le> b)) \<or>
    (\<exists>k<length cs. r = Some (i + k) \<and> guards path (cs ! k) \<and> b < strlen (ct_caminho (cs ! k)) \<and>
      (\<forall>j<length cs. guards path (cs ! j) \<longrightarrow>
         strlen (ct_caminho (cs ! j)) \<le> strlen (ct_caminho (cs ! k)) \<and>
         (j < k \<longrightarrow> strlen (ct_caminho (cs ! j)) < strlen (ct_caminho (cs ! k)))))"
proof (induction path cs i best b rule: best_contract.induct)
  case (2 path c cs i best b)
  show ?case
  proof (cases "guards path c \<and> b < strlen (ct_caminho c)")
    case True
    then have "best_contract path cs (Suc i) (Some i) (strlen (ct_caminho c)) = r" using "2.prems" by simp
    from "2.IH"(1) [OF True this] show ?thesis
    proof (elim disjE exE conjE)
      assume r: "r = Some i" and a: "\<forall>c'\<in>set cs. guards path c' \<longrightarrow> strlen (ct_caminho c') \<le> strlen (ct_caminho c)"
      have "\<forall>j<length (c # cs). guards path ((c # cs) ! j) \<longrightarrow>
          strlen (ct_caminho ((c # cs) ! j)) \<le> strlen (ct_caminho c)"
        using a by (auto simp: nth_Cons' )
      then show ?thesis using r True by (intro disjI2 exI [of _ 0]) simp
    next
      fix k
      assume k: "k < length cs" "r = Some (Suc i + k)" "guards path (cs ! k)"
          "strlen (ct_caminho c) < strlen (ct_caminho (cs ! k))"
        and a: "\<forall>j<length cs. guards path (cs ! j) \<longrightarrow>
            strlen (ct_caminho (cs ! j)) \<le> strlen (ct_caminho (cs ! k)) \<and>
            (j < k \<longrightarrow> strlen (ct_caminho (cs ! j)) < strlen (ct_caminho (cs ! k)))"
      show ?thesis
        using k a True by (intro disjI2 exI [of _ "Suc k"]) (auto simp: nth_Cons split: nat.split)
    qed
  next
    case False
    then have "best_contract path cs (Suc i) best b = r" using "2.prems" by auto
    from "2.IH"(2) [OF False this] show ?thesis
    proof (elim disjE exE conjE)
      assume "r = best" "\<forall>c\<in>set cs. guards path c \<longrightarrow> strlen (ct_caminho c) \<le> b"
      then show ?thesis using False by (intro disjI1) auto
    next
      fix k
      assume k: "k < length cs" "r = Some (Suc i + k)" "guards path (cs ! k)"
          "b < strlen (ct_caminho (cs ! k))"
        and a: "\<forall>j<length cs. guards path (cs ! j) \<longrightarrow>
            strlen (ct_caminho (cs ! j)) \<le> strlen (ct_caminho (cs ! k)) \<and>
            (j < k \<longrightarrow> strlen (ct_caminho (cs ! j)) < strlen (ct_caminho (cs ! k)))"
      show ?thesis
        using k a False by (intro disjI2 exI [of _ "Suc k"]) (auto simp: nth_Cons split: nat.split)
    qed
  qed
qed simp

lemma contract_for_None:
  "synallagma_contract_for path t = None \<longleftrightarrow> (\<forall>c\<in>set (ct_list t). \<not> guards path c)"
proof -
  have "guards path c \<Longrightarrow> 0 < strlen (ct_caminho c)" for c by (simp add: guards_def Let_def)
  then show ?thesis
    using best_contract_char [OF refl, of path "ct_list t" 0 None 0]
    unfolding synallagma_contract_for_def by (fastforce simp: in_set_conv_nth)
qed

lemma contract_for_Some:
  assumes "synallagma_contract_for path t = Some k"
  shows "k < length (ct_list t)" "guards path (ct_list t ! k)"
    "j < length (ct_list t) \<Longrightarrow> guards path (ct_list t ! j) \<Longrightarrow>
      strlen (ct_caminho (ct_list t ! j)) \<le> strlen (ct_caminho (ct_list t ! k))"
    "j < k \<Longrightarrow> guards path (ct_list t ! j) \<Longrightarrow>
      strlen (ct_caminho (ct_list t ! j)) < strlen (ct_caminho (ct_list t ! k))"
  using best_contract_char [OF assms [unfolded synallagma_contract_for_def]] by auto

text \<open>Consent is looked up by folder; the flag found is that of the contract that
  guards the path.\<close>

lemma consented_own_flag:
  assumes k: "synallagma_contract_for path t = Some k"
  shows "synallagma_consented (ct_caminho (ct_list t ! k)) t = consent_get (int k) t"
proof -
  note K = contract_for_Some [OF k]
  let ?P = "\<lambda>c. ct_ativo c \<and> strcmp (ct_caminho c) (ct_caminho (ct_list t ! k)) = 0"
  have g: "ct_ativo (ct_list t ! k)" using K(2) by (simp add: guards_def Let_def)
  have "first_index ?P (ct_list t) = Some k"
  proof -
    have no: "\<not> ?P (ct_list t ! j)" if j: "j < k" for j
    proof
      assume P: "?P (ct_list t ! j)"
      then have e: "cstr (ct_caminho (ct_list t ! j)) = cstr (ct_caminho (ct_list t ! k))" by simp
      then have l: "strlen (ct_caminho (ct_list t ! j)) = strlen (ct_caminho (ct_list t ! k))"
        by (simp add: strlen_cstr)
      have a: "at p (strlen p - 1) = at (cstr p) (strlen p - 1)" if "strlen p \<noteq> 0" for p
      proof -
        have "strlen p - 1 < length (cstr p)" "strlen p - 1 < length p"
          using that length_cstr_le [of p] unfolding strlen_cstr by linarith+
        then show ?thesis by (simp add: at_def cstr_def takeWhile_nth)
      qed
      have "guards path (ct_list t ! j)"
        using K(2) P e l a [of "ct_caminho (ct_list t ! j)"] a [of "ct_caminho (ct_list t ! k)"]
        by (simp add: guards_def Let_def strncmp_iff)
      then show False using K(4) [OF j] l by simp
    qed
    show ?thesis using K(1) g no by (simp add: first_index_Some_iff)
  qed
  then show ?thesis by (simp add: synallagma_consented_def)
qed

section \<open>Consent\<close>

definition pact_ok :: "pact \<Rightarrow> bool" where
  "pact_ok t \<longleftrightarrow> length (ct_list t) \<le> MAX_CONTRACTS \<and> length (ct_consented t) = MAX_CONTRACTS"

lemma scan_loop_bound: "length acc \<le> MAX_CONTRACTS \<Longrightarrow> length (scan_loop f ls acc) \<le> MAX_CONTRACTS"
  by (induction f ls acc rule: scan_loop.induct) (auto split: option.splits)

lemma load_contract_active: "ct_ativo (load_contract f n)" "ct_caps_req (load_contract f n) = 0"
proof -
  have "ct_caps_req (parse_line c l) = ct_caps_req c" for c l
    by (simp add: parse_line_def split: prod.split)
  then have "ct_caps_req (fold (\<lambda>l c. if l \<noteq> [] \<and> hd l \<noteq> CHR ''#'' \<and> hd l \<noteq> CHR ''[''
      then parse_line c l else c) ls c) = ct_caps_req c" for ls c
    by (induction ls arbitrary: c) simp_all
  then show "ct_caps_req (load_contract f n) = 0"
    by (simp add: load_contract_def Let_def parse_contract_def clear_contract_def split: option.split)
qed (simp add: load_contract_def Let_def)

lemma scan_loop_all:
  "\<forall>c\<in>set acc. ct_ativo c \<and> ct_caps_req c = 0 \<Longrightarrow> \<forall>c\<in>set (scan_loop f ls acc). ct_ativo c \<and> ct_caps_req c = 0"
proof (induction ls arbitrary: acc)
  case (Cons l ls)
  show ?case
  proof (cases "pacto_name l")
    case None
    then show ?thesis using Cons.IH [OF Cons.prems] by simp
  next
    case (Some n)
    have "\<forall>c\<in>set (if length acc < MAX_CONTRACTS then acc @ [load_contract f n] else acc).
        ct_ativo c \<and> ct_caps_req c = 0"
      using Cons.prems load_contract_active [of f n] by auto
    from Cons.IH [OF this] Some show ?thesis by simp
  qed
qed simp

lemma scan_ok:
  "pact_ok (synallagma_scan_contracts f)"
  "\<forall>c\<in>set (ct_list (synallagma_scan_contracts f)). ct_ativo c \<and> ct_caps_req c = 0"
  "\<not> consent_get i (synallagma_scan_contracts f)"
  using scan_loop_bound [of "[]"] scan_loop_all [of "[]"]
  by (auto simp: pact_ok_def synallagma_scan_contracts_def consent_get_def MAX_CONTRACTS_def)

lemma consent_grant_get:
  "pact_ok t \<Longrightarrow> consent_get i (consent_grant j t) \<longleftrightarrow>
    consent_get i t \<or> i = j \<and> 0 \<le> j \<and> j < int MAX_CONTRACTS"
  "ct_list (consent_grant j t) = ct_list t" "pact_ok t \<Longrightarrow> pact_ok (consent_grant j t)"
  by (auto simp: consent_get_def consent_grant_def pact_ok_def nth_list_update)

lemma prompt_loop_spec:
  assumes "prompt_loop is t ins = Some (r, t', rest)" "pact_ok t" "set is \<subseteq> {0..<length (ct_list t)}"
  shows "pact_ok t' \<and> ct_list t' = ct_list t \<and> (\<forall>i. consent_get i t \<longrightarrow> consent_get i t') \<and>
    (if r then \<forall>i\<in>set is. ct_ativo (ct_list t ! i) \<longrightarrow> consent_get (int i) t'
     else \<exists>i\<in>set is. ct_ativo (ct_list t ! i) \<and> \<not> consent_get (int i) t')"
  using assms
proof (induction "is" t ins rule: prompt_loop.induct)
  case (2 i "is" t ins)
  show ?case
  proof (cases "\<not> ct_ativo (ct_list t ! i) \<or> consent_get (int i) t")
    case True
    then show ?thesis using 2 by (cases r) auto
  next
    case False
    with "2.prems"(1) obtain b ins' where a: "ask ins = Some (b, ins')" by (auto split: option.splits)
    show ?thesis
    proof (cases b)
      case True
      have i: "0 \<le> int i \<and> int i < int MAX_CONTRACTS" using "2.prems"(2,3) by (auto simp: pact_ok_def)
      have "prompt_loop is (consent_grant (int i) t) ins' = Some (r, t', rest)"
        using "2.prems"(1) False a True by simp
      from "2.IH"(2) [OF False a refl _ this] True "2.prems"(2,3) i show ?thesis
        by (cases r) (auto simp: consent_grant_get)
    next
      case no: False
      then have "r = False" "t' = t" using "2.prems"(1) False a by auto
      then show ?thesis using False "2.prems"(2) by auto
    qed
  qed
qed simp

lemma prompt_spec:
  assumes "consent_prompt_contracts t ins = Some (r, t', rest)" "pact_ok t"
  shows "pact_ok t'" "ct_list t' = ct_list t"
    "r \<Longrightarrow> i < length (ct_list t) \<Longrightarrow> ct_ativo (ct_list t ! i) \<Longrightarrow> consent_get (int i) t'"
    "\<not> r \<Longrightarrow> \<exists>i<length (ct_list t). ct_ativo (ct_list t ! i) \<and> \<not> consent_get (int i) t'"
  using prompt_loop_spec [OF assms(1) [unfolded consent_prompt_contracts_def] assms(2)]
  by (auto split: if_splits)

text \<open>Nothing is refused after an accepted prompt.\<close>

lemma prompt_accepts_all:
  assumes "consent_prompt_contracts t ins = Some (True, t', rest)" "pact_ok t"
  shows "synallagma_consented p t'"
  unfolding synallagma_consented_def
  using prompt_spec [OF assms] by (auto split: option.split dest: first_index_SomeD)

text \<open>The prompt ends once there is a definite answer for every contract.\<close>

lemma ask_answers:
  assumes "n < length (filter (\<lambda>a. at a 0 \<in> set ''SsYyNn'') ins)"
  shows "\<exists>b rest. ask ins = Some (b, rest) \<and>
    n \<le> length (filter (\<lambda>a. at a 0 \<in> set ''SsYyNn'') rest)"
  using assms by (induction ins) (auto split: if_splits)

lemma prompt_loop_returns:
  "length is \<le> length (filter (\<lambda>a. at a 0 \<in> set ''SsYyNn'') ins) \<Longrightarrow> prompt_loop is t ins \<noteq> None"
proof (induction "is" t ins rule: prompt_loop.induct)
  case (2 i "is" t ins)
  show ?case
  proof (cases "\<not> ct_ativo (ct_list t ! i) \<or> consent_get (int i) t")
    case True
    then show ?thesis using 2 by simp
  next
    case False
    have "length is < length (filter (\<lambda>a. at a 0 \<in> set ''SsYyNn'') ins)" using "2.prems" by simp
    then obtain b rest where a: "ask ins = Some (b, rest)"
        "length is \<le> length (filter (\<lambda>a. at a 0 \<in> set ''SsYyNn'') rest)"
      using ask_answers by blast
    show ?thesis using "2.IH"(2) [OF False a(1) refl _ a(2)] a False by (cases b) auto
  qed
qed simp

text \<open>The lines left are a suffix of the lines given.\<close>

lemma ask_suffix: "ask ins = Some (b, rest) \<Longrightarrow> suffix rest ins"
  by (induction ins rule: ask.induct) (auto split: if_splits intro: suffix_ConsI)

lemma prompt_suffix: "consent_prompt_contracts t ins = Some (r, t', rest) \<Longrightarrow> suffix rest ins"
proof -
  have "prompt_loop is t ins = Some (r, t', rest) \<Longrightarrow> suffix rest ins" for "is" t ins
  proof (induction "is" t ins rule: prompt_loop.induct)
    case (2 i "is" t ins)
    then show ?case
      by (auto split: if_splits option.splits bool.splits dest!: ask_suffix)
        (metis suffix_order.order_trans)+
  qed simp
  then show "consent_prompt_contracts t ins = Some (r, t', rest) \<Longrightarrow> suffix rest ins"
    by (simp add: consent_prompt_contracts_def)
qed

lemma prompt_shorter: "consent_prompt_contracts t ins = Some (r, t', rest) \<Longrightarrow> length rest \<le> length ins"
  by (intro suffix_length_le prompt_suffix)

section \<open>Properties\<close>

text \<open>An example: two contracts, on a folder and on one below it.\<close>

definition two_pacts :: pact where
  "two_pacts = \<lparr>ct_list = [clear_contract\<lparr>ct_caminho := ''/idios'', ct_ativo := True\<rparr>,
     clear_contract\<lparr>ct_caminho := ''/idios/thais'', ct_ativo := True\<rparr>],
     ct_consented = replicate MAX_CONTRACTS False\<rparr>"

lemma two_pacts_simps: "length (ct_list two_pacts) = 2" "ct_list two_pacts ! 0 = clear_contract\<lparr>ct_caminho := ''/idios'', ct_ativo := True\<rparr>"
  "ct_list two_pacts ! 1 = clear_contract\<lparr>ct_caminho := ''/idios/thais'', ct_ativo := True\<rparr>"
  "pact_ok two_pacts"
  by (simp_all add: two_pacts_def pact_ok_def MAX_CONTRACTS_def)

text \<open>The contract found for a path is the most specific one: it guards the path, no contract on a
  longer folder does, and among equals it is the first of the table.  None is found only
  when none guards the path.\<close>

theorem contract_most_specific:
  assumes "synallagma_contract_for path t = r"
  shows "case r of None \<Rightarrow> (\<forall>c\<in>set (ct_list t). \<not> guards path c)
    | Some k \<Rightarrow> k < length (ct_list t) \<and> guards path (ct_list t ! k) \<and>
        (\<forall>j<length (ct_list t). guards path (ct_list t ! j) \<longrightarrow>
          strlen (ct_caminho (ct_list t ! j)) \<le> strlen (ct_caminho (ct_list t ! k)) \<and>
          (j < k \<longrightarrow> strlen (ct_caminho (ct_list t ! j)) < strlen (ct_caminho (ct_list t ! k))))"
proof (cases r)
  case None
  then show ?thesis using assms contract_for_None by simp
next
  case (Some k)
  then show ?thesis using contract_for_Some [of path t k] assms by auto
qed

lemma contract_most_specific_witness:
  "synallagma_contract_for ''/idios/thais/x'' two_pacts = Some 1"
proof (cases "synallagma_contract_for ''/idios/thais/x'' two_pacts")
  have g: "guards ''/idios/thais/x'' (ct_list two_pacts ! 0)" "guards ''/idios/thais/x'' (ct_list two_pacts ! 1)"
    unfolding two_pacts_simps by (simp_all add: guards_def Let_def strncmp_iff strlen_cstr cstr_def at_def)
  case None
  have "ct_list two_pacts ! 0 \<in> set (ct_list two_pacts)" by (rule nth_mem) (simp add: two_pacts_simps)
  then show ?thesis using contract_most_specific [OF None] g(1) by simp
next
  have g: "guards ''/idios/thais/x'' (ct_list two_pacts ! 1)"
    unfolding two_pacts_simps by (simp add: guards_def Let_def strncmp_iff strlen_cstr cstr_def at_def)
  case (Some k)
  have "\<not> k = 0"
  proof
    assume "k = 0"
    then show False using contract_most_specific [OF Some] g two_pacts_simps
      by (auto simp: strlen_cstr cstr_def less_Suc_eq numeral_2_eq_2)
  qed
  moreover have "k < 2" using contract_most_specific [OF Some] by (simp add: two_pacts_simps)
  ultimately show ?thesis using Some by simp
qed

text \<open>The consent dialogue records only consents that were given.  If it ends well every active
  contract has its consent; if the user refuses, an active contract is left without; consents
  given before are kept, and no contract changes.\<close>

theorem consent_dialogue:
  assumes "consent_prompt_contracts t ins = Some (r, t', rest)" "pact_ok t"
  shows "ct_list t' = ct_list t \<and> pact_ok t' \<and> (\<forall>i. consent_get i t \<longrightarrow> consent_get i t') \<and>
    (if r then \<forall>i<length (ct_list t). ct_ativo (ct_list t ! i) \<longrightarrow> consent_get (int i) t'
     else \<exists>i<length (ct_list t). ct_ativo (ct_list t ! i) \<and> \<not> consent_get (int i) t')"
proof -
  note P = prompt_loop_spec [OF assms(1) [unfolded consent_prompt_contracts_def] assms(2)]
  show ?thesis using P prompt_spec [OF assms] by auto
qed

lemma consent_dialogue_witness:
  "consent_get 1 (fst (snd (the (consent_prompt_contracts two_pacts [''talvez'', ''sim'', ''s'']))))"
proof -
  obtain t' where e: "consent_prompt_contracts two_pacts [''talvez'', ''sim'', ''s''] = Some (True, t', [])"
    by (simp add: consent_prompt_contracts_def two_pacts_def clear_contract_def consent_get_def
        consent_grant_def at_def MAX_CONTRACTS_def)
  from consent_dialogue [OF e two_pacts_simps(4)] two_pacts_simps have "consent_get (int 1) t'"
    by (auto dest: spec [of _ 1])
  then show ?thesis using e by simp
qed

text \<open>The dialogue does not wait for ever: it ends as soon as the user has given as many answers that
  start with a yes or a no as there are contracts.\<close>

theorem consent_dialogue_ends:
  assumes "length (ct_list t) \<le> length (filter (\<lambda>a. at a 0 \<in> set ''SsYyNn'') ins)"
  shows "consent_prompt_contracts t ins \<noteq> None"
  unfolding consent_prompt_contracts_def by (rule prompt_loop_returns) (use assms in simp)

lemma consent_dialogue_ends_witness: "consent_prompt_contracts two_pacts [''nunca'', ''s''] \<noteq> None"
  by (rule consent_dialogue_ends) (simp add: two_pacts_simps at_def)

end
