(* ===== verification/Caps.thy ===== *)
theory Caps
  imports Process
begin

unbundle bit_operations_syntax

text \<open>
  Capabilities (src/kernel/cap.c): the 64-bit rights mask of a process, with the
  test, grant and revoke operations, and the registration of a placeholder
  process.
\<close>

definition CAP_FB_DRAW :: u64 where "CAP_FB_DRAW = push_bit 0 1"
definition CAP_KINESIS_SPAWN :: u64 where "CAP_KINESIS_SPAWN = push_bit 2 1"
definition CAP_IDIOS_WRITE :: u64 where "CAP_IDIOS_WRITE = push_bit 5 1"
definition CAP_FS_READ :: u64 where "CAP_FS_READ = push_bit 6 1"
definition CAP_FS_WRITE :: u64 where "CAP_FS_WRITE = push_bit 7 1"
definition CAP_USER_ADMIN :: u64 where "CAP_USER_ADMIN = push_bit 8 1"
definition CAP_EXEC :: u64 where "CAP_EXEC = push_bit 9 1"
definition CAP_IPC :: u64 where "CAP_IPC = push_bit 10 1"
definition CAP_SYSCALL :: u64 where "CAP_SYSCALL = push_bit 11 1"
definition CAP_DEV_IO :: u64 where "CAP_DEV_IO = push_bit 12 1"
definition CAP_ALL :: u64 where "CAP_ALL = - 1"

lemmas cap_defs = CAP_FB_DRAW_def CAP_KINESIS_SPAWN_def CAP_IDIOS_WRITE_def CAP_FS_READ_def
  CAP_FS_WRITE_def CAP_USER_ADMIN_def CAP_EXEC_def CAP_IPC_def CAP_SYSCALL_def CAP_DEV_IO_def
  CAP_ALL_def

definition cap_check :: "u32 \<Rightarrow> u64 \<Rightarrow> sys \<Rightarrow> bool" where
  "cap_check pid right s =
    (case proc_get s pid of None \<Rightarrow> False | Some i \<Rightarrow> p_rights (procs s ! i) AND right \<noteq> 0)"

definition cap_grant :: "u32 \<Rightarrow> u64 \<Rightarrow> sys \<Rightarrow> bool \<times> sys" where
  "cap_grant pid rights s =
    (case proc_get s pid of
       None \<Rightarrow> (False, s)
     | Some i \<Rightarrow> (True, upd i (\<lambda>p. p\<lparr>p_rights := p_rights p OR rights\<rparr>) s))"

definition cap_revoke :: "u32 \<Rightarrow> u64 \<Rightarrow> sys \<Rightarrow> bool \<times> sys" where
  "cap_revoke pid rights s =
    (case proc_get s pid of
       None \<Rightarrow> (False, s)
     | Some i \<Rightarrow> (True, upd i (\<lambda>p. p\<lparr>p_rights := p_rights p AND NOT rights\<rparr>) s))"

abbreviation cap_has :: "u32 \<Rightarrow> u64 \<Rightarrow> sys \<Rightarrow> bool" where "cap_has \<equiv> cap_check"

text \<open>\<open>dummy\<close> is the address of \<open>proc_crash_dummy\<close>.\<close>

definition kinesis_register_only :: "string option \<Rightarrow> u64 \<Rightarrow> u64 \<Rightarrow> sys \<Rightarrow> u32 \<times> sys" where
  "kinesis_register_only name caps dummy s =
    (if name = None \<or> cstr (the name) = '''' then (0, s)
     else case proc_create name caps dummy s of (pid, s) \<Rightarrow>
       if pid \<le> 0 then (0, s)
       else (of_int pid,
         case proc_get s (of_int pid) of None \<Rightarrow> s | Some i \<Rightarrow> set_state Created i s))"

abbreviation kinesis_spawn :: "string option \<Rightarrow> u64 \<Rightarrow> u64 \<Rightarrow> sys \<Rightarrow> u32 \<times> sys" where
  "kinesis_spawn \<equiv> kinesis_register_only"

definition kinesis_line :: "pcb \<Rightarrow> string option" where
  "kinesis_line p = snprintf 96 (''  pid %u %-14s [%s] rights=%llx'' @ [CHR 0x0A])
     [AInt (p_pid p), AStr (Some (p_name p)), AStr (Some (state_name (p_state p))),
      ALong (p_rights p)]"

definition kinesis_list :: "sys \<Rightarrow> string option list" where
  "kinesis_list s =
    map kinesis_line (filter (\<lambda>p. p_present p \<and> p_state p \<noteq> Terminated) (procs s))"

section \<open>The laws of grant and revoke\<close>

lemma proc_get_upd:
  assumes "\<And>p. p_present (f p) = p_present p" "\<And>p. p_pid (f p) = p_pid p"
  shows "proc_get (upd i f s) pid = proc_get s pid"
proof -
  let ?P = "\<lambda>p. p_present p \<and> p_pid p = pid"
  have m: "map ?P (procs (upd i f s)) = map ?P (procs s)"
    by (rule nth_equalityI) (auto simp: procs_upd_any assms)
  have mp: "first_index P xs = first_index id (map P xs)" for P and xs :: "pcb list"
    by (induction xs) auto
  show ?thesis unfolding proc_get_def mp m ..
qed

lemma cap_grant_gives:
  assumes "cap_grant pid r s = (True, s')"
  shows "cap_check pid q s' \<longleftrightarrow> cap_check pid q s \<or> r AND q \<noteq> 0"
proof -
  from assms obtain i where i: "proc_get s pid = Some i"
      "s' = upd i (\<lambda>p. p\<lparr>p_rights := p_rights p OR r\<rparr>) s"
    by (auto simp: cap_grant_def split: option.splits)
  have "proc_get s' pid = Some i" using i proc_get_upd by simp
  moreover have "(p_rights (procs s ! i) OR r) AND q =
      (p_rights (procs s ! i) AND q) OR (r AND q)" by (rule bit.conj_disj_distrib2)
  moreover have "a OR b = 0 \<longleftrightarrow> a = 0 \<and> b = 0" for a b :: u64
    by (metis or.right_neutral or_eq_0_iff)
  ultimately show ?thesis
    using i proc_get_SomeD [OF i(1)] by (simp add: cap_check_def procs_upd)
qed

lemma cap_revoke_takes:
  assumes "cap_revoke pid r s = (True, s')"
  shows "\<not> cap_check pid r s'" "q AND r = 0 \<Longrightarrow> cap_check pid q s' = cap_check pid q s"
proof -
  from assms obtain i where i: "proc_get s pid = Some i"
      "s' = upd i (\<lambda>p. p\<lparr>p_rights := p_rights p AND NOT r\<rparr>) s"
    by (auto simp: cap_revoke_def split: option.splits)
  have g: "proc_get s' pid = Some i" using i proc_get_upd by simp
  have p: "p_rights (procs s' ! i) = p_rights (procs s ! i) AND NOT r"
    using i proc_get_SomeD [OF i(1)] by (simp add: procs_upd)
  have "p_rights (procs s' ! i) AND r = 0" unfolding p by (simp add: and.assoc)
  then show "\<not> cap_check pid r s'" using g by (simp add: cap_check_def)
  assume q: "q AND r = 0"
  have "NOT r AND q = q"
  proof -
    have "q = (q AND r) OR (q AND NOT r)" by (metis bit.conj_disj_distrib bit.disj_cancel_right and.right_neutral)
    then show ?thesis using q by (simp add: and.commute)
  qed
  then have "p_rights (procs s' ! i) AND q = p_rights (procs s ! i) AND q"
    unfolding p by (simp add: and.assoc)
  then show "cap_check pid q s' = cap_check pid q s" using g i by (simp add: cap_check_def)
qed

text \<open>Neither operation changes another process.\<close>

lemma cap_other:
  assumes "cap_grant pid r s = (b, s') \<or> cap_revoke pid r s = (b, s')"
    "j < length (procs s)" "p_pid (procs s ! j) \<noteq> pid"
  shows "procs s' ! j = procs s ! j"
proof -
  have "s' = s \<or> (\<exists>i f. proc_get s pid = Some i \<and> s' = upd i f s)"
    using assms(1) by (auto simp: cap_grant_def cap_revoke_def split: option.splits)
  then show ?thesis
  proof (elim disjE exE conjE)
    fix i f
    assume i: "proc_get s pid = Some i" "s' = upd i f s"
    then have "j \<noteq> i" using proc_get_SomeD(3) [OF i(1)] assms(3) by auto
    then show ?thesis using i(2) by simp
  qed simp
qed

section \<open>Properties\<close>

text \<open>Granting a process rights gives it exactly those beside the ones it had, revoking them takes
  them away again, and neither changes the record of another process.\<close>

theorem grant_then_revoke:
  assumes "cap_grant pid r s = (True, s1)" "cap_revoke pid r s1 = (True, s2)"
  shows "(cap_check pid q s1 \<longleftrightarrow> cap_check pid q s \<or> r AND q \<noteq> 0) \<and> \<not> cap_check pid r s2 \<and>
    (q AND r = 0 \<longrightarrow> cap_check pid q s2 = cap_check pid q s) \<and>
    (\<forall>j<length (procs s). p_pid (procs s ! j) \<noteq> pid \<longrightarrow> procs s1 ! j = procs s ! j)"
proof -
  have "cap_check pid q s2 = cap_check pid q s" if "q AND r = 0"
    using cap_revoke_takes(2) [OF assms(2) that] cap_grant_gives [OF assms(1), of q] that
    by (simp add: and.commute)
  then show ?thesis
    using cap_grant_gives [OF assms(1)] cap_revoke_takes(1) [OF assms(2)] cap_other assms(1) by blast
qed

lemma grant_then_revoke_witness:
  "\<not> cap_check 2 CAP_IPC (snd (cap_revoke 2 CAP_IPC (snd (cap_grant 2 CAP_IPC two_procs))))"
proof -
  have g: "proc_get two_procs 2 = Some 1" by (simp add: proc_get_def two_procs_def)
  then have 1: "cap_grant 2 CAP_IPC two_procs = (True, snd (cap_grant 2 CAP_IPC two_procs))"
    by (simp add: cap_grant_def)
  have "proc_get (snd (cap_grant 2 CAP_IPC two_procs)) 2 = Some 1"
    using g proc_get_upd by (simp add: cap_grant_def)
  then have "cap_revoke 2 CAP_IPC (snd (cap_grant 2 CAP_IPC two_procs)) =
      (True, snd (cap_revoke 2 CAP_IPC (snd (cap_grant 2 CAP_IPC two_procs))))"
    by (simp add: cap_revoke_def)
  from grant_then_revoke [OF 1 this] show ?thesis by blast
qed

end
