(* ===== verification/Auth.thy ===== *)
theory Auth
  imports Crypto Synallagma Caps
begin

unbundle bit_operations_syntax

text \<open>
  Accounts, sessions and session tickets (src/kernel/auth.c), and the login
  dialogue (src/kernel/login.c).

  \<open>au_accounts\<close> is the first \<open>account_count\<close> entries of the table, \<open>au_tickets\<close>
  the first \<open>ticket_count\<close> ones.  A pointer to an account is its index, or the
  synthetic account of a ticket session.
\<close>

definition AUTH_USER_MAX :: nat where "AUTH_USER_MAX = 16"
definition AUTH_NAME_MAX :: nat where "AUTH_NAME_MAX = 32"
definition AUTH_HASH_ITER :: nat where "AUTH_HASH_ITER = 100000"
definition AUTH_TICKET_MAX :: nat where "AUTH_TICKET_MAX = 16"

record account =
  ac_name :: string
  ac_hash :: string
  ac_salt :: string
  ac_caps :: u64
  ac_active :: bool
  ac_admin :: bool

record ticket =
  tk_name :: string
  tk_caps :: u64
  tk_tok :: u64
  tk_used :: bool

datatype user_ref = Acct nat | Synth

record auth =
  au_accounts :: "account list"
  au_current :: "user_ref option"
  au_tickets :: "ticket list"
  au_seq :: u64
  au_synth :: account
  au_rng :: u64

definition auth_init :: "auth \<Rightarrow> auth" where
  "auth_init a = a\<lparr>au_accounts := []\<rparr>"

definition zero_auth :: auth where
  "zero_auth = \<lparr>au_accounts = [], au_current = None, au_tickets = [], au_seq = 0,
     au_synth = \<lparr>ac_name = '''', ac_hash = '''', ac_salt = '''', ac_caps = 0, ac_active = False,
       ac_admin = False\<rparr>,
     au_rng = 0x74686169736F73\<rparr>"

definition user_of :: "auth \<Rightarrow> user_ref \<Rightarrow> account" where
  "user_of a r = (case r of Acct i \<Rightarrow> au_accounts a ! i | Synth \<Rightarrow> au_synth a)"

definition login_result_user :: "auth \<Rightarrow> account option" where
  "login_result_user a = map_option (user_of a) (au_current a)"

definition login_set_user :: "user_ref option \<Rightarrow> auth \<Rightarrow> auth" where
  "login_set_user u a = a\<lparr>au_current := u\<rparr>"

definition auth_user_count :: "auth \<Rightarrow> nat" where
  "auth_user_count a = length (au_accounts a)"

section \<open>Passwords\<close>

definition gen_salt :: "auth \<Rightarrow> string \<times> auth" where
  "gen_salt a =
    (let r1 = rand64 (au_rng a); r2 = rand64 r1
     in (sformat 33 ''%016llx%016llx'' [ALong r1, ALong r2], a\<lparr>au_rng := r2\<rparr>))"

definition nibble :: "char \<Rightarrow> u8" where
  "nibble c =
    (let v = ord8 c in
     if 48 \<le> v \<and> v \<le> 57 then of_nat (v - 48)
     else if 97 \<le> v \<and> v \<le> 102 then of_nat (v - 97 + 10)
     else if 65 \<le> v \<and> v \<le> 70 then of_nat (v - 65 + 10)
     else 0)"

fun hex_to_bytes :: "string \<Rightarrow> u8 list" where
  "hex_to_bytes (h # l # s) =
    (if h = NUL \<or> l = NUL then [] else (push_bit 4 (nibble h) OR nibble l) # hex_to_bytes s)"
| "hex_to_bytes s = []"

definition bytes_to_hex :: "u8 list \<Rightarrow> string" where
  "bytes_to_hex bs = concat (map (\<lambda>b. sformat 3 ''%02x'' [AInt (ucast b)]) bs)"

text \<open>The salt has at most 32 digits, those that fit \<open>salt_bytes\<close>: the accounts
  hold no more, and the system call reads it into 33 bytes.\<close>

definition auth_hash_password :: "string option \<Rightarrow> string \<Rightarrow> string" where
  "auth_hash_password password salt =
    (let sl = min (strlen salt div 2) 16;
         pw = clip 63 (case password of None \<Rightarrow> '''' | Some p \<Rightarrow> p)
     in bytes_to_hex (pbkdf2_hmac_sha256 (map of_char pw) (take sl (hex_to_bytes salt))
          AUTH_HASH_ITER 32))"

section \<open>Accounts\<close>

definition auth_find :: "string \<Rightarrow> auth \<Rightarrow> nat option" where
  "auth_find name a = first_index (\<lambda>u. ac_active u \<and> streq (ac_name u) name) (au_accounts a)"

definition auth_create_user :: "string \<Rightarrow> string \<Rightarrow> u64 \<Rightarrow> bool \<Rightarrow> auth \<Rightarrow> bool \<times> auth" where
  "auth_create_user name password caps admin a =
    (if AUTH_USER_MAX \<le> length (au_accounts a) then (False, a)
     else if list_ex (\<lambda>u. streq (ac_name u) name) (au_accounts a) then (False, a)
     else case gen_salt a of (salt, a) \<Rightarrow>
       (True, a\<lparr>au_accounts := au_accounts a @
          [\<lparr>ac_name = clip 31 name, ac_hash = auth_hash_password (Some password) salt,
            ac_salt = clip 32 salt, ac_caps = caps, ac_active = True, ac_admin = admin\<rparr>]\<rparr>))"

definition auth_verify :: "string \<Rightarrow> string \<Rightarrow> auth \<Rightarrow> bool" where
  "auth_verify name password a =
    (case auth_find name a of
       None \<Rightarrow> False
     | Some i \<Rightarrow> let u = au_accounts a ! i in
        if \<not> ac_active u then False
        else streq (auth_hash_password (Some password) (ac_salt u)) (ac_hash u))"

definition auth_upd :: "nat \<Rightarrow> (account \<Rightarrow> account) \<Rightarrow> auth \<Rightarrow> auth" where
  "auth_upd i f a = a\<lparr>au_accounts := (au_accounts a)[i := f (au_accounts a ! i)]\<rparr>"

definition set_password :: "nat \<Rightarrow> string \<Rightarrow> auth \<Rightarrow> auth" where
  "set_password i newpw a =
    (case gen_salt a of (salt, a) \<Rightarrow>
      auth_upd i (\<lambda>u. u\<lparr>ac_salt := clip 32 salt, ac_hash := auth_hash_password (Some newpw) salt\<rparr>) a)"

definition auth_change_password :: "string \<Rightarrow> string \<Rightarrow> string \<Rightarrow> auth \<Rightarrow> bool \<times> auth" where
  "auth_change_password name oldpw newpw a =
    (case auth_find name a of
       None \<Rightarrow> (False, a)
     | Some i \<Rightarrow> if \<not> auth_verify name oldpw a then (False, a) else (True, set_password i newpw a))"

definition auth_change_password_admin :: "string \<Rightarrow> string \<Rightarrow> auth \<Rightarrow> bool \<times> auth" where
  "auth_change_password_admin name newpw a =
    (case auth_find name a of None \<Rightarrow> (False, a) | Some i \<Rightarrow> (True, set_password i newpw a))"

definition auth_user_delete :: "string \<Rightarrow> auth \<Rightarrow> bool \<times> auth" where
  "auth_user_delete name a =
    (case auth_find name a of
       None \<Rightarrow> (False, a)
     | Some i \<Rightarrow> (True, auth_upd i (\<lambda>u. u\<lparr>ac_active := False\<rparr>) a))"

definition auth_line :: "nat \<Rightarrow> account \<Rightarrow> string" where
  "auth_line n u = sformat n (''  %s %s caps=%llx'' @ [LF])
     [AStr (Some (ac_name u)), AStr (Some (if ac_admin u then ''(soberano)'' else ''(voluntario)'')),
      ALong (ac_caps u)]"

definition auth_list :: "auth \<Rightarrow> string list" where
  "auth_list a =
    (if au_accounts a = [] then [''  (nenhum usuario)'' @ [LF]]
     else map (auth_line 64) (filter ac_active (au_accounts a)))"

text \<open>The macro \<open>A\<close>: a piece that does not fit is skipped, the later ones are
  still tried.\<close>

definition append_fit :: "nat \<Rightarrow> string \<Rightarrow> string \<Rightarrow> string" where
  "append_fit mx out s = (if length out + strlen s < mx then out @ cstr s else out)"

definition auth_list_text :: "nat \<Rightarrow> auth \<Rightarrow> string" where
  "auth_list_text mx a =
    (if au_accounts a = [] then append_fit mx [] (''(nenhum usuario)'' @ [LF])
     else fold (\<lambda>u out. append_fit mx out (auth_line 96 u)) (filter ac_active (au_accounts a)) [])"

definition auth_user_index_current :: "auth \<Rightarrow> u8" where
  "auth_user_index_current a =
    (case au_current a of Some (Acct i) \<Rightarrow> if i < length (au_accounts a) then of_nat i else 0xFF
     | _ \<Rightarrow> 0xFF)"

section \<open>Session tickets\<close>

text \<open>What the token mixes in from the machine: the tick counter, the address of
  the current process (0 without one) and the counter of the timer.\<close>

record entropy =
  en_ticks :: u64
  en_proc :: u64
  en_pit :: u16

definition auth_ticket_token :: "entropy \<Rightarrow> u64 \<Rightarrow> u64" where
  "auth_ticket_token e seq =
    (let s = push_bit 17 (en_ticks e) XOR seq * 0x9E3779B97F4A7C15;
         s = (if en_proc e \<noteq> 0 then s XOR en_proc e * 0x5851F42D4C957F2D else s)
     in s XOR push_bit 33 (ucast (en_pit e)))"

definition auth_ticket_issue :: "entropy \<Rightarrow> string \<Rightarrow> u64 \<Rightarrow> auth \<Rightarrow> u64 option \<times> auth" where
  "auth_ticket_issue e name caps a =
    (if cstr name = '''' then (None, a)
     else if AUTH_TICKET_MAX \<le> length (au_tickets a) then (None, a)
     else
       let old = map (\<lambda>t. if \<not> tk_used t \<and> streq (tk_name t) name then t\<lparr>tk_used := True\<rparr> else t)
                   (au_tickets a);
           seq = au_seq a + 1;
           tok = auth_ticket_token e seq
       in (Some tok, a\<lparr>au_tickets := old @ [\<lparr>tk_name = clip 31 name, tk_caps = caps, tk_tok = tok,
             tk_used = False\<rparr>], au_seq := seq\<rparr>))"

definition auth_ticket_consume :: "string \<Rightarrow> u64 \<Rightarrow> auth \<Rightarrow> bool \<times> auth" where
  "auth_ticket_consume name tok a =
    (case first_index (\<lambda>t. \<not> tk_used t \<and> streq (tk_name t) name \<and> tk_tok t = tok) (au_tickets a) of
       None \<Rightarrow> (False, a)
     | Some i \<Rightarrow>
        let t = au_tickets a ! i in
        (True, a\<lparr>au_tickets := (au_tickets a)[i := t\<lparr>tk_used := True\<rparr>],
           au_synth := \<lparr>ac_name = clip 31 name, ac_hash = '''', ac_salt = '''', ac_caps = tk_caps t,
             ac_active = True, ac_admin = (tk_caps t = CAP_ALL)\<rparr>\<rparr>))"

section \<open>The login dialogue\<close>

text \<open>The input is the list of lines \<open>keyboard_get_line\<close> returns; \<^const>\<open>None\<close> when
  the code is still waiting for one.\<close>

fun login_bootstrap :: "string list \<Rightarrow> auth \<Rightarrow> (auth \<times> string list) option" where
  "login_bootstrap (user # ins) a =
    (if strlen user < 3 then login_bootstrap ins a
     else case ins of
       pass # pass2 # ins' \<Rightarrow>
         if \<not> streq pass pass2 then login_bootstrap ins' a
         else if strlen pass < 4 then login_bootstrap ins' a
         else (case auth_create_user user pass CAP_ALL True a of (ok, a') \<Rightarrow>
                 if ok then Some (a', ins') else login_bootstrap ins' a')
     | _ \<Rightarrow> None)"
| "login_bootstrap [] a = None"

function login_loop :: "string list \<Rightarrow> auth \<Rightarrow> pact \<Rightarrow> (auth \<times> pact \<times> string list) option" where
  "login_loop ins a t =
    (case ins of
       [] \<Rightarrow> None
     | user # ins1 \<Rightarrow>
        (case auth_find user a of
           None \<Rightarrow> login_loop ins1 a t
         | Some i \<Rightarrow>
            (case ins1 of
               [] \<Rightarrow> None
             | pass # ins2 \<Rightarrow>
                if auth_verify user pass a then
                  (case consent_prompt_contracts t ins2 of
                     None \<Rightarrow> None
                   | Some (ok, t', ins3) \<Rightarrow>
                      if ok then Some (login_set_user (Some (Acct i)) a, t', ins3)
                      else login_loop ins3 (login_set_user None a) t')
                else login_loop ins2 a t)))"
  by pat_completeness auto
termination
  by (relation "measure (\<lambda>(ins, a, t). length ins)") (auto dest: prompt_shorter)

declare login_loop.simps [simp del]

definition login_main :: "string list \<Rightarrow> auth \<Rightarrow> pact \<Rightarrow> (auth \<times> pact \<times> string list) option" where
  "login_main ins a t =
    (if auth_user_count a = 0
     then (case login_bootstrap ins a of None \<Rightarrow> None | Some (a, ins) \<Rightarrow> login_loop ins a t)
     else login_loop ins a t)"

section \<open>Hexadecimal text\<close>

lemma hex_digit_char:
  "d < 16 \<Longrightarrow> char_of (if d < 10 then 48 + d else 97 + d - 10 :: nat) \<noteq> NUL \<and>
    nibble (char_of (if d < 10 then 48 + d else 97 + d - 10)) = of_nat d"
proof -
  have "list_all (\<lambda>d. char_of (if d < 10 then 48 + d else 97 + d - 10 :: nat) \<noteq> NUL \<and>
      nibble (char_of (if d < 10 then 48 + d else 97 + d - 10)) = of_nat d) [0..<16]"
    by code_simp
  then show "d < 16 \<Longrightarrow> ?thesis" unfolding list_all_iff by auto
qed

lemma NUL_notin_hex_rev: "NUL \<notin> set (hex_rev v)"
proof (induction v rule: less_induct)
  case (less v)
  show ?case
  proof (cases "v div 16 = 0")
    case True
    then have "v < 16" by (simp add: div_eq_0_iff)
    then show ?thesis using hex_digit_char [of v] by (subst hex_rev.simps) (auto simp: Let_def)
  next
    case False
    then have "v div 16 < v" by (cases v) auto
    then show ?thesis
      using less.IH hex_digit_char [of "v mod 16"] by (subst hex_rev.simps) (auto simp: Let_def)
  qed
qed

definition hex16 :: "u64 \<Rightarrow> string" where
  "hex16 v = replicate (16 - length (hex_rev (unat v))) (CHR ''0'') @ rev (hex_rev (unat v))"

lemma hex16: "length (hex16 v) = 16" "NUL \<notin> set (hex16 v)"
proof -
  have "unat v < 16 ^ Suc 15" using unsigned_less [of v] by simp
  then have "length (hex_rev (unat v)) \<le> 16" using length_hex_rev by fastforce
  then show "length (hex16 v) = 16" by (simp add: hex16_def)
  show "NUL \<notin> set (hex16 v)" by (simp add: hex16_def NUL_notin_hex_rev)
qed

lemma directive_llx:
  assumes "length out + 16 < n"
  shows "directive n out (''016llx'' @ r) (ALong v # as) = Some (out @ hex16 v, r, as)"
proof -
  have l: "length (hex_rev (unat v)) \<le> 16" using hex16(1) [of v] by (simp add: hex16_def)
  have "put_num n True 16 False (hex_rev (unat v)) out = out @ hex16 v"
    using assms l by (simp add: put_num_def Let_def put_chars_fits hex16_def)
  then show ?thesis by (simp add: directive_def emit_def)
qed

lemma salt_text: "sformat 33 ''%016llx%016llx'' [ALong a, ALong b] = hex16 a @ hex16 b"
proof -
  have c: "cstr ''%016llx%016llx'' = CHR ''%'' # ''016llx'' @ (CHR ''%'' # ''016llx'' @ [])" by simp
  have 1: "directive 33 [] (''016llx'' @ (CHR ''%'' # ''016llx'' @ [])) [ALong a, ALong b] =
      Some ([] @ hex16 a, CHR ''%'' # ''016llx'' @ [], [ALong b])"
    by (rule directive_llx) simp
  have 2: "directive 33 (hex16 a) (''016llx'' @ []) [ALong b] = Some (hex16 a @ hex16 b, [], [])"
    by (rule directive_llx) (simp add: hex16)
  show ?thesis unfolding sformat_def snprintf_def c using 1 2 by (simp add: hex16)
qed

lemma gen_salt_spec:
  assumes "gen_salt a = (salt, a')"
  shows "length salt = 32" "clip 32 salt = salt" "a' = a\<lparr>au_rng := au_rng a'\<rparr>"
proof -
  have s: "salt = hex16 (rand64 (au_rng a)) @ hex16 (rand64 (rand64 (au_rng a)))"
      and a': "a' = a\<lparr>au_rng := rand64 (rand64 (au_rng a))\<rparr>"
    using assms by (auto simp: gen_salt_def Let_def salt_text)
  then show l: "length salt = 32" by (simp add: hex16)
  have "NUL \<notin> set salt" using s by (simp add: hex16)
  then show "clip 32 salt = salt" using l by (simp add: clip_def cstr_id)
  show "a' = a\<lparr>au_rng := au_rng a'\<rparr>" using a' by simp
qed

abbreviation hexc :: "nat \<Rightarrow> char" where
  "hexc d \<equiv> char_of (if d < 10 then 48 + d else 97 + d - 10)"

lemma hex_rev_byte:
  assumes "n < 256"
  shows "put_num 3 True 2 False (hex_rev n) [] = [hexc (n div 16), hexc (n mod 16)]"
proof (cases "n < 16")
  case True
  have "hex_rev n = [hexc n]" using True by (subst hex_rev.simps) (simp add: Let_def)
  then show ?thesis using True by (simp add: put_num_def Let_def char_of_def bit_0)
next
  case False
  have "n div 16 < 16" "n div 16 \<noteq> 0" using assms False by auto
  then have "hex_rev n = [hexc (n mod 16), hexc (n div 16)]"
    by (subst hex_rev.simps, subst hex_rev.simps) (simp add: Let_def)
  then show ?thesis by (simp only: put_num_def) (simp add: Let_def)
qed

lemma byte_halves: "push_bit 4 (of_nat (unat b div 16)) OR of_nat (unat b mod 16) = (b :: u8)"
proof -
  have "unat b < 256" using unsigned_less [of b, where ?'a = nat] by simp
  then have "unat (drop_bit 4 b) = unat b div 16" "unat (take_bit 4 b) = unat b mod 16"
    by (simp_all add: unsigned_drop_bit_eq unsigned_take_bit_eq take_bit_eq_mod drop_bit_eq_div
        unat_div_distrib unat_mod_distrib)
  then have d: "of_nat (unat b div 16) = drop_bit 4 b" and m: "of_nat (unat b mod 16) = take_bit 4 b"
    by (metis of_nat_unat ucast_id)+
  show ?thesis unfolding d m by (rule bit_word_eqI) (auto simp: bit_simps)
qed

lemma hex2: "\<exists>h l. sformat 3 ''%02x'' [AInt (ucast (b :: u8))] = [h, l] \<and> h \<noteq> NUL \<and> l \<noteq> NUL \<and>
    push_bit 4 (nibble h) OR nibble l = b"
proof -
  have n: "unat b < 256" using unsigned_less [of b, where ?'a = nat] by simp
  then have n2: "unat b div 16 < 16" by simp
  have u: "unat (ucast b :: u32) = unat b" using n by (simp add: unsigned_ucast_eq take_bit_nat_eq_self)
  have "directive 3 [] ''02x'' [AInt (ucast b)] =
      Some ([hexc (unat b div 16), hexc (unat b mod 16)], [], [])"
    unfolding directive_def emit_def using hex_rev_byte [OF n, unfolded numeral_2_eq_2] u by simp
  then have "sformat 3 ''%02x'' [AInt (ucast b)] = [hexc (unat b div 16), hexc (unat b mod 16)]"
    by (simp add: sformat_def snprintf_def)
  then show ?thesis
    using hex_digit_char [OF n2] hex_digit_char [of "unat b mod 16"] byte_halves [of b] by simp
qed

lemma bytes_to_hex:
  "length (bytes_to_hex bs) = 2 * length bs \<and> NUL \<notin> set (bytes_to_hex bs) \<and>
   hex_to_bytes (bytes_to_hex bs) = bs"
proof (induction bs)
  case (Cons b bs)
  obtain h l where "sformat 3 ''%02x'' [AInt (ucast b)] = [h, l]" "h \<noteq> NUL" "l \<noteq> NUL"
      "push_bit 4 (nibble h) OR nibble l = b"
    using hex2 by blast
  then show ?case using Cons by (simp add: bytes_to_hex_def)
qed (simp add: bytes_to_hex_def)

lemma length_hash: "length (auth_hash_password pw salt) = 64"
  by (simp add: auth_hash_password_def Let_def bytes_to_hex length_pbkdf2)

section \<open>Well-formed accounts\<close>

definition auth_ok :: "auth \<Rightarrow> bool" where
  "auth_ok a \<longleftrightarrow> length (au_accounts a) \<le> AUTH_USER_MAX \<and>
    distinct (map ac_name (au_accounts a)) \<and>
    (\<forall>u\<in>set (au_accounts a). cstr (ac_name u) = ac_name u \<and> length (ac_name u) \<le> 31) \<and>
    length (au_tickets a) \<le> AUTH_TICKET_MAX \<and>
    (\<forall>i. au_current a = Some (Acct i) \<longrightarrow> i < length (au_accounts a))"

lemma auth_okD:
  assumes "auth_ok a"
  shows "length (au_accounts a) \<le> AUTH_USER_MAX" "distinct (map ac_name (au_accounts a))"
    "i < length (au_accounts a) \<Longrightarrow> cstr (ac_name (au_accounts a ! i)) = ac_name (au_accounts a ! i)"
    "length (au_tickets a) \<le> AUTH_TICKET_MAX"
  using assms by (auto simp: auth_ok_def)

lemma auth_ok_names:
  "auth_ok a \<Longrightarrow> i < length (au_accounts a) \<Longrightarrow> j < length (au_accounts a) \<Longrightarrow>
    ac_name (au_accounts a ! i) = ac_name (au_accounts a ! j) \<Longrightarrow> i = j"
  using nth_eq_iff_index_eq [of "map ac_name (au_accounts a)" i j] by (auto simp: auth_ok_def)

lemma auth_find_SomeD:
  assumes "auth_find n a = Some i"
  shows "i < length (au_accounts a)" "ac_active (au_accounts a ! i)"
    "cstr (ac_name (au_accounts a ! i)) = cstr n"
  using first_index_SomeD [OF assms [unfolded auth_find_def]] by auto

lemma auth_find_iff:
  assumes "auth_ok a"
  shows "auth_find n a = Some i \<longleftrightarrow>
    i < length (au_accounts a) \<and> ac_active (au_accounts a ! i) \<and> ac_name (au_accounts a ! i) = cstr n"
proof
  assume "auth_find n a = Some i"
  then show "i < length (au_accounts a) \<and> ac_active (au_accounts a ! i) \<and> ac_name (au_accounts a ! i) = cstr n"
    using auth_find_SomeD [of n a i] auth_okD(3) [OF assms] by auto
next
  assume i: "i < length (au_accounts a) \<and> ac_active (au_accounts a ! i) \<and> ac_name (au_accounts a ! i) = cstr n"
  have "\<not> streq (ac_name (au_accounts a ! j)) n" if "j < i" for j
  proof -
    have "ac_name (au_accounts a ! j) \<noteq> ac_name (au_accounts a ! i)"
      using auth_ok_names [OF assms, of j i] that i by auto
    then show ?thesis using auth_okD(3) [OF assms, of j] i that by simp
  qed
  then show "auth_find n a = Some i"
    using i auth_okD(3) [OF assms, of i] by (simp add: auth_find_def first_index_Some_iff)
qed

lemma gen_salt_fields:
  assumes "gen_salt a = (salt, a')"
  shows "au_accounts a' = au_accounts a" "au_tickets a' = au_tickets a" "au_current a' = au_current a"
    "au_seq a' = au_seq a" "au_synth a' = au_synth a"
  using assms by (auto simp: gen_salt_def Let_def)

lemma auth_create_spec:
  assumes c: "auth_create_user name pw caps adm a = (True, a')" and ok: "auth_ok a"
    and n: "strlen name \<le> 31"
  shows "auth_ok a'" "auth_find name a' = Some (length (au_accounts a))"
    "auth_verify name q a' \<longleftrightarrow>
      auth_hash_password (Some q) (ac_salt (au_accounts a' ! length (au_accounts a))) =
      auth_hash_password (Some pw) (ac_salt (au_accounts a' ! length (au_accounts a)))"
    "i < length (au_accounts a) \<Longrightarrow> au_accounts a' ! i = au_accounts a ! i"
    "ac_caps (au_accounts a' ! length (au_accounts a)) = caps"
proof -
  from c obtain salt a1 where g: "gen_salt a = (salt, a1)" and len: "length (au_accounts a) < AUTH_USER_MAX"
    and no: "\<not> list_ex (\<lambda>u. streq (ac_name u) name) (au_accounts a)"
    by (auto simp: auth_create_user_def not_le split: if_splits prod.splits)
  let ?u = "\<lparr>ac_name = clip 31 name, ac_hash = auth_hash_password (Some pw) salt,
      ac_salt = clip 32 salt, ac_caps = caps, ac_active = True, ac_admin = adm\<rparr>"
  note G = gen_salt_fields [OF g] gen_salt_spec [OF g]
  have a': "a' = a1\<lparr>au_accounts := au_accounts a @ [?u]\<rparr>"
    using c g len no G(1) by (auto simp: auth_create_user_def)
  have cn: "clip 31 name = cstr name" using n by (simp add: clip_id strlen_cstr)
  have fresh: "ac_name u \<noteq> cstr name" if "u \<in> set (au_accounts a)" for u
  proof
    assume "ac_name u = cstr name"
    then have "streq (ac_name u) name" by simp
    then show False using no that by (auto simp: list_ex_iff)
  qed
  have "length (cstr name) \<le> 31" using n by (simp add: strlen_cstr)
  then show ok': "auth_ok a'"
    using ok len fresh G(2,3) by (force simp: auth_ok_def a' cn AUTH_USER_MAX_def)
  show f: "auth_find name a' = Some (length (au_accounts a))"
    unfolding auth_find_iff [OF ok'] by (simp add: a' cn)
  have cs: "cstr (auth_hash_password p s) = auth_hash_password p s" for p s
    by (rule cstr_id) (simp add: auth_hash_password_def Let_def bytes_to_hex)
  show "auth_verify name q a' \<longleftrightarrow>
      auth_hash_password (Some q) (ac_salt (au_accounts a' ! length (au_accounts a))) =
      auth_hash_password (Some pw) (ac_salt (au_accounts a' ! length (au_accounts a)))"
    unfolding auth_verify_def f using G(7) by (simp add: a' Let_def cs)
  show "i < length (au_accounts a) \<Longrightarrow> au_accounts a' ! i = au_accounts a ! i"
    "ac_caps (au_accounts a' ! length (au_accounts a)) = caps"
    by (simp_all add: a' nth_append)
qed

lemma cstr_hash: "cstr (auth_hash_password p s) = auth_hash_password p s"
  by (rule cstr_id) (simp add: auth_hash_password_def Let_def bytes_to_hex)

lemma auth_upd_ok:
  assumes "auth_ok a" "i < length (au_accounts a)" "\<And>u. ac_name (f u) = ac_name u"
  shows "auth_ok (auth_upd i f a)"
proof -
  have "map ac_name ((au_accounts a)[i := f (au_accounts a ! i)]) = map ac_name (au_accounts a)"
    using assms(2,3) by (simp add: map_update) (metis list_update_id map_update nth_map)
  moreover have "u \<in> set ((au_accounts a)[i := f (au_accounts a ! i)]) \<Longrightarrow>
      ac_name u \<in> set (map ac_name (au_accounts a))" for u
    using calculation by (metis image_eqI list.set_map)
  ultimately show ?thesis using assms(1,2) by (fastforce simp: auth_ok_def auth_upd_def)
qed

lemma set_password_spec:
  assumes ok: "auth_ok a" and f: "auth_find name a = Some i"
  shows "auth_ok (set_password i pw a)" "auth_verify name pw (set_password i pw a)"
    "cstr other \<noteq> cstr name \<Longrightarrow> auth_verify other q (set_password i pw a) = auth_verify other q a"
proof -
  obtain salt a1 where g: "gen_salt a = (salt, a1)" by fastforce
  note G = gen_salt_fields [OF g] gen_salt_spec [OF g]
  note F = auth_find_SomeD [OF f]
  let ?f = "\<lambda>u. u\<lparr>ac_salt := clip 32 salt, ac_hash := auth_hash_password (Some pw) salt\<rparr>"
  have s: "set_password i pw a = auth_upd i ?f a1" by (simp add: set_password_def g)
  have ok1: "auth_ok a1" using ok G(1,2,3) by (simp add: auth_ok_def)
  show ok2: "auth_ok (set_password i pw a)"
    unfolding s by (rule auth_upd_ok [OF ok1]) (use F(1) G(1) in simp_all)
  have f2: "auth_find name (set_password i pw a) = Some i"
    unfolding auth_find_iff [OF ok2] using F auth_okD(3) [OF ok F(1)] G(1) by (simp add: s auth_upd_def)
  show "auth_verify name pw (set_password i pw a)"
    unfolding auth_verify_def f2 using F G(1,7) by (simp add: s auth_upd_def Let_def)
  assume o: "cstr other \<noteq> cstr name"
  have "auth_find other (set_password i pw a) = Some k \<longleftrightarrow> auth_find other a = Some k" for k
    unfolding auth_find_iff [OF ok2] auth_find_iff [OF ok]
    using F auth_okD(3) [OF ok F(1)] G(1) o by (cases "k = i") (auto simp: s auth_upd_def)
  then have e: "auth_find other (set_password i pw a) = auth_find other a" by (metis option.exhaust)
  have "k \<noteq> i" if "auth_find other a = Some k" for k using auth_find_SomeD(3) [OF that] F(3) o by auto
  then show "auth_verify other q (set_password i pw a) = auth_verify other q a"
    unfolding auth_verify_def e using G(1)
    by (auto simp: s auth_upd_def Let_def split: option.splits)
qed

lemma auth_delete_spec:
  assumes ok: "auth_ok a" and d: "auth_user_delete name a = (True, a')"
  shows "auth_ok a'" "\<not> auth_verify name q a'" "auth_find name a' = None"
proof -
  from d obtain i where f: "auth_find name a = Some i"
      and a': "a' = auth_upd i (\<lambda>u. u\<lparr>ac_active := False\<rparr>) a"
    by (auto simp: auth_user_delete_def split: option.splits)
  note F = auth_find_SomeD [OF f]
  show ok': "auth_ok a'" unfolding a' by (rule auth_upd_ok [OF ok F(1)]) simp
  show n: "auth_find name a' = None"
  proof (rule ccontr)
    assume "auth_find name a' \<noteq> None"
    then obtain k where k: "auth_find name a' = Some k" by blast
    then have K: "k < length (au_accounts a)" "ac_active (au_accounts a' ! k)"
        "ac_name (au_accounts a ! k) = cstr name"
      unfolding auth_find_iff [OF ok'] using F(1) by (auto simp: a' auth_upd_def nth_list_update split: if_splits)
    have "k \<noteq> i" using K(2) F(1) by (auto simp: a' auth_upd_def)
    moreover have "ac_name (au_accounts a ! i) = ac_name (au_accounts a ! k)"
      using F K auth_okD(3) [OF ok F(1)] by simp
    ultimately show False
      using auth_ok_names [OF ok F(1) K(1)] by simp
  qed
  show "\<not> auth_verify name q a'" by (simp add: auth_verify_def n)
qed

section \<open>Tickets are one-shot\<close>

lemma ticket_issue_spec:
  assumes i: "auth_ticket_issue e name caps a = (Some tok, a')" and n: "strlen name \<le> 31"
  shows "t \<in> set (au_tickets a') \<Longrightarrow> \<not> tk_used t \<Longrightarrow> cstr (tk_name t) = cstr name \<Longrightarrow>
      tk_tok t = tok \<and> tk_caps t = caps"
    "\<exists>t\<in>set (au_tickets a'). \<not> tk_used t \<and> cstr (tk_name t) = cstr name \<and> tk_tok t = tok"
    "length (au_tickets a') = Suc (length (au_tickets a))"
    "length (filter (\<lambda>t. \<not> tk_used t \<and> cstr (tk_name t) = cstr name) (au_tickets a')) = 1"
proof -
  let ?m = "\<lambda>t. if \<not> tk_used t \<and> streq (tk_name t) name then t\<lparr>tk_used := True\<rparr> else t"
  let ?n = "\<lparr>tk_name = clip 31 name, tk_caps = caps, tk_tok = tok, tk_used = False\<rparr>"
  have a': "au_tickets a' = map ?m (au_tickets a) @ [?n]"
    using i by (auto simp: auth_ticket_issue_def Let_def split: if_splits)
  have c: "clip 31 name = cstr name" using n by (simp add: clip_id strlen_cstr)
  show "t \<in> set (au_tickets a') \<Longrightarrow> \<not> tk_used t \<Longrightarrow> cstr (tk_name t) = cstr name \<Longrightarrow>
      tk_tok t = tok \<and> tk_caps t = caps"
    by (auto simp: a' split: if_splits)
  show "\<exists>t\<in>set (au_tickets a'). \<not> tk_used t \<and> cstr (tk_name t) = cstr name \<and> tk_tok t = tok"
    by (simp add: a' c)
  show "length (au_tickets a') = Suc (length (au_tickets a))" by (simp add: a')
  have "filter (\<lambda>t. \<not> tk_used t \<and> cstr (tk_name t) = cstr name) (map ?m ts) = []" for ts
    by (induction ts) auto
  then show "length (filter (\<lambda>t. \<not> tk_used t \<and> cstr (tk_name t) = cstr name) (au_tickets a')) = 1"
    by (simp add: a' c)
qed

abbreviation live :: "string \<Rightarrow> ticket \<Rightarrow> bool" where
  "live name t \<equiv> \<not> tk_used t \<and> cstr (tk_name t) = cstr name"

lemma ticket_consume_spec:
  assumes c: "auth_ticket_consume name tok a = (True, a')"
  shows "length (filter (live name) (au_tickets a')) = length (filter (live name) (au_tickets a)) - 1"
    "\<exists>t\<in>set (au_tickets a). live name t \<and> tk_tok t = tok \<and> ac_caps (au_synth a') = tk_caps t"
    "length (au_tickets a') = length (au_tickets a)"
proof -
  from c obtain i where f: "first_index (\<lambda>t. \<not> tk_used t \<and> streq (tk_name t) name \<and> tk_tok t = tok)
        (au_tickets a) = Some i"
      and a': "au_tickets a' = (au_tickets a)[i := (au_tickets a ! i)\<lparr>tk_used := True\<rparr>]"
        "ac_caps (au_synth a') = tk_caps (au_tickets a ! i)"
    by (auto simp: auth_ticket_consume_def Let_def split: option.splits)
  note F = first_index_SomeD [OF f]
  have "live name (au_tickets a ! i)" using F by simp
  then have "int (length (filter (live name) (au_tickets a'))) =
      int (length (filter (live name) (au_tickets a))) - 1"
    using length_filter_update [OF F(1), of "live name" "(au_tickets a ! i)\<lparr>tk_used := True\<rparr>"]
    by (simp add: a')
  then show "length (filter (live name) (au_tickets a')) = length (filter (live name) (au_tickets a)) - 1"
    by simp
  show "\<exists>t\<in>set (au_tickets a). live name t \<and> tk_tok t = tok \<and> ac_caps (au_synth a') = tk_caps t"
    using F a'(2) nth_mem [OF F(1)] by auto
  show "length (au_tickets a') = length (au_tickets a)" by (simp add: a')
qed

lemma ticket_consume_none:
  "length (filter (live name) (au_tickets a)) = 0 \<Longrightarrow> auth_ticket_consume name tok a = (False, a)"
proof -
  assume "length (filter (live name) (au_tickets a)) = 0"
  then have "first_index (\<lambda>t. \<not> tk_used t \<and> streq (tk_name t) name \<and> tk_tok t = tok) (au_tickets a) = None"
    by (auto simp: first_index_None_iff filter_empty_conv)
  then show "auth_ticket_consume name tok a = (False, a)" by (simp add: auth_ticket_consume_def)
qed

lemma ticket_consume_issued:
  assumes "t \<in> set (au_tickets a)" "live name t" "tk_tok t = tok"
  shows "fst (auth_ticket_consume name tok a)"
  using assms by (auto simp: auth_ticket_consume_def Let_def first_index_None_iff split: option.split)

section \<open>No session without password and consent\<close>

lemma auth_verify_set_user: "auth_verify n p (login_set_user u a) = auth_verify n p a"
  by (simp add: auth_verify_def auth_find_def login_set_user_def Let_def split: option.split)

lemma login_loop_spec:
  assumes "login_loop ins a t = Some (a', t', rest)" "pact_ok t"
  shows "\<exists>i user pass. au_current a' = Some (Acct i) \<and> auth_find user a' = Some i \<and>
    auth_verify user pass a' \<and> {user, pass} \<subseteq> set ins \<and>
    (\<forall>p. synallagma_consented p t') \<and> au_accounts a' = au_accounts a"
  using assms
proof (induction ins a t arbitrary: rule: login_loop.induct)
  case (1 ins a t)
  from "1.prems"(1) obtain user ins1 where i1: "ins = user # ins1"
    by (subst (asm) login_loop.simps) (auto split: list.splits)
  show ?case
  proof (cases "auth_find user a")
    case None
    have "login_loop ins1 a t = Some (a', t', rest)"
      using "1.prems"(1) i1 None by (subst (asm) login_loop.simps) simp
    from "1.IH"(1) [OF i1 None this "1.prems"(2)] show ?thesis using i1 by fastforce
  next
    case (Some i)
    from "1.prems"(1) i1 Some obtain pass ins2 where i2: "ins1 = pass # ins2"
      by (subst (asm) login_loop.simps) (auto split: list.splits)
    show ?thesis
    proof (cases "auth_verify user pass a")
      case False
      have "login_loop ins2 a t = Some (a', t', rest)"
        using "1.prems"(1) i1 i2 Some False by (subst (asm) login_loop.simps) simp
      from "1.IH"(3) [OF i1 Some i2 False this "1.prems"(2)] show ?thesis using i1 i2 by fastforce
    next
      case v: True
      from "1.prems"(1) i1 i2 Some v obtain ok t1 ins3 where
        p: "consent_prompt_contracts t ins2 = Some (ok, t1, ins3)"
        by (subst (asm) login_loop.simps) (auto split: option.splits)
      show ?thesis
      proof (cases ok)
        case True
        then have e: "a' = login_set_user (Some (Acct i)) a" "t' = t1"
          using "1.prems"(1) i1 i2 Some v p by (subst (asm) login_loop.simps, simp)+
        have "synallagma_consented q t'" for q
          using prompt_accepts_all [of t ins2 t1 ins3] p True "1.prems"(2) e by simp
        moreover have "auth_find user a' = Some i"
          using Some by (simp add: e login_set_user_def auth_find_def)
        moreover have "auth_verify user pass a'" using v by (simp add: e auth_verify_set_user)
        ultimately show ?thesis using e i1 i2 by (auto simp: login_set_user_def)
      next
        case no: False
        have l: "login_loop ins3 (login_set_user None a) t1 = Some (a', t', rest)"
          using "1.prems"(1) i1 i2 Some v p no by (subst (asm) login_loop.simps) simp
        have sub: "set ins3 \<subseteq> set ins2" using prompt_suffix [OF p] by (auto dest: set_mono_suffix)
        from "1.IH"(2) [OF i1 Some i2 v p refl refl no l prompt_spec(1) [OF p "1.prems"(2)]]
        show ?thesis using i1 i2 sub by (fastforce simp: login_set_user_def)
      qed
    qed
  qed
qed

section \<open>Properties\<close>

text \<open>C24. An account that was created accepts its password, and any other only if it hashes to the same
  value under the account's salt.  The account list stays well formed, the accounts there before
  keep their records, and the new one has the capabilities asked for.\<close>

theorem create_then_verify:
  assumes "auth_ok a" "strlen name \<le> 31" "auth_create_user name pw caps adm a = (True, a')"
  shows "auth_verify name pw a' \<and> auth_ok a' \<and> (\<forall>i<length (au_accounts a). au_accounts a' ! i = au_accounts a ! i) \<and>
    ac_caps (au_accounts a' ! length (au_accounts a)) = caps \<and>
    (auth_verify name q a' \<longrightarrow>
      auth_hash_password (Some q) (ac_salt (au_accounts a' ! length (au_accounts a))) =
      auth_hash_password (Some pw) (ac_salt (au_accounts a' ! length (au_accounts a))))"
  using auth_create_spec [OF assms(3,1,2)] by simp

lemma zero_auth_ok: "auth_ok zero_auth"
  by (simp add: auth_ok_def zero_auth_def)

lemma first_account: "\<exists>a. auth_create_user ''ann'' ''secret'' CAP_ALL True zero_auth = (True, a)"
  by (simp add: auth_create_user_def zero_auth_def AUTH_USER_MAX_def split: prod.split)

lemma create_then_verify_witness:
  "auth_verify ''ann'' ''secret'' (snd (auth_create_user ''ann'' ''secret'' CAP_ALL True zero_auth))"
proof -
  obtain a where e: "auth_create_user ''ann'' ''secret'' CAP_ALL True zero_auth = (True, a)" using first_account by blast
  have "strlen ''ann'' \<le> 31" by (simp add: strlen_cstr cstr_def)
  from create_then_verify [OF zero_auth_ok this e] e show ?thesis by simp
qed

text \<open>A password change is refused, and changes nothing, unless the old password is the account's;
  afterwards the new one opens the account, and no other account is affected.\<close>

theorem change_password_spec:
  assumes "auth_ok a" "auth_change_password name old new a = (b, a')"
  shows "if b then auth_verify name old a \<and> auth_verify name new a' \<and> auth_ok a' \<and>
      (\<forall>other q. cstr other \<noteq> cstr name \<longrightarrow> auth_verify other q a' = auth_verify other q a)
    else a' = a \<and> (auth_find name a = None \<or> \<not> auth_verify name old a)"
proof (cases "auth_find name a")
  case None
  then show ?thesis using assms(2) by (auto simp: auth_change_password_def)
next
  case (Some i)
  note S = set_password_spec [OF assms(1) Some]
  show ?thesis
    using assms(2) Some S by (auto simp: auth_change_password_def split: if_splits)
qed

lemma change_password_spec_witness:
  "auth_verify ''ann'' ''other'' (snd (auth_change_password ''ann'' ''secret'' ''other''
     (snd (auth_create_user ''ann'' ''secret'' CAP_ALL True zero_auth))))"
proof -
  obtain a where e: "auth_create_user ''ann'' ''secret'' CAP_ALL True zero_auth = (True, a)" using first_account by blast
  have n: "strlen ''ann'' \<le> 31" by (simp add: strlen_cstr cstr_def)
  note A = auth_create_spec [OF e zero_auth_ok n]
  obtain b a' where c: "auth_change_password ''ann'' ''secret'' ''other'' a = (b, a')" by fastforce
  from change_password_spec [OF A(1) c] A(2) A(3) [of "''secret''"] have "auth_verify ''ann'' ''other'' a'"
    by (cases b) auto
  then show ?thesis using e c by simp
qed

text \<open>A deleted account lets nobody in, whatever the password, and the name cannot be given to a new
  account: the record stays, inactive.\<close>

theorem delete_locks_out:
  assumes "auth_ok a" "auth_user_delete name a = (True, a')"
  shows "\<not> auth_verify name q a' \<and> auth_find name a' = None \<and> auth_ok a' \<and>
    \<not> fst (auth_create_user name pw caps adm a')"
proof -
  obtain i where i: "auth_find name a = Some i" "a' = auth_upd i (\<lambda>u. u\<lparr>ac_active := False\<rparr>) a"
    using assms(2) by (auto simp: auth_user_delete_def split: option.splits)
  note F = auth_find_SomeD [OF i(1)]
  have "(au_accounts a ! i)\<lparr>ac_active := False\<rparr> \<in> set (au_accounts a')"
    using F(1) by (simp add: i(2) auth_upd_def set_update_memI)
  then have "list_ex (\<lambda>u. streq (ac_name u) name) (au_accounts a')"
    using F(3) unfolding list_ex_iff by (intro bexI) simp_all
  then have "\<not> fst (auth_create_user name pw caps adm a')" by (simp add: auth_create_user_def)
  then show ?thesis using auth_delete_spec [OF assms] by blast
qed

lemma delete_locks_out_witness:
  "\<not> auth_verify ''ann'' ''secret'' (snd (auth_user_delete ''ann''
     (snd (auth_create_user ''ann'' ''secret'' CAP_ALL True zero_auth))))"
proof -
  obtain a where e: "auth_create_user ''ann'' ''secret'' CAP_ALL True zero_auth = (True, a)" using first_account by blast
  have n: "strlen ''ann'' \<le> 31" by (simp add: strlen_cstr cstr_def)
  note A = auth_create_spec [OF e zero_auth_ok n]
  have "fst (auth_user_delete ''ann'' a)" using A(2) by (simp add: auth_user_delete_def)
  then obtain a' where d: "auth_user_delete ''ann'' a = (True, a')" by (cases "auth_user_delete ''ann'' a") simp
  from delete_locks_out [OF A(1) d] e d show ?thesis by simp
qed

text \<open>C25. A session ticket works once: the token issued for a name opens a session with the capabilities
  it was issued for, and afterwards no token opens another for that name until a new
  ticket is issued.\<close>

theorem ticket_works_once:
  assumes "auth_ticket_issue e name caps a = (Some tok, a1)" "strlen name \<le> 31"
    "auth_ticket_consume name tok a1 = (b, a2)"
  shows "b \<and> ac_caps (au_synth a2) = caps \<and> \<not> fst (auth_ticket_consume name tok' a2)"
proof -
  note I = ticket_issue_spec [OF assms(1,2)]
  obtain t where t: "t \<in> set (au_tickets a1)" "live name t" "tk_tok t = tok" using I(2) by blast
  have b: b using ticket_consume_issued [OF t] assms(3) by simp
  note C = ticket_consume_spec [OF assms(3) [simplified b]]
  have n: "length (filter (live name) (au_tickets a2)) = 0" unfolding C(1) I(4) by simp
  obtain u where u: "u \<in> set (au_tickets a1)" "live name u" "ac_caps (au_synth a2) = tk_caps u" using C(2) by blast
  have "tk_caps u = caps" using I(1) [OF u(1)] u(2) by blast
  then show ?thesis using b u(3) ticket_consume_none [OF n] by simp
qed

lemma ticket_works_once_witness:
  "fst (auth_ticket_consume ''ann'' 7 (snd (auth_ticket_consume ''ann''
     (auth_ticket_token \<lparr>en_ticks = 5, en_proc = 0, en_pit = 9\<rparr> 1)
     (snd (auth_ticket_issue \<lparr>en_ticks = 5, en_proc = 0, en_pit = 9\<rparr> ''ann'' CAP_FS_READ zero_auth))))) = False"
proof -
  let ?e = "\<lparr>en_ticks = 5, en_proc = 0, en_pit = 9\<rparr>"
  obtain a1 where 1: "auth_ticket_issue ?e ''ann'' CAP_FS_READ zero_auth = (Some (auth_ticket_token ?e 1), a1)"
    by (simp add: auth_ticket_issue_def zero_auth_def AUTH_TICKET_MAX_def Let_def)
  have "strlen ''ann'' \<le> 31" by (simp add: strlen_cstr cstr_def)
  from ticket_works_once [OF 1 this surjective_pairing] 1 show ?thesis by simp
qed

text \<open>The login dialogue lets in only a user who typed the name and the password of an account, and
  only after every active contract has consent; it changes no account.\<close>

theorem login_needs_password:
  assumes "login_loop ins a t = Some (a', t', rest)" "pact_ok t"
  shows "\<exists>i user pass. au_current a' = Some (Acct i) \<and> auth_find user a' = Some i \<and>
    auth_verify user pass a' \<and> {user, pass} \<subseteq> set ins \<and>
    (\<forall>p. synallagma_consented p t') \<and> au_accounts a' = au_accounts a"
  by (rule login_loop_spec [OF assms])

lemma login_needs_password_witness:
  "\<exists>user pass a. {user, pass} \<subseteq> {''ann'', ''secret''} \<and> auth_verify user pass a"
proof -
  obtain a where e: "auth_create_user ''ann'' ''secret'' CAP_ALL True zero_auth = (True, a)" using first_account by blast
  have n: "strlen ''ann'' \<le> 31" by (simp add: strlen_cstr cstr_def)
  note A = auth_create_spec [OF e zero_auth_ok n]
  have v: "auth_verify ''ann'' ''secret'' a" using A(3) by simp
  have "login_loop [''ann'', ''secret''] a synallagma_init =
      Some (login_set_user (Some (Acct (length (au_accounts zero_auth)))) a, synallagma_init, [])"
    using v A(2) by (subst login_loop.simps) (simp add: consent_prompt_contracts_def synallagma_init_def)
  from login_needs_password [OF this] show ?thesis
    by (auto simp: pact_ok_def synallagma_init_def)
qed

end
