(* ===== verification/Svc.thy ===== *)
theory Svc
  imports Process
begin

text \<open>
  The service registry (src/kernel/svc.c): sixteen entries that map a service
  name to the process that registered it.
\<close>

record svc_entry =
  sv_name :: string
  sv_pid :: u32
  sv_active :: bool

record svc =
  svc_table :: "svc_entry list"
  svc_count :: int

definition SVC_MAX :: nat where "SVC_MAX = 16"

definition svc_init :: "svc" where
  "svc_init = \<lparr>svc_table = replicate SVC_MAX \<lparr>sv_name = '''', sv_pid = 0, sv_active = False\<rparr>,
     svc_count = 0\<rparr>"

definition svc_match :: "string \<Rightarrow> svc_entry \<Rightarrow> bool" where
  "svc_match name e \<longleftrightarrow> sv_active e \<and> streq (sv_name e) name"

definition svc_register :: "string option \<Rightarrow> sys \<Rightarrow> svc \<Rightarrow> int \<times> svc" where
  "svc_register name s v =
    (case name of None \<Rightarrow> (-1, v) | Some name \<Rightarrow>
     if cstr name = '''' \<or> cur s = None then (-1, v)
     else case first_index (svc_match name) (svc_table v) of
       Some i \<Rightarrow> (0, v\<lparr>svc_table := (svc_table v)[i := (svc_table v ! i)\<lparr>sv_pid := cur_pid s\<rparr>]\<rparr>)
     | None \<Rightarrow>
        (case first_index (\<lambda>e. \<not> sv_active e) (svc_table v) of
           Some i \<Rightarrow>
             (0, v\<lparr>svc_table := (svc_table v)[i := \<lparr>sv_name = clip 31 name, sv_pid = cur_pid s,
                    sv_active = True\<rparr>], svc_count := svc_count v + 1\<rparr>)
         | None \<Rightarrow> (-2, v)))"

definition alive_pid :: "sys \<Rightarrow> u32 \<Rightarrow> bool" where
  "alive_pid s pid =
    (case proc_get s pid of None \<Rightarrow> False
     | Some i \<Rightarrow> p_present (procs s ! i) \<and> p_state (procs s ! i) \<noteq> Terminated)"

text \<open>The walk of \<open>svc_query\<close>: entries of that name whose process died are
  cleared on the way to the first one whose process lives.\<close>

fun query_walk :: "string \<Rightarrow> sys \<Rightarrow> svc_entry list \<Rightarrow> u32 option \<times> svc_entry list \<times> int" where
  "query_walk name s [] = (None, [], 0)"
| "query_walk name s (e # es) =
    (if svc_match name e \<and> alive_pid s (sv_pid e) then (Some (sv_pid e), e # es, 0)
     else case query_walk name s es of (r, es', n) \<Rightarrow>
       if svc_match name e then (r, e\<lparr>sv_active := False\<rparr> # es', n + 1) else (r, e # es', n))"

definition svc_query :: "string option \<Rightarrow> sys \<Rightarrow> svc \<Rightarrow> int \<times> u32 option \<times> svc" where
  "svc_query name s v =
    (case name of None \<Rightarrow> (-1, None, v) | Some name \<Rightarrow>
     if cstr name = '''' then (-1, None, v)
     else case query_walk name s (svc_table v) of (r, es, n) \<Rightarrow>
       (case r of None \<Rightarrow> -2 | Some _ \<Rightarrow> 0, r, \<lparr>svc_table = es, svc_count = svc_count v - n\<rparr>))"

section \<open>Registering and finding a service\<close>

definition svc_ok :: "svc \<Rightarrow> bool" where
  "svc_ok v \<longleftrightarrow> length (svc_table v) = SVC_MAX \<and>
    svc_count v = int (length (filter sv_active (svc_table v)))"

lemma query_walk_length [simp]:
  "query_walk name s es = (r, es', n) \<Longrightarrow> length es' = length es"
  by (induction es arbitrary: r es' n) (auto split: prod.splits if_splits)

lemma query_walk_count:
  "query_walk name s es = (r, es', n) \<Longrightarrow>
    int (length (filter sv_active es')) = int (length (filter sv_active es)) - n"
proof (induction es arbitrary: r es' n)
  case (Cons e es)
  obtain r1 es1 n1 where q: "query_walk name s es = (r1, es1, n1)"
    by (cases "query_walk name s es")
  show ?case using Cons.prems Cons.IH [OF q] q by (auto simp: svc_match_def split: if_splits)
qed simp

lemma query_walk_result:
  "query_walk name s es = (r, es', n) \<Longrightarrow>
    r = map_option sv_pid (find (\<lambda>e. svc_match name e \<and> alive_pid s (sv_pid e)) es)"
  by (induction es arbitrary: es' n) (auto split: prod.splits if_splits)

lemma svc_ok_init: "svc_ok svc_init"
  by (simp add: svc_ok_def svc_init_def)

lemma svc_ok_register:
  assumes "svc_ok v" "svc_register name s v = (r, v')"
  shows "svc_ok v'"
  using assms
  by (auto simp: svc_register_def svc_ok_def length_filter_update first_index_Some_iff svc_match_def
      split: option.splits if_splits)

lemma svc_ok_query:
  assumes "svc_ok v" "svc_query name s v = (r, p, v')"
  shows "svc_ok v'"
  using assms query_walk_count query_walk_length
  by (fastforce simp: svc_query_def svc_ok_def split: option.splits if_splits prod.splits)

text \<open>A service name of at most 31 characters that was registered by a live process
  is found under that process, whoever held the name before.\<close>

lemma find_update_first:
  assumes "first_index P xs = Some i" "Q y" "\<And>x. Q x \<Longrightarrow> P x"
  shows "find Q (xs[i := y]) = Some y"
proof -
  have i: "i < length xs" "\<forall>j<i. \<not> P (xs ! j)" using assms(1) by (auto simp: first_index_Some_iff)
  then show ?thesis
    unfolding find_Some_iff using assms(2,3) by (intro exI [of _ i]) auto
qed

lemma find_update_new:
  assumes "first_index P xs = None" "i < length xs" "Q y" "\<And>x. Q x \<Longrightarrow> P x"
  shows "find Q (xs[i := y]) = Some y"
proof -
  have "\<not> Q (xs ! j)" if "j < length xs" for j
    using assms(1,4) that nth_mem by (fastforce simp: first_index_None_iff)
  then show ?thesis
    unfolding find_Some_iff using assms(2,3) by (intro exI [of _ i]) auto
qed

lemma register_then_query:
  assumes "svc_register (Some name) s v = (0, v')" "alive_pid s (cur_pid s)"
    "length (cstr name) \<le> 31"
  shows "\<exists>v''. svc_query (Some name) s v' = (0, Some (cur_pid s), v'')"
proof -
  let ?Q = "\<lambda>e. svc_match name e \<and> alive_pid s (sv_pid e)"
  have ne: "cstr name \<noteq> ''''" using assms(1) by (auto simp: svc_register_def)
  have old: "find ?Q (svc_table v') = Some e \<and> sv_pid e = cur_pid s" if
    "first_index (svc_match name) (svc_table v) = Some i"
    "svc_table v' = (svc_table v)[i := e]" "e = (svc_table v ! i)\<lparr>sv_pid := cur_pid s\<rparr>" for i e
    using find_update_first [OF that(1), of ?Q e] first_index_SomeD(2) [OF that(1)] assms(2) that
    by (simp add: svc_match_def)
  have new: "find ?Q (svc_table v') = Some e \<and> sv_pid e = cur_pid s" if
    "first_index (svc_match name) (svc_table v) = None" "i < length (svc_table v)"
    "svc_table v' = (svc_table v)[i := e]"
    "e = \<lparr>sv_name = clip 31 name, sv_pid = cur_pid s, sv_active = True\<rparr>" for i e
    using find_update_new [OF that(1,2), of ?Q e] assms(2,3) that(3,4)
    by (simp add: svc_match_def clip_id)
  have "\<exists>e. find ?Q (svc_table v') = Some e \<and> sv_pid e = cur_pid s"
  proof (cases "first_index (svc_match name) (svc_table v)")
    case (Some i)
    then have "svc_table v' = (svc_table v)[i := (svc_table v ! i)\<lparr>sv_pid := cur_pid s\<rparr>]"
      using assms(1) by (auto simp: svc_register_def split: if_splits)
    then show ?thesis using old [OF Some _ refl] by blast
  next
    case None
    then obtain i where i: "first_index (\<lambda>e. \<not> sv_active e) (svc_table v) = Some i"
        "svc_table v' = (svc_table v)[i :=
           \<lparr>sv_name = clip 31 name, sv_pid = cur_pid s, sv_active = True\<rparr>]"
      using assms(1) by (auto simp: svc_register_def split: if_splits option.splits)
    show ?thesis using new [OF None first_index_SomeD(1) [OF i(1)] i(2) refl] by blast
  qed
  then obtain e where e: "find ?Q (svc_table v') = Some e" "sv_pid e = cur_pid s" by blast
  obtain r es n where q: "query_walk name s (svc_table v') = (r, es, n)"
    by (cases "query_walk name s (svc_table v')")
  show ?thesis using query_walk_result [OF q] q e ne by (simp add: svc_query_def)
qed

section \<open>Properties\<close>

text \<open>A service that a live process registers under a name of at most 31 characters is found
  by a query of that name, with the pid of that process.\<close>

theorem svc_register_query:
  assumes "svc_register (Some name) s v = (0, v')" "alive_pid s (cur_pid s)" "length (cstr name) \<le> 31"
  shows "\<exists>v''. svc_query (Some name) s v' = (0, Some (cur_pid s), v'')"
  by (rule register_then_query [OF assms])

lemma svc_register_query_witness:
  "fst (snd (svc_query (Some ''log'') two_procs (snd (svc_register (Some ''log'') two_procs svc_init)))) = Some 1"
proof -
  have p: "cur_pid two_procs = 1" by (simp add: cur_pid_def two_procs_def)
  have r: "fst (svc_register (Some ''log'') two_procs svc_init) = 0"
    by (simp add: svc_register_def svc_init_def SVC_MAX_def svc_match_def two_procs_def cstr_def)
  have a: "alive_pid two_procs (cur_pid two_procs)"
    unfolding p by (simp add: alive_pid_def proc_get_def two_procs_def)
  have l: "length (cstr ''log'') \<le> 31" by (simp add: cstr_def)
  have "svc_register (Some ''log'') two_procs svc_init = (0, snd (svc_register (Some ''log'') two_procs svc_init))"
    using r by (simp add: prod_eq_iff)
  from svc_register_query [OF this a l] p show ?thesis by auto
qed

end
