(* ===== verification/Ipc.thy ===== *)
theory Ipc
  imports Caps
begin

unbundle bit_operations_syntax

text \<open>
  Inter-process messages (src/kernel/ipc.c): 64 mailboxes, one per pid, each a
  ring of 64 messages of at most 4096 bytes.

  A blocking receive is a step: \<open>RBlock\<close> is the state after \<open>sched_block\<close>, from
  which the receive starts again when the process is resumed.
\<close>

definition IPC_MSG_MAX :: nat where "IPC_MSG_MAX = 4096"
definition IPC_QUEUE_MAX :: nat where "IPC_QUEUE_MAX = 64"
definition MAILBOX_MAX :: nat where "MAILBOX_MAX = 64"

record msg =
  m_sender :: u32
  m_receiver :: u32
  m_type :: u32
  m_payload :: string

record mailbox =
  mb_pid :: u32
  mb_msgs :: "msg list"
  mb_head :: nat
  mb_count :: nat

record ipc =
  boxes :: "mailbox list"
  ipc_ready :: bool

definition zero_ipc :: ipc where
  "zero_ipc = \<lparr>boxes = replicate MAILBOX_MAX \<lparr>mb_pid = 0,
       mb_msgs = replicate IPC_QUEUE_MAX \<lparr>m_sender = 0, m_receiver = 0, m_type = 0, m_payload = ''''\<rparr>,
       mb_head = 0, mb_count = 0\<rparr>, ipc_ready = False\<rparr>"

section \<open>Mailboxes\<close>

definition mailbox_push :: "msg \<Rightarrow> mailbox \<Rightarrow> mailbox" where
  "mailbox_push m mb =
    (if IPC_QUEUE_MAX \<le> mb_count mb then mb
     else mb\<lparr>mb_msgs := (mb_msgs mb)[(mb_head mb + mb_count mb) mod IPC_QUEUE_MAX := m],
             mb_count := mb_count mb + 1\<rparr>)"

definition mailbox_pop :: "mailbox \<Rightarrow> (msg \<times> mailbox) option" where
  "mailbox_pop mb =
    (if mb_count mb = 0 then None
     else Some (mb_msgs mb ! mb_head mb,
       mb\<lparr>mb_head := (mb_head mb + 1) mod IPC_QUEUE_MAX, mb_count := mb_count mb - 1\<rparr>))"

definition ipc_init :: "ipc \<Rightarrow> ipc" where
  "ipc_init q = q\<lparr>boxes := map (\<lambda>b. b\<lparr>mb_pid := 0, mb_head := 0, mb_count := 0\<rparr>) (boxes q),
     ipc_ready := True\<rparr>"

definition mailbox_for :: "u32 \<Rightarrow> ipc \<Rightarrow> nat option \<times> ipc" where
  "mailbox_for pid q =
    (if \<not> ipc_ready q then (None, q)
     else case first_index (\<lambda>b. mb_pid b = pid) (boxes q) of
       Some i \<Rightarrow> (Some i, q)
     | None \<Rightarrow>
        (case first_index (\<lambda>b. mb_pid b = 0) (boxes q) of
           Some i \<Rightarrow> (Some i, q\<lparr>boxes := (boxes q)[i := (boxes q ! i)\<lparr>mb_pid := pid,
                         mb_head := 0, mb_count := 0\<rparr>]\<rparr>)
         | None \<Rightarrow> (None, q)))"

definition upd_box :: "nat \<Rightarrow> mailbox \<Rightarrow> ipc \<Rightarrow> ipc" where
  "upd_box i b q = q\<lparr>boxes := (boxes q)[i := b]\<rparr>"

section \<open>Sending and receiving\<close>

definition ipc_cap_ok :: "sys \<Rightarrow> bool" where
  "ipc_cap_ok s =
    (case cur s of None \<Rightarrow> False | Some i \<Rightarrow> p_rights (procs s ! i) AND CAP_IPC \<noteq> 0)"

definition do_send :: "u32 \<Rightarrow> u32 \<Rightarrow> string \<Rightarrow> sys \<Rightarrow> ipc \<Rightarrow> int \<times> sys \<times> ipc" where
  "do_send to type data s q =
    (if \<not> ipc_cap_ok s then (-1, s, q)
     else case mailbox_for to q of
       (None, q) \<Rightarrow> (-2, s, q)
     | (Some i, q) \<Rightarrow>
        let m = \<lparr>m_sender = cur_pid s, m_receiver = to, m_type = type,
                 m_payload = take IPC_MSG_MAX data\<rparr>
        in (0, sched_wakeup to s, upd_box i (mailbox_push m (boxes q ! i)) q))"

abbreviation ipc_send :: "u32 \<Rightarrow> u32 \<Rightarrow> string \<Rightarrow> sys \<Rightarrow> ipc \<Rightarrow> int \<times> sys \<times> ipc" where
  "ipc_send \<equiv> do_send"

abbreviation ipc_reply :: "u32 \<Rightarrow> u32 \<Rightarrow> string \<Rightarrow> sys \<Rightarrow> ipc \<Rightarrow> int \<times> sys \<times> ipc" where
  "ipc_reply \<equiv> do_send"

text \<open>What a receive ends with: an error code, a message (sender, type, the bytes
  copied), or a blocked process.\<close>

datatype recv = RErr int | RMsg u32 u32 string | RBlock

definition take_msg :: "nat \<Rightarrow> nat \<Rightarrow> sys \<Rightarrow> ipc \<Rightarrow> recv \<times> sys \<times> ipc" where
  "take_msg mx i s q =
    (case mailbox_pop (boxes q ! i) of
       None \<Rightarrow> (RErr (-2), s, q)
     | Some (m, b) \<Rightarrow>
         (RMsg (m_sender m) (m_type m) (take mx (m_payload m)), s, upd_box i b q))"

definition ipc_receive :: "nat \<Rightarrow> sys \<Rightarrow> ipc \<Rightarrow> recv \<times> sys \<times> ipc" where
  "ipc_receive mx s q =
    (if \<not> ipc_cap_ok s then (RErr (-1), s, q)
     else case mailbox_for (cur_pid s) q of
       (None, q) \<Rightarrow> (RErr (-2), s, q)
     | (Some i, q) \<Rightarrow>
        if mb_count (boxes q ! i) = 0 then (RBlock, sched_block s, q) else take_msg mx i s q)"

definition ipc_try_receive :: "nat \<Rightarrow> sys \<Rightarrow> ipc \<Rightarrow> recv \<times> sys \<times> ipc" where
  "ipc_try_receive mx s q =
    (if \<not> ipc_cap_ok s then (RErr (-1), s, q)
     else case mailbox_for (cur_pid s) q of
       (None, q) \<Rightarrow> (RErr (-2), s, q)
     | (Some i, q) \<Rightarrow>
        if mb_count (boxes q ! i) = 0 then (RErr (-3), s, q) else take_msg mx i s q)"

definition ipc_send_blocking :: "u32 \<Rightarrow> u32 \<Rightarrow> string \<Rightarrow> sys \<Rightarrow> ipc \<Rightarrow> recv \<times> sys \<times> ipc" where
  "ipc_send_blocking to type data s q =
    (case do_send to type data s q of (r, s, q) \<Rightarrow>
      if r \<noteq> 0 then (RErr r, s, q)
      else case ipc_receive IPC_MSG_MAX s q of
        (RErr _, s, q) \<Rightarrow> (RErr (-3), s, q) | (r, s, q) \<Rightarrow> (r, s, q))"

section \<open>The queue a mailbox implements\<close>

text \<open>A queue of bounded capacity, as the send and receive operations see it:
  \<open>push\<close> appends unless the queue is full, \<open>pop\<close> gives the oldest element.\<close>

locale bounded_queue =
  fixes push :: "'m \<Rightarrow> 'q \<Rightarrow> 'q"
    and pop :: "'q \<Rightarrow> ('m \<times> 'q) option"
    and contents :: "'q \<Rightarrow> 'm list"
    and capacity :: nat
    and ok :: "'q \<Rightarrow> bool"
  assumes push_ok: "ok q \<Longrightarrow> ok (push m q)"
    and push_contents: "ok q \<Longrightarrow> contents (push m q) =
          (if length (contents q) < capacity then contents q @ [m] else contents q)"
    and pop_ok: "ok q \<Longrightarrow> pop q = Some (m, q') \<Longrightarrow> ok q'"
    and pop_contents: "ok q \<Longrightarrow> pop q = Some (m, q') \<Longrightarrow> contents q = m # contents q'"
    and pop_empty: "ok q \<Longrightarrow> pop q = None \<longleftrightarrow> contents q = []"
    and bounded: "ok q \<Longrightarrow> length (contents q) \<le> capacity"
begin

lemma pushes_ok: "ok q \<Longrightarrow> ok (fold push ms q)"
  by (induction ms arbitrary: q) (auto simp: push_ok)

text \<open>A burst of messages: those that fit are queued in order, the rest is lost.\<close>

lemma pushes_contents:
  "ok q \<Longrightarrow> contents (fold push ms q) =
    contents q @ take (capacity - length (contents q)) ms"
proof (induction ms arbitrary: q)
  case (Cons m ms)
  note IH = Cons.IH [OF push_ok [OF Cons.prems], of m]
  show ?case
  proof (cases "length (contents q) < capacity")
    case True
    then obtain d where d: "capacity - length (contents q) = Suc d"
      by (metis Suc_diff_Suc)
    then have "capacity - length (contents q @ [m]) = d" by simp
    then show ?thesis using IH True d by (simp add: push_contents [OF Cons.prems])
  next
    case False
    then show ?thesis using IH by (simp add: push_contents [OF Cons.prems])
  qed
qed simp

lemma no_loss:
  assumes "ok q" "length (contents q) + length ms \<le> capacity"
  shows "contents (fold push ms q) = contents q @ ms"
  using assms by (simp add: pushes_contents)

lemma push_full: "ok q \<Longrightarrow> length (contents q) = capacity \<Longrightarrow> contents (push m q) = contents q"
  by (simp add: push_contents)

lemma pop_after_push:
  assumes "ok q" "pop q = Some (m, q')"
  shows "\<exists>q''. pop (push x q) = Some (m, q'')"
proof (cases "pop (push x q)")
  case None
  then show ?thesis
    using pop_empty [OF push_ok [OF assms(1)]] pop_contents [OF assms] push_contents [OF assms(1)]
    by (auto split: if_splits)
next
  case (Some r)
  then show ?thesis
    using pop_contents [OF push_ok [OF assms(1)]] pop_contents [OF assms] push_contents [OF assms(1)]
    by (cases r) (fastforce split: if_splits)
qed

end

definition contents :: "mailbox \<Rightarrow> msg list" where
  "contents mb = map (\<lambda>k. mb_msgs mb ! ((mb_head mb + k) mod IPC_QUEUE_MAX)) [0..<mb_count mb]"

definition box_ok :: "mailbox \<Rightarrow> bool" where
  "box_ok mb \<longleftrightarrow> length (mb_msgs mb) = IPC_QUEUE_MAX \<and> mb_head mb < IPC_QUEUE_MAX \<and>
    mb_count mb \<le> IPC_QUEUE_MAX"

lemma IPC_QUEUE_MAX_pos [simp]: "0 < IPC_QUEUE_MAX"
  by (simp add: IPC_QUEUE_MAX_def)

lemma ring_index_inj:
  assumes "(h + k) mod n = (h + c) mod (n :: nat)" "k < n" "c < n"
  shows "k = c"
  using assms
proof (induction k c rule: linorder_wlog)
  case (le k c)
  then have "n dvd c - k" by (metis add_diff_cancel_left mod_eq_dvd_iff_nat add_le_cancel_left)
  moreover have "c - k < n" using le by simp
  ultimately show ?case using le(1) by (meson dvd_imp_le not_le zero_less_diff le_antisym)
qed auto

lemma push_contents_box:
  assumes "box_ok mb"
  shows "contents (mailbox_push m mb) =
    (if length (contents mb) < IPC_QUEUE_MAX then contents mb @ [m] else contents mb)"
proof (cases "mb_count mb < IPC_QUEUE_MAX")
  case True
  let ?j = "(mb_head mb + mb_count mb) mod IPC_QUEUE_MAX"
  have "(mb_msgs mb)[?j := m] ! ((mb_head mb + k) mod IPC_QUEUE_MAX) =
      mb_msgs mb ! ((mb_head mb + k) mod IPC_QUEUE_MAX)" if "k < mb_count mb" for k
    using ring_index_inj [of "mb_head mb" k IPC_QUEUE_MAX "mb_count mb"] that True
    by (cases "(mb_head mb + k) mod IPC_QUEUE_MAX = ?j") auto
  moreover have "(mb_msgs mb)[?j := m] ! ?j = m" using assms by (simp add: box_ok_def)
  ultimately show ?thesis using True by (simp add: contents_def mailbox_push_def)
qed (simp add: contents_def mailbox_push_def)

lemma pop_contents_box:
  assumes "box_ok mb" "mailbox_pop mb = Some (m, mb')"
  shows "contents mb = m # contents mb'"
proof -
  from assms(2) obtain c where c: "mb_count mb = Suc c" "m = mb_msgs mb ! mb_head mb"
      "mb' = mb\<lparr>mb_head := (mb_head mb + 1) mod IPC_QUEUE_MAX, mb_count := c\<rparr>"
    by (cases "mb_count mb") (auto simp: mailbox_pop_def)
  have "[0..<Suc c] = 0 # map Suc [0..<c]" by (simp only: upt_conv_Cons map_Suc_upt zero_less_Suc)
  then show ?thesis
    using assms(1) unfolding contents_def c
    by (simp add: box_ok_def mod_simps comp_def del: upt_Suc)
qed

interpretation mbox: bounded_queue mailbox_push mailbox_pop contents IPC_QUEUE_MAX box_ok
proof (unfold_locales, goal_cases)
  case (1 q m)
  then show ?case by (auto simp: box_ok_def mailbox_push_def)
next
  case (2 q m)
  then show ?case by (rule push_contents_box)
next
  case (3 q m q')
  then show ?case by (auto simp: box_ok_def mailbox_pop_def split: if_splits)
next
  case (4 q m q')
  then show ?case by (rule pop_contents_box)
next
  case (5 q)
  then show ?case by (auto simp: mailbox_pop_def contents_def)
next
  case (6 q)
  then show ?case by (simp add: box_ok_def contents_def)
qed

section \<open>The table of mailboxes\<close>

definition ipc_ok :: "ipc \<Rightarrow> bool" where
  "ipc_ok q \<longleftrightarrow> ipc_ready q \<and> length (boxes q) = MAILBOX_MAX \<and> (\<forall>b\<in>set (boxes q). box_ok b)"

text \<open>The messages waiting for a pid.\<close>

definition queue_of :: "u32 \<Rightarrow> ipc \<Rightarrow> msg list" where
  "queue_of pid q = (case first_index (\<lambda>b. mb_pid b = pid) (boxes q) of
     None \<Rightarrow> [] | Some i \<Rightarrow> contents (boxes q ! i))"

lemma mailbox_for_spec:
  assumes ok: "ipc_ok q" and p: "pid \<noteq> 0" and m: "mailbox_for pid q = (Some i, q')"
  shows "ipc_ok q'" "i < length (boxes q')" "first_index (\<lambda>b. mb_pid b = pid) (boxes q') = Some i"
    "contents (boxes q' ! i) = queue_of pid q" "p' \<noteq> 0 \<Longrightarrow> queue_of p' q' = queue_of p' q"
proof -
  have "ipc_ok q' \<and> i < length (boxes q') \<and>
      first_index (\<lambda>b. mb_pid b = pid) (boxes q') = Some i \<and>
      contents (boxes q' ! i) = queue_of pid q \<and> (\<forall>p'. p' \<noteq> 0 \<longrightarrow> queue_of p' q' = queue_of p' q)"
  proof (cases "first_index (\<lambda>b. mb_pid b = pid) (boxes q)")
    case (Some k)
    then have "k = i" "q' = q" using m ok by (auto simp: mailbox_for_def ipc_ok_def)
    then show ?thesis using ok Some first_index_SomeD(1) [OF Some] by (simp add: queue_of_def)
  next
    case None
    let ?b = "(boxes q ! i)\<lparr>mb_pid := pid, mb_head := 0, mb_count := 0\<rparr>"
    have z: "first_index (\<lambda>b. mb_pid b = 0) (boxes q) = Some i"
      and q': "q' = q\<lparr>boxes := (boxes q)[i := ?b]\<rparr>"
      using m ok None by (auto simp: mailbox_for_def ipc_ok_def split: option.splits)
    note Z = first_index_SomeD [OF z]
    have "box_ok ?b" using ok Z(3) by (auto simp: ipc_ok_def box_ok_def)
    then have "ipc_ok q'" using ok by (auto simp: ipc_ok_def q' dest: set_update_subset_insert [THEN subsetD])
    moreover have f: "first_index (\<lambda>b. mb_pid b = pid) (boxes q') = Some i"
      unfolding q' using first_index_update_None [OF None Z(1)] by simp
    moreover have "contents (boxes q' ! i) = queue_of pid q"
      using Z(1) None by (simp add: q' contents_def queue_of_def)
    moreover have "queue_of p' q' = queue_of p' q" if "p' \<noteq> 0" for p'
    proof (cases "p' = pid")
      case True
      then show ?thesis using f None Z(1) by (simp add: queue_of_def) (simp add: q' contents_def)
    next
      case False
      have "first_index (\<lambda>b. mb_pid b = p') (boxes q') = first_index (\<lambda>b. mb_pid b = p') (boxes q)"
        unfolding q' using first_index_update_other [OF Z(1), of "\<lambda>b. mb_pid b = p'" ?b] Z(2) False that
        by simp
      moreover have "boxes q' ! k = boxes q ! k"
        if "first_index (\<lambda>b. mb_pid b = p') (boxes q) = Some k" for k
      proof -
        have "k \<noteq> i" using first_index_SomeD(2) [OF that] Z(2) \<open>p' \<noteq> 0\<close> by auto
        then show ?thesis by (simp add: q')
      qed
      ultimately show ?thesis by (auto simp: queue_of_def split: option.split)
    qed
    ultimately show ?thesis using Z(1) by (simp add: q')
  qed
  then show "ipc_ok q'" "i < length (boxes q')"
    "first_index (\<lambda>b. mb_pid b = pid) (boxes q') = Some i"
    "contents (boxes q' ! i) = queue_of pid q" "p' \<noteq> 0 \<Longrightarrow> queue_of p' q' = queue_of p' q"
    by blast+
qed

lemma upd_box_spec:
  assumes ok: "ipc_ok q" and f: "first_index (\<lambda>b. mb_pid b = pid) (boxes q) = Some i"
    and b: "box_ok b" "mb_pid b = pid"
  shows "ipc_ok (upd_box i b q)" "queue_of pid (upd_box i b q) = contents b"
    "p' \<noteq> pid \<Longrightarrow> queue_of p' (upd_box i b q) = queue_of p' q"
proof -
  note F = first_index_SomeD [OF f]
  show "ipc_ok (upd_box i b q)"
    using ok b(1) by (auto simp: ipc_ok_def upd_box_def dest: set_update_subset_insert [THEN subsetD])
  have "first_index (\<lambda>b. mb_pid b = pid) ((boxes q)[i := b]) = Some i"
    using first_index_update_same [OF f] b(2) by simp
  then show "queue_of pid (upd_box i b q) = contents b"
    using F(1) by (simp add: queue_of_def upd_box_def)
  assume p': "p' \<noteq> pid"
  have e: "first_index (\<lambda>b. mb_pid b = p') ((boxes q)[i := b]) =
      first_index (\<lambda>b. mb_pid b = p') (boxes q)"
    by (rule first_index_update_other [OF F(1)]) (use F(2) b(2) p' in auto)
  have "k \<noteq> i" if "first_index (\<lambda>b. mb_pid b = p') (boxes q) = Some k" for k
    using first_index_SomeD(2) [OF that] F(2) p' by auto
  then show "queue_of p' (upd_box i b q) = queue_of p' q"
    unfolding queue_of_def upd_box_def using e by (auto split: option.split)
qed

lemma mailbox_push_pid [simp]: "mb_pid (mailbox_push m b) = mb_pid b"
  by (simp add: mailbox_push_def)

lemma mailbox_pop_pid: "mailbox_pop b = Some (m, b') \<Longrightarrow> mb_pid b' = mb_pid b"
  by (auto simp: mailbox_pop_def split: if_splits)

lemma ipc_box_ok: "ipc_ok q \<Longrightarrow> i < length (boxes q) \<Longrightarrow> box_ok (boxes q ! i)"
  by (simp add: ipc_ok_def)

text \<open>A send that succeeds puts the message at the end of the destination's queue,
  unless it holds 64 already, and leaves every other queue alone.\<close>

lemma do_send_spec:
  assumes ok: "ipc_ok q" and to: "to \<noteq> 0" and r: "do_send to type data s q = (0, s', q')"
  shows "ipc_ok q'" "queue_of to q' =
      (if length (queue_of to q) < IPC_QUEUE_MAX
       then queue_of to q @ [\<lparr>m_sender = cur_pid s, m_receiver = to, m_type = type,
              m_payload = take IPC_MSG_MAX data\<rparr>] else queue_of to q)"
    "p \<noteq> to \<Longrightarrow> p \<noteq> 0 \<Longrightarrow> queue_of p q' = queue_of p q" "s' = sched_wakeup to s" "ipc_cap_ok s"
proof -
  obtain i q1 where m: "mailbox_for to q = (Some i, q1)" and c: "ipc_cap_ok s"
    using r by (auto simp: do_send_def split: prod.splits option.splits if_splits)
  let ?m = "\<lparr>m_sender = cur_pid s, m_receiver = to, m_type = type, m_payload = take IPC_MSG_MAX data\<rparr>"
  have q': "q' = upd_box i (mailbox_push ?m (boxes q1 ! i)) q1" "s' = sched_wakeup to s"
    using r m c by (auto simp: do_send_def Let_def)
  note M = mailbox_for_spec [OF ok to m]
  note b = ipc_box_ok [OF M(1,2)]
  have pid: "mb_pid (boxes q1 ! i) = to" using first_index_SomeD(2) [OF M(3)] .
  note U = upd_box_spec [OF M(1,3) mbox.push_ok [OF b, of ?m]]
  show "ipc_ok q'" unfolding q' using U(1) pid by simp
  show "queue_of to q' = (if length (queue_of to q) < IPC_QUEUE_MAX
       then queue_of to q @ [?m] else queue_of to q)"
    unfolding q' using U(2) pid mbox.push_contents [OF b, of ?m] M(4) by simp
  show "p \<noteq> to \<Longrightarrow> p \<noteq> 0 \<Longrightarrow> queue_of p q' = queue_of p q"
    unfolding q' using U(3) pid M(5) by simp
  show "s' = sched_wakeup to s" "ipc_cap_ok s" using q'(2) c by simp_all
qed

lemma try_receive_spec:
  assumes ok: "ipc_ok q" and me: "cur_pid s \<noteq> 0" and c: "ipc_cap_ok s"
    and r: "ipc_try_receive n s q = (res, s', q')"
  shows "s' = s" "ipc_ok q'"
    "queue_of (cur_pid s) q = m # ms \<Longrightarrow>
      res = RMsg (m_sender m) (m_type m) (take n (m_payload m)) \<and> queue_of (cur_pid s) q' = ms"
    "queue_of (cur_pid s) q = [] \<Longrightarrow> res = RErr (-3) \<or> res = RErr (-2)"
    "p \<noteq> cur_pid s \<Longrightarrow> p \<noteq> 0 \<Longrightarrow> queue_of p q' = queue_of p q"
    "queue_of (cur_pid s) q = [] \<Longrightarrow> queue_of (cur_pid s) q' = []"
proof -
  let ?me = "cur_pid s"
  have "s' = s \<and> ipc_ok q' \<and>
    (\<forall>m ms. queue_of ?me q = m # ms \<longrightarrow>
      res = RMsg (m_sender m) (m_type m) (take n (m_payload m)) \<and> queue_of ?me q' = ms) \<and>
    (queue_of ?me q = [] \<longrightarrow> (res = RErr (-3) \<or> res = RErr (-2)) \<and> queue_of ?me q' = []) \<and>
    (\<forall>p. p \<noteq> ?me \<longrightarrow> p \<noteq> 0 \<longrightarrow> queue_of p q' = queue_of p q)"
  proof (cases "mailbox_for ?me q")
    case (Pair o1 q1)
    show ?thesis
    proof (cases o1)
      case None
      then have n: "first_index (\<lambda>b. mb_pid b = ?me) (boxes q) = None" "q1 = q"
        using Pair ok by (auto simp: mailbox_for_def ipc_ok_def split: option.splits)
      then have "queue_of ?me q = []" by (simp add: queue_of_def)
      then show ?thesis using r c Pair None n ok by (simp add: ipc_try_receive_def)
    next
      case (Some i)
      note M = mailbox_for_spec [OF ok me Pair [unfolded Some]]
      note b = ipc_box_ok [OF M(1,2)]
      show ?thesis
      proof (cases "mailbox_pop (boxes q1 ! i)")
        case None
        then have "queue_of ?me q = []" using mbox.pop_empty [OF b] M(4) by simp
        moreover have "mb_count (boxes q1 ! i) = 0" using None by (simp add: mailbox_pop_def split: if_splits)
        ultimately show ?thesis
          using r c Pair Some M(1,5) me by (simp add: ipc_try_receive_def)
      next
        case pop: (Some mb)
        obtain m b' where mb: "mb = (m, b')" by (cases mb)
        note pp = pop [unfolded mb]
        have q: "queue_of ?me q = m # contents b'" using mbox.pop_contents [OF b pp] M(4) by simp
        have "mb_count (boxes q1 ! i) \<noteq> 0" using pp by (simp add: mailbox_pop_def split: if_splits)
        then have e: "res = RMsg (m_sender m) (m_type m) (take n (m_payload m))"
            "q' = upd_box i b' q1" "s' = s"
          using r c Pair Some pp by (auto simp: ipc_try_receive_def take_msg_def)
        have "mb_pid b' = ?me"
          using mailbox_pop_pid [OF pp] first_index_SomeD(2) [OF M(3)] by simp
        note U = upd_box_spec [OF M(1,3) mbox.pop_ok [OF b pp] this]
        show ?thesis using e q U M(5) by auto
      qed
    qed
  qed
  then show "s' = s" "ipc_ok q'"
    "queue_of (cur_pid s) q = m # ms \<Longrightarrow>
      res = RMsg (m_sender m) (m_type m) (take n (m_payload m)) \<and> queue_of (cur_pid s) q' = ms"
    "queue_of (cur_pid s) q = [] \<Longrightarrow> res = RErr (-3) \<or> res = RErr (-2)"
    "p \<noteq> cur_pid s \<Longrightarrow> p \<noteq> 0 \<Longrightarrow> queue_of p q' = queue_of p q"
    "queue_of (cur_pid s) q = [] \<Longrightarrow> queue_of (cur_pid s) q' = []"
    by blast+
qed




section \<open>Properties\<close>

text \<open>An example: both processes of \<open>two_procs\<close> may use IPC, and no message was sent yet.\<close>

definition talkers :: sys where
  "talkers = upd 0 (\<lambda>p. p\<lparr>p_rights := CAP_IPC\<rparr>) (upd 1 (\<lambda>p. p\<lparr>p_rights := CAP_IPC\<rparr>) two_procs)"

definition listener :: sys where
  "listener = talkers\<lparr>cur := Some 1\<rparr>"

lemma talkers_simps: "cur talkers = Some 0" "cur_pid talkers = 1" "ipc_cap_ok talkers"
  "cur_pid listener = 2" "ipc_cap_ok listener"
  by (simp_all add: listener_def talkers_def two_procs_def upd_def cur_pid_def ipc_cap_ok_def cap_defs)

lemma no_mail: "ipc_ok (ipc_init zero_ipc)" "queue_of p (ipc_init zero_ipc) = []"
  by (auto simp: ipc_ok_def ipc_init_def zero_ipc_def MAILBOX_MAX_def box_ok_def queue_of_def contents_def)

lemma first_send: "\<exists>s q. do_send 2 5 ''hi'' talkers (ipc_init zero_ipc) = (0, s, q)"
  using talkers_simps
  by (simp add: do_send_def mailbox_for_def ipc_init_def zero_ipc_def MAILBOX_MAX_def)

text \<open>The mailboxes seen from outside: a queue of at most 64 messages for each pid.\<close>

definition spec_send :: "msg \<Rightarrow> (u32 \<Rightarrow> msg list) \<Rightarrow> u32 \<Rightarrow> msg list" where
  "spec_send m Q = (\<lambda>p. if p = m_receiver m \<and> length (Q p) < IPC_QUEUE_MAX then Q p @ [m] else Q p)"













text \<open>A send that returns 0 is the abstract send, and wakes the receiver.\<close>

theorem send_refines:
  assumes "ipc_ok q" "to \<noteq> 0" "do_send to type data s q = (0, s', q')" "p \<noteq> 0"
  shows "queue_of p q' = spec_send \<lparr>m_sender = cur_pid s, m_receiver = to, m_type = type,
           m_payload = take IPC_MSG_MAX data\<rparr> (\<lambda>p. queue_of p q) p \<and>
    ipc_ok q' \<and> ipc_cap_ok s \<and> s' = sched_wakeup to s"
  using do_send_spec(1,2,4,5) [OF assms(1,2,3)] do_send_spec(3) [OF assms(1,2,3) _ assms(4)]
  by (cases "p = to") (simp_all add: spec_send_def)

lemma send_refines_witness:
  "queue_of 2 (snd (snd (do_send 2 5 ''hi'' talkers (ipc_init zero_ipc)))) =
    [\<lparr>m_sender = 1, m_receiver = 2, m_type = 5, m_payload = ''hi''\<rparr>]"
proof -
  obtain s q where e: "do_send 2 5 ''hi'' talkers (ipc_init zero_ipc) = (0, s, q)" using first_send by blast
  from send_refines [OF no_mail(1) _ e, of 2] e show ?thesis
    by (simp add: spec_send_def no_mail talkers_simps IPC_QUEUE_MAX_def IPC_MSG_MAX_def)
qed

text \<open>A receive takes the oldest message of the caller's own queue, copies at most the caller's
  buffer, and leaves every other queue as it was.\<close>

theorem receive_oldest:
  assumes "ipc_ok q" "cur_pid s \<noteq> 0" "ipc_cap_ok s" "ipc_try_receive n s q = (res, s', q')"
    "queue_of (cur_pid s) q = m # ms"
  shows "res = RMsg (m_sender m) (m_type m) (take n (m_payload m)) \<and> queue_of (cur_pid s) q' = ms \<and>
    (\<forall>p. p \<noteq> cur_pid s \<and> p \<noteq> 0 \<longrightarrow> queue_of p q' = queue_of p q) \<and> ipc_ok q' \<and> s' = s"
  using try_receive_spec [OF assms(1,2,3,4)] assms(5) by blast

text \<open>What is sent to an idle process is what it receives, cut to its buffer, with the pid of the
  process that sent it.\<close>

theorem send_receive_roundtrip:
  assumes "ipc_ok q" "to \<noteq> 0" "queue_of to q = []" "do_send to type data s q = (0, s', q')"
    "cur_pid r = to" "ipc_cap_ok r"
  shows "fst (ipc_try_receive n r q') = RMsg (cur_pid s) type (take n (take IPC_MSG_MAX data)) \<and>
    queue_of to (snd (snd (ipc_try_receive n r q'))) = []"
proof -
  note D = do_send_spec(1,2) [OF assms(1,2,4)]
  obtain res r' q'' where e: "ipc_try_receive n r q' = (res, r', q'')" by (metis prod_cases3)
  have m: "cur_pid r \<noteq> 0" using assms(2,5) by simp
  have "queue_of (cur_pid r) q' = [\<lparr>m_sender = cur_pid s, m_receiver = to, m_type = type,
      m_payload = take IPC_MSG_MAX data\<rparr>]"
    using D(2) assms(3,5) by simp
  from try_receive_spec(3) [OF D(1) m assms(6) e this] show ?thesis using e assms(5) by simp
qed

lemma send_receive_roundtrip_witness:
  "fst (ipc_try_receive 1 listener
     (snd (snd (do_send 2 5 ''hi'' talkers (ipc_init zero_ipc))))) = RMsg 1 5 ''h''"
proof -
  obtain s q where e: "do_send 2 5 ''hi'' talkers (ipc_init zero_ipc) = (0, s, q)" using first_send by blast
  from send_receive_roundtrip [OF no_mail(1) _ no_mail(2) e talkers_simps(4,5), of 1] e show ?thesis
    by (simp add: talkers_simps IPC_MSG_MAX_def)
qed

lemma receive_oldest_witness:
  "queue_of 2 (snd (snd (ipc_try_receive 1 listener
     (snd (snd (do_send 2 5 ''hi'' talkers (ipc_init zero_ipc))))))) = []"
proof -
  obtain s q where e: "do_send 2 5 ''hi'' talkers (ipc_init zero_ipc) = (0, s, q)" using first_send by blast
  note D = do_send_spec(1,2) [OF no_mail(1) _ e]
  have "queue_of (cur_pid listener) q = [\<lparr>m_sender = 1, m_receiver = 2, m_type = 5, m_payload = ''hi''\<rparr>]"
    using D(2) by (simp add: talkers_simps no_mail IPC_MSG_MAX_def)
  moreover obtain res r' q'' where "ipc_try_receive 1 listener q = (res, r', q'')" by (metis prod_cases3)
  ultimately show ?thesis
    using receive_oldest [OF D(1) _ talkers_simps(5)] e by (simp add: talkers_simps)
qed

end
