(* ===== verification/Kernel.thy ===== *)
theory Kernel
  imports Auth Svc Ipc
begin

unbundle bit_operations_syntax

text \<open>
  The state of the whole kernel, as the system calls and the virtual file
  system see it, and the system information (src/kernel/sysinfo.c).
\<close>

record kern =
  k_sys :: sys
  k_fs :: fs
  k_pact :: pact
  k_auth :: auth
  k_ipc :: ipc
  k_svc :: svc
  k_ticks :: u64

text \<open>The running process.\<close>

definition current_proc :: "kern \<Rightarrow> pcb option" where
  "current_proc k = map_option (nth (procs (k_sys k))) (cur (k_sys k))"

section \<open>System information\<close>

record system_info =
  si_total :: u64
  si_free :: u64
  si_used :: u64
  si_cpus :: u32
  si_procs :: u32
  si_uptime :: u64
  si_ticks :: u64

record proc_info =
  pi_pid :: u32
  pi_name :: string
  pi_state :: pstate
  pi_user :: bool
  pi_exit :: u32

definition sysinfo_get :: "kern \<Rightarrow> system_info" where
  "sysinfo_get k =
    (let p = frames (vmem (k_sys k)); t = pmm_total_mem p; f = pmm_free_mem p in
     \<lparr>si_total = t, si_free = f, si_used = (if f < t then t - f else 0), si_cpus = 1,
      si_procs = of_nat (length (filter p_present (procs (k_sys k)))),
      si_uptime = k_ticks k * 10, si_ticks = k_ticks k\<rparr>)"

definition proc_info_of :: "pcb \<Rightarrow> proc_info" where
  "proc_info_of p = \<lparr>pi_pid = p_pid p, pi_name = clip 63 (p_name p), pi_state = p_state p,
     pi_user = p_user p, pi_exit = p_exit p\<rparr>"

definition sysinfo_proc_list :: "int \<Rightarrow> kern \<Rightarrow> proc_info list" where
  "sysinfo_proc_list mx k =
    (if mx \<le> 0 then [] else take (nat mx) (map proc_info_of (filter p_present (procs (k_sys k)))))"

lemma sysinfo_proc_list_bound: "length (sysinfo_proc_list mx k) \<le> nat mx"
  by (simp add: sysinfo_proc_list_def)

lemma sysinfo_memory_split:
  assumes "pmm_free_mem (frames (vmem (k_sys k))) \<le> pmm_total_mem (frames (vmem (k_sys k)))"
  shows "si_used (sysinfo_get k) + si_free (sysinfo_get k) = si_total (sysinfo_get k)"
  using assms by (auto simp: sysinfo_get_def Let_def not_less)

section \<open>An example kernel\<close>

text \<open>Two processes, one file, no account, and the two contracts of \<open>Synallagma\<close>.\<close>

definition demo_kern :: kern where
  "demo_kern = \<lparr>k_sys = two_procs, k_fs = one_file, k_pact = two_pacts, k_auth = zero_auth,
     k_ipc = ipc_init zero_ipc, k_svc = svc_init, k_ticks = 0\<rparr>"

end
