(* ===== verification/Vfs.thy ===== *)
theory Vfs
  imports Kernel
begin

unbundle bit_operations_syntax

text \<open>
  The virtual file system (src/kernel/vfs.c): path normalisation, the access
  policy of folders and contracts, the generated files of /aisthesis and
  /kinesis, and the delegation to the ramfs.

  A result \<^const>\<open>None\<close> is \<open>FS_ERROR\<close>.  A read gives the bytes written to the
  caller's buffer.
\<close>

definition CAP_NOMOS_WRITE :: u64 where "CAP_NOMOS_WRITE = push_bit 3 1"

section \<open>Normalisation\<close>

text \<open>One component: what it does to the path built so far.\<close>

definition norm_step :: "nat \<Rightarrow> string \<Rightarrow> string \<Rightarrow> string option" where
  "norm_step mx out piece =
    (let comp = take 31 piece in
     if streq comp ''.'' then Some out
     else if streq comp ''..'' then
       (case strrchr out (CHR ''/'') of
          None \<Rightarrow> Some out
        | Some k \<Rightarrow> if k \<noteq> 0 then Some (take k out) else Some (take 1 out))
     else if 1 < strlen out then
       (if mx \<le> strlen out + 1 + length comp then None else Some (out @ CHR ''/'' # comp))
     else if mx \<le> 1 + length comp then None
     else Some (take 1 out @ comp))"

lemma next_piece_shorter:
  assumes "dropWhile (\<lambda>c. c = CHR ''/'') p = q" "q \<noteq> []"
  shows "length (dropWhile (\<lambda>c. c \<noteq> CHR ''/'') q) < length p"
proof -
  have "hd q \<noteq> CHR ''/''" using hd_dropWhile [of "\<lambda>c. c = CHR ''/''" p] assms by simp
  then have e: "dropWhile (\<lambda>c. c \<noteq> CHR ''/'') q = dropWhile (\<lambda>c. c \<noteq> CHR ''/'') (tl q)"
    using assms(2) by (cases q) auto
  have "length (dropWhile (\<lambda>c. c \<noteq> CHR ''/'') q) \<le> length (tl q)"
    unfolding e by (rule length_dropWhile_le)
  also have "\<dots> < length q" using assms(2) by simp
  also have "\<dots> \<le> length p" unfolding assms(1) [symmetric] by (rule length_dropWhile_le)
  finally show ?thesis .
qed

function norm_loop :: "nat \<Rightarrow> string \<Rightarrow> string \<Rightarrow> string option" where
  "norm_loop mx p out =
    (let q = dropWhile (\<lambda>c. c = CHR ''/'') p in
     if q = [] then Some out
     else case norm_step mx out (takeWhile (\<lambda>c. c \<noteq> CHR ''/'') q) of
       None \<Rightarrow> None
     | Some out' \<Rightarrow> norm_loop mx (dropWhile (\<lambda>c. c \<noteq> CHR ''/'') q) out')"
  by pat_completeness auto
termination
  by (relation "measure (\<lambda>(mx, p, out). length p)") (simp_all add: next_piece_shorter)

declare norm_loop.simps [simp del]

definition vfs_normalize :: "string option \<Rightarrow> string option \<Rightarrow> nat \<Rightarrow> string option" where
  "vfs_normalize cwd path mx =
    (case path of
       None \<Rightarrow> Some (clip (mx - 1) (case cwd of None \<Rightarrow> ''/'' | Some c \<Rightarrow> c))
     | Some p \<Rightarrow>
        if cstr p = [] then Some (clip (mx - 1) (case cwd of None \<Rightarrow> ''/'' | Some c \<Rightarrow> c))
        else
          let tmp = (if at p 0 = CHR ''/'' then clip 511 p
                     else sformat 512 ''%s/%s''
                       [AStr (Some (case cwd of None \<Rightarrow> '''' | Some c \<Rightarrow> if streq c ''/'' then '''' else c)),
                        AStr (Some p)])
          in norm_loop mx tmp ''/'')"

section \<open>Access\<close>

text \<open>A path is the folder or lies below it.\<close>

definition in_folder :: "string \<Rightarrow> string \<Rightarrow> bool" where
  "in_folder folder p \<longleftrightarrow> at p 0 = CHR ''/'' \<and> strncmp p folder (length folder) = 0 \<and>
    (at p (length folder) = CHR ''/'' \<or> at p (length folder) = NUL)"

definition vfs_is_pseudo :: "string \<Rightarrow> bool" where
  "vfs_is_pseudo norm \<longleftrightarrow> in_folder ''/aisthesis'' norm \<or> in_folder ''/kinesis'' norm"

definition vfs_check_cap :: "string \<Rightarrow> u64 \<Rightarrow> kern \<Rightarrow> bool" where
  "vfs_check_cap path need k =
    (let write_op = (need AND (CAP_FS_WRITE OR CAP_IDIOS_WRITE OR CAP_NOMOS_WRITE) \<noteq> 0);
         u = login_result_user (k_auth k);
         admin = (case u of None \<Rightarrow> False | Some u \<Rightarrow> ac_admin u);
         has = (\<lambda>c. case u of None \<Rightarrow> False | Some u \<Rightarrow> ac_caps u AND c \<noteq> 0);
         proc_cap = (case current_proc k of None \<Rightarrow> False | Some p \<Rightarrow> p_rights p AND need \<noteq> 0)
     in case synallagma_contract_for path (k_pact k) of
          Some i \<Rightarrow>
            let c = ct_list (k_pact k) ! i in
            if \<not> synallagma_consented (ct_caminho c) (k_pact k) then False
            else if write_op \<and> \<not> ct_escrita c then False
            else if \<not> write_op \<and> \<not> ct_leitura c \<and> \<not> ct_execucao c then False
            else if ct_caps_req c \<noteq> 0 \<and> \<not> admin \<and> \<not> has (ct_caps_req c) \<and> \<not> proc_cap then False
            else True
        | None \<Rightarrow>
            if in_folder ''/oikos'' path then \<not> write_op
            else if in_folder ''/synallagma'' path then
              (if write_op then admin \<or> has need \<or> proc_cap else True)
            else True)"

section \<open>Generated files\<close>

definition append_dec :: "nat \<Rightarrow> string \<Rightarrow> u64 \<Rightarrow> string" where
  "append_dec mx out v = append_fit mx out (sformat 24 ''%llu'' [ALong v])"

definition state_word :: "pstate \<Rightarrow> string" where
  "state_word st = (case st of Created \<Rightarrow> ''criado'' | Ready \<Rightarrow> ''pronto'' | Running \<Rightarrow> ''rodando''
     | Blocked \<Rightarrow> ''bloqueado'' | Terminated \<Rightarrow> ''terminado'')"

text \<open>A piece of a generated file: a text or a number.\<close>

datatype piece = PText string | PNum u64

fun append_pieces :: "nat \<Rightarrow> string \<Rightarrow> piece list \<Rightarrow> string" where
  "append_pieces mx out [] = out"
| "append_pieces mx out (PText s # ps) = append_pieces mx (append_fit mx out s) ps"
| "append_pieces mx out (PNum v # ps) = append_pieces mx (append_dec mx out v) ps"

definition pseudo_pieces :: "string \<Rightarrow> kern \<Rightarrow> piece list option" where
  "pseudo_pieces norm k =
    (let pm = frames (vmem (k_sys k)); total = pmm_total_mem pm; free = pmm_free_mem pm in
     if streq norm ''/aisthesis/memoria'' then Some
       [PText ''Memoria total : '', PNum total, PText ('' bytes'' @ [LF]),
        PText ''Memoria livre : '', PNum free, PText ('' bytes'' @ [LF]),
        PText ''Memoria usada : '', PNum (total - free), PText ('' bytes'' @ [LF])]
     else if streq norm ''/aisthesis/processos'' then Some
       [PText ''Processos ativos : '', PNum (ucast (si_procs (sysinfo_get k))), PText [LF],
        PText ''Processos terminados : '',
        PNum (of_nat (length (filter (\<lambda>i. pi_state i = Terminated) (sysinfo_proc_list 64 k)))),
        PText [LF]]
     else if streq norm ''/kinesis/processos'' then Some
       (map (\<lambda>i. PText (sformat 128 (''[%u] %s %s %s'' @ [LF])
           [AInt (pi_pid i), AStr (Some (pi_name i)), AStr (Some (state_word (pi_state i))),
            AStr (Some (if pi_user i then ''ring3'' else ''ring0''))])) (sysinfo_proc_list 64 k))
     else if streq norm ''/kinesis/uptime'' then Some
       [PText ''Uptime : '', PNum (k_ticks k * 10), PText ('' ms'' @ [LF]),
        PText ''Ticks  : '', PNum (k_ticks k), PText [LF]]
     else None)"

text \<open>The text, whose length is the result, and the bytes stored in the buffer:
  \<open>out[0]=0\<close> is stored first, whatever \<open>max\<close> is.\<close>

definition vfs_pseudo_read :: "string \<Rightarrow> nat \<Rightarrow> kern \<Rightarrow> string \<times> string" where
  "vfs_pseudo_read norm mx k =
    (let out = (case pseudo_pieces norm k of None \<Rightarrow> [] | Some ps \<Rightarrow> append_pieces mx [] ps)
     in (out, if out = [] then [NUL] else out))"

definition vfs_pseudo_list :: "string \<Rightarrow> nat \<Rightarrow> string option" where
  "vfs_pseudo_list norm mx =
    (if streq norm ''/aisthesis'' then Some (sformat mx (''memoria'' @ [LF] @ ''processos'' @ [LF]) [])
     else if streq norm ''/kinesis'' then Some (sformat mx (''processos'' @ [LF] @ ''uptime'' @ [LF]) [])
     else None)"

section \<open>Operations\<close>

definition FS_NAME_MAX :: nat where "FS_NAME_MAX = 256"

text \<open>Every operation normalises into a buffer of \<open>FS_NAME_MAX\<close> bytes.\<close>

definition norm_of :: "string option \<Rightarrow> string option \<Rightarrow> string option" where
  "norm_of cwd path = vfs_normalize cwd path FS_NAME_MAX"

definition vfs_open :: "string option \<Rightarrow> string option \<Rightarrow> kern \<Rightarrow> string option" where
  "vfs_open cwd path k =
    (if path = None \<or> cstr (the path) = [] then Some (clip FS_NAME_MAX (case cwd of None \<Rightarrow> ''/'' | Some c \<Rightarrow> c))
     else case norm_of cwd path of
       None \<Rightarrow> None
     | Some norm \<Rightarrow>
        if FS_NAME_MAX \<le> strlen norm then None
        else if \<not> fs_exists norm (k_fs k) then None
        else if \<not> vfs_check_cap norm CAP_FS_READ k then None
        else Some (clip FS_NAME_MAX norm))"

definition vfs_create :: "string option \<Rightarrow> string option \<Rightarrow> fs_type \<Rightarrow> kern \<Rightarrow> int \<times> kern" where
  "vfs_create cwd path type k =
    (case norm_of cwd path of
       None \<Rightarrow> (-1, k)
     | Some norm \<Rightarrow>
        if \<not> vfs_check_cap norm CAP_FS_WRITE k then (-1, k)
        else case fs_create (auth_user_index_current (k_auth k)) norm type (k_fs k) of
          (r, f) \<Rightarrow> (r, k\<lparr>k_fs := f\<rparr>))"

definition vfs_mkdir :: "string option \<Rightarrow> string option \<Rightarrow> kern \<Rightarrow> int \<times> kern" where
  "vfs_mkdir cwd path k = vfs_create cwd path TDir k"

text \<open>The status and size, and the bytes stored.\<close>

definition vfs_read :: "string option \<Rightarrow> string option \<Rightarrow> nat \<Rightarrow> kern \<Rightarrow> string option \<times> string" where
  "vfs_read cwd path mx k =
    (case norm_of cwd path of
       None \<Rightarrow> (None, [])
     | Some norm \<Rightarrow>
        if \<not> vfs_check_cap norm CAP_FS_READ k then (None, [])
        else if vfs_is_pseudo norm then
          (case vfs_pseudo_read norm mx k of (out, stored) \<Rightarrow> (if out \<noteq> [] then Some out else None, stored))
        else (case fs_read norm mx (k_fs k) of None \<Rightarrow> (None, []) | Some d \<Rightarrow> (Some d, d)))"

definition vfs_write :: "string option \<Rightarrow> string option \<Rightarrow> string \<Rightarrow> kern \<Rightarrow> int \<times> kern" where
  "vfs_write cwd path data k =
    (case norm_of cwd path of
       None \<Rightarrow> (-1, k)
     | Some norm \<Rightarrow>
        if \<not> vfs_check_cap norm CAP_FS_WRITE k then (-1, k)
        else if vfs_is_pseudo norm then (-1, k)
        else
          let (r, f) = (if fs_exists norm (k_fs k) then (0, k_fs k)
                        else fs_create (auth_user_index_current (k_auth k)) norm TFile (k_fs k))
          in if r \<noteq> 0 then (-1, k\<lparr>k_fs := f\<rparr>)
             else case fs_write norm data f (k_sys k) of
               (r, f, s) \<Rightarrow> (r, k\<lparr>k_fs := f, k_sys := s\<rparr>))"

definition vfs_remove :: "string option \<Rightarrow> string option \<Rightarrow> kern \<Rightarrow> int \<times> kern" where
  "vfs_remove cwd path k =
    (case norm_of cwd path of
       None \<Rightarrow> (-1, k)
     | Some norm \<Rightarrow>
        if \<not> vfs_check_cap norm CAP_FS_WRITE k then (-1, k)
        else case fs_remove norm (k_fs k) (k_sys k) of
          (r, f, s) \<Rightarrow> (r, k\<lparr>k_fs := f, k_sys := s\<rparr>))"

text \<open>The two-path operations: both paths normalised, the source readable, the
  destination writable.\<close>

definition vfs_pair :: "(string \<Rightarrow> string \<Rightarrow> fs \<Rightarrow> sys \<Rightarrow> int \<times> fs \<times> sys) \<Rightarrow>
    string option \<Rightarrow> string option \<Rightarrow> string option \<Rightarrow> kern \<Rightarrow> int \<times> kern" where
  "vfs_pair op cwd src dst k =
    (case norm_of cwd src of
       None \<Rightarrow> (-1, k)
     | Some nsrc \<Rightarrow>
        (case norm_of cwd dst of
           None \<Rightarrow> (-1, k)
         | Some ndst \<Rightarrow>
            if \<not> vfs_check_cap nsrc CAP_FS_READ k then (-1, k)
            else if \<not> vfs_check_cap ndst CAP_FS_WRITE k then (-1, k)
            else case op nsrc ndst (k_fs k) (k_sys k) of (r, f, s) \<Rightarrow> (r, k\<lparr>k_fs := f, k_sys := s\<rparr>)))"

definition vfs_copy :: "string option \<Rightarrow> string option \<Rightarrow> string option \<Rightarrow> kern \<Rightarrow> int \<times> kern" where
  "vfs_copy cwd src dst k = vfs_pair (fs_copy (auth_user_index_current (k_auth k))) cwd src dst k"

definition vfs_move :: "string option \<Rightarrow> string option \<Rightarrow> string option \<Rightarrow> kern \<Rightarrow> int \<times> kern" where
  "vfs_move cwd src dst k = vfs_pair (fs_move (auth_user_index_current (k_auth k))) cwd src dst k"

definition vfs_list :: "string option \<Rightarrow> string option \<Rightarrow> nat \<Rightarrow> kern \<Rightarrow> string option" where
  "vfs_list cwd path mx k =
    (case norm_of cwd (case path of None \<Rightarrow> cwd | Some p \<Rightarrow> Some p) of
       None \<Rightarrow> None
     | Some norm \<Rightarrow>
        if \<not> vfs_check_cap norm CAP_FS_READ k then None
        else case (if vfs_is_pseudo norm then vfs_pseudo_list norm mx else None) of
          Some l \<Rightarrow> Some l
        | None \<Rightarrow> Some (fs_list norm mx (k_fs k)))"

section \<open>What normalisation computes\<close>

text \<open>The canonical text of a list of components, and the list the path names.\<close>

definition slashed :: "string list \<Rightarrow> string" where
  "slashed cs = concat (map (\<lambda>c. CHR ''/'' # c) cs)"

definition canon :: "string list \<Rightarrow> string" where
  "canon cs = (if cs = [] then ''/'' else slashed cs)"

definition good_comp :: "string \<Rightarrow> bool" where
  "good_comp c \<longleftrightarrow> c \<noteq> [] \<and> length c \<le> 31 \<and> CHR ''/'' \<notin> set c \<and> NUL \<notin> set c \<and>
    c \<noteq> ''.'' \<and> c \<noteq> ''..''"

function path_pieces :: "string \<Rightarrow> string list" where
  "path_pieces p =
    (let q = dropWhile (\<lambda>c. c = CHR ''/'') p in
     if q = [] then []
     else takeWhile (\<lambda>c. c \<noteq> CHR ''/'') q # path_pieces (dropWhile (\<lambda>c. c \<noteq> CHR ''/'') q))"
  by pat_completeness auto
termination by (relation "measure length") (simp_all add: next_piece_shorter)

declare path_pieces.simps [simp del]

definition resolve :: "string list \<Rightarrow> string \<Rightarrow> string list" where
  "resolve cs piece =
    (let c = take 31 piece in
     if c = ''.'' then cs else if c = ''..'' then butlast cs else cs @ [c])"

lemma slashed_append: "slashed (cs @ ds) = slashed cs @ slashed ds"
  by (simp add: slashed_def)

lemma slashed_one [simp]: "slashed [c] = CHR ''/'' # c" "slashed [] = []"
  by (simp_all add: slashed_def)

lemma slashed_NUL: "\<forall>c\<in>set cs. good_comp c \<Longrightarrow> NUL \<notin> set (slashed cs)"
  by (auto simp: slashed_def good_comp_def)

lemma cstr_canon: "\<forall>c\<in>set cs. good_comp c \<Longrightarrow> cstr (canon cs) = canon cs"
  using slashed_NUL [of cs] by (simp add: canon_def cstr_id)

lemma strrchr_slashed:
  assumes "\<forall>c\<in>set cs. good_comp c" "good_comp d"
  shows "strrchr (slashed cs @ CHR ''/'' # d) (CHR ''/'') = Some (length (slashed cs))"
proof -
  have c: "cstr (slashed cs @ CHR ''/'' # d) = slashed cs @ CHR ''/'' # d"
    using slashed_NUL [OF assms(1)] assms(2) by (simp add: cstr_id good_comp_def)
  have no: "d ! i \<noteq> CHR ''/''" if "i < length d" for i
    using assms(2) that nth_mem by (force simp: good_comp_def)
  show ?thesis
    by (subst strrchr_Some_iff) (use no in \<open>auto simp: c nth_append nth_Cons'\<close>)
qed

lemma norm_step_canon:
  assumes ok: "\<forall>c\<in>set cs. good_comp c" and p: "piece \<noteq> []" "CHR ''/'' \<notin> set piece" "NUL \<notin> set piece"
    and s: "norm_step mx (canon cs) piece = Some out"
  shows "out = canon (resolve cs piece)" "\<forall>c\<in>set (resolve cs piece). good_comp c"
    "length (canon cs) < mx \<Longrightarrow> length out < mx"
proof -
  let ?c = "take 31 piece"
  have c: "NUL \<notin> set ?c" "CHR ''/'' \<notin> set ?c" "?c \<noteq> []" "length ?c \<le> 31"
    using p set_take_subset [of 31 piece] by auto
  have e: "cstr ?c = ?c" using c(1) by (rule cstr_id)
  have "out = canon (resolve cs piece) \<and> (\<forall>c\<in>set (resolve cs piece). good_comp c) \<and>
      (length (canon cs) < mx \<longrightarrow> length out < mx)"
  proof (cases "?c = ''.'' \<or> ?c = ''..''")
    case False
    then have r: "resolve cs piece = cs @ [?c]" by (simp add: resolve_def Let_def)
    have g: "\<forall>c\<in>set (cs @ [?c]). good_comp c" using ok c False by (auto simp: good_comp_def)
    have l: "1 < strlen (canon cs) \<longleftrightarrow> cs \<noteq> []"
    proof (cases cs)
      case (Cons a as)
      have "a \<noteq> []" using ok Cons by (simp add: good_comp_def)
      then show ?thesis
        unfolding strlen_cstr cstr_canon [OF ok] using Cons by (simp add: canon_def slashed_def)
    qed (simp add: canon_def)
    show ?thesis
    proof (cases "cs = []")
      case True
      then have "out = CHR ''/'' # ?c" "1 + length ?c < mx"
        using s False e l by (auto simp: norm_step_def Let_def canon_def split: if_splits)
      then show ?thesis using g r True by (simp add: canon_def)
    next
      case cs: False
      then have "out = canon cs @ CHR ''/'' # ?c" "strlen (canon cs) + 1 + length ?c < mx"
        using s False e l by (auto simp: norm_step_def Let_def split: if_splits)
      then show ?thesis
        using g r cs by (simp add: canon_def slashed_append strlen_cstr cstr_id slashed_NUL ok)
    qed
  next
    case True
    show ?thesis
    proof (cases "?c = ''.''")
      case dot: True
      then show ?thesis using s ok e by (simp add: norm_step_def resolve_def Let_def)
    next
      case False
      then have dd: "?c = ''..''" using True by blast
      have r: "resolve cs piece = butlast cs" using dd by (simp add: resolve_def Let_def)
      show ?thesis
      proof (cases cs rule: rev_cases)
        case Nil
        have "strrchr ''/'' (CHR ''/'') = Some 0" by (simp add: strrchr_def)
        then show ?thesis
          using s dd e r Nil by (simp add: norm_step_def Let_def canon_def)
      next
        case (snoc ds d)
        have k: "strrchr (canon cs) (CHR ''/'') = Some (length (slashed ds))"
          using strrchr_slashed [of ds d] ok snoc by (simp add: canon_def slashed_append)
        have t: "canon cs = slashed ds @ CHR ''/'' # d" using snoc by (simp add: canon_def slashed_append)
        have ne: "length (slashed ds) = 0 \<longleftrightarrow> ds = []" by (cases ds) (simp_all add: slashed_def)
        have "out = (if length (slashed ds) \<noteq> 0 then take (length (slashed ds)) (canon cs)
            else take 1 (canon cs))"
          using s dd e k by (simp add: norm_step_def Let_def split: if_splits)
        then have "out = canon ds" using ne unfolding t by (cases "ds = []") (simp_all add: canon_def)
        moreover have "length (canon ds) \<le> length (canon cs)" unfolding t by (simp add: canon_def)
        ultimately show ?thesis using ok snoc r by auto
      qed
    qed
  qed
  then show "out = canon (resolve cs piece)" "\<forall>c\<in>set (resolve cs piece). good_comp c"
    "length (canon cs) < mx \<Longrightarrow> length out < mx" by blast+
qed

lemma norm_loop_canon:
  assumes "norm_loop mx p (canon cs) = Some out" "\<forall>c\<in>set cs. good_comp c" "NUL \<notin> set p"
    "length (canon cs) < mx"
  shows "out = canon (foldl resolve cs (path_pieces p)) \<and>
    (\<forall>c\<in>set (foldl resolve cs (path_pieces p)). good_comp c) \<and> length out < mx"
  using assms
proof (induction p arbitrary: cs rule: path_pieces.induct)
  case (1 p)
  let ?q = "dropWhile (\<lambda>c. c = CHR ''/'') p"
  let ?t = "takeWhile (\<lambda>c. c \<noteq> CHR ''/'') ?q"
  let ?d = "dropWhile (\<lambda>c. c \<noteq> CHR ''/'') ?q"
  show ?case
  proof (cases "?q = []")
    case True
    then have "norm_loop mx p (canon cs) = Some (canon cs)" by (subst norm_loop.simps) (simp only: True Let_def simp_thms if_True)
    moreover have "path_pieces p = []" using True by (subst path_pieces.simps) (simp only: True Let_def simp_thms if_True)
    ultimately show ?thesis using 1 by simp
  next
    case False
    have pp: "path_pieces p = ?t # path_pieces ?d" using False by (subst path_pieces.simps) (simp add: Let_def)
    have nl: "norm_loop mx p (canon cs) = (case norm_step mx (canon cs) ?t of None \<Rightarrow> None
        | Some out' \<Rightarrow> norm_loop mx ?d out')"
      using False by (subst norm_loop.simps) (simp only: Let_def if_False)
    from 1(2) obtain o1 where o1: "norm_step mx (canon cs) ?t = Some o1" "norm_loop mx ?d o1 = Some out"
      unfolding nl by (auto split: option.splits)
    have sub: "set ?q \<subseteq> set p" by (auto dest: set_dropWhileD)
    have "NUL \<notin> set ?t" "CHR ''/'' \<notin> set ?t" "NUL \<notin> set ?d"
      using 1(4) sub by (auto dest: set_takeWhileD set_dropWhileD)
    moreover have "?t \<noteq> []"
      using False hd_dropWhile [of "\<lambda>c. c = CHR ''/''" p] by (cases ?q) auto
    ultimately have S: "o1 = canon (resolve cs ?t)" "\<forall>c\<in>set (resolve cs ?t). good_comp c" "length o1 < mx"
      using norm_step_canon [OF 1(3) _ _ _ o1(1)] 1(5) by blast+
    show ?thesis
      using 1(1) [OF refl False o1(2) [unfolded S(1)] S(2) \<open>NUL \<notin> set ?d\<close> S(3) [unfolded S(1)]]
      unfolding pp foldl_Cons .
  qed
qed

text \<open>Two shapes of input: an absolute path, and one relative to \<open>cwd\<close>.\<close>

lemma vfs_normalize_canon:
  assumes n: "vfs_normalize cwd (Some p) mx = Some out" and p: "cstr p \<noteq> []" and mx: "1 < mx"
  shows "\<exists>cs. out = canon cs \<and> (\<forall>c\<in>set cs. good_comp c) \<and> length out < mx"
proof -
  define b where "b = (case cwd of None \<Rightarrow> '''' | Some c \<Rightarrow> if streq c ''/'' then '''' else c)"
  define tmp where "tmp = (if at p 0 = CHR ''/'' then clip 511 p
       else sformat 512 ''%s/%s'' [AStr (Some b), AStr (Some p)])"
  have "norm_loop mx tmp (canon []) = Some out"
    using n p unfolding tmp_def b_def by (simp add: vfs_normalize_def canon_def)
  moreover have "NUL \<notin> set tmp"
  proof (cases "at p 0 = CHR ''/''")
    case False
    have "sformat 512 ''%s/%s'' [AStr (Some b), AStr (Some p)] =
        put_chars 512 (put_chars 512 [] (cstr b) @ ''/'') (cstr p) \<or>
      sformat 512 ''%s/%s'' [AStr (Some b), AStr (Some p)] = put_chars 512 [] (cstr b)"
      by (simp add: sformat_def snprintf_def directive_def emit_def put_chars_eq)
    moreover have "NUL \<notin> set (put_chars 512 (put_chars 512 [] (cstr b) @ ''/'') (cstr p))"
      "NUL \<notin> set (put_chars 512 [] (cstr b))"
      using NUL_notin_cstr [of b] NUL_notin_cstr [of p] by (auto simp: put_chars_eq dest: in_set_takeD simp del: NUL_notin_cstr)
    moreover have "tmp = sformat 512 ''%s/%s'' [AStr (Some b), AStr (Some p)]"
      using False by (simp only: tmp_def if_False)
    ultimately show ?thesis by (elim disjE) (simp_all only: simp_thms)
  qed (simp add: tmp_def)
  ultimately show ?thesis
    using norm_loop_canon [of mx tmp "[]" out] mx by (auto simp: canon_def)
qed

lemma path_pieces_slashed: "\<forall>c\<in>set cs. good_comp c \<Longrightarrow> path_pieces (slashed cs) = cs"
proof (induction cs)
  case Nil
  then show ?case by (subst path_pieces.simps) simp
next
  case (Cons c cs)
  then have g: "c \<noteq> []" "CHR ''/'' \<notin> set c" by (auto simp: good_comp_def)
  have h: "dropWhile (\<lambda>x. x \<noteq> CHR ''/'') (slashed cs) = slashed cs"
    by (cases cs) (simp_all add: slashed_def)
  have h2: "takeWhile (\<lambda>x. x \<noteq> CHR ''/'') (slashed cs) = []"
    by (cases cs) (simp_all add: slashed_def)
  have q: "dropWhile (\<lambda>x. x = CHR ''/'') (slashed (c # cs)) = c @ slashed cs"
    using g by (cases c) (auto simp: slashed_def)
  have t: "takeWhile (\<lambda>x. x \<noteq> CHR ''/'') (c @ slashed cs) = c"
    "dropWhile (\<lambda>x. x \<noteq> CHR ''/'') (c @ slashed cs) = slashed cs"
  proof -
    have "\<And>x. x \<in> set c \<Longrightarrow> x \<noteq> CHR ''/''" using g(2) by auto
    then show "takeWhile (\<lambda>x. x \<noteq> CHR ''/'') (c @ slashed cs) = c"
      "dropWhile (\<lambda>x. x \<noteq> CHR ''/'') (c @ slashed cs) = slashed cs"
      using h h2 by (simp_all add: takeWhile_append2 dropWhile_append2)
  qed
  show ?case using Cons g q t by (subst path_pieces.simps) (simp add: Let_def)
qed

lemma foldl_resolve_good: "\<forall>d\<in>set ds. good_comp d \<Longrightarrow> foldl resolve cs ds = cs @ ds"
  by (induction ds arbitrary: cs) (simp_all add: resolve_def good_comp_def Let_def)

lemma norm_step_good:
  assumes "\<forall>c\<in>set cs. good_comp c" "good_comp d" "length (canon (cs @ [d])) < mx"
  shows "norm_step mx (canon cs) d = Some (canon (cs @ [d]))"
proof -
  have d: "take 31 d = d" "cstr d = d" "d \<noteq> ''.''" "d \<noteq> ''..''"
    using assms(2) by (auto simp: good_comp_def cstr_id)
  have l: "strlen (canon cs) = length (canon cs)" by (simp add: strlen_cstr cstr_canon assms(1))
  show ?thesis
  proof (cases cs)
    case Nil
    then show ?thesis using d assms(3) by (simp add: norm_step_def Let_def canon_def)
  next
    case (Cons a as)
    have "a \<noteq> []" using assms(1) Cons by (simp add: good_comp_def)
    then have "1 < length (canon cs)" using Cons by (simp add: canon_def slashed_def)
    moreover have "canon (cs @ [d]) = canon cs @ CHR ''/'' # d"
      using Cons by (simp add: canon_def slashed_append del: append_Cons)
    ultimately show ?thesis using d l assms(3)
      by (simp add: norm_step_def Let_def)
  qed
qed

lemma norm_loop_good:
  "\<forall>c\<in>set (cs @ ds). good_comp c \<Longrightarrow> length (canon (cs @ ds)) < mx \<Longrightarrow>
    norm_loop mx (slashed ds) (canon cs) = Some (canon (cs @ ds))"
proof (induction ds arbitrary: cs)
  case Nil
  then show ?case by (subst norm_loop.simps) simp
next
  case (Cons d ds)
  have pp: "path_pieces (slashed (d # ds)) = d # ds" using Cons.prems(1) by (intro path_pieces_slashed) auto
  let ?q = "dropWhile (\<lambda>c. c = CHR ''/'') (slashed (d # ds))"
  have q: "?q \<noteq> []" "takeWhile (\<lambda>c. c \<noteq> CHR ''/'') ?q = d"
    using pp by (subst (asm) path_pieces.simps, simp add: Let_def split: if_splits)+
  have "d \<noteq> []" "CHR ''/'' \<notin> set d" using Cons.prems(1) by (auto simp: good_comp_def)
  then have qe: "?q = d @ slashed ds" by (cases d) (auto simp: slashed_def)
  have r: "dropWhile (\<lambda>c. c \<noteq> CHR ''/'') ?q = slashed ds"
  proof -
    have "\<And>x. x \<in> set d \<Longrightarrow> x \<noteq> CHR ''/''" using \<open>CHR ''/'' \<notin> set d\<close> by auto
    moreover have "dropWhile (\<lambda>c. c \<noteq> CHR ''/'') (slashed ds) = slashed ds"
      by (cases ds) (simp_all add: slashed_def)
    ultimately show ?thesis unfolding qe by (simp add: dropWhile_append2)
  qed
  have le: "length (canon (cs @ [d])) \<le> length (canon (cs @ d # ds))"
    by (simp add: canon_def slashed_append slashed_def)
  have s: "norm_step mx (canon cs) d = Some (canon (cs @ [d]))"
    by (rule norm_step_good) (use Cons.prems le in auto)
  have "norm_loop mx (slashed (d # ds)) (canon cs) = norm_loop mx (slashed ds) (canon (cs @ [d]))"
    using q r s by (subst norm_loop.simps) (simp only: Let_def if_False option.case)
  also have "\<dots> = Some (canon ((cs @ [d]) @ ds))" by (rule Cons.IH) (use Cons.prems in auto)
  finally show ?case by simp
qed

lemma vfs_normalize_id:
  assumes "\<forall>c\<in>set cs. good_comp c" "length (canon cs) < mx" "mx \<le> 512"
  shows "vfs_normalize cwd (Some (canon cs)) mx = Some (canon cs)"
proof -
  have c: "cstr (canon cs) = canon cs" "clip 511 (canon cs) = canon cs"
    using assms by (simp_all add: cstr_canon clip_id)
  have "at (canon cs) 0 = CHR ''/''" "canon cs \<noteq> []"
    by (cases cs, simp_all add: canon_def slashed_def at_def)+
  moreover have "norm_loop mx (canon cs) ''/'' = Some (canon cs)"
  proof (cases "cs = []")
    case True
    then show ?thesis by (subst norm_loop.simps) (simp add: canon_def)
  next
    case False
    then show ?thesis using norm_loop_good [of "[]" cs mx] assms by (simp add: canon_def)
  qed
  ultimately show ?thesis using c by (simp add: vfs_normalize_def Let_def)
qed

section \<open>The file system behind the policy\<close>

lemma norm_of_length: "norm_of cwd path = Some norm \<Longrightarrow> length (cstr norm) \<le> 255"
proof (cases "path = None \<or> cstr (the path) = []")
  case True
  assume "norm_of cwd path = Some norm"
  then have "norm = clip 255 (case cwd of None \<Rightarrow> ''/'' | Some c \<Rightarrow> c)"
    using True by (cases path) (simp_all add: norm_of_def vfs_normalize_def FS_NAME_MAX_def)
  then show ?thesis by simp
next
  case False
  assume n: "norm_of cwd path = Some norm"
  obtain p where "path = Some p" using False by (cases path) auto
  then obtain cs where "norm = canon cs" "length norm < 256"
    using vfs_normalize_canon [of cwd p 256 norm] n False by (auto simp: norm_of_def FS_NAME_MAX_def)
  then show ?thesis using length_cstr_le [of norm] by simp
qed

text \<open>What an allowed operation does to the kernel: nothing, or the ramfs operation
  on the normalised path.\<close>

lemma vfs_create_cases:
  assumes "vfs_create cwd path type k = (r, k')"
  obtains "r = -1" "k' = k"
  | norm f where "norm_of cwd path = Some norm" "vfs_check_cap norm CAP_FS_WRITE k"
      "fs_create (auth_user_index_current (k_auth k)) norm type (k_fs k) = (r, f)" "k' = k\<lparr>k_fs := f\<rparr>"
proof (cases "norm_of cwd path")
  case None
  then show ?thesis using assms that(1) by (simp add: vfs_create_def)
next
  case (Some norm)
  show ?thesis
  proof (cases "vfs_check_cap norm CAP_FS_WRITE k")
    case True
    obtain r1 f where f: "fs_create (auth_user_index_current (k_auth k)) norm type (k_fs k) = (r1, f)"
      by fastforce
    show ?thesis
      by (rule that(2) [OF Some True, of f]) (use assms Some True f in \<open>simp_all add: vfs_create_def\<close>)
  next
    case False
    then show ?thesis using assms Some that(1) by (simp add: vfs_create_def)
  qed
qed

lemma vfs_remove_cases:
  assumes "vfs_remove cwd path k = (r, k')"
  obtains "r = -1" "k' = k"
  | norm f s where "norm_of cwd path = Some norm" "vfs_check_cap norm CAP_FS_WRITE k"
      "fs_remove norm (k_fs k) (k_sys k) = (r, f, s)" "k' = k\<lparr>k_fs := f, k_sys := s\<rparr>"
proof (cases "norm_of cwd path")
  case None
  then show ?thesis using assms that(1) by (simp add: vfs_remove_def)
next
  case (Some norm)
  show ?thesis
  proof (cases "vfs_check_cap norm CAP_FS_WRITE k")
    case True
    obtain r1 f s where f: "fs_remove norm (k_fs k) (k_sys k) = (r1, f, s)" by (metis prod_cases3)
    show ?thesis
      by (rule that(2) [OF Some True, of f s]) (use assms Some True f in \<open>simp_all add: vfs_remove_def\<close>)
  next
    case False
    then show ?thesis using assms Some that(1) by (simp add: vfs_remove_def)
  qed
qed

lemma vfs_write_cases:
  assumes "vfs_write cwd path data k = (r, k')"
  obtains "r = -1" "k' = k"
  | norm where "norm_of cwd path = Some norm" "vfs_check_cap norm CAP_FS_WRITE k" "\<not> vfs_is_pseudo norm"
      "r = -1" "k' = k\<lparr>k_fs := snd (fs_create (auth_user_index_current (k_auth k)) norm TFile (k_fs k))\<rparr>"
      "fst (fs_create (auth_user_index_current (k_auth k)) norm TFile (k_fs k)) \<noteq> 0"
  | norm f f' s where "norm_of cwd path = Some norm" "vfs_check_cap norm CAP_FS_WRITE k" "\<not> vfs_is_pseudo norm"
      "f = k_fs k \<or> fs_create (auth_user_index_current (k_auth k)) norm TFile (k_fs k) = (0, f)"
      "fs_write norm data f (k_sys k) = (r, f', s)" "k' = k\<lparr>k_fs := f', k_sys := s\<rparr>"
proof (cases "norm_of cwd path")
  case None
  then show ?thesis using assms that(1) by (simp add: vfs_write_def)
next
  case (Some norm)
  let ?c = "fs_create (auth_user_index_current (k_auth k)) norm TFile (k_fs k)"
  show ?thesis
  proof (cases "vfs_check_cap norm CAP_FS_WRITE k \<and> \<not> vfs_is_pseudo norm")
    case False
    then show ?thesis using assms Some that(1) by (auto simp: vfs_write_def split: if_splits)
  next
    case True
    obtain r1 f1 where c: "?c = (r1, f1)" by fastforce
    show ?thesis
    proof (cases "fs_exists norm (k_fs k) \<or> r1 = 0")
      case False
      then show ?thesis
        using assms Some True c by (intro that(2) [OF Some]) (auto simp: vfs_write_def)
    next
      case e: True
      let ?f = "if fs_exists norm (k_fs k) then k_fs k else f1"
      obtain r2 f2 s2 where w: "fs_write norm data ?f (k_sys k) = (r2, f2, s2)" by (metis prod_cases3)
      have "vfs_write cwd path data k = (r2, k\<lparr>k_fs := f2, k_sys := s2\<rparr>)"
        using Some True e c w by (auto simp: vfs_write_def split: if_splits)
      then show ?thesis
        using assms Some True e c w by (intro that(3) [OF Some, of ?f f2 s2]) auto
    qed
  qed
qed

lemma vfs_pair_cases:
  assumes "vfs_pair op cwd src dst k = (r, k')"
  obtains "r = -1" "k' = k"
  | nsrc ndst f s where "norm_of cwd src = Some nsrc" "norm_of cwd dst = Some ndst"
      "vfs_check_cap nsrc CAP_FS_READ k" "vfs_check_cap ndst CAP_FS_WRITE k"
      "op nsrc ndst (k_fs k) (k_sys k) = (r, f, s)" "k' = k\<lparr>k_fs := f, k_sys := s\<rparr>"
proof (cases "\<exists>nsrc ndst. norm_of cwd src = Some nsrc \<and> norm_of cwd dst = Some ndst \<and>
    vfs_check_cap nsrc CAP_FS_READ k \<and> vfs_check_cap ndst CAP_FS_WRITE k")
  case True
  then obtain a b where n: "norm_of cwd src = Some a" "norm_of cwd dst = Some b"
    "vfs_check_cap a CAP_FS_READ k" "vfs_check_cap b CAP_FS_WRITE k" by blast
  obtain r1 f s where f: "op a b (k_fs k) (k_sys k) = (r1, f, s)" by (metis prod_cases3)
  show ?thesis
    by (rule that(2) [OF n, of f s]) (use assms n f in \<open>simp_all add: vfs_pair_def\<close>)
next
  case False
  then show ?thesis
    using assms that(1) by (auto simp: vfs_pair_def split: option.splits if_splits)
qed

lemma vfs_tree_ok:
  assumes t: "tree_ok (k_fs k)"
  shows "vfs_create cwd p type k = (r, k') \<Longrightarrow> tree_ok (k_fs k')"
    "vfs_write cwd p data k = (r, k') \<Longrightarrow> tree_ok (k_fs k')"
    "vfs_remove cwd p k = (r, k') \<Longrightarrow> tree_ok (k_fs k')"
proof -
  note cr = tree_ok_create [OF t norm_of_length]
  show "vfs_create cwd p type k = (r, k') \<Longrightarrow> tree_ok (k_fs k')"
    by (erule vfs_create_cases) (use t cr in auto)
  show "vfs_remove cwd p k = (r, k') \<Longrightarrow> tree_ok (k_fs k')"
    by (erule vfs_remove_cases) (use t tree_ok_remove [OF t] in auto)
  assume "vfs_write cwd p data k = (r, k')"
  then show "tree_ok (k_fs k')"
  proof (cases rule: vfs_write_cases)
    case (2 norm)
    then show ?thesis using cr [OF 2(1)] by (cases "fs_create (auth_user_index_current (k_auth k)) norm TFile (k_fs k)") auto
  next
    case (3 norm f f' s)
    have "tree_ok f" using 3(4) t cr [OF 3(1)] by auto
    then show ?thesis using tree_ok_write [OF _ 3(5)] 3(6) by simp
  qed (use t in simp)
qed

text \<open>A path the policy refuses is never written, created or removed.\<close>

lemma vfs_refused:
  assumes "norm_of cwd path = Some norm" "\<not> vfs_check_cap norm CAP_FS_WRITE k"
  shows "vfs_write cwd path data k = (-1, k)" "vfs_create cwd path type k = (-1, k)"
    "vfs_remove cwd path k = (-1, k)"
  using assms by (simp_all add: vfs_write_def vfs_create_def vfs_remove_def)

lemma vfs_copy_tree_ok:
  assumes t: "tree_ok (k_fs k)"
  shows "vfs_copy cwd src dst k = (r, k') \<Longrightarrow> tree_ok (k_fs k')"
    "vfs_move cwd src dst k = (r, k') \<Longrightarrow> tree_ok (k_fs k')"
proof -
  let ?o = "auth_user_index_current (k_auth k)"
  have c: "tree_ok f'" if "length (cstr d) \<le> 255" "fs_copy ?o a d (k_fs k) s = (r', f', s')" for a d r' f' s s'
  proof -
    let ?s = "(k_fs k, s)"
    have e: "files.copy ?o a d ?s = (r', f', s')" using that(2) by (simp add: fs_copy_files)
    have "\<exists>q. cstr q \<noteq> cstr d"
      by (rule exI [of _ "if cstr d = [] then ''x'' else []"]) simp
    then show ?thesis
      using files.copy_frame(1) [of ?s d ?o a r' "(f', s')"] t that(1) e by auto
  qed
  have m: "tree_ok f'" if "length (cstr d) \<le> 255" "fs_move ?o a d (k_fs k) s = (r', f', s')" for a d r' f' s s'
  proof -
    obtain r1 f1 s1 where 1: "fs_copy ?o a d (k_fs k) s = (r1, f1, s1)" by (metis prod_cases3)
    note T = c [OF that(1) 1]
    show ?thesis using that(2) 1 T tree_ok_remove [OF T] by (auto simp: fs_move_def split: if_splits)
  qed
  show "vfs_copy cwd src dst k = (r, k') \<Longrightarrow> tree_ok (k_fs k')"
    unfolding vfs_copy_def by (erule vfs_pair_cases) (use t in simp, simp add: c [OF norm_of_length])
  show "vfs_move cwd src dst k = (r, k') \<Longrightarrow> tree_ok (k_fs k')"
    unfolding vfs_move_def by (erule vfs_pair_cases) (use t in simp, simp add: m [OF norm_of_length])
qed

section \<open>Properties\<close>

lemma canon_a: "canon [''a''] = ''/a''" "canon [''b''] = ''/b''" "good_comp ''a''" "good_comp ''b''"
  by (simp_all add: canon_def slashed_def good_comp_def)

lemma norm_a: "norm_of cwd (Some ''/a'') = Some ''/a''" "norm_of cwd (Some ''/b'') = Some ''/b''"
  using vfs_normalize_id [of "[''a'']" FS_NAME_MAX cwd] vfs_normalize_id [of "[''b'']" FS_NAME_MAX cwd] canon_a
  by (simp_all add: norm_of_def FS_NAME_MAX_def)

text \<open>Normalising an absolute path resolves its components one after the other, each cut to 31
  characters, \<open>.\<close> skipped and \<open>..\<close> dropping the last one but never leaving the root.\<close>

theorem normalize_resolves:
  assumes "vfs_normalize cwd (Some p) mx = Some out" "at p 0 = CHR ''/''" "1 < mx"
  shows "out = canon (foldl resolve [] (path_pieces (clip 511 p)))"
proof -
  have ne: "cstr p \<noteq> []" using assms(2) by (cases p) (auto simp: at_def)
  have l: "norm_loop mx (clip 511 p) (canon []) = Some out"
    using assms(1,2) ne by (simp add: vfs_normalize_def canon_def)
  have "NUL \<notin> set (clip 511 p)" using set_take_subset [of 511 "cstr p"] by (auto simp: clip_def)
  then show ?thesis using norm_loop_canon [OF l] assms(3) by (simp add: canon_def)
qed

lemma normalize_resolves_witness:
  "vfs_normalize None (Some ''/b'') 256 = Some (canon (foldl resolve [] (path_pieces ''/b'')))"
proof -
  have e: "vfs_normalize None (Some ''/b'') 256 = Some ''/b''"
    using norm_a(2) [of None] by (simp add: norm_of_def FS_NAME_MAX_def)
  from normalize_resolves [OF e] show ?thesis unfolding e by (simp add: at_def clip_def cstr_def)
qed

text \<open>C19. What normalisation returns is canonical: an absolute path without empty components, \<open>.\<close> or \<open>..\<close>,
  shorter than the buffer, and normalising it again, from any directory, gives it back.\<close>

theorem normalize_idempotent:
  assumes "vfs_normalize cwd (Some p) mx = Some out" "cstr p \<noteq> []" "1 < mx" "mx \<le> 512"
  shows "vfs_normalize cwd' (Some out) mx = Some out \<and> length out < mx \<and>
    (\<exists>cs. out = canon cs \<and> (\<forall>c\<in>set cs. good_comp c))"
  using vfs_normalize_canon [OF assms(1,2,3)] vfs_normalize_id [OF _ _ assms(4)] by blast

lemma normalize_idempotent_witness: "vfs_normalize (Some ''/b'') (Some ''/a'') 256 = Some ''/a''"
proof -
  have e: "vfs_normalize None (Some ''/a'') 256 = Some ''/a''"
    using norm_a(1) [of None] by (simp add: norm_of_def FS_NAME_MAX_def)
  from normalize_idempotent [OF e] show ?thesis by simp
qed

text \<open>C20. The three writing operations of the file layer respect the contracts: when \<open>vfs_write\<close>,
  \<open>vfs_create\<close> or \<open>vfs_remove\<close> changes anything on a path that a contract guards, the
  contract was consented to and allows writing.  It says nothing of \<open>vfs_move\<close>, which removes its source with the
  right to read, nor of the editor, which goes past this layer (\<open>edit_ignores_contract\<close> in theory Shell).\<close>

theorem contract_guards_writes:
  assumes "norm_of cwd path = Some norm" "synallagma_contract_for norm (k_pact k) = Some i"
    "snd (vfs_write cwd path data k) \<noteq> k \<or> snd (vfs_create cwd path type k) \<noteq> k \<or>
     snd (vfs_remove cwd path k) \<noteq> k"
  shows "ct_escrita (ct_list (k_pact k) ! i) \<and>
    synallagma_consented (ct_caminho (ct_list (k_pact k) ! i)) (k_pact k)"
proof -
  have c: "vfs_check_cap norm CAP_FS_WRITE k"
  proof (rule ccontr)
    assume "\<not> vfs_check_cap norm CAP_FS_WRITE k"
    from vfs_refused [OF assms(1) this] assms(3) show False by simp
  qed
  have "CAP_FS_WRITE AND (CAP_FS_WRITE OR CAP_IDIOS_WRITE OR CAP_NOMOS_WRITE) \<noteq> 0"
    by (simp add: CAP_FS_WRITE_def CAP_IDIOS_WRITE_def CAP_NOMOS_WRITE_def)
  then show ?thesis using c assms(2) by (simp add: vfs_check_cap_def Let_def split: if_splits)
qed

text \<open>A contract on \<open>/a\<close> that allows reading only, consented to.\<close>

definition read_only_kern :: kern where
  "read_only_kern = demo_kern\<lparr>k_sys := heap_sys, k_pact :=
     \<lparr>ct_list = [clear_contract\<lparr>ct_caminho := ''/a'', ct_ativo := True, ct_leitura := True\<rparr>],
      ct_consented = True # replicate 31 False\<rparr>\<rparr>"

definition writable_kern :: kern where
  "writable_kern = demo_kern\<lparr>k_pact :=
     \<lparr>ct_list = [clear_contract\<lparr>ct_caminho := ''/a'', ct_ativo := True, ct_escrita := True\<rparr>],
      ct_consented = True # replicate 31 False\<rparr>\<rparr>"

lemma guard_simps:
  "synallagma_contract_for ''/a'' (k_pact read_only_kern) = Some 0"
  "synallagma_contract_for ''/b'' (k_pact read_only_kern) = None"
  "synallagma_contract_for ''/a'' (k_pact writable_kern) = Some 0"
  "synallagma_consented ''/a'' (k_pact read_only_kern)"
  "synallagma_consented ''/a'' (k_pact writable_kern)"
  by (simp_all add: read_only_kern_def writable_kern_def synallagma_contract_for_def guards_def Let_def
      strlen_cstr strncmp_iff cstr_def at_def synallagma_consented_def consent_get_def MAX_CONTRACTS_def)

lemma contract_guards_writes_witness: "ct_escrita (ct_list (k_pact writable_kern) ! 0)"
proof -
  have c: "vfs_check_cap ''/a'' CAP_FS_WRITE writable_kern"
    using guard_simps(3,5) by (simp add: vfs_check_cap_def Let_def CAP_FS_WRITE_def CAP_IDIOS_WRITE_def CAP_NOMOS_WRITE_def)
      (simp add: writable_kern_def clear_contract_def)
  have "\<not> vfs_is_pseudo ''/a''" by (simp add: vfs_is_pseudo_def in_folder_def strncmp_iff cstr_def)
  moreover have "fs_exists ''/a'' one_file" "fs_get ''/a'' one_file = Some 0"
    by (simp_all add: fs_exists_def fs_get_def one_file_def cstr_def)
  moreover have "fst (snd (fs_write ''/a'' ''yes'' one_file two_procs)) \<noteq> one_file"
    by (simp add: fs_write_def \<open>fs_get ''/a'' one_file = Some 0\<close> FS_MAX_DATA_def)
      (simp add: one_file_def fs_upd_def)
  moreover have wk: "k_fs writable_kern = one_file" "k_sys writable_kern = two_procs"
    by (simp_all add: writable_kern_def demo_kern_def)
  moreover obtain r f s where "fs_write ''/a'' ''yes'' one_file two_procs = (r, f, s)" by (metis prod_cases3)
  ultimately have "k_fs (snd (vfs_write None (Some ''/a'') ''yes'' writable_kern)) \<noteq> k_fs writable_kern"
    using c by (simp add: vfs_write_def norm_a)
  then have "snd (vfs_write None (Some ''/a'') ''yes'' writable_kern) \<noteq> writable_kern" by auto
  from contract_guards_writes [OF norm_a(1) guard_simps(3) disjI1 [OF this]] show ?thesis by blast
qed

text \<open>A move asks only to read its source.  A file that its contract protects against writing,
  so that a write and a removal are refused, is removed by moving it elsewhere.\<close>

theorem move_removes_protected:
  "vfs_write None (Some ''/a'') data read_only_kern = (-1, read_only_kern) \<and>
   vfs_remove None (Some ''/a'') read_only_kern = (-1, read_only_kern) \<and>
   fst (vfs_move None (Some ''/a'') (Some ''/b'') read_only_kern) = 0 \<and>
   fs_get ''/a'' (k_fs (snd (vfs_move None (Some ''/a'') (Some ''/b'') read_only_kern))) = None"
proof -
  let ?k = read_only_kern
  have w: "\<not> vfs_check_cap ''/a'' CAP_FS_WRITE ?k"
    using guard_simps(1,4) by (simp add: vfs_check_cap_def Let_def CAP_FS_WRITE_def CAP_IDIOS_WRITE_def CAP_NOMOS_WRITE_def)
      (simp add: read_only_kern_def clear_contract_def)
  have ra: "vfs_check_cap ''/a'' CAP_FS_READ ?k"
    using guard_simps(1,4) by (simp add: vfs_check_cap_def Let_def CAP_FS_READ_def CAP_FS_WRITE_def CAP_IDIOS_WRITE_def CAP_NOMOS_WRITE_def)
      (simp add: read_only_kern_def clear_contract_def)
  have wb: "vfs_check_cap ''/b'' CAP_FS_WRITE ?k"
    using guard_simps(2) by (simp add: vfs_check_cap_def Let_def in_folder_def strncmp_iff cstr_def)
  have k: "k_fs ?k = one_file" "k_sys ?k = heap_sys" by (simp_all add: read_only_kern_def demo_kern_def)
  let ?o = "auth_user_index_current (k_auth ?k)"
  obtain f s where c: "fs_copy ?o ''/a'' ''/b'' one_file heap_sys = (0, f, s)" using copy_hi by blast
  have l: "length (cstr ''/b'') \<le> 255" by (simp add: cstr_def)
  have t: "tree_ok (fst (one_file, heap_sys))" using one_file_ok by simp
  from files.copy_ok [OF t l c [unfolded fs_copy_files]]
  obtain ty d where C: "ty \<noteq> TDir" "fs_look (one_file, heap_sys) ''/a'' = Some (ty, d)" "tree_ok f"
     "fs_look (f, s) ''/a'' = Some (ty, d)"
    by (auto simp: cstr_def)
  then obtain i where i: "fs_get ''/a'' f = Some i" "f_type (fs_nodes f ! i) \<noteq> TDir"
    by (auto simp: fs_look_def node_at_def)
  then obtain f2 s2 where r: "fs_remove ''/a'' f s = (0, f2, s2)"
    by (simp add: fs_remove_def Let_def cstr_def)
  have "fs_get ''/a'' f2 = None"
    using fs_remove_spec(2) [OF _ r, of "''/a''"] C(3) by (simp add: tree_ok_def node_at_def)
  moreover have "vfs_move None (Some ''/a'') (Some ''/b'') ?k = (0, ?k\<lparr>k_fs := f2, k_sys := s2\<rparr>)"
    by (simp add: vfs_move_def vfs_pair_def norm_a ra wb k fs_move_def c r)
  ultimately show ?thesis using vfs_refused [OF norm_a(1) w] by simp
qed

end
