(* ===== verification/Exec.thy ===== *)
theory Exec
  imports Vfs
begin

unbundle bit_operations_syntax

text \<open>
  Running programs: the ELF64 loader (src/kernel/elf.c), the embedded flat
  applications (src/kernel/apps.c), and the script runner and line editor
  (src/kernel/exec.c).

  A read outside the image is \<open>ElfFault\<close>; the offsets are 64-bit values that
  wrap like those of the code.  The table of embedded modules and the sizes of
  the embedded applications are arguments.
\<close>

section \<open>The ELF header\<close>

definition in_image :: "string \<Rightarrow> u64 \<Rightarrow> nat \<Rightarrow> bool" where
  "in_image img off n \<longleftrightarrow> unat off + n \<le> length img"

text \<open>\<open>n\<close> bytes at \<open>off\<close>, least significant first.\<close>

fun le_bytes :: "string \<Rightarrow> nat \<Rightarrow> nat \<Rightarrow> u64" where
  "le_bytes img off 0 = 0"
| "le_bytes img off (Suc n) =
    of_nat (of_char (at img off)) OR push_bit 8 (le_bytes img (Suc off) n)"

definition u64_at :: "string \<Rightarrow> u64 \<Rightarrow> u64" where "u64_at img off = le_bytes img (unat off) 8"
definition u32_at :: "string \<Rightarrow> u64 \<Rightarrow> u64" where "u32_at img off = le_bytes img (unat off) 4"
definition u16_at :: "string \<Rightarrow> u64 \<Rightarrow> u64" where "u16_at img off = le_bytes img (unat off) 2"

datatype elf_res = ElfBad | ElfFault | ElfOk u64 "(u64 \<times> ureg) list"

text \<open>The walk over the program headers, from index \<open>i\<close>: the file offset and the
  region of each loadable segment, at most seven.\<close>

function elf_phdrs :: "string \<Rightarrow> u64 \<Rightarrow> u64 \<Rightarrow> u64 \<Rightarrow> nat \<Rightarrow> nat \<Rightarrow> (u64 \<times> ureg) list \<Rightarrow> elf_res" where
  "elf_phdrs img entry phoff phentsz phnum i acc =
    (if phnum \<le> i then (if acc = [] then ElfBad else ElfOk entry acc)
     else
       let ph = phoff + of_nat i * phentsz in
       if \<not> in_image img ph 4 then ElfFault
       else if u32_at img ph \<noteq> 1 then elf_phdrs img entry phoff phentsz phnum (Suc i) acc
       else if \<not> in_image img ph 56 then ElfFault
       else
         let poff = u64_at img (ph + 8); pvaddr = u64_at img (ph + 16);
             pfilesz = u64_at img (ph + 32); pmemsz = u64_at img (ph + 40);
             acc' = acc @ [(poff, \<lparr>r_vaddr = pvaddr, r_fileSz = pfilesz, r_memSz = pmemsz,
                                   r_flags = u32_at img (ph + 4)\<rparr>)]
         in if of_nat (length img) < poff + pfilesz then ElfBad
            else if 0xffff800000000000 \<le> pvaddr then ElfBad
            else if 7 \<le> length acc' then ElfOk entry acc'
            else elf_phdrs img entry phoff phentsz phnum (Suc i) acc')"
  by pat_completeness auto
termination
  by (relation "measure (\<lambda>(img, entry, phoff, phentsz, phnum, i, acc). phnum - i)") auto

declare elf_phdrs.simps [simp del]

definition elf_parse :: "string \<Rightarrow> elf_res" where
  "elf_parse img =
    (if length img < 64 then ElfBad
     else if at img 0 \<noteq> CHR 0x7F \<or> at img 1 \<noteq> CHR ''E'' \<or> at img 2 \<noteq> CHR ''L'' \<or> at img 3 \<noteq> CHR ''F''
       then ElfBad
     else if at img 4 \<noteq> CHR 0x02 then ElfBad
     else if at img 5 \<noteq> CHR 0x01 then ElfBad
     else
       let machine = u16_at img 18; entry = u64_at img 24; phoff = u64_at img 32;
           phentsz = u16_at img 54; phnum = u16_at img 56
       in if machine \<noteq> 0x3E then ElfBad
          else if phnum = 0 then ElfBad
          else if phentsz < 56 then ElfBad
          else if of_nat (length img) < phoff + phnum * phentsz then ElfBad
          else elf_phdrs img entry phoff phentsz (unat phnum) 0 [])"

section \<open>Loading\<close>

definition child_rights :: "kern \<Rightarrow> u64" where
  "child_rights k =
    (let base = CAP_SYSCALL OR CAP_FS_READ OR CAP_FS_WRITE OR CAP_EXEC OR CAP_IPC in
     case (login_result_user (k_auth k), current_proc k) of
       (Some _, Some p) \<Rightarrow> base OR p_rights p
     | _ \<Rightarrow> base)"

text \<open>The status, the pid, and the kernel afterwards; \<open>hbuf\<close> is the heap address
  of the image, if it is to be freed.  \<^const>\<open>None\<close>: a read outside the image.\<close>

definition exec_elf_core ::
  "string \<Rightarrow> string \<Rightarrow> string option list \<Rightarrow> u64 option \<Rightarrow> kern \<Rightarrow> (int \<times> u32 \<times> kern) option" where
  "exec_elf_core pname img args hbuf k =
    (let release = (\<lambda>s. case hbuf of None \<Rightarrow> s | Some a \<Rightarrow> sys_kfree a s) in
     case elf_parse img of
       ElfFault \<Rightarrow> None
     | ElfBad \<Rightarrow> Some (-1, 0, k\<lparr>k_sys := release (k_sys k)\<rparr>)
     | ElfOk entry regs \<Rightarrow>
        (case proc_create_user_regions (Some pname) (child_rights k) entry (map snd regs) args (k_sys k) of
           (pid, s) \<Rightarrow>
             let k = k\<lparr>k_sys := release s\<rparr> in
             Some (if pid \<le> 0 then (-1, 0, k) else (0, of_int pid, k))))"

definition base_name :: "string \<Rightarrow> string" where
  "base_name path = (case strrchr path (CHR ''/'') of None \<Rightarrow> path | Some i \<Rightarrow> drop (i + 1) path)"

definition exec_elf_args :: "string option \<Rightarrow> string option list \<Rightarrow> kern \<Rightarrow> (int \<times> u32 \<times> kern) option" where
  "exec_elf_args path args k =
    (if path = None \<or> cstr (the path) = [] then Some (-1, 0, k)
     else case sys_kmalloc (push_bit 20 1) (k_sys k) of (img, s) \<Rightarrow>
       let k = k\<lparr>k_sys := s\<rparr> in
       if img = 0 then Some (-1, 0, k)
       else case fs_read (the path) (2 ^ 20) (k_fs k) of
         None \<Rightarrow> Some (-1, 0, k\<lparr>k_sys := sys_kfree img s\<rparr>)
       | Some d \<Rightarrow>
          if length d < 64 then Some (-1, 0, k\<lparr>k_sys := sys_kfree img s\<rparr>)
          else exec_elf_core (clip 63 (base_name (the path))) d args (Some img) k)"

abbreviation exec_elf :: "string option \<Rightarrow> kern \<Rightarrow> (int \<times> u32 \<times> kern) option" where
  "exec_elf path k \<equiv> exec_elf_args path [] k"

definition exec_embedded_args ::
  "mod_rec list \<Rightarrow> string option \<Rightarrow> string option list \<Rightarrow> kern \<Rightarrow> (int \<times> u32 \<times> kern) option" where
  "exec_embedded_args mods name args k =
    (if name = None \<or> cstr (the name) = [] then Some (-1, 0, k)
     else case first_index (\<lambda>m. streq (the name) (md_name m)) mods of
       None \<Rightarrow> Some (-1, 0, k)
     | Some i \<Rightarrow>
        if length (md_elf (mods ! i)) < 64 then Some (-1, 0, k)
        else exec_elf_core (clip 63 (the name)) (md_elf (mods ! i)) args None k)"

text \<open>A path directly in one of the system folders: the folder and the name.\<close>

definition sys_module :: "string \<Rightarrow> string option" where
  "sys_module path =
    map_option (\<lambda>d. drop (length d) path)
      (find (\<lambda>d. strncmp path d (length d) = 0 \<and> at path (length d) \<noteq> NUL \<and>
          strchr (drop (length d) path) (CHR ''/'') = None) [''/bin/'', ''/kormi/'', ''/praxis/''])"

definition exec_user_path ::
  "mod_rec list \<Rightarrow> string option \<Rightarrow> string option list \<Rightarrow> kern \<Rightarrow> (int \<times> u32 \<times> kern) option" where
  "exec_user_path mods path args k =
    (if path = None \<or> cstr (the path) = [] then Some (-1, 0, k)
     else
       let p = the path;
           via_fs = (\<lambda>k. if \<not> fs_exists p (k_fs k) then Some (-1, 0, k)
                         else if \<not> vfs_check_cap p CAP_FS_READ k then Some (-1, 0, k)
                         else exec_elf_args path args k)
       in case sys_module p of
            None \<Rightarrow> via_fs k
          | Some name \<Rightarrow>
             (case exec_embedded_args mods (Some name) args k of
                None \<Rightarrow> None
              | Some (r, pid, k) \<Rightarrow> if r = 0 then Some (r, pid, k) else via_fs k))"

section \<open>Embedded applications\<close>

definition APPS_USER_VADDR :: u64 where "APPS_USER_VADDR = 0x200000000000"

definition app_names :: "string list" where
  "app_names = [''fetch'', ''mem'', ''echo'', ''ps'', ''ls'', ''cat'']"

definition apps_spawn_idx :: "(string \<Rightarrow> nat) \<Rightarrow> nat \<Rightarrow> string option list \<Rightarrow> sys \<Rightarrow> int \<times> sys" where
  "apps_spawn_idx img_size idx args s =
    proc_create_user_args (Some (app_names ! idx)) (CAP_SYSCALL OR CAP_FS_READ) APPS_USER_VADDR
      (img_size (app_names ! idx)) args s"

definition apps_lookup_name :: "string \<Rightarrow> nat option" where
  "apps_lookup_name name = (if cstr name = [] then None else first_index (\<lambda>a. streq a name) app_names)"

text \<open>The status and the pid stored.\<close>

definition apps_try_run_args ::
  "(string \<Rightarrow> nat) \<Rightarrow> string option \<Rightarrow> string option list \<Rightarrow> sys \<Rightarrow> int \<times> u32 \<times> sys" where
  "apps_try_run_args img_size path args s =
    (case path of
       None \<Rightarrow> (0, 0, s)
     | Some p \<Rightarrow>
        if cstr p = [] then (0, 0, s)
        else case apps_lookup_name (base_name p) of
          None \<Rightarrow> (0, 0, s)
        | Some i \<Rightarrow>
           (case apps_spawn_idx img_size i args s of
              (pid, s) \<Rightarrow> (if 0 \<le> pid then 1 else pid, of_int pid, s)))"

definition apps_spawn_fetch :: "(string \<Rightarrow> nat) \<Rightarrow> sys \<Rightarrow> int \<times> sys" where
  "apps_spawn_fetch img_size s = apps_spawn_idx img_size 0 [] s"

section \<open>Scripts and the editor\<close>

text \<open>A line of a script: at most 255 characters, the rest is the next line.\<close>

function script_lines :: "string \<Rightarrow> string list" where
  "script_lines p =
    (if p = [] then []
     else let l = take 255 (takeWhile (\<lambda>c. c \<noteq> LF) p); r = drop (length l) p
          in l # script_lines (if r \<noteq> [] \<and> hd r = LF then tl r else r))"
  by pat_completeness auto
termination
proof (relation "measure length")
  fix p l r :: string
  assume p: "p \<noteq> []" and l: "l = take 255 (takeWhile (\<lambda>c. c \<noteq> LF) p)" and r: "r = drop (length l) p"
  show "((if r \<noteq> [] \<and> hd r = LF then tl r else r), p) \<in> measure length"
  proof (cases "l = []")
    case True
    then have "hd p = LF" using p l by (cases p) (auto split: if_splits)
    then show ?thesis using True p r by simp
  next
    case False
    then have "length r < length p" using p r by (cases p) (cases l, auto)
    then show ?thesis by (auto simp: less_imp_diff_less)
  qed
qed simp

declare script_lines.simps [simp del]

datatype script_out = Echo string | ClearScreen | Unknown string

definition script_line :: "string \<Rightarrow> script_out option" where
  "script_line line =
    (let s = dropWhile (\<lambda>c. c = CHR '' '') line in
     if s = [] \<or> hd s = CHR ''#'' then None
     else if strncmp s ''echo '' 5 = 0 then Some (Echo (drop 5 s))
     else if streq s ''clear'' \<or> streq s ''cls'' then Some ClearScreen
     else Some (Unknown (sformat 280 (''  script: %s'' @ [LF]) [AStr (Some s)])))"

definition exec_file_args ::
  "string \<Rightarrow> string option list \<Rightarrow> kern \<Rightarrow> (int \<times> script_out list \<times> kern) option" where
  "exec_file_args path args k =
    (let full = clip 255 path in
     case fs_read full 4 (k_fs k) of
       None \<Rightarrow> Some (-1, [], k)
     | Some hdr \<Rightarrow>
        if length hdr < 4 then Some (-1, [], k)
        else if hdr = CHR 0x7F # ''ELF'' then
          map_option (\<lambda>(r, pid, k). (r, [], k)) (exec_elf_args (Some full) args k)
        else case fs_read full 2047 (k_fs k) of
          None \<Rightarrow> Some (-1, [], k)
        | Some d \<Rightarrow> Some (0, List.map_filter script_line (script_lines (cstr d)), k))"

text \<open>The lines the editor keeps, up to an empty line, a dot, or a full buffer.
  \<^const>\<open>None\<close>: the editor waits for a line.\<close>

fun edit_lines :: "string \<Rightarrow> string list \<Rightarrow> (string \<times> string list) option" where
  "edit_lines out [] = (if length out < 2048 - 256 then None else Some (out, []))"
| "edit_lines out (l # ls) =
    (if \<not> length out < 2048 - 256 then Some (out, l # ls)
     else if streq l ''.'' \<or> strlen l = 0 then Some (out, ls)
     else if 2048 \<le> length out + strlen l + 1 then Some (out, ls)
     else edit_lines (out @ cstr l @ [LF]) ls)"

definition edit_file :: "string \<Rightarrow> string list \<Rightarrow> kern \<Rightarrow> (bool \<times> kern \<times> string list) option" where
  "edit_file path ins k =
    (let full = clip 255 path;
         (r, f) = (if fs_read full 2047 (k_fs k) \<noteq> None then (0, k_fs k)
                   else fs_create (auth_user_index_current (k_auth k)) full TFile (k_fs k))
     in if r \<noteq> 0 then Some (False, k\<lparr>k_fs := f\<rparr>, ins)
        else case edit_lines [] ins of
          None \<Rightarrow> None
        | Some (out, rest) \<Rightarrow>
           if out = [] then Some (False, k\<lparr>k_fs := f\<rparr>, rest)
           else (case fs_write full out f (k_sys k) of
                   (w, f, s) \<Rightarrow> Some (w = 0, k\<lparr>k_fs := f, k_sys := s\<rparr>, rest)))"

section \<open>What a parsed image guarantees\<close>

definition elf_hdr_phoff :: "string \<Rightarrow> u64" where "elf_hdr_phoff img = u64_at img 32"
definition elf_hdr_phentsz :: "string \<Rightarrow> u64" where "elf_hdr_phentsz img = u16_at img 54"
definition elf_hdr_phnum :: "string \<Rightarrow> u64" where "elf_hdr_phnum img = u16_at img 56"

text \<open>A segment as the loader hands it on.\<close>

definition seg_ok :: "string \<Rightarrow> u64 \<times> ureg \<Rightarrow> bool" where
  "seg_ok img s \<longleftrightarrow> fst s + r_fileSz (snd s) \<le> of_nat (length img) \<and>
    r_vaddr (snd s) < 0xffff800000000000"

lemma elf_phdrs_ok:
  assumes "elf_phdrs img entry phoff phentsz phnum i acc = ElfOk e regs"
    "length acc < 7" "\<forall>s\<in>set acc. seg_ok img s"
  shows "e = entry \<and> regs \<noteq> [] \<and> length regs \<le> 7 \<and> (\<forall>s\<in>set regs. seg_ok img s)"
  using assms
proof (induction img entry phoff phentsz phnum i acc rule: elf_phdrs.induct)
  case (1 img entry phoff phentsz phnum i acc)
  let ?ph = "phoff + of_nat i * phentsz"
  let ?acc = "acc @ [(u64_at img (?ph + 8), \<lparr>r_vaddr = u64_at img (?ph + 16), r_fileSz = u64_at img (?ph + 32),
      r_memSz = u64_at img (?ph + 40), r_flags = u32_at img (?ph + 4)\<rparr>)]"
  show ?case
  proof (cases "phnum \<le> i")
    case True
    then show ?thesis using "1.prems" by (subst (asm) elf_phdrs.simps) (auto split: if_splits)
  next
    case False
    show ?thesis
    proof (cases "u32_at img ?ph = 1")
      case no: False
      have "elf_phdrs img entry phoff phentsz phnum (Suc i) acc = ElfOk e regs"
        using "1.prems"(1) False no by (subst (asm) elf_phdrs.simps) (simp add: Let_def split: if_splits)
      moreover have "in_image img ?ph 4"
        using "1.prems"(1) False by (subst (asm) elf_phdrs.simps) (simp add: Let_def split: if_splits)
      ultimately show ?thesis using "1.IH"(1) [OF False refl _ no _ "1.prems"(2,3)] by simp
    next
      case ld: True
      have c: "in_image img ?ph 4" "in_image img ?ph 56"
        "\<not> of_nat (length img) < u64_at img (?ph + 8) + u64_at img (?ph + 32)"
        "\<not> 0xffff800000000000 \<le> u64_at img (?ph + 16)"
        using "1.prems"(1) False ld
        by (subst (asm) elf_phdrs.simps, simp add: Let_def split: if_splits)+
      have ok: "\<forall>s\<in>set ?acc. seg_ok img s" using "1.prems"(3) c(3,4) by (auto simp: seg_ok_def not_less not_le)
      show ?thesis
      proof (cases "7 \<le> length ?acc")
        case True
        then have "ElfOk entry ?acc = ElfOk e regs"
          using "1.prems"(1) False ld c by (subst (asm) elf_phdrs.simps) (simp add: Let_def)
        then show ?thesis using ok "1.prems"(2) by auto
      next
        case less: False
        then have "elf_phdrs img entry phoff phentsz phnum (Suc i) ?acc = ElfOk e regs"
          using "1.prems"(1) False ld c by (subst (asm) elf_phdrs.simps) (simp add: Let_def)
        then show ?thesis
          using "1.IH"(2) [OF False refl _ _ _ refl refl refl refl refl _ _ less] ld c less ok by simp
      qed
    qed
  qed
qed

lemma elf_parse_ok:
  assumes "elf_parse img = ElfOk e regs"
  shows "regs \<noteq> []" "length regs \<le> 7" "\<forall>s\<in>set regs. seg_ok img s" "e = u64_at img 24" "64 \<le> length img"
  using assms elf_phdrs_ok [of img "u64_at img 24" "u64_at img 32" "u16_at img 54" "unat (u16_at img 56)" 0 "[]" e regs]
  by (auto simp: elf_parse_def Let_def split: if_splits)

text \<open>The walk stays inside the image when the table does not wrap around.\<close>

lemma elf_phdrs_no_fault:
  assumes "unat phoff + phnum * unat phentsz \<le> length img" "56 \<le> phentsz" "length img < 2 ^ 64"
  shows "elf_phdrs img entry phoff phentsz phnum i acc \<noteq> ElfFault"
  using assms
proof (induction img entry phoff phentsz phnum i acc rule: elf_phdrs.induct)
  case (1 img entry phoff phentsz phnum i acc)
  let ?ph = "phoff + of_nat i * phentsz"
  show ?case
  proof (cases "phnum \<le> i")
    case True
    then show ?thesis by (subst elf_phdrs.simps) simp
  next
    case False
    have "56 \<le> unat phentsz" using "1.prems"(2) by (simp add: word_le_nat_alt)
    moreover have "(i + 1) * unat phentsz \<le> phnum * unat phentsz"
      using False by (intro mult_right_mono) simp_all
    ultimately have le: "unat phoff + i * unat phentsz + 56 \<le> length img"
      using "1.prems"(1) by (simp add: algebra_simps)
    have "unat (of_nat i * phentsz) = i * unat phentsz"
    proof -
      have "of_nat i * phentsz = of_nat (i * unat phentsz)" by simp
      moreover have "i * unat phentsz < 2 ^ 64" using le "1.prems"(3) by linarith
      ultimately show ?thesis by (simp add: unat_of_nat_small del: of_nat_mult)
    qed
    moreover have "unat ?ph = unat phoff + unat (of_nat i * phentsz)"
      by (rule unat_add_no_wrap) (use le "1.prems"(3) calculation in simp)
    ultimately have im: "in_image img ?ph 4" "in_image img ?ph 56"
      using le by (simp_all add: in_image_def)
    show ?thesis
      using "1.IH" "1.prems" False im by (subst elf_phdrs.simps) (simp add: Let_def)
  qed
qed

lemma elf_parse_no_fault:
  assumes "unat (elf_hdr_phoff img) + unat (elf_hdr_phnum img) * unat (elf_hdr_phentsz img) < 2 ^ 64"
    "length img < 2 ^ 64"
  shows "elf_parse img \<noteq> ElfFault"
proof
  assume f: "elf_parse img = ElfFault"
  let ?o = "elf_hdr_phoff img" and ?n = "elf_hdr_phnum img" and ?z = "elf_hdr_phentsz img"
  have c: "\<not> of_nat (length img) < ?o + ?n * ?z" "\<not> ?z < 56"
    and p: "elf_phdrs img (u64_at img 24) ?o ?z (unat ?n) 0 [] = ElfFault"
    using f by (auto simp: elf_parse_def Let_def elf_hdr_phoff_def elf_hdr_phnum_def elf_hdr_phentsz_def split: if_splits)
  have e: "?o + ?n * ?z = of_nat (unat ?o + unat ?n * unat ?z)" by simp
  have "unat (?o + ?n * ?z) = unat ?o + unat ?n * unat ?z"
    unfolding e using assms(1) by (simp add: unat_of_nat_small del: of_nat_mult of_nat_add)
  moreover have "unat (?o + ?n * ?z) \<le> length img"
    using c(1) assms(2) by (simp add: not_less word_le_nat_alt unat_of_nat_small)
  ultimately show False
    using elf_phdrs_no_fault [of ?o "unat ?n" ?z img] c(2) assms(2) p by simp
qed

section \<open>What loading does to the process table\<close>

lemma child_rights_bound:
  "child_rights k = CAP_SYSCALL OR CAP_FS_READ OR CAP_FS_WRITE OR CAP_EXEC OR CAP_IPC \<or>
   (\<exists>u p. login_result_user (k_auth k) = Some u \<and> current_proc k = Some p \<and>
      child_rights k = CAP_SYSCALL OR CAP_FS_READ OR CAP_FS_WRITE OR CAP_EXEC OR CAP_IPC OR p_rights p)"
  by (auto simp: child_rights_def Let_def or.assoc split: option.split)

lemma release_procs [simp]:
  "procs (case b of None \<Rightarrow> s | Some a \<Rightarrow> sys_kfree a s) = procs s"
  "cur (case b of None \<Rightarrow> s | Some a \<Rightarrow> sys_kfree a s) = cur s"
  "cur_index (case b of None \<Rightarrow> s | Some a \<Rightarrow> sys_kfree a s) = cur_index s"
  by (simp_all split: option.split)

lemma sched_inv_procs:
  assumes "procs s' = procs s" "cur s' = cur s" "cur_index s' = cur_index s"
  shows "sched_inv s' = sched_inv s" "cur_running s' = cur_running s"
  using assms by (simp_all add: sched_inv_def cur_running_def)

lemma exec_core_spec:
  assumes e: "exec_elf_core pname img args b k = Some (r, pid, k')"
    and inv: "sched_inv (k_sys k)" "cur_running (k_sys k)"
  shows "sched_inv (k_sys k') \<and> cur_running (k_sys k') \<and>
    (r = 0 \<longrightarrow> (\<exists>i. i < MAX_PROCS \<and> p_present (procs (k_sys k') ! i) \<and> p_state (procs (k_sys k') ! i) = Ready \<and>
       p_pid (procs (k_sys k') ! i) = pid \<and> p_rights (procs (k_sys k') ! i) = child_rights k))"
proof (cases "elf_parse img")
  case ElfBad
  then have "k' = k\<lparr>k_sys := (case b of None \<Rightarrow> k_sys k | Some a \<Rightarrow> sys_kfree a (k_sys k))\<rparr>" "r = -1"
    using e by (auto simp: exec_elf_core_def)
  then show ?thesis using inv sched_inv_procs [of "k_sys k'" "k_sys k"] by simp
next
  case ElfFault
  then show ?thesis using e by (simp add: exec_elf_core_def)
next
  case (ElfOk entry regs)
  obtain q s where c: "proc_create_user_regions (Some pname) (child_rights k) entry (map snd regs) args (k_sys k) = (q, s)"
    by fastforce
  have k': "k_sys k' = (case b of None \<Rightarrow> s | Some a \<Rightarrow> sys_kfree a s)"
    and r: "r = (if q \<le> 0 then -1 else 0)" "0 < q \<Longrightarrow> pid = of_int q"
    using e ElfOk c by (auto simp: exec_elf_core_def Let_def split: if_splits)
  note P = elf_parse_ok(1,2) [OF ElfOk]
  show ?thesis
  proof (cases "find_free (k_sys k)")
    case None
    then have "q = -1" "s = k_sys k" using c P by (auto simp: proc_create_user_regions_def)
    then show ?thesis using inv sched_inv_procs [of "k_sys k'" s] r k' by simp
  next
    case (Some i)
    have i: "i < length (procs (k_sys k))" by (rule find_free_not_cur(2) [OF inv Some])
    have S: "only_slot i (k_sys k) s" "created i (next_pid (k_sys k)) (child_rights k) q s"
      using create_regions_spec [OF c Some i] P by simp_all
    have "sched_inv s \<and> cur_running s" by (rule created_only [OF S inv Some])
    moreover have "i < MAX_PROCS" using i sched_invD(1) [OF inv(1)] by simp
    ultimately show ?thesis
      using sched_inv_procs [of "k_sys k'" s] r k' S(2) by (auto simp: created_def)
  qed
qed

text \<open>The name run from the module table has no slash in it.\<close>

lemma sys_module_simple:
  assumes "sys_module path = Some name" "cstr path = path"
  shows "CHR ''/'' \<notin> set (cstr name) \<and> name \<noteq> []"
proof -
  let ?P = "\<lambda>d. strncmp path d (length d) = 0 \<and> at path (length d) \<noteq> NUL \<and>
      strchr (drop (length d) path) (CHR ''/'') = None"
  from assms(1) obtain d where f: "find ?P [''/bin/'', ''/kormi/'', ''/praxis/''] = Some d"
      and n: "name = drop (length d) path"
    unfolding sys_module_def map_option_eq_Some by blast
  have d: "at path (length d) \<noteq> NUL" "strchr (drop (length d) path) (CHR ''/'') = None"
    using f unfolding find_Some_iff by blast+
  have "CHR ''/'' \<notin> set (cstr name)"
  proof
    assume "CHR ''/'' \<in> set (cstr name)"
    then have "strchr name (CHR ''/'') \<noteq> None" by (induction name) (auto split: if_splits)
    then show False using d n by simp
  qed
  moreover have "name \<noteq> []" using d(1) n by (auto simp: at_def split: if_splits)
  ultimately show ?thesis by blast
qed

section \<open>Properties\<close>

text \<open>Images for the examples: a header, the offset of the program headers given.\<close>

abbreviation zb :: "nat \<Rightarrow> string" where "zb n \<equiv> replicate n NUL"

definition elf_image :: "string \<Rightarrow> string" where
  "elf_image phoff = [CHR 0x7F, CHR ''E'', CHR ''L'', CHR ''F'', CHR 0x02, CHR 0x01] @ zb 12 @
     [CHR 0x3E, NUL] @ zb 4 @ [NUL, NUL, NUL, NUL, NUL, CHR 0x20, NUL, NUL] @ phoff @ zb 14 @
     [CHR 0x38, NUL, CHR 0x01, NUL] @ zb 6"

lemma at_append: "at (a @ b) i = (if i < length a then at a i else at b (i - length a))"
  by (auto simp: at_def nth_append)

lemma at_replicate: "at (replicate n c) i = (if i < n then c else NUL)"
  by (simp add: at_def)

lemma at_Cons: "at (c # s) i = (if i = 0 then c else at s (i - 1))"
  by (cases i) (simp_all add: at_def)

lemmas image_bytes = elf_image_def at_append at_replicate at_Cons

lemma le_bytes_16: "le_bytes img off 2 = of_nat (of_char (at img off)) OR push_bit 8 (of_nat (of_char (at img (off + 1))))"
  by (simp add: numeral_2_eq_2)

lemma le_bytes_32: "le_bytes img off 4 = of_nat (of_char (at img off)) OR push_bit 8 (of_nat (of_char (at img (off + 1)))
   OR push_bit 8 (of_nat (of_char (at img (off + 2))) OR push_bit 8 (of_nat (of_char (at img (off + 3))))))"
  by (simp add: eval_nat_numeral)

lemma le_bytes_64: "le_bytes img off 8 = of_nat (of_char (at img off)) OR push_bit 8 (of_nat (of_char (at img (off + 1)))
   OR push_bit 8 (of_nat (of_char (at img (off + 2))) OR push_bit 8 (of_nat (of_char (at img (off + 3)))
   OR push_bit 8 (of_nat (of_char (at img (off + 4))) OR push_bit 8 (of_nat (of_char (at img (off + 5)))
   OR push_bit 8 (of_nat (of_char (at img (off + 6))) OR push_bit 8 (of_nat (of_char (at img (off + 7))))))))))"
  by (simp add: eval_nat_numeral)

lemma image_fields:
  assumes "length phoff = 8"
  shows "length (elf_image phoff) = 64" "u16_at (elf_image phoff) 18 = 0x3E" "u64_at (elf_image phoff) 24 = 0x200000000000"
    "u16_at (elf_image phoff) 54 = 56" "u16_at (elf_image phoff) 56 = 1"
    using assms  by (simp_all add: image_bytes u16_at_def u64_at_def le_bytes_16 le_bytes_64)

lemma image_parse:
  assumes "length phoff = 8" "u64_at (elf_image phoff @ r) 32 = p" "length r < 1000"
    "p + 56 \<le> of_nat (64 + length r)"
  shows "elf_parse (elf_image phoff @ r) = elf_phdrs (elf_image phoff @ r) 0x200000000000 p 56 1 0 []"
proof -
  let ?img = "elf_image phoff @ r"
  have l: "length ?img = 64 + length r" using assms(1) by (simp add: elf_image_def)
  have f: "at ?img 0 = CHR 0x7F" "at ?img 1 = CHR ''E''" "at ?img 2 = CHR ''L''" "at ?img 3 = CHR ''F''"
    "at ?img 4 = CHR 0x02" "at ?img 5 = CHR 0x01" "u16_at ?img 18 = 0x3E" "u64_at ?img 24 = 0x200000000000"
    "u16_at ?img 54 = 56" "u16_at ?img 56 = 1"
    using assms(1) by (simp_all add: image_bytes u16_at_def u64_at_def le_bytes_16 le_bytes_64)
  have "\<not> length ?img < 64" using l by simp
  moreover have "\<not> of_nat (length ?img) < p + 1 * (56 :: u64)"
    using assms(4) unfolding l by (simp only: mult_1 not_less)
  ultimately show ?thesis
    unfolding elf_parse_def f assms(2) Let_def by simp
qed

text \<open>One loadable segment of 120 bytes, readable and executable.\<close>

definition mini_elf :: string where
  "mini_elf = elf_image (CHR 0x40 # zb 7) @ [CHR 0x01, NUL, NUL, NUL, CHR 0x05, NUL, NUL, NUL] @ zb 8 @
     [NUL, NUL, NUL, NUL, NUL, CHR 0x20, NUL, NUL] @ zb 8 @ [CHR 0x78] @ zb 7 @ [CHR 0x78] @ zb 7 @ zb 8"

lemma mini_elf_parse: "elf_parse mini_elf = ElfOk 0x200000000000
    [(0, \<lparr>r_vaddr = 0x200000000000, r_fileSz = 0x78, r_memSz = 0x78, r_flags = 5\<rparr>)]"
proof -
  have p: "u64_at mini_elf 32 = 64" "length mini_elf = 120"
    by (simp_all add: mini_elf_def image_bytes u64_at_def le_bytes_64)
  have "elf_parse mini_elf = elf_phdrs mini_elf 0x200000000000 64 56 1 0 []"
    using p unfolding mini_elf_def by (intro image_parse) simp_all
  moreover have "u32_at mini_elf 64 = 1" "u64_at mini_elf 72 = 0" "u64_at mini_elf 80 = 0x200000000000"
    "u64_at mini_elf 96 = 0x78" "u64_at mini_elf 104 = 0x78" "u32_at mini_elf 68 = 5"
    by (simp_all add: mini_elf_def image_bytes u64_at_def u32_at_def le_bytes_64 le_bytes_32)
  ultimately show ?thesis
    by (simp add: elf_phdrs.simps p(2) in_image_def)
qed

text \<open>The loader accepts a file only with one to seven loadable segments, each at an address below
  the kernel's half and, as far as the 64-bit sum of offset and size tells, inside the file.\<close>

theorem elf_accepted:
  assumes "elf_parse img = ElfOk e regs"
  shows "regs \<noteq> [] \<and> length regs \<le> 7 \<and> (\<forall>s\<in>set regs. seg_ok img s) \<and> e = u64_at img 24 \<and> 64 \<le> length img"
  using elf_parse_ok [OF assms] by blast

lemma elf_accepted_witness: "seg_ok mini_elf (0, \<lparr>r_vaddr = 0x200000000000, r_fileSz = 0x78, r_memSz = 0x78, r_flags = 5\<rparr>)"
  using elf_accepted [OF mini_elf_parse] by simp

text \<open>C21. When the end of the program header table does not overflow 64 bits, parsing reads nothing
  outside the file.\<close>

theorem elf_reads_inside:
  assumes "unat (elf_hdr_phoff img) + unat (elf_hdr_phnum img) * unat (elf_hdr_phentsz img) < 2 ^ 64"
    "length img < 2 ^ 64"
  shows "elf_parse img \<noteq> ElfFault"
  by (rule elf_parse_no_fault [OF assms])

lemma elf_reads_inside_witness: "elf_parse mini_elf \<noteq> ElfFault"
proof (rule elf_reads_inside)
  have "elf_hdr_phoff mini_elf = 64" "elf_hdr_phnum mini_elf = 1" "elf_hdr_phentsz mini_elf = 56" "length mini_elf = 120"
    by (simp_all add: mini_elf_def image_bytes u64_at_def u16_at_def le_bytes_64 le_bytes_16 elf_hdr_phoff_def
        elf_hdr_phnum_def elf_hdr_phentsz_def)
  then show "unat (elf_hdr_phoff mini_elf) + unat (elf_hdr_phnum mini_elf) * unat (elf_hdr_phentsz mini_elf) < 2 ^ 64"
    "length mini_elf < 2 ^ 64"
    by simp_all
qed

text \<open>The test of the program header table wraps: a file of 64 bytes whose table lies 56 bytes below
  2^64 passes it, and the loader reads outside the file.\<close>

theorem elf_table_wraps:
  "length (elf_image (CHR 0xC8 # replicate 7 (CHR 0xFF))) = 64 \<and>
   elf_parse (elf_image (CHR 0xC8 # replicate 7 (CHR 0xFF))) = ElfFault"
proof -
  let ?img = "elf_image (CHR 0xC8 # replicate 7 (CHR 0xFF))"
  have p: "u64_at (?img @ []) 32 = 0xFFFFFFFFFFFFFFC8" "length ?img = 64"
    by (simp_all add: image_bytes u64_at_def le_bytes_64)
  have "elf_parse (?img @ []) = elf_phdrs (?img @ []) 0x200000000000 0xFFFFFFFFFFFFFFC8 56 1 0 []"
    by (rule image_parse [OF _ p(1)]) simp_all
  then show ?thesis using p(2) by (simp add: elf_phdrs.simps in_image_def)
qed

text \<open>A program that was started is a ready process with the pid reported and exactly the rights
  \<open>child_rights\<close> gives; the scheduler's invariant holds whatever the outcome.\<close>

theorem exec_starts_process:
  assumes "exec_elf_core pname img args b k = Some (r, pid, k')"
    "sched_inv (k_sys k)" "cur_running (k_sys k)"
  shows "sched_inv (k_sys k') \<and> cur_running (k_sys k') \<and>
    (r = 0 \<longrightarrow> (\<exists>i<MAX_PROCS. p_present (procs (k_sys k') ! i) \<and> p_state (procs (k_sys k') ! i) = Ready \<and>
       p_pid (procs (k_sys k') ! i) = pid \<and> p_rights (procs (k_sys k') ! i) = child_rights k))"
  using exec_core_spec [OF assms] by blast

lemma exec_starts_process_witness:
  "sched_inv (k_sys (snd (snd (the (exec_elf_core ''mini'' mini_elf [] None demo_kern)))))"
proof -
  obtain r pid k where e: "exec_elf_core ''mini'' mini_elf [] None demo_kern = Some (r, pid, k)"
    by (cases "exec_elf_core ''mini'' mini_elf [] None demo_kern")
      (auto simp: exec_elf_core_def mini_elf_parse Let_def split: prod.splits)
  have "k_sys demo_kern = two_procs" by (simp add: demo_kern_def)
  then show ?thesis using exec_starts_process [OF e] two_procs_inv e by simp
qed

end
