(* ===== verification/Syscall.thy ===== *)
theory Syscall
  imports Exec
begin

unbundle bit_operations_syntax

text \<open>
  The system calls (src/kernel/syscall.c): the checks of user pointers, one
  handler per call and the dispatcher.

  What a call reads from outside the kernel's state is \<open>env\<close>: the memory the
  caller's pointers lead to, the keyboard, the ports, the bytes the kernel
  stack happens to hold, the embedded modules.  What it does outside that state
  is the list of events of its result, in order.
\<close>

section \<open>Environment and results\<close>

record env =
  e_mem :: "u64 \<Rightarrow> char"
  e_key :: char
  e_port :: "nat \<Rightarrow> u16 \<Rightarrow> u64"
  e_stack :: "nat \<Rightarrow> char"
  e_entropy :: entropy
  e_mods :: "mod_rec list"

datatype draw = DClear u32 | DRect u32 u32 u32 u32 u32 | DText u32 u32 string u32 u32

datatype event =
  Store u64 string
| Console string
| ClearConsole
| Draw draw
| PortOut nat u16 u64

text \<open>A call returns, gives the processor away, stops the machine, or does
  something C leaves undefined.\<close>

datatype outcome = Ret u64 kern "event list" | Gone kern | Halted | Undef

definition SYSERR :: u64 where "SYSERR = 0xFFFFFFFFFFFFFFFF"

abbreviation err :: "kern \<Rightarrow> outcome" where "err k \<equiv> Ret SYSERR k []"

definition of_status :: "int \<Rightarrow> u64" where "of_status r = (if r = 0 then 0 else SYSERR)"

definition of_bool64 :: "bool \<Rightarrow> u64" where "of_bool64 b = (if b then 1 else 0)"

text \<open>Values in memory, least significant byte first.\<close>

fun le_store :: "nat \<Rightarrow> u64 \<Rightarrow> string" where
  "le_store 0 v = []"
| "le_store (Suc n) v = char_of (unat (v AND 0xFF)) # le_store n (drop_bit 8 v)"

definition mem_bytes :: "env \<Rightarrow> u64 \<Rightarrow> nat \<Rightarrow> string" where
  "mem_bytes e a n = map (\<lambda>i. e_mem e (a + of_nat i)) [0..<n]"

definition mem_u32 :: "env \<Rightarrow> u64 \<Rightarrow> u32" where
  "mem_u32 e a = ucast (le_bytes (mem_bytes e a 4) 0 4)"

definition mem_u64 :: "env \<Rightarrow> u64 \<Rightarrow> u64" where
  "mem_u64 e a = le_bytes (mem_bytes e a 8) 0 8"

section \<open>Checks\<close>

definition syscall_cap :: "u64 \<Rightarrow> kern \<Rightarrow> bool" where
  "syscall_cap need k =
    (case current_proc k of
       None \<Rightarrow> True
     | Some p \<Rightarrow> if p_rights p = CAP_ALL then True else p_rights p AND need \<noteq> 0)"

definition user_ptr_ok :: "u64 \<Rightarrow> u64 \<Rightarrow> kern \<Rightarrow> bool" where
  "user_ptr_ok a len k =
    (if a = 0 then len = 0
     else if len = 0 then True
     else if a + len < a then False
     else case current_proc k of
       None \<Rightarrow> False
     | Some p \<Rightarrow>
        if \<not> p_user p then True
        else list_ex (\<lambda>(b, sz). sz \<noteq> 0 \<and> b \<le> a \<and> a - b < sz \<and> (a - b) + len \<le> sz) (p_umap p))"

text \<open>The string at \<open>src\<close>, when its terminator is among the first \<open>n\<close> bytes.\<close>

fun user_str_loop :: "env \<Rightarrow> kern \<Rightarrow> u64 \<Rightarrow> nat \<Rightarrow> string option" where
  "user_str_loop e k src 0 = None"
| "user_str_loop e k src (Suc n) =
    (if \<not> user_ptr_ok src 1 k then None
     else if e_mem e src = NUL then Some []
     else if n = 0 then None
     else map_option (\<lambda>s. e_mem e src # s) (user_str_loop e k (src + 1) n))"

definition user_str :: "env \<Rightarrow> u64 \<Rightarrow> nat \<Rightarrow> kern \<Rightarrow> string option" where
  "user_str e src mx k =
    (if src = 0 \<or> mx = 0 \<or> current_proc k = None then None else user_str_loop e k src mx)"

section \<open>Console, keyboard and programs\<close>

definition sys_exit :: "u64 \<Rightarrow> kern \<Rightarrow> outcome" where
  "sys_exit a1 k =
    (case proc_exit (ucast a1) (k_sys k) of None \<Rightarrow> Halted | Some s \<Rightarrow> Gone (k\<lparr>k_sys := s\<rparr>))"

definition sys_write :: "env \<Rightarrow> u64 \<Rightarrow> u64 \<Rightarrow> kern \<Rightarrow> outcome" where
  "sys_write e a2 a3 k =
    (let n = (if 4096 < a3 then 4096 else a3) in
     if \<not> user_ptr_ok a2 n k then err k else Ret n k [Console (cstr (mem_bytes e a2 (unat n)))])"

definition kbd_request :: "kern \<Rightarrow> u32 \<Rightarrow> char \<times> kern" where
  "kbd_request k kbd =
    (case ipc_send kbd 10 ''g'' (k_sys k) (k_ipc k) of (r, s, q) \<Rightarrow>
      let k = k\<lparr>k_sys := s, k_ipc := q\<rparr> in
      if r \<noteq> 0 then (NUL, k)
      else case ipc_try_receive 8 s q of
        (RMsg _ _ d, s, q) \<Rightarrow> (at d 0, k\<lparr>k_sys := s, k_ipc := q\<rparr>)
      | (_, s, q) \<Rightarrow> (NUL, k\<lparr>k_sys := s, k_ipc := q\<rparr>))"

definition sys_read :: "env \<Rightarrow> u64 \<Rightarrow> u64 \<Rightarrow> kern \<Rightarrow> outcome" where
  "sys_read e a1 a2 k =
    (case svc_query (Some ''kbd'') (k_sys k) (k_svc k) of (r, pid, v) \<Rightarrow>
      let k = k\<lparr>k_svc := v\<rparr>;
          (c, k) = (case pid of
             Some kbd \<Rightarrow> if r = 0 \<and> 0 < kbd then kbd_request k kbd else (e_key e, k)
           | None \<Rightarrow> (e_key e, k))
      in if c = NUL then Ret 0 k []
         else if a1 \<noteq> 0 \<and> 0 < a2 then
           (if \<not> user_ptr_ok a1 1 k then err k else Ret 1 k [Store a1 [c]])
         else Ret 1 k [])"

text \<open>The argument array of \<open>SYS_EXEC\<close>: a null pointer is an empty string.\<close>

fun exec_args :: "env \<Rightarrow> kern \<Rightarrow> u64 \<Rightarrow> nat \<Rightarrow> string option list option" where
  "exec_args e k argv 0 = Some []"
| "exec_args e k argv (Suc n) =
    (let p = mem_u64 e argv in
     if p = 0 then map_option (\<lambda>as. Some '''' # as) (exec_args e k (argv + 8) n)
     else case user_str e p 128 k of
       None \<Rightarrow> None
     | Some s \<Rightarrow> map_option (\<lambda>as. Some s # as) (exec_args e k (argv + 8) n))"

definition sys_exec :: "env \<Rightarrow> u64 \<Rightarrow> u64 \<Rightarrow> u64 \<Rightarrow> kern \<Rightarrow> outcome" where
  "sys_exec e a1 a2 a3 k =
    (if a1 = 0 then err k
     else if \<not> syscall_cap CAP_EXEC k then err k
     else case user_str e a1 256 k of
       None \<Rightarrow> err k
     | Some path \<Rightarrow>
        let c = sint (ucast a2 :: u32); argc = nat (min 16 (max 0 c)) in
        if 0 < argc \<and> a3 \<noteq> 0 \<and> \<not> user_ptr_ok a3 (of_nat argc * 8) k then err k
        else if 0 < argc \<and> a3 = 0 then Undef
        else case (if argc = 0 then Some [] else exec_args e k a3 argc) of
          None \<Rightarrow> err k
        | Some args \<Rightarrow>
           (case exec_user_path (e_mods e) (Some path) args k of
              None \<Rightarrow> Undef
            | Some (r, pid, k) \<Rightarrow> if r = 0 then Ret (ucast pid) k [] else err k))"

section \<open>Messages\<close>

definition sys_ipc_send :: "env \<Rightarrow> u64 \<Rightarrow> u64 \<Rightarrow> u64 \<Rightarrow> u64 \<Rightarrow> kern \<Rightarrow> outcome" where
  "sys_ipc_send e a1 a2 a3 a4 k =
    (if \<not> syscall_cap CAP_IPC k then err k
     else if a3 \<noteq> 0 \<and> 0 < a4 \<and> \<not> user_ptr_ok a3 a4 k then err k
     else case do_send (ucast a1) (ucast a2) (mem_bytes e a3 (min IPC_MSG_MAX (unat a4))) (k_sys k) (k_ipc k) of
       (r, s, q) \<Rightarrow> Ret (ucast (of_int r :: u32)) (k\<lparr>k_sys := s, k_ipc := q\<rparr>) [])"

definition sys_ipc_recv :: "u64 \<Rightarrow> u64 \<Rightarrow> u64 \<Rightarrow> u64 \<Rightarrow> kern \<Rightarrow> outcome" where
  "sys_ipc_recv a1 a2 a3 a4 k =
    (if \<not> syscall_cap CAP_IPC k then err k
     else if a1 \<noteq> 0 \<and> \<not> user_ptr_ok a1 a2 k then err k
     else case ipc_try_receive (unat a2) (k_sys k) (k_ipc k) of (r, s, q) \<Rightarrow>
       let k = k\<lparr>k_sys := s, k_ipc := q\<rparr>;
           (fr, type, d) = (case r of RMsg f t d \<Rightarrow> (f, t, d) | _ \<Rightarrow> (0, 0, []));
           ev = (if d = [] then [] else [Store a1 d])
       in if a3 \<noteq> 0 \<and> \<not> user_ptr_ok a3 4 k then Ret SYSERR k ev
          else
            let ev = (if a3 = 0 then ev else ev @ [Store a3 (le_store 4 (ucast fr))]) in
            if a4 \<noteq> 0 \<and> \<not> user_ptr_ok a4 4 k then Ret SYSERR k ev
            else
              let ev = (if a4 = 0 then ev else ev @ [Store a4 (le_store 4 (ucast type))])
              in Ret (case r of RMsg _ _ _ \<Rightarrow> of_nat (length d) | _ \<Rightarrow> SYSERR) k ev)"

definition sys_yield :: "kern \<Rightarrow> outcome" where
  "sys_yield k =
    (if (case current_proc k of None \<Rightarrow> False | Some p \<Rightarrow> p_user p) then Ret 0 k []
     else let s = sched_yield (k_sys k); k' = k\<lparr>k_sys := s\<rparr> in
       if cur s = cur (k_sys k) then Ret 0 k' [] else Gone k')"

section \<open>Files\<close>

text \<open>The system calls resolve paths from the root.\<close>

definition ROOT :: "string option" where "ROOT = Some ''/''"

definition sys_fs_write :: "env \<Rightarrow> u64 \<Rightarrow> u64 \<Rightarrow> u64 \<Rightarrow> kern \<Rightarrow> outcome" where
  "sys_fs_write e a1 a2 a3 k =
    (if \<not> syscall_cap CAP_FS_WRITE k then err k
     else case user_str e a1 256 k of
       None \<Rightarrow> err k
     | Some path \<Rightarrow>
        if \<not> user_ptr_ok a2 a3 k then err k
        else case vfs_write ROOT (Some path) (mem_bytes e a2 (unat a3)) k of
          (r, k) \<Rightarrow> Ret (of_status r) k [])"

definition sys_fs_read :: "env \<Rightarrow> u64 \<Rightarrow> u64 \<Rightarrow> u64 \<Rightarrow> kern \<Rightarrow> outcome" where
  "sys_fs_read e a1 a2 a3 k =
    (if \<not> syscall_cap CAP_FS_READ k then err k
     else case user_str e a1 256 k of
       None \<Rightarrow> err k
     | Some path \<Rightarrow>
        if \<not> user_ptr_ok a2 a3 k then err k
        else case vfs_read ROOT (Some path) (unat a3) k of
          (r, stored) \<Rightarrow> Ret (case r of None \<Rightarrow> SYSERR | Some d \<Rightarrow> of_nat (length d)) k [Store a2 stored])"

text \<open>The listing buffer has 4096 bytes; past the text and its terminator it holds
  what the stack held.\<close>

definition stack_buffer :: "env \<Rightarrow> string \<Rightarrow> nat \<Rightarrow> string" where
  "stack_buffer e t n =
    map (\<lambda>i. if i < length t then t ! i else if i = length t then NUL else e_stack e i) [0..<n]"

definition sys_fs_list :: "env \<Rightarrow> u64 \<Rightarrow> u64 \<Rightarrow> u64 \<Rightarrow> kern \<Rightarrow> outcome" where
  "sys_fs_list e a1 a2 a3 k =
    (if \<not> syscall_cap CAP_FS_READ k then err k
     else case user_str e a1 256 k of
       None \<Rightarrow> err k
     | Some path \<Rightarrow>
        (case vfs_list ROOT (Some path) 4096 k of
           None \<Rightarrow> err k
         | Some t \<Rightarrow>
            let bsz = (if a3 = 0 \<or> 4096 < a3 then 4096 else a3) in
            if a2 = 0 then Ret 0 k []
            else if \<not> user_ptr_ok a2 bsz k then err k
            else Ret 0 k [Store a2 (stack_buffer e t (unat bsz))]))"

definition sys_fs_create :: "env \<Rightarrow> u64 \<Rightarrow> u64 \<Rightarrow> kern \<Rightarrow> outcome" where
  "sys_fs_create e a1 a2 k =
    (if \<not> syscall_cap CAP_FS_WRITE k then err k
     else case user_str e a1 256 k of
       None \<Rightarrow> err k
     | Some path \<Rightarrow>
        (case vfs_create ROOT (Some path) (if a2 = 1 then TDir else TFile) k of
           (r, k) \<Rightarrow> Ret (of_status r) k []))"

definition sys_fs_remove :: "env \<Rightarrow> u64 \<Rightarrow> kern \<Rightarrow> outcome" where
  "sys_fs_remove e a1 k =
    (if \<not> syscall_cap CAP_FS_WRITE k then err k
     else case user_str e a1 256 k of
       None \<Rightarrow> err k
     | Some path \<Rightarrow> (case vfs_remove ROOT (Some path) k of (r, k) \<Rightarrow> Ret (of_status r) k []))"

section \<open>Processes and the system\<close>

definition sys_getpid :: "kern \<Rightarrow> outcome" where
  "sys_getpid k = Ret (case current_proc k of None \<Rightarrow> 0 | Some p \<Rightarrow> ucast (p_pid p)) k []"

definition sys_getppid :: "kern \<Rightarrow> outcome" where
  "sys_getppid k = Ret (case current_proc k of None \<Rightarrow> 0 | Some p \<Rightarrow> ucast (p_parent p)) k []"

definition sys_uptime :: "kern \<Rightarrow> outcome" where
  "sys_uptime k = Ret (k_ticks k * 10) k []"

definition info_bytes :: "system_info \<Rightarrow> string" where
  "info_bytes i = le_store 8 (si_total i) @ le_store 8 (si_free i) @ le_store 8 (si_used i) @
     le_store 4 (ucast (si_cpus i)) @ le_store 4 (ucast (si_procs i)) @ le_store 8 (si_uptime i) @
     le_store 8 (si_ticks i)"

definition sys_sysinfo :: "u64 \<Rightarrow> kern \<Rightarrow> outcome" where
  "sys_sysinfo a1 k =
    (if a1 = 0 then err k
     else if \<not> user_ptr_ok a1 48 k then err k
     else Ret 0 k [Store a1 (info_bytes (sysinfo_get k))])"

definition state_num :: "pstate \<Rightarrow> u64" where
  "state_num st = (case st of Created \<Rightarrow> 0 | Ready \<Rightarrow> 1 | Running \<Rightarrow> 2 | Blocked \<Rightarrow> 3 | Terminated \<Rightarrow> 4)"

text \<open>The 80 bytes of an entry; the three bytes of padding come from the stack.\<close>

definition proc_info_bytes :: "env \<Rightarrow> proc_info \<Rightarrow> string" where
  "proc_info_bytes e i = le_store 4 (ucast (pi_pid i)) @
     pi_name i @ replicate (64 - length (pi_name i)) NUL @ le_store 4 (state_num (pi_state i)) @
     [char_of (if pi_user i then 1 else 0 :: nat)] @ map (e_stack e) [0..<3] @
     le_store 4 (ucast (pi_exit i))"

definition sys_proc_list :: "env \<Rightarrow> u64 \<Rightarrow> u64 \<Rightarrow> kern \<Rightarrow> outcome" where
  "sys_proc_list e a1 a2 k =
    (let c = sint (ucast a2 :: u32);
         mx = (if a2 = 0 then 64 else if c \<le> 0 \<or> 64 < c then 64 else c);
         ps = sysinfo_proc_list mx k
     in if \<not> user_ptr_ok a1 (of_nat (length ps) * 80) k then err k
        else Ret (of_nat (length ps)) k [Store a1 (concat (map (proc_info_bytes e) ps))])"

definition sys_waitpid :: "u64 \<Rightarrow> kern \<Rightarrow> outcome" where
  "sys_waitpid a1 k =
    (if a1 = 0 then err k
     else case proc_waitpid (ucast a1) (k_sys k) of
       (WDone c, s) \<Rightarrow> Ret (if c < 0 then SYSERR else ucast (of_int c :: u32)) (k\<lparr>k_sys := s\<rparr>) []
     | (WBlock, s) \<Rightarrow> Gone (k\<lparr>k_sys := s\<rparr>)
     | (WFault, s) \<Rightarrow> Undef)"

definition sys_svc_register :: "env \<Rightarrow> u64 \<Rightarrow> kern \<Rightarrow> outcome" where
  "sys_svc_register e a1 k =
    (if \<not> syscall_cap CAP_IPC k then err k
     else case user_str e a1 32 k of
       None \<Rightarrow> err k
     | Some name \<Rightarrow>
        (case svc_register (Some name) (k_sys k) (k_svc k) of
           (r, v) \<Rightarrow> Ret (of_status r) (k\<lparr>k_svc := v\<rparr>) []))"

definition sys_svc_query :: "env \<Rightarrow> u64 \<Rightarrow> u64 \<Rightarrow> kern \<Rightarrow> outcome" where
  "sys_svc_query e a1 a2 k =
    (if a1 = 0 then err k
     else case user_str e a1 32 k of
       None \<Rightarrow> err k
     | Some name \<Rightarrow>
        (case svc_query (Some name) (k_sys k) (k_svc k) of
           (r, p, v) \<Rightarrow>
             let k = k\<lparr>k_svc := v\<rparr>; pid = (case p of None \<Rightarrow> 0 | Some x \<Rightarrow> x) in
             if r \<noteq> 0 then err k
             else if a2 \<noteq> 0 \<and> \<not> user_ptr_ok a2 4 k then err k
             else Ret (ucast pid) k (if a2 = 0 then [] else [Store a2 (le_store 4 (ucast pid))])))"

section \<open>Accounts and sessions\<close>

definition with_auth :: "kern \<Rightarrow> bool \<times> auth \<Rightarrow> outcome" where
  "with_auth k r = Ret (of_bool64 (fst r)) (k\<lparr>k_auth := snd r\<rparr>) []"

definition sys_auth_count :: "kern \<Rightarrow> outcome" where
  "sys_auth_count k = Ret (of_nat (auth_user_count (k_auth k))) k []"

definition sys_auth_create :: "env \<Rightarrow> u64 \<Rightarrow> u64 \<Rightarrow> kern \<Rightarrow> outcome" where
  "sys_auth_create e a1 a2 k =
    (if auth_user_count (k_auth k) \<noteq> 0 then Ret 0 k []
     else case (user_str e a1 32 k, user_str e a2 32 k) of
       (Some name, Some pw) \<Rightarrow>
         if strlen name < 3 \<or> strlen pw < 4 then Ret 0 k []
         else with_auth k (auth_create_user name pw CAP_ALL True (k_auth k))
     | _ \<Rightarrow> err k)"

definition sys_auth_verify :: "env \<Rightarrow> u64 \<Rightarrow> u64 \<Rightarrow> kern \<Rightarrow> outcome" where
  "sys_auth_verify e a1 a2 k =
    (case (user_str e a1 32 k, user_str e a2 32 k) of
       (Some name, Some pw) \<Rightarrow> Ret (of_bool64 (auth_verify name pw (k_auth k))) k []
     | _ \<Rightarrow> err k)"

definition sys_auth_list :: "u64 \<Rightarrow> u64 \<Rightarrow> kern \<Rightarrow> outcome" where
  "sys_auth_list a1 a2 k =
    (if a1 = 0 \<or> a2 = 0 then err k
     else
       let bsz = unat (if 4096 < a2 then 4096 else a2);
           t = auth_list_text bsz (k_auth k) @ [NUL];
           n = min (length t) bsz
       in if \<not> user_ptr_ok a1 (of_nat n) k then err k else Ret 0 k [Store a1 (take n t)])"

definition sys_auth_delete :: "env \<Rightarrow> u64 \<Rightarrow> kern \<Rightarrow> outcome" where
  "sys_auth_delete e a1 k =
    (if \<not> syscall_cap CAP_USER_ADMIN k then err k
     else case user_str e a1 32 k of
       None \<Rightarrow> err k
     | Some name \<Rightarrow>
        (case auth_find name (k_auth k) of
           None \<Rightarrow> Ret 0 k []
         | Some i \<Rightarrow>
            if ac_admin (au_accounts (k_auth k) ! i) then Ret 0 k []
            else if au_current (k_auth k) = Some (Acct i) then Ret 0 k []
            else with_auth k (auth_user_delete name (k_auth k))))"

definition sys_auth_changepw :: "env \<Rightarrow> u64 \<Rightarrow> u64 \<Rightarrow> u64 \<Rightarrow> kern \<Rightarrow> outcome" where
  "sys_auth_changepw e a1 a2 a3 k =
    (case (user_str e a1 32 k, user_str e a2 32 k, user_str e a3 32 k) of
       (Some name, Some old, Some new) \<Rightarrow>
         if strlen new < 4 then Ret 0 k []
         else (case auth_find name (k_auth k) of
           None \<Rightarrow> Ret 0 k []
         | Some i \<Rightarrow>
            if au_current (k_auth k) = Some (Acct i)
            then with_auth k (auth_change_password name old new (k_auth k))
            else if \<not> syscall_cap CAP_USER_ADMIN k then Ret 0 k []
            else with_auth k (auth_change_password_admin name new (k_auth k)))
     | _ \<Rightarrow> err k)"

definition CAP_AISTHESIS :: u64 where "CAP_AISTHESIS = push_bit 1 1"

definition sys_auth_create_user :: "env \<Rightarrow> u64 \<Rightarrow> u64 \<Rightarrow> kern \<Rightarrow> outcome" where
  "sys_auth_create_user e a1 a2 k =
    (if \<not> syscall_cap CAP_USER_ADMIN k then err k
     else case (user_str e a1 32 k, user_str e a2 32 k) of
       (Some name, Some pw) \<Rightarrow>
         if strlen name < 3 \<or> strlen pw < 4 then Ret 0 k []
         else if auth_find name (k_auth k) \<noteq> None then Ret 0 k []
         else with_auth k (auth_create_user name pw
                (CAP_FB_DRAW OR CAP_AISTHESIS OR CAP_FS_READ OR CAP_IDIOS_WRITE) False (k_auth k))
     | _ \<Rightarrow> err k)"

text \<open>The loop of \<open>SYS_CONTRACT_LIST\<close>: lines until one does not fit.\<close>

fun contract_text :: "nat \<Rightarrow> contract list \<Rightarrow> string \<Rightarrow> string" where
  "contract_text bsz [] out = out"
| "contract_text bsz (c # cs) out =
    (if \<not> ct_ativo c then contract_text bsz cs out
     else let b = sformat 328 (''  - %s em %s (r=%d w=%d x=%d)'' @ [LF])
                    [AStr (Some (if at (ct_nome c) 0 \<noteq> NUL then contract_name c else ''(sem nome)'')),
                     AStr (Some (ct_caminho c)), bit_arg (ct_leitura c), bit_arg (ct_escrita c),
                     bit_arg (ct_execucao c)]
          in if bsz \<le> length out + length b + 1 then out else contract_text bsz cs (out @ b))"

definition sys_contract_list :: "u64 \<Rightarrow> u64 \<Rightarrow> kern \<Rightarrow> outcome" where
  "sys_contract_list a1 a2 k =
    (if a1 = 0 \<or> a2 = 0 then err k
     else
       let bsz = unat (if 4096 < a2 then 4096 else a2);
           t = contract_text bsz (ct_list (k_pact k)) [] @ [NUL];
           n = min (length t) bsz
       in if \<not> user_ptr_ok a1 (of_nat n) k then err k else Ret 0 k [Store a1 (take n t)])"

definition grant_all :: "pact \<Rightarrow> pact" where
  "grant_all t =
    fold (\<lambda>i t. if ct_ativo (ct_list t ! i) then consent_grant (int i) t else t)
      [0..<length (ct_list t)] t"

definition raise_rights :: "u64 \<Rightarrow> sys \<Rightarrow> sys" where
  "raise_rights caps s =
    (case cur s of None \<Rightarrow> s | Some i \<Rightarrow> upd i (\<lambda>p. p\<lparr>p_rights := p_rights p OR caps\<rparr>) s)"

definition sys_session_login :: "env \<Rightarrow> u64 \<Rightarrow> u64 \<Rightarrow> u64 \<Rightarrow> kern \<Rightarrow> outcome" where
  "sys_session_login e a1 a2 a3 k =
    (case user_str e a1 32 k of
       None \<Rightarrow> err k
     | Some name \<Rightarrow>
        let (u, a) = (if a3 \<noteq> 0
                then (case auth_ticket_consume name a3 (k_auth k) of
                        (ok, a) \<Rightarrow> (if ok then Some Synth else None, a))
                else (map_option Acct (auth_find name (k_auth k)), k_auth k));
            k = k\<lparr>k_auth := a\<rparr>
        in case u of
             None \<Rightarrow> Ret 0 k []
           | Some u \<Rightarrow>
              if a2 = 0 then Ret 0 k []
              else Ret 1 (k\<lparr>k_pact := grant_all (k_pact k), k_auth := login_set_user (Some u) a,
                     k_sys := raise_rights (ac_caps (user_of a u)) (k_sys k)\<rparr>) [])"

definition sys_ticket_issue :: "env \<Rightarrow> u64 \<Rightarrow> u64 \<Rightarrow> u64 \<Rightarrow> kern \<Rightarrow> outcome" where
  "sys_ticket_issue e a1 a2 a3 k =
    (if \<not> syscall_cap CAP_USER_ADMIN k then err k
     else case user_str e a1 32 k of
       None \<Rightarrow> err k
     | Some name \<Rightarrow>
        (case auth_ticket_issue (e_entropy e) name a2 (k_auth k) of
           (None, a) \<Rightarrow> err (k\<lparr>k_auth := a\<rparr>)
         | (Some tok, a) \<Rightarrow>
             let k = k\<lparr>k_auth := a\<rparr> in
             if a3 \<noteq> 0 \<and> \<not> user_ptr_ok a3 8 k then err k
             else Ret 0 k (if a3 = 0 then [] else [Store a3 (le_store 8 tok)])))"

definition sys_auth_hash :: "env \<Rightarrow> u64 \<Rightarrow> u64 \<Rightarrow> u64 \<Rightarrow> kern \<Rightarrow> outcome" where
  "sys_auth_hash e a1 a2 a3 k =
    (if \<not> syscall_cap CAP_USER_ADMIN k then err k
     else case (user_str e a1 64 k, user_str e a2 33 k) of
       (Some pw, Some salt) \<Rightarrow>
         if a3 = 0 \<or> \<not> user_ptr_ok a3 65 k then err k
         else Ret 0 k [Store a3 (auth_hash_password (Some pw) salt @ [NUL])]
     | _ \<Rightarrow> err k)"

section \<open>Devices\<close>

definition sys_console :: "u64 \<Rightarrow> kern \<Rightarrow> outcome" where
  "sys_console a1 k =
    (if a1 = 0 then Ret 0 k [ClearConsole] else if a1 = 1 \<or> a1 = 2 then Halted else Ret 0 k [])"

text \<open>The command is the 40-byte structure at \<open>a1\<close>; a character command returns
  before anything is drawn.\<close>

definition sys_fb_draw :: "env \<Rightarrow> u64 \<Rightarrow> kern \<Rightarrow> outcome" where
  "sys_fb_draw e a1 k =
    (if \<not> syscall_cap CAP_FB_DRAW k then err k
     else if a1 = 0 then err k
     else if \<not> user_ptr_ok a1 40 k then err k
     else
       let op = mem_u32 e a1; x = mem_u32 e (a1 + 4); y = mem_u32 e (a1 + 8);
           w = mem_u32 e (a1 + 12); h = mem_u32 e (a1 + 16);
           c = mem_u32 e (a1 + 20); c2 = mem_u32 e (a1 + 24); txt = mem_u64 e (a1 + 32)
       in if op = 4 then Ret 0 k []
          else if op = 3 then
            (if txt = 0 then err k
             else case user_str e txt 129 k of
               None \<Rightarrow> err k
             | Some t \<Rightarrow> Ret 0 k [Draw (DText x y t c c2)])
          else if op = 0 then Ret 0 k [Draw (DClear c)]
          else if op = 1 then Ret 0 k [Draw (DRect x y w h c)]
          else if op = 2 then Ret 0 k [Draw (DRect x y 1 1 c)]
          else err k)"

definition sys_io_port :: "env \<Rightarrow> u64 \<Rightarrow> u64 \<Rightarrow> u64 \<Rightarrow> kern \<Rightarrow> outcome" where
  "sys_io_port e a1 a2 a3 k =
    (if \<not> syscall_cap CAP_DEV_IO k then err k
     else
       let port = ucast a2 :: u16; op = ucast a1 :: u32 in
       if port = 0x60 \<and> op \<le> 2 then Ret (e_port e 8 0x60 AND 0xFF) k []
       else if op = 0 then Ret (e_port e 8 port AND 0xFF) k []
       else if op = 1 then Ret (e_port e 16 port AND 0xFFFF) k []
       else if op = 2 then Ret (e_port e 32 port AND 0xFFFFFFFF) k []
       else if op = 3 then Ret 0 k [PortOut 8 port (a3 AND 0xFF)]
       else if op = 4 then Ret 0 k [PortOut 16 port (a3 AND 0xFFFF)]
       else if op = 5 then Ret 0 k [PortOut 32 port (a3 AND 0xFFFFFFFF)]
       else err k)"

section \<open>Memory\<close>

text \<open>The pages of a request, one frame each: whether all were mapped, how many
  were, and the memory afterwards.  A frame that could not be mapped goes back.\<close>

fun mmap_pages :: "u64 \<Rightarrow> nat \<Rightarrow> u64 \<Rightarrow> nat \<Rightarrow> vm \<Rightarrow> bool \<times> nat \<times> vm" where
  "mmap_pages cr3 0 va n v = (True, n, v)"
| "mmap_pages cr3 (Suc m) va n v =
    (case pmm_alloc_addr 1 (frames v) of (phys, p) \<Rightarrow>
      let v = v\<lparr>frames := p\<rparr> in
      if phys = 0 then (False, n, v)
      else case paging_map_user cr3 va phys (0x7 OR PTE_NX) v of (ok, v) \<Rightarrow>
        if \<not> ok then (False, n, v\<lparr>frames := pmm_free phys 1 (frames v)\<rparr>)
        else mmap_pages cr3 m (va + 0x1000) (Suc n) v)"

text \<open>The rollback: the pages from \<open>va\<close> on are unmapped and their frames released.\<close>

fun mmap_undo :: "u64 \<Rightarrow> nat \<Rightarrow> u64 \<Rightarrow> vm \<Rightarrow> vm" where
  "mmap_undo cr3 0 va v = v"
| "mmap_undo cr3 (Suc n) va v =
    (case paging_unmap_user cr3 va v of (f, v) \<Rightarrow>
      mmap_undo cr3 n (va + 0x1000) (if f \<noteq> 0 then v\<lparr>frames := pmm_free f 1 (frames v)\<rparr> else v))"

definition heap_top :: "(u64 \<times> u64) list \<Rightarrow> u64" where
  "heap_top rs = fold (\<lambda>(b, l) m. if m < b + l then b + l else m) rs 0"

definition sys_mmap :: "u64 \<Rightarrow> kern \<Rightarrow> outcome" where
  "sys_mmap a1 k =
    (case cur (k_sys k) of
       None \<Rightarrow> err k
     | Some i \<Rightarrow>
        let p = procs (k_sys k) ! i in
        if \<not> p_user p then err k
        else
          let pages = (if a1 = 0 then 1 else a1) in
          if 8192 < pages then err k
          else if p_heap p = None \<and> 8 \<le> length (p_umap p) then err k
          else
            let (slot, ub, base) = (case p_heap p of
                   None \<Rightarrow> let b = ((heap_top (p_umap p) + 0xFFF) AND NOT 0xFFF) + 0x10000
                           in (length (p_umap p), b, b)
                 | Some j \<Rightarrow> (j, fst (p_umap p ! j), fst (p_umap p ! j) + snd (p_umap p ! j)));
                cr3 = c_cr3 (p_ctx p)
            in case mmap_pages cr3 (unat pages) base 0 (vmem (k_sys k)) of (ok, n, v) \<Rightarrow>
              if \<not> ok then err (k\<lparr>k_sys := (k_sys k)\<lparr>vmem := mmap_undo cr3 n base v\<rparr>\<rparr>)
              else
                let sz = base + of_nat n * 0x1000 - ub;
                    rs = (case p_heap p of None \<Rightarrow> p_umap p @ [(ub, sz)]
                            | Some j \<Rightarrow> (p_umap p)[j := (ub, sz)])
                in Ret base (k\<lparr>k_sys := upd i (\<lambda>p. p\<lparr>p_umap := rs, p_heap := Some slot\<rparr>)
                       ((k_sys k)\<lparr>vmem := v\<rparr>)\<rparr>) [])"

definition USER_DEVIO_BASE :: u64 where "USER_DEVIO_BASE = 0x00007ff000000000"

fun dev_pages :: "u64 \<Rightarrow> nat \<Rightarrow> u64 \<Rightarrow> u64 \<Rightarrow> vm \<Rightarrow> bool \<times> vm" where
  "dev_pages cr3 0 va phys v = (True, v)"
| "dev_pages cr3 (Suc n) va phys v =
    (case paging_map_user cr3 va phys (0x7 OR PTE_NX OR PTE_AVAIL_MMIO) v of (ok, v) \<Rightarrow>
      if \<not> ok then (False, v) else dev_pages cr3 n (va + 0x1000) (phys + 0x1000) v)"

definition sys_dev_map :: "u64 \<Rightarrow> u64 \<Rightarrow> kern \<Rightarrow> outcome" where
  "sys_dev_map a1 a2 k =
    (case cur (k_sys k) of
       None \<Rightarrow> err k
     | Some i \<Rightarrow>
        let p = procs (k_sys k) ! i in
        if \<not> p_user p then err k
        else if \<not> syscall_cap CAP_DEV_IO k then err k
        else if a1 AND 0xFFF \<noteq> 0 \<or> a2 = 0 \<or> 0x100000 < a2 then err k
        else
          let size = (a2 + 0xFFF) AND NOT 0xFFF;
              base = (if p_devio_base p = 0 then USER_DEVIO_BASE else p_devio_base p);
              va = base + p_devio_used p
          in case dev_pages (c_cr3 (p_ctx p)) (unat (drop_bit 12 size)) va a1 (vmem (k_sys k)) of (ok, v) \<Rightarrow>
            let used' = (if ok then p_devio_used p + size else p_devio_used p);
                k' = k\<lparr>k_sys := upd i (\<lambda>p. p\<lparr>p_devio_base := base, p_devio_used := used'\<rparr>)
                        ((k_sys k)\<lparr>vmem := v\<rparr>)\<rparr>
            in if ok then Ret va k' [] else err k')"

definition sys_v2p :: "u64 \<Rightarrow> kern \<Rightarrow> outcome" where
  "sys_v2p a1 k =
    (case current_proc k of
       None \<Rightarrow> err k
     | Some p \<Rightarrow>
        if \<not> p_user p then err k
        else if \<not> syscall_cap CAP_DEV_IO k then err k
        else case paging_phys_of_user (c_cr3 (p_ctx p)) a1 (vmem (k_sys k)) of
          None \<Rightarrow> err k
        | Some (pa, _) \<Rightarrow> Ret (if pa = 0 then SYSERR else pa) k [])"

section \<open>The dispatcher\<close>

definition SYS_FS_READ :: u64 where "SYS_FS_READ = 7"
definition SYS_IPC_RECV :: u64 where "SYS_IPC_RECV = 5"
definition SYS_EXEC :: u64 where "SYS_EXEC = 3"
definition SYS_SESSION_LOGIN :: u64 where "SYS_SESSION_LOGIN = 21"

definition syscall_dispatch ::
  "env \<Rightarrow> u64 \<Rightarrow> u64 \<Rightarrow> u64 \<Rightarrow> u64 \<Rightarrow> u64 \<Rightarrow> kern \<Rightarrow> outcome" where
  "syscall_dispatch e nr a1 a2 a3 a4 k =
    (if (case current_proc k of None \<Rightarrow> False
           | Some p \<Rightarrow> p_rights p AND CAP_SYSCALL = 0 \<and> p_rights p \<noteq> CAP_ALL) then err k
     else if nr = 0 then sys_exit a1 k
     else if nr = 1 then sys_write e a2 a3 k
     else if nr = 2 then sys_read e a1 a2 k
     else if nr = SYS_EXEC then sys_exec e a1 a2 a3 k
     else if nr = 4 \<or> nr = 11 then sys_ipc_send e a1 a2 a3 a4 k
     else if nr = SYS_IPC_RECV then sys_ipc_recv a1 a2 a3 a4 k
     else if nr = 6 then sys_yield k
     else if nr = SYS_FS_READ then sys_fs_read e a1 a2 a3 k
     else if nr = 8 then sys_fs_write e a1 a2 a3 k
     else if nr = 9 then sys_fs_list e a1 a2 a3 k
     else if nr = 10 then sys_getpid k
     else if nr = 12 then sys_sysinfo a1 k
     else if nr = 13 then sys_uptime k
     else if nr = 14 then sys_getppid k
     else if nr = 15 then sys_proc_list e a1 a2 k
     else if nr = 16 then sys_fs_create e a1 a2 k
     else if nr = 17 then sys_auth_count k
     else if nr = 18 then sys_auth_create e a1 a2 k
     else if nr = 19 then sys_auth_verify e a1 a2 k
     else if nr = 20 then sys_contract_list a1 a2 k
     else if nr = SYS_SESSION_LOGIN then sys_session_login e a1 a2 a3 k
     else if nr = 22 then sys_console a1 k
     else if nr = 23 then sys_fs_remove e a1 k
     else if nr = 24 then sys_waitpid a1 k
     else if nr = 25 then sys_svc_register e a1 k
     else if nr = 26 then sys_svc_query e a1 a2 k
     else if nr = 27 then sys_auth_list a1 a2 k
     else if nr = 28 then sys_auth_delete e a1 k
     else if nr = 29 then sys_auth_changepw e a1 a2 a3 k
     else if nr = 30 then sys_auth_create_user e a1 a2 k
     else if nr = 31 then sys_fb_draw e a1 k
     else if nr = 32 then sys_io_port e a1 a2 a3 k
     else if nr = 33 then sys_mmap a1 k
     else if nr = 34 then sys_dev_map a1 a2 k
     else if nr = 35 then sys_v2p a1 k
     else if nr = 36 then sys_ticket_issue e a1 a2 a3 k
     else if nr = 37 then sys_auth_hash e a1 a2 a3 k
     else err k)"

section \<open>Pointers that pass the check\<close>

definition in_regions :: "pcb \<Rightarrow> u64 \<Rightarrow> nat \<Rightarrow> bool" where
  "in_regions p a n \<longleftrightarrow>
    (\<exists>(b, sz)\<in>set (p_umap p). unat b \<le> unat a \<and> unat a + n \<le> unat b + unat sz)"

lemma in_regions_mono: "in_regions p a n \<Longrightarrow> m \<le> n \<Longrightarrow> in_regions p a m"
  unfolding in_regions_def by (elim bexE) (auto intro!: bexI)

lemma unat_add_ge:
  fixes a n :: u64
  assumes "\<not> a + n < a"
  shows "unat (a + n) = unat a + unat n"
proof -
  have e: "unat (a + n) = (unat a + unat n) mod 2 ^ 64" by (simp add: unat_word_ariths)
  have b: "unat a < 2 ^ 64" "unat n < 2 ^ 64"
    using unsigned_less [of a, where ?'a = nat] unsigned_less [of n, where ?'a = nat] by simp_all
  have le: "unat a \<le> unat (a + n)" using assms by (simp add: word_le_nat_alt not_less)
  show ?thesis
  proof (cases "unat a + unat n < 2 ^ 64")
    case False
    then have "(unat a + unat n) mod 2 ^ 64 = unat a + unat n - 2 ^ 64"
      using b by (simp add: mod_if)
    then show ?thesis using e le b by simp
  qed (use e in simp)
qed

lemma user_ptr_ok_sound:
  assumes ok: "user_ptr_ok a len k" and p: "current_proc k = Some p" "p_user p" and len: "len \<noteq> 0"
  shows "in_regions p a (unat len)"
proof -
  have a0: "a \<noteq> 0" using ok len by (auto simp: user_ptr_ok_def)
  have w: "\<not> a + len < a" using ok len a0 by (auto simp: user_ptr_ok_def split: if_splits)
  have "list_ex (\<lambda>(b, sz). sz \<noteq> 0 \<and> b \<le> a \<and> a - b < sz \<and> (a - b) + len \<le> sz) (p_umap p)"
    using ok len a0 w p by (simp add: user_ptr_ok_def)
  then obtain b sz where r: "(b, sz) \<in> set (p_umap p)" "b \<le> a" "(a - b) + len \<le> sz"
    by (auto simp: list_ex_iff)
  have al: "unat (a + len) = unat a + unat len"
    using w by (rule unat_add_ge)
  have ab: "unat (a - b) = unat a - unat b" using r(2) by (rule unat_sub)
  have "unat ((a - b) + len) = unat (a - b) + unat len"
  proof (rule unat_add_no_wrap)
    have "unat a + unat len < 2 ^ 64" using al unsigned_less [of "a + len", where ?'a = nat] by simp
    then show "unat (a - b) + unat len < 2 ^ LENGTH(64)" using ab by simp
  qed
  then have "unat a - unat b + unat len \<le> unat sz" using r(3) ab by (simp add: word_le_nat_alt)
  moreover have "unat b \<le> unat a" using r(2) by (simp add: word_le_nat_alt)
  ultimately show ?thesis using r(1) by (force simp: in_regions_def)
qed

text \<open>Every byte of a string read from the caller lies in its regions.\<close>

lemma user_str_loop_sound:
  "user_str_loop e k src n = Some s \<Longrightarrow> current_proc k = Some p \<Longrightarrow> p_user p \<Longrightarrow>
    length s < n \<and> NUL \<notin> set s \<and> s = mem_bytes e src (length s) \<and>
    (\<forall>i\<le>length s. in_regions p (src + of_nat i) 1)"
proof (induction n arbitrary: src s)
  case (Suc n)
  then have ok: "user_ptr_ok src 1 k" by (auto split: if_splits)
  have r0: "in_regions p src 1" using user_ptr_ok_sound [OF ok Suc.prems(2,3)] by simp
  show ?case
  proof (cases "e_mem e src = NUL")
    case True
    then show ?thesis using Suc.prems(1) ok r0 by (simp add: mem_bytes_def)
  next
    case False
    then obtain t where t: "user_str_loop e k (src + 1) n = Some t" "s = e_mem e src # t" "n \<noteq> 0"
      using Suc.prems(1) ok by (auto split: if_splits)
    note IH = Suc.IH [OF t(1) Suc.prems(2,3)]
    have "mem_bytes e src (Suc (length t)) = e_mem e src # mem_bytes e (src + 1) (length t)"
      by (simp add: mem_bytes_def upt_conv_Cons map_Suc_upt [symmetric] add.assoc del: upt_Suc map_Suc_upt)
    moreover have "in_regions p (src + of_nat i) 1" if "i \<le> length s" for i
    proof (cases i)
      case (Suc j)
      then have "in_regions p (src + 1 + of_nat j) 1" using IH that t(2) by simp
      then show ?thesis using Suc by (simp add: add.assoc)
    qed (use r0 in simp)
    ultimately show ?thesis using IH t False by auto
  qed
qed simp

lemma user_str_sound:
  assumes "user_str e src mx k = Some s"
  shows "length s < mx" "cstr s = s"
proof -
  have "user_str_loop e k src n = Some s \<Longrightarrow> length s < n \<and> NUL \<notin> set s" for src s n
  proof (induction n arbitrary: src s)
    case (Suc n)
    then show ?case by (force split: if_splits)
  qed simp
  then have "length s < mx \<and> NUL \<notin> set s" using assms by (auto simp: user_str_def split: if_splits)
  then show "length s < mx" "cstr s = s" by (simp_all add: cstr_id)
qed

section \<open>Where the kernel stores\<close>

fun store_ok :: "pcb \<Rightarrow> event \<Rightarrow> bool" where
  "store_ok p (Store a d) \<longleftrightarrow> d = [] \<or> in_regions p a (length d)"
| "store_ok p _ \<longleftrightarrow> True"

text \<open>A result whose stores all go to the caller's regions.\<close>

fun stores_ok :: "pcb \<Rightarrow> outcome \<Rightarrow> bool" where
  "stores_ok p (Ret r k ev) \<longleftrightarrow> list_all (store_ok p) ev"
| "stores_ok p _ \<longleftrightarrow> True"

lemma store_checked:
  assumes "user_ptr_ok a len k" "current_proc k = Some p" "p_user p" "length d \<le> unat len"
  shows "store_ok p (Store a d)"
proof (cases "len = 0")
  case False
  then show ?thesis using user_ptr_ok_sound [OF assms(1-3)] assms(4) by (auto intro: in_regions_mono)
qed (use assms(4) in simp)

lemma length_le_store [simp]: "length (le_store n v) = n"
  by (induction n arbitrary: v) simp_all

lemma length_append_fit: "length out < mx \<Longrightarrow> length (append_fit mx out s) < mx"
  by (auto simp: append_fit_def strlen_cstr)

lemma length_append_pieces: "length out < mx \<Longrightarrow> length (append_pieces mx out ps) < mx"
  by (induction mx out ps rule: append_pieces.induct) (simp_all add: append_dec_def length_append_fit)

text \<open>A read stores no more than it was asked for, except that a read of no bytes
  of a generated file still stores one.\<close>

lemma vfs_read_bound:
  assumes "vfs_read cwd path mx k = (r, stored)" "mx \<noteq> 0"
  shows "length stored \<le> mx"
proof -
  have "length (fst (vfs_pseudo_read n mx k)) < mx" for n
    using assms(2) length_append_pieces [of "[]" mx] by (simp add: vfs_pseudo_read_def Let_def split: option.split)
  then have P: "length (snd (vfs_pseudo_read n mx k)) \<le> mx" for n
    using assms(2) by (auto simp: vfs_pseudo_read_def Let_def less_imp_le)
  have F: "fs_read n mx f = Some d \<Longrightarrow> length d \<le> mx" for n f d
    by (auto simp: fs_read_def split: option.splits if_splits)
  show ?thesis
  proof (cases "norm_of cwd path")
    case (Some n)
    then show ?thesis
      using assms(1) P [of n] F [of n "k_fs k"]
      by (cases "vfs_pseudo_read n mx k") (auto simp: vfs_read_def split: if_splits option.splits)
  qed (use assms(1) in \<open>simp add: vfs_read_def\<close>)
qed

named_theorems sys_stores

lemma cur_same: "k_sys k' = k_sys k \<Longrightarrow> current_proc k' = current_proc k"
  by (simp add: current_proc_def)

lemma user_ptr_cong: "current_proc k' = current_proc k \<Longrightarrow> user_ptr_ok a n k' = user_ptr_ok a n k"
  by (simp add: user_ptr_ok_def)

lemma recv_same: "ipc_try_receive n s q = (r, s', q') \<Longrightarrow> s' = s"
  by (auto simp: ipc_try_receive_def take_msg_def split: if_splits option.splits prod.splits)

text \<open>Each handler, for a caller in ring 3.\<close>

abbreviation caller :: "kern \<Rightarrow> pcb \<Rightarrow> bool" where
  "caller k p \<equiv> current_proc k = Some p \<and> p_user p"

lemma store_at: "caller k p \<Longrightarrow> user_ptr_ok a len k \<Longrightarrow> length d \<le> unat len \<Longrightarrow> store_ok p (Store a d)"
  using store_checked by blast

lemma stores_fixed [sys_stores]:
  assumes c: "caller k p"
  shows "stores_ok p (sys_exit a1 k)" "stores_ok p (sys_write e a2 a3 k)"
    "stores_ok p (sys_yield k)" "stores_ok p (sys_getpid k)" "stores_ok p (sys_getppid k)"
    "stores_ok p (sys_uptime k)" "stores_ok p (sys_auth_count k)" "stores_ok p (sys_console a1 k)"
    "stores_ok p (sys_io_port e a1 a2 a3 k)" "stores_ok p (sys_v2p a1 k)"
  by (simp_all add: sys_exit_def sys_write_def sys_yield_def sys_getpid_def sys_getppid_def sys_uptime_def
      sys_auth_count_def sys_console_def sys_io_port_def sys_v2p_def Let_def split: option.split prod.split)

lemma stores_sysinfo [sys_stores]: "caller k p \<Longrightarrow> stores_ok p (sys_sysinfo a1 k)"
  using store_at [of k p a1 48 "info_bytes (sysinfo_get k)"]
  by (simp add: sys_sysinfo_def info_bytes_def del: store_ok.simps)

lemma stores_quiet [sys_stores]:
  assumes c: "caller k p"
  shows "stores_ok p (sys_exec e a1 a2 a3 k)" "stores_ok p (sys_ipc_send e a1 a2 a3 a4 k)"
    "stores_ok p (sys_fs_write e a1 a2 a3 k)" "stores_ok p (sys_fs_create e a1 a2 k)"
    "stores_ok p (sys_fs_remove e a1 k)" "stores_ok p (sys_waitpid a1 k)"
    "stores_ok p (sys_svc_register e a1 k)" "stores_ok p (sys_auth_create e a1 a2 k)"
    "stores_ok p (sys_auth_verify e a1 a2 k)" "stores_ok p (sys_auth_delete e a1 k)"
    "stores_ok p (sys_auth_changepw e a1 a2 a3 k)" "stores_ok p (sys_auth_create_user e a1 a2 k)"
    "stores_ok p (sys_session_login e a1 a2 a3 k)" "stores_ok p (sys_fb_draw e a1 k)"
  by (simp_all add: sys_exec_def sys_ipc_send_def sys_fs_write_def sys_fs_create_def sys_fs_remove_def
      sys_waitpid_def sys_svc_register_def sys_auth_create_def sys_auth_verify_def sys_auth_delete_def
      sys_auth_changepw_def sys_auth_create_user_def sys_session_login_def sys_fb_draw_def with_auth_def
      Let_def split: option.split prod.split wait_result.split)

lemma stores_memory [sys_stores]:
  assumes c: "caller k p"
  shows "stores_ok p (sys_mmap a1 k)" "stores_ok p (sys_dev_map a1 a2 k)"
  by (simp_all add: sys_mmap_def sys_dev_map_def Let_def split: option.split prod.split)

lemma stores_fs_read [sys_stores]:
  assumes c: "caller k p" and n: "a3 \<noteq> 0"
  shows "stores_ok p (sys_fs_read e a1 a2 a3 k)"
proof -
  have m: "unat a3 \<noteq> 0" using n by (simp add: unat_eq_0)
  show ?thesis
    using vfs_read_bound [OF _ m] store_at [OF c]
    by (auto simp: sys_fs_read_def simp del: store_ok.simps split: option.split prod.split)
qed

lemma stores_fs_list [sys_stores]: "caller k p \<Longrightarrow> stores_ok p (sys_fs_list e a1 a2 a3 k)"
  using store_at [of k p a2]
  by (auto simp: sys_fs_list_def stack_buffer_def Let_def simp del: store_ok.simps split: option.split)

lemma stores_svc_query [sys_stores]:
  assumes c: "caller k p"
  shows "stores_ok p (sys_svc_query e a1 a2 k)"
proof -
  have u: "user_ptr_ok a n (k\<lparr>k_svc := v\<rparr>) = user_ptr_ok a n k" for a n v
    by (intro user_ptr_cong cur_same) simp
  show ?thesis
    using store_at [OF c, of a2 4]
    by (auto simp: sys_svc_query_def Let_def u simp del: store_ok.simps split: option.split prod.split)
qed

lemma stores_ticket [sys_stores]:
  assumes c: "caller k p"
  shows "stores_ok p (sys_ticket_issue e a1 a2 a3 k)"
proof -
  have u: "user_ptr_ok a n (k\<lparr>k_auth := v\<rparr>) = user_ptr_ok a n k" for a n v
    by (intro user_ptr_cong cur_same) simp
  show ?thesis
    using store_at [OF c, of a3 8]
    by (auto simp: sys_ticket_issue_def Let_def u simp del: store_ok.simps split: option.split prod.split)
qed

lemma stores_auth_hash [sys_stores]: "caller k p \<Longrightarrow> stores_ok p (sys_auth_hash e a1 a2 a3 k)"
  using store_at [of k p a3 65]
  by (auto simp: sys_auth_hash_def length_hash simp del: store_ok.simps split: option.split)

lemma text_store:
  assumes "caller k p" "n \<le> 4096" "user_ptr_ok a1 (of_nat (min (length t) n)) k"
  shows "store_ok p (Store a1 (take (min (length t) n) t))"
proof (rule store_at [OF assms(1,3)])
  have "unat (of_nat (min (length t) n) :: u64) = min (length t) n"
    by (rule unat_of_nat_small) (use assms(2) in simp)
  then show "length (take (min (length t) n) t) \<le> unat (of_nat (min (length t) n) :: u64)" by simp
qed

lemma checked_store:
  assumes "caller k p" "n \<le> 4096"
  shows "stores_ok p (if \<not> user_ptr_ok a1 (of_nat (min (length t) n)) k then err k
      else Ret r k [Store a1 (take (min (length t) n) t)])"
proof (cases "user_ptr_ok a1 (of_nat (min (length t) n)) k")
  case True
  then show ?thesis
    using text_store [OF assms True]
    by (simp only: if_False stores_ok.simps list.pred_inject simp_thms not_True_eq_False True)
next
  case False
  show ?thesis by (simp only: False not_False_eq_True if_True stores_ok.simps list.pred_inject)
qed

lemma stores_text [sys_stores]:
  assumes c: "caller k p"
  shows "stores_ok p (sys_auth_list a1 a2 k)" "stores_ok p (sys_contract_list a1 a2 k)"
proof -
  define n where "n = unat (if 4096 < a2 then 4096 else a2)"
  have "n \<le> 4096" by (auto simp: n_def word_less_nat_alt)
  note T = checked_store [OF c this]
  have E: "stores_ok p (if b then err k else x) \<longleftrightarrow> b \<or> stores_ok p x" for b x by simp
  show "stores_ok p (sys_auth_list a1 a2 k)" "stores_ok p (sys_contract_list a1 a2 k)"
    unfolding sys_auth_list_def sys_contract_list_def n_def [symmetric] Let_def
    using T by (blast intro: E [THEN iffD2])+
qed

lemma stores_proc_list [sys_stores]:
  assumes c: "caller k p"
  shows "stores_ok p (sys_proc_list e a1 a2 k)"
proof -
  let ?c = "sint (ucast a2 :: u32)"
  define m where "m = (if a2 = 0 then 64 else if ?c \<le> 0 \<or> 64 < ?c then 64 else ?c)"
  let ?ps = "sysinfo_proc_list m k"
  have l: "length ?ps \<le> 64"
    using sysinfo_proc_list_bound [of m k] by (auto simp: m_def split: if_splits)
  have n: "length (pi_name i) \<le> 63" if "i \<in> set ?ps" for i
    using that set_take_subset by (fastforce simp: sysinfo_proc_list_def proc_info_of_def split: if_splits)
  have one: "length (proc_info_bytes e i) = 80" if "i \<in> set ?ps" for i
    using n [OF that] by (simp add: proc_info_bytes_def)
  have "length (concat (map (proc_info_bytes e) ?ps)) = length ?ps * 80"
  proof -
    have "(\<And>i. i \<in> set xs \<Longrightarrow> length (proc_info_bytes e i) = 80) \<Longrightarrow>
        length (concat (map (proc_info_bytes e) xs)) = length xs * 80" for xs
      by (induction xs) simp_all
    then show ?thesis using one by blast
  qed
  moreover have "unat (of_nat (length ?ps) * 80 :: u64) = length ?ps * 80"
  proof -
    have "of_nat (length ?ps) * 80 = (of_nat (length ?ps * 80) :: u64)" by simp
    moreover have "unat (of_nat (length ?ps * 80) :: u64) = length ?ps * 80"
      by (rule unat_of_nat_small) (use l in simp)
    ultimately show ?thesis by (simp only:)
  qed
  ultimately have "length (concat (map (proc_info_bytes e) ?ps)) \<le> unat (of_nat (length ?ps) * 80 :: u64)"
    by (simp only: order.refl)
  then have "user_ptr_ok a1 (of_nat (length ?ps) * 80) k \<Longrightarrow>
      store_ok p (Store a1 (concat (map (proc_info_bytes e) ?ps)))"
    by (rule store_at [OF c, rotated])
  then show ?thesis
    unfolding sys_proc_list_def m_def [symmetric] Let_def by (simp del: store_ok.simps)
qed

lemma stores_recv [sys_stores]:
  assumes c: "caller k p" and n: "a1 \<noteq> 0"
  shows "stores_ok p (sys_ipc_recv a1 a2 a3 a4 k)"
proof -
  obtain r s q where t: "ipc_try_receive (unat a2) (k_sys k) (k_ipc k) = (r, s, q)" by (metis prod_cases3)
  have s: "s = k_sys k" by (rule recv_same [OF t])
  have u: "user_ptr_ok a m (k\<lparr>k_ipc := v\<rparr>) = user_ptr_ok a m k" for a m v
    by (intro user_ptr_cong cur_same) simp
  have d: "length d \<le> unat a2" if "r = RMsg f ty d" for f ty d
    using t that by (auto simp: ipc_try_receive_def take_msg_def split: if_splits option.splits prod.splits)
  show ?thesis
    using t n d store_at [OF c, of a1 a2] store_at [OF c, of a3 4] store_at [OF c, of a4 4]
    by (cases r) (auto simp: sys_ipc_recv_def s u Let_def simp del: store_ok.simps)
qed

text \<open>A wake-up does not touch the regions of the caller.\<close>

lemma wakeup_caller:
  assumes "current_proc (k\<lparr>k_sys := sched_wakeup pid (k_sys k), k_ipc := q\<rparr>) = Some p'" "current_proc k = Some p"
  shows "p_umap p' = p_umap p" "p_user p' = p_user p"
  using assms
  by (auto simp: current_proc_def sched_wakeup_def procs_upd_any split: option.splits if_splits)

lemma do_send_sys: "do_send to type d s q = (r, s', q') \<Longrightarrow> s' = s \<or> s' = sched_wakeup to s"
  by (auto simp: do_send_def Let_def split: if_splits prod.splits option.splits)

lemma kbd_request_caller:
  assumes r: "kbd_request k kbd = (ch, k')" and c: "caller k p"
  shows "\<exists>p'. caller k' p' \<and> p_umap p' = p_umap p"
proof -
  obtain x s q where d: "ipc_send kbd 10 ''g'' (k_sys k) (k_ipc k) = (x, s, q)" by (metis prod_cases3)
  obtain res s2 q2 where t: "ipc_try_receive 8 s q = (res, s2, q2)" by (metis prod_cases3)
  have "s2 = s" by (rule recv_same [OF t])
  then have k': "k_sys k' = s"
    using r d t by (cases res) (auto simp: kbd_request_def Let_def split: if_splits)
  have cs: "cur (sched_wakeup kbd (k_sys k)) = cur (k_sys k)"
    by (simp add: sched_wakeup_def split: option.split)
  obtain i where i: "cur (k_sys k) = Some i" using c by (auto simp: current_proc_def)
  from do_send_sys [OF d] show ?thesis
  proof
    assume "s = k_sys k"
    then show ?thesis using c k' by (auto simp: current_proc_def)
  next
    assume "s = sched_wakeup kbd (k_sys k)"
    then show ?thesis
      using c k' i cs wakeup_caller [where k = k and pid = kbd and q = "k_ipc k" and p = p]
      by (auto simp: current_proc_def)
  qed
qed

lemma stores_read [sys_stores]:
  assumes c: "caller k p"
  shows "stores_ok p (sys_read e a1 a2 k)"
proof -
  obtain r pid v where v: "svc_query (Some ''kbd'') (k_sys k) (k_svc k) = (r, pid, v)" by (metis prod_cases3)
  let ?k = "k\<lparr>k_svc := v\<rparr>"
  have c1: "caller ?k p" using c by (simp add: current_proc_def)
  obtain ch k2 where k2: "(case pid of Some kbd \<Rightarrow> if r = 0 \<and> 0 < kbd then kbd_request ?k kbd else (e_key e, ?k)
      | None \<Rightarrow> (e_key e, ?k)) = (ch, k2)" by fastforce
  have "\<exists>p'. caller k2 p' \<and> p_umap p' = p_umap p"
    using k2 c1 kbd_request_caller [OF _ c1] by (auto split: option.splits if_splits)
  then obtain p' where p': "caller k2 p'" "p_umap p' = p_umap p" by blast
  have "store_ok p (Store a1 [ch])" if "user_ptr_ok a1 1 k2"
    using store_at [OF p'(1) that, of "[ch]"] p'(2) by (simp add: in_regions_def)
  then show ?thesis
    using v k2 by (simp add: sys_read_def Let_def del: store_ok.simps)
qed

text \<open>The two calls that store elsewhere.  A read of no bytes checks no address, and the read of a
  generated file then stores one NUL; a receive with the null pointer checks nothing and copies the
  message to address 0.\<close>

lemma vfs_read_none:
  assumes "vfs_read cwd path 0 k = (r, stored)"
  shows "stored = [] \<or> stored = [NUL]"
proof -
  have a: "append_fit 0 out s = out" for out s by (simp add: append_fit_def)
  have "append_pieces 0 [] ps = []" for ps
  proof (induction ps)
    case (Cons x ps)
    then show ?case using a by (cases x) (simp_all add: append_dec_def)
  qed simp
  then have P: "vfs_pseudo_read n 0 k = ([], [NUL])" for n
    by (simp add: vfs_pseudo_read_def Let_def split: option.split)
  have F: "fs_read n 0 f = Some d \<Longrightarrow> d = []" for n f d
    by (auto simp: fs_read_def split: option.splits if_splits)
  show ?thesis
    using assms P F by (auto simp: vfs_read_def split: option.splits if_splits)
qed

lemma fs_read_slip:
  assumes "caller k p"
  shows "stores_ok p (sys_fs_read e a1 a2 0 k) \<or> (\<exists>v. sys_fs_read e a1 a2 0 k = Ret v k [Store a2 [NUL]])"
proof (cases "user_str e a1 256 k")
  case (Some path)
  obtain r stored where v: "vfs_read ROOT (Some path) 0 k = (r, stored)" by fastforce
  show ?thesis
    using Some v vfs_read_none [OF v] by (auto simp: sys_fs_read_def split: option.split)
qed (simp add: sys_fs_read_def)

lemma recv_slip:
  assumes c: "caller k p"
  shows "stores_ok p (sys_ipc_recv 0 a2 a3 a4 k) \<or>
    (\<exists>v k' d ev. length d \<le> unat a2 \<and> sys_ipc_recv 0 a2 a3 a4 k = Ret v k' (Store 0 d # ev) \<and> stores_ok p (Ret v k' ev))"
proof -
  obtain r s q where t: "ipc_try_receive (unat a2) (k_sys k) (k_ipc k) = (r, s, q)" by (metis prod_cases3)
  have s: "s = k_sys k" by (rule recv_same [OF t])
  have u: "user_ptr_ok a m (k\<lparr>k_ipc := v\<rparr>) = user_ptr_ok a m k" for a m v
    by (intro user_ptr_cong cur_same) simp
  have d: "length d \<le> unat a2" if "r = RMsg f ty d" for f ty d
    using t that by (auto simp: ipc_try_receive_def take_msg_def split: if_splits option.splits prod.splits)
  show ?thesis
    using t d store_at [OF c, of a3 4] store_at [OF c, of a4 4]
    by (cases r) (auto simp: sys_ipc_recv_def s u Let_def simp del: store_ok.simps)
qed

theorem dispatch_stores:
  assumes "caller k p" "\<not> (nr = SYS_FS_READ \<and> a3 = 0)" "\<not> (nr = SYS_IPC_RECV \<and> a1 = 0)"
  shows "stores_ok p (syscall_dispatch e nr a1 a2 a3 a4 k)"
  using assms by (simp add: syscall_dispatch_def sys_stores)

end
