(* ===== verification/SysInv.thy ===== *)
theory SysInv
  imports Syscall
begin

unbundle bit_operations_syntax

text \<open>
  What every system call keeps of the kernel's state: the invariants of the
  scheduler, the file tree, the contracts, the accounts, the mailboxes and the
  service table hold together before and after each call, whatever its
  arguments and whatever memory they point to.
\<close>

section \<open>The invariant of the kernel\<close>

definition kern_inv :: "kern \<Rightarrow> bool" where
  "kern_inv k \<longleftrightarrow> sched_inv (k_sys k) \<and> cur_running (k_sys k) \<and> tree_ok (k_fs k) \<and>
     pact_ok (k_pact k) \<and> auth_ok (k_auth k) \<and> ipc_ok (k_ipc k) \<and> svc_ok (k_svc k)"

lemma kern_invD:
  assumes "kern_inv k"
  shows "sched_inv (k_sys k)" "cur_running (k_sys k)" "tree_ok (k_fs k)" "pact_ok (k_pact k)"
    "auth_ok (k_auth k)" "ipc_ok (k_ipc k)" "svc_ok (k_svc k)"
  using assms by (simp_all add: kern_inv_def)

text \<open>A property of every kernel an outcome leaves.\<close>

fun leaves :: "(kern \<Rightarrow> bool) \<Rightarrow> outcome \<Rightarrow> bool" where
  "leaves P (Ret r k ev) \<longleftrightarrow> P k"
| "leaves P (Gone k) \<longleftrightarrow> P k"
| "leaves P _ \<longleftrightarrow> True"

section \<open>The steps of the components\<close>

lemma boxes_update_ok: "ipc_ok q \<Longrightarrow> box_ok b \<Longrightarrow> ipc_ok (q\<lparr>boxes := (boxes q)[i := b]\<rparr>)"
  by (auto simp: ipc_ok_def dest!: set_update_subset_insert [THEN subsetD])

lemma mailbox_for_ok:
  assumes ok: "ipc_ok q" and m: "mailbox_for pid q = (r, q')"
  shows "ipc_ok q' \<and> (\<forall>i. r = Some i \<longrightarrow> i < length (boxes q'))"
proof (cases "first_index (\<lambda>b. mb_pid b = pid) (boxes q)")
  case (Some i)
  then show ?thesis
    using ok m first_index_SomeD(1) [OF Some] by (auto simp: mailbox_for_def ipc_ok_def)
next
  case N: None
  show ?thesis
  proof (cases "first_index (\<lambda>b. mb_pid b = 0) (boxes q)")
    case None
    then show ?thesis using ok m N by (simp add: mailbox_for_def ipc_ok_def)
  next
    case (Some i)
    note i = first_index_SomeD(1) [OF Some]
    let ?b = "(boxes q ! i)\<lparr>mb_pid := pid, mb_head := 0, mb_count := 0\<rparr>"
    have "box_ok ?b" using ipc_box_ok [OF ok i] by (simp add: box_ok_def)
    moreover have "ipc_ready q" using ok by (simp add: ipc_ok_def)
    ultimately show ?thesis
      using boxes_update_ok [OF ok, of ?b i] m N Some i by (auto simp: mailbox_for_def)
  qed
qed

lemma upd_box_ok: "ipc_ok q \<Longrightarrow> box_ok b \<Longrightarrow> ipc_ok (upd_box i b q)"
  unfolding upd_box_def by (rule boxes_update_ok)

lemma do_send_ok:
  assumes "ipc_ok q" "do_send to type d s q = (r, s', q')"
  shows "ipc_ok q'"
proof (cases "mailbox_for to q")
  case (Pair o1 q1)
  note M = mailbox_for_ok [OF assms(1) Pair]
  show ?thesis
  proof (cases o1)
    case None
    then show ?thesis using assms M Pair by (auto simp: do_send_def split: if_splits)
  next
    case (Some i)
    then have "box_ok (boxes q1 ! i)" using M ipc_box_ok by blast
    then show ?thesis
      using assms M Pair Some by (auto simp: do_send_def Let_def mbox.push_ok intro: upd_box_ok split: if_splits)
  qed
qed

lemma try_receive_ok:
  assumes "ipc_ok q" "ipc_try_receive n s q = (r, s', q')"
  shows "ipc_ok q'"
proof (cases "mailbox_for (cur_pid s) q")
  case (Pair o1 q1)
  note M = mailbox_for_ok [OF assms(1) Pair]
  show ?thesis
  proof (cases o1)
    case None
    then show ?thesis using assms M Pair by (auto simp: ipc_try_receive_def split: if_splits)
  next
    case (Some i)
    then have b: "box_ok (boxes q1 ! i)" using M ipc_box_ok by blast
    show ?thesis
      using assms M Pair Some mbox.pop_ok [OF b]
      by (auto simp: ipc_try_receive_def take_msg_def intro: upd_box_ok split: if_splits option.splits)
  qed
qed

lemma do_send_inv:
  assumes "sched_inv s" "cur_running s" "do_send to type d s q = (r, s', q')"
  shows "sched_inv s' \<and> cur_running s'"
  using do_send_sys [OF assms(3)] sched_wakeup_inv [OF assms(1,2)] assms(1,2) by auto

text \<open>A change of a slot that keeps it present and in its state.\<close>

lemma upd_keeps_inv:
  assumes inv: "sched_inv s" and run: "cur_running s"
    and f: "\<And>p. p_present (f p) = p_present p" "\<And>p. p_state (f p) = p_state p" "\<And>p. p_pid (f p) = p_pid p"
  shows "sched_inv (upd i f s) \<and> cur_running (upd i f s)"
proof -
  have v: "view (upd i f s) j = view s j" for j
    by (cases "j = i \<and> i < length (procs s)") (simp_all add: view_def procs_upd_any f)
  have "sched_inv (upd i f s)" by (rule sched_inv_cong [OF _ _ _ v inv]) (simp_all add: upd_def)
  moreover have "cur_running (upd i f s)"
    using run unfolding cur_running_view v by (simp add: upd_def)
  ultimately show ?thesis by blast
qed

lemma waitpid_inv:
  assumes inv: "sched_inv s" "cur_running s" and w: "proc_waitpid pid s = (w, s')"
  shows "sched_inv s' \<and> cur_running s'"
proof -
  have u: "sched_inv (upd i (\<lambda>p. p\<lparr>p_wait_pid := 0\<rparr>) s) \<and> cur_running (upd i (\<lambda>p. p\<lparr>p_wait_pid := 0\<rparr>) s)" for i
    by (rule upd_keeps_inv [OF inv]) simp_all
  have "s' = s \<or> s' = sched_block s \<or> (\<exists>i. s' = upd i (\<lambda>p. p\<lparr>p_wait_pid := 0\<rparr>) s)"
    using w by (auto simp: proc_waitpid_def wait_turn_def split: option.splits if_splits)
  then show ?thesis using u sched_block_inv [OF inv] inv by blast
qed

text \<open>The files rest on the heap, which knows nothing of the processes.\<close>

abbreviation same_procs :: "sys \<Rightarrow> sys \<Rightarrow> bool" where
  "same_procs s s' \<equiv> procs s' = procs s \<and> cur s' = cur s \<and> cur_index s' = cur_index s"

lemma same_procs_inv: "same_procs s s' \<Longrightarrow> sched_inv s \<Longrightarrow> cur_running s \<Longrightarrow> sched_inv s' \<and> cur_running s'"
  using sched_inv_procs [of s' s] by simp

lemma kmalloc_same: "sys_kmalloc n s = (a, s') \<Longrightarrow> same_procs s s'"
  by (auto simp: sys_kmalloc_def split: prod.splits)

lemma fs_write_same: "fs_write path d f s = (r, f', s') \<Longrightarrow> same_procs s s'"
  by (auto simp: fs_write_def Let_def dest!: kmalloc_same split: if_splits option.splits prod.splits)

lemma fs_remove_same: "fs_remove path f s = (r, f', s') \<Longrightarrow> same_procs s s'"
  by (auto simp: fs_remove_def Let_def split: if_splits option.splits)

lemma ticket_issue_ok: "auth_ok a \<Longrightarrow> auth_ticket_issue e name caps a = (r, a') \<Longrightarrow> auth_ok a'"
  by (auto simp: auth_ticket_issue_def auth_ok_def Let_def split: if_splits)

lemma ticket_consume_ok: "auth_ok a \<Longrightarrow> auth_ticket_consume name tok a = (r, a') \<Longrightarrow> auth_ok a'"
  by (auto simp: auth_ticket_consume_def auth_ok_def Let_def split: option.splits)

lemma create_user_ok:
  assumes "auth_ok a" "strlen name \<le> 31"
  shows "auth_ok (snd (auth_create_user name pw caps adm a))"
proof (cases "auth_create_user name pw caps adm a")
  case (Pair r a')
  have "r \<or> a' = a" using Pair by (auto simp: auth_create_user_def split: if_splits prod.splits)
  then show ?thesis using Pair auth_create_spec(1) [OF _ assms, of pw caps adm a'] assms(1) by auto
qed

lemma change_password_ok:
  assumes "auth_ok a"
  shows "auth_ok (snd (auth_change_password name old new a))" "auth_ok (snd (auth_change_password_admin name new a))"
  using assms set_password_spec(1) [OF assms, of name]
  by (simp_all add: auth_change_password_def auth_change_password_admin_def split: option.split)

lemma user_delete_ok: "auth_ok a \<Longrightarrow> auth_ok (snd (auth_user_delete name a))"
  using auth_delete_spec(1) [of a name "snd (auth_user_delete name a)"]
  by (cases "fst (auth_user_delete name a)") (auto simp: auth_user_delete_def prod_eq_iff split: option.splits)

lemma grant_all_ok: "pact_ok t \<Longrightarrow> pact_ok (grant_all t)"
proof -
  have "pact_ok t \<Longrightarrow> pact_ok (fold (\<lambda>i t. if ct_ativo (ct_list t ! i) then consent_grant (int i) t else t) is t)" for "is"
    by (induction "is" arbitrary: t) (simp_all add: consent_grant_get(3))
  then show "pact_ok t \<Longrightarrow> ?thesis" by (simp add: grant_all_def)
qed

section \<open>Programs\<close>

text \<open>Running a program changes the process table and the memory only.  What the
  loader does to the table is a sequence of heap operations and one creation, so
  a relation these steps satisfy holds between the table before and after.\<close>

definition run_keeps :: "(sys \<Rightarrow> sys \<Rightarrow> bool) \<Rightarrow> kern \<Rightarrow> (int \<times> u32 \<times> kern) option \<Rightarrow> bool" where
  "run_keeps R k r \<longleftrightarrow> (\<forall>q pid k'. r = Some (q, pid, k') \<longrightarrow>
     k' = k\<lparr>k_sys := k_sys k'\<rparr> \<and> R (k_sys k) (k_sys k'))"

lemma run_keeps_sys: "run_keeps R k (Some (q, pid, k\<lparr>k_sys := s\<rparr>)) \<longleftrightarrow> R (k_sys k) s"
  by (auto simp: run_keeps_def)

locale table_relation =
  fixes R :: "sys \<Rightarrow> sys \<Rightarrow> bool"
  assumes refl: "R s s" and trans: "R s t \<Longrightarrow> R t u \<Longrightarrow> R s u"
    and same: "same_procs s s' \<Longrightarrow> R s s'"
    and create: "proc_create_user_regions name rt entry regs args s = (r, s') \<Longrightarrow>
          regs \<noteq> [] \<Longrightarrow> length regs \<le> 7 \<Longrightarrow> R s s'"
begin

lemma run_refl: "run_keeps R k (Some (q, pid, k))"
  by (simp add: run_keeps_def refl)

lemma run_trans:
  assumes "run_keeps R k1 r" "k1 = k\<lparr>k_sys := k_sys k1\<rparr>" "R (k_sys k) (k_sys k1)"
  shows "run_keeps R k r"
  unfolding run_keeps_def
proof (intro allI impI conjI)
  fix q pid k'
  assume "r = Some (q, pid, k')"
  then have k': "k' = k1\<lparr>k_sys := k_sys k'\<rparr>" "R (k_sys k1) (k_sys k')"
    using assms(1) by (simp_all add: run_keeps_def)
  show "R (k_sys k) (k_sys k')" by (rule trans [OF assms(3) k'(2)])
  show "k' = k\<lparr>k_sys := k_sys k'\<rparr>"
    by (subst k'(1), subst assms(2)) simp
qed

lemma core: "run_keeps R k (exec_elf_core pname img args b k)"
proof -
  have f: "R s (case b of None \<Rightarrow> s | Some a \<Rightarrow> sys_kfree a s)" for s
    by (rule same) simp
  show ?thesis
  proof (cases "elf_parse img")
    case (ElfOk entry regs)
    obtain q s where c: "proc_create_user_regions (Some pname) (child_rights k) entry (map snd regs) args (k_sys k) = (q, s)"
      by fastforce
    have "R (k_sys k) s" using create [OF c] elf_parse_ok(1,2) [OF ElfOk] by simp
    then have "R (k_sys k) (case b of None \<Rightarrow> s | Some a \<Rightarrow> sys_kfree a s)"
      by (rule trans [OF _ f])
    then show ?thesis using ElfOk c by (simp add: exec_elf_core_def Let_def run_keeps_sys)
  qed (use f in \<open>simp_all add: exec_elf_core_def Let_def run_keeps_sys\<close>, simp add: run_keeps_def)
qed

lemma elf_args: "run_keeps R k (exec_elf_args path args k)"
proof -
  obtain img s where m: "sys_kmalloc (push_bit 20 1) (k_sys k) = (img, s)" by fastforce
  have s: "R (k_sys k) s" by (rule same [OF kmalloc_same [OF m]])
  have f: "R (k_sys k) (sys_kfree img s)" by (rule trans [OF s same]) simp
  have c: "run_keeps R k (exec_elf_core n d args b (k\<lparr>k_sys := s\<rparr>))" for n d b
    by (rule run_trans [OF core]) (simp_all add: s)
  show ?thesis
    unfolding exec_elf_args_def m Let_def prod.case
    by (simp add: run_refl c run_keeps_sys s f split: option.split)
qed

lemma embedded: "run_keeps R k (exec_embedded_args mods n args k)"
  using run_refl core by (simp add: exec_embedded_args_def split: option.split)

lemma user_path: "run_keeps R k (exec_user_path mods path args k)"
proof -
  have fs: "run_keeps R k (if \<not> fs_exists p (k_fs k) then Some (-1, 0, k)
      else if \<not> vfs_check_cap p CAP_FS_READ k then Some (-1, 0, k) else exec_elf_args path args k)" for p k
    using run_refl elf_args by simp
  show ?thesis
  proof (cases "path = None \<or> cstr (the path) = []")
    case True
    then show ?thesis using run_refl by (simp add: exec_user_path_def)
  next
    case path: False
    show ?thesis
    proof (cases "sys_module (the path)")
      case None
      then show ?thesis unfolding exec_user_path_def if_not_P [OF path] Let_def using fs by simp
    next
      case (Some n)
      have "run_keeps R k (case r of None \<Rightarrow> None | Some (r, pid, k) \<Rightarrow> if r = 0 then Some (r, pid, k)
          else if \<not> fs_exists (the path) (k_fs k) then Some (-1, 0, k)
          else if \<not> vfs_check_cap (the path) CAP_FS_READ k then Some (-1, 0, k) else exec_elf_args path args k)"
        if r: "run_keeps R k r" for r
      proof (cases r)
        case (Some x)
        obtain q pid k1 where x: "x = (q, pid, k1)" by (cases x)
        have k1: "k1 = k\<lparr>k_sys := k_sys k1\<rparr>" "R (k_sys k) (k_sys k1)"
          using r Some x by (simp_all add: run_keeps_def)
        show ?thesis using run_trans [OF fs k1] r Some x by (cases "q = 0") simp_all
      qed (simp add: run_keeps_def)
      then show ?thesis
        unfolding exec_user_path_def if_not_P [OF path] Let_def using Some embedded by simp
    qed
  qed
qed

end

text \<open>Two relations: the scheduler's invariant carries over, and a live process
  keeps its slot as it is.\<close>

definition inv_carries :: "sys \<Rightarrow> sys \<Rightarrow> bool" where
  "inv_carries s s' \<longleftrightarrow> (sched_inv s \<and> cur_running s \<longrightarrow> sched_inv s' \<and> cur_running s')"

lemma create_regions_inv:
  assumes r: "proc_create_user_regions name rt entry regs args s = (r, s')" and regs: "regs \<noteq> []" "length regs \<le> 7"
  shows "inv_carries s s'"
  unfolding inv_carries_def
proof
  assume inv: "sched_inv s \<and> cur_running s"
  show "sched_inv s' \<and> cur_running s'"
  proof (cases "find_free s")
    case None
    then show ?thesis using r regs inv by (auto simp: proc_create_user_regions_def)
  next
    case (Some i)
    have "i < length (procs s)" using first_index_SomeD(1) [OF Some [unfolded find_free_def]] .
    then show ?thesis using create_regions_spec [OF r Some _ regs] created_only [OF _ _ _ _ Some] inv by blast
  qed
qed

interpretation sched: table_relation inv_carries
proof
  show "same_procs s s' \<Longrightarrow> inv_carries s s'" for s s' :: sys
    using same_procs_inv [where s = s and s' = s'] by (simp add: inv_carries_def)
qed (auto simp: inv_carries_def dest: create_regions_inv [unfolded inv_carries_def])

text \<open>A new process takes a free slot: the other slots keep everything.\<close>

definition live_kept :: "sys \<Rightarrow> sys \<Rightarrow> bool" where
  "live_kept s s' \<longleftrightarrow> (\<forall>i. p_present (procs s ! i) \<and> p_state (procs s ! i) \<noteq> Terminated \<longrightarrow>
     procs s' ! i = procs s ! i)"

lemma live_kept_refl [simp]: "live_kept s s" by (simp add: live_kept_def)

lemma live_kept_trans: "live_kept s t \<Longrightarrow> live_kept t u \<Longrightarrow> live_kept s u"
  by (simp add: live_kept_def)

lemma live_kept_same: "same_procs s s' \<Longrightarrow> live_kept s s'" by (simp add: live_kept_def)

lemma only_slot_live:
  assumes "only_slot i s s'" "find_free s = Some i"
  shows "live_kept s s'"
proof -
  have "\<not> p_present (procs s ! i) \<or> p_state (procs s ! i) = Terminated"
    using first_index_SomeD(2) [OF assms(2) [unfolded find_free_def]] .
  then show ?thesis using assms(1) unfolding only_slot_def live_kept_def by metis
qed

lemma create_regions_live:
  assumes r: "proc_create_user_regions name rt entry regs args s = (r, s')" and regs: "regs \<noteq> []" "length regs \<le> 7"
  shows "live_kept s s'"
proof (cases "find_free s")
  case None
  then show ?thesis using r regs by (auto simp: proc_create_user_regions_def)
next
  case (Some i)
  have "i < length (procs s)" using first_index_SomeD(1) [OF Some [unfolded find_free_def]] .
  then show ?thesis using create_regions_spec [OF r Some _ regs] only_slot_live [OF _ Some] by blast
qed

interpretation live: table_relation live_kept
  by unfold_locales (auto intro: live_kept_trans live_kept_same create_regions_live)

section \<open>The calls\<close>

named_theorems keeps

lemma kern_inv_upd:
  assumes "kern_inv k"
  shows "sched_inv s \<Longrightarrow> cur_running s \<Longrightarrow> kern_inv (k\<lparr>k_sys := s\<rparr>)"
    "auth_ok a \<Longrightarrow> kern_inv (k\<lparr>k_auth := a\<rparr>)" "svc_ok v \<Longrightarrow> kern_inv (k\<lparr>k_svc := v\<rparr>)"
    "pact_ok t \<Longrightarrow> kern_inv (k\<lparr>k_pact := t\<rparr>)"
    "sched_inv s \<Longrightarrow> cur_running s \<Longrightarrow> ipc_ok q \<Longrightarrow> kern_inv (k\<lparr>k_sys := s, k_ipc := q\<rparr>)"
    "sched_inv s \<Longrightarrow> cur_running s \<Longrightarrow> tree_ok f \<Longrightarrow> kern_inv (k\<lparr>k_sys := s, k_fs := f\<rparr>)"
    "tree_ok f \<Longrightarrow> kern_inv (k\<lparr>k_fs := f\<rparr>)"
    "kern_inv (k\<lparr>k_ticks := n\<rparr>)"
  using assms by (simp_all add: kern_inv_def)

lemma keeps_simple [keeps]:
  assumes "kern_inv k"
  shows "leaves kern_inv (sys_write e a2 a3 k)" "leaves kern_inv (sys_getpid k)"
    "leaves kern_inv (sys_getppid k)" "leaves kern_inv (sys_uptime k)" "leaves kern_inv (sys_sysinfo a1 k)"
    "leaves kern_inv (sys_proc_list e a1 a2 k)" "leaves kern_inv (sys_fs_read e a1 a2 a3 k)"
    "leaves kern_inv (sys_fs_list e a1 a2 a3 k)" "leaves kern_inv (sys_auth_count k)"
    "leaves kern_inv (sys_auth_verify e a1 a2 k)" "leaves kern_inv (sys_auth_list a1 a2 k)"
    "leaves kern_inv (sys_contract_list a1 a2 k)" "leaves kern_inv (sys_auth_hash e a1 a2 a3 k)"
    "leaves kern_inv (sys_console a1 k)" "leaves kern_inv (sys_fb_draw e a1 k)"
    "leaves kern_inv (sys_io_port e a1 a2 a3 k)" "leaves kern_inv (sys_v2p a1 k)"
  using assms
  by (simp_all add: sys_write_def sys_getpid_def sys_getppid_def sys_uptime_def sys_sysinfo_def
      sys_proc_list_def sys_fs_read_def sys_fs_list_def sys_auth_count_def sys_auth_verify_def
      sys_auth_list_def sys_contract_list_def sys_auth_hash_def sys_console_def sys_fb_draw_def
      sys_io_port_def sys_v2p_def Let_def split: option.split prod.split)

lemma keeps_process [keeps]:
  assumes "kern_inv k"
  shows "leaves kern_inv (sys_exit a1 k)" "leaves kern_inv (sys_yield k)" "leaves kern_inv (sys_waitpid a1 k)"
proof -
  note D = kern_invD(1,2) [OF assms]
  show "leaves kern_inv (sys_exit a1 k)"
    using proc_exit_inv [OF D] kern_inv_upd(1) [OF assms] by (auto simp: sys_exit_def split: option.split)
  show "leaves kern_inv (sys_yield k)"
    using sched_yield_inv [OF D] kern_inv_upd(1) [OF assms] assms by (simp add: sys_yield_def Let_def)
  show "leaves kern_inv (sys_waitpid a1 k)"
    using waitpid_inv [OF D] kern_inv_upd(1) [OF assms] assms
    by (auto simp: sys_waitpid_def split: prod.split wait_result.split)
qed

lemma keeps_exec [keeps]:
  assumes k: "kern_inv k"
  shows "leaves kern_inv (sys_exec e a1 a2 a3 k)"
proof -
  have R: "kern_inv k'" if "exec_user_path m p as k = Some (r, pid, k')" for m p "as" r pid k'
  proof -
    have "k' = k\<lparr>k_sys := k_sys k'\<rparr> \<and> sched_inv (k_sys k') \<and> cur_running (k_sys k')"
      using sched.user_path [of k m p "as"] kern_invD(1,2) [OF k] that by (simp add: run_keeps_def inv_carries_def)
    then show ?thesis using kern_inv_upd(1) [OF k, of "k_sys k'"] by simp
  qed
  show ?thesis
    using k R unfolding sys_exec_def Let_def
    by (simp split: option.split prod.split)
qed

lemma ipc_send_keeps:
  assumes "kern_inv k" "do_send to type d (k_sys k) (k_ipc k) = (r, s, q)"
  shows "kern_inv (k\<lparr>k_sys := s, k_ipc := q\<rparr>)"
  using do_send_inv [OF _ _ assms(2)] do_send_ok [OF _ assms(2)] kern_invD [OF assms(1)] kern_inv_upd(5) [OF assms(1)]
  by simp

lemma ipc_receive_keeps:
  assumes "kern_inv k" "ipc_try_receive n (k_sys k) (k_ipc k) = (r, s, q)"
  shows "kern_inv (k\<lparr>k_sys := s, k_ipc := q\<rparr>)"
  using recv_same [OF assms(2)] try_receive_ok [OF _ assms(2)] assms(1) by (simp add: kern_inv_def)

lemma keeps_ipc [keeps]:
  assumes k: "kern_inv k"
  shows "leaves kern_inv (sys_ipc_send e a1 a2 a3 a4 k)" "leaves kern_inv (sys_ipc_recv a1 a2 a3 a4 k)"
    "leaves kern_inv (sys_read e a1 a2 k)"
proof -
  show "leaves kern_inv (sys_ipc_send e a1 a2 a3 a4 k)"
    using k ipc_send_keeps [OF k] by (simp add: sys_ipc_send_def split: prod.split)
  show "leaves kern_inv (sys_ipc_recv a1 a2 a3 a4 k)"
    using k ipc_receive_keeps [OF k] by (simp add: sys_ipc_recv_def Let_def split: prod.split)
  have K: "kern_inv k2" if k1: "kern_inv k1" and q: "kbd_request k1 kbd = (c, k2)" for k1 kbd c k2
  proof -
    obtain x s q1 where d: "ipc_send kbd 10 ''g'' (k_sys k1) (k_ipc k1) = (x, s, q1)" by (metis prod_cases3)
    obtain y s2 q2 where t: "ipc_try_receive 8 s q1 = (y, s2, q2)" by (metis prod_cases3)
    note a = ipc_send_keeps [OF k1 d]
    have "kern_inv (k1\<lparr>k_sys := s2, k_ipc := q2\<rparr>)" using ipc_receive_keeps [OF a] t by simp
    then show ?thesis
      using q a d t by (cases y) (auto simp: kbd_request_def Let_def split: if_splits)
  qed
  show "leaves kern_inv (sys_read e a1 a2 k)"
  proof -
    obtain r pid v where v: "svc_query (Some ''kbd'') (k_sys k) (k_svc k) = (r, pid, v)" by (metis prod_cases3)
    have k1: "kern_inv (k\<lparr>k_svc := v\<rparr>)"
      by (rule kern_inv_upd(3) [OF k svc_ok_query [OF kern_invD(7) [OF k] v]])
    obtain c k2 where c: "(case pid of Some kbd \<Rightarrow> if r = 0 \<and> 0 < kbd then kbd_request (k\<lparr>k_svc := v\<rparr>) kbd
        else (e_key e, k\<lparr>k_svc := v\<rparr>) | None \<Rightarrow> (e_key e, k\<lparr>k_svc := v\<rparr>)) = (c, k2)" by fastforce
    have "kern_inv k2" using c k1 K [OF k1] by (auto split: option.splits if_splits)
    then show ?thesis using v c by (simp add: sys_read_def Let_def)
  qed
qed

text \<open>The files: a call leaves the tree well formed, and the heap it uses does not
  reach the process table.\<close>

lemma vfs_keeps:
  assumes k: "kern_inv k"
  shows "vfs_create cwd p type k = (r, k') \<Longrightarrow> kern_inv k'"
    "vfs_write cwd p data k = (r, k') \<Longrightarrow> kern_inv k'"
    "vfs_remove cwd p k = (r, k') \<Longrightarrow> kern_inv k'"
proof -
  note D = kern_invD [OF k]
  note T = vfs_tree_ok [OF D(3)]
  note U = kern_inv_upd(6) [OF k] kern_inv_upd(7) [OF k]
  show "kern_inv k'" if c: "vfs_create cwd p type k = (r, k')"
    using c by (cases rule: vfs_create_cases) (use k U T(1) [OF c] in auto)
  show "kern_inv k'" if c: "vfs_write cwd p data k = (r, k')"
    using c
  proof (cases rule: vfs_write_cases)
    case (3 norm f f' s)
    have "sched_inv s \<and> cur_running s" using same_procs_inv [OF fs_write_same [OF 3(5)]] D(1,2) by blast
    then show ?thesis using U(1) [of s f'] T(2) [OF c] 3(6) by (simp add: kern_inv_def D)
  qed (use k U(2) T(2) [OF c] in auto)
  show "kern_inv k'" if c: "vfs_remove cwd p k = (r, k')"
    using c
  proof (cases rule: vfs_remove_cases)
    case (2 norm f s)
    have "sched_inv s \<and> cur_running s" using same_procs_inv [OF fs_remove_same [OF 2(3)]] D(1,2) by blast
    then show ?thesis using U(1) [of s f] T(3) [OF c] 2(4) by (simp add: kern_inv_def D)
  qed (use k in auto)
qed

lemma keeps_files [keeps]:
  assumes k: "kern_inv k"
  shows "leaves kern_inv (sys_fs_write e a1 a2 a3 k)" "leaves kern_inv (sys_fs_create e a1 a2 k)"
    "leaves kern_inv (sys_fs_remove e a1 k)"
  using k vfs_keeps [OF k]
  by (simp_all add: sys_fs_write_def sys_fs_create_def sys_fs_remove_def split: option.split prod.split)

lemma keeps_services [keeps]:
  assumes k: "kern_inv k"
  shows "leaves kern_inv (sys_svc_register e a1 k)" "leaves kern_inv (sys_svc_query e a1 a2 k)"
  using k kern_inv_upd(3) [OF k] svc_ok_register [OF kern_invD(7) [OF k]] svc_ok_query [OF kern_invD(7) [OF k]]
  by (simp_all add: sys_svc_register_def sys_svc_query_def Let_def split: option.split prod.split)

lemma user_str_strlen: "user_str e a n k = Some s \<Longrightarrow> strlen s < n"
  using user_str_sound [of e a n k s] by (simp add: strlen_cstr)

lemma with_auth_keeps: "kern_inv k \<Longrightarrow> auth_ok (snd r) \<Longrightarrow> leaves kern_inv (with_auth k r)"
  by (simp add: with_auth_def kern_inv_upd(2))

lemma keeps_accounts [keeps]:
  assumes k: "kern_inv k"
  shows "leaves kern_inv (sys_auth_create e a1 a2 k)" "leaves kern_inv (sys_auth_create_user e a1 a2 k)"
    "leaves kern_inv (sys_auth_delete e a1 k)" "leaves kern_inv (sys_auth_changepw e a1 a2 a3 k)"
    "leaves kern_inv (sys_ticket_issue e a1 a2 a3 k)"
proof -
  note a = kern_invD(5) [OF k]
  have c: "leaves kern_inv (with_auth k (auth_create_user n pw caps adm (k_auth k)))"
    if "user_str e a1 32 k = Some n" for n pw caps adm
    by (rule with_auth_keeps [OF k create_user_ok [OF a]]) (use user_str_strlen [OF that] in simp)
  show "leaves kern_inv (sys_auth_create e a1 a2 k)" "leaves kern_inv (sys_auth_create_user e a1 a2 k)"
    using k c by (simp_all add: sys_auth_create_def sys_auth_create_user_def split: option.split)
  show "leaves kern_inv (sys_auth_delete e a1 k)"
    using k with_auth_keeps [OF k user_delete_ok [OF a]] by (simp add: sys_auth_delete_def split: option.split)
  show "leaves kern_inv (sys_auth_changepw e a1 a2 a3 k)"
    using k with_auth_keeps [OF k change_password_ok(1) [OF a]] with_auth_keeps [OF k change_password_ok(2) [OF a]]
    by (simp add: sys_auth_changepw_def split: option.split)
  show "leaves kern_inv (sys_ticket_issue e a1 a2 a3 k)"
    using k kern_inv_upd(2) [OF k ticket_issue_ok [OF a]]
    by (simp add: sys_ticket_issue_def Let_def split: option.split prod.split)
qed

lemma raise_rights_inv: "sched_inv s \<Longrightarrow> cur_running s \<Longrightarrow> sched_inv (raise_rights c s) \<and> cur_running (raise_rights c s)"
  unfolding raise_rights_def by (auto split: option.split intro!: upd_keeps_inv [THEN conjunct1] upd_keeps_inv [THEN conjunct2])

lemma keeps_login [keeps]:
  assumes k: "kern_inv k"
  shows "leaves kern_inv (sys_session_login e a1 a2 a3 k)"
proof (cases "user_str e a1 32 k")
  case None
  then show ?thesis using k by (simp add: sys_session_login_def)
next
  case (Some n)
  note D = kern_invD [OF k]
  obtain u a where ua: "(if a3 \<noteq> 0 then (case auth_ticket_consume n a3 (k_auth k) of
      (ok, a) \<Rightarrow> (if ok then Some Synth else None, a))
      else (map_option Acct (auth_find n (k_auth k)), k_auth k)) = (u, a)" by fastforce
  have a: "auth_ok a"
    using ua ticket_consume_ok [OF D(5)] D(5) by (auto split: if_splits prod.splits)
  have "auth_ok (login_set_user u a)"
  proof -
    have "i < length (au_accounts a)" if "u = Some (Acct i)" for i
    proof -
      have "a3 = 0" using ua that by (auto split: if_splits prod.splits)
      then have "auth_find n a = Some i" using ua that by auto
      then show ?thesis using auth_find_iff [OF a] by blast
    qed
    then show ?thesis using a by (simp add: auth_ok_def login_set_user_def)
  qed
  then have "kern_inv (k\<lparr>k_pact := grant_all (k_pact k), k_auth := login_set_user u a,
      k_sys := raise_rights c (k_sys k)\<rparr>)" for c
    using D grant_all_ok raise_rights_inv [OF D(1,2), of c] by (simp add: kern_inv_def)
  then show ?thesis
    using k kern_inv_upd(2) [OF k a] Some ua
    by (cases u) (simp_all add: sys_session_login_def Let_def)
qed

lemma keeps_memory [keeps]:
  assumes k: "kern_inv k"
  shows "leaves kern_inv (sys_mmap a1 k)" "leaves kern_inv (sys_dev_map a1 a2 k)"
proof -
  note D = kern_invD(1,2) [OF k]
  have v: "sched_inv ((k_sys k)\<lparr>vmem := v\<rparr>) \<and> cur_running ((k_sys k)\<lparr>vmem := v\<rparr>)" for v
    by (rule same_procs_inv [where s = "k_sys k"]) (use D in simp_all)
  then have V: "kern_inv (k\<lparr>k_sys := (k_sys k)\<lparr>vmem := v\<rparr>\<rparr>)" for v using kern_inv_upd(1) [OF k] by blast
  have U: "kern_inv (k\<lparr>k_sys := upd i f ((k_sys k)\<lparr>vmem := v\<rparr>)\<rparr>)"
    if "\<And>p. p_present (f p) = p_present p" "\<And>p. p_state (f p) = p_state p" "\<And>p. p_pid (f p) = p_pid p" for i f v
    using upd_keeps_inv [of "(k_sys k)\<lparr>vmem := v\<rparr>" f i] that v kern_inv_upd(1) [OF k] by blast
  show "leaves kern_inv (sys_mmap a1 k)"
    using k V by (simp add: sys_mmap_def Let_def U split: option.split prod.split)
  show "leaves kern_inv (sys_dev_map a1 a2 k)"
    using k V by (simp add: sys_dev_map_def Let_def U split: option.split prod.split)
qed

theorem dispatch_keeps: "kern_inv k \<Longrightarrow> leaves kern_inv (syscall_dispatch e nr a1 a2 a3 a4 k)"
  by (simp add: syscall_dispatch_def keeps)

section \<open>What a call cannot change\<close>

text \<open>The rights of a slot.  The scheduler, the collector, exit, wait and wake-up
  leave them alone in every slot.\<close>

definition rights :: "sys \<Rightarrow> nat \<Rightarrow> u64" where
  "rights s i = p_rights (procs s ! i)"

lemma rights_upd: "(\<And>p. p_rights (f p) = p_rights p) \<Longrightarrow> rights (upd j f s) i = rights s i"
  by (simp add: rights_def procs_upd_any)

named_theorems rights_simps

lemma rights_steps [rights_simps]:
  "rights (set_state st j s) i = rights s i" "rights (enter n s) i = rights s i"
  "rights (dispatch n s) i = rights s i" "rights (sched_switch m n s) i = rights s i"
  "rights (sched_wakeup pid s) i = rights s i" "rights (demote s) i = rights s i"
proof -
  have c: "rights (s\<lparr>cur_index := a, cur := b\<rparr>) i = rights s i" "rights (load_cr3 x s) i = rights s i" for s a b x
    by (simp_all add: rights_def)
  show s: "rights (set_state st j s) i = rights s i" for st j s
    unfolding set_state_def by (rule rights_upd) simp
  show e: "rights (enter n s) i = rights s i" for n s
    unfolding enter_def c by (rule rights_upd) simp
  show d: "rights (dispatch n s) i = rights s i" for n s unfolding dispatch_def c by (rule s)
  show "rights (sched_switch m n s) i = rights s i"
    unfolding sched_switch_def e by (subst rights_upd) (simp_all add: d)
  show "rights (sched_wakeup pid s) i = rights s i"
    unfolding sched_wakeup_def by (auto intro: rights_upd split: option.split)
  show "rights (demote s) i = rights s i" unfolding demote_def by (simp add: s split: option.split)
qed

lemma rights_gc [rights_simps]: "rights (proc_gc_run s) i = rights s i"
proof -
  have o: "rights (sys_kfree a s) i = rights s i" "rights (sys_free_space a s) i = rights s i"
    "rights (s\<lparr>vmem := v\<rparr>) i = rights s i" for a s v
    by (simp_all add: rights_def)
  have g: "rights (gc_slot j s) i = rights s i" for j s
    unfolding gc_slot_def Let_def by (simp add: rights_upd o)
  have "rights (fold gc_slot xs s) i = rights s i" for xs s
    by (induction xs arbitrary: s) (simp_all add: g)
  then show ?thesis by (simp add: proc_gc_run_def)
qed

lemma rights_sched [rights_simps]:
  "rights (sched_yield s) i = rights s i" "rights (sched_block s) i = rights s i"
  "proc_exit code s = Some s' \<Longrightarrow> rights s' i = rights s i"
  "proc_waitpid pid s = (w, s') \<Longrightarrow> rights s' i = rights s i"
proof -
  show "rights (sched_yield s) i = rights s i"
    by (simp add: sched_yield_def Let_def rights_simps split: option.split)
  show b: "rights (sched_block s) i = rights s i" for s
    by (simp add: sched_block_def Let_def rights_simps split: option.split)
  show "proc_exit code s = Some s' \<Longrightarrow> rights s' i = rights s i"
    by (auto simp: proc_exit_def Let_def rights_simps rights_upd split: option.splits)
  show "proc_waitpid pid s = (w, s') \<Longrightarrow> rights s' i = rights s i"
    by (auto simp: proc_waitpid_def wait_turn_def b rights_upd split: option.splits if_splits)
qed

definition rights_kept :: "kern \<Rightarrow> kern \<Rightarrow> bool" where
  "rights_kept k k' \<longleftrightarrow> (\<forall>i<MAX_PROCS. p_present (procs (k_sys k) ! i) \<and>
     p_state (procs (k_sys k) ! i) \<noteq> Terminated \<longrightarrow> rights (k_sys k') i = rights (k_sys k) i)"

text \<open>The accounts a caller without the administration right can change, when
  there are accounts: its own only.\<close>

definition accounts_kept :: "kern \<Rightarrow> kern \<Rightarrow> bool" where
  "accounts_kept k k' \<longleftrightarrow> syscall_cap CAP_USER_ADMIN k \<or> au_accounts (k_auth k) = [] \<or>
     length (au_accounts (k_auth k')) = length (au_accounts (k_auth k)) \<and>
     (\<forall>i<length (au_accounts (k_auth k)). au_current (k_auth k) \<noteq> Some (Acct i) \<longrightarrow>
        au_accounts (k_auth k') ! i = au_accounts (k_auth k) ! i)"

definition files_kept :: "kern \<Rightarrow> kern \<Rightarrow> bool" where
  "files_kept k k' \<longleftrightarrow> syscall_cap CAP_FS_WRITE k \<or> k_fs k' = k_fs k"

definition confined :: "kern \<Rightarrow> kern \<Rightarrow> bool" where
  "confined k k' \<longleftrightarrow> rights_kept k k' \<and> accounts_kept k k' \<and> files_kept k k' \<and>
     ct_list (k_pact k') = ct_list (k_pact k)"

named_theorems confines

lemma confined_sys:
  assumes "\<And>i. rights s i = rights (k_sys k) i"
  shows "confined k (k\<lparr>k_sys := s\<rparr>)" "confined k (k\<lparr>k_sys := s, k_ipc := q\<rparr>)"
  using assms by (simp_all add: confined_def rights_kept_def accounts_kept_def files_kept_def)

lemma confined_refl [simp]: "confined k k"
  by (simp add: confined_def rights_kept_def accounts_kept_def files_kept_def)

lemma confined_other:
  "confined k (k\<lparr>k_svc := v\<rparr>)"
  "au_accounts a = au_accounts (k_auth k) \<Longrightarrow> confined k (k\<lparr>k_auth := a\<rparr>)"
  by (simp_all add: confined_def rights_kept_def accounts_kept_def files_kept_def)

lemma confines_simple [confines]:
  "leaves (confined k) (sys_write e a2 a3 k)" "leaves (confined k) (sys_getpid k)"
  "leaves (confined k) (sys_getppid k)" "leaves (confined k) (sys_uptime k)" "leaves (confined k) (sys_sysinfo a1 k)"
  "leaves (confined k) (sys_proc_list e a1 a2 k)" "leaves (confined k) (sys_fs_read e a1 a2 a3 k)"
  "leaves (confined k) (sys_fs_list e a1 a2 a3 k)" "leaves (confined k) (sys_auth_count k)"
  "leaves (confined k) (sys_auth_verify e a1 a2 k)" "leaves (confined k) (sys_auth_list a1 a2 k)"
  "leaves (confined k) (sys_contract_list a1 a2 k)" "leaves (confined k) (sys_auth_hash e a1 a2 a3 k)"
  "leaves (confined k) (sys_console a1 k)" "leaves (confined k) (sys_fb_draw e a1 k)"
  "leaves (confined k) (sys_io_port e a1 a2 a3 k)" "leaves (confined k) (sys_v2p a1 k)"
  "leaves (confined k) (sys_svc_register e a1 k)" "leaves (confined k) (sys_svc_query e a1 a2 k)"
  by (simp_all add: sys_write_def sys_getpid_def sys_getppid_def sys_uptime_def sys_sysinfo_def
      sys_proc_list_def sys_fs_read_def sys_fs_list_def sys_auth_count_def sys_auth_verify_def
      sys_auth_list_def sys_contract_list_def sys_auth_hash_def sys_console_def sys_fb_draw_def
      sys_io_port_def sys_v2p_def sys_svc_register_def sys_svc_query_def confined_other Let_def
      split: option.split prod.split)

lemma confines_process [confines]:
  "leaves (confined k) (sys_exit a1 k)" "leaves (confined k) (sys_yield k)" "leaves (confined k) (sys_waitpid a1 k)"
  by (auto simp: sys_exit_def sys_yield_def sys_waitpid_def Let_def rights_simps
      intro!: confined_sys dest: rights_sched(3,4) split: option.split prod.split wait_result.split)

lemma do_send_rights: "do_send to type d s q = (r, s', q') \<Longrightarrow> rights s' i = rights s i"
  using do_send_sys by (fastforce simp: rights_simps)

lemma confines_ipc [confines]:
  "leaves (confined k) (sys_ipc_send e a1 a2 a3 a4 k)" "leaves (confined k) (sys_ipc_recv a1 a2 a3 a4 k)"
  "leaves (confined k) (sys_read e a1 a2 k)"
proof -
  show "leaves (confined k) (sys_ipc_send e a1 a2 a3 a4 k)"
    by (auto simp: sys_ipc_send_def intro!: confined_sys do_send_rights split: prod.split)
  have r: "confined k (k\<lparr>k_sys := s, k_ipc := q\<rparr>)" if "ipc_try_receive n (k_sys k) v = (y, s, q)" for n v y s q
    by (intro confined_sys(2)) (simp add: recv_same [OF that])
  show "leaves (confined k) (sys_ipc_recv a1 a2 a3 a4 k)"
    using r by (auto simp: sys_ipc_recv_def Let_def split: prod.split)
  have K: "k_fs k2 = k_fs k1 \<and> k_auth k2 = k_auth k1 \<and> k_pact k2 = k_pact k1 \<and>
      (\<forall>i. rights (k_sys k2) i = rights (k_sys k1) i)"
    if q: "kbd_request k1 kbd = (c, k2)" for k1 kbd c k2
  proof -
    obtain x s q1 where d: "ipc_send kbd 10 ''g'' (k_sys k1) (k_ipc k1) = (x, s, q1)" by (metis prod_cases3)
    obtain y s2 q2 where t: "ipc_try_receive 8 s q1 = (y, s2, q2)" by (metis prod_cases3)
    show ?thesis
      using q d t recv_same [OF t] do_send_rights [OF d]
      by (cases y) (auto simp: kbd_request_def Let_def split: if_splits)
  qed
  show "leaves (confined k) (sys_read e a1 a2 k)"
  proof -
    obtain r pid v where v: "svc_query (Some ''kbd'') (k_sys k) (k_svc k) = (r, pid, v)" by (metis prod_cases3)
    obtain c k2 where c: "(case pid of Some kbd \<Rightarrow> if r = 0 \<and> 0 < kbd then kbd_request (k\<lparr>k_svc := v\<rparr>) kbd
        else (e_key e, k\<lparr>k_svc := v\<rparr>) | None \<Rightarrow> (e_key e, k\<lparr>k_svc := v\<rparr>)) = (c, k2)" by fastforce
    have "k_fs k2 = k_fs k \<and> k_auth k2 = k_auth k \<and> k_pact k2 = k_pact k \<and>
      (\<forall>i. rights (k_sys k2) i = rights (k_sys k) i)"
      using c K [of "k\<lparr>k_svc := v\<rparr>"] by (auto split: option.splits if_splits)
    then have "confined k k2" by (simp add: confined_def rights_kept_def accounts_kept_def files_kept_def)
    then show ?thesis using v c by (simp add: sys_read_def Let_def)
  qed
qed

lemma confines_exec [confines]: "leaves (confined k) (sys_exec e a1 a2 a3 k)"
proof -
  have "confined k k'" if "exec_user_path m p as k = Some (r, pid, k')" for m p "as" r pid k'
  proof -
    have k': "k' = k\<lparr>k_sys := k_sys k'\<rparr>" "live_kept (k_sys k) (k_sys k')"
      using live.user_path [of k m p "as"] that by (simp_all add: run_keeps_def)
    have "rights_kept k k'" using k'(2) by (simp add: rights_kept_def live_kept_def rights_def)
    moreover have "k_auth k' = k_auth k" "k_fs k' = k_fs k" "k_pact k' = k_pact k"
      by (subst k'(1), simp)+
    ultimately show ?thesis by (simp add: confined_def accounts_kept_def files_kept_def)
  qed
  then show ?thesis unfolding sys_exec_def Let_def by (simp split: option.split prod.split)
qed

lemma rights_same: "same_procs s s' \<Longrightarrow> rights s' i = rights s i"
  by (simp add: rights_def)

lemma confines_files [confines]:
  "leaves (confined k) (sys_fs_write e a1 a2 a3 k)" "leaves (confined k) (sys_fs_create e a1 a2 k)"
  "leaves (confined k) (sys_fs_remove e a1 k)"
proof -
  have F: "confined k (k\<lparr>k_fs := f, k_sys := s\<rparr>)" "confined k (k\<lparr>k_fs := f\<rparr>)"
    if "syscall_cap CAP_FS_WRITE k" "same_procs (k_sys k) s" for f s
    using that rights_same [of "k_sys k" s]
    by (simp_all add: confined_def rights_kept_def accounts_kept_def files_kept_def)
  have w: "confined k k'" if c: "syscall_cap CAP_FS_WRITE k" and v: "vfs_write cwd p d k = (r, k')" for cwd p d r k'
    using v by (cases rule: vfs_write_cases) (use F [OF c] fs_write_same in auto)
  have m: "confined k k'" if c: "syscall_cap CAP_FS_WRITE k" and v: "vfs_create cwd p t k = (r, k')" for cwd p t r k'
    using v by (cases rule: vfs_create_cases) (use F(2) [OF c, of "k_sys k"] in auto)
  have r: "confined k k'" if c: "syscall_cap CAP_FS_WRITE k" and v: "vfs_remove cwd p k = (r, k')" for cwd p r k'
    using v by (cases rule: vfs_remove_cases) (use F(1) [OF c] fs_remove_same in auto)
  show "leaves (confined k) (sys_fs_write e a1 a2 a3 k)" "leaves (confined k) (sys_fs_create e a1 a2 k)"
    "leaves (confined k) (sys_fs_remove e a1 k)"
    using w m r by (simp_all add: sys_fs_write_def sys_fs_create_def sys_fs_remove_def split: option.split prod.split)
qed

text \<open>The accounts: an administrator may change any; a caller without that right
  creates the first account, or sets its own password.\<close>

lemma with_auth_confined:
  assumes "syscall_cap CAP_USER_ADMIN k \<or> au_accounts (k_auth k) = []"
  shows "leaves (confined k) (with_auth k r)"
  using assms by (auto simp: with_auth_def confined_def rights_kept_def accounts_kept_def files_kept_def)

lemma set_password_accounts:
  "au_accounts (set_password i pw a) = (au_accounts a)[i := au_accounts (set_password i pw a) ! i] \<or>
   length (au_accounts a) \<le> i"
  by (cases "gen_salt a") (auto simp: set_password_def auth_upd_def gen_salt_def Let_def)

lemma own_password_confined:
  assumes cur: "au_current (k_auth k) = Some (Acct i)" and f: "auth_find n (k_auth k) = Some i"
  shows "leaves (confined k) (with_auth k (auth_change_password n old new (k_auth k)))"
proof -
  let ?a = "k_auth k"
  have i: "i < length (au_accounts ?a)" using first_index_SomeD(1) [OF f [unfolded auth_find_def]] .
  have e: "au_accounts (set_password i new ?a) = (au_accounts ?a)[i := au_accounts (set_password i new ?a) ! i]"
    using set_password_accounts [of i new ?a] i by simp
  have l: "length (au_accounts (set_password i new ?a)) = length (au_accounts ?a)" by (subst e) simp
  have "au_accounts (set_password i new ?a) ! j = au_accounts ?a ! j" if "j \<noteq> i" for j
    by (subst e) (use that in simp)
  then show ?thesis
    using f cur l
    by (auto simp: with_auth_def auth_change_password_def confined_def rights_kept_def accounts_kept_def files_kept_def)
qed

lemma confines_accounts [confines]:
  "leaves (confined k) (sys_auth_create e a1 a2 k)" "leaves (confined k) (sys_auth_create_user e a1 a2 k)"
  "leaves (confined k) (sys_auth_delete e a1 k)" "leaves (confined k) (sys_auth_changepw e a1 a2 a3 k)"
  "leaves (confined k) (sys_ticket_issue e a1 a2 a3 k)"
proof -
  note W = with_auth_confined [of k]
  show "leaves (confined k) (sys_auth_create e a1 a2 k)"
    using W by (simp add: sys_auth_create_def auth_user_count_def split: option.split)
  show "leaves (confined k) (sys_auth_create_user e a1 a2 k)" "leaves (confined k) (sys_auth_delete e a1 k)"
    using W by (simp_all add: sys_auth_create_user_def sys_auth_delete_def split: option.split)
  show "leaves (confined k) (sys_auth_changepw e a1 a2 a3 k)"
    using W own_password_confined by (simp add: sys_auth_changepw_def split: option.split)
  have "au_accounts a = au_accounts (k_auth k)" if "auth_ticket_issue en n c (k_auth k) = (r, a)" for en n c r a
    using that by (auto simp: auth_ticket_issue_def Let_def split: if_splits)
  then show "leaves (confined k) (sys_ticket_issue e a1 a2 a3 k)"
    by (simp add: sys_ticket_issue_def Let_def confined_other split: option.split prod.split)
qed

lemma confines_memory [confines]:
  "leaves (confined k) (sys_mmap a1 k)" "leaves (confined k) (sys_dev_map a1 a2 k)"
proof -
  have v: "rights ((k_sys k)\<lparr>vmem := v\<rparr>) i = rights (k_sys k) i" for v i by (simp add: rights_def)
  have V: "confined k (k\<lparr>k_sys := (k_sys k)\<lparr>vmem := v\<rparr>\<rparr>)" for v by (rule confined_sys(1)) (rule v)
  have U: "confined k (k\<lparr>k_sys := upd i f ((k_sys k)\<lparr>vmem := v\<rparr>)\<rparr>)"
    if "\<And>p. p_rights (f p) = p_rights p" for i f v
    by (rule confined_sys(1)) (simp add: rights_upd that v)
  show "leaves (confined k) (sys_mmap a1 k)"
    using V by (simp add: sys_mmap_def Let_def U split: option.split prod.split)
  show "leaves (confined k) (sys_dev_map a1 a2 k)"
    using V by (simp add: sys_dev_map_def Let_def U split: option.split prod.split)
qed

theorem dispatch_confined:
  "nr \<noteq> SYS_SESSION_LOGIN \<Longrightarrow> leaves (confined k) (syscall_dispatch e nr a1 a2 a3 a4 k)"
  by (simp add: syscall_dispatch_def confines)

text \<open>A login raises the rights of the caller by those of the account and no more,
  and needs an account of that name or a ticket for it.\<close>

lemma login_rights:
  assumes r: "sys_session_login e a1 a2 a3 k = Ret v k' ev" and c: "cur (k_sys k) = Some i"
    and i: "i < length (procs (k_sys k))"
  shows "j \<noteq> i \<Longrightarrow> rights (k_sys k') j = rights (k_sys k) j"
    "v \<noteq> 1 \<Longrightarrow> k_sys k' = k_sys k \<and> k_pact k' = k_pact k"
    "v = 1 \<Longrightarrow> \<exists>name u. user_str e a1 32 k = Some name \<and> login_result_user (k_auth k') = Some u \<and>
       rights (k_sys k') i = rights (k_sys k) i OR ac_caps u \<and>
       (if a3 = 0 then \<exists>n. auth_find name (k_auth k) = Some n \<and> u = au_accounts (k_auth k) ! n
        else \<exists>t\<in>set (au_tickets (k_auth k)). live name t \<and> tk_tok t = a3 \<and> ac_caps u = tk_caps t)"
proof -
  have R: "rights (raise_rights cp (k_sys k)) j = (if j = i then rights (k_sys k) j OR cp else rights (k_sys k) j)" for cp j
    using c i by (simp add: raise_rights_def rights_def procs_upd_any)
  show "j \<noteq> i \<Longrightarrow> rights (k_sys k') j = rights (k_sys k) j"
    using r R by (auto simp: sys_session_login_def Let_def SYSERR_def split: option.splits prod.splits if_splits)
  show "v \<noteq> 1 \<Longrightarrow> k_sys k' = k_sys k \<and> k_pact k' = k_pact k"
    using r by (auto simp: sys_session_login_def Let_def SYSERR_def split: option.splits prod.splits if_splits)
  assume v: "v = 1"
  then obtain name where n: "user_str e a1 32 k = Some name"
    using r by (cases "user_str e a1 32 k") (auto simp: sys_session_login_def SYSERR_def)
  show "\<exists>name u. user_str e a1 32 k = Some name \<and> login_result_user (k_auth k') = Some u \<and>
       rights (k_sys k') i = rights (k_sys k) i OR ac_caps u \<and>
       (if a3 = 0 then \<exists>n. auth_find name (k_auth k) = Some n \<and> u = au_accounts (k_auth k) ! n
        else \<exists>t\<in>set (au_tickets (k_auth k)). live name t \<and> tk_tok t = a3 \<and> ac_caps u = tk_caps t)"
  proof (cases "a3 = 0")
    case True
    then obtain m where m: "auth_find name (k_auth k) = Some m"
      using r v n by (cases "auth_find name (k_auth k)") (auto simp: sys_session_login_def Let_def)
    then show ?thesis
      using r v n True R
      by (auto simp: sys_session_login_def Let_def login_result_user_def login_set_user_def user_of_def split: if_splits)
  next
    case False
    obtain ok a where t: "auth_ticket_consume name a3 (k_auth k) = (ok, a)" by fastforce
    have ok: "ok" using r v n False t by (auto simp: sys_session_login_def Let_def split: if_splits)
    note T = ticket_consume_spec(2) [OF t [unfolded ok [THEN eqTrueI]]]
    have "k_auth k' = login_set_user (Some Synth) a \<and> k_sys k' = raise_rights (ac_caps (au_synth a)) (k_sys k)"
      using r v n False t ok by (auto simp: sys_session_login_def Let_def user_of_def split: if_splits)
    then show ?thesis
      using n False R T by (auto simp: login_result_user_def login_set_user_def user_of_def)
  qed
qed

section \<open>The login dialogue\<close>

lemma fs_copy_same: "fs_copy owner src dst f s = (r, f', s') \<Longrightarrow> same_procs s s'"
  by (auto simp: fs_copy_def dest: fs_write_same split: option.splits if_splits prod.splits)

lemma login_find_ok: "auth_ok a \<Longrightarrow> auth_find user a = Some i \<Longrightarrow> auth_ok (login_set_user (Some (Acct i)) a)"
  using auth_find_iff [of a user i] by (simp add: auth_ok_def login_set_user_def)

lemma login_loop_keeps:
  "login_loop ins a t = Some (a', t', rest) \<Longrightarrow> auth_ok a \<Longrightarrow> pact_ok t \<Longrightarrow> auth_ok a' \<and> pact_ok t'"
proof (induction ins a t rule: login_loop.induct)
  case (1 ins a t)
  from "1.prems"(1) obtain user ins1 where i1: "ins = user # ins1"
    by (subst (asm) login_loop.simps) (auto split: list.splits)
  show ?case
  proof (cases "auth_find user a")
    case None
    then show ?thesis
      using "1.prems" i1 "1.IH"(1) [OF i1 None] by (subst (asm) login_loop.simps) simp
  next
    case (Some i)
    from "1.prems"(1) i1 Some obtain pass ins2 where i2: "ins1 = pass # ins2"
      by (subst (asm) login_loop.simps) (auto split: list.splits)
    show ?thesis
    proof (cases "auth_verify user pass a")
      case False
      then show ?thesis
        using "1.prems" i1 i2 Some "1.IH"(3) [OF i1 Some i2 False] by (subst (asm) login_loop.simps) simp
    next
      case v: True
      from "1.prems"(1) i1 i2 Some v obtain ok t1 ins3 where
        p: "consent_prompt_contracts t ins2 = Some (ok, t1, ins3)"
        by (subst (asm) login_loop.simps) (auto split: option.splits)
      note t1 = prompt_spec(1) [OF p "1.prems"(3)]
      have out: "auth_ok (login_set_user None a)"
        using "1.prems"(2) by (simp add: auth_ok_def login_set_user_def)
      show ?thesis
      proof (cases ok)
        case True
        then show ?thesis
          using "1.prems" i1 i2 Some v p t1 login_find_ok by (subst (asm) login_loop.simps) auto
      next
        case no: False
        have l: "login_loop ins3 (login_set_user None a) t1 = Some (a', t', rest)"
          using "1.prems"(1) i1 i2 Some v p no by (subst (asm) login_loop.simps) simp
        show ?thesis using "1.IH"(2) [OF i1 Some i2 v p _ _ no l out t1] by simp
      qed
    qed
  qed
qed

lemma login_bootstrap_keeps:
  "login_bootstrap ins a = Some (a', rest) \<Longrightarrow> auth_ok a \<Longrightarrow> \<forall>l\<in>set ins. strlen l \<le> 31 \<Longrightarrow> auth_ok a'"
proof (induction ins a rule: login_bootstrap.induct)
  case (1 user ins a)
  show ?case
  proof (cases "strlen user < 3")
    case True
    then show ?thesis using 1 by simp
  next
    case u: False
    then obtain pass pass2 ins' where i: "ins = pass # pass2 # ins'"
      using "1.prems"(1) by (auto split: list.splits)
    obtain ok a1 where c: "auth_create_user user pass CAP_ALL True a = (ok, a1)" by fastforce
    have a1: "auth_ok a1" using create_user_ok [OF "1.prems"(2), of user pass CAP_ALL True] "1.prems"(3) c by simp
    show ?thesis using 1 u i c a1 by (auto split: if_splits)
  qed
qed simp

lemma login_main_keeps:
  assumes "login_main ins a t = Some (a', t', rest)" "auth_ok a" "pact_ok t" "\<forall>l\<in>set ins. strlen l \<le> 31"
  shows "auth_ok a' \<and> pact_ok t'"
  using assms login_loop_keeps login_bootstrap_keeps
  by (auto simp: login_main_def split: if_splits option.splits)

end
