(* ===== verification/Shell.thy ===== *)
theory Shell
  imports SysInv
begin

text \<open>
  The shell of the kernel, src/kernel/shell.c: the command line of the session
  process when no user-space shell is among the modules.

  A command works on the whole kernel.  The static variables are the record
  \<open>shell\<close>; the input is the list of the lines \<open>keyboard_get_line\<close> returns;
  what a command prints is the list of its events, in order.  What \<open>edit_file\<close>
  and \<open>exec_file_args\<close> print about their progress is left out, as in \<open>Exec\<close>.
  The sizes of the embedded applications are an argument.
\<close>

unbundle bit_operations_syntax

abbreviation LFs :: string where "LFs \<equiv> [CHR 0x0A]"

record shell =
  sh_cwd :: string
  sh_user :: "user_ref option"

text \<open>A command is done, waits for a line, stops the machine, or does something C
  leaves undefined.\<close>

datatype sh_res = Next kern shell "event list" "string list" | NeedsLine | Stops | Bad

type_synonym cmd = "kern \<Rightarrow> shell \<Rightarrow> string list \<Rightarrow> sh_res"

definition says :: "string \<Rightarrow> cmd" where
  "says t k sh ins = Next k sh [Console t] ins"

definition formats :: "nat \<Rightarrow> string \<Rightarrow> fmt_arg list \<Rightarrow> cmd" where
  "formats n f args k sh ins =
    (case snprintf n f args of None \<Rightarrow> Bad | Some t \<Rightarrow> Next k sh [Console t] ins)"

text \<open>A missing or empty argument.\<close>

definition no_arg :: "string option \<Rightarrow> bool" where
  "no_arg arg \<longleftrightarrow> arg = None \<or> cstr (the arg) = []"

definition sh_prompt :: "kern \<Rightarrow> shell \<Rightarrow> string" where
  "sh_prompt k sh = sformat 96 ''%s@T!%s$ ''
    [AStr (Some (case sh_user sh of None \<Rightarrow> ''user'' | Some r \<Rightarrow> ac_name (user_of (k_auth k) r))),
     AStr (Some (sh_cwd sh))]"

section \<open>Files\<close>

definition cmd_list_dir :: "string option \<Rightarrow> cmd" where
  "cmd_list_dir path k sh ins =
    (let p = (case path of None \<Rightarrow> sh_cwd sh | Some q \<Rightarrow> q);
         hdr = sformat 64 (''horasis %s:'' @ LFs) [AStr (Some p)]
     in Next k sh
          [Console hdr,
           Console (case vfs_list (Some (sh_cwd sh)) (Some p) 4096 k of
             None \<Rightarrow> ''  permissao negada ou caminho invalido'' @ LFs
           | Some l \<Rightarrow> l)] ins)"

definition cmd_metabasis :: "string option \<Rightarrow> cmd" where
  "cmd_metabasis arg k sh ins =
    (if no_arg arg then says (''metabasis: uso: metabasis <caminho>  (cd /, cd ..)'' @ LFs) k sh ins
     else case vfs_normalize (Some (sh_cwd sh)) arg FS_NAME_MAX of
       None \<Rightarrow> says (''metabasis: caminho invalido'' @ LFs) k sh ins
     | Some norm \<Rightarrow>
        let l = strlen norm; norm = (if 1 < l \<and> at norm (l - 1) = CHR ''/'' then take (l - 1) norm else norm)
        in if fs_is_dir norm (k_fs k)
           then formats 64 (''-> %s'' @ LFs) [AStr (Some (clip FS_NAME_MAX norm))] k
                  (sh\<lparr>sh_cwd := clip FS_NAME_MAX norm\<rparr>) ins
           else formats 80 (''metabasis: %s nao e diretorio'' @ LFs) [AStr (Some norm)] k sh ins)"

definition cmd_ktisis :: "string option \<Rightarrow> cmd" where
  "cmd_ktisis arg k sh ins =
    (if no_arg arg
     then says (''ktisis: uso: ktisis <nome> [-d]  ex: ktisis nota.txt | ktisis -d pasta'' @ LFs) k sh ins
     else
       let dir = (strncmp (the arg) ''-d '' 3 = 0); a = (if dir then drop 3 (the arg) else the arg)
       in (case vfs_create (Some (sh_cwd sh)) (Some a) (if dir then TDir else TFile) k of
            (ok, k') \<Rightarrow>
              formats 80 (if ok = 0 then ''criado %s'' @ LFs
                else ''falha ao criar (ja existe, sem permissao ou pai inexistente)'' @ LFs)
                [AStr (Some a)] k' sh ins))"

definition cmd_rm :: "string option \<Rightarrow> cmd" where
  "cmd_rm arg k sh ins =
    (if no_arg arg then says (''rm: uso: rm <arquivo|dir>'' @ LFs) k sh ins
     else case vfs_remove (Some (sh_cwd sh)) arg k of
       (ok, k') \<Rightarrow> says (if ok = 0 then ''removido'' @ LFs
         else ''rm: falhou (nao existe, sem permissao ou dir nao vazio)'' @ LFs) k' sh ins)"

text \<open>The two names of \<open>cp\<close> and \<open>mv\<close>.\<close>

definition two_names :: "string \<Rightarrow> (string \<times> string) option" where
  "two_names arg =
    (let tmp = clip 199 arg in
     case strchr tmp (CHR '' '') of
       None \<Rightarrow> None
     | Some i \<Rightarrow> Some (take i tmp, dropWhile (\<lambda>c. c = CHR '' '') (drop (i + 1) tmp)))"

definition cmd_cp :: "string option \<Rightarrow> cmd" where
  "cmd_cp arg k sh ins =
    (if no_arg arg then says (''cp: uso: cp <origem> <destino>'' @ LFs) k sh ins
     else case two_names (the arg) of
       None \<Rightarrow> says (''cp: precisa de origem e destino'' @ LFs) k sh ins
     | Some (a, b) \<Rightarrow>
        (case vfs_copy (Some (sh_cwd sh)) (Some a) (Some b) k of
           (ok, k') \<Rightarrow> says (if ok = 0 then ''copiado'' @ LFs
             else ''cp: falhou (sem permissao ou nao existe)'' @ LFs) k' sh ins))"

definition cmd_mv :: "string option \<Rightarrow> cmd" where
  "cmd_mv arg k sh ins =
    (if no_arg arg then says (''mv: uso: mv <origem> <destino>'' @ LFs) k sh ins
     else case two_names (the arg) of
       None \<Rightarrow> says (''mv: precisa de origem e destino'' @ LFs) k sh ins
     | Some (a, b) \<Rightarrow>
        (case vfs_move (Some (sh_cwd sh)) (Some a) (Some b) k of
           (ok, k') \<Rightarrow> says (if ok = 0 then ''movido'' @ LFs else ''mv: falhou'' @ LFs) k' sh ins))"

definition cmd_graphe :: "string option \<Rightarrow> cmd" where
  "cmd_graphe arg k sh ins =
    (if no_arg arg then says (''graphe: uso: graphe <arquivo>  (cat)'' @ LFs) k sh ins
     else case fst (vfs_read (Some (sh_cwd sh)) arg 2047 k) of
       None \<Rightarrow> formats 80 (''graphe: %s nao encontrado ou sem permissao'' @ LFs) [AStr arg] k sh ins
     | Some d \<Rightarrow>
        Next k sh (Console (cstr d)
          # (if d \<noteq> [] \<and> last d \<noteq> CHR 0x0A then [Console LFs] else [])) ins)"

text \<open>The result of \<open>vfs_normalize\<close> is not checked here.\<close>

definition cmd_edit :: "string option \<Rightarrow> cmd" where
  "cmd_edit arg k sh ins =
    (if no_arg arg then says (''edit: uso: edit <arquivo>'' @ LFs) k sh ins
     else case vfs_normalize (Some (sh_cwd sh)) arg FS_NAME_MAX of
       None \<Rightarrow> Bad
     | Some full \<Rightarrow>
        (case edit_file full ins k of
           None \<Rightarrow> NeedsLine
         | Some (_, k', ins') \<Rightarrow> Next k' sh [] ins'))"

definition cmd_echo :: "string option \<Rightarrow> cmd" where
  "cmd_echo arg k sh ins =
    Next k sh [Console (case arg of None \<Rightarrow> '''' | Some a \<Rightarrow> a), Console LFs] ins"

definition cmd_pwd :: cmd where
  "cmd_pwd k sh ins = formats 80 (''%s'' @ LFs) [AStr (Some (sh_cwd sh))] k sh ins"

section \<open>Users\<close>

definition cmd_whoami :: cmd where
  "cmd_whoami k sh ins =
    formats 64 (''%s'' @ LFs)
      [AStr (Some (case sh_user sh of None \<Rightarrow> ''?'' | Some r \<Rightarrow> ac_name (user_of (k_auth k) r)))] k sh ins"

definition cmd_passwd :: cmd where
  "cmd_passwd k sh ins =
    (case sh_user sh of
       None \<Rightarrow> says (''sem usuario'' @ LFs) k sh ins
     | Some r \<Rightarrow>
        let name = ac_name (user_of (k_auth k) r) in
        (case ins of
           [] \<Rightarrow> NeedsLine
         | oldp # ins1 \<Rightarrow>
            if \<not> auth_verify name oldp (k_auth k)
            then Next k sh [Console ''Senha atual: '', Console LFs, Console (''incorreta'' @ LFs)] ins1
            else (case ins1 of
               newp # newp2 # ins2 \<Rightarrow>
                 let pre = [Console ''Senha atual: '', Console LFs, Console ''Nova senha: '', Console LFs,
                            Console ''Confirme: '', Console LFs]
                 in if \<not> streq newp newp2 then Next k sh (pre @ [Console (''nao conferem'' @ LFs)]) ins2
                    else if strlen newp < 4 then Next k sh (pre @ [Console (''muito curta'' @ LFs)]) ins2
                    else (case auth_change_password name oldp newp (k_auth k) of
                      (ok, a) \<Rightarrow> Next (k\<lparr>k_auth := a\<rparr>) sh
                        (pre @ [Console ((if ok then ''alterada'' else ''falha'') @ LFs)]) ins2)
             | _ \<Rightarrow> NeedsLine)))"

definition cmd_useradd :: "string option \<Rightarrow> cmd" where
  "cmd_useradd arg k sh ins =
    (if sh_user sh = None \<or> \<not> ac_admin (user_of (k_auth k) (the (sh_user sh)))
     then says (''apenas soberano'' @ LFs) k sh ins
     else if no_arg arg then says (''useradd: uso: useradd <nome>'' @ LFs) k sh ins
     else
       let name = takeWhile (\<lambda>c. c \<noteq> CHR '' '') (clip 31 (the arg)) in
       (case ins of
          [] \<Rightarrow> NeedsLine
        | pass # ins1 \<Rightarrow>
           if strlen pass < 4 then Next k sh [Console ''Senha: '', Console LFs, Console (''curta'' @ LFs)] ins1
           else (case auth_create_user name pass (CAP_FB_DRAW OR CAP_AISTHESIS OR CAP_IDIOS_WRITE) False (k_auth k) of
             (ok, a) \<Rightarrow> Next (k\<lparr>k_auth := a\<rparr>) sh
               [Console ''Senha: '', Console LFs, Console ((if ok then ''criado'' else ''falha'') @ LFs)] ins1)))"

section \<open>Programs\<close>

fun sh_words :: "string \<Rightarrow> string list" where
  "sh_words [] = []"
| "sh_words (c # s) =
    (if c = CHR '' '' then sh_words s
     else (c # takeWhile (\<lambda>d. d \<noteq> CHR '' '') s) # (case sh_words s of [] \<Rightarrow> [] | w # ws \<Rightarrow>
       if s \<noteq> [] \<and> hd s \<noteq> CHR '' '' then ws else w # ws))"

definition sh_argv :: "string \<Rightarrow> string list" where
  "sh_argv arg =
    (let tmp = clip 599 arg in
     takeWhile (\<lambda>c. c \<noteq> CHR '' '') tmp # take 62 (sh_words (dropWhile (\<lambda>c. c \<noteq> CHR '' '') tmp)))"

fun script_events :: "script_out list \<Rightarrow> event list" where
  "script_events [] = []"
| "script_events (Echo t # os) = Console t # Console LFs # script_events os"
| "script_events (ClearScreen # os) = ClearConsole # script_events os"
| "script_events (Unknown t # os) = Console t # script_events os"

definition cmd_praxia :: "(string \<Rightarrow> nat) \<Rightarrow> string option \<Rightarrow> cmd" where
  "cmd_praxia img arg k sh ins =
    (if no_arg arg then says (''praxia: uso: praxia <arquivo> [args...]'' @ LFs) k sh ins
     else
       let argv = sh_argv (the arg) in
       (case vfs_normalize (Some (sh_cwd sh)) (Some (hd argv)) FS_NAME_MAX of
          None \<Rightarrow> Bad
        | Some full \<Rightarrow>
           (case apps_try_run_args img (Some full) (map Some argv) (k_sys k) of
              (ar, pid, s) \<Rightarrow>
                let k1 = k\<lparr>k_sys := s\<rparr> in
                if ar = 1 then
                  formats 120 (''  app ring 3 '' @ [CHR 0x27] @ ''%s'' @ [CHR 0x27] @ '' (pid %u)'' @ LFs)
                    [AStr (Some (hd argv)), AInt pid] k1 sh ins
                else (case exec_file_args full (map Some argv) k1 of
                    None \<Rightarrow> Bad
                  | Some (r, out, k2) \<Rightarrow>
                     Next k2 sh (script_events out
                       @ (if r \<noteq> 0 then [Console (''praxia: falhou'' @ LFs)] else [])) ins))))"

section \<open>The rest\<close>

definition cmd_synallagma :: "string option \<Rightarrow> cmd" where
  "cmd_synallagma arg k sh ins =
    (if arg = None \<or> streq (the arg) ''list'' then
       Next k sh (Console (''synallagma - contratos:'' @ LFs)
         # map Console (synallagma_list_console (k_pact k))) ins
     else if streq (the arg) ''add'' \<or> strncmp (the arg) ''add '' 4 = 0 then
       says (''  (adicione um arquivo .pacto em /synallagma)'' @ LFs) k sh ins
     else says (''synallagma: list | add'' @ LFs) k sh ins)"

definition cmd_emporion :: "string option \<Rightarrow> cmd" where
  "cmd_emporion arg k sh ins =
    (if no_arg arg then says (''emporion: search'' @ LFs) k sh ins
     else if streq (the arg) ''search''
     then says (''emporion: [mises-lib] [hayek-net] [rothbard-crypto]'' @ LFs) k sh ins
     else formats 96 (''emporion: '' @ [CHR 0x27] @ ''%s'' @ [CHR 0x27] @ '' use search'' @ LFs) [AStr arg] k sh ins)"

definition cmd_thais :: cmd where
  "cmd_thais = says (LFs @ ''  Made with love by Thais (op3n/op3ny)'' @ LFs)"

definition cmd_auth :: cmd where
  "cmd_auth k sh ins =
    Next k sh (Console (''auth:'' @ LFs) # map Console (auth_list (k_auth k))) ins"

definition cmd_kinesis :: cmd where
  "cmd_kinesis k sh ins =
    (if None \<in> set (kinesis_list (k_sys k)) then Bad
     else Next k sh (map (Console \<circ> the) (kinesis_list (k_sys k))) ins)"

definition help_lines :: "string list" where
  "help_lines = map (\<lambda>t. t @ LFs)
    [LFs @ ''=== thais-sh help ==='', '' Arquivos:'',
     ''  horasis [dir] (ls)        listar'', ''  metabasis <dir> (cd)      mudar dir'',
     ''  ktisis <arq> [-d]         criar'', ''  graphe <arq> (cat)        ler'',
     ''  edit <arq>                editar'', ''  rm <arq>                  remover'',
     ''  cp <src> <dst>            copiar'', ''  mv <src> <dst>            mover'',
     ''  pwd                       dir atual'', ''  echo <txt>                imprimir'', '' Sistema:'',
     ''  whoami                    usuario'', ''  passwd                    trocar senha'',
     ''  useradd <nome>            criar usuario (admin)'', ''  auth                      listar usuarios'',
     ''  praxia <arq>              executar'', ''  synallagma list           contratos'',
     ''  kinesis                   processos'', ''  clear / reboot / poweroff'', ''  help, exit'']"

definition cmd_help :: cmd where
  "cmd_help k sh ins = Next k sh (map Console help_lines) ins"

definition cmd_exit :: cmd where
  "cmd_exit k sh ins =
    (case login_main ins (k_auth k) (k_pact k) of
       None \<Rightarrow> NeedsLine
     | Some (a, t, ins') \<Rightarrow>
        Next (k\<lparr>k_auth := a, k_pact := t\<rparr>) \<lparr>sh_cwd = ''/arkhe'', sh_user = au_current a\<rparr>
          [Console (''saindo...'' @ LFs)] ins')"

section \<open>The command line\<close>

text \<open>The word of the command, at most 31 characters, and what follows it.\<close>

definition sh_split :: "string \<Rightarrow> string \<times> string" where
  "sh_split l =
    (let cmd = take 31 (takeWhile (\<lambda>c. c \<noteq> CHR '' '') l);
         arg = take 199 (dropWhile (\<lambda>c. c = CHR '' '') (drop (length cmd) l))
     in (cmd, rev (dropWhile (\<lambda>c. c = CHR '' '') (rev arg))))"

definition sh_dispatch :: "(string \<Rightarrow> nat) \<Rightarrow> string \<Rightarrow> string option \<Rightarrow> cmd" where
  "sh_dispatch img cmd arg =
    (if cmd = ''horasis'' \<or> cmd = ''ls'' then cmd_list_dir arg
     else if cmd = ''metabasis'' \<or> cmd = ''cd'' then cmd_metabasis arg
     else if cmd = ''ktisis'' \<or> cmd = ''touch'' \<or> cmd = ''mkdir'' then cmd_ktisis arg
     else if cmd = ''rm'' \<or> cmd = ''aphairein'' then cmd_rm arg
     else if cmd = ''cp'' then cmd_cp arg
     else if cmd = ''mv'' then cmd_mv arg
     else if cmd = ''graphe'' \<or> cmd = ''cat'' then cmd_graphe arg
     else if cmd = ''edit'' then cmd_edit arg
     else if cmd = ''echo'' then cmd_echo arg
     else if cmd = ''pwd'' then cmd_pwd
     else if cmd = ''whoami'' then cmd_whoami
     else if cmd = ''passwd'' then cmd_passwd
     else if cmd = ''useradd'' then cmd_useradd arg
     else if cmd = ''praxia'' \<or> cmd = ''exec'' \<or> cmd = ''run'' then cmd_praxia img arg
     else if cmd = ''synallagma'' then cmd_synallagma arg
     else if cmd = ''emporion'' then cmd_emporion arg
     else if cmd = ''agora'' then says (''agora sync... [ok]'' @ LFs)
     else if cmd = ''kinesis'' then cmd_kinesis
     else if cmd = ''aisthesis'' then says (''aisthesis: fb0, teclado US intl'' @ LFs)
     else if cmd = ''thais'' then cmd_thais
     else if cmd = ''op3n'' then says (''op3n - discord'' @ LFs)
     else if cmd = ''op3ny'' then says (''op3ny - github'' @ LFs)
     else if cmd = ''auth'' then cmd_auth
     else if cmd = ''help'' then cmd_help
     else if cmd = ''clear'' \<or> cmd = ''cls'' then (\<lambda>k sh ins. Next k sh [ClearConsole] ins)
     else if cmd = ''reboot'' \<or> cmd = ''poweroff'' \<or> cmd = ''halt'' \<or> cmd = ''shutdown''
       then (\<lambda>k sh ins. Stops)
     else if cmd = ''exit'' \<or> cmd = ''logout'' then cmd_exit
     else formats 96 ([CHR 0x27] @ ''%s'' @ [CHR 0x27] @ '' nao encontrado. help'' @ LFs) [AStr (Some cmd)])"

definition thais_exec_line :: "(string \<Rightarrow> nat) \<Rightarrow> string \<Rightarrow> cmd" where
  "thais_exec_line img line k sh ins =
    (let l = dropWhile (\<lambda>c. c = CHR '' '') (cstr line) in
     if l = [] then Next k sh [] ins
     else case sh_split l of
       (cmd, arg) \<Rightarrow> sh_dispatch img cmd (if arg = [] then None else Some arg) k sh ins)"

text \<open>The start of \<open>thais_sh_main\<close>, and one turn of its loop.\<close>

definition sh_start :: "kern \<Rightarrow> shell" where
  "sh_start k = \<lparr>sh_cwd = (if fs_is_dir ''/arkhe'' (k_fs k) then ''/arkhe'' else ''/''),
     sh_user = au_current (k_auth k)\<rparr>"

definition sh_turn :: "(string \<Rightarrow> nat) \<Rightarrow> cmd" where
  "sh_turn img k sh ins =
    (case ins of
       [] \<Rightarrow> NeedsLine
     | line # ins1 \<Rightarrow>
        (case thais_exec_line img line k sh ins1 of
           Next k' sh' evs ins' \<Rightarrow>
             Next (k'\<lparr>k_sys := sched_yield (k_sys k')\<rparr>) sh' (Console (sh_prompt k sh) # evs) ins'
         | r \<Rightarrow> r))"

section \<open>Files and programs from the command line\<close>

lemma try_run_inv:
  assumes r: "apps_try_run_args img p args s = (a, pid, s')" and inv: "sched_inv s" "cur_running s"
  shows "sched_inv s' \<and> cur_running s'"
proof -
  have "sched_inv t \<and> cur_running t" if c: "proc_create_user_args n rt e sz as s = (q, t)" for n rt e sz as q t
  proof (cases "find_free s")
    case None
    then show ?thesis using c inv by (simp add: proc_create_user_args_def)
  next
    case (Some i)
    have "i < length (procs s)" using first_index_SomeD(1) [OF Some [unfolded find_free_def]] .
    from create_user_spec [OF c Some this] show ?thesis using created_only [OF _ _ inv Some] by blast
  qed
  then show ?thesis
    using r inv by (auto simp: apps_try_run_args_def apps_spawn_idx_def split: option.splits if_splits prod.splits)
qed

lemma copy_tree:
  assumes "tree_ok f" "length (cstr dst) \<le> 255" "fs_copy ow src dst f s = (r, f', s')"
  shows "tree_ok f'"
proof -
  obtain q where "cstr q \<noteq> cstr dst"
    by (cases "cstr dst = ''''") (auto intro: that [of "''''"] that [of "''a''"] simp: cstr_def)
  from files.copy_frame(1) [OF _ assms(2) assms(3) [unfolded fs_copy_files] this] assms(1) show ?thesis by simp
qed

lemma move_tree:
  assumes "tree_ok f" "length (cstr dst) \<le> 255" "fs_move ow src dst f s = (r, f', s')"
  shows "tree_ok f' \<and> same_procs s s'"
proof -
  obtain q f1 s1 where c: "fs_copy ow src dst f s = (q, f1, s1)" by (metis prod_cases3)
  have 1: "tree_ok f1" "same_procs s s1" using copy_tree [OF assms(1,2) c] fs_copy_same [OF c] by auto
  have "same_procs s1 s'" if "fs_remove src f1 s1 = (r, f', s')" using fs_remove_same [OF that] .
  moreover have "tree_ok f'" if "fs_remove src f1 s1 = (r, f', s')" using tree_ok_remove [OF 1(1) that] .
  ultimately show ?thesis using assms(3) c 1 by (auto simp: fs_move_def split: if_splits)
qed

lemma files_upd:
  assumes "kern_inv k" "tree_ok f" "same_procs (k_sys k) s"
  shows "kern_inv (k\<lparr>k_fs := f, k_sys := s\<rparr>)"
  using assms same_procs_inv [OF assms(3)] by (simp add: kern_inv_def)

lemma vfs_pair_keeps:
  assumes k: "kern_inv k" and v: "vfs_pair op cwd src dst k = (r, k')"
    and op: "\<And>a b f s q f' s'. tree_ok f \<Longrightarrow> length (cstr b) \<le> 255 \<Longrightarrow> op a b f s = (q, f', s') \<Longrightarrow>
      tree_ok f' \<and> same_procs s s'"
  shows "kern_inv k'"
  using v op [OF kern_invD(3) [OF k] norm_of_length] k
  by (auto simp: vfs_pair_def intro!: files_upd split: option.splits if_splits prod.splits)

lemma vfs_copy_move_keeps:
  assumes "kern_inv k"
  shows "vfs_copy cwd a b k = (r, k') \<Longrightarrow> kern_inv k'" "vfs_move cwd a b k = (r, k') \<Longrightarrow> kern_inv k'"
proof -
  show "kern_inv k'" if "vfs_copy cwd a b k = (r, k')"
    by (rule vfs_pair_keeps [OF assms that [unfolded vfs_copy_def]]) (use copy_tree fs_copy_same in blast)
  show "kern_inv k'" if "vfs_move cwd a b k = (r, k')"
    by (rule vfs_pair_keeps [OF assms that [unfolded vfs_move_def]]) (rule move_tree)
qed

lemma edit_file_keeps:
  assumes k: "kern_inv k" and e: "edit_file p ins k = Some (b, k', rest)"
  shows "kern_inv k'"
proof -
  define full where "full = clip 255 p"
  obtain r f where c: "(if fs_read full 2047 (k_fs k) \<noteq> None then (0, k_fs k)
      else fs_create (auth_user_index_current (k_auth k)) full TFile (k_fs k)) = (r, f)" by fastforce
  have f: "tree_ok f"
    using c tree_ok_create [OF kern_invD(3) [OF k], of full] kern_invD(3) [OF k] length_cstr_le [of full]
    by (auto simp: full_def clip_def split: if_splits)
  have w: "kern_inv (k\<lparr>k_fs := g, k_sys := s\<rparr>)" if "fs_write full out f (k_sys k) = (q, g, s)" for out q g s
    using files_upd [OF k tree_ok_write [OF f that] fs_write_same [OF that]] .
  have f1: "kern_inv (k\<lparr>k_fs := f\<rparr>)" using files_upd [OF k f, of "k_sys k"] by simp
  show ?thesis
    using e f1 w unfolding edit_file_def Let_def full_def [symmetric] c
    by (auto split: if_splits option.splits prod.splits)
qed

lemma exec_file_keeps:
  assumes k: "kern_inv k" and e: "exec_file_args p as k = Some (r, out, k')"
  shows "kern_inv k'"
proof -
  have "kern_inv k1" if "exec_elf_args q as k = Some (r, pid, k1)" for q pid k1
  proof -
    have "k1 = k\<lparr>k_sys := k_sys k1\<rparr> \<and> sched_inv (k_sys k1) \<and> cur_running (k_sys k1)"
      using sched.elf_args [of k q "as"] kern_invD(1,2) [OF k] that by (simp add: run_keeps_def inv_carries_def)
    then show ?thesis using kern_inv_upd(1) [OF k, of "k_sys k1"] by simp
  qed
  then show ?thesis
    using e k by (auto simp: exec_file_args_def Let_def split: option.splits if_splits)
qed

section \<open>What a command keeps\<close>

text \<open>The current directory is a canonical path that fits its buffer.\<close>

definition cwd_ok :: "shell \<Rightarrow> bool" where
  "cwd_ok sh \<longleftrightarrow> (\<exists>cs. sh_cwd sh = canon cs \<and> (\<forall>c\<in>set cs. good_comp c)) \<and> length (sh_cwd sh) < FS_NAME_MAX"

fun after :: "(kern \<Rightarrow> shell \<Rightarrow> bool) \<Rightarrow> sh_res \<Rightarrow> bool" where
  "after P (Next k sh evs ins) = P k sh"
| "after P _ = True"

definition sh_keeps :: "shell \<Rightarrow> kern \<Rightarrow> shell \<Rightarrow> bool" where
  "sh_keeps sh k' sh' \<longleftrightarrow> kern_inv k' \<and> cwd_ok sh' \<and>
    (sh_cwd sh' = sh_cwd sh \<or> sh_cwd sh' = ''/arkhe'' \<or> fs_is_dir (sh_cwd sh') (k_fs k'))"

text \<open>Where a command but the last of a session leaves the shell: where it was, or in a directory.\<close>

definition sh_goes :: "shell \<Rightarrow> kern \<Rightarrow> shell \<Rightarrow> bool" where
  "sh_goes sh k' sh' \<longleftrightarrow> sh_cwd sh' = sh_cwd sh \<or> fs_is_dir (sh_cwd sh') (k_fs k')"

named_theorems sh_keep

lemma sh_keeps_refl [sh_keep]: "kern_inv k \<Longrightarrow> cwd_ok sh \<Longrightarrow> sh_keeps sh k sh"
  by (simp add: sh_keeps_def)

lemma after_says [sh_keep]:
  "P k sh \<Longrightarrow> after P (says t k sh ins)" "P k sh \<Longrightarrow> after P (formats n f as k sh ins)"
  by (simp_all add: says_def formats_def split: option.split)

lemma canon_last: "\<forall>c\<in>set cs. good_comp c \<Longrightarrow> cs \<noteq> [] \<Longrightarrow> last (canon cs) \<noteq> CHR ''/''"
proof (induction cs rule: rev_induct)
  case (snoc c cs)
  then have c: "c \<noteq> []" "CHR ''/'' \<notin> set c" by (simp_all add: good_comp_def)
  then have "last (canon (cs @ [c])) = last c" by (simp add: canon_def slashed_def)
  then show ?case using c last_in_set [of c] by metis
qed simp

lemma arkhe_ok: "sh_cwd sh = ''/arkhe'' \<Longrightarrow> cwd_ok sh"
  unfolding cwd_ok_def
  by (intro conjI exI [of _ "[''arkhe'']"]) (simp_all add: canon_def slashed_def good_comp_def FS_NAME_MAX_def)

lemma cd_goes_keeps:
  assumes k: "kern_inv k" and s: "cwd_ok sh"
  shows "after (\<lambda>k' sh'. sh_keeps sh k' sh' \<and> sh_goes sh k' sh') (cmd_metabasis arg k sh ins)"
proof (cases "no_arg arg \<or> vfs_normalize (Some (sh_cwd sh)) arg FS_NAME_MAX = None")
  case True
  have g: "sh_keeps sh k sh \<and> sh_goes sh k sh" using k s by (simp add: sh_keep sh_goes_def)
  then show ?thesis using True by (auto simp: cmd_metabasis_def intro!: after_says)
next
  case False
  have g: "sh_keeps sh k sh \<and> sh_goes sh k sh" using k s by (simp add: sh_keep sh_goes_def)
  from False obtain p norm where n: "arg = Some p" "cstr p \<noteq> []" "vfs_normalize (Some (sh_cwd sh)) arg FS_NAME_MAX = Some norm"
    by (cases arg) (auto simp: no_arg_def)
  obtain cs where cs: "norm = canon cs" "\<forall>c\<in>set cs. good_comp c" "length norm < FS_NAME_MAX"
    using vfs_normalize_canon [OF n(3) [unfolded n(1)] n(2)] by (auto simp: FS_NAME_MAX_def)
  have z: "cstr norm = norm" using cstr_canon [OF cs(2)] cs(1) by simp
  have l: "\<not> (1 < strlen norm \<and> at norm (strlen norm - 1) = CHR ''/'')"
  proof (cases "cs = []")
    case True
    then show ?thesis using z cs(1) by (simp add: strlen_cstr canon_def)
  next
    case ne: False
    have "norm \<noteq> []" using cs(1) ne by (cases cs) (auto simp: canon_def slashed_def)
    then show ?thesis using canon_last [OF cs(2) ne] cs(1) z by (simp add: strlen_cstr at_def last_conv_nth)
  qed
  have c: "clip FS_NAME_MAX norm = norm" using z cs(3) by (simp add: clip_def)
  have "sh_keeps sh k (sh\<lparr>sh_cwd := norm\<rparr>) \<and> sh_goes sh k (sh\<lparr>sh_cwd := norm\<rparr>)" if "fs_is_dir norm (k_fs k)"
    using that k cs by (auto simp: sh_keeps_def cwd_ok_def sh_goes_def)
  then show ?thesis
    using n l c False g by (auto simp: cmd_metabasis_def Let_def intro!: after_says)
qed

lemma cd_keeps [sh_keep]:
  assumes "kern_inv k" "cwd_ok sh"
  shows "after (sh_keeps sh) (cmd_metabasis arg k sh ins)" "after (sh_goes sh) (cmd_metabasis arg k sh ins)"
  using cd_goes_keeps [OF assms, of arg ins] by (cases "cmd_metabasis arg k sh ins"; simp)+

lemma keeps_Next: "kern_inv k \<Longrightarrow> cwd_ok sh \<Longrightarrow> after (sh_keeps sh) (Next k sh evs ins)"
  by (simp add: sh_keeps_refl)

lemma file_commands_keep [sh_keep]:
  assumes k: "kern_inv k" and s: "cwd_ok sh"
  shows "after (sh_keeps sh) (cmd_list_dir arg k sh ins)" "after (sh_keeps sh) (cmd_ktisis arg k sh ins)"
    "after (sh_keeps sh) (cmd_rm arg k sh ins)" "after (sh_keeps sh) (cmd_cp arg k sh ins)"
    "after (sh_keeps sh) (cmd_mv arg k sh ins)" "after (sh_keeps sh) (cmd_graphe arg k sh ins)"
    "after (sh_keeps sh) (cmd_edit arg k sh ins)" "after (sh_keeps sh) (cmd_echo arg k sh ins)"
    "after (sh_keeps sh) (cmd_pwd k sh ins)"
  using vfs_keeps [OF k] vfs_copy_move_keeps [OF k] edit_file_keeps [OF k] k s
  by (auto simp: cmd_list_dir_def cmd_ktisis_def cmd_rm_def cmd_cp_def cmd_mv_def cmd_graphe_def
      cmd_edit_def cmd_echo_def cmd_pwd_def Let_def sh_keep split: option.split prod.split)

lemma account_commands_keep [sh_keep]:
  assumes k: "kern_inv k" and s: "cwd_ok sh"
  shows "after (sh_keeps sh) (cmd_whoami k sh ins)" "after (sh_keeps sh) (cmd_passwd k sh ins)"
    "after (sh_keeps sh) (cmd_useradd arg k sh ins)" "after (sh_keeps sh) (cmd_auth k sh ins)"
    "\<forall>l\<in>set ins. strlen l \<le> 31 \<Longrightarrow> after (sh_keeps sh) (cmd_exit k sh ins)"
proof -
  note A = kern_invD(5) [OF k]
  have U: "kern_inv (k\<lparr>k_auth := a\<rparr>)" if "auth_ok a" for a using kern_inv_upd(2) [OF k that] .
  show "after (sh_keeps sh) (cmd_whoami k sh ins)" "after (sh_keeps sh) (cmd_auth k sh ins)"
    using k s by (simp_all add: cmd_whoami_def cmd_auth_def sh_keep)
  have "auth_ok a" if "auth_change_password n old new (k_auth k) = (b, a)" for n old new b a
    using change_password_ok(1) [OF A, of n old new] that by simp
  then show "after (sh_keeps sh) (cmd_passwd k sh ins)"
    using k s U by (auto simp: cmd_passwd_def Let_def sh_keep split: option.split prod.split list.split)
  have "auth_ok a" if "auth_create_user n p c ad (k_auth k) = (b, a)" "strlen n \<le> 31" for n p c ad b a
    using create_user_ok [OF A, of n p c ad] that by simp
  moreover have "strlen (takeWhile (\<lambda>c. c \<noteq> CHR '' '') (clip 31 t)) \<le> 31" for t
  proof -
    have "length (takeWhile (\<lambda>c. c \<noteq> CHR '' '') (clip 31 t)) \<le> length (clip 31 t)" by (rule length_takeWhile_le)
    also have "\<dots> \<le> 31" by (simp add: clip_def)
    finally show ?thesis using length_cstr_le le_trans by (fastforce simp: strlen_cstr)
  qed
  ultimately show "after (sh_keeps sh) (cmd_useradd arg k sh ins)"
    using k s U by (auto simp: cmd_useradd_def Let_def sh_keep split: option.split prod.split list.split)
  show "after (sh_keeps sh) (cmd_exit k sh ins)" if "\<forall>l\<in>set ins. strlen l \<le> 31"
    using login_main_keeps [OF _ A kern_invD(4) [OF k] that] k
    by (auto simp: cmd_exit_def sh_keeps_def arkhe_ok kern_inv_def split: option.split)
qed

lemma program_commands_keep [sh_keep]:
  assumes k: "kern_inv k" and s: "cwd_ok sh"
  shows "after (sh_keeps sh) (cmd_praxia img arg k sh ins)" "after (sh_keeps sh) (cmd_kinesis k sh ins)"
proof -
  have t: "kern_inv (k\<lparr>k_sys := s'\<rparr>)" if "apps_try_run_args img p as (k_sys k) = (a, pid, s')" for p "as" a pid s'
    using try_run_inv [OF that kern_invD(1,2) [OF k]] kern_inv_upd(1) [OF k] by blast
  show "after (sh_keeps sh) (cmd_praxia img arg k sh ins)"
    using k s t exec_file_keeps [OF t]
    by (auto simp: cmd_praxia_def Let_def sh_keep split: option.split prod.split)
  show "after (sh_keeps sh) (cmd_kinesis k sh ins)"
    using k s by (simp add: cmd_kinesis_def sh_keep)
qed

lemma other_commands_keep [sh_keep]:
  assumes "kern_inv k" "cwd_ok sh"
  shows "after (sh_keeps sh) (cmd_synallagma arg k sh ins)" "after (sh_keeps sh) (cmd_emporion arg k sh ins)"
    "after (sh_keeps sh) (cmd_thais k sh ins)" "after (sh_keeps sh) (cmd_help k sh ins)"
  using assms by (simp_all add: cmd_synallagma_def cmd_emporion_def cmd_thais_def cmd_help_def sh_keep)

text \<open>The lines typed in answer: the buffers for names and passwords hold 31
  characters, those of the command line and of the editor 255.\<close>

definition typed_ok :: "string \<Rightarrow> string list \<Rightarrow> bool" where
  "typed_ok line ins \<longleftrightarrow>
    (\<forall>l\<in>set ins. strlen l \<le> (if fst (sh_split (dropWhile (\<lambda>c. c = CHR '' '') (cstr line))) = ''edit'' then 255 else 31))"

lemma dispatch_keeps_sh:
  assumes "kern_inv k" "cwd_ok sh" "cmd \<noteq> ''edit'' \<Longrightarrow> \<forall>l\<in>set ins. strlen l \<le> 31"
  shows "after (sh_keeps sh) (sh_dispatch img cmd arg k sh ins)"
  using assms by (simp add: sh_dispatch_def sh_keep)

lemma exec_line_keeps:
  assumes "kern_inv k" "cwd_ok sh" "typed_ok line ins"
  shows "after (sh_keeps sh) (thais_exec_line img line k sh ins)"
proof -
  let ?l = "dropWhile (\<lambda>c. c = CHR '' '') (cstr line)"
  obtain cmd arg where c: "sh_split ?l = (cmd, arg)" by fastforce
  have "\<forall>l\<in>set ins. strlen l \<le> 31" if "cmd \<noteq> ''edit''" using assms(3) c that by (simp add: typed_ok_def)
  then show ?thesis
    using dispatch_keeps_sh [OF assms(1,2)] c keeps_Next [OF assms(1,2)] by (simp add: thais_exec_line_def Let_def)
qed

lemma turn_keeps:
  assumes "kern_inv k" "cwd_ok sh" "\<forall>line. ins \<noteq> [] \<and> line = hd ins \<longrightarrow> typed_ok line (tl ins)"
  shows "after (sh_keeps sh) (sh_turn img k sh ins)"
proof (cases ins)
  case (Cons line rest)
  have e: "after (sh_keeps sh) (thais_exec_line img line k sh rest)"
    using exec_line_keeps assms Cons by simp
  have "sh_keeps sh (k'\<lparr>k_sys := sched_yield (k_sys k')\<rparr>) sh'" if "sh_keeps sh k' sh'" for k' sh'
    using that sched_yield_inv [OF kern_invD(1,2), of k'] kern_inv_upd(1) by (auto simp: sh_keeps_def)
  then show ?thesis using e Cons by (cases "thais_exec_line img line k sh rest") (auto simp: sh_turn_def)
qed (simp add: sh_turn_def)

section \<open>The directory\<close>

text \<open>Only \<open>cd\<close> and the end of the session change where the shell stands: \<open>cd\<close> to a directory, the
  other to \<open>/arkhe\<close>, which nobody looks up.\<close>

abbreviation stays :: "shell \<Rightarrow> sh_res \<Rightarrow> bool" where
  "stays sh \<equiv> after (\<lambda>k' sh'. sh_cwd sh' = sh_cwd sh)"

lemma commands_stay:
  "stays sh (cmd_list_dir arg k sh ins)" "stays sh (cmd_ktisis arg k sh ins)" "stays sh (cmd_rm arg k sh ins)"
  "stays sh (cmd_cp arg k sh ins)" "stays sh (cmd_mv arg k sh ins)" "stays sh (cmd_graphe arg k sh ins)"
  "stays sh (cmd_edit arg k sh ins)" "stays sh (cmd_echo arg k sh ins)" "stays sh (cmd_pwd k sh ins)"
  "stays sh (cmd_whoami k sh ins)" "stays sh (cmd_passwd k sh ins)" "stays sh (cmd_useradd arg k sh ins)"
  "stays sh (cmd_auth k sh ins)" "stays sh (cmd_praxia img arg k sh ins)" "stays sh (cmd_kinesis k sh ins)"
  "stays sh (cmd_synallagma arg k sh ins)" "stays sh (cmd_emporion arg k sh ins)" "stays sh (cmd_thais k sh ins)"
  "stays sh (cmd_help k sh ins)" "stays sh (says t k sh ins)" "stays sh (formats n f fs k sh ins)"
  by (auto simp: cmd_list_dir_def cmd_ktisis_def cmd_rm_def cmd_cp_def cmd_mv_def cmd_graphe_def cmd_edit_def
      cmd_echo_def cmd_pwd_def cmd_whoami_def cmd_passwd_def cmd_useradd_def cmd_auth_def cmd_praxia_def
      cmd_kinesis_def cmd_synallagma_def cmd_emporion_def cmd_thais_def cmd_help_def Let_def after_says
      split: option.split prod.split list.split)

lemma stays_goes: "stays sh r \<Longrightarrow> after (sh_goes sh) r"
  by (cases r) (simp_all add: sh_goes_def)

lemmas commands_go = commands_stay [THEN stays_goes]

lemma after_either:
  "after P (f k sh ins) \<Longrightarrow> after P (g k sh ins) \<Longrightarrow> after P ((if b then f else g) k sh ins)"
  by simp

lemma dispatch_goes:
  assumes "cmd \<noteq> ''exit''" "cmd \<noteq> ''logout''" "kern_inv k" "cwd_ok sh"
  shows "after (sh_goes sh) (sh_dispatch img cmd arg k sh ins)"
proof -
  have "(if cmd = ''exit'' \<or> cmd = ''logout'' then cmd_exit else f) = f" for f using assms(1,2) by simp
  then show ?thesis
    unfolding sh_dispatch_def
    by (simp only:) (intro after_either commands_go cd_keeps(2) [OF assms(3,4)]; simp add: sh_goes_def)
qed

lemma exit_goes:
  assumes "cmd = ''exit'' \<or> cmd = ''logout''"
  shows "after (\<lambda>k' sh'. sh_cwd sh' = ''/arkhe'') (sh_dispatch img cmd arg k sh ins)"
proof -
  have "sh_dispatch img cmd arg = cmd_exit" using assms by (elim disjE) (simp_all add: sh_dispatch_def)
  then show ?thesis by (simp add: cmd_exit_def split: option.split)
qed

text \<open>The word of the command typed.\<close>

definition command_word :: "string \<Rightarrow> string" where
  "command_word line = fst (sh_split (dropWhile (\<lambda>c. c = CHR '' '') (cstr line)))"

lemma exec_line_goes:
  assumes "kern_inv k" "cwd_ok sh"
  shows "after (\<lambda>k' sh'. if command_word line = ''exit'' \<or> command_word line = ''logout'' then sh_cwd sh' = ''/arkhe''
     else sh_goes sh k' sh') (thais_exec_line img line k sh ins)"
proof -
  obtain cmd arg where c: "sh_split (dropWhile (\<lambda>c. c = CHR '' '') (cstr line)) = (cmd, arg)" by fastforce
  have w: "command_word line = cmd" using c by (simp add: command_word_def)
  show ?thesis
  proof (cases "dropWhile (\<lambda>c. c = CHR '' '') (cstr line) = []")
    case True
    have "cmd = []" using c unfolding True by (simp add: sh_split_def)
    then show ?thesis using True w by (simp add: thais_exec_line_def sh_goes_def)
  next
    case False
    then have e: "thais_exec_line img line k sh ins = sh_dispatch img cmd (if arg = [] then None else Some arg) k sh ins"
      unfolding thais_exec_line_def Let_def c prod.case by (simp only: if_False)
    show ?thesis
    proof (cases "cmd = ''exit'' \<or> cmd = ''logout''")
      case True
      then show ?thesis using exit_goes [OF True] unfolding e w if_P [OF True] by blast
    next
      case False
      then show ?thesis using dispatch_goes [OF _ _ assms, of cmd] unfolding e w if_not_P [OF False] by blast
    qed
  qed
qed

lemma root_is_dir: "fs_is_dir ''/'' f"
  by (simp add: fs_is_dir_def cstr_def)

lemma start_in_dir: "fs_is_dir (sh_cwd (sh_start k)) (k_fs k)"
  using root_is_dir by (simp add: sh_start_def)

section \<open>Accounts\<close>

text \<open>A command other than leaving the session changes an account only as the session's
  user changes its own password, with the old one typed, or as an administrator.\<close>

definition acts_on_own :: "kern \<Rightarrow> shell \<Rightarrow> string list \<Rightarrow> kern \<Rightarrow> bool" where
  "acts_on_own k sh ins k' \<longleftrightarrow> au_accounts (k_auth k') = au_accounts (k_auth k) \<or>
    (\<exists>r i. sh_user sh = Some r \<and> auth_find (ac_name (user_of (k_auth k) r)) (k_auth k) = Some i \<and>
       ins \<noteq> [] \<and> auth_verify (ac_name (user_of (k_auth k) r)) (hd ins) (k_auth k) \<and>
       length (au_accounts (k_auth k')) = length (au_accounts (k_auth k)) \<and>
       (\<forall>j. j \<noteq> i \<longrightarrow> au_accounts (k_auth k') ! j = au_accounts (k_auth k) ! j)) \<or>
    (\<exists>r. sh_user sh = Some r \<and> ac_admin (user_of (k_auth k) r))"

named_theorems own_acts

lemma own_acts_same [own_acts]: "k_auth k' = k_auth k \<Longrightarrow> acts_on_own k sh ins k'"
  by (simp add: acts_on_own_def)

lemma vfs_auth:
  "vfs_create cwd p type k = (r, k') \<Longrightarrow> k_auth k' = k_auth k"
  "vfs_remove cwd p k = (r, k') \<Longrightarrow> k_auth k' = k_auth k"
  "vfs_copy cwd a b k = (r, k') \<Longrightarrow> k_auth k' = k_auth k"
  "vfs_move cwd a b k = (r, k') \<Longrightarrow> k_auth k' = k_auth k"
proof -
  show "vfs_create cwd p type k = (r, k') \<Longrightarrow> k_auth k' = k_auth k" by (erule vfs_create_cases) auto
  show "vfs_remove cwd p k = (r, k') \<Longrightarrow> k_auth k' = k_auth k" by (erule vfs_remove_cases) auto
qed (auto simp: vfs_copy_def vfs_move_def vfs_pair_def split: option.splits if_splits prod.splits)

lemma programs_auth:
  "edit_file p ins k = Some (b, k', rest) \<Longrightarrow> k_auth k' = k_auth k"
  "exec_file_args p as k = Some (r, out, k') \<Longrightarrow> k_auth k' = k_auth k"
proof -
  show "edit_file p ins k = Some (b, k', rest) \<Longrightarrow> k_auth k' = k_auth k"
    by (auto simp: edit_file_def Let_def split: if_splits option.splits prod.splits)
  have "k_auth k' = k_auth k" if e: "exec_elf_args q as k = Some (r, pid, k')" for q pid k' r
  proof -
    have "k' = k\<lparr>k_sys := k_sys k'\<rparr>" using sched.elf_args [of k q "as"] e by (simp add: run_keeps_def)
    then show ?thesis by (metis kern.ext_inject kern.surjective kern.update_convs(1))
  qed
  then show "exec_file_args p as k = Some (r, out, k') \<Longrightarrow> k_auth k' = k_auth k"
    by (auto simp: exec_file_args_def Let_def split: option.splits if_splits)
qed

lemma commands_own [own_acts]:
  "after (\<lambda>k' _. acts_on_own k sh ins k') (cmd_list_dir arg k sh ins)"
  "after (\<lambda>k' _. acts_on_own k sh ins k') (cmd_metabasis arg k sh ins)"
  "after (\<lambda>k' _. acts_on_own k sh ins k') (cmd_ktisis arg k sh ins)"
  "after (\<lambda>k' _. acts_on_own k sh ins k') (cmd_rm arg k sh ins)"
  "after (\<lambda>k' _. acts_on_own k sh ins k') (cmd_cp arg k sh ins)"
  "after (\<lambda>k' _. acts_on_own k sh ins k') (cmd_mv arg k sh ins)"
  "after (\<lambda>k' _. acts_on_own k sh ins k') (cmd_graphe arg k sh ins)"
  "after (\<lambda>k' _. acts_on_own k sh ins k') (cmd_edit arg k sh ins)"
  "after (\<lambda>k' _. acts_on_own k sh ins k') (cmd_praxia img arg k sh ins)"
  using vfs_auth programs_auth
  by (auto simp: cmd_list_dir_def cmd_metabasis_def cmd_ktisis_def cmd_rm_def cmd_cp_def cmd_mv_def
      cmd_graphe_def cmd_edit_def cmd_praxia_def Let_def sh_keep intro!: own_acts after_says split: option.split prod.split)

lemma passwd_own [own_acts]:
  "after (\<lambda>k' _. acts_on_own k sh ins k') (cmd_passwd k sh ins)"
  "after (\<lambda>k' _. acts_on_own k sh ins k') (cmd_useradd arg k sh ins)"
proof -
  have p: "acts_on_own k sh ins (k\<lparr>k_auth := a\<rparr>)"
    if u: "sh_user sh = Some r" and i: "ins = old # rest" and
      c: "auth_change_password (ac_name (user_of (k_auth k) r)) old new (k_auth k) = (ok, a)" for r old rest new ok a
  proof (cases ok)
    case True
    let ?n = "ac_name (user_of (k_auth k) r)"
    obtain i where f: "auth_find ?n (k_auth k) = Some i" and v: "auth_verify ?n old (k_auth k)"
      and a: "a = set_password i new (k_auth k)"
      using c True by (auto simp: auth_change_password_def split: option.splits if_splits)
    have l: "i < length (au_accounts (k_auth k))" using first_index_SomeD(1) [OF f [unfolded auth_find_def]] .
    obtain x where e: "au_accounts a = (au_accounts (k_auth k))[i := x]"
      using set_password_accounts [of i new "k_auth k"] l a by auto
    show ?thesis unfolding acts_on_own_def using u i f v by (simp add: e)
  next
    case False
    then have "a = k_auth k" using c by (auto simp: auth_change_password_def split: option.splits if_splits)
    then show ?thesis by (simp add: own_acts)
  qed
  show "after (\<lambda>k' _. acts_on_own k sh ins k') (cmd_passwd k sh ins)"
    using p by (auto simp: cmd_passwd_def Let_def own_acts sh_keep split: option.split prod.split list.split)
  have "acts_on_own k sh ins k'" if "sh_user sh = Some r" "ac_admin (user_of (k_auth k) r)" for r k'
    using that by (auto simp: acts_on_own_def)
  then show "after (\<lambda>k' _. acts_on_own k sh ins k') (cmd_useradd arg k sh ins)"
    by (auto simp: cmd_useradd_def Let_def own_acts sh_keep split: option.split prod.split list.split)
qed

lemma others_own [own_acts]:
  "after (\<lambda>k' _. acts_on_own k sh ins k') (cmd_echo arg k sh ins)"
  "after (\<lambda>k' _. acts_on_own k sh ins k') (cmd_pwd k sh ins)"
  "after (\<lambda>k' _. acts_on_own k sh ins k') (cmd_whoami k sh ins)"
  "after (\<lambda>k' _. acts_on_own k sh ins k') (cmd_synallagma arg k sh ins)"
  "after (\<lambda>k' _. acts_on_own k sh ins k') (cmd_emporion arg k sh ins)"
  "after (\<lambda>k' _. acts_on_own k sh ins k') (cmd_kinesis k sh ins)"
  "after (\<lambda>k' _. acts_on_own k sh ins k') (cmd_thais k sh ins)"
  "after (\<lambda>k' _. acts_on_own k sh ins k') (cmd_auth k sh ins)"
  "after (\<lambda>k' _. acts_on_own k sh ins k') (cmd_help k sh ins)"
  by (simp_all add: cmd_echo_def cmd_pwd_def cmd_whoami_def cmd_synallagma_def cmd_emporion_def
      cmd_kinesis_def cmd_thais_def cmd_auth_def cmd_help_def own_acts sh_keep)

lemma dispatch_own:
  assumes "cmd \<noteq> ''exit''" "cmd \<noteq> ''logout''"
  shows "after (\<lambda>k' _. acts_on_own k sh ins k') (sh_dispatch img cmd arg k sh ins)"
  using assms by (simp add: sh_dispatch_def own_acts sh_keep)

lemma drop_none: "c \<notin> set p \<Longrightarrow> dropWhile (\<lambda>d. d = c) p = p"
  by (cases p) auto

text \<open>The editor asks no contract: where the contract of a path forbids writing, so that a write
  through the file system's front end is refused, the command \<open>edit\<close> stores the lines typed.\<close>

theorem edit_ignores_contract:
  assumes "tree_ok (k_fs k)" "norm_of (Some (sh_cwd sh)) (Some p) = Some full"
    "\<not> vfs_check_cap full CAP_FS_WRITE k"
    "p \<noteq> []" "length p \<le> 199" "NUL \<notin> set p" "CHR '' '' \<notin> set p"
    "fs_read full 2047 (k_fs k) \<noteq> None" "edit_lines [] ins = Some (out, rest)" "out \<noteq> []"
    "fs_write full out (k_fs k) (k_sys k) = (0, f, s)"
  shows "vfs_write (Some (sh_cwd sh)) (Some p) out k = (-1, k) \<and>
    thais_exec_line img (''edit '' @ p) k sh ins = Next (k\<lparr>k_fs := f, k_sys := s\<rparr>) sh [] rest \<and>
    fs_read full mx f = Some (take mx out)"
proof (intro conjI)
  show "vfs_write (Some (sh_cwd sh)) (Some p) out k = (-1, k)" using vfs_refused [OF assms(2,3)] by blast
  have z: "cstr p = p" using assms(6) by (rule cstr_id)
  obtain cs where cs: "full = canon cs" "\<forall>c\<in>set cs. good_comp c" "length full < 256"
    using vfs_normalize_canon [OF assms(2) [unfolded norm_of_def], unfolded z] assms(4) by (auto simp: FS_NAME_MAX_def)
  have f: "clip 255 full = full" using cstr_canon [OF cs(2)] cs(1,3) by (simp add: clip_def)
  have sp: "dropWhile (\<lambda>c. c = CHR '' '') p = p" "rev (dropWhile (\<lambda>c. c = CHR '' '') (rev p)) = p"
    using assms(7) drop_none [of _ "rev p"] drop_none [of _ p] by simp_all
  have e: "edit_file full ins k = Some (True, k\<lparr>k_fs := f, k_sys := s\<rparr>, rest)"
    using assms(8-11) by (simp add: edit_file_def f)
  define line where "line = ''edit '' @ p"
  have l: "cstr line = line" "dropWhile (\<lambda>c. c = CHR '' '') line = line" "line \<noteq> []"
    using z by (simp_all add: line_def)
  have "sh_split line = (''edit'', p)" using sp assms(5) by (simp add: sh_split_def line_def)
  then have "thais_exec_line img line k sh ins = sh_dispatch img ''edit'' (Some p) k sh ins"
    unfolding thais_exec_line_def Let_def l using l(3) assms(4) by simp
  moreover have "sh_dispatch img ''edit'' (Some p) = cmd_edit (Some p)" by (simp add: sh_dispatch_def)
  ultimately have "thais_exec_line img (''edit '' @ p) k sh ins = cmd_edit (Some p) k sh ins"
    unfolding line_def by simp
  then show "thais_exec_line img (''edit '' @ p) k sh ins = Next (k\<lparr>k_fs := f, k_sys := s\<rparr>) sh [] rest"
    using e assms(2,4) z by (simp add: cmd_edit_def no_arg_def norm_of_def)
  have ok: "fs_ok (k_fs k)" using assms(1) by (simp add: tree_ok_def)
  from fs_write_spec(2) [OF ok assms(11)] show "fs_read full mx f = Some (take mx out)"
    by (auto simp: fs_read_look)
qed

lemma edit_ignores_contract_witness:
  "\<exists>k'. thais_exec_line (\<lambda>_. 0) ''edit /a'' read_only_kern \<lparr>sh_cwd = ''/'', sh_user = None\<rparr> [''yes'', ''.''] =
       Next k' \<lparr>sh_cwd = ''/'', sh_user = None\<rparr> [] [] \<and>
     fs_read ''/a'' 9 (k_fs k') = Some (''yes'' @ [LF])"
proof -
  let ?sh = "\<lparr>sh_cwd = ''/'', sh_user = None\<rparr>"
  have k: "k_fs read_only_kern = one_file" "k_sys read_only_kern = heap_sys"
    by (simp_all add: read_only_kern_def demo_kern_def)
  have c: "\<not> vfs_check_cap ''/a'' CAP_FS_WRITE read_only_kern"
    using guard_simps(1,4) by (simp add: vfs_check_cap_def Let_def CAP_FS_WRITE_def CAP_IDIOS_WRITE_def CAP_NOMOS_WRITE_def)
      (simp add: read_only_kern_def clear_contract_def)
  have "fst (fs_write ''/a'' (''yes'' @ [LF]) one_file heap_sys) = 0"
    by (simp add: fs_write_def fs_get_def one_file_def cstr_def FS_MAX_DATA_def)
  then obtain f s where w: "fs_write ''/a'' (''yes'' @ [LF]) one_file heap_sys = (0, f, s)"
    by (cases "fs_write ''/a'' (''yes'' @ [LF]) one_file heap_sys") auto
  have r: "fs_read ''/a'' 2047 one_file \<noteq> None"
    by (simp add: fs_read_look one_file_look one_file_hd cstr_def)
  have e: "edit_lines [] [''yes'', ''.''] = Some (''yes'' @ [LF], [])" by (simp add: strlen_cstr cstr_def)
  have n: "norm_of (Some (sh_cwd ?sh)) (Some ''/a'') = Some ''/a''" by (rule norm_a)
  have w': "fs_write ''/a'' (''yes'' @ [LF]) (k_fs read_only_kern) (k_sys read_only_kern) = (0, f, s)"
    using w k by simp
  have "vfs_write (Some (sh_cwd ?sh)) (Some ''/a'') (''yes'' @ [LF]) read_only_kern = (-1, read_only_kern) \<and>
    thais_exec_line (\<lambda>_. 0) (''edit '' @ ''/a'') read_only_kern ?sh [''yes'', ''.''] =
      Next (read_only_kern\<lparr>k_fs := f, k_sys := s\<rparr>) ?sh [] [] \<and> fs_read ''/a'' 9 f = Some (take 9 (''yes'' @ [LF]))"
    by (rule edit_ignores_contract [OF _ n c _ _ _ _ _ e _ w']) (use k one_file_ok r in simp_all)
  then show ?thesis by auto
qed

lemma start_ok: "cwd_ok (sh_start k)"
proof (cases "fs_is_dir ''/arkhe'' (k_fs k)")
  case True
  then show ?thesis by (simp add: sh_start_def arkhe_ok)
next
  case False
  then have "sh_cwd (sh_start k) = canon [] \<and> length (sh_cwd (sh_start k)) = 1"
    by (simp add: sh_start_def canon_def)
  moreover have "length (canon []) < FS_NAME_MAX" by (simp add: canon_def FS_NAME_MAX_def)
  ultimately show ?thesis unfolding cwd_ok_def by (auto intro!: exI [of _ "[]"])
qed

text \<open>Accounts change from the command line in three ways only: by the session's user for its own
  account, with the old password typed first, by an administrator, or in the login dialogue
  that follows the end of the session.\<close>

theorem shell_accounts:
  assumes "thais_exec_line img line k sh ins = Next k' sh' evs rest"
    "fst (sh_split (dropWhile (\<lambda>c. c = CHR '' '') (cstr line))) \<notin> {''exit'', ''logout''}"
  shows "au_accounts (k_auth k') = au_accounts (k_auth k) \<or>
    (\<exists>r. sh_user sh = Some r \<and> ac_admin (user_of (k_auth k) r)) \<or>
    (\<exists>r i. sh_user sh = Some r \<and> auth_find (ac_name (user_of (k_auth k) r)) (k_auth k) = Some i \<and>
       ins \<noteq> [] \<and> auth_verify (ac_name (user_of (k_auth k) r)) (hd ins) (k_auth k) \<and>
       length (au_accounts (k_auth k')) = length (au_accounts (k_auth k)) \<and>
       (\<forall>j. j \<noteq> i \<longrightarrow> au_accounts (k_auth k') ! j = au_accounts (k_auth k) ! j))"
proof -
  let ?l = "dropWhile (\<lambda>c. c = CHR '' '') (cstr line)"
  obtain cmd arg where c: "sh_split ?l = (cmd, arg)" by fastforce
  then have "cmd \<noteq> ''exit''" "cmd \<noteq> ''logout''" using assms(2) by simp_all
  from dispatch_own [OF this, of k sh ins img]
  have "after (\<lambda>k' _. acts_on_own k sh ins k') (thais_exec_line img line k sh ins)"
    unfolding thais_exec_line_def Let_def c prod.case by (simp add: own_acts)
  then have "acts_on_own k sh ins k'" using assms(1) by simp
  then show ?thesis unfolding acts_on_own_def by blast
qed

lemma shell_accounts_witness:
  "\<exists>k' sh' evs rest.
     thais_exec_line (\<lambda>_. 0) ''useradd bob'' demo_kern \<lparr>sh_cwd = ''/'', sh_user = None\<rparr> [''pass''] = Next k' sh' evs rest \<and>
     au_accounts (k_auth k') = au_accounts (k_auth demo_kern)"
proof -
  let ?sh = "\<lparr>sh_cwd = ''/'', sh_user = None\<rparr>"
  have "sh_split ''useradd bob'' = (''useradd'', ''bob'')" by code_simp
  then have s: "sh_split (dropWhile (\<lambda>c. c = CHR '' '') (cstr ''useradd bob'')) = (''useradd'', ''bob'')" by simp
  then obtain evs where e: "thais_exec_line (\<lambda>_. 0) ''useradd bob'' demo_kern ?sh [''pass''] = Next demo_kern ?sh evs [''pass'']"
    by (simp add: thais_exec_line_def sh_dispatch_def cmd_useradd_def says_def)
  then show ?thesis using shell_accounts [OF e] s by auto
qed

end
