(* ===== verification/Boot.thy ===== *)
theory Boot
  imports Shell
begin

unbundle bit_operations_syntax

text \<open>
  From power-on to the running system: the boot sequence (src/kernel/main.c,
  src/kernel/init.c), the interrupt handler (src/kernel/isr.c), and the steps
  the kernel takes afterwards.  The static variables start as zeros; the boot
  sequence calls the initialisation of each component in the order of
  \<open>thais_main\<close>.  The hardware set up on the way (serial port, screen, GDT, IDT,
  PIC, timer, keyboard) keeps no state the other components read.
\<close>

section \<open>Zeroed statics\<close>

section \<open>The boot sequence\<close>

text \<open>\<open>pmm_init\<close>, \<open>heap_init\<close> and \<open>paging_init\<close>, which saves the address space the
  boot loader left in CR3.\<close>

definition boot_memory :: "boot_info \<Rightarrow> u64 \<Rightarrow> sys \<Rightarrow> sys" where
  "boot_memory bi cr3 s =
    (case heap_init (kheap s) (pmm_init bi (frames (vmem s))) of (h, p) \<Rightarrow>
      s\<lparr>kheap := h, vmem := (vmem s)\<lparr>frames := p, saved_cr3 := cr3\<rparr>, hw_cr3 := cr3\<rparr>)"

definition init_start :: "u64 \<Rightarrow> sys \<Rightarrow> sys" where
  "init_start session_entry s = snd (proc_create (Some ''init'') CAP_ALL session_entry s)"

definition thais_main :: "boot_info \<Rightarrow> u64 \<Rightarrow> mod_rec list \<Rightarrow> u64 \<Rightarrow> kern" where
  "thais_main bi cr3 mods session_entry =
    (let s = boot_memory bi cr3 zero_sys;
         s = sched_init (proc_init s);
         (f, s) = fs_init_defaults mods 0xFF (fs_init, s);
         s = init_start session_entry s
     in \<lparr>k_sys = sched_run_first s, k_fs = f, k_pact = fst (synallagma_load_contracts f),
         k_auth = auth_init zero_auth, k_ipc = ipc_init zero_ipc, k_svc = svc_init, k_ticks = 0\<rparr>)"

section \<open>The first process\<close>

text \<open>The boot services: each module whose manifest says so runs in ring 3, and gets
  the driver capabilities.\<close>

definition kormi_one :: "mod_rec list \<Rightarrow> mod_rec \<Rightarrow> kern \<Rightarrow> kern option" where
  "kormi_one mods m k =
    (if \<not> mod_flag (md_cfg m) ''kormi'' then Some k
     else case exec_embedded_args mods (Some (md_name m)) [] k of
       None \<Rightarrow> None
     | Some (r, pid, k) \<Rightarrow>
        if r = 0 \<and> pid \<noteq> 0
        then Some (k\<lparr>k_sys := snd (cap_grant pid (CAP_DEV_IO OR CAP_FB_DRAW OR CAP_USER_ADMIN) (k_sys k))\<rparr>)
        else Some k)"

fun kormi_loop :: "mod_rec list \<Rightarrow> mod_rec list \<Rightarrow> kern \<Rightarrow> kern option" where
  "kormi_loop mods [] k = Some k"
| "kormi_loop mods (m # ms) k =
    (case kormi_one mods m k of None \<Rightarrow> None | Some k \<Rightarrow> kormi_loop mods ms k)"

definition kormi_start :: "mod_rec list \<Rightarrow> kern \<Rightarrow> kern option" where
  "kormi_start mods k = kormi_loop mods mods k"

text \<open>A turn of the session loop of \<open>session_entry\<close>: the login program starts, or the
  kernel's own login has to run.\<close>

datatype session = Waits u32 kern | OwnLogin kern | Faults

definition session_turn :: "mod_rec list \<Rightarrow> kern \<Rightarrow> session" where
  "session_turn mods k =
    (case exec_embedded_args mods (Some ''spoudazo'') [] k of
       None \<Rightarrow> Faults
     | Some (r, pid, k) \<Rightarrow> if r \<noteq> 0 \<or> pid = 0 then OwnLogin k else Waits pid k)"

text \<open>The wait for the session to end: \<open>proc_get\<close> and a yield, until the process is
  gone.\<close>

definition session_ended :: "u32 \<Rightarrow> sys \<Rightarrow> bool" where
  "session_ended pid s = (case proc_get s pid of None \<Rightarrow> True | Some i \<Rightarrow> \<not> p_present (procs s ! i))"

section \<open>Interrupts\<close>

datatype irq_result = Panic | Resume "(nat \<times> nat) option" kern

text \<open>The handlers installed for the sixteen lines; the only one the kernel installs
  touches the keyboard, so a handler is a function of the whole kernel here and the
  lemmas say what they assume of it.\<close>

definition irq_common_handler :: "(nat \<Rightarrow> (kern \<Rightarrow> kern) option) \<Rightarrow> nat \<Rightarrow> kern \<Rightarrow> irq_result" where
  "irq_common_handler handlers int_no k =
    (if int_no < 32 then Panic
     else
       let irq = int_no - 32;
           k = (if irq = 0 then k\<lparr>k_ticks := k_ticks k + 1\<rparr> else k);
           k = (case handlers irq of None \<Rightarrow> k | Some h \<Rightarrow> h k)
       in if irq = 0 \<and> (case current_proc k of None \<Rightarrow> False | Some p \<Rightarrow> p_state p = Running) \<and>
             sched_running (k_sys k)
          then (case sched_preempt_pick (k_sys k) of (t, s) \<Rightarrow> Resume t (k\<lparr>k_sys := s\<rparr>))
          else Resume None k)"

text \<open>What the stub of idt.asm does with the choice: it parks the process it came from with the base of the
  registers it saved and the CR3 of the moment, and enters the target in the target's address space,
  by a first return when that has not run yet.\<close>

definition irq_stub :: "u64 \<Rightarrow> (nat \<times> nat) option \<Rightarrow> sys \<Rightarrow> sys" where
  "irq_stub base t s =
    (case t of None \<Rightarrow> s
     | Some (n, i) \<Rightarrow>
        let s = upd i (\<lambda>p. p\<lparr>p_ctx := (p_ctx p)\<lparr>c_hw_rsp := base, c_style := 1, c_cr3 := hw_cr3 s\<rparr>\<rparr>) s;
            s = (if c_ran (p_ctx (procs s ! n)) then s
                 else upd n (\<lambda>p. p\<lparr>p_ctx := (p_ctx p)\<lparr>c_style := 0, c_ran := True\<rparr>\<rparr>) s)
        in load_cr3 (c_cr3 (p_ctx (procs s ! n))) s)"

text \<open>Whether the base of a parked interrupt frame lies in the kernel stack.\<close>

definition isr_park_check :: "u64 \<Rightarrow> pcb option \<Rightarrow> bool" where
  "isr_park_check base from =
    (case from of None \<Rightarrow> True | Some p \<Rightarrow>
      if p_stack p = 0 then True
      else \<not> (base < p_stack p \<or> p_stack p + of_nat PROC_STACK_SIZE < base))"

section \<open>The steps of the running system\<close>

text \<open>The steps: a system call of the running process; an interrupt; a parent resumed
  in \<open>proc_waitpid\<close>; and what the first process does in ring 0.\<close>

inductive kstep :: "mod_rec list \<Rightarrow> kern \<Rightarrow> kern \<Rightarrow> bool" for mods where
  syscall: "syscall_dispatch e nr a1 a2 a3 a4 k = Ret v k' ev \<Longrightarrow> kstep mods k k'"
| switch: "syscall_dispatch e nr a1 a2 a3 a4 k = Gone k' \<Longrightarrow> kstep mods k k'"
| irq: "irq_common_handler (\<lambda>_. None) n k = Resume t k' \<Longrightarrow>
    kstep mods k (k'\<lparr>k_sys := irq_stub base t (k_sys k')\<rparr>)"
| waited: "cur (k_sys k) = Some i \<Longrightarrow> waitpid_resume pid i (k_sys k) = (r, s) \<Longrightarrow> kstep mods k (k\<lparr>k_sys := s\<rparr>)"
| kormi: "kormi_start mods k = Some k' \<Longrightarrow> kstep mods k k'"
| spawned: "session_turn mods k = Waits pid k' \<Longrightarrow> kstep mods k k'"
| fallback: "session_turn mods k = OwnLogin k' \<Longrightarrow> kstep mods k k'"
| yields: "kstep mods k (k\<lparr>k_sys := sched_yield (k_sys k)\<rparr>)"
| login: "login_main ins (k_auth k) (k_pact k) = Some (a, t, rest) \<Longrightarrow> \<forall>l\<in>set ins. strlen l \<le> 31 \<Longrightarrow>
    kstep mods k (k\<lparr>k_auth := a, k_pact := t\<rparr>)"
| shell: "sh_turn img k sh (line # ins) = Next k' sh' evs rest \<Longrightarrow> cwd_ok sh \<Longrightarrow> typed_ok line ins \<Longrightarrow>
    kstep mods k k'"

inductive reachable :: "mod_rec list \<Rightarrow> kern \<Rightarrow> bool" for mods where
  boot: "reachable mods (thais_main bi cr3 mods entry)"
| step: "reachable mods k \<Longrightarrow> kstep mods k k' \<Longrightarrow> reachable mods k'"

inductive_cases syscall_from: "kstep mods k k'"

section \<open>The invariant holds after the boot\<close>

lemma length_sformat: "0 < n \<Longrightarrow> length (sformat n fmt args) < n"
  using snprintf_loop_bound [of n "cstr fmt" args "[]"]
  by (auto simp: sformat_def snprintf_def split: option.split)

lemma cstr_sformat: "length (cstr (sformat 256 fmt args)) \<le> 255"
  using length_sformat [of 256 fmt args] length_cstr_le [of "sformat 256 fmt args"] by simp

text \<open>The file tree and the process table while the default files are made.\<close>

definition made :: "sys \<Rightarrow> fs \<times> sys \<Rightarrow> bool" where
  "made s0 st \<longleftrightarrow> tree_ok (fst st) \<and> same_procs s0 (snd st)"

lemma made_put:
  assumes m: "made s0 st" and l: "length (cstr path) \<le> 255"
  shows "made s0 (put_file owner path data st)"
proof -
  obtain f s where st: "st = (f, s)" by (cases st)
  obtain r f1 where c: "fs_create owner path TFile f = (r, f1)" by fastforce
  obtain q f2 s2 where w: "fs_write path data f1 s = (q, f2, s2)" by (metis prod_cases3)
  have "tree_ok f1" using tree_ok_create [OF _ l c] m st by (simp add: made_def)
  then have "tree_ok f2" by (rule tree_ok_write [OF _ w])
  then show ?thesis using m st c w fs_write_same [OF w] by (simp add: made_def put_file_def)
qed

lemma made_copy:
  assumes m: "made s0 st" and l: "length (cstr dst) \<le> 255"
  shows "made s0 (copy_file owner src dst st)"
proof -
  obtain f s where st: "st = (f, s)" by (cases st)
  obtain r f1 s1 where c: "fs_copy owner src dst f s = (r, f1, s1)" by (metis prod_cases3)
  obtain q where q: "cstr q \<noteq> cstr dst"
    by (cases "cstr dst") (auto intro: that [of "''a''"] that [of "''''"])
  have "tree_ok f1"
    using files.copy_frame(1) [of "(f, s)" dst owner src r "(f1, s1)" q] m st c l q
    by (simp add: fs_copy_files made_def)
  then show ?thesis using m st c fs_copy_same [OF c] by (simp add: made_def copy_file_def)
qed

lemma made_fold:
  assumes "\<And>x st. x \<in> set xs \<Longrightarrow> made s0 st \<Longrightarrow> made s0 (g x st)" "made s0 st"
  shows "made s0 (fold g xs st)"
  using assms by (induction xs arbitrary: st) simp_all

lemma tree_ok_init: "tree_ok fs_init"
  by (simp add: tree_ok_def fs_ok_def fs_init_def)

lemma made_defaults: "made s0 (fs_init_defaults mods owner (fs_init, s0))"
proof -
  have d: "tree_ok (fold (\<lambda>d f. snd (fs_create owner d TDir f)) ds f)"
    if "tree_ok f" "\<forall>d\<in>set ds. length (cstr d) \<le> 255" for ds f
    using that
  proof (induction ds arbitrary: f)
    case (Cons d ds)
    have "tree_ok (snd (fs_create owner d TDir f))"
      using tree_ok_create [of f d owner TDir] Cons.prems by (cases "fs_create owner d TDir f") simp
    then show ?case using Cons by simp
  qed simp
  have dirs: "\<forall>d\<in>set default_dirs. length (cstr d) \<le> 255" by (simp add: default_dirs_def)
  have b: "made s0 (fold (\<lambda>d f. snd (fs_create owner d TDir f)) default_dirs fs_init, s0)"
    using d [OF tree_ok_init dirs] by (simp add: made_def)
  have k: "made s0 (if c then copy_file owner p (sformat 256 fmt as) st else st)" if "made s0 st" for c p fmt "as" st
    using made_copy [OF that cstr_sformat] that by simp
  have m: "made s0 (put_file owner (sformat 256 fmt as) x (put_file owner (sformat 256 fmt' as') y st))"
    if "made s0 st" for fmt "as" x fmt' as' y st
    by (intro made_put cstr_sformat that)
  show ?thesis
    unfolding fs_init_defaults_def Let_def fst_conv snd_conv
    apply (rule made_fold, erule k)
    apply (rule made_copy, rule made_copy, rule made_fold, erule m)
    apply (rule made_put, rule made_put, rule made_put, rule made_put, rule b)
    by (simp_all only: cstr_Cons cstr_Nil char.inject) simp_all
qed

lemma sched_run_first_inv:
  assumes inv: "sched_inv s" and c: "cur s = None"
  shows "sched_inv (sched_run_first s) \<and> cur_running (sched_run_first s)"
proof -
  let ?s = "s\<lparr>sched_running := True\<rparr>"
  have s: "sched_inv ?s" "cur ?s = None" "cur_running ?s"
    using sched_inv_procs(1) [of ?s s] inv c by (simp_all add: cur_running_def)
  show ?thesis
  proof (cases "next_ready_from ?s 0")
    case None
    then show ?thesis using s by (simp add: sched_run_first_def)
  next
    case (Some n)
    then show ?thesis using dispatch_idle [OF s(1,2) Some] by (simp add: sched_run_first_def)
  qed
qed

lemma boot_sched:
  assumes "same_procs (sched_init (proc_init (boot_memory bi cr3 zero_sys))) s"
  shows "sched_inv (init_start entry s) \<and> cur (init_start entry s) = None"
proof -
  have p: "procs s = replicate MAX_PROCS zero_pcb" "cur s = None"
    using assms
    by (simp_all add: sched_init_def proc_init_def boot_memory_def zero_sys_def zero_pcb_def split: prod.splits)
  have inv: "sched_inv s" "cur_running s"
    using p by (simp_all add: sched_inv_def cur_running_def zero_pcb_def)
  obtain r s' where c: "proc_create (Some ''init'') CAP_ALL entry s = (r, s')" by fastforce
  have i: "find_free s = Some 0"
    unfolding find_free_def first_index_Some_iff by (simp add: p zero_pcb_def MAX_PROCS_def)
  have "only_slot 0 s s' \<and> created 0 (next_pid s) CAP_ALL r s'"
    by (rule create_argv_spec [OF c i]) (simp add: p MAX_PROCS_def)
  then show ?thesis
    using created_only [OF _ _ inv i] p(2) c by (auto simp: init_start_def only_slot_def)
qed

lemma zero_ipc_ok: "ipc_ok (ipc_init zero_ipc)"
  by (simp add: ipc_ok_def ipc_init_def zero_ipc_def box_ok_def)

lemma boot_inv: "kern_inv (thais_main bi cr3 mods entry)"
proof -
  let ?init = "sched_init (proc_init (boot_memory bi cr3 zero_sys))"
  obtain f s where d: "fs_init_defaults mods 0xFF (fs_init, ?init) = (f, s)" by fastforce
  have m: "tree_ok f" "same_procs ?init s"
    using made_defaults [of ?init mods "0xFF"] d by (simp_all add: made_def)
  have S: "sched_inv (sched_run_first (init_start entry s)) \<and> cur_running (sched_run_first (init_start entry s))"
    using boot_sched [OF m(2)] sched_run_first_inv by blast
  have a: "auth_ok (auth_init zero_auth)" by (simp add: auth_ok_def auth_init_def zero_auth_def)
  have t: "pact_ok (fst (synallagma_load_contracts f))"
    using scan_ok(1) [of f] by (simp add: synallagma_load_contracts_def Let_def)
  show ?thesis
    using S m(1) a t zero_ipc_ok svc_ok_init d by (simp add: thais_main_def Let_def kern_inv_def)
qed

section \<open>Every step keeps it\<close>

lemma resume_inv:
  assumes inv: "sched_inv s" "cur_running s" and w: "waitpid_resume pid i s = (r, s')"
  shows "sched_inv s' \<and> cur_running s'"
proof -
  have u: "sched_inv (upd i (\<lambda>p. p\<lparr>p_wait_pid := 0\<rparr>) s) \<and> cur_running (upd i (\<lambda>p. p\<lparr>p_wait_pid := 0\<rparr>) s)" for i
    by (rule upd_keeps_inv [OF inv]) simp_all
  have "s' = s \<or> s' = sched_block s \<or> (\<exists>i. s' = upd i (\<lambda>p. p\<lparr>p_wait_pid := 0\<rparr>) s)"
    using w by (auto simp: waitpid_resume_def wait_turn_def split: option.splits if_splits)
  then show ?thesis using u sched_block_inv [OF inv] inv by blast
qed

lemma embedded_keeps:
  assumes k: "kern_inv k" and e: "exec_embedded_args mods n args k = Some (r, pid, k')"
  shows "kern_inv k'"
proof -
  have "k' = k\<lparr>k_sys := k_sys k'\<rparr> \<and> sched_inv (k_sys k') \<and> cur_running (k_sys k')"
    using sched.embedded [of k mods n args] kern_invD(1,2) [OF k] e by (simp add: run_keeps_def inv_carries_def)
  then show ?thesis using kern_inv_upd(1) [OF k, of "k_sys k'"] by simp
qed

lemma grant_inv:
  assumes "sched_inv s" "cur_running s"
  shows "sched_inv (snd (cap_grant pid r s)) \<and> cur_running (snd (cap_grant pid r s))"
  using assms upd_keeps_inv [OF assms, of "\<lambda>p. p\<lparr>p_rights := p_rights p OR r\<rparr>"]
  by (simp add: cap_grant_def split: option.split)

lemma kormi_keeps: "kormi_loop mods ms k = Some k' \<Longrightarrow> kern_inv k \<Longrightarrow> kern_inv k'"
proof (induction mods ms k rule: kormi_loop.induct)
  case (2 mods m ms k)
  then obtain k1 where k1: "kormi_one mods m k = Some k1" "kormi_loop mods ms k1 = Some k'"
    by (auto split: option.splits)
  have "kern_inv k1"
  proof (cases "mod_flag (md_cfg m) ''kormi''")
    case True
    then obtain r pid k2 where e: "exec_embedded_args mods (Some (md_name m)) [] k = Some (r, pid, k2)"
      using k1(1) by (auto simp: kormi_one_def split: option.splits)
    have k2: "kern_inv k2" by (rule embedded_keeps [OF 2(3) e])
    show ?thesis
      using k1(1) True e k2 kern_inv_upd(1) [OF k2] grant_inv [OF kern_invD(1,2) [OF k2]]
      by (auto simp: kormi_one_def split: if_splits)
  qed (use k1(1) 2(3) in \<open>simp add: kormi_one_def\<close>)
  then show ?case by (rule 2(1) [OF k1])
qed simp

lemma irq_keeps:
  assumes k: "kern_inv k" and h: "\<And>h k. handlers (n - 32) = Some h \<Longrightarrow> kern_inv k \<Longrightarrow> kern_inv (h k)"
    and i: "irq_common_handler handlers n k = Resume t k'"
  shows "kern_inv k'"
proof -
  define k1 where "k1 = (case handlers (n - 32) of None \<Rightarrow> (if n - 32 = 0 then k\<lparr>k_ticks := k_ticks k + 1\<rparr> else k)
    | Some h \<Rightarrow> h (if n - 32 = 0 then k\<lparr>k_ticks := k_ticks k + 1\<rparr> else k))"
  have k1: "kern_inv k1" using kern_inv_upd(8) [OF k] k h by (simp add: k1_def split: option.split)
  have "k' = k1 \<or> (\<exists>t s. sched_preempt_pick (k_sys k1) = (t, s) \<and> k' = k1\<lparr>k_sys := s\<rparr>)"
    using i unfolding irq_common_handler_def Let_def k1_def [symmetric] by (auto split: if_splits prod.splits)
  then show ?thesis
    using k1 sched_preempt_inv [OF kern_invD(1,2) [OF k1]] kern_inv_upd(1) [OF k1] by blast
qed

lemma stub_keeps:
  assumes "sched_inv s" "cur_running s"
  shows "sched_inv (irq_stub base t s) \<and> cur_running (irq_stub base t s)"
proof (cases t)
  case (Some x)
  obtain n i where x: "x = (n, i)" by (cases x)
  have l: "sched_inv (load_cr3 c u) = sched_inv u" "cur_running (load_cr3 c u) = cur_running u" for c u
    unfolding sched_inv_def cur_running_def load_cr3_simps by (rule refl)+
  define u where "u = upd i (\<lambda>p. p\<lparr>p_ctx := (p_ctx p)\<lparr>c_hw_rsp := base, c_style := 1, c_cr3 := hw_cr3 s\<rparr>\<rparr>) s"
  have u: "sched_inv u \<and> cur_running u" unfolding u_def by (rule upd_keeps_inv [OF assms]) simp_all
  have "sched_inv (upd n (\<lambda>p. p\<lparr>p_ctx := (p_ctx p)\<lparr>c_style := 0, c_ran := True\<rparr>\<rparr>) u) \<and>
      cur_running (upd n (\<lambda>p. p\<lparr>p_ctx := (p_ctx p)\<lparr>c_style := 0, c_ran := True\<rparr>\<rparr>) u)"
    using u by (intro upd_keeps_inv) simp_all
  then show ?thesis unfolding irq_stub_def Some x option.case prod.case Let_def u_def [symmetric] using u l by simp
qed (use assms in \<open>simp add: irq_stub_def\<close>)

lemma kstep_inv: "kstep mods k k' \<Longrightarrow> kern_inv k \<Longrightarrow> kern_inv k'"
proof (induction rule: kstep.induct)
  case (syscall e nr a1 a2 a3 a4 k v k' ev)
  then show ?case using dispatch_keeps [of k e nr a1 a2 a3 a4] by simp
next
  case (switch e nr a1 a2 a3 a4 k k')
  then show ?case using dispatch_keeps [of k e nr a1 a2 a3 a4] by simp
next
  case (irq n k t k' base)
  then have "kern_inv k'" using irq_keeps [of k "\<lambda>_. None" n t k'] by simp
  then show ?case using stub_keeps [OF kern_invD(1,2)] kern_inv_upd(1) by blast
next
  case (waited k i pid r s)
  then show ?case using resume_inv [OF kern_invD(1,2), of k pid i r s] kern_inv_upd(1) by blast
next
  case (kormi k k')
  then show ?case using kormi_keeps by (simp add: kormi_start_def)
next
  case (spawned k pid k')
  then show ?case
    using embedded_keeps by (auto simp: session_turn_def split: option.splits if_splits)
next
  case (fallback k k')
  then show ?case
    using embedded_keeps by (auto simp: session_turn_def split: option.splits if_splits)
next
  case (yields k)
  then show ?case using sched_yield_inv [OF kern_invD(1,2)] kern_inv_upd(1) by blast
next
  case (login ins k a t rest)
  then show ?case
    using login_main_keeps [OF login(1) kern_invD(5,4)] by (simp add: kern_inv_def)
next
  case (shell img k sh line ins k' sh' evs rest)
  then show ?case using turn_keeps [of k sh "line # ins" img] by (simp add: sh_keeps_def)
qed

lemma reachable_inv: "reachable mods k \<Longrightarrow> kern_inv k"
  by (induction rule: reachable.induct) (auto intro: boot_inv kstep_inv)

text \<open>C26. Where the shell stands.  It starts in a directory.  Its directory stays a canonical path that
  fits the buffer.  A command leaves it as it was or takes it to a directory of the file tree, but
  for \<open>exit\<close> and \<open>logout\<close>, after which it is \<open>/arkhe\<close> whether there is one or not; and every command
  keeps the invariants of the kernel.  The lines typed in answer fit their buffers.\<close>

theorem shell_directory:
  assumes "kern_inv k" "typed_ok line ins"
  shows "cwd_ok (sh_start k) \<and> fs_is_dir (sh_cwd (sh_start k)) (k_fs k) \<and>
    (cwd_ok sh \<and> thais_exec_line img line k sh ins = Next k' sh' evs rest \<longrightarrow>
      cwd_ok sh' \<and> kern_inv k' \<and>
      (if command_word line = ''exit'' \<or> command_word line = ''logout'' then sh_cwd sh' = ''/arkhe''
       else sh_cwd sh' = sh_cwd sh \<or> fs_is_dir (sh_cwd sh') (k_fs k')))"
  using exec_line_keeps [OF assms(1) _ assms(2), of sh img] exec_line_goes [OF assms(1), of sh line img ins] start_ok start_in_dir
  by (auto simp: sh_keeps_def sh_goes_def)

lemma shell_directory_witness:
  "\<exists>evs. thais_exec_line (\<lambda>_. 0) ''cd /'' (thais_main small_boot 0x1000 [] 0x100000)
     (sh_start (thais_main small_boot 0x1000 [] 0x100000)) [] =
       Next (thais_main small_boot 0x1000 [] 0x100000)
         \<lparr>sh_cwd = ''/'', sh_user = au_current (k_auth (thais_main small_boot 0x1000 [] 0x100000))\<rparr> evs [] \<and>
     cwd_ok \<lparr>sh_cwd = ''/'', sh_user = au_current (k_auth (thais_main small_boot 0x1000 [] 0x100000))\<rparr>"
proof -
  let ?k = "thais_main small_boot 0x1000 [] 0x100000"
  let ?sh = "\<lparr>sh_cwd = ''/'', sh_user = au_current (k_auth ?k)\<rparr>"
  have t: "typed_ok ''cd /'' []" by (simp add: typed_ok_def)
  have c: "cwd_ok (sh_start ?k)" using shell_directory [OF boot_inv t] by blast
  have "sh_split ''cd /'' = (''cd'', ''/'')" by code_simp
  moreover have "vfs_normalize cw (Some ''/'') FS_NAME_MAX = Some ''/''" for cw
    using vfs_normalize_id [of "[]" FS_NAME_MAX] by (simp add: canon_def FS_NAME_MAX_def)
  moreover have "snprintf 64 (''-> %s'' @ LFs) [AStr (Some ''/'')] = Some (''-> /'' @ LFs)"
    by (simp add: snprintf_def cstr_def snprintf_loop.simps directive_def emit_def fmt_width.simps put_chars_eq)
  ultimately have e: "thais_exec_line (\<lambda>_. 0) ''cd /'' ?k (sh_start ?k) [] = Next ?k ?sh [Console (''-> /'' @ LFs)] []"
    by (simp add: thais_exec_line_def sh_dispatch_def cmd_metabasis_def no_arg_def formats_def fs_is_dir_def
        strlen_cstr clip_def sh_start_def Let_def FS_NAME_MAX_def)
  from shell_directory [OF boot_inv t] c e have "cwd_ok ?sh" by blast
  then show ?thesis using e by blast
qed

end
