(* ===== verification/UserSpace.thy ===== *)
theory UserSpace
  imports Process
begin

unbundle bit_operations_syntax

text \<open>
  The address space a ring-3 process gets (src/kernel/proc.c over
  src/kernel/paging.c): it starts as a copy of the kernel's top-level entries,
  the regions of the program and the stack are mapped into it, and no page of it
  is both writable and executable, whatever the flags of the program's segments
  and whether or not the frames suffice.
\<close>

section \<open>Writable or executable\<close>

text \<open>The top-level slots that a run of n pages from va goes through.\<close>

definition page_slots :: "u64 \<Rightarrow> nat \<Rightarrow> nat set" where
  "page_slots va n = (\<lambda>i. idx_l4 (va + of_nat i * 0x1000)) ` {..<n}"

definition wx_entry :: "u64 \<Rightarrow> bool" where
  "wx_entry e \<longleftrightarrow> e AND 2 = 0 \<or> e AND PTE_NX \<noteq> 0"

definition wx_ok :: "nat set \<Rightarrow> u64 \<Rightarrow> vm \<Rightarrow> bool" where
  "wx_ok U root v \<longleftrightarrow> pt_inv U root v \<and>
    (\<forall>w e. idx_l4 w \<in> U \<longrightarrow> leaf_entry v root w = Some e \<longrightarrow> wx_entry e)"

lemma wx_pte: "wx_entry flags \<Longrightarrow> wx_entry ((phys AND PTE_ADDR) OR flags)"
proof -
  have z: "(phys AND PTE_ADDR) AND m = 0" if "PTE_ADDR AND m = 0" for m
    using that by (simp only: and.assoc and_zero_eq)
  have "PTE_ADDR AND 2 = 0" "PTE_ADDR AND PTE_NX = 0" by (simp_all add: PTE_ADDR_def PTE_NX_def)
  then show "wx_entry flags \<Longrightarrow> wx_entry ((phys AND PTE_ADDR) OR flags)"
    using z by (simp add: wx_entry_def bit.conj_disj_distrib2)
qed

lemma wx_flags_ok: "wx_entry (wx_flags f)" "wx_entry (0x7 OR PTE_NX)"
  by (simp_all add: wx_entry_def wx_flags_def PTE_NX_def)

lemma wx_map_user:
  assumes "wx_ok U root v" "idx_l4 va \<in> U" "wx_entry flags"
  shows "wx_ok U root (snd (paging_map_user root va pa flags v))"
proof -
  obtain r v' where m: "paging_map_user root va pa flags v = (r, v')" by fastforce
  have inv: "pt_inv U root v" using assms(1) by (simp add: wx_ok_def)
  have "wx_entry e" if "idx_l4 w \<in> U" "leaf_entry v' root w = Some e" for w e
    using map_user_leaves(2) [OF inv assms(2) that(1) m] assms(1) that wx_pte [OF assms(3)]
    by (auto simp: wx_ok_def)
  then show ?thesis using map_user_leaves(1) [OF inv assms(2,2) m] m by (simp add: wx_ok_def)
qed

lemma wx_map_range:
  assumes "wx_ok U root v" "page_slots va n \<subseteq> U" "wx_entry flags"
  shows "wx_ok U root (map_range root va pa n flags v)"
  using assms
proof (induction n)
  case (Suc n)
  have "page_slots va n \<subseteq> U" "idx_l4 (va + of_nat n * 0x1000) \<in> U"
    using Suc.prems(2) by (auto simp: page_slots_def)
  then show ?case
    using Suc.IH wx_map_user Suc.prems(1,3) by (simp add: map_range_def)
qed (simp add: map_range_def)

lemma wx_frames:
  assumes "wx_ok U root v" "pmm_ok p" "\<And>j. page_avail p j \<Longrightarrow> page_avail (frames v) j"
  shows "wx_ok U root (v\<lparr>frames := p\<rparr>)"
  using assms pt_inv_frames leaf_entry_cong [of "v\<lparr>frames := p\<rparr>" v] by (simp add: wx_ok_def)

lemma wx_alloc:
  assumes "wx_ok U root (vmem s)" "sys_pmm_alloc n s = (a, s')"
  shows "wx_ok U root (vmem s')"
proof -
  have ok: "pmm_ok (frames (vmem s))" using assms(1) pt_inv_ok by (auto simp: wx_ok_def)
  obtain r p where al: "pmm_alloc n (frames (vmem s)) = (r, p)" by fastforce
  have s': "s' = s\<lparr>vmem := (vmem s)\<lparr>frames := p\<rparr>\<rparr>"
    using assms(2) al by (auto simp: sys_pmm_alloc_def pmm_alloc_addr_def split: option.splits)
  have "page_avail (frames (vmem s)) j" if "page_avail p j" for j
    using al that pmm_alloc_avail pmm_alloc_NoneD(1) by (cases r) fastforce+
  then show ?thesis using wx_frames [OF assms(1) pmm_ok_alloc [OF ok al]] s' by simp
qed

definition region_slots :: "ureg \<Rightarrow> nat set" where
  "region_slots r = page_slots (r_vaddr r AND NOT 0xFFF) (region_pages r)"

lemma wx_regions:
  assumes "wx_ok U pm (vmem s)" "\<And>r. r \<in> set regs \<Longrightarrow> region_slots r \<subseteq> U"
    "map_regions pm regs acc s = (e, us, s')"
  shows "wx_ok U pm (vmem s')"
  using assms
proof (induction pm regs acc s arbitrary: e us s' rule: map_regions.induct)
  case (2 pm r rs acc s)
  let ?b = "r_vaddr r AND NOT 0xFFF"
  obtain ph s1 where al: "sys_pmm_alloc (region_pages r) s = (ph, s1)" by fastforce
  note W = wx_alloc [OF 2(2) al]
  show ?case
  proof (cases "?b < USER_VADDR_BASE \<or> ph = 0")
    case True
    then show ?thesis using 2(2,4) al W by (auto simp: Let_def split: if_splits)
  next
    case False
    let ?s2 = "sys_map_range pm ?b ph (region_pages r) (wx_flags (r_flags r)) s1"
    have "wx_ok U pm (vmem ?s2)"
      using wx_map_range [OF W _ wx_flags_ok(1)] 2(3) [of r] by (simp add: sys_map_range_def region_slots_def)
    moreover have "map_regions pm rs (acc @ [(?b, of_nat (region_pages r) * 0x1000)]) ?s2 = (e, us, s')"
      using 2(4) False al by (simp add: Let_def)
    ultimately show ?thesis
      using 2(1) [OF refl refl _ al [symmetric]] False 2(3) by auto
  qed
qed simp

text \<open>C10. When a user process is loaded and entered, no page of its regions or its stack is both writable and
  executable, whatever the flags of the segments.\<close>

theorem user_pages_wx:
  assumes "wx_ok U pm (vmem s)" "\<forall>r\<in>set regs. region_slots r \<subseteq> U"
    "map_regions pm regs [] s = (e, us, s1)" "proc_enter_user i pm entry us args s1 = (r, s2)"
    "page_slots (user_stack_base us) (USER_STACK_SIZE div 0x1000) \<subseteq> U"
  shows "wx_ok U pm (vmem s2)"
proof -
  have W: "wx_ok U pm (vmem s1)" by (rule wx_regions [OF assms(1) _ assms(3)]) (use assms(2) in blast)
  obtain us' s3 where al: "sys_pmm_alloc (USER_STACK_SIZE div 0x1000) s1 = (us', s3)" by fastforce
  note W3 = wx_alloc [OF W al]
  have "vmem s2 = vmem s3 \<or> vmem s2 =
      map_range pm (user_stack_base us) us' (USER_STACK_SIZE div 0x1000) (0x7 OR PTE_NX) (vmem s3)"
    using assms(4) al by (auto simp: proc_enter_user_def Let_def sys_map_range_def split: if_splits)
  then show ?thesis using W3 wx_map_range [OF W3 assms(5) wx_flags_ok(2)] by auto
qed

text \<open>A region of two pages, writable and not executable, on the machine of \<open>Paging\<close>.\<close>

definition data_region :: ureg where
  "data_region = \<lparr>r_vaddr = 0x200000000000, r_fileSz = 0, r_memSz = 0x1000, r_flags = 2\<rparr>"

lemma fresh_wx: "wx_ok UNIV 0x1000 fresh_vm"
proof -
  have "leaf_entry fresh_vm 0x1000 w = None" for w
    by (simp add: leaf_entry_def fresh_tbl leaf_path_def fresh_vm_def)
  then show ?thesis by (simp add: wx_ok_def fresh_inv)
qed

lemma user_pages_wx_witness:
  defines "m \<equiv> map_regions 0x1000 [data_region] [] (zero_sys\<lparr>vmem := fresh_vm\<rparr>)"
  shows "wx_ok UNIV 0x1000 (vmem (snd (proc_enter_user 0 0x1000 0x200000000000 (fst (snd m)) [] (snd (snd m)))))"
proof -
  obtain e us s1 where 1: "m = (e, us, s1)" by (cases m)
  obtain r s2 where 2: "proc_enter_user 0 0x1000 0x200000000000 us [] s1 = (r, s2)" by fastforce
  have "wx_ok UNIV 0x1000 (vmem (zero_sys\<lparr>vmem := fresh_vm\<rparr>))" using fresh_wx by simp
  from user_pages_wx [OF this _ 1 [unfolded m_def] 2] show ?thesis by (simp add: 1 2)
qed

text \<open>The space a new process starts from: the kernel's entries, and nothing in the slots
  that belong to user space.\<close>

lemma new_space_empty:
  assumes ok: "pmm_ok (frames v)" and U: "\<forall>i\<in>U. \<not> present (ptes v (saved_cr3 v) i)"
    and n: "paging_new_address_space v = (a, v')" "a \<noteq> 0"
  shows "wx_ok U a v'" "idx_l4 w \<in> U \<Longrightarrow> leaf_entry v' a w = None"
proof -
  obtain v1 where v1: "vm_alloc1 v = (a, v1)" "v' = v1\<lparr>ptes := (ptes v1)(a := ptes v1 (saved_cr3 v1))\<rparr>"
    using n by (auto simp: paging_new_address_space_def split: prod.splits if_splits)
  note M = vm_alloc1_mono [OF v1(1) ok]
  obtain i where i: "pmm_alloc 1 (frames v) = (Some i, frames v1)" "a = page_addr i" "i < PMM_PAGES"
    using vm_alloc1_SomeD [OF v1(1) n(2) ok] by metis
  have t: "tbl_at (ptes v') a ps = Some t \<longleftrightarrow> ps = [] \<and> t = a" if "upath U ps" for ps t
    using that
  proof (induction ps arbitrary: t)
    case (Cons j ps)
    note up = upath_ConsD [OF Cons.prems]
    have "tbl_at (ptes v') a (j # ps) = None"
    proof (cases "tbl_at (ptes v') a ps")
      case (Some t')
      then have "ps = []" "t' = a" using Cons.IH [OF up] by auto
      then show ?thesis using U v1(2) M [of 0] Cons.prems by (simp add: upath_def)
    qed simp
    then show ?case by simp
  qed auto
  have "\<not> page_avail (frames v1) i"
    using pmm_alloc_avail [OF i(1)] by simp
  moreover have "addr_page a = i" using addr_page_addr [of i] i(2,3) by (simp add: PMM_PAGES_def)
  moreover have "a AND PTE_ADDR = a" using page_addr_PTE [of i] i(2,3) by (simp add: PMM_PAGES_def)
  ultimately have tok: "table_ok (frames v') a" using n(2) v1(2) by (simp add: table_ok_def)
  have "pt_inv U a v'"
  proof (rule pt_invI)
    show "\<not> huge (ptes v' t i)" if "upath U (i # ps)" "tbl_at (ptes v') a ps = Some t" "present (ptes v' t i)"
      for ps t i
    proof -
      have "tbl_at (ptes v') a (i # ps) \<noteq> None" using that by simp
      then show ?thesis using t [OF that(1)] by auto
    qed
  qed (use t tok M [of 0] v1(2) in auto)
  moreover show leaf: "leaf_entry v' a w = None" if "idx_l4 w \<in> U" for w
    using t [OF upath_leaf(1) [OF that]]
    by (cases "tbl_at (ptes v') a (leaf_path w)") (auto simp: leaf_entry_def leaf_path_def)
  ultimately show "wx_ok U a v'" by (simp add: wx_ok_def)
qed

text \<open>A new address space starts with the kernel's top-level entries and no page in the slots that
  are not the kernel's; building it changes no other table.\<close>

theorem new_space_private:
  assumes "pmm_ok (frames v)" "\<forall>i\<in>U. \<not> present (ptes v (saved_cr3 v) i)"
    "paging_new_address_space v = (a, v')" "a \<noteq> 0"
  shows "ptes v' a = ptes v (saved_cr3 v) \<and> (\<forall>t. t \<noteq> a \<longrightarrow> ptes v' t = ptes v t) \<and> pt_inv U a v' \<and>
    (\<forall>w. idx_l4 w \<in> U \<longrightarrow> leaf_entry v' a w = None)"
  using new_address_space_shares [OF assms(3,4)] new_space_empty [OF assms] by (simp add: wx_ok_def)

lemma new_space_private_witness:
  "pt_inv UNIV (page_addr 4) (snd (paging_new_address_space fresh_vm))"
proof -
  obtain p where p: "pmm_alloc 1 small_pool = (Some 4, p)"
    using small_pool_alloc [of 1] by (cases "pmm_alloc 1 small_pool") simp
  have "page_addr 4 \<noteq> 0" by (simp add: page_addr_def)
  moreover from this obtain s' where e: "paging_new_address_space fresh_vm = (page_addr 4, s')"
    by (simp add: paging_new_address_space_def vm_alloc1_def pmm_alloc_addr_def fresh_vm_def p [simplified])
  ultimately show ?thesis
    using new_space_private [OF _ _ e] by (simp add: fresh_vm_def small_pool_ok)
qed

end
