(* ===== verification/Fb.thy ===== *)
theory Fb
  imports Syscall
begin

text \<open>
  The display: src/kernel/fb.c.  The static variables are the record \<open>disp\<close>;
  the display memory is the function \<open>d_px\<close> from the byte offset of a pixel,
  counted from the start of the framebuffer, to its 32-bit cell (every access of
  the file is one such cell, or a copy of whole lines).

  Coordinates are C \<open>int\<close>s.  Where their arithmetic leaves the range, which C
  leaves undefined, the drawing function gives \<^const>\<open>None\<close>.
\<close>

record disp =
  d_addr :: u64
  d_width :: u64
  d_height :: u64
  d_pitch :: u64
  d_x :: int
  d_y :: int
  d_active :: bool
  d_boot :: bool
  d_px :: "int \<Rightarrow> u32"

definition fg_color :: u32 where "fg_color = 0xffffff"
definition bg_color :: u32 where "bg_color = 0x0a0a12"

definition int_ok :: "int \<Rightarrow> bool" where
  "int_ok v \<longleftrightarrow> - (2 ^ 31) \<le> v \<and> v < 2 ^ 31"

text \<open>The conversion of a \<open>uint64_t\<close> to \<open>int\<close>.\<close>

definition c_int :: "u64 \<Rightarrow> int" where
  "c_int w = sint (ucast w :: u32)"

definition c_half :: "int \<Rightarrow> int" where
  "c_half v = (if v < 0 then - (- v div 2) else v div 2)"

abbreviation width :: "disp \<Rightarrow> int" where "width d \<equiv> uint (d_width d)"
abbreviation height :: "disp \<Rightarrow> int" where "height d \<equiv> uint (d_height d)"
abbreviation pitch :: "disp \<Rightarrow> int" where "pitch d \<equiv> uint (d_pitch d)"

definition px_off :: "disp \<Rightarrow> int \<Rightarrow> int \<Rightarrow> int" where
  "px_off d i j = j * pitch d + i * 4"

definition fb_color :: "u8 \<Rightarrow> u8 \<Rightarrow> u8 \<Rightarrow> u32" where
  "fb_color r g b = push_bit 16 (ucast r) OR push_bit 8 (ucast g) OR ucast b"

definition fb_get_dim :: "disp \<Rightarrow> (u32 \<times> u32) option" where
  "fb_get_dim d = (if d_addr d = 0 then None else Some (ucast (d_width d), ucast (d_height d)))"

section \<open>Pixels\<close>

text \<open>The store of one pixel, which checks nothing: it goes to the address of column \<open>i\<close> and
  line \<open>j\<close>, wherever that is.\<close>

definition set_px :: "int \<times> int \<times> u32 \<Rightarrow> disp \<Rightarrow> disp" where
  "set_px p d = (case p of (i, j, c) \<Rightarrow> d\<lparr>d_px := (d_px d)(px_off d i j := c)\<rparr>)"

text \<open>The store behind the test of the character loops: each pixel only when it is on the screen.\<close>

definition plot :: "int \<times> int \<times> u32 \<Rightarrow> disp \<Rightarrow> disp" where
  "plot p d = (case p of (i, j, c) \<Rightarrow>
     if 0 \<le> i \<and> 0 \<le> j \<and> i < width d \<and> j < height d then set_px (i, j, c) d else d)"

text \<open>The loops of \<open>fb_clear\<close> have no such test: only their bounds keep the stores inside.\<close>

definition fb_clear :: "u32 \<Rightarrow> disp \<Rightarrow> disp" where
  "fb_clear color d =
    (if d_addr d = 0 then d
     else fold set_px (concat (map (\<lambda>y. map (\<lambda>x. (x, y, color)) [0..width d - 1]) [0..height d - 1])) d)"

definition fb_draw_rect :: "int \<Rightarrow> int \<Rightarrow> int \<Rightarrow> int \<Rightarrow> u32 \<Rightarrow> disp \<Rightarrow> disp option" where
  "fb_draw_rect x y w h color d =
    (if d_addr d = 0 then Some d
     else if \<not> int_ok (y + h) then None
     else
       let rows = filter (\<lambda>j. 0 \<le> j \<and> j < height d) [y..y + h - 1];
           cols = filter (\<lambda>i. 0 \<le> i \<and> i < width d) [x..x + w - 1]
       in if rows \<noteq> [] \<and> (\<not> int_ok (x + w) \<or> (\<exists>i\<in>set cols. \<not> int_ok (i * 4))) then None
          else Some (fold set_px (concat (map (\<lambda>j. map (\<lambda>i. (i, j, color)) cols) rows)) d))"

definition font :: "u8 list list" where
  "font = [
     [0, 0, 0, 0, 0, 0, 0, 0, 0, 0, 0, 0, 0, 0, 0, 0],
     [0, 0x18, 0x18, 0x18, 0x18, 0x18, 0x18, 0x18, 0x18, 0, 0x18, 0x18, 0, 0, 0, 0],
     [0, 0x66, 0x66, 0x66, 0x66, 0x24, 0x24, 0, 0, 0, 0, 0, 0, 0, 0, 0],
     [0, 0x6C, 0x6C, 0x6C, 0x6C, 0xFE, 0x6C, 0x6C, 0xFE, 0x6C, 0x6C, 0x6C, 0, 0, 0, 0],
     [0, 0x18, 0x7E, 0x60, 0x60, 0x7C, 0x06, 0x06, 0x7C, 0x60, 0x60, 0x7E, 0x18, 0, 0, 0],
     [0, 0, 0x63, 0x66, 0x0C, 0x18, 0x30, 0x60, 0x66, 0x63, 0, 0, 0, 0, 0, 0],
     [0, 0x3C, 0x66, 0x66, 0x3C, 0x18, 0x7C, 0xC6, 0xC6, 0x7E, 0x06, 0x06, 0, 0, 0, 0],
     [0, 0x18, 0x18, 0x18, 0x18, 0, 0, 0, 0, 0, 0, 0, 0, 0, 0, 0],
     [0, 0x30, 0x18, 0x0C, 0x0C, 0x0C, 0x0C, 0x0C, 0x0C, 0x18, 0x30, 0, 0, 0, 0, 0],
     [0, 0x0C, 0x18, 0x30, 0x30, 0x30, 0x30, 0x30, 0x30, 0x18, 0x0C, 0, 0, 0, 0, 0],
     [0, 0, 0x66, 0x3C, 0xFF, 0x18, 0x18, 0xFF, 0x3C, 0x66, 0, 0, 0, 0, 0, 0],
     [0, 0, 0x18, 0x18, 0x18, 0x7E, 0x18, 0x18, 0x18, 0x18, 0, 0, 0, 0, 0, 0],
     [0, 0, 0, 0, 0, 0, 0, 0, 0, 0x18, 0x18, 0x30, 0, 0, 0, 0],
     [0, 0, 0, 0, 0, 0, 0x7E, 0, 0, 0, 0, 0, 0, 0, 0, 0],
     [0, 0, 0, 0, 0, 0, 0, 0, 0, 0x18, 0x18, 0, 0, 0, 0, 0],
     [0, 0x03, 0x06, 0x0C, 0x18, 0x30, 0x60, 0xC0, 0x80, 0, 0, 0, 0, 0, 0, 0],
     [0, 0x7C, 0x86, 0x8E, 0x9A, 0xB2, 0xC6, 0x82, 0x82, 0x86, 0x7C, 0, 0, 0, 0, 0],
     [0, 0x18, 0x38, 0x58, 0x18, 0x18, 0x18, 0x18, 0x18, 0x18, 0x7E, 0, 0, 0, 0, 0],
     [0, 0x7C, 0x82, 0x82, 0x02, 0x04, 0x18, 0x20, 0x40, 0x80, 0xFE, 0, 0, 0, 0, 0],
     [0, 0x7C, 0x82, 0x82, 0x02, 0x1C, 0x02, 0x02, 0x82, 0x82, 0x7C, 0, 0, 0, 0, 0],
     [0, 0x0C, 0x14, 0x24, 0x44, 0x84, 0x84, 0xFE, 0x04, 0x04, 0x04, 0, 0, 0, 0, 0],
     [0, 0xFE, 0x80, 0x80, 0xFC, 0x82, 0x02, 0x82, 0x82, 0x84, 0x78, 0, 0, 0, 0, 0],
     [0, 0x38, 0x40, 0x80, 0xFC, 0x82, 0x82, 0x82, 0x82, 0x84, 0x78, 0, 0, 0, 0, 0],
     [0, 0xFE, 0x02, 0x04, 0x08, 0x10, 0x20, 0x20, 0x20, 0x20, 0x20, 0, 0, 0, 0, 0],
     [0, 0x7C, 0x82, 0x82, 0x82, 0x7C, 0x82, 0x82, 0x82, 0x82, 0x7C, 0, 0, 0, 0, 0],
     [0, 0x7C, 0x82, 0x82, 0x82, 0x82, 0x7E, 0x02, 0x02, 0x04, 0x38, 0, 0, 0, 0, 0],
     [0, 0, 0x18, 0x18, 0, 0, 0x18, 0x18, 0, 0, 0, 0, 0, 0, 0, 0],
     [0, 0, 0x30, 0x30, 0, 0, 0x30, 0x30, 0x18, 0x30, 0, 0, 0, 0, 0, 0],
     [0, 0x06, 0x0C, 0x18, 0x30, 0x60, 0x30, 0x18, 0x0C, 0x06, 0, 0, 0, 0, 0, 0],
     [0, 0, 0, 0, 0x7E, 0, 0, 0x7E, 0, 0, 0, 0, 0, 0, 0, 0],
     [0, 0x60, 0x30, 0x18, 0x0C, 0x06, 0x0C, 0x18, 0x30, 0x60, 0, 0, 0, 0, 0, 0],
     [0, 0x7C, 0x82, 0x82, 0x02, 0x04, 0x08, 0x10, 0x10, 0, 0x10, 0, 0, 0, 0, 0],
     [0, 0x3C, 0xC6, 0xCE, 0xDE, 0xD6, 0xD6, 0xD6, 0xDC, 0xC0, 0x7C, 0, 0, 0, 0, 0],
     [0, 0x38, 0x6C, 0xC6, 0xC6, 0xC6, 0xFE, 0xC6, 0xC6, 0xC6, 0xC6, 0, 0, 0, 0, 0],
     [0, 0xFC, 0x82, 0x82, 0x82, 0xFC, 0x82, 0x82, 0x82, 0x82, 0xFC, 0, 0, 0, 0, 0],
     [0, 0x7C, 0x82, 0x80, 0x80, 0x80, 0x80, 0x80, 0x80, 0x82, 0x7C, 0, 0, 0, 0, 0],
     [0, 0xF8, 0x84, 0x82, 0x82, 0x82, 0x82, 0x82, 0x82, 0x84, 0xF8, 0, 0, 0, 0, 0],
     [0, 0xFE, 0x80, 0x80, 0x80, 0xF8, 0x80, 0x80, 0x80, 0x80, 0xFE, 0, 0, 0, 0, 0],
     [0, 0xFE, 0x80, 0x80, 0x80, 0xF8, 0x80, 0x80, 0x80, 0x80, 0x80, 0, 0, 0, 0, 0],
     [0, 0x7C, 0x82, 0x80, 0x80, 0x8C, 0x82, 0x82, 0x82, 0x82, 0x7E, 0, 0, 0, 0, 0],
     [0, 0xC6, 0xC6, 0xC6, 0xC6, 0xFE, 0xC6, 0xC6, 0xC6, 0xC6, 0xC6, 0, 0, 0, 0, 0],
     [0, 0x7E, 0x18, 0x18, 0x18, 0x18, 0x18, 0x18, 0x18, 0x18, 0x7E, 0, 0, 0, 0, 0],
     [0, 0x1E, 0x06, 0x06, 0x06, 0x06, 0x06, 0x06, 0xC6, 0xC6, 0x7C, 0, 0, 0, 0, 0],
     [0, 0xC6, 0x8C, 0x98, 0xB0, 0xE0, 0xB0, 0x98, 0x8C, 0x8C, 0xC6, 0, 0, 0, 0, 0],
     [0, 0x80, 0x80, 0x80, 0x80, 0x80, 0x80, 0x80, 0x80, 0x80, 0xFE, 0, 0, 0, 0, 0],
     [0, 0xC6, 0xEE, 0xFE, 0xD6, 0xC6, 0xC6, 0xC6, 0xC6, 0xC6, 0xC6, 0, 0, 0, 0, 0],
     [0, 0xC6, 0xE6, 0xF6, 0xFE, 0xDE, 0xCE, 0xC6, 0xC6, 0xC6, 0xC6, 0, 0, 0, 0, 0],
     [0, 0x7C, 0x82, 0x82, 0x82, 0x82, 0x82, 0x82, 0x82, 0x82, 0x7C, 0, 0, 0, 0, 0],
     [0, 0xFC, 0x82, 0x82, 0x82, 0xFC, 0x80, 0x80, 0x80, 0x80, 0x80, 0, 0, 0, 0, 0],
     [0, 0x7C, 0x82, 0x82, 0x82, 0x82, 0x82, 0x82, 0x8A, 0x84, 0x7A, 0, 0, 0, 0, 0],
     [0, 0xFC, 0x82, 0x82, 0x82, 0xFC, 0x88, 0x84, 0x82, 0x82, 0x82, 0, 0, 0, 0, 0],
     [0, 0x78, 0x84, 0x80, 0x80, 0x70, 0x0C, 0x04, 0x84, 0x84, 0x78, 0, 0, 0, 0, 0],
     [0, 0xFE, 0x10, 0x10, 0x10, 0x10, 0x10, 0x10, 0x10, 0x10, 0xFE, 0, 0, 0, 0, 0],
     [0, 0xC6, 0xC6, 0xC6, 0xC6, 0xC6, 0xC6, 0xC6, 0xC6, 0xC6, 0x7C, 0, 0, 0, 0, 0],
     [0, 0xC6, 0xC6, 0xC6, 0xC6, 0xC6, 0xC6, 0x6C, 0x6C, 0x38, 0x38, 0, 0, 0, 0, 0],
     [0, 0xC6, 0xC6, 0xC6, 0xC6, 0xC6, 0xD6, 0xFE, 0xEE, 0x6C, 0x6C, 0, 0, 0, 0, 0],
     [0, 0xC6, 0xC6, 0x6C, 0x6C, 0x38, 0x38, 0x6C, 0x6C, 0xC6, 0xC6, 0, 0, 0, 0, 0],
     [0, 0xC6, 0xC6, 0x6C, 0x6C, 0x38, 0x10, 0x10, 0x10, 0x10, 0x38, 0, 0, 0, 0, 0],
     [0, 0xFE, 0x04, 0x08, 0x10, 0x20, 0x40, 0x40, 0x80, 0x80, 0xFE, 0, 0, 0, 0, 0],
     [0, 0x78, 0x60, 0x60, 0x60, 0x60, 0x60, 0x60, 0x60, 0x60, 0x78, 0, 0, 0, 0, 0],
     [0, 0x80, 0xC0, 0x60, 0x30, 0x18, 0x0C, 0x06, 0x03, 0, 0, 0, 0, 0, 0, 0],
     [0, 0x1E, 0x06, 0x06, 0x06, 0x06, 0x06, 0x06, 0x06, 0x06, 0x1E, 0, 0, 0, 0, 0],
     [0, 0x18, 0x3C, 0x66, 0, 0, 0, 0, 0, 0, 0, 0, 0, 0, 0, 0],
     [0, 0, 0, 0, 0, 0, 0, 0, 0, 0, 0xFF, 0, 0, 0, 0, 0],
     [0, 0x30, 0x18, 0x0C, 0, 0, 0, 0, 0, 0, 0, 0, 0, 0, 0, 0],
     [0, 0, 0, 0x3C, 0x42, 0x42, 0x42, 0x42, 0x42, 0x46, 0x3A, 0, 0, 0, 0, 0],
     [0, 0x80, 0x80, 0x80, 0xFC, 0x82, 0x82, 0x82, 0x82, 0x82, 0xFC, 0, 0, 0, 0, 0],
     [0, 0, 0, 0x7C, 0x82, 0x80, 0x80, 0x80, 0x80, 0x82, 0x7C, 0, 0, 0, 0, 0],
     [0, 0x02, 0x02, 0x02, 0x7E, 0x82, 0x82, 0x82, 0x82, 0x82, 0x7E, 0, 0, 0, 0, 0],
     [0, 0, 0, 0x78, 0x84, 0xFC, 0x80, 0x80, 0x80, 0x84, 0x78, 0, 0, 0, 0, 0],
     [0, 0x1C, 0x22, 0x20, 0x20, 0xF8, 0x20, 0x20, 0x20, 0x20, 0x20, 0, 0, 0, 0, 0],
     [0, 0, 0, 0x3E, 0x42, 0x42, 0x42, 0x42, 0x46, 0x3A, 0x02, 0x3C, 0, 0, 0, 0],
     [0, 0x80, 0x80, 0x80, 0xFC, 0x82, 0x82, 0x82, 0x82, 0x82, 0x82, 0, 0, 0, 0, 0],
     [0, 0x18, 0x18, 0, 0x18, 0x18, 0x18, 0x18, 0x18, 0x18, 0x7E, 0, 0, 0, 0, 0],
     [0, 0x06, 0x06, 0, 0x06, 0x06, 0x06, 0x06, 0x06, 0x06, 0x66, 0x66, 0x3C, 0, 0, 0],
     [0, 0x80, 0x80, 0x80, 0x88, 0x90, 0xE0, 0x90, 0x88, 0x84, 0x82, 0, 0, 0, 0, 0],
     [0, 0x18, 0x18, 0x18, 0x18, 0x18, 0x18, 0x18, 0x18, 0x18, 0x7E, 0, 0, 0, 0, 0],
     [0, 0, 0, 0xCC, 0xCC, 0xFE, 0xD6, 0xC6, 0xC6, 0xC6, 0xC6, 0, 0, 0, 0, 0],
     [0, 0, 0, 0xFC, 0x82, 0x82, 0x82, 0x82, 0x82, 0x82, 0x82, 0, 0, 0, 0, 0],
     [0, 0, 0, 0x7C, 0x82, 0x82, 0x82, 0x82, 0x82, 0x82, 0x7C, 0, 0, 0, 0, 0],
     [0, 0, 0, 0xFC, 0x82, 0x82, 0x82, 0x82, 0x82, 0xFC, 0x80, 0x80, 0x80, 0, 0, 0],
     [0, 0, 0, 0x7E, 0x82, 0x82, 0x82, 0x82, 0x82, 0x7E, 0x02, 0x02, 0x02, 0, 0, 0],
     [0, 0, 0, 0xEC, 0x92, 0x90, 0x80, 0x80, 0x80, 0x80, 0x80, 0, 0, 0, 0, 0],
     [0, 0, 0, 0x78, 0x84, 0x80, 0x78, 0x04, 0x84, 0x84, 0x78, 0, 0, 0, 0, 0],
     [0, 0x20, 0x20, 0xF8, 0x20, 0x20, 0x20, 0x20, 0x20, 0x22, 0x1C, 0, 0, 0, 0, 0],
     [0, 0, 0, 0x82, 0x82, 0x82, 0x82, 0x82, 0x82, 0x82, 0x7E, 0, 0, 0, 0, 0],
     [0, 0, 0, 0x82, 0x82, 0x82, 0x82, 0x82, 0x44, 0x44, 0x38, 0, 0, 0, 0, 0],
     [0, 0, 0, 0xC6, 0xC6, 0xC6, 0xC6, 0xD6, 0xFE, 0xEE, 0x6C, 0, 0, 0, 0, 0],
     [0, 0, 0, 0x82, 0x82, 0x44, 0x38, 0x38, 0x44, 0x82, 0x82, 0, 0, 0, 0, 0],
     [0, 0, 0, 0x82, 0x82, 0x82, 0x82, 0x46, 0x3A, 0x02, 0x3C, 0x82, 0x44, 0x38, 0, 0],
     [0, 0, 0, 0xFE, 0x04, 0x08, 0x10, 0x20, 0x40, 0x80, 0xFE, 0, 0, 0, 0, 0],
     [0, 0x3C, 0x30, 0x30, 0x30, 0x30, 0x60, 0x30, 0x30, 0x30, 0x30, 0x3C, 0, 0, 0, 0],
     [0, 0x18, 0x18, 0x18, 0x18, 0x18, 0, 0x18, 0x18, 0x18, 0x18, 0x18, 0, 0, 0, 0],
     [0, 0x78, 0x0C, 0x0C, 0x0C, 0x0C, 0x06, 0x0C, 0x0C, 0x0C, 0x0C, 0x78, 0, 0, 0, 0],
     [0, 0x6C, 0x38, 0x10, 0, 0, 0, 0, 0, 0, 0, 0, 0, 0, 0, 0],
     [0, 0, 0, 0, 0, 0, 0, 0, 0, 0, 0, 0, 0, 0, 0, 0]]"

definition glyph_index :: "char \<Rightarrow> nat" where
  "glyph_index c = (if 32 \<le> ord8 c \<and> ord8 c \<le> 126 then ord8 c - 32 else 63 - 32)"

definition glyph_bit :: "char \<Rightarrow> nat \<Rightarrow> nat \<Rightarrow> bool" where
  "glyph_bit c row col \<longleftrightarrow> (font ! glyph_index c ! row) AND drop_bit col 0x80 \<noteq> 0"

definition char_px :: "int \<Rightarrow> int \<Rightarrow> char \<Rightarrow> u32 \<Rightarrow> u32 \<Rightarrow> (int \<times> int \<times> u32) list" where
  "char_px x y c fg bg =
    map (\<lambda>(row, col). (x + int col, y + int row, if glyph_bit c row col then fg else bg))
      (List.product [0..<16] [0..<8])"

definition fb_draw_char :: "int \<Rightarrow> int \<Rightarrow> char \<Rightarrow> u32 \<Rightarrow> u32 \<Rightarrow> disp \<Rightarrow> disp option" where
  "fb_draw_char x y c fg bg d =
    (if d_addr d = 0 then Some d
     else if c = NUL then Some d
     else if \<not> int_ok (x + 7) \<or> \<not> int_ok (y + 15) then None
     else Some (fold plot (char_px x y c fg bg) d))"

definition scaled_px :: "int \<Rightarrow> int \<Rightarrow> char \<Rightarrow> u32 \<Rightarrow> u32 \<Rightarrow> int \<Rightarrow> (int \<times> int \<times> u32) list" where
  "scaled_px x y c fg bg scale =
    concat (map (\<lambda>(row, col). map (\<lambda>(sy, sx).
        (x + int col * scale + sx, y + int row * scale + sy, if glyph_bit c row col then fg else bg))
      (List.product [0..scale - 1] [0..scale - 1])) (List.product [0..<16] [0..<8]))"

definition fb_draw_char_scaled ::
    "int \<Rightarrow> int \<Rightarrow> char \<Rightarrow> u32 \<Rightarrow> u32 \<Rightarrow> int \<Rightarrow> disp \<Rightarrow> disp option" where
  "fb_draw_char_scaled x y c fg bg scale d =
    (if scale \<le> 1 then fb_draw_char x y c fg bg d
     else if d_addr d = 0 then Some d
     else if c = NUL then Some d
     else if \<not> int_ok (7 * scale) \<or> \<not> int_ok (15 * scale)
          \<or> \<not> int_ok (x + 8 * scale - 1) \<or> \<not> int_ok (y + 16 * scale - 1) then None
     else Some (fold plot (scaled_px x y c fg bg scale) d))"

fun fb_draw_text :: "int \<Rightarrow> int \<Rightarrow> string \<Rightarrow> u32 \<Rightarrow> u32 \<Rightarrow> disp \<Rightarrow> disp option" where
  "fb_draw_text x y [] fg bg d = Some d"
| "fb_draw_text x y (c # s) fg bg d =
    (if c = NUL then Some d
     else case fb_draw_char x y c fg bg d of
       None \<Rightarrow> None
     | Some d' \<Rightarrow> if int_ok (x + 8) then fb_draw_text (x + 8) y s fg bg d' else None)"

fun fb_draw_text_scaled :: "int \<Rightarrow> int \<Rightarrow> string \<Rightarrow> u32 \<Rightarrow> u32 \<Rightarrow> int \<Rightarrow> disp \<Rightarrow> disp option" where
  "fb_draw_text_scaled x y [] fg bg scale d = Some d"
| "fb_draw_text_scaled x y (c # s) fg bg scale d =
    (if c = NUL then Some d
     else case fb_draw_char_scaled x y c fg bg scale d of
       None \<Rightarrow> None
     | Some d' \<Rightarrow>
        if int_ok (8 * scale) \<and> int_ok (x + 8 * scale)
        then fb_draw_text_scaled (x + 8 * scale) y s fg bg scale d' else None)"

definition fb_draw_box_centered :: "int \<Rightarrow> int \<Rightarrow> u32 \<Rightarrow> u32 \<Rightarrow> disp \<Rightarrow> disp option" where
  "fb_draw_box_centered w h bg border d =
    (if d_addr d = 0 then Some d
     else
       let cx = c_int (d_width d div 2 - word_of_int (c_half w));
           cy = c_int (d_height d div 2 - word_of_int (c_half h))
       in if \<not> int_ok (cx - 2) \<or> \<not> int_ok (cy - 2) \<or> \<not> int_ok (w + 4) \<or> \<not> int_ok (h + 4) then None
          else case fb_draw_rect (cx - 2) (cy - 2) (w + 4) (h + 4) border d of
            None \<Rightarrow> None
          | Some d' \<Rightarrow> fb_draw_rect cx cy w h bg d')"

section \<open>The console\<close>

definition fb_init :: "u64 \<Rightarrow> u64 \<Rightarrow> u64 \<Rightarrow> u64 \<Rightarrow> disp \<Rightarrow> disp" where
  "fb_init addr w h p d =
    fb_clear bg_color (d\<lparr>d_addr := addr, d_width := w, d_height := h, d_pitch := p\<rparr>)"

text \<open>The copies of lines go upwards, each from the line below.\<close>

definition copy_line :: "int \<Rightarrow> disp \<Rightarrow> disp" where
  "copy_line r d =
    (let n = 16 * pitch d in
     d\<lparr>d_px := \<lambda>a. if (r - 1) * n \<le> a \<and> a < r * n then d_px d (a + n) else d_px d a\<rparr>)"

definition fill_cells :: "int \<Rightarrow> int \<Rightarrow> u32 \<Rightarrow> disp \<Rightarrow> disp" where
  "fill_cells base n c d =
    d\<lparr>d_px := \<lambda>a. if base \<le> a \<and> a < base + 4 * n \<and> (a - base) mod 4 = 0 then c else d_px d a\<rparr>"

definition rows_of :: "disp \<Rightarrow> int" where "rows_of d = c_int (d_height d div 16)"
definition cols_of :: "disp \<Rightarrow> int" where "cols_of d = c_int (d_width d div 8)"

definition console_scroll :: "disp \<Rightarrow> disp" where
  "console_scroll d =
    (let rows = rows_of d;
         d1 = fold copy_line [1..rows - 1] d
     in fill_cells ((rows - 1) * 16 * pitch d) (uint (16 * d_width d)) bg_color d1)"

definition fb_console_init :: "u64 \<Rightarrow> u64 \<Rightarrow> u64 \<Rightarrow> u64 \<Rightarrow> disp \<Rightarrow> disp" where
  "fb_console_init addr w h p d =
    (fb_clear bg_color (d\<lparr>d_addr := addr, d_width := w, d_height := h, d_pitch := p,
       d_active := True, d_x := 0, d_y := 0\<rparr>))\<lparr>d_boot := False\<rparr>"

definition fb_console_activate :: "disp \<Rightarrow> disp" where
  "fb_console_activate d =
    (if d_addr d = 0 then d
     else fb_clear bg_color (d\<lparr>d_boot := True, d_active := True, d_x := 0, d_y := 0\<rparr>))"

definition fb_console_panic :: "disp \<Rightarrow> disp" where
  "fb_console_panic d = (if d_addr d = 0 then d else d\<lparr>d_boot := True, d_active := True\<rparr>)"

definition draw_cell :: "char \<Rightarrow> disp \<Rightarrow> disp option" where
  "draw_cell c d =
    (if int_ok (d_x d * 8) \<and> int_ok (d_y d * 16)
     then fb_draw_char (d_x d * 8) (d_y d * 16) c fg_color bg_color d else None)"

definition fb_console_putc :: "char \<Rightarrow> disp \<Rightarrow> disp option" where
  "fb_console_putc c d =
    (if \<not> d_active d then Some d
     else
       let cols = cols_of d; rows = rows_of d;
           r = (if c = CHR 0x0A then Some (d\<lparr>d_x := 0, d_y := d_y d + 1\<rparr>)
                else if c = CHR 0x0D then Some (d\<lparr>d_x := 0\<rparr>)
                else if c = CHR 0x08 then
                  (if d_x d > 0 then draw_cell CHR '' '' (d\<lparr>d_x := d_x d - 1\<rparr>)
                   else if d_y d > 0 then draw_cell CHR '' '' (d\<lparr>d_y := d_y d - 1, d_x := cols - 1\<rparr>)
                   else Some d)
                else
                  let d1 = (if cols \<le> d_x d then d\<lparr>d_x := 0, d_y := d_y d + 1\<rparr> else d);
                      c' = (if ord8 c < 32 \<or> 126 < ord8 c then CHR ''?'' else c)
                  in map_option (\<lambda>d2. d2\<lparr>d_x := d_x d2 + 1\<rparr>) (draw_cell c' d1))
       in map_option (\<lambda>d3. if rows \<le> d_y d3 then (console_scroll d3)\<lparr>d_y := rows - 1\<rparr> else d3) r)"

fun fb_console_write :: "string \<Rightarrow> disp \<Rightarrow> disp option" where
  "fb_console_write [] d = Some d"
| "fb_console_write (c # s) d =
    (if c = NUL then Some d
     else case fb_console_putc c d of None \<Rightarrow> None | Some d' \<Rightarrow> fb_console_write s d')"

definition fb_console_clear :: "disp \<Rightarrow> disp" where
  "fb_console_clear d = (fb_clear bg_color d)\<lparr>d_x := 0, d_y := 0\<rparr>"

text \<open>What \<open>SYS_FB_DRAW\<close> and the calls that print do to the display.\<close>

fun show_event :: "event \<Rightarrow> disp \<Rightarrow> disp option" where
  "show_event (Console s) d = fb_console_write s d"
| "show_event ClearConsole d = Some (fb_console_clear d)"
| "show_event (Draw (DClear c)) d = Some (fb_clear c d)"
| "show_event (Draw (DRect x y w h c)) d = fb_draw_rect (sint x) (sint y) (sint w) (sint h) c d"
| "show_event (Draw (DText x y t c c2)) d = fb_draw_text (sint x) (sint y) t c c2 d"
| "show_event _ d = Some d"

section \<open>Where drawing writes\<close>

text \<open>The display the boot loader hands over: a line holds its pixels and is a
  whole number of cells, and the sizes are far from the limits of an \<open>int\<close>.\<close>

definition fb_ok :: "disp \<Rightarrow> bool" where
  "fb_ok d \<longleftrightarrow> 4 * width d \<le> pitch d \<and> pitch d mod 4 = 0 \<and> width d < 2 ^ 28 \<and> height d < 2 ^ 28"

definition same_geom :: "disp \<Rightarrow> disp \<Rightarrow> bool" where
  "same_geom d d' \<longleftrightarrow> d_addr d' = d_addr d \<and> d_width d' = d_width d
     \<and> d_height d' = d_height d \<and> d_pitch d' = d_pitch d"

definition inside :: "disp \<Rightarrow> disp \<Rightarrow> bool" where
  "inside d d' \<longleftrightarrow> same_geom d d'
     \<and> (\<forall>a. a < 0 \<or> height d * pitch d \<le> a \<longrightarrow> d_px d' a = d_px d a)"

definition pix :: "disp \<Rightarrow> int \<Rightarrow> int \<Rightarrow> u32" where
  "pix d x y = d_px d (px_off d x y)"

definition on_screen :: "disp \<Rightarrow> int \<Rightarrow> int \<Rightarrow> bool" where
  "on_screen d x y \<longleftrightarrow> 0 \<le> x \<and> x < width d \<and> 0 \<le> y \<and> y < height d"

lemma inside_refl [simp]: "inside d d"
  by (simp add: inside_def same_geom_def)

lemma inside_trans: "inside d e \<Longrightarrow> inside e f \<Longrightarrow> inside d f"
  by (simp add: inside_def same_geom_def)

lemma inside_geom: "inside d e \<Longrightarrow> same_geom d e"
  by (simp add: inside_def)

lemma inside_upd:
  "inside d d' \<Longrightarrow> inside d (d'\<lparr>d_x := x\<rparr>)" "inside d d' \<Longrightarrow> inside d (d'\<lparr>d_y := y\<rparr>)"
  "inside d d' \<Longrightarrow> inside d (d'\<lparr>d_active := b\<rparr>)" "inside d d' \<Longrightarrow> inside d (d'\<lparr>d_boot := b\<rparr>)"
  by (auto simp: inside_def same_geom_def)

lemma fb_ok_geom: "same_geom d e \<Longrightarrow> fb_ok d \<Longrightarrow> fb_ok e"
  by (auto simp: same_geom_def fb_ok_def)

lemma inside_ok: "inside d e \<Longrightarrow> fb_ok d \<Longrightarrow> fb_ok e"
  by (rule fb_ok_geom [OF inside_geom])

lemma inside_step: "fb_ok d \<Longrightarrow> inside d e \<Longrightarrow> (fb_ok e \<Longrightarrow> inside e f) \<Longrightarrow> inside d f"
  using inside_trans inside_ok by blast

lemma line_bound: "0 \<le> (j::int) \<Longrightarrow> j < h \<Longrightarrow> 0 \<le> p \<Longrightarrow> j * p + p \<le> h * p"
  by (metis add1_zle_eq distrib_right mult_1 mult_right_mono)

lemma px_off_range:
  assumes "fb_ok d" "on_screen d x y"
  shows "0 \<le> px_off d x y" "px_off d x y < height d * pitch d"
proof -
  have "px_off d x y < y * pitch d + pitch d"
    using assms by (auto simp: px_off_def on_screen_def fb_ok_def)
  moreover have "y * pitch d + pitch d \<le> height d * pitch d"
    using assms by (intro line_bound) (auto simp: on_screen_def)
  ultimately show "px_off d x y < height d * pitch d" by linarith
  show "0 \<le> px_off d x y" using assms by (simp add: px_off_def on_screen_def)
qed

lemma px_off_inj:
  assumes "fb_ok d" "on_screen d x y" "on_screen d x' y'" "px_off d x y = px_off d x' y'"
  shows "x = x' \<and> y = y'"
proof -
  have b: "0 \<le> x * 4" "x * 4 < pitch d" "0 \<le> x' * 4" "x' * 4 < pitch d"
    using assms by (auto simp: on_screen_def fb_ok_def)
  have "(y * pitch d + x * 4) div pitch d = y" "(y' * pitch d + x' * 4) div pitch d = y'"
    using b by (simp_all add: div_add1_eq)
  then have "y = y'" using assms(4) by (simp add: px_off_def)
  then show ?thesis using assms(4) by (simp add: px_off_def)
qed

lemma plot_inside: "fb_ok d \<Longrightarrow> inside d (plot p d)"
  using px_off_range [of d "fst p" "fst (snd p)"]
  by (cases p) (auto simp: plot_def set_px_def inside_def same_geom_def on_screen_def)

lemma fold_inside: "fb_ok d \<Longrightarrow> inside d (fold plot ps d)"
proof (induction ps arbitrary: d)
  case (Cons p ps)
  then show ?case
    using plot_inside [of d p] by (auto intro: inside_trans inside_ok)
qed simp

lemma plot_pix:
  assumes "fb_ok d" "on_screen d x y"
  shows "pix (plot (i, j, c) d) x y = (if (i, j) = (x, y) then c else pix d x y)"
  using assms px_off_inj [OF assms, of i j]
  by (auto simp: plot_def set_px_def pix_def px_off_def on_screen_def)

lemma on_screen_geom: "same_geom d e \<Longrightarrow> on_screen e x y = on_screen d x y"
  by (simp add: same_geom_def on_screen_def)

text \<open>Stores whose pixels are all on the screen need no test.\<close>

lemma unchecked_stores:
  "\<forall>(i, j, c)\<in>set ps. on_screen d i j \<Longrightarrow> fold set_px ps d = fold plot ps d"
proof (induction ps arbitrary: d)
  case (Cons p ps)
  obtain i j c where p: "p = (i, j, c)" by (cases p)
  have e: "set_px p d = plot p d" using Cons.prems by (auto simp: p plot_def on_screen_def)
  have "same_geom d (plot p d)" by (auto simp: p plot_def set_px_def same_geom_def)
  then show ?case using Cons on_screen_geom [of d "plot p d"] by (simp add: e)
qed simp

lemma fb_clear_plots:
  "d_addr d \<noteq> 0 \<Longrightarrow> fb_clear c d =
    fold plot (concat (map (\<lambda>y. map (\<lambda>x. (x, y, c)) [0..width d - 1]) [0..height d - 1])) d"
  unfolding fb_clear_def by (simp, rule unchecked_stores) (auto simp: on_screen_def)

lemma fb_rect_plots:
  assumes "fb_draw_rect x y w h c d = Some d'" "d_addr d \<noteq> 0"
  shows "d' = fold plot (concat (map (\<lambda>j. map (\<lambda>i. (i, j, c)) (filter (\<lambda>i. 0 \<le> i \<and> i < width d) [x..x + w - 1]))
    (filter (\<lambda>j. 0 \<le> j \<and> j < height d) [y..y + h - 1]))) d" (is "_ = fold plot ?ps d")
proof -
  have "fold set_px ?ps d = fold plot ?ps d" by (rule unchecked_stores) (auto simp: on_screen_def)
  then show ?thesis using assms by (auto simp: fb_draw_rect_def Let_def split: if_splits)
qed

text \<open>The last plot of a pixel decides.\<close>

lemma fold_pix:
  assumes "fb_ok d" "on_screen d x y"
  shows "pix (fold plot ps d) x y =
    (case map_of (rev (map (\<lambda>(i, j, c). ((i, j), c)) ps)) (x, y) of None \<Rightarrow> pix d x y | Some c \<Rightarrow> c)"
  using assms
proof (induction ps rule: rev_induct)
  case (snoc p ps)
  obtain i j c where p: "p = (i, j, c)" by (cases p)
  have g: "same_geom d (fold plot ps d)" using snoc.prems by (intro inside_geom fold_inside)
  show ?case
    using snoc plot_pix [of "fold plot ps d" x y i j c] fb_ok_geom [OF g] on_screen_geom [OF g]
    by (auto simp: p split: option.splits)
qed simp

lemma fold_pix_distinct:
  assumes "fb_ok d" "on_screen d x y" "distinct (map (\<lambda>(i, j, c). (i, j)) ps)" "(x, y, c) \<in> set ps"
  shows "pix (fold plot ps d) x y = c"
proof -
  have "distinct (map fst (rev (map (\<lambda>(i, j, c). ((i, j), c)) ps)))"
    using assms(3) by (simp add: rev_map [symmetric] comp_def case_prod_unfold)
  moreover have "((x, y), c) \<in> set (rev (map (\<lambda>(i, j, c). ((i, j), c)) ps))"
    using assms(4) by force
  ultimately show ?thesis using fold_pix [OF assms(1,2), of ps] by simp
qed

lemma fold_pix_same:
  assumes "fb_ok d" "on_screen d x y" "\<And>i j c. (i, j, c) \<in> set ps \<Longrightarrow> c = col"
  shows "pix (fold plot ps d) x y = (if \<exists>c. (x, y, c) \<in> set ps then col else pix d x y)"
proof (cases "map_of (rev (map (\<lambda>(i, j, c). ((i, j), c)) ps)) (x, y)")
  case None
  then have "(x, y) \<notin> fst ` (\<lambda>(i, j, c). ((i, j), c)) ` set ps"
    by (simp add: map_of_eq_None_iff)
  then have "\<forall>c. (x, y, c) \<notin> set ps" by (auto simp: image_iff split_beta)
  then show ?thesis using fold_pix [OF assms(1,2), of ps] None by simp
next
  case (Some c)
  then have "(x, y, c) \<in> set ps" by (auto dest!: map_of_SomeD)
  then show ?thesis using fold_pix [OF assms(1,2), of ps] Some assms(3) by auto
qed

lemma fb_clear_inside: "fb_ok d \<Longrightarrow> inside d (fb_clear c d)"
  using fold_inside fb_clear_plots by (cases "d_addr d = 0") (auto simp: fb_clear_def)

lemma rect_inside: "fb_ok d \<Longrightarrow> fb_draw_rect x y w h c d = Some d' \<Longrightarrow> inside d d'"
  using fold_inside fb_rect_plots [of x y w h c d d'] by (cases "d_addr d = 0") (simp add: fb_draw_rect_def, simp)

lemma char_inside: "fb_ok d \<Longrightarrow> fb_draw_char x y c fg bg d = Some d' \<Longrightarrow> inside d d'"
  by (auto simp: fb_draw_char_def fold_inside split: if_splits)

lemma char_scaled_inside: "fb_ok d \<Longrightarrow> fb_draw_char_scaled x y c fg bg sc d = Some d' \<Longrightarrow> inside d d'"
  by (auto simp: fb_draw_char_scaled_def fold_inside char_inside split: if_splits)

lemma text_inside: "fb_ok d \<Longrightarrow> fb_draw_text x y s fg bg d = Some d' \<Longrightarrow> inside d d'"
proof (induction x y s fg bg d rule: fb_draw_text.induct)
  case (2 x y c s fg bg d)
  show ?case
  proof (cases "c = NUL")
    case False
    then obtain e where e: "fb_draw_char x y c fg bg d = Some e"
        "int_ok (x + 8)" "fb_draw_text (x + 8) y s fg bg e = Some d'"
      using 2(3) by (auto split: option.splits if_splits)
    show ?thesis
      by (rule inside_step [OF 2(2) char_inside [OF 2(2) e(1)]]) (rule 2(1) [OF False e(1,2) _ e(3)])
  qed (use 2 in simp)
qed simp

lemma text_scaled_inside:
  "fb_ok d \<Longrightarrow> fb_draw_text_scaled x y s fg bg sc d = Some d' \<Longrightarrow> inside d d'"
proof (induction x y s fg bg sc d rule: fb_draw_text_scaled.induct)
  case (2 x y c s fg bg sc d)
  show ?case
  proof (cases "c = NUL")
    case False
    then obtain e where e: "fb_draw_char_scaled x y c fg bg sc d = Some e"
        "int_ok (8 * sc) \<and> int_ok (x + 8 * sc)"
        "fb_draw_text_scaled (x + 8 * sc) y s fg bg sc e = Some d'"
      using 2(3) by (auto split: option.splits if_splits)
    show ?thesis
      by (rule inside_step [OF 2(2) char_scaled_inside [OF 2(2) e(1)]])
         (rule 2(1) [OF False e(1,2) _ e(3)])
  qed (use 2 in simp)
qed simp

lemma box_inside:
  assumes "fb_ok d" "fb_draw_box_centered w h bg b d = Some d'"
  shows "inside d d'"
proof (cases "d_addr d = 0")
  case False
  then obtain x y w' h' cx cy e where e: "fb_draw_rect x y w' h' b d = Some e"
      "fb_draw_rect cx cy w h bg e = Some d'"
    using assms(2) by (auto simp: fb_draw_box_centered_def Let_def split: if_splits option.splits)
  show ?thesis
    by (rule inside_step [OF assms(1) rect_inside [OF assms(1) e(1)]]) (rule rect_inside [OF _ e(2)])
qed (use assms in \<open>simp add: fb_draw_box_centered_def\<close>)

lemma rect_pixels:
  assumes "fb_ok d" "on_screen d px py" "fb_draw_rect x y w h c d = Some d'" "d_addr d \<noteq> 0"
  shows "pix d' px py =
    (if x \<le> px \<and> px < x + w \<and> y \<le> py \<and> py < y + h then c else pix d px py)"
proof -
  let ?ps = "concat (map (\<lambda>j. map (\<lambda>i. (i, j, c)) (filter (\<lambda>i. 0 \<le> i \<and> i < width d) [x..x + w - 1]))
    (filter (\<lambda>j. 0 \<le> j \<and> j < height d) [y..y + h - 1]))"
  have "d' = fold plot ?ps d" by (rule fb_rect_plots [OF assms(3,4)])
  moreover have "(\<exists>c. (px, py, c) \<in> set ?ps) \<longleftrightarrow> x \<le> px \<and> px < x + w \<and> y \<le> py \<and> py < y + h"
    using assms(2) by (auto simp: on_screen_def)
  moreover have "pix (fold plot ?ps d) px py = (if \<exists>c. (px, py, c) \<in> set ?ps then c else pix d px py)"
    by (rule fold_pix_same [OF assms(1,2)]) auto
  ultimately show ?thesis by presburger
qed

lemma char_pixels:
  assumes "fb_ok d" "on_screen d (x + int col) (y + int row)" "row < 16" "col < 8"
    and "fb_draw_char x y c fg bg d = Some d'" "d_addr d \<noteq> 0" "c \<noteq> NUL"
  shows "pix d' (x + int col) (y + int row) = (if glyph_bit c row col then fg else bg)"
proof -
  have "d' = fold plot (char_px x y c fg bg) d"
    using assms(5-) by (auto simp: fb_draw_char_def split: if_splits)
  moreover have "distinct (map (\<lambda>(i, j, c). (i, j)) (char_px x y c fg bg))"
    by (simp add: char_px_def comp_def case_prod_unfold distinct_map distinct_product inj_on_def prod_eq_iff)
  moreover have "(x + int col, y + int row, if glyph_bit c row col then fg else bg) \<in> set (char_px x y c fg bg)"
    using assms(3,4) by (force simp: char_px_def)
  ultimately show ?thesis using fold_pix_distinct [OF assms(1,2)] by simp
qed

section \<open>The cursor and the lines of the console\<close>

definition console_ok :: "disp \<Rightarrow> bool" where
  "console_ok d \<longleftrightarrow> fb_ok d \<and> 8 \<le> width d \<and> 16 \<le> height d
     \<and> 0 \<le> d_x d \<and> d_x d \<le> cols_of d \<and> 0 \<le> d_y d \<and> d_y d < rows_of d"

lemma c_int_small: "uint w < 2 ^ 31 \<Longrightarrow> c_int w = uint w"
proof -
  assume a: "uint w < 2 ^ 31"
  then have "uint (ucast w :: u32) = uint w"
    by (simp add: unsigned_ucast_eq take_bit_int_eq_self)
  moreover have "signed_take_bit 31 (uint w) = uint w"
    using a uint_ge_0 [of w] by (intro signed_take_bit_int_eq_self) linarith+
  ultimately show ?thesis by (simp add: c_int_def sint_uint)
qed

lemma div_le_dividend_int: "0 \<le> (h :: int) \<Longrightarrow> 0 < k \<Longrightarrow> h div k \<le> h"
  by (metis div_by_1 int_one_le_iff_zero_less zdiv_mono2 zero_less_one)

lemma div_small: "(h :: int) < 2 ^ 28 \<Longrightarrow> 0 < k \<Longrightarrow> 0 \<le> h \<Longrightarrow> h div k < 2 ^ 31"
  using div_le_dividend_int [of h k] by simp

lemma rows_cols:
  assumes "fb_ok d"
  shows "rows_of d = height d div 16" "cols_of d = width d div 8"
proof -
  have h: "uint (d_height d div 16) = height d div 16" "uint (d_width d div 8) = width d div 8"
    by (simp_all add: uint_div)
  have "height d div 16 < 2 ^ 31" "width d div 8 < 2 ^ 31"
    using assms div_small [of "height d" 16] div_small [of "width d" 8] by (auto simp: fb_ok_def)
  then show "rows_of d = height d div 16" "cols_of d = width d div 8"
    unfolding rows_of_def cols_of_def by (simp_all add: c_int_small h)
qed

lemma rows_geom: "same_geom d e \<Longrightarrow> rows_of e = rows_of d \<and> cols_of e = cols_of d"
  by (simp add: same_geom_def rows_of_def cols_of_def)

lemma copy_lines:
  assumes "0 \<le> pitch d"
  shows "same_geom d (fold copy_line [1..int m] d) \<and>
    d_px (fold copy_line [1..int m] d) a =
      (if 0 \<le> a \<and> a < int m * (16 * pitch d) then d_px d (a + 16 * pitch d) else d_px d a)"
proof (induction m arbitrary: a)
  case 0
  then show ?case by (auto simp: same_geom_def)
next
  case (Suc m)
  let ?e = "fold copy_line [1..int m] d" and ?n = "16 * pitch d"
  define n where "n = ?n"
  define M where "M = int m * n"
  have l: "[1..int (Suc m)] = [1..int m] @ [int m + 1]"
    by (subst upto_rec2) auto
  have g: "same_geom d ?e" using Suc by blast
  then have p: "pitch ?e = pitch d" by (simp add: same_geom_def)
  have g': "same_geom d (copy_line (int m + 1) ?e)"
    using g by (simp add: copy_line_def same_geom_def Let_def)
  have k: "int (Suc m) * ?n = int m * ?n + ?n" by (simp add: algebra_simps)
  have z: "0 \<le> int m * ?n" "0 \<le> ?n" by simp_all
  have px: "d_px (copy_line (int m + 1) ?e) a =
      (if int m * ?n \<le> a \<and> a < int (Suc m) * ?n then d_px ?e (a + ?n) else d_px ?e a)"
    by (simp add: copy_line_def Let_def p add.commute)
  show ?case
    unfolding l fold_append fold.simps comp_apply id_apply px k
    using g' Suc.IH [of a] Suc.IH [of "a + ?n"] z [folded n_def M_def]
    unfolding k n_def [symmetric] M_def [symmetric] by auto
qed

lemma scroll_px:
  assumes "fb_ok d" "16 \<le> height d"
  shows "d_px (console_scroll d) a =
    (let base = (rows_of d - 1) * 16 * pitch d in
     if base \<le> a \<and> a < base + 64 * width d \<and> (a - base) mod 4 = 0 then bg_color
     else if 0 \<le> a \<and> a < base then d_px d (a + 16 * pitch d) else d_px d a)"
    and "same_geom d (console_scroll d)"
proof -
  define m where "m = nat (rows_of d - 1)"
  have r: "1 \<le> rows_of d" using assms by (simp add: rows_cols)
  then have m: "rows_of d - 1 = int m" by (simp add: m_def)
  have b: "(rows_of d - 1) * 16 * pitch d = int m * (16 * pitch d)" by (simp add: m)
  have w: "uint (16 * d_width d) = 16 * width d"
    using assms by (simp add: fb_ok_def uint_word_ariths)
  note c = copy_lines [of d m]
  show "d_px (console_scroll d) a =
    (let base = (rows_of d - 1) * 16 * pitch d in
     if base \<le> a \<and> a < base + 64 * width d \<and> (a - base) mod 4 = 0 then bg_color
     else if 0 \<le> a \<and> a < base then d_px d (a + 16 * pitch d) else d_px d a)"
    unfolding console_scroll_def Let_def fill_cells_def b m w using c [of a] by auto
  show "same_geom d (console_scroll d)"
    using c by (simp add: console_scroll_def Let_def fill_cells_def m same_geom_def)
qed

lemma scroll_inside:
  assumes "fb_ok d" "16 \<le> height d"
  shows "inside d (console_scroll d)"
proof -
  define b where "b = (rows_of d - 1) * 16 * pitch d"
  have "rows_of d * 16 \<le> height d" "1 \<le> rows_of d" using assms by (simp_all add: rows_cols)
  then have "rows_of d * 16 * pitch d \<le> height d * pitch d" "0 \<le> b"
    by (simp_all add: mult_right_mono b_def)
  moreover have "b + 64 * width d \<le> rows_of d * 16 * pitch d"
    using assms by (simp add: b_def algebra_simps fb_ok_def)
  moreover have "0 \<le> width d" by simp
  ultimately have "0 \<le> b" "b + 64 * width d \<le> height d * pitch d" "b \<le> height d * pitch d"
    by linarith+
  then show ?thesis
    using scroll_px [OF assms] unfolding Let_def b_def [symmetric] by (auto simp: inside_def)
qed

lemma scroll_ok: "fb_ok d \<Longrightarrow> 16 \<le> height d \<Longrightarrow> fb_ok (console_scroll d)"
  using scroll_px(2) fb_ok_geom by blast

definition cursor_ok :: "disp \<Rightarrow> bool" where
  "cursor_ok d \<longleftrightarrow> fb_ok d \<and> 8 \<le> width d \<and> 16 \<le> height d
     \<and> 0 \<le> d_x d \<and> d_x d \<le> cols_of d \<and> 0 \<le> d_y d \<and> d_y d \<le> rows_of d"

lemma plot_cursor: "d_x (fold plot ps d) = d_x d \<and> d_y (fold plot ps d) = d_y d"
  by (induction ps arbitrary: d) (auto simp: plot_def set_px_def split: prod.splits)

lemma draw_cell_ok:
  assumes "cursor_ok d"
  obtains e where "draw_cell c d = Some e" "inside d e" "d_x e = d_x d" "d_y e = d_y d"
proof -
  have "8 * cols_of d \<le> width d" "16 * rows_of d \<le> height d" "width d < 2 ^ 28" "height d < 2 ^ 28"
    using assms by (auto simp: cursor_ok_def rows_cols fb_ok_def)
  then have "int_ok (d_x d * 8)" "int_ok (d_y d * 16)" "int_ok (d_x d * 8 + 7)" "int_ok (d_y d * 16 + 15)"
    using assms by (auto simp: cursor_ok_def int_ok_def)
  then have "draw_cell c d = Some d \<or> (\<exists>ps. draw_cell c d = Some (fold plot ps d))"
    by (auto simp: draw_cell_def fb_draw_char_def)
  then obtain e where e: "draw_cell c d = Some e" "e = d \<or> (\<exists>ps. e = fold plot ps d)" by blast
  moreover have "inside d e" "d_x e = d_x d" "d_y e = d_y d"
    using e(2) assms plot_cursor by (auto simp: cursor_ok_def fold_inside)
  ultimately show ?thesis using that by blast
qed

lemma cursor_at:
  assumes "cursor_ok d" "0 \<le> x" "x \<le> cols_of d" "0 \<le> y" "y \<le> rows_of d" "inside d e"
  shows "cursor_ok (e\<lparr>d_x := x, d_y := y\<rparr>)"
  using assms inside_ok [of d e] rows_geom [of d e]
  by (auto simp: cursor_ok_def fb_ok_def inside_def same_geom_def rows_of_def cols_of_def)

lemma cursor_kept:
  assumes "cursor_ok d" "inside d e" "d_x e = d_x d" "d_y e = d_y d"
  shows "cursor_ok e"
  using assms inside_ok [OF assms(2)] rows_geom [OF inside_geom [OF assms(2)]]
  by (auto simp: cursor_ok_def inside_def same_geom_def)

lemma copy_x: "d_x (fold copy_line rs d) = d_x d"
  by (induction rs arbitrary: d) (auto simp: copy_line_def Let_def)

lemma line_end:
  assumes "cursor_ok d"
  defines "e \<equiv> (if rows_of d \<le> d_y d then (console_scroll d)\<lparr>d_y := rows_of d - 1\<rparr> else d)"
  shows "console_ok e" "inside d e"
proof -
  have r: "1 \<le> rows_of d" using assms(1) by (auto simp: cursor_ok_def rows_cols)
  have s: "inside d (console_scroll d)" using assms(1) by (auto simp: cursor_ok_def intro: scroll_inside)
  have x: "d_x (console_scroll d) = d_x d" 
    using copy_x by (simp add: console_scroll_def Let_def fill_cells_def)
  show "inside d e" using s by (auto simp: e_def intro: inside_upd)
  show "console_ok e"
  proof (cases "rows_of d \<le> d_y d")
    case True
    then have "cursor_ok ((console_scroll d)\<lparr>d_x := d_x d, d_y := rows_of d - 1\<rparr>)"
      using assms(1) r s by (intro cursor_at) (auto simp: cursor_ok_def)
    moreover have "(console_scroll d)\<lparr>d_x := d_x d, d_y := rows_of d - 1\<rparr> = e"
      using True x by (simp add: e_def)
    moreover have "rows_of e = rows_of d"
      using \<open>inside d e\<close> rows_geom inside_geom by blast
    ultimately show ?thesis using True by (auto simp: console_ok_def cursor_ok_def e_def)
  next
    case False
    then show ?thesis using assms(1) by (simp add: e_def console_ok_def cursor_ok_def)
  qed
qed

lemma disp_swap: "d\<lparr>d_y := y, d_x := x\<rparr> = d\<lparr>d_x := x, d_y := y\<rparr>"
  by simp

lemma putc_ok:
  assumes "console_ok d"
  obtains d' where "fb_console_putc c d = Some d'" "console_ok d'" "inside d d'"
proof (cases "d_active d")
  case False
  then show ?thesis using that [of d] assms by (simp add: fb_console_putc_def)
next
  case act: True
  note finish = that
  define fin where "fin d3 = (if rows_of d \<le> d_y d3
      then (console_scroll d3)\<lparr>d_y := rows_of d - 1\<rparr> else d3)" for d3
  have cur: "cursor_ok d" using assms by (simp add: console_ok_def cursor_ok_def)
  have at: "cursor_ok (d\<lparr>d_x := x, d_y := y\<rparr>)"
    if "0 \<le> x" "x \<le> cols_of d" "0 \<le> y" "y \<le> rows_of d" for x y
    using cursor_at [OF cur that inside_refl] .
  have fin: thesis if "fb_console_putc c d = Some (fin e)" "cursor_ok e" "inside d e" for e
  proof -
    have r: "rows_of e = rows_of d" using rows_geom [OF inside_geom [OF that(3)]] by simp
    have "console_ok (fin e)" "inside e (fin e)"
      using line_end [OF that(2)] unfolding fin_def r by blast+
    then show thesis by (intro finish [OF that(1)] inside_trans [OF that(3)])
  qed
  have xy: "0 \<le> d_x d" "d_x d \<le> cols_of d" "0 \<le> d_y d" "d_y d < rows_of d" "1 \<le> cols_of d"
    using assms by (auto simp: console_ok_def rows_cols)
  consider "c = CHR 0x0A" | "c = CHR 0x0D" | "c = CHR 0x08"
    | "c \<noteq> CHR 0x0A" "c \<noteq> CHR 0x0D" "c \<noteq> CHR 0x08" by blast
  then show ?thesis
  proof cases
    case 1
    then show ?thesis
      using at [of 0 "d_y d + 1"] xy act
      by (intro fin [of "d\<lparr>d_x := 0, d_y := d_y d + 1\<rparr>"])
         (auto simp: fb_console_putc_def fin_def Let_def intro!: inside_upd)
  next
    case 2
    then show ?thesis
      using at [of 0 "d_y d"] xy act
      by (intro fin [of "d\<lparr>d_x := 0\<rparr>"])
         (auto simp: fb_console_putc_def fin_def Let_def intro!: inside_upd)
  next
    case 3
    define e where "e = (if d_x d > 0 then d\<lparr>d_x := d_x d - 1\<rparr>
      else d\<lparr>d_y := d_y d - 1, d_x := cols_of d - 1\<rparr>)"
    show ?thesis
    proof (cases "d_x d > 0 \<or> d_y d > 0")
      case True
      then have "cursor_ok e"
        using at [of "d_x d - 1" "d_y d"] at [of "cols_of d - 1" "d_y d - 1"] xy
        by (auto simp: e_def disp_swap)
      then obtain f where f: "draw_cell CHR '' '' e = Some f" "inside e f" "d_x f = d_x e" "d_y f = d_y e"
        by (rule draw_cell_ok)
      have "inside d e" by (auto simp: e_def intro!: inside_upd)
      then have "inside d f" using f(2) inside_trans by blast
      moreover have "cursor_ok f" by (rule cursor_kept [OF \<open>cursor_ok e\<close> f(2-4)])
      moreover have "fb_console_putc c d = Some (fin f)"
        using True f(1) 3 act by (auto simp: fb_console_putc_def fin_def Let_def e_def split: if_splits)
      ultimately show ?thesis by (intro fin)
    next
      case False
      then show ?thesis
        using 3 act cur by (intro fin [of d]) (auto simp: fb_console_putc_def fin_def Let_def)
    qed
  next
    case 4
    define e where "e = (if cols_of d \<le> d_x d then d\<lparr>d_x := 0, d_y := d_y d + 1\<rparr> else d)"
    have e: "cursor_ok e" "d_x e < cols_of d" "0 \<le> d_x e" "inside d e"
      using at [of 0 "d_y d + 1"] cur xy by (auto simp: e_def intro!: inside_upd)
    obtain f where f: "draw_cell (if ord8 c < 32 \<or> 126 < ord8 c then CHR ''?'' else c) e = Some f"
        "inside e f" "d_x f = d_x e" "d_y f = d_y e"
      by (rule draw_cell_ok [OF e(1)])
    have ce: "cols_of e = cols_of d" using rows_geom [OF inside_geom [OF e(4)]] by simp
    have "cursor_ok (f\<lparr>d_x := d_x e + 1, d_y := d_y e\<rparr>)"
      using e ce by (intro cursor_at [OF e(1) _ _ _ _ f(2)]) (auto simp: cursor_ok_def)
    moreover have "f\<lparr>d_x := d_x e + 1, d_y := d_y e\<rparr> = f\<lparr>d_x := d_x f + 1\<rparr>"
      using f(3,4) by simp
    ultimately have "cursor_ok (f\<lparr>d_x := d_x f + 1\<rparr>)" by simp
    moreover have "inside d (f\<lparr>d_x := d_x f + 1\<rparr>)" using e(4) f(2) inside_trans inside_upd(1) by blast
    moreover have "fb_console_putc c d = Some (fin (f\<lparr>d_x := d_x f + 1\<rparr>))"
      using 4 act f(1) by (simp add: fb_console_putc_def fin_def Let_def e_def)
    ultimately show ?thesis by (intro fin)
  qed
qed

lemma write_ok:
  assumes "console_ok d"
  obtains d' where "fb_console_write s d = Some d'" "console_ok d'" "inside d d'"
proof -
  have "\<exists>d'. fb_console_write s d = Some d' \<and> console_ok d' \<and> inside d d'"
    using assms
  proof (induction s arbitrary: d)
    case (Cons c s)
    obtain e where e: "fb_console_putc c d = Some e" "console_ok e" "inside d e"
      by (rule putc_ok [OF Cons.prems])
    obtain f where "fb_console_write s e = Some f" "console_ok f" "inside e f"
      using Cons.IH [OF e(2)] by blast
    then show ?case using e inside_trans [OF e(3)] Cons.prems by auto
  qed simp
  then show thesis using that by blast
qed

lemma rect_cursor: "fb_draw_rect x y w h c d = Some d' \<Longrightarrow> d_x d' = d_x d \<and> d_y d' = d_y d"
  using fb_rect_plots [of x y w h c d d'] by (cases "d_addr d = 0") (simp add: fb_draw_rect_def, simp add: plot_cursor)

lemma char_cursor: "fb_draw_char x y c fg bg d = Some d' \<Longrightarrow> d_x d' = d_x d \<and> d_y d' = d_y d"
  by (auto simp: fb_draw_char_def plot_cursor split: if_splits)

lemma text_cursor: "fb_draw_text x y s fg bg d = Some d' \<Longrightarrow> d_x d' = d_x d \<and> d_y d' = d_y d"
  by (induction x y s fg bg d rule: fb_draw_text.induct)
     (auto split: if_splits option.splits dest: char_cursor)

lemma clear_cursor: "d_x (fb_clear c d) = d_x d \<and> d_y (fb_clear c d) = d_y d"
  using fb_clear_plots plot_cursor by (cases "d_addr d = 0") (auto simp: fb_clear_def)

lemma console_ok_moved:
  assumes "console_ok d" "inside d e" "d_x e = d_x d" "d_y e = d_y d"
  shows "console_ok e"
  using assms inside_ok [OF assms(2)] rows_geom [OF inside_geom [OF assms(2)]]
  by (auto simp: console_ok_def inside_def same_geom_def)

lemma show_event_ok:
  assumes ok: "console_ok d" and s: "show_event ev d = Some d'"
  shows "console_ok d' \<and> inside d d'"
proof -
  have f: "fb_ok d" using ok by (simp add: console_ok_def)
  show ?thesis
  proof (cases ev)
    case (Console t)
    then show ?thesis using write_ok [OF ok, of t] s by (metis option.inject show_event.simps(1))
  next
    case ClearConsole
    have i: "inside d (fb_clear bg_color d)" by (rule fb_clear_inside [OF f])
    then have "console_ok (fb_clear bg_color d)"
      using console_ok_moved [OF ok] clear_cursor by blast
    then show ?thesis
      using ClearConsole s i by (auto simp: fb_console_clear_def console_ok_def fb_ok_def rows_of_def
          cols_of_def intro!: inside_upd)
  next
    case (Draw w)
    show ?thesis
    proof (cases w)
      case (DClear c)
      then show ?thesis
        using Draw s fb_clear_inside [OF f] clear_cursor console_ok_moved [OF ok] by auto
    next
      case (DRect x y w h c)
      then show ?thesis using Draw s rect_inside [OF f] rect_cursor console_ok_moved [OF ok] by auto
    next
      case (DText x y t c c2)
      then show ?thesis using Draw s text_inside [OF f] text_cursor console_ok_moved [OF ok] by auto
    qed
  qed (use ok s in auto)
qed

fun show_events :: "event list \<Rightarrow> disp \<Rightarrow> disp option" where
  "show_events [] d = Some d"
| "show_events (e # es) d = (case show_event e d of None \<Rightarrow> None | Some d' \<Rightarrow> show_events es d')"

section \<open>Properties\<close>

definition small_disp :: disp where
  "small_disp = \<lparr>d_addr = 0x80000000, d_width = 32, d_height = 48, d_pitch = 160, d_x = 0, d_y = 2,
     d_active = True, d_boot = False, d_px = (\<lambda>a. if a < 5120 then 7 else 9)\<rparr>"

lemma small_disp_ok: "console_ok small_disp"
  by (simp add: small_disp_def console_ok_def fb_ok_def rows_of_def cols_of_def c_int_def)

text \<open>What programs draw stays within an \<open>int\<close>: the far corner of a rectangle, the end of a text.\<close>

fun no_overflow :: "event \<Rightarrow> bool" where
  "no_overflow (Draw (DRect x y w h c)) \<longleftrightarrow> int_ok (sint x + sint w) \<and> int_ok (sint y + sint h)"
| "no_overflow (Draw (DText x y t c c2)) \<longleftrightarrow> int_ok (sint x + 8 * int (length t)) \<and> int_ok (sint y + 15)"
| "no_overflow _ \<longleftrightarrow> True"

lemma sint_ok: "- (2 ^ 31) \<le> sint (x :: u32)" "sint (x :: u32) < 2 ^ 31"
  using sint_greater_eq [of x] sint_less [of x] by simp_all

lemma rect_returns:
  assumes "fb_ok d" "int_ok (x + w)" "int_ok (y + h)"
  shows "fb_draw_rect x y w h c d \<noteq> None"
proof -
  have "int_ok (i * 4)" if "0 \<le> i" "i < width d" for i
    using assms(1) that by (auto simp: fb_ok_def int_ok_def)
  then show ?thesis using assms(2,3) by (auto simp: fb_draw_rect_def Let_def)
qed

lemma draw_text_returns:
  assumes "- (2 ^ 31) \<le> x" "int_ok (x + 8 * int (length t))" "- (2 ^ 31) \<le> y" "int_ok (y + 15)"
  shows "fb_draw_text x y t c c2 d \<noteq> None"
  using assms
proof (induction t arbitrary: x d)
  case (Cons a t)
  have "int_ok (x + 7)" "int_ok (x + 8)" using Cons.prems(1,2) by (auto simp: int_ok_def)
  moreover have "fb_draw_text (x + 8) y t c c2 e \<noteq> None" for e
    using Cons.prems by (intro Cons.IH) (auto simp: algebra_simps int_ok_def)
  ultimately show ?case using Cons.prems(4) by (auto simp: fb_draw_char_def split: option.split)
qed simp

lemma show_event_returns:
  assumes ok: "console_ok d" and n: "no_overflow ev"
  shows "show_event ev d \<noteq> None"
proof (cases ev)
  case (Console t)
  then show ?thesis using write_ok [OF ok, of t] by (metis option.distinct(1) show_event.simps(1))
next
  case (Draw w)
  then show ?thesis
    using ok n sint_ok rect_returns draw_text_returns by (cases w) (auto simp: console_ok_def)
qed simp_all

text \<open>C28. Whatever programs draw and print, only the memory of the framebuffer changes and the cursor
  stays on the screen, for as long as no coordinate leaves the range of an \<open>int\<close>; and it never leaves it
  when the far corner of every rectangle and the end of every text are in that range.\<close>

theorem display_writes_inside:
  assumes "console_ok d"
  shows "(\<forall>d'. show_events evs d = Some d' \<longrightarrow> console_ok d' \<and> inside d d') \<and>
    ((\<forall>e\<in>set evs. no_overflow e) \<longrightarrow> show_events evs d \<noteq> None)"
  using assms
proof (induction evs arbitrary: d)
  case (Cons e es)
  show ?case
  proof (cases "show_event e d")
    case None
    then have "\<not> no_overflow e" using show_event_returns [OF Cons.prems] by blast
    then show ?thesis using None by simp
  next
    case (Some d1)
    note E = show_event_ok [OF Cons.prems Some]
    then show ?thesis using Some Cons.IH [of d1] inside_trans [of d d1] by auto
  qed
qed simp

lemma display_writes_inside_witness:
  "console_ok (small_disp\<lparr>d_px := (d_px small_disp)(0 := 5)\<rparr>)
   \<and> inside small_disp (small_disp\<lparr>d_px := (d_px small_disp)(0 := 5)\<rparr>)"
proof -
  have "show_events [Draw (DRect 0xFFFFFFFF 0 2 1 5)] small_disp
    = Some (small_disp\<lparr>d_px := (d_px small_disp)(0 := 5)\<rparr>)"
    by (simp add: fb_draw_rect_def small_disp_def int_ok_def set_px_def px_off_def upto_rec1)
  with display_writes_inside [OF small_disp_ok] show ?thesis by blast
qed

text \<open>The system call passes the numbers of the program on: a rectangle whose last line is behind the
  range of an \<open>int\<close> meets the overflow of \<open>y+h\<close> that C leaves undefined.\<close>

theorem rect_overflows:
  assumes "d_addr d \<noteq> 0" "2 ^ 31 \<le> sint y + sint h"
  shows "show_event (Draw (DRect x y w h c)) d = None"
  using assms by (simp add: fb_draw_rect_def int_ok_def)

lemma rect_overflows_witness: "show_event (Draw (DRect 0 0x7FFFFFFF 1 1 5)) small_disp = None"
  by (rule rect_overflows) (simp_all add: small_disp_def)

text \<open>C30. Printing to the console never meets undefined arithmetic: it returns for
  every text, and the cursor is on the screen again after every character.\<close>

theorem console_write_returns:
  assumes "console_ok d"
  shows "\<exists>d'. fb_console_write s d = Some d' \<and> console_ok d' \<and> inside d d'"
  by (rule write_ok [OF assms, of s]) blast

lemma console_write_returns_witness:
  "\<exists>d'. fb_console_write ''hi'' small_disp = Some d' \<and> console_ok d' \<and> inside small_disp d'"
  by (rule console_write_returns [OF small_disp_ok])

text \<open>Scrolling moves every line of text up by one.  In the last one exactly the
  pixels within the first 64 times the width bytes are cleared: the fill ignores
  the padding of the lines, so on a display whose lines are padded the end of the
  last line of text keeps what it showed.\<close>

theorem scroll_pixels:
  assumes "fb_ok d" "16 \<le> height d" "on_screen d x y" "y < 16 * rows_of d"
  shows "pix (console_scroll d) x y =
    (if y < 16 * (rows_of d - 1) then pix d x (y + 16)
     else if (y - 16 * (rows_of d - 1)) * pitch d + 4 * x < 64 * width d then bg_color
     else pix d x y)"
proof -
  define b where "b = (rows_of d - 1) * 16 * pitch d"
  have p: "0 < pitch d" "0 \<le> x * 4" "x * 4 < pitch d" using assms by (auto simp: on_screen_def fb_ok_def)
  have g: "px_off (console_scroll d) x y = y * pitch d + x * 4"
    using scroll_px(2) [OF assms(1,2)] by (simp add: px_off_def same_geom_def)
  note px = scroll_px(1) [OF assms(1,2), of "y * pitch d + x * 4", folded b_def, unfolded Let_def]
  have nn: "0 \<le> y * pitch d + x * 4" using assms p by (simp add: on_screen_def)
  show ?thesis
  proof (cases "y < 16 * (rows_of d - 1)")
    case True
    then have "y * pitch d + pitch d \<le> b"
      using line_bound [of y "16 * (rows_of d - 1)" "pitch d"] assms(3)
      by (simp add: b_def on_screen_def mult.commute)
    then have "y * pitch d + x * 4 < b" using p by linarith
    then show ?thesis
      using True px nn unfolding pix_def g by (simp add: px_off_def algebra_simps)
  next
    case False
    define q where "q = y - 16 * (rows_of d - 1)"
    have q: "0 \<le> q" "y * pitch d = b + q * pitch d" using False by (simp_all add: q_def b_def algebra_simps)
    have "pitch d mod 4 = 0" using assms(1) by (simp add: fb_ok_def)
    then have m: "(q * pitch d + x * 4) mod 4 = 0" by (metis mod_0 mod_add_eq mod_mult_eq mod_mult_self2_is_0 mult_zero_right add_0)
    have b: "b \<le> y * pitch d + x * 4" using q p by simp
    have "d_px (console_scroll d) (y * pitch d + x * 4) =
        (if q * pitch d + 4 * x < 64 * width d then bg_color else d_px d (y * pitch d + x * 4))"
      using px b q(2) m by (simp add: mult.commute)
    then show ?thesis using False unfolding pix_def g q_def [symmetric] by (simp add: px_off_def)
  qed
qed

lemma scroll_pixels_witness:
  "pix (console_scroll small_disp) 0 47 =
    (if 47 < 16 * (rows_of small_disp - 1) then pix small_disp 0 (47 + 16)
     else if (47 - 16 * (rows_of small_disp - 1)) * pitch small_disp + 4 * 0 < 64 * width small_disp
     then bg_color else pix small_disp 0 47)"
  using small_disp_ok
  by (intro scroll_pixels)
     (auto simp: console_ok_def on_screen_def small_disp_def rows_of_def c_int_def)

text \<open>A rectangle colours the pixels of the screen that lie in it, and no other.\<close>

theorem rect_colours:
  assumes "fb_ok d" "d_addr d \<noteq> 0" "on_screen d px py" "fb_draw_rect x y w h c d = Some d'"
  shows "pix d' px py = (if x \<le> px \<and> px < x + w \<and> y \<le> py \<and> py < y + h then c else pix d px py)"
  by (rule rect_pixels [OF assms(1,3,4,2)])

lemma rect_colours_witness:
  "pix (small_disp\<lparr>d_px := (d_px small_disp)(0 := 5)\<rparr>) 0 0 =
    (if (-1) \<le> (0 :: int) \<and> (0 :: int) < (-1) + 2 \<and> (0 :: int) \<le> 0 \<and> (0 :: int) < 0 + 1
     then 5 else pix small_disp 0 0)"
proof (rule rect_colours)
  show "fb_draw_rect (-1) 0 2 1 5 small_disp = Some (small_disp\<lparr>d_px := (d_px small_disp)(0 := 5)\<rparr>)"
    by (simp add: fb_draw_rect_def small_disp_def int_ok_def set_px_def px_off_def upto_rec1)
qed (use small_disp_ok in \<open>auto simp: console_ok_def small_disp_def on_screen_def\<close>)

end
