(* ===== verification/Devices.thy ===== *)
theory Devices
  imports Prelude
begin

text \<open>
  The descriptor tables (src/kernel/gdt.c, src/kernel/idt.c), the interrupt
  controller and the timer (idt.c, src/kernel/pit.c) and the search of the PCI
  bus for the USB controller (src/kernel/pci.c).

  A sequence of port writes is the list of the ports and bytes.  The PCI
  configuration space is a function from the address written to port 0xCF8 to
  the word read from port 0xCFC; the addresses of the interrupt stubs, of the
  TSS and of the tables, which the linker chooses, are arguments.
\<close>

unbundle bit_operations_syntax

section \<open>The global descriptor table\<close>

record gdt_entry =
  limit_low :: u16
  base_low :: u16
  base_mid :: u8
  access :: u8
  flags :: u8
  base_high :: u8

definition set_gdt_entry :: "u32 \<Rightarrow> u32 \<Rightarrow> u8 \<Rightarrow> u8 \<Rightarrow> gdt_entry" where
  "set_gdt_entry base limit acc fl =
    \<lparr>limit_low = ucast (limit AND 0xFFFF),
     base_low = ucast (base AND 0xFFFF),
     base_mid = ucast (drop_bit 16 base AND 0xFF),
     access = acc,
     flags = ucast ((drop_bit 16 limit AND 0x0F) OR (ucast fl AND 0xF0)),
     base_high = ucast (drop_bit 24 base AND 0xFF)\<rparr>"

text \<open>The packed TSS has 4 + 3 * 8 + 8 + 7 * 8 + 8 + 2 + 2 bytes.\<close>

definition TSS_SIZE :: nat where "TSS_SIZE = 104"

record tss =
  rsp0 :: u64
  iomap_base :: u16

definition tss_init :: tss where
  "tss_init = \<lparr>rsp0 = 0, iomap_base = of_nat TSS_SIZE\<rparr>"

definition tss_low :: "u64 \<Rightarrow> gdt_entry" where
  "tss_low tss_base =
    (let limit = of_nat (TSS_SIZE - 1) :: u32 in
     \<lparr>limit_low = ucast (limit AND 0xFFFF),
      base_low = ucast (tss_base AND 0xFFFF),
      base_mid = ucast (drop_bit 16 tss_base AND 0xFF),
      access = 0x89,
      flags = ucast ((drop_bit 16 limit AND 0x0F) AND 0x0F),
      base_high = ucast (drop_bit 24 tss_base AND 0xFF)\<rparr>)"

definition tss_high :: "u64 \<Rightarrow> gdt_entry" where
  "tss_high tss_base =
    (let base_hi = ucast (drop_bit 32 tss_base) :: u32 in
     \<lparr>limit_low = ucast base_hi, base_low = ucast (drop_bit 16 base_hi),
      base_mid = ucast (drop_bit 24 base_hi), access = 0, flags = 0, base_high = 0\<rparr>)"

definition gdt_init :: "u64 \<Rightarrow> gdt_entry list \<times> tss" where
  "gdt_init tss_base =
    ([set_gdt_entry 0 0 0 0,
      set_gdt_entry 0 0xFFFFF 0x9A 0xA0,
      set_gdt_entry 0 0xFFFFF 0x92 0xA0,
      set_gdt_entry 0 0xFFFFF 0xFA 0xA0,
      set_gdt_entry 0 0xFFFFF 0xF2 0xA0,
      tss_low tss_base, tss_high tss_base], tss_init)"

definition gdt_set_kernel_stack :: "u64 \<Rightarrow> tss \<Rightarrow> tss" where
  "gdt_set_kernel_stack rsp t = t\<lparr>rsp0 := rsp\<rparr>"

section \<open>The interrupt descriptor table\<close>

record idt_entry =
  offset_low :: u16
  selector :: u16
  ist :: u8
  type_attr :: u8
  offset_mid :: u16
  offset_high :: u32
  zero :: u32

definition idt_clear :: idt_entry where
  "idt_clear = \<lparr>offset_low = 0, selector = 0, ist = 0, type_attr = 0, offset_mid = 0,
     offset_high = 0, zero = 0\<rparr>"

definition set_idt_gate :: "nat \<Rightarrow> u64 \<Rightarrow> u8 \<Rightarrow> idt_entry list \<Rightarrow> idt_entry list" where
  "set_idt_gate n base attr t =
    t[n := \<lparr>offset_low = ucast (base AND 0xFFFF), selector = 0x08, ist = 0, type_attr = attr,
        offset_mid = ucast (drop_bit 16 base AND 0xFFFF),
        offset_high = ucast (drop_bit 32 base AND 0xFFFFFFFF), zero = 0\<rparr>]"

text \<open>\<open>isr\<close> are the 48 stubs, \<open>gate\<close> is \<open>syscall_gate\<close>.\<close>

definition idt_init :: "(nat \<Rightarrow> u64) \<Rightarrow> u64 \<Rightarrow> idt_entry list" where
  "idt_init isr gate =
    set_idt_gate 0x80 gate 0xEE
      (fold (\<lambda>i. set_idt_gate i (isr i) 0x8E) [0..<48] (replicate 256 idt_clear))"

definition pic_remap :: "(u16 \<times> u8) list" where
  "pic_remap =
    [(0x20, 0x11), (0xA0, 0x11), (0x21, 0x20), (0xA1, 0x28), (0x21, 0x04), (0xA1, 0x02),
     (0x21, 0x01), (0xA1, 0x01), (0x21, 0xFE), (0xA1, 0xFF)]"

definition pic_eoi :: "u8 \<Rightarrow> (u16 \<times> u8) list" where
  "pic_eoi irq = (if irq \<ge> 8 then [(0xA0, 0x20)] else []) @ [(0x20, 0x20)]"

section \<open>The timer\<close>

definition pit_init :: "u32 \<Rightarrow> (u16 \<times> u8) list" where
  "pit_init hz =
    (let hz = (if hz = 0 then 100 else hz);
         divisor = ucast ((1193182 :: u64) div ucast hz) :: u32
     in [(0x43, 0x36), (0x40, ucast (divisor AND 0xFF)), (0x40, ucast (drop_bit 8 divisor AND 0xFF))])"

text \<open>The two bytes read from port 0x40 after the latch command.\<close>

definition pit_latch_read :: "u8 \<Rightarrow> u8 \<Rightarrow> u16" where
  "pit_latch_read lo hi = ucast lo OR push_bit 8 (ucast hi)"

definition pit_us_since :: "u16 \<Rightarrow> u16 \<Rightarrow> u32" where
  "pit_us_since latch_prev now =
    (let elapsed = latch_prev - now in ucast ((ucast elapsed * 1000000 :: u64) div 1193182))"

section \<open>The PCI bus\<close>

record pci_dev =
  pd_vendor :: u16
  pd_device :: u16
  pd_class :: u8
  pd_subclass :: u8
  pd_prog :: u8
  pd_bar0 :: u64

definition pci_read_dword :: "(u32 \<Rightarrow> u32) \<Rightarrow> u8 \<Rightarrow> u8 \<Rightarrow> u8 \<Rightarrow> u8 \<Rightarrow> u32" where
  "pci_read_dword cfg bus dev fn reg =
    cfg (0x80000000 OR push_bit 16 (ucast bus) OR push_bit 11 (ucast dev)
         OR push_bit 8 (ucast fn) OR (ucast reg AND 0xFC))"

definition pci_is_xhci :: "u32 \<Rightarrow> bool" where
  "pci_is_xhci cc \<longleftrightarrow> drop_bit 24 cc AND 0xFF = 0x0C \<and> drop_bit 16 cc AND 0xFF = 0x03
     \<and> drop_bit 8 cc AND 0xFF = 0x30"

definition pci_describe :: "(u32 \<Rightarrow> u32) \<Rightarrow> u8 \<Rightarrow> u8 \<Rightarrow> pci_dev" where
  "pci_describe cfg dev fn =
    (let vid = pci_read_dword cfg 0 dev fn 0; cc = pci_read_dword cfg 0 dev fn 0x08;
         bar0 = pci_read_dword cfg 0 dev fn 0x10;
         low = ucast bar0 AND 0xFFFFFFF0 :: u64;
         base = (if bar0 AND 4 \<noteq> 0
                 then low OR push_bit 32 (ucast (pci_read_dword cfg 0 dev fn 0x14)) else low)
     in \<lparr>pd_vendor = ucast (vid AND 0xFFFF), pd_device = ucast (drop_bit 16 vid AND 0xFFFF),
         pd_class = ucast (drop_bit 24 cc AND 0xFF), pd_subclass = ucast (drop_bit 16 cc AND 0xFF),
         pd_prog = ucast (drop_bit 8 cc AND 0xFF), pd_bar0 = base\<rparr>)"

text \<open>The functions of one device: \<^const>\<open>None\<close> ends the inner loop.\<close>

fun pci_functions :: "(u32 \<Rightarrow> u32) \<Rightarrow> nat \<Rightarrow> nat list \<Rightarrow> pci_dev option" where
  "pci_functions cfg dev [] = None"
| "pci_functions cfg dev (fn # fns) =
    (let d = of_nat dev; f = of_nat fn; vid = pci_read_dword cfg 0 d f 0 in
     if vid AND 0xFFFF = 0xFFFF then None
     else if vid AND 0xFFFF = 0 then None
     else if pci_is_xhci (pci_read_dword cfg 0 d f 0x08) then Some (pci_describe cfg d f)
     else if fn = 0 \<and> pci_read_dword cfg 0 d f 0x0C AND 0x80000000 = 0 then None
     else pci_functions cfg dev fns)"

fun pci_devices :: "(u32 \<Rightarrow> u32) \<Rightarrow> nat list \<Rightarrow> pci_dev option" where
  "pci_devices cfg [] = None"
| "pci_devices cfg (dev # devs) =
    (case pci_functions cfg dev [0..<8] of Some p \<Rightarrow> Some p | None \<Rightarrow> pci_devices cfg devs)"

definition pci_find_xhci :: "(u32 \<Rightarrow> u32) \<Rightarrow> pci_dev option" where
  "pci_find_xhci cfg = pci_devices cfg [0..<32]"

definition usb_xhci_bar :: "(u32 \<Rightarrow> u32) \<Rightarrow> u64" where
  "usb_xhci_bar cfg = (case pci_find_xhci cfg of Some d \<Rightarrow> pd_bar0 d | None \<Rightarrow> 0)"

section \<open>Reading the tables back\<close>

definition gate_target :: "idt_entry \<Rightarrow> u64" where
  "gate_target g = ucast (offset_low g) OR push_bit 16 (ucast (offset_mid g))
     OR push_bit 32 (ucast (offset_high g))"

definition gate_user :: "idt_entry \<Rightarrow> bool" where
  "gate_user g \<longleftrightarrow> type_attr g AND 0x80 \<noteq> 0 \<and> type_attr g AND 0x60 = 0x60"

definition seg_base :: "gdt_entry \<Rightarrow> u32" where
  "seg_base e = ucast (base_low e) OR push_bit 16 (ucast (base_mid e)) OR push_bit 24 (ucast (base_high e))"

definition seg_limit :: "gdt_entry \<Rightarrow> u32" where
  "seg_limit e = ucast (limit_low e) OR push_bit 16 (ucast (flags e AND 0x0F))"

definition tss_base_of :: "gdt_entry \<Rightarrow> gdt_entry \<Rightarrow> u64" where
  "tss_base_of lo hi = ucast (seg_base lo)
     OR push_bit 32 (ucast (limit_low hi) OR push_bit 16 (ucast (base_low hi)))"

lemma low_bits: "(0xFFFF :: 'a::len word) = mask 16" "(0xFF :: 'a word) = mask 8"
  "(0x0F :: 'a word) = mask 4" "(0xFFFFFFFF :: 'a word) = mask 32"
  by (simp_all add: mask_eq_exp_minus_1)

lemmas word_parts = bit_or_iff bit_and_iff bit_push_bit_iff bit_drop_bit_eq bit_ucast_iff bit_mask_iff

lemma split64:
  "ucast (ucast (b AND 0xFFFF) :: u16) OR push_bit 16 (ucast (ucast (drop_bit 16 b AND 0xFFFF) :: u16))
     OR push_bit 32 (ucast (ucast (drop_bit 32 b AND 0xFFFFFFFF) :: u32)) = (b :: u64)"
  unfolding low_bits
proof (rule bit_word_eqI)
  fix n assume "n < LENGTH(64)"
  then consider "n < 16" | "16 \<le> n" "n < 32" | "32 \<le> n" "n < 64" by fastforce
  then show "bit (ucast (ucast (b AND mask 16) :: u16)
      OR push_bit 16 (ucast (ucast (drop_bit 16 b AND mask 16) :: u16))
      OR push_bit 32 (ucast (ucast (drop_bit 32 b AND mask 32) :: u32)) :: u64) n = bit b n"
    by cases (auto simp: word_parts)
qed

lemma gate_target_set:
  "n < length t \<Longrightarrow> gate_target (set_idt_gate n base attr t ! n) = base"
  by (simp add: set_idt_gate_def gate_target_def split64)

lemma set_gate_other: "m \<noteq> n \<Longrightarrow> set_idt_gate n base attr t ! m = t ! m"
  by (simp add: set_idt_gate_def)

lemma set_gate_here:
  "n < length t \<Longrightarrow> n < length t' \<Longrightarrow> set_idt_gate n b a t ! n = set_idt_gate n b a t' ! n"
  by (simp add: set_idt_gate_def)

lemma length_set_gate [simp]: "length (set_idt_gate n base attr t) = length t"
  by (simp add: set_idt_gate_def)

lemma gates_filled:
  assumes "k \<le> length t" "n < length t"
  shows "length (fold (\<lambda>i. set_idt_gate i (isr i) a) [0..<k] t) = length t \<and>
    fold (\<lambda>i. set_idt_gate i (isr i) a) [0..<k] t ! n =
      (if n < k then set_idt_gate n (isr n) a t ! n else t ! n)"
  using assms(1)
proof (induction k)
  case (Suc k)
  let ?f = "fold (\<lambda>i. set_idt_gate i (isr i) a) [0..<k] t"
  have IH: "length ?f = length t" "?f ! n = (if n < k then set_idt_gate n (isr n) a t ! n else t ! n)"
    using Suc by simp_all
  show ?case
  proof (cases "n = k")
    case True
    then show ?thesis using IH(1) assms(2) by (auto intro: set_gate_here)
  next
    case False
    then show ?thesis using IH by (auto simp: set_gate_other)
  qed
qed simp

lemma split32:
  "ucast (ucast (b AND 0xFFFF) :: u16) OR push_bit 16 (ucast (ucast (drop_bit 16 b AND 0xFF) :: u8))
     OR push_bit 24 (ucast (ucast (drop_bit 24 b AND 0xFF) :: u8)) = (ucast (b :: 'a::len word) :: u32)"
  if "32 \<le> LENGTH('a)"
  unfolding low_bits
proof (rule bit_word_eqI)
  fix n assume "n < LENGTH(32)"
  then consider "n < 16" | "16 \<le> n" "n < 24" | "24 \<le> n" "n < 32" by fastforce
  then show "bit (ucast (ucast (b AND mask 16) :: u16)
      OR push_bit 16 (ucast (ucast (drop_bit 16 b AND mask 8) :: u8))
      OR push_bit 24 (ucast (ucast (drop_bit 24 b AND mask 8) :: u8)) :: u32) n = bit (ucast b :: u32) n"
    using that by cases (auto simp: word_parts)
qed

section \<open>Properties\<close>

text \<open>C31. After \<open>idt_init\<close> vector n below 48 leads to its stub and vector 0x80 to the
  system call gate, and 0x80 is the only vector a program of ring 3 can raise itself.\<close>

theorem user_gate_only_syscall:
  assumes "n < 256"
  shows "let g = idt_init isr gate ! n in
    (n < 48 \<longrightarrow> gate_target g = isr n) \<and> (n = 0x80 \<longrightarrow> gate_target g = gate)
    \<and> (gate_user g \<longleftrightarrow> n = 0x80) \<and> (n \<noteq> 0x80 \<and> 48 \<le> n \<longrightarrow> g = idt_clear)"
proof -
  let ?t = "replicate 256 idt_clear"
  let ?f = "fold (\<lambda>i. set_idt_gate i (isr i) 0x8E) [0..<48] ?t"
  have f: "length ?f = 256" "?f ! n = (if n < 48 then set_idt_gate n (isr n) 0x8E ?t ! n else ?t ! n)"
    using gates_filled [of 48 ?t n isr "0x8E"] assms by simp_all
  show ?thesis
  proof (cases "n = 0x80")
    case True
    then show ?thesis
      using gate_target_set [of "0x80" ?f gate "0xEE"] f(1)
      by (simp add: idt_init_def Let_def gate_user_def) (simp add: set_idt_gate_def)
  next
    case False
    then have e: "idt_init isr gate ! n = ?f ! n" by (simp add: idt_init_def set_gate_other)
    show ?thesis
    proof (cases "n < 48")
      case True
      have "\<not> gate_user (set_idt_gate n (isr n) 0x8E ?t ! n)"
        using assms by (simp add: set_idt_gate_def gate_user_def)
      then show ?thesis
        using False True gate_target_set [of n ?t "isr n" "0x8E"] assms by (simp add: e f(2) Let_def)
    next
      case nf: False
      have "\<not> gate_user idt_clear" by (simp add: gate_user_def idt_clear_def)
      then show ?thesis using False nf assms by (simp add: e f(2) Let_def)
    qed
  qed
qed

lemma user_gate_only_syscall_witness:
  "let g = idt_init (\<lambda>i. of_nat i) 7 ! 3 in
    ((3::nat) < 48 \<longrightarrow> gate_target g = of_nat 3) \<and> ((3::nat) = 0x80 \<longrightarrow> gate_target g = 7)
    \<and> (gate_user g \<longleftrightarrow> (3::nat) = 0x80) \<and> ((3::nat) \<noteq> 0x80 \<and> 48 \<le> (3::nat) \<longrightarrow> g = idt_clear)"
  by (rule user_gate_only_syscall) simp

text \<open>The processor finds the TSS where it is, and only the two user segments are
  open to ring 3.\<close>

theorem gdt_segments:
  "case gdt_init base of (g, t) \<Rightarrow>
     tss_base_of (g ! 5) (g ! 6) = base \<and> seg_limit (g ! 5) = of_nat (TSS_SIZE - 1)
     \<and> map (\<lambda>e. access e AND 0x60 = 0x60) g = [False, False, False, True, True, False, False]"
proof -
  have low: "seg_base (tss_low base) = ucast base"
    unfolding seg_base_def tss_low_def Let_def gdt_entry.simps by (rule split32) simp
  have high: "ucast (limit_low (tss_high base)) OR push_bit 16 (ucast (base_low (tss_high base)))
      = (ucast (ucast (drop_bit 32 base) :: u32) :: u64)"
    unfolding tss_high_def Let_def gdt_entry.simps
    by (rule bit_word_eqI) (auto simp: word_parts)
  have "tss_base_of (tss_low base) (tss_high base) = base"
    unfolding tss_base_of_def low high
    by (rule bit_word_eqI) (auto simp: word_parts)
  moreover have "seg_limit (tss_low base) = of_nat (TSS_SIZE - 1)"
    by (simp add: seg_limit_def tss_low_def TSS_SIZE_def)
  moreover have "access (tss_low base) = 0x89" "access (tss_high base) = 0"
    by (simp_all add: tss_low_def tss_high_def Let_def)
  ultimately show ?thesis by (simp add: gdt_init_def set_gdt_entry_def)
qed

lemma unat_ucast_small: "unat (w :: 'a::len word) < 2 ^ LENGTH('b::len) \<Longrightarrow> unat (ucast w :: 'b word) = unat w"
  by (simp add: unsigned_ucast_eq take_bit_nat_eq_self)

text \<open>Two readings of the counter give the microseconds between them, rounded
  down, also when it wrapped in between.\<close>

theorem pit_elapsed:
  "unat (pit_us_since prev (prev - e)) = unat e * 1000000 div 1193182"
proof -
  have e: "unat e < 2 ^ 16" using unsigned_less [of e] by simp
  have c: "unat (ucast e :: u64) = unat e" using e by (intro unat_ucast_small) simp
  have m: "unat (ucast e * 1000000 :: u64) = unat e * 1000000"
    using e c by (simp add: unat_word_ariths)
  have d: "unat (ucast e * 1000000 div 1193182 :: u64) = unat e * 1000000 div 1193182"
    using m by (simp add: unat_div)
  have "unat e * 1000000 div 1193182 < 2 ^ 32"
    using e by (simp add: div_less_iff_less_mult)
  then have "unat (ucast (ucast e * 1000000 div 1193182 :: u64) :: u32) = unat e * 1000000 div 1193182"
    using d by (subst unat_ucast_small) simp_all
  then show ?thesis by (simp add: pit_us_since_def)
qed

definition on_bus :: "(u32 \<Rightarrow> u32) \<Rightarrow> nat \<Rightarrow> nat \<Rightarrow> bool" where
  "on_bus cfg dev fn \<longleftrightarrow>
     pci_read_dword cfg 0 (of_nat dev) (of_nat fn) 0 AND 0xFFFF \<notin> {0, 0xFFFF}"

definition is_xhci :: "(u32 \<Rightarrow> u32) \<Rightarrow> nat \<Rightarrow> nat \<Rightarrow> bool" where
  "is_xhci cfg dev fn \<longleftrightarrow> pci_is_xhci (pci_read_dword cfg 0 (of_nat dev) (of_nat fn) 0x08)"

definition scans_on :: "(u32 \<Rightarrow> u32) \<Rightarrow> nat \<Rightarrow> bool" where
  "scans_on cfg dev \<longleftrightarrow> pci_read_dword cfg 0 (of_nat dev) 0 0x0C AND 0x80000000 \<noteq> 0"

lemma functions_found:
  assumes "f < m" "m \<le> 8" "n \<le> f" "\<forall>i\<in>{n..f}. on_bus cfg dev i" "is_xhci cfg dev f"
    "\<forall>i\<in>{n..<f}. \<not> is_xhci cfg dev i" "n = 0 \<longrightarrow> 0 < f \<longrightarrow> scans_on cfg dev"
  shows "pci_functions cfg dev [n..<m] = Some (pci_describe cfg (of_nat dev) (of_nat f))"
  using assms(3,4,6,7)
proof (induction "f - n" arbitrary: n)
  case 0
  then have "n = f" by simp
  then show ?case
    using assms 0 by (simp add: upt_conv_Cons Let_def on_bus_def is_xhci_def)
next
  case (Suc k)
  then have "n < f" by simp
  then have "pci_functions cfg dev [Suc n..<m] = Some (pci_describe cfg (of_nat dev) (of_nat f))"
    using Suc by (intro Suc.hyps) auto
  then show ?case
    using Suc.prems \<open>n < f\<close> assms(1)
    by (auto simp: upt_conv_Cons Let_def on_bus_def is_xhci_def scans_on_def)
qed

lemma functions_result:
  "pci_functions cfg dev fns = Some p \<Longrightarrow>
   \<exists>f\<in>set fns. on_bus cfg dev f \<and> is_xhci cfg dev f \<and> p = pci_describe cfg (of_nat dev) (of_nat f)"
  by (induction fns) (auto simp: Let_def on_bus_def is_xhci_def split: if_splits)

lemma functions_stop:
  assumes "\<not> scans_on cfg dev" "\<not> is_xhci cfg dev 0"
  shows "pci_functions cfg dev [0..<8] = None"
  using assms by (simp add: upt_conv_Cons Let_def scans_on_def is_xhci_def)

lemma devices_result:
  "pci_devices cfg devs = Some p \<Longrightarrow> \<exists>d\<in>set devs. pci_functions cfg d [0..<8] = Some p"
  by (induction devs) (auto split: option.splits)

lemma devices_none:
  "\<forall>d\<in>set devs. pci_functions cfg d [0..<8] = None \<Longrightarrow> pci_devices cfg devs = None"
  by (induction devs) auto

text \<open>What the search returns is a USB 3 controller present on the bus; but a
  device whose function 0 does not have bit 31 of the word at 0x0C set is left
  after function 0, whatever its header type says (bit 23 is the one that
  announces further functions), so a controller at function 1 is not found.\<close>

theorem pci_search:
  "(pci_find_xhci cfg = Some p \<longrightarrow>
     (\<exists>dev<32. \<exists>fn<8. on_bus cfg dev fn \<and> is_xhci cfg dev fn \<and> (0 < fn \<longrightarrow> scans_on cfg dev)
        \<and> p = pci_describe cfg (of_nat dev) (of_nat fn)))
   \<and> ((\<forall>dev<32. \<not> scans_on cfg dev \<and> \<not> is_xhci cfg dev 0) \<longrightarrow> pci_find_xhci cfg = None)"
proof (intro conjI impI)
  assume "pci_find_xhci cfg = Some p"
  then obtain dev where d: "dev < 32" "pci_functions cfg dev [0..<8] = Some p"
    unfolding pci_find_xhci_def by (auto dest!: devices_result)
  show "\<exists>dev<32. \<exists>fn<8. on_bus cfg dev fn \<and> is_xhci cfg dev fn \<and> (0 < fn \<longrightarrow> scans_on cfg dev)
      \<and> p = pci_describe cfg (of_nat dev) (of_nat fn)"
  proof (cases "is_xhci cfg dev 0")
    case True
    then have "on_bus cfg dev 0 \<and> p = pci_describe cfg (of_nat dev) (of_nat 0)"
      using d(2) by (simp add: upt_conv_Cons Let_def is_xhci_def on_bus_def split: if_splits)
    then show ?thesis using d(1) True by (intro exI [of _ dev] conjI exI [of _ 0]) auto
  next
    case False
    then have "scans_on cfg dev" using d(2) functions_stop by force
    moreover obtain fn where "fn < 8" "on_bus cfg dev fn" "is_xhci cfg dev fn"
        "p = pci_describe cfg (of_nat dev) (of_nat fn)"
      using functions_result [OF d(2)] by auto
    ultimately show ?thesis using d(1) by blast
  qed
next
  assume "\<forall>dev<32. \<not> scans_on cfg dev \<and> \<not> is_xhci cfg dev 0"
  then show "pci_find_xhci cfg = None"
    unfolding pci_find_xhci_def by (intro devices_none) (auto simp: functions_stop)
qed

text \<open>A configuration space with one device, of two functions, the second a USB 3
  controller; the header type of the first has the multi-function bit.\<close>

definition two_functions :: "u32 \<Rightarrow> u32" where
  "two_functions a =
    (if a = 0x80000000 then 0x12348086 else if a = 0x80000100 then 0x56788086
     else if a = 0x80000008 then 0x06010000 else if a = 0x80000108 then 0x0C033000
     else if a = 0x8000000C then 0x00800000 else if a = 0x80000110 then 0xFEBF0000
     else if a AND 0xFF = 0 then 0xFFFFFFFF else 0)"

lemma two_functions_head:
  "\<forall>dev\<in>set [0..<32]. \<not> scans_on two_functions dev \<and> \<not> is_xhci two_functions dev 0"
  by code_simp

lemma pci_search_witness:
  "on_bus two_functions 0 1 \<and> is_xhci two_functions 0 1 \<and> pci_find_xhci two_functions = None"
proof (intro conjI)
  show "on_bus two_functions 0 1" "is_xhci two_functions 0 1" by code_simp+
  show "pci_find_xhci two_functions = None"
    using pci_search [of two_functions] two_functions_head by simp
qed

end
