(* ===== verification/Keyboard.thy ===== *)
theory Keyboard
  imports CStrings
begin

text \<open>
  The keyboard of the kernel: src/kernel/keyboard.c (PS/2 scan codes, dead keys,
  the line editor of the login dialogue) and src/kernel/hid.c (reports of a USB
  keyboard).

  The static variables of both files are the record \<open>kbd\<close>.  What the two
  devices will deliver is the record \<open>keys\<close>: one entry per look at port
  0x64, \<^const>\<open>None\<close> when no byte is waiting, and one entry per call of
  \<open>usb_kbd_read_report\<close>, its result and the 8 bytes of \<open>report\<close> afterwards.
  A device with no entry left stays silent.  The diagnostic lines
  \<open>keyboard_getc_nonblock\<close> prints are left out.
\<close>

unbundle bit_operations_syntax

record kbd =
  kb_shift :: bool
  kb_caps :: bool
  kb_ctrl :: bool
  kb_dead :: char
  kb_queued :: char
  kb_usb :: bool
  kb_prev :: "u8 list"

record keys =
  ks_ps2 :: "u8 option list"
  ks_usb :: "(int \<times> u8 list) list"

abbreviation BS :: char where "BS \<equiv> CHR 0x08"
abbreviation CR :: char where "CR \<equiv> CHR 0x0D"

section \<open>Scan codes\<close>

definition sc1 :: string where
  "sc1 = [NUL, NUL] @ ''1234567890-='' @ [BS, NUL]
     @ ''qwertyuiop[]'' @ [CR, NUL]
     @ ''asdfghjkl;'' @ [CHR 0x27, CHR 0x60, NUL]
     @ [CHR 0x5C] @ ''zxcvbnm,./'' @ [NUL, CHR ''*'', NUL, CHR '' '', NUL]
     @ replicate 69 NUL"

definition sc1_shift :: string where
  "sc1_shift = [NUL, NUL] @ ''!@#$%^&*()_+'' @ [BS, NUL]
     @ ''QWERTYUIOP{}'' @ [CR, NUL]
     @ ''ASDFGHJKL:'' @ [CHR 0x22, CHR ''~'', NUL]
     @ ''|ZXCVBNM<>?'' @ [NUL, CHR ''*'', NUL, CHR '' '', NUL]
     @ replicate 69 NUL"

definition is_dead :: "char \<Rightarrow> bool" where
  "is_dead c \<longleftrightarrow> c = CHR 0x27 \<or> c = CHR 0x22 \<or> c = CHR 0x60 \<or> c = CHR ''~'' \<or> c = CHR ''^''"

definition lower :: "char \<Rightarrow> bool" where "lower c \<longleftrightarrow> 97 \<le> ord8 c \<and> ord8 c \<le> 122"
definition upper :: "char \<Rightarrow> bool" where "upper c \<longleftrightarrow> 65 \<le> ord8 c \<and> ord8 c \<le> 90"

definition swap_case :: "char \<Rightarrow> char" where
  "swap_case c = (if lower c then char_of (of_char c - 97 + 65 :: nat)
     else char_of (of_char c - 65 + 97 :: nat))"

fun kbd_poll :: "u8 option list \<Rightarrow> u8 option \<times> u8 option list" where
  "kbd_poll [] = (None, [])"
| "kbd_poll (s # ss) = (s, ss)"

fun e0_wait :: "nat \<Rightarrow> u8 option list \<Rightarrow> u8 option list" where
  "e0_wait 0 ps = ps"
| "e0_wait (Suc i) ps = (case kbd_poll ps of (Some _, ps') \<Rightarrow> ps' | (None, ps') \<Rightarrow> e0_wait i ps')"

definition scan_char :: "u8 \<Rightarrow> kbd \<Rightarrow> char" where
  "scan_char scan k =
    (if scan = 0x56 \<or> scan = 0x73 then (if kb_shift k then CHR ''?'' else CHR ''/'')
     else let c = (if kb_shift k then sc1_shift else sc1) ! unat scan in
       if kb_caps k \<and> (lower c \<or> upper c) then swap_case c else c)"

definition ps2_process :: "u8 \<Rightarrow> kbd \<Rightarrow> u8 option list \<Rightarrow> char \<times> kbd \<times> u8 option list" where
  "ps2_process scan k ps =
    (if scan = 0xE0 then (NUL, k, e0_wait 1000 ps)
     else if scan AND 0x80 \<noteq> 0 then
       (let up = scan AND 0x7F;
            k1 = (if up = 0x2A \<or> up = 0x36 then k\<lparr>kb_shift := False\<rparr> else k);
            k2 = (if up = 0x1D then k1\<lparr>kb_ctrl := False\<rparr> else k1)
        in (NUL, k2, ps))
     else if scan = 0x2A \<or> scan = 0x36 then (NUL, k\<lparr>kb_shift := True\<rparr>, ps)
     else if scan = 0x1D then (NUL, k\<lparr>kb_ctrl := True\<rparr>, ps)
     else if scan = 0x3A then (NUL, k\<lparr>kb_caps := \<not> kb_caps k\<rparr>, ps)
     else let c = scan_char scan k in
       if c = NUL then (NUL, k, ps)
       else if is_dead c \<and> kb_dead k = NUL then (NUL, k\<lparr>kb_dead := c\<rparr>, ps)
       else if kb_dead k \<noteq> NUL then
         (let d = kb_dead k; k1 = k\<lparr>kb_dead := NUL\<rparr> in
            if c = CHR '' '' then (d, k1, ps) else (d, k1\<lparr>kb_queued := c\<rparr>, ps))
       else (c, k, ps))"

section \<open>USB reports\<close>

definition usb_key_to_ascii :: string where
  "usb_key_to_ascii = [NUL, NUL, NUL] @ ''1234567890-='' @ [BS]
     @ ''qwertyuiop[]'' @ [CHR 0x0A, NUL]
     @ ''asdfghjkl;'' @ [CHR 0x27, CHR 0x60, NUL]
     @ [CHR 0x5C] @ ''zxcvbnm,./'' @ [NUL] @ ''* <>?'' @ replicate 68 NUL"

fun usb_shift :: "char \<Rightarrow> char" where
  "usb_shift b =
    (case map_of (zip ''1234567890-=[]'' ''!@#$%^&*()_+{}'' @ [(CHR 0x5C, CHR ''|'')]
        @ zip '';'' '':'' @ [(CHR 0x27, CHR 0x22), (CHR 0x60, CHR ''~'')]
        @ zip '',./'' ''<>?'') b of
       Some c \<Rightarrow> c
     | None \<Rightarrow> if lower b \<or> upper b then swap_case b else b)"

definition usb_keycode_to_ascii :: "u8 \<Rightarrow> bool \<Rightarrow> char" where
  "usb_keycode_to_ascii keycode shift =
    (if keycode = 0 then NUL
     else if keycode > 0x65 then NUL
     else let base = usb_key_to_ascii ! unat keycode in
       if base = NUL then NUL
       else if \<not> shift then base
       else usb_shift base)"

definition usb_kbd_parse_report :: "u8 list \<Rightarrow> char" where
  "usb_kbd_parse_report report =
    (let shift = report ! 0 AND 2 \<noteq> 0;
         cs = map (\<lambda>i. usb_keycode_to_ascii (report ! i) shift) [1..<7]
     in case find (\<lambda>c. c \<noteq> NUL) cs of Some c \<Rightarrow> c | None \<Rightarrow> NUL)"

text \<open>\<open>memcpy(prev, &report[1], 6)\<close> writes the first six of the seven bytes.\<close>

definition save_prev :: "u8 list \<Rightarrow> u8 list \<Rightarrow> u8 list" where
  "save_prev report prev = take 6 (drop 1 report) @ drop 6 prev"

definition new_key :: "u8 list \<Rightarrow> u8 list \<Rightarrow> u8 option" where
  "new_key report prev = find (\<lambda>k. k \<noteq> 0 \<and> k \<notin> set (take 6 (drop 1 prev))) (take 6 (drop 1 report))"

text \<open>The result is \<^const>\<open>None\<close> for -1, and the character stored through \<open>c\<close> for 0.\<close>

definition usb_kbd_getc :: "int \<times> u8 list \<Rightarrow> kbd \<Rightarrow> char option \<times> kbd" where
  "usb_kbd_getc rd k =
    (case rd of (r, report) \<Rightarrow>
       if r < 0 then (None, k)
       else let r = (if r > 8 then 8 else r) in
         if r < 1 then (None, k)
         else (Some (case new_key report (kb_prev k) of
                 Some key \<Rightarrow> usb_keycode_to_ascii key (report ! 0 AND 2 \<noteq> 0)
               | None \<Rightarrow> NUL),
               k\<lparr>kb_prev := save_prev report (kb_prev k)\<rparr>))"

section \<open>Characters\<close>

fun usb_next :: "(int \<times> u8 list) list \<Rightarrow> (int \<times> u8 list) \<times> (int \<times> u8 list) list" where
  "usb_next [] = ((- 1, []), [])"
| "usb_next (r # rs) = (r, rs)"

definition usb_try :: "kbd \<Rightarrow> keys \<Rightarrow> char option \<times> kbd \<times> keys" where
  "usb_try k i =
    (if kb_usb k then
       (case usb_next (ks_usb i) of (rd, us) \<Rightarrow>
         (case usb_kbd_getc rd k of (r, k') \<Rightarrow> (r, k', i\<lparr>ks_usb := us\<rparr>)))
     else (None, k, i))"

definition ps2_try :: "kbd \<Rightarrow> keys \<Rightarrow> char \<times> kbd \<times> keys" where
  "ps2_try k i =
    (case kbd_poll (ks_ps2 i) of
       (None, ps) \<Rightarrow> (NUL, k, i\<lparr>ks_ps2 := ps\<rparr>)
     | (Some scan, ps) \<Rightarrow>
        (case ps2_process scan k ps of (c, k', ps') \<Rightarrow> (c, k', i\<lparr>ks_ps2 := ps'\<rparr>)))"

definition silent :: "kbd \<Rightarrow> keys \<Rightarrow> bool" where
  "silent k i \<longleftrightarrow> ks_ps2 i = [] \<and> (ks_usb i = [] \<or> \<not> kb_usb k)"

lemma e0_wait_length: "length (e0_wait n ps) \<le> length ps"
proof (induction n arbitrary: ps)
  case (Suc n)
  show ?case
  proof (cases ps)
    case (Cons s ss)
    then show ?thesis using Suc [of ss] by (cases s) auto
  qed (use Suc [of "[]"] in simp)
qed simp

lemma ps2_process_length: "ps2_process scan k ps = (c, k', ps') \<Longrightarrow> length ps' \<le> length ps"
  using e0_wait_length [of 1000 ps] by (auto simp: ps2_process_def Let_def split: if_splits)

lemma ps2_process_usb: "ps2_process scan k ps = (c, k', ps') \<Longrightarrow> kb_usb k' = kb_usb k"
  by (auto simp: ps2_process_def Let_def split: if_splits)

lemma ps2_try_shorter:
  "ps2_try k i = (c, k', i') \<Longrightarrow> ks_ps2 i \<noteq> [] \<Longrightarrow> length (ks_ps2 i') < length (ks_ps2 i)"
  by (cases "ks_ps2 i")
     (auto simp: ps2_try_def less_Suc_eq_le split: option.splits prod.splits dest: ps2_process_length)

lemma ps2_try_kept:
  "ps2_try k i = (c, k', i') \<Longrightarrow> length (ks_ps2 i') \<le> length (ks_ps2 i)
     \<and> ks_usb i' = ks_usb i \<and> kb_usb k' = kb_usb k"
  by (cases "ks_ps2 i")
     (auto simp: ps2_try_def le_Suc_eq split: option.splits prod.splits
        dest: ps2_process_length ps2_process_usb)

lemma usb_try_kept:
  "usb_try k i = (r, k', i') \<Longrightarrow> ks_ps2 i' = ks_ps2 i \<and> kb_usb k' = kb_usb k
     \<and> length (ks_usb i') \<le> length (ks_usb i)
     \<and> (kb_usb k \<longrightarrow> ks_usb i \<noteq> [] \<longrightarrow> length (ks_usb i') < length (ks_usb i))
     \<and> (kb_usb k \<longrightarrow> ks_usb i = [] \<longrightarrow> r = None)
     \<and> kb_queued k' = kb_queued k \<and> kb_dead k' = kb_dead k"
  by (cases "ks_usb i")
     (auto simp: usb_try_def usb_kbd_getc_def Let_def split: if_splits prod.splits)

definition pending :: "kbd \<Rightarrow> keys \<Rightarrow> nat" where
  "pending k i = length (ks_ps2 i) + (if kb_usb k then length (ks_usb i) else 0)"

lemma usb_pending:
  assumes "usb_try k i = (Some c, k1, i1)"
  shows "pending k1 i1 < pending k i"
proof -
  have "kb_usb k" "ks_usb i \<noteq> []"
    using assms usb_try_kept [OF assms] by (auto simp: usb_try_def split: if_splits)
  then show ?thesis using usb_try_kept [OF assms] by (auto simp: pending_def)
qed

lemma ps2_pending:
  assumes u: "usb_try k i = (None, k1, i1)" and "\<not> silent k i" and p: "ps2_try k1 i1 = (c, k2, i2)"
  shows "pending k2 i2 < pending k i"
proof (cases "ks_ps2 i = []")
  case True
  then have "kb_usb k" "ks_usb i \<noteq> []" using assms(2) by (auto simp: silent_def)
  then show ?thesis using usb_try_kept [OF u] ps2_try_kept [OF p] True by (auto simp: pending_def)
next
  case False
  then show ?thesis
    using usb_try_kept [OF u] ps2_try_kept [OF p] ps2_try_shorter [OF p] by (auto simp: pending_def)
qed

text \<open>The loop of \<open>keyboard_getc\<close> ends with a character, or waits for a device
  for ever: \<^const>\<open>None\<close>.\<close>

function keyboard_getc :: "kbd \<Rightarrow> keys \<Rightarrow> (char \<times> kbd \<times> keys) option" where
  "keyboard_getc k i =
    (case usb_try k i of
       (Some c, k1, i1) \<Rightarrow>
         if c \<noteq> NUL then Some (c, k1\<lparr>kb_dead := NUL, kb_queued := NUL\<rparr>, i1)
         else keyboard_getc k1 i1
     | (None, k1, i1) \<Rightarrow>
         if kb_queued k1 \<noteq> NUL then Some (kb_queued k1, k1\<lparr>kb_queued := NUL\<rparr>, i1)
         else if silent k i then None
         else (case ps2_try k1 i1 of
             (c, k2, i2) \<Rightarrow> if c \<noteq> NUL then Some (c, k2, i2) else keyboard_getc k2 i2))"
  by pat_completeness auto
termination
  by (relation "measure (\<lambda>(k, i). pending k i)") (auto dest: usb_pending [OF sym] ps2_pending [OF sym _ sym])

declare keyboard_getc.simps [simp del]

definition keyboard_getc_nonblock :: "kbd \<Rightarrow> keys \<Rightarrow> char option \<times> kbd \<times> keys" where
  "keyboard_getc_nonblock k i =
    (if kb_queued k \<noteq> NUL then (Some (kb_queued k), k\<lparr>kb_queued := NUL\<rparr>, i)
     else (case usb_try k i of (r, k1, i1) \<Rightarrow>
       if r \<noteq> None \<and> r \<noteq> Some NUL
       then (r, k1\<lparr>kb_dead := NUL, kb_queued := NUL\<rparr>, i1)
       else (case ps2_try k1 i1 of (c, k2, i2) \<Rightarrow>
         (if c \<noteq> NUL then Some c else None, k2, i2))))"

section \<open>Lines\<close>

definition unread :: "kbd \<Rightarrow> keys \<Rightarrow> nat" where
  "unread k i = 2 * pending k i + of_bool (kb_queued k \<noteq> NUL)"

lemma pending_unread: "pending k' i' < pending k i \<Longrightarrow> unread k' i' < unread k i"
  by (simp add: unread_def)

lemma getc_usb:
  "usb_try k i = (Some c, k1, i1) \<Longrightarrow>
   keyboard_getc k i = (if c \<noteq> NUL then Some (c, k1\<lparr>kb_dead := NUL, kb_queued := NUL\<rparr>, i1)
     else keyboard_getc k1 i1)"
  by (subst keyboard_getc.simps) simp

lemma getc_ps2:
  "usb_try k i = (None, k1, i1) \<Longrightarrow> ps2_try k1 i1 = (c, k2, i2) \<Longrightarrow>
   keyboard_getc k i =
    (if kb_queued k1 \<noteq> NUL then Some (kb_queued k1, k1\<lparr>kb_queued := NUL\<rparr>, i1)
     else if silent k i then None
     else if c \<noteq> NUL then Some (c, k2, i2) else keyboard_getc k2 i2)"
  by (subst keyboard_getc.simps) simp

lemma unread_dequeue:
  "unread (k\<lparr>kb_dead := NUL, kb_queued := NUL\<rparr>) i \<le> unread k i"
  "kb_queued k \<noteq> NUL \<Longrightarrow> unread (k\<lparr>kb_queued := NUL\<rparr>) i < unread k i"
  by (simp_all add: unread_def pending_def)

lemma unread_usb_try: "usb_try k i = (r, k1, i1) \<Longrightarrow> unread k1 i1 \<le> unread k i"
  using usb_try_kept [of k i r k1 i1] by (auto simp: unread_def pending_def)

lemma getc_char:
  "keyboard_getc k i = Some (c, k', i') \<Longrightarrow> c \<noteq> NUL \<and> unread k' i' < unread k i"
proof (induction "pending k i" arbitrary: k i rule: less_induct)
  case less
  obtain r k1 i1 where u: "usb_try k i = (r, k1, i1)" by (cases "usb_try k i")
  obtain d k2 i2 where p: "ps2_try k1 i1 = (d, k2, i2)" by (cases "ps2_try k1 i1")
  show ?case
  proof (cases r)
    case (Some e)
    then have lt: "pending k1 i1 < pending k i" using u by (auto intro: usb_pending)
    show ?thesis
    proof (cases "e = NUL")
      case True
      then have "keyboard_getc k1 i1 = Some (c, k', i')" using less.prems getc_usb u Some by simp
      then show ?thesis using less.hyps [OF lt] pending_unread [OF lt] by simp
    next
      case False
      then show ?thesis
        using less.prems getc_usb [of k i e k1 i1] u Some pending_unread [OF lt]
          unread_dequeue(1) [of k1 i1] by auto
    qed
  next
    case None
    note e = getc_ps2 [OF u [unfolded None] p]
    show ?thesis
    proof (cases "kb_queued k1 = NUL")
      case False
      then show ?thesis
        using less.prems e unread_dequeue(2) [OF False, of i1] unread_usb_try [OF u] by auto
    next
      case True
      then have ns: "\<not> silent k i" using less.prems e by (auto split: if_splits)
      then have lt: "pending k2 i2 < pending k i" using u p None by (auto intro: ps2_pending)
      show ?thesis
      proof (cases "d = NUL")
        case d: True
        then have "keyboard_getc k2 i2 = Some (c, k', i')" using less.prems e True ns by simp
        then show ?thesis using less.hyps [OF lt] pending_unread [OF lt] by simp
      next
        case False
        then show ?thesis using less.prems e True ns pending_unread [OF lt] by auto
      qed
    qed
  qed
qed

text \<open>\<open>max\<close> (here \<open>mx\<close>) is unsigned, so a buffer of size 0 has room for \<open>2^64 - 1\<close>
  characters.  A \<open>char\<close> is signed: the test \<open>c<0x20\<close> takes the codes from
  128 on as well.  The last list is what is sent to the serial port and to the screen.\<close>

function get_line_loop ::
    "u64 \<Rightarrow> bool \<Rightarrow> bool \<Rightarrow> string \<Rightarrow> kbd \<Rightarrow> keys \<Rightarrow> string list
     \<Rightarrow> (string \<times> kbd \<times> keys \<times> string list) option" where
  "get_line_loop mx echo msk buf k i out =
    (if length buf < unat (mx - 1) then
       (case keyboard_getc k i of
          None \<Rightarrow> None
        | Some (c, k1, i1) \<Rightarrow>
            if c = CR then
              Some (buf, k1\<lparr>kb_dead := NUL, kb_queued := NUL\<rparr>, i1,
                out @ (if echo then [[CR, CHR 0x0A]] else []))
            else if c = BS then
              (if buf \<noteq> [] then
                 get_line_loop mx echo msk (butlast buf) k1 i1
                   (out @ (if echo then [[BS, CHR '' '', BS]] else []))
               else get_line_loop mx echo msk buf k1 i1 out)
            else if ord8 c < 0x20 \<or> 128 \<le> ord8 c then get_line_loop mx echo msk buf k1 i1 out
            else (let c' = (if 126 < ord8 c then CHR ''?'' else c) in
              get_line_loop mx echo msk (buf @ [c']) k1 i1
                (out @ (if echo then [[if msk then CHR ''*'' else c']] else []))))
     else Some (buf, k, i, out @ (if echo then [[CR, CHR 0x0A]] else [])))"
  by pat_completeness auto
termination
  by (relation "measure (\<lambda>(mx, echo, msk, buf, k, i, out). unread k i)") (auto dest: getc_char)

declare get_line_loop.simps [simp del]

definition keyboard_get_line ::
    "u64 \<Rightarrow> bool \<Rightarrow> bool \<Rightarrow> kbd \<Rightarrow> keys \<Rightarrow> (string \<times> kbd \<times> keys \<times> string list) option" where
  "keyboard_get_line mx echo msk k i = get_line_loop mx echo msk [] k i []"

section \<open>Typing a line\<close>

definition printable :: "char \<Rightarrow> bool" where
  "printable c \<longleftrightarrow> 32 \<le> ord8 c \<and> ord8 c \<le> 126"

text \<open>The key events that produce a character: the key, between the press and
  the release of a shift key where it needs one, and the space bar after a dead key.\<close>

definition press :: "char \<Rightarrow> u8 list" where
  "press c =
    (case first_index ((=) c) sc1 of
       Some s \<Rightarrow> [of_nat s]
     | None \<Rightarrow> (case first_index ((=) c) sc1_shift of
         Some s \<Rightarrow> [0x2A, of_nat s, 0xAA]
       | None \<Rightarrow> []))
    @ (if is_dead c then [0x39] else [])"

definition at_rest :: "bool \<Rightarrow> char \<Rightarrow> kbd \<Rightarrow> bool" where
  "at_rest sh d k \<longleftrightarrow> kb_shift k = sh \<and> \<not> kb_caps k \<and> kb_dead k = d \<and> kb_queued k = NUL \<and> \<not> kb_usb k"

lemma scan_range:
  "s < 128 \<Longrightarrow> (of_nat s :: u8) AND 0x80 = 0 \<and> unat (of_nat s :: u8) = s \<and> (of_nat s :: u8) \<noteq> 0xE0"
proof -
  have "\<forall>s\<in>set [0..<128]. (of_nat s :: u8) AND 0x80 = 0 \<and> unat (of_nat s :: u8) = s
      \<and> (of_nat s :: u8) \<noteq> 0xE0" by code_simp
  then show "s < 128 \<Longrightarrow> ?thesis" by simp
qed

lemma length_sc1 [simp]: "length sc1 = 128" "length sc1_shift = 128"
  by (simp_all add: sc1_def sc1_shift_def)

lemma modifiers_mute:
  "s \<in> {0x1D, 0x2A, 0x36, 0x3A, 0x56, 0x73} \<Longrightarrow> sc1 ! s = NUL \<and> sc1_shift ! s = NUL"
  by (auto simp: sc1_def sc1_shift_def nth_append)

lemma key_codes: "\<forall>n\<in>set [32..<127]. n \<in> set (map ord8 (sc1 @ sc1_shift))"
  by (simp add: sc1_def sc1_shift_def upt_rec [of _ "numeral _"])

lemma printable_on_keys:
  assumes "printable c"
  shows "c \<in> set sc1 \<or> c \<in> set sc1_shift"
proof -
  have "ord8 c \<in> {32..<127}" using assms by (simp add: printable_def)
  then have "ord8 c \<in> ord8 ` (set sc1 \<union> set sc1_shift)"
    using key_codes unfolding set_upt by (metis set_map set_append)
  then show ?thesis by auto
qed

lemma space_plain: "sc1 ! 0x39 = CHR '' ''" "\<not> is_dead (CHR '' '')"
  by (simp_all add: sc1_def nth_append is_dead_def)

lemma is_dead_printable: "is_dead c \<Longrightarrow> printable c"
  by (auto simp: is_dead_def printable_def)

lemma getc_key:
  assumes "\<not> kb_usb k" "kb_queued k = NUL" "ps2_process s k ps = (c, k', ps')" "c \<noteq> NUL"
  shows "keyboard_getc k \<lparr>ks_ps2 = Some s # ps, ks_usb = us\<rparr> = Some (c, k', \<lparr>ks_ps2 = ps', ks_usb = us\<rparr>)"
  using assms by (subst keyboard_getc.simps) (simp add: usb_try_def ps2_try_def silent_def)

lemma getc_mute:
  assumes "\<not> kb_usb k" "kb_queued k = NUL" "ps2_process s k ps = (NUL, k', ps')"
  shows "keyboard_getc k \<lparr>ks_ps2 = Some s # ps, ks_usb = us\<rparr> = keyboard_getc k' \<lparr>ks_ps2 = ps', ks_usb = us\<rparr>"
  using assms by (subst keyboard_getc.simps) (simp add: usb_try_def ps2_try_def silent_def)

lemma process_plain:
  assumes "at_rest sh NUL k" "s < 128" "(if sh then sc1_shift else sc1) ! s = c" "c \<noteq> NUL"
  shows "ps2_process (of_nat s) k ps =
    (if is_dead c then (NUL, k\<lparr>kb_dead := c\<rparr>, ps) else (c, k, ps))"
proof -
  have m: "s \<notin> {0x1D, 0x2A, 0x36, 0x3A, 0x56, 0x73}"
    using assms(3,4) modifiers_mute [of s] by (auto split: if_splits)
  have u: "unat (of_nat s :: u8) = s" using scan_range [OF assms(2)] by simp
  have n: "(of_nat s :: u8) \<noteq> w" if "unat w \<in> {0x1D, 0x2A, 0x36, 0x3A, 0x56, 0x73}" for w
    using m u that by metis
  have sc: "scan_char (of_nat s) k = c"
    using assms n [of "0x56"] n [of "0x73"] by (simp add: scan_char_def u at_rest_def split: if_splits)
  show ?thesis
    using assms(1,4) scan_range [OF assms(2)] n [of "0x1D"] n [of "0x2A"] n [of "0x36"] n [of "0x3A"]
    by (simp add: ps2_process_def sc at_rest_def)
qed

lemma process_shift:
  "ps2_process 0x2A k ps = (NUL, k\<lparr>kb_shift := True\<rparr>, ps)"
  "ps2_process 0xAA k ps = (NUL, k\<lparr>kb_shift := False\<rparr>, ps)"
  by (simp_all add: ps2_process_def)

lemma process_space:
  assumes "kb_dead k = d" "d \<noteq> NUL"
  shows "ps2_process 0x39 k ps = (d, k\<lparr>kb_dead := NUL\<rparr>, ps)"
  using assms
  by (auto simp: ps2_process_def scan_char_def sc1_def sc1_shift_def nth_append is_dead_def
      lower_def upper_def)

definition echo_of :: "bool \<Rightarrow> bool \<Rightarrow> char \<Rightarrow> string list" where
  "echo_of echo msk c = (if echo then [[if msk then CHR ''*'' else c]] else [])"

lemma loop_mute:
  assumes "length buf < unat (mx - 1)" "\<not> kb_usb k" "kb_queued k = NUL"
    "ps2_process s k ps = (NUL, k', ps')"
  shows "get_line_loop mx e m buf k \<lparr>ks_ps2 = Some s # ps, ks_usb = us\<rparr> out =
         get_line_loop mx e m buf k' \<lparr>ks_ps2 = ps', ks_usb = us\<rparr> out"
  using assms(1)
  by (subst (1 2) get_line_loop.simps) (simp only: getc_mute [OF assms(2-4)] if_True)

lemma loop_char:
  assumes "length buf < unat (mx - 1)" "printable c"
    "keyboard_getc k i = Some (c, k', i')"
  shows "get_line_loop mx e m buf k i out = get_line_loop mx e m (buf @ [c]) k' i' (out @ echo_of e m c)"
  using assms
  by (subst get_line_loop.simps) (auto simp: printable_def echo_of_def)

lemma loop_press:
  assumes r: "at_rest False NUL k" and c: "printable c" and l: "length buf + 1 < unat (mx - 1)"
  shows "get_line_loop mx e m buf k \<lparr>ks_ps2 = map Some (press c) @ ps, ks_usb = us\<rparr> out =
         get_line_loop mx e m (buf @ [c]) k \<lparr>ks_ps2 = ps, ks_usb = us\<rparr> (out @ echo_of e m c)"
proof -
  have n: "c \<noteq> NUL" using c by (auto simp: printable_def)
  have l': "length buf < unat (mx - 1)" "length (buf @ [c]) < unat (mx - 1)" using l by auto
  have rk: "\<not> kb_usb k" "kb_queued k = NUL" "kb_dead k = NUL" "\<not> kb_shift k"
    using r by (auto simp: at_rest_def)
  have sh: "at_rest True NUL (k\<lparr>kb_shift := True\<rparr>)" using r by (simp add: at_rest_def)
  have id: "k\<lparr>kb_shift := False\<rparr> = k" "k\<lparr>kb_dead := NUL\<rparr> = k" using rk by simp_all
  show ?thesis
  proof (cases "first_index ((=) c) sc1")
    case (Some s)
    then have s: "s < 128" "sc1 ! s = c" by (auto dest: first_index_SomeD)
    note p = process_plain [OF r s(1), of c]
    show ?thesis
    proof (cases "is_dead c")
      case True
      then show ?thesis
        using Some s n rk l' c
        by (simp add: id press_def loop_mute p process_space loop_char [OF _ _ getc_key])
    next
      case False
      then show ?thesis
        using Some s n rk l' c by (simp add: press_def p loop_char [OF _ _ getc_key])
    qed
  next
    case None
    then have "c \<in> set sc1_shift" using printable_on_keys [OF c] by (auto simp: first_index_None_iff)
    then obtain s where s: "first_index ((=) c) sc1_shift = Some s" "s < 128" "sc1_shift ! s = c"
      by (metis first_index_None_iff first_index_SomeD(1,2) length_sc1(2) not_Some_eq)
    note p = process_plain [OF sh s(2), of c]
    show ?thesis
    proof (cases "is_dead c")
      case True
      then show ?thesis
        using None s n rk l' c
        by (simp add: id press_def loop_mute p process_shift process_space loop_char [OF _ _ getc_key])
    next
      case False
      then show ?thesis
        using None s n rk l' c
        by (simp add: id press_def loop_mute p process_shift loop_char [OF _ _ getc_key])
    qed
  qed
qed

lemma loop_text:
  assumes "at_rest False NUL k" "\<forall>c\<in>set w. printable c" "length buf + length w < unat (mx - 1)"
  shows "get_line_loop mx e m buf k \<lparr>ks_ps2 = map Some (concat (map press w)) @ ps, ks_usb = us\<rparr> out =
         get_line_loop mx e m (buf @ w) k \<lparr>ks_ps2 = ps, ks_usb = us\<rparr> (out @ concat (map (echo_of e m) w))"
  using assms(2,3)
proof (induction w arbitrary: buf out)
  case (Cons c w)
  then show ?case using loop_press [OF assms(1), of c buf mx e m "map Some (concat (map press w)) @ ps"]
    by simp
qed simp

lemma enter_key: "at_rest False NUL k \<Longrightarrow> ps2_process 0x1C k ps = (CR, k, ps)"
  using process_plain [of False k "0x1C" CR ps] by (simp add: sc1_def is_dead_def)

lemma loop_step:
  assumes "length buf < unat (mx - 1)" "keyboard_getc k i = Some (c, k1, i1)"
  shows "get_line_loop mx e m buf k i out =
    (if c = CR then Some (buf, k1\<lparr>kb_dead := NUL, kb_queued := NUL\<rparr>, i1,
         out @ (if e then [[CR, CHR 0x0A]] else []))
     else if c = BS then
       (if buf \<noteq> [] then get_line_loop mx e m (butlast buf) k1 i1
          (out @ (if e then [[BS, CHR '' '', BS]] else []))
        else get_line_loop mx e m buf k1 i1 out)
     else if ord8 c < 0x20 \<or> 128 \<le> ord8 c then get_line_loop mx e m buf k1 i1 out
     else (let c' = (if 126 < ord8 c then CHR ''?'' else c) in
       get_line_loop mx e m (buf @ [c']) k1 i1 (out @ echo_of e m c')))"
  using assms by (subst get_line_loop.simps) (simp add: echo_of_def del: get_line_loop.simps)

lemma loop_full:
  "\<not> length buf < unat (mx - 1) \<Longrightarrow>
   get_line_loop mx e m buf k i out = Some (buf, k, i, out @ (if e then [[CR, CHR 0x0A]] else []))"
  by (subst get_line_loop.simps) simp

lemma loop_waits:
  "length buf < unat (mx - 1) \<Longrightarrow> keyboard_getc k i = None \<Longrightarrow> get_line_loop mx e m buf k i out = None"
  by (subst get_line_loop.simps) simp

section \<open>Properties\<close>

text \<open>Any text of printable characters, typed key by key on the PS/2 keyboard and
  ended with Enter, is the line \<open>keyboard_get_line\<close> returns, provided it fits;
  shift and dead keys included, and nothing of what follows is consumed.\<close>

theorem typed_line_read:
  assumes "at_rest False NUL k" "\<forall>c\<in>set w. printable c" "length w < unat (mx - 1)"
  shows "keyboard_get_line mx echo msk k
           \<lparr>ks_ps2 = map Some (concat (map press w) @ [0x1C]) @ ps, ks_usb = us\<rparr> =
         Some (w, k, \<lparr>ks_ps2 = ps, ks_usb = us\<rparr>,
               concat (map (echo_of echo msk) w) @ (if echo then [[CR, CHR 0x0A]] else []))"
proof -
  have rk: "\<not> kb_usb k" "kb_queued k = NUL" "kb_dead k = NUL" using assms(1) by (auto simp: at_rest_def)
  have id: "k\<lparr>kb_dead := NUL, kb_queued := NUL\<rparr> = k" using rk by simp
  have "keyboard_getc k \<lparr>ks_ps2 = Some 0x1C # ps, ks_usb = us\<rparr> =
      Some (CR, k, \<lparr>ks_ps2 = ps, ks_usb = us\<rparr>)"
    using rk enter_key [OF assms(1)] by (intro getc_key) auto
  then show ?thesis
    using loop_text [OF assms(1,2), of "[]" mx echo msk "Some 0x1C # ps" us "[]"] assms(3)
    by (simp add: keyboard_get_line_def loop_step id)
qed

definition idle_kbd :: kbd where
  "idle_kbd = \<lparr>kb_shift = False, kb_caps = False, kb_ctrl = False, kb_dead = NUL, kb_queued = NUL,
     kb_usb = False, kb_prev = replicate 7 0\<rparr>"

lemma typed_line_read_witness:
  "keyboard_get_line 32 True True idle_kbd
     \<lparr>ks_ps2 = map Some (concat (map press ''Ab~'') @ [0x1C]) @ [], ks_usb = []\<rparr> =
   Some (''Ab~'', idle_kbd, \<lparr>ks_ps2 = [], ks_usb = []\<rparr>,
     concat (map (echo_of True True) ''Ab~'') @ (if True then [[CR, CHR 0x0A]] else []))"
  by (rule typed_line_read) (simp_all add: idle_kbd_def at_rest_def printable_def)

text \<open>What the echo looks like: a line of a terminal, before the cursor and from it on.  A backspace moves
  the cursor back, any other character replaces the one at the cursor.\<close>

definition term_put :: "char \<Rightarrow> string \<times> string \<Rightarrow> string \<times> string" where
  "term_put c lr = (case lr of (l, r) \<Rightarrow>
     if c = BS then (if l = [] then lr else (butlast l, last l # r)) else (l @ [c], tl r))"

definition masked :: "bool \<Rightarrow> string \<Rightarrow> string" where
  "masked m w = (if m then replicate (length w) (CHR ''*'') else w)"

text \<open>The echo \<open>out\<close> shows the line \<open>w\<close>, and behind the cursor nothing but blanks.\<close>

definition echo_shows :: "bool \<Rightarrow> string list \<Rightarrow> string \<Rightarrow> bool" where
  "echo_shows m out w \<longleftrightarrow> (\<exists>n. fold term_put (concat out) ([], []) = (masked m w, replicate n (CHR '' '')))"

definition line_ok :: "u64 \<Rightarrow> bool \<Rightarrow> bool \<Rightarrow> string \<Rightarrow> string list \<Rightarrow> bool" where
  "line_ok mx e m buf out \<longleftrightarrow> length buf \<le> unat (mx - 1) \<and> (\<forall>c\<in>set buf. printable c) \<and>
     (if e then echo_shows m out buf else out = [])"

lemma echo_shows_add:
  assumes "echo_shows m out w" "printable c"
  shows "echo_shows m (out @ echo_of True m c) (w @ [c])"
proof -
  obtain n where n: "fold term_put (concat out) ([], []) = (masked m w, replicate n (CHR '' ''))"
    using assms(1) by (auto simp: echo_shows_def)
  have "c \<noteq> BS" using assms(2) by (auto simp: printable_def)
  then have "fold term_put (concat (out @ echo_of True m c)) ([], []) =
      (masked m (w @ [c]), replicate (n - 1) (CHR '' ''))"
    using n by (cases n) (auto simp: echo_of_def term_put_def masked_def replicate_append_same)
  then show ?thesis unfolding echo_shows_def by blast
qed

lemma echo_shows_back:
  assumes "echo_shows m out w" "w \<noteq> []"
  shows "echo_shows m (out @ [[BS, CHR '' '', BS]]) (butlast w)"
proof -
  obtain n where n: "fold term_put (concat out) ([], []) = (masked m w, replicate n (CHR '' ''))"
    using assms(1) by (auto simp: echo_shows_def)
  have b: "butlast (masked m w) = masked m (butlast w)" "masked m w \<noteq> []"
    using assms(2) by (cases w rule: rev_cases; simp add: masked_def replicate_append_same [symmetric])+
  have "fold term_put (concat (out @ [[BS, CHR '' '', BS]])) ([], []) =
      (masked m (butlast w), replicate (Suc n) (CHR '' ''))"
    using n b by (simp add: term_put_def)
  then show ?thesis unfolding echo_shows_def by blast
qed

lemma line_ok_add:
  assumes "line_ok mx e m buf out"
  shows "buf \<noteq> [] \<Longrightarrow> line_ok mx e m (butlast buf) (out @ (if e then [[BS, CHR '' '', BS]] else []))"
    "length buf < unat (mx - 1) \<Longrightarrow> printable c \<Longrightarrow> line_ok mx e m (buf @ [c]) (out @ echo_of e m c)"
  using assms echo_shows_back echo_shows_add by (auto simp: line_ok_def echo_of_def dest: in_set_butlastD)

definition line_end :: "bool \<Rightarrow> string list" where
  "line_end e = (if e then [[CR, CHR 0x0A]] else [])"

lemma loop_result:
  "get_line_loop mx e m buf k i out = Some (w, k', i', out') \<Longrightarrow> line_ok mx e m buf out \<Longrightarrow>
   \<exists>o1. out' = o1 @ line_end e \<and> line_ok mx e m w o1"
proof (induction "unread k i" arbitrary: buf k i out rule: less_induct)
  case less
  show ?case
  proof (cases "length buf < unat (mx - 1)")
    case False
    then show ?thesis using less.prems by (auto simp: loop_full line_end_def)
  next
    case True
    then obtain c k1 i1 where g: "keyboard_getc k i = Some (c, k1, i1)"
      using less.prems loop_waits [OF True] by (cases "keyboard_getc k i") auto
    note IH = less.hyps [of k1 i1] and step = loop_step [OF True g, of e m out]
    have lt: "unread k1 i1 < unread k i" using getc_char [OF g] by simp
    note ok = line_ok_add [OF less.prems(2)]
    consider "c = CR" | "c \<noteq> CR" "c = BS \<or> ord8 c < 0x20 \<or> 128 \<le> ord8 c"
      | "c \<noteq> CR" "c \<noteq> BS" "\<not> (ord8 c < 0x20 \<or> 128 \<le> ord8 c)" by blast
    then show ?thesis
    proof cases
      case 1
      then show ?thesis using less.prems step by (auto simp: line_end_def)
    next
      case 2
      then show ?thesis
        using less.prems step IH [OF lt _ ok(1)] IH [OF lt _ less.prems(2)] by (auto split: if_splits)
    next
      case 3
      define c' where "c' = (if 126 < ord8 c then CHR ''?'' else c)"
      have "printable c'" using 3 by (auto simp: c'_def printable_def)
      moreover have "get_line_loop mx e m (buf @ [c']) k1 i1 (out @ echo_of e m c') =
          Some (w, k', i', out')"
        using less.prems(1) 3 unfolding step c'_def by (simp add: Let_def)
      ultimately show ?thesis using IH [OF lt _ ok(2)] True by blast
    qed
  qed
qed

text \<open>C27. Whatever keys are pressed, the line has printable characters only and fits a buffer of at least
  one byte with its terminator.  With the echo on, what was echoed shows on a terminal exactly that line,
  or a star for each of its characters when the input is masked, with blanks behind the cursor, and
  then the end of the line; with the echo off nothing is echoed.\<close>

theorem line_result:
  assumes "keyboard_get_line mx echo msk k i = Some (w, k', i', out)" "mx \<noteq> 0"
  shows "length w < unat mx \<and> (\<forall>c\<in>set w. printable c) \<and>
    (if echo then \<exists>o1 n. out = o1 @ [[CR, CHR 0x0A]] \<and>
        fold term_put (concat o1) ([], []) = (masked msk w, replicate n (CHR '' '')) else out = [])"
proof -
  have "line_ok mx echo msk [] []" by (auto simp: line_ok_def echo_shows_def masked_def intro: exI [of _ 0])
  from loop_result [OF assms(1) [unfolded keyboard_get_line_def] this]
  obtain o1 where o: "out = o1 @ line_end echo" "line_ok mx echo msk w o1" by blast
  have "unat (mx - 1) < unat mx" using assms(2) by (simp add: unat_minus_one unat_gt_0)
  then show ?thesis using o by (auto simp: line_ok_def echo_shows_def line_end_def)
qed

lemma line_result_witness:
  "length ''q'' < unat (32 :: u64) \<and> (\<exists>o1 n. [''*'', [CR, CHR 0x0A]] = o1 @ [[CR, CHR 0x0A]] \<and>
     fold term_put (concat o1) ([], []) = (masked True ''q'', replicate n (CHR '' '')))"
proof -
  have "keyboard_get_line 32 True True idle_kbd \<lparr>ks_ps2 = [Some 0x10, Some 0x90, Some 0x1C], ks_usb = []\<rparr> =
      Some (''q'', idle_kbd, \<lparr>ks_ps2 = [], ks_usb = []\<rparr>, [''*'', [CR, CHR 0x0A]])"
    by (simp add: keyboard_get_line_def get_line_loop.simps keyboard_getc.simps usb_try_def
        ps2_try_def silent_def ps2_process_def scan_char_def sc1_def is_dead_def idle_kbd_def)
  from line_result [OF this] show ?thesis by simp
qed

text \<open>The edge detection of \<open>usb_kbd_getc\<close> compares with \<open>prev[1..6]\<close> what it saves
  in \<open>prev[0..5]\<close>: a key held in byte 1 of the report is delivered again by every
  report, while one held in byte 2 is delivered once.\<close>

theorem held_key_repeats:
  assumes "key \<noteq> 0" "usb_keycode_to_ascii key False \<noteq> NUL" "kb_prev k = replicate 7 0"
  shows "(let rep1 = [0, key, 0, 0, 0, 0, 0, 0]; rep2 = [0, 0, key, 0, 0, 0, 0, 0];
              (a1, k1) = usb_kbd_getc (8, rep1) k; (b1, k1') = usb_kbd_getc (8, rep1) k1;
              (a2, k2) = usb_kbd_getc (8, rep2) k; (b2, k2') = usb_kbd_getc (8, rep2) k2
          in a1 = Some (usb_keycode_to_ascii key False) \<and> b1 = a1 \<and> a2 = a1 \<and> b2 = Some NUL)"
  using assms
  by (simp add: usb_kbd_getc_def new_key_def save_prev_def Let_def numeral_eq_Suc)

lemma held_key_repeats_witness:
  "(let rep1 = [0, 0x10, 0, 0, 0, 0, 0, 0]; rep2 = [0, 0, 0x10, 0, 0, 0, 0, 0];
        (a1, k1) = usb_kbd_getc (8, rep1) idle_kbd; (b1, k1') = usb_kbd_getc (8, rep1) k1;
        (a2, k2) = usb_kbd_getc (8, rep2) idle_kbd; (b2, k2') = usb_kbd_getc (8, rep2) k2
    in a1 = Some (usb_keycode_to_ascii 0x10 False) \<and> b1 = a1 \<and> a2 = a1 \<and> b2 = Some NUL)"
  by (rule held_key_repeats)
     (simp_all add: usb_keycode_to_ascii_def usb_key_to_ascii_def idle_kbd_def)

text \<open>The table of \<open>hid.c\<close> is the PS/2 table moved by one: no letter key of the USB
  usage table (0x04 to 0x1D for a to z) gives its letter.\<close>

lemma usb_letters: "\<forall>n\<in>set [0..<26]. ord8 (usb_key_to_ascii ! (4 + n)) \<noteq> 97 + n"
  by (simp add: usb_key_to_ascii_def upt_rec [of _ "numeral _"])

theorem usb_letters_wrong:
  "\<forall>n<26. usb_keycode_to_ascii (of_nat (4 + n)) False \<noteq> char_of (97 + n)"
proof (intro allI impI notI)
  fix n :: nat
  assume n: "n < 26" and e: "usb_keycode_to_ascii (of_nat (4 + n)) False = char_of (97 + n)"
  have u: "unat (of_nat (4 + n) :: u8) = 4 + n" using n by (intro unat_of_nat_small) simp
  have nul: "ord8 NUL = 0" by simp
  have o: "ord8 (char_of (97 + n)) = 97 + n" using n by simp
  have "usb_keycode_to_ascii (of_nat (4 + n)) False \<in> {NUL, usb_key_to_ascii ! (4 + n)}"
    unfolding usb_keycode_to_ascii_def Let_def u by auto
  then have "char_of (97 + n) \<in> {NUL, usb_key_to_ascii ! (4 + n)}" unfolding e .
  then have "97 + n \<in> {0, ord8 (usb_key_to_ascii ! (4 + n))}" using o
    by (simp only: insert_iff empty_iff) (metis nul)
  then show False using bspec [OF usb_letters, of n] n by simp
qed

end
