(* ===== verification/Xhci.thy ===== *)
theory Xhci
  imports Pmm Paging Devices Keyboard
begin

text \<open>
  The USB 3 controller driver (src/kernel/xhci.c) and the USB core above it
  (src/kernel/usb.c).

  The static variables are the record \<open>xh\<close>; \<open>x_mem\<close> is memory, byte by byte,
  with the registers of the controller mapped into it.  What the controller does
  is the argument \<open>dev\<close>: \<open>dev t\<close> is the change it makes to memory and
  registers before the t-th time the driver looks at a register or at the event
  ring.  The bounded waiting loops recurse on their own bounds.  The diagnostic
  output, and the delays, are left out; so are the reads of registers that are
  only printed.
\<close>

unbundle bit_operations_syntax

type_synonym bytes = "u64 \<Rightarrow> u8"
type_synonym device = "nat \<Rightarrow> bytes \<Rightarrow> bytes"

definition ld32 :: "bytes \<Rightarrow> u64 \<Rightarrow> u32" where
  "ld32 m a = ucast (m a) OR push_bit 8 (ucast (m (a + 1))) OR push_bit 16 (ucast (m (a + 2)))
     OR push_bit 24 (ucast (m (a + 3)))"

definition st32 :: "u64 \<Rightarrow> u32 \<Rightarrow> bytes \<Rightarrow> bytes" where
  "st32 a v m = m(a := ucast v, a + 1 := ucast (drop_bit 8 v), a + 2 := ucast (drop_bit 16 v),
     a + 3 := ucast (drop_bit 24 v))"

definition st64 :: "u64 \<Rightarrow> u64 \<Rightarrow> bytes \<Rightarrow> bytes" where
  "st64 a v m = st32 (a + 4) (ucast (drop_bit 32 v)) (st32 a (ucast v) m)"

text \<open>A ring: its address, the producer's index and its cycle bit.\<close>

record ring =
  r_base :: u64
  r_idx :: nat
  r_ccs :: u32

record xh =
  x_mem :: bytes
  x_time :: nat
  x_pmm :: pmm
  x_mmio :: u64
  x_kphys :: u64
  x_dcbaa :: u64
  x_erst :: u64
  x_cr :: ring
  x_er :: ring
  x_ep0 :: ring
  x_ep1 :: ring
  x_pad :: u32
  x_dboff :: u32
  x_rts :: u32
  x_ports :: u32
  x_slot :: u32
  x_portnum :: u32
  x_speed :: u32
  x_devctx :: u64
  x_kbd :: bool
  x_mps :: u8
  x_itv :: u8
  x_buf :: u64
  x_sub :: "nat option"
  x_trb :: u64

definition XH_CMD :: u32 where "XH_CMD = 0x0000"
definition XH_STS :: u32 where "XH_STS = 0x0004"
definition XH_CRCR :: u32 where "XH_CRCR = 0x0018"
definition XH_DCBAAP :: u32 where "XH_DCBAAP = 0x0030"
definition XH_CONFIG :: u32 where "XH_CONFIG = 0x0038"
definition XH_PORT :: u32 where "XH_PORT = 0x0400"
definition XH_CMD_HCRST :: u32 where "XH_CMD_HCRST = 2"
definition XH_CMD_RUN :: u32 where "XH_CMD_RUN = 1"
definition XH_STS_HCH :: u32 where "XH_STS_HCH = 1"
definition XH_STS_CNR :: u32 where "XH_STS_CNR = 0x800"
definition XH_IMAN :: u32 where "XH_IMAN = 0x20"
definition XH_IMOD :: u32 where "XH_IMOD = 0x24"
definition XH_ERSTSZ :: u32 where "XH_ERSTSZ = 0x28"
definition XH_ERSTBA :: u32 where "XH_ERSTBA = 0x30"
definition XH_ERDP :: u32 where "XH_ERDP = 0x38"
definition TRB_T_NORMAL :: u32 where "TRB_T_NORMAL = 1"
definition TRB_T_SETUP :: u32 where "TRB_T_SETUP = 2"
definition TRB_T_DATA :: u32 where "TRB_T_DATA = 3"
definition TRB_T_STATUS :: u32 where "TRB_T_STATUS = 4"
definition TRB_T_LINK :: u32 where "TRB_T_LINK = 6"
definition TRB_T_ENSLC :: u32 where "TRB_T_ENSLC = 9"
definition TRB_T_ADRDEV :: u32 where "TRB_T_ADRDEV = 11"
definition TRB_T_CFGEP :: u32 where "TRB_T_CFGEP = 12"
definition EVT_TRANSFER :: u32 where "EVT_TRANSFER = 32"
definition EVT_CMDCOMP :: u32 where "EVT_CMDCOMP = 33"
definition TRB_TIOC :: u32 where "TRB_TIOC = 0x20"
definition TRB_IDT :: u32 where "TRB_IDT = 0x40"
definition TRB_ICHN :: u32 where "TRB_ICHN = 0x10"
definition TRB_TDIR_IN :: u32 where "TRB_TDIR_IN = 0x10000"
definition TRB_TLINK_TC :: u32 where "TRB_TLINK_TC = 2"
definition XH_TRBS :: nat where "XH_TRBS = 16"

section \<open>Registers and memory\<close>

definition tick :: "device \<Rightarrow> xh \<Rightarrow> xh" where
  "tick dev x = x\<lparr>x_mem := dev (x_time x) (x_mem x), x_time := x_time x + 1\<rparr>"

definition xh_re32 :: "device \<Rightarrow> u64 \<Rightarrow> u32 \<Rightarrow> xh \<Rightarrow> u32 \<times> xh" where
  "xh_re32 dev b off x = (let x' = tick dev x in (ld32 (x_mem x') (b + ucast off), x'))"

definition xh_wr32 :: "u64 \<Rightarrow> u32 \<Rightarrow> u32 \<Rightarrow> xh \<Rightarrow> xh" where
  "xh_wr32 b off v x = x\<lparr>x_mem := st32 (b + ucast off) v (x_mem x)\<rparr>"

definition xh_wr64_parts :: "u64 \<Rightarrow> u32 \<Rightarrow> u64 \<Rightarrow> xh \<Rightarrow> xh" where
  "xh_wr64_parts b off v x = xh_wr32 b (off + 4) (ucast (drop_bit 32 v)) (xh_wr32 b off (ucast v) x)"

definition xh_op :: "xh \<Rightarrow> u64" where "xh_op x = x_mmio x + ucast (x_pad x)"
definition xh_rt :: "xh \<Rightarrow> u64" where "xh_rt x = x_mmio x + ucast (x_rts x)"
definition xh_dbr :: "xh \<Rightarrow> u64" where "xh_dbr x = x_mmio x + ucast (x_dboff x)"

definition xh_mpage :: "xh \<Rightarrow> u64 \<times> xh" where
  "xh_mpage x =
    (case pmm_alloc_addr 1 (x_pmm x) of (p, pm) \<Rightarrow>
       (p, if p = 0 then x\<lparr>x_pmm := pm\<rparr>
           else x\<lparr>x_pmm := pm, x_mem := \<lambda>a. if p \<le> a \<and> a < p + 4096 then 0 else x_mem x a\<rparr>))"

fun xh_wait_loop :: "device \<Rightarrow> nat \<Rightarrow> u32 \<Rightarrow> bool \<Rightarrow> xh \<Rightarrow> xh" where
  "xh_wait_loop dev 0 msk want x = x"
| "xh_wait_loop dev (Suc n) msk want x =
    (case xh_re32 dev (xh_op x) XH_STS x of
       (s, x') \<Rightarrow> if (s AND msk \<noteq> 0) = want then x' else xh_wait_loop dev n msk want x')"

definition xh_wait :: "device \<Rightarrow> u32 \<Rightarrow> bool \<Rightarrow> xh \<Rightarrow> xh" where
  "xh_wait dev msk want x = xh_wait_loop dev 10000000 msk want x"

section \<open>Rings\<close>

definition trb_addr :: "ring \<Rightarrow> nat \<Rightarrow> u64" where
  "trb_addr r i = r_base r + of_nat (i * 16)"

definition put_trb :: "u64 \<Rightarrow> u32 \<Rightarrow> u32 \<Rightarrow> u32 \<Rightarrow> u32 \<Rightarrow> bytes \<Rightarrow> bytes" where
  "put_trb a d0 d1 d2 d3 m = st32 (a + 12) d3 (st32 (a + 8) d2 (st32 (a + 4) d1 (st32 a d0 m)))"

definition link_word :: "u32 \<Rightarrow> u32" where
  "link_word ccs = push_bit 10 TRB_T_LINK OR TRB_TLINK_TC OR ccs"

definition ring_init :: "ring \<Rightarrow> bytes \<Rightarrow> ring \<times> bytes" where
  "ring_init r m =
    (let m1 = fold (\<lambda>i. put_trb (trb_addr r i) 0 0 0 0) [0..<XH_TRBS] m
     in (r\<lparr>r_idx := 0\<rparr>,
         put_trb (trb_addr r 15) (ucast (r_base r)) (ucast (drop_bit 32 (r_base r))) 0
           (link_word (r_ccs r)) m1))"

definition advance :: "ring \<Rightarrow> bytes \<Rightarrow> ring \<times> bytes" where
  "advance r m =
    (let i = r_idx r + 1 in
     if 15 \<le> i then
       (let c = r_ccs r XOR 1 in
        (r\<lparr>r_idx := 0, r_ccs := c\<rparr>, st32 (trb_addr r 15 + 12) (link_word c) m))
     else (r\<lparr>r_idx := i\<rparr>, m))"

text \<open>Every producer of the driver writes the TRB at its index and advances.\<close>

definition enqueue :: "u32 \<Rightarrow> u32 \<Rightarrow> u32 \<Rightarrow> u32 \<Rightarrow> ring \<Rightarrow> bytes \<Rightarrow> ring \<times> bytes" where
  "enqueue d0 d1 d2 d3 r m =
    advance r (put_trb (trb_addr r (r_idx r)) d0 d1 d2 (d3 OR r_ccs r) m)"

section \<open>Events\<close>

record ev =
  ev_dw0 :: u32
  ev_dw1 :: u32
  ev_dw2 :: u32
  ev_dw3 :: u32

definition EV_TYPE :: "ev \<Rightarrow> u32" where "EV_TYPE e = drop_bit 10 (ev_dw3 e) AND 0x3F"
definition EV_CODE :: "ev \<Rightarrow> u32" where "EV_CODE e = drop_bit 24 (ev_dw2 e) AND 0xFF"
definition EV_SLOT :: "ev \<Rightarrow> u32" where "EV_SLOT e = drop_bit 24 (ev_dw3 e) AND 0xFF"
definition EV_EP :: "ev \<Rightarrow> u32" where "EV_EP e = drop_bit 16 (ev_dw3 e) AND 0x1F"
definition EV_LEN :: "ev \<Rightarrow> u32" where "EV_LEN e = ev_dw2 e AND 0xFFFFFF"
definition EV_PTR :: "ev \<Rightarrow> u64" where "EV_PTR e = push_bit 32 (ucast (ev_dw1 e)) OR ucast (ev_dw0 e)"

definition event_at :: "bytes \<Rightarrow> u64 \<Rightarrow> ev" where
  "event_at m b = \<lparr>ev_dw0 = ld32 m b, ev_dw1 = ld32 m (b + 4), ev_dw2 = ld32 m (b + 8),
     ev_dw3 = ld32 m (b + 12)\<rparr>"

definition ev_peek :: "device \<Rightarrow> xh \<Rightarrow> ev option \<times> xh" where
  "ev_peek dev x0 =
    (let x = tick dev x0; r = x_er x; b = trb_addr r (r_idx r); e = event_at (x_mem x) b in
     if ev_dw3 e AND 1 \<noteq> r_ccs r then (None, x)
     else
       let i = r_idx r + 1;
           r' = (if XH_TRBS \<le> i then r\<lparr>r_idx := 0, r_ccs := r_ccs r XOR 1\<rparr> else r\<lparr>r_idx := i\<rparr>)
       in (Some e, xh_wr64_parts (xh_rt x) XH_ERDP
             (((r_base r' AND NOT 0x0F) + of_nat (r_idx r' * 16)) OR ucast (r_ccs r'))
             (x\<lparr>x_er := r'\<rparr>)))"

fun ev_wait_loop :: "device \<Rightarrow> nat \<Rightarrow> xh \<Rightarrow> ev option \<times> xh" where
  "ev_wait_loop dev 0 x = (None, x)"
| "ev_wait_loop dev (Suc n) x =
    (case ev_peek dev x of (Some e, x') \<Rightarrow> (Some e, x') | (None, x') \<Rightarrow> ev_wait_loop dev n x')"

definition ev_wait :: "device \<Rightarrow> xh \<Rightarrow> ev option \<times> xh" where
  "ev_wait dev x = ev_wait_loop dev 100000000 x"

section \<open>Commands\<close>

definition cmd_run :: "u64 \<Rightarrow> u32 \<Rightarrow> u32 \<Rightarrow> u32 \<Rightarrow> xh \<Rightarrow> xh" where
  "cmd_run ptr dw2 slotid ty x =
    (case enqueue (ucast ptr) (ucast (drop_bit 32 ptr)) dw2
            (push_bit 10 ty OR push_bit 24 (slotid AND 0xFF)) (x_cr x) (x_mem x) of
       (r, m) \<Rightarrow> xh_wr32 (xh_dbr x) 0 0 (x\<lparr>x_cr := r, x_mem := m\<rparr>))"

fun cmd_wait_loop :: "device \<Rightarrow> nat \<Rightarrow> xh \<Rightarrow> int \<times> ev option \<times> xh" where
  "cmd_wait_loop dev 0 x = (- 3, None, x)"
| "cmd_wait_loop dev (Suc n) x =
    (case ev_wait dev x of
       (None, x') \<Rightarrow> (- 1, None, x')
     | (Some e, x') \<Rightarrow>
         if EV_TYPE e \<noteq> EVT_CMDCOMP then cmd_wait_loop dev n x'
         else (if EV_CODE e = 1 then 0 else uint (EV_CODE e), Some e, x'))"

definition cmd_wait :: "device \<Rightarrow> xh \<Rightarrow> int \<times> ev option \<times> xh" where
  "cmd_wait dev x = cmd_wait_loop dev 8 x"

section \<open>Ports and start\<close>

definition port_reg :: "nat \<Rightarrow> u32" where
  "port_reg p = XH_PORT + of_nat (p * 0x10)"

definition port_sc :: "device \<Rightarrow> nat \<Rightarrow> xh \<Rightarrow> u32 \<times> xh" where
  "port_sc dev p x = xh_re32 dev (xh_op x) (port_reg p) x"

fun port_reset_wait :: "device \<Rightarrow> nat \<Rightarrow> nat \<Rightarrow> xh \<Rightarrow> xh" where
  "port_reset_wait dev 0 p x = x"
| "port_reset_wait dev (Suc n) p x =
    (case port_sc dev p x of (s, x') \<Rightarrow>
       if s AND 0x200 \<noteq> 0 then x' else port_reset_wait dev n p x')"

fun find_port_loop :: "device \<Rightarrow> nat list \<Rightarrow> xh \<Rightarrow> nat \<times> xh" where
  "find_port_loop dev [] x = (0, x)"
| "find_port_loop dev (p # ps) x =
    (case port_sc dev p x of (s, x1) \<Rightarrow>
       if s AND 1 = 0 then find_port_loop dev ps x1
       else
         let x2 = xh_wr32 (xh_op x1) (port_reg p) (s OR 0x10) x1;
             x3 = port_reset_wait dev 100000000 p x2
         in (case port_sc dev p x3 of (s', x4) \<Rightarrow>
              (p + 1, snd (port_sc dev p (xh_wr32 (xh_op x4) (port_reg p) (s' AND NOT 0x200) x4)))))"

definition xhci_find_device_port :: "device \<Rightarrow> xh \<Rightarrow> nat \<times> xh" where
  "xhci_find_device_port dev x = find_port_loop dev [0..<unat (x_ports x)] x"

definition xhci_reset :: "device \<Rightarrow> xh \<Rightarrow> xh" where
  "xhci_reset dev x =
    (let x1 = xh_wait dev XH_STS_HCH True x;
         x2 = xh_wait dev XH_STS_CNR False x1;
         x3 = xh_wr32 (xh_op x2) XH_CMD XH_CMD_HCRST x2;
         x4 = xh_wait dev XH_CMD_HCRST False x3
     in xh_wait dev XH_STS_HCH True x4)"

definition xhci_enable :: "device \<Rightarrow> xh \<Rightarrow> xh" where
  "xhci_enable dev x =
    (let (cr, m1) = ring_init (x_cr x) (x_mem x);
         (e0, m2) = ring_init (x_ep0 x) m1;
         (e1, m3) = ring_init (x_ep1 x) m2;
         x1 = x\<lparr>x_cr := cr, x_ep0 := e0, x_ep1 := e1, x_mem := m3\<rparr>;
         op = xh_op x1; rt = xh_rt x1;
         x2 = xh_wr64_parts op XH_DCBAAP (x_dcbaa x1) x1;
         x3 = xh_wr64_parts op XH_CRCR ((r_base cr AND NOT 0x3F) OR 1) x2;
         x4 = xh_wr32 rt XH_IMAN 0 x3;
         x5 = xh_wr32 rt XH_IMOD 0 x4;
         x6 = xh_wr32 rt XH_ERSTSZ 1 x5;
         x7 = xh_wr64_parts rt XH_ERSTBA (x_erst x6) x6;
         x8 = xh_wr64_parts rt XH_ERDP ((r_base (x_er x7) AND NOT 0x0F) OR 1) x7;
         (c, x9) = xh_re32 dev op XH_CMD x8;
         x10 = xh_wait dev XH_STS_HCH False (xh_wr32 op XH_CMD (c OR XH_CMD_RUN) x9);
         (hcp1, x11) = xh_re32 dev (x_mmio x10) 0x04 x10
     in xh_wr32 op XH_CONFIG (hcp1 AND 0xFF) (x11\<lparr>x_ports := drop_bit 24 hcp1 AND 0xFF\<rparr>))"

section \<open>Control transfers\<close>

definition va_to_phys :: "xh \<Rightarrow> u64 \<Rightarrow> u64" where
  "va_to_phys x v = (if v \<ge> 0xFFFFFFFF80000000 then v - 0xFFFFFFFF80000000 + x_kphys x else v)"

definition ep0_setup :: "u8 \<Rightarrow> u8 \<Rightarrow> u16 \<Rightarrow> u16 \<Rightarrow> u16 \<Rightarrow> u64 \<Rightarrow> bool \<Rightarrow> xh \<Rightarrow> xh" where
  "ep0_setup bmr breq wv wi wl data dirin x =
    (let (r1, m1) = enqueue (ucast bmr OR push_bit 8 (ucast breq) OR push_bit 16 (ucast wv))
           (ucast wi OR push_bit 16 (ucast wl)) 8 (push_bit 10 TRB_T_SETUP OR TRB_IDT)
           (x_ep0 x) (x_mem x);
         (r2, m2) =
           (if data \<noteq> 0 \<and> wl \<noteq> 0 then
              let pa = va_to_phys x data in
              enqueue (ucast pa) (ucast (drop_bit 32 pa)) (ucast wl)
                (push_bit 10 TRB_T_DATA OR TRB_ICHN OR (if dirin then TRB_TDIR_IN else 0)) r1 m1
            else (r1, m1));
         (r3, m3) = enqueue 0 0 0
           (push_bit 10 TRB_T_STATUS OR TRB_TIOC OR (if dirin then 0 else TRB_TDIR_IN)) r2 m2
     in xh_wr32 (xh_dbr x) ((x_slot x AND 0xFF) * 4) 1 (x\<lparr>x_ep0 := r3, x_mem := m3\<rparr>))"

fun ep0_events :: "device \<Rightarrow> nat \<Rightarrow> u16 \<Rightarrow> xh \<Rightarrow> int \<times> xh" where
  "ep0_events dev 0 wl x = (- 1, x)"
| "ep0_events dev (Suc n) wl x =
    (case ev_wait dev x of
       (None, x') \<Rightarrow> (- 1, x')
     | (Some e, x') \<Rightarrow>
         if EV_TYPE e \<noteq> EVT_TRANSFER \<or> EV_EP e \<noteq> 1 then ep0_events dev n wl x'
         else if EV_CODE e = 5 \<or> EV_CODE e = 4 then (- 2, x')
         else (uint wl, x'))"

definition ep0_ctrl ::
    "device \<Rightarrow> u8 \<Rightarrow> u8 \<Rightarrow> u16 \<Rightarrow> u16 \<Rightarrow> u16 \<Rightarrow> u64 \<Rightarrow> bool \<Rightarrow> xh \<Rightarrow> int \<times> xh" where
  "ep0_ctrl dev bmr breq wv wi wl data dirin x =
    ep0_events dev 16 wl (ep0_setup bmr breq wv wi wl data dirin x)"

definition slot_speed :: "u32 \<Rightarrow> u32" where
  "slot_speed ps = (if ps = 1 then 0 else if ps = 2 then 1 else if ps = 3 then 2
     else if ps = 4 then 3 else 0)"

definition ep0_mps :: "u32 \<Rightarrow> u32" where
  "ep0_mps spd = (if spd = 2 then 64 else if spd = 3 then 512 else 8)"

section \<open>Contexts\<close>

definition SL_SPEED :: "u32 \<Rightarrow> u32" where "SL_SPEED p = push_bit 20 (p AND 0xF)"
definition SL_LASTCTX :: "u32 \<Rightarrow> u32" where "SL_LASTCTX n = push_bit 27 (n AND 0x1F)"
definition SL_RHPORT :: "u32 \<Rightarrow> u32" where "SL_RHPORT p = push_bit 16 (p AND 0xFF)"
definition EP_INTERVAL :: "u32 \<Rightarrow> u32" where "EP_INTERVAL p = push_bit 16 (p AND 0xFF)"
definition EP_TYPE :: "u32 \<Rightarrow> u32" where "EP_TYPE p = push_bit 3 p"
definition EP_MAXPKT :: "u32 \<Rightarrow> u32" where "EP_MAXPKT p = push_bit 16 (p AND 0xFFFF)"
definition EP_CERR :: "u32 \<Rightarrow> u32" where "EP_CERR p = push_bit 1 (p AND 3)"
definition EP_CTRL :: u32 where "EP_CTRL = 4"
definition EP_INTIN :: u32 where "EP_INTIN = 7"
definition EP1IDX :: u64 where "EP1IDX = 3"
definition DB1IN :: u32 where "DB1IN = 3"

text \<open>The slot context at 0x20 and the context of endpoint n behind it.\<close>

definition put_slot :: "u32 \<Rightarrow> u64 \<Rightarrow> xh \<Rightarrow> bytes \<Rightarrow> bytes" where
  "put_slot lastctx ic x m =
    st32 (ic + 0x24) (SL_RHPORT (x_portnum x))
      (st32 (ic + 0x20) (SL_SPEED (x_speed x) OR SL_LASTCTX lastctx) m)"

definition put_ep0 :: "u64 \<Rightarrow> xh \<Rightarrow> bytes \<Rightarrow> bytes" where
  "put_ep0 ic x m =
    (let b = r_base (x_ep0 x) in
     st32 (ic + 0x4C) (ucast (drop_bit 32 b))
       (st32 (ic + 0x48) (ucast b OR 1)
         (st32 (ic + 0x44) (EP_TYPE EP_CTRL OR EP_MAXPKT (ep0_mps (x_speed x)) OR EP_CERR 3) m)))"

definition put_ep1 :: "u64 \<Rightarrow> xh \<Rightarrow> bytes \<Rightarrow> bytes" where
  "put_ep1 ic x m =
    (let b = r_base (x_ep1 x); e = ic + 0x20 + EP1IDX * 0x20 in
     st32 (e + 12) (ucast (drop_bit 32 b))
       (st32 (e + 8) (ucast b OR 1)
         (st32 (e + 4) (EP_TYPE EP_INTIN OR EP_MAXPKT (ucast (x_mps x)) OR EP_CERR 3)
           (st32 e (EP_INTERVAL (ucast (x_itv x))) m))))"

definition xhci_address_device :: "device \<Rightarrow> xh \<Rightarrow> int \<times> xh" where
  "xhci_address_device dev x0 =
    (case xh_mpage x0 of (ic, x) \<Rightarrow>
       if ic = 0 then (- 1, x)
       else
         let m = put_ep0 ic x (put_slot 1 ic x (st32 (ic + 4) 3 (x_mem x)));
             x1 = cmd_run ic 0 (x_slot x) TRB_T_ADRDEV (x\<lparr>x_mem := m\<rparr>)
         in (case cmd_wait dev x1 of (r, _, x2) \<Rightarrow> if r \<noteq> 0 then (- 2, x2) else (0, x2)))"

definition xhci_configure_endpoint :: "device \<Rightarrow> xh \<Rightarrow> int \<times> xh" where
  "xhci_configure_endpoint dev x0 =
    (case xh_mpage x0 of (ic, x) \<Rightarrow>
       if ic = 0 then (- 1, x)
       else
         let m = put_ep1 ic x (put_ep0 ic x (put_slot 2 ic x (st32 (ic + 4) 9 (x_mem x))));
             x1 = cmd_run ic 0 (x_slot x) TRB_T_CFGEP (x\<lparr>x_mem := m\<rparr>)
         in (case cmd_wait dev x1 of (r, _, x2) \<Rightarrow> if r \<noteq> 0 then (- 2, x2) else (0, x2)))"

section \<open>Descriptors\<close>

text \<open>The walk over the descriptors in the 512-byte buffer \<open>cfg\<close>.  A read past the
  buffer is \<open>Outside\<close>.\<close>

datatype walk = Outside | Missing | Endpoint u8 u8

lemma walk_step: "\<not> tot \<le> Suc off \<Longrightarrow> (w :: u8) \<noteq> 0 \<Longrightarrow> tot - (off + unat w) < tot - off"
  by (rule diff_less_mono2) (auto simp: unat_gt_0)

function endpoint_walk :: "u8 list \<Rightarrow> nat \<Rightarrow> nat \<Rightarrow> walk" where
  "endpoint_walk cfg tot off =
    (if tot \<le> off + 1 then Missing
     else
       let len = cfg ! off; typ = cfg ! (off + 1) in
       if len = 0 then Missing
       else if typ = 5 \<and> length cfg \<le> off + 3 then Outside
       else if typ = 5 \<and> cfg ! (off + 2) AND 0x80 \<noteq> 0 \<and> cfg ! (off + 3) AND 3 = 3 then
         (if length cfg \<le> off + 6 then Outside
          else Endpoint (cfg ! (off + 4)) (cfg ! (off + 6)))
       else endpoint_walk cfg tot (off + unat len))"
  by pat_completeness auto
termination
  by (relation "measure (\<lambda>(cfg, tot, off). tot - off)") (auto intro: walk_step)

declare endpoint_walk.simps [simp del]

text \<open>\<open>devd\<close> and \<open>cfg\<close> are the addresses of the two buffers on the stack; the
  controller fills them through their physical addresses.  Nothing is known of the
  result when the walk leaves the buffer.\<close>

definition clear_buf :: "u64 \<Rightarrow> nat \<Rightarrow> xh \<Rightarrow> xh" where
  "clear_buf va n x =
    (let pa = va_to_phys x va in
     x\<lparr>x_mem := \<lambda>a. if unat (a - pa) < n then 0 else x_mem x a\<rparr>)"

definition buf_bytes :: "u64 \<Rightarrow> nat \<Rightarrow> xh \<Rightarrow> u8 list" where
  "buf_bytes va n x = map (\<lambda>i. x_mem x (va_to_phys x va + of_nat i)) [0..<n]"

definition put_bytes :: "u64 \<Rightarrow> u8 list \<Rightarrow> xh \<Rightarrow> xh" where
  "put_bytes va bs x =
    (let pa = va_to_phys x va in
     x\<lparr>x_mem := fold (\<lambda>i m. m(pa + of_nat i := bs ! i)) [0..<length bs] (x_mem x)\<rparr>)"

definition xhci_get_descriptors :: "device \<Rightarrow> u64 \<Rightarrow> u64 \<Rightarrow> xh \<Rightarrow> (int \<times> xh) option" where
  "xhci_get_descriptors dev devd cfg x0 =
    (case ep0_ctrl dev 0x80 0x06 0x0100 0 18 devd True (clear_buf devd 18 x0) of (r, x1) \<Rightarrow>
     if r < 0 then Some (- 1, x1)
     else
       (case ep0_ctrl dev 0x80 0x06 0x0100 0 18 devd True (put_bytes devd [0xFF, 0xEE, 0xDD] x1) of
          (_, x2) \<Rightarrow>
        (case ep0_ctrl dev 0x80 0x06 0x0200 0 9 cfg True (clear_buf cfg 512 x2) of (r3, x3) \<Rightarrow>
         if r3 < 0 then Some (- 2, x3)
         else
           let c9 = buf_bytes cfg 512 x3;
               tot0 = ucast (c9 ! 2) OR push_bit 8 (ucast (c9 ! 3)) :: u16;
               tot = (if 512 < tot0 then 512 else tot0)
           in (case ep0_ctrl dev 0x80 0x06 0x0200 0 tot cfg True x3 of (r4, x4) \<Rightarrow>
                if r4 < 0 then Some (- 3, x4)
                else (case endpoint_walk (buf_bytes cfg 512 x4) (unat tot) 0 of
                    Outside \<Rightarrow> None
                  | Missing \<Rightarrow> Some (- 4, x4)
                  | Endpoint mps itv \<Rightarrow> Some (0, x4\<lparr>x_mps := mps, x_itv := itv\<rparr>))))))"

section \<open>Enumeration\<close>

definition xhci_enumerate :: "device \<Rightarrow> u64 \<Rightarrow> u64 \<Rightarrow> xh \<Rightarrow> (int \<times> xh) option" where
  "xhci_enumerate dev devd cfg x =
    (case xhci_find_device_port dev x of (port, x1) \<Rightarrow>
     if port = 0 then Some (- 4, x1)
     else
       (case port_sc dev (port - 1) (x1\<lparr>x_portnum := of_nat port\<rparr>) of (s, x2) \<Rightarrow>
        let x3 = cmd_run 0 0 0 TRB_T_ENSLC (x2\<lparr>x_speed := slot_speed (drop_bit 10 s AND 0xF)\<rparr>) in
        (case cmd_wait dev x3 of
           (r, Some e, x4) \<Rightarrow>
             if r \<noteq> 0 then Some (- 5, x4)
             else
               (case xh_mpage (x4\<lparr>x_slot := EV_SLOT e\<rparr>) of (ctx, x5) \<Rightarrow>
                let x6 = x5\<lparr>x_devctx := ctx\<rparr> in
                if ctx = 0 then Some (- 6, x6)
                else
                  let m1 = fold (\<lambda>i. st64 (x_dcbaa x6 + of_nat (8 * i)) 0) [0..<256] (x_mem x6);
                      m2 = st64 (x_dcbaa x6 + 8 * ucast (x_slot x6)) ctx m1
                  in (case xhci_address_device dev (x6\<lparr>x_mem := m2\<rparr>) of (a, x7) \<Rightarrow>
                      if a \<noteq> 0 then Some (- 7, x7)
                      else (case xhci_get_descriptors dev devd cfg x7 of
                          None \<Rightarrow> None
                        | Some (g, x8) \<Rightarrow>
                            if g \<noteq> 0 then Some (- 8, x8)
                            else (case xhci_configure_endpoint dev x8 of (c, x9) \<Rightarrow>
                                if c \<noteq> 0 then Some (- 9, x9)
                                else Some (uint (x_slot x9), x9\<lparr>x_kbd := True\<rparr>)))))
         | (r, None, x4) \<Rightarrow> Some (- 5, x4))))"

text \<open>The mapping of a controller above 4 GB is \<^const>\<open>paging_map_device_identity\<close>; the
  flag says whether it is asked for.\<close>

definition xhci_maps :: "u64 \<Rightarrow> bool" where
  "xhci_maps bar \<longleftrightarrow> bar \<noteq> 0 \<and> bar \<ge> 0x100000000"

definition xhci_init :: "device \<Rightarrow> u64 \<Rightarrow> xh \<Rightarrow> int \<times> xh" where
  "xhci_init dev bar x0 =
    (if bar = 0 then (- 1, x0)
     else
       let (p, x1) = xh_re32 dev bar 0 (x0\<lparr>x_mmio := bar\<rparr>);
           (rts, x2) = xh_re32 dev bar 0x18 (x1\<lparr>x_pad := p AND 0xFF\<rparr>);
           (dbo, x3) = xh_re32 dev bar 0x14
             (x2\<lparr>x_rts := if rts \<noteq> 0 then rts AND NOT 0x1F else 0x1000\<rparr>);
           x4 = x3\<lparr>x_dboff := if dbo \<noteq> 0 then dbo else 0x1000\<rparr>;
           (dc, x5) = xh_mpage x4; (cr, x6) = xh_mpage x5; (er, x7) = xh_mpage x6;
           (es, x8) = xh_mpage x7; (e0, x9) = xh_mpage x8; (e1, x10) = xh_mpage x9;
           x11 = x10\<lparr>x_dcbaa := dc, x_cr := (x_cr x10)\<lparr>r_base := cr\<rparr>,
             x_er := (x_er x10)\<lparr>r_base := er\<rparr>, x_erst := es,
             x_ep0 := (x_ep0 x10)\<lparr>r_base := e0\<rparr>, x_ep1 := (x_ep1 x10)\<lparr>r_base := e1\<rparr>\<rparr>
       in if dc = 0 \<or> cr = 0 \<or> er = 0 \<or> es = 0 \<or> e0 = 0 \<or> e1 = 0 then (- 2, x11)
          else
            let m = st32 (es + 8) (of_nat XH_TRBS)
                  (st32 (es + 4) (ucast (drop_bit 32 er)) (st32 es (ucast er) (x_mem x11)))
            in (0, xhci_enable dev (xhci_reset dev (x11\<lparr>x_mem := m\<rparr>))))"

section \<open>Reading a report\<close>

fun hid_events :: "device \<Rightarrow> nat \<Rightarrow> u32 \<Rightarrow> xh \<Rightarrow> int \<times> u8 list \<times> xh" where
  "hid_events dev 0 mx x = (- 1, [], x)"
| "hid_events dev (Suc n) mx x =
    (case ev_peek dev x of
       (None, x') \<Rightarrow> (- 1, [], x')
     | (Some e, x') \<Rightarrow>
         if EV_TYPE e \<noteq> EVT_TRANSFER then hid_events dev n mx x'
         else if EV_PTR e \<noteq> x_trb x' then hid_events dev n mx x'
         else
           let x2 = x'\<lparr>x_sub := None\<rparr> in
           if EV_CODE e \<noteq> 1 then (if EV_CODE e = 5 then - 2 else - 3, [], x2)
           else
             let len = (if mx < EV_LEN e then mx else EV_LEN e) in
             (uint len, buf_bytes (x_buf x2) (unat len) x2, x2))"

text \<open>The list is what is copied to the start of the caller's buffer.\<close>

definition xhci_kbd_read_hid :: "device \<Rightarrow> u32 \<Rightarrow> xh \<Rightarrow> int \<times> u8 list \<times> xh" where
  "xhci_kbd_read_hid dev mx x =
    (if \<not> x_kbd x then (- 1, [], x)
     else case x_sub x of
       None \<Rightarrow>
         let x1 = clear_buf (x_buf x) 8 x;
             pa = va_to_phys x (x_buf x);
             r = x_ep1 x1;
             (r', m) = enqueue (ucast pa) (ucast (drop_bit 32 pa)) 8
               (push_bit 10 TRB_T_NORMAL OR TRB_TIOC) r (x_mem x1);
             x2 = x1\<lparr>x_ep1 := r', x_mem := m, x_sub := Some (r_idx r), x_trb := trb_addr r (r_idx r)\<rparr>
         in (- 1, [], xh_wr32 (xh_dbr x2) ((x_slot x2 AND 0xFF) * 4) DB1IN x2)
     | Some _ \<Rightarrow> hid_events dev 256 mx (xh_wr32 (xh_dbr x) ((x_slot x AND 0xFF) * 4) DB1IN x))"

section \<open>The USB core\<close>

record usb =
  u_config :: bool
  u_report :: "u8 list"
  u_init :: bool
  u_irq :: nat

definition usb_enumerate_hid_keyboard ::
    "(u32 \<Rightarrow> u32) \<Rightarrow> device \<Rightarrow> u64 \<Rightarrow> u64 \<Rightarrow> xh \<Rightarrow> usb \<Rightarrow> (bool \<times> xh \<times> usb) option" where
  "usb_enumerate_hid_keyboard pci dev devd cfg x u =
    (let bar = usb_xhci_bar pci in
     if bar = 0 then Some (False, x, u)
     else (case xhci_init dev bar x of (r, x1) \<Rightarrow>
       if r \<noteq> 0 then Some (False, x1, u)
       else (case xhci_enumerate dev devd cfg x1 of
           None \<Rightarrow> None
         | Some (slot, x2) \<Rightarrow>
             if slot \<le> 0 then Some (False, x2, u) else Some (True, x2, u\<lparr>u_config := True\<rparr>))))"

definition usb_kbd_read_report :: "device \<Rightarrow> xh \<Rightarrow> usb \<Rightarrow> int \<times> u8 list \<times> xh" where
  "usb_kbd_read_report dev x u =
    (if x_kbd x then xhci_kbd_read_hid dev 8 x
     else if \<not> u_config u then (- 1, [], x)
     else if \<not> u_init u then (- 1, [], x)
     else (8, u_report u, x))"

definition usb_kbd_set_report :: "u8 list \<Rightarrow> u8 \<Rightarrow> usb \<Rightarrow> usb" where
  "usb_kbd_set_report report len u =
    (let n = unat (if len > 8 then 8 else len) in
     u\<lparr>u_report := take n report @ drop n (u_report u), u_init := True\<rparr>)"

definition usb_deinit :: "usb \<Rightarrow> usb" where
  "usb_deinit u = u\<lparr>u_config := False\<rparr>"

definition usb_irq_reports :: "u8 list list" where
  "usb_irq_reports =
    [[0, 0x04, 0, 0, 0, 0, 0, 0], [0, 0x1E, 0, 0, 0, 0, 0, 0], [0, 0x20, 0, 0, 0, 0, 0, 0],
     [0, 0x17, 0, 0, 0, 0, 0, 0], [0, 0x22, 0, 0, 0, 0, 0, 0], [0, 0, 0, 0, 0, 0, 0, 0]]"

definition usb_irq_handler :: "usb \<Rightarrow> usb" where
  "usb_irq_handler u =
    (let i = (u_irq u + 1) mod 6 in usb_kbd_set_report (usb_irq_reports ! i) 8 (u\<lparr>u_irq := i\<rparr>))"

section \<open>The rings\<close>

lemma ld_st_same: "ld32 (st32 a v m) a = v"
proof -
  have "ld32 (st32 a v m) a = ucast (ucast v :: u8) OR push_bit 8 (ucast (ucast (drop_bit 8 v) :: u8))
      OR push_bit 16 (ucast (ucast (drop_bit 16 v) :: u8)) OR push_bit 24 (ucast (ucast (drop_bit 24 v) :: u8))"
    by (simp add: ld32_def st32_def)
  also have "\<dots> = v"
  proof (rule bit_word_eqI)
    fix n assume "n < LENGTH(32)"
    then consider "n < 8" | "8 \<le> n" "n < 16" | "16 \<le> n" "n < 24" | "24 \<le> n" "n < 32" by fastforce
    then show "bit (ucast (ucast v :: u8) OR push_bit 8 (ucast (ucast (drop_bit 8 v) :: u8))
        OR push_bit 16 (ucast (ucast (drop_bit 16 v) :: u8))
        OR push_bit 24 (ucast (ucast (drop_bit 24 v) :: u8)) :: u32) n = bit v n"
      by cases (auto simp: word_parts)
  qed
  finally show ?thesis .
qed

definition ring_ok :: "ring \<Rightarrow> bool" where
  "ring_ok r \<longleftrightarrow> r_idx r < 15 \<and> r_ccs r \<in> {0, 1}"

lemma advance_state:
  "ring_ok r \<Longrightarrow> fst (advance r m) =
     r\<lparr>r_idx := (r_idx r + 1) mod 15, r_ccs := if r_idx r = 14 then r_ccs r XOR 1 else r_ccs r\<rparr>"
proof -
  assume "ring_ok r"
  then have "r_idx r < 14 \<or> r_idx r = 14" by (auto simp: ring_ok_def)
  then show ?thesis by (auto simp: advance_def Let_def)
qed

lemma advance_ok: "ring_ok r \<Longrightarrow> ring_ok (fst (advance r m))"
  by (auto simp: advance_def ring_ok_def Let_def)

lemma enqueue_ring: "fst (enqueue d0 d1 d2 d3 r m) = fst (advance r m)"
  by (simp add: enqueue_def advance_def Let_def)

lemma enqueue_ok: "ring_ok r \<Longrightarrow> enqueue d0 d1 d2 d3 r m = (r', m') \<Longrightarrow> ring_ok r'"
  by (metis advance_ok enqueue_ring fst_conv)

fun enqueue_all :: "(u32 \<times> u32 \<times> u32 \<times> u32) list \<Rightarrow> ring \<times> bytes \<Rightarrow> ring \<times> bytes" where
  "enqueue_all [] s = s"
| "enqueue_all ((d0, d1, d2, d3) # ts) s = enqueue_all ts (enqueue d0 d1 d2 d3 (fst s) (snd s))"

definition nth_ring :: "ring \<Rightarrow> nat \<Rightarrow> ring" where
  "nth_ring r n = r\<lparr>r_idx := n mod 15, r_ccs := if even (n div 15) then 1 else 0\<rparr>"

lemma nth_ring_ok: "ring_ok (nth_ring r n)"
  by (simp add: nth_ring_def ring_ok_def)

lemma nth_ring_Suc: "fst (advance (nth_ring r n) m) = nth_ring r (Suc n)"
proof -
  have "fst (advance (nth_ring r n) m) = (nth_ring r n)\<lparr>r_idx := (n mod 15 + 1) mod 15,
      r_ccs := if n mod 15 = 14 then r_ccs (nth_ring r n) XOR 1 else r_ccs (nth_ring r n)\<rparr>"
    using advance_state [OF nth_ring_ok] by (simp add: nth_ring_def)
  moreover have "(n mod 15 + 1) mod 15 = Suc n mod 15" by presburger
  moreover have "Suc n div 15 = (if n mod 15 = 14 then Suc (n div 15) else n div 15)" by presburger
  ultimately show ?thesis by (auto simp: nth_ring_def)
qed

lemma enqueue_all_from:
  "fst (enqueue_all ts (nth_ring r n, m)) = nth_ring r (n + length ts)"
proof (induction ts arbitrary: n m)
  case (Cons t ts)
  obtain d0 d1 d2 d3 where t: "t = (d0, d1, d2, d3)" by (cases t)
  obtain m' where "enqueue d0 d1 d2 d3 (nth_ring r n) m = (nth_ring r (Suc n), m')"
    by (metis enqueue_ring nth_ring_Suc prod.collapse)
  then show ?case using Cons.IH by (simp add: t)
qed simp

definition xh_ok :: "xh \<Rightarrow> bool" where
  "xh_ok x \<longleftrightarrow> ring_ok (x_cr x) \<and> ring_ok (x_ep0 x) \<and> ring_ok (x_ep1 x) \<and> r_idx (x_er x) < XH_TRBS"

lemma xh_ok_upd [simp]:
  "xh_ok (x\<lparr>x_mem := m\<rparr>) = xh_ok x" "xh_ok (x\<lparr>x_time := t\<rparr>) = xh_ok x"
  "xh_ok (x\<lparr>x_pmm := p\<rparr>) = xh_ok x" "xh_ok (x\<lparr>x_sub := s\<rparr>) = xh_ok x"
  "xh_ok (x\<lparr>x_trb := a\<rparr>) = xh_ok x" "xh_ok (x\<lparr>x_kbd := b\<rparr>) = xh_ok x"
  "xh_ok (x\<lparr>x_slot := w\<rparr>) = xh_ok x" "xh_ok (x\<lparr>x_devctx := a\<rparr>) = xh_ok x"
  "xh_ok (x\<lparr>x_speed := w\<rparr>) = xh_ok x" "xh_ok (x\<lparr>x_portnum := w\<rparr>) = xh_ok x"
  "xh_ok (x\<lparr>x_ports := w\<rparr>) = xh_ok x" "xh_ok (x\<lparr>x_mps := b8\<rparr>) = xh_ok x"
  "xh_ok (x\<lparr>x_itv := b8\<rparr>) = xh_ok x"
  by (simp_all add: xh_ok_def)

lemma wr_ok [simp]: "xh_ok (xh_wr32 b off v x) = xh_ok x" "xh_ok (xh_wr64_parts b off w x) = xh_ok x"
  by (simp_all add: xh_wr32_def xh_wr64_parts_def)

lemma tick_ok [simp]: "xh_ok (tick dev x) = xh_ok x"
  by (simp add: tick_def xh_ok_def)

lemma re32_ok: "xh_re32 dev b off x = (v, x') \<Longrightarrow> xh_ok x' = xh_ok x"
  by (auto simp: xh_re32_def Let_def)

lemma wait_ok [simp]: "xh_ok (xh_wait_loop dev n msk want x) = xh_ok x"
  by (induction n arbitrary: x) (auto split: prod.splits dest: re32_ok)

lemma mpage_ok: "xh_mpage x = (p, x') \<Longrightarrow> xh_ok x' = xh_ok x"
  by (auto simp: xh_mpage_def split: prod.splits if_splits)

lemma buf_ok [simp]: "xh_ok (clear_buf va n x) = xh_ok x" "xh_ok (put_bytes va bs x) = xh_ok x"
  by (simp_all add: clear_buf_def put_bytes_def Let_def)

lemma peek_ok: "ev_peek dev x = (r, x') \<Longrightarrow> xh_ok x \<Longrightarrow> xh_ok x'"
  by (auto simp: ev_peek_def Let_def xh_ok_def tick_def xh_wr64_parts_def xh_wr32_def XH_TRBS_def
      split: if_splits)

lemma wait_loop_ok: "ev_wait_loop dev n x = (r, x') \<Longrightarrow> xh_ok x \<Longrightarrow> xh_ok x'"
  by (induction n arbitrary: x) (auto split: prod.splits option.splits dest: peek_ok)

lemma cmd_run_ok: "xh_ok x \<Longrightarrow> xh_ok (cmd_run ptr d sl ty x)"
  by (auto simp: cmd_run_def xh_ok_def xh_wr32_def split: prod.splits dest: enqueue_ok)

lemma cmd_wait_ok: "cmd_wait_loop dev n x = (r, e, x') \<Longrightarrow> xh_ok x \<Longrightarrow> xh_ok x'"
  by (induction n arbitrary: x)
     (auto simp: ev_wait_def split: prod.splits option.splits if_splits dest: wait_loop_ok)

lemma ep0_setup_ok:
  assumes "xh_ok x"
  shows "xh_ok (ep0_setup bb q v i l data dir x)"
proof -
  have c: "ring_ok (fst (if c then enqueue d0 d1 d2 d3 r m else (r, m')))" if "ring_ok r"
    for c d0 d1 d2 d3 r m m'
    using that by (simp add: enqueue_ring advance_ok)
  have e: "ring_ok (fst (enqueue d0 d1 d2 d3 r m))" if "ring_ok r" for d0 d1 d2 d3 r m
    using that by (simp add: enqueue_ring advance_ok)
  have "ring_ok (x_ep0 x)" using assms by (simp add: xh_ok_def)
  then have "ring_ok (x_ep0 (ep0_setup bb q v i l data dir x))"
    by (simp add: ep0_setup_def Let_def case_prod_unfold xh_wr32_def e c)
  then show ?thesis
    using assms by (simp add: xh_ok_def ep0_setup_def Let_def case_prod_unfold xh_wr32_def)
qed

lemma ep0_events_ok: "ep0_events dev n wl x = (r, x') \<Longrightarrow> xh_ok x \<Longrightarrow> xh_ok x'"
  by (induction n arbitrary: x)
     (auto simp: ev_wait_def split: prod.splits option.splits if_splits dest: wait_loop_ok)

lemma ep0_ctrl_ok: "ep0_ctrl dev b q v i l data dir x = (r, x') \<Longrightarrow> xh_ok x \<Longrightarrow> xh_ok x'"
  unfolding ep0_ctrl_def using ep0_events_ok ep0_setup_ok by blast

lemma port_ok: "port_sc dev p x = (s, x') \<Longrightarrow> xh_ok x' = xh_ok x"
  by (simp add: port_sc_def re32_ok)

lemma port_wait_ok: "xh_ok (port_reset_wait dev n p x) = xh_ok x"
  by (induction n arbitrary: x) (auto split: prod.splits dest: port_ok)

lemma find_port_ok: "find_port_loop dev ps x = (p, x') \<Longrightarrow> xh_ok x' = xh_ok x"
proof (induction ps arbitrary: x)
  case (Cons q qs)
  show ?case
    using Cons by (auto simp: Let_def port_wait_ok split: prod.splits if_splits dest!: port_ok)
      (metis port_ok port_wait_ok prod.collapse wr_ok(1))+
qed simp

lemma address_ok: "xhci_address_device dev x = (r, x') \<Longrightarrow> xh_ok x \<Longrightarrow> xh_ok x'"
  by (auto simp: xhci_address_device_def cmd_wait_def Let_def split: prod.splits if_splits
      dest!: mpage_ok cmd_wait_ok intro: cmd_run_ok)

lemma configure_ok: "xhci_configure_endpoint dev x = (r, x') \<Longrightarrow> xh_ok x \<Longrightarrow> xh_ok x'"
  by (auto simp: xhci_configure_endpoint_def cmd_wait_def Let_def split: prod.splits if_splits
      dest!: mpage_ok cmd_wait_ok intro: cmd_run_ok)

lemma descriptors_ok: "xhci_get_descriptors dev dv cf x = Some (r, x') \<Longrightarrow> xh_ok x \<Longrightarrow> xh_ok x'"
  by (auto simp: xhci_get_descriptors_def Let_def split: prod.splits if_splits walk.splits
      dest!: ep0_ctrl_ok)

lemma enumerate_ok:
  assumes "xhci_enumerate dev dv cf x = Some (r, x')" "xh_ok x"
  shows "xh_ok x'"
proof -
  obtain p x1 where p: "xhci_find_device_port dev x = (p, x1)" by fastforce
  have x1: "xh_ok x1" using find_port_ok p assms(2) by (auto simp: xhci_find_device_port_def)
  obtain s x2 where s: "port_sc dev (p - 1) (x1\<lparr>x_portnum := of_nat p\<rparr>) = (s, x2)" by fastforce
  have x2: "xh_ok x2" using port_ok [OF s] x1 by simp
  show ?thesis
  proof (cases "p = 0")
    case True
    then show ?thesis using assms(1) p x1 by (simp add: xhci_enumerate_def)
  next
    case False
    let ?x3 = "cmd_run 0 0 0 TRB_T_ENSLC (x2\<lparr>x_speed := slot_speed (drop_bit 10 s AND 0xF)\<rparr>)"
    obtain c e x4 where c: "cmd_wait dev ?x3 = (c, e, x4)" by (metis prod_cases3)
    have x4: "xh_ok x4" using cmd_wait_ok c cmd_run_ok x2 unfolding cmd_wait_def by (metis xh_ok_upd(9))
    show ?thesis
      using assms(1) False p s c x4
      by (auto simp: xhci_enumerate_def Let_def split: option.splits prod.splits if_splits
          dest!: mpage_ok address_ok descriptors_ok configure_ok)
  qed
qed

lemma read_hid_ok:
  assumes "xhci_kbd_read_hid dev mx x = (r, bs, x')" "xh_ok x"
  shows "xh_ok x'"
proof -
  have h: "hid_events dev n mx y = (r, bs, x') \<Longrightarrow> xh_ok y \<Longrightarrow> xh_ok x'" for n y
    by (induction n arbitrary: y)
       (auto simp: Let_def split: prod.splits option.splits if_splits dest: peek_ok)
  show ?thesis
  proof (cases "x_kbd x")
    case True
    show ?thesis
    proof (cases "x_sub x")
      case None
      let ?x1 = "clear_buf (x_buf x) 8 x"
      have x1: "xh_ok ?x1" using assms(2) by simp
      then have "ring_ok (fst (enqueue d0 d1 d2 d3 (x_ep1 ?x1) m))" for d0 d1 d2 d3 m
        by (simp add: enqueue_ring advance_ok xh_ok_def)
      then show ?thesis
        using assms(1) True None x1
        by (auto simp: xhci_kbd_read_hid_def Let_def case_prod_unfold xh_ok_def xh_wr32_def)
    next
      case (Some i)
      then show ?thesis using assms True h by (simp add: xhci_kbd_read_hid_def)
    qed
  qed (use assms in \<open>simp add: xhci_kbd_read_hid_def\<close>)
qed

lemma ring_init_ok: "r_ccs r \<in> {0, 1} \<Longrightarrow> ring_ok (fst (ring_init r m))"
  by (simp add: ring_init_def ring_ok_def Let_def)

lemma enable_ok:
  assumes "r_ccs (x_cr x) \<in> {0, 1}" "r_ccs (x_ep0 x) \<in> {0, 1}" "r_ccs (x_ep1 x) \<in> {0, 1}"
    "r_idx (x_er x) < XH_TRBS"
  shows "xh_ok (xhci_enable dev x)"
proof -
  have o: "xh_ok (x\<lparr>x_cr := fst (ring_init (x_cr x) m1), x_ep0 := fst (ring_init (x_ep0 x) m2),
      x_ep1 := fst (ring_init (x_ep1 x) m3)\<rparr>)" for m1 m2 m3
    using assms ring_init_ok by (simp add: xh_ok_def)
  have r: "xh_ok (snd (xh_re32 dev b off y)) = xh_ok y" for b off y
    by (simp add: xh_re32_def Let_def)
  show ?thesis
    by (simp add: xhci_enable_def Let_def case_prod_unfold r xh_wait_def o)
qed

section \<open>What a report becomes\<close>

lemma hid_first:
  assumes "ev_peek dev x = (Some e, x')" "EV_TYPE e = EVT_TRANSFER" "EV_PTR e = x_trb x'" "EV_CODE e = 1"
  shows "hid_events dev (Suc n) mx x =
    (uint (if mx < EV_LEN e then mx else EV_LEN e),
     buf_bytes (x_buf x') (unat (if mx < EV_LEN e then mx else EV_LEN e)) (x'\<lparr>x_sub := None\<rparr>),
     x'\<lparr>x_sub := None\<rparr>)"
  using assms by (simp add: Let_def)

definition fresh_xh :: "xh \<Rightarrow> bool" where
  "fresh_xh x \<longleftrightarrow> r_ccs (x_cr x) = 1 \<and> r_ccs (x_ep0 x) = 1 \<and> r_ccs (x_ep1 x) = 1
     \<and> r_idx (x_er x) = 0"

lemma reset_ccs:
  "x_cr (xhci_reset dev x) = x_cr x \<and> x_ep0 (xhci_reset dev x) = x_ep0 x
   \<and> x_ep1 (xhci_reset dev x) = x_ep1 x \<and> x_er (xhci_reset dev x) = x_er x"
proof -
  have w: "x_cr (xh_wait_loop dev n m b y) = x_cr y \<and> x_ep0 (xh_wait_loop dev n m b y) = x_ep0 y
      \<and> x_ep1 (xh_wait_loop dev n m b y) = x_ep1 y \<and> x_er (xh_wait_loop dev n m b y) = x_er y" for n m b y
    by (induction n arbitrary: y) (auto simp: xh_re32_def tick_def Let_def)
  show ?thesis by (simp add: xhci_reset_def xh_wait_def Let_def w xh_wr32_def)
qed

lemma mpage_rings:
  "x_cr (snd (xh_mpage x)) = x_cr x \<and> x_ep0 (snd (xh_mpage x)) = x_ep0 x
   \<and> x_ep1 (snd (xh_mpage x)) = x_ep1 x \<and> x_er (snd (xh_mpage x)) = x_er x"
  by (simp add: xh_mpage_def split: prod.splits)

lemma init_ok:
  assumes "xhci_init dev bar x = (0, x')" "fresh_xh x"
  shows "xh_ok x'"
proof -
  have r: "x_cr (snd (xh_re32 dev b off y)) = x_cr y \<and> x_ep0 (snd (xh_re32 dev b off y)) = x_ep0 y
      \<and> x_ep1 (snd (xh_re32 dev b off y)) = x_ep1 y \<and> x_er (snd (xh_re32 dev b off y)) = x_er y" for b off y
    by (simp add: xh_re32_def tick_def Let_def)
  obtain y where y: "x' = xhci_enable dev (xhci_reset dev y)"
      "r_ccs (x_cr y) = 1" "r_ccs (x_ep0 y) = 1" "r_ccs (x_ep1 y) = 1" "r_idx (x_er y) = 0"
    using assms
    by (auto simp: xhci_init_def Let_def case_prod_unfold fresh_xh_def r mpage_rings split: if_splits)
  show ?thesis
    unfolding y(1) by (rule enable_ok) (simp_all add: reset_ccs y XH_TRBS_def)
qed

section \<open>Properties\<close>

fun read_reports :: "nat \<Rightarrow> device \<Rightarrow> usb \<Rightarrow> xh \<Rightarrow> xh" where
  "read_reports 0 dev u x = x"
| "read_reports (Suc n) dev u x = (case usb_kbd_read_report dev x u of (_, _, x') \<Rightarrow> read_reports n dev u x')"

text \<open>Whatever the controller does, from its start through the enumeration and any
  number of reports read, every producer index stays before the link TRB at slot 15, so no
  TRB of the driver overwrites it, and the event index stays in its ring.\<close>

theorem rings_in_bounds:
  assumes "fresh_xh x" "usb_enumerate_hid_keyboard pci dev devd cfg x u = Some (True, x', u')"
  shows "xh_ok (read_reports n dev u' x')"
proof -
  have "xh_ok x'"
    using assms
    by (auto simp: usb_enumerate_hid_keyboard_def Let_def split: if_splits prod.splits option.splits
        dest: init_ok enumerate_ok)
  then show ?thesis
  proof (induction n arbitrary: x')
    case (Suc n)
    obtain r bs y where y: "usb_kbd_read_report dev x' u' = (r, bs, y)" by (metis prod_cases3)
    then have "xh_ok y"
      using Suc.prems read_hid_ok by (auto simp: usb_kbd_read_report_def split: if_splits)
    then show ?case using Suc.IH y by simp
  qed simp
qed

text \<open>The n-th TRB put on a ring goes to slot n mod 15, with the cycle bit of its lap.\<close>

theorem ring_position:
  "fst (enqueue_all ts (nth_ring r 0, m)) = nth_ring r (length ts)"
  using enqueue_all_from [of ts r 0 m] by simp

lemma ld_st_other:
  assumes "\<And>i j. i < 4 \<Longrightarrow> j < 4 \<Longrightarrow> b + of_nat i \<noteq> a + of_nat j"
  shows "ld32 (st32 a v m) b = ld32 m b"
  using assms [of 0 0] assms [of 0 1] assms [of 0 2] assms [of 0 3]
    assms [of 1 0] assms [of 1 1] assms [of 1 2] assms [of 1 3]
    assms [of 2 0] assms [of 2 1] assms [of 2 2] assms [of 2 3]
    assms [of 3 0] assms [of 3 1] assms [of 3 2] assms [of 3 3]
  by (simp add: ld32_def st32_def)

text \<open>When the ring wraps, the link TRB gets the cycle bit of the next lap, the
  opposite of the TRB queued just before it; the controller, which takes a TRB only when its
  cycle bit is that of the lap, stops there.\<close>

theorem link_cycle_ahead:
  assumes "r_idx r = 14" "r_ccs r \<in> {0, 1}" "d3 AND 1 = 0" "enqueue d0 d1 d2 d3 r m = (r', m')"
  shows "ld32 m' (trb_addr r 14 + 12) AND 1 = r_ccs r
    \<and> ld32 m' (trb_addr r 15 + 12) AND 1 = r_ccs r XOR 1 \<and> r_ccs r' = r_ccs r XOR 1"
proof -
  define a where "a = r_base r"
  have ad: "trb_addr r 14 = a + 224" "trb_addr r 15 = a + 240"
    by (simp_all add: trb_addr_def a_def)
  define m1 where "m1 = st32 (a + 232) d2 (st32 (a + 228) d1 (st32 (a + 224) d0 m))"
  have m: "m' = st32 (a + 252) (link_word (r_ccs r XOR 1)) (st32 (a + 236) (d3 OR r_ccs r) m1)"
    and r: "r_ccs r' = r_ccs r XOR 1"
    using assms(1,4) by (auto simp: enqueue_def advance_def Let_def put_trb_def ad m1_def ac_simps)
  have n: "a + 236 + of_nat i \<noteq> a + 252 + (of_nat j :: u64)" if "i < 4" "j < 4" for i j
  proof -
    have "i \<in> {0, 1, 2, 3}" "j \<in> {0, 1, 2, 3}" using that by auto
    then show ?thesis by auto
  qed
  have "ld32 m' (a + 236) = d3 OR r_ccs r"
    unfolding m by (subst ld_st_other [OF n]) (simp_all add: ld_st_same)
  moreover have "(d3 OR r_ccs r) AND 1 = r_ccs r"
    using assms(2,3) by (auto simp: bit.conj_disj_distrib2)
  moreover have "link_word c AND 1 = c AND 1" for c
    by (simp add: link_word_def bit.conj_disj_distrib2 TRB_T_LINK_def TRB_TLINK_TC_def)
  moreover have "(r_ccs r XOR 1) AND 1 = r_ccs r XOR 1" using assms(2) by auto
  moreover have "ld32 m' (a + 252) = link_word (r_ccs r XOR 1)" by (simp add: m ld_st_same)
  moreover have "trb_addr r 14 + 12 = a + 236" "trb_addr r 15 + 12 = a + 252"
    by (simp_all add: ad ac_simps)
  ultimately show ?thesis using r by presburger
qed

definition lap_ring :: ring where
  "lap_ring = \<lparr>r_base = 0x2000, r_idx = 14, r_ccs = 1\<rparr>"

lemma link_cycle_ahead_witness:
  "let (r', m') = enqueue 1 2 3 0x400 lap_ring (\<lambda>_. 0) in
    ld32 m' (trb_addr lap_ring 14 + 12) AND 1 = r_ccs lap_ring
    \<and> ld32 m' (trb_addr lap_ring 15 + 12) AND 1 = r_ccs lap_ring XOR 1 \<and> r_ccs r' = r_ccs lap_ring XOR 1"
proof -
  obtain r' m' where e: "enqueue 1 2 3 0x400 lap_ring (\<lambda>_. 0) = (r', m')" by fastforce
  show ?thesis
    unfolding e Let_def prod.case
    by (rule link_cycle_ahead [OF _ _ _ e]) (simp_all add: lap_ring_def)
qed

text \<open>The event of a transfer holds the number of bytes not transferred.  A
  report that arrives complete has 0 there, which \<open>xhci_kbd_read_hid\<close> takes for the length:
  it copies nothing and returns 0, and \<open>usb_kbd_getc\<close> reports no key.\<close>

theorem full_report_lost:
  assumes "x_kbd x" "x_sub x = Some i"
    and "ev_peek dev (xh_wr32 (xh_dbr x) ((x_slot x AND 0xFF) * 4) DB1IN x) = (Some e, x')"
    and "EV_TYPE e = EVT_TRANSFER" "EV_PTR e = x_trb x'" "EV_CODE e = 1" "EV_LEN e = 0"
  shows "usb_kbd_read_report dev x u = (0, [], x'\<lparr>x_sub := None\<rparr>)
    \<and> usb_kbd_getc (fst (usb_kbd_read_report dev x u), report) k = (None, k)"
proof -
  have "hid_events dev (Suc 255) 8 (xh_wr32 (xh_dbr x) ((x_slot x AND 0xFF) * 4) DB1IN x)
      = (0, [], x'\<lparr>x_sub := None\<rparr>)"
    using assms(7) by (subst hid_first [OF assms(3-6)]) (simp add: buf_bytes_def)
  then have "usb_kbd_read_report dev x u = (0, [], x'\<lparr>x_sub := None\<rparr>)"
    using assms(1,2) by (simp add: usb_kbd_read_report_def xhci_kbd_read_hid_def)
  then show ?thesis by (simp add: usb_kbd_getc_def)
qed

definition report_xh :: xh where
  "report_xh = \<lparr>x_mem = (\<lambda>a. if a = 0x1001 then 0x20 else if a = 0x100B then 1 else if a = 0x100C then 1
       else if a = 0x100D then 0x80 else 0), x_time = 0, x_pmm = small_pool, x_mmio = 0x100000,
     x_kphys = 0, x_dcbaa = 0, x_erst = 0, x_cr = lap_ring, x_er = \<lparr>r_base = 0x1000, r_idx = 0, r_ccs = 1\<rparr>,
     x_ep0 = lap_ring, x_ep1 = lap_ring, x_pad = 0x20, x_dboff = 0x2000, x_rts = 0x1000, x_ports = 4,
     x_slot = 1, x_portnum = 1, x_speed = 2, x_devctx = 0x3000, x_kbd = True, x_mps = 8, x_itv = 1,
     x_buf = 0x4000, x_sub = Some 0, x_trb = 0x2000\<rparr>"

lemma full_report_lost_witness:
  "\<exists>y. usb_kbd_read_report (\<lambda>_ m. m) report_xh \<lparr>u_config = True, u_report = [], u_init = False, u_irq = 0\<rparr>
      = (0, [], y)"
proof -
  let ?x = "xh_wr32 (xh_dbr report_xh) ((x_slot report_xh AND 0xFF) * 4) DB1IN report_xh"
  let ?e = "\<lparr>ev_dw0 = 0x2000, ev_dw1 = 0, ev_dw2 = 0x1000000, ev_dw3 = 0x8001\<rparr>"
  have e: "ev_peek (\<lambda>_ m. m) ?x = (Some ?e, snd (ev_peek (\<lambda>_ m. m) ?x))"
    by (simp add: ev_peek_def tick_def Let_def event_at_def trb_addr_def ld32_def st32_def
        report_xh_def xh_wr32_def xh_dbr_def DB1IN_def)
  have t: "x_trb (snd (ev_peek (\<lambda>_ m. m) ?x)) = 0x2000"
    by (simp add: ev_peek_def tick_def Let_def report_xh_def xh_wr32_def xh_wr64_parts_def)
  have "usb_kbd_read_report (\<lambda>_ m. m) report_xh u
      = (0, [], (snd (ev_peek (\<lambda>_ m. m) ?x))\<lparr>x_sub := None\<rparr>)" for u
    by (rule full_report_lost [THEN conjunct1, OF _ _ e])
       (simp_all add: t EV_TYPE_def EV_PTR_def EV_CODE_def EV_LEN_def EVT_TRANSFER_def,
        simp_all add: report_xh_def)
  then show ?thesis by blast
qed

text \<open>The endpoint is looked for inside the 512 bytes as long as the descriptors
  take at most 507; the code admits up to 512.\<close>

theorem walk_inside:
  "length cfg = 512 \<Longrightarrow> tot \<le> 507 \<Longrightarrow> endpoint_walk cfg tot off \<noteq> Outside"
proof (induction cfg tot off rule: endpoint_walk.induct)
  case (1 cfg tot off)
  show ?case
  proof (cases "tot \<le> off + 1")
    case True
    then show ?thesis by (subst endpoint_walk.simps) simp
  next
    case False
    then have b: "\<not> length cfg \<le> off + 6" "\<not> length cfg \<le> off + 3" using "1.prems" by auto
    have rec: "endpoint_walk cfg tot (off + unat (cfg ! off)) \<noteq> Outside"
      if "cfg ! off \<noteq> 0" "\<not> (cfg ! (off + 1) = 5 \<and> cfg ! (off + 2) AND 0x80 \<noteq> 0 \<and> cfg ! (off + 3) AND 3 = 3)"
      using "1.IH" [OF False refl refl that(1) _ that(2)] b "1.prems" by blast
    show ?thesis
      using False b rec by (subst endpoint_walk.simps) (auto simp: Let_def)
  qed
qed

text \<open>An endpoint descriptor cut off at the end of the buffer.\<close>

definition cut_descriptor :: "u8 list" where
  "cut_descriptor = [255, 2] @ replicate 253 0 @ [255, 4] @ replicate 253 0 @ [2, 5]"

lemma walk_inside_witness:
  "endpoint_walk cut_descriptor 507 0 \<noteq> Outside \<and> endpoint_walk cut_descriptor 512 0 = Outside"
proof
  have l: "length cut_descriptor = 512" by (simp add: cut_descriptor_def)
  then show "endpoint_walk cut_descriptor 507 0 \<noteq> Outside" by (rule walk_inside) simp
  have n: "cut_descriptor ! 0 = 255" "cut_descriptor ! 1 = 2" "cut_descriptor ! 255 = 255"
    "cut_descriptor ! 256 = 4" "cut_descriptor ! 510 = 2" "cut_descriptor ! 511 = 5"
    by (simp_all add: cut_descriptor_def nth_append)
  have "endpoint_walk cut_descriptor 512 510 = Outside"
    using n l by (subst endpoint_walk.simps) (simp add: Let_def)
  then have "endpoint_walk cut_descriptor 512 255 = Outside"
    using n by (subst endpoint_walk.simps) (simp add: Let_def)
  then show "endpoint_walk cut_descriptor 512 0 = Outside"
    using n by (subst endpoint_walk.simps) (simp add: Let_def)
qed

end
