(* ===== verification/Spud.thy ===== *)
theory Spud
  imports Ipc Svc Format
begin

text \<open>
  The library of the ring-3 programs, src/userspace/spud.h: its string functions,
  line input, the loop of a service, and the clients of the services.

  A program sees the kernel through its calls only.  What the calls of a client
  answer, while other processes run in between, is a record of lists; the loop of a
  service is written over the message queues of \<open>Ipc\<close>.
\<close>

unbundle bit_operations_syntax

section \<open>Strings\<close>

fun spud_len :: "string \<Rightarrow> nat" where
  "spud_len [] = 0"
| "spud_len (c # s) = (if c = NUL then 0 else Suc (spud_len s))"

fun spud_cmp :: "string \<Rightarrow> string \<Rightarrow> int" where
  "spud_cmp [] [] = 0"
| "spud_cmp [] (d # b) = - int (of_char d)"
| "spud_cmp (c # a) [] = int (of_char c)"
| "spud_cmp (c # a) (d # b) =
    (if c \<noteq> NUL \<and> c = d then spud_cmp a b else int (of_char c) - int (of_char d))"

text \<open>The text a copy leaves in a buffer of the size given.\<close>

definition spud_ncpy :: "string \<Rightarrow> nat \<Rightarrow> string" where
  "spud_ncpy s mx = take (mx - 1) (cstr s)"

definition spud_ncat :: "string \<Rightarrow> string \<Rightarrow> nat \<Rightarrow> string" where
  "spud_ncat d s mx = cstr d @ take (mx - 1 - length (cstr d)) (cstr s)"

fun spud_memcmp :: "string \<Rightarrow> string \<Rightarrow> nat \<Rightarrow> int" where
  "spud_memcmp a b 0 = 0"
| "spud_memcmp a b (Suc n) = (if hd a \<noteq> hd b then 1 else spud_memcmp (tl a) (tl b) n)"

text \<open>Whether a text starts with another, and the offset of the first occurrence.\<close>

fun starts :: "string \<Rightarrow> string \<Rightarrow> bool" where
  "starts hay [] = True"
| "starts hay (n # ns) = (n = NUL \<or> (hay \<noteq> [] \<and> hd hay = n \<and> starts (tl hay) ns))"

fun strstr_loop :: "string \<Rightarrow> string \<Rightarrow> nat \<Rightarrow> nat option" where
  "strstr_loop [] needle i = None"
| "strstr_loop (c # s) needle i =
    (if c = NUL then None else if starts (c # s) needle then Some i else strstr_loop s needle (Suc i))"

definition spud_strstr :: "string \<Rightarrow> string \<Rightarrow> nat option" where
  "spud_strstr hay needle = (if cstr needle = [] then Some 0 else strstr_loop hay needle 0)"

definition spud_print_dec :: "nat \<Rightarrow> string" where
  "spud_print_dec v = (if v = 0 then ''0'' else rev (dec_rev 1 v))"

section \<open>Lines\<close>

text \<open>The characters \<open>spud_getc\<close> delivers are the input.  The text, the input left, and
  what is echoed; \<^const>\<open>None\<close> while the line is not ended.\<close>

fun readline_loop ::
    "nat \<Rightarrow> bool \<Rightarrow> bool \<Rightarrow> string \<Rightarrow> string \<Rightarrow> string \<Rightarrow> (string \<times> string \<times> string) option" where
  "readline_loop mx echo msk [] buf out = None"
| "readline_loop mx echo msk (c # keys) buf out =
    (if c = CHR 0x0A \<or> c = CHR 0x0D then Some (buf, keys, out)
     else if c = CHR 0x08 \<or> c = CHR 0x7F then
       (if buf \<noteq> [] then readline_loop mx echo msk keys (butlast buf)
          (out @ (if echo \<or> msk then [CHR 0x08, CHR '' '', CHR 0x08] else []))
        else readline_loop mx echo msk keys buf out)
     else if ord8 c < 32 \<or> 126 < ord8 c then readline_loop mx echo msk keys buf out
     else if mx \<le> length buf + 1 then Some (buf, keys, out)
     else readline_loop mx echo msk keys (buf @ [c])
       (out @ (if echo then [c] else []) @ (if msk then ''*'' else [])))"

definition spud_readline :: "nat \<Rightarrow> bool \<Rightarrow> bool \<Rightarrow> string \<Rightarrow> (string \<times> string \<times> string) option" where
  "spud_readline mx echo msk keys = readline_loop mx echo msk keys [] []"

definition ln :: "string \<Rightarrow> string" where "ln s = s @ [CHR 0x0A]"

definition spud_resolve :: "string option \<Rightarrow> string option \<Rightarrow> nat \<Rightarrow> string" where
  "spud_resolve arg cwd mx =
    (let base = spud_ncpy (case cwd of None \<Rightarrow> ''/praxis'' | Some c \<Rightarrow> c) mx in
     case arg of
       None \<Rightarrow> base
     | Some a \<Rightarrow>
        if cstr a = [] then base
        else if hd a = CHR ''/'' then spud_ncpy a mx
        else spud_ncat (spud_ncat base ''/'' mx) a mx)"

section \<open>The loop of a service\<close>

definition IPC_TYPE_PING :: u32 where "IPC_TYPE_PING = 1"
definition IPC_TYPE_READ :: u32 where "IPC_TYPE_READ = 2"
definition IPC_TYPE_LIST :: u32 where "IPC_TYPE_LIST = 3"
definition IPC_TYPE_UPTIME :: u32 where "IPC_TYPE_UPTIME = 4"
definition IPC_TYPE_SYSINFO :: u32 where "IPC_TYPE_SYSINFO = 5"
definition IPC_TYPE_FS_CREATE :: u32 where "IPC_TYPE_FS_CREATE = 11"
definition IPC_TYPE_FS_WRITE :: u32 where "IPC_TYPE_FS_WRITE = 12"
definition IPC_TYPE_FS_REMOVE :: u32 where "IPC_TYPE_FS_REMOVE = 13"
definition IPC_TYPE_FS_AUDIT :: u32 where "IPC_TYPE_FS_AUDIT = 14"
definition IPC_TYPE_FS_MKDIR :: u32 where "IPC_TYPE_FS_MKDIR = 15"
definition IPC_TYPE_AUTH_COUNT :: u32 where "IPC_TYPE_AUTH_COUNT = 20"
definition IPC_TYPE_AUTH_CREATE :: u32 where "IPC_TYPE_AUTH_CREATE = 21"
definition IPC_TYPE_AUTH_LOGIN :: u32 where "IPC_TYPE_AUTH_LOGIN = 22"
definition IPC_TYPE_AUTH_LIST :: u32 where "IPC_TYPE_AUTH_LIST = 23"
definition IPC_TYPE_AUTH_DELETE :: u32 where "IPC_TYPE_AUTH_DELETE = 24"
definition IPC_TYPE_AUTH_CHANGEPW :: u32 where "IPC_TYPE_AUTH_CHANGEPW = 25"
definition IPC_TYPE_AUTH_CREATE_USER :: u32 where "IPC_TYPE_AUTH_CREATE_USER = 26"
definition IPC_TYPE_SYN_LIST :: u32 where "IPC_TYPE_SYN_LIST = 30"
definition IPC_TYPE_SYN_READ :: u32 where "IPC_TYPE_SYN_READ = 31"
definition IPC_TYPE_SYN_CONSENT :: u32 where "IPC_TYPE_SYN_CONSENT = 32"
definition IPC_TYPE_SYN_REVOKE :: u32 where "IPC_TYPE_SYN_REVOKE = 33"
definition IPC_TYPE_SYN_AUDIT :: u32 where "IPC_TYPE_SYN_AUDIT = 34"

definition REQ_MAX :: nat where "REQ_MAX = 512"
definition RESP_MAX :: nat where "RESP_MAX = 4096"

text \<open>A handler of a service with the store \<open>'s\<close>: the sender, the type and the request
  give the bytes of the reply, or none, and the store.\<close>

type_synonym 's handler = "u32 \<Rightarrow> u32 \<Rightarrow> string \<Rightarrow> 's \<Rightarrow> string option \<times> 's"

text \<open>A turn of the loop: nothing arrived, a request was served, or the terminator of
  the request was stored behind its buffer.\<close>

datatype 's turn = Idle sys ipc | Served 's sys ipc | Overrun

definition serve_turn :: "'s handler \<Rightarrow> 's \<Rightarrow> sys \<Rightarrow> ipc \<Rightarrow> 's turn" where
  "serve_turn h st s q =
    (case ipc_try_receive REQ_MAX s q of
       (RMsg from type req, s, q) \<Rightarrow>
         if REQ_MAX \<le> length req then Overrun
         else (case h from type req st of
            (None, st) \<Rightarrow> Served st s q
          | (Some resp, st) \<Rightarrow> (case ipc_reply from type resp s q of (_, s, q) \<Rightarrow> Served st s q))
     | (_, s, q) \<Rightarrow> Idle (sched_yield s) q)"

text \<open>The registration before the loop; a failure ends the service.\<close>

definition serve_start :: "string \<Rightarrow> sys \<Rightarrow> svc \<Rightarrow> (bool \<times> svc)" where
  "serve_start name s v = (case svc_register (Some name) s v of (r, v) \<Rightarrow> (r = 0, v))"

section \<open>Calling a service\<close>

text \<open>What the kernel answers to a client: to the queries for the name (status and pid),
  to the send, and to the receives.\<close>

record answers =
  rq_query :: "(int \<times> u32) list"
  rq_send :: int
  rq_recv :: "recv list"

fun query_retry :: "nat \<Rightarrow> (int \<times> u32) list \<Rightarrow> u32 option" where
  "query_retry 0 qs = None"
| "query_retry (Suc n) [] = None"
| "query_retry (Suc n) ((q, pid) # qs) = (if q = uint pid \<and> 0 < pid then Some pid else query_retry n qs)"

definition spud_svc_query_retry :: "(int \<times> u32) list \<Rightarrow> u32 option" where
  "spud_svc_query_retry qs = query_retry 2000 qs"

fun recv_retry :: "nat \<Rightarrow> recv list \<Rightarrow> (u32 \<times> u32 \<times> string) option" where
  "recv_retry 0 rs = None"
| "recv_retry (Suc n) [] = None"
| "recv_retry (Suc n) (r # rs) =
    (case r of RMsg from type d \<Rightarrow> Some (from, type, d) | _ \<Rightarrow> recv_retry n rs)"

definition spud_ipc_recv_retry :: "recv list \<Rightarrow> (u32 \<times> u32 \<times> string) option" where
  "spud_ipc_recv_retry rs = recv_retry 50000 rs"

text \<open>The body shared by \<open>spud_auth_rpc\<close>, \<open>spud_fsd_rpc\<close> and \<open>spud_synd_rpc\<close>: the bytes of the
  reply, or none.\<close>

definition spud_rpc :: "answers \<Rightarrow> u32 \<Rightarrow> string option" where
  "spud_rpc a type =
    (case spud_svc_query_retry (rq_query a) of
       None \<Rightarrow> None
     | Some svc \<Rightarrow>
        if rq_send a \<noteq> 0 then None
        else case spud_ipc_recv_retry (rq_recv a) of
          None \<Rightarrow> None
        | Some (from, rt, d) \<Rightarrow> if rt \<noteq> type \<or> from \<noteq> svc then None else Some d)"

text \<open>The fields of a request, each ended with a NUL, in a buffer of the size given.\<close>

fun pack_fields :: "nat \<Rightarrow> string list \<Rightarrow> string \<Rightarrow> string" where
  "pack_fields mx [] req = req"
| "pack_fields mx (f # fs) req =
    (let req = req @ take (mx - 1 - length req) (cstr f)
     in if length req + 1 < mx then pack_fields mx fs (req @ [NUL]) else req)"

definition spud_auth_pack :: "nat \<Rightarrow> string \<Rightarrow> string option \<Rightarrow> string option \<Rightarrow> string" where
  "spud_auth_pack mx a b c =
    pack_fields mx
      (case c of
         Some t \<Rightarrow> [a, (case b of None \<Rightarrow> '''' | Some s \<Rightarrow> s), t]
       | None \<Rightarrow> (case b of Some s \<Rightarrow> [a, s] | None \<Rightarrow> [a])) []"

text \<open>The requests of the clients of \<open>authd\<close>.\<close>

definition auth_create_req :: "string \<Rightarrow> string \<Rightarrow> string" where
  "auth_create_req user pass = spud_auth_pack 128 user (Some pass) None"

definition auth_login_req :: "string \<Rightarrow> string \<Rightarrow> string" where
  "auth_login_req user pass = spud_auth_pack 128 user (Some pass) None"

definition auth_changepw_req :: "string \<Rightarrow> string \<Rightarrow> string \<Rightarrow> string" where
  "auth_changepw_req who oldp newp = spud_auth_pack 196 who (Some oldp) (Some newp)"

definition auth_create_user_req :: "string \<Rightarrow> string \<Rightarrow> string" where
  "auth_create_user_req name pass = spud_auth_pack 128 name (Some pass) None"

text \<open>What the clients make of a reply; without one they use the result of the kernel's
  own call.\<close>

definition reply_flag :: "string option \<Rightarrow> int \<Rightarrow> int" where
  "reply_flag reply kr = (case reply of None \<Rightarrow> kr | Some d \<Rightarrow> if d \<noteq> [] \<and> hd d = CHR ''1'' then 1 else 0)"

fun parse_count :: "nat \<Rightarrow> string \<Rightarrow> int \<Rightarrow> int" where
  "parse_count 0 s v = v"
| "parse_count (Suc n) [] v = v"
| "parse_count (Suc n) (c # s) v =
    (if ord8 c < 48 \<or> 57 < ord8 c then v else parse_count n s (v * 10 + int (ord8 c - 48)))"

definition spud_auth_count :: "string option \<Rightarrow> int \<Rightarrow> int" where
  "spud_auth_count reply kr = (case reply of None \<Rightarrow> kr | Some d \<Rightarrow> parse_count 31 d 0)"

definition hex_digit_of :: "char \<Rightarrow> nat option" where
  "hex_digit_of c =
    (let n = ord8 c in
     if 48 \<le> n \<and> n \<le> 57 then Some (n - 48)
     else if 97 \<le> n \<and> n \<le> 102 then Some (n - 97 + 10)
     else if 65 \<le> n \<and> n \<le> 70 then Some (n - 65 + 10) else None)"

fun parse_ticket :: "string \<Rightarrow> u64 \<Rightarrow> u64 option" where
  "parse_ticket [] v = Some v"
| "parse_ticket (c # s) v =
    (case hex_digit_of c of None \<Rightarrow> None | Some d \<Rightarrow> parse_ticket s (push_bit 4 v OR of_nat d))"

text \<open>The result and the token.\<close>

definition spud_auth_login :: "string option \<Rightarrow> int \<Rightarrow> int \<times> u64" where
  "spud_auth_login reply kr =
    (case reply of
       None \<Rightarrow> (kr, 0)
     | Some d \<Rightarrow>
        if length d = 1 \<and> hd d = CHR ''0'' then (0, 0)
        else if length d = 16 then (case parse_ticket d 0 of None \<Rightarrow> (0, 0) | Some v \<Rightarrow> (1, v))
        else (0, 0))"

text \<open>The request of \<open>spud_fsd_write\<close>: the path, a line feed and as much of the data as
  fits 383 bytes.\<close>

definition fsd_write_req :: "string \<Rightarrow> string \<Rightarrow> string" where
  "fsd_write_req path data =
    (let req = take 383 (cstr path); req = (if length req + 1 < 384 then req @ [CHR 0x0A] else req)
     in req @ take (383 - length req) data)"

section \<open>Lemmas\<close>

lemma spud_len_cstr: "spud_len s = length (cstr s)"
  by (induction s) auto

lemma ord_pos: "c \<noteq> NUL \<Longrightarrow> 0 < ord8 c"
proof (rule ccontr)
  assume "c \<noteq> NUL" "\<not> 0 < ord8 c"
  then have "ord8 c = ord8 NUL" by simp
  then show False using \<open>c \<noteq> NUL\<close> of_char_eq_iff by blast
qed

lemma spud_cmp_iff: "spud_cmp a b = 0 \<longleftrightarrow> cstr a = cstr b"
  by (induction a b rule: spud_cmp.induct) (auto simp: ord_pos)

lemma pack_two:
  assumes "length (cstr a) + 1 < mx"
  shows "\<exists>r. spud_auth_pack mx a (Some b) c = cstr a @ NUL # r"
proof -
  have p: "\<exists>r. pack_fields mx fs req = req @ r" for fs req
    by (induction mx fs req rule: pack_fields.induct) (auto simp: Let_def)
  have "pack_fields mx (a # fs) [] = pack_fields mx fs (cstr a @ [NUL])" for fs
    using assms by (simp add: Let_def)
  then show ?thesis
    using p [of _ "cstr a @ [NUL]"] by (auto simp: spud_auth_pack_def simp del: pack_fields.simps split: option.split)
qed

text \<open>A line that can be typed.\<close>

lemma readline_shorter: "readline_loop mx e m keys buf out = Some (l, keys', o') \<Longrightarrow> length keys' < length keys"
proof (induction mx e m keys buf out rule: readline_loop.induct)
  case (2 mx echo msk c keys buf out)
  then show ?case by (auto split: if_splits)
qed simp

definition typable :: "string \<Rightarrow> bool" where
  "typable l \<longleftrightarrow> (\<forall>c\<in>set l. 32 \<le> ord8 c \<and> ord8 c \<le> 126)"

lemma readline_typable:
  "readline_loop mx e m keys buf out = Some (l, keys', o') \<Longrightarrow> typable buf \<Longrightarrow> typable l"
proof (induction mx e m keys buf out rule: readline_loop.induct)
  case (2 mx echo msk c keys buf out)
  have b: "typable (butlast buf)" using "2.prems"(2) by (auto simp: typable_def dest: in_set_butlastD)
  show ?case using 2 b by (auto simp: typable_def split: if_splits)
qed simp

lemma readline_line:
  assumes "typable l" "length buf + length l < mx"
  shows "\<exists>o'. readline_loop mx e m (l @ CHR 0x0A # keys) buf out = Some (buf @ l, keys, o')"
  using assms
proof (induction l arbitrary: buf out)
  case (Cons c l)
  have c: "32 \<le> ord8 c" "ord8 c \<le> 126" using Cons.prems(1) by (simp_all add: typable_def)
  have n: "c \<noteq> CHR 0x0A" "c \<noteq> CHR 0x0D" "c \<noteq> CHR 0x08" "c \<noteq> CHR 0x7F" using c by auto
  have "typable l" using Cons.prems(1) by (simp add: typable_def)
  from Cons.IH [OF this, of "buf @ [c]" "out @ (if e then [c] else []) @ (if m then ''*'' else [])"] Cons.prems(2)
  show ?case using c n by simp
qed simp

lemma typable_cstr: "typable l \<Longrightarrow> cstr l = l"
proof (rule cstr_id, rule notI)
  assume "typable l" "NUL \<in> set l"
  then have "32 \<le> ord8 NUL" by (auto simp: typable_def)
  then show False by simp
qed

end
