(* ===== verification/Authd.thy ===== *)
theory Authd
  imports Spud Syscall
begin

text \<open>
  The authentication service in ring 3, src/userspace/authd/authd.c: its table of
  accounts, its policy, and the handler of its requests.

  The hash is the call SYS_AUTH_HASH, an argument here: none when the call fails.
  Tickets are issued by the kernel, whose accounts record (\<open>Auth\<close>) is part of the
  state.  What \<open>rng\<close> reads of the kernel, the uptime and the two pids, and the entropy of
  a ticket are the environment of a request.
\<close>

unbundle bit_operations_syntax

section \<open>The store\<close>

record acct =
  at_name :: string
  at_hash :: string
  at_salt :: string
  at_caps :: u64
  at_active :: bool
  at_admin :: bool

text \<open>The first \<open>acct_n\<close> entries of \<open>accts\<close>, the flag \<open>admin_authed\<close>, the state of
  \<open>rng\<close>, and the kernel's record.\<close>

record authd =
  ad_accts :: "acct list"
  ad_admin_authed :: bool
  ad_rng :: u64
  ad_kernel :: auth

definition AUTH_MAX :: nat where "AUTH_MAX = 16"
definition CAP_API_ALL :: u64 where "CAP_API_ALL = 0xFFFFFFFFFFFFFFFF"
definition CAP_USER_DEFAULT :: u64 where
  "CAP_USER_DEFAULT = CAP_FB_DRAW OR CAP_AISTHESIS OR CAP_FS_READ OR CAP_IDIOS_WRITE"

record genv =
  ge_uptime :: "nat \<Rightarrow> u64"
  ge_pid :: u64
  ge_ppid :: u64
  ge_entropy :: entropy
  ge_hash :: "string \<Rightarrow> string \<Rightarrow> string option"

section \<open>Salts and hashes\<close>

definition rng :: "genv \<Rightarrow> nat \<Rightarrow> u64 \<Rightarrow> u64" where
  "rng e n st =
    (let x = st XOR push_bit 3 (ge_uptime e n) XOR push_bit 17 (ge_pid e) XOR push_bit 41 (ge_ppid e);
         x = x XOR push_bit 13 x; x = x XOR drop_bit 7 x; x = x XOR push_bit 17 x
     in x XOR 0x9E3779B97F4A7C15)"

definition hex_char :: "nat \<Rightarrow> char" where
  "hex_char d = ''0123456789abcdef'' ! d"

definition salt_pair :: "u64 \<Rightarrow> nat \<Rightarrow> string" where
  "salt_pair r i =
    (let v = unat (drop_bit (i * 7) r AND 0x3F) in [hex_char (v mod 16), hex_char (v div 8 mod 16)])"

text \<open>The salt and the generator; the readings of the uptime start at index \<open>n\<close>.\<close>

definition ad_gen_salt :: "genv \<Rightarrow> nat \<Rightarrow> authd \<Rightarrow> string \<times> authd" where
  "ad_gen_salt e n st =
    (let r1 = rng e n (ad_rng st); r2 = rng e (n + 1) r1
     in (concat (map (salt_pair r1) [0..<8]) @ concat (map (salt_pair r2) [0..<8]), st\<lparr>ad_rng := r2\<rparr>))"

definition authd_hash :: "genv \<Rightarrow> string \<Rightarrow> string \<Rightarrow> string" where
  "authd_hash e pw salt = (case ge_hash e (clip 63 pw) salt of None \<Rightarrow> '''' | Some h \<Rightarrow> h)"

definition dec_str :: "nat \<Rightarrow> string" where
  "dec_str v = (if v = 0 then ''0'' else rev (dec_rev 1 v))"

section \<open>Accounts\<close>

definition ad_find :: "string \<Rightarrow> authd \<Rightarrow> nat option" where
  "ad_find name st = first_index (\<lambda>u. at_active u \<and> spud_cmp (at_name u) name = 0) (ad_accts st)"

definition ad_create :: "genv \<Rightarrow> string \<Rightarrow> string \<Rightarrow> u64 \<Rightarrow> bool \<Rightarrow> authd \<Rightarrow> bool \<times> authd" where
  "ad_create e name pw caps admin st =
    (if AUTH_MAX \<le> length (ad_accts st) then (False, st)
     else if ad_find name st \<noteq> None then (False, st)
     else case ad_gen_salt e 0 st of
       (salt, st) \<Rightarrow>
         let h = authd_hash e pw salt in
         if h = '''' then (False, st)
         else (True, st\<lparr>ad_accts := ad_accts st @ [\<lparr>at_name = spud_ncpy name 32, at_hash = h,
                at_salt = salt, at_caps = caps, at_active = True, at_admin = admin\<rparr>]\<rparr>))"

definition ad_verify :: "genv \<Rightarrow> string \<Rightarrow> string \<Rightarrow> authd \<Rightarrow> bool" where
  "ad_verify e name pw st =
    (case ad_find name st of
       None \<Rightarrow> False
     | Some i \<Rightarrow>
        let u = ad_accts st ! i; test = authd_hash e pw (at_salt u)
        in test \<noteq> '''' \<and> spud_cmp test (at_hash u) = 0)"

text \<open>A new salt and hash for the account of an index; whether the hash succeeded.\<close>

definition ad_set_password :: "genv \<Rightarrow> nat \<Rightarrow> nat \<Rightarrow> string \<Rightarrow> authd \<Rightarrow> bool \<times> authd" where
  "ad_set_password e n i pw st =
    (case ad_gen_salt e n st of
       (salt, st) \<Rightarrow>
         let h = authd_hash e pw salt
         in (h \<noteq> '''', st\<lparr>ad_accts := (ad_accts st)[i := (ad_accts st ! i)\<lparr>at_salt := salt, at_hash := h\<rparr>]\<rparr>))"

definition ad_change_password :: "genv \<Rightarrow> string \<Rightarrow> string \<Rightarrow> string \<Rightarrow> authd \<Rightarrow> bool \<times> authd" where
  "ad_change_password e name oldpw newpw st =
    (if spud_len newpw < 4 then (False, st)
     else case ad_find name st of
       None \<Rightarrow> (False, st)
     | Some i \<Rightarrow> if \<not> ad_verify e name oldpw st then (False, st) else ad_set_password e 0 i newpw st)"

section \<open>The handler\<close>

text \<open>One field of a request: at most \<open>n\<close> characters up to a NUL, and the rest, past one
  character that is not the NUL.\<close>

definition field :: "nat \<Rightarrow> string \<Rightarrow> string \<times> string" where
  "field n p =
    (let f = take n (cstr p); r = drop (length f) p
     in (f, if r \<noteq> [] \<and> hd r \<noteq> NUL then tl r else r))"

definition split_fields :: "string \<Rightarrow> string \<times> string \<times> string" where
  "split_fields req =
    (case field 31 req of (f1, r1) \<Rightarrow> case field 63 r1 of (f2, r2) \<Rightarrow> case field 63 r2 of (f3, _) \<Rightarrow>
       (f1, f2, f3))"

definition ticket_hex :: "u64 \<Rightarrow> string" where
  "ticket_hex tok = map (\<lambda>i. hex_char (unat (drop_bit (60 - i * 4) tok AND 15))) [0..<16]"

definition acct_line :: "acct \<Rightarrow> string" where
  "acct_line u = take 95 (''  '' @ cstr (at_name u) @
     (if at_admin u then '' (soberano)'' else '' (voluntario)'') @ [CHR 0x0A])"

fun acct_lines :: "acct list \<Rightarrow> string \<Rightarrow> string" where
  "acct_lines [] out = out"
| "acct_lines (u # us) out =
    acct_lines us (if at_active u \<and> length out + length (acct_line u) < RESP_MAX then out @ acct_line u else out)"

definition ad_list :: "authd \<Rightarrow> string" where
  "ad_list st = (if ad_accts st = [] then ''(nenhum usuario)'' @ [CHR 0x0A] else acct_lines (ad_accts st) [])"

definition ad_login :: "genv \<Rightarrow> string \<Rightarrow> string \<Rightarrow> authd \<Rightarrow> string \<times> authd" where
  "ad_login e f1 f2 st =
    (if \<not> ad_verify e f1 f2 st then (''0'', st)
     else case ad_find f1 st of
       None \<Rightarrow> (''0'', st)
     | Some i \<Rightarrow>
        let u = ad_accts st ! i in
        (case auth_ticket_issue (ge_entropy e) (at_name u) (at_caps u) (ad_kernel st) of
           (t, a) \<Rightarrow>
             let st = st\<lparr>ad_kernel := a\<rparr> in
             (case t of
                Some tok \<Rightarrow>
                  if tok \<noteq> 0
                  then (ticket_hex tok, if at_admin u then st\<lparr>ad_admin_authed := True\<rparr> else st)
                  else (''0'', st)
              | None \<Rightarrow> (''0'', st))))"

definition flag :: "bool \<Rightarrow> string" where "flag b = (if b then ''1'' else ''0'')"

definition ad_delete :: "string \<Rightarrow> authd \<Rightarrow> string \<times> authd" where
  "ad_delete f1 st =
    (case ad_find f1 st of
       None \<Rightarrow> (''0'', st)
     | Some i \<Rightarrow>
        if at_admin (ad_accts st ! i) \<or> \<not> ad_admin_authed st then (''0'', st)
        else (''1'', st\<lparr>ad_accts := (ad_accts st)[i := (ad_accts st ! i)\<lparr>at_active := False\<rparr>]\<rparr>))"

definition ad_changepw :: "genv \<Rightarrow> string \<Rightarrow> string \<Rightarrow> string \<Rightarrow> authd \<Rightarrow> string \<times> authd" where
  "ad_changepw e f1 f2 f3 st =
    (if spud_len f3 < 4 then (''0'', st)
     else case ad_change_password e f1 f2 f3 st of
       (True, st) \<Rightarrow> (''1'', st)
     | (False, st) \<Rightarrow>
        (case ad_find f1 st of
           None \<Rightarrow> (''0'', st)
         | Some i \<Rightarrow>
            if ad_admin_authed st
            then (case ad_set_password e 2 i f3 st of (ok, st) \<Rightarrow> (flag ok, st)) else (''0'', st)))"

definition authd_handler :: "genv \<Rightarrow> authd handler" where
  "authd_handler e from type req st =
    (if type = IPC_TYPE_PING then (Some ''pong'', st)
     else if type = IPC_TYPE_AUTH_COUNT then (Some (dec_str (length (ad_accts st))), st)
     else if type = IPC_TYPE_AUTH_LIST then (Some (ad_list st), st)
     else case split_fields req of
       (f1, f2, f3) \<Rightarrow>
        if type = IPC_TYPE_AUTH_CREATE then
          (if ad_accts st \<noteq> [] then (Some ''0'', st)
           else if spud_len f1 < 3 \<or> spud_len f2 < 4 then (Some ''0'', st)
           else case ad_create e f1 f2 CAP_API_ALL True st of (ok, st) \<Rightarrow> (Some (flag ok), st))
        else if type = IPC_TYPE_AUTH_LOGIN then (case ad_login e f1 f2 st of (r, st) \<Rightarrow> (Some r, st))
        else if type = IPC_TYPE_AUTH_DELETE then (case ad_delete f1 st of (r, st) \<Rightarrow> (Some r, st))
        else if type = IPC_TYPE_AUTH_CHANGEPW then (case ad_changepw e f1 f2 f3 st of (r, st) \<Rightarrow> (Some r, st))
        else if type = IPC_TYPE_AUTH_CREATE_USER then
          (if \<not> ad_admin_authed st then (Some ''0'', st)
           else if spud_len f1 < 3 \<or> spud_len f2 < 4 then (Some ''0'', st)
           else case ad_create e f1 f2 CAP_USER_DEFAULT False st of (ok, st) \<Rightarrow> (Some (flag ok), st))
        else (Some ''?'', st))"

section \<open>Requests and tickets\<close>

lemma field_nul: "length (cstr a) \<le> n \<Longrightarrow> field n (cstr a @ NUL # r) = (cstr a, NUL # r)"
  by (simp add: field_def cstr_append)

text \<open>The name of at most 35 characters leaves at most three characters for the second field.\<close>

lemma field_long:
  assumes "n < length (cstr a)"
  shows "field n (cstr a @ NUL # r) = (take n (cstr a), drop (Suc n) (cstr a) @ NUL # r)"
proof -
  have "cstr a ! n \<noteq> NUL" using nth_mem [OF assms] by (metis NUL_notin_cstr)
  moreover have "drop n (cstr a) = cstr a ! n # drop (Suc n) (cstr a)" by (rule Cons_nth_drop_Suc [symmetric, OF assms])
  ultimately show ?thesis using assms by (simp add: field_def cstr_append Let_def)
qed

lemma split_packed:
  assumes "length (cstr a) + 1 < mx" "length (cstr a) \<le> 95"
  shows "split_fields (spud_auth_pack mx a (Some b) c) = (take 31 (cstr a), drop 32 (cstr a), [])"
proof -
  obtain r where p: "spud_auth_pack mx a (Some b) c = cstr a @ NUL # r" using pack_two [of a mx b c] assms by auto
  have e: "field n (NUL # r) = ([], NUL # r)" for n r by (simp add: field_def)
  show ?thesis
  proof (cases "length (cstr a) \<le> 31")
    case True
    then show ?thesis using field_nul [OF True, of r] p e by (simp add: split_fields_def)
  next
    case False
    have d: "cstr (drop 32 (cstr a)) = drop 32 (cstr a)"
      using set_drop_subset [of 32 "cstr a"] NUL_notin_cstr [of a] by (intro cstr_id) blast
    have "field 63 (drop 32 (cstr a) @ NUL # r) = (drop 32 (cstr a), NUL # r)"
      using field_nul [of "drop 32 (cstr a)" 63 r] d assms(2) by simp
    then show ?thesis using False field_long [of 31 a r] p e by (simp add: split_fields_def)
  qed
qed

lemma ticket_digit: "d < 16 \<Longrightarrow> hex_digit_of (hex_char d) = Some d"
proof -
  have "\<forall>d\<in>set [0..<16]. hex_digit_of (hex_char d) = Some d"
    by (simp add: hex_char_def hex_digit_of_def upt_rec [of _ "numeral _"])
  then show "d < 16 \<Longrightarrow> ?thesis" by simp
qed

lemma parse_digits:
  "parse_ticket (map (\<lambda>i. hex_char (f i)) is) v = Some (fold (\<lambda>i v. push_bit 4 v OR of_nat (f i)) is v)"
  if "\<And>i. f i < 16" for v :: u64
  using that by (induction "is" arbitrary: v) (simp_all add: ticket_digit)

lemma nibble_step: "push_bit 4 (drop_bit (n + 4) w) OR (drop_bit n w AND 15) = drop_bit n (w :: u64)"
proof -
  have m: "15 = (mask 4 :: u64)" by (simp add: mask_eq_exp_minus_1)
  show ?thesis unfolding m
  proof (rule bit_word_eqI)
    fix k :: nat
    assume "k < LENGTH(64)"
    then show "bit (push_bit 4 (drop_bit (n + 4) w) OR (drop_bit n w AND mask 4)) k = bit (drop_bit n w) k"
      using le_add_diff_inverse [of 4 k] by (cases "k < 4") (auto simp: bit_simps not_less add.assoc)
  qed
qed

lemma parse_ticket_hex: "parse_ticket (ticket_hex tok) 0 = Some tok"
proof -
  let ?f = "\<lambda>i. unat (drop_bit (60 - i * 4) tok AND 15)"
  have l: "?f i < 16" for i
  proof -
    have "drop_bit (60 - i * 4) tok AND 15 \<le> 15" by (rule word_and_le1)
    then show ?thesis by (simp add: word_le_nat_alt)
  qed
  have "fold (\<lambda>i v. push_bit 4 v OR of_nat (?f i)) [0..<k] 0 = drop_bit (64 - 4 * k) tok" if "k \<le> 16" for k
    using that
  proof (induction k)
    case 0
    show ?case by (rule bit_word_eqI) (simp add: bit_simps)
  next
    case (Suc k)
    have "64 - 4 * k = (64 - 4 * Suc k) + 4" "60 - k * 4 = 64 - 4 * Suc k" using Suc.prems by simp_all
    then show ?case using Suc nibble_step [of "64 - 4 * Suc k" tok] by simp
  qed
  from this [of 16] show ?thesis using parse_digits [of ?f "[0..<16]" 0] l by (simp add: ticket_hex_def)
qed

section \<open>The table\<close>

text \<open>At most 16 accounts; the first one made is the sovereign, with all rights, never
  deactivated, and the only one; active names are distinct and fit their buffer.\<close>

definition authd_ok :: "authd \<Rightarrow> bool" where
  "authd_ok st \<longleftrightarrow> length (ad_accts st) \<le> AUTH_MAX \<and>
    (\<forall>i<length (ad_accts st). at_admin (ad_accts st ! i) \<longleftrightarrow> i = 0) \<and>
    (ad_accts st \<noteq> [] \<longrightarrow> at_active (hd (ad_accts st)) \<and> at_caps (hd (ad_accts st)) = CAP_API_ALL) \<and>
    (ad_admin_authed st \<longrightarrow> ad_accts st \<noteq> []) \<and>
    (\<forall>u\<in>set (ad_accts st). length (at_name u) \<le> 31 \<and> NUL \<notin> set (at_name u)) \<and>
    (\<forall>i j. i < j \<and> j < length (ad_accts st) \<and> at_active (ad_accts st ! i) \<and> at_active (ad_accts st ! j) \<longrightarrow>
       at_name (ad_accts st ! i) \<noteq> at_name (ad_accts st ! j))"

lemma gen_salt_same:
  "ad_gen_salt e n st = (s, st') \<Longrightarrow> ad_accts st' = ad_accts st \<and> ad_admin_authed st' = ad_admin_authed st \<and>
     ad_kernel st' = ad_kernel st"
  by (auto simp: ad_gen_salt_def Let_def)

lemma authd_ok_cong:
  "ad_accts st' = ad_accts st \<Longrightarrow> ad_admin_authed st' = ad_admin_authed st \<Longrightarrow> authd_ok st' = authd_ok st"
  by (simp add: authd_ok_def)

lemma ad_findD:
  assumes "ad_find name st = Some i"
  shows "i < length (ad_accts st)" "at_active (ad_accts st ! i)" "cstr (at_name (ad_accts st ! i)) = cstr name"
  using first_index_SomeD [OF assms [unfolded ad_find_def]] by (simp_all add: spud_cmp_iff)

text \<open>Creation appends a name not in use.\<close>

lemma ad_create_ok:
  assumes ok: "authd_ok st" and c: "ad_create e name pw caps admin st = (b, st')"
    and a: "admin \<longleftrightarrow> ad_accts st = []" "admin \<Longrightarrow> caps = CAP_API_ALL" and n: "length (cstr name) \<le> 31"
  shows "authd_ok st' \<and> ad_kernel st' = ad_kernel st \<and> (b \<longrightarrow> ad_find name st = None \<and> (\<exists>u. ad_accts st' = ad_accts st @ [u] \<and>
    at_name u = cstr name \<and> at_caps u = caps \<and> at_active u \<and> at_hash u = authd_hash e pw (at_salt u))) \<and>
    (\<not> b \<longrightarrow> ad_accts st' = ad_accts st) \<and> ad_admin_authed st' = ad_admin_authed st"
proof -
  obtain s t where g: "ad_gen_salt e 0 st = (s, t)" by fastforce
  note G = gen_salt_same [OF g]
  show ?thesis
  proof (cases b)
    case False
    then have "st' = st \<or> st' = t" using c g by (auto simp: ad_create_def Let_def split: if_splits)
    then show ?thesis using ok G authd_ok_cong [of t st] False by auto
  next
    case True
    let ?u = "\<lparr>at_name = spud_ncpy name 32, at_hash = authd_hash e pw s, at_salt = s, at_caps = caps,
      at_active = True, at_admin = admin\<rparr>"
    have len: "length (ad_accts st) < AUTH_MAX" and f: "ad_find name st = None"
      and st': "st' = t\<lparr>ad_accts := ad_accts st @ [?u]\<rparr>"
      using c g G True by (auto simp: ad_create_def Let_def split: if_splits)
    have nm: "at_name ?u = cstr name" using n by (simp add: spud_ncpy_def)
    have d: "at_name v \<noteq> cstr name" if "v \<in> set (ad_accts st)" "at_active v" for v
    proof -
      have "cstr (at_name v) \<noteq> cstr name"
        using f that by (simp add: ad_find_def first_index_None_iff spud_cmp_iff)
      then show ?thesis by (metis cstr_idem)
    qed
    have "authd_ok st'"
      unfolding authd_ok_def st'
    proof (intro conjI)
      show "\<forall>i<length (ad_accts (t\<lparr>ad_accts := ad_accts st @ [?u]\<rparr>)).
          at_admin (ad_accts (t\<lparr>ad_accts := ad_accts st @ [?u]\<rparr>) ! i) \<longleftrightarrow> i = 0"
        using ok a by (auto simp: authd_ok_def nth_append less_Suc_eq)
      show "\<forall>i j. i < j \<and> j < length (ad_accts (t\<lparr>ad_accts := ad_accts st @ [?u]\<rparr>)) \<and>
          at_active (ad_accts (t\<lparr>ad_accts := ad_accts st @ [?u]\<rparr>) ! i) \<and>
          at_active (ad_accts (t\<lparr>ad_accts := ad_accts st @ [?u]\<rparr>) ! j) \<longrightarrow>
          at_name (ad_accts (t\<lparr>ad_accts := ad_accts st @ [?u]\<rparr>) ! i) \<noteq>
          at_name (ad_accts (t\<lparr>ad_accts := ad_accts st @ [?u]\<rparr>) ! j)"
        using ok d nm by (auto simp: authd_ok_def nth_append less_Suc_eq)
    qed (use ok a len nm n G in \<open>auto simp: authd_ok_def hd_append\<close>)
    then show ?thesis using True f nm G st' by simp
  qed
qed

text \<open>A change that keeps name, rights and state of every account keeps the invariant.\<close>

lemma authd_ok_update:
  assumes "authd_ok st" "ad_accts st' = (ad_accts st)[i := u]" "ad_admin_authed st' = ad_admin_authed st"
    "at_name u = at_name (ad_accts st ! i)" "at_caps u = at_caps (ad_accts st ! i)"
    "at_admin u = at_admin (ad_accts st ! i)" "at_active u = at_active (ad_accts st ! i) \<or> (i \<noteq> 0 \<and> \<not> at_active u)"
  shows "authd_ok st'"
proof (cases "i < length (ad_accts st)")
  case True
  have s: "set (ad_accts st') \<subseteq> insert u (set (ad_accts st))" using assms(2) set_update_subset_insert by simp
  have m: "ad_accts st ! i \<in> set (ad_accts st)" using True by simp
  show ?thesis
    unfolding authd_ok_def
  proof (intro conjI)
    show "\<forall>v\<in>set (ad_accts st'). length (at_name v) \<le> 31 \<and> NUL \<notin> set (at_name v)"
      using s m assms(1,4) by (auto simp: authd_ok_def)
    show "ad_accts st' \<noteq> [] \<longrightarrow> at_active (hd (ad_accts st')) \<and> at_caps (hd (ad_accts st')) = CAP_API_ALL"
      using assms True by (auto simp: authd_ok_def hd_conv_nth nth_list_update)
  qed (use assms True in \<open>auto simp: authd_ok_def nth_list_update\<close>)
next
  case False
  then show ?thesis using assms(1-3) authd_ok_cong [of st' st] by (simp add: list_update_beyond)
qed

text \<open>The table stays well formed and keeps its first account.\<close>

definition ad_kept :: "authd \<Rightarrow> authd \<Rightarrow> bool" where
  "ad_kept st st' \<longleftrightarrow> authd_ok st' \<and>
    (ad_accts st \<noteq> [] \<longrightarrow> ad_accts st' \<noteq> [] \<and> at_name (hd (ad_accts st')) = at_name (hd (ad_accts st)))"

lemma ad_kept_same:
  "authd_ok st \<Longrightarrow> ad_accts st' = ad_accts st \<Longrightarrow> ad_admin_authed st' = ad_admin_authed st \<Longrightarrow> ad_kept st st'"
  using authd_ok_cong [of st' st] by (simp add: ad_kept_def)

lemma ad_kept_trans: "ad_kept s t \<Longrightarrow> ad_kept t u \<Longrightarrow> ad_kept s u"
  by (auto simp: ad_kept_def)

lemma ad_kept_update:
  assumes "authd_ok st" "ad_accts st' = (ad_accts st)[i := u]" "ad_admin_authed st' = ad_admin_authed st"
    "at_name u = at_name (ad_accts st ! i)" "at_caps u = at_caps (ad_accts st ! i)"
    "at_admin u = at_admin (ad_accts st ! i)" "at_active u = at_active (ad_accts st ! i) \<or> (i \<noteq> 0 \<and> \<not> at_active u)"
  shows "ad_kept st st'"
  using authd_ok_update [OF assms] assms(2,4) by (cases i; cases "ad_accts st") (auto simp: ad_kept_def)

lemma ad_set_password_ok:
  assumes "authd_ok st" "ad_set_password e n i pw st = (b, st')"
  shows "ad_kept st st' \<and> ad_kernel st' = ad_kernel st \<and> ad_admin_authed st' = ad_admin_authed st"
proof -
  obtain s t where g: "ad_gen_salt e n st = (s, t)" by fastforce
  note G = gen_salt_same [OF g]
  let ?u = "(ad_accts st ! i)\<lparr>at_salt := s, at_hash := authd_hash e pw s\<rparr>"
  have st': "st' = t\<lparr>ad_accts := (ad_accts st)[i := ?u]\<rparr>" using assms(2) g G by (auto simp: ad_set_password_def Let_def)
  show ?thesis using ad_kept_update [OF assms(1), of st' i ?u] G st' by simp
qed

lemma ad_change_password_ok:
  assumes "authd_ok st" "ad_change_password e name old new st = (b, st')"
  shows "ad_kept st st' \<and> ad_kernel st' = ad_kernel st \<and> ad_admin_authed st' = ad_admin_authed st"
  using assms ad_set_password_ok ad_kept_same by (auto simp: ad_change_password_def split: if_splits option.splits)

lemma ad_login_ok: "authd_ok st \<Longrightarrow> ad_login e f1 f2 st = (r, st') \<Longrightarrow> ad_kept st st'"
  using ad_findD(1) [of f1 st]
  by (auto simp: ad_login_def Let_def authd_ok_def ad_kept_def split: if_splits option.splits prod.splits)

lemma ad_delete_ok: "authd_ok st \<Longrightarrow> ad_delete f1 st = (r, st') \<Longrightarrow> ad_kept st st'"
proof -
  assume ok: "authd_ok st" and d: "ad_delete f1 st = (r, st')"
  have "ad_kept st (st\<lparr>ad_accts := (ad_accts st)[i := (ad_accts st ! i)\<lparr>at_active := False\<rparr>]\<rparr>)"
    if "ad_find f1 st = Some i" "\<not> at_admin (ad_accts st ! i)" for i
  proof (rule ad_kept_update [OF ok])
    have "i \<noteq> 0" using ok that ad_findD(1) [OF that(1)] by (auto simp: authd_ok_def)
    then show "at_active ((ad_accts st ! i)\<lparr>at_active := False\<rparr>) = at_active (ad_accts st ! i) \<or>
      (i \<noteq> 0 \<and> \<not> at_active ((ad_accts st ! i)\<lparr>at_active := False\<rparr>))" by simp
  qed simp_all
  then show ?thesis using d ad_kept_same [OF ok] by (auto simp: ad_delete_def split: option.splits if_splits)
qed

lemma ad_changepw_ok: "authd_ok st \<Longrightarrow> ad_changepw e f1 f2 f3 st = (r, st') \<Longrightarrow> ad_kept st st'"
proof -
  assume ok: "authd_ok st" and c: "ad_changepw e f1 f2 f3 st = (r, st')"
  obtain b t where t: "ad_change_password e f1 f2 f3 st = (b, t)" by fastforce
  have kt: "ad_kept st t" using ad_change_password_ok [OF ok t] by simp
  then have "authd_ok t" by (simp add: ad_kept_def)
  then have "ad_kept st t'" if "ad_set_password e 2 i f3 t = (b', t')" for i b' t'
    using ad_set_password_ok [OF _ that] ad_kept_trans [OF kt] by simp
  then show ?thesis
    using c t kt ad_kept_same [OF ok] by (auto simp: ad_changepw_def split: if_splits option.splits bool.splits prod.splits)
qed

text \<open>Whatever a client sends, the table stays well formed: at most 16 accounts, distinct names, and
  the first account, the sovereign, stays, active, with all rights, and is the only sovereign.\<close>

theorem authd_invariant:
  assumes "authd_ok st" "authd_handler e from type req st = (r, st')"
  shows "authd_ok st' \<and>
    (ad_accts st \<noteq> [] \<longrightarrow> ad_accts st' \<noteq> [] \<and> at_name (hd (ad_accts st')) = at_name (hd (ad_accts st)))"
proof -
  obtain f1 f2 f3 where f: "split_fields req = (f1, f2, f3)" by (metis prod_cases3)
  have f1: "length (cstr f1) \<le> 31"
    using f length_cstr_le [of f1] by (auto simp: split_fields_def field_def Let_def split: prod.splits)
  have c: "ad_kept st st1" if c: "ad_create e f1 f2 caps admin st = (b, st1)"
    and a: "admin \<longleftrightarrow> ad_accts st = []" "admin \<Longrightarrow> caps = CAP_API_ALL" for caps admin b st1
    using ad_create_ok [OF assms(1) c a f1] assms(1) by (cases b) (auto simp: ad_kept_def)
  have n: "ad_accts st \<noteq> []" if "ad_admin_authed st" using assms(1) that by (simp add: authd_ok_def)
  have "ad_kept st st'"
    using assms(2) f c n ad_kept_same [OF assms(1)] ad_login_ok [OF assms(1)] ad_delete_ok [OF assms(1)]
      ad_changepw_ok [OF assms(1)]
    by (auto simp: authd_handler_def split: if_splits prod.splits)
  then show ?thesis by (simp add: ad_kept_def)
qed

lemma length_ticket_hex: "length (ticket_hex tok) = 16"
  by (simp add: ticket_hex_def)

text \<open>A login that succeeds gives the client a token, in hexadecimal, with which the kernel opens a
  session of that name with the rights of the account.\<close>

theorem authd_ticket_session:
  assumes "authd_ok st" "ad_login e f1 f2 st = (r, st')" "r \<noteq> ''0''"
  shows "\<exists>i tok a. ad_find f1 st = Some i \<and> ad_verify e f1 f2 st \<and> spud_auth_login (Some r) kr = (1, tok) \<and>
    auth_ticket_consume f1 tok (ad_kernel st') = (True, a) \<and> ac_caps (au_synth a) = at_caps (ad_accts st ! i)"
proof -
  obtain i tok a where v: "ad_verify e f1 f2 st" and i: "ad_find f1 st = Some i"
    and t: "auth_ticket_issue (ge_entropy e) (at_name (ad_accts st ! i)) (at_caps (ad_accts st ! i)) (ad_kernel st) = (Some tok, a)"
    and r: "r = ticket_hex tok" "ad_kernel st' = a"
    using assms(2,3) by (auto simp: ad_login_def Let_def split: if_splits option.splits prod.splits)
  let ?u = "ad_accts st ! i"
  note F = ad_findD [OF i]
  have "length (at_name ?u) \<le> 31" using assms(1) nth_mem [OF F(1)] by (simp add: authd_ok_def)
  then have n: "strlen (at_name ?u) \<le> 31" using length_cstr_le [of "at_name ?u"] by (simp add: strlen_cstr)
  note c = F(3)
  note T = ticket_issue_spec [OF t n]
  obtain b a2 where k: "auth_ticket_consume f1 tok a = (b, a2)" by fastforce
  have b: b using T(2) c k ticket_consume_issued [of _ a f1 tok] by fastforce
  have "ac_caps (au_synth a2) = at_caps ?u"
  proof -
    obtain x where "x \<in> set (au_tickets a)" "live f1 x" "ac_caps (au_synth a2) = tk_caps x"
      using ticket_consume_spec(2) [OF k [unfolded b [THEN eqTrueI]]] by blast
    then show ?thesis using T(1) [of x] c by simp
  qed
  moreover have "spud_auth_login (Some r) kr = (1, tok)"
    unfolding spud_auth_login_def option.case r(1) length_ticket_hex parse_ticket_hex by simp
  moreover have "auth_ticket_consume f1 tok (ad_kernel st') = (True, a2)" using k b r(2) by simp
  ultimately show ?thesis using v i by blast
qed

section \<open>The requests of the clients\<close>

datatype client = CallCount | CallList | CallCreate string string | CallLogin string string
  | CallDelete string | CallChangepw string string string | CallCreateUser string string

fun client_msg :: "client \<Rightarrow> u32 \<times> string" where
  "client_msg CallCount = (IPC_TYPE_AUTH_COUNT, [])"
| "client_msg CallList = (IPC_TYPE_AUTH_LIST, [])"
| "client_msg (CallCreate u p) = (IPC_TYPE_AUTH_CREATE, auth_create_req u p)"
| "client_msg (CallLogin u p) = (IPC_TYPE_AUTH_LOGIN, auth_login_req u p)"
| "client_msg (CallDelete u) = (IPC_TYPE_AUTH_DELETE, cstr u)"
| "client_msg (CallChangepw u old new) = (IPC_TYPE_AUTH_CHANGEPW, auth_changepw_req u old new)"
| "client_msg (CallCreateUser u p) = (IPC_TYPE_AUTH_CREATE_USER, auth_create_user_req u p)"

fun client_name :: "client \<Rightarrow> string" where
  "client_name (CallCreate u p) = u"
| "client_name (CallLogin u p) = u"
| "client_name (CallDelete u) = u"
| "client_name (CallChangepw u old new) = u"
| "client_name (CallCreateUser u p) = u"
| "client_name _ = []"

fun authd_run :: "(genv \<times> u32 \<times> client) list \<Rightarrow> authd \<Rightarrow> string option list \<times> authd" where
  "authd_run [] st = ([], st)"
| "authd_run ((e, from, c) # cs) st =
    (case client_msg c of (type, req) \<Rightarrow> case authd_handler e from type req st of (r, st1) \<Rightarrow>
       case authd_run cs st1 of (rs, st2) \<Rightarrow> (r # rs, st2))"

lemmas ipc_types = IPC_TYPE_PING_def IPC_TYPE_AUTH_COUNT_def IPC_TYPE_AUTH_CREATE_def IPC_TYPE_AUTH_LOGIN_def
  IPC_TYPE_AUTH_LIST_def IPC_TYPE_AUTH_DELETE_def IPC_TYPE_AUTH_CHANGEPW_def IPC_TYPE_AUTH_CREATE_USER_def

text \<open>On an empty table a request whose second field is shorter than 4 characters does nothing.\<close>

lemma authd_empty:
  assumes e: "ad_accts st = []" "\<not> ad_admin_authed st" and n: "length (cstr (client_name c)) \<le> 35"
  shows "\<exists>r. authd_handler ev from (fst (client_msg c)) (snd (client_msg c)) st = (Some r, st) \<and>
    ((\<exists>u p. c = CallCreate u p \<or> c = CallLogin u p) \<longrightarrow> r = ''0'')"
proof -
  have f: "ad_find x st = None" for x using e by (simp add: ad_find_def)
  then have v: "\<not> ad_verify ev x y st" for x y by (simp add: ad_verify_def)
  obtain f1 f2 f3 where s: "split_fields (snd (client_msg c)) = (f1, f2, f3)" by (metis prod_cases3)
  have d: "ad_delete f1 st = (''0'', st)" "ad_changepw ev f1 f2 f3 st = (''0'', st)" "ad_login ev f1 f2 st = (''0'', st)"
    using f v by (simp_all add: ad_delete_def ad_changepw_def ad_change_password_def ad_login_def)
  show ?thesis
  proof (cases c)
    case (CallCreate u p)
    then have "spud_len f2 < 4"
      using s n length_cstr_le [of f2] split_packed [of u 128 p None] by (simp add: auth_create_req_def spud_len_cstr)
    then show ?thesis using CallCreate s e by (simp add: authd_handler_def ipc_types)
  qed (use s d e in \<open>simp_all add: authd_handler_def ipc_types\<close>)
qed

text \<open>C32. The fields of a request are separated by NULs, but the service does not step over a NUL, so
  every field after the first is empty.  Starting from no accounts, whatever the programs of
  the system ask through the client library with names of at most 35 characters, no
  account is ever created and every login is refused: the clients report failure.  A longer name is
  another matter, as \<open>long_name_creates\<close> shows.\<close>

theorem authd_locked_out:
  assumes "ad_accts st = []" "\<not> ad_admin_authed st" "\<forall>(e, from, c)\<in>set calls. length (cstr (client_name c)) \<le> 35"
    "authd_run calls st = (rs, st')"
  shows "ad_accts st' = [] \<and> length rs = length calls \<and>
    (\<forall>i u p. i < length calls \<and> (snd (snd (calls ! i)) = CallCreate u p \<or> snd (snd (calls ! i)) = CallLogin u p) \<longrightarrow>
       reply_flag (rs ! i) kr = 0 \<and> spud_auth_login (rs ! i) kr = (0, 0))"
  using assms(3,4)
proof (induction calls arbitrary: rs)
  case (Cons x calls)
  obtain e frm c where x: "x = (e, frm, c)" by (cases x)
  then have n: "length (cstr (client_name c)) \<le> 35" using Cons.prems(1) by simp
  obtain r where r: "authd_handler e frm (fst (client_msg c)) (snd (client_msg c)) st = (Some r, st)"
      "(\<exists>u p. c = CallCreate u p \<or> c = CallLogin u p) \<longrightarrow> r = ''0''"
    using authd_empty [OF assms(1,2) n] by blast
  obtain rs1 where rs: "authd_run calls st = (rs1, st')" "rs = Some r # rs1"
    using Cons.prems(2) r(1) x by (auto split: prod.splits)
  have "reply_flag (Some ''0'') kr = 0" "spud_auth_login (Some ''0'') kr = (0, 0)"
    by (simp_all add: reply_flag_def spud_auth_login_def)
  then show ?case using Cons.IH [OF _ rs(1)] Cons.prems(1) r(2) rs(2) x by (auto simp: nth_Cons')
qed (use assms(1) in simp)

text \<open>An empty service, one with an account, and an environment in which nothing moves.\<close>

definition no_accounts :: authd where
  "no_accounts = \<lparr>ad_accts = [], ad_admin_authed = False, ad_rng = 0x243F6A8885A308D3, ad_kernel = zero_auth\<rparr>"

definition still_env :: genv where
  "still_env = \<lparr>ge_uptime = (\<lambda>_. 0), ge_pid = 8, ge_ppid = 1,
     ge_entropy = \<lparr>en_ticks = 0, en_proc = 0, en_pit = 0\<rparr>, ge_hash = (\<lambda>p s. Some (''h'' @ p))\<rparr>"

definition sole_account :: authd where
  "sole_account = no_accounts\<lparr>ad_accts := [\<lparr>at_name = ''ann'', at_hash = ''hpass'', at_salt = '''',
     at_caps = CAP_API_ALL, at_active = True, at_admin = True\<rparr>]\<rparr>"

lemma sole_account_ok: "authd_ok sole_account"
  by (simp add: authd_ok_def sole_account_def no_accounts_def AUTH_MAX_def)

lemma authd_invariant_witness:
  "authd_ok (snd (authd_handler still_env 3 IPC_TYPE_AUTH_DELETE ''ann'' sole_account))"
proof -
  obtain r st where "authd_handler still_env 3 IPC_TYPE_AUTH_DELETE ''ann'' sole_account = (r, st)" by fastforce
  from authd_invariant [OF sole_account_ok this] this show ?thesis by simp
qed

lemma authd_locked_out_witness:
  "\<exists>rs. authd_run [(still_env, 5, CallCreate ''ann'' ''pass''), (still_env, 5, CallLogin ''ann'' ''pass'')] no_accounts
     = (rs, no_accounts) \<and> reply_flag (rs ! 0) 1 = 0 \<and> spud_auth_login (rs ! 1) 1 = (0, 0)"
proof -
  let ?c = "[(still_env, 5 :: u32, CallCreate ''ann'' ''pass''), (still_env, 5, CallLogin ''ann'' ''pass'')]"
  have e: "ad_accts no_accounts = []" "\<not> ad_admin_authed no_accounts" by (simp_all add: no_accounts_def)
  have n: "length (cstr (client_name c)) \<le> 35" if "c \<in> {CallCreate ''ann'' ''pass'', CallLogin ''ann'' ''pass''}" for c
    using that by auto
  obtain r1 r2 where r: "authd_run ?c no_accounts = ([Some r1, Some r2], no_accounts)"
    using authd_empty [OF e n, of "CallCreate ''ann'' ''pass''" still_env 5]
      authd_empty [OF e n, of "CallLogin ''ann'' ''pass''" still_env 5] by auto
  have s: "\<forall>(e, from, c)\<in>set ?c. length (cstr (client_name c)) \<le> 35" by simp
  have "\<forall>i u p. i < length ?c \<and> (snd (snd (?c ! i)) = CallCreate u p \<or> snd (snd (?c ! i)) = CallLogin u p) \<longrightarrow>
      reply_flag ([Some r1, Some r2] ! i) kr = 0 \<and> spud_auth_login ([Some r1, Some r2] ! i) kr = (0, 0)" for kr
    using authd_locked_out [OF e s r] by blast
  from this [THEN spec, of 0 1] this [THEN spec, of 1 1] show ?thesis using r by auto
qed

text \<open>The one way to an account over the client library: of a name of 36 characters or more the service
  keeps 31, skips one and takes the rest for the password.  The reply is success, and the password the
  caller gave is not the one of the account.\<close>

theorem long_name_creates:
  assumes "ad_accts st = []" "36 \<le> length (cstr u)" "length (cstr u) \<le> 95"
    "\<And>salt. \<exists>h. ge_hash e (drop 32 (cstr u)) salt = Some h \<and> h \<noteq> []"
  shows "\<exists>salt h st'. authd_handler e from IPC_TYPE_AUTH_CREATE (auth_create_req u p) st = (Some ''1'', st') \<and>
    ad_accts st' = [\<lparr>at_name = take 31 (cstr u), at_hash = h, at_salt = salt, at_caps = CAP_API_ALL,
      at_active = True, at_admin = True\<rparr>] \<and> ge_hash e (drop 32 (cstr u)) salt = Some h"
proof -
  obtain salt st1 where g: "ad_gen_salt e 0 st = (salt, st1)" by fastforce
  obtain h where h: "ge_hash e (drop 32 (cstr u)) salt = Some h" "h \<noteq> []" using assms(4) by blast
  have n: "NUL \<notin> set (take 31 (cstr u))" "NUL \<notin> set (drop 32 (cstr u))"
    using set_take_subset [of 31 "cstr u"] set_drop_subset [of 32 "cstr u"] NUL_notin_cstr [of u] by blast+
  note c = n [THEN cstr_id]
  have "authd_hash e (drop 32 (cstr u)) salt = h" using h assms(3) c(2) by (simp add: authd_hash_def clip_def)
  moreover have "spud_ncpy (take 31 (cstr u)) 32 = take 31 (cstr u)" using c(1) by (simp add: spud_ncpy_def)
  moreover have "split_fields (auth_create_req u p) = (take 31 (cstr u), drop 32 (cstr u), [])"
    using split_packed [of u 128 p None] assms(3) by (simp add: auth_create_req_def)
  moreover have "ad_find x st = None" for x using assms(1) by (simp add: ad_find_def)
  ultimately show ?thesis
    using assms(1-3) h g c gen_salt_same [OF g]
    by (auto simp: authd_handler_def ipc_types ad_create_def spud_len_cstr AUTH_MAX_def flag_def Let_def)
qed

lemma long_name_creates_witness:
  "fst (authd_handler still_env 5 IPC_TYPE_AUTH_CREATE (auth_create_req (replicate 36 CHR ''a'') ''pass'') no_accounts) = Some ''1''"
proof -
  have c: "cstr (replicate 36 CHR ''a'') = replicate 36 CHR ''a''" by (rule cstr_id) simp
  have "\<exists>salt h st'. authd_handler still_env 5 IPC_TYPE_AUTH_CREATE (auth_create_req (replicate 36 CHR ''a'') ''pass'') no_accounts
      = (Some ''1'', st')"
    using long_name_creates [of no_accounts "replicate 36 CHR ''a''" still_env 5 "''pass''", unfolded c]
    by (auto simp: no_accounts_def still_env_def)
  then show ?thesis by auto
qed

lemma authd_ticket_session_witness:
  "\<exists>r st tok a. ad_login still_env ''ann'' ''pass'' sole_account = (r, st) \<and>
     auth_ticket_consume ''ann'' tok (ad_kernel st) = (True, a) \<and> ac_caps (au_synth a) = CAP_API_ALL"
proof -
  have f: "ad_find ''ann'' sole_account = Some 0" by (simp add: ad_find_def sole_account_def)
  have v: "ad_verify still_env ''ann'' ''pass'' sole_account"
    by (simp add: ad_verify_def f) (simp add: sole_account_def still_env_def authd_hash_def clip_def)
  have t: "fst (auth_ticket_issue (ge_entropy still_env) ''ann'' CAP_API_ALL zero_auth) = Some 0x9E3779B97F4A7C15"
    by (simp add: auth_ticket_issue_def zero_auth_def AUTH_TICKET_MAX_def auth_ticket_token_def still_env_def Let_def)
  obtain r st where l: "ad_login still_env ''ann'' ''pass'' sole_account = (r, st)" by fastforce
  have "r = ticket_hex 0x9E3779B97F4A7C15"
    using l t v f by (cases "auth_ticket_issue (ge_entropy still_env) ''ann'' CAP_API_ALL zero_auth")
      (simp add: ad_login_def sole_account_def no_accounts_def)
  then have "r \<noteq> ''0''" using length_ticket_hex [of "0x9E3779B97F4A7C15"] by auto
  from authd_ticket_session [OF sole_account_ok l this, where kr = 0] f show ?thesis
    using l by (auto simp: sole_account_def)
qed

end
