(* ===== verification/Fsd.thy ===== *)
theory Fsd
  imports Spud Boot
begin

text \<open>
  The file service in ring 3, src/userspace/fsd/fsd.c: its store of the files under
  \<open>/paradosis\<close> and \<open>/nomos\<close>, the trail of its operations, and the handler of its
  requests.  Paths outside the store go to the kernel; its calls are a record of
  functions on a state of any type, instantiated with the kernel's file calls below.
\<close>

unbundle bit_operations_syntax

section \<open>The kernel's calls\<close>

text \<open>Reading and listing give the bytes, at most as many as asked for; the others whether
  they succeeded.  A path the kernel takes is shorter than 256 bytes.\<close>

record 'k kcalls =
  kc_read :: "string \<Rightarrow> nat \<Rightarrow> 'k \<Rightarrow> string option"
  kc_list :: "string \<Rightarrow> nat \<Rightarrow> 'k \<Rightarrow> string option"
  kc_create :: "string \<Rightarrow> bool \<Rightarrow> 'k \<Rightarrow> bool \<times> 'k"
  kc_write :: "string \<Rightarrow> string \<Rightarrow> 'k \<Rightarrow> bool \<times> 'k"
  kc_remove :: "string \<Rightarrow> 'k \<Rightarrow> bool \<times> 'k"

definition ok_of :: "int \<times> 'k \<Rightarrow> bool \<times> 'k" where
  "ok_of r = (fst r = 0, snd r)"

definition kernel_calls :: "kern kcalls" where
  "kernel_calls = \<lparr>
     kc_read = (\<lambda>p n k. if syscall_cap CAP_FS_READ k \<and> length p < 256
        then fst (vfs_read ROOT (Some p) n k) else None),
     kc_list = (\<lambda>p n k. if syscall_cap CAP_FS_READ k \<and> length p < 256
        then map_option (take n) (vfs_list ROOT (Some p) 4096 k) else None),
     kc_create = (\<lambda>p d k. if syscall_cap CAP_FS_WRITE k
        then ok_of (vfs_create ROOT (Some p) (if d then TDir else TFile) k) else (False, k)),
     kc_write = (\<lambda>p d k. if syscall_cap CAP_FS_WRITE k then ok_of (vfs_write ROOT (Some p) d k) else (False, k)),
     kc_remove = (\<lambda>p k. if syscall_cap CAP_FS_WRITE k then ok_of (vfs_remove ROOT (Some p) k) else (False, k))\<rparr>"

section \<open>The store and the trail\<close>

definition AUDIT_MAX :: nat where "AUDIT_MAX = 16"
definition AUDIT_PATH :: nat where "AUDIT_PATH = 44"
definition ST_MAX :: nat where "ST_MAX = 16"
definition ST_DATA :: nat where "ST_DATA = 512"
definition ST_DIRS :: nat where "ST_DIRS = 8"

record st_file =
  sf_path :: string
  sf_data :: string

record audit =
  au_op :: char
  au_from :: u32
  au_path :: string

text \<open>The entries in use of the tables \<open>st_files\<close>, \<open>st_dirs\<close> and of the trail.\<close>

record fsd =
  sd_files :: "st_file list"
  sd_dirs :: "string list"
  sd_audit :: "audit list"

definition audit_push :: "char \<Rightarrow> u32 \<Rightarrow> string \<Rightarrow> fsd \<Rightarrow> fsd" where
  "audit_push op from path st =
    (let e = \<lparr>au_op = op, au_from = from, au_path = spud_ncpy path AUDIT_PATH\<rparr>; n = length (sd_audit st)
     in if n < AUDIT_MAX then st\<lparr>sd_audit := sd_audit st @ [e]\<rparr>
        else st\<lparr>sd_audit := (sd_audit st)[n mod AUDIT_MAX := e]\<rparr>)"

definition fsd_st_find :: "string \<Rightarrow> fsd \<Rightarrow> nat option" where
  "fsd_st_find path st = first_index (\<lambda>f. spud_cmp (sf_path f) path = 0) (sd_files st)"

definition fsd_st_dir_find :: "string \<Rightarrow> fsd \<Rightarrow> nat option" where
  "fsd_st_dir_find path st = first_index (\<lambda>d. spud_cmp d path = 0) (sd_dirs st)"

definition fsd_st_mkdir :: "string \<Rightarrow> fsd \<Rightarrow> bool \<times> fsd" where
  "fsd_st_mkdir path st =
    (if cstr path = [] then (False, st)
     else if fsd_st_dir_find path st \<noteq> None then (True, st)
     else if ST_DIRS \<le> length (sd_dirs st) then (False, st)
     else (True, st\<lparr>sd_dirs := sd_dirs st @ [spud_ncpy path 48]\<rparr>))"

definition fsd_st_set :: "string \<Rightarrow> string \<Rightarrow> fsd \<Rightarrow> bool \<times> fsd" where
  "fsd_st_set path data st =
    (let d = take (ST_DATA - 1) data in
     case fsd_st_find path st of
       Some i \<Rightarrow> (True, st\<lparr>sd_files := (sd_files st)[i := (sd_files st ! i)\<lparr>sf_data := d\<rparr>]\<rparr>)
     | None \<Rightarrow>
        if ST_MAX \<le> length (sd_files st) then (False, st)
        else (True, st\<lparr>sd_files := sd_files st @ [\<lparr>sf_path = spud_ncpy path 48, sf_data = d\<rparr>]\<rparr>))"

definition fsd_st_remove :: "string \<Rightarrow> fsd \<Rightarrow> bool \<times> fsd" where
  "fsd_st_remove path st =
    (case fsd_st_find path st of
       None \<Rightarrow> (False, st)
     | Some i \<Rightarrow> (True, st\<lparr>sd_files := butlast ((sd_files st)[i := last (sd_files st)])\<rparr>))"

text \<open>The name of a path directly under a directory.\<close>

definition child_name :: "string \<Rightarrow> string \<Rightarrow> string option" where
  "child_name dir p =
    (let dl = length (cstr dir) in
     if spud_cmp p dir = 0 \<or> spud_strstr p dir \<noteq> Some 0 then None
     else if at p dl \<noteq> CHR ''/'' then None
     else if spud_strstr (drop (dl + 1) p) ''/'' \<noteq> None then None
     else Some (cstr (drop (dl + 1) p)))"

fun list_entries :: "string \<Rightarrow> string \<Rightarrow> nat \<Rightarrow> string list \<Rightarrow> string \<Rightarrow> string" where
  "list_entries tag dir mx [] out = out"
| "list_entries tag dir mx (p # ps) out =
    (if mx \<le> length out then out
     else list_entries tag dir mx ps
       (case child_name dir p of
          None \<Rightarrow> out
        | Some n \<Rightarrow> if length out + 10 + length n < mx then out @ tag @ n @ [CHR 0x0A] else out))"

definition fsd_st_list :: "string \<Rightarrow> nat \<Rightarrow> fsd \<Rightarrow> string" where
  "fsd_st_list dir mx st =
    list_entries ''  <DIR>   '' dir mx (sd_dirs st)
      (list_entries ''  <ARQ>   '' dir mx (map sf_path (sd_files st)) [])"

definition fsd_st_owns :: "string \<Rightarrow> bool" where
  "fsd_st_owns path \<longleftrightarrow> spud_cmp path ''/paradosis'' = 0 \<or> spud_cmp path ''/nomos'' = 0 \<or>
     spud_strstr path ''/paradosis/'' = Some 0 \<or> spud_strstr path ''/nomos/'' = Some 0"

section \<open>The seed\<close>

definition seed_dirs :: "string list" where
  "seed_dirs = [''/bin'', ''/kormi'', ''/nomos'', ''/paradosis'', ''/idios'', ''/oikos'', ''/synallagma'', ''/praxis'']"

definition skip_line :: "string \<Rightarrow> string" where
  "skip_line p = drop 1 (dropWhile (\<lambda>c. c \<noteq> CHR 0x0A) p)"

text \<open>The names of the files in a listing of the kernel: at most 39 characters of what
  follows \<open><ARQ>\<close>.\<close>

function seed_names :: "string \<Rightarrow> string list" where
  "seed_names p =
    (if p = [] then []
     else let q = dropWhile (\<lambda>c. c = CHR '' '') p in
       if \<not> starts q ''<ARQ>'' then seed_names (skip_line q)
       else let r = dropWhile (\<lambda>c. c = CHR '' '') (drop 5 q);
                name = take 39 (takeWhile (\<lambda>c. c \<noteq> CHR 0x0A) r); s = drop (length name) r
         in (if name = [] then [] else [name]) @
            seed_names (if s \<noteq> [] \<and> hd s = CHR 0x0A then tl s else s))"
  by pat_completeness auto
termination
proof (relation "measure length")
  fix p q :: string
  assume p: "p \<noteq> []" and q: "q = dropWhile (\<lambda>c. c = CHR '' '') p"
  have lq: "length q \<le> length p" unfolding q by (rule length_dropWhile_le)
  show "(skip_line q, p) \<in> measure length" if "\<not> starts q ''<ARQ>''"
  proof (cases q)
    case Nil
    then show ?thesis using p by (simp add: skip_line_def)
  next
    case (Cons c r)
    have "length (dropWhile (\<lambda>c. c \<noteq> CHR 0x0A) q) \<le> length q" by (rule length_dropWhile_le)
    then show ?thesis using lq Cons by (auto simp: skip_line_def simp del: dropWhile.simps)
  qed
  fix r name s :: string
  assume st: "\<not> \<not> starts q ''<ARQ>''" and r: "r = dropWhile (\<lambda>c. c = CHR '' '') (drop 5 q)"
    and s: "s = drop (length name) r"
  have "q \<noteq> []" using st by auto
  moreover have "length r \<le> length q - 5" unfolding r using length_dropWhile_le [of _ "drop 5 q"] by simp
  ultimately have "length s < length p" using lq s by (cases q) auto
  then show "((if s \<noteq> [] \<and> hd s = CHR 0x0A then tl s else s), p) \<in> measure length"
    by (auto simp: less_imp_diff_less)
qed simp

declare seed_names.simps [simp del]

definition seed_file :: "'k kcalls \<Rightarrow> 'k \<Rightarrow> string \<Rightarrow> string \<Rightarrow> fsd \<Rightarrow> fsd" where
  "seed_file ops k src name st =
    (if length src + 1 + length name < 64 then
       (let full = src @ ''/'' @ name in
        case kc_read ops full (ST_DATA - 1) k of None \<Rightarrow> st | Some d \<Rightarrow> snd (fsd_st_set full d st))
     else st)"

definition seed_folder :: "'k kcalls \<Rightarrow> 'k \<Rightarrow> string \<Rightarrow> fsd \<Rightarrow> fsd" where
  "seed_folder ops k src st =
    (case kc_list ops src 511 k of
       None \<Rightarrow> st
     | Some l \<Rightarrow> fold (seed_file ops k src) (seed_names (take 511 (cstr l))) st)"

definition fsd_st_seed :: "'k kcalls \<Rightarrow> 'k \<Rightarrow> fsd" where
  "fsd_st_seed ops k =
    seed_folder ops k ''/paradosis'' (seed_folder ops k ''/nomos''
      \<lparr>sd_files = [], sd_dirs = take ST_DIRS seed_dirs, sd_audit = []\<rparr>)"

section \<open>The handler\<close>

definition reply_bit :: "bool \<Rightarrow> string option" where
  "reply_bit b = Some (if b then ''1'' else ''0'')"

definition fsd_read :: "'k kcalls \<Rightarrow> u32 \<Rightarrow> string \<Rightarrow> fsd \<times> 'k \<Rightarrow> string \<times> fsd \<times> 'k" where
  "fsd_read ops from req s =
    (case s of (st, k) \<Rightarrow>
      if cstr req = [] then (''erro: path vazio'', audit_push (CHR ''r'') from ''?'' st, k)
      else let st = audit_push (CHR ''r'') from req st in
        (if fsd_st_owns req then
           (case fsd_st_find req st of
              None \<Rightarrow> ''erro: nao encontrado''
            | Some i \<Rightarrow> take (RESP_MAX - 1) (sf_data (sd_files st ! i)))
         else (case kc_read ops (cstr req) (RESP_MAX - 1) k of
                 None \<Rightarrow> ''erro: nao encontrado'' | Some d \<Rightarrow> d), st, k))"

definition fsd_list :: "'k kcalls \<Rightarrow> u32 \<Rightarrow> string \<Rightarrow> fsd \<times> 'k \<Rightarrow> string \<times> fsd \<times> 'k" where
  "fsd_list ops from req s =
    (case s of (st, k) \<Rightarrow>
      if cstr req = [] then (''erro: dir invalido'', audit_push (CHR ''l'') from ''?'' st, k)
      else let st = audit_push (CHR ''l'') from req st in
        (if fsd_st_owns req then fsd_st_list req (RESP_MAX - 1) st
         else (case kc_list ops (cstr req) (RESP_MAX - 1) k of
                 None \<Rightarrow> ''erro: dir invalido'' | Some d \<Rightarrow> cstr d), st, k))"

definition fsd_create :: "'k kcalls \<Rightarrow> u32 \<Rightarrow> string \<Rightarrow> fsd \<times> 'k \<Rightarrow> bool \<times> fsd \<times> 'k" where
  "fsd_create ops from req s =
    (case s of (st, k) \<Rightarrow>
      let f = spud_ncpy req 64; st = audit_push (CHR ''c'') from f st in
      if fsd_st_owns f then (case fsd_st_set f [] st of (ok, st) \<Rightarrow> (ok, st, k))
      else (case kc_create ops f False k of (ok, k) \<Rightarrow> (ok, st, k)))"

definition fsd_write :: "'k kcalls \<Rightarrow> u32 \<Rightarrow> string \<Rightarrow> fsd \<times> 'k \<Rightarrow> bool \<times> fsd \<times> 'k" where
  "fsd_write ops from req s =
    (case s of (st, k) \<Rightarrow>
      if cstr req = [] then (False, audit_push (CHR ''w'') from ''?'' st, k)
      else
        let p = takeWhile (\<lambda>c. c \<noteq> CHR 0x0A) (cstr req); path = take 63 p;
            data = drop (length p + 1) (cstr req); st = audit_push (CHR ''w'') from path st
        in if fsd_st_owns path then (case fsd_st_set path data st of (ok, st) \<Rightarrow> (ok, st, k))
           else (case kc_write ops path data k of (ok, k) \<Rightarrow> (ok, st, k)))"

definition fsd_remove :: "'k kcalls \<Rightarrow> u32 \<Rightarrow> string \<Rightarrow> fsd \<times> 'k \<Rightarrow> bool \<times> fsd \<times> 'k" where
  "fsd_remove ops from req s =
    (case s of (st, k) \<Rightarrow>
      let f = spud_ncpy req 64; st = audit_push (CHR ''d'') from f st in
      if fsd_st_owns f then
        (case fsd_st_remove f st of
           (True, st) \<Rightarrow> (True, st, k)
         | (False, st) \<Rightarrow>
            if spud_cmp f ''/paradosis'' \<noteq> 0 \<and> spud_cmp f ''/nomos'' \<noteq> 0 then
              (case fsd_st_dir_find f st of
                 None \<Rightarrow> (False, st, k)
               | Some i \<Rightarrow> (True, st\<lparr>sd_dirs := take i (sd_dirs st) @ drop (i + 1) (sd_dirs st)\<rparr>, k))
            else (False, st, k))
      else (case kc_remove ops f k of (ok, k) \<Rightarrow> (ok, st, k)))"

definition fsd_mkdir :: "'k kcalls \<Rightarrow> u32 \<Rightarrow> string \<Rightarrow> fsd \<times> 'k \<Rightarrow> bool \<times> fsd \<times> 'k" where
  "fsd_mkdir ops from req s =
    (case s of (st, k) \<Rightarrow>
      let f = spud_ncpy req 64; st = audit_push (CHR ''m'') from f st in
      if fsd_st_owns f then (case fsd_st_mkdir f st of (ok, st) \<Rightarrow> (ok, st, k))
      else (case kc_create ops f True k of (ok, k) \<Rightarrow> (ok, st, k)))"

text \<open>The trail, from the last slot in use down to the first.\<close>

definition audit_line :: "audit \<Rightarrow> string" where
  "audit_line a = [if au_op a \<noteq> NUL then au_op a else CHR '' ''] @ ''pid'' @
     [char_of (48 + unat (au_from a mod 10) :: nat)] @ '' '' @ take (AUDIT_PATH - 1) (cstr (au_path a)) @ [CHR 0x0A]"

fun audit_lines :: "audit list \<Rightarrow> string \<Rightarrow> string" where
  "audit_lines [] out = out"
| "audit_lines (a # as) out =
    (if length out + 8 + AUDIT_PATH + 1 < RESP_MAX then audit_lines as (out @ audit_line a) else out)"

definition fsd_audit :: "fsd \<Rightarrow> string" where
  "fsd_audit st = audit_lines (rev (sd_audit st)) []"

definition fsd_handler :: "'k kcalls \<Rightarrow> (fsd \<times> 'k) handler" where
  "fsd_handler ops from type req s =
    (if type = IPC_TYPE_PING then (Some ''pong'', s)
     else if type = IPC_TYPE_READ then (case fsd_read ops from req s of (r, s) \<Rightarrow> (Some r, s))
     else if type = IPC_TYPE_LIST then (case fsd_list ops from req s of (r, s) \<Rightarrow> (Some r, s))
     else if type = IPC_TYPE_FS_CREATE then (case fsd_create ops from req s of (b, s) \<Rightarrow> (reply_bit b, s))
     else if type = IPC_TYPE_FS_WRITE then (case fsd_write ops from req s of (b, s) \<Rightarrow> (reply_bit b, s))
     else if type = IPC_TYPE_FS_REMOVE then (case fsd_remove ops from req s of (b, s) \<Rightarrow> (reply_bit b, s))
     else if type = IPC_TYPE_FS_MKDIR then (case fsd_mkdir ops from req s of (b, s) \<Rightarrow> (reply_bit b, s))
     else if type = IPC_TYPE_FS_AUDIT then (Some (fsd_audit (fst s)), s)
     else (Some ''?'', s))"

section \<open>What the handler keeps\<close>

definition text_ok :: "nat \<Rightarrow> string \<Rightarrow> bool" where
  "text_ok n s \<longleftrightarrow> NUL \<notin> set s \<and> length s < n"

definition file_ok :: "st_file \<Rightarrow> bool" where
  "file_ok f \<longleftrightarrow> text_ok 48 (sf_path f) \<and> length (sf_data f) < ST_DATA"

definition fsd_ok :: "fsd \<Rightarrow> bool" where
  "fsd_ok st \<longleftrightarrow> length (sd_files st) \<le> ST_MAX \<and> length (sd_dirs st) \<le> ST_DIRS \<and> length (sd_audit st) \<le> AUDIT_MAX \<and>
     (\<forall>f\<in>set (sd_files st). file_ok f) \<and> (\<forall>d\<in>set (sd_dirs st). text_ok 48 d) \<and>
     (\<forall>a\<in>set (sd_audit st). length (au_path a) < AUDIT_PATH)"

lemma set_updateD: "x \<in> set (xs[i := y]) \<Longrightarrow> x = y \<or> x \<in> set xs"
  using set_update_subset_insert by fastforce

lemma all_update: "\<forall>x\<in>set xs. P x \<Longrightarrow> P y \<Longrightarrow> \<forall>x\<in>set (xs[i := y]). P x"
  using set_updateD by metis

lemma text_ok_ncpy [simp]: "0 < n \<Longrightarrow> text_ok n (spud_ncpy s n)"
proof -
  have "NUL \<notin> set (take (n - 1) (cstr s))" by (meson NUL_notin_cstr in_set_takeD)
  then show "0 < n \<Longrightarrow> text_ok n (spud_ncpy s n)" by (auto simp: text_ok_def spud_ncpy_def)
qed

lemma fsd_ok_audit:
  assumes "fsd_ok st"
  shows "fsd_ok (audit_push op from path st)"
proof -
  let ?e = "\<lparr>au_op = op, au_from = from, au_path = spud_ncpy path AUDIT_PATH\<rparr>"
  have e: "length (au_path ?e) < AUDIT_PATH" by (simp add: spud_ncpy_def AUDIT_PATH_def)
  have a: "\<forall>a\<in>set (sd_audit st). length (au_path a) < AUDIT_PATH" using assms by (simp add: fsd_ok_def)
  show ?thesis
    using assms e all_update [OF a e] by (simp add: fsd_ok_def audit_push_def Let_def)
qed

lemma file_at_ok: "fsd_ok st \<Longrightarrow> fsd_st_find path st = Some i \<Longrightarrow> file_ok (sd_files st ! i)"
  unfolding fsd_st_find_def by (meson first_index_SomeD(3) fsd_ok_def)

lemma fsd_ok_set:
  assumes "fsd_ok st" "fsd_st_set path d st = (b, st')"
  shows "fsd_ok st'"
proof (cases "fsd_st_find path st")
  case None
  then show ?thesis
    using assms by (auto simp: fsd_st_set_def Let_def fsd_ok_def file_ok_def ST_DATA_def split: if_splits)
next
  case (Some i)
  let ?f = "(sd_files st ! i)\<lparr>sf_data := take (ST_DATA - 1) d\<rparr>"
  have f: "file_ok ?f" using file_at_ok [OF assms(1) Some] by (simp add: file_ok_def ST_DATA_def)
  have a: "\<forall>f\<in>set (sd_files st). file_ok f" using assms(1) by (simp add: fsd_ok_def)
  show ?thesis using assms Some all_update [OF a f, of i] by (auto simp: fsd_st_set_def Let_def fsd_ok_def)
qed

lemma fsd_ok_remove:
  assumes "fsd_ok st" "fsd_st_remove path st = (b, st')"
  shows "fsd_ok st'"
proof (cases "fsd_st_find path st")
  case (Some i)
  then have ne: "sd_files st \<noteq> []" unfolding fsd_st_find_def by (auto dest: first_index_SomeD(1))
  have a: "\<forall>f\<in>set (sd_files st). file_ok f" using assms(1) by (simp add: fsd_ok_def)
  let ?l = "(sd_files st)[i := last (sd_files st)]"
  have "\<forall>f\<in>set ?l. file_ok f" using a ne by (intro all_update) auto
  then have "\<forall>f\<in>set (butlast ?l). file_ok f" by (meson in_set_butlastD)
  then show ?thesis using assms Some by (auto simp: fsd_st_remove_def fsd_ok_def simp del: butlast_list_update)
qed (use assms in \<open>simp add: fsd_st_remove_def\<close>)

lemma fsd_ok_mkdir: "fsd_ok st \<Longrightarrow> fsd_st_mkdir path st = (b, st') \<Longrightarrow> fsd_ok st'"
  by (auto simp: fsd_st_mkdir_def fsd_ok_def split: if_splits)

lemma fsd_ok_rmdir: "fsd_ok st \<Longrightarrow> fsd_ok (st\<lparr>sd_dirs := take i (sd_dirs st) @ drop (i + 1) (sd_dirs st)\<rparr>)"
  by (auto simp: fsd_ok_def dest: in_set_takeD in_set_dropD)

lemma list_entries_fits:
  "length out \<le> mx \<Longrightarrow> length tag \<le> 10 \<Longrightarrow> length (list_entries tag dir mx ps out) \<le> mx"
  by (induction tag dir mx ps out rule: list_entries.induct) (auto split: option.splits)

lemma audit_lines_fits:
  "length out < RESP_MAX \<Longrightarrow> \<forall>a\<in>set as. length (au_path a) < AUDIT_PATH \<Longrightarrow> length (audit_lines as out) < RESP_MAX"
  by (induction as out rule: audit_lines.induct) (auto simp: audit_line_def)

section \<open>The interface to the kernel\<close>

text \<open>What the service relies on: the kernel fills no more than the buffer, and its file calls
  keep its invariant.\<close>

locale file_calls =
  fixes ops :: "'k kcalls" and kinv :: "'k \<Rightarrow> bool"
  assumes read_fits: "n \<noteq> 0 \<Longrightarrow> kc_read ops p n k = Some d \<Longrightarrow> length d \<le> n"
    and list_fits: "kc_list ops p n k = Some d \<Longrightarrow> length d \<le> n"
    and create_keeps: "kinv k \<Longrightarrow> kinv (snd (kc_create ops p dir k))"
    and write_keeps: "kinv k \<Longrightarrow> kinv (snd (kc_write ops p d k))"
    and remove_keeps: "kinv k \<Longrightarrow> kinv (snd (kc_remove ops p k))"
begin

lemma seed_ok: "fsd_ok (fsd_st_seed ops k)"
proof -
  have f: "fsd_ok st \<Longrightarrow> fsd_ok (seed_file ops k src name st)" for src name st
    using fsd_ok_set by (auto simp: seed_file_def Let_def split: option.split) (metis prod.collapse)
  have "fsd_ok st \<Longrightarrow> fsd_ok (fold (seed_file ops k src) names st)" for src names st
    by (induction names arbitrary: st) (simp_all add: f)
  then have g: "fsd_ok st \<Longrightarrow> fsd_ok (seed_folder ops k src st)" for src st
    by (simp add: seed_folder_def split: option.split)
  have "fsd_ok \<lparr>sd_files = [], sd_dirs = take ST_DIRS seed_dirs, sd_audit = []\<rparr>"
    by (simp add: fsd_ok_def seed_dirs_def ST_DIRS_def text_ok_def)
  then show ?thesis using g by (simp add: fsd_st_seed_def)
qed

lemma handler_keeps:
  assumes ok: "fsd_ok st" and k: "kinv k" and h: "fsd_handler ops from type req (st, k) = (r, st', k')"
  shows "fsd_ok st' \<and> kinv k' \<and> (\<exists>d. r = Some d \<and> length d < RESP_MAX)"
proof -
  note A = fsd_ok_audit [OF ok]
  have K: "kc_create ops p dir k = (b, k1) \<Longrightarrow> kinv k1" "kc_write ops p d k = (b, k1) \<Longrightarrow> kinv k1"
      "kc_remove ops p k = (b, k1) \<Longrightarrow> kinv k1" for p dir b k1 d
    using create_keeps [OF k, of p dir] write_keeps [OF k, of p d] remove_keeps [OF k, of p] by simp_all
  have m: "RESP_MAX - 1 \<noteq> 0" "RESP_MAX - 1 < RESP_MAX" by (simp_all add: RESP_MAX_def)
  have rd: "fsd_ok st' \<and> kinv k' \<and> length d < RESP_MAX" if "fsd_read ops from req (st, k) = (d, st', k')" for d
    using that A k m read_fits [OF m(1)] by (fastforce simp: fsd_read_def Let_def RESP_MAX_def split: if_splits option.splits)
  have ls: "fsd_ok st' \<and> kinv k' \<and> length d < RESP_MAX" if c: "fsd_list ops from req (st, k) = (d, st', k')" for d
  proof -
    have "length (fsd_st_list req (RESP_MAX - 1) s) \<le> RESP_MAX - 1" for s
      by (simp add: fsd_st_list_def list_entries_fits)
    then have "length (fsd_st_list req (RESP_MAX - 1) s) < RESP_MAX" for s using m(2) le_less_trans by blast
    moreover have "length (cstr x) < RESP_MAX" if "kc_list ops p (RESP_MAX - 1) k = Some x" for p x
      using list_fits [OF that] length_cstr_le [of x] m(2) by linarith
    moreover have "(18 :: nat) < RESP_MAX" by (simp add: RESP_MAX_def)
    ultimately show ?thesis using c A k by (auto simp: fsd_list_def Let_def split: if_splits option.splits)
  qed
  have cr: "fsd_ok st' \<and> kinv k'" if "fsd_create ops from req (st, k) = (b, st', k')" for b
    using that k by (auto simp: fsd_create_def Let_def A split: if_splits prod.splits dest: fsd_ok_set [OF A] K)
  have wr: "fsd_ok st' \<and> kinv k'" if "fsd_write ops from req (st, k) = (b, st', k')" for b
    using that k by (auto simp: fsd_write_def Let_def A split: if_splits prod.splits dest: fsd_ok_set [OF A] K)
  have rm: "fsd_ok st' \<and> kinv k'" if "fsd_remove ops from req (st, k) = (b, st', k')" for b
    using that k by (auto simp: fsd_remove_def Let_def A fsd_ok_rmdir split: if_splits prod.splits bool.splits option.splits
      dest: fsd_ok_remove [OF A] K intro: fsd_ok_rmdir [simplified])
  have mk: "fsd_ok st' \<and> kinv k'" if "fsd_mkdir ops from req (st, k) = (b, st', k')" for b
    using that k by (auto simp: fsd_mkdir_def Let_def A split: if_splits prod.splits dest: fsd_ok_mkdir [OF A] K)
  have au: "length (fsd_audit st) < RESP_MAX"
    unfolding fsd_audit_def by (rule audit_lines_fits) (use ok in \<open>simp_all add: fsd_ok_def RESP_MAX_def\<close>)
  have sh: "length ''pong'' < RESP_MAX" "length ''?'' < RESP_MAX" "length ''1'' < RESP_MAX" "length ''0'' < RESP_MAX"
    by (simp_all add: RESP_MAX_def)
  show ?thesis
    using h rd ls cr wr rm mk au sh ok k unfolding fsd_handler_def reply_bit_def
    by (auto split: if_splits prod.splits)
qed

end

lemma vfs_read_stored: "vfs_read cwd path mx k = (Some d, stored) \<Longrightarrow> stored = d"
  by (auto simp: vfs_read_def vfs_pseudo_read_def Let_def split: option.splits if_splits)

interpretation kfiles: file_calls kernel_calls kern_inv
proof unfold_locales
  fix n p k d
  show "length d \<le> n" if n: "n \<noteq> 0" and c: "kc_read kernel_calls p n k = Some d"
  proof -
    obtain stored where r: "vfs_read ROOT (Some p) n k = (Some d, stored)"
      using c by (cases "vfs_read ROOT (Some p) n k") (auto simp: kernel_calls_def split: if_splits)
    show ?thesis using vfs_read_bound [OF r n] vfs_read_stored [OF r] by simp
  qed
  show "length d \<le> n" if "kc_list kernel_calls p n k = Some d"
    using that by (auto simp: kernel_calls_def split: if_splits)
next
  fix k :: kern and p d dir
  assume k: "kern_inv k"
  note V = vfs_keeps [OF k, OF prod.collapse [symmetric]]
  show "kern_inv (snd (kc_create kernel_calls p dir k))" "kern_inv (snd (kc_write kernel_calls p d k))"
    "kern_inv (snd (kc_remove kernel_calls p k))"
    using k V by (simp_all add: kernel_calls_def ok_of_def)
qed

section \<open>Writing and reading\<close>

lemmas fs_types = IPC_TYPE_PING_def IPC_TYPE_READ_def IPC_TYPE_LIST_def IPC_TYPE_FS_CREATE_def IPC_TYPE_FS_WRITE_def
  IPC_TYPE_FS_REMOVE_def IPC_TYPE_FS_MKDIR_def IPC_TYPE_FS_AUDIT_def

text \<open>A path as a client sends it, in the space of the service.\<close>

definition own_path :: "string \<Rightarrow> bool" where
  "own_path p \<longleftrightarrow> fsd_st_owns p \<and> NUL \<notin> set p \<and> CHR 0x0A \<notin> set p"

lemma own_path_ne: "own_path p \<Longrightarrow> p \<noteq> []"
  by (auto simp: own_path_def fsd_st_owns_def spud_strstr_def)

lemma spud_cmp_text: "NUL \<notin> set p \<Longrightarrow> NUL \<notin> set q \<Longrightarrow> spud_cmp p q = 0 \<longleftrightarrow> p = q"
  by (simp add: spud_cmp_iff cstr_id)

lemma write_request:
  assumes "own_path p" "length p < 64" "NUL \<notin> set data"
  shows "fsd_write ops from (p @ CHR 0x0A # data) (st, k) =
    (case fsd_st_set p data (audit_push (CHR ''w'') from p st) of (ok, st) \<Rightarrow> (ok, st, k))"
proof -
  have c: "cstr (p @ CHR 0x0A # data) = p @ CHR 0x0A # data" using assms by (intro cstr_id) (auto simp: own_path_def)
  have w: "takeWhile (\<lambda>c. c \<noteq> CHR 0x0A) (p @ CHR 0x0A # data) = p"
  proof -
    have "\<forall>x\<in>set p. x \<noteq> CHR 0x0A" using assms(1) by (auto simp: own_path_def)
    then show ?thesis by (simp add: takeWhile_append2)
  qed
  have "fsd_st_owns p" using assms(1) by (simp add: own_path_def)
  then show ?thesis using assms(2) by (simp add: fsd_write_def c w Let_def)
qed

text \<open>What a read of a path in the store gives.\<close>

definition stored :: "fsd \<Rightarrow> string \<Rightarrow> string option" where
  "stored st q = map_option (\<lambda>f. sf_data f) (find (\<lambda>f. spud_cmp (sf_path f) q = 0) (sd_files st))"

lemma stored_audit [simp]: "stored (audit_push op from path st) q = stored st q"
  by (simp add: stored_def audit_push_def Let_def)

lemma read_reply:
  assumes "own_path q" "fsd_ok st"
  shows "fsd_handler ops from IPC_TYPE_READ q (st, k) =
    (Some (case stored st q of None \<Rightarrow> ''erro: nao encontrado'' | Some d \<Rightarrow> d), audit_push (CHR ''r'') from q st, k)"
proof -
  have c: "cstr q \<noteq> []" using own_path_ne [OF assms(1)] assms(1) by (simp add: cstr_id own_path_def)
  have o: "fsd_st_owns q" using assms(1) by (simp add: own_path_def)
  have s: "stored st q = map_option (\<lambda>i. sf_data (sd_files st ! i)) (fsd_st_find q st)"
    unfolding stored_def fsd_st_find_def first_index_find by (simp add: option.map_comp comp_def)
  have f: "fsd_st_find q (audit_push op from p st) = fsd_st_find q st" "sd_files (audit_push op from p st) = sd_files st" for op p
    by (simp_all add: fsd_st_find_def audit_push_def Let_def)
  have t: "take (RESP_MAX - 1) (sf_data (sd_files st ! i)) = sf_data (sd_files st ! i)" if "fsd_st_find q st = Some i" for i
    using file_at_ok [OF assms(2) that] by (simp add: file_ok_def ST_DATA_def RESP_MAX_def)
  show ?thesis
    using t by (simp add: fsd_handler_def fs_types fsd_read_def c o f s Let_def split: option.split)
qed

lemma stored_set:
  assumes "fsd_st_set p d st = (True, st')" "NUL \<notin> set p" "length p < 48" "fsd_ok st"
  shows "stored st' q = (if cstr q = p then Some (take (ST_DATA - 1) d) else stored st q)"
proof (cases "fsd_st_find p st")
  case None
  have n: "spud_ncpy p 48 = p" using assms(2,3) by (simp add: spud_ncpy_def cstr_id)
  have "find (\<lambda>f. spud_cmp (sf_path f) q = 0) (sd_files st) = None" if "cstr q = p"
    using None that assms(2) by (auto simp: fsd_st_find_def first_index_None_iff find_None_iff spud_cmp_iff cstr_id)
  moreover have "find P (xs @ [x]) = (case find P xs of None \<Rightarrow> if P x then Some x else None | Some y \<Rightarrow> Some y)" for P xs and x :: st_file
    by (induction xs) auto
  ultimately show ?thesis
    using assms(1,2) None n
    by (auto simp: fsd_st_set_def Let_def stored_def spud_cmp_iff cstr_id split: if_splits option.splits)
next
  case (Some i)
  have i: "i < length (sd_files st)" "spud_cmp (sf_path (sd_files st ! i)) p = 0" "\<And>j. j < i \<Longrightarrow> spud_cmp (sf_path (sd_files st ! j)) p \<noteq> 0"
    using Some by (auto simp: fsd_st_find_def first_index_Some_iff)
  let ?P = "\<lambda>f. spud_cmp (sf_path f) q = 0" and ?y = "(sd_files st ! i)\<lparr>sf_data := take (ST_DATA - 1) d\<rparr>"
  have st': "sd_files st' = (sd_files st)[i := ?y]" using assms(1) Some by (auto simp: fsd_st_set_def Let_def)
  show ?thesis
  proof (cases "cstr q = p")
    case True
    then have e: "?P = (\<lambda>f. spud_cmp (sf_path f) p = 0)" using assms(2) by (simp add: spud_cmp_iff cstr_id)
    have "first_index ?P (sd_files st) = Some i" unfolding e using Some by (simp add: fsd_st_find_def)
    moreover have "?P ?y" unfolding fun_cong [OF e] using i(2) by simp
    ultimately show ?thesis
      using first_index_update_same [of ?P "sd_files st" i ?y] i(1) True st' by (simp add: stored_def first_index_find)
  next
    case False
    then have np: "\<not> ?P (sd_files st ! i)" "\<not> ?P ?y" using i(2) assms(2) by (simp_all add: spud_cmp_iff cstr_id)
    have e: "first_index ?P ((sd_files st)[i := ?y]) = first_index ?P (sd_files st)"
      using np by (intro first_index_update_other i(1)) simp_all
    have "(sd_files st)[i := ?y] ! j = sd_files st ! j" if "first_index ?P (sd_files st) = Some j" for j
    proof -
      have "?P (sd_files st ! j)" using that by (simp add: first_index_Some_iff)
      then have "j \<noteq> i" using np(1) by metis
      then show ?thesis by simp
    qed
    then show ?thesis using False st' e by (auto simp: stored_def first_index_find intro!: map_option_cong)
  qed
qed

lemma fsd_st_find_audit [simp]: "fsd_st_find p (audit_push op from q st) = fsd_st_find p st"
  by (simp add: fsd_st_find_def audit_push_def Let_def)

lemma sd_files_audit [simp]: "sd_files (audit_push op from q st) = sd_files st"
  by (simp add: audit_push_def Let_def)

lemma handle_write:
  assumes "own_path p" "length p < 64" "NUL \<notin> set data" "fsd_st_find p st \<noteq> None \<or> length (sd_files st) < ST_MAX"
  shows "\<exists>st1. fsd_st_set p data (audit_push (CHR ''w'') from p st) = (True, st1) \<and>
    fsd_handler ops from IPC_TYPE_FS_WRITE (p @ CHR 0x0A # data) (st, k) = (Some ''1'', st1, k)"
proof -
  obtain b st1 where s: "fsd_st_set p data (audit_push (CHR ''w'') from p st) = (b, st1)" by fastforce
  have b using s assms(4) by (auto simp: fsd_st_set_def Let_def split: option.splits if_splits)
  then show ?thesis
    using s write_request [OF assms(1-3), of ops "from" st k] by (simp add: fsd_handler_def fs_types reply_bit_def)
qed

text \<open>A file of the service reads back the bytes last written, cut to 511, whatever process reads
  it; every other file of the service reads as before, and the kernel is not asked.\<close>

theorem fsd_write_read:
  assumes "fsd_ok st" "own_path p" "length p < 48" "NUL \<notin> set data"
    "fsd_st_find p st \<noteq> None \<or> length (sd_files st) < ST_MAX"
  shows "\<exists>st1. fsd_handler ops from IPC_TYPE_FS_WRITE (p @ CHR 0x0A # data) (st, k) = (Some ''1'', st1, k) \<and>
    fst (fsd_handler ops g IPC_TYPE_READ p (st1, k)) = Some (take 511 data) \<and>
    (\<forall>q. own_path q \<and> q \<noteq> p \<longrightarrow>
      fst (fsd_handler ops g IPC_TYPE_READ q (st1, k)) = fst (fsd_handler ops g IPC_TYPE_READ q (st, k)))"
proof -
  obtain st1 where s: "fsd_st_set p data (audit_push (CHR ''w'') from p st) = (True, st1)"
    and w: "fsd_handler ops from IPC_TYPE_FS_WRITE (p @ CHR 0x0A # data) (st, k) = (Some ''1'', st1, k)"
    using handle_write [OF assms(2) _ assms(4,5)] assms(3) by fastforce
  have ok: "fsd_ok st1" by (rule fsd_ok_set [OF fsd_ok_audit [OF assms(1)] s])
  have np: "NUL \<notin> set p" using assms(2) by (simp add: own_path_def)
  have t: "stored st1 q = (if q = p then Some (take 511 data) else stored st q)" if "own_path q" for q
    using stored_set [OF s np assms(3) fsd_ok_audit [OF assms(1)], of q] that
    by (simp add: own_path_def cstr_id ST_DATA_def)
  show ?thesis using w t assms(2) by (auto simp: read_reply [OF _ ok] read_reply [OF _ assms(1)])
qed

text \<open>A path of 48 to 63 characters is stored cut to 47: the write reports success and takes a new
  slot every time, and the file is never found again.\<close>

theorem fsd_long_path_lost:
  assumes "fsd_ok st" "own_path p" "48 \<le> length p" "length p < 64" "NUL \<notin> set data" "length (sd_files st) < ST_MAX"
  shows "\<exists>st1. fsd_handler ops from IPC_TYPE_FS_WRITE (p @ CHR 0x0A # data) (st, k) = (Some ''1'', st1, k) \<and>
    length (sd_files st1) = length (sd_files st) + 1 \<and>
    fst (fsd_handler ops g IPC_TYPE_READ p (st1, k)) = Some ''erro: nao encontrado''"
proof -
  have np: "cstr p = p" using assms(2) by (simp add: own_path_def cstr_id)
  have none: "fsd_st_find p s = None" if "fsd_ok s" for s
  proof -
    have "length (cstr (sf_path f)) < 48" if "f \<in> set (sd_files s)" for f
      using \<open>fsd_ok s\<close> that length_cstr_le [of "sf_path f"] by (fastforce simp: fsd_ok_def file_ok_def text_ok_def)
    then show ?thesis using assms(3) np by (fastforce simp: fsd_st_find_def first_index_None_iff spud_cmp_iff)
  qed
  obtain st1 where s: "fsd_st_set p data (audit_push (CHR ''w'') from p st) = (True, st1)"
    and w: "fsd_handler ops from IPC_TYPE_FS_WRITE (p @ CHR 0x0A # data) (st, k) = (Some ''1'', st1, k)"
    using handle_write [OF assms(2,4,5)] assms(6) by fastforce
  have ok: "fsd_ok st1" by (rule fsd_ok_set [OF fsd_ok_audit [OF assms(1)] s])
  have "stored st1 p = None" using none [OF ok] by (simp add: stored_def fsd_st_find_def first_index_find)
  then have "fst (fsd_handler ops g IPC_TYPE_READ p (st1, k)) = Some ''erro: nao encontrado''"
    by (simp add: read_reply [OF assms(2) ok])
  moreover have "length (sd_files st1) = length (sd_files st) + 1"
    using s none [OF assms(1)] by (auto simp: fsd_st_set_def Let_def split: if_splits)
  ultimately show ?thesis using w by blast
qed

section \<open>Directories\<close>

fun fsd_run :: "'k kcalls \<Rightarrow> (u32 \<times> u32 \<times> string) list \<Rightarrow> fsd \<times> 'k \<Rightarrow> fsd \<times> 'k" where
  "fsd_run ops [] s = s"
| "fsd_run ops ((g, type, req) # rs) s = fsd_run ops rs (snd (fsd_handler ops g type req s))"

lemma sd_dirs_audit [simp]: "sd_dirs (audit_push op g q st) = sd_dirs st"
  by (simp add: audit_push_def Let_def)

lemma sd_dirs_set: "fsd_st_set p d st = (b, st') \<Longrightarrow> sd_dirs st' = sd_dirs st"
  by (auto simp: fsd_st_set_def Let_def split: option.splits if_splits)

lemma sd_dirs_remove: "fsd_st_remove p st = (b, st') \<Longrightarrow> sd_dirs st' = sd_dirs st"
  by (auto simp: fsd_st_remove_def split: option.splits)

lemma starts_cstr: "NUL \<notin> set n \<Longrightarrow> starts f n = starts (cstr f) n"
proof (induction n arbitrary: f)
  case (Cons m n)
  then show ?case by (cases f) auto
qed simp

lemma strstr_cstr: "NUL \<notin> set n \<Longrightarrow> strstr_loop f n i = strstr_loop (cstr f) n i"
proof (induction f arbitrary: i)
  case (Cons c f)
  then show ?case using starts_cstr [OF Cons.prems, of "c # f"] by auto
qed simp

lemma owned_seed_dir:
  assumes "fsd_st_owns f" "fsd_st_dir_find f st = Some i" "sd_dirs st = seed_dirs"
  shows "cstr f = ''/paradosis'' \<or> cstr f = ''/nomos''"
proof -
  have "sd_dirs st ! i \<in> set seed_dirs" "spud_cmp (sd_dirs st ! i) f = 0"
    using first_index_SomeD(2,3) [OF assms(2) [unfolded fsd_st_dir_find_def]] assms(3) by simp_all
  then have m: "cstr f \<in> cstr ` set seed_dirs" by (metis spud_cmp_iff imageI)
  show ?thesis
    using assms(1) m
    by (auto simp: fsd_st_owns_def spud_cmp_iff spud_strstr_def seed_dirs_def
      strstr_cstr [of "''/paradosis/''" f] strstr_cstr [of "''/nomos/''" f])
qed

lemma dirs_kept:
  assumes d: "sd_dirs st = seed_dirs" and h: "fsd_handler ops g type req (st, k) = (r, st', k')"
  shows "sd_dirs st' = seed_dirs"
proof -
  have none: "fsd_st_dir_find f s = None"
    if "sd_dirs s = seed_dirs" "fsd_st_owns f" "spud_cmp f ''/paradosis'' \<noteq> 0" "spud_cmp f ''/nomos'' \<noteq> 0" for f s
    using owned_seed_dir [OF that(2) _ that(1)] that(3,4) by (cases "fsd_st_dir_find f s") (auto simp: spud_cmp_iff)
  have mk: "sd_dirs s' = seed_dirs" if "sd_dirs s = seed_dirs" "fsd_st_mkdir f s = (b, s')" for f s b s'
    using that by (auto simp: fsd_st_mkdir_def seed_dirs_def ST_DIRS_def split: if_splits)
  have rd: "sd_dirs st' = seed_dirs" if "fsd_read ops g req (st, k) = (x, st', k')" for x
    using that d by (auto simp: fsd_read_def Let_def split: if_splits)
  have ls: "sd_dirs st' = seed_dirs" if "fsd_list ops g req (st, k) = (x, st', k')" for x
    using that d by (auto simp: fsd_list_def Let_def split: if_splits)
  have cr: "sd_dirs st' = seed_dirs" if "fsd_create ops g req (st, k) = (x, st', k')" for x
    using that d by (auto simp: fsd_create_def Let_def split: if_splits prod.splits dest: sd_dirs_set)
  have wr: "sd_dirs st' = seed_dirs" if "fsd_write ops g req (st, k) = (x, st', k')" for x
    using that d by (auto simp: fsd_write_def Let_def split: if_splits prod.splits dest: sd_dirs_set)
  have rm: "sd_dirs st' = seed_dirs" if c: "fsd_remove ops g req (st, k) = (x, st', k')" for x
  proof -
    let ?f = "spud_ncpy req 64" and ?s = "audit_push (CHR ''d'') g (spud_ncpy req 64) st"
    obtain b s where s: "fsd_st_remove ?f ?s = (b, s)" by fastforce
    have "sd_dirs s = seed_dirs" using sd_dirs_remove [OF s] d by simp
    then show ?thesis
      using c d s none [of s ?f] by (auto simp: fsd_remove_def Let_def split: if_splits prod.splits bool.splits option.splits)
  qed
  have md: "sd_dirs st' = seed_dirs" if "fsd_mkdir ops g req (st, k) = (x, st', k')" for x
    using that d by (auto simp: fsd_mkdir_def Let_def split: if_splits prod.splits dest: mk [rotated])
  show ?thesis
    using h d rd ls cr wr rm md by (auto simp: fsd_handler_def split: if_splits prod.splits)
qed

lemma seed_has_dirs: "sd_dirs (fsd_st_seed ops k) = seed_dirs"
proof -
  have f: "sd_dirs (seed_file ops k src name st) = sd_dirs st" for src name st
    by (auto simp: seed_file_def Let_def split: option.split) (metis prod.collapse sd_dirs_set)
  have "sd_dirs (fold (seed_file ops k src) names st) = sd_dirs st" for src names st
    by (induction names arbitrary: st) (simp_all add: f)
  then have "sd_dirs (seed_folder ops k src st) = sd_dirs st" for src st
    by (simp add: seed_folder_def split: option.split)
  then show ?thesis by (simp add: fsd_st_seed_def seed_dirs_def ST_DIRS_def)
qed

text \<open>The seed fills the table of directories with the eight of the root, of which only the two
  protected ones are in the space of the service: whatever is asked of it, the table never changes,
  and the creation of a directory below them always fails.\<close>

theorem fsd_no_directories:
  assumes "fsd_run ops rs (fsd_st_seed ops k, k) = (st, k1)" "fsd_st_owns (spud_ncpy req 64)"
    "spud_ncpy req 64 \<notin> {''/paradosis'', ''/nomos''}"
  shows "sd_dirs st = seed_dirs \<and> fst (fsd_handler ops g IPC_TYPE_FS_MKDIR req (st, k1)) = Some ''0''"
proof -
  have "sd_dirs (fst s) = seed_dirs \<Longrightarrow> sd_dirs (fst (fsd_run ops rs s)) = seed_dirs" for s
  proof (induction ops rs s rule: fsd_run.induct)
    case (2 ops g type req rs s)
    have "sd_dirs (fst (snd (fsd_handler ops g type req s))) = seed_dirs"
      using dirs_kept [of "fst s" ops g type req "snd s"] 2(2) by (metis prod.collapse)
    then show ?case using 2(1) by simp
  qed simp
  from this [of "(fsd_st_seed ops k, k)"] have d: "sd_dirs st = seed_dirs" using assms(1) by (simp add: seed_has_dirs)
  let ?f = "spud_ncpy req 64" and ?s = "audit_push (CHR ''m'') g (spud_ncpy req 64) st"
  have c: "cstr ?f = ?f" by (simp add: spud_ncpy_def)
  have "fsd_st_dir_find ?f ?s = None"
  proof (rule ccontr)
    assume "fsd_st_dir_find ?f ?s \<noteq> None"
    then obtain i where "fsd_st_dir_find ?f ?s = Some i" by blast
    from owned_seed_dir [OF assms(2) this] show False using assms(3) d c by simp
  qed
  then have "fsd_st_mkdir ?f ?s = (False, ?s)" using d by (simp add: fsd_st_mkdir_def seed_dirs_def ST_DIRS_def)
  then show ?thesis using d assms(2) by (simp add: fsd_handler_def fs_types fsd_mkdir_def Let_def reply_bit_def)
qed

section \<open>The trail\<close>

lemma audit_line_len: "length (au_path a) < AUDIT_PATH \<Longrightarrow> length (audit_line a) \<le> 52"
  using length_cstr_le [of "au_path a"] by (simp add: audit_line_def AUDIT_PATH_def)

lemma audit_lines_all:
  assumes "length out + 53 * length as < RESP_MAX" "\<forall>a\<in>set as. length (au_path a) < AUDIT_PATH"
  shows "audit_lines as out = out @ concat (map audit_line as)"
  using assms
proof (induction as out rule: audit_lines.induct)
  case (2 a as out)
  have "length (audit_line a) \<le> 52" using 2(3) audit_line_len by simp
  then have "length (out @ audit_line a) + 53 * length as < RESP_MAX" using 2(2) by simp
  moreover have "length out + 8 + AUDIT_PATH + 1 < RESP_MAX" using 2(2) by (simp add: AUDIT_PATH_def RESP_MAX_def)
  ultimately show ?case using 2 by simp
qed simp

lemma audit_text:
  assumes "fsd_ok st"
  shows "fsd_audit st = concat (map audit_line (rev (sd_audit st)))"
proof -
  have "53 * length (sd_audit st) < RESP_MAX" using assms by (simp add: fsd_ok_def AUDIT_MAX_def RESP_MAX_def)
  then show ?thesis using assms audit_lines_all [of "[]" "rev (sd_audit st)"] by (simp add: fsd_audit_def fsd_ok_def)
qed

text \<open>The entry a request of a process leaves.\<close>

definition entry :: "char \<Rightarrow> u32 \<Rightarrow> string \<Rightarrow> audit" where
  "entry op g p = \<lparr>au_op = op, au_from = g, au_path = spud_ncpy p AUDIT_PATH\<rparr>"

lemma audit_push_full: "length (sd_audit st) = AUDIT_MAX \<Longrightarrow>
    sd_audit (audit_push op g p st) = entry op g p # tl (sd_audit st)"
  by (cases "sd_audit st") (auto simp: audit_push_def entry_def Let_def AUDIT_MAX_def)

text \<open>Once the trail holds 16 operations every further one overwrites the first slot: the trail
  shows the newest operation last, and the one before it is lost without a trace.\<close>

theorem fsd_audit_saturates:
  assumes "fsd_ok st" "length (sd_audit st) = AUDIT_MAX" "own_path p" "own_path q"
    "fsd_handler ops g IPC_TYPE_READ p (st, k) = (r1, st1, k1)" "fsd_handler ops h IPC_TYPE_READ q (st1, k1) = (r2, st2, k2)"
    "fsd_handler ops h IPC_TYPE_READ q (st, k) = (r3, st3, k3)"
  shows "fst (fsd_handler ops n IPC_TYPE_FS_AUDIT req (st2, k2)) = fst (fsd_handler ops n IPC_TYPE_FS_AUDIT req (st3, k3)) \<and>
    (\<exists>shown. fst (fsd_handler ops n IPC_TYPE_FS_AUDIT req (st2, k2)) = Some (shown @ audit_line (entry (CHR ''r'') h q)))"
proof -
  have st1: "st1 = audit_push (CHR ''r'') g p st" using assms(5) by (simp add: read_reply [OF assms(3,1)])
  have ok1: "fsd_ok st1" unfolding st1 by (rule fsd_ok_audit [OF assms(1)])
  have l1: "sd_audit st1 = entry (CHR ''r'') g p # tl (sd_audit st)" unfolding st1 by (rule audit_push_full [OF assms(2)])
  then have "length (sd_audit st1) = AUDIT_MAX" using assms(2) by (simp add: AUDIT_MAX_def)
  moreover have st2: "st2 = audit_push (CHR ''r'') h q st1" using assms(6) by (simp add: read_reply [OF assms(4) ok1])
  ultimately have a2: "sd_audit st2 = entry (CHR ''r'') h q # tl (sd_audit st)" using audit_push_full l1 by simp
  have st3: "st3 = audit_push (CHR ''r'') h q st" using assms(7) by (simp add: read_reply [OF assms(4,1)])
  have a3: "sd_audit st3 = sd_audit st2" unfolding a2 st3 by (rule audit_push_full [OF assms(2)])
  have ok2: "fsd_ok st2" unfolding st2 by (rule fsd_ok_audit [OF ok1])
  have t: "fst (fsd_handler ops n IPC_TYPE_FS_AUDIT req (s, x)) = Some (fsd_audit s)" for s x
    by (simp add: fsd_handler_def fs_types)
  show ?thesis unfolding t using a3 audit_text [OF ok2] a2 by (simp add: fsd_audit_def)
qed

section \<open>The service over the kernel\<close>

text \<open>Whatever a client sends, the tables of the service stay within their bounds, with paths that
  fit, the reply fits the buffer, and the kernel's invariant is kept by the calls made on the way.\<close>

theorem fsd_invariant:
  assumes "fsd_ok st" "kern_inv k" "fsd_handler kernel_calls g type req (st, k) = (r, st1, k1)"
  shows "fsd_ok st1 \<and> kern_inv k1 \<and> (\<exists>d. r = Some d \<and> length d < RESP_MAX)"
  by (rule kfiles.handler_keeps [OF assms])

text \<open>A request for a path of the service does not reach the kernel.\<close>

lemma owned_not_kernel:
  assumes "fsd_st_owns (spud_ncpy req 64)" "type \<in> {IPC_TYPE_FS_CREATE, IPC_TYPE_FS_REMOVE, IPC_TYPE_FS_MKDIR}"
    "fsd_handler ops g type req (st, k) = (r, st1, k1)"
  shows "k1 = k"
  using assms by (auto simp: fsd_handler_def fs_types fsd_create_def fsd_remove_def fsd_mkdir_def Let_def
    split: prod.splits bool.splits if_splits option.splits)

definition one_note :: fsd where
  "one_note = \<lparr>sd_files = [\<lparr>sf_path = ''/nomos/a'', sf_data = ''old''\<rparr>], sd_dirs = seed_dirs,
     sd_audit = replicate 16 (entry (CHR ''r'') 3 ''/nomos/a'')\<rparr>"

lemma one_note_ok: "fsd_ok one_note" "length (sd_audit one_note) = AUDIT_MAX"
  by (simp_all add: fsd_ok_def one_note_def file_ok_def text_ok_def seed_dirs_def entry_def spud_ncpy_def
    ST_MAX_def ST_DIRS_def ST_DATA_def AUDIT_MAX_def AUDIT_PATH_def)

lemma own_note: "own_path ''/nomos/b''" "own_path (''/nomos/'' @ replicate 45 (CHR ''x''))"
  by (simp_all add: own_path_def fsd_st_owns_def spud_strstr_def)

lemma fsd_write_read_witness:
  "\<exists>st1. fsd_handler kernel_calls 5 IPC_TYPE_FS_WRITE (''/nomos/b'' @ CHR 0x0A # ''text'') (one_note, demo_kern) =
     (Some ''1'', st1, demo_kern) \<and>
   fst (fsd_handler kernel_calls 6 IPC_TYPE_READ ''/nomos/b'' (st1, demo_kern)) = Some ''text''"
proof -
  have r: "length ''/nomos/b'' < 48" "NUL \<notin> set ''text''"
    "fsd_st_find ''/nomos/b'' one_note \<noteq> None \<or> length (sd_files one_note) < ST_MAX"
    by (simp_all add: one_note_def ST_MAX_def)
  from fsd_write_read [OF one_note_ok(1) own_note(1) r, of kernel_calls 5 demo_kern 6] show ?thesis by auto
qed

lemma fsd_long_path_lost_witness:
  "\<exists>p st1. fsd_handler kernel_calls 5 IPC_TYPE_FS_WRITE (p @ CHR 0x0A # ''text'') (one_note, demo_kern) =
     (Some ''1'', st1, demo_kern) \<and>
   fst (fsd_handler kernel_calls 5 IPC_TYPE_READ p (st1, demo_kern)) = Some ''erro: nao encontrado''"
proof -
  let ?p = "''/nomos/'' @ replicate 45 (CHR ''x'')"
  have r: "48 \<le> length ?p" "length ?p < 64" "NUL \<notin> set ''text''" "length (sd_files one_note) < ST_MAX"
    by (simp_all add: one_note_def ST_MAX_def)
  from fsd_long_path_lost [OF one_note_ok(1) own_note(2) r, of kernel_calls 5 demo_kern 5] show ?thesis by blast
qed

lemma fsd_no_directories_witness:
  "fst (fsd_handler kernel_calls 5 IPC_TYPE_FS_MKDIR ''/nomos/b'' (fsd_st_seed kernel_calls demo_kern, demo_kern)) = Some ''0''"
proof -
  have r: "fsd_run kernel_calls [] (fsd_st_seed kernel_calls demo_kern, demo_kern) =
      (fsd_st_seed kernel_calls demo_kern, demo_kern)"
    "fsd_st_owns (spud_ncpy ''/nomos/b'' 64)" "spud_ncpy ''/nomos/b'' 64 \<notin> {''/paradosis'', ''/nomos''}"
    using own_note(1) by (simp_all add: own_path_def spud_ncpy_def)
  from fsd_no_directories [OF r, of 5] show ?thesis by blast
qed

lemma fsd_audit_saturates_witness:
  "\<exists>st2 k2 shown. fst (fsd_handler kernel_calls 9 IPC_TYPE_FS_AUDIT [] (st2, k2)) =
     Some (shown @ audit_line (entry (CHR ''r'') 5 ''/nomos/b''))"
proof -
  obtain r1 st1 k1 where 1: "fsd_handler kernel_calls 4 IPC_TYPE_READ ''/nomos/b'' (one_note, demo_kern) = (r1, st1, k1)"
    by (metis prod_cases3)
  obtain r2 st2 k2 where 2: "fsd_handler kernel_calls 5 IPC_TYPE_READ ''/nomos/b'' (st1, k1) = (r2, st2, k2)"
    by (metis prod_cases3)
  obtain r3 st3 k3 where 3: "fsd_handler kernel_calls 5 IPC_TYPE_READ ''/nomos/b'' (one_note, demo_kern) = (r3, st3, k3)"
    by (metis prod_cases3)
  from fsd_audit_saturates [OF one_note_ok own_note(1) own_note(1) 1 2 3, of 9 "[]"] show ?thesis by blast
qed

lemma fsd_invariant_witness:
  "kern_inv (snd (snd (fsd_handler kernel_calls 5 IPC_TYPE_FS_MKDIR ''/b'' (one_note, thais_main small_boot 0x1000 [] 0x100000))))"
proof -
  obtain r st k where h: "fsd_handler kernel_calls 5 IPC_TYPE_FS_MKDIR ''/b'' (one_note, thais_main small_boot 0x1000 [] 0x100000) = (r, st, k)"
    by (metis prod_cases3)
  from fsd_invariant [OF one_note_ok(1) boot_inv h] h show ?thesis by simp
qed

section \<open>Two names\<close>

text \<open>The service compares paths as they are written, the kernel normalises them: a file of the service
  written by another name of the same path is written in the kernel's tree, and the service goes on
  reading its own copy.\<close>

theorem fsd_two_names:
  assumes "fsd_ok st" "own_path p" "\<not> fsd_st_owns q" "q \<noteq> []" "NUL \<notin> set q" "CHR 0x0A \<notin> set q" "length q < 64"
    "norm_of ROOT (Some q) = norm_of ROOT (Some p)" "NUL \<notin> set data" "syscall_cap CAP_FS_WRITE k"
    "fsd_handler kernel_calls g IPC_TYPE_FS_WRITE (q @ CHR 0x0A # data) (st, k) = (r, st1, k1)"
  shows "k1 = snd (vfs_write ROOT (Some p) data k) \<and>
    fst (fsd_handler kernel_calls h IPC_TYPE_READ p (st1, k1)) = fst (fsd_handler kernel_calls h IPC_TYPE_READ p (st, k))"
proof -
  have c: "cstr (q @ CHR 0x0A # data) = q @ CHR 0x0A # data" using assms by (intro cstr_id) auto
  have "\<forall>x\<in>set q. x \<noteq> CHR 0x0A" using assms(6) by auto
  then have w: "takeWhile (\<lambda>c. c \<noteq> CHR 0x0A) (q @ CHR 0x0A # data) = q" by (simp add: takeWhile_append2)
  have v: "vfs_write ROOT (Some q) data k = vfs_write ROOT (Some p) data k" using assms(8) by (simp add: vfs_write_def)
  have e: "fsd_write kernel_calls g (q @ CHR 0x0A # data) (st, k) =
      (fst (vfs_write ROOT (Some p) data k) = 0, audit_push (CHR ''w'') g q st, snd (vfs_write ROOT (Some p) data k))"
    using assms(3,4,7,10) by (simp add: fsd_write_def c w Let_def kernel_calls_def ok_of_def v)
  then have st1: "st1 = audit_push (CHR ''w'') g q st" "k1 = snd (vfs_write ROOT (Some p) data k)"
    using assms(11) by (simp_all add: fsd_handler_def fs_types)
  show ?thesis
    using st1(2) fsd_ok_audit [OF assms(1)] by (simp add: st1(1) read_reply [OF assms(2)] assms(1))
qed

lemma norm_two: "norm_of ROOT (Some ''//nomos/a'') = Some ''/nomos/a''" "norm_of ROOT (Some ''/nomos/a'') = Some ''/nomos/a''"
  by (simp_all add: norm_of_def vfs_normalize_def ROOT_def at_def clip_def FS_NAME_MAX_def norm_loop.simps norm_step_def)

lemma fsd_two_names_witness:
  "\<exists>st1 k1. fst (fsd_handler kernel_calls 6 IPC_TYPE_READ ''/nomos/a'' (st1, k1)) = Some ''old'' \<and>
     k1 = snd (vfs_write ROOT (Some ''/nomos/a'') ''new'' (demo_kern\<lparr>k_sys := two_procs\<lparr>cur := None\<rparr>\<rparr>))"
proof -
  let ?k = "demo_kern\<lparr>k_sys := two_procs\<lparr>cur := None\<rparr>\<rparr>"
  have p: "own_path ''/nomos/a''" by (simp add: own_path_def fsd_st_owns_def spud_strstr_def)
  have q: "\<not> fsd_st_owns ''//nomos/a''" by (simp add: fsd_st_owns_def spud_strstr_def spud_cmp_iff)
  have s: "''//nomos/a'' \<noteq> []" "NUL \<notin> set ''//nomos/a''" "CHR 0x0A \<notin> set ''//nomos/a''" "length ''//nomos/a'' < 64" by simp_all
  have n: "norm_of ROOT (Some ''//nomos/a'') = norm_of ROOT (Some ''/nomos/a'')" by (simp add: norm_two)
  have d: "NUL \<notin> set ''new''" "syscall_cap CAP_FS_WRITE ?k" by (simp_all add: syscall_cap_def current_proc_def)
  obtain r st1 k1 where h: "fsd_handler kernel_calls 5 IPC_TYPE_FS_WRITE (''//nomos/a'' @ CHR 0x0A # ''new'') (one_note, ?k) = (r, st1, k1)"
    by (metis prod_cases3)
  have o: "fst (fsd_handler kernel_calls 6 IPC_TYPE_READ ''/nomos/a'' (one_note, ?k)) = Some ''old''"
    unfolding read_reply [OF p one_note_ok(1)] by (simp add: stored_def one_note_def spud_cmp_iff)
  from fsd_two_names [OF one_note_ok(1) p q s n d h, of 6] o show ?thesis by metis
qed

end
