(* ===== verification/UHeap.thy ===== *)
theory UHeap
  imports Prelude
begin

text \<open>
  The allocator of the programs in ring 3, src/userspace/spud.h: \<open>spud_malloc\<close> and
  \<open>spud_free\<close>, first fit with boundary tags over memory from SYS_MMAP.

  Addresses and sizes are natural numbers; the two places where a size can wrap, the
  rounding in \<open>spud_malloc\<close> and the page count in \<open>spud_grow\<close>, are taken modulo $2^{64}$.
  The header fields and the footer words are maps from addresses; the free list is the
  list of headers from \<open>spud_fl\<close> along \<open>next\<close>.
\<close>

section \<open>The heap\<close>

definition SPUD_HEAP_CHUNK :: nat where "SPUD_HEAP_CHUNK = 65536"
definition SPUD_HDRSZ :: nat where "SPUD_HDRSZ = 24"
definition SPUD_RBLK :: nat where "SPUD_RBLK = 8"

record uheap =
  uh_size :: "nat \<Rightarrow> nat"
  uh_free :: "nat \<Rightarrow> bool"
  uh_foot :: "nat \<Rightarrow> nat"
  uh_fl :: "nat list"
  uh_va :: nat
  uh_end :: nat

definition spud_blk_next :: "nat \<Rightarrow> uheap \<Rightarrow> nat" where
  "spud_blk_next h s = h + SPUD_HDRSZ + uh_size s h + SPUD_RBLK"

definition set_size :: "nat \<Rightarrow> nat \<Rightarrow> uheap \<Rightarrow> uheap" where
  "set_size h n s = s\<lparr>uh_size := (uh_size s)(h := n)\<rparr>"

definition set_free :: "nat \<Rightarrow> bool \<Rightarrow> uheap \<Rightarrow> uheap" where
  "set_free h b s = s\<lparr>uh_free := (uh_free s)(h := b)\<rparr>"

definition spud_set_footer :: "nat \<Rightarrow> uheap \<Rightarrow> uheap" where
  "spud_set_footer h s = s\<lparr>uh_foot := (uh_foot s)(h + SPUD_HDRSZ + uh_size s h := uh_size s h)\<rparr>"

text \<open>The call SYS_MMAP: the address of so many new pages, or none.\<close>

definition spud_grow :: "(nat \<Rightarrow> nat option) \<Rightarrow> nat \<Rightarrow> uheap \<Rightarrow> uheap" where
  "spud_grow mmap want s =
    (let pages = (want + 0xFFF) mod 2 ^ 64 div 0x1000; pages = (if pages < 16 then 16 else pages) in
     case mmap pages of
       None \<Rightarrow> s
     | Some va \<Rightarrow>
        let s = (if uh_va s = 0 then s\<lparr>uh_va := va\<rparr> else s);
            s = s\<lparr>uh_end := va + pages * 0x1000\<rparr>;
            s = set_free va True (set_size va (pages * 0x1000 - SPUD_HDRSZ - SPUD_RBLK) s)
        in (spud_set_footer va s)\<lparr>uh_fl := va # uh_fl s\<rparr>)"

text \<open>The pointer, or 0, from the first block of the list that is large enough.\<close>

fun alloc_loop :: "nat \<Rightarrow> nat list \<Rightarrow> nat list \<Rightarrow> uheap \<Rightarrow> nat \<times> uheap" where
  "alloc_loop need pre [] s = (0, s)"
| "alloc_loop need pre (h # post) s =
    (if need \<le> uh_size s h then
       (if need + SPUD_HDRSZ + SPUD_RBLK + 16 \<le> uh_size s h then
          (let after = h + SPUD_HDRSZ + need; nk = after + SPUD_RBLK;
               s = set_free nk True (set_size nk (uh_size s h - need - SPUD_HDRSZ - SPUD_RBLK) s);
               s = set_free h False (set_size h need s);
               s = s\<lparr>uh_foot := (uh_foot s)(after := need)\<rparr>
           in (h + SPUD_HDRSZ, (spud_set_footer nk s)\<lparr>uh_fl := pre @ nk # post\<rparr>))
        else (h + SPUD_HDRSZ, (set_free h False s)\<lparr>uh_fl := pre @ post\<rparr>))
     else alloc_loop need (pre @ [h]) post s)"

definition spud_alloc_locked :: "nat \<Rightarrow> uheap \<Rightarrow> nat \<times> uheap" where
  "spud_alloc_locked need s = alloc_loop need [] (uh_fl s) s"

definition round_up :: "nat \<Rightarrow> nat" where
  "round_up n = (let n = (if n = 0 then 1 else n) in (n + 15) mod 2 ^ 64 div 16 * 16)"

definition spud_malloc :: "(nat \<Rightarrow> nat option) \<Rightarrow> nat \<Rightarrow> uheap \<Rightarrow> nat \<times> uheap" where
  "spud_malloc mmap n s =
    (let n = round_up n in
     case spud_alloc_locked n s of
       (p, s) \<Rightarrow>
         if p = 0
         then spud_alloc_locked n (spud_grow mmap (if n < SPUD_HEAP_CHUNK then SPUD_HEAP_CHUNK else n) s)
         else (p, s))"

definition spud_unlink :: "nat \<Rightarrow> uheap \<Rightarrow> uheap" where
  "spud_unlink h s = s\<lparr>uh_fl := remove1 h (uh_fl s)\<rparr>"

text \<open>The two loops of \<open>spud_coalesce\<close>.\<close>

function join_next :: "nat \<Rightarrow> uheap \<Rightarrow> uheap" where
  "join_next h s =
    (let nx = spud_blk_next h s in
     if uh_end s \<le> nx then s
     else if \<not> uh_free s nx then s
     else let s = spud_unlink nx s
       in join_next h (spud_set_footer h (set_size h (uh_size s h + SPUD_HDRSZ + SPUD_RBLK + uh_size s nx) s)))"
  by pat_completeness auto
termination
  by (relation "measure (\<lambda>(h, s). uh_end s - spud_blk_next h s)")
     (auto simp: spud_blk_next_def spud_set_footer_def set_size_def spud_unlink_def SPUD_HDRSZ_def SPUD_RBLK_def)

function join_prev :: "nat \<Rightarrow> uheap \<Rightarrow> uheap" where
  "join_prev h s =
    (if h \<le> uh_va s then s
     else let pf = uh_foot s (h - SPUD_RBLK) in
       if pf = 0 \<or> h - uh_va s < pf then s
       else let pr = h - SPUD_RBLK - pf - SPUD_HDRSZ in
         if pr < uh_va s \<or> \<not> uh_free s pr \<or> uh_size s pr \<noteq> pf then s
         else let s = spud_unlink h s
           in join_prev pr (spud_set_footer pr (set_size pr (uh_size s pr + SPUD_HDRSZ + SPUD_RBLK + uh_size s h) s)))"
  by pat_completeness auto
termination
  by (relation "measure (\<lambda>(h, s). h)") (auto simp: SPUD_HDRSZ_def SPUD_RBLK_def)

declare join_next.simps [simp del] join_prev.simps [simp del]

definition spud_coalesce :: "nat \<Rightarrow> uheap \<Rightarrow> uheap" where
  "spud_coalesce h s = join_prev h (join_next h s)"

definition spud_free :: "nat \<Rightarrow> uheap \<Rightarrow> uheap" where
  "spud_free ptr s =
    (if ptr = 0 then s
     else let h = ptr - SPUD_HDRSZ; s = set_free h True s
       in spud_coalesce h (s\<lparr>uh_fl := h # uh_fl s\<rparr>))"

section \<open>Blocks that tile the heap\<close>

fun tiles :: "uheap \<Rightarrow> nat list \<Rightarrow> nat \<Rightarrow> nat \<Rightarrow> bool" where
  "tiles s [] a e \<longleftrightarrow> a = e"
| "tiles s (b # bs) a e \<longleftrightarrow> b = a \<and> uh_foot s (a + 24 + uh_size s a) = uh_size s a \<and> 16 \<le> uh_size s a \<and>
     tiles s bs (a + 32 + uh_size s a) e"

lemma tiles_le: "tiles s bs a e \<Longrightarrow> a \<le> e"
  by (induction bs arbitrary: a) fastforce+

lemma tiles_append: "tiles s (xs @ ys) a e \<longleftrightarrow> (\<exists>m. tiles s xs a m \<and> tiles s ys m e)"
  by (induction xs arbitrary: a) auto

lemma tiles_frame:
  "tiles s bs a e \<Longrightarrow> (\<And>x. a \<le> x \<Longrightarrow> x < e \<Longrightarrow> uh_size s' x = uh_size s x \<and> uh_foot s' x = uh_foot s x) \<Longrightarrow> tiles s' bs a e"
proof (induction bs arbitrary: a)
  case (Cons b bs)
  have t: "tiles s bs (a + 32 + uh_size s a) e" using Cons.prems(1) by simp
  note le = tiles_le [OF t]
  have "uh_size s' a = uh_size s a" "uh_foot s' (a + 24 + uh_size s a) = uh_foot s (a + 24 + uh_size s a)"
    using Cons.prems(2) [of a] Cons.prems(2) [of "a + 24 + uh_size s a"] le by simp_all
  then show ?case using Cons.prems Cons.IH [OF t] le by auto
qed simp

lemma tiles_bounds: "tiles s bs a e \<Longrightarrow> b \<in> set bs \<Longrightarrow> a \<le> b \<and> b + 32 + uh_size s b \<le> e"
proof (induction bs arbitrary: a)
  case (Cons x bs)
  then show ?case using tiles_le [of s bs "a + 32 + uh_size s a" e] by fastforce
qed simp

lemma tiles_split:
  assumes "tiles s (xs @ h # ys) a e"
  shows "tiles s xs a h" "tiles s ys (h + 32 + uh_size s h) e" "uh_foot s (h + 24 + uh_size s h) = uh_size s h"
    "16 \<le> uh_size s h"
  using assms by (auto simp: tiles_append)

lemma tiles_distinct: "tiles s bs a e \<Longrightarrow> distinct bs"
proof (induction bs arbitrary: a)
  case (Cons b bs)
  then have t: "tiles s bs (b + 32 + uh_size s b) e" by simp
  then have "b \<notin> set bs" using tiles_bounds [OF t, of b] by auto
  then show ?case using Cons.IH [OF t] by simp
qed simp

text \<open>A change inside one block keeps the tiles before and after it.\<close>

lemma tiles_inside:
  assumes "tiles s (xs @ h # ys) a e"
    "\<And>x. x < h \<or> h + 32 + uh_size s h \<le> x \<Longrightarrow> uh_size s' x = uh_size s x \<and> uh_foot s' x = uh_foot s x"
  shows "tiles s' xs a h" "tiles s' ys (h + 32 + uh_size s h) e"
  by (rule tiles_frame [OF tiles_split(1) [OF assms(1)]], rule assms(2), simp)
     (rule tiles_frame [OF tiles_split(2) [OF assms(1)]], rule assms(2), simp)

text \<open>The blocks tile the heap, and the free list holds the free ones, each once.\<close>

definition uheap_inv :: "uheap \<Rightarrow> nat list \<Rightarrow> bool" where
  "uheap_inv s bs \<longleftrightarrow> tiles s bs (uh_va s) (uh_end s) \<and> distinct (uh_fl s) \<and>
     set (uh_fl s) = {b \<in> set bs. uh_free s b} \<and> (uh_va s = 0 \<longrightarrow> bs = [])"

text \<open>The blocks in use, with their sizes.\<close>

definition in_use :: "uheap \<Rightarrow> nat list \<Rightarrow> (nat \<times> nat) set" where
  "in_use s bs = (\<lambda>b. (b, uh_size s b)) ` {b \<in> set bs. \<not> uh_free s b}"

lemma in_use_cong:
  assumes "{b \<in> set bs'. \<not> uh_free s' b} = {b \<in> set bs. \<not> uh_free s b}"
    "\<And>b. b \<in> set bs \<Longrightarrow> \<not> uh_free s b \<Longrightarrow> uh_size s' b = uh_size s b"
  shows "in_use s' bs' = in_use s bs"
  unfolding in_use_def assms(1) by (rule image_cong) (use assms(2) in auto)

lemma in_use_insert:
  assumes "{b \<in> set bs'. \<not> uh_free s' b} = insert h {b \<in> set bs. \<not> uh_free s b}"
    "\<And>b. b \<in> set bs \<Longrightarrow> \<not> uh_free s b \<Longrightarrow> uh_size s' b = uh_size s b"
  shows "in_use s' bs' = insert (h, uh_size s' h) (in_use s bs)"
proof -
  have "(\<lambda>b. (b, uh_size s' b)) ` {b \<in> set bs. \<not> uh_free s b} = in_use s bs"
    unfolding in_use_def by (rule image_cong) (use assms(2) in auto)
  then show ?thesis unfolding in_use_def [of s' bs'] assms(1) by simp
qed

lemmas uh_simps = set_size_def set_free_def spud_set_footer_def spud_unlink_def spud_blk_next_def SPUD_HDRSZ_def SPUD_RBLK_def

text \<open>Taking a block from the list, whole or split.\<close>

lemma take_block:
  assumes i: "uheap_inv s bs" and f: "uh_fl s = pre @ h # post" and n: "need \<le> uh_size s h" "16 \<le> need"
    and a: "alloc_loop need pre (h # post) s = (p, s1)"
  shows "p = h + 24 \<and> h \<notin> fst ` in_use s bs \<and>
    (\<exists>bs' z. uheap_inv s1 bs' \<and> need \<le> z \<and> in_use s1 bs' = insert (h, z) (in_use s bs))"
proof -
  have h: "h \<in> set bs" "uh_free s h" using i f by (auto simp: uheap_inv_def)
  obtain xs ys where bs: "bs = xs @ h # ys" using split_list [OF h(1)] by blast
  have t: "tiles s (xs @ h # ys) (uh_va s) (uh_end s)" using i bs by (simp add: uheap_inv_def)
  note T = tiles_split [OF t]
  have nb: "x < h" if "x \<in> set xs" for x using tiles_bounds [OF T(1) that] by simp
  have na: "h + 32 + uh_size s h \<le> x" if "x \<in> set ys" for x using tiles_bounds [OF T(2) that] by simp
  have d: "distinct (xs @ h # ys)" by (rule tiles_distinct [OF t])
  have fl: "distinct (pre @ h # post)" "set (pre @ h # post) = {b \<in> set bs. uh_free s b}"
    using i f by (auto simp: uheap_inv_def)
  have nh: "h \<notin> fst ` in_use s bs" using h(2) by (auto simp: in_use_def)
  show ?thesis
  proof (cases "need + 48 \<le> uh_size s h")
    case True
    let ?nk = "h + 32 + need"
    have r: "p = h + 24" "uh_size s1 = (uh_size s)(?nk := uh_size s h - need - 32, h := need)"
      "uh_free s1 = (uh_free s)(?nk := True, h := False)"
      "uh_foot s1 = (uh_foot s)(h + 24 + need := need, h + 24 + uh_size s h := uh_size s h - need - 32)"
      "uh_fl s1 = pre @ ?nk # post" "uh_va s1 = uh_va s" "uh_end s1 = uh_end s"
      using a True n by (auto simp: uh_simps Let_def ac_simps)
    have fr: "uh_size s1 x = uh_size s x \<and> uh_foot s1 x = uh_foot s x"
      if "x < h \<or> h + 32 + uh_size s h \<le> x" for x
      using that True by (auto simp: r)
    have "tiles s1 (xs @ h # ?nk # ys) (uh_va s) (uh_end s)"
      using tiles_inside [OF t fr] True n T(4) by (auto simp: tiles_append r ac_simps)
    moreover have nk: "?nk \<notin> set bs"
    proof
      assume "?nk \<in> set bs"
      then show False using nb [of ?nk] na [of ?nk] True by (auto simp: bs)
    qed
    moreover have "distinct (pre @ ?nk # post)" using fl nk by auto
    moreover have "set (pre @ ?nk # post) = {b \<in> set (xs @ h # ?nk # ys). uh_free s1 b}"
    proof -
      have "set (pre @ post) = {b \<in> set bs. uh_free s b} - {h}" using fl by auto
      then show ?thesis using d nk by (auto simp: r bs)
    qed
    moreover have "uh_va s \<noteq> 0" using i bs by (auto simp: uheap_inv_def)
    ultimately have inv: "uheap_inv s1 (xs @ h # ?nk # ys)" using r by (simp add: uheap_inv_def)
    have u: "in_use s1 (xs @ h # ?nk # ys) = insert (h, need) (in_use s bs)"
    proof -
      have e: "{b \<in> set (xs @ h # ?nk # ys). \<not> uh_free s1 b} = insert h {b \<in> set bs. \<not> uh_free s b}"
        using d nk h(2) by (auto simp: r bs)
      have "uh_size s1 b = uh_size s b" if "b \<in> set bs" "\<not> uh_free s b" for b using that nk h(2) by (auto simp: r)
      then show ?thesis using in_use_insert [OF e] by (simp add: r)
    qed
    show ?thesis using inv u r(1) nh by blast
  next
    case False
    have r: "p = h + 24" "uh_size s1 = uh_size s" "uh_free s1 = (uh_free s)(h := False)"
      "uh_foot s1 = uh_foot s" "uh_fl s1 = pre @ post" "uh_va s1 = uh_va s" "uh_end s1 = uh_end s"
      using a False n by (auto simp: uh_simps Let_def)
    have "tiles s1 bs (uh_va s) (uh_end s)" using tiles_frame [of s bs _ _ "s1"] t r by (simp add: bs)
    moreover have "set (pre @ post) = {b \<in> set bs. uh_free s1 b}" using fl by (auto simp: r)
    ultimately have inv: "uheap_inv s1 bs" using r fl i by (auto simp: uheap_inv_def)
    have u: "in_use s1 bs = insert (h, uh_size s h) (in_use s bs)" 
    proof -
      have e: "{b \<in> set bs. \<not> uh_free s1 b} = insert h {b \<in> set bs. \<not> uh_free s b}" using h by (auto simp: r)
      show ?thesis using in_use_insert [OF e] by (simp add: r)
    qed
    show ?thesis using inv u r(1) nh n(1) by blast
  qed
qed

lemma alloc_loop_cases:
  "(\<forall>h\<in>set post. uh_size s h < need) \<and> alloc_loop need pre post s = (0, s) \<or>
   (\<exists>pre' h post'. pre @ post = pre' @ h # post' \<and> need \<le> uh_size s h \<and>
      alloc_loop need pre post s = alloc_loop need pre' (h # post') s)"
proof (induction post arbitrary: pre)
  case (Cons h post)
  show ?case
  proof (cases "need \<le> uh_size s h")
    case True
    then show ?thesis by blast
  next
    case False
    then have "alloc_loop need pre (h # post) s = alloc_loop need (pre @ [h]) post s" by simp
    then show ?thesis using Cons.IH [of "pre @ [h]"] False by auto
  qed
qed simp

text \<open>What an allocation leaves: the heap with one block more in use, or as it was.\<close>

definition allocated :: "nat \<Rightarrow> nat \<Rightarrow> (nat \<times> nat) set \<Rightarrow> uheap \<Rightarrow> bool" where
  "allocated need p used s1 \<longleftrightarrow>
    (if p = 0 then \<exists>bs. uheap_inv s1 bs \<and> in_use s1 bs = used
     else \<exists>bs z. uheap_inv s1 bs \<and> need \<le> z \<and> 24 \<le> p \<and> p - 24 \<notin> fst ` used \<and>
       in_use s1 bs = insert (p - 24, z) used)"

lemma alloc_locked:
  assumes i: "uheap_inv s bs" and n: "16 \<le> need" and a: "spud_alloc_locked need s = (p, s1)"
  shows "allocated need p (in_use s bs) s1 \<and> (p = 0 \<longrightarrow> s1 = s \<and> (\<forall>h\<in>set (uh_fl s). uh_size s h < need))"
proof -
  consider (no) "\<forall>h\<in>set (uh_fl s). uh_size s h < need" "alloc_loop need [] (uh_fl s) s = (0, s)"
    | (yes) pre h post where "uh_fl s = pre @ h # post" "need \<le> uh_size s h"
        "alloc_loop need [] (uh_fl s) s = alloc_loop need pre (h # post) s"
    using alloc_loop_cases [of "uh_fl s" s need "[]"] by auto
  then show ?thesis
  proof cases
    case no
    then show ?thesis using a i by (auto simp: spud_alloc_locked_def allocated_def)
  next
    case yes
    have "alloc_loop need pre (h # post) s = (p, s1)" using a yes(3) by (simp add: spud_alloc_locked_def)
    from take_block [OF i yes(1,2) n this] show ?thesis by (auto simp: allocated_def)
  qed
qed

text \<open>What the kernel promises: new pages above address 0, at the end of the heap once there is one.\<close>

definition extends :: "(nat \<Rightarrow> nat option) \<Rightarrow> uheap \<Rightarrow> bool" where
  "extends mmap s \<longleftrightarrow> (\<forall>pages va. mmap pages = Some va \<longrightarrow> 0 < va \<and> (uh_va s \<noteq> 0 \<longrightarrow> va = uh_end s))"

lemma grow_keeps:
  assumes i: "uheap_inv s bs" and e: "extends mmap s"
  shows "\<exists>bs'. uheap_inv (spud_grow mmap want s) bs' \<and> in_use (spud_grow mmap want s) bs' = in_use s bs"
proof -
  define pages where
    "pages = (if (want + 0xFFF) mod 2 ^ 64 div 0x1000 < 16 then 16 else (want + 0xFFF) mod 2 ^ 64 div 0x1000)"
  have p16: "16 \<le> pages" by (simp add: pages_def)
  show ?thesis
  proof (cases "mmap pages")
    case None
    then show ?thesis using i unfolding spud_grow_def Let_def pages_def [symmetric] by auto
  next
    case (Some va)
    have va: "0 < va" "uh_va s \<noteq> 0 \<Longrightarrow> va = uh_end s" using e Some by (auto simp: extends_def)
    let ?s = "spud_grow mmap want s" and ?z = "pages * 4096 - 32"
    have z: "?z + 32 = pages * 4096" "16 \<le> ?z" using p16 by simp_all
    have r: "uh_size ?s = (uh_size s)(va := ?z)" "uh_free ?s = (uh_free s)(va := True)"
      "uh_foot ?s = (uh_foot s)(va + 24 + ?z := ?z)" "uh_fl ?s = va # uh_fl s"
      "uh_va ?s = (if uh_va s = 0 then va else uh_va s)" "uh_end ?s = va + pages * 4096"
      unfolding spud_grow_def Let_def pages_def [symmetric] Some by (simp_all add: uh_simps ac_simps)
    have t: "tiles s bs (uh_va s) (uh_end s)" and b0: "uh_va s = 0 \<Longrightarrow> bs = []" using i by (auto simp: uheap_inv_def)
    have bnd: "b + 32 + uh_size s b \<le> va" if "b \<in> set bs" for b
      using tiles_bounds [OF t that] va(2) b0 that by fastforce
    have tl: "tiles ?s [va] va (uh_end ?s)" using z by (simp add: r)
    have "tiles ?s (bs @ [va]) (uh_va ?s) (uh_end ?s)"
    proof (cases "uh_va s = 0")
      case True
      then show ?thesis using tl b0 by (simp add: r(5))
    next
      case False
      have "tiles ?s bs (uh_va s) va"
        using tiles_frame [OF t, of ?s] va(2) [OF False] by (simp add: r)
      then show ?thesis using tl False unfolding tiles_append r(5) by auto
    qed
    moreover have nb: "va \<notin> set bs" using bnd [of va] by auto
    moreover have "va \<notin> set (uh_fl s)" using nb i by (auto simp: uheap_inv_def)
    ultimately have "uheap_inv ?s (bs @ [va])" using i va(1) by (auto simp: uheap_inv_def r)
    moreover have "in_use ?s (bs @ [va]) = in_use s bs" using nb by (auto simp: in_use_def r)
    ultimately show ?thesis by blast
  qed
qed

lemma round_up_ge: "n + 16 \<le> 2 ^ 64 \<Longrightarrow> n \<le> round_up n \<and> 16 \<le> round_up n"
proof -
  assume n: "n + 16 \<le> 2 ^ 64"
  define m where "m = (if n = 0 then 1 else n)"
  have "m + 15 < 2 ^ 64" "1 \<le> m" "n \<le> m" using n by (auto simp: m_def)
  then have "round_up n = (m + 15) div 16 * 16" by (simp add: round_up_def m_def Let_def)
  moreover have "m \<le> (m + 15) div 16 * 16" "16 \<le> (m + 15) div 16 * 16" using \<open>1 \<le> m\<close> by presburger+
  ultimately show ?thesis using \<open>n \<le> m\<close> by simp
qed

text \<open>C36. An allocation of at most 2^64 - 16 bytes gives a block not in use that is large enough, and changes no
  block in use; one that fails leaves every block in use.  The bound is needed: \<open>malloc_wraps\<close>.\<close>

theorem malloc_new_block:
  assumes "uheap_inv s bs" "extends mmap s" "n + 16 \<le> 2 ^ 64" "spud_malloc mmap n s = (p, s1)"
  shows "allocated n p (in_use s bs) s1"
proof -
  note R = round_up_ge [OF assms(3)]
  have weak: "allocated (round_up n) p u s1 \<Longrightarrow> allocated n p u s1" for u
    using R by (auto simp: allocated_def split: if_splits) (metis order_trans)
  obtain q t where q: "spud_alloc_locked (round_up n) s = (q, t)" by fastforce
  note A = alloc_locked [OF assms(1) conjunct2 [OF R] q]
  show ?thesis
  proof (cases "q = 0")
    case False
    then show ?thesis using assms(4) q A weak by (auto simp: spud_malloc_def Let_def)
  next
    case True
    let ?w = "if round_up n < SPUD_HEAP_CHUNK then SPUD_HEAP_CHUNK else round_up n"
    obtain bs2 where g: "uheap_inv (spud_grow mmap ?w s) bs2" "in_use (spud_grow mmap ?w s) bs2 = in_use s bs"
      using grow_keeps [OF assms(1,2)] by blast
    have "spud_alloc_locked (round_up n) (spud_grow mmap ?w s) = (p, s1)"
      using assms(4) q A True by (auto simp: spud_malloc_def Let_def)
    from alloc_locked [OF g(1) conjunct2 [OF R] this] show ?thesis using g(2) weak by simp
  qed
qed

section \<open>Releasing\<close>

text \<open>Two neighbours become one block, the later one leaves the list.\<close>

definition join :: "nat \<Rightarrow> nat \<Rightarrow> uheap \<Rightarrow> uheap" where
  "join b c s =
    (let s = spud_unlink c s in
     spud_set_footer b (set_size b (uh_size s b + SPUD_HDRSZ + SPUD_RBLK + uh_size s c) s))"

lemma join_fields [simp]:
  "uh_size (join b c s) = (uh_size s)(b := uh_size s b + 32 + uh_size s c)"
  "uh_free (join b c s) = uh_free s" "uh_fl (join b c s) = remove1 c (uh_fl s)"
  "uh_foot (join b c s) = (uh_foot s)(b + 24 + (uh_size s b + 32 + uh_size s c) := uh_size s b + 32 + uh_size s c)"
  "uh_va (join b c s) = uh_va s" "uh_end (join b c s) = uh_end s"
  by (simp_all add: join_def uh_simps Let_def ac_simps)

lemma join_inv:
  assumes i: "uheap_inv s (xs @ b # c # ys)" and f: "uh_free s b" "uh_free s c"
  shows "uheap_inv (join b c s) (xs @ b # ys)" "in_use (join b c s) (xs @ b # ys) = in_use s (xs @ b # c # ys)"
proof -
  let ?s = "join b c s" and ?z = "uh_size s b + 32 + uh_size s c"
  have t: "tiles s (xs @ b # c # ys) (uh_va s) (uh_end s)" using i by (simp add: uheap_inv_def)
  note T = tiles_split [OF t]
  have c: "c = b + 32 + uh_size s b" "tiles s ys (b + 32 + ?z) (uh_end s)" using T(2) by (simp_all add: ac_simps)
  have d: "distinct (xs @ b # c # ys)" by (rule tiles_distinct [OF t])
  have "tiles ?s xs (uh_va s) b" by (rule tiles_frame [OF T(1)]) simp
  moreover have "tiles ?s ys (b + 32 + ?z) (uh_end s)" by (rule tiles_frame [OF c(2)]) auto
  ultimately have "tiles ?s (xs @ b # ys) (uh_va s) (uh_end s)" using T(4) by (auto simp: tiles_append)
  moreover have "set (remove1 c (uh_fl s)) = {x \<in> set (xs @ b # ys). uh_free s x}"
    using i d by (auto simp: uheap_inv_def set_remove1_eq)
  ultimately show "uheap_inv ?s (xs @ b # ys)" using i by (auto simp: uheap_inv_def distinct_remove1)
  show "in_use ?s (xs @ b # ys) = in_use s (xs @ b # c # ys)"
    by (rule in_use_cong) (use f d in auto)
qed

lemma join_next_step: "spud_blk_next h s < uh_end s \<Longrightarrow> uh_free s (spud_blk_next h s) \<Longrightarrow>
    join_next h s = join_next h (join h (spud_blk_next h s) s)"
  by (subst join_next.simps) (simp add: join_def Let_def spud_unlink_def)

lemma join_next_stop: "uh_end s \<le> spud_blk_next h s \<or> \<not> uh_free s (spud_blk_next h s) \<Longrightarrow> join_next h s = s"
  by (subst join_next.simps) (auto simp: Let_def)

lemma blk_next_eq: "spud_blk_next h s = h + 32 + uh_size s h"
  by (simp add: uh_simps)

text \<open>A run of neighbours joined, with the block it grew from.\<close>

lemma join_next_inv:
  assumes "uheap_inv s (xs @ h # ys)" "uh_free s h"
  shows "\<exists>zs. uheap_inv (join_next h s) (xs @ h # zs) \<and> in_use (join_next h s) (xs @ h # zs) = in_use s (xs @ h # ys) \<and>
    uh_free (join_next h s) = uh_free s \<and> (zs = [] \<or> \<not> uh_free s (hd zs)) \<and> uh_size s h \<le> uh_size (join_next h s) h"
  using assms
proof (induction ys arbitrary: s)
  case Nil
  have t: "tiles s (xs @ [h]) (uh_va s) (uh_end s)" using Nil(1) by (simp add: uheap_inv_def)
  have "join_next h s = s" using tiles_split(2) [OF t] by (intro join_next_stop) (simp add: blk_next_eq)
  then show ?case using Nil by auto
next
  case (Cons c ys)
  have t: "tiles s (xs @ h # c # ys) (uh_va s) (uh_end s)" using Cons(2) by (simp add: uheap_inv_def)
  have c: "spud_blk_next h s = c" "c < uh_end s"
    using tiles_split(2) [OF t] tiles_le [of s ys "c + 32 + uh_size s c" "uh_end s"] by (auto simp: blk_next_eq)
  show ?case
  proof (cases "uh_free s c")
    case True
    have e: "join_next h s = join_next h (join h c s)" using join_next_step [of h s] c True by simp
    note J = join_inv [OF Cons(2) Cons(3) True]
    have "uh_free (join h c s) h" using Cons(3) by simp
    from Cons.IH [OF J(1) this] show ?thesis using J(2) e by auto
  next
    case False
    then have "join_next h s = s" using c by (intro join_next_stop) simp
    then show ?thesis using Cons(2) False by (intro exI [of _ "c # ys"]) simp
  qed
qed

lemma join_prev_inv:
  assumes "uheap_inv s (xs @ h # ys)" "uh_free s h"
  shows "\<exists>ws b. uheap_inv (join_prev h s) (ws @ b # ys) \<and> in_use (join_prev h s) (ws @ b # ys) = in_use s (xs @ h # ys) \<and>
    uh_free (join_prev h s) = uh_free s \<and> uh_free s b \<and> (ws = [] \<or> \<not> uh_free s (last ws)) \<and>
    b \<le> h \<and> b + uh_size (join_prev h s) b = h + uh_size s h"
  using assms
proof (induction xs arbitrary: h s rule: rev_induct)
  case Nil
  then have "h = uh_va s" by (simp add: uheap_inv_def)
  then have "join_prev h s = s" by (subst join_prev.simps) simp
  then show ?case using Nil by (intro exI [of _ "[]"] exI [of _ h]) simp
next
  case (snoc p xs)
  have i: "uheap_inv s (xs @ p # h # ys)" using snoc(2) by simp
  have t: "tiles s (xs @ p # h # ys) (uh_va s) (uh_end s)" using i by (simp add: uheap_inv_def)
  note T = tiles_split [OF t]
  have p: "h = p + 32 + uh_size s p" "uh_va s \<le> p" "uh_foot s (h - 8) = uh_size s p"
    using T tiles_le [OF T(1)] by (auto simp: ac_simps)
  have e: "join_prev h s = (if uh_free s p then join_prev p (join p h s) else s)"
    using p T(4) by (subst join_prev.simps) (auto simp: Let_def SPUD_HDRSZ_def SPUD_RBLK_def join_def spud_unlink_def)
  show ?case
  proof (cases "uh_free s p")
    case True
    note J = join_inv [OF i True snoc(3)]
    have f: "uh_free (join p h s) p" using True by simp
    from snoc.IH [OF J(1) f] obtain ws b where
      "uheap_inv (join_prev p (join p h s)) (ws @ b # ys)"
      "in_use (join_prev p (join p h s)) (ws @ b # ys) = in_use (join p h s) (xs @ p # ys)"
      "uh_free (join_prev p (join p h s)) = uh_free s" "uh_free s b" "ws = [] \<or> \<not> uh_free s (last ws)" "b \<le> p"
      "b + uh_size (join_prev p (join p h s)) b = p + (uh_size s p + 32 + uh_size s h)" by auto
    then show ?thesis using e True J(2) p(1) by (intro exI [of _ ws] exI [of _ b]) simp
  next
    case False
    then show ?thesis using e snoc(2,3) by (intro exI [of _ "xs @ [p]"] exI [of _ h]) simp
  qed
qed

text \<open>C37. A release takes exactly the block of the pointer out of use and leaves it inside one free block whose
  neighbours are both in use.\<close>

theorem free_joins:
  assumes i: "uheap_inv s bs" and u: "(h, z) \<in> in_use s bs"
  shows "\<exists>xs b ys. uheap_inv (spud_free (h + 24) s) (xs @ b # ys) \<and>
    in_use (spud_free (h + 24) s) (xs @ b # ys) = in_use s bs - {(h, z)} \<and>
    uh_free (spud_free (h + 24) s) b \<and> b \<le> h \<and> h + z \<le> b + uh_size (spud_free (h + 24) s) b \<and>
    (xs = [] \<or> \<not> uh_free (spud_free (h + 24) s) (last xs)) \<and> (ys = [] \<or> \<not> uh_free (spud_free (h + 24) s) (hd ys))"
proof -
  have h: "h \<in> set bs" "\<not> uh_free s h" "z = uh_size s h" using u by (auto simp: in_use_def)
  obtain xs ys where bs: "bs = xs @ h # ys" using split_list [OF h(1)] by blast
  let ?s = "(set_free h True s)\<lparr>uh_fl := h # uh_fl s\<rparr>"
  have r: "uh_size ?s = uh_size s" "uh_foot ?s = uh_foot s" "uh_va ?s = uh_va s" "uh_end ?s = uh_end s"
    "uh_free ?s = (uh_free s)(h := True)" "uh_fl ?s = h # uh_fl s" by (simp_all add: set_free_def)
  have t: "tiles s bs (uh_va s) (uh_end s)" using i by (simp add: uheap_inv_def)
  have "tiles ?s bs (uh_va s) (uh_end s)" by (rule tiles_frame [OF t]) (simp add: r)
  moreover have "h \<notin> set (uh_fl s)" using i h by (auto simp: uheap_inv_def)
  ultimately have i1: "uheap_inv ?s (xs @ h # ys)" using i h by (auto simp: uheap_inv_def r bs)
  have u1: "in_use ?s (xs @ h # ys) = in_use s bs - {(h, z)}"
    using tiles_distinct [OF t] h by (auto simp: in_use_def r bs)
  have f1: "uh_free ?s h" by (simp add: r)
  obtain zs where N: "uheap_inv (join_next h ?s) (xs @ h # zs)"
    "in_use (join_next h ?s) (xs @ h # zs) = in_use ?s (xs @ h # ys)"
    "uh_free (join_next h ?s) = uh_free ?s" "zs = [] \<or> \<not> uh_free ?s (hd zs)" "uh_size s h \<le> uh_size (join_next h ?s) h"
    using join_next_inv [OF i1 f1] by (auto simp: r)
  have f2: "uh_free (join_next h ?s) h" using N(3) f1 by simp
  have e: "spud_free (h + 24) s = join_prev h (join_next h ?s)"
    by (simp add: spud_free_def spud_coalesce_def SPUD_HDRSZ_def Let_def set_free_def)
  from join_prev_inv [OF N(1) f2] obtain ws b where
    P: "uheap_inv (join_prev h (join_next h ?s)) (ws @ b # zs)"
      "in_use (join_prev h (join_next h ?s)) (ws @ b # zs) = in_use (join_next h ?s) (xs @ h # zs)"
      "uh_free (join_prev h (join_next h ?s)) = uh_free ?s" "uh_free ?s b" "ws = [] \<or> \<not> uh_free ?s (last ws)"
      "b \<le> h" "b + uh_size (join_prev h (join_next h ?s)) b = h + uh_size (join_next h ?s) h"
    unfolding N(3) by blast
  show ?thesis
    unfolding e using P N(2,4,5) u1 h(3) by (intro exI [of _ ws] exI [of _ b] exI [of _ zs]) simp
qed

lemma in_use_apart:
  assumes "uheap_inv s bs" "(b, y) \<in> in_use s bs" "(c, z) \<in> in_use s bs" "b < c"
  shows "uh_va s \<le> b \<and> b + 32 + y \<le> c \<and> c + 32 + z \<le> uh_end s"
proof -
  have t: "tiles s bs (uh_va s) (uh_end s)" using assms(1) by (simp add: uheap_inv_def)
  have m: "b \<in> set bs" "y = uh_size s b" "c \<in> set bs" "z = uh_size s c" using assms(2,3) by (auto simp: in_use_def)
  obtain xs ys where bs: "bs = xs @ b # ys" using split_list [OF m(1)] by blast
  note T = tiles_split [OF t [unfolded bs]]
  have "c \<notin> set xs" using tiles_bounds [OF T(1), of c] assms(4) by auto
  then have "c \<in> set ys" using m(3) assms(4) bs by auto
  then show ?thesis using tiles_bounds [OF T(2)] tiles_bounds [OF t m(1)] m(2,4) by auto
qed

text \<open>The pages asked for a request of 65505 to 65536 bytes are too few by the header and the footer: unless
  the list holds a block that is large enough already, the call gives no memory, whatever the kernel
  grants.\<close>

theorem malloc_chunk_fails:
  assumes "\<forall>h\<in>set (uh_fl s). uh_size s h < 65505" "65505 \<le> n" "n \<le> 65536"
  shows "fst (spud_malloc mmap n s) = 0"
proof -
  have r: "round_up n = (n + 15) div 16 * 16" using assms(2,3) by (simp add: round_up_def Let_def)
  have b: "65520 \<le> round_up n" "round_up n \<le> 65536" 
  proof -
    have "65520 div 16 \<le> (n + 15) div 16" "(n + 15) div 16 \<le> 65551 div 16"
      by (rule div_le_mono, use assms(2,3) in simp)+
    then show "65520 \<le> round_up n" "round_up n \<le> 65536" unfolding r by simp_all
  qed
  have none: "spud_alloc_locked (round_up n) t = (0, t)" if "\<forall>h\<in>set (uh_fl t). uh_size t h < 65520" for t
    using alloc_loop_cases [of "uh_fl t" t "round_up n" "[]"] that b(1) by (fastforce simp: spud_alloc_locked_def)
  define w where "w = (if round_up n < SPUD_HEAP_CHUNK then SPUD_HEAP_CHUNK else round_up n)"
  have w: "w = 65536" using b(2) by (auto simp: w_def SPUD_HEAP_CHUNK_def)
  have pg: "(w + 0xFFF) mod 2 ^ 64 div 0x1000 = 16" unfolding w by simp
  have "\<forall>h\<in>set (uh_fl (spud_grow mmap w s)). uh_size (spud_grow mmap w s) h < 65520"
  proof (cases "mmap 16")
    case None
    then show ?thesis using assms(1) pg by (fastforce simp: spud_grow_def Let_def)
  next
    case (Some va)
    have g: "uh_fl (spud_grow mmap w s) = va # uh_fl s" "uh_size (spud_grow mmap w s) = (uh_size s)(va := 65504)"
      using Some pg by (simp_all add: spud_grow_def Let_def uh_simps)
    show ?thesis unfolding g using assms(1) by fastforce
  qed
  moreover have "\<forall>h\<in>set (uh_fl s). uh_size s h < 65520" using assms(1) by fastforce
  ultimately show ?thesis using none by (simp add: spud_malloc_def Let_def w_def [symmetric])
qed

text \<open>A request of the last 15 sizes of a word wraps to none: the pointer given has no byte behind it.\<close>

theorem malloc_wraps:
  assumes "2 ^ 64 - 15 \<le> n" "n < 2 ^ 64" "uh_fl s = h # hs" "48 \<le> uh_size s h"
  shows "fst (spud_malloc mmap n s) = h + 24 \<and> uh_size (snd (spud_malloc mmap n s)) h = 0"
proof -
  have "round_up n = 0"
  proof -
    have "n \<noteq> 0" using assms(1) by auto
    moreover have "(n + 15) mod 2 ^ 64 = n + 15 - 2 ^ 64" using assms(1,2) by (subst mod_if) (simp add: mod_if)
    ultimately show ?thesis using assms(2) by (simp add: round_up_def Let_def)
  qed
  then show ?thesis using assms(3,4) by (simp add: spud_malloc_def spud_alloc_locked_def Let_def uh_simps)
qed

section \<open>Examples\<close>

definition no_heap :: uheap where
  "no_heap = \<lparr>uh_size = (\<lambda>_. 0), uh_free = (\<lambda>_. False), uh_foot = (\<lambda>_. 0), uh_fl = [], uh_va = 0, uh_end = 0\<rparr>"

definition one_used :: uheap where
  "one_used = \<lparr>uh_size = (\<lambda>_. 0)(4096 := 16), uh_free = (\<lambda>_. False), uh_foot = (\<lambda>_. 0)(4136 := 16), uh_fl = [],
     uh_va = 4096, uh_end = 4144\<rparr>"

lemma no_heap_inv: "uheap_inv no_heap []"
  by (simp add: uheap_inv_def no_heap_def)

lemma malloc_new_block_witness:
  "allocated 200 (fst (spud_malloc (\<lambda>_. Some 0x400000) 200 no_heap)) {} (snd (spud_malloc (\<lambda>_. Some 0x400000) 200 no_heap))"
proof -
  have e: "extends (\<lambda>_. Some 0x400000) no_heap" by (simp add: extends_def no_heap_def)
  have u: "in_use no_heap [] = {}" by (simp add: in_use_def)
  have n: "(200 :: nat) + 16 \<le> 2 ^ 64" by simp
  show ?thesis by (rule malloc_new_block [OF no_heap_inv e n, unfolded u]) simp
qed

lemma free_joins_witness:
  "\<exists>bs. uheap_inv (spud_free 4120 one_used) bs \<and> in_use (spud_free 4120 one_used) bs = {}"
proof -
  have i: "uheap_inv one_used [4096]" by (simp add: uheap_inv_def one_used_def)
  have u: "in_use one_used [4096] = {(4096, 16)}" by (auto simp: in_use_def one_used_def)
  then have "(4096, 16) \<in> in_use one_used [4096]" by simp
  from free_joins [OF i this] u show ?thesis by auto
qed

lemma malloc_chunk_fails_witness: "fst (spud_malloc (\<lambda>_. Some 0x400000) 65536 no_heap) = 0"
  by (rule malloc_chunk_fails) (simp_all add: no_heap_def)

end
