(* ===== verification/Synd.thy ===== *)
theory Synd
  imports Spud Syscall
begin

text \<open>
  The contract service in ring 3, src/userspace/synd/synd.c: its copy of the contracts
  of the kernel, read from the text of SYS_CONTRACT_LIST, and the handler of its requests.

  The reply to IPC_TYPE_SYN_READ has one byte more than was written, so what the reply
  buffer holds from earlier replies is an argument of the handler.
\<close>

unbundle bit_operations_syntax

section \<open>The store\<close>

definition SYND_AUD_MAX :: nat where "SYND_AUD_MAX = 16"
definition SYND_AUD_PATH :: nat where "SYND_AUD_PATH = 44"
definition SYND_MAX :: nat where "SYND_MAX = 16"
definition SYND_PATH :: nat where "SYND_PATH = 44"

record synd_ct =
  sc_caminho :: string
  sc_nome :: string
  sc_leitura :: bool
  sc_escrita :: bool
  sc_execucao :: bool
  sc_voluntario :: bool
  sc_revogavel :: bool
  sc_ativo :: bool
  sc_consentido :: bool

record synd_aud =
  sa_op :: char
  sa_from :: u32
  sa_path :: string

text \<open>The entries in use of \<open>synd_ct\<close> and of the trail.\<close>

record synd =
  sn_ct :: "synd_ct list"
  sn_aud :: "synd_aud list"

definition synd_aud_push :: "char \<Rightarrow> u32 \<Rightarrow> string \<Rightarrow> synd \<Rightarrow> synd" where
  "synd_aud_push op from path st =
    (let e = \<lparr>sa_op = op, sa_from = from, sa_path = spud_ncpy path SYND_AUD_PATH\<rparr>; n = length (sn_aud st)
     in if n < SYND_AUD_MAX then st\<lparr>sn_aud := sn_aud st @ [e]\<rparr>
        else st\<lparr>sn_aud := (sn_aud st)[n mod SYND_AUD_MAX := e]\<rparr>)"

definition synd_find :: "string \<Rightarrow> synd \<Rightarrow> nat option" where
  "synd_find path st = first_index (\<lambda>c. spud_cmp (sc_caminho c) path = 0) (sn_ct st)"

definition synd_find_nome :: "string \<Rightarrow> synd \<Rightarrow> nat option" where
  "synd_find_nome nome st = first_index (\<lambda>c. spud_cmp (sc_nome c) nome = 0) (sn_ct st)"

definition synd_st_remove :: "int \<Rightarrow> synd \<Rightarrow> synd" where
  "synd_st_remove i st =
    (if 0 \<le> i \<and> i < int (length (sn_ct st))
     then st\<lparr>sn_ct := butlast ((sn_ct st)[nat i := last (sn_ct st)])\<rparr> else st)"

section \<open>The seed\<close>

definition next_line :: "string \<Rightarrow> string" where
  "next_line p = drop 1 (dropWhile (\<lambda>c. c \<noteq> CHR 0x0A) p)"

text \<open>The flags after \<open>(r=\<close>: reading, writing, execution.\<close>

definition seed_flag :: "char \<Rightarrow> string \<Rightarrow> bool \<times> string" where
  "seed_flag k d =
    (let d = (if at d 0 = CHR '' '' then tl d else d) in
     if at d 0 = k \<and> at d 1 = CHR ''='' then (at d 2 = CHR ''1'', drop 3 d) else (True, d))"

definition seed_flags :: "string \<Rightarrow> bool \<times> bool \<times> bool" where
  "seed_flags d =
    (let l = (at d 0 = CHR ''1''); d = drop 1 d in
     case seed_flag (CHR ''w'') d of (w, d) \<Rightarrow> case seed_flag (CHR ''x'') d of (x, _) \<Rightarrow> (l, w, x))"

text \<open>One line, from its name on: none when it is not of the form of a contract.\<close>

definition seed_contract :: "string \<Rightarrow> synd_ct option" where
  "seed_contract p =
    (case spud_strstr p '' em '' of
       None \<Rightarrow> None
     | Some e \<Rightarrow>
        let q = drop (e + 4) p in
        (case spud_strstr q '' (r='' of
           None \<Rightarrow> None
         | Some r \<Rightarrow>
            let caminho = take (min r (SYND_PATH - 1)) q in
            if caminho = [] then None
            else case seed_flags (drop (r + 4) q) of
              (l, w, x) \<Rightarrow> Some \<lparr>sc_caminho = caminho, sc_nome = take (min e 63) p, sc_leitura = l,
                 sc_escrita = w, sc_execucao = x, sc_voluntario = True, sc_revogavel = True, sc_ativo = True,
                 sc_consentido = False\<rparr>))"

function seed_loop :: "string \<Rightarrow> synd_ct list \<Rightarrow> synd_ct list" where
  "seed_loop p cs =
    (if p = [] \<or> SYND_MAX \<le> length cs then cs
     else let q = dropWhile (\<lambda>c. c = CHR '' '' \<or> c = CHR 0x09) p in
       if q = [] \<or> hd q \<noteq> CHR ''-'' then seed_loop (next_line q) cs
       else let r = dropWhile (\<lambda>c. c = CHR '' '') (tl q) in
         seed_loop (next_line r) (case seed_contract r of None \<Rightarrow> cs | Some c \<Rightarrow> cs @ [c]))"
  by pat_completeness auto
termination
proof (relation "measure (\<lambda>(p, cs). length p)")
  fix p q :: string and cs :: "synd_ct list"
  assume p: "\<not> (p = [] \<or> SYND_MAX \<le> length cs)" and q: "q = dropWhile (\<lambda>c. c = CHR '' '' \<or> c = CHR 0x09) p"
  have lq: "length q \<le> length p" unfolding q by (rule length_dropWhile_le)
  have n: "length (next_line s) \<le> length s - 1" for s
    using length_dropWhile_le [of "\<lambda>c. c \<noteq> CHR 0x0A" s] by (simp add: next_line_def)
  have pos: "0 < length p" using p by simp
  have "length (next_line q) < length p" using n [of q] lq pos by linarith
  then show "((next_line q, cs), p, cs) \<in> measure (\<lambda>(p, cs). length p)" by simp
  fix r assume "\<not> (q = [] \<or> hd q \<noteq> CHR ''-'')" and r: "r = dropWhile (\<lambda>c. c = CHR '' '') (tl q)"
  have "length r \<le> length (tl q)" unfolding r by (rule length_dropWhile_le)
  then have "length (next_line r) < length p" using n [of r] lq pos length_tl [of q] by linarith
  then show "((next_line r, case seed_contract r of None \<Rightarrow> cs | Some c \<Rightarrow> cs @ [c]), p, cs)
      \<in> measure (\<lambda>(p, cs). length p)" by simp
qed simp

declare seed_loop.simps [simp del]

text \<open>The text of the call, with its terminator, in a buffer of 4096 bytes.\<close>

definition synd_st_seed :: "string \<Rightarrow> synd" where
  "synd_st_seed text = \<lparr>sn_ct = seed_loop (take 4095 (cstr text)) [], sn_aud = []\<rparr>"

section \<open>The handler\<close>

definition mark :: "bool \<Rightarrow> char \<Rightarrow> char" where "mark b c = (if b then c else CHR ''-'')"

definition list_line :: "nat \<Rightarrow> synd_ct \<Rightarrow> string" where
  "list_line n c =
    ''  '' @ take (RESP_MAX - 1 - (n + 2)) (cstr (sc_nome c)) @
    [CHR '' '', mark (sc_leitura c) (CHR ''r''), mark (sc_escrita c) (CHR ''w''), CHR '' '',
     mark (sc_voluntario c) (CHR ''v''), mark (sc_ativo c) (CHR ''a''), CHR '' '',
     if sc_consentido c then CHR ''1'' else CHR ''0'', CHR 0x0A]"

fun synd_lines :: "string \<Rightarrow> synd_ct list \<Rightarrow> string \<Rightarrow> string" where
  "synd_lines flt [] out = out"
| "synd_lines flt (c # cs) out =
    (if RESP_MAX \<le> length out + 1 then out
     else synd_lines flt cs
       (if flt = [] \<or> spud_strstr (sc_nome c) flt \<noteq> None \<or> spud_strstr (sc_caminho c) flt \<noteq> None
        then out @ list_line (length out) c else out))"

definition read_line :: "synd_ct \<Rightarrow> string" where
  "read_line c =
    ''  '' @ take (RESP_MAX - 3) (cstr (sc_nome c)) @
    [CHR '' '', mark (sc_leitura c) (CHR ''r''), mark (sc_escrita c) (CHR ''w''), CHR '' '',
     mark (sc_execucao c) (CHR ''x''), mark (sc_voluntario c) (CHR ''v''), mark (sc_revogavel c) (CHR ''g''), CHR '' '',
     mark (sc_ativo c) (CHR ''a''), if sc_consentido c then CHR ''1'' else CHR ''0'']"

definition aud_line :: "synd_aud \<Rightarrow> string" where
  "aud_line a = [if sa_op a \<noteq> NUL then sa_op a else CHR '' '', CHR '' ''] @ cstr (sa_path a) @ [CHR 0x0A]"

fun aud_lines :: "synd_aud list \<Rightarrow> string \<Rightarrow> string" where
  "aud_lines [] out = out"
| "aud_lines (a # as) out =
    (if length out + 2 + SYND_AUD_PATH < RESP_MAX then aud_lines as (out @ aud_line a) else out)"

definition set_consent :: "char \<Rightarrow> bool \<Rightarrow> u32 \<Rightarrow> string \<Rightarrow> synd \<Rightarrow> string \<times> synd" where
  "set_consent op b from req st =
    (case synd_find req st of
       None \<Rightarrow> (''0'', st)
     | Some i \<Rightarrow>
        let st = synd_aud_push op from req st
        in (''1'', st\<lparr>sn_ct := (sn_ct st)[i := (sn_ct st ! i)\<lparr>sc_consentido := b\<rparr>]\<rparr>))"

definition synd_handler :: "(nat \<Rightarrow> char) \<Rightarrow> synd handler" where
  "synd_handler stale from type req st =
    (if type = IPC_TYPE_PING then (Some ''pong'', st)
     else if type = IPC_TYPE_SYN_LIST then
       (let flt = spud_ncpy req 48
        in (Some (synd_lines flt (sn_ct st) []), synd_aud_push (CHR ''l'') from flt st))
     else if type = IPC_TYPE_SYN_READ then
       (case synd_find req st of
          None \<Rightarrow> (Some ''0'', st)
        | Some i \<Rightarrow>
           let l = read_line (sn_ct st ! i)
           in (Some (l @ [stale (length l)]), synd_aud_push (CHR ''r'') from req st))
     else if type = IPC_TYPE_SYN_CONSENT then
       (case set_consent (CHR ''c'') True from req st of (r, st) \<Rightarrow> (Some r, st))
     else if type = IPC_TYPE_SYN_REVOKE then
       (case set_consent (CHR ''r'') False from req st of (r, st) \<Rightarrow> (Some r, st))
     else if type = IPC_TYPE_SYN_AUDIT then (Some (aud_lines (rev (sn_aud st)) []), st)
     else (Some ''?'', st))"

section \<open>The text of the kernel read back\<close>

lemma starts_append: "length n \<le> length s \<Longrightarrow> starts (s @ r) n = starts s n"
proof (induction n arbitrary: s)
  case (Cons m n)
  then show ?case by (cases s) auto
qed simp

lemma strstr_loop_ge: "strstr_loop s n i = Some j \<Longrightarrow> i \<le> j"
  by (induction s n i rule: strstr_loop.induct) (auto split: if_splits)

lemma strstr_loop_append:
  "strstr_loop (a @ n) n i = Some (i + length a) \<Longrightarrow> strstr_loop (a @ n @ r) n i = Some (i + length a)"
proof (induction a arbitrary: i)
  case Nil
  then show ?case
  proof (cases n)
    case (Cons c s)
    then show ?thesis using Nil starts_append [of n n r] by (auto split: if_splits dest: strstr_loop_ge)
  qed simp
next
  case (Cons c a)
  have s: "starts (c # a @ n @ r) n = starts (c # a @ n) n" using starts_append [of n "c # a @ n" r] by simp
  show ?case using Cons.IH [of "Suc i"] Cons.prems by (auto simp: s split: if_splits)
qed

lemma strstr_append:
  assumes "cstr n \<noteq> []" "spud_strstr (a @ n) n = Some (length a)"
  shows "spud_strstr (a @ n @ r) n = Some (length a)"
  using assms strstr_loop_append [of a n 0 r] by (simp add: spud_strstr_def)

text \<open>A contract the text of the kernel describes without ambiguity.\<close>

definition plain :: "contract \<Rightarrow> bool" where
  "plain c \<longleftrightarrow> ct_ativo c \<and> at (ct_nome c) 0 \<noteq> NUL \<and> hd (contract_name c) \<noteq> CHR '' '' \<and> 
     CHR 0x0A \<notin> set (contract_name c) \<and> length (contract_name c) < 64 \<and>
     spud_strstr (contract_name c @ '' em '') '' em '' = Some (length (contract_name c)) \<and>
     cstr (ct_caminho c) \<noteq> [] \<and> CHR 0x0A \<notin> set (cstr (ct_caminho c)) \<and> length (cstr (ct_caminho c)) < 44 \<and>
     spud_strstr (cstr (ct_caminho c) @ '' (r='') '' (r='' = Some (length (cstr (ct_caminho c)))"

definition synd_of :: "contract \<Rightarrow> synd_ct" where
  "synd_of c = \<lparr>sc_caminho = cstr (ct_caminho c), sc_nome = contract_name c, sc_leitura = ct_leitura c,
     sc_escrita = ct_escrita c, sc_execucao = ct_execucao c, sc_voluntario = True, sc_revogavel = True,
     sc_ativo = True, sc_consentido = False\<rparr>"

definition bit_char :: "bool \<Rightarrow> char" where "bit_char b = (if b then CHR ''1'' else CHR ''0'')"

definition after_name :: "contract \<Rightarrow> string" where
  "after_name c = '' em '' @ cstr (ct_caminho c) @ '' (r='' @ bit_char (ct_leitura c) # '' w='' @
     bit_char (ct_escrita c) # '' x='' @ bit_char (ct_execucao c) # '')'' @ [CHR 0x0A]"

lemma conv_bit: "conv_dec n False 0 True (if b then 1 else 0) out = Some (put_chars n out [bit_char b])"
proof -
  have c: "char_of (49 :: nat) = CHR ''1''" "char_of (48 :: nat) = CHR ''0''"
    using char_of_char [of "CHR ''1''", where ?'a = nat] char_of_char [of "CHR ''0''", where ?'a = nat] by simp_all
  show ?thesis by (simp add: conv_dec_def put_num_def dec_rev.simps bit_char_def Let_def c)
qed

lemma contract_line:
  assumes "plain c"
  shows "sformat 328 (''  - %s em %s (r=%d w=%d x=%d)'' @ [LF])
      [AStr (Some (contract_name c)), AStr (Some (ct_caminho c)), bit_arg (ct_leitura c),
       bit_arg (ct_escrita c), bit_arg (ct_execucao c)] = ''  - '' @ contract_name c @ after_name c"
proof -
  let ?n = "contract_name c" and ?p = "cstr (ct_caminho c)"
  have l: "length ?n < 64" "length ?p < 44" and n: "cstr ?n = ?n"
    using assms by (simp_all add: plain_def contract_name_def)
  have f: "cstr (''  - %s em %s (r=%d w=%d x=%d)'' @ [LF]) = ''  - %s em %s (r=%d w=%d x=%d)'' @ [LF]" by simp
  show ?thesis
    unfolding sformat_def snprintf_def f
    using l n by (simp add: directive_def emit_def bit_arg_def conv_bit put_chars_fits after_name_def
      cstr_idem del: of_char_eq_iff)
qed

lemma next_line_append: "CHR 0x0A \<notin> set a \<Longrightarrow> next_line (a @ CHR 0x0A # r) = r"
proof -
  assume "CHR 0x0A \<notin> set a"
  then have "\<forall>x\<in>set a. x \<noteq> CHR 0x0A" by auto
  then show ?thesis by (simp add: next_line_def dropWhile_append2)
qed

lemma bit_char [simp]: "bit_char b = CHR ''1'' \<longleftrightarrow> b" "bit_char b \<noteq> CHR 0x0A" "bit_char b \<noteq> NUL"
  by (simp_all add: bit_char_def)

lemmas bit_char_sym [simp] = bit_char(2,3) [THEN not_sym]

lemma flags_back:
  "seed_flags (bit_char l # '' w='' @ bit_char w # '' x='' @ bit_char x # r) = (l, w, x)"
  by (simp add: seed_flags_def seed_flag_def at_def numeral_2_eq_2 numeral_3_eq_3 Let_def)

lemma seed_line:
  assumes "plain c"
  shows "seed_contract (contract_name c @ after_name c @ rest) = Some (synd_of c)"
proof -
  let ?n = "contract_name c" and ?p = "cstr (ct_caminho c)"
  let ?t = "bit_char (ct_leitura c) # '' w='' @ bit_char (ct_escrita c) # '' x='' @ bit_char (ct_execucao c) # '')'' @
    [CHR 0x0A] @ rest"
  let ?q = "?p @ '' (r='' @ ?t"
  have P: "spud_strstr (?n @ '' em '') '' em '' = Some (length ?n)" "spud_strstr (?p @ '' (r='') '' (r='' = Some (length ?p)"
    "length ?n < 64" "length ?p < 44" "?p \<noteq> []" using assms by (simp_all add: plain_def)
  have e: "?n @ after_name c @ rest = ?n @ '' em '' @ ?q" by (simp add: after_name_def)
  have 1: "spud_strstr (?n @ '' em '' @ ?q) '' em '' = Some (length ?n)" by (rule strstr_append [OF _ P(1)]) simp
  have 2: "spud_strstr ?q '' (r='' = Some (length ?p)" by (rule strstr_append [OF _ P(2)]) simp
  have d: "drop (length ?n + 4) (?n @ '' em '' @ ?q) = ?q" "drop (length ?p + 4) ?q = ?t" by simp_all
  have f: "seed_flags ?t = (ct_leitura c, ct_escrita c, ct_execucao c)"
    using flags_back [of "ct_leitura c" "ct_escrita c" "ct_execucao c" "'')'' @ [CHR 0x0A] @ rest"] by simp
  have t: "take (min (length ?p) 43) ?q = ?p" "take (min (length ?n) 63) (?n @ '' em '' @ ?q) = ?n" using P(3,4) by simp_all
  show ?thesis
    unfolding e seed_contract_def 1 option.case Let_def d 2 f SYND_PATH_def
    using t P(5) by (simp add: synd_of_def min_def split: if_splits)
qed

definition line_of :: "contract \<Rightarrow> string" where
  "line_of c = ''  - '' @ contract_name c @ after_name c"

lemma plain_name: "plain c \<Longrightarrow> contract_name c \<noteq> []"
  by (cases "ct_nome c") (auto simp: plain_def contract_name_def at_def)

lemma seed_loop_line:
  assumes "plain c" "length cs < SYND_MAX"
  shows "seed_loop (line_of c @ rest) cs = seed_loop rest (cs @ [synd_of c])"
proof -
  let ?n = "contract_name c"
  obtain h t where n: "?n = h # t" using plain_name [OF assms(1)] by (cases ?n) auto
  have h: "h \<noteq> CHR '' ''" using assms(1) n by (simp add: plain_def)
  have q: "dropWhile (\<lambda>c. c = CHR '' '' \<or> c = CHR 0x09) (line_of c @ rest) = ''- '' @ ?n @ after_name c @ rest"
    by (simp add: line_of_def)
  have r: "dropWhile (\<lambda>c. c = CHR '' '') (CHR '' '' # ?n @ after_name c @ rest) = ?n @ after_name c @ rest"
    using n h by simp
  have "CHR 0x0A \<notin> set ?n" "CHR 0x0A \<notin> set (cstr (ct_caminho c))" using assms(1) by (simp_all add: plain_def)
  then have x: "next_line (?n @ after_name c @ rest) = rest"
  proof -
    let ?b = "?n @ '' em '' @ cstr (ct_caminho c) @ '' (r='' @ bit_char (ct_leitura c) # '' w='' @
      bit_char (ct_escrita c) # '' x='' @ bit_char (ct_execucao c) # '')''"
    assume "CHR 0x0A \<notin> set ?n" "CHR 0x0A \<notin> set (cstr (ct_caminho c))"
    then have b: "CHR 0x0A \<notin> set ?b" by simp
    have "?n @ after_name c @ rest = ?b @ CHR 0x0A # rest" by (simp add: after_name_def)
    then show ?thesis using next_line_append [OF b] by simp
  qed
  have "line_of c \<noteq> []" by (simp add: line_of_def)
  then show ?thesis
    using assms(2) by (subst seed_loop.simps) (simp add: q r x seed_line [OF assms(1)] Let_def del: dropWhile.simps dropWhile_eq_Nil_conv)
qed

lemma seed_loop_lines:
  assumes "\<forall>c\<in>set cs. plain c" "length acc \<le> SYND_MAX"
  shows "seed_loop (concat (map line_of cs)) acc = acc @ map synd_of (take (SYND_MAX - length acc) cs)"
  using assms
proof (induction cs arbitrary: acc)
  case Nil
  then show ?case by (subst seed_loop.simps) simp
next
  case (Cons c cs)
  show ?case
  proof (cases "length acc < SYND_MAX")
    case True
    have "seed_loop (concat (map line_of (c # cs))) acc = seed_loop (concat (map line_of cs)) (acc @ [synd_of c])"
      using seed_loop_line [OF _ True, of c] Cons.prems(1) by simp
    also have "\<dots> = (acc @ [synd_of c]) @ map synd_of (take (SYND_MAX - length (acc @ [synd_of c])) cs)"
      using Cons.IH [of "acc @ [synd_of c]"] Cons.prems(1) True by simp
    also have "SYND_MAX - length acc = Suc (SYND_MAX - length (acc @ [synd_of c]))" using True by simp
    then have "(acc @ [synd_of c]) @ map synd_of (take (SYND_MAX - length (acc @ [synd_of c])) cs) =
        acc @ map synd_of (take (SYND_MAX - length acc) (c # cs))" by simp
    finally show ?thesis .
  next
    case False
    then show ?thesis using Cons.prems(2) by (subst seed_loop.simps) simp
  qed
qed

lemma line_len: "plain c \<Longrightarrow> length (line_of c) < 130"
  by (auto simp: plain_def line_of_def after_name_def)

lemma contract_text_lines:
  assumes "\<forall>c\<in>set cs. plain c" "length out + 130 * length cs < 4095"
  shows "contract_text 4095 cs out = out @ concat (map line_of cs)"
  using assms
proof (induction cs arbitrary: out)
  case (Cons c cs)
  have p: "plain c" using Cons.prems(1) by simp
  have a: "at (ct_nome c) 0 \<noteq> NUL" "ct_ativo c" using p by (simp_all add: plain_def)
  have l: "length (line_of c) < 130" by (rule line_len [OF p])
  have "contract_text 4095 (c # cs) out = contract_text 4095 cs (out @ line_of c)"
    using a l Cons.prems(2) by (simp add: contract_line [OF p, simplified] line_of_def Let_def)
  then show ?case using Cons.IH [of "out @ line_of c"] Cons.prems l by simp
qed simp

lemma NUL_line: "plain c \<Longrightarrow> NUL \<notin> set (line_of c)"
  using bit_char(3) by (auto simp: line_of_def after_name_def contract_name_def)

text \<open>C38. The service reads back from the text of the kernel's call exactly the contracts of the kernel:
  name, folder and permissions of each, for up to 31 active contracts that are \<open>plain\<close>: the name and the
  folder are not empty, have no newline and not the separator that ends them in the line, the name does not start
  with a space and has under 64 characters, the folder under 44. It keeps the first 16, and none of
  their consents.  The lemma \<open>name_misread\<close> shows a name outside these bounds read wrongly.\<close>

theorem synd_seed_roundtrip:
  assumes "\<forall>c\<in>set cs. plain c" "length cs \<le> 31"
  shows "sn_ct (synd_st_seed (contract_text 4095 cs [] @ [NUL])) = map synd_of (take 16 cs)"
proof -
  let ?t = "concat (map line_of cs)"
  have t: "contract_text 4095 cs [] = ?t" using contract_text_lines [OF assms(1), of "[]"] assms(2) by simp
  have n: "NUL \<notin> set ?t" using NUL_line assms(1) by auto
  have "length ?t \<le> 130 * length cs"
    using assms(1) by (induction cs) (auto dest!: line_len)
  then have l: "length ?t \<le> 4095" using assms(2) by simp
  have "cstr (?t @ [NUL]) = ?t" using cstr_append [OF n, of "[NUL]"] by simp
  then show ?thesis using seed_loop_lines [OF assms(1), of "[]"] l by (simp add: synd_st_seed_def t SYND_MAX_def)
qed

section \<open>What the handler keeps\<close>

definition ct_ok :: "synd_ct \<Rightarrow> bool" where
  "ct_ok c \<longleftrightarrow> length (sc_nome c) < 64 \<and> length (sc_caminho c) < SYND_PATH"

definition synd_ok :: "synd \<Rightarrow> bool" where
  "synd_ok st \<longleftrightarrow> length (sn_ct st) \<le> SYND_MAX \<and> length (sn_aud st) \<le> SYND_AUD_MAX \<and>
     (\<forall>c\<in>set (sn_ct st). ct_ok c) \<and> (\<forall>a\<in>set (sn_aud st). length (sa_path a) < SYND_AUD_PATH)"

lemma all_replaced: "\<forall>x\<in>set xs. P x \<Longrightarrow> P y \<Longrightarrow> \<forall>x\<in>set (xs[i := y]). P x"
  using set_update_subset_insert by fastforce

lemma synd_ok_push: 
  assumes "synd_ok st"
  shows "synd_ok (synd_aud_push op g path st)"
proof -
  let ?e = "\<lparr>sa_op = op, sa_from = g, sa_path = spud_ncpy path SYND_AUD_PATH\<rparr>"
  have e: "length (sa_path ?e) < SYND_AUD_PATH" by (simp add: spud_ncpy_def SYND_AUD_PATH_def)
  have a: "\<forall>a\<in>set (sn_aud st). length (sa_path a) < SYND_AUD_PATH" using assms by (simp add: synd_ok_def)
  show ?thesis using assms e all_replaced [OF a e] by (simp add: synd_ok_def synd_aud_push_def Let_def)
qed

lemma push_ct [simp]: "sn_ct (synd_aud_push op g p st) = sn_ct st"
  by (simp add: synd_aud_push_def Let_def)

lemma found_ok: "synd_ok st \<Longrightarrow> synd_find p st = Some i \<Longrightarrow> ct_ok (sn_ct st ! i)"
  unfolding synd_find_def by (meson first_index_SomeD(3) synd_ok_def)

lemma synd_ok_consent:
  assumes "synd_ok st" "set_consent op b g req st = (r, st1)"
  shows "synd_ok st1 \<and> length r < RESP_MAX"
proof (cases "synd_find req st")
  case (Some i)
  have c: "ct_ok ((sn_ct st ! i)\<lparr>sc_consentido := b\<rparr>)" using found_ok [OF assms(1) Some] by (simp add: ct_ok_def)
  have a: "\<forall>c\<in>set (sn_ct st). ct_ok c" using assms(1) by (simp add: synd_ok_def)
  show ?thesis
    using synd_ok_push [OF assms(1), of op g req] assms(2) Some all_replaced [OF a c, of i]
    by (auto simp: set_consent_def Let_def synd_ok_def RESP_MAX_def)
qed (use assms in \<open>auto simp: set_consent_def RESP_MAX_def\<close>)

lemma list_line_len: "ct_ok c \<Longrightarrow> length (list_line n c) \<le> 74"
  using length_cstr_le [of "sc_nome c"] by (simp add: list_line_def ct_ok_def) linarith

lemma synd_lines_len: "\<forall>c\<in>set cs. ct_ok c \<Longrightarrow> length (synd_lines flt cs out) \<le> length out + 74 * length cs"
proof (induction flt cs out rule: synd_lines.induct)
  case (2 flt c cs out)
  then show ?case using list_line_len [of c "length out"] by auto
qed simp

lemma aud_lines_len: "length out < RESP_MAX \<Longrightarrow> \<forall>a\<in>set as. length (sa_path a) < SYND_AUD_PATH \<Longrightarrow>
    length (aud_lines as out) < RESP_MAX"
proof (induction as out rule: aud_lines.induct)
  case (2 a as out)
  then show ?case using length_cstr_le [of "sa_path a"] by (auto simp: aud_line_def)
qed simp

text \<open>Whatever a client sends, the tables of the contract service stay within their bounds and the
  reply fits the buffer.\<close>

theorem synd_invariant:
  assumes "synd_ok st" "synd_handler stale g type req st = (r, st1)"
  shows "synd_ok st1 \<and> (\<exists>d. r = Some d \<and> length d < RESP_MAX)"
proof -
  have "length (synd_lines flt (sn_ct st) []) \<le> 74 * length (sn_ct st)" for flt
    using assms(1) synd_lines_len [of "sn_ct st" flt "[]"] by (simp add: synd_ok_def)
  moreover have "length (sn_ct st) \<le> 16" using assms(1) by (simp add: synd_ok_def SYND_MAX_def)
  ultimately have l: "length (synd_lines flt (sn_ct st) []) < RESP_MAX" for flt
    using order_trans [of "length (synd_lines flt (sn_ct st) [])"] by (fastforce simp: RESP_MAX_def)
  have rd: "length (read_line (sn_ct st ! i)) < RESP_MAX - 1" if "synd_find req st = Some i" for i
    using found_ok [OF assms(1) that] length_cstr_le [of "sc_nome (sn_ct st ! i)"]
    by (simp add: read_line_def ct_ok_def RESP_MAX_def)
  have au: "length (aud_lines (rev (sn_aud st)) []) < RESP_MAX"
    by (rule aud_lines_len) (use assms(1) in \<open>simp_all add: synd_ok_def RESP_MAX_def\<close>)
  have sh: "length ''pong'' < RESP_MAX" "length ''?'' < RESP_MAX" "length ''0'' < RESP_MAX" by (simp_all add: RESP_MAX_def)
  show ?thesis
    using assms(2) l rd au sh synd_ok_push [OF assms(1)] synd_ok_consent [OF assms(1)] assms(1)
    unfolding synd_handler_def Let_def by (fastforce split: if_splits prod.splits option.splits)
qed

lemmas syn_types = IPC_TYPE_PING_def IPC_TYPE_SYN_LIST_def IPC_TYPE_SYN_READ_def IPC_TYPE_SYN_CONSENT_def
  IPC_TYPE_SYN_REVOKE_def IPC_TYPE_SYN_AUDIT_def

text \<open>Whoever asks, a consent to a folder under a contract succeeds and shows in every later description
  of it, until anybody revokes it; the descriptions of the other folders do not change. Every
  description ends with a byte the buffer held before.\<close>

theorem synd_consent_shown:
  assumes "synd_find p st = Some i" "b \<longleftrightarrow> type = IPC_TYPE_SYN_CONSENT" "type \<in> {IPC_TYPE_SYN_CONSENT, IPC_TYPE_SYN_REVOKE}"
  shows "\<exists>st1 l. synd_handler stale g type p st = (Some ''1'', st1) \<and>
    fst (synd_handler buf h IPC_TYPE_SYN_READ p st1) =
      Some (l @ [if b then CHR ''1'' else CHR ''0'', buf (length l + 1)]) \<and>
    (\<forall>q. cstr q \<noteq> cstr p \<longrightarrow>
      fst (synd_handler buf h IPC_TYPE_SYN_READ q st1) = fst (synd_handler buf h IPC_TYPE_SYN_READ q st))"
proof -
  define op where "op = (if b then CHR ''c'' else CHR ''r'')"
  let ?y = "(sn_ct st ! i)\<lparr>sc_consentido := b\<rparr>"
  define st1 where "st1 = (synd_aud_push op g p st)\<lparr>sn_ct := (sn_ct st)[i := ?y]\<rparr>"
  have c: "synd_handler stale g type p st = (Some ''1'', st1)"
    using assms(2,3) by (auto simp: synd_handler_def syn_types set_consent_def assms(1) st1_def op_def Let_def)
  note F = assms(1) [unfolded synd_find_def]
  have i: "i < length (sn_ct st)" "cstr (sc_caminho (sn_ct st ! i)) = cstr p"
    using first_index_SomeD(1,2) [OF F] by (simp_all add: spud_cmp_iff)
  have f: "synd_find p st1 = Some i"
    using first_index_update_same [OF F, of ?y] i(2) by (simp add: synd_find_def st1_def spud_cmp_iff)
  define l where "l = ''  '' @ take (RESP_MAX - 3) (cstr (sc_nome (sn_ct st ! i))) @
    [CHR '' '', mark (sc_leitura (sn_ct st ! i)) (CHR ''r''), mark (sc_escrita (sn_ct st ! i)) (CHR ''w''), CHR '' '',
     mark (sc_execucao (sn_ct st ! i)) (CHR ''x''), mark (sc_voluntario (sn_ct st ! i)) (CHR ''v''),
     mark (sc_revogavel (sn_ct st ! i)) (CHR ''g''), CHR '' '', mark (sc_ativo (sn_ct st ! i)) (CHR ''a'')]"
  have r: "read_line (sn_ct st1 ! i) = l @ [if b then CHR ''1'' else CHR ''0'']"
    using i(1) by (simp add: read_line_def st1_def l_def)
  have "fst (synd_handler buf h IPC_TYPE_SYN_READ p st1) = Some (l @ [if b then CHR ''1'' else CHR ''0'', buf (length l + 1)])"
    using f r by (simp add: synd_handler_def syn_types Let_def)
  moreover have "fst (synd_handler buf h IPC_TYPE_SYN_READ q st1) = fst (synd_handler buf h IPC_TYPE_SYN_READ q st)"
    if q: "cstr q \<noteq> cstr p" for q
  proof -
    let ?P = "\<lambda>c. spud_cmp (sc_caminho c) q = 0"
    have np: "\<not> ?P (sn_ct st ! i)" "\<not> ?P ?y" using i(2) q by (simp_all add: spud_cmp_iff)
    have e: "synd_find q st1 = synd_find q st"
      using first_index_update_other [OF i(1), of ?P ?y] np by (simp add: synd_find_def st1_def)
    have "sn_ct st1 ! j = sn_ct st ! j" if "synd_find q st = Some j" for j
    proof -
      have "?P (sn_ct st ! j)" using that by (simp add: synd_find_def first_index_Some_iff)
      then show ?thesis using np(1) by (cases "j = i") (auto simp: st1_def)
    qed
    then show ?thesis using e by (auto simp: synd_handler_def syn_types Let_def split: option.split)
  qed
  ultimately show ?thesis using c by blast
qed

section \<open>Witnesses\<close>

definition open_pact :: contract where
  "open_pact = \<lparr>ct_nome = ''livre'' @ [NUL], ct_caminho = ''/idios'' @ [NUL], ct_leitura = True, ct_escrita = True,
     ct_execucao = False, ct_voluntario = True, ct_revogavel = True, ct_ativo = True, ct_caps_req = 0\<rparr>"

lemma open_pact_plain: "plain open_pact"
  by (simp add: plain_def open_pact_def contract_name_def at_def spud_strstr_def)

lemma synd_seed_roundtrip_witness:
  "sn_ct (synd_st_seed (contract_text 4095 [open_pact] [] @ [NUL])) = [synd_of open_pact]"
proof -
  have h: "\<forall>c\<in>set [open_pact]. plain c" "length [open_pact] \<le> 31" using open_pact_plain by simp_all
  from synd_seed_roundtrip [OF h] show ?thesis by simp
qed

text \<open>The separator inside a name: the contract \<open>escrita em casa\<close> on \<open>/idios\<close> is read as one
  called \<open>escrita\<close> on the folder \<open>casa em /idios\<close>, so the service does not know the folder.\<close>

definition home_pact :: contract where
  "home_pact = open_pact\<lparr>ct_nome := ''escrita em casa'' @ [NUL]\<rparr>"

lemma name_misread:
  "map (\<lambda>c. (sc_nome c, sc_caminho c)) (sn_ct (synd_st_seed (contract_text 4095 [home_pact] [] @ [NUL])))
    = [(''escrita'', ''casa em /idios'')]"
  by code_simp

definition open_synd :: synd where
  "open_synd = \<lparr>sn_ct = [synd_of open_pact], sn_aud = []\<rparr>"

lemma synd_invariant_witness: "synd_ok (snd (synd_handler (\<lambda>_. NUL) 3 IPC_TYPE_SYN_REVOKE ''/idios'' open_synd))"
proof -
  have "synd_ok open_synd"
    by (simp add: synd_ok_def open_synd_def synd_of_def open_pact_def ct_ok_def contract_name_def SYND_MAX_def SYND_PATH_def)
  moreover obtain r st where "synd_handler (\<lambda>_. NUL) 3 IPC_TYPE_SYN_REVOKE ''/idios'' open_synd = (r, st)" by fastforce
  ultimately show ?thesis using synd_invariant by fastforce
qed

lemma synd_consent_shown_witness:
  "\<exists>st1 l. synd_handler (\<lambda>_. NUL) 3 IPC_TYPE_SYN_CONSENT ''/idios'' open_synd = (Some ''1'', st1) \<and>
    fst (synd_handler (\<lambda>_. CHR ''Z'') 4 IPC_TYPE_SYN_READ ''/idios'' st1) = Some (l @ ''1Z'')"
proof -
  have f: "synd_find ''/idios'' open_synd = Some 0"
    by (simp add: synd_find_def open_synd_def synd_of_def open_pact_def spud_cmp_iff)
  have "True \<longleftrightarrow> IPC_TYPE_SYN_CONSENT = IPC_TYPE_SYN_CONSENT" by simp
  from synd_consent_shown [OF f this, of "\<lambda>_. NUL" 3 "\<lambda>_. CHR ''Z''" 4] show ?thesis by auto
qed

end
