(* ===== verification/Odigos.thy ===== *)
theory Odigos
  imports Spud Keyboard
begin

text \<open>
  The keyboard driver in ring 3, src/userspace/odigos_pliktrologiou/odigos_pliktrologiou.c:
  scan codes to characters, the service \<open>kbd\<close>, and the set-up of the controller.

  As in \<open>Keyboard\<close>, what the controller gives is a list with one entry per poll: none when
  no byte is there, else the byte read.
\<close>

unbundle bit_operations_syntax

section \<open>Scan codes\<close>

definition od_sc1 :: string where
  "od_sc1 = [NUL, NUL] @ ''1234567890-='' @ [CHR 0x08, NUL] @ ''qwertyuiop[]'' @ [CHR 0x0D, NUL] @
     ''asdfghjkl;'' @ [CHR 0x27, CHR 0x60, NUL] @ [CHR 0x5C] @ ''zxcvbnm,./'' @
     [NUL, CHR ''*'', NUL, CHR '' '', NUL] @ replicate 69 NUL"

definition od_sc1_shift :: string where
  "od_sc1_shift = [NUL, NUL] @ ''!@#$%^&*()_+'' @ [CHR 0x08, NUL] @ ''QWERTYUIOP{}'' @ [CHR 0x0D, NUL] @
     ''ASDFGHJKL:'' @ [CHR 0x22, CHR ''~'', NUL] @ ''|ZXCVBNM<>?'' @
     [NUL, CHR ''*'', NUL, CHR '' '', NUL] @ replicate 69 NUL"

record odigos =
  od_shift :: bool
  od_capslock :: bool
  od_ctrl :: bool
  od_dead :: char
  od_queued :: char
  od_hit :: bool
  od_pending :: char

definition od_is_dead :: "char \<Rightarrow> bool" where
  "od_is_dead c \<longleftrightarrow> c = CHR 0x27 \<or> c = CHR 0x22 \<or> c = CHR 0x60 \<or> c = CHR ''~'' \<or> c = CHR ''^''"

definition od_letter :: "char \<Rightarrow> bool" where
  "od_letter c \<longleftrightarrow> (97 \<le> ord8 c \<and> ord8 c \<le> 122) \<or> (65 \<le> ord8 c \<and> ord8 c \<le> 90)"

definition od_swap :: "char \<Rightarrow> char" where
  "od_swap c = (if 97 \<le> ord8 c \<and> ord8 c \<le> 122 then char_of (of_char c - 97 + 65 :: nat)
     else char_of (of_char c - 65 + 97 :: nat))"

definition od_char :: "u8 \<Rightarrow> odigos \<Rightarrow> char" where
  "od_char scan st =
    (if scan = 0x56 \<or> scan = 0x73 then (if od_shift st then CHR ''?'' else CHR ''/'')
     else let c = (if od_shift st then od_sc1_shift else od_sc1) ! unat (scan AND 0x7F) in
       if c \<noteq> NUL \<and> od_capslock st \<and> od_letter c then od_swap c else c)"

definition hit :: "char \<Rightarrow> odigos \<Rightarrow> char \<times> odigos" where
  "hit c st = (c, st\<lparr>od_hit := True, od_pending := c\<rparr>)"

text \<open>The body of the loop for a byte that is not 0xE0: the character returned, or NUL to go on.\<close>

definition od_step :: "u8 \<Rightarrow> odigos \<Rightarrow> char \<times> odigos" where
  "od_step scan st =
    (if scan AND 0x80 \<noteq> 0 then
       (let up = scan AND 0x7F;
            st = (if up = 0x2A \<or> up = 0x36 then st\<lparr>od_shift := False\<rparr> else st)
        in (NUL, if up = 0x1D then st\<lparr>od_ctrl := False\<rparr> else st))
     else if scan = 0x2A \<or> scan = 0x36 then (NUL, st\<lparr>od_shift := True\<rparr>)
     else if scan = 0x1D then (NUL, st\<lparr>od_ctrl := True\<rparr>)
     else if scan = 0x3A then (NUL, st\<lparr>od_capslock := \<not> od_capslock st\<rparr>)
     else let c = od_char scan st in
       if c = NUL then (NUL, st)
       else if od_is_dead c \<and> od_dead st = NUL then (NUL, st\<lparr>od_dead := c\<rparr>)
       else if od_dead st \<noteq> NUL then
         (let d = od_dead st; st = st\<lparr>od_dead := NUL\<rparr> in
            if c = CHR '' '' then hit d st else hit d (st\<lparr>od_queued := c\<rparr>))
       else if od_queued st \<noteq> NUL then hit (od_queued st) (st\<lparr>od_queued := NUL\<rparr>)
       else hit c st)"

fun drain_loop :: "nat \<Rightarrow> odigos \<Rightarrow> u8 option list \<Rightarrow> char \<times> odigos \<times> u8 option list" where
  "drain_loop 0 st ps = (NUL, st, ps)"
| "drain_loop (Suc n) st ps =
    (case kbd_poll ps of
       (None, ps) \<Rightarrow> (NUL, st, ps)
     | (Some scan, ps) \<Rightarrow>
        if scan = 0xE0 then drain_loop n st (e0_wait 8 ps)
        else case od_step scan st of
          (c, st) \<Rightarrow> if c \<noteq> NUL then (c, st, ps) else drain_loop n st ps)"

definition kbd_drain_to_char :: "odigos \<Rightarrow> u8 option list \<Rightarrow> char \<times> odigos \<times> u8 option list" where
  "kbd_drain_to_char st ps = drain_loop 64 (st\<lparr>od_hit := False\<rparr>) ps"

section \<open>The service\<close>

definition IPC_TYPE_KBD_GET :: u32 where "IPC_TYPE_KBD_GET = 10"

definition kbd_handler :: "(odigos \<times> u8 option list) handler" where
  "kbd_handler from type req s =
    (if type = IPC_TYPE_KBD_GET then
       (case s of (st, ps) \<Rightarrow> case kbd_drain_to_char st ps of
          (_, st, ps) \<Rightarrow> (Some [if od_hit st then od_pending st else NUL], (st, ps)))
     else (Some ''?'', s))"

section \<open>The controller\<close>

text \<open>Whether a byte answers at the status port, from four readings of it.\<close>

definition kbd_identify :: "u8 \<Rightarrow> u8 list \<Rightarrow> nat" where
  "kbd_identify ctl vs =
    (if 0 < length (filter (\<lambda>v. v \<noteq> 0xFF \<and> v \<noteq> ctl AND 0xE0) (take 3 vs)) then 0 else 1)"

text \<open>The report copies the text over the end of its prefix.\<close>

definition kbd_report :: "string \<Rightarrow> string" where
  "kbd_report via = take 18 ''[odigos] teclado conectado: '' @ take 72 (cstr via) @ [CHR 0x0A]"

fun read_all :: "nat \<Rightarrow> u8 option list \<Rightarrow> u8 option list" where
  "read_all 0 ps = ps"
| "read_all (Suc n) ps = (case kbd_poll ps of (Some _, ps) \<Rightarrow> read_all n ps | (None, ps) \<Rightarrow> ps)"

fun drain_some :: "nat \<Rightarrow> u8 option list \<Rightarrow> u8 option list" where
  "drain_some 0 ps = ps"
| "drain_some (Suc n) ps = drain_some n (snd (kbd_poll ps))"

text \<open>The bytes sent, with their ports, and the polls left.\<close>

definition kbd_reset_8042 :: "u8 option list \<Rightarrow> (u16 \<times> u8) list \<times> u8 option list" where
  "kbd_reset_8042 ps =
    ([(0x64, 0xAA), (0x64, 0xAE), (0x64, 0x60), (0x60, 0x47), (0x60, 0xF4), (0x60, 0xF0), (0x60, 0x02)],
     drain_some 64 (e0_wait 200 (read_all 16 ps)))"

section \<open>The driver of the kernel and this one\<close>

lemma od_tables: "od_sc1 = sc1" "od_sc1_shift = sc1_shift"
  by (simp_all add: od_sc1_def od_sc1_shift_def sc1_def sc1_shift_def)

text \<open>The state of the kernel's driver that corresponds.\<close>

definition as_kbd :: "kbd \<Rightarrow> odigos \<Rightarrow> kbd" where
  "as_kbd k st = k\<lparr>kb_shift := od_shift st, kb_caps := od_capslock st, kb_ctrl := od_ctrl st,
     kb_dead := od_dead st, kb_queued := od_queued st\<rparr>"

lemma low_code: "scan AND 0x80 = 0 \<Longrightarrow> scan AND 0x7F = (scan :: u8)"
proof -
  assume z: "scan AND 0x80 = 0"
  have e: "(0x7F OR 0x80 :: u8) = - 1" by simp
  have "scan AND 0x7F = scan AND (0x7F OR 0x80)" unfolding bit.conj_disj_distrib z by simp
  then show ?thesis unfolding e by simp
qed

lemma od_swap_case: "od_swap c = swap_case c"
  by (simp add: od_swap_def swap_case_def lower_def)

lemma od_char_same: "scan AND 0x80 = 0 \<Longrightarrow> od_char scan st = scan_char scan (as_kbd k st)"
  unfolding od_char_def scan_char_def low_code od_tables as_kbd_def od_letter_def od_swap_case
  by (auto simp: lower_def upper_def Let_def)

lemma od_dead_same: "od_is_dead = is_dead"
  by (rule ext) (simp add: od_is_dead_def is_dead_def)

text \<open>C39. For every byte but 0xE0 and in every state without a queued key, the driver in ring 3 takes the same
  step as the driver of the kernel: the same character, shift, caps, control, dead and queued key.\<close>

theorem drivers_agree:
  assumes "scan \<noteq> 0xE0" "od_queued st = NUL"
  shows "ps2_process scan (as_kbd k st) ps = (fst (od_step scan st), as_kbd k (snd (od_step scan st)), ps)"
proof (cases "scan AND 0x80 = 0")
  case True
  show ?thesis
    using assms True
    by (simp add: ps2_process_def od_step_def od_char_same [OF True, symmetric] od_dead_same hit_def Let_def
      del: od_char_same) (simp add: as_kbd_def)
next
  case False
  then show ?thesis using assms(1) by (simp add: ps2_process_def od_step_def Let_def) (simp add: as_kbd_def)
qed

text \<open>A key that gives a character in the state of the shift and caps keys.\<close>

definition key_gives :: "u8 \<Rightarrow> odigos \<Rightarrow> char \<Rightarrow> bool" where
  "key_gives s st c \<longleftrightarrow> s AND 0x80 = 0 \<and> s \<notin> {0x2A, 0x36, 0x1D, 0x3A} \<and> od_char s st = c \<and> c \<noteq> NUL"

lemma od_char_same_keys:
  "od_shift st' = od_shift st \<Longrightarrow> od_capslock st' = od_capslock st \<Longrightarrow> od_char s st' = od_char s st"
  by (simp add: od_char_def)

lemma key_not_e0: "key_gives s st c \<Longrightarrow> s \<noteq> 0xE0"
  by (auto simp: key_gives_def)

lemma drain_more [simp]: "drain_loop (numeral w) st ps =
    (case kbd_poll ps of
       (None, ps) \<Rightarrow> (NUL, st, ps)
     | (Some scan, ps) \<Rightarrow>
        if scan = 0xE0 then drain_loop (pred_numeral w) st (e0_wait 8 ps)
        else case od_step scan st of
          (c, st) \<Rightarrow> if c \<noteq> NUL then (c, st, ps) else drain_loop (pred_numeral w) st ps)"
  by (simp add: numeral_eq_Suc)

lemma step_plain:
  assumes "key_gives s st c"
  shows "od_step s st = (if od_is_dead c \<and> od_dead st = NUL then (NUL, st\<lparr>od_dead := c\<rparr>)
       else if od_dead st \<noteq> NUL then
         (if c = CHR '' '' then hit (od_dead st) (st\<lparr>od_dead := NUL\<rparr>)
          else hit (od_dead st) (st\<lparr>od_dead := NUL, od_queued := c\<rparr>))
       else if od_queued st \<noteq> NUL then hit (od_queued st) (st\<lparr>od_queued := NUL\<rparr>)
       else hit c st)"
  using assms by (auto simp: key_gives_def od_step_def Let_def)

text \<open>After a dead key and the key it precedes, the driver answers the dead key and queues the other; the
  next key pressed makes it answer the queued one and is itself lost: no later request returns it.\<close>

theorem composed_key_lost:
  assumes "key_gives s1 st d" "od_is_dead d" "key_gives s2 st a" "a \<noteq> CHR '' ''" "key_gives s3 st b" "\<not> od_is_dead b"
    "od_dead st = NUL" "od_queued st = NUL"
  shows "\<exists>st1 st2 st3. kbd_handler g IPC_TYPE_KBD_GET r (st, [Some s1, Some s2]) = (Some [d], (st1, [])) \<and>
    kbd_handler g IPC_TYPE_KBD_GET r (st1, [Some s3]) = (Some [a], (st2, [])) \<and>
    kbd_handler g IPC_TYPE_KBD_GET r (st2, []) = (Some [NUL], (st3, [])) \<and> od_queued st3 = NUL \<and> od_dead st3 = NUL"
proof -
  have k: "key_gives s t c" if "key_gives s st c" "od_shift t = od_shift st" "od_capslock t = od_capslock st" for s t c
    using that od_char_same_keys [of t st s] by (simp add: key_gives_def)
  define t0 where "t0 = st\<lparr>od_hit := False\<rparr>"
  define t1 where "t1 = t0\<lparr>od_dead := d\<rparr>"
  define t2 where "t2 = t0\<lparr>od_dead := NUL, od_queued := a, od_hit := True, od_pending := d\<rparr>"
  define t3 where "t3 = t2\<lparr>od_hit := False\<rparr>"
  define t4 where "t4 = t3\<lparr>od_queued := NUL, od_hit := True, od_pending := a\<rparr>"
  have nz: "d \<noteq> NUL" "a \<noteq> NUL" using assms(1,3) by (simp_all add: key_gives_def)
  have 1: "od_step s1 t0 = (NUL, t1)"
    using step_plain [OF k [OF assms(1), of t0]] assms(2,7) by (simp add: t0_def t1_def)
  have 2: "od_step s2 t1 = (d, t2)"
    using step_plain [OF k [OF assms(3), of t1]] nz assms(4) by (simp add: t0_def t1_def t2_def hit_def)
  have 3: "od_step s3 t3 = (a, t4)"
    using step_plain [OF k [OF assms(5), of t3]] nz assms(6) by (simp add: t0_def t2_def t3_def t4_def hit_def)
  note ne = key_not_e0 [OF assms(1)] key_not_e0 [OF assms(3)] key_not_e0 [OF assms(5)]
  have "kbd_drain_to_char st [Some s1, Some s2] = (d, t2, [])"
    unfolding kbd_drain_to_char_def t0_def [symmetric] using ne 1 2 nz by simp
  moreover have "kbd_drain_to_char t2 [Some s3] = (a, t4, [])"
    unfolding kbd_drain_to_char_def t3_def [symmetric] using ne 3 nz by simp
  moreover have "kbd_drain_to_char t4 [] = (NUL, t4\<lparr>od_hit := False\<rparr>, [])"
    unfolding kbd_drain_to_char_def by simp
  ultimately show ?thesis
    by (simp add: kbd_handler_def) (simp add: t4_def t3_def t2_def)
qed

definition resting :: odigos where
  "resting = \<lparr>od_shift = False, od_capslock = False, od_ctrl = False, od_dead = NUL, od_queued = NUL,
     od_hit = False, od_pending = NUL\<rparr>"

lemma drivers_agree_witness:
  "fst (ps2_process 0x1E (as_kbd idle_kbd resting) []) = CHR ''a''"
proof -
  have c: "od_step 0x1E resting = hit (CHR ''a'') resting"
    by (simp add: od_step_def od_char_def resting_def od_sc1_def od_is_dead_def Let_def)
  have h: "(0x1E :: u8) \<noteq> 0xE0" "od_queued resting = NUL" by (simp_all add: resting_def)
  from drivers_agree [OF h, of idle_kbd "[]"] show ?thesis by (simp add: c hit_def)
qed

text \<open>The keys of quote, a and b.\<close>

lemma composed_key_lost_witness:
  "\<exists>st1 st2 st3. kbd_handler 1 IPC_TYPE_KBD_GET [] (resting, [Some 0x28, Some 0x1E]) = (Some [CHR 0x27], (st1, [])) \<and>
    kbd_handler 1 IPC_TYPE_KBD_GET [] (st1, [Some 0x30]) = (Some ''a'', (st2, [])) \<and>
    kbd_handler 1 IPC_TYPE_KBD_GET [] (st2, []) = (Some [NUL], (st3, []))"
proof -
  have k: "key_gives 0x28 resting (CHR 0x27)" "key_gives 0x1E resting (CHR ''a'')" "key_gives 0x30 resting (CHR ''b'')"
    by (simp_all add: key_gives_def od_char_def resting_def od_sc1_def Let_def)
  have d: "od_is_dead (CHR 0x27)" "CHR ''a'' \<noteq> CHR '' ''" "\<not> od_is_dead (CHR ''b'')" "od_dead resting = NUL" "od_queued resting = NUL"
    by (simp_all add: od_is_dead_def resting_def)
  from composed_key_lost [OF k(1) d(1) k(2) d(2) k(3) d(3-5)] show ?thesis by blast
qed

end
