(* ===== verification/Devd.thy ===== *)
theory Devd
  imports Spud Kernel
begin

text \<open>
  The system service in ring 3, src/userspace/devd/devd.c: uptime and memory figures as
  text.  What SYS_UPTIME and SYS_SYSINFO return is the argument.
\<close>

unbundle bit_operations_syntax

definition spud_print_dec_in :: "nat \<Rightarrow> nat \<Rightarrow> string" where
  "spud_print_dec_in v mx = take (mx - 1) (spud_print_dec v)"

definition devd_uptime :: "int \<Rightarrow> string" where
  "devd_uptime ms = (let tmp = spud_ncpy ''uptime='' 40
     in take 7 tmp @ spud_print_dec_in (nat (if 0 < ms then ms else 0)) 33)"

text \<open>The figures, or none when the call fails.\<close>

definition devd_sysinfo :: "system_info option \<Rightarrow> string" where
  "devd_sysinfo si =
    (case si of
       None \<Rightarrow> spud_ncpy ''sysinfo: erro'' 256
     | Some s \<Rightarrow>
        let tmp = take 4 (spud_ncpy ''mem='' 256) @ spud_print_dec_in (unat (si_total s)) 252;
            tmp = spud_ncat tmp '' proc='' 256
        in tmp @ spud_print_dec_in (unat (si_procs s)) (256 - spud_len tmp))"

definition devd_handler :: "int \<Rightarrow> system_info option \<Rightarrow> unit handler" where
  "devd_handler ms si from type req u =
    (if type = IPC_TYPE_PING then (Some ''pong'', u)
     else if type = IPC_TYPE_UPTIME then (Some (spud_ncpy (devd_uptime ms) RESP_MAX), u)
     else if type = IPC_TYPE_SYSINFO then (Some (spud_ncpy (devd_sysinfo si) RESP_MAX), u)
     else (Some ''?'', u))"

section \<open>The figures come back\<close>

lemma dec_rev_digits: "c \<in> set (dec_rev 1 v) \<Longrightarrow> 48 \<le> ord8 c \<and> ord8 c \<le> 57"
proof (induction v rule: less_induct)
  case (less v)
  have n: "nat (48 + int (v mod 10)) = 48 + v mod 10" by (simp add: nat_add_distrib)
  have d: "ord8 (char_of (nat (48 + int (v mod 10)))) = 48 + v mod 10"
    unfolding n by (rule of_char_char_of_small) simp
  show ?case
  proof (cases "v div 10 = 0")
    case True
    then show ?thesis using less.prems d by (subst (asm) dec_rev.simps) simp
  next
    case False
    then have l: "v div 10 < v" by (cases v) auto
    have e: "dec_rev 1 v = char_of (nat (48 + 1 * int (v mod 10))) # dec_rev 1 (v div 10)"
      using False by (subst dec_rev.simps) simp
    show ?thesis
    proof (cases "c \<in> set (dec_rev 1 (v div 10))")
      case True
      then show ?thesis using less.IH [OF l] by blast
    next
      case False
      then show ?thesis using less.prems d unfolding e by simp
    qed
  qed
qed

lemma print_dec_digits: "c \<in> set (spud_print_dec v) \<Longrightarrow> 48 \<le> ord8 c \<and> ord8 c \<le> 57"
  by (auto simp: spud_print_dec_def dest: dec_rev_digits split: if_splits)

lemma print_dec_value: "read_num 10 dec_val (rev (spud_print_dec v)) = v"
  by (simp add: spud_print_dec_def read_dec_rev dec_val_def)

lemma print_dec_length: "v < 10 ^ Suc k \<Longrightarrow> length (spud_print_dec v) \<le> Suc k"
  by (simp add: spud_print_dec_def length_dec_rev)

lemma print_dec_word: "length (spud_print_dec (unat (w :: u64))) \<le> 20"
proof -
  have "unat w < 10 ^ 20" using unsigned_less [of w, where ?'a = nat] by simp
  then show ?thesis using print_dec_length [of "unat w" 19] by simp
qed

lemma cstr_digits: "cstr (spud_print_dec v) = spud_print_dec v"
proof (rule cstr_id, rule notI)
  assume "NUL \<in> set (spud_print_dec v)"
  from print_dec_digits [OF this] show False by simp
qed

text \<open>The replies carry the figures of the kernel without loss: between the labels stand the decimal
  digits of memory and process count, which read back as the numbers.\<close>

theorem devd_reports:
  "\<exists>m p. devd_handler ms (Some s) g IPC_TYPE_SYSINFO req () = (Some (''mem='' @ m @ '' proc='' @ p), ()) \<and>
    read_num 10 dec_val (rev m) = unat (si_total s) \<and> read_num 10 dec_val (rev p) = unat (si_procs s) \<and>
    (\<forall>c\<in>set (m @ p). 48 \<le> ord8 c \<and> ord8 c \<le> 57)"
proof -
  let ?m = "spud_print_dec (unat (si_total s))" and ?p = "spud_print_dec (unat (si_procs s))"
  have lm: "length ?m \<le> 20" by (rule print_dec_word)
  have "unat (si_procs s) < 10 ^ 10" using unsigned_less [of "si_procs s", where ?'a = nat] by simp
  then have lp: "length ?p \<le> 10" using print_dec_length [of "unat (si_procs s)" 9] by simp
  have a: "spud_ncpy ''mem='' 256 = ''mem=''" by (simp add: spud_ncpy_def)
  have m: "spud_print_dec_in (unat (si_total s)) 252 = ?m" using lm by (simp add: spud_print_dec_in_def)
  have c: "cstr (''mem='' @ ?m) = ''mem='' @ ?m" by (simp add: cstr_digits)
  have n: "spud_ncat (''mem='' @ ?m) '' proc='' 256 = ''mem='' @ ?m @ '' proc=''"
    using lm by (simp add: spud_ncat_def c cstr_digits)
  have l: "spud_len (''mem='' @ ?m @ '' proc='') \<le> 30"
    using lm length_cstr_le [of "''mem='' @ ?m @ '' proc=''"] by (simp add: spud_len_cstr)
  then have p: "spud_print_dec_in (unat (si_procs s)) (256 - spud_len (''mem='' @ ?m @ '' proc='')) = ?p"
    using lp by (simp add: spud_print_dec_in_def del: spud_len.simps)
  have d: "devd_sysinfo (Some s) = ''mem='' @ ?m @ '' proc='' @ ?p"
    using a m n p by (simp add: devd_sysinfo_def Let_def del: spud_len.simps)
  have "cstr (devd_sysinfo (Some s)) = devd_sysinfo (Some s)"
  proof (rule cstr_id, rule notI)
    assume "NUL \<in> set (devd_sysinfo (Some s))"
    then have "NUL \<in> set ?m \<or> NUL \<in> set ?p" by (auto simp: d)
    then show False by (metis NUL_notin_cstr cstr_digits)
  qed
  then have "spud_ncpy (devd_sysinfo (Some s)) RESP_MAX = ''mem='' @ ?m @ '' proc='' @ ?p"
    using lm lp by (simp add: spud_ncpy_def d RESP_MAX_def)
  then have "devd_handler ms (Some s) g IPC_TYPE_SYSINFO req () = (Some (''mem='' @ ?m @ '' proc='' @ ?p), ())"
    by (simp add: devd_handler_def IPC_TYPE_PING_def IPC_TYPE_UPTIME_def IPC_TYPE_SYSINFO_def)
  then show ?thesis using print_dec_value print_dec_digits by (metis Un_iff set_append)
qed

end
