(* ===== verification/Praxia.thy ===== *)
theory Praxia
  imports Spud Syscall
begin

text \<open>
  The shell in ring 3, src/userspace/praxia/praxia.c: its commands, the manifests of
  the programs, and the loop over command lines.

  The calls of \<open>spud.h\<close> it makes are a record of functions on the state of the rest of
  the system.  The keys still to be typed are a string; a command that waits for more
  has the value \<open>PWait\<close>.  What a command prints is part of its result.
\<close>

unbundle bit_operations_syntax

section \<open>The calls\<close>

text \<open>Texts are none when the call fails, and cut to the buffer whose size is given; \<open>w_exec\<close> starts a program and waits for it, its
  value is the pid or not positive.\<close>

record 'w world =
  w_list :: "string \<Rightarrow> nat \<Rightarrow> 'w \<Rightarrow> string option \<times> 'w"
  w_read :: "string \<Rightarrow> nat \<Rightarrow> 'w \<Rightarrow> string option \<times> 'w"
  w_write :: "string \<Rightarrow> string \<Rightarrow> 'w \<Rightarrow> bool \<times> 'w"
  w_create_file :: "string \<Rightarrow> 'w \<Rightarrow> bool \<times> 'w"
  w_create_dir :: "string \<Rightarrow> 'w \<Rightarrow> bool \<times> 'w"
  w_remove :: "string \<Rightarrow> 'w \<Rightarrow> bool \<times> 'w"
  w_users :: "'w \<Rightarrow> string option \<times> 'w"
  w_delete :: "string \<Rightarrow> 'w \<Rightarrow> int \<times> 'w"
  w_changepw :: "string \<Rightarrow> string \<Rightarrow> string \<Rightarrow> 'w \<Rightarrow> int \<times> 'w"
  w_create_user :: "string \<Rightarrow> string \<Rightarrow> 'w \<Rightarrow> int \<times> 'w"
  w_exec :: "string \<Rightarrow> string list \<Rightarrow> 'w \<Rightarrow> int \<times> 'w"
  w_procs :: "'w \<Rightarrow> proc_info list option"
  w_info :: "'w \<Rightarrow> system_info option"
  w_uptime :: "'w \<Rightarrow> nat"
  w_contracts :: "'w \<Rightarrow> string option"
  w_clear :: "'w \<Rightarrow> 'w"

section \<open>The shell\<close>

definition CWD_MAX :: nat where "CWD_MAX = 128"
definition MAN_MAX :: nat where "MAN_MAX = 24"
definition MAN_SZ :: nat where "MAN_SZ = 40"
definition MAN_DECSZ :: nat where "MAN_DECSZ = 96"

record man =
  mn_file :: string
  mn_name :: string
  mn_alias :: string
  mn_desc :: string

record praxia =
  px_cwd :: string
  px_user :: "string option"
  px_man :: "man list"

datatype 'w pstep =
    PNext string string praxia 'w
  | PWait
  | PStop string int
  | PLogout string

definition px_path :: "string \<Rightarrow> praxia \<Rightarrow> string" where
  "px_path arg px = spud_resolve (Some arg) (Some (px_cwd px)) (CWD_MAX + 32)"

section \<open>Commands\<close>

definition help_text :: string where
  "help_text = ln '''' @ concat (map ln [
     ''=== thais-sh (praxis, ring 3) ==='',
     ''  ls [dir] / horasis      listar diretorio'',
     ''  cat <arq> / graphe      ler arquivo'',
     ''  edit <arq> / sygraphe   editar/escrever arquivo (linha '' @ [CHR 0x27, CHR ''.'', CHR 0x27] @ '' grava)'',
     ''  cd [dir] / metabasis    mudar de diretorio'',
     ''  ktisis <nome> [-d]      criar arquivo/dir'',
     ''  anairesis <nome>        remover arquivo/dir'',
     ''  echo <txt>              imprimir texto'',
     ''  pwd / whoami            dir atual / usuario'',
     ''  ps / kinesis            processos'',
     ''  mem / aisthesis         memoria'',
     ''  uptime                  tempo de sistema'',
     ''  sync / synallagma       contratos'',
     ''  users / katastaseis      listar usuarios'',
     ''  userdel / katachirmismos remover usuario (admin)'',
     ''  passwd / metavivasi      trocar senha'',
     ''  useradd / dimiourgia     criar usuario (admin)'',
     ''  clear / cls             limpar tela'',
     ''  reboot / poweroff       reiniciar / desligar'',
     ''  logout / exit           encerrar sessao''])"

definition man_line :: "man \<Rightarrow> string" where
  "man_line m = ln (''    '' @ mn_alias m @ '' / '' @ mn_name m @
     (if mn_desc m \<noteq> [] then '' '' @ [CHR 0xE2, CHR 0x80, CHR 0x94] @ '' '' @ mn_desc m else []))"

definition px_help :: "praxia \<Rightarrow> string" where
  "px_help px = help_text @
     (if px_man px \<noteq> [] then ln ''  apps (manifestos /bin/*.cfg):'' @ concat (map man_line (px_man px)) else [])"

definition cmd_ls :: "'w world \<Rightarrow> string \<Rightarrow> praxia \<Rightarrow> 'w \<Rightarrow> string \<times> 'w" where
  "cmd_ls ops arg px w =
    (case w_list ops (px_path arg px) 4096 w of
       (None, w) \<Rightarrow> (ln ''  permissao negada ou caminho invalido'', w)
     | (Some t, w) \<Rightarrow> (cstr t, w))"

definition cmd_cat :: "'w world \<Rightarrow> string \<Rightarrow> praxia \<Rightarrow> 'w \<Rightarrow> string \<times> 'w" where
  "cmd_cat ops arg px w =
    (case w_read ops (px_path arg px) 1023 w of
       (None, w) \<Rightarrow> (ln ''cat: nao encontrado ou sem permissao'', w)
     | (Some d, w) \<Rightarrow> (cstr d @ (if d = [] \<or> last d \<noteq> CHR 0x0A then [CHR 0x0A] else []), w))"

text \<open>The editor: the text typed, none when it is abandoned, and whether it was cut.\<close>

function edit_loop :: "string \<Rightarrow> string \<Rightarrow> string \<Rightarrow> (string option \<times> bool \<times> string \<times> string) option" where
  "edit_loop keys fbuf out =
    (case spud_readline 120 True False keys of
       None \<Rightarrow> None
     | Some (line, keys, o1) \<Rightarrow>
        let out = out @ o1 @ [CHR 0x0A] in
        if spud_cmp line ''.'' = 0 then Some (Some fbuf, False, keys, out)
        else if spud_cmp line [CHR 0x04] = 0 then Some (None, False, keys, out @ ln ''abandonado.'')
        else if 4096 \<le> length fbuf + spud_len line + 1
          then Some (Some fbuf, True, keys, out @ ln ''limite de 4095 bytes atingido; gravando parcial.'')
        else edit_loop keys (fbuf @ cstr line @ [CHR 0x0A]) out)"
  by pat_completeness auto
termination
  by (relation "measure (\<lambda>(keys, fbuf, out). length keys)") (auto simp: spud_readline_def dest: readline_shorter)

declare edit_loop.simps [simp del]

definition cmd_sygraphe :: "'w world \<Rightarrow> string \<Rightarrow> string \<Rightarrow> praxia \<Rightarrow> 'w \<Rightarrow> 'w pstep" where
  "cmd_sygraphe ops arg keys px w =
    (if cstr arg = [] then PNext (ln (''sygraphe: uso: sygraphe <arquivo>  (linha '' @ [CHR 0x27, CHR ''.'', CHR 0x27] @ '' grava)'')) keys px w
     else case edit_loop keys [] (ln (''--- sygraphe (linha com '' @ [CHR 0x27, CHR ''.'', CHR 0x27] @ '' grava e sai) ---'')) of
       None \<Rightarrow> PWait
     | Some (None, _, keys, out) \<Rightarrow> PNext out keys px w
     | Some (Some t, _, keys, out) \<Rightarrow>
        (case w_write ops (px_path arg px) t w of
           (ok, w) \<Rightarrow> PNext (out @ ln (if ok then ''gravado.'' else ''falha ao gravar (permissao ou caminho invalido).'')) keys px w))"

definition cmd_cd :: "'w world \<Rightarrow> string \<Rightarrow> praxia \<Rightarrow> 'w \<Rightarrow> string \<times> praxia \<times> 'w" where
  "cmd_cd ops arg px w =
    (if cstr arg = [] \<or> spud_cmp arg ''~'' = 0 then ([], px\<lparr>px_cwd := spud_ncpy ''/praxis'' CWD_MAX\<rparr>, w)
     else let path = px_path arg px in
       (case w_list ops path 64 w of
          (r, w) \<Rightarrow>
            if r \<noteq> None \<and> spud_len path < CWD_MAX then ([], px\<lparr>px_cwd := spud_ncpy path CWD_MAX\<rparr>, w)
            else (ln ''metabasis: diretorio nao encontrado'', px, w)))"

definition cmd_ktisis_force :: "'w world \<Rightarrow> string \<Rightarrow> bool \<Rightarrow> praxia \<Rightarrow> 'w \<Rightarrow> string \<times> 'w" where
  "cmd_ktisis_force ops arg force_dir px w =
    (if cstr arg = [] then (ln ''ktisis: uso: ktisis <nome> [-d] | mkdir <nome>'', w)
     else
       let name = spud_ncpy arg 192; nl = length name;
           d = (\<not> force_dir \<and> 2 \<le> nl \<and> drop (nl - 2) name = ''-d'');
           isdir = (force_dir \<or> d); name = (if d then take (nl - 2) name else name)
       in if name = [] \<and> \<not> isdir then (ln ''ktisis: nome vazio'', w)
          else let name = (if name = [] then spud_ncpy ''novo_diretorio'' 192 else name); path = px_path name px in
            (case (if isdir then w_create_dir ops path w else w_create_file ops path w) of
               (ok, w) \<Rightarrow> (ln (if ok then (if isdir then ''diretorio criado.'' else ''arquivo criado.'')
                              else ''ktisis: falhou (permissao ou nome invalido)''), w)))"

definition cmd_anairesis :: "'w world \<Rightarrow> string \<Rightarrow> praxia \<Rightarrow> 'w \<Rightarrow> string \<times> 'w" where
  "cmd_anairesis ops arg px w =
    (if cstr arg = [] then (ln ''anairesis: uso: anairesis <nome>'', w)
     else case w_remove ops (px_path arg px) w of
       (ok, w) \<Rightarrow> (ln (if ok then ''removido.'' else ''anairesis: falhou (nao existe ou protegido)''), w))"

definition px_state :: "pstate \<Rightarrow> string" where
  "px_state s = (case s of Created \<Rightarrow> ''criado'' | Ready \<Rightarrow> ''pronto'' | Running \<Rightarrow> ''rodando''
     | Blocked \<Rightarrow> ''bloqueado'' | Terminated \<Rightarrow> ''terminado'')"

definition px_ps_line :: "proc_info \<Rightarrow> string" where
  "px_ps_line p = ln (''  '' @ spud_print_dec (unat (pi_pid p)) @ '' '' @ cstr (pi_name p) @ '' ['' @
     px_state (pi_state p) @ (if pi_user p then '' u'' else '' k'') @ '']'')"

definition px_ps :: "'w world \<Rightarrow> 'w \<Rightarrow> string" where
  "px_ps ops w = (case w_procs ops w of None \<Rightarrow> ln ''ps: erro'' | Some ps \<Rightarrow> concat (map px_ps_line (take 64 ps)))"

definition cmd_mem :: "'w world \<Rightarrow> 'w \<Rightarrow> string" where
  "cmd_mem ops w =
    (case w_info ops w of
       None \<Rightarrow> ln ''mem: erro''
     | Some s \<Rightarrow> ln (''  total: '' @ spud_print_dec (unat (si_total s)) @ ''B'') @
         ln (''  usado: '' @ spud_print_dec (unat (si_used s)) @ ''B'') @
         ln (''  livre: '' @ spud_print_dec (unat (si_free s)) @ ''B''))"

definition px_uptime :: "'w world \<Rightarrow> 'w \<Rightarrow> string" where
  "px_uptime ops w = ln (spud_print_dec (w_uptime ops w div 1000) @ ''s de sistema'')"

definition cmd_contracts :: "'w world \<Rightarrow> 'w \<Rightarrow> string" where
  "cmd_contracts ops w =
    (case w_contracts ops w of
       None \<Rightarrow> ln ''nenhum contrato ativo.''
     | Some t \<Rightarrow> if cstr t = [] then ln ''nenhum contrato ativo.'' else ln ''synallagma:'' @ cstr t)"

definition cmd_users :: "'w world \<Rightarrow> 'w \<Rightarrow> string \<times> 'w" where
  "cmd_users ops w =
    (case w_users ops w of (None, w) \<Rightarrow> (ln ''users: erro'', w) | (Some t, w) \<Rightarrow> (ln ''usuarios:'' @ cstr t, w))"

definition cmd_userdelete :: "'w world \<Rightarrow> string \<Rightarrow> 'w \<Rightarrow> string \<times> 'w" where
  "cmd_userdelete ops arg w =
    (if cstr arg = [] then (ln ''userdel: uso: userdel <usuario>'', w)
     else case w_delete ops arg w of
       (r, w) \<Rightarrow> (ln (if r = 1 then ''usuario removido.''
          else if r = 0 then ''userdel: falhou (soberano, protegido ou requer sessao admin)''
          else ''userdel: sem permissao de admin''), w))"

text \<open>Two hidden lines.\<close>

definition ask_two :: "string \<Rightarrow> string \<Rightarrow> string \<Rightarrow> (string \<times> string \<times> string \<times> string) option" where
  "ask_two p1 p2 keys =
    (case spud_readline 64 False True keys of
       None \<Rightarrow> None
     | Some (a, keys, o1) \<Rightarrow>
        (case spud_readline 64 False True keys of
           None \<Rightarrow> None
         | Some (b, keys, o2) \<Rightarrow> Some (a, b, keys, p1 @ ln o1 @ p2 @ ln o2)))"

definition cmd_passwdc :: "'w world \<Rightarrow> string \<Rightarrow> string \<Rightarrow> praxia \<Rightarrow> 'w \<Rightarrow> 'w pstep" where
  "cmd_passwdc ops arg keys px w =
    (let who = spud_ncpy (case px_user px of None \<Rightarrow> '''' | Some u \<Rightarrow> u) 32;
         who = (if cstr arg \<noteq> [] then spud_ncpy arg 32 else who)
     in if who = [] then PNext (ln ''passwd: quem sou eu?'') keys px w
        else case ask_two ''senha atual: '' ''nova senha: '' keys of
          None \<Rightarrow> PWait
        | Some (oldp, newp, keys, out) \<Rightarrow>
           (case w_changepw ops who oldp newp w of
              (r, w) \<Rightarrow> PNext (out @ ln (if r = 1 then ''senha alterada.''
                 else ''falhou (senha atual errada, invalida ou sem admin).'')) keys px w))"

definition px_useradd :: "'w world \<Rightarrow> string \<Rightarrow> string \<Rightarrow> praxia \<Rightarrow> 'w \<Rightarrow> 'w pstep" where
  "px_useradd ops arg keys px w =
    (if cstr arg = [] then PNext (ln ''useradd: uso: useradd <usuario>'') keys px w
     else case ask_two ''senha: '' ''confirme: '' keys of
       None \<Rightarrow> PWait
     | Some (pass, pass2, keys, out) \<Rightarrow>
        if spud_cmp pass pass2 \<noteq> 0 then PNext (out @ ln ''senhas nao conferem.'') keys px w
        else case w_create_user ops arg pass w of
          (r, w) \<Rightarrow> PNext (out @ ln (if r = 1 then ''usuario criado.''
             else if r = 0 then ''useradd: falhou (nome curto/senha curta/existe/requer sessao admin)''
             else ''useradd: sem permissao de admin'')) keys px w)"

section \<open>Manifests\<close>

definition builtins :: "string list" where
  "builtins = [''help'', ''clear'', ''cls'', ''echo'', ''pwd'', ''whoami'', ''ls'', ''horasis'', ''cat'', ''graphe'', ''edit'',
     ''sygraphe'', ''cd'', ''metabasis'', ''ktisis'', ''touch'', ''mkdir'', ''anairesis'', ''rm'', ''ps'', ''kinesis'', ''mem'',
     ''aisthesis'', ''uptime'', ''sync'', ''synallagma'', ''users'', ''katastaseis'', ''userdel'', ''katachirmismos'', ''passwd'',
     ''metavivasi'', ''useradd'', ''dimiourgia'', ''reboot'', ''poweroff'', ''halt'', ''logout'', ''exit'']"

definition builtin_cmd :: "string \<Rightarrow> bool" where
  "builtin_cmd c = list_ex (\<lambda>b. spud_cmp c b = 0) builtins"

definition blank_c :: "char \<Rightarrow> bool" where "blank_c c \<longleftrightarrow> c = CHR '' '' \<or> c = CHR 0x09"

definition trim_end :: "string \<Rightarrow> string" where
  "trim_end s = rev (dropWhile (\<lambda>c. blank_c c \<or> c = CHR 0x0D) (rev s))"

text \<open>The value of a key in a manifest.  The comparison runs on past the end of the line.\<close>

function man_key :: "string \<Rightarrow> string \<Rightarrow> nat \<Rightarrow> string" where
  "man_key buf key outcap =
    (if buf = [] then []
     else
       let line = takeWhile (\<lambda>c. c \<noteq> CHR 0x0A) buf; rest = drop (length line + 1) buf;
           n = length (takeWhile blank_c line); body = drop n line; kl = spud_len key
       in if kl + 1 \<le> length body \<and> spud_cmp (drop n buf) key = 0
          then take (outcap - 1) (trim_end (dropWhile (\<lambda>c. blank_c c \<or> c = CHR ''='' \<or> c = CHR '':'') (drop kl body)))
          else man_key rest key outcap)"
  by pat_completeness auto
termination
  by (relation "measure (\<lambda>(buf, key, outcap). length buf)") auto

declare man_key.simps [simp del]

text \<open>The name of a manifest in a line of a listing, without its ending.\<close>

definition man_base :: "string \<Rightarrow> string option" where
  "man_base line =
    (let t = dropWhile blank_c (take 255 line) in
     if spud_cmp t ''<DIR>'' = 0 \<or> spud_len t < 5 then None
     else
       let t = (if spud_cmp t ''<ARQ>'' = 0 then drop 5 t else t);
           t = dropWhile (\<lambda>c. c = CHR '' '') t;
           base = take 47 (takeWhile (\<lambda>c. c \<noteq> CHR '' '' \<and> c \<noteq> CHR 0x0A \<and> c \<noteq> CHR 0x09) t); bl = spud_len base
       in if bl < 5 \<or> spud_cmp (drop (bl - 4) base) ''.cfg'' \<noteq> 0 then None else Some (take (bl - 4) base))"

definition man_entry :: "'w world \<Rightarrow> string \<Rightarrow> 'w \<Rightarrow> man option \<times> 'w" where
  "man_entry ops base w =
    (case w_read ops (spud_ncat (spud_ncat (spud_ncpy ''/bin/'' 72) base 72) ''.cfg'' 72) 511 w of
       (None, w) \<Rightarrow> (None, w)
     | (Some buf, w) \<Rightarrow>
        let nm = man_key buf ''nome'' MAN_SZ; al = man_key buf ''alias'' MAN_SZ; dc = man_key buf ''desc'' MAN_DECSZ in
        if cstr nm = [] \<and> cstr al = [] then (None, w)
        else
          let nm = (if cstr nm = [] then spud_ncpy base MAN_SZ else nm); al = (if cstr al = [] then spud_ncpy base MAN_SZ else al) in
          if builtin_cmd nm \<or> builtin_cmd al then (None, w)
          else if spud_cmp base ''spoudazo'' = 0 \<or> spud_cmp base ''praxia'' = 0 then (None, w)
          else (Some \<lparr>mn_file = spud_ncpy base MAN_SZ, mn_name = spud_ncpy nm MAN_SZ, mn_alias = spud_ncpy al MAN_SZ,
                 mn_desc = spud_ncpy dc MAN_DECSZ\<rparr>, w))"

fun man_lines :: "'w world \<Rightarrow> string list \<Rightarrow> man list \<Rightarrow> 'w \<Rightarrow> man list \<times> 'w" where
  "man_lines ops [] ms w = (ms, w)"
| "man_lines ops (l # ls) ms w =
    (if MAN_MAX \<le> length ms then (ms, w)
     else case man_base l of
       None \<Rightarrow> man_lines ops ls ms w
     | Some b \<Rightarrow> (case man_entry ops b w of
         (None, w) \<Rightarrow> man_lines ops ls ms w | (Some m, w) \<Rightarrow> man_lines ops ls (ms @ [m]) w))"

text \<open>The lines of a text, without blanks before them, up to an empty rest.\<close>

function text_lines :: "string \<Rightarrow> string list" where
  "text_lines p =
    (let p = dropWhile (\<lambda>c. blank_c c \<or> c = CHR 0x0A) p in
     if p = [] then []
     else takeWhile (\<lambda>c. c \<noteq> CHR 0x0A) p # text_lines (dropWhile (\<lambda>c. c \<noteq> CHR 0x0A) p))"
  by pat_completeness auto
termination
proof (relation "measure length")
  fix p q :: string
  assume q: "q = dropWhile (\<lambda>c. blank_c c \<or> c = CHR 0x0A) p" and ne: "q \<noteq> []"
  have l: "length q \<le> length p" unfolding q by (rule length_dropWhile_le)
  have "hd q \<noteq> CHR 0x0A" using ne hd_dropWhile [of "\<lambda>c. blank_c c \<or> c = CHR 0x0A" p] unfolding q by blast
  then have "dropWhile (\<lambda>c. c \<noteq> CHR 0x0A) q = dropWhile (\<lambda>c. c \<noteq> CHR 0x0A) (tl q)" using ne by (cases q) auto
  moreover have "length (dropWhile (\<lambda>c. c \<noteq> CHR 0x0A) (tl q)) \<le> length (tl q)" by (rule length_dropWhile_le)
  ultimately show "(dropWhile (\<lambda>c. c \<noteq> CHR 0x0A) q, p) \<in> measure length" using l ne by (cases q) auto
qed simp

declare text_lines.simps [simp del]

definition man_load :: "'w world \<Rightarrow> 'w \<Rightarrow> man list \<times> 'w" where
  "man_load ops w =
    (case w_list ops ''/bin'' 2048 w of (None, w) \<Rightarrow> ([], w) | (Some t, w) \<Rightarrow> man_lines ops (text_lines (cstr t)) [] w)"

definition man_find :: "string \<Rightarrow> praxia \<Rightarrow> nat option" where
  "man_find c px = first_index (\<lambda>m. spud_cmp c (mn_name m) = 0 \<or> spud_cmp c (mn_alias m) = 0 \<or> spud_cmp c (mn_file m) = 0) (px_man px)"

section \<open>The loop\<close>

definition try_exec :: "'w world \<Rightarrow> string \<Rightarrow> string list \<Rightarrow> praxia \<Rightarrow> 'w \<Rightarrow> bool \<times> 'w" where
  "try_exec ops c argv px w = (case w_exec ops (px_path c px) argv w of (r, w) \<Rightarrow> (0 < r, w))"

text \<open>The words of the argument; the last one taken keeps what follows it.\<close>

fun arg_words :: "nat \<Rightarrow> string \<Rightarrow> string list" where
  "arg_words 0 s = []"
| "arg_words (Suc n) s =
    (let s = dropWhile (\<lambda>c. c = CHR '' '') s in
     if s = [] then [] else if n = 0 then [s]
     else takeWhile (\<lambda>c. c \<noteq> CHR '' '') s # arg_words n (dropWhile (\<lambda>c. c \<noteq> CHR '' '') s))"

definition split_cmd :: "string \<Rightarrow> string \<times> string" where
  "split_cmd line =
    (let s = dropWhile (\<lambda>c. c = CHR '' '') line; c = take 31 (takeWhile (\<lambda>c. c \<noteq> CHR '' '') s)
     in (c, take 191 (dropWhile (\<lambda>c. c = CHR '' '') (drop (length c) s))))"

definition px_external :: "'w world \<Rightarrow> string \<Rightarrow> string \<Rightarrow> string \<Rightarrow> praxia \<Rightarrow> 'w \<Rightarrow> 'w pstep" where
  "px_external ops c arg keys px w =
    (let argv = c # arg_words 14 arg;
         other = (\<lambda>w. case try_exec ops c argv px w of
           (ok, w) \<Rightarrow> PNext (if ok then [] else ln ([CHR 0x27] @ c @ [CHR 0x27] @ '' nao encontrado.'')) keys px w)
     in case man_find c px of
          None \<Rightarrow> other w
        | Some i \<Rightarrow>
           if spud_cmp (mn_file (px_man px ! i)) c = 0 then other w
           else (case w_exec ops (spud_ncat (spud_ncpy ''/bin/'' 160) (mn_file (px_man px ! i)) 160) argv w of
             (r, w) \<Rightarrow> if 0 < r then PNext [] keys px w else other w))"

definition out_of :: "string \<Rightarrow> praxia \<Rightarrow> string \<times> 'w \<Rightarrow> 'w pstep" where
  "out_of keys px r = (case r of (out, w) \<Rightarrow> PNext out keys px w)"

definition px_line :: "'w world \<Rightarrow> string \<Rightarrow> string \<Rightarrow> praxia \<Rightarrow> 'w \<Rightarrow> 'w pstep" where
  "px_line ops line keys px w =
    (case split_cmd line of (c, arg) \<Rightarrow>
       let is = (\<lambda>n. spud_cmp c n = 0) in
       if c = [] then PNext [] keys px w
       else if is ''help'' then PNext (px_help px) keys px w
       else if is ''clear'' \<or> is ''cls'' then PNext [] keys px (w_clear ops w)
       else if is ''echo'' then PNext (ln arg) keys px w
       else if is ''pwd'' then PNext (ln (px_cwd px)) keys px w
       else if is ''whoami'' then PNext (ln (case px_user px of None \<Rightarrow> ''?'' | Some u \<Rightarrow> cstr u)) keys px w
       else if is ''ls'' \<or> is ''horasis'' then out_of keys px (cmd_ls ops arg px w)
       else if is ''cat'' \<or> is ''graphe'' then out_of keys px (cmd_cat ops arg px w)
       else if is ''edit'' \<or> is ''sygraphe'' then cmd_sygraphe ops arg keys px w
       else if is ''cd'' \<or> is ''metabasis'' then (case cmd_cd ops arg px w of (out, px, w) \<Rightarrow> PNext out keys px w)
       else if is ''ktisis'' \<or> is ''touch'' then out_of keys px (cmd_ktisis_force ops arg False px w)
       else if is ''mkdir'' then out_of keys px (cmd_ktisis_force ops arg True px w)
       else if is ''anairesis'' \<or> is ''rm'' then out_of keys px (cmd_anairesis ops arg px w)
       else if is ''ps'' \<or> is ''kinesis'' then PNext (px_ps ops w) keys px w
       else if is ''mem'' \<or> is ''aisthesis'' then PNext (cmd_mem ops w) keys px w
       else if is ''uptime'' then PNext (px_uptime ops w) keys px w
       else if is ''sync'' \<or> is ''synallagma'' then PNext (cmd_contracts ops w) keys px w
       else if is ''users'' \<or> is ''katastaseis'' then out_of keys px (cmd_users ops w)
       else if is ''userdel'' \<or> is ''katachirmismos'' then out_of keys px (cmd_userdelete ops arg w)
       else if is ''passwd'' \<or> is ''metavivasi'' then cmd_passwdc ops arg keys px w
       else if is ''useradd'' \<or> is ''dimiourgia'' then px_useradd ops arg keys px w
       else if is ''reboot'' then PStop (ln ''reboot...'') 1
       else if is ''poweroff'' \<or> is ''halt'' then PStop (ln ''poweroff...'') 2
       else if is ''logout'' \<or> is ''exit'' then PLogout (ln ''saindo...'')
       else px_external ops c arg keys px w)"

definition px_prompt :: "praxia \<Rightarrow> string" where
  "px_prompt px = (case px_user px of None \<Rightarrow> ''user'' | Some u \<Rightarrow> cstr u) @ ''@T!'' @ px_cwd px @ ''$ ''"

definition px_turn :: "'w world \<Rightarrow> string \<Rightarrow> praxia \<Rightarrow> 'w \<Rightarrow> 'w pstep" where
  "px_turn ops keys px w =
    (case spud_readline 256 True False keys of
       None \<Rightarrow> PWait
     | Some (line, keys, echo) \<Rightarrow>
        (case px_line ops line keys px w of
           PNext out keys px w \<Rightarrow> PNext (px_prompt px @ ln echo @ out) keys px w
         | PWait \<Rightarrow> PWait
         | PStop out n \<Rightarrow> PStop (px_prompt px @ ln echo @ out) n
         | PLogout out \<Rightarrow> PLogout (px_prompt px @ ln echo @ out)))"

definition praxia_main :: "'w world \<Rightarrow> string option \<Rightarrow> 'w \<Rightarrow> praxia \<times> 'w" where
  "praxia_main ops user w =
    (case man_load ops w of (ms, w) \<Rightarrow> (\<lparr>px_cwd = ''/praxis'', px_user = user, px_man = ms\<rparr>, w))"

section \<open>Manifests are never found\<close>

lemma trim_end_NUL: "cstr (trim_end (NUL # s)) = []"
proof -
  have "trim_end (NUL # s) = NUL # trim_end s"
  proof (cases "\<forall>c\<in>set s. blank_c c \<or> c = CHR 0x0D")
    case True
    then have "dropWhile (\<lambda>c. blank_c c \<or> c = CHR 0x0D) (rev s) = []" by (simp add: dropWhile_eq_Nil_conv)
    then show ?thesis using True by (simp add: trim_end_def dropWhile_append blank_c_def)
  next
    case False
    then obtain x where x: "x \<in> set (rev s)" "\<not> (blank_c x \<or> x = CHR 0x0D)" by auto
    then have "dropWhile (\<lambda>c. blank_c c \<or> c = CHR 0x0D) (rev s @ [NUL]) =
        dropWhile (\<lambda>c. blank_c c \<or> c = CHR 0x0D) (rev s) @ [NUL]" by (rule dropWhile_append1)
    then show ?thesis by (simp add: trim_end_def)
  qed
  then show ?thesis by simp
qed

text \<open>A key is found only where a NUL follows it, and then its value is empty.\<close>

lemma man_key_empty: "NUL \<notin> set key \<Longrightarrow> cstr (man_key buf key cap) = []"
proof (induction buf key cap rule: man_key.induct)
  case (1 buf key cap)
  let ?line = "takeWhile (\<lambda>c. c \<noteq> CHR 0x0A) buf"
  let ?n = "length (takeWhile blank_c ?line)"
  let ?body = "drop ?n ?line"
  show ?case
  proof (cases "buf = [] \<or> \<not> (spud_len key + 1 \<le> length ?body \<and> spud_cmp (drop ?n buf) key = 0)")
    case True
    then show ?thesis
      using "1.IH" [OF _ refl refl refl refl refl _ "1.prems"]
      by (subst man_key.simps) (auto simp: Let_def)
  next
    case False
    then have l: "length key < length ?body" and e: "cstr (drop ?n buf) = key"
      using "1.prems" by (simp_all add: spud_cmp_iff spud_len_cstr cstr_id)
    have b: "drop ?n buf = ?body @ drop (length ?line) buf"
      by (metis takeWhile_dropWhile_id drop_append diff_is_0_eq drop_0 length_takeWhile_le dropWhile_eq_drop)
    have "length key < length (drop ?n buf)" using l unfolding b by simp
    then have z: "drop ?n buf ! length key = NUL"
      using e nth_length_takeWhile [of "\<lambda>c. c \<noteq> NUL" "drop ?n buf"] by (auto simp: cstr_def)
    then have d: "drop (length key) ?body = NUL # drop (length key + 1) ?body"
      using l Cons_nth_drop_Suc [OF l] unfolding b by (simp add: nth_append)
    have "man_key buf key cap = take (cap - 1)
        (trim_end (dropWhile (\<lambda>c. blank_c c \<or> c = CHR ''='' \<or> c = CHR '':'') (drop (spud_len key) ?body)))"
      using False by (subst man_key.simps) (auto simp only: Let_def if_False if_True de_Morgan_disj not_not simp_thms)
    also have "spud_len key = length key" using "1.prems" by (simp add: spud_len_cstr cstr_id)
    finally have "man_key buf key cap = take (cap - 1) (trim_end (NUL # drop (length key + 1) ?body))"
      unfolding d by (simp add: blank_c_def)
    moreover have "cstr (take k t) = []" if "cstr t = []" for k t
      using that by (cases t; cases k) (auto simp: cstr_def split: if_splits)
    ultimately show ?thesis using trim_end_NUL by metis
  qed
qed

text \<open>C40. The comparison of a key runs over the rest of the manifest, so no key is ever found with a value:
  whatever manifests there are, the shell starts with an empty table, and its help and its names for
  programs know none of them.\<close>

theorem praxia_no_manifests:
  assumes "praxia_main ops user w = (px, w')"
  shows "px_man px = [] \<and> man_find c px = None \<and> px_help px = help_text"
proof -
  have e: "fst (man_entry ops b v) = None" for b v
  proof (cases "w_read ops (spud_ncat (spud_ncat (spud_ncpy ''/bin/'' 72) b 72) ''.cfg'' 72) 511 v")
    case (Pair r v')
    then show ?thesis by (cases r) (auto simp: man_entry_def Let_def man_key_empty)
  qed
  have l: "fst (man_lines ops ls [] v) = []" for ls v
  proof (induction ls arbitrary: v)
    case (Cons x ls)
    have "man_entry ops b v \<noteq> (Some m, v')" for b m v' using e [of b v] by (cases "man_entry ops b v") auto
    then show ?case using Cons by (auto split: option.split prod.split)
  qed simp
  have "fst (man_load ops w) = []" using l by (auto simp: man_load_def split: option.split prod.split)
  then have "px_man px = []" using assms by (auto simp: praxia_main_def split: prod.splits)
  then show ?thesis by (simp add: man_find_def px_help_def)
qed

section \<open>The directory\<close>

definition px_ok :: "praxia \<Rightarrow> bool" where
  "px_ok px \<longleftrightarrow> px_cwd px \<noteq> [] \<and> hd (px_cwd px) = CHR ''/'' \<and> NUL \<notin> set (px_cwd px) \<and> length (px_cwd px) < CWD_MAX"

lemma NUL_take_cstr: "NUL \<notin> set (take n (cstr s))"
  by (meson NUL_notin_cstr in_set_takeD)

lemma ncpy_facts: "NUL \<notin> set (spud_ncpy s n)" "0 < n \<Longrightarrow> length (spud_ncpy s n) < n"
  by (simp_all add: spud_ncpy_def NUL_take_cstr less_imp_diff_less min.strict_coboundedI2)

lemma px_path_eq:
  assumes "px_ok px"
  shows "px_path arg px =
    (if cstr arg = [] then px_cwd px
     else if hd arg = CHR ''/'' then spud_ncpy arg 160
     else px_cwd px @ ''/'' @ take (158 - length (px_cwd px)) (cstr arg))"
proof -
  have c: "cstr (px_cwd px) = px_cwd px" "length (px_cwd px) < 128"
    using assms by (simp_all add: px_ok_def cstr_id CWD_MAX_def)
  have b: "spud_ncpy (px_cwd px) 160 = px_cwd px" using c by (simp add: spud_ncpy_def)
  have s: "spud_ncat (px_cwd px) ''/'' 160 = px_cwd px @ ''/''"
  proof -
    have "1 \<le> 159 - length (px_cwd px)" using c(2) by simp
    then show ?thesis using c by (simp add: spud_ncat_def)
  qed
  have n: "cstr (px_cwd px @ ''/'') = px_cwd px @ ''/''" using assms by (intro cstr_id) (simp add: px_ok_def)
  show ?thesis by (simp add: px_path_def spud_resolve_def b s CWD_MAX_def Let_def) (simp add: spud_ncat_def n)
qed

lemma cmd_cd_ok:
  assumes "px_ok px" "cmd_cd ops arg px w = (out, px1, w1)"
  shows "px_ok px1"
proof -
  let ?p = "px_path arg px"
  have ne: "?p \<noteq> [] \<and> hd ?p = CHR ''/'' \<and> NUL \<notin> set ?p" if "cstr arg \<noteq> []"
  proof -
    have p: "px_cwd px \<noteq> []" "hd (px_cwd px) = CHR ''/''" "NUL \<notin> set (px_cwd px)" using assms(1) by (simp_all add: px_ok_def)
    have a: "hd (spud_ncpy arg 160) = hd arg" "spud_ncpy arg 160 \<noteq> []"
      using that by (cases arg; auto simp: spud_ncpy_def take_Cons' split: if_splits)+
    show ?thesis
    proof (cases "hd arg = CHR ''/''")
      case True
      then show ?thesis using a that by (simp add: px_path_eq [OF assms(1)] ncpy_facts(1))
    next
      case False
      then show ?thesis using p that by (simp add: px_path_eq [OF assms(1)] NUL_take_cstr)
    qed
  qed
  have "px_ok (px\<lparr>px_cwd := spud_ncpy ?p CWD_MAX\<rparr>)" if "cstr arg \<noteq> []" "spud_len ?p < CWD_MAX"
  proof -
    have "cstr ?p = ?p" using ne [OF that(1)] by (simp add: cstr_id)
    then have "spud_ncpy ?p CWD_MAX = ?p" "length ?p < CWD_MAX" using that(2) by (simp_all add: spud_ncpy_def spud_len_cstr)
    then show ?thesis using ne [OF that(1)] by (simp add: px_ok_def)
  qed
  moreover have "px_ok (px\<lparr>px_cwd := spud_ncpy ''/praxis'' CWD_MAX\<rparr>)" by (simp add: px_ok_def spud_ncpy_def CWD_MAX_def)
  ultimately show ?thesis using assms by (auto simp: cmd_cd_def Let_def split: if_splits prod.splits)
qed

text \<open>Whatever is typed, the directory of the shell is an absolute path that fits its buffer, and only
  \<open>cd\<close> changes it.\<close>

theorem praxia_directory:
  assumes "px_ok px" "px_line ops line keys px w = PNext out keys1 px1 w1"
  shows "px_ok px1 \<and> (px1 = px \<or> cstr (fst (split_cmd line)) \<in> {''cd'', ''metabasis''})"
proof -
  obtain c arg where s: "split_cmd line = (c, arg)" by fastforce
  define Q where "Q r \<longleftrightarrow> (\<forall>o1 k p v. r = PNext o1 k p v \<longrightarrow> p = px)" for r :: "'a pstep"
  have q_if: "Q x \<Longrightarrow> Q y \<Longrightarrow> Q (if b then x else y)" for x y b by simp
  have q_next: "Q (PNext o1 k px v)" for o1 k v by (simp add: Q_def)
  have q_stop: "Q (PStop o1 n)" "Q (PLogout o1)" for o1 n by (simp_all add: Q_def)
  have q_ext: "Q (px_external ops c arg keys px w)"
    by (auto simp: Q_def px_external_def Let_def split: option.splits if_splits prod.splits)
  have q_ed: "Q (cmd_sygraphe ops arg keys px w)"
    by (auto simp: Q_def cmd_sygraphe_def split: option.splits if_splits prod.splits)
  have q_pw: "Q (cmd_passwdc ops arg keys px w)"
    by (auto simp: Q_def cmd_passwdc_def Let_def split: option.splits if_splits prod.splits)
  have q_us: "Q (px_useradd ops arg keys px w)"
    by (auto simp: Q_def px_useradd_def split: option.splits if_splits prod.splits)
  have q_out: "Q (out_of keys px r)" for r by (auto simp: Q_def out_of_def split: prod.splits)
  have cd: "px_ok px1" if "cmd_cd ops arg px w = (x, px1, w1)" for x using cmd_cd_ok [OF assms(1) that] .
  show ?thesis
  proof (cases "cstr c \<in> {''cd'', ''metabasis''}")
    case True
    then have "\<exists>x. cmd_cd ops arg px w = (x, px1, w1)"
      using assms(2) unfolding px_line_def s by (auto simp: Let_def spud_cmp_iff split: prod.splits if_splits)
    then show ?thesis using True cd s by auto
  next
    case False
    then have f: "(spud_cmp c ''cd'' = 0 \<or> spud_cmp c ''metabasis'' = 0) = False" by (simp add: spud_cmp_iff)
    have "Q (px_line ops line keys px w)"
      unfolding px_line_def s prod.case Let_def f if_False
      by (intro q_if q_next q_stop q_ext q_ed q_pw q_us q_out)
    then show ?thesis using assms by (simp add: Q_def)
  qed
qed

text \<open>A relative path is only put behind the directory: \<open>cd ..\<close> makes it three characters longer, until it
  does not fit and every further one is refused, although the kernel lists it.\<close>

theorem praxia_cd_up:
  assumes "px_ok px" "w_list ops (px_cwd px @ ''/..'') 64 w = (Some t, w1)"
  shows "cmd_cd ops ''..'' px w =
    (if length (px_cwd px) + 3 < CWD_MAX then ([], px\<lparr>px_cwd := px_cwd px @ ''/..''\<rparr>, w1)
     else (ln ''metabasis: diretorio nao encontrado'', px, w1))"
proof -
  have l: "length (px_cwd px) < 128" using assms(1) by (simp add: px_ok_def CWD_MAX_def)
  have n: "cstr (px_cwd px @ ''/..'') = px_cwd px @ ''/..''" using assms(1) by (intro cstr_id) (simp add: px_ok_def)
  have "2 \<le> 158 - length (px_cwd px)" using l by simp
  then have p: "px_path ''..'' px = px_cwd px @ ''/..''" by (simp add: px_path_eq [OF assms(1)])
  have "spud_len (px_cwd px @ ''/..'') = length (px_cwd px) + 3" by (simp add: spud_len_cstr n)
  then show ?thesis
    by (simp add: cmd_cd_def p assms(2) spud_cmp_iff Let_def) (simp add: spud_ncpy_def n CWD_MAX_def)
qed

section \<open>The editor\<close>

text \<open>What is typed line by line, up to a line with a single dot, is what the editor writes; the key that
  should abandon the edit is filtered out by the line input and never does.\<close>

theorem editor_keeps_lines:
  assumes "\<forall>l\<in>set ls. typable l \<and> length l < 119 \<and> l \<noteq> ''.''" "length (concat (map ln ls)) < 4095"
  shows "(\<exists>o1. edit_loop (concat (map ln ls) @ ln ''.'' @ keys) [] out = Some (Some (concat (map ln ls)), False, keys, o1)) \<and>
    (\<forall>ks tx short rest o2. edit_loop ks [] out = Some (tx, short, rest, o2) \<longrightarrow> tx \<noteq> None)"
proof -
  have 1: "\<exists>o1. edit_loop (concat (map ln ls) @ ln ''.'' @ keys) buf out = Some (Some (buf @ concat (map ln ls)), False, keys, o1)"
    if "\<forall>l\<in>set ls. typable l \<and> length l < 119 \<and> l \<noteq> ''.''" "length buf + length (concat (map ln ls)) < 4095" for ls buf out
    using that
  proof (induction ls arbitrary: buf out)
    case Nil
    obtain o1 where "spud_readline 120 True False (ln ''.'' @ keys) = Some (''.'', keys, o1)"
      using readline_line [of "''.''" "[]" 120 True False keys "[]"] by (auto simp: spud_readline_def ln_def typable_def)
    then show ?case by (subst edit_loop.simps) (simp add: spud_cmp_iff)
  next
    case (Cons l ls)
    have l: "typable l" "length l < 119" "l \<noteq> ''.''" "cstr l = l" using Cons.prems(1) typable_cstr by auto
    let ?r = "concat (map ln ls) @ ln ''.'' @ keys"
    obtain o1 where r: "spud_readline 120 True False (l @ CHR 0x0A # ?r) = Some (l, ?r, o1)"
      using readline_line [OF l(1), of "[]" 120 True False ?r "[]"] l(2) by (auto simp: spud_readline_def)
    have d: "l \<noteq> [CHR 0x04]" using l(1) by (auto simp: typable_def)
    have f: "\<not> 4096 \<le> length buf + spud_len l + 1" using Cons.prems(2) l(4) by (simp add: spud_len_cstr ln_def)
    have "edit_loop (l @ CHR 0x0A # ?r) buf out = edit_loop ?r (buf @ l @ [CHR 0x0A]) (out @ o1 @ [CHR 0x0A])"
      using f l(3,4) d by (subst edit_loop.simps) (simp add: r spud_cmp_iff Let_def)
    moreover have e: "concat (map ln (l # ls)) = l @ CHR 0x0A # concat (map ln ls)" by (simp add: ln_def [of l])
    moreover have "\<exists>o1a. edit_loop ?r (buf @ l @ [CHR 0x0A]) (out @ o1 @ [CHR 0x0A]) =
        Some (Some ((buf @ l @ [CHR 0x0A]) @ concat (map ln ls)), False, keys, o1a)"
      by (rule Cons.IH) (use Cons.prems e in auto)
    ultimately show ?case by simp
  qed
  have 2: "tx \<noteq> None" if "edit_loop ks buf out = Some (tx, short, rest, o2)" for ks buf out tx short rest o2
    using that
  proof (induction ks buf out rule: edit_loop.induct)
    case (1 ks buf out)
    show ?case
    proof (cases "spud_readline 120 True False ks")
      case None
      then show ?thesis using "1.prems" by (subst (asm) edit_loop.simps) simp
    next
      case (Some a)
      obtain line ks1 e where a: "a = (line, ks1, e)" by (cases a)
      have t: "typable line" using readline_typable [of 120 True False ks "[]" "[]" line ks1 e] Some a
        by (simp add: spud_readline_def typable_def)
      then have "cstr line \<noteq> [CHR 0x04]" using typable_cstr [OF t] by (auto simp: typable_def)
      then show ?thesis
        using "1.prems" "1.IH" [OF Some a [symmetric] refl refl] Some a
        by (subst (asm) edit_loop.simps) (auto simp: spud_cmp_iff Let_def split: if_splits)
    qed
  qed
  show ?thesis using 1 [of ls "[]" out] assms 2 by auto
qed

section \<open>Examples\<close>

text \<open>A system with one listing and one manifest, whose other calls fail.\<close>

definition still_world :: "unit world" where
  "still_world = \<lparr>w_list = (\<lambda>p n w. (Some (''  <ARQ>   ora.cfg'' @ [CHR 0x0A]), w)),
     w_read = (\<lambda>p n w. (Some (''nome = ora'' @ [CHR 0x0A]), w)), w_write = (\<lambda>p d w. (False, w)),
     w_create_file = (\<lambda>p w. (False, w)), w_create_dir = (\<lambda>p w. (False, w)), w_remove = (\<lambda>p w. (False, w)),
     w_users = (\<lambda>w. (None, w)), w_delete = (\<lambda>n w. (0, w)), w_changepw = (\<lambda>n p q w. (0, w)),
     w_create_user = (\<lambda>n p w. (0, w)), w_exec = (\<lambda>p a w. (0, w)), w_procs = (\<lambda>w. None), w_info = (\<lambda>w. None),
     w_uptime = (\<lambda>w. 0), w_contracts = (\<lambda>w. None), w_clear = (\<lambda>w. w)\<rparr>"

definition at_praxis :: praxia where
  "at_praxis = \<lparr>px_cwd = ''/praxis'', px_user = None, px_man = []\<rparr>"

lemma at_praxis_ok: "px_ok at_praxis"
  by (simp add: px_ok_def at_praxis_def CWD_MAX_def)

lemma praxia_no_manifests_witness: "px_man (fst (praxia_main still_world (Some ''ann'') ())) = []"
proof -
  obtain px w where m: "praxia_main still_world (Some ''ann'') () = (px, w)" by (rule prod.exhaust)
  from praxia_no_manifests [OF m] m show ?thesis by simp
qed

lemma praxia_directory_witness:
  "\<exists>out keys px w. px_line still_world ''cd ..'' [] at_praxis () = PNext out keys px w \<and> px_ok px"
proof -
  have s: "split_cmd ''cd ..'' = (''cd'', ''..'')" by (simp add: split_cmd_def)
  obtain out px w where c: "cmd_cd still_world ''..'' at_praxis () = (out, px, w)" by (metis prod_cases3)
  have l: "px_line still_world ''cd ..'' [] at_praxis () = PNext out [] px w"
    by (simp add: px_line_def s spud_cmp_iff c Let_def)
  from praxia_directory [OF at_praxis_ok l] l show ?thesis by blast
qed

lemma praxia_cd_up_witness:
  "cmd_cd still_world ''..'' at_praxis () = ([], at_praxis\<lparr>px_cwd := ''/praxis/..''\<rparr>, ())"
proof -
  have w: "w_list still_world (px_cwd at_praxis @ ''/..'') 64 () = (Some (''  <ARQ>   ora.cfg'' @ [CHR 0x0A]), ())"
    by (simp add: still_world_def)
  from praxia_cd_up [OF at_praxis_ok w] show ?thesis by (simp add: at_praxis_def CWD_MAX_def)
qed

lemma editor_keeps_lines_witness:
  "\<exists>o1. edit_loop (ln ''ab'' @ ln ''.'') [] [] = Some (Some (ln ''ab''), False, [], o1)"
proof -
  have h: "\<forall>l\<in>set [''ab'']. typable l \<and> length l < 119 \<and> l \<noteq> ''.''" "length (concat (map ln [''ab''])) < 4095"
    by (simp_all add: typable_def ln_def)
  from editor_keeps_lines [OF h, of "[]" "[]"] show ?thesis by simp
qed

end
