(* ===== verification/Spoudazo.thy ===== *)
theory Spoudazo
  imports Authd
begin

text \<open>
  The session program in ring 3, src/userspace/spoudazo/spoudazo.c: the dialogue for the
  first account, the login, the question about contracts, and the start of the shell.

  The calls it makes are a record of functions on the state of the rest of the system,
  the keys still to be typed a string.  A dialogue ends with its output, the keys left
  and the state, or waits for more keys; both are values, so that it never ends can be
  stated.
\<close>

unbundle bit_operations_syntax

section \<open>The calls\<close>

text \<open>\<open>ss_login\<close> gives the result and the token, \<open>ss_contracts\<close> the text of the contracts,
  none when the call fails.\<close>

record 'w sp_calls =
  ss_count :: "'w \<Rightarrow> int \<times> 'w"
  ss_create :: "string \<Rightarrow> string \<Rightarrow> 'w \<Rightarrow> int \<times> 'w"
  ss_login :: "string \<Rightarrow> string \<Rightarrow> 'w \<Rightarrow> (int \<times> u64) \<times> 'w"
  ss_contracts :: "'w \<Rightarrow> string option"
  ss_session :: "string \<Rightarrow> u64 \<Rightarrow> 'w \<Rightarrow> int \<times> 'w"
  ss_exec :: "string \<Rightarrow> string list \<Rightarrow> 'w \<Rightarrow> int \<times> 'w"

datatype 'w dialogue = Waits 'w | Again string string 'w | Ends string string 'w

section \<open>The dialogues\<close>

text \<open>A prompt, a line, a line feed.\<close>

definition sp_ask :: "string \<Rightarrow> nat \<Rightarrow> bool \<Rightarrow> bool \<Rightarrow> string \<Rightarrow> string \<Rightarrow> (string \<times> string \<times> string) option" where
  "sp_ask p mx echo msk keys out =
    (case spud_readline mx echo msk keys of
       None \<Rightarrow> None
     | Some (line, keys, o1) \<Rightarrow> Some (line, keys, out @ p @ ln o1))"

text \<open>One turn of the loop of \<open>bootstrap\<close>.\<close>

definition bootstrap_turn :: "'w sp_calls \<Rightarrow> string \<Rightarrow> string \<Rightarrow> 'w \<Rightarrow> 'w dialogue" where
  "bootstrap_turn ops keys out w =
    (case sp_ask ''Novo admin (nome): '' 32 True False keys out of
       None \<Rightarrow> Waits w
     | Some (user, keys, out) \<Rightarrow>
        if spud_len user < 3 then Again (out @ ln ''nome muito curto.'') keys w
        else case sp_ask ''Senha: '' 32 False True keys out of
          None \<Rightarrow> Waits w
        | Some (pass, keys, out) \<Rightarrow>
           (case sp_ask ''Confirme senha: '' 32 False True keys out of
              None \<Rightarrow> Waits w
            | Some (pass2, keys, out) \<Rightarrow>
               if spud_cmp pass pass2 \<noteq> 0 then Again (out @ ln ''senhas nao conferem.'') keys w
               else if spud_len pass < 4 then Again (out @ ln ''senha muito curta (min 4).'') keys w
               else case ss_create ops user pass w of
                 (r, w) \<Rightarrow> if r = 1 then Ends (out @ ln ''Administrador criado. Faca login.'') keys w
                          else Again (out @ ln ''falha ao criar.'') keys w))"

text \<open>The answer 1, 0 or -1 of \<open>ask_contracts\<close>.\<close>

definition ask_contracts :: "'w sp_calls \<Rightarrow> string \<Rightarrow> string \<Rightarrow> 'w \<Rightarrow> (int \<times> string \<times> string) option" where
  "ask_contracts ops keys out w =
    (case ss_contracts ops w of
       None \<Rightarrow> Some (0, keys, out)
     | Some t \<Rightarrow>
        if cstr t = [] then Some (1, keys, out)
        else case sp_ask ''Deseja prosseguir (S/N)? '' 8 True False keys
              (out @ ln '''' @ ln ''Contratos regem o acesso a algumas pastas.'' @ cstr t) of
          None \<Rightarrow> None
        | Some (ans, keys, out) \<Rightarrow>
           Some (if ans \<noteq> [] \<and> hd ans \<in> {CHR ''S'', CHR ''s'', CHR ''Y'', CHR ''y''} then 1 else -1, keys, out))"

definition login_turn :: "'w sp_calls \<Rightarrow> string \<Rightarrow> string \<Rightarrow> 'w \<Rightarrow> 'w dialogue" where
  "login_turn ops keys out w =
    (case sp_ask (CHR 0x0A # ''usuario: '') 32 True False keys out of
       None \<Rightarrow> Waits w
     | Some (user, keys, out) \<Rightarrow>
        (case sp_ask ''senha: '' 32 False True keys out of
           None \<Rightarrow> Waits w
         | Some (pass, keys, out) \<Rightarrow>
            (case ss_login ops user pass w of ((r, tok), w) \<Rightarrow>
               if r \<noteq> 1 then Again (out @ ln ''senha incorreta. Contrato recusado.'') keys w
               else case ask_contracts ops keys out w of
                 None \<Rightarrow> Waits w
               | Some (ca, keys, out) \<Rightarrow>
                  if ca \<noteq> 1 then Again (out @ ln ''Acesso negado: contrato(s) nao aceito(s).'') keys w
                  else case ss_session ops user tok w of (lg, w) \<Rightarrow>
                    if lg \<noteq> 1 then Again (out @ ln ''Acesso negado.'') keys w
                    else let out = out @ ln '''' @ ''Bem-vindo, '' @ ln user in
                      (case ss_exec ops ''/praxis/praxia'' [user] w of
                         (code, w) \<Rightarrow> Ends (out @
                            (if code < 0 then ln ''praxia indisponivel (SYS_EXEC falhou).''
                             else if code = 0 then ln ''sessao encerrada.'' else [])) keys w))))"

lemma sp_ask_shorter: "sp_ask p mx e m keys out = Some (l, keys', out') \<Longrightarrow> length keys' < length keys"
  by (auto simp: sp_ask_def spud_readline_def dest: readline_shorter split: option.splits)

lemma bootstrap_shorter: "bootstrap_turn ops keys out w = Again out' keys' w' \<Longrightarrow> length keys' < length keys"
  unfolding bootstrap_turn_def
  by (auto split: option.splits prod.splits if_splits dest!: sp_ask_shorter)

lemma contracts_shorter: "ask_contracts ops keys out w = Some (r, keys', out') \<Longrightarrow> length keys' \<le> length keys"
  unfolding ask_contracts_def
  by (auto split: option.splits prod.splits if_splits dest!: sp_ask_shorter)

lemma login_shorter: "login_turn ops keys out w = Again out' keys' w' \<Longrightarrow> length keys' < length keys"
  unfolding login_turn_def
  by (auto simp: Let_def split: option.splits prod.splits if_splits dest!: sp_ask_shorter contracts_shorter)

function bootstrap :: "'w sp_calls \<Rightarrow> string \<Rightarrow> string \<Rightarrow> 'w \<Rightarrow> 'w dialogue" where
  "bootstrap ops keys out w =
    (case bootstrap_turn ops keys out w of Again out keys w \<Rightarrow> bootstrap ops keys out w | d \<Rightarrow> d)"
  by pat_completeness auto
termination
  by (relation "measure (\<lambda>(ops, keys, out, w). length keys)") (auto dest: bootstrap_shorter)

function login_dialogue :: "'w sp_calls \<Rightarrow> string \<Rightarrow> string \<Rightarrow> 'w \<Rightarrow> 'w dialogue" where
  "login_dialogue ops keys out w =
    (case login_turn ops keys out w of Again out keys w \<Rightarrow> login_dialogue ops keys out w | d \<Rightarrow> d)"
  by pat_completeness auto
termination
  by (relation "measure (\<lambda>(ops, keys, out, w). length keys)") (auto dest: login_shorter)

declare bootstrap.simps [simp del] login_dialogue.simps [simp del]

definition dash :: string where "dash = [CHR 0xE2, CHR 0x80, CHR 0x94]"

definition spoudazo_main :: "'w sp_calls \<Rightarrow> string \<Rightarrow> 'w \<Rightarrow> 'w dialogue" where
  "spoudazo_main ops keys w =
    (let login = (\<lambda>keys out w. login_dialogue ops keys
           (out @ ln (''=== Siath OS '' @ dash @ '' Login (contrato voluntario) ==='') @
            ln ''Made with love by Thais (op3n/op3ny)'') w)
     in case ss_count ops w of (n, w) \<Rightarrow>
       if n \<noteq> 0 then login keys [] w
       else case bootstrap ops keys (ln (''=== Siath OS '' @ dash @ '' Primeiro acesso ==='') @
              ln ''Nenhum usuario encontrado. Crie o administrador.'') w of
         Ends out keys w \<Rightarrow> login keys out w
       | d \<Rightarrow> d)"

section \<open>How a dialogue ends\<close>

text \<open>A session was opened: a login gave a token in a state of \<open>I\<close>, the contracts were answered, and the
  kernel took name and token.\<close>

definition opened :: "'w sp_calls \<Rightarrow> ('w \<Rightarrow> bool) \<Rightarrow> 'w \<Rightarrow> bool" where
  "opened ops I w' \<longleftrightarrow> (\<exists>u p tok w0 w1 w2. I w0 \<and> typable u \<and> length u \<le> 31 \<and>
     ss_login ops u p w0 = ((1, tok), w1) \<and> ss_contracts ops w1 \<noteq> None \<and> ss_session ops u tok w1 = (1, w2) \<and>
     w' = snd (ss_exec ops ''/praxis/praxia'' [u] w2))"

definition dialogue_ok :: "'w sp_calls \<Rightarrow> ('w \<Rightarrow> bool) \<Rightarrow> 'w dialogue \<Rightarrow> bool" where
  "dialogue_ok ops I d \<longleftrightarrow> (case d of Waits w \<Rightarrow> I w | Again _ _ w \<Rightarrow> I w | Ends _ _ w \<Rightarrow> opened ops I w)"

lemma readline_length: "readline_loop mx e m keys buf out = Some (l, keys', o') \<Longrightarrow> length buf < mx \<Longrightarrow> length l < mx"
  by (induction mx e m keys buf out rule: readline_loop.induct) (auto split: if_splits)

lemma ask_line:
  assumes "sp_ask p mx e m keys out = Some (l, keys', out')" "0 < mx"
  shows "typable l \<and> length l < mx"
  using assms readline_typable [of mx e m keys "[]" "[]" l keys'] readline_length [of mx e m keys "[]" "[]" l keys']
  by (auto simp: sp_ask_def spud_readline_def typable_def split: option.splits)

text \<open>What the calls of a session keep, as long as no session is opened.\<close>

locale session_calls =
  fixes ops :: "'w sp_calls" and I :: "'w \<Rightarrow> bool"
  assumes count_keeps: "I w \<Longrightarrow> I (snd (ss_count ops w))"
    and create_keeps: "length u \<le> 31 \<Longrightarrow> I w \<Longrightarrow> I (snd (ss_create ops u p w))"
    and login_keeps: "length u \<le> 31 \<Longrightarrow> I w \<Longrightarrow> I (snd (ss_login ops u p w))"
    and session_keeps: "length u \<le> 31 \<Longrightarrow> I w \<Longrightarrow> ss_session ops u tok w = (r, w') \<Longrightarrow> r \<noteq> 1 \<Longrightarrow> I w'"
begin

lemma bootstrap_turn_keeps:
  assumes "I w" "bootstrap_turn ops keys out w = d"
  shows "case d of Waits w \<Rightarrow> I w | Again _ _ w \<Rightarrow> I w | Ends _ _ w \<Rightarrow> I w"
proof (cases "sp_ask ''Novo admin (nome): '' 32 True False keys out")
  case None
  then show ?thesis using assms by (auto simp: bootstrap_turn_def)
next
  case (Some a)
  obtain u k1 o1 where a: "a = (u, k1, o1)" by (cases a)
  have u: "length u \<le> 31" using ask_line [OF Some [unfolded a]] by simp
  have c: "I (snd (ss_create ops u p w))" for p by (rule create_keeps [OF u assms(1)])
  have "I w1" if "ss_create ops u p w = (r, w1)" for p r w1 using c [of p] that by simp
  then show ?thesis
    using Some assms by (auto simp: a bootstrap_turn_def split: option.splits prod.splits)
qed

lemma bootstrap_keeps:
  "I w \<Longrightarrow> case bootstrap ops keys out w of Waits w \<Rightarrow> I w | Again _ _ w \<Rightarrow> False | Ends _ _ w \<Rightarrow> I w"
proof (induction "length keys" arbitrary: keys out w rule: less_induct)
  case less
  show ?case
  proof (cases "bootstrap_turn ops keys out w")
    case (Again o1 k1 w1)
    then have "I w1" using bootstrap_turn_keeps [OF less.prems refl, of keys out] by simp
    then show ?thesis using less.hyps [OF bootstrap_shorter [OF Again]] by (subst bootstrap.simps) (simp add: Again)
  qed (use bootstrap_turn_keeps [OF less.prems refl, of keys out] in \<open>subst bootstrap.simps, simp\<close>)+
qed

lemma login_turn_keeps:
  assumes w: "I w"
  shows "dialogue_ok ops I (login_turn ops keys out w)"
proof (cases "sp_ask (CHR 0x0A # ''usuario: '') 32 True False keys out")
  case None
  then show ?thesis using w by (simp add: login_turn_def dialogue_ok_def)
next
  case (Some a)
  obtain u k1 o1 where a: "a = (u, k1, o1)" by (cases a)
  have u: "typable u" "length u \<le> 31" using ask_line [OF Some [unfolded a]] by simp_all
  show ?thesis
  proof (cases "sp_ask ''senha: '' 32 False True k1 o1")
    case None
    then show ?thesis using w Some a by (simp add: login_turn_def dialogue_ok_def)
  next
    case (Some b)
    obtain p k2 o2 where b: "b = (p, k2, o2)" by (cases b)
    obtain r tok w1 where l: "ss_login ops u p w = ((r, tok), w1)" by (metis prod.collapse)
    have w1: "I w1" using login_keeps [OF u(2) w, of p] l by simp
    obtain lg w2 where s: "ss_session ops u tok w1 = (lg, w2)" by fastforce
    have w2: "lg \<noteq> 1 \<Longrightarrow> I w2" using session_keeps [OF u(2) w1 s] .
    have c: "ss_contracts ops w1 \<noteq> None" if "ask_contracts ops k2 o2 w1 = Some (1, k3, o3)" for k3 o3
      using that by (cases "ss_contracts ops w1") (simp_all add: ask_contracts_def)
    have o: "opened ops I (snd (ss_exec ops ''/praxis/praxia'' [u] w2))" if "r = 1" "lg = 1" "ss_contracts ops w1 \<noteq> None"
      unfolding opened_def using w u l s that by blast
    show ?thesis
      using \<open>sp_ask (CHR 0x0A # ''usuario: '') 32 True False keys out = Some a\<close> Some w1 w2 c o
      by (auto simp: a b l s login_turn_def dialogue_ok_def Let_def split: option.splits prod.splits)
  qed
qed

lemma login_keeps_all: "I w \<Longrightarrow> case login_dialogue ops keys out w of Waits w \<Rightarrow> I w | Again _ _ w \<Rightarrow> False | Ends _ _ w \<Rightarrow> opened ops I w"
proof (induction "length keys" arbitrary: keys out w rule: less_induct)
  case less
  show ?case
  proof (cases "login_turn ops keys out w")
    case (Again o1 k1 w1)
    then have "I w1" using login_turn_keeps [OF less.prems, of keys out] by (simp add: dialogue_ok_def)
    then show ?thesis using less.hyps [OF login_shorter [OF Again]] by (subst login_dialogue.simps) (simp add: Again)
  qed (use login_turn_keeps [OF less.prems, of keys out] in \<open>subst login_dialogue.simps, simp add: dialogue_ok_def\<close>)+
qed

lemma main_ends:
  assumes "I w"
  shows "case spoudazo_main ops keys w of Waits w \<Rightarrow> I w | Again _ _ w \<Rightarrow> False | Ends _ _ w \<Rightarrow> opened ops I w"
proof -
  obtain n w1 where c: "ss_count ops w = (n, w1)" by fastforce
  then have w1: "I w1" using count_keeps [OF assms] by simp
  show ?thesis
  proof (cases "n = 0")
    case False
    then show ?thesis using login_keeps_all [OF w1] by (simp add: spoudazo_main_def c)
  next
    case True
    let ?b = "bootstrap ops keys (ln (''=== Siath OS '' @ dash @ '' Primeiro acesso ==='') @
      ln ''Nenhum usuario encontrado. Crie o administrador.'') w1"
    show ?thesis
      using bootstrap_keeps [OF w1, of keys "ln (''=== Siath OS '' @ dash @ '' Primeiro acesso ==='') @
        ln ''Nenhum usuario encontrado. Crie o administrador.''"] login_keeps_all True
      by (cases ?b) (simp_all add: spoudazo_main_def c)
  qed
qed

end

section \<open>With the account service\<close>

text \<open>The calls when \<open>authd\<close> answers them: \<open>e\<close> is what moves between the calls, \<open>others\<close> what other
  programs ask it before each.  The kernel takes a token as in \<open>sys_session_login\<close>.\<close>

definition asked :: "(nat \<Rightarrow> genv) \<Rightarrow> (nat \<Rightarrow> (genv \<times> u32 \<times> client) list) \<Rightarrow> client \<Rightarrow> nat \<times> authd \<Rightarrow> string option \<times> nat \<times> authd" where
  "asked e others c s =
    (case s of (n, st) \<Rightarrow>
      case client_msg c of (type, req) \<Rightarrow>
        case authd_handler (e n) (ucast (ge_pid (e n))) type req (snd (authd_run (others n) st)) of
          (r, st) \<Rightarrow> (r, Suc n, st))"

definition service_calls ::
    "(nat \<Rightarrow> genv) \<Rightarrow> (nat \<Rightarrow> (genv \<times> u32 \<times> client) list) \<Rightarrow> string option \<Rightarrow>
     (string \<Rightarrow> string list \<Rightarrow> nat \<times> authd \<Rightarrow> int \<times> nat \<times> authd) \<Rightarrow> (nat \<times> authd) sp_calls" where
  "service_calls e others ctext exec = \<lparr>
     ss_count = (\<lambda>s. case asked e others CallCount s of (r, s) \<Rightarrow> (spud_auth_count r 0, s)),
     ss_create = (\<lambda>u p s. case asked e others (CallCreate u p) s of (r, s) \<Rightarrow> (reply_flag r 0, s)),
     ss_login = (\<lambda>u p s. case asked e others (CallLogin u p) s of (r, s) \<Rightarrow> (spud_auth_login r 0, s)),
     ss_contracts = (\<lambda>s. ctext),
     ss_session = (\<lambda>u tok s. case s of (n, st) \<Rightarrow>
        if tok = 0 then (if auth_find u (ad_kernel st) = None then 0 else 1, n, st)
        else case auth_ticket_consume u tok (ad_kernel st) of (ok, a) \<Rightarrow> (if ok then 1 else 0, n, st\<lparr>ad_kernel := a\<rparr>)),
     ss_exec = exec\<rparr>"

definition empty_service :: "nat \<times> authd \<Rightarrow> bool" where
  "empty_service s \<longleftrightarrow> ad_accts (snd s) = [] \<and> \<not> ad_admin_authed (snd s)"

lemma run_empty:
  "\<forall>(e, from, c)\<in>set calls. length (cstr (client_name c)) \<le> 35 \<Longrightarrow> ad_accts st = [] \<Longrightarrow> \<not> ad_admin_authed st \<Longrightarrow>
     snd (authd_run calls st) = st"
proof (induction calls)
  case (Cons x calls)
  obtain e frm c where x: "x = (e, frm, c)" by (cases x)
  then obtain r where "authd_handler e frm (fst (client_msg c)) (snd (client_msg c)) st = (Some r, st)"
    using authd_empty [OF Cons.prems(2,3), of c e frm] Cons.prems(1) by auto
  then show ?case using Cons x by (auto split: prod.splits)
qed simp

lemma asked_empty:
  assumes "empty_service s" "\<And>n. \<forall>(e, from, c)\<in>set (others n). length (cstr (client_name c)) \<le> 35"
    "length (cstr (client_name c)) \<le> 35"
  shows "\<exists>r. asked e others c s = (Some r, Suc (fst s), snd s) \<and> ((\<exists>u p. c = CallCreate u p \<or> c = CallLogin u p) \<longrightarrow> r = ''0'')"
proof -
  have e: "ad_accts (snd s) = []" "\<not> ad_admin_authed (snd s)" using assms(1) by (simp_all add: empty_service_def)
  obtain n st where s: "s = (n, st)" by (cases s)
  have r: "snd (authd_run (others n) st) = st" using run_empty [OF assms(2) e] by (simp add: s)
  from authd_empty [OF e assms(3), of "e n" "ucast (ge_pid (e n))"] show ?thesis
    by (cases "client_msg c") (auto simp: asked_def s r)
qed

interpretation from_service: session_calls "service_calls e others ctext exec"
    "\<lambda>s. empty_service s \<and> (\<forall>n. \<forall>(e, from, c)\<in>set (others n). length (cstr (client_name c)) \<le> 35)"
proof (unfold_locales, goal_cases)
  case (1 s)
  then have "\<exists>r. asked e others CallCount s = (Some r, Suc (fst s), snd s)" using asked_empty [of s others CallCount e] by auto
  then show ?case using 1 by (auto simp: service_calls_def empty_service_def)
next
  case (2 u s p)
  then have "length (cstr u) \<le> 35" using length_cstr_le [of u] by linarith
  then have "\<exists>r. asked e others (CallCreate u p) s = (Some r, Suc (fst s), snd s)"
    using asked_empty [of s others "CallCreate u p" e] 2 by auto
  then show ?case using 2 by (auto simp: service_calls_def empty_service_def)
next
  case (3 u s p)
  then have "length (cstr u) \<le> 35" using length_cstr_le [of u] by linarith
  then have "\<exists>r. asked e others (CallLogin u p) s = (Some r, Suc (fst s), snd s)"
    using asked_empty [of s others "CallLogin u p" e] 3 by auto
  then show ?case using 3 by (auto simp: service_calls_def empty_service_def)
next
  case (4 u s tok r s')
  then show ?case
    by (cases s) (auto simp: service_calls_def empty_service_def split: if_splits prod.splits)
qed

text \<open>C33. On the first boot with the account service running, no keys whatever get past the dialogues of the
  session program: it never creates the first account, never opens a session, and goes on asking, whatever
  other programs ask the service in between with names of at most 35 characters.\<close>

theorem first_boot_locked_out:
  assumes "ad_accts st = []" "\<not> ad_admin_authed st"
    "\<And>n. \<forall>(e, from, c)\<in>set (others n). length (cstr (client_name c)) \<le> 35"
  shows "\<exists>m st1. spoudazo_main (service_calls e others ctext exec) keys (n, st) = Waits (m, st1) \<and> ad_accts st1 = []"
proof -
  have I: "empty_service (n, st) \<and> (\<forall>n. \<forall>(e, from, c)\<in>set (others n). length (cstr (client_name c)) \<le> 35)"
    using assms by (simp add: empty_service_def)
  have "\<not> opened (service_calls e others ctext exec)
      (\<lambda>s. empty_service s \<and> (\<forall>n. \<forall>(e, from, c)\<in>set (others n). length (cstr (client_name c)) \<le> 35)) s" for s
  proof
    assume "opened (service_calls e others ctext exec)
      (\<lambda>s. empty_service s \<and> (\<forall>n. \<forall>(e, from, c)\<in>set (others n). length (cstr (client_name c)) \<le> 35)) s"
    then obtain u p tok s0 s1 where o: "empty_service s0" "length u \<le> 31"
        "ss_login (service_calls e others ctext exec) u p s0 = ((1, tok), s1)"
      unfolding opened_def by blast
    then have "length (cstr u) \<le> 35" using length_cstr_le [of u] by linarith
    then have "\<exists>r. asked e others (CallLogin u p) s0 = (Some ''0'', Suc (fst s0), snd s0)"
      using asked_empty [OF o(1) assms(3), of "CallLogin u p" e] by auto
    then show False using o(3) by (auto simp: service_calls_def spud_auth_login_def)
  qed
  then show ?thesis
    using from_service.main_ends [OF I, of e ctext exec keys]
    by (auto simp: empty_service_def split: dialogue.splits)
qed

lemma first_boot_locked_out_witness:
  "\<exists>m st1. spoudazo_main (service_calls (\<lambda>_. still_env) (\<lambda>_. []) (Some '''') (\<lambda>p a s. (0, s)))
     (concat (map ln [''ann'', ''pass'', ''pass''])) (0, no_accounts) = Waits (m, st1) \<and> ad_accts st1 = []"
proof -
  have "ad_accts no_accounts = []" "\<not> ad_admin_authed no_accounts" by (simp_all add: no_accounts_def)
  then show ?thesis by (rule first_boot_locked_out) simp
qed

section \<open>With the kernel's own accounts\<close>

text \<open>The calls when no service \<open>auth\<close> is registered: those of the kernel, on texts instead of addresses.\<close>

definition session_grant :: "string \<Rightarrow> u64 \<Rightarrow> kern \<Rightarrow> int \<times> kern" where
  "session_grant name tok k =
    (let (u, a) = (if tok \<noteq> 0
            then (case auth_ticket_consume name tok (k_auth k) of (ok, a) \<Rightarrow> (if ok then Some Synth else None, a))
            else (map_option Acct (auth_find name (k_auth k)), k_auth k));
         k = k\<lparr>k_auth := a\<rparr>
     in case u of
          None \<Rightarrow> (0, k)
        | Some u \<Rightarrow> (1, k\<lparr>k_pact := grant_all (k_pact k), k_auth := login_set_user (Some u) a,
                         k_sys := raise_rights (ac_caps (user_of a u)) (k_sys k)\<rparr>))"

definition kernel_session :: "(string \<Rightarrow> string list \<Rightarrow> kern \<Rightarrow> int \<times> kern) \<Rightarrow> kern sp_calls" where
  "kernel_session exec = \<lparr>
     ss_count = (\<lambda>k. (int (auth_user_count (k_auth k)), k)),
     ss_create = (\<lambda>u p k.
        if auth_user_count (k_auth k) \<noteq> 0 \<or> strlen u < 3 \<or> strlen p < 4 then (0, k)
        else case auth_create_user u p CAP_ALL True (k_auth k) of (ok, a) \<Rightarrow> (if ok then 1 else 0, k\<lparr>k_auth := a\<rparr>)),
     ss_login = (\<lambda>u p k. ((if auth_verify u p (k_auth k) then 1 else 0, 0), k)),
     ss_contracts = (\<lambda>k. Some (contract_text 2048 (ct_list (k_pact k)) [])),
     ss_session = session_grant,
     ss_exec = exec\<rparr>"

text \<open>These are the results of the system calls for pointers to the texts.\<close>

lemma kernel_session_calls:
  assumes "user_str e a1 32 k = Some u" "user_str e a2 32 k = Some p"
  shows "sys_auth_count k = Ret (word_of_int (fst (ss_count (kernel_session exec) k))) k []"
    "ss_create (kernel_session exec) u p k = (r, k1) \<Longrightarrow> sys_auth_create e a1 a2 k = Ret (word_of_int r) k1 []"
    "ss_login (kernel_session exec) u p k = ((s, tok), k1) \<Longrightarrow> sys_auth_verify e a1 a2 k = Ret (word_of_int s) k1 []"
    "ss_session (kernel_session exec) u tok k = (r, k1) \<Longrightarrow> sys_session_login e a1 1 tok k = Ret (word_of_int r) k1 []"
  using assms
  by (auto simp: kernel_session_def sys_auth_count_def sys_auth_create_def sys_auth_verify_def sys_session_login_def
      session_grant_def with_auth_def of_bool64_def Let_def split: prod.splits option.splits if_splits)

text \<open>The states of the kernel before a session: the one at the start, or the one with the first account.\<close>

definition before_session :: "kern \<Rightarrow> kern \<Rightarrow> bool" where
  "before_session k k1 \<longleftrightarrow> k1 = k \<or>
     (\<exists>u p a. au_accounts (k_auth k) = [] \<and> length u \<le> 31 \<and> auth_create_user u p CAP_ALL True (k_auth k) = (True, a) \<and> k1 = k\<lparr>k_auth := a\<rparr>)"

lemma create_fails: "auth_create_user n p c b a = (False, a') \<Longrightarrow> a' = a"
  by (auto simp: auth_create_user_def split: if_splits prod.splits)

lemma create_counts: "auth_create_user n p c b a = (True, a') \<Longrightarrow> auth_user_count a' \<noteq> 0"
  by (auto simp: auth_create_user_def auth_user_count_def split: if_splits prod.splits)

lemma grant_fails: "session_grant u 0 k = (r, k1) \<Longrightarrow> r \<noteq> 1 \<Longrightarrow> k1 = k"
  by (auto simp: session_grant_def Let_def split: option.splits)

lemma ticket_refused: "auth_ticket_consume n t a = (False, a') \<Longrightarrow> a' = a"
  by (auto simp: auth_ticket_consume_def Let_def split: option.splits if_splits)

interpretation from_kernel: session_calls "kernel_session exec" "before_session k"
proof (unfold_locales, goal_cases)
  case (2 u k1 p)
  have "before_session k (k1\<lparr>k_auth := a\<rparr>)" if "auth_create_user u p CAP_ALL True (k_auth k1) = (ok, a)" "auth_user_count (k_auth k1) = 0" for ok a
  proof (cases ok)
    case True
    have "k1 = k" using 2(2) that(2) by (fastforce simp: before_session_def dest: create_counts)
    then show ?thesis using that 2(1) True by (auto simp: before_session_def auth_user_count_def)
  next
    case False
    then show ?thesis using that(1) create_fails 2(2) by fastforce
  qed
  then show ?case using 2(2) by (auto simp: kernel_session_def split: prod.splits)
next
  case (4 u k1 tok r k2)
  show ?case
  proof (cases "tok = 0")
    case True
    then show ?thesis using 4 grant_fails by (fastforce simp: kernel_session_def)
  next
    case False
    obtain ok a where t: "auth_ticket_consume u tok (k_auth k1) = (ok, a)" by fastforce
    then have "\<not> ok" using 4(3,4) False by (auto simp: kernel_session_def session_grant_def Let_def split: if_splits)
    then have "k2 = k1" using 4(3) False t ticket_refused [of u tok "k_auth k1" a]
      by (auto simp: kernel_session_def session_grant_def Let_def)
    then show ?thesis using 4(2) by simp
  qed
qed (simp_all add: kernel_session_def)

text \<open>C7. Without the service, the session program ends only after a name and a password that the kernel's
  accounts verify.  The kernel it leaves is the one from before with these changes and no others: the first
  account was made, if there was none; every active contract is consented to; the user logged in is that
  account; the caller has the rights of the account besides its own; and then the shell \<open>praxia\<close> was
  executed with the name as its argument, with whatever that call does.\<close>

theorem session_needs_password:
  assumes "spoudazo_main (kernel_session exec) keys k = Ends out keys' k2"
  shows "\<exists>u p k1 i. before_session k k1 \<and> auth_verify u p (k_auth k1) \<and> auth_find u (k_auth k1) = Some i \<and>
    k2 = snd (exec ''/praxis/praxia'' [u] (k1\<lparr>k_pact := grant_all (k_pact k), k_auth := login_set_user (Some (Acct i)) (k_auth k1),
      k_sys := raise_rights (ac_caps (au_accounts (k_auth k1) ! i)) (k_sys k)\<rparr>))"
proof -
  have "before_session k k" by (simp add: before_session_def)
  from from_kernel.main_ends [OF this, of exec keys] assms
  have "opened (kernel_session exec) (before_session k) k2" by simp
  then obtain u p tok k0 k1 k3 where o: "before_session k k0" "ss_login (kernel_session exec) u p k0 = ((1, tok), k1)"
      "ss_session (kernel_session exec) u tok k1 = (1, k3)" "k2 = snd (ss_exec (kernel_session exec) ''/praxis/praxia'' [u] k3)"
    unfolding opened_def by blast
  have l: "k1 = k0" "tok = 0" "auth_verify u p (k_auth k0)"
    using o(2) by (auto simp: kernel_session_def split: if_splits)
  then obtain i where f: "auth_find u (k_auth k0) = Some i" by (auto simp: auth_verify_def split: option.splits)
  have b: "k_pact k0 = k_pact k" "k_sys k0 = k_sys k" using o(1) by (auto simp: before_session_def)
  have "k3 = k0\<lparr>k_pact := grant_all (k_pact k), k_auth := login_set_user (Some (Acct i)) (k_auth k0),
      k_sys := raise_rights (ac_caps (au_accounts (k_auth k0) ! i)) (k_sys k)\<rparr>"
    using o(3) f l b by (simp add: kernel_session_def session_grant_def user_of_def Let_def)
  then show ?thesis using o(1,4) l(3) f by (auto simp: kernel_session_def)
qed

lemma ask_typed:
  assumes "typable l" "length l < mx"
  shows "\<exists>o'. sp_ask p mx e m (ln l @ keys) out = Some (l, keys, o')"
proof -
  obtain o' where "readline_loop mx e m (l @ CHR 0x0A # keys) [] [] = Some ([] @ l, keys, o')"
    using readline_line [of l "[]" mx e m keys "[]"] assms by auto
  then show ?thesis by (simp add: sp_ask_def spud_readline_def ln_def)
qed

lemma typable_len: "typable l \<Longrightarrow> spud_len l = length l" "typable l \<Longrightarrow> strlen l = length l"
  by (simp_all add: spud_len_cstr strlen_cstr typable_cstr)

text \<open>The answer to the contracts, when there are any.\<close>

definition yes :: "kern \<Rightarrow> string" where
  "yes k = (if cstr (contract_text 2048 (ct_list (k_pact k)) []) = [] then [] else ln ''S'')"

lemma contracts_yes: "\<exists>o'. ask_contracts (kernel_session exec) (yes k @ keys) out k = Some (1, keys, o')"
proof (cases "cstr (contract_text 2048 (ct_list (k_pact k)) []) = []")
  case False
  let ?o = "out @ ln '''' @ ln ''Contratos regem o acesso a algumas pastas.'' @
    cstr (contract_text 2048 (ct_list (k_pact k)) [])"
  obtain o' where "sp_ask ''Deseja prosseguir (S/N)? '' 8 True False (ln ''S'' @ keys) ?o = Some (''S'', keys, o')"
    using ask_typed [of "''S''" 8 "''Deseja prosseguir (S/N)? ''" True False keys ?o] by (auto simp: typable_def)
  then show ?thesis using False by (simp add: ask_contracts_def kernel_session_def yes_def)
qed (simp add: ask_contracts_def kernel_session_def yes_def)

definition session_of :: "auth \<Rightarrow> kern \<Rightarrow> kern" where
  "session_of a k = k\<lparr>k_pact := grant_all (k_pact k), k_auth := login_set_user (Some (Acct 0)) a,
     k_sys := raise_rights CAP_ALL (k_sys k)\<rparr>"

lemma first_run:
  assumes ok: "auth_ok (k_auth k)" "au_accounts (k_auth k) = []"
    and u: "typable u" "3 \<le> length u" "length u \<le> 31" and p: "typable p" "4 \<le> length p" "length p \<le> 31"
  shows "\<exists>out a. spoudazo_main (kernel_session exec) (ln u @ ln p @ ln p @ ln u @ ln p @ yes k) k =
      Ends out [] (snd (exec ''/praxis/praxia'' [u] (session_of a k))) \<and> auth_verify u p a"
proof -
  obtain a where a: "auth_create_user u p CAP_ALL True (k_auth k) = (True, a)"
    using ok(2) by (cases "gen_salt (k_auth k)") (auto simp: auth_create_user_def AUTH_USER_MAX_def)
  have "strlen u \<le> 31" using u by (simp add: typable_len)
  note A = auth_create_spec [OF a ok(1) this]
  have v: "auth_verify u p a" "auth_find u a = Some 0" "ac_caps (au_accounts a ! 0) = CAP_ALL"
    using A(2,5) A(3) [of p] ok(2) by simp_all
  let ?k = "k\<lparr>k_auth := a\<rparr>"
  define k1 where "k1 = session_of a k"
  have y: "yes k = yes ?k" by (simp add: yes_def)
  have l: "spud_len u = length u" "spud_len p = length p" "strlen u = length u" "strlen p = length p"
    using u(1) p(1) by (simp_all add: typable_len)
  have L: "length u < 32" "length p < 32" using u(3) p(3) by simp_all
  have c: "ss_create (kernel_session exec) u p k = (1, ?k)"
    using u(2) p(2) l a by (simp add: kernel_session_def auth_user_count_def ok(2))
  have g: "ss_login (kernel_session exec) u p ?k = ((1, 0), ?k)" "ss_session (kernel_session exec) u 0 ?k = (1, k1)"
    using v by (simp_all add: kernel_session_def session_grant_def user_of_def k1_def session_of_def)
  have 1: "\<exists>o'. bootstrap (kernel_session exec) (ln u @ ln p @ ln p @ ks) out k = Ends o' ks ?k" for ks out
  proof -
    obtain o1 where a1: "sp_ask ''Novo admin (nome): '' 32 True False (ln u @ ln p @ ln p @ ks) out = Some (u, ln p @ ln p @ ks, o1)"
      using ask_typed [OF u(1) L(1)] by blast
    obtain o2 where a2: "sp_ask ''Senha: '' 32 False True (ln p @ ln p @ ks) o1 = Some (p, ln p @ ks, o2)"
      using ask_typed [OF p(1) L(2)] by blast
    obtain o3 where a3: "sp_ask ''Confirme senha: '' 32 False True (ln p @ ks) o2 = Some (p, ks, o3)"
      using ask_typed [OF p(1) L(2)] by blast
    show ?thesis using u(2) p(2) by (subst bootstrap.simps) (simp add: bootstrap_turn_def a1 a2 a3 l c spud_cmp_iff)
  qed
  have 2: "\<exists>o'. login_dialogue (kernel_session exec) (ln u @ ln p @ yes k) out ?k = Ends o' [] (snd (exec ''/praxis/praxia'' [u] k1))" for out
  proof -
    obtain o1 where a1: "sp_ask (CHR 0x0A # ''usuario: '') 32 True False (ln u @ ln p @ yes k) out = Some (u, ln p @ yes k, o1)"
      using ask_typed [OF u(1) L(1)] by blast
    obtain o2 where a2: "sp_ask ''senha: '' 32 False True (ln p @ yes k) o1 = Some (p, yes k, o2)"
      using ask_typed [OF p(1) L(2)] by blast
    obtain o3 where a3: "ask_contracts (kernel_session exec) (yes k) o2 ?k = Some (1, [], o3)"
      using contracts_yes [of exec ?k "[]" o2] y by auto
    have x: "ss_exec (kernel_session exec) = exec" by (simp add: kernel_session_def)
    obtain code k2 where e: "exec ''/praxis/praxia'' [u] k1 = (code, k2)" by fastforce
    show ?thesis by (subst login_dialogue.simps) (simp add: login_turn_def a1 a2 a3 g x e Let_def)
  qed
  have n: "ss_count (kernel_session exec) k = (0, k)" by (simp add: kernel_session_def auth_user_count_def ok(2))
  obtain o1 where b: "bootstrap (kernel_session exec) (ln u @ ln p @ ln p @ ln u @ ln p @ yes k)
      (ln (''=== Siath OS '' @ dash @ '' Primeiro acesso ==='') @ ln ''Nenhum usuario encontrado. Crie o administrador.'') k =
      Ends o1 (ln u @ ln p @ yes k) ?k"
    using 1 by blast
  obtain o2 where o2: "login_dialogue (kernel_session exec) (ln u @ ln p @ yes k)
      (o1 @ ln (''=== Siath OS '' @ dash @ '' Login (contrato voluntario) ==='') @ ln ''Made with love by Thais (op3n/op3ny)'') ?k =
      Ends o2 [] (snd (exec ''/praxis/praxia'' [u] k1))"
    using 2 by blast
  have "spoudazo_main (kernel_session exec) (ln u @ ln p @ ln p @ ln u @ ln p @ yes k) k =
      Ends o2 [] (snd (exec ''/praxis/praxia'' [u] k1))"
    by (simp only: spoudazo_main_def Let_def n prod.case simp_thms if_False b dialogue.case o2)
  then show ?thesis using v(1) by (auto simp: k1_def)
qed

text \<open>A machine without accounts: typing a name and a password twice, then both again and an answer to the
  contracts, ends in a session of that account with all rights.\<close>

theorem first_session:
  assumes "auth_ok (k_auth k)" "au_accounts (k_auth k) = []" "typable u" "3 \<le> length u" "length u \<le> 31"
    "typable p" "4 \<le> length p" "length p \<le> 31"
  shows "\<exists>out k1. spoudazo_main (kernel_session exec) (ln u @ ln p @ ln p @ ln u @ ln p @ yes k) k =
      Ends out [] (snd (exec ''/praxis/praxia'' [u] k1)) \<and>
    k_sys k1 = raise_rights CAP_ALL (k_sys k) \<and> au_current (k_auth k1) = Some (Acct 0) \<and> auth_verify u p (k_auth k1)"
proof -
  obtain out a where r: "spoudazo_main (kernel_session exec) (ln u @ ln p @ ln p @ ln u @ ln p @ yes k) k =
      Ends out [] (snd (exec ''/praxis/praxia'' [u] (session_of a k)))" "auth_verify u p a"
    using first_run [OF assms] by blast
  show ?thesis
    by (rule exI [of _ out], rule exI [of _ "session_of a k"])
       (use r in \<open>simp add: session_of_def login_set_user_def auth_verify_set_user [unfolded login_set_user_def]\<close>)
qed

section \<open>Examples\<close>

lemma ann_typed: "typable ''ann''" "typable ''pass''"
  by (simp_all add: typable_def)

lemma demo_no_accounts: "auth_ok (k_auth demo_kern)" "au_accounts (k_auth demo_kern) = []"
  using zero_auth_ok by (simp_all add: demo_kern_def zero_auth_def)

lemma session_needs_password_witness:
  "\<exists>k1 u p. before_session demo_kern k1 \<and> auth_verify u p (k_auth k1)"
proof -
  obtain out a where r: "spoudazo_main (kernel_session (\<lambda>p a k. (0, k)))
      (ln ''ann'' @ ln ''pass'' @ ln ''pass'' @ ln ''ann'' @ ln ''pass'' @ yes demo_kern) demo_kern =
      Ends out [] (session_of a demo_kern)"
    using first_run [OF demo_no_accounts ann_typed(1) _ _ ann_typed(2), of "\<lambda>p a k. (0, k)"] by auto
  from session_needs_password [OF r] show ?thesis by blast
qed

lemma first_session_witness:
  "\<exists>out k1. spoudazo_main (kernel_session (\<lambda>p a k. (0, k)))
      (ln ''ann'' @ ln ''pass'' @ ln ''pass'' @ ln ''ann'' @ ln ''pass'' @ yes demo_kern) demo_kern = Ends out [] k1 \<and>
    k_sys k1 = raise_rights CAP_ALL (k_sys demo_kern)"
  using first_session [OF demo_no_accounts ann_typed(1) _ _ ann_typed(2), of "\<lambda>p a k. (0, k)"] by auto

end
