(* ===== verification/Loader.thy ===== *)
theory Loader
  imports Exec
begin

text \<open>
  The boot loader, src/boot/thaisboot/main.c: it reads kernel.elf, copies its segments,
  builds the page tables, fills the boot record and jumps.

  What the firmware answers is a record of values and functions; a call that fails stops
  the loader with its message.  Physical memory is a function from addresses to bytes,
  the tables are those of \<open>Paging\<close>.  A read behind the bytes read from the file is
  \<open>LoadFault\<close>.
\<close>

unbundle bit_operations_syntax

section \<open>The kernel file\<close>

record lphdr =
  lp_offset :: u64
  lp_vaddr :: u64
  lp_filesz :: u64
  lp_memsz :: u64

text \<open>The loadable headers from index \<open>i\<close>; none when one is not in the file.\<close>

function load_phdrs :: "string \<Rightarrow> u64 \<Rightarrow> u64 \<Rightarrow> nat \<Rightarrow> nat \<Rightarrow> lphdr list option" where
  "load_phdrs img phoff phentsz phnum i =
    (if phnum \<le> i then Some []
     else let ph = phoff + of_nat i * phentsz in
       if \<not> in_image img ph 4 then None
       else if u32_at img ph \<noteq> 1 then load_phdrs img phoff phentsz phnum (Suc i)
       else if \<not> in_image img ph 48 then None
       else map_option (\<lambda>ls. \<lparr>lp_offset = u64_at img (ph + 8), lp_vaddr = u64_at img (ph + 16),
              lp_filesz = u64_at img (ph + 32), lp_memsz = u64_at img (ph + 40)\<rparr> # ls)
            (load_phdrs img phoff phentsz phnum (Suc i)))"
  by pat_completeness auto
termination
  by (relation "measure (\<lambda>(img, phoff, phentsz, phnum, i). phnum - i)") auto

declare load_phdrs.simps [simp del]

text \<open>The lowest address and the highest end of the segments.\<close>

definition kernel_span :: "lphdr list \<Rightarrow> u64 \<times> u64" where
  "kernel_span phs = fold (\<lambda>ph (base, top).
      (if base = 0 \<or> lp_vaddr ph < base then lp_vaddr ph else base,
       if top < lp_vaddr ph + lp_memsz ph then lp_vaddr ph + lp_memsz ph else top)) phs (0, 0)"

text \<open>One segment: its memory cleared, then the bytes of the file.\<close>

definition copy_segment :: "string \<Rightarrow> u64 \<Rightarrow> u64 \<Rightarrow> lphdr \<Rightarrow> (u64 \<Rightarrow> char) \<Rightarrow> (u64 \<Rightarrow> char) option" where
  "copy_segment img kphys kbase ph mem =
    (let dst = kphys + (lp_vaddr ph - kbase) in
     if lp_filesz ph \<noteq> 0 \<and> length img < unat (lp_offset ph) + unat (lp_filesz ph) then None
     else Some (\<lambda>a. let j = a - dst in
       if j < lp_filesz ph then img ! unat (lp_offset ph + j) else if j < lp_memsz ph then NUL else mem a))"

fun copy_segments :: "string \<Rightarrow> u64 \<Rightarrow> u64 \<Rightarrow> lphdr list \<Rightarrow> (u64 \<Rightarrow> char) \<Rightarrow> (u64 \<Rightarrow> char) option" where
  "copy_segments img kphys kbase [] mem = Some mem"
| "copy_segments img kphys kbase (ph # phs) mem =
    (case copy_segment img kphys kbase ph mem of None \<Rightarrow> None | Some mem \<Rightarrow> copy_segments img kphys kbase phs mem)"

section \<open>The page tables\<close>

text \<open>The addresses of the eight tables, in the order they are allocated.\<close>

record ltables =
  lt_pml4 :: u64
  lt_pdpt_id :: u64
  lt_pd0 :: u64
  lt_pd1 :: u64
  lt_pd2 :: u64
  lt_pd3 :: u64
  lt_pdpt_hh :: u64
  lt_pd_hh :: u64

definition clear_table :: "u64 \<Rightarrow> ptmem \<Rightarrow> ptmem" where "clear_table t pt = pt(t := \<lambda>_. 0)"

text \<open>The entries of one directory of the identity map.\<close>

definition fill_identity :: "u64 \<Rightarrow> nat \<Rightarrow> ptmem \<Rightarrow> ptmem" where
  "fill_identity t first pt =
    fold (\<lambda>i. pt_write t i (push_bit 21 (of_nat (first + i)) OR 0x83)) [0..<512] pt"

definition fill_kernel :: "u64 \<Rightarrow> u64 \<Rightarrow> u64 \<Rightarrow> ptmem \<Rightarrow> ptmem" where
  "fill_kernel t kphys img_2mb pt =
    fold (\<lambda>i. pt_write t i ((kphys + of_nat i * 0x200000) OR 0x83)) [0..<min (unat (img_2mb + 1)) 512] pt"

definition build_tables :: "ltables \<Rightarrow> u64 \<Rightarrow> u64 \<Rightarrow> ptmem \<Rightarrow> ptmem" where
  "build_tables t kphys img_2mb pt =
    (let pt = fold clear_table [lt_pml4 t, lt_pdpt_id t, lt_pd0 t, lt_pd1 t, lt_pd2 t, lt_pd3 t, lt_pdpt_hh t, lt_pd_hh t] pt;
         pt = fill_identity (lt_pd0 t) 0 pt;
         pt = fill_identity (lt_pd1 t) 512 pt;
         pt = fill_identity (lt_pd2 t) 1024 pt;
         pt = fill_identity (lt_pd3 t) 1536 pt;
         pt = fill_kernel (lt_pd_hh t) kphys img_2mb pt;
         pt = pt_write (lt_pdpt_id t) 0 (lt_pd0 t OR 3) pt;
         pt = pt_write (lt_pdpt_id t) 1 (lt_pd1 t OR 3) pt;
         pt = pt_write (lt_pdpt_id t) 2 (lt_pd2 t OR 3) pt;
         pt = pt_write (lt_pdpt_id t) 3 (lt_pd3 t OR 3) pt;
         pt = pt_write (lt_pdpt_hh t) 0x1FE (lt_pd_hh t OR 3) pt;
         pt = pt_write (lt_pml4 t) 0 (lt_pdpt_id t OR 3) pt
     in pt_write (lt_pml4 t) 0x1FF (lt_pdpt_hh t OR 3) pt)"

section \<open>The loader\<close>

text \<open>A descriptor of the firmware's memory map: type, start, pages.  The screen: address, width, height,
  pixels per line.  \<open>fw_pages\<close> gives the address of the allocation with this number, for so many pages.\<close>

record firmware =
  fw_image :: bool
  fw_fs :: bool
  fw_volume :: bool
  fw_open :: bool
  fw_pool :: bool
  fw_read :: "string option"
  fw_pages :: "nat \<Rightarrow> u64 \<Rightarrow> u64 option"
  fw_gop :: "(u64 \<times> u32 \<times> u32 \<times> u32) option"
  fw_map :: "(u32 \<times> u64 \<times> u64) list option"
  fw_exit :: bool
  fw_stack :: u64

record loaded =
  ld_info :: boot_info
  ld_pitch :: u64
  ld_hhdm :: u64
  ld_virt :: u64
  ld_root :: u64
  ld_entry :: u64
  ld_tables :: ptmem
  ld_mem :: "u64 \<Rightarrow> char"

datatype load_res = LoadPanic string | LoadFault | Jumps loaded

definition boot_map :: "(u32 \<times> u64 \<times> u64) list \<Rightarrow> (u64 \<times> u64 \<times> u32) list" where
  "boot_map ds = map (\<lambda>(typ, start, pages). (start, push_bit 12 pages, if typ = 7 then 1 else 2)) (take 256 ds)"

definition BOOT_INFO_SIZE :: u64 where "BOOT_INFO_SIZE = 6248"

definition fill_info :: "firmware \<Rightarrow> u64 \<Rightarrow> u64 \<Rightarrow> boot_info" where
  "fill_info fw kphys img_size =
    \<lparr>memmap = (case fw_map fw of None \<Rightarrow> [] | Some ds \<Rightarrow> boot_map ds), kernel_phys = kphys,
     kernel_size = (img_size + 0xFFF) AND NOT 0xFFF,
     fb_addr = (case fw_gop fw of None \<Rightarrow> 0 | Some (a, w, h, l) \<Rightarrow> a),
     fb_width = (case fw_gop fw of None \<Rightarrow> 0 | Some (a, w, h, l) \<Rightarrow> ucast w),
     fb_height = (case fw_gop fw of None \<Rightarrow> 0 | Some (a, w, h, l) \<Rightarrow> ucast h),
     fb_bpp = (case fw_gop fw of None \<Rightarrow> 0 | Some _ \<Rightarrow> 32), bi_addr = fw_stack fw, bi_size = BOOT_INFO_SIZE\<rparr>"

text \<open>The eight allocations for the tables, each with its panic.\<close>

definition alloc_tables :: "(nat \<Rightarrow> u64 \<Rightarrow> u64 option) \<Rightarrow> string + ltables" where
  "alloc_tables pages =
    (case pages 1 1 of None \<Rightarrow> Inl ''pml4'' | Some t1 \<Rightarrow>
     case pages 2 1 of None \<Rightarrow> Inl ''pdpt_id'' | Some t2 \<Rightarrow>
     case pages 3 1 of None \<Rightarrow> Inl ''pd_id0'' | Some t3 \<Rightarrow>
     case pages 4 1 of None \<Rightarrow> Inl ''pd_id1'' | Some t4 \<Rightarrow>
     case pages 5 1 of None \<Rightarrow> Inl ''pd_id2'' | Some t5 \<Rightarrow>
     case pages 6 1 of None \<Rightarrow> Inl ''pd_id3'' | Some t6 \<Rightarrow>
     case pages 7 1 of None \<Rightarrow> Inl ''pdpt_hh'' | Some t7 \<Rightarrow>
     case pages 8 1 of None \<Rightarrow> Inl ''pd_hh'' | Some t8 \<Rightarrow>
       Inr \<lparr>lt_pml4 = t1, lt_pdpt_id = t2, lt_pd0 = t3, lt_pd1 = t4, lt_pd2 = t5, lt_pd3 = t6,
            lt_pdpt_hh = t7, lt_pd_hh = t8\<rparr>)"

text \<open>The file is read into 16 MB; an address range of 2 MB steps is taken from one allocation.\<close>

definition load_kernel :: "firmware \<Rightarrow> string \<Rightarrow> ptmem \<Rightarrow> (u64 \<Rightarrow> char) \<Rightarrow> load_res" where
  "load_kernel fw img pt mem =
    (case load_phdrs img (u64_at img 32) (u16_at img 54) (unat (u16_at img 56)) 0 of
       None \<Rightarrow> LoadFault
     | Some phs \<Rightarrow>
        let (kbase, ktop) = kernel_span phs; img_size = ktop - kbase; img_2mb = drop_bit 21 (img_size + 0x1FFFFF) in
        case fw_pages fw 0 ((img_2mb + 1) * 512) of
          None \<Rightarrow> LoadPanic ''alloc kernel''
        | Some a \<Rightarrow>
           let kphys = (a + 0x1FFFFF) AND NOT 0x1FFFFF in
           case copy_segments img kphys kbase phs mem of
             None \<Rightarrow> LoadFault
           | Some mem \<Rightarrow>
              (case alloc_tables (fw_pages fw) of
                 Inl msg \<Rightarrow> LoadPanic msg
               | Inr t \<Rightarrow>
                  if \<not> fw_exit fw then LoadPanic ''exitbs''
                  else Jumps \<lparr>ld_info = fill_info fw kphys img_size,
                    ld_pitch = (case fw_gop fw of None \<Rightarrow> 0 | Some (a, w, h, l) \<Rightarrow> ucast (l * 4)),
                    ld_hhdm = 0xffffffff80000000, ld_virt = kbase, ld_root = lt_pml4 t, ld_entry = u64_at img 24,
                    ld_tables = build_tables t kphys img_2mb pt, ld_mem = mem\<rparr>))"

definition efi_main :: "firmware \<Rightarrow> ptmem \<Rightarrow> (u64 \<Rightarrow> char) \<Rightarrow> load_res" where
  "efi_main fw pt mem =
    (if \<not> fw_image fw then LoadPanic ''loaded image''
     else if \<not> fw_fs fw then LoadPanic ''fs proto''
     else if \<not> fw_volume fw then LoadPanic ''open vol''
     else if \<not> fw_open fw then LoadPanic ''kernel.elf nao encontrado''
     else if \<not> fw_pool fw then LoadPanic ''pool''
     else case fw_read fw of
       None \<Rightarrow> LoadPanic ''read kernel''
     | Some file \<Rightarrow>
        let img = take (16 * 1024 * 1024) file in
        if length img < 64 then LoadPanic ''kernel vazio''
        else if u32_at img 0 \<noteq> 0x464C457F \<or> at img 4 \<noteq> CHR 0x02 then LoadPanic ''elf invalido''
        else if u16_at img 18 \<noteq> 0x3E then LoadPanic ''elf nao x86_64''
        else load_kernel fw img pt mem)"

section \<open>Address translation\<close>

text \<open>What the processor makes of an address with four levels of tables and large pages.\<close>

definition translate :: "ptmem \<Rightarrow> u64 \<Rightarrow> u64 \<Rightarrow> u64 option" where
  "translate pt root v =
    (let e4 = pt root (idx_l4 v) in if \<not> present e4 then None
     else let e3 = pt (e4 AND PTE_ADDR) (idx_l3 v) in if \<not> present e3 then None
     else if huge e3 then Some ((e3 AND 0x000FFFFFC0000000) + (v AND 0x3FFFFFFF))
     else let e2 = pt (e3 AND PTE_ADDR) (idx_l2 v) in if \<not> present e2 then None
     else if huge e2 then Some ((e2 AND 0x000FFFFFFFE00000) + (v AND 0x1FFFFF))
     else let e1 = pt (e2 AND PTE_ADDR) (idx_l1 v) in if \<not> present e1 then None
     else Some ((e1 AND PTE_ADDR) + (v AND 0xFFF)))"

section \<open>The tables built\<close>

lemma fold_pt_write:
  "fold (\<lambda>i. pt_write t i (f i)) [a..<b] pt t' j = (if t' = t \<and> a \<le> j \<and> j < b then f j else pt t' j)"
  by (induction b) (auto simp: pt_write_apply)

lemma fill_identity_apply:
  "fill_identity t first pt t' j = (if t' = t \<and> j < 512 then push_bit 21 (of_nat (first + j)) OR 0x83 else pt t' j)"
  by (simp add: fill_identity_def fold_pt_write)

lemma fill_kernel_apply:
  "fill_kernel t kphys n pt t' j =
    (if t' = t \<and> j < min (unat (n + 1)) 512 then (kphys + of_nat j * 0x200000) OR 0x83 else pt t' j)"
  by (simp add: fill_kernel_def fold_pt_write)

definition tables_ok :: "ltables \<Rightarrow> bool" where
  "tables_ok t \<longleftrightarrow> distinct [lt_pml4 t, lt_pdpt_id t, lt_pd0 t, lt_pd1 t, lt_pd2 t, lt_pd3 t, lt_pdpt_hh t, lt_pd_hh t] \<and>
     list_all (\<lambda>a. a AND PTE_ADDR = a) [lt_pml4 t, lt_pdpt_id t, lt_pd0 t, lt_pd1 t, lt_pd2 t, lt_pd3 t, lt_pdpt_hh t, lt_pd_hh t]"

lemma tables_built:
  fixes t :: ltables and kphys n :: u64 and pt :: ptmem
  assumes "tables_ok t"
  defines "B \<equiv> build_tables t kphys n pt"
  shows "B (lt_pml4 t) 0 = lt_pdpt_id t OR 3" "B (lt_pml4 t) 0x1FF = lt_pdpt_hh t OR 3"
    "B (lt_pdpt_id t) 0 = lt_pd0 t OR 3" "B (lt_pdpt_id t) 1 = lt_pd1 t OR 3"
    "B (lt_pdpt_id t) 2 = lt_pd2 t OR 3" "B (lt_pdpt_id t) 3 = lt_pd3 t OR 3"
    "B (lt_pdpt_hh t) 0x1FE = lt_pd_hh t OR 3"
    "i < 512 \<Longrightarrow> B (lt_pd0 t) i = push_bit 21 (of_nat i) OR 0x83"
    "i < 512 \<Longrightarrow> B (lt_pd1 t) i = push_bit 21 (of_nat (512 + i)) OR 0x83"
    "i < 512 \<Longrightarrow> B (lt_pd2 t) i = push_bit 21 (of_nat (1024 + i)) OR 0x83"
    "i < 512 \<Longrightarrow> B (lt_pd3 t) i = push_bit 21 (of_nat (1536 + i)) OR 0x83"
    "i < min (unat (n + 1)) 512 \<Longrightarrow> B (lt_pd_hh t) i = (kphys + of_nat i * 0x200000) OR 0x83"
proof -
  have n: "lt_pml4 t \<noteq> lt_pdpt_id t" "lt_pml4 t \<noteq> lt_pd0 t" "lt_pml4 t \<noteq> lt_pd1 t" "lt_pml4 t \<noteq> lt_pd2 t"
    "lt_pml4 t \<noteq> lt_pd3 t" "lt_pml4 t \<noteq> lt_pdpt_hh t" "lt_pml4 t \<noteq> lt_pd_hh t" "lt_pdpt_id t \<noteq> lt_pd0 t"
    "lt_pdpt_id t \<noteq> lt_pd1 t" "lt_pdpt_id t \<noteq> lt_pd2 t" "lt_pdpt_id t \<noteq> lt_pd3 t" "lt_pdpt_id t \<noteq> lt_pdpt_hh t"
    "lt_pdpt_id t \<noteq> lt_pd_hh t" "lt_pd0 t \<noteq> lt_pd1 t" "lt_pd0 t \<noteq> lt_pd2 t" "lt_pd0 t \<noteq> lt_pd3 t"
    "lt_pd0 t \<noteq> lt_pdpt_hh t" "lt_pd0 t \<noteq> lt_pd_hh t" "lt_pd1 t \<noteq> lt_pd2 t" "lt_pd1 t \<noteq> lt_pd3 t"
    "lt_pd1 t \<noteq> lt_pdpt_hh t" "lt_pd1 t \<noteq> lt_pd_hh t" "lt_pd2 t \<noteq> lt_pd3 t" "lt_pd2 t \<noteq> lt_pdpt_hh t"
    "lt_pd2 t \<noteq> lt_pd_hh t" "lt_pd3 t \<noteq> lt_pdpt_hh t" "lt_pd3 t \<noteq> lt_pd_hh t" "lt_pdpt_hh t \<noteq> lt_pd_hh t"
    using assms(1) by (simp_all add: tables_ok_def)
  note simps = n n [THEN not_sym] B_def build_tables_def Let_def pt_write_apply fill_identity_apply fill_kernel_apply
    clear_table_def
  show "B (lt_pml4 t) 0 = lt_pdpt_id t OR 3" "B (lt_pml4 t) 0x1FF = lt_pdpt_hh t OR 3"
    "B (lt_pdpt_id t) 0 = lt_pd0 t OR 3" "B (lt_pdpt_id t) 1 = lt_pd1 t OR 3"
    "B (lt_pdpt_id t) 2 = lt_pd2 t OR 3" "B (lt_pdpt_id t) 3 = lt_pd3 t OR 3"
    "B (lt_pdpt_hh t) 0x1FE = lt_pd_hh t OR 3"
    by (simp_all add: simps)
  show "i < 512 \<Longrightarrow> B (lt_pd0 t) i = push_bit 21 (of_nat i) OR 0x83"
    "i < 512 \<Longrightarrow> B (lt_pd1 t) i = push_bit 21 (of_nat (512 + i)) OR 0x83"
    "i < 512 \<Longrightarrow> B (lt_pd2 t) i = push_bit 21 (of_nat (1024 + i)) OR 0x83"
    "i < 512 \<Longrightarrow> B (lt_pd3 t) i = push_bit 21 (of_nat (1536 + i)) OR 0x83"
    "i < min (unat (n + 1)) 512 \<Longrightarrow> B (lt_pd_hh t) i = (kphys + of_nat i * 0x200000) OR 0x83"
    by (simp_all add: simps del: of_nat_add)
qed

lemma link_entry:
  assumes "a AND PTE_ADDR = a"
  shows "present (a OR 3)" "\<not> huge (a OR 3)" "(a OR 3) AND PTE_ADDR = a"
proof -
  have "(a OR 3) AND 1 = (a AND 1) OR 1" "(a OR 3) AND 0x80 = a AND 0x80" "(a OR 3) AND PTE_ADDR = (a AND PTE_ADDR)"
    by (simp_all add: bit.conj_disj_distrib2 PTE_ADDR_def)
  then show "present (a OR 3)" "\<not> huge (a OR 3)" "(a OR 3) AND PTE_ADDR = a"
    using assms and_PTE_addr_0 [OF assms, where m = "0x80"] by (simp_all add: PTE_ADDR_def)
qed

lemma large_entry:
  fixes m :: nat
  assumes "m < 2 ^ 31"
  shows "present (push_bit 21 (of_nat m) OR 0x83)" "huge (push_bit 21 (of_nat m) OR 0x83)"
    "(push_bit 21 (of_nat m) OR 0x83) AND 0x000FFFFFFFE00000 = (push_bit 21 (of_nat m) :: u64)"
proof -
  let ?a = "push_bit 21 (of_nat m) :: u64"
  have "(?a OR 0x83) AND 1 = (?a AND 1) OR 1" "(?a OR 0x83) AND 0x80 = (?a AND 0x80) OR 0x80"
    by (simp_all add: bit.conj_disj_distrib2)
  then show "present (?a OR 0x83)" "huge (?a OR 0x83)" by simp_all
  have e: "(0x000FFFFFFFE00000 :: u64) = push_bit 21 (mask 31)" by (simp add: mask_eq_exp_minus_1)
  have "(of_nat m :: u64) AND mask 31 = of_nat m"
    using assms by (simp add: take_bit_eq_mask [symmetric] take_bit_of_nat take_bit_nat_eq_self)
  then have "?a AND 0x000FFFFFFFE00000 = ?a" unfolding e by (metis push_bit_and)
  then show "(?a OR 0x83) AND 0x000FFFFFFFE00000 = ?a" by (simp add: bit.conj_disj_distrib2)
qed

lemma pt_index_nat: "pt_index sh v = unat v div 2 ^ sh mod 512"
proof -
  have "drop_bit sh v AND 0x1FF = drop_bit sh v mod 2 ^ 9" using take_bit_eq_mask [of 9 "drop_bit sh v"] by (simp add: take_bit_eq_mod mask_eq_exp_minus_1)
  then show ?thesis by (simp add: pt_index_def unat_drop_bit unat_word_ariths unat_mod_distrib)
qed

lemma translate_large:
  assumes "pt root (idx_l4 v) = l3 OR 3" "l3 AND PTE_ADDR = l3" "pt l3 (idx_l3 v) = l2 OR 3" "l2 AND PTE_ADDR = l2"
    "pt l2 (idx_l2 v) = push_bit 21 (of_nat m) OR 0x83" "m < 2 ^ 31"
  shows "translate pt root v = Some (of_nat (m * 2 ^ 21 + unat v mod 2 ^ 21))"
proof -
  have "v AND 0x1FFFFF = v mod 2 ^ 21"
    using take_bit_eq_mask [of 21 v] by (simp add: take_bit_eq_mod mask_eq_exp_minus_1)
  then have o: "v AND 0x1FFFFF = of_nat (unat v mod 2 ^ 21)"
    by (simp add: word_arith_nat_mod)
  have p: "push_bit 21 (of_nat m) = (of_nat (m * 2 ^ 21) :: u64)" by (simp add: push_bit_eq_mult)
  show ?thesis
    unfolding translate_def Let_def assms(1) link_entry [OF assms(2)] assms(3) link_entry [OF assms(4)] assms(5)
      large_entry [OF assms(6)]
    using link_entry [OF assms(2)] link_entry [OF assms(4)] large_entry [OF assms(6)]
    by (simp add: o p)
qed

lemma translate_low:
  assumes t: "tables_ok t" and v: "unat v < 2 ^ 32"
  shows "translate (build_tables t kphys n pt) (lt_pml4 t) v = Some v"
proof -
  let ?B = "build_tables t kphys n pt"
  note B = tables_built [OF t, where kphys = kphys and n = n and pt = pt]
  have a: "x AND PTE_ADDR = x" if "x \<in> {lt_pdpt_id t, lt_pd0 t, lt_pd1 t, lt_pd2 t, lt_pd3 t}" for x
    using t that by (auto simp: tables_ok_def)
  have i4: "idx_l4 v = 0" using v by (simp add: pt_index_nat)
  let ?m = "unat v div 2 ^ 21" and ?k = "unat v div 2 ^ 30"
  have k: "idx_l3 v = ?k" "?k < 4" using v by (simp_all add: pt_index_nat)
  have i2: "idx_l2 v = ?m mod 512" by (simp add: pt_index_nat)
  have "?m div 512 = ?k" by (simp flip: div_mult2_eq)
  then have m: "?m = ?k * 512 + ?m mod 512" using div_mult_mod_eq [of ?m 512] by simp
  have lt: "?m mod 512 < 512" by simp
  have dir: "\<exists>l2\<in>{lt_pd0 t, lt_pd1 t, lt_pd2 t, lt_pd3 t}. ?B (lt_pdpt_id t) ?k = l2 OR 3 \<and>
      ?B l2 (?m mod 512) = push_bit 21 (of_nat (?k * 512 + ?m mod 512)) OR 0x83"
  proof -
    consider "?k = 0" | "?k = 1" | "?k = 2" | "?k = 3" using k(2) by linarith
    then show ?thesis
    proof cases
      case 1 then show ?thesis using B(3) B(8) [OF lt] by (intro bexI [of _ "lt_pd0 t"]) (simp_all only: mult_0 add_0 insert_iff simp_thms)
    next
      case 2 then show ?thesis using B(4) B(9) [OF lt] by (intro bexI [of _ "lt_pd1 t"]) (simp_all only: mult_1 insert_iff simp_thms)
    next
      case 3
      have "2 * 512 = (1024 :: nat)" by simp
      then show ?thesis using B(5) B(10) [OF lt] 3 by (intro bexI [of _ "lt_pd2 t"]) (simp_all only: insert_iff simp_thms)
    next
      case 4
      have "3 * 512 = (1536 :: nat)" by simp
      then show ?thesis using B(6) B(11) [OF lt] 4 by (intro bexI [of _ "lt_pd3 t"]) (simp_all only: insert_iff simp_thms)
    qed
  qed
  then obtain l2 where l2: "l2 \<in> {lt_pd0 t, lt_pd1 t, lt_pd2 t, lt_pd3 t}" "?B (lt_pdpt_id t) ?k = l2 OR 3"
      "?B l2 (?m mod 512) = push_bit 21 (of_nat ?m) OR 0x83" using m by metis
  have "translate ?B (lt_pml4 t) v = Some (of_nat (?m * 2 ^ 21 + unat v mod 2 ^ 21))"
    by (rule translate_large [of _ _ _ "lt_pdpt_id t" l2])
       (use l2 a B(1) v in \<open>auto simp: i4 k(1) i2\<close>)
  also have "?m * 2 ^ 21 + unat v mod 2 ^ 21 = unat v" by (rule div_mult_mod_eq)
  finally show ?thesis by simp
qed

text \<open>The addresses the kernel is linked at.\<close>

definition KERNEL_VMA :: u64 where "KERNEL_VMA = 0xffffffff80000000"

lemma translate_kernel:
  assumes t: "tables_ok t" and o: "unat off < min (unat (n + 1)) 512 * 2 ^ 21"
    and k: "unat kphys mod 2 ^ 21 = 0" "unat kphys + unat off < 2 ^ 52"
  shows "translate (build_tables t kphys n pt) (lt_pml4 t) (KERNEL_VMA + off) = Some (kphys + off)"
proof -
  let ?B = "build_tables t kphys n pt" and ?v = "KERNEL_VMA + off"
  note B = tables_built [OF t, where kphys = kphys and n = n and pt = pt]
  have a: "lt_pdpt_hh t AND PTE_ADDR = lt_pdpt_hh t" "lt_pd_hh t AND PTE_ADDR = lt_pd_hh t"
    using t by (simp_all add: tables_ok_def)
  let ?i = "unat off div 2 ^ 21"
  have i: "?i < min (unat (n + 1)) 512" using o by (simp add: less_mult_imp_div_less)
  have "min (unat (n + 1)) 512 * 2 ^ 21 \<le> 512 * 2 ^ 21" by (rule mult_le_mono1) simp
  from less_le_trans [OF o this] have lt: "unat off < 2 ^ 30" by simp
  have v: "unat ?v = 2 ^ 64 - 2 ^ 31 + unat off"
    using lt by (simp add: KERNEL_VMA_def unat_plus_if')
  have d: "(2 ^ 64 - 2 ^ 31 + x) div 2 ^ 39 mod 512 = 511" "(2 ^ 64 - 2 ^ 31 + x) div 2 ^ 30 mod 512 = 510"
    "(2 ^ 64 - 2 ^ 31 + x) div 2 ^ 21 mod 512 = x div 2 ^ 21" "(2 ^ 64 - 2 ^ 31 + x) mod 2 ^ 21 = x mod 2 ^ 21" if "x < 2 ^ 30" for x :: nat
  proof -
    have e: "(2 ^ 64 - 2 ^ 31 + x) div 2 ^ 39 = 2 ^ 25 - 1" "(2 ^ 64 - 2 ^ 31 + x) div 2 ^ 30 = 2 ^ 34 - 2"
      "(2 ^ 64 - 2 ^ 31 + x) div 2 ^ 21 = (2 ^ 34 - 2) * 512 + x div 2 ^ 21"
      using that by simp_all
    have "x div 2 ^ 21 < 512" using that by (intro less_mult_imp_div_less) simp
    then show "(2 ^ 64 - 2 ^ 31 + x) div 2 ^ 21 mod 512 = x div 2 ^ 21" unfolding e(3) mod_mult_self3 by (rule mod_less)
    show "(2 ^ 64 - 2 ^ 31 + x) div 2 ^ 39 mod 512 = 511" "(2 ^ 64 - 2 ^ 31 + x) div 2 ^ 30 mod 512 = 510"
      unfolding e(1,2) by simp_all
    have "2 ^ 64 - 2 ^ 31 + x = (2 ^ 43 - 2 ^ 10) * 2 ^ 21 + x" by simp
    then show "(2 ^ 64 - 2 ^ 31 + x) mod 2 ^ 21 = x mod 2 ^ 21" by (simp only: mod_mult_self3)
  qed
  have ix: "idx_l4 ?v = 511" "idx_l3 ?v = 510" "idx_l2 ?v = ?i"
    unfolding pt_index_nat v using d [OF lt] by simp_all
  let ?m = "unat kphys div 2 ^ 21 + ?i"
  have km: "unat kphys = unat kphys div 2 ^ 21 * 2 ^ 21" using k(1) by (metis add.right_neutral div_mult_mod_eq)
  have e: "kphys + of_nat ?i * 0x200000 = push_bit 21 (of_nat ?m)"
  proof -
    have "kphys = of_nat (unat kphys div 2 ^ 21 * 2 ^ 21)" by (subst km [symmetric]) simp
    then show ?thesis by (simp add: push_bit_eq_mult algebra_simps)
  qed
  have m: "?m < 2 ^ 31"
  proof -
    have "?i * 2 ^ 21 \<le> unat off" by simp
    then have "?m * 2 ^ 21 < 2 ^ 31 * 2 ^ 21" using k(2) km by (simp add: distrib_right)
    then show ?thesis by simp
  qed
  have "translate ?B (lt_pml4 t) ?v = Some (of_nat (?m * 2 ^ 21 + unat ?v mod 2 ^ 21))"
    by (rule translate_large [of _ _ _ "lt_pdpt_hh t" "lt_pd_hh t"]) (use a B(2,7) B(12) [OF i, unfolded e] m in \<open>simp_all only: ix\<close>)
  also have "?m * 2 ^ 21 + unat ?v mod 2 ^ 21 = unat kphys + unat off"
    unfolding v d(4) [OF lt] using km div_mult_mod_eq [of "unat off" "2 ^ 21"] by (simp add: distrib_right)
  finally show ?thesis by simp
qed

section \<open>The segments\<close>

text \<open>Segments in ascending order at the addresses of the linker script, within one gigabyte.\<close>

definition seg_off :: "lphdr \<Rightarrow> u64" where "seg_off ph = lp_vaddr ph - KERNEL_VMA"

definition segs_ok :: "lphdr list \<Rightarrow> bool" where
  "segs_ok phs \<longleftrightarrow> (\<forall>ph\<in>set phs. unat (seg_off ph) + unat (lp_memsz ph) \<le> 2 ^ 30 \<and> lp_filesz ph \<le> lp_memsz ph) \<and>
     sorted_wrt (\<lambda>p q. unat (seg_off p) + unat (lp_memsz p) \<le> unat (seg_off q)) phs"

lemma sub_wraps: "unat (x :: u64) < unat y \<Longrightarrow> unat y \<le> 2 ^ 30 \<Longrightarrow> unat m \<le> 2 ^ 30 \<Longrightarrow> \<not> x - y < m"
  by (simp add: word_less_nat_alt unat_sub_if')

lemma copy_segment_off:
  "copy_segment img kphys KERNEL_VMA ph mem =
    (if lp_filesz ph \<noteq> 0 \<and> length img < unat (lp_offset ph) + unat (lp_filesz ph) then None
     else Some (\<lambda>a. if a - kphys - seg_off ph < lp_filesz ph then img ! unat (lp_offset ph + (a - kphys - seg_off ph))
       else if a - kphys - seg_off ph < lp_memsz ph then NUL else mem a))"
  unfolding copy_segment_def seg_off_def [symmetric] Let_def diff_diff_eq by (rule refl)

lemma segments_below:
  assumes "copy_segments img kphys KERNEL_VMA phs mem = Some mem'"
    "\<forall>ph\<in>set phs. unat x < unat (seg_off ph) \<and> unat (seg_off ph) + unat (lp_memsz ph) \<le> 2 ^ 30 \<and> lp_filesz ph \<le> lp_memsz ph"
  shows "mem' (kphys + x) = mem (kphys + x)"
  using assms
proof (induction phs arbitrary: mem)
  case (Cons ph phs)
  then obtain m1 where m1: "copy_segment img kphys KERNEL_VMA ph mem = Some m1" "copy_segments img kphys KERNEL_VMA phs m1 = Some mem'"
    by (auto split: option.splits)
  have h: "unat x < unat (seg_off ph)" "unat (seg_off ph) + unat (lp_memsz ph) \<le> 2 ^ 30" "unat (lp_filesz ph) \<le> unat (lp_memsz ph)"
    using Cons.prems(2) by (simp_all add: word_le_nat_alt)
  have "\<not> x - seg_off ph < lp_memsz ph" "\<not> x - seg_off ph < lp_filesz ph" using h sub_wraps [OF h(1), where m = "lp_memsz ph"] sub_wraps [OF h(1), where m = "lp_filesz ph"] by simp_all
  then have "m1 (kphys + x) = mem (kphys + x)"
    using m1(1) by (auto simp: copy_segment_off split: if_splits)
  then show ?case using Cons.IH [OF m1(2)] Cons.prems(2) by simp
qed simp

lemma segments_read:
  assumes "copy_segments img kphys KERNEL_VMA phs mem = Some mem'" "segs_ok phs" "ph \<in> set phs" "j < lp_memsz ph"
  shows "mem' (kphys + (seg_off ph + j)) = (if j < lp_filesz ph then img ! unat (lp_offset ph + j) else NUL)"
  using assms(1-3)
proof (induction phs arbitrary: mem)
  case (Cons q phs)
  then obtain m1 where m1: "copy_segment img kphys KERNEL_VMA q mem = Some m1" "copy_segments img kphys KERNEL_VMA phs m1 = Some mem'"
    by (auto split: option.splits)
  have ok: "segs_ok phs" using Cons.prems(2) by (simp add: segs_ok_def)
  show ?case
  proof (cases "ph \<in> set phs")
    case True
    then show ?thesis using Cons.IH [OF m1(2) ok] by simp
  next
    case False
    then have q: "ph = q" using Cons.prems(3) by simp
    have b: "unat (seg_off q) + unat (lp_memsz q) \<le> 2 ^ 30" using Cons.prems(2) by (simp add: segs_ok_def)
    have j: "unat j < unat (lp_memsz q)" using assms(4) q by (simp add: word_less_nat_alt)
    then have "unat (seg_off q + j) = unat (seg_off q) + unat j" using b by (simp add: unat_plus_if')
    then have "\<forall>r\<in>set phs. unat (seg_off q + j) < unat (seg_off r) \<and> unat (seg_off r) + unat (lp_memsz r) \<le> 2 ^ 30 \<and> lp_filesz r \<le> lp_memsz r"
      using Cons.prems(2) j by (fastforce simp: segs_ok_def)
    from segments_below [OF m1(2) this] have "mem' (kphys + (seg_off q + j)) = m1 (kphys + (seg_off q + j))" .
    then show ?thesis
      using m1(1) assms(4) unfolding q by (auto simp: copy_segment_off split: if_splits)
  qed
qed simp

lemma span_fold:
  "fold (\<lambda>ph (base, top).
      (if base = 0 \<or> lp_vaddr ph < base then lp_vaddr ph else base,
       if top < lp_vaddr ph + lp_memsz ph then lp_vaddr ph + lp_memsz ph else top)) phs (b, t) = (b', t') \<Longrightarrow>
    t \<le> t' \<and> (\<forall>ph\<in>set phs. lp_vaddr ph + lp_memsz ph \<le> t') \<and> (t' = t \<or> (\<exists>ph\<in>set phs. t' = lp_vaddr ph + lp_memsz ph))"
proof (induction phs arbitrary: b t)
  case (Cons ph phs)
  from Cons.IH [OF Cons.prems [simplified]] show ?case by (auto split: if_splits)
qed simp

lemma span_top:
  assumes "segs_ok phs" "kernel_span phs = (KERNEL_VMA, t)"
  shows "unat (t - KERNEL_VMA) \<le> 2 ^ 30 \<and> (\<forall>ph\<in>set phs. unat (seg_off ph) + unat (lp_memsz ph) \<le> unat (t - KERNEL_VMA))"
proof -
  note S = span_fold [OF assms(2) [unfolded kernel_span_def]]
  have e: "lp_vaddr ph + lp_memsz ph = KERNEL_VMA + (seg_off ph + lp_memsz ph) \<and>
      unat (seg_off ph + lp_memsz ph) = unat (seg_off ph) + unat (lp_memsz ph) \<and> unat (seg_off ph) + unat (lp_memsz ph) \<le> 2 ^ 30" if "ph \<in> set phs" for ph
    using assms(1) that by (auto simp: segs_ok_def seg_off_def unat_plus_if')
  have ne: "phs \<noteq> []" using assms(2) by (auto simp: kernel_span_def KERNEL_VMA_def)
  have k: "KERNEL_VMA + x \<le> KERNEL_VMA + y \<longleftrightarrow> x \<le> y" if "unat x \<le> 2 ^ 30" "unat y \<le> 2 ^ 30" for x y :: u64
    using that by (simp add: word_le_nat_alt KERNEL_VMA_def unat_plus_if')
  have "t \<noteq> 0"
  proof
    assume z: "t = 0"
    obtain ph where p: "ph \<in> set phs" using ne by (meson last_in_set)
    then have "KERNEL_VMA + (seg_off ph + lp_memsz ph) = 0" using S e z by fastforce
    then have "unat (KERNEL_VMA + (seg_off ph + lp_memsz ph)) = 0" by simp
    then show False using e [OF p] by (simp add: KERNEL_VMA_def unat_plus_if' split: if_splits)
  qed
  then obtain q where q: "q \<in> set phs" "t = KERNEL_VMA + (seg_off q + lp_memsz q)" using S e by fastforce
  then have t: "t - KERNEL_VMA = seg_off q + lp_memsz q" by simp
  have "unat (seg_off ph) + unat (lp_memsz ph) \<le> unat (t - KERNEL_VMA)" if p: "ph \<in> set phs" for ph
  proof -
    have "KERNEL_VMA + (seg_off ph + lp_memsz ph) \<le> KERNEL_VMA + (seg_off q + lp_memsz q)" using S e [OF p] p q(2) by metis
    then show ?thesis using k [of "seg_off ph + lp_memsz ph" "seg_off q + lp_memsz q"] e [OF p] e [OF q(1)]
      by (simp add: t word_le_nat_alt)
  qed
  then show ?thesis using e [OF q(1)] t by simp
qed

section \<open>What the kernel starts with\<close>

text \<open>What the firmware promises: allocations are aligned to pages, lie below $2^{52}$, do not share their first
  page, and are not described as free memory in its map, whose free regions are aligned to pages too.\<close>

definition firmware_ok :: "firmware \<Rightarrow> bool" where
  "firmware_ok fw \<longleftrightarrow>
    (\<forall>i n a. fw_pages fw i n = Some a \<longrightarrow> a \<noteq> 0 \<and> unat a mod 4096 = 0 \<and> unat a + unat n * 4096 \<le> 2 ^ 52) \<and>
    (\<forall>i j n m a. i \<noteq> j \<longrightarrow> fw_pages fw i n = Some a \<longrightarrow> fw_pages fw j m \<noteq> Some a) \<and>
    (\<forall>ds start pages. fw_map fw = Some ds \<longrightarrow> (7, start, pages) \<in> set ds \<longrightarrow>
       unat start mod 4096 = 0 \<and> unat start + unat pages * 4096 \<le> 2 ^ 52) \<and>
    (\<forall>ds start pages i n a. fw_map fw = Some ds \<longrightarrow> (7, start, pages) \<in> set ds \<longrightarrow> fw_pages fw i n = Some a \<longrightarrow>
       unat a + unat n * 4096 \<le> unat start \<or> unat start + unat pages * 4096 \<le> unat a)"

definition kernel_phdrs :: "string \<Rightarrow> lphdr list option" where
  "kernel_phdrs img = load_phdrs img (u64_at img 32) (u16_at img 54) (unat (u16_at img 56)) 0"

text \<open>A start of the kernel, taken apart.\<close>

lemma efi_main_jumps:
  assumes "efi_main fw pt mem = Jumps l"
  obtains kf img phs base top n a t mem' where
    "fw_read fw = Some kf" "img = take (16 * 1024 * 1024) kf" "kernel_phdrs img = Some phs" "kernel_span phs = (base, top)"
    "n = drop_bit 21 (top - base + 0x1FFFFF)" "fw_pages fw 0 ((n + 1) * 512) = Some a"
    "copy_segments img ((a + 0x1FFFFF) AND NOT 0x1FFFFF) base phs mem = Some mem'" "alloc_tables (fw_pages fw) = Inr t"
    "ld_info l = fill_info fw ((a + 0x1FFFFF) AND NOT 0x1FFFFF) (top - base)" "ld_root l = lt_pml4 t"
    "ld_tables l = build_tables t ((a + 0x1FFFFF) AND NOT 0x1FFFFF) n pt" "ld_mem l = mem'"
proof -
  obtain kf where f: "fw_read fw = Some kf" "load_kernel fw (take (16 * 1024 * 1024) kf) pt mem = Jumps l"
    using assms by (auto simp: efi_main_def Let_def split: if_splits option.splits)
  obtain phs where p: "kernel_phdrs (take (16 * 1024 * 1024) kf) = Some phs"
    using f(2) by (auto simp: load_kernel_def kernel_phdrs_def split: option.splits)
  obtain base top where s: "kernel_span phs = (base, top)" by fastforce
  note L = f(2) [unfolded load_kernel_def p [unfolded kernel_phdrs_def] option.case s Let_def prod.case]
  obtain a where a: "fw_pages fw 0 ((drop_bit 21 (top - base + 0x1FFFFF) + 1) * 512) = Some a"
    using L by (auto split: option.splits)
  obtain mem' where m: "copy_segments (take (16 * 1024 * 1024) kf) ((a + 0x1FFFFF) AND NOT 0x1FFFFF) base phs mem = Some mem'"
    using L unfolding a by (auto split: option.splits)
  obtain t where t: "alloc_tables (fw_pages fw) = Inr t"
    using L unfolding a option.case m by (auto split: sum.splits)
  show ?thesis
    by (rule that [OF f(1) refl p s refl a m t])
       (use L [unfolded a option.case m t sum.case] in \<open>auto split: if_splits\<close>)
qed

lemma align_up_2m:
  assumes "unat a + 0x1FFFFF < 2 ^ 64"
  shows "unat ((a + 0x1FFFFF) AND NOT 0x1FFFFF :: u64) = (unat a + 0x1FFFFF) div 2 ^ 21 * 2 ^ 21"
proof -
  have "(a + 0x1FFFFF) AND NOT 0x1FFFFF = (a + 0x1FFFFF) AND NOT (mask 21)" by (simp add: mask_eq_exp_minus_1)
  then show ?thesis using unat_align_down [of "a + 0x1FFFFF" 21] assms by (simp add: unat_plus_if')
qed

lemma page_aligned_PTE: "unat (a :: u64) mod 4096 = 0 \<Longrightarrow> unat a < 2 ^ 52 \<Longrightarrow> a AND PTE_ADDR = a"
proof -
  assume a: "unat a mod 4096 = 0" "unat a < 2 ^ 52"
  have "unat a = unat a div 4096 * 4096" using a(1) by (metis add.right_neutral div_mult_mod_eq)
  then have e: "unat a div 4096 * 4096 = unat a" by simp
  have "page_addr (unat a div 4096) = of_nat (unat a div 4096 * 4096)" by (simp add: page_addr_def push_bit_eq_mult)
  then have "a = page_addr (unat a div 4096)" unfolding e by simp
  moreover have "unat a div 4096 < 2 ^ 40" using a(2) by simp
  ultimately show ?thesis using page_addr_PTE by metis
qed

lemma alloc_tables_ok:
  assumes "firmware_ok fw" "alloc_tables (fw_pages fw) = Inr t"
  shows "tables_ok t"
proof -
  have A: "fw_pages fw 1 1 = Some (lt_pml4 t)" "fw_pages fw 2 1 = Some (lt_pdpt_id t)" "fw_pages fw 3 1 = Some (lt_pd0 t)"
    "fw_pages fw 4 1 = Some (lt_pd1 t)" "fw_pages fw 5 1 = Some (lt_pd2 t)" "fw_pages fw 6 1 = Some (lt_pd3 t)"
    "fw_pages fw 7 1 = Some (lt_pdpt_hh t)" "fw_pages fw 8 1 = Some (lt_pd_hh t)"
    using assms(2) by (auto simp: alloc_tables_def split: option.splits)
  have d: "a \<noteq> b" if "i \<noteq> j" "fw_pages fw i n = Some a" "fw_pages fw j m = Some b" for i j n m a b
    using assms(1) that by (auto simp: firmware_ok_def)
  have p: "a AND PTE_ADDR = a" if x: "fw_pages fw i 1 = Some a" for i a
  proof -
    have "unat a mod 4096 = 0" "unat a + unat (1 :: u64) * 4096 \<le> 2 ^ 52" using assms(1) x unfolding firmware_ok_def by blast+
    then show ?thesis by (intro page_aligned_PTE) simp_all
  qed
  show ?thesis
    by (simp add: tables_ok_def p [OF A(1)] p [OF A(2)] p [OF A(3)] p [OF A(4)] p [OF A(5)] p [OF A(6)] p [OF A(7)] p [OF A(8)])
       (intro conjI; rule d; (rule A | simp))
qed

text \<open>The first four gigabytes are mapped to themselves when the kernel starts.\<close>

theorem loader_identity:
  assumes "firmware_ok fw" "efi_main fw pt mem = Jumps l" "unat v < 2 ^ 32"
  shows "translate (ld_tables l) (ld_root l) v = Some v"
  using assms(2)
proof (rule efi_main_jumps)
  fix n a t assume "alloc_tables (fw_pages fw) = Inr t" "ld_root l = lt_pml4 t"
    "ld_tables l = build_tables t ((a + 0x1FFFFF) AND NOT 0x1FFFFF) n pt"
  then show ?thesis using translate_low [OF alloc_tables_ok [OF assms(1)] assms(3)] by simp
qed

lemma ceil_ge: "0 < m \<Longrightarrow> x \<le> (x + (m - 1)) div m * (m :: nat)"
  using mod_less_divisor [of m "x + (m - 1)"] div_mult_mod_eq [of "x + (m - 1)" m] by linarith

text \<open>C8. The kernel runs as it was linked: if the segments of its file are in order at the addresses of the linker
  script, every address of a segment is mapped when the kernel starts, to a byte of its file or to a zero behind
  them.\<close>

theorem loader_runs_kernel:
  assumes fw: "firmware_ok fw" and l: "efi_main fw pt mem = Jumps l" and f: "fw_read fw = Some kf"
    and img: "img = take (16 * 1024 * 1024) kf" "kernel_phdrs img = Some phs" "segs_ok phs" "fst (kernel_span phs) = KERNEL_VMA"
    and j: "ph \<in> set phs" "j < lp_memsz ph"
  shows "\<exists>p. translate (ld_tables l) (ld_root l) (lp_vaddr ph + j) = Some p \<and>
    ld_mem l p = (if j < lp_filesz ph then img ! unat (lp_offset ph + j) else NUL)"
  using l
proof (rule efi_main_jumps)
  fix kf' img' phs' base top t mem' and n a :: u64
  let ?k = "(a + 0x1FFFFF) AND NOT 0x1FFFFF"
  assume e: "fw_read fw = Some kf'" "img' = take (16 * 1024 * 1024) kf'" "kernel_phdrs img' = Some phs'" "kernel_span phs' = (base, top)"
    and n: "n = drop_bit 21 (top - base + 0x1FFFFF)" and a: "fw_pages fw 0 ((n + 1) * 512) = Some a"
    and m: "copy_segments img' ?k base phs' mem = Some mem'" and t: "alloc_tables (fw_pages fw) = Inr t"
    and r: "ld_root l = lt_pml4 t" "ld_tables l = build_tables t ?k n pt" "ld_mem l = mem'"
  have q: "img' = img" "phs' = phs" "base = KERNEL_VMA" using e f img by auto
  have s: "kernel_span phs = (KERNEL_VMA, top)" using e(4) q by simp
  note S = span_top [OF img(3) s]
  let ?z = "unat (top - KERNEL_VMA)"
  have n1: "unat n = (?z + 0x1FFFFF) div 2 ^ 21" using n S q(3) by (simp add: unat_drop_bit unat_plus_if')
  have z: "?z \<le> unat n * 2 ^ 21" unfolding n1 using ceil_ge [of "2 ^ 21" ?z] by simp
  have "(?z + 0x1FFFFF) div 2 ^ 21 \<le> (2 ^ 30 + 0x1FFFFF) div 2 ^ 21" by (rule div_le_mono) (use S in \<open>simp\<close>)
  then have n2: "unat n \<le> 512" unfolding n1 by simp
  have n3: "unat ((n + 1) * 512) = (unat n + 1) * 512" "unat (n + 1) = unat n + 1" using n2 by (simp_all add: unat_plus_if' unat_mult_lem [THEN iffD1])
  have A: "unat a mod 4096 = 0" "unat a + unat ((n + 1) * 512) * 4096 \<le> 2 ^ 52" using fw a unfolding firmware_ok_def by blast+
  then have A2: "unat a + (unat n + 1) * 2 ^ 21 \<le> 2 ^ 52" unfolding n3 by simp
  have k: "unat ?k = (unat a + 0x1FFFFF) div 2 ^ 21 * 2 ^ 21" by (rule align_up_2m) (use A2 in \<open>simp\<close>)
  then have k1: "unat ?k mod 2 ^ 21 = 0" by simp
  have k2: "unat ?k \<le> unat a + 0x1FFFFF" unfolding k by (rule div_times_less_eq_dividend)
  have o: "unat (seg_off ph) + unat (lp_memsz ph) \<le> ?z" using S j(1) by blast
  have uj: "unat j < unat (lp_memsz ph)" using j(2) by (simp add: word_less_nat_alt)
  have u: "unat (seg_off ph + j) = unat (seg_off ph) + unat j" using o uj S by (simp add: unat_plus_if')
  then have lt: "unat (seg_off ph + j) < ?z" using o uj by linarith
  have "unat (seg_off ph + j) < min (unat (n + 1)) 512 * 2 ^ 21" using lt z n2 n3(2) S by (simp add: min_def)
  moreover have "unat ?k + unat (seg_off ph + j) < 2 ^ 52" using k2 lt z A2 by (simp add: algebra_simps)
  ultimately have "translate (build_tables t ?k n pt) (lt_pml4 t) (KERNEL_VMA + (seg_off ph + j)) = Some (?k + (seg_off ph + j))"
    by (intro translate_kernel [OF alloc_tables_ok [OF fw t]] k1)
  moreover have "KERNEL_VMA + (seg_off ph + j) = lp_vaddr ph + j" by (simp add: seg_off_def)
  moreover have "mem' (?k + (seg_off ph + j)) = (if j < lp_filesz ph then img ! unat (lp_offset ph + j) else NUL)"
    using segments_read [OF m [unfolded q] img(3) j] .
  ultimately show ?thesis by (auto simp: r)
qed

lemma map_entry:
  assumes "fw_map fw = Some ds" "firmware_ok fw" "r \<in> set (boot_map ds)" "in_region r j"
  shows "\<exists>start pages. (7, start, pages) \<in> set ds \<and> unat start div 4096 \<le> j \<and> j < unat start div 4096 + unat pages"
proof -
  obtain ty start pages where d: "(ty, start, pages) \<in> set ds" "r = (start, push_bit 12 pages, if ty = 7 then 1 else 2)"
    using assms(3) by (auto simp: boot_map_def dest: in_set_takeD)
  then have t: "ty = 7" using assms(4) by (auto simp: in_region_def split: if_splits)
  have b: "unat start mod 4096 = 0" "unat start + unat pages * 4096 \<le> 2 ^ 52" using assms(1,2) d(1) unfolding t firmware_ok_def by blast+
  have up: "page_align_up start = (start + 0xFFF) AND NOT (mask 12)" by (simp add: page_align_up_def mask_eq_exp_minus_1)
  have "unat (drop_bit 12 (page_align_up start)) = (unat start + 0xFFF) div 4096"
    unfolding up drop_bit_align unat_drop_bit using b by (simp add: unat_plus_if')
  also have "\<dots> = unat start div 4096"
  proof -
    obtain q where "unat start = q * 4096" using b(1) by (metis add.right_neutral div_mult_mod_eq)
    then show ?thesis by simp
  qed
  finally have s: "unat (drop_bit 12 (page_align_up start)) = unat start div 4096" .
  have "unat (drop_bit 12 (push_bit 12 pages :: u64)) = unat pages"
    using b(2) by (simp add: unat_drop_bit unat_push_bit)
  then show ?thesis using assms(4) d t s by (auto simp: in_region_def)
qed

text \<open>C9. The kernel's page pool and the loader fit together: a page the pool can hand out is reached at its own address
  through the tables in force, and is none of those the firmware gave the loader, for the tables, the kernel or
  otherwise.\<close>

theorem loader_pool:
  assumes fw: "firmware_ok fw" and l: "efi_main fw pt mem = Jumps l" and j: "page_avail (pmm_init (ld_info l) p) j"
  shows "translate (ld_tables l) (ld_root l) (page_addr j) = Some (page_addr j) \<and>
    (fw_pages fw i n = Some a \<longrightarrow> \<not> (addr_page a \<le> j \<and> j * 4096 < unat a + unat n * 4096))"
  using l
proof (rule efi_main_jumps)
  fix base top t and m b :: u64
  let ?k = "(b + 0x1FFFFF) AND NOT 0x1FFFFF"
  assume t: "alloc_tables (fw_pages fw) = Inr t" "ld_info l = fill_info fw ?k (top - base)" "ld_root l = lt_pml4 t"
    "ld_tables l = build_tables t ?k m pt"
  have "j < PMM_PAGES" using j pages_total_le [of "ld_info l"] by (simp add: page_avail_def)
  then have "unat (page_addr j) < 2 ^ 32"
    by (simp add: page_addr_def push_bit_eq_mult PMM_PAGES_def unat_mult_lem [THEN iffD1] unat_word_ariths unsigned_of_nat take_bit_eq_mod)
  then have 1: "translate (ld_tables l) (ld_root l) (page_addr j) = Some (page_addr j)"
    using translate_low [OF alloc_tables_ok [OF fw t(1)]] by (simp add: t)
  obtain r where r: "r \<in> set (memmap (ld_info l))" "in_region r j" using pmm_init_avail [OF j] by blast
  then obtain ds where ds: "fw_map fw = Some ds" "r \<in> set (boot_map ds)" by (cases "fw_map fw") (auto simp: t(2) fill_info_def)
  obtain start pages where s: "(7, start, pages) \<in> set ds" "unat start div 4096 \<le> j" "j < unat start div 4096 + unat pages"
    using map_entry [OF ds(1) fw ds(2) r(2)] by blast
  have "\<not> (addr_page a \<le> j \<and> j * 4096 < unat a + unat n * 4096)" if "fw_pages fw i n = Some a"
  proof -
    have "unat start mod 4096 = 0" using fw ds(1) s(1) unfolding firmware_ok_def by blast
    then obtain q where q: "unat start = q * 4096" by (metis add.right_neutral div_mult_mod_eq)
    then have jq: "q \<le> j" "j < q + unat pages" using s(2,3) by simp_all
    have d: "addr_page a = unat a div 4096" by (simp add: addr_page_def unat_drop_bit)
    have "unat a + unat n * 4096 \<le> unat start \<or> unat start + unat pages * 4096 \<le> unat a"
      using fw ds(1) s(1) that unfolding firmware_ok_def by blast
    then show ?thesis
    proof
      assume "unat a + unat n * 4096 \<le> unat start"
      then show ?thesis using jq(1) unfolding q by simp
    next
      assume "unat start + unat pages * 4096 \<le> unat a"
      then have "(q + unat pages) * 4096 \<le> unat a" unfolding q by simp
      then have "q + unat pages \<le> unat a div 4096" by (simp add: less_eq_div_iff_mult_less_eq)
      then show ?thesis using jq(2) unfolding d by simp
    qed
  qed
  then show ?thesis using 1 by blast
qed

section \<open>An example\<close>

text \<open>A kernel of one segment of 128 bytes, 120 of them from its file, and a firmware that starts it.\<close>

definition mini_kernel :: string where
  "mini_kernel = elf_image (CHR 0x40 # zb 7) @ [CHR 0x01, NUL, NUL, NUL, CHR 0x05, NUL, NUL, NUL] @ zb 8 @
     [NUL, NUL, NUL, CHR 0x80, CHR 0xFF, CHR 0xFF, CHR 0xFF, CHR 0xFF] @ zb 8 @ [CHR 0x78] @ zb 7 @ [CHR 0x80] @ zb 7 @ zb 8"

definition mini_seg :: lphdr where
  "mini_seg = \<lparr>lp_offset = 0, lp_vaddr = 0xffffffff80000000, lp_filesz = 0x78, lp_memsz = 0x80\<rparr>"

definition mini_firmware :: firmware where
  "mini_firmware = \<lparr>fw_image = True, fw_fs = True, fw_volume = True, fw_open = True, fw_pool = True, fw_read = Some mini_kernel,
     fw_pages = (\<lambda>i n. if i < 9 \<and> unat n \<le> 1024 then Some (of_nat (0x1000000 + i * 0x400000)) else None), fw_gop = None,
     fw_map = Some [(7, 0x100000, 0x100), (2, 0x1000000, 0x2400)], fw_exit = True, fw_stack = 0x80000\<rparr>"

lemma mini_kernel_fields:
  "length mini_kernel = 120" "take 16777216 mini_kernel = mini_kernel" "kernel_phdrs mini_kernel = Some [mini_seg]"
  "u32_at mini_kernel 0 = 0x464C457F" "at mini_kernel 4 = CHR 0x02" "u16_at mini_kernel 18 = 0x3E"
proof -
  show l: "length mini_kernel = 120" by (simp add: mini_kernel_def image_bytes)
  then show "take 16777216 mini_kernel = mini_kernel" by simp
  have f: "u64_at mini_kernel 32 = 64" "u16_at mini_kernel 54 = 56" "u16_at mini_kernel 56 = 1"
    "u32_at mini_kernel 64 = 1" "u64_at mini_kernel 72 = 0" "u64_at mini_kernel 80 = 0xffffffff80000000"
    "u64_at mini_kernel 96 = 0x78" "u64_at mini_kernel 104 = 0x80"
    by (simp_all add: mini_kernel_def image_bytes u64_at_def u32_at_def u16_at_def le_bytes_64 le_bytes_32 le_bytes_16)
  then show "kernel_phdrs mini_kernel = Some [mini_seg]"
    by (simp add: kernel_phdrs_def load_phdrs.simps l in_image_def mini_seg_def)
  show "u32_at mini_kernel 0 = 0x464C457F" "at mini_kernel 4 = CHR 0x02" "u16_at mini_kernel 18 = 0x3E"
    by (simp_all add: mini_kernel_def image_bytes u32_at_def u16_at_def le_bytes_32 le_bytes_16)
qed

lemma mini_firmware_ok: "firmware_ok mini_firmware"
proof -
  have u: "unat (of_nat (0x1000000 + i * 0x400000) :: u64) = 0x1000000 + i * 0x400000" if "i < 9" for i
    using that by (intro unat_of_nat_small) simp
  have p: "fw_pages mini_firmware i n = Some a \<longleftrightarrow> i < 9 \<and> unat n \<le> 1024 \<and> a = of_nat (0x1000000 + i * 0x400000)" for i n a
    by (auto simp: mini_firmware_def)
  have ua: "unat a = 0x1000000 + i * 0x400000" if "fw_pages mini_firmware i n = Some a" for i n a
    using that u [of i] unfolding p by simp
  have "a \<noteq> 0 \<and> unat a mod 4096 = 0 \<and> unat a + unat n * 4096 \<le> 2 ^ 52" if x: "fw_pages mini_firmware i n = Some a" for i n a
  proof -
    have i: "i < 9" "unat n \<le> 1024" "unat a = 0x1000000 + i * 0x400000" using x ua [OF x] by (auto simp: p)
    then have "unat a = (0x1000 + i * 0x400) * 4096" by simp
    then have "unat a mod 4096 = 0" by (simp only: mod_mult_self2_is_0)
    then show ?thesis using i by (auto simp: unat_eq_0 [symmetric])
  qed
  moreover have "fw_pages mini_firmware j m \<noteq> Some a" if x: "fw_pages mini_firmware i n = Some a" "i \<noteq> j" for i j n m a
  proof
    assume "fw_pages mini_firmware j m = Some a"
    then have "unat a = 0x1000000 + j * 0x400000" "unat a = 0x1000000 + i * 0x400000" using ua x(1) by blast+
    then show False using x(2) by simp
  qed
  moreover have "unat a + unat n * 4096 \<le> unat s \<or> unat s + unat g * 4096 \<le> unat a"
    if "fw_map mini_firmware = Some ds" "(7, s, g) \<in> set ds" "fw_pages mini_firmware i n = Some a" for ds s g i n a
  proof -
    have "s = 0x100000" "g = 0x100" using that(1,2) by (auto simp: mini_firmware_def)
    moreover have "unat a = 0x1000000 + i * 0x400000" using ua [OF that(3)] .
    ultimately show ?thesis by simp
  qed
  moreover have "unat s mod 4096 = 0 \<and> unat s + unat g * 4096 \<le> 2 ^ 52"
    if "fw_map mini_firmware = Some ds" "(7, s, g) \<in> set ds" for ds s g
    using that by (auto simp: mini_firmware_def)
  ultimately show ?thesis unfolding firmware_ok_def by blast
qed

lemma mini_runs: "\<exists>l. efi_main mini_firmware pt mem = Jumps l"
proof -
  have s: "kernel_span [mini_seg] = (0xffffffff80000000, 0xffffffff80000080)" by (simp add: kernel_span_def mini_seg_def)
  have c: "copy_segments mini_kernel k b [mini_seg] mem \<noteq> None" for k b
    by (simp add: copy_segment_def mini_seg_def mini_kernel_fields Let_def)
  then obtain m where m: "copy_segments mini_kernel 0x1000000 0xffffffff80000000 [mini_seg] mem = Some m" by blast
  obtain t where t: "alloc_tables (fw_pages mini_firmware) = Inr t" by (simp add: alloc_tables_def mini_firmware_def)
  have a: "fw_pages mini_firmware 0 0x400 = Some 0x1000000" by (simp add: mini_firmware_def)
  have x: "fw_exit mini_firmware" by (simp add: mini_firmware_def)
  have "\<exists>l. load_kernel mini_firmware mini_kernel pt mem = Jumps l"
    unfolding load_kernel_def mini_kernel_fields(3) [unfolded kernel_phdrs_def]
    by (simp add: s a x m t Let_def del: copy_segments.simps)
  then show ?thesis
    using mini_kernel_fields by (simp add: efi_main_def Let_def) (simp add: mini_firmware_def)
qed

lemma loader_identity_witness:
  "\<exists>l. efi_main mini_firmware (\<lambda>_ _. 0) (\<lambda>_. NUL) = Jumps l \<and> translate (ld_tables l) (ld_root l) 0xB8000 = Some 0xB8000"
proof -
  obtain l where l: "efi_main mini_firmware (\<lambda>_ _. 0) (\<lambda>_. NUL) = Jumps l" using mini_runs by blast
  from loader_identity [OF mini_firmware_ok l, of "0xB8000"] l show ?thesis by simp
qed

lemma loader_runs_kernel_witness:
  "\<exists>l p. efi_main mini_firmware (\<lambda>_ _. 0) (\<lambda>_. NUL) = Jumps l \<and>
     translate (ld_tables l) (ld_root l) 0xffffffff80000001 = Some p \<and> ld_mem l p = CHR ''E''"
proof -
  obtain l where l: "efi_main mini_firmware (\<lambda>_ _. 0) (\<lambda>_. NUL) = Jumps l" using mini_runs by blast
  have r: "fw_read mini_firmware = Some mini_kernel" by (simp add: mini_firmware_def)
  have i: "mini_kernel = take (16 * 1024 * 1024) mini_kernel" using mini_kernel_fields(2) by simp
  have s: "segs_ok [mini_seg]" "fst (kernel_span [mini_seg]) = KERNEL_VMA" "mini_seg \<in> set [mini_seg]" "1 < lp_memsz mini_seg"
    by (simp_all add: segs_ok_def seg_off_def mini_seg_def KERNEL_VMA_def kernel_span_def)
  have "mini_kernel ! 1 = CHR ''E''" by (simp add: mini_kernel_def image_bytes)
  with loader_runs_kernel [OF mini_firmware_ok l r i mini_kernel_fields(3) s] l show ?thesis by (auto simp: mini_seg_def)
qed

lemma loader_pool_witness:
  "\<exists>l. efi_main mini_firmware (\<lambda>_ _. 0) (\<lambda>_. NUL) = Jumps l \<and>
     translate (ld_tables l) (ld_root l) (page_addr 0x180) = Some (page_addr 0x180)"
proof -
  obtain l where l: "efi_main mini_firmware (\<lambda>_ _. 0) (\<lambda>_. NUL) = Jumps l" using mini_runs by blast
  have "page_avail (pmm_init (ld_info l) small_pool) 0x180"
    using l
  proof (rule efi_main_jumps)
    fix kf img phs base top t mem' and n a :: u64
    assume e: "fw_read mini_firmware = Some kf" "img = take (16 * 1024 * 1024) kf" "kernel_phdrs img = Some phs"
      "kernel_span phs = (base, top)" "n = drop_bit 21 (top - base + 0x1FFFFF)"
      "fw_pages mini_firmware 0 ((n + 1) * 512) = Some a" and i: "ld_info l = fill_info mini_firmware ((a + 0x1FFFFF) AND NOT 0x1FFFFF) (top - base)"
    have "img = mini_kernel" using e(1,2) mini_kernel_fields(2) by (simp add: mini_firmware_def)
    then have "phs = [mini_seg]" using e(3) mini_kernel_fields(3) by simp
    then have b: "base = 0xffffffff80000000" "top = 0xffffffff80000080" using e(4) by (auto simp: kernel_span_def mini_seg_def)
    then have "a = 0x1000000" using e(5,6) by (simp add: mini_firmware_def)
    then have info: "ld_info l = \<lparr>memmap = [(0x100000, 0x100000, 1), (0x1000000, 0x2400000, 2)], kernel_phys = 0x1000000,
        kernel_size = 0x1000, fb_addr = 0, fb_width = 0, fb_height = 0, fb_bpp = 0, bi_addr = 0x80000, bi_size = 6248\<rparr>"
      by (simp add: i b fill_info_def mini_firmware_def boot_map_def BOOT_INFO_SIZE_def)
    have r: "pmm_reserve b n q = fold reserve_page [unat (drop_bit 12 (b AND NOT 0xFFF))..<unat (drop_bit 12 (page_align_up (b + n)))] q"
      if "n \<noteq> 0" for b n q using that by (simp add: pmm_reserve_def Let_def)
    show ?thesis
      by (simp add: page_avail_def pmm_init_def info Let_def r pages_total_def mem_top_def low_used_def
          page_align_up_def PMM_PAGES_def fold_reserve_page reserve_page_test release_region_test
          bm_test_all_ones in_region_def)
  qed
  from loader_pool [OF mini_firmware_ok l this] l show ?thesis by blast
qed

end
