(* ===== verification/Clients.thy ===== *)
theory Clients
  imports Praxia Fsd Synd
begin

text \<open>
  The clients of the file, contract and account services in \<open>spud.h\<close>, the way of a request
  to a service and back, and the shell \<open>praxia\<close> over the file service.

  Asking a service is a function of the type of the request, its bytes, the size left for
  the reply and the state of the system; it gives the bytes of the reply, or none when there
  is no service or it does not answer, as \<open>spud_rpc\<close> does.  A client that gets none makes
  the kernel's own call.
\<close>

unbundle bit_operations_syntax

section \<open>The clients\<close>

type_synonym 'w rpc = "u32 \<Rightarrow> string \<Rightarrow> nat \<Rightarrow> 'w \<Rightarrow> string option \<times> 'w"

text \<open>A request whose reply is the text asked for, and one whose reply is the character 1 or 0.\<close>

definition ask_text :: "'w rpc \<Rightarrow> u32 \<Rightarrow> string \<Rightarrow> nat \<Rightarrow> ('w \<Rightarrow> string option) \<Rightarrow> 'w \<Rightarrow> string option \<times> 'w" where
  "ask_text rpc type req mx kcall w =
    (case rpc type req (mx - 1) w of (Some d, w) \<Rightarrow> (Some d, w) | (None, w) \<Rightarrow> (kcall w, w))"

definition ask_bit :: "'w rpc \<Rightarrow> u32 \<Rightarrow> string \<Rightarrow> ('w \<Rightarrow> bool \<times> 'w) \<Rightarrow> 'w \<Rightarrow> bool \<times> 'w" where
  "ask_bit rpc type req kcall w =
    (case rpc type req 15 w of (Some d, w) \<Rightarrow> (d \<noteq> [] \<and> hd d = CHR ''1'', w) | (None, w) \<Rightarrow> kcall w)"

definition spud_fsd_read :: "'w rpc \<Rightarrow> 'w kcalls \<Rightarrow> string \<Rightarrow> nat \<Rightarrow> 'w \<Rightarrow> string option \<times> 'w" where
  "spud_fsd_read rpc kc path mx = ask_text rpc IPC_TYPE_READ (cstr path) mx (kc_read kc path mx)"

definition spud_fsd_list :: "'w rpc \<Rightarrow> 'w kcalls \<Rightarrow> string \<Rightarrow> nat \<Rightarrow> 'w \<Rightarrow> string option \<times> 'w" where
  "spud_fsd_list rpc kc path mx =
    ask_text rpc IPC_TYPE_LIST (cstr path) mx (\<lambda>w. map_option (\<lambda>t. cstr (take (mx - 1) t)) (kc_list kc path mx w))"

definition spud_fsd_create :: "'w rpc \<Rightarrow> 'w kcalls \<Rightarrow> string \<Rightarrow> 'w \<Rightarrow> bool \<times> 'w" where
  "spud_fsd_create rpc kc path = ask_bit rpc IPC_TYPE_FS_CREATE (cstr path) (kc_create kc path False)"

definition spud_fsd_write :: "'w rpc \<Rightarrow> 'w kcalls \<Rightarrow> string \<Rightarrow> string \<Rightarrow> 'w \<Rightarrow> bool \<times> 'w" where
  "spud_fsd_write rpc kc path data = ask_bit rpc IPC_TYPE_FS_WRITE (fsd_write_req path data) (kc_write kc path data)"

definition spud_fsd_remove :: "'w rpc \<Rightarrow> 'w kcalls \<Rightarrow> string \<Rightarrow> 'w \<Rightarrow> bool \<times> 'w" where
  "spud_fsd_remove rpc kc path = ask_bit rpc IPC_TYPE_FS_REMOVE (cstr path) (kc_remove kc path)"

definition spud_fsd_mkdir :: "'w rpc \<Rightarrow> 'w kcalls \<Rightarrow> string \<Rightarrow> 'w \<Rightarrow> bool \<times> 'w" where
  "spud_fsd_mkdir rpc kc path = ask_bit rpc IPC_TYPE_FS_MKDIR (cstr path) (kc_create kc path True)"

definition spud_fsd_audit :: "'w rpc \<Rightarrow> nat \<Rightarrow> 'w \<Rightarrow> string option \<times> 'w" where
  "spud_fsd_audit rpc mx = rpc IPC_TYPE_FS_AUDIT [] (mx - 1)"

text \<open>The calls the programs use: 0 or -1 for the operations without a text.\<close>

definition status :: "bool \<times> 'w \<Rightarrow> int \<times> 'w" where
  "status r = (if fst r then 0 else -1, snd r)"

definition spud_fs_read :: "'w rpc \<Rightarrow> 'w kcalls \<Rightarrow> string \<Rightarrow> nat \<Rightarrow> 'w \<Rightarrow> string option \<times> 'w" where
  "spud_fs_read = spud_fsd_read"

definition spud_fs_list :: "'w rpc \<Rightarrow> 'w kcalls \<Rightarrow> string \<Rightarrow> nat \<Rightarrow> 'w \<Rightarrow> string option \<times> 'w" where
  "spud_fs_list = spud_fsd_list"

definition spud_fs_write :: "'w rpc \<Rightarrow> 'w kcalls \<Rightarrow> string \<Rightarrow> string \<Rightarrow> 'w \<Rightarrow> int \<times> 'w" where
  "spud_fs_write rpc kc path data w = status (spud_fsd_write rpc kc path data w)"

definition spud_fs_create_file :: "'w rpc \<Rightarrow> 'w kcalls \<Rightarrow> string \<Rightarrow> 'w \<Rightarrow> int \<times> 'w" where
  "spud_fs_create_file rpc kc path w = status (spud_fsd_create rpc kc path w)"

definition spud_fs_create_dir :: "'w rpc \<Rightarrow> 'w kcalls \<Rightarrow> string \<Rightarrow> 'w \<Rightarrow> int \<times> 'w" where
  "spud_fs_create_dir rpc kc path w = status (spud_fsd_mkdir rpc kc path w)"

definition spud_fs_remove :: "'w rpc \<Rightarrow> 'w kcalls \<Rightarrow> string \<Rightarrow> 'w \<Rightarrow> int \<times> 'w" where
  "spud_fs_remove rpc kc path w = status (spud_fsd_remove rpc kc path w)"

text \<open>The contract service; only the list has a call of the kernel behind it.\<close>

definition spud_synd_list :: "'w rpc \<Rightarrow> (nat \<Rightarrow> 'w \<Rightarrow> string option) \<Rightarrow> string option \<Rightarrow> nat \<Rightarrow> 'w \<Rightarrow> string option \<times> 'w" where
  "spud_synd_list rpc kcall filtro mx =
    ask_text rpc IPC_TYPE_SYN_LIST (case filtro of None \<Rightarrow> [] | Some f \<Rightarrow> cstr f) mx
      (\<lambda>w. map_option (\<lambda>t. cstr (take (mx - 1) t)) (kcall mx w))"

definition spud_synd_read :: "'w rpc \<Rightarrow> string \<Rightarrow> nat \<Rightarrow> 'w \<Rightarrow> string option \<times> 'w" where
  "spud_synd_read rpc path mx = rpc IPC_TYPE_SYN_READ (cstr path) (mx - 1)"

definition answer_bit :: "string option \<times> 'w \<Rightarrow> int \<times> 'w" where
  "answer_bit r = (case r of (None, w) \<Rightarrow> (-1, w) | (Some d, w) \<Rightarrow> (if d \<noteq> [] \<and> hd d = CHR ''1'' then 1 else 0, w))"

definition spud_synd_consent :: "'w rpc \<Rightarrow> string \<Rightarrow> 'w \<Rightarrow> int \<times> 'w" where
  "spud_synd_consent rpc path w = answer_bit (rpc IPC_TYPE_SYN_CONSENT (cstr path) 15 w)"

definition spud_synd_revoke :: "'w rpc \<Rightarrow> string \<Rightarrow> 'w \<Rightarrow> int \<times> 'w" where
  "spud_synd_revoke rpc path w = answer_bit (rpc IPC_TYPE_SYN_REVOKE (cstr path) 15 w)"

definition spud_synd_audit :: "'w rpc \<Rightarrow> nat \<Rightarrow> 'w \<Rightarrow> string option \<times> 'w" where
  "spud_synd_audit rpc mx = rpc IPC_TYPE_SYN_AUDIT [] (mx - 1)"

text \<open>The list of the accounts and the removal of one; \<open>kcall\<close> is the kernel's call.\<close>

definition spud_auth_list :: "'w rpc \<Rightarrow> (nat \<Rightarrow> 'w \<Rightarrow> string option) \<Rightarrow> nat \<Rightarrow> 'w \<Rightarrow> string option \<times> 'w" where
  "spud_auth_list rpc kcall mx = ask_text rpc IPC_TYPE_AUTH_LIST [] mx (kcall mx)"

definition spud_auth_delete :: "'w rpc \<Rightarrow> (string \<Rightarrow> 'w \<Rightarrow> int \<times> 'w) \<Rightarrow> string \<Rightarrow> 'w \<Rightarrow> int \<times> 'w" where
  "spud_auth_delete rpc kcall name w =
    (case rpc IPC_TYPE_AUTH_DELETE (cstr name) 15 w of
       (Some d, w) \<Rightarrow> (if d \<noteq> [] \<and> hd d = CHR ''1'' then 1 else 0, w)
     | (None, w) \<Rightarrow> kcall name w)"

section \<open>A request served\<close>









section \<open>The shell over the file service\<close>

text \<open>The service answers every request that fits its buffer.\<close>

definition fsd_link :: "'k kcalls \<Rightarrow> u32 \<Rightarrow> (fsd \<times> 'k) rpc" where
  "fsd_link ops pid type req mx s =
    (if REQ_MAX \<le> length req then (None, s)
     else case fsd_handler ops pid type req s of (r, s) \<Rightarrow> (map_option (take mx) r, s))"

text \<open>The calls of the shell on files, over a service and the kernel.\<close>

definition over_service :: "'w rpc \<Rightarrow> 'w kcalls \<Rightarrow> 'w world \<Rightarrow> 'w world" where
  "over_service rpc kc ops = ops\<lparr>w_list := spud_fs_list rpc kc, w_read := spud_fs_read rpc kc,
     w_write := (\<lambda>p d w. case spud_fs_write rpc kc p d w of (r, w) \<Rightarrow> (r = 0, w)),
     w_create_file := (\<lambda>p w. case spud_fs_create_file rpc kc p w of (r, w) \<Rightarrow> (r = 0, w)),
     w_create_dir := (\<lambda>p w. case spud_fs_create_dir rpc kc p w of (r, w) \<Rightarrow> (r = 0, w)),
     w_remove := (\<lambda>p w. case spud_fs_remove rpc kc p w of (r, w) \<Rightarrow> (r = 0, w))\<rparr>"

abbreviation fsd_world :: "'k kcalls \<Rightarrow> u32 \<Rightarrow> (fsd \<times> 'k) kcalls \<Rightarrow> (fsd \<times> 'k) world \<Rightarrow> (fsd \<times> 'k) world" where
  "fsd_world kops pid kc ops \<equiv> over_service (fsd_link kops pid) kc ops"

lemma fsd_link_read:
  assumes "fsd_ok st" "own_path p" "length p < 48"
  shows "fsd_link kops pid IPC_TYPE_READ p mx (st, k) =
    (Some (take mx (case stored st p of None \<Rightarrow> ''erro: nao encontrado'' | Some d \<Rightarrow> d)), audit_push (CHR ''r'') pid p st, k)"
  using assms(3) by (simp add: fsd_link_def REQ_MAX_def read_reply [OF assms(2,1)])

lemma cat_over_fsd:
  assumes "fsd_ok st" "own_path (px_path arg px)" "length (px_path arg px) < 48"
    "d = (case stored st (px_path arg px) of None \<Rightarrow> ''erro: nao encontrado'' | Some d \<Rightarrow> d)" "NUL \<notin> set d" "length d < 1023"
  shows "fst (cmd_cat (fsd_world kops pid kc ops) arg px (st, k)) = d @ (if d = [] \<or> last d \<noteq> CHR 0x0A then [CHR 0x0A] else [])"
proof -
  have "cstr (px_path arg px) = px_path arg px" using assms(2) by (simp add: own_path_def cstr_id)
  then show ?thesis
    using fsd_link_read [OF assms(1-3), of kops pid 1022 k] assms(5,6)
    by (simp add: cmd_cat_def over_service_def spud_fs_read_def spud_fsd_read_def ask_text_def cstr_id flip: assms(4))
qed

lemma write_req_own:
  assumes "NUL \<notin> set p" "length p < 48"
  shows "fsd_write_req p data = p @ CHR 0x0A # take (382 - length p) data"
  using assms by (simp add: fsd_write_req_def cstr_id Let_def)

lemma px_write_own:
  assumes "own_path p" "length p < 48" "NUL \<notin> set data" "fsd_st_find p st \<noteq> None \<or> length (sd_files st) < ST_MAX"
  shows "\<exists>st1. fsd_st_set p (take (382 - length p) data) (audit_push (CHR ''w'') pid p st) = (True, st1) \<and>
    w_write (fsd_world kops pid kc ops) p data (st, k) = (True, st1, k)"
proof -
  let ?d = "take (382 - length p) data"
  have n: "NUL \<notin> set p" "NUL \<notin> set ?d" "length p < 64" using assms(1-3) by (auto simp: own_path_def dest: in_set_takeD)
  from handle_write [OF assms(1) n(3,2) assms(4), of pid kops k]
  obtain st1 where s: "fsd_st_set p ?d (audit_push (CHR ''w'') pid p st) = (True, st1)"
    and w: "fsd_handler kops pid IPC_TYPE_FS_WRITE (p @ CHR 0x0A # ?d) (st, k) = (Some ''1'', st1, k)" by blast
  have "length p + min (length data) (382 - length p) < 511" using assms(2) by simp
  then have "w_write (fsd_world kops pid kc ops) p data (st, k) = (True, st1, k)"
    using assms(2) w by (simp add: over_service_def spud_fs_write_def spud_fsd_write_def ask_bit_def fsd_link_def
      write_req_own [OF n(1) assms(2)] REQ_MAX_def status_def)
  then show ?thesis using s by blast
qed

lemma typable_no_NUL: "typable l \<Longrightarrow> NUL \<notin> set l"
  by (metis typable_cstr NUL_notin_cstr)

lemma lines_no_NUL: "\<forall>l\<in>set ls. typable l \<Longrightarrow> NUL \<notin> set (concat (map ln ls))"
  by (auto simp: ln_def typable_no_NUL)

text \<open>C35. A file of the service written with the editor of the shell and shown with \<open>cat\<close>, for a path under 48
  characters, with the file there already or room for one more, and lines under 119 characters and under 4095 in
  all: \<open>cat\<close> shows of the text typed as many characters as fit a request of 382 with the path.  What does not
  fit is lost; the shell says that the file was written.\<close>

theorem edit_then_cat:
  assumes "fsd_ok st" "own_path (px_path arg px)" "length (px_path arg px) < 48" "cstr arg \<noteq> []"
    "fsd_st_find (px_path arg px) st \<noteq> None \<or> length (sd_files st) < ST_MAX"
    "\<forall>l\<in>set ls. typable l \<and> length l < 119 \<and> l \<noteq> ''.''" "length (concat (map ln ls)) < 4095"
    "t = take (382 - length (px_path arg px)) (concat (map ln ls))"
  shows "\<exists>out st1. cmd_sygraphe (fsd_world kops pid kc ops) arg (concat (map ln ls) @ ln ''.'' @ keys) px (st, k) =
      PNext (out @ ln ''gravado.'') keys px (st1, k) \<and>
    fst (cmd_cat (fsd_world kops pid kc ops) arg px (st1, k)) = t @ (if t = [] \<or> last t \<noteq> CHR 0x0A then [CHR 0x0A] else [])"
proof -
  let ?p = "px_path arg px" and ?t = "concat (map ln ls)"
  have n: "NUL \<notin> set ?t" by (rule lines_no_NUL) (use assms(6) in blast)
  obtain o1 where e: "edit_loop (?t @ ln ''.'' @ keys) [] (ln (''--- sygraphe (linha com '' @ [CHR 0x27, CHR ''.'', CHR 0x27] @ '' grava e sai) ---'')) =
      Some (Some ?t, False, keys, o1)"
    using editor_keeps_lines [OF assms(6,7)] by blast
  obtain st1 where s: "fsd_st_set ?p t (audit_push (CHR ''w'') pid ?p st) = (True, st1)"
    and w: "w_write (fsd_world kops pid kc ops) ?p ?t (st, k) = (True, st1, k)"
    using px_write_own [OF assms(2,3) n assms(5), of pid kops kc ops k] assms(8) by blast
  have np: "NUL \<notin> set ?p" using assms(2) by (simp add: own_path_def)
  have "length t \<le> 382" unfolding assms(8) by simp
  then have d: "stored st1 ?p = Some t"
    using stored_set [OF s np assms(3) fsd_ok_audit [OF assms(1)], of ?p] np by (simp add: cstr_id ST_DATA_def)
  have "NUL \<notin> set t" using n assms(8) by (auto dest: in_set_takeD)
  with cat_over_fsd [OF fsd_ok_set [OF fsd_ok_audit [OF assms(1)] s] assms(2,3), of t kops pid kc ops k] d \<open>length t \<le> 382\<close>
  have "fst (cmd_cat (fsd_world kops pid kc ops) arg px (st1, k)) = t @ (if t = [] \<or> last t \<noteq> CHR 0x0A then [CHR 0x0A] else [])"
    by simp
  moreover have "cmd_sygraphe (fsd_world kops pid kc ops) arg (?t @ ln ''.'' @ keys) px (st, k) = PNext (o1 @ ln ''gravado.'') keys px (st1, k)"
    using assms(4) w unfolding cmd_sygraphe_def e by simp
  ultimately show ?thesis by blast
qed

text \<open>A file the service does not have is shown as its message, as if that were the text: the shell's own message
  for a failed read never appears.\<close>

theorem missing_file_shown:
  assumes "fsd_ok st" "own_path (px_path arg px)" "length (px_path arg px) < 48" "stored st (px_path arg px) = None"
  shows "fst (cmd_cat (fsd_world kops pid kc ops) arg px (st, k)) = ln ''erro: nao encontrado''"
  using cat_over_fsd [OF assms(1-3) refl, of kops pid kc ops k] assms(4) by (simp add: ln_def)

lemma spud_ncpy_short: "0 < n \<Longrightarrow> length (spud_ncpy s n) < n"
  by (simp add: spud_ncpy_def)

lemma px_path_short: "px_ok px \<Longrightarrow> length (px_path arg px) < 512"
  using length_cstr_le [of arg] by (auto simp: px_path_eq px_ok_def CWD_MAX_def spud_ncpy_def)

text \<open>With the service running, \<open>cd\<close> takes every directory whose path is short enough, there or not: the refusal of
  the service is a text too.\<close>

theorem cd_anywhere:
  assumes "px_ok px" "cstr arg \<noteq> []" "cstr arg \<noteq> ''~''" "spud_len (px_path arg px) < CWD_MAX"
  shows "\<exists>s1. cmd_cd (fsd_world kops pid kc ops) arg px s = ([], px\<lparr>px_cwd := cstr (px_path arg px)\<rparr>, s1)"
proof -
  have l: "length (cstr (px_path arg px)) < REQ_MAX"
    using px_path_short [OF assms(1), of arg] length_cstr_le [of "px_path arg px"] by (simp add: REQ_MAX_def)
  obtain r s1 where h: "fsd_handler kops pid IPC_TYPE_LIST (cstr (px_path arg px)) s = (Some r, s1)"
    by (cases "fsd_list kops pid (cstr (px_path arg px)) s") (simp add: fsd_handler_def fs_types)
  have "cstr ''~'' = ''~''" by simp
  then show ?thesis
    using l assms(2-4) h
    by (simp add: cmd_cd_def over_service_def spud_fs_list_def spud_fsd_list_def ask_text_def fsd_link_def Let_def
        spud_cmp_iff spud_len_cstr) (simp add: spud_ncpy_def)
qed

definition kernel_left :: "(fsd \<times> kern) kcalls" where
  "kernel_left = \<lparr>kc_read = (\<lambda>p n (st, k). kc_read kernel_calls p n k), kc_list = (\<lambda>p n (st, k). kc_list kernel_calls p n k),
     kc_create = (\<lambda>p d (st, k). case kc_create kernel_calls p d k of (b, k) \<Rightarrow> (b, st, k)),
     kc_write = (\<lambda>p d (st, k). case kc_write kernel_calls p d k of (b, k) \<Rightarrow> (b, st, k)),
     kc_remove = (\<lambda>p (st, k). case kc_remove kernel_calls p k of (b, k) \<Rightarrow> (b, st, k))\<rparr>"

definition no_programs :: "'w world" where
  "no_programs = \<lparr>w_list = (\<lambda>p n w. (None, w)), w_read = (\<lambda>p n w. (None, w)), w_write = (\<lambda>p d w. (False, w)),
     w_create_file = (\<lambda>p w. (False, w)), w_create_dir = (\<lambda>p w. (False, w)), w_remove = (\<lambda>p w. (False, w)),
     w_users = Pair None, w_delete = (\<lambda>n w. (0, w)), w_changepw = (\<lambda>a b c w. (0, w)), w_create_user = (\<lambda>a b w. (0, w)),
     w_exec = (\<lambda>p a w. (0, w)), w_procs = (\<lambda>w. None), w_info = (\<lambda>w. None), w_uptime = (\<lambda>w. 0),
     w_contracts = (\<lambda>w. None), w_clear = id\<rparr>"

abbreviation shell_world :: "(fsd \<times> kern) world" where
  "shell_world \<equiv> fsd_world kernel_calls 5 kernel_left no_programs"

lemma note_path: "px_path ''/nomos/b'' at_praxis = ''/nomos/b''" "px_ok at_praxis"
  by (simp_all add: px_path_def spud_resolve_def at_praxis_def px_ok_def CWD_MAX_def spud_ncpy_def)

lemma note_free: "fsd_st_find ''/nomos/b'' one_note \<noteq> None \<or> length (sd_files one_note) < ST_MAX" "stored one_note ''/nomos/b'' = None"
  by (simp_all add: one_note_def ST_MAX_def stored_def)

lemma edit_then_cat_witness:
  "\<exists>out st1. cmd_sygraphe shell_world ''/nomos/b'' (ln ''first'' @ ln ''second'' @ ln ''.'') at_praxis (one_note, demo_kern) =
     PNext (out @ ln ''gravado.'') [] at_praxis (st1, demo_kern) \<and>
   fst (cmd_cat shell_world ''/nomos/b'' at_praxis (st1, demo_kern)) = ln ''first'' @ ln ''second''"
proof -
  have t: "\<forall>l\<in>set [''first'', ''second'']. typable l \<and> length l < 119 \<and> l \<noteq> ''.''" by (simp add: typable_def)
  from edit_then_cat [OF one_note_ok(1) _ _ _ _ t _ refl, of "''/nomos/b''" at_praxis kernel_calls 5 kernel_left no_programs "[]" demo_kern]
  show ?thesis using own_note(1) note_free(1) by (simp add: note_path ln_def)
qed

lemma missing_file_shown_witness:
  "fst (cmd_cat shell_world ''/nomos/b'' at_praxis (one_note, demo_kern)) = ln ''erro: nao encontrado''"
  using missing_file_shown [OF one_note_ok(1), of "''/nomos/b''" at_praxis] own_note(1) note_free(2) by (simp add: note_path)

lemma cd_anywhere_witness:
  "\<exists>s1. cmd_cd shell_world ''/nomos/b'' at_praxis (one_note, demo_kern) = ([], at_praxis\<lparr>px_cwd := ''/nomos/b''\<rparr>, s1)"
  using cd_anywhere [OF note_path(2), of "''/nomos/b''" kernel_calls 5 kernel_left no_programs "(one_note, demo_kern)"]
  by (simp add: note_path CWD_MAX_def)

end
