(* ===== verification/Tools.thy ===== *)
theory Tools
  imports Clients
begin

text \<open>
  The small programs in ring 3: ls, cat, ps, mem, echo and hello, the self-test of the file
  service wtest, and phrourio, which tests that a program without the rights for devices is
  refused by the kernel.

  A program is a function of its arguments and the state of the system; its value is what
  it prints, its exit code and the state.
\<close>

unbundle bit_operations_syntax

section \<open>Files, processes, memory, words\<close>

definition ls_main :: "'w rpc \<Rightarrow> 'w kcalls \<Rightarrow> string list \<Rightarrow> 'w \<Rightarrow> string \<times> int \<times> 'w" where
  "ls_main rpc kc argv w =
    (let path = (if 1 < length argv then argv ! 1 else ''/praxis'') in
     case spud_fs_list rpc kc path 4096 w of
       (None, w) \<Rightarrow> (ln ''ls: permissao negada ou caminho invalido'', 1, w)
     | (Some buf, w) \<Rightarrow> (cstr buf, 0, w))"

definition cat_main :: "'w rpc \<Rightarrow> 'w kcalls \<Rightarrow> string list \<Rightarrow> 'w \<Rightarrow> string \<times> int \<times> 'w" where
  "cat_main rpc kc argv w =
    (if length argv < 2 then (ln ''cat: uso: cat <arquivo>'', 1, w)
     else case spud_fs_read rpc kc (argv ! 1) 1023 w of
       (None, w) \<Rightarrow> (ln ''cat: nao encontrado ou sem permissao'', 1, w)
     | (Some buf, w) \<Rightarrow> (cstr buf @ (if buf = [] \<or> last buf \<noteq> CHR 0x0A then [CHR 0x0A] else []), 0, w))"

definition ps_main :: "proc_info list option \<Rightarrow> string \<times> int" where
  "ps_main pl =
    (case pl of
       None \<Rightarrow> (ln ''ps: erro'', 1)
     | Some ps \<Rightarrow> (concat (map (\<lambda>p. ln (''  '' @ spud_print_dec (unat (pi_pid p)) @ '' '' @ cstr (pi_name p) @ '' ['' @
         px_state (pi_state p) @ (if pi_user p then '' u'' else '' k'') @ '']'')) (take 64 ps)), 0))"

definition mem_main :: "system_info option \<Rightarrow> string \<times> int" where
  "mem_main si =
    (case si of
       None \<Rightarrow> (ln ''mem: erro'', 1)
     | Some s \<Rightarrow> (ln (''  total: '' @ spud_print_dec (unat (si_total s)) @ ''B'') @
         ln (''  usado: '' @ spud_print_dec (unat (si_used s)) @ ''B'') @
         ln (''  livre: '' @ spud_print_dec (unat (si_free s)) @ ''B''), 0))"

fun echo_words :: "string list \<Rightarrow> string" where
  "echo_words [] = []"
| "echo_words [a] = cstr a"
| "echo_words (a # as) = cstr a @ '' '' @ echo_words as"

definition echo_main :: "string list \<Rightarrow> string \<times> int" where
  "echo_main argv = (echo_words (drop 1 argv) @ [CHR 0x0A], 0)"

definition hello_main :: "string list \<Rightarrow> string \<times> int" where
  "hello_main argv = (''[hello] args:'' @ concat (map (\<lambda>a. '' '' @ cstr a) argv) @ [CHR 0x0A], 0)"

section \<open>The self-test of the file service\<close>

definition wtest_path :: string where "wtest_path = ''/paradosis/wtest.txt''"
definition wtest_payload :: string where "wtest_payload = ln ''ola escrita 123'' @ ln ''segunda linha''"

definition wtest_main :: "'w rpc \<Rightarrow> 'w kcalls \<Rightarrow> 'w \<Rightarrow> string \<times> int \<times> 'w" where
  "wtest_main rpc kc w =
    (case spud_fs_write rpc kc wtest_path wtest_payload w of (r, w) \<Rightarrow>
      if r \<noteq> 0 then (ln ''[wtest] SYS_FS_WRITE falhou'', 1, w)
      else case spud_fs_read rpc kc wtest_path 127 w of
        (None, w) \<Rightarrow> (ln ''[wtest] SYS_FS_READ falhou'', 1, w)
      | (Some buf, w) \<Rightarrow>
         if spud_cmp buf wtest_payload \<noteq> 0
           then (''[wtest] conteudo divergente: '' @ [CHR 0x27] @ cstr buf @ [CHR 0x27, CHR 0x0A], 1, w)
         else (''[wtest] escrita+leitura ok: '' @ [CHR 0x27] @ cstr buf @ [CHR 0x27, CHR 0x0A], 0, w))"

section \<open>The test of the rights\<close>

text \<open>What a call returns, as a signed number, and the state after it.\<close>

definition call_result :: "outcome \<Rightarrow> (int \<times> kern) option" where
  "call_result r = (case r of Ret v k evs \<Rightarrow> Some (sint v, k) | _ \<Rightarrow> None)"

definition expect_denied :: "int \<Rightarrow> string \<Rightarrow> bool \<times> string" where
  "expect_denied r what = (if r = -1 then (True, []) else (False, ''[phrourio] NAO negado: '' @ ln what))"

text \<open>The calls in order, each with the name for its message: number and three arguments.\<close>

fun denied_all :: "env \<Rightarrow> (u64 \<times> u64 \<times> u64 \<times> u64 \<times> string) list \<Rightarrow> kern \<Rightarrow> (bool \<times> string \<times> kern) option" where
  "denied_all e [] k = Some (True, [], k)"
| "denied_all e ((nr, a1, a2, a3, what) # cs) k =
    (case call_result (syscall_dispatch e nr a1 a2 a3 0 k) of
       None \<Rightarrow> None
     | Some (r, k) \<Rightarrow>
        (case denied_all e cs k of
           None \<Rightarrow> None
         | Some (ok, out, k) \<Rightarrow> Some (fst (expect_denied r what) \<and> ok, snd (expect_denied r what) @ out, k)))"

text \<open>\<open>readable\<close>: the file could be read; \<open>p\<close>: the block of the heap, or 0; \<open>c\<close>: the address of the command for
  the screen.\<close>

definition phrourio_main :: "env \<Rightarrow> bool \<Rightarrow> u64 \<Rightarrow> u64 \<Rightarrow> kern \<Rightarrow> (string \<times> int \<times> kern) option" where
  "phrourio_main e readable p c k =
    (let out = (if readable then [] else ln ''[phrourio] controle+ FS_READ falhou'') @
               (if p \<noteq> 0 then [] else ln ''[phrourio] controle+ malloc falhou'') in
     case denied_all e [(32, 0, 0x40, 0, ''SYS_IO_PORT''), (34, 0, 4096, 0, ''SYS_DEV_MAP''),
         (35, p, 0, 0, ''SYS_V2P''), (31, c, 0, 0, ''SYS_FB_DRAW'')] k of
       None \<Rightarrow> None
     | Some (denied, o1, k) \<Rightarrow>
        let ok = (readable \<and> p \<noteq> 0 \<and> denied)
        in Some (out @ o1 @ ln (if ok then ''[phrourio] capacidades isoladas OK'' else ''[phrourio] isolamento FALHOU''),
             if ok then 0 else 1, k))"

section \<open>Properties\<close>

text \<open>The self-test of the file service passes whenever the store has room for its file.\<close>

theorem wtest_passes:
  assumes "fsd_ok st" "fsd_st_find wtest_path st \<noteq> None \<or> length (sd_files st) < ST_MAX"
  shows "\<exists>st1. wtest_main (fsd_link kops pid) kc (st, k) =
    (''[wtest] escrita+leitura ok: '' @ [CHR 0x27] @ wtest_payload @ [CHR 0x27, CHR 0x0A], 0, st1, k)"
proof -
  let ?p = "wtest_path" and ?t = "wtest_payload"
  have p: "own_path ?p" "length ?p < 48" "NUL \<notin> set ?p"
    by (simp_all add: own_path_def wtest_path_def fsd_st_owns_def spud_strstr_def)
  have t: "NUL \<notin> set ?t" "length ?t \<le> 64" by (simp_all add: wtest_payload_def ln_def)
  have d: "take (382 - length ?p) ?t = ?t" "take 126 ?t = ?t" "take (ST_DATA - 1) ?t = ?t" "cstr ?t = ?t"
    using t p(2) by (simp_all add: cstr_id ST_DATA_def)
  obtain st1 where s: "fsd_st_set ?p ?t (audit_push (CHR ''w'') pid ?p st) = (True, st1)"
    and w: "w_write (fsd_world kops pid kc no_programs) ?p ?t (st, k) = (True, st1, k)"
    using px_write_own [OF p(1,2) t(1) assms(2), of pid kops kc no_programs k] d(1) by auto
  have f: "spud_fs_write (fsd_link kops pid) kc ?p ?t (st, k) = (0, st1, k)"
    using w by (auto simp: over_service_def split: prod.splits)
  have g: "stored st1 ?p = Some ?t"
    using stored_set [OF s p(3,2) fsd_ok_audit [OF assms(1)], of ?p] p(3) d(3) by (simp add: cstr_id)
  have "spud_fs_read (fsd_link kops pid) kc ?p 127 (st1, k) = (Some ?t, audit_push (CHR ''r'') pid ?p st1, k)"
    using fsd_link_read [OF fsd_ok_set [OF fsd_ok_audit [OF assms(1)] s] p(1,2), of kops pid 126 k] g d(2)
    by (simp add: spud_fs_read_def spud_fsd_read_def ask_text_def cstr_id [OF p(3)])
  then show ?thesis using f by (simp add: wtest_main_def spud_cmp_iff d(4))
qed

lemma wtest_passes_witness:
  "\<exists>st1. wtest_main (fsd_link kernel_calls 5) kernel_left (one_note, demo_kern) =
    (''[wtest] escrita+leitura ok: '' @ [CHR 0x27] @ wtest_payload @ [CHR 0x27, CHR 0x0A], 0, st1, demo_kern)"
  by (rule wtest_passes [OF one_note_ok(1)]) (simp add: one_note_def ST_MAX_def)

lemma deny_err: "sint SYSERR = -1"
  by (simp add: SYSERR_def sint_uint)

lemma denied_here:
  assumes "current_proc k = Some p" "p_rights p AND CAP_SYSCALL \<noteq> 0"
    "p_rights p AND CAP_DEV_IO = 0" "nr = 32 \<or> nr = 34 \<or> nr = 35"
  shows "syscall_dispatch e nr a1 a2 a3 0 k = err k"
proof -
  have "p_rights p \<noteq> CAP_ALL" using assms(3) by (auto simp: cap_defs CAP_ALL_def)
  then have c: "\<not> syscall_cap CAP_DEV_IO k" using assms(1,3) by (simp add: syscall_cap_def)
  obtain i where i: "cur (k_sys k) = Some i" "procs (k_sys k) ! i = p"
    using assms(1) by (auto simp: current_proc_def split: option.splits)
  show ?thesis using assms(1,2,4) c i
    by (auto simp: syscall_dispatch_def SYS_EXEC_def SYS_IPC_RECV_def SYS_FS_READ_def SYS_SESSION_LOGIN_def
      sys_io_port_def sys_dev_map_def sys_v2p_def)
qed

lemma sint_not_err: "v \<noteq> SYSERR \<Longrightarrow> sint v \<noteq> -1"
  by (metis deny_err signed_word_eqI)

lemma io_port_read:
  assumes "current_proc k = Some p" "p_rights p AND CAP_SYSCALL \<noteq> 0" "p_rights p AND CAP_DEV_IO \<noteq> 0"
  shows "\<exists>v. syscall_dispatch e 32 0 0x40 0 0 k = Ret v k [] \<and> sint v \<noteq> -1"
proof -
  have "e_port e 8 0x40 AND 0xFF \<le> 0xFF" by (rule word_and_le1)
  then have "e_port e 8 0x40 AND 0xFF \<noteq> SYSERR" by (auto simp: SYSERR_def)
  from sint_not_err [OF this] show ?thesis using assms
    by (auto simp: syscall_dispatch_def SYS_EXEC_def SYS_IPC_RECV_def SYS_FS_READ_def SYS_SESSION_LOGIN_def
      sys_io_port_def syscall_cap_def)
qed

lemma clear_screen:
  assumes "current_proc k = Some p" "p_rights p AND CAP_SYSCALL \<noteq> 0" "user_ptr_ok c 40 k" "c \<noteq> 0" "mem_u32 e c = 0"
  shows "syscall_dispatch e 31 c 0 0 0 k =
    (if p_rights p AND CAP_FB_DRAW = 0 then err k else Ret 0 k [Draw (DClear (mem_u32 e (c + 20)))])"
proof -
  have "p_rights p = CAP_ALL \<Longrightarrow> p_rights p AND CAP_FB_DRAW \<noteq> 0" by (simp add: cap_defs)
  then show ?thesis using assms
    by (auto simp: syscall_dispatch_def SYS_EXEC_def SYS_IPC_RECV_def SYS_FS_READ_def SYS_SESSION_LOGIN_def
      sys_fb_draw_def syscall_cap_def Let_def)
qed

lemma denied_step:
  "denied_all e ((nr, a1, a2, a3, what) # cs) k = Some (True, out, k') \<longleftrightarrow>
    (\<exists>k1. call_result (syscall_dispatch e nr a1 a2 a3 0 k) = Some (-1, k1) \<and> denied_all e cs k1 = Some (True, out, k'))"
  by (auto simp: expect_denied_def split: option.splits prod.splits)

text \<open>C4. The test of the rights reports success exactly when the program has neither the right to use devices nor the
  right to draw, and then the calls it tried have changed nothing.\<close>

theorem phrourio_report:
  assumes "current_proc k = Some r" "p_rights r AND CAP_SYSCALL \<noteq> 0" "user_ptr_ok c 40 k" "c \<noteq> 0" "mem_u32 e c = 0" "p \<noteq> 0"
  shows "((\<exists>out k'. phrourio_main e True p c k = Some (out, 0, k')) \<longleftrightarrow>
      p_rights r AND CAP_DEV_IO = 0 \<and> p_rights r AND CAP_FB_DRAW = 0) \<and>
    (p_rights r AND CAP_DEV_IO = 0 \<and> p_rights r AND CAP_FB_DRAW = 0 \<longrightarrow>
      phrourio_main e True p c k = Some (ln ''[phrourio] capacidades isoladas OK'', 0, k))"
proof -
  let ?cs = "[(32, 0, 0x40, 0, ''SYS_IO_PORT''), (34, 0, 4096, 0, ''SYS_DEV_MAP''), (35, p, 0, 0, ''SYS_V2P''), (31, c, 0, 0, ''SYS_FB_DRAW'')]"
  have e: "call_result (err k) = Some (-1, k)" by (simp add: call_result_def deny_err)
  have m: "(\<exists>out k'. phrourio_main e True p c k = Some (out, 0, k')) \<longleftrightarrow> (\<exists>out k'. denied_all e ?cs k = Some (True, out, k'))"
    using assms(6) unfolding phrourio_main_def by (auto simp del: denied_all.simps split: option.splits prod.splits)
  have d: "denied_all e ?cs k = Some (True, [], k)" if "p_rights r AND CAP_DEV_IO = 0" "p_rights r AND CAP_FB_DRAW = 0"
    using denied_here [OF assms(1,2) that(1)] clear_screen [OF assms(1-5)] that(2)
    by (simp add: denied_step e del: denied_all.simps(2))
  have n: "p_rights r AND CAP_DEV_IO = 0 \<and> p_rights r AND CAP_FB_DRAW = 0" if "denied_all e ?cs k = Some (True, out, k')" for out k'
  proof (rule conjI)
    show z: "p_rights r AND CAP_DEV_IO = 0"
    proof (rule ccontr)
      assume "p_rights r AND CAP_DEV_IO \<noteq> 0"
      from io_port_read [OF assms(1,2) this, of e] that show False by (auto simp: denied_step call_result_def simp del: denied_all.simps(2))
    qed
    show "p_rights r AND CAP_FB_DRAW = 0"
      using that denied_here [OF assms(1,2) z] clear_screen [OF assms(1-5)]
      by (auto simp: denied_step e simp del: denied_all.simps(2) split: if_splits) (simp add: call_result_def)
  qed
  have "phrourio_main e True p c k = Some (ln ''[phrourio] capacidades isoladas OK'', 0, k)"
    if "p_rights r AND CAP_DEV_IO = 0" "p_rights r AND CAP_FB_DRAW = 0"
    unfolding phrourio_main_def d [OF that] using assms(6) by simp
  then show ?thesis unfolding m using d n by blast
qed

definition app_proc :: pcb where
  "app_proc = zero_pcb\<lparr>p_present := True, p_pid := 1, p_state := Running,
     p_rights := CAP_SYSCALL OR CAP_FS_READ OR CAP_FS_WRITE OR CAP_EXEC OR CAP_IPC, p_user := True,
     p_umap := [(0x200000000000, 0x1000)]\<rparr>"

definition app_kern :: kern where
  "app_kern = demo_kern\<lparr>k_sys := upd 0 (\<lambda>_. app_proc) two_procs\<rparr>"

definition app_env :: env where
  "app_env = \<lparr>e_mem = (\<lambda>_. NUL), e_key = NUL, e_port = (\<lambda>_ _. 0), e_stack = (\<lambda>_. NUL),
     e_entropy = \<lparr>en_ticks = 0, en_proc = 0, en_pit = 0\<rparr>, e_mods = []\<rparr>"

lemma app_kern_current: "current_proc app_kern = Some app_proc"
  by (simp add: app_kern_def current_proc_def two_procs_def upd_def)

lemma phrourio_report_witness:
  "phrourio_main app_env True 0x300000000018 0x200000000000 app_kern = Some (ln ''[phrourio] capacidades isoladas OK'', 0, app_kern)"
proof -
  have c: "user_ptr_ok 0x200000000000 40 app_kern" "mem_u32 app_env 0x200000000000 = 0"
    by (simp_all add: user_ptr_ok_def app_kern_current app_proc_def mem_u32_def mem_bytes_def app_env_def le_bytes_32 at_def)
  have r: "p_rights app_proc AND CAP_SYSCALL \<noteq> 0" "p_rights app_proc AND CAP_DEV_IO = 0" "p_rights app_proc AND CAP_FB_DRAW = 0"
    by (simp_all add: app_proc_def cap_defs)
  from phrourio_report [OF app_kern_current r(1) c(1) _ c(2), of "0x300000000018"] r(2,3) show ?thesis by simp
qed

end
