(* ===== verification/Splash.thy ===== *)
theory Splash
  imports Fb
begin

text \<open>
  The picture shown while the kernel boots: src/kernel/splash.c, and the loop in
  \<open>thais_main\<close> that moves its bar; and the messages of the kernel on the serial port and
  the screen: src/kernel/serial.c.

  Drawing is that of \<open>Fb\<close>; where the arithmetic of a coordinate leaves the range of
  an \<open>int\<close> the value is \<^const>\<open>None\<close>.  The random number that chooses the phrase is
  an argument, and so are the values that the status register of the port gives.
\<close>

unbundle bit_operations_syntax

section \<open>The serial port\<close>

text \<open>The bytes written to ports, in order.\<close>

definition serial_init :: "(u16 \<times> u8) list" where
  "serial_init = [(0x3F9, 0), (0x3FB, 0x80), (0x3F8, 1), (0x3F9, 0), (0x3FB, 3), (0x3FA, 0xC7), (0x3FC, 0xB)]"

text \<open>Before each byte the status is read until its bit 5 is set.\<close>

fun serial_write :: "string \<Rightarrow> u8 list \<Rightarrow> ((u16 \<times> u8) list \<times> u8 list) option" where
  "serial_write [] st = Some ([], st)"
| "serial_write (c # s) st =
    (if c = NUL then Some ([], st)
     else case dropWhile (\<lambda>v. v AND 0x20 = 0) st of
       [] \<Rightarrow> None
     | v # st \<Rightarrow> map_option (\<lambda>(out, st). ((0x3F8, of_char c) # out, st)) (serial_write s st))"

definition kprint :: "string \<Rightarrow> u8 list \<Rightarrow> disp \<Rightarrow> ((u16 \<times> u8) list \<times> u8 list \<times> disp) option" where
  "kprint s st d =
    (case serial_write s st of
       None \<Rightarrow> None
     | Some (out, st) \<Rightarrow>
        if d_boot d then map_option (\<lambda>d. (out, st, d)) (fb_console_write (cstr s) d) else Some (out, st, d))"

text \<open>Every character goes out once and in order.\<close>

lemma serial_sends: "serial_write s st = Some (out, st') \<Longrightarrow> out = map (\<lambda>c. (0x3F8, of_char c)) (cstr s)"
  by (induction s st arbitrary: out rule: serial_write.induct) (auto split: if_splits list.splits)

section \<open>The picture\<close>

definition boot_phrases :: "string list" where
  "boot_phrases = [
     [CHR 0x22] @ ''Eles correm sem distancia, o olho alheio a sombra, alheio ao pe, alheio ao chao, nao identificam, delimitam'' @
       [CHR 0x22] @ '' - Baleia (Atlas)'',
     [CHR 0x22] @ ''A liberdade exige oposicao a toda forma de coercao contra individuos pacificos.'' @ [CHR 0x22] @ '' - Thais'',
     ''Uma ode a Menger, Hayek, Rothbard e Mises.'',
     [CHR 0x22] @ ''A menor minoria na Terra e o individuo...'' @ [CHR 0x22] @ '' - Ayn Rand (A Virtude do Egoismo)'']"

text \<open>The static variables; \<open>sp_on\<close> is whether \<open>splash_fb\<close> is set.\<close>

record splash =
  sp_on :: bool
  sp_last :: int
  sp_w :: int
  sp_h :: int
  sp_x :: int
  sp_y :: int

text \<open>Where something of this width begins when it is centred.\<close>

definition centre :: "u64 \<Rightarrow> int \<Rightarrow> int" where
  "centre sz n = c_int (sz div 2 - word_of_int (c_half n))"

definition splash_box :: "disp \<Rightarrow> splash" where
  "splash_box d =
    (let w = c_int (d_width d * 3 div 5); w = (if w < 400 then 400 else w); w = (if 800 < w then 800 else w);
         h = (if d_height d < 240 then c_int (d_height d) - 60 else 180)
     in \<lparr>sp_on = True, sp_last = -1, sp_w = w, sp_h = h, sp_x = centre (d_width d) w, sp_y = centre (d_height d) h\<rparr>)"

text \<open>The characters of a phrase that can be shown, as many as fit the box.\<close>

definition splash_phrase :: "string \<Rightarrow> int \<Rightarrow> string" where
  "splash_phrase phrase w =
    (let m = (w - 16) div 8; m = (if 80 < m then 80 else m); m = (if m < 20 then 20 else m)
     in take (nat m) (filter (\<lambda>c. 32 \<le> ord8 c \<and> ord8 c \<le> 126) (cstr phrase)))"

definition title :: string where "title = ''Siath OS v1.0.0 alpha''"
definition starting :: string where "starting = ''O Siath OS esta iniciando... Aguarde''"
definition credit :: string where "credit = ''Made with love by Thais (op3n/op3ny)''"

text \<open>The place of a line of text in the middle of the box, but not left of its border.\<close>

definition line_x :: "disp \<Rightarrow> splash \<Rightarrow> int \<Rightarrow> int" where
  "line_x d sp n = (let x = centre (d_width d) n in if x < sp_x sp + 8 then sp_x sp + 8 else x)"

definition splash_show :: "u64 \<Rightarrow> disp \<Rightarrow> (splash \<times> disp) option" where
  "splash_show r d =
    (let d = fb_clear (fb_color 0x0a 0x0a 0x12) d; sp = splash_box d; x = sp_x sp; y = sp_y sp; w = sp_w sp; h = sp_h sp;
         dark = fb_color 0x14 0x14 0x1e; buf = splash_phrase (boot_phrases ! unat (r mod 4)) w
     in Option.bind (fb_draw_rect (x - 2) (y - 2) (w + 4) (h + 4) (fb_color 0x7a 0x5a 0xff) d) (\<lambda>d.
        Option.bind (fb_draw_rect x y w h dark d) (\<lambda>d.
        Option.bind (fb_draw_text_scaled (centre (d_width d) (int (length title) * 8 * 2)) (y + 18) title (fb_color 0xff 0xff 0xff) dark 2 d) (\<lambda>d.
        Option.bind (fb_draw_text (line_x d sp (int (length starting) * 8)) (y + 58) starting (fb_color 0xcc 0xcc 0xdd) dark d) (\<lambda>d.
        Option.bind (fb_draw_text (line_x d sp (int (length credit) * 8)) (y + h - 30) credit (fb_color 0xff 0x8a 0xc8) dark d) (\<lambda>d.
        Option.bind (fb_draw_text (line_x d sp (int (length buf) * 8)) (y + h - 50) buf (fb_color 0x9a 0x9a 0xb0) dark d) (\<lambda>d.
          Some (sp, d))))))))"

definition splash_set_spinner :: "nat \<Rightarrow> splash \<Rightarrow> disp \<Rightarrow> disp option" where
  "splash_set_spinner frame sp d =
    (if \<not> sp_on sp \<or> 50 \<le> sp_last sp then Some d
     else fb_draw_char (sp_x sp + sp_w sp - 24) (sp_y sp + 58) ((''|/-'' @ [CHR 0x5C]) ! (frame mod 4))
            (fb_color 0x7a 0x5a 0xff) (fb_color 0x14 0x14 0x1e) d)"

text \<open>The bar: empty below one half, then filled with a percentage beside it, and a line of text below.\<close>

definition empty_bar :: "int \<Rightarrow> int \<Rightarrow> int \<Rightarrow> disp \<Rightarrow> disp option" where
  "empty_bar cx cy w d =
    Option.bind (fb_draw_rect cx cy w 16 (fb_color 0x2a 0x2a 0x3a) d) (\<lambda>d.
    Option.bind (fb_draw_rect cx cy w 2 (fb_color 0x4a 0x4a 0x6a) d) (\<lambda>d.
      fb_draw_rect cx (cy + 16 - 2) w 2 (fb_color 0x4a 0x4a 0x6a) d))"

definition filled_bar :: "int \<Rightarrow> int \<Rightarrow> int \<Rightarrow> int \<Rightarrow> disp \<Rightarrow> disp option" where
  "filled_bar cx cy w percent d =
    (if \<not> int_ok ((w - 4) * (percent - 50)) then None
     else
       Option.bind (fb_draw_rect cx cy w 16 (fb_color 0x2a 0x2a 0x3a) d) (\<lambda>d.
       Option.bind (fb_draw_rect (cx + 2) (cy + 2) ((w - 4) * (percent - 50) div 50) (16 - 4) (fb_color 0x7a 0x5a 0xff) d) (\<lambda>d.
       Option.bind (snprintf 16 ''%d%%'' [AInt (word_of_int percent)]) (\<lambda>buf.
         fb_draw_text (cx + w + 10) cy buf (fb_color 0xff 0xff 0xff) (fb_color 0x0a 0x0a 0x12) d))))"

definition progress_line :: "int \<Rightarrow> string option" where
  "progress_line percent =
    snprintf 64 ''[%s>]'' [AStr (Some (map (\<lambda>i. if int i < percent div 5 then CHR ''='' else CHR '' '') [0..<20]))]"

definition splash_set_progress :: "int \<Rightarrow> splash \<Rightarrow> disp \<Rightarrow> (splash \<times> disp) option" where
  "splash_set_progress percent sp d =
    (if \<not> sp_on sp then Some (sp, d)
     else
       let sp = sp\<lparr>sp_last := percent\<rparr>; w = (if sp_w sp - 40 < 200 then 200 else sp_w sp - 40);
           cx = centre (d_width d) w; cy = sp_y sp + c_half (sp_h sp) + 10
       in if percent < 50 then map_option (Pair sp) (empty_bar cx cy w d)
          else
            Option.bind (filled_bar cx cy w percent d) (\<lambda>d.
            Option.bind (progress_line percent) (\<lambda>line.
              map_option (Pair sp) (fb_draw_text (centre (d_width d) (int (length line) * 8)) (cy + 22) line
                (fb_color 0x7a 0x5a 0xff) (fb_color 0x14 0x14 0x1e) d))))"

text \<open>The loop of the boot: the percentages in turn.\<close>

fun splash_frames :: "nat list \<Rightarrow> splash \<Rightarrow> disp \<Rightarrow> (splash \<times> disp) option" where
  "splash_frames [] sp d = Some (sp, d)"
| "splash_frames (p # ps) sp d =
    Option.bind (splash_set_progress (int p) sp d) (\<lambda>(sp, d).
    Option.bind (splash_set_spinner (p mod 4) sp d) (\<lambda>d. splash_frames ps sp d))"

definition boot_splash :: "u64 \<Rightarrow> disp \<Rightarrow> disp option" where
  "boot_splash r d = Option.bind (splash_show r d) (\<lambda>(sp, d). map_option snd (splash_frames [0..<101] sp d))"

section \<open>Drawing that returns\<close>

text \<open>A coordinate far from the limits of an \<open>int\<close>.\<close>

definition near :: "int \<Rightarrow> bool" where "near v \<longleftrightarrow> - (2 ^ 29) \<le> v \<and> v \<le> 2 ^ 29"

text \<open>Drawing that returns and writes inside the display only.\<close>

definition draws :: "disp \<Rightarrow> disp option \<Rightarrow> bool" where
  "draws d r \<longleftrightarrow> (\<exists>d'. r = Some d' \<and> inside d d')"

lemma draws_bind:
  assumes "fb_ok d" "draws d r" "\<And>e. fb_ok e \<Longrightarrow> inside d e \<Longrightarrow> draws e (f e)"
  shows "draws d (Option.bind r f)"
proof -
  obtain e where e: "r = Some e" "inside d e" using assms(2) by (auto simp: draws_def)
  with assms(3) [OF inside_ok [OF e(2) assms(1)] e(2)] inside_trans [OF e(2)] show ?thesis by (auto simp: draws_def)
qed

lemma rect_draws:
  assumes "fb_ok d" "near x" "near y" "near w" "near h"
  shows "draws d (fb_draw_rect x y w h c d)"
proof -
  have "\<forall>i. 0 \<le> i \<and> i < width d \<longrightarrow> int_ok (i * 4)" using assms(1) by (auto simp: fb_ok_def int_ok_def)
  moreover have "int_ok (y + h)" "int_ok (x + w)" using assms(2-5) by (simp_all add: near_def int_ok_def)
  ultimately have "fb_draw_rect x y w h c d \<noteq> None" by (auto simp: fb_draw_rect_def Let_def)
  then show ?thesis using rect_inside [OF assms(1)] by (auto simp: draws_def)
qed

lemma char_draws:
  assumes "fb_ok d" "near x" "near y"
  shows "draws d (fb_draw_char x y c fg bg d)"
proof -
  have "fb_draw_char x y c fg bg d \<noteq> None" using assms(2,3) by (auto simp: fb_draw_char_def near_def int_ok_def)
  then show ?thesis using char_inside [OF assms(1)] by (auto simp: draws_def)
qed

lemma text_returns: "near y \<Longrightarrow> - (2 ^ 29) \<le> x \<Longrightarrow> x + 8 * int (length s) \<le> 2 ^ 29 \<Longrightarrow> fb_draw_text x y s fg bg d \<noteq> None"
proof (induction x y s fg bg d rule: fb_draw_text.induct)
  case (2 x y c s fg bg d)
  have "fb_draw_char x y c fg bg d \<noteq> None" using 2(2-) by (auto simp: fb_draw_char_def near_def int_ok_def)
  moreover have "int_ok (x + 8)" using 2(2-) by (simp add: int_ok_def)
  ultimately show ?case using 2 by (auto split: option.splits)
qed simp

lemma text_draws:
  assumes "fb_ok d" "near y" "- (2 ^ 29) \<le> x" "x + 8 * int (length s) \<le> 2 ^ 29"
  shows "draws d (fb_draw_text x y s fg bg d)"
  using text_returns [OF assms(2-4), of fg bg d] text_inside [OF assms(1)] by (auto simp: draws_def)

lemma scaled_returns:
  "near y \<Longrightarrow> - (2 ^ 29) \<le> x \<Longrightarrow> x + 16 * int (length s) \<le> 2 ^ 29 \<Longrightarrow> fb_draw_text_scaled x y s fg bg 2 d \<noteq> None"
proof (induction x y s fg bg "2 :: int" d rule: fb_draw_text_scaled.induct)
  case (2 x y c s fg bg d)
  have "fb_draw_char_scaled x y c fg bg 2 d \<noteq> None" using 2(2-) by (auto simp: fb_draw_char_scaled_def near_def int_ok_def)
  moreover have "int_ok (x + 16)" "int_ok 16" using 2(2-) by (simp_all add: int_ok_def)
  ultimately show ?case using 2 by (auto split: option.splits)
qed simp

lemma scaled_draws:
  assumes "fb_ok d" "near y" "- (2 ^ 29) \<le> x" "x + 16 * int (length s) \<le> 2 ^ 29"
  shows "draws d (fb_draw_text_scaled x y s fg bg 2 d)"
  using scaled_returns [OF assms(2-4), of fg bg d] text_scaled_inside [OF assms(1)] by (auto simp: draws_def)

lemma c_int_of:
  assumes "- (2 ^ 31) \<le> z" "z < 2 ^ 31"
  shows "c_int (word_of_int z) = z"
proof -
  have "(ucast (word_of_int z :: u64) :: u32) = word_of_int z" by (simp add: unsigned_of_int word_of_int_eq_iff)
  moreover have "sint (word_of_int z :: u32) = z" using assms by (simp add: signed_of_int signed_take_bit_int_eq_self)
  ultimately show ?thesis by (simp add: c_int_def)
qed

lemma centre_eq:
  fixes sz :: u64
  assumes "uint sz < 2 ^ 28" "- (2 ^ 27) < n" "n < 2 ^ 27"
  shows "centre sz n = uint sz div 2 - c_half n"
proof -
  have w: "sz div 2 - word_of_int (c_half n) = (word_of_int (uint sz div 2 - c_half n) :: u64)"
    by (simp add: word_div_def)
  have h: "- (2 ^ 27) < c_half n" "c_half n < 2 ^ 27" using assms(2,3) unfolding c_half_def by (cases "n < 0"; simp)+
  define q where "q = uint sz div 2"
  have "0 \<le> q" "q \<le> 2 ^ 27" unfolding q_def using assms(1) uint_ge_0 [of sz] by simp_all
  with h have "c_int (word_of_int (q - c_half n)) = q - c_half n" by (intro c_int_of) simp_all
  then show ?thesis by (simp only: centre_def w q_def)
qed

definition splash_ok :: "splash \<Rightarrow> bool" where
  "splash_ok sp \<longleftrightarrow> 400 \<le> sp_w sp \<and> sp_w sp \<le> 800 \<and> - 60 \<le> sp_h sp \<and> sp_h sp \<le> 180 \<and>
    - 800 \<le> sp_x sp \<and> sp_x sp \<le> 2 ^ 27 \<and> - 180 \<le> sp_y sp \<and> sp_y sp \<le> 2 ^ 28"

lemma c_half_range: "- a \<le> n \<Longrightarrow> n \<le> b \<Longrightarrow> 0 \<le> a \<Longrightarrow> 0 \<le> b \<Longrightarrow> - a \<le> c_half n \<and> c_half n \<le> b"
  unfolding c_half_def by (cases "n < 0"; simp; linarith)

lemma centre_range:
  assumes "uint sz < 2 ^ 28" "- a \<le> n" "n \<le> b" "0 \<le> a" "0 \<le> b" "a < 2 ^ 26" "b < 2 ^ 26"
  shows "- b \<le> centre sz n" "centre sz n \<le> 2 ^ 27 + a"
proof -
  define q where "q = uint sz div 2"
  have c: "centre sz n = q - c_half n" unfolding q_def by (rule centre_eq) (use assms in simp_all)
  have "0 \<le> q" "q \<le> 2 ^ 27" unfolding q_def using assms(1) uint_ge_0 [of sz] by simp_all
  then show "- b \<le> centre sz n" "centre sz n \<le> 2 ^ 27 + a"
    using c_half_range [OF assms(2-5)] unfolding c by linarith+
qed

lemma splash_box_ok:
  assumes "fb_ok d"
  shows "splash_ok (splash_box d)"
proof -
  have d: "width d < 2 ^ 28" "height d < 2 ^ 28" using assms by (simp_all add: fb_ok_def)
  have m: "uint (d_width d * 3) = width d * 3"
    using d(1) uint_ge_0 [of "d_width d"] by (simp add: uint_mult_lem [THEN iffD1])
  have "c_int (d_width d * 3 div 5) = width d * 3 div 5"
    using d(1) m uint_ge_0 [of "d_width d"] by (subst c_int_small) (simp_all add: uint_div)
  have w: "sp_w (splash_box d) \<ge> 400" "sp_w (splash_box d) \<le> 800" by (simp_all add: splash_box_def Let_def)
  have h: "- 60 \<le> sp_h (splash_box d)" "sp_h (splash_box d) \<le> 180"
    using c_int_small [of "d_height d"] uint_ge_0 [of "d_height d"] by (auto simp: splash_box_def Let_def word_less_def)
  have x: "sp_x (splash_box d) = centre (d_width d) (sp_w (splash_box d))" "sp_y (splash_box d) = centre (d_height d) (sp_h (splash_box d))"
    by (simp_all add: splash_box_def Let_def)
  show ?thesis
    using w h centre_range [OF d(1), of 0 "sp_w (splash_box d)" 800] centre_range [OF d(2), of 60 "sp_h (splash_box d)" 180]
    by (simp add: splash_ok_def x)
qed

lemma phrase_short: "length (splash_phrase s w) \<le> 80"
  by (auto simp: splash_phrase_def Let_def)

lemma clear_fb_ok: "fb_ok d \<Longrightarrow> fb_ok (fb_clear c d)"
  by (rule inside_ok [OF fb_clear_inside])

lemma line_x_range:
  assumes "fb_ok d" "splash_ok sp" "0 \<le> n" "n \<le> 1000"
  shows "- 1000 \<le> line_x d sp n" "line_x d sp n \<le> 2 ^ 28"
  using centre_range [of "d_width d" 0 n 1000] assms by (auto simp: line_x_def Let_def fb_ok_def splash_ok_def)

lemma show_draws:
  assumes "fb_ok d"
  shows "\<exists>sp d'. splash_show r d = Some (sp, d') \<and> splash_ok sp \<and> inside d d'"
proof -
  let ?e = "fb_clear (fb_color 0x0a 0x0a 0x12) d"
  define sp where "sp = splash_box ?e"
  have e: "fb_ok ?e" "inside d ?e" using clear_fb_ok [OF assms] fb_clear_inside [OF assms] by auto
  have b: "splash_ok sp" unfolding sp_def by (rule splash_box_ok [OF e(1)])
  let ?buf = "splash_phrase (boot_phrases ! unat (r mod 4)) (sp_w sp)"
  let ?dark = "fb_color 0x14 0x14 0x1e" and ?x = "sp_x sp" and ?y = "sp_y sp" and ?w = "sp_w sp" and ?h = "sp_h sp"
  have "draws ?e (
        Option.bind (fb_draw_rect (?x - 2) (?y - 2) (?w + 4) (?h + 4) (fb_color 0x7a 0x5a 0xff) ?e) (\<lambda>d.
        Option.bind (fb_draw_rect ?x ?y ?w ?h ?dark d) (\<lambda>d.
        Option.bind (fb_draw_text_scaled (centre (d_width d) (int (length title) * 8 * 2)) (?y + 18) title (fb_color 0xff 0xff 0xff) ?dark 2 d) (\<lambda>d.
        Option.bind (fb_draw_text (line_x d sp (int (length starting) * 8)) (?y + 58) starting (fb_color 0xcc 0xcc 0xdd) ?dark d) (\<lambda>d.
        Option.bind (fb_draw_text (line_x d sp (int (length credit) * 8)) (?y + ?h - 30) credit (fb_color 0xff 0x8a 0xc8) ?dark d) (\<lambda>d.
        fb_draw_text (line_x d sp (int (length ?buf) * 8)) (?y + ?h - 50) ?buf (fb_color 0x9a 0x9a 0xb0) ?dark d))))))" (is "draws ?e ?r")
  proof (intro draws_bind e)
    have n: "near (?x - 2)" "near (?y - 2)" "near (?w + 4)" "near (?h + 4)" "near ?x" "near ?y" "near ?w" "near ?h"
      "near (?y + 18)" "near (?y + 58)" "near (?y + ?h - 30)" "near (?y + ?h - 50)"
      using b by (auto simp: splash_ok_def near_def)
    show "draws ?e (fb_draw_rect (?x - 2) (?y - 2) (?w + 4) (?h + 4) (fb_color 0x7a 0x5a 0xff) ?e)" by (rule rect_draws) (rule e n)+
    fix d1 assume d1: "fb_ok d1"
    show "draws d1 (fb_draw_rect ?x ?y ?w ?h ?dark d1)" by (rule rect_draws) (rule d1 n)+
    fix d2 assume d2: "fb_ok d2"
    have "uint (d_width d2) < 2 ^ 28" using d2 by (simp add: fb_ok_def)
    then show "draws d2 (fb_draw_text_scaled (centre (d_width d2) (int (length title) * 8 * 2)) (?y + 18) title (fb_color 0xff 0xff 0xff) ?dark 2 d2)"
      using centre_range [of "d_width d2" 0 "int (length title) * 8 * 2" 336] by (intro scaled_draws d2 n) (simp_all add: title_def)
    fix d3 assume d3: "fb_ok d3"
    show "draws d3 (fb_draw_text (line_x d3 sp (int (length starting) * 8)) (?y + 58) starting (fb_color 0xcc 0xcc 0xdd) ?dark d3)"
      using line_x_range [OF d3 b, of "int (length starting) * 8"] by (intro text_draws d3 n) (simp_all add: starting_def)
    fix d4 assume d4: "fb_ok d4"
    show "draws d4 (fb_draw_text (line_x d4 sp (int (length credit) * 8)) (?y + ?h - 30) credit (fb_color 0xff 0x8a 0xc8) ?dark d4)"
      using line_x_range [OF d4 b, of "int (length credit) * 8"] by (intro text_draws d4 n) (simp_all add: credit_def)
    fix d5 assume d5: "fb_ok d5"
    show "draws d5 (fb_draw_text (line_x d5 sp (int (length ?buf) * 8)) (?y + ?h - 50) ?buf (fb_color 0x9a 0x9a 0xb0) ?dark d5)"
      using line_x_range [OF d5 b, of "int (length ?buf) * 8"] phrase_short [of "boot_phrases ! unat (r mod 4)" "sp_w sp"]
      by (intro text_draws d5 n) simp_all
  qed
  then obtain d' where d': "?r = Some d'" "inside ?e d'" by (auto simp: draws_def)
  have "splash_show r d = Some (sp, d')"
    using d'(1) by (auto simp: splash_show_def Let_def bind_eq_Some_conv simp flip: sp_def)
  then show ?thesis using d' b inside_trans [OF e(2)] by auto
qed

lemma empty_draws:
  assumes "fb_ok d" "near cx" "near cy" "near (cy + 14)" "near w"
  shows "draws d (empty_bar cx cy w d)"
  unfolding empty_bar_def
proof (intro draws_bind assms(1))
  have k: "near 16" "near 2" by (simp_all add: near_def)
  show "draws d (fb_draw_rect cx cy w 16 (fb_color 0x2a 0x2a 0x3a) d)" by (rule rect_draws) (rule assms k)+
  fix e assume e: "fb_ok e"
  show "draws e (fb_draw_rect cx cy w 2 (fb_color 0x4a 0x4a 0x6a) e)" by (rule rect_draws) (rule assms k e)+
  fix f assume f: "fb_ok f"
  show "draws f (fb_draw_rect cx (cy + 16 - 2) w 2 (fb_color 0x4a 0x4a 0x6a) f)"
    using assms(4) by (intro rect_draws f assms k) (simp add: algebra_simps)
qed

lemma percent_text: "0 \<le> p \<Longrightarrow> p < 2 ^ 31 \<Longrightarrow> \<exists>s. snprintf 16 ''%d%%'' [AInt (word_of_int p)] = Some s \<and> length s < 16"
proof -
  assume p: "0 \<le> p" "p < 2 ^ 31"
  have "sint (word_of_int p :: u32) = p" using p by (simp add: signed_of_int signed_take_bit_int_eq_self)
  then have "snprintf 16 ''%d%%'' [AInt (word_of_int p)] \<noteq> None"
    using p by (simp add: snprintf_def snprintf_loop.simps directive_def emit_def fmt_width.simps conv_dec_def)
  then show ?thesis using snprintf_loop_bound [of 16 "cstr ''%d%%''" "[AInt (word_of_int p)]" "[]"] by (auto simp: snprintf_def)
qed

lemma line_text: "\<exists>s. progress_line p = Some s \<and> length s < 64"
proof -
  have "progress_line p \<noteq> None"
    by (simp add: progress_line_def snprintf_def snprintf_loop.simps directive_def emit_def fmt_width.simps)
  then show ?thesis using snprintf_loop_bound [of 64 "cstr ''[%s>]''" _ "[]"] by (auto simp: progress_line_def snprintf_def)
qed

lemma filled_draws:
  assumes "fb_ok d" "- 1000 \<le> cx" "cx \<le> 2 ^ 28" "- 1000 \<le> cy" "cy \<le> 2 ^ 28 + 200" "0 \<le> w" "w \<le> 800" "50 \<le> p" "p \<le> 1000"
  shows "draws d (filled_bar cx cy w p d)"
proof -
  have f: "- 4 * 950 \<le> (w - 4) * (p - 50)" "(w - 4) * (p - 50) \<le> 800 * 950"
  proof -
    have "- 4 * (p - 50) \<le> (w - 4) * (p - 50)" using assms(6,8) by (intro mult_right_mono) auto
    moreover have "- 4 * 950 \<le> - 4 * (p - 50)" using assms(9) by simp
    ultimately show "- 4 * 950 \<le> (w - 4) * (p - 50)" by (rule order_trans [rotated])
    show "(w - 4) * (p - 50) \<le> 800 * 950" using assms(6-9) by (intro mult_mono) auto
  qed
  define v where "v = (w - 4) * (p - 50)"
  have v: "- 3800 \<le> v" "v \<le> 760000" using f by (simp_all add: v_def)
  have q: "- 3800 \<le> v div 50" "v div 50 \<le> 760000" using v by linarith+
  have n: "near cx" "near cy" "near w" "near 16" "near (cx + 2)" "near (cy + 2)" "near (v div 50)" "near (16 - 4)"
    using assms q by (simp_all add: near_def)
  obtain buf where b: "snprintf 16 ''%d%%'' [AInt (word_of_int p)] = Some buf" "length buf < 16"
    using percent_text [of p] assms(8,9) by auto
  have i: "\<not> int_ok v \<longleftrightarrow> False" using v by (simp add: int_ok_def)
  show ?thesis
    unfolding filled_bar_def b(1) Option.bind.simps v_def [symmetric] i if_False
  proof (intro draws_bind assms(1))
    show "draws d (fb_draw_rect cx cy w 16 (fb_color 0x2a 0x2a 0x3a) d)" by (rule rect_draws) (rule assms n)+
    fix e assume e: "fb_ok e"
    show "draws e (fb_draw_rect (cx + 2) (cy + 2) (v div 50) (16 - 4) (fb_color 0x7a 0x5a 0xff) e)" by (rule rect_draws) (rule e n)+
    fix g assume g: "fb_ok g"
    show "draws g (fb_draw_text (cx + w + 10) cy buf (fb_color 0xff 0xff 0xff) (fb_color 0x0a 0x0a 0x12) g)"
      using assms(2-7) b(2) by (intro text_draws g n) simp_all
  qed
qed

lemma progress_ok:
  assumes "fb_ok d" "splash_ok sp" "0 \<le> p" "p \<le> 1000"
  shows "\<exists>sp' d'. splash_set_progress p sp d = Some (sp', d') \<and> splash_ok sp' \<and> inside d d'"
proof (cases "sp_on sp")
  case True
  let ?sp = "sp\<lparr>sp_last := p\<rparr>"
  define w where "w = (if sp_w sp - 40 < 200 then 200 else sp_w sp - 40)"
  define cx where "cx = centre (d_width d) w"
  define cy where "cy = sp_y sp + c_half (sp_h sp) + 10"
  have w: "200 \<le> w" "w \<le> 800" using assms(2) by (auto simp: w_def splash_ok_def)
  have d: "uint (d_width d) < 2 ^ 28" using assms(1) by (simp add: fb_ok_def)
  have cx: "- 1000 \<le> cx" "cx \<le> 2 ^ 28" using centre_range [OF d, of 0 w 800] w by (simp_all add: cx_def)
  have cy: "- 1000 \<le> cy" "cy \<le> 2 ^ 28 + 200"
    using c_half_range [of 60 "sp_h sp" 180] assms(2) by (simp_all add: cy_def splash_ok_def)
  have n: "near cx" "near cy" "near (cy + 14)" "near w" "near (cy + 22)" using cx cy w by (simp_all add: near_def)
  obtain l where l: "progress_line p = Some l" "length l < 64" using line_text by blast
  have "draws d (if p < 50 then empty_bar cx cy w d
     else Option.bind (filled_bar cx cy w p d) (\<lambda>d. fb_draw_text (centre (d_width d) (int (length l) * 8)) (cy + 22) l
       (fb_color 0x7a 0x5a 0xff) (fb_color 0x14 0x14 0x1e) d))" (is "draws d ?r")
  proof (cases "p < 50")
    case True
    then show ?thesis using empty_draws [OF assms(1) n(1-4)] by simp
  next
    case False
    have "draws e (fb_draw_text (centre (d_width e) (int (length l) * 8)) (cy + 22) l (fb_color 0x7a 0x5a 0xff) (fb_color 0x14 0x14 0x1e) e)"
      if e: "fb_ok e" for e
      using centre_range [of "d_width e" 0 "int (length l) * 8" 512] e l(2) by (intro text_draws e n) (simp_all add: fb_ok_def)
    then show ?thesis using False filled_draws [OF assms(1) cx cy] w assms(4) by (auto intro!: draws_bind assms(1))
  qed
  then obtain d' where d': "?r = Some d'" "inside d d'" by (auto simp: draws_def)
  have "splash_set_progress p sp d = (if p < 50 then map_option (Pair ?sp) (empty_bar cx cy w d)
     else Option.bind (filled_bar cx cy w p d) (\<lambda>d. map_option (Pair ?sp) (fb_draw_text (centre (d_width d) (int (length l) * 8)) (cy + 22) l
       (fb_color 0x7a 0x5a 0xff) (fb_color 0x14 0x14 0x1e) d)))"
    using True l(1) by (simp add: splash_set_progress_def Let_def w_def cx_def cy_def)
  then have "splash_set_progress p sp d = Some (?sp, d')"
    using d'(1) by (cases "p < 50") (auto simp: bind_eq_Some_conv)
  moreover have "splash_ok ?sp" using assms(2) by (simp add: splash_ok_def)
  ultimately show ?thesis using d'(2) by blast
qed (use assms in \<open>simp add: splash_set_progress_def\<close>)

lemma spinner_draws:
  assumes "fb_ok d" "splash_ok sp"
  shows "draws d (splash_set_spinner n sp d)"
proof -
  have "near (sp_x sp + sp_w sp - 24)" "near (sp_y sp + 58)" using assms(2) by (simp_all add: splash_ok_def near_def)
  then show ?thesis using char_draws [OF assms(1)] by (auto simp: splash_set_spinner_def draws_def)
qed

lemma frames_ok:
  assumes "fb_ok d" "splash_ok sp" "\<forall>p\<in>set ps. p \<le> 1000"
  shows "\<exists>sp' d'. splash_frames ps sp d = Some (sp', d') \<and> inside d d'"
  using assms
proof (induction ps arbitrary: sp d)
  case (Cons p ps)
  obtain sp1 d1 where 1: "splash_set_progress (int p) sp d = Some (sp1, d1)" "splash_ok sp1" "inside d d1"
    using progress_ok [OF Cons.prems(1,2), of "int p"] Cons.prems(3) by auto
  note ok1 = inside_ok [OF 1(3) Cons.prems(1)]
  obtain d2 where 2: "splash_set_spinner (p mod 4) sp1 d1 = Some d2" "inside d1 d2"
    using spinner_draws [OF ok1 1(2)] by (auto simp: draws_def)
  from Cons.IH [OF inside_ok [OF 2(2) ok1] 1(2)] Cons.prems(3)
  obtain sp3 d3 where 3: "splash_frames ps sp1 d2 = Some (sp3, d3)" "inside d2 d3" by auto
  show ?case using 1(1) 2(1) 3(1) inside_trans [OF 1(3) inside_trans [OF 2(2) 3(2)]] by simp
qed simp

section \<open>Properties\<close>

text \<open>The animation of the boot returns on every display the console can use, whatever phrase is chosen: no coordinate
  leaves the range of an \<open>int\<close>, and only the memory of the framebuffer is written.\<close>

theorem boot_splash_inside:
  assumes "fb_ok d"
  shows "\<exists>d'. boot_splash r d = Some d' \<and> inside d d' \<and> fb_ok d'"
proof -
  obtain sp d1 where 1: "splash_show r d = Some (sp, d1)" "splash_ok sp" "inside d d1" using show_draws [OF assms] by blast
  obtain sp2 d2 where 2: "splash_frames [0..<101] sp d1 = Some (sp2, d2)" "inside d1 d2"
    using frames_ok [OF inside_ok [OF 1(3) assms] 1(2), of "[0..<101]"] by auto
  have "boot_splash r d = Some d2" using 1(1) 2(1) by (simp add: boot_splash_def)
  moreover have "inside d d2" using inside_trans [OF 1(3) 2(2)] .
  ultimately show ?thesis using inside_ok assms by blast
qed

lemma boot_splash_inside_witness: "\<exists>d'. boot_splash 3 small_disp = Some d' \<and> inside small_disp d' \<and> fb_ok d'"
  by (rule boot_splash_inside) (use small_disp_ok in \<open>simp add: console_ok_def\<close>)

text \<open>A message of the kernel is sent whole over the serial port and, while the boot console is active, printed inside
  the display; the console stays well formed.\<close>

theorem kprint_ok:
  assumes "console_ok d" "kprint s st d = Some (out, st', d')"
  shows "out = map (\<lambda>c. (0x3F8, of_char c)) (cstr s) \<and> console_ok d' \<and> inside d d' \<and> (\<not> d_boot d \<longrightarrow> d' = d)"
proof -
  obtain e where "fb_console_write (cstr s) d = Some e" "console_ok e" "inside d e" using write_ok [OF assms(1)] .
  then show ?thesis using assms serial_sends by (auto simp: kprint_def split: option.splits if_splits)
qed

lemma kprint_ok_witness:
  "\<exists>d'. kprint ''ok'' [0x60, 0, 0x20] (small_disp\<lparr>d_boot := True\<rparr>) = Some ([(0x3F8, 0x6F), (0x3F8, 0x6B)], [], d') \<and> console_ok d'"
proof -
  let ?d = "small_disp\<lparr>d_boot := True\<rparr>"
  have d: "console_ok ?d" using small_disp_ok by (simp add: console_ok_def fb_ok_def rows_of_def cols_of_def)
  obtain e where e: "fb_console_write ''ok'' ?d = Some e" using write_ok [OF d] .
  have "kprint ''ok'' [0x60, 0, 0x20] ?d = Some ([(0x3F8, 0x6F), (0x3F8, 0x6B)], [], e)" using e by (simp add: kprint_def)
  from kprint_ok [OF d this] this show ?thesis by blast
qed

end
