(* ===== verification/Wrappers.thy ===== *)
theory Wrappers
  imports Spud Syscall
begin

text \<open>
  The wrappers of \<open>spud.h\<close> that do more than pass their arguments on: the key loop, the
  start of a program with the wait for its end, device memory, and the drawing commands,
  which are structures in the memory of the caller.

  The structure of a drawing command is the bytes C lays out for it: \<open>spud_fb_t\<close> is packed,
  so its text pointer stands at offset 28.
\<close>

unbundle bit_operations_syntax

section \<open>Keys, programs, devices\<close>

text \<open>The results of the reads, each with the character it left; the value is the character, how often the
  processor was given away, and the results not used.\<close>

fun getc_loop :: "nat \<Rightarrow> nat \<Rightarrow> (u64 \<times> char) list \<Rightarrow> (char \<times> nat \<times> (u64 \<times> char) list) option" where
  "getc_loop i yields [] = None"
| "getc_loop i yields ((r, c) # rs) =
    (if r = 1 then Some (c, yields, rs)
     else if i + 1 < 16 then getc_loop (i + 1) yields rs else getc_loop 0 (yields + 1) rs)"

definition spud_getc :: "(u64 \<times> char) list \<Rightarrow> (char \<times> nat \<times> (u64 \<times> char) list) option" where
  "spud_getc rs = getc_loop 0 0 rs"

text \<open>\<open>pid\<close> is the result of the start, \<open>code\<close> that of the wait.\<close>

definition spud_exec_wait :: "int \<Rightarrow> int \<Rightarrow> int" where
  "spud_exec_wait pid code = (if 0 < pid then code else -1)"

definition spud_hello :: "string list \<Rightarrow> string" where
  "spud_hello argv = ''[hello] args: '' @ concat (map (\<lambda>i. (if 1 < i then '' '' else []) @ cstr (argv ! i)) [1..<length argv]) @ [CHR 0x0A]"

definition spud_dev_map :: "u64 \<Rightarrow> u64" where
  "spud_dev_map va = (if sint va \<le> 0 then 0 else va)"

definition spud_v2p :: "u64 \<Rightarrow> u64" where
  "spud_v2p pa = (if pa = -1 then 0 else pa)"

section \<open>Drawing commands\<close>

definition spud_fb_bytes :: "u32 list \<Rightarrow> u64 \<Rightarrow> string" where
  "spud_fb_bytes vs s = concat (map (\<lambda>v. le_store 4 (ucast v)) vs) @ le_store 8 s"

definition spud_fb_clear :: "u32 \<Rightarrow> string" where
  "spud_fb_clear color = spud_fb_bytes [0, 0, 0, 0, 0, color, 0] 0"

definition spud_fb_rect :: "u32 \<Rightarrow> u32 \<Rightarrow> u32 \<Rightarrow> u32 \<Rightarrow> u32 \<Rightarrow> string" where
  "spud_fb_rect x y w h color = spud_fb_bytes [1, x, y, w, h, color, 0] 0"

definition spud_fb_pixel :: "u32 \<Rightarrow> u32 \<Rightarrow> u32 \<Rightarrow> string" where
  "spud_fb_pixel x y color = spud_fb_bytes [2, x, y, 0, 0, color, 0] 0"

definition spud_fb_text :: "u32 \<Rightarrow> u32 \<Rightarrow> u64 \<Rightarrow> u32 \<Rightarrow> u32 \<Rightarrow> string" where
  "spud_fb_text x y s fg bg = spud_fb_bytes [3, x, y, 0, 0, fg, bg] s"

section \<open>Lemmas\<close>

lemma at_Suc [simp]: "at (c # s) (Suc i) = at s i"
  by (simp add: at_def)

lemma at_0 [simp]: "at (c # s) 0 = c"
  by (simp add: at_def)

lemma le_bytes_Suc [simp]: "le_bytes (c # s) (Suc off) n = le_bytes s off n"
  by (induction n arbitrary: off) simp_all

lemma le_bytes_drop: "off \<le> length s \<Longrightarrow> le_bytes s off n = le_bytes (drop off s) 0 n"
proof (induction off arbitrary: s)
  case (Suc off)
  then show ?case by (cases s) auto
qed simp

lemma low_byte: "(of_nat (of_char (char_of (unat (v AND 0xFF :: u64)) :: char)) :: u64) = take_bit 8 v"
proof -
  have "v AND 0xFF = take_bit 8 v" by (simp add: take_bit_eq_mask mask_eq_exp_minus_1)
  moreover have "unat (take_bit 8 v) mod 256 = unat (take_bit 8 v)"
    using take_bit_nat_less_exp [of 8 "unat v"] by (simp add: unsigned_take_bit_eq)
  ultimately show ?thesis by simp
qed

lemma take_bit_join: "take_bit 8 v OR push_bit 8 (take_bit n (drop_bit 8 v)) = take_bit (n + 8) (v :: u64)"
  by (rule bit_eqI) (auto simp: bit_simps)

lemma le_store_back: "le_bytes (le_store n v @ s) 0 n = take_bit (8 * n) v"
proof (induction n arbitrary: v)
  case (Suc n)
  have "le_bytes (le_store (Suc n) v @ s) 0 (Suc n) = take_bit 8 v OR push_bit 8 (take_bit (8 * n) (drop_bit 8 v))"
    by (simp only: le_store.simps append_Cons le_bytes.simps at_0 le_bytes_Suc Suc.IH low_byte)
  then show ?case by (simp only: take_bit_join mult_Suc_right add.commute)
qed simp

lemma le_store_add: "le_store (m + n) v = le_store m v @ le_store n (drop_bit (8 * m) v)"
  by (induction m arbitrary: v) (simp_all add: drop_bit_drop_bit add.commute)

lemma le_bytes_append: "le_bytes (s @ t) 0 (length s + n) = le_bytes s 0 (length s) OR push_bit (8 * length s) (le_bytes t 0 n)"
  by (induction s) (simp_all add: push_bit_or or.assoc push_bit_push_bit)

lemma mem_part:
  assumes "mem_bytes e a m = s" "off + n \<le> m"
  shows "mem_bytes e (a + of_nat off) n = take n (drop off s)"
  using assms(2) unfolding assms(1) [symmetric]
  by (intro nth_equalityI) (simp_all add: mem_bytes_def add.assoc)

lemma le_bytes_take: "le_bytes (take n s) 0 n = le_bytes s 0 n"
  by (induction n arbitrary: s) (case_tac s; simp add: at_def)+

lemma fields_drop:
  "i \<le> length vs \<Longrightarrow> drop (4 * i) (concat (map (\<lambda>v. le_store 4 (ucast v)) vs) @ r) =
    concat (map (\<lambda>v. le_store 4 (ucast v)) (drop i vs)) @ r"
proof (induction vs arbitrary: i)
  case (Cons v vs)
  then show ?case by (cases i) simp_all
qed simp

lemma word_of_field: "(ucast (take_bit 32 (ucast v :: u64)) :: u32) = v"
  by (rule bit_word_eqI) (auto simp: bit_simps)

lemma field_read:
  assumes "mem_bytes e a 40 = spud_fb_bytes vs s @ extra" "length vs = 7" "i < 7" "off = of_nat (4 * i)"
  shows "mem_u32 e (a + off) = vs ! i"
proof -
  have "drop (4 * i) (spud_fb_bytes vs s @ extra) =
      le_store 4 (ucast (vs ! i)) @ concat (map (\<lambda>v. le_store 4 (ucast v)) (drop (Suc i) vs)) @ le_store 8 s @ extra"
    using fields_drop [of i vs "le_store 8 s @ extra"] assms(2,3) by (simp add: spud_fb_bytes_def Cons_nth_drop_Suc [symmetric])
  then have "mem_bytes e (a + off) 4 = le_store 4 (ucast (vs ! i))"
    using mem_part [OF assms(1), of "4 * i" 4] assms(3,4) by simp
  then show ?thesis using le_store_back [of 4 "ucast (vs ! i)" "[]"] by (simp add: mem_u32_def word_of_field)
qed

lemma command_read:
  assumes "mem_bytes e a 40 = spud_fb_bytes [op, x, y, w, h, c, c2] s @ extra"
  shows "mem_u32 e a = op" "mem_u32 e (a + 4) = x" "mem_u32 e (a + 8) = y" "mem_u32 e (a + 12) = w" "mem_u32 e (a + 16) = h"
    "mem_u32 e (a + 20) = c" "mem_u32 e (a + 24) = c2"
  using field_read [OF assms, of 0 0] field_read [OF assms, of 1 4] field_read [OF assms, of 2 8] field_read [OF assms, of 3 12]
    field_read [OF assms, of 4 16] field_read [OF assms, of 5 20] field_read [OF assms, of 6 24] by simp_all

text \<open>The pointer the kernel reads: the upper half of the one in the structure, below what comes behind it.\<close>

lemma text_pointer:
  assumes "mem_bytes e a 40 = spud_fb_bytes vs s @ extra" "length vs = 7" "length extra = 4"
  shows "mem_u64 e (a + 32) = drop_bit 32 s OR push_bit 32 (le_bytes extra 0 4)"
proof -
  have "drop 32 (spud_fb_bytes vs s @ extra) = drop 4 (drop (4 * 7) (spud_fb_bytes vs s @ extra))"
    by (simp del: drop_append)
  also have "\<dots> = drop 4 (le_store 8 s @ extra)"
    using fields_drop [of 7 vs "le_store 8 s @ extra"] assms(2) by (simp only: spud_fb_bytes_def append_assoc) simp
  also have "\<dots> = le_store 4 (drop_bit 32 s) @ extra" using le_store_add [of 4 4 s] by simp
  finally have "mem_bytes e (a + 32) 8 = le_store 4 (drop_bit 32 s) @ extra"
    using mem_part [OF assms(1), of 32 8] assms(3) by simp
  moreover have "le_bytes (le_store 4 (drop_bit 32 s) @ extra) 0 8 =
      le_bytes (le_store 4 (drop_bit 32 s)) 0 4 OR push_bit 32 (le_bytes extra 0 4)"
    using le_bytes_append [of "le_store 4 (drop_bit 32 s)" extra 4] by simp
  moreover have "le_bytes (le_store 4 (drop_bit 32 s)) 0 4 = drop_bit 32 s"
    using le_store_back [of 4 "drop_bit 32 s" "[]"] by simp (rule bit_word_eqI, auto simp: bit_simps dest: bit_imp_le_length)
  ultimately show ?thesis by (simp add: mem_u64_def)
qed

section \<open>Properties\<close>

text \<open>The character a program gets is the first the keyboard has, after one yield for every sixteen reads without.\<close>

lemma getc_yields:
  assumes "\<forall>(r, c)\<in>set fs. r \<noteq> 1" "i < 16"
  shows "getc_loop i y (fs @ (1, c) # rs) = Some (c, y + (i + length fs) div 16, rs)"
  using assms
proof (induction fs arbitrary: i y)
  case (Cons f fs)
  obtain r d where f: "f = (r, d)" by (cases f)
  show ?case
  proof (cases "i + 1 < 16")
    case True
    then show ?thesis using Cons.IH [of "i + 1" y] Cons.prems(1) by (simp add: f)
  next
    case False
    then have "i = 15" using Cons.prems(2) by simp
    then show ?thesis using Cons.IH [of 0 "y + 1"] Cons.prems(1) by (simp add: f)
  qed
qed simp

text \<open>A rectangle, a pixel or a background as the library writes the command is what the kernel draws.\<close>

theorem fb_commands_drawn:
  assumes "syscall_cap CAP_FB_DRAW k" "user_ptr_ok a 40 k" "a \<noteq> 0" "mem_bytes e a 40 = cmd @ extra"
  shows "(cmd = spud_fb_rect x y w h c \<longrightarrow> sys_fb_draw e a k = Ret 0 k [Draw (DRect x y w h c)]) \<and>
    (cmd = spud_fb_pixel x y c \<longrightarrow> sys_fb_draw e a k = Ret 0 k [Draw (DRect x y 1 1 c)]) \<and>
    (cmd = spud_fb_clear c \<longrightarrow> sys_fb_draw e a k = Ret 0 k [Draw (DClear c)])"
  using assms command_read [of e a 1 x y w h c 0 0 extra] command_read [of e a 2 x y 0 0 c 0 0 extra]
    command_read [of e a 0 0 0 0 0 c 0 0 extra]
  by (auto simp: sys_fb_draw_def spud_fb_rect_def spud_fb_pixel_def spud_fb_clear_def Let_def)

text \<open>C29. A command to draw a text, as the library packs it into 36 bytes, is refused when the four bytes behind it
  are zero: the kernel's structure is not packed, so it takes the upper half of the pointer and those four
  bytes for the pointer, and that address belongs to no program.\<close>

theorem fb_text_refused:
  assumes "user_ptr_ok a 40 k" "mem_bytes e a 40 = spud_fb_text x y s fg bg @ extra" "length extra = 4" "le_bytes extra 0 4 = 0"
    "current_proc k = Some p" "p_user p" "\<forall>(b, n)\<in>set (p_umap p). USER_VADDR_BASE \<le> b"
  shows "sys_fb_draw e a k = err k"
proof -
  have q: "mem_u64 e (a + 32) = drop_bit 32 s"
    using text_pointer [OF assms(2) [unfolded spud_fb_text_def] _ assms(3)] assms(4) by simp
  have "unat (drop_bit 32 s) < 2 ^ 32"
    using unsigned_less [of s, where ?'a = nat] by (simp add: drop_bit_eq_div unat_div)
  then have "drop_bit 32 s < USER_VADDR_BASE" by (simp add: word_less_nat_alt USER_VADDR_BASE_def)
  then have "\<not> user_ptr_ok (drop_bit 32 s) 1 k \<or> drop_bit 32 s = 0"
    using assms(5-7) by (auto simp: user_ptr_ok_def list_ex_iff)
  then have "user_str e (drop_bit 32 s) 129 k = None \<or> drop_bit 32 s = 0"
    by (auto simp: user_str_def user_str_loop.simps(2) [of e k _ 128, simplified])
  then show ?thesis
    using command_read [OF assms(2) [unfolded spud_fb_text_def]] q by (auto simp: sys_fb_draw_def Let_def)
qed

definition painter :: kern where
  "painter = demo_kern\<lparr>k_sys := upd 0 (\<lambda>p. p\<lparr>p_rights := CAP_SYSCALL OR CAP_FB_DRAW, p_user := True,
     p_umap := [(0x200000000000, 0x1000)]\<rparr>) two_procs\<rparr>"

definition canvas :: "string \<Rightarrow> env" where
  "canvas cmd = \<lparr>e_mem = (\<lambda>a. at cmd (unat (a - 0x200000000000))), e_key = NUL, e_port = (\<lambda>_ _. 0), e_stack = (\<lambda>_. NUL),
     e_entropy = \<lparr>en_ticks = 0, en_proc = 0, en_pit = 0\<rparr>, e_mods = []\<rparr>"

lemma length_fb_bytes [simp]: "length (spud_fb_bytes vs s) = 4 * length vs + 8"
  by (induction vs) (simp_all add: spud_fb_bytes_def)

lemma canvas_bytes: "length cmd = 40 \<Longrightarrow> mem_bytes (canvas cmd) 0x200000000000 40 = cmd"
  by (intro nth_equalityI) (simp_all add: mem_bytes_def canvas_def at_def unat_of_nat)

lemma painter_simps: "syscall_cap CAP_FB_DRAW painter" "user_ptr_ok 0x200000000000 40 painter"
  "\<exists>p. current_proc painter = Some p \<and> p_user p \<and> (\<forall>(b, n)\<in>set (p_umap p). USER_VADDR_BASE \<le> b)"
  by (simp_all add: painter_def current_proc_def two_procs_def upd_def syscall_cap_def user_ptr_ok_def cap_defs USER_VADDR_BASE_def)

lemma fb_commands_drawn_witness:
  "sys_fb_draw (canvas (spud_fb_rect 3 4 50 60 0xFF0000 @ replicate 4 NUL)) 0x200000000000 painter =
    Ret 0 painter [Draw (DRect 3 4 50 60 0xFF0000)]"
proof -
  have m: "mem_bytes (canvas (spud_fb_rect 3 4 50 60 0xFF0000 @ replicate 4 NUL)) 0x200000000000 40 =
      spud_fb_rect 3 4 50 60 0xFF0000 @ replicate 4 NUL"
    by (rule canvas_bytes) (simp add: spud_fb_rect_def)
  from fb_commands_drawn [OF painter_simps(1,2) _ m, of 3 4 50 60 "0xFF0000"] show ?thesis by simp
qed

lemma fb_text_refused_witness:
  "sys_fb_draw (canvas (spud_fb_text 3 4 0x200000000800 1 2 @ replicate 4 NUL)) 0x200000000000 painter = err painter"
proof -
  have m: "mem_bytes (canvas (spud_fb_text 3 4 0x200000000800 1 2 @ replicate 4 NUL)) 0x200000000000 40 =
      spud_fb_text 3 4 0x200000000800 1 2 @ replicate 4 NUL"
    by (rule canvas_bytes) (simp add: spud_fb_text_def)
  have z: "le_bytes (replicate 4 NUL) 0 4 = 0" by (simp add: le_bytes_32 at_def)
  obtain p where p: "current_proc painter = Some p" "p_user p" "\<forall>(b, n)\<in>set (p_umap p). USER_VADDR_BASE \<le> b"
    using painter_simps(3) by blast
  show ?thesis by (rule fb_text_refused [OF painter_simps(2) m _ z p]) simp
qed

end
