(* ===== verification/Faults.thy ===== *)
theory Faults
  imports Splash
begin

text \<open>
  What the kernel says when it stops: the report of an exception in ring 0,
  \<open>kernel_panic_exception\<close> of src/kernel/isr.c.

  The registers the stub saved are a record; the serial port and the display are those of
  \<open>Splash\<close>.
\<close>

unbundle bit_operations_syntax

definition exception_names :: "string list" where
  "exception_names = [''Divisao por zero'', ''Debug'', ''NMI'', ''Breakpoint'', ''Overflow'', ''BOUND'', ''Opcode invalido'',
    ''No FPU'', ''Double Fault'', ''Reservado (9)'', ''TSS Invalida'', ''Segmento ausente'',
    ''Stack Fault'', ''General Protection Fault'', ''Page Fault'', ''Reservado (15)'',
    ''x87 FP'', ''Alinhamento'', ''Machine Check'', ''SIMD'', ''Virtualizacao'', ''Control Protection'',
    ''Reservado (22)'', ''Reservado (23)'', ''Reservado (24)'', ''Reservado (25)'',
    ''Reservado (26)'', ''Reservado (27)'', ''Reservado (28)'', ''Reservado (29)'',
    ''Security'', ''Reservado (31)'']"

text \<open>The exception, its error code, the frame, the stack pointer before and now, CR2 and the fourteen registers.\<close>

record fault =
  ft_no :: u64
  ft_err :: u64
  ft_rip :: u64
  ft_cs :: u64
  ft_fl :: u64
  ft_rsp :: u64
  ft_cr2 :: u64
  ft_sp :: u64
  ft_gprs :: "u64 list"

definition gpr_names :: "string list" where
  "gpr_names = [''rdi'', ''rsi'', ''rdx'', ''rcx'', ''rbx'', ''rbp'', ''r8'', ''r9'', ''r10'', ''r11'', ''r12'', ''r13'', ''r14'', ''r15'']"

text \<open>The line of the registers grows in a buffer of 640 while it is shorter than 590.\<close>

fun gpr_loop :: "(string \<times> u64) list \<Rightarrow> string \<Rightarrow> string" where
  "gpr_loop [] d = d"
| "gpr_loop ((n, v) # gs) d =
    (if length d < 590 then gpr_loop gs (d @ sformat (640 - length d) '' %s=0x%llx'' [AStr (Some n), ALong v]) else d)"

definition gpr_line :: "u64 list \<Rightarrow> string" where
  "gpr_line q =
    (let d = gpr_loop (zip gpr_names q) (sformat 640 ''  GPRs:'' [])
     in d @ sformat (640 - length d) [CHR 0x0A] [])"

definition process_lines :: "pcb option \<Rightarrow> string list" where
  "process_lines cp =
    (case cp of
       None \<Rightarrow> []
     | Some p \<Rightarrow>
        [sformat 160 (''  em processo '' @ [CHR 0x27] @ ''%s'' @ [CHR 0x27] @ '' pid %u'' @ [CHR 0x0A]) [AStr (Some (p_name p)), AInt (p_pid p)],
         if p_stack p \<noteq> 0 then sformat 160 (''  kstack 0x%llx..0x%llx (16KB) cur cr3=0x%llx'' @ [CHR 0x0A])
             [ALong (p_stack p), ALong (p_stack p + of_nat PROC_STACK_SIZE), ALong (c_cr3 (p_ctx p))]
         else sformat 160 (''  kstack=NULL (fora de processo?)'' @ [CHR 0x0A]) []])"

definition panic_report :: "fault \<Rightarrow> pcb option \<Rightarrow> string list" where
  "panic_report f cp =
    [sformat 220 ([CHR 0x0A] @ ''[arkhe] EXCECAO %llu: %s (err=0x%llx) iretr_rip=0x%llx cs=0x%llx fl=0x%llx [rsp]=0x%llx'' @ [CHR 0x0A])
       [ALong (ft_no f), AStr (Some (exception_names ! (if ft_no f < 32 then unat (ft_no f) else 0))), ALong (ft_err f),
        ALong (ft_rip f), ALong (ft_cs f), ALong (ft_fl f), ALong (ft_rsp f)]] @
    (if ft_no f = 14 then [sformat 80 (''[arkhe] PF CR2 (endereco): 0x%llx  (erro bit0=P, bit1=W, bit2=U)'' @ [CHR 0x0A]) [ALong (ft_cr2 f)]] else []) @
    [sformat 80 (''  rsp=0x%llx'' @ [CHR 0x0A]) [ALong (ft_sp f)], gpr_line (ft_gprs f)] @
    process_lines cp @ [''[arkhe] PANIC - sistema parado'' @ [CHR 0x0A]]"

fun kprints :: "string list \<Rightarrow> u8 list \<Rightarrow> disp \<Rightarrow> ((u16 \<times> u8) list \<times> u8 list \<times> disp) option" where
  "kprints [] st d = Some ([], st, d)"
| "kprints (l # ls) st d =
    (case kprint l st d of
       None \<Rightarrow> None
     | Some (out, st, d) \<Rightarrow> map_option (\<lambda>(out', r). (out @ out', r)) (kprints ls st d))"

definition kernel_panic_exception :: "fault \<Rightarrow> pcb option \<Rightarrow> u8 list \<Rightarrow> disp \<Rightarrow> ((u16 \<times> u8) list \<times> u8 list \<times> disp) option" where
  "kernel_panic_exception f cp st d = kprints (panic_report f cp) st (fb_console_panic d)"

section \<open>The registers\<close>

definition gpr_text :: "string \<times> u64 \<Rightarrow> string" where
  "gpr_text r = '' '' @ fst r @ ''=0x'' @ rev (hex_rev (unat (snd r)))"

lemma hex_short: "length (hex_rev (unat (v :: u64))) \<le> 16"
  using length_hex_rev [of "unat v" 15] unsigned_less [of v, where ?'a = nat] by simp

lemma gpr_item:
  assumes "NUL \<notin> set n" "length n \<le> 3" "50 \<le> m"
  shows "sformat m '' %s=0x%llx'' [AStr (Some n), ALong v] = gpr_text (n, v)"
  using assms hex_short [of v]
  by (simp add: sformat_def snprintf_def snprintf_loop.simps directive_def emit_def fmt_width.simps put_chars_eq put_num_def
      cstr_id gpr_text_def)

lemma gpr_loop_all:
  assumes "\<forall>(n, v)\<in>set gs. NUL \<notin> set n \<and> length n \<le> 3" "length d + 23 * length gs < 590"
  shows "gpr_loop gs d = d @ concat (map gpr_text gs)"
  using assms
proof (induction gs arbitrary: d)
  case (Cons g gs)
  obtain n v where g: "g = (n, v)" by (cases g)
  have t: "sformat (640 - length d) '' %s=0x%llx'' [AStr (Some n), ALong v] = gpr_text (n, v)"
    using Cons.prems by (intro gpr_item) (auto simp: g)
  have "length (gpr_text (n, v)) \<le> 23" using hex_short [of v] Cons.prems(1) by (simp add: gpr_text_def g)
  then show ?case using Cons t by (simp add: g)
qed simp

lemma gpr_line_all:
  assumes "length q = 14"
  shows "gpr_line q = ''  GPRs:'' @ concat (map gpr_text (zip gpr_names q)) @ [CHR 0x0A]"
proof -
  have h: "sformat 640 ''  GPRs:'' [] = ''  GPRs:''"
    by (simp add: sformat_def snprintf_def snprintf_loop.simps)
  have n: "\<forall>(n, v)\<in>set (zip gpr_names q). NUL \<notin> set n \<and> length n \<le> 3"
    by (auto simp: gpr_names_def dest!: set_zip_leftD)
  have "length gpr_names = 14" by (simp add: gpr_names_def)
  then have l: "length (zip gpr_names q) = 14" using assms by simp
  have e: "gpr_loop (zip gpr_names q) ''  GPRs:'' = ''  GPRs:'' @ concat (map gpr_text (zip gpr_names q))" (is "_ = ?d")
    by (rule gpr_loop_all [OF n]) (use l in simp)
  have "length (gpr_text g) \<le> 23" if "g \<in> set (zip gpr_names q)" for g
    using that n hex_short [of "snd g"] by (auto simp: gpr_text_def)
  then have "length (concat (map gpr_text (zip gpr_names q))) \<le> 14 * 23"
    using sum_list_mono [of "zip gpr_names q" "\<lambda>g. length (gpr_text g)" "\<lambda>_. 23"] l by (simp add: length_concat comp_def sum_list_triv)
  then have "length ?d < 600" by simp
  then have "sformat (640 - length ?d) [CHR 0x0A] [] = [CHR 0x0A]"
    by (simp add: sformat_def snprintf_def snprintf_loop.simps)
  then show ?thesis unfolding gpr_line_def h e Let_def by simp
qed

lemma kprints_ok:
  "console_ok d \<Longrightarrow> kprints ls st d = Some (out, st', d') \<Longrightarrow>
    out = concat (map (\<lambda>l. map (\<lambda>c. (0x3F8, of_char c)) (cstr l)) ls) \<and> console_ok d' \<and> inside d d'"
proof (induction ls arbitrary: st d out)
  case (Cons l ls)
  obtain o1 st1 d1 where 1: "kprint l st d = Some (o1, st1, d1)" using Cons.prems(2) by (auto split: option.splits)
  then obtain o2 where 2: "kprints ls st1 d1 = Some (o2, st', d')" "out = o1 @ o2" using Cons.prems(2) by auto
  note K = kprint_ok [OF Cons.prems(1) 1]
  from Cons.IH [OF _ 2(1)] K inside_trans show ?case by (auto simp: 2(2))
qed simp

section \<open>Properties\<close>

text \<open>The report of a fatal exception goes out whole and in order, with the values of all fourteen registers, and on the
  display only the framebuffer is written.\<close>

theorem panic_reported:
  assumes "console_ok d" "length (ft_gprs f) = 14" "kernel_panic_exception f cp st d = Some (out, st', d')"
  shows "(\<exists>before after. panic_report f cp = before @
      (''  GPRs:'' @ concat (map gpr_text (zip gpr_names (ft_gprs f))) @ [CHR 0x0A]) # after) \<and>
    out = concat (map (\<lambda>l. map (\<lambda>c. (0x3F8, of_char c)) (cstr l)) (panic_report f cp)) \<and> console_ok d' \<and> inside d d'"
proof -
  let ?e = "fb_console_panic d"
  have e: "console_ok ?e" "inside d ?e" using assms(1)
    by (auto simp: fb_console_panic_def console_ok_def fb_ok_def inside_def same_geom_def rows_of_def cols_of_def)
  have "kprints (panic_report f cp) st ?e = Some (out, st', d')" using assms(3) by (simp add: kernel_panic_exception_def)
  note K = kprints_ok [OF e(1) this]
  moreover have "\<exists>before after. panic_report f cp = before @ gpr_line (ft_gprs f) # after"
    unfolding panic_report_def by (metis append.assoc append_Cons append_Nil)
  ultimately show ?thesis using inside_trans [OF e(2)] unfolding gpr_line_all [OF assms(2)] by blast
qed

definition null_read :: fault where
  "null_read = \<lparr>ft_no = 14, ft_err = 0, ft_rip = 0xffffffff80103000, ft_cs = 8, ft_fl = 0x202, ft_rsp = 0, ft_cr2 = 0, ft_sp = 0x90000,
     ft_gprs = replicate 14 0\<rparr>"

lemma serial_ready: "length s \<le> m \<Longrightarrow> \<exists>out k. serial_write s (replicate m 0x20) = Some (out, replicate (m - k) 0x20) \<and> k \<le> length s"
proof (induction s arbitrary: m)
  case Nil
  show ?case by (intro exI [of _ "[]"] exI [of _ 0]) simp
next
  case (Cons c s)
  then obtain n where m: "m = Suc n" "length s \<le> n" by (cases m) auto
  obtain out k where "serial_write s (replicate n 0x20) = Some (out, replicate (n - k) 0x20)" "k \<le> length s"
    using Cons.IH [OF m(2)] by blast
  then show ?case
    by (cases "c = NUL") (auto simp: m(1) intro: exI [of _ 0] exI [of _ "Suc k"])
qed

lemma kprints_return:
  "console_ok d \<Longrightarrow> length (concat ls) \<le> m \<Longrightarrow> kprints ls (replicate m 0x20) d \<noteq> None"
proof (induction ls arbitrary: m d)
  case (Cons l ls)
  then have "length l \<le> m" by simp
  then obtain out k where s: "serial_write l (replicate m 0x20) = Some (out, replicate (m - k) 0x20)" "k \<le> length l"
    using serial_ready by blast
  obtain e where "fb_console_write (cstr l) d = Some e" "console_ok e" using write_ok [OF Cons.prems(1)] .
  then obtain e' where k: "kprint l (replicate m 0x20) d = Some (out, replicate (m - k) 0x20, e')" "console_ok e'"
    using s(1) Cons.prems(1) by (cases "d_boot d") (auto simp: kprint_def)
  have "length (concat ls) \<le> m - k" using Cons.prems(2) s(2) by simp
  from Cons.IH [OF k(2) this] k(1) show ?case by simp
qed simp

lemma panic_reported_witness:
  "\<exists>st out st' d'. kernel_panic_exception null_read None st small_disp = Some (out, st', d') \<and> console_ok d' \<and> inside small_disp d'"
proof -
  have g: "length (ft_gprs null_read) = 14" by (simp add: null_read_def)
  have "console_ok (fb_console_panic small_disp)"
    using small_disp_ok by (simp add: fb_console_panic_def console_ok_def fb_ok_def rows_of_def cols_of_def small_disp_def)
  from kprints_return [OF this order_refl, of "panic_report null_read None"]
  obtain out st' d' where r: "kernel_panic_exception null_read None (replicate (length (concat (panic_report null_read None))) 0x20) small_disp =
      Some (out, st', d')"
    by (auto simp: kernel_panic_exception_def)
  from panic_reported [OF small_disp_ok g r] r show ?thesis by blast
qed

end
