(* ===== verification/Spec2Isabelle.thy ===== *)
theory Spec2Isabelle
  imports Boot UserSpace Fb Xhci Authd Fsd UHeap Synd Odigos Devd Praxia Spoudazo Loader Clients Tools Splash Wrappers Faults
begin

text \<open>
  A verification development for Siath OS: the x86_64 kernel under src/kernel and
  its services in ring 3 under src/userspace.

  The program.  The kernel boots from its own UEFI loader, sets up memory, the
  process table, an in-memory file system, contracts and accounts, and starts
  process 1, which starts the services found among the embedded modules and then
  runs login sessions.  Programs run in ring 3 and reach the kernel through 38
  system calls.  Calls, interrupts and process 1 share one state.

  The model.  The C code is translated function by function into HOL functions
  over explicit state, with the source's names.  A C struct is a record, a fixed
  table a list of that length, an unsigned integer a word of its width, an \<open>int\<close>
  result an \<^typ>\<open>int\<close> with the source's codes.  A pointer into a table is the
  index of the slot.  A function that reads or writes memory it should not, or
  halts, has a value for that.  The theories, in the order they build on each
  other:

    \<open>Prelude\<close>     table searches, counting, lemmas on words;
    \<open>CStrings\<close>    the string functions of util.c;
    \<open>Format\<close>      snprintf and the random generator of util.c;
    \<open>Pmm\<close>         the page-frame allocator of util.c;
    \<open>KHeap\<close>       kmalloc and kfree of util.c, with the magic numbers of the headers;
    \<open>Paging\<close>      paging.c: the page tables, as a function from table address and
                index to entry, and the frames below them;
    \<open>Process\<close>     proc.c: the process table, creation, scheduler, exit and wait; the
                state \<open>sys\<close> holds the page tables and the heap as well;
    \<open>UserSpace\<close>   what the address space of a ring-3 process contains;
    \<open>Caps\<close>        cap.c;
    \<open>Svc\<close>         svc.c;
    \<open>Ipc\<close>         ipc.c;
    \<open>RamFs\<close>       fs.c;
    \<open>Synallagma\<close>  synallagma.c: contracts over folders and consent;
    \<open>Crypto\<close>      crypto.c;
    \<open>Auth\<close>        auth.c and login.c;
    \<open>Kernel\<close>      the record \<open>kern\<close> of all the state, and sysinfo.c;
    \<open>Vfs\<close>         vfs.c;
    \<open>Exec\<close>        elf.c, exec.c and apps.c;
    \<open>Syscall\<close>     syscall.c: every call, the pointer checks, the dispatcher;
    \<open>SysInv\<close>      what all system calls keep and cannot change;
    \<open>Shell\<close>       shell.c: every command of the ring-0 shell, and what they keep;
    \<open>Boot\<close>        main.c, init.c and isr.c, and the steps of the running system;
    \<open>Keyboard\<close>    keyboard.c, and the key tables and edge detection of hid.c;
    \<open>Fb\<close>          fb.c: drawing and the console, as stores to offsets of the display, tested
                only where the code tests them;
    \<open>Devices\<close>     gdt.c, idt.c, pit.c and pci.c;
    \<open>Xhci\<close>        xhci.c and usb.c: rings, enumeration and reports;
    \<open>Spud\<close>        spud.h, the library of the programs in ring 3;
    \<open>Authd\<close>       authd.c, the account service;
    \<open>Fsd\<close>         fsd.c, the file service;
    \<open>UHeap\<close>       the allocator of spud.h;
    \<open>Synd\<close>        synd.c, the contract service;
    \<open>Odigos\<close>      odigos_pliktrologiou.c, the keyboard driver in ring 3;
    \<open>Devd\<close>        devd.c, the system service;
    \<open>Praxia\<close>      praxia.c, the shell in ring 3;
    \<open>Spoudazo\<close>    spoudazo.c, the session program in ring 3: first account and login;
    \<open>Clients\<close>     the clients of the services in spud.h, and the shell over the file service;
    \<open>Tools\<close>       ls, cat, ps, mem, echo, hello, wtest and phrourio;
    \<open>Wrappers\<close>    the key loop and the drawing commands of spud.h;
    \<open>Splash\<close>      splash.c and serial.c;
    \<open>Faults\<close>      the report of a fatal exception, isr.c;
    \<open>Loader\<close>      the boot loader, src/boot/thaisboot/main.c.

  The lemmas.  Each component has an invariant that its operations keep
  (\<open>pmm_ok\<close>, \<open>heap_inv\<close>, \<open>pt_inv\<close>, \<open>sched_inv\<close>, \<open>svc_ok\<close>, \<open>ipc_ok\<close>, \<open>tree_ok\<close>,
  \<open>pact_ok\<close>, \<open>auth_ok\<close>) and a specification of each operation over an abstract
  view: free frames, blocks that tile ranges, the leaf entry of a page, what the
  scheduler sees of a slot, a queue per pid, the file found at a path.  The
  interfaces are locales, interpreted on the code's own operations:
  \<open>page_pool\<close> for frames, \<open>bounded_queue\<close> for the mailboxes,
  \<open>file_store\<close> for copy and move over the file system, an incremental hash for
  HMAC, \<open>session_calls\<close> for what a session asks of the system,
  \<open>file_calls\<close> for what the file service asks of the kernel, and
  \<open>table_relation\<close> for what program start and system calls carry from
  one state to the next.  \<open>mailboxes_refine\<close> is a refinement: every sequence
  of sends and receives gives what one queue per process gives.  \<open>dispatch_keeps\<close> puts the invariants together for every
  system call, \<open>reachable_inv\<close> for every state of the running machine, and this
  theory states the properties that span components.

  Bounds and fuel.  There is no fuel: loops over tables recurse on the table,
  the others have a measure.  A loop that waits for input is a function of the
  input still to come and gives \<^const>\<open>None\<close> when it waits for more.  Blocking
  calls are steps that leave the caller blocked, with a function for what happens
  when it resumes.  The number of rounds of PBKDF2 is a natural number; the
  kernel passes 100000, far from the 32-bit limit of its counter.

  Where the code has no check, the properties state the bound they need, and a
  theorem beside them shows what happens outside it: \<open>fs_read_zeroes_anywhere\<close>,
  \<open>kmalloc_wraps\<close>, \<open>rect_overflows\<close>, \<open>sibling_takes_slot\<close>, \<open>edit_ignores_contract\<close>,
  \<open>elf_table_wraps\<close>, \<open>malloc_wraps\<close>, \<open>long_name_creates\<close>, \<open>name_misread\<close>,
  \<open>fsd_long_path_lost\<close>.

  Environment.  The bytes behind user pointers, the keyboard, the ports, what
  the kernel stack happens to hold, the registers of the devices, the entropy of a ticket, the boot record and
  the table of embedded modules, which the build generates, are arguments.

  Not modelled.  The assembly sources are not C: a context switch is
  reduced to CR3, the style of the frame and the mark of the first run.  The copy of a program of more than 512 pages behind the
  frames taken for it is not followed.  The embedded images are generated byte arrays.  testapp.c and
  ring3demo.c are demonstrations, svctest.c, fbtest.c and heap.c scripts of calls that
  are modelled.  The firmware under the boot loader is an argument.
  The bytes of programs copied into frames, and the contents of kernel stacks
  beyond the arguments laid out on them, are not part of the state.
\<close>

unbundle bit_operations_syntax

section \<open>The examples\<close>

text \<open>The running process is in ring 3 with one page at 0x200000000000 and the right to make
  system calls; one account exists; its name is at the start of the page.\<close>

definition user_kern :: kern where
  "user_kern = demo_kern\<lparr>
     k_sys := upd 0 (\<lambda>p. p\<lparr>p_rights := CAP_SYSCALL, p_user := True, p_umap := [(0x200000000000, 0x1000)]\<rparr>) two_procs,
     k_auth := zero_auth\<lparr>au_accounts := [\<lparr>ac_name = ''ann'', ac_hash = '''', ac_salt = '''', ac_caps = CAP_ALL,
       ac_active = True, ac_admin = True\<rparr>]\<rparr>\<rparr>"

definition user_env :: env where
  "user_env = \<lparr>e_mem = (\<lambda>a. at ''ann'' (unat (a - 0x200000000000))), e_key = NUL, e_port = (\<lambda>_ _. 0),
     e_stack = (\<lambda>_. NUL), e_entropy = \<lparr>en_ticks = 0, en_proc = 0, en_pit = 0\<rparr>, e_mods = []\<rparr>"

definition user_proc :: pcb where
  "user_proc = zero_pcb\<lparr>p_present := True, p_pid := 1, p_state := Running, p_rights := CAP_SYSCALL,
     p_user := True, p_umap := [(0x200000000000, 0x1000)]\<rparr>"

lemma user_kern_simps:
  "current_proc user_kern = Some user_proc" "cur (k_sys user_kern) = Some 0"
  "0 < length (procs (k_sys user_kern))" "auth_find ''ann'' (k_auth user_kern) = Some 0"
  "ac_caps (au_accounts (k_auth user_kern) ! 0) = CAP_ALL"
  using two_procs_nth(1)
  by (simp_all add: user_kern_def demo_kern_def current_proc_def user_proc_def auth_find_def cstr_def)
    (simp_all add: upd_def two_procs_def)

lemma user_name: "user_str user_env 0x200000000000 32 user_kern = Some ''ann''"
proof -
  have p: "user_ptr_ok 0x200000000000 1 user_kern" "user_ptr_ok 0x200000000001 1 user_kern"
    "user_ptr_ok 0x200000000002 1 user_kern" "user_ptr_ok 0x200000000003 1 user_kern"
    by (simp_all add: user_ptr_ok_def user_kern_simps user_proc_def)
  have m: "e_mem user_env 0x200000000000 = CHR ''a''" "e_mem user_env 0x200000000001 = CHR ''n''"
    "e_mem user_env 0x200000000002 = CHR ''n''" "e_mem user_env 0x200000000003 = NUL"
    by (simp_all add: user_env_def at_def)
  have "user_str_loop user_env user_kern 0x200000000000 (Suc (Suc (Suc (Suc n)))) = Some ''ann''" for n
    by (simp add: p m)
  from this [of 28] show ?thesis by (simp add: user_str_def user_kern_simps)
qed

section \<open>Properties\<close>

text \<open>C1. In every state the machine reaches from its boot, whatever programs run and whatever they pass
  to the kernel, the invariants hold together: one process runs and it is the current one, the
  file tree is closed, the contracts, the accounts and the tickets stay within their tables,
  the mailboxes are well-formed rings, and the service table counts its entries.\<close>

theorem kernel_invariant:
  assumes "reachable mods k"
  shows "sched_inv (k_sys k) \<and> cur_running (k_sys k) \<and> tree_ok (k_fs k) \<and> pact_ok (k_pact k) \<and>
    auth_ok (k_auth k) \<and> ipc_ok (k_ipc k) \<and> svc_ok (k_svc k)"
  using reachable_inv [OF assms] by (simp add: kern_inv_def)

lemma kernel_invariant_witness: "tree_ok (k_fs (thais_main small_boot 0x1000 [] 0x100000))"
  using kernel_invariant [OF reachable.boot] by blast

text \<open>C2. A system call of a program writes to the memory of that program and nowhere else, whatever the
  arguments: every store it does lies inside the regions mapped for the process.  There are two
  exceptions, which are faults of the kernel.  A file read of no bytes may store one NUL at the
  address given, wherever that is; and a receive into the null pointer copies the message to address 0.\<close>

theorem syscall_stores_inside:
  assumes "current_proc k = Some p" "p_user p"
  shows "stores_ok p (syscall_dispatch e nr a1 a2 a3 a4 k) \<or>
    nr = SYS_FS_READ \<and> a3 = 0 \<and> (\<exists>v. syscall_dispatch e nr a1 a2 a3 a4 k = Ret v k [Store a2 [NUL]]) \<or>
    nr = SYS_IPC_RECV \<and> a1 = 0 \<and> (\<exists>v k' d ev. length d \<le> unat a2 \<and>
      syscall_dispatch e nr a1 a2 a3 a4 k = Ret v k' (Store 0 d # ev) \<and> stores_ok p (Ret v k' ev))"
proof (cases "nr = SYS_FS_READ \<and> a3 = 0 \<or> nr = SYS_IPC_RECV \<and> a1 = 0")
  case True
  have c: "caller k p" using assms by simp
  have d: "syscall_dispatch e nr a1 a2 a3 a4 k = err k \<or>
      syscall_dispatch e nr a1 a2 a3 a4 k =
        (if nr = SYS_FS_READ then sys_fs_read e a1 a2 a3 k else sys_ipc_recv a1 a2 a3 a4 k)"
    using True assms(1) by (auto simp: syscall_dispatch_def SYS_FS_READ_def SYS_IPC_RECV_def SYS_EXEC_def SYS_SESSION_LOGIN_def)
  have n: "SYS_IPC_RECV \<noteq> SYS_FS_READ" by (simp add: SYS_FS_READ_def SYS_IPC_RECV_def)
  show ?thesis
  proof (cases "syscall_dispatch e nr a1 a2 a3 a4 k = err k")
    case False
    show ?thesis
    proof (cases "nr = SYS_FS_READ")
      case True
      then have "a3 = 0" "syscall_dispatch e nr a1 a2 a3 a4 k = sys_fs_read e a1 a2 0 k"
        using d False n \<open>nr = SYS_FS_READ \<and> a3 = 0 \<or> _\<close> by auto
      then show ?thesis using True fs_read_slip [OF c, of e a1 a2] by auto
    next
      case False
      then have "a1 = 0" "nr = SYS_IPC_RECV" "syscall_dispatch e nr a1 a2 a3 a4 k = sys_ipc_recv 0 a2 a3 a4 k"
        using d \<open>syscall_dispatch e nr a1 a2 a3 a4 k \<noteq> err k\<close> \<open>nr = SYS_FS_READ \<and> a3 = 0 \<or> _\<close> by auto
      then show ?thesis using recv_slip [OF c, of a2 a3 a4] by metis
    qed
  qed simp
next
  case False
  then show ?thesis using dispatch_stores [of k p nr a3 a1 e a2 a4] assms by blast
qed

lemma syscall_stores_inside_witness:
  "stores_ok user_proc (syscall_dispatch user_env 12 0x200000000800 0 0 0 user_kern)"
  using syscall_stores_inside [OF user_kern_simps(1), of user_env 12 "0x200000000800" 0 0 0]
  by (simp add: user_proc_def SYS_FS_READ_def SYS_IPC_RECV_def)

text \<open>The first exception is within reach of every program with the right to read files: the read of no
  bytes of \<open>/kinesis\<close> puts a NUL at any address, of the kernel too.\<close>

theorem fs_read_zeroes_anywhere:
  assumes "current_proc k = Some p" "p_rights p AND CAP_SYSCALL \<noteq> 0" "p_rights p AND CAP_FS_READ \<noteq> 0"
    "user_str e a1 256 k = Some path" "norm_of ROOT (Some path) = Some n" "vfs_check_cap n CAP_FS_READ k"
    "vfs_is_pseudo n" "a2 \<noteq> 0"
  shows "\<exists>v. syscall_dispatch e SYS_FS_READ a1 a2 0 a4 k = Ret v k [Store a2 [NUL]]"
proof -
  obtain r stored where v: "vfs_read ROOT (Some path) 0 k = (r, stored)" by fastforce
  have "snd (vfs_pseudo_read n 0 k) \<noteq> []" by (simp add: vfs_pseudo_read_def Let_def)
  then have "stored \<noteq> []" using v assms(5-7) by (auto simp: vfs_read_def split: prod.splits)
  then have "stored = [NUL]" using vfs_read_none [OF v] by blast
  then have "\<exists>v. sys_fs_read e a1 a2 0 k = Ret v k [Store a2 [NUL]]"
    using v assms by (simp add: sys_fs_read_def syscall_cap_def user_ptr_ok_def)
  then show ?thesis
    using assms(1,2) by (simp add: syscall_dispatch_def SYS_FS_READ_def SYS_IPC_RECV_def SYS_EXEC_def)
qed

definition reader :: kern where
  "reader = demo_kern\<lparr>k_pact := two_pacts\<lparr>ct_list := []\<rparr>,
     k_sys := upd 0 (\<lambda>p. p\<lparr>p_rights := CAP_SYSCALL OR CAP_FS_READ, p_user := True, p_umap := [(0x200000000000, 0x1000)]\<rparr>) two_procs\<rparr>"

definition reader_env :: env where
  "reader_env = user_env\<lparr>e_mem := (\<lambda>a. at ''/kinesis'' (unat (a - 0x200000000000)))\<rparr>"

lemma reader_proc: "current_proc reader = Some (user_proc\<lparr>p_rights := CAP_SYSCALL OR CAP_FS_READ\<rparr>)"
  using two_procs_nth(1)
  by (simp add: reader_def demo_kern_def current_proc_def user_proc_def) (simp add: upd_def two_procs_def)

lemma reader_path: "user_str reader_env 0x200000000000 256 reader = Some ''/kinesis''"
proof -
  have p: "user_ptr_ok 0x200000000000 1 reader" "user_ptr_ok 0x200000000001 1 reader"
    "user_ptr_ok 0x200000000002 1 reader" "user_ptr_ok 0x200000000003 1 reader"
    "user_ptr_ok 0x200000000004 1 reader" "user_ptr_ok 0x200000000005 1 reader"
    "user_ptr_ok 0x200000000006 1 reader" "user_ptr_ok 0x200000000007 1 reader"
    "user_ptr_ok 0x200000000008 1 reader"
    by (simp_all add: user_ptr_ok_def reader_proc user_proc_def)
  have m: "e_mem reader_env 0x200000000000 = CHR ''/''" "e_mem reader_env 0x200000000001 = CHR ''k''"
    "e_mem reader_env 0x200000000002 = CHR ''i''" "e_mem reader_env 0x200000000003 = CHR ''n''"
    "e_mem reader_env 0x200000000004 = CHR ''e''" "e_mem reader_env 0x200000000005 = CHR ''s''"
    "e_mem reader_env 0x200000000006 = CHR ''i''" "e_mem reader_env 0x200000000007 = CHR ''s''"
    "e_mem reader_env 0x200000000008 = NUL"
    by (simp_all add: reader_env_def at_def)
  have "user_str_loop reader_env reader 0x200000000000 (Suc (Suc (Suc (Suc (Suc (Suc (Suc (Suc (Suc n))))))))) = Some ''/kinesis''" for n
    by (simp add: p m)
  from this [of 247] show ?thesis by (simp add: user_str_def reader_proc)
qed

lemma fs_read_zeroes_anywhere_witness:
  "\<exists>v. syscall_dispatch reader_env SYS_FS_READ 0x200000000000 0x100000 0 0 reader = Ret v reader [Store 0x100000 [NUL]]"
proof -
  have n: "norm_of ROOT (Some ''/kinesis'') = Some ''/kinesis''"
    using vfs_normalize_id [of "[''kinesis'']" FS_NAME_MAX ROOT]
    by (simp add: norm_of_def FS_NAME_MAX_def canon_def slashed_def good_comp_def)
  have c: "vfs_check_cap ''/kinesis'' CAP_FS_READ reader"
    by (simp add: vfs_check_cap_def synallagma_contract_for_def reader_def in_folder_def strncmp_iff cstr_def Let_def
        CAP_FS_READ_def CAP_FS_WRITE_def CAP_IDIOS_WRITE_def CAP_NOMOS_WRITE_def)
  have s: "vfs_is_pseudo ''/kinesis''" by (simp add: vfs_is_pseudo_def in_folder_def strncmp_iff cstr_def at_def)
  show ?thesis
    by (rule fs_read_zeroes_anywhere [OF reader_proc _ _ reader_path n c s]) (simp_all add: cap_defs)
qed

text \<open>C3. No system call but the login raises anybody's rights, changes an account other than the caller's
  own without the administration right, changes a file without the right to write files, or
  changes a contract.\<close>

theorem syscall_confined:
  assumes "nr \<noteq> SYS_SESSION_LOGIN"
  shows "leaves (\<lambda>k'. rights_kept k k' \<and> accounts_kept k k' \<and> files_kept k k' \<and>
    ct_list (k_pact k') = ct_list (k_pact k)) (syscall_dispatch e nr a1 a2 a3 a4 k)"
  using dispatch_confined [OF assms] by (simp add: confined_def [abs_def])

lemma syscall_confined_witness:
  "leaves (\<lambda>k'. rights_kept user_kern k' \<and> accounts_kept user_kern k' \<and> files_kept user_kern k' \<and>
     ct_list (k_pact k') = ct_list (k_pact user_kern))
     (syscall_dispatch user_env 16 0x200000000000 0 0 0 user_kern)"
  by (rule syscall_confined) (simp add: SYS_SESSION_LOGIN_def)

text \<open>C5. The login call raises the caller's rights by those of the session's account, no other process's,
  and only for a name that has an account, or a live ticket with the token passed.\<close>

theorem login_raises_rights:
  assumes "sys_session_login e a1 a2 a3 k = Ret v k' ev" "cur (k_sys k) = Some i" "i < length (procs (k_sys k))"
  shows "(\<forall>j. j \<noteq> i \<longrightarrow> rights (k_sys k') j = rights (k_sys k) j) \<and>
    (v \<noteq> 1 \<longrightarrow> k_sys k' = k_sys k \<and> k_pact k' = k_pact k) \<and>
    (v = 1 \<longrightarrow> (\<exists>name u. user_str e a1 32 k = Some name \<and> login_result_user (k_auth k') = Some u \<and>
       rights (k_sys k') i = rights (k_sys k) i OR ac_caps u \<and>
       (if a3 = 0 then \<exists>n. auth_find name (k_auth k) = Some n \<and> u = au_accounts (k_auth k) ! n
        else \<exists>t\<in>set (au_tickets (k_auth k)). live name t \<and> tk_tok t = a3 \<and> ac_caps u = tk_caps t)))"
  using login_rights [OF assms] by blast

lemma login_raises_rights_witness:
  "\<exists>k'. sys_session_login user_env 0x200000000000 1 0 user_kern = Ret 1 k' [] \<and>
    (\<exists>u. login_result_user (k_auth k') = Some u \<and>
      rights (k_sys k') 0 = rights (k_sys user_kern) 0 OR ac_caps u) \<and>
    rights (k_sys k') 1 = rights (k_sys user_kern) 1"
proof -
  obtain k' where e: "sys_session_login user_env 0x200000000000 1 0 user_kern = Ret 1 k' []"
    using user_name user_kern_simps(4) by (simp add: sys_session_login_def)
  from login_raises_rights [OF e user_kern_simps(2,3)] e show ?thesis by auto
qed

text \<open>C6. The login call never asks for a password: with no token, any process that may make system calls
  and can name an account gets all the capabilities of that account.\<close>

theorem login_without_password:
  assumes "current_proc k = Some p" "p_rights p AND CAP_SYSCALL \<noteq> 0" "user_str e a1 32 k = Some name"
    "auth_find name (k_auth k) = Some n" "a2 \<noteq> 0" "\<forall>i. cur (k_sys k) = Some i \<longrightarrow> i < length (procs (k_sys k))"
  shows "\<exists>k'. syscall_dispatch e SYS_SESSION_LOGIN a1 a2 0 a4 k = Ret 1 k' [] \<and>
    (\<exists>q. current_proc k' = Some q \<and> p_rights q = p_rights p OR ac_caps (au_accounts (k_auth k) ! n))"
proof -
  obtain i where c: "cur (k_sys k) = Some i" "p = procs (k_sys k) ! i"
    using assms(1) by (auto simp: current_proc_def)
  let ?u = "au_accounts (k_auth k) ! n"
  let ?k = "k\<lparr>k_pact := grant_all (k_pact k), k_auth := login_set_user (Some (Acct n)) (k_auth k),
     k_sys := raise_rights (ac_caps ?u) (k_sys k)\<rparr>"
  have "sys_session_login e a1 a2 0 k = Ret 1 ?k []"
    using assms(3,4,5) by (simp add: sys_session_login_def user_of_def)
  then have "syscall_dispatch e SYS_SESSION_LOGIN a1 a2 0 a4 k = Ret 1 ?k []"
    using assms(1,2) by (simp add: syscall_dispatch_def SYS_SESSION_LOGIN_def SYS_EXEC_def SYS_IPC_RECV_def SYS_FS_READ_def)
  moreover have "\<exists>q. current_proc ?k = Some q \<and> p_rights q = p_rights p OR ac_caps ?u"
    using c assms(6) by (simp add: current_proc_def raise_rights_def procs_upd)
  ultimately show ?thesis by blast
qed

lemma login_without_password_witness:
  "\<exists>k'. syscall_dispatch user_env SYS_SESSION_LOGIN 0x200000000000 1 0 0 user_kern = Ret 1 k' [] \<and>
    (\<exists>q. current_proc k' = Some q \<and> p_rights q = CAP_ALL)"
  using login_without_password [OF user_kern_simps(1) _ user_name user_kern_simps(4)] user_kern_simps
  by (simp add: user_proc_def cap_defs)

end
